(* ===== verification/Media_Prelude.thy ===== *)
theory Media_Prelude
  imports Main "HOL-Library.Word"
begin

text \<open>
  Shared vocabulary of the development: names for the fixed-width integers of the C++
  sources, the collections of simplification rules the component theories extend, and
  the generic facts about lists, bytes and bits that more than one component needs.
\<close>

unbundle bit_operations_syntax

section \<open>Types\<close>

type_synonym u8 = "8 word"
type_synonym u16 = "16 word"
type_synonym u32 = "32 word"
type_synonym u64 = "64 word"

text \<open>Times are microseconds; \<open>kNoTimestamp\<close> is the least \<open>TimeDelta\<close>.\<close>

definition kNoTimestamp :: int where
  "kNoTimestamp = - (2 ^ 63)"

section \<open>Rule collections\<close>

text \<open>
  \<open>model_defs\<close> collects the definitions of straight-line operations, which the proofs
  about whole calls unfold together; \<open>inv_intros\<close> the preservation lemmas of the
  component invariants.
\<close>

named_theorems model_defs
named_theorems inv_intros

section \<open>Lists\<close>

lemma nth_append_middle [simp]: "(xs @ y # ys) ! length xs = y"
  by simp

lemma update_append_middle [simp]: "(xs @ y # ys)[length xs := z] = xs @ z # ys"
  by (simp add: list_update_append)

lemma take_Suc_length_append: "take (Suc (length xs)) (xs @ y # ys) = xs @ [y]"
  by simp

lemma split_at_index:
  assumes "i < length xs"
  obtains as b bs where "xs = as @ b # bs" "length as = i"
  using assms id_take_nth_drop [of i xs] by (metis length_take min.absorb4)

lemma take_drop_append_take: "take (a + b) xs = take a xs @ take b (drop a xs)"
  by (simp add: take_add)

lemma drop_take_drop:
  assumes "k \<le> m"
  shows "drop k (take m xs) @ drop m xs = drop k xs"
  using assms drop_append [of k "take m xs" "drop m xs"]
  by (cases "m \<le> length xs") (simp_all del: drop_append)

lemma length_concat_map: "length (concat xss) = sum_list (map length xss)"
  by (simp add: length_concat)

section \<open>Words as bit lists, most significant bit first\<close>

definition msb_bits :: "'a::len word \<Rightarrow> bool list" where
  "msb_bits w = map (bit w) (rev [0..<LENGTH('a)])"

lemma length_msb_bits [simp]: "length (msb_bits (w :: 'a::len word)) = LENGTH('a)"
  by (simp add: msb_bits_def)

lemma nth_msb_bits [simp]:
  "i < LENGTH('a) \<Longrightarrow> msb_bits (w :: 'a::len word) ! i = bit w (LENGTH('a) - 1 - i)"
  by (simp add: msb_bits_def rev_nth)

text \<open>The number a bit list denotes.\<close>

definition bits_nat :: "bool list \<Rightarrow> nat" where
  "bits_nat bs = foldl (\<lambda>n b. 2 * n + of_bool b) 0 bs"

lemma bits_nat_Nil [simp]: "bits_nat [] = 0"
  by (simp add: bits_nat_def)

lemma bits_nat_snoc [simp]: "bits_nat (bs @ [b]) = 2 * bits_nat bs + of_bool b"
  by (simp add: bits_nat_def)

lemma bits_nat_append: "bits_nat (as @ bs) = bits_nat as * 2 ^ length bs + bits_nat bs"
  by (induction bs rule: rev_induct) (simp_all flip: append_assoc)

lemma bits_nat_replicate_False [simp]: "bits_nat (replicate n False) = 0"
  by (induction n) (simp_all flip: replicate_append_same)

lemma bits_nat_less: "bits_nat bs < 2 ^ length bs"
  by (induction bs rule: rev_induct) auto

lemma bits_nat_horner: "bits_nat bs = horner_sum of_bool 2 (rev bs)"
  by (induction bs rule: rev_induct) simp_all

lemma unat_eq_bits_nat: "unat (w :: 'a::len word) = bits_nat (msb_bits w)"
proof -
  have "bits_nat (msb_bits w) = horner_sum of_bool 2 (map (bit (unat w)) [0..<LENGTH('a)])"
    unfolding bits_nat_horner msb_bits_def rev_map rev_rev_ident
    by (rule arg_cong [where f = "horner_sum of_bool 2"]) (auto simp: bit_unsigned_iff)
  also have "\<dots> = unat w"
    by (simp only: horner_sum_bit_eq_take_bit) (simp add: take_bit_nat_eq_self)
  finally show ?thesis ..
qed

lemma unat_lessI: "uint v < int n \<Longrightarrow> unat v < n"
  by (simp flip: of_nat_less_iff [where 'a = int])

lemma msb_bits_inject: "msb_bits v = msb_bits w \<longleftrightarrow> v = w"
  using unat_eq_bits_nat by (metis word_unat_eq_iff)

lemma msb_bits_push_bit:
  "k \<le> LENGTH('a) \<Longrightarrow>
   msb_bits (push_bit k (w :: 'a::len word)) = drop k (msb_bits w) @ replicate k False"
  by (rule nth_equalityI) (auto simp: nth_append bit_push_bit_iff add.commute)

lemma msb_bits_drop_bit:
  "k \<le> LENGTH('a) \<Longrightarrow>
   msb_bits (drop_bit k (w :: 'a::len word)) =
   replicate k False @ take (LENGTH('a) - k) (msb_bits w)"
proof (rule nth_equalityI)
  fix i assume k: "k \<le> LENGTH('a)" and "i < length (msb_bits (drop_bit k w))"
  then have i: "i < LENGTH('a)" by simp
  show "msb_bits (drop_bit k w) ! i = (replicate k False @ take (LENGTH('a) - k) (msb_bits w)) ! i"
  proof (cases "i < k")
    case True
    then show ?thesis using i k by (auto simp: nth_append bit_drop_bit_eq dest: bit_imp_le_length)
  next
    case False
    then have "k + (LENGTH('a) - Suc i) = LENGTH('a) - Suc (i - k)" using i k by simp
    with False i k show ?thesis by (simp add: nth_append bit_drop_bit_eq)
  qed
qed simp

text \<open>Bytes joined into a word, the first byte the most significant.\<close>

definition be_word :: "u8 list \<Rightarrow> 'a::len word" where
  "be_word bs = foldl (\<lambda>v b. push_bit 8 v OR ucast b) 0 bs"

definition byte_bits :: "u8 list \<Rightarrow> bool list" where
  "byte_bits bs = concat (map msb_bits bs)"

lemma byte_bits_simps [simp]:
  "byte_bits [] = []" "byte_bits (b # bs) = msb_bits b @ byte_bits bs"
  "byte_bits (as @ bs) = byte_bits as @ byte_bits bs"
  by (simp_all add: byte_bits_def)

lemma length_byte_bits [simp]: "length (byte_bits bs) = 8 * length bs"
  by (induction bs) auto

lemma byte_bits_take: "take (8 * n) (byte_bits bs) = byte_bits (take n bs)"
proof (induction bs arbitrary: n)
  case (Cons b bs)
  then show ?case by (cases n) simp_all
qed simp

lemma byte_bits_drop: "drop (8 * n) (byte_bits bs) = byte_bits (drop n bs)"
proof (induction bs arbitrary: n)
  case (Cons b bs)
  then show ?case by (cases n) simp_all
qed simp

lemma msb_bits_be_word_snoc:
  "8 \<le> LENGTH('a) \<Longrightarrow>
   msb_bits (be_word (bs @ [b]) :: 'a::len word) = drop 8 (msb_bits (be_word bs :: 'a word)) @ msb_bits b"
  by (rule nth_equalityI)
     (auto simp: be_word_def nth_append bit_or_iff bit_push_bit_iff bit_ucast_iff algebra_simps
       dest: bit_imp_le_length)

lemma msb_bits_be_word:
  "8 * length bs \<le> LENGTH('a) \<Longrightarrow>
   msb_bits (be_word bs :: 'a::len word) = replicate (LENGTH('a) - 8 * length bs) False @ byte_bits bs"
proof (induction bs rule: rev_induct)
  case Nil
  then show ?case by (auto simp: be_word_def intro: nth_equalityI)
next
  case (snoc b bs)
  then show ?case by (simp add: msb_bits_be_word_snoc)
qed

lemma unat_be_word:
  "8 * length bs \<le> LENGTH('a) \<Longrightarrow> unat (be_word bs :: 'a::len word) = bits_nat (byte_bits bs)"
  by (simp add: unat_eq_bits_nat msb_bits_be_word bits_nat_append)

lemma bits_nat_Cons: "bits_nat (b # bs) = of_bool b * 2 ^ length bs + bits_nat bs"
  using bits_nat_append [of "[b]" bs] by (simp add: bits_nat_def)

lemma bits_nat_inject: "length as = length bs \<Longrightarrow> bits_nat as = bits_nat bs \<longleftrightarrow> as = bs"
proof (induction as bs rule: list_induct2)
  case (Cons a as b bs)
  then show ?case
    using bits_nat_less [of as] bits_nat_less [of bs] by (auto simp: bits_nat_Cons of_bool_def)
qed simp

lemma byte_bits_inject: "byte_bits as = byte_bits bs \<Longrightarrow> as = bs"
proof (induction as arbitrary: bs)
  case Nil
  then show ?case by (cases bs) (auto dest: arg_cong [where f = length])
next
  case (Cons a as)
  then obtain b bs' where bs: "bs = b # bs'" by (cases bs) (auto dest: arg_cong [where f = length])
  then show ?case using Cons by (auto simp: msb_bits_inject)
qed

section \<open>Memory\<close>

text \<open>\<open>memcpy\<close> of \<open>bs\<close> to position \<open>i\<close> of a block, in bounds exactly when the length is kept.\<close>

definition overwrite :: "nat \<Rightarrow> 'a list \<Rightarrow> 'a list \<Rightarrow> 'a list" where
  "overwrite i bs mem = take i mem @ bs @ drop (i + length bs) mem"

lemma length_overwrite [simp]:
  "i + length bs \<le> length mem \<Longrightarrow> length (overwrite i bs mem) = length mem"
  by (simp add: overwrite_def)

text \<open>The bytes from position \<open>i\<close> on, \<open>n\<close> of them.\<close>

definition mem_slice :: "nat \<Rightarrow> nat \<Rightarrow> 'a list \<Rightarrow> 'a list" where
  "mem_slice i n mem = take n (drop i mem)"

lemma length_mem_slice [simp]: "i + n \<le> length mem \<Longrightarrow> length (mem_slice i n mem) = n"
  by (simp add: mem_slice_def)

lemma mem_slice_overwrite_same:
  "i \<le> length mem \<Longrightarrow> mem_slice i (length bs) (overwrite i bs mem) = bs"
  by (simp add: mem_slice_def overwrite_def)

lemma mem_slice_overwrite_append:
  "i + n \<le> length mem \<Longrightarrow>
   mem_slice i (n + length bs) (overwrite (i + n) bs mem) = mem_slice i n mem @ bs"
proof -
  assume "i + n \<le> length mem"
  then have "drop i (overwrite (i + n) bs mem) = mem_slice i n mem @ bs @ drop (i + n + length bs) mem"
    by (simp add: overwrite_def mem_slice_def drop_take)
  with \<open>i + n \<le> length mem\<close> show ?thesis by (simp add: mem_slice_def)
qed

lemma drop_mem_slice: "drop k (mem_slice i n mem) = mem_slice (i + k) (n - k) mem"
  by (simp add: mem_slice_def drop_take add.commute)

section \<open>Big-endian numbers\<close>

definition be_int :: "u8 list \<Rightarrow> int" where
  "be_int bs = foldl (\<lambda>v b. v * 256 + uint b) 0 bs"

fun be_bytes :: "nat \<Rightarrow> int \<Rightarrow> u8 list" where
  "be_bytes 0 x = []"
| "be_bytes (Suc k) x = be_bytes k (x div 256) @ [word_of_int x]"

lemma be_int_Nil [simp]: "be_int [] = 0"
  by (simp add: be_int_def)

lemma be_int_snoc [simp]: "be_int (bs @ [b]) = be_int bs * 256 + uint b"
  by (simp add: be_int_def)

lemma be_int_append: "be_int (as @ bs) = be_int as * 256 ^ length bs + be_int bs"
  by (induction bs rule: rev_induct) (simp_all flip: append_assoc add: algebra_simps)

lemma be_int_Cons: "be_int (b # bs) = uint b * 256 ^ length bs + be_int bs"
  using be_int_append [of "[b]" bs] by (simp add: be_int_def)

lemma uint_u8: "uint (b :: u8) < 256" "0 \<le> uint b"
  using uint_lt2p [of b] by simp_all

lemma be_int_bounds: "0 \<le> be_int bs" "be_int bs < 256 ^ length bs"
proof -
  have "0 \<le> be_int bs \<and> be_int bs < 256 ^ length bs"
  proof (induction bs rule: rev_induct)
    case (snoc b bs)
    then show ?case using uint_u8 [of b] by auto
  qed simp
  then show "0 \<le> be_int bs" "be_int bs < 256 ^ length bs" by auto
qed

lemma length_be_bytes [simp]: "length (be_bytes k x) = k"
  by (induction k arbitrary: x) auto

lemma be_int_be_bytes: "be_int (be_bytes k x) = x mod 256 ^ k"
proof (induction k arbitrary: x)
  case (Suc k)
  have "x mod (256 * 256 ^ k) = 256 * (x div 256 mod 256 ^ k) + x mod 256"
    by (rule zmod_zmult2_eq) simp
  then show ?case using Suc by (simp add: uint_word_of_int algebra_simps)
qed simp

lemma base256_digit:
  fixes x y i j :: int
  assumes "x * 256 + i = y * 256 + j" "0 \<le> i" "i < 256" "0 \<le> j" "j < 256"
  shows "x = y" "i = j"
proof -
  have "x = (x * 256 + i) div 256" "y = (y * 256 + j) div 256" using assms(2-5) by simp_all
  then show "x = y" using assms(1) by simp
  then show "i = j" using assms(1) by simp
qed

lemma be_int_inject: "length as = length bs \<Longrightarrow> be_int as = be_int bs \<longleftrightarrow> as = bs"
proof (induction as arbitrary: bs rule: rev_induct)
  case (snoc a as)
  then obtain b bs' where bs: "bs = bs' @ [b]" "length as = length bs'"
    by (cases bs rule: rev_cases) auto
  have "be_int (as @ [a]) = be_int bs \<longleftrightarrow> be_int as = be_int bs' \<and> uint a = uint b"
    using base256_digit [of "be_int as" "uint a" "be_int bs'" "uint b"] uint_u8 [of a] uint_u8 [of b] bs
    by auto
  also have "\<dots> \<longleftrightarrow> as = bs' \<and> a = b"
    using snoc.IH [of bs'] bs by (auto simp: word_uint_eq_iff)
  finally show ?case using bs by simp
qed simp

lemma be_bytes_be_int [simp]: "be_bytes (length bs) (be_int bs) = bs"
  using be_int_inject [of "be_bytes (length bs) (be_int bs)" bs] be_int_bounds [of bs]
  by (simp add: be_int_be_bytes)

lemma be_bytes_Cons: "be_bytes (Suc k) x = word_of_int (x div 256 ^ k) # be_bytes k x"
proof (induction k arbitrary: x)
  case (Suc k)
  have "x div 256 div 256 ^ k = x div (256 * 256 ^ k)" by (simp add: zdiv_zmult2_eq)
  with Suc [of "x div 256"] show ?case by simp
qed simp

lemma push_bit_OR_uint: "push_bit 8 n OR uint (b :: u8) = n * 256 + uint b"
proof -
  have "push_bit 8 n AND uint b = 0"
    by (rule bit_eqI) (auto simp: bit_and_iff bit_push_bit_iff bit_uint_iff)
  then show ?thesis using plus_and_or [of "push_bit 8 n" "uint b"] by (simp add: push_bit_eq_mult)
qed

lemma and_not_mask: "(v :: int) AND NOT (2 ^ w - 1) = v - v mod 2 ^ w"
proof -
  have "(v AND mask w) AND (v AND NOT (mask w)) = 0" "(v AND mask w) OR (v AND NOT (mask w)) = v"
    by (rule bit_eqI; auto simp: bit_and_iff bit_or_iff bit_not_iff bit_mask_iff)+
  then have "v AND NOT (mask w) = v - take_bit w v"
    using plus_and_or [of "v AND mask w" "v AND NOT (mask w)"] by (simp add: take_bit_eq_mask)
  then show ?thesis by (simp add: mask_eq_exp_minus_1 take_bit_eq_mod)
qed

text \<open>The high bits of one number joined with the low bits of another.\<close>

lemma splice_low_bits:
  fixes v t :: int
  assumes "0 \<le> t" "t < 2 ^ n"
  shows "(v AND NOT (2 ^ n - 1)) OR t = v - v mod 2 ^ n + t"
proof -
  have t: "take_bit n t = t" using assms by (simp add: take_bit_int_eq_self)
  have "(v AND NOT (mask n)) AND t = 0"
    by (subst t [symmetric], rule bit_eqI) (auto simp: bit_and_iff bit_not_iff bit_mask_iff bit_take_bit_iff)
  then show ?thesis
    using plus_and_or [of "v AND NOT (mask n)" t] and_not_mask [of v n]
    by (simp add: mask_eq_exp_minus_1)
qed

lemma push_bit_OR:
  fixes x y :: int
  assumes "0 \<le> y" "y < 2 ^ n"
  shows "push_bit n x OR y = x * 2 ^ n + y"
proof -
  have y: "take_bit n y = y" using assms by (simp add: take_bit_int_eq_self)
  have "push_bit n x AND y = 0"
    by (subst y [symmetric], rule bit_eqI) (auto simp: bit_and_iff bit_push_bit_iff bit_take_bit_iff)
  then show ?thesis using plus_and_or [of "push_bit n x" y] by (simp add: push_bit_eq_mult)
qed

section \<open>Ordered maps\<close>

text \<open>\<open>std::map::insert\<close> into an ascending list: an entry that exists is kept.\<close>

definition map_insert :: "int \<Rightarrow> 'v \<Rightarrow> (int \<times> 'v) list \<Rightarrow> (int \<times> 'v) list" where
  "map_insert k v m = (if map_of m k = None then insort_key fst (k, v) m else m)"

end
