(* ===== verification/Time_Ranges.thy ===== *)
theory Time_Ranges
  imports Media_Prelude
begin

text \<open>
  The class template \<open>Ranges\<close> of \<open>base/ranges.h\<close>: the ordered list of half-open
  intervals in which the players report what is buffered. The vector \<open>ranges_\<close> is a
  list of pairs over any linear order; \<open>Add\<close> and \<open>IntersectionWith\<close> are the two
  operations that compute. The lemmas show the class's documented invariant (disjoint,
  increasing), that the two operations are union and intersection of the covered points,
  and that the stored list is the only one with its coverage, so that the order in which
  ranges were added cannot be observed.
\<close>

section \<open>The model\<close>

type_synonym 'a ranges = "('a \<times> 'a) list"

text \<open>The first loop of \<open>Add\<close>: skip the entries that end before \<open>start\<close>.\<close>

function add_slot :: "'a::linorder ranges \<Rightarrow> 'a \<Rightarrow> nat \<Rightarrow> nat" where
  "add_slot rs start i =
     (if i < length rs \<and> snd (rs ! i) < start then add_slot rs start (Suc i) else i)"
  by pat_completeness auto
termination by (relation "measure (\<lambda>(rs, start, i). length rs - i)") auto

text \<open>The last loop of \<open>Add\<close>: merge the \<open>i\<close>-th entry with its successors until a gap appears.\<close>

function merge_from :: "'a::linorder ranges \<Rightarrow> nat \<Rightarrow> 'a ranges" where
  "merge_from rs i =
     (if i + 1 < length rs \<and> fst (rs ! (i + 1)) \<le> snd (rs ! i)
      then merge_from
             (let rs1 = rs[i := (fst (rs ! i), max (snd (rs ! i)) (snd (rs ! (i + 1))))]
              in take (i + 1) rs1 @ drop (i + 2) rs1) i
      else rs)"
  by pat_completeness auto
termination by (relation "measure (\<lambda>(rs, i). length rs)") (auto simp: Let_def)

declare add_slot.simps [simp del] merge_from.simps [simp del]

definition Ranges_Add :: "'a::linorder \<Rightarrow> 'a \<Rightarrow> 'a ranges \<Rightarrow> 'a ranges \<times> nat" where
  "Ranges_Add start end rs =
     (if start = end then (rs, length rs)
      else let i = add_slot rs start 0 in
        if i = length rs then (let rs1 = rs @ [(start, end)] in (rs1, length rs1))
        else if end < fst (rs ! i)
        then (let rs1 = take i rs @ (start, end) # drop i rs in (rs1, length rs1))
        else
          let rs1 = (if start < fst (rs ! i) then rs[i := (start, snd (rs ! i))] else rs);
              rs2 = (if snd (rs1 ! i) < end then rs1[i := (fst (rs1 ! i), end)] else rs1);
              rs3 = merge_from rs2 i
          in (rs3, length rs3))"

definition Ranges_size :: "'a ranges \<Rightarrow> nat" where
  "Ranges_size rs = length rs"

text \<open>\<open>start\<close> and \<open>end\<close> index the vector unchecked: \<open>None\<close> is the out-of-range access.\<close>

definition Ranges_start :: "'a ranges \<Rightarrow> nat \<Rightarrow> 'a option" where
  "Ranges_start rs i = (if i < length rs then Some (fst (rs ! i)) else None)"

definition Ranges_end :: "'a ranges \<Rightarrow> nat \<Rightarrow> 'a option" where
  "Ranges_end rs i = (if i < length rs then Some (snd (rs ! i)) else None)"

definition Ranges_clear :: "'a ranges \<Rightarrow> 'a ranges" where
  "Ranges_clear rs = []"

function intersection_loop ::
  "'a::linorder ranges \<Rightarrow> 'a ranges \<Rightarrow> nat \<Rightarrow> nat \<Rightarrow> 'a ranges \<Rightarrow> 'a ranges" where
  "intersection_loop rs os i j result =
     (if i < length rs \<and> j < length os then
        let max_start = max (fst (rs ! i)) (fst (os ! j));
            min_end = min (snd (rs ! i)) (snd (os ! j));
            result' = (if max_start < min_end then fst (Ranges_Add max_start min_end result) else result)
        in if snd (rs ! i) < snd (os ! j)
           then intersection_loop rs os (i + 1) j result'
           else intersection_loop rs os i (j + 1) result'
      else result)"
  by pat_completeness auto
termination
  by (relation "measure (\<lambda>(rs, os, i, j, result). (length rs - i) + (length os - j))") auto

declare intersection_loop.simps [simp del]

definition Ranges_IntersectionWith :: "'a::linorder ranges \<Rightarrow> 'a ranges \<Rightarrow> 'a ranges" where
  "Ranges_IntersectionWith rs os = intersection_loop rs os 0 0 []"


section \<open>Coverage and the class invariant\<close>

definition covers :: "'a::linorder ranges \<Rightarrow> 'a \<Rightarrow> bool" where
  "covers rs x \<longleftrightarrow> (\<exists>(s, e) \<in> set rs. s \<le> x \<and> x < e)"

text \<open>
  Non-empty entries, with a point between the end of one and the start of the next:
  touching ranges are coalesced.
\<close>

fun ranges_ok :: "'a::linorder ranges \<Rightarrow> bool" where
  "ranges_ok [] = True"
| "ranges_ok [(s, e)] = (s < e)"
| "ranges_ok ((s, e) # (s', e') # rs) = (s < e \<and> e < s' \<and> ranges_ok ((s', e') # rs))"

lemma covers_Nil [simp]: "\<not> covers [] x"
  by (simp add: covers_def)

lemma covers_Cons [simp]: "covers ((s, e) # rs) x \<longleftrightarrow> s \<le> x \<and> x < e \<or> covers rs x"
  by (auto simp: covers_def)

lemma covers_append [simp]: "covers (rs @ os) x \<longleftrightarrow> covers rs x \<or> covers os x"
  by (auto simp: covers_def)

lemma ranges_ok_Cons:
  "ranges_ok (r # rs) \<longleftrightarrow> fst r < snd r \<and> (rs = [] \<or> snd r < fst (hd rs)) \<and> ranges_ok rs"
  by (cases r; cases rs) auto

lemma ranges_ok_append:
  "ranges_ok (rs @ os) \<longleftrightarrow> ranges_ok rs \<and> ranges_ok os \<and>
     (rs = [] \<or> os = [] \<or> snd (last rs) < fst (hd os))"
  by (induction rs) (auto simp: ranges_ok_Cons)

lemma ranges_ok_last_max: "ranges_ok rs \<Longrightarrow> r \<in> set rs \<Longrightarrow> snd r \<le> snd (last rs)"
proof (induction rs arbitrary: r)
  case (Cons q rs)
  show ?case
  proof (cases "rs = []")
    case False
    then have "fst (hd rs) < snd (hd rs)" "snd q < fst (hd rs)"
      using Cons.prems(1) by (cases rs; simp add: ranges_ok_Cons)+
    moreover have "snd (hd rs) \<le> snd (last rs)"
      using Cons.IH [of "hd rs"] Cons.prems(1) False by (simp add: ranges_ok_Cons)
    ultimately have "snd q \<le> snd (last rs)" by order
    moreover have "snd r \<le> snd (last rs)" if "r \<in> set rs"
      using Cons.IH [OF _ that] Cons.prems(1) by (simp add: ranges_ok_Cons)
    ultimately show ?thesis
      using Cons.prems(2) False by auto
  qed (use Cons.prems in simp)
qed simp

lemma ranges_ok_hd_min: "ranges_ok rs \<Longrightarrow> r \<in> set rs \<Longrightarrow> fst (hd rs) \<le> fst r"
proof (induction rs arbitrary: r)
  case (Cons q rs)
  then show ?case by (cases "rs = []") (fastforce simp: ranges_ok_Cons)+
qed simp

lemma covers_ge_hd: "ranges_ok rs \<Longrightarrow> covers rs x \<Longrightarrow> fst (hd rs) \<le> x"
  by (auto simp: covers_def dest!: ranges_ok_hd_min)

lemma covers_less_last: "ranges_ok rs \<Longrightarrow> covers rs x \<Longrightarrow> x < snd (last rs)"
  by (auto simp: covers_def dest!: ranges_ok_last_max)

section \<open>Add\<close>

text \<open>Where the first loop stops, and the second loop as a recursion on the tail.\<close>

lemma add_slot_append:
  assumes "\<forall>r \<in> set pre. snd r < start"
  shows "k \<le> length pre \<Longrightarrow> add_slot (pre @ post) start k = add_slot (pre @ post) start (length pre)"
proof (induction "length pre - k" arbitrary: k)
  case (Suc n)
  then have k: "k < length pre" "(pre @ post) ! k = pre ! k" by (auto simp: nth_append)
  moreover have "snd (pre ! k) < start" using assms k(1) nth_mem by blast
  ultimately have "add_slot (pre @ post) start k = add_slot (pre @ post) start (Suc k)"
    by (subst add_slot.simps) simp
  with Suc show ?case by simp
qed simp

lemma add_slot_eq:
  assumes "\<forall>r \<in> set pre. snd r < start" "post = [] \<or> start \<le> snd (hd post)"
  shows "add_slot (pre @ post) start 0 = length pre"
proof -
  have "add_slot (pre @ post) start 0 = add_slot (pre @ post) start (length pre)"
    using add_slot_append [OF assms(1), of 0 post] by simp
  also have "\<dots> = length pre"
    using assms(2) by (subst add_slot.simps) (auto simp: nth_append hd_conv_nth)
  finally show ?thesis .
qed

fun merge_tail :: "'a::linorder \<times> 'a \<Rightarrow> 'a ranges \<Rightarrow> 'a ranges" where
  "merge_tail (s, e) [] = [(s, e)]"
| "merge_tail (s, e) ((s', e') # rs) =
     (if s' \<le> e then merge_tail (s, max e e') rs else (s, e) # (s', e') # rs)"

lemma merge_from_eq: "merge_from (pre @ r # post) (length pre) = pre @ merge_tail r post"
proof (induction r post rule: merge_tail.induct)
  case (1 s e)
  show ?case by (subst merge_from.simps) simp
next
  case (2 s e s' e' rs)
  have n: "(pre @ (s, e) # (s', e') # rs) ! Suc (length pre) = (s', e')"
    by (simp add: nth_append)
  show ?case
  proof (cases "s' \<le> e")
    case True
    then show ?thesis using 2 by (subst merge_from.simps) (simp add: n)
  next
    case False
    then show ?thesis by (subst merge_from.simps) (simp add: n)
  qed
qed

lemma merge_tail_fst: "merge_tail r rs \<noteq> [] \<and> fst (hd (merge_tail r rs)) = fst r"
  by (induction r rs rule: merge_tail.induct) auto

lemma merge_tail_ok:
  "fst r < snd r \<Longrightarrow> ranges_ok rs \<Longrightarrow> ranges_ok (merge_tail r rs)"
  by (induction r rs rule: merge_tail.induct) (auto simp: ranges_ok_Cons less_max_iff_disj)

lemma merge_tail_covers:
  "fst r < snd r \<Longrightarrow> ranges_ok rs \<Longrightarrow> rs = [] \<or> fst r \<le> fst (hd rs) \<Longrightarrow>
   covers (merge_tail r rs) x \<longleftrightarrow> fst r \<le> x \<and> x < snd r \<or> covers rs x"
proof (induction r rs rule: merge_tail.induct)
  case (2 s e s' e' rs)
  show ?case
  proof (cases "s' \<le> e")
    case True
    have "rs = [] \<or> s \<le> fst (hd rs)" using 2 by (auto simp: ranges_ok_Cons)
    then show ?thesis using True 2 by (auto simp: ranges_ok_Cons less_max_iff_disj)
  qed simp
qed simp

text \<open>The list \<open>Add\<close> works on, split at its slot.\<close>

definition before_slot :: "'a::linorder ranges \<Rightarrow> 'a \<Rightarrow> 'a ranges" where
  "before_slot rs start = takeWhile (\<lambda>r. snd r < start) rs"

definition from_slot :: "'a::linorder ranges \<Rightarrow> 'a \<Rightarrow> 'a ranges" where
  "from_slot rs start = dropWhile (\<lambda>r. snd r < start) rs"

lemma slot_split: "rs = before_slot rs start @ from_slot rs start"
  by (simp add: before_slot_def from_slot_def)

lemma add_slot_before: "add_slot rs start 0 = length (before_slot rs start)"
proof -
  have "post = [] \<or> start \<le> snd (hd post)" if "post = from_slot rs start" for post
    using hd_dropWhile [of "\<lambda>r. snd r < start" rs] that
    by (auto simp: from_slot_def not_less simp del: dropWhile_eq_Nil_conv)
  moreover have "\<forall>r \<in> set (before_slot rs start). snd r < start"
    by (auto simp: before_slot_def dest: set_takeWhileD)
  ultimately show ?thesis
    using add_slot_eq [of "before_slot rs start" start "from_slot rs start"] slot_split [of rs start]
    by metis
qed

lemma Ranges_Add_eq:
  assumes "start < end"
  shows "fst (Ranges_Add start end rs) = before_slot rs start @
    (case from_slot rs start of
       [] \<Rightarrow> [(start, end)]
     | (s, e) # post \<Rightarrow>
         if end < s then (start, end) # (s, e) # post
         else merge_tail (min s start, max e end) post)"
proof (cases "from_slot rs start")
  case Nil
  then show ?thesis
    using assms slot_split [of rs start]
    by (simp add: Ranges_Add_def add_slot_before Let_def)
next
  case (Cons r post)
  obtain s e where r: "r = (s, e)" by (cases r)
  have rs: "rs = before_slot rs start @ (s, e) # post"
    using slot_split [of rs start] Cons r by simp
  define pre where "pre = before_slot rs start"
  have slot: "add_slot rs start 0 = length pre"
    by (simp add: add_slot_before pre_def)
  have rs': "rs = pre @ (s, e) # post" using rs pre_def by simp
  show ?thesis
    using assms
    unfolding Ranges_Add_def slot Let_def pre_def [symmetric] Cons r
    by (auto simp: rs' merge_from_eq min_def max_def)
qed

lemma before_slot_facts:
  assumes "ranges_ok rs"
  shows "ranges_ok (before_slot rs start)" "ranges_ok (from_slot rs start)"
    "r \<in> set (before_slot rs start) \<Longrightarrow> snd r < start"
    "from_slot rs start \<noteq> [] \<Longrightarrow> start \<le> snd (hd (from_slot rs start))"
    "before_slot rs start \<noteq> [] \<Longrightarrow> from_slot rs start \<noteq> [] \<Longrightarrow>
       snd (last (before_slot rs start)) < fst (hd (from_slot rs start))"
proof -
  have "ranges_ok (before_slot rs start @ from_slot rs start)"
    using assms slot_split [of rs start] by simp
  then show "ranges_ok (before_slot rs start)" "ranges_ok (from_slot rs start)"
    "before_slot rs start \<noteq> [] \<Longrightarrow> from_slot rs start \<noteq> [] \<Longrightarrow>
       snd (last (before_slot rs start)) < fst (hd (from_slot rs start))"
    by (auto simp: ranges_ok_append)
  show "r \<in> set (before_slot rs start) \<Longrightarrow> snd r < start"
    by (auto simp: before_slot_def dest: set_takeWhileD)
  show "from_slot rs start \<noteq> [] \<Longrightarrow> start \<le> snd (hd (from_slot rs start))"
    using hd_dropWhile [of "\<lambda>r. snd r < start" rs] by (auto simp: from_slot_def)
qed

lemma Ranges_Add_empty: "fst (Ranges_Add a a rs) = rs"
  by (simp add: Ranges_Add_def)

lemma Ranges_Add_ok:
  assumes "ranges_ok rs" "start \<le> end"
  shows "ranges_ok (fst (Ranges_Add start end rs))"
proof (cases "start = end")
  case True
  then show ?thesis using assms by (simp add: Ranges_Add_empty)
next
  case False
  then have lt: "start < end" using assms by simp
  note f = before_slot_facts [OF assms(1), where start = start]
  have last: "before_slot rs start \<noteq> [] \<Longrightarrow> snd (last (before_slot rs start)) < start"
    by (rule f(3)) simp
  show ?thesis
  proof (cases "from_slot rs start")
    case Nil
    then show ?thesis using lt f(1) last by (auto simp: Ranges_Add_eq ranges_ok_append)
  next
    case (Cons r post)
    obtain s e where r: "r = (s, e)" by (cases r)
    have "ranges_ok (merge_tail (min s start, max e end) post)"
      using f(2) Cons r lt by (intro merge_tail_ok) (auto simp: ranges_ok_Cons min_less_iff_disj less_max_iff_disj)
    then show ?thesis
      using lt f(1,2,4,5) last Cons r merge_tail_fst [of "(min s start, max e end)" post]
      by (auto simp: Ranges_Add_eq ranges_ok_append ranges_ok_Cons)
  qed
qed

lemma Ranges_Add_covers:
  assumes "ranges_ok rs" "start \<le> end"
  shows "covers (fst (Ranges_Add start end rs)) x \<longleftrightarrow> covers rs x \<or> start \<le> x \<and> x < end"
proof (cases "start = end")
  case True
  then show ?thesis using assms by (auto simp: Ranges_Add_empty)
next
  case False
  then have lt: "start < end" using assms by simp
  note f = before_slot_facts [OF assms(1), where start = start]
  have rs: "covers rs x \<longleftrightarrow> covers (before_slot rs start) x \<or> covers (from_slot rs start) x"
    using slot_split [of rs start] covers_append by metis
  show ?thesis
  proof (cases "from_slot rs start")
    case Nil
    then show ?thesis using lt rs by (auto simp: Ranges_Add_eq)
  next
    case (Cons r post)
    obtain s e where r: "r = (s, e)" by (cases r)
    have m: "covers (merge_tail (min s start, max e end) post) x \<longleftrightarrow>
        min s start \<le> x \<and> x < max e end \<or> covers post x"
      using f(2) Cons r lt
      by (subst merge_tail_covers) (auto simp: ranges_ok_Cons min_less_iff_disj less_max_iff_disj min_le_iff_disj)
    show ?thesis
      using lt f(4) Cons r rs m
      by (auto simp: Ranges_Add_eq min_le_iff_disj less_max_iff_disj)
  qed
qed

section \<open>Canonical form\<close>

text \<open>
  The end of the first entry is the least uncovered point after its start, so coverage
  determines the list.
\<close>

lemma covers_first_entry:
  assumes "ranges_ok ((s, e) # rs)"
  shows "covers ((s, e) # rs) s" "\<And>x. covers ((s, e) # rs) x \<Longrightarrow> s \<le> x"
    "\<not> covers ((s, e) # rs) e" "\<And>x. s \<le> x \<Longrightarrow> x < e \<Longrightarrow> covers ((s, e) # rs) x"
    "\<And>x. covers rs x \<longleftrightarrow> covers ((s, e) # rs) x \<and> e \<le> x"
proof -
  have rs: "e < x" if "covers rs x" for x
    using covers_ge_hd [OF _ that] that assms by (auto simp: ranges_ok_Cons)
  show "covers ((s, e) # rs) s" "\<And>x. s \<le> x \<Longrightarrow> x < e \<Longrightarrow> covers ((s, e) # rs) x"
    using assms by (auto simp: ranges_ok_Cons)
  show "\<not> covers ((s, e) # rs) e" using rs [of e] by auto
  show "s \<le> x" if "covers ((s, e) # rs) x" for x
    using that rs [of x] assms by (auto simp: ranges_ok_Cons)
  show "covers rs x \<longleftrightarrow> covers ((s, e) # rs) x \<and> e \<le> x" for x
    using rs [of x] by auto
qed

lemma covers_first_unique:
  assumes "ranges_ok ((s, e) # rs)" "ranges_ok ((s', e') # os)"
    and "\<And>x. covers ((s, e) # rs) x \<longleftrightarrow> covers ((s', e') # os) x"
  shows "s = s' \<and> e = e'"
proof
  note a = covers_first_entry [OF assms(1)] and b = covers_first_entry [OF assms(2)]
  show s: "s = s'" using a(1,2) b(1,2) assms(3) by (meson order_antisym)
  have "s < e" "s' < e'" using assms(1,2) by (simp_all add: ranges_ok_Cons)
  then show "e = e'"
    using a(3,4) b(3,4) assms(3) s by (meson less_imp_le linorder_less_linear)
qed

lemma ranges_ok_unique:
  "ranges_ok rs \<Longrightarrow> ranges_ok os \<Longrightarrow> (\<And>x. covers rs x \<longleftrightarrow> covers os x) \<Longrightarrow> rs = os"
proof (induction rs arbitrary: os)
  case Nil
  show ?case
  proof (cases os)
    case (Cons r os')
    then show ?thesis
      using Nil covers_first_entry(1) [of "fst r" "snd r" os'] by (cases r) auto
  qed simp
next
  case (Cons r rs)
  obtain s e where r: "r = (s, e)" by (cases r)
  show ?case
  proof (cases os)
    case Nil
    then show ?thesis
      using Cons.prems r covers_first_entry(1) [of s e rs] by auto
  next
    case os: (Cons r' os')
    obtain s' e' where r': "r' = (s', e')" by (cases r')
    have eq: "s = s'" "e = e'"
      using covers_first_unique [of s e rs s' e' os'] Cons.prems r os r' by auto
    have "covers rs x \<longleftrightarrow> covers os' x" for x
      using covers_first_entry(5) [of s e rs x] covers_first_entry(5) [of s' e' os' x]
        Cons.prems r os r' eq by simp
    then have "rs = os'"
      using Cons.IH [of os'] Cons.prems os by (auto simp: ranges_ok_Cons)
    then show ?thesis using os r r' eq by simp
  qed
qed

section \<open>IntersectionWith\<close>

text \<open>
  Advancing past the entry that ends first loses nothing: the other list's later
  entries all start beyond its end.
\<close>

lemma covers_step:
  assumes "ranges_ok ((s, e) # rs)" "ranges_ok ((s', e') # os)" "e \<le> e'"
  shows "covers ((s, e) # rs) x \<and> covers ((s', e') # os) x \<longleftrightarrow>
    max s s' \<le> x \<and> x < min e e' \<or> covers rs x \<and> covers ((s', e') # os) x"
proof -
  have "e' < x" if "covers os x"
    using covers_ge_hd [OF _ that] that assms(2) by (auto simp: ranges_ok_Cons)
  then show ?thesis using assms(3) by auto
qed

lemma ranges_ok_drop: "ranges_ok rs \<Longrightarrow> ranges_ok (drop i rs)"
  using ranges_ok_append [of "take i rs" "drop i rs"] by simp

lemma intersection_loop_correct:
  assumes "ranges_ok rs" "ranges_ok os"
  shows "ranges_ok result \<Longrightarrow> ranges_ok (intersection_loop rs os i j result) \<and>
    (\<forall>x. covers (intersection_loop rs os i j result) x \<longleftrightarrow>
         covers result x \<or> covers (drop i rs) x \<and> covers (drop j os) x)"
  using assms
proof (induction rs os i j result rule: intersection_loop.induct)
  case (1 rs os i j result)
  show ?case
  proof (cases "i < length rs \<and> j < length os")
    case False
    then show ?thesis
      using 1 by (subst (1 2) intersection_loop.simps) auto
  next
    case True
    obtain s e where r: "rs ! i = (s, e)" by (cases "rs ! i")
    obtain s' e' where o: "os ! j = (s', e')" by (cases "os ! j")
    have dr: "drop i rs = (s, e) # drop (i + 1) rs" and do: "drop j os = (s', e') # drop (j + 1) os"
      using True r o by (metis Cons_nth_drop_Suc Suc_eq_plus1)+
    have okr: "ranges_ok ((s, e) # drop (i + 1) rs)" and oko: "ranges_ok ((s', e') # drop (j + 1) os)"
      using ranges_ok_drop 1 dr do by metis+
    define result' where "result' =
      (if max s s' < min e e' then fst (Ranges_Add (max s s') (min e e') result) else result)"
    have ok': "ranges_ok result'"
      using "1.prems" by (auto simp: result'_def intro!: Ranges_Add_ok)
    have cov': "covers result' x \<longleftrightarrow> covers result x \<or> max s s' \<le> x \<and> x < min e e'" for x
    proof (cases "max s s' < min e e'")
      case True
      then show ?thesis
        using Ranges_Add_covers [OF "1.prems"(1) less_imp_le [OF True], of x]
        by (simp add: result'_def del: max_less_iff_conj min_less_iff_conj max.bounded_iff)
    qed (auto simp: result'_def)
    show ?thesis
    proof (cases "e < e'")
      case True': True
      have eq: "intersection_loop rs os i j result = intersection_loop rs os (i + 1) j result'"
        using True True' r o by (subst intersection_loop.simps) (simp add: result'_def)
      have "ranges_ok (intersection_loop rs os (i + 1) j result') \<and>
          (\<forall>x. covers (intersection_loop rs os (i + 1) j result') x \<longleftrightarrow>
             covers result' x \<or> covers (drop (i + 1) rs) x \<and> covers (drop j os) x)"
        by (rule "1.IH"(1) [OF True, of "max s s'" "min e e'" result'])
           (use True' ok' "1.prems" in \<open>simp_all add: r o result'_def\<close>)
      then show ?thesis
        using covers_step [OF okr oko] True' unfolding eq dr do cov' by auto
    next
      case False
      have eq: "intersection_loop rs os i j result = intersection_loop rs os i (j + 1) result'"
        using True False r o by (subst intersection_loop.simps) (simp add: result'_def)
      have "ranges_ok (intersection_loop rs os i (j + 1) result') \<and>
          (\<forall>x. covers (intersection_loop rs os i (j + 1) result') x \<longleftrightarrow>
             covers result' x \<or> covers (drop i rs) x \<and> covers (drop (j + 1) os) x)"
        by (rule "1.IH"(2) [OF True, of "max s s'" "min e e'" result'])
           (use False ok' "1.prems" in \<open>simp_all add: r o result'_def\<close>)
      moreover have "covers ((s, e) # drop (i + 1) rs) x \<and> covers ((s', e') # drop (j + 1) os) x \<longleftrightarrow>
          max s s' \<le> x \<and> x < min e e' \<or>
          covers ((s, e) # drop (i + 1) rs) x \<and> covers (drop (j + 1) os) x" for x
        using covers_step [OF oko okr, of x] False
        by (metis max.commute min.commute not_less)
      ultimately show ?thesis
        unfolding eq dr do cov' by (auto simp del: covers_Cons)
    qed
  qed
qed

section \<open>The contract of a coverage container\<close>

text \<open>
  What a client of \<open>Ranges\<close> relies on: a container whose additions unite coverage and
  whose representation is determined by its coverage. The clients' lemma, that a batch
  of additions may be made in any order, is proved from the contract alone.
\<close>

locale coverage_container =
  fixes ok :: "'r \<Rightarrow> bool"
    and cov :: "'r \<Rightarrow> 'a \<Rightarrow> bool"
    and add :: "'i \<Rightarrow> 'r \<Rightarrow> 'r"
    and within :: "'i \<Rightarrow> 'a \<Rightarrow> bool"
    and valid :: "'i \<Rightarrow> bool"
  assumes add_ok: "ok r \<Longrightarrow> valid i \<Longrightarrow> ok (add i r)"
    and add_cov: "ok r \<Longrightarrow> valid i \<Longrightarrow> cov (add i r) x \<longleftrightarrow> cov r x \<or> within i x"
    and canonical: "ok r \<Longrightarrow> ok r' \<Longrightarrow> (\<And>x. cov r x \<longleftrightarrow> cov r' x) \<Longrightarrow> r = r'"
begin

lemma fold_ok: "ok r \<Longrightarrow> \<forall>i \<in> set is. valid i \<Longrightarrow> ok (fold add is r)"
  by (induction "is" arbitrary: r) (auto intro: add_ok)

lemma fold_cov:
  "ok r \<Longrightarrow> \<forall>i \<in> set is. valid i \<Longrightarrow>
   cov (fold add is r) x \<longleftrightarrow> cov r x \<or> (\<exists>i \<in> set is. within i x)"
  by (induction "is" arbitrary: r) (auto simp: add_ok add_cov)

lemma fold_same_set:
  assumes "ok r" "\<forall>i \<in> set is. valid i" "set is = set js"
  shows "fold add is r = fold add js r"
  using assms by (intro canonical) (auto simp: fold_ok fold_cov)

end

definition add_range :: "'a::linorder \<times> 'a \<Rightarrow> 'a ranges \<Rightarrow> 'a ranges" where
  "add_range r rs = fst (Ranges_Add (fst r) (snd r) rs)"

lemma add_range_alt: "(\<lambda>(s, e) rs. fst (Ranges_Add s e rs)) = add_range"
  by (auto simp: add_range_def fun_eq_iff)

interpretation ranges_cov: coverage_container
  ranges_ok covers add_range "\<lambda>r x. fst r \<le> x \<and> x < snd r" "\<lambda>r. fst r \<le> snd r"
  by unfold_locales
     (auto simp: add_range_def Ranges_Add_ok Ranges_Add_covers intro: ranges_ok_unique)

section \<open>Properties\<close>

text \<open>
  C1: \<open>Ranges::Add\<close> keeps the vector's documented invariant (non-empty intervals in
  increasing order, with a gap between neighbours), covers exactly the points covered
  before plus \<open>[start, end)\<close>, and returns the number of stored intervals.
\<close>

theorem Ranges_Add_correct:
  assumes "ranges_ok rs" "start \<le> end"
  shows "ranges_ok (fst (Ranges_Add start end rs)) \<and>
    {x. covers (fst (Ranges_Add start end rs)) x} = {x. covers rs x} \<union> {start..<end} \<and>
    snd (Ranges_Add start end rs) = Ranges_size (fst (Ranges_Add start end rs))"
  using assms
  by (auto simp: Ranges_Add_ok Ranges_Add_covers) (simp add: Ranges_Add_def Ranges_size_def Let_def)

theorem Ranges_Add_correct_witness:
  "fst (Ranges_Add (4::int) 12 [(1, 3), (5, 6), (9, 12), (20, 30)]) = [(1, 3), (4, 12), (20, 30)] \<and>
   ranges_ok (fst (Ranges_Add (4::int) 12 [(1, 3), (5, 6), (9, 12), (20, 30)]))"
proof -
  have "ranges_ok [(1, 3), (5, 6), (9, 12), (20, 30::int)]" "(4::int) \<le> 12" by simp_all
  from Ranges_Add_correct [OF this] show ?thesis
    by (simp add: Ranges_Add_eq before_slot_def from_slot_def)
qed

text \<open>
  C36: \<open>Ranges::IntersectionWith\<close> returns a well-formed container that covers exactly
  the points both operands cover.
\<close>

theorem Ranges_IntersectionWith_correct:
  assumes "ranges_ok rs" "ranges_ok os"
  shows "ranges_ok (Ranges_IntersectionWith rs os) \<and>
    {x. covers (Ranges_IntersectionWith rs os) x} = {x. covers rs x} \<inter> {x. covers os x}"
  using intersection_loop_correct [OF assms, of "[]" 0 0]
  by (auto simp: Ranges_IntersectionWith_def)

theorem Ranges_IntersectionWith_correct_witness:
  "ranges_ok (Ranges_IntersectionWith [(0, 5), (7, 9::int)] [(3, 8)]) \<and>
   covers (Ranges_IntersectionWith [(0, 5), (7, 9::int)] [(3, 8)]) 4"
  using Ranges_IntersectionWith_correct [of "[(0, 5), (7, 9::int)]" "[(3, 8)]"]
  by (auto simp: set_eq_iff)

text \<open>
  The stored vector depends only on which intervals were added, not on the order or
  the number of times they were.
\<close>

theorem Ranges_Add_order_irrelevant:
  assumes "ranges_ok rs" "\<forall>r \<in> set is. fst r \<le> snd r" "set is = set js"
  shows "fold (\<lambda>(s, e) rs. fst (Ranges_Add s e rs)) is rs =
         fold (\<lambda>(s, e) rs. fst (Ranges_Add s e rs)) js rs"
  unfolding add_range_alt using assms by (rule ranges_cov.fold_same_set)

theorem Ranges_Add_order_irrelevant_witness:
  "fold (\<lambda>(s, e) rs. fst (Ranges_Add s e rs)) [(1, 3), (2, 6)] [] =
   fold (\<lambda>(s, e) rs. fst (Ranges_Add s e rs)) [(2, 6), (1, 3), (2, 6::int)] []"
  by (rule Ranges_Add_order_irrelevant) auto

end
