(* ===== verification/Bit_Reader.thy ===== *)
theory Bit_Reader
  imports Media_Prelude
begin

text \<open>
  \<open>BitReaderCore\<close> (\<open>base/bit_reader_core.cc\<close>) and \<open>BitReader\<close> (\<open>base/bit_reader.cc\<close>): the
  two-register big-endian bit reader under every bitstream parser. The registers are 64-bit
  words; the \<open>int\<close> bit counts, which the code checks to be non-negative, are naturals. The
  \<open>ByteStreamProvider\<close> interface is the locale \<open>byte_stream\<close>, with the provider's
  state as a type parameter of the reader; \<open>BitReader\<close>'s own \<open>GetBytes\<close> interprets it. Every
  operation is shown to act on the remaining input, seen as a list of bits, the way the
  header documents, and a failed read to leave a reader that can only fail.
\<close>

section \<open>The reader core\<close>

record 'p bit_reader_core =
  byte_stream_provider :: 'p
  bits_read :: nat
  nbits :: nat
  reg :: u64
  nbits_next :: nat
  reg_next :: u64

type_synonym 'p get_bytes = "nat \<Rightarrow> 'p \<Rightarrow> u8 list \<times> 'p"

definition kRegWidthInBits :: nat where
  "kRegWidthInBits = 64"

definition BitReaderCore_init :: "'p \<Rightarrow> 'p bit_reader_core" where
  "BitReaderCore_init p =
     \<lparr>byte_stream_provider = p, bits_read = 0, nbits = 0, reg = 0, nbits_next = 0, reg_next = 0\<rparr>"

definition RefillCurrentRegister :: "'p bit_reader_core \<Rightarrow> 'p bit_reader_core" where
  "RefillCurrentRegister c =
     (if nbits c = kRegWidthInBits \<or> nbits_next c = 0 then c
      else
        let c1 = c\<lparr>reg := reg c OR drop_bit (nbits c) (reg_next c)\<rparr>;
            free_nbits = kRegWidthInBits - nbits c1
        in if free_nbits \<ge> nbits_next c1
           then c1\<lparr>nbits := nbits c1 + nbits_next c1, reg_next := 0, nbits_next := 0\<rparr>
           else c1\<lparr>nbits := nbits c1 + free_nbits,
                   reg_next := push_bit free_nbits (reg_next c1),
                   nbits_next := nbits_next c1 - free_nbits\<rparr>)"

text \<open>
  \<open>memcpy\<close> into a zeroed register and \<open>NetToHost64\<close>: the bytes fill the register from the
  most significant end.
\<close>

definition load_reg_next :: "u8 list \<Rightarrow> u64" where
  "load_reg_next window = be_word (window @ replicate (8 - length window) 0)"

definition Refill :: "'p get_bytes \<Rightarrow> nat \<Rightarrow> 'p bit_reader_core \<Rightarrow> bool \<times> 'p bit_reader_core" where
  "Refill get min_nbits c =
     (let c1 = RefillCurrentRegister c in
      if min_nbits \<le> nbits c1 then (True, c1)
      else
        let max_nbytes = 8;
            (byte_stream_window, p) = get max_nbytes (byte_stream_provider c1);
            window_size = length byte_stream_window;
            c2 = c1\<lparr>byte_stream_provider := p\<rparr>
        in if window_size = 0 then (False, c2)
           else
             let c3 = c2\<lparr>reg_next := load_reg_next byte_stream_window,
                         nbits_next := window_size * 8\<rparr>;
                 c4 = RefillCurrentRegister c3
             in (nbits c4 \<ge> min_nbits, c4))"

definition ReadFlag :: "'p get_bytes \<Rightarrow> 'p bit_reader_core \<Rightarrow> bool option \<times> 'p bit_reader_core" where
  "ReadFlag get c =
     (let (ok, c1) = (if nbits c = 0 then Refill get 1 c else (True, c)) in
      if \<not> ok then (None, c1)
      else (Some (bit (reg c1) (kRegWidthInBits - 1)),
            c1\<lparr>reg := push_bit 1 (reg c1), nbits := nbits c1 - 1, bits_read := bits_read c1 + 1\<rparr>))"

definition PeekBitsMsbAligned ::
  "'p get_bytes \<Rightarrow> nat \<Rightarrow> 'p bit_reader_core \<Rightarrow> (nat \<times> u64) \<times> 'p bit_reader_core" where
  "PeekBitsMsbAligned get num_bits c =
     (let c1 = (if nbits c < num_bits then snd (Refill get num_bits c) else c)
      in ((nbits c1, reg c1), c1))"

definition ReadBitsInternal ::
  "'p get_bytes \<Rightarrow> nat \<Rightarrow> 'p bit_reader_core \<Rightarrow> u64 option \<times> 'p bit_reader_core" where
  "ReadBitsInternal get num_bits c =
     (if num_bits = 0 then (Some 0, c)
      else
        let (ok, c1) = (if num_bits > nbits c then Refill get num_bits c else (True, c)) in
        if \<not> ok then (None, c1\<lparr>nbits := 0, reg := 0\<rparr>)
        else
          let c2 = c1\<lparr>bits_read := bits_read c1 + num_bits\<rparr> in
          if num_bits = kRegWidthInBits then (Some (reg c2), c2\<lparr>reg := 0, nbits := 0\<rparr>)
          else (Some (drop_bit (kRegWidthInBits - num_bits) (reg c2)),
                c2\<lparr>reg := push_bit num_bits (reg c2), nbits := nbits c2 - num_bits\<rparr>))"

text \<open>The template \<open>ReadBits<T>\<close>: the register value cast to the width of \<open>T\<close>.\<close>

definition ReadBits ::
  "'p get_bytes \<Rightarrow> nat \<Rightarrow> 'p bit_reader_core \<Rightarrow> 't::len word option \<times> 'p bit_reader_core" where
  "ReadBits get num_bits c =
     (let (temp, c1) = ReadBitsInternal get num_bits c in (map_option ucast temp, c1))"

function SkipBitsSmall :: "'p get_bytes \<Rightarrow> nat \<Rightarrow> 'p bit_reader_core \<Rightarrow> bool \<times> 'p bit_reader_core" where
  "SkipBitsSmall get num_bits c =
     (if num_bits \<ge> kRegWidthInBits then
        let (dummy, c1) = ReadBitsInternal get kRegWidthInBits c in
        if dummy = None then (False, c1)
        else SkipBitsSmall get (num_bits - kRegWidthInBits) c1
      else
        let (dummy, c1) = ReadBitsInternal get num_bits c in (dummy \<noteq> None, c1))"
  by pat_completeness auto
termination
  by (relation "measure (\<lambda>(get, num_bits, c). num_bits)") (auto simp: kRegWidthInBits_def)

declare SkipBitsSmall.simps [simp del]

definition SkipBits :: "'p get_bytes \<Rightarrow> nat \<Rightarrow> 'p bit_reader_core \<Rightarrow> bool \<times> 'p bit_reader_core" where
  "SkipBits get num_bits c =
     (let remaining_bits = nbits c + nbits_next c in
      if remaining_bits \<ge> num_bits then SkipBitsSmall get num_bits c
      else
        let num_bits1 = num_bits - remaining_bits;
            c1 = c\<lparr>bits_read := bits_read c + remaining_bits,
                   nbits := 0, reg := 0, nbits_next := 0, reg_next := 0\<rparr>;
            nbytes = num_bits1 div 8
        in if nbytes > 0 then
             let (window, p) = get nbytes (byte_stream_provider c1);
                 window_size = length window;
                 c2 = c1\<lparr>byte_stream_provider := p\<rparr>
             in if window_size < nbytes
                then (False, c2\<lparr>bits_read := bits_read c2 + 8 * window_size\<rparr>)
                else SkipBitsSmall get (num_bits1 - 8 * nbytes)
                       (c2\<lparr>bits_read := bits_read c2 + 8 * nbytes\<rparr>)
           else SkipBitsSmall get num_bits1 c1)"

section \<open>The byte reader over a buffer\<close>

text \<open>
  The provider half of \<open>BitReader\<close>: \<open>data_\<close> is the list of bytes from the pointer on,
  \<open>bytes_left_\<close> the count that \<open>GetBytes\<close> serves from it.
\<close>

record byte_source =
  source_data :: "u8 list"
  bytes_left :: nat

definition BitReader_GetBytes :: "byte_source get_bytes" where
  "BitReader_GetBytes max_nbytes p =
     (let nbytes = (if max_nbytes > bytes_left p then bytes_left p else max_nbytes)
      in (take nbytes (source_data p),
          p\<lparr>source_data := drop nbytes (source_data p), bytes_left := bytes_left p - nbytes\<rparr>))"

record bit_reader =
  initial_size :: nat
  bit_reader_core :: "byte_source bit_reader_core"

definition BitReader_init :: "u8 list \<Rightarrow> nat \<Rightarrow> bit_reader" where
  "BitReader_init data sz =
     \<lparr>initial_size = sz,
      bit_reader_core = BitReaderCore_init \<lparr>source_data = data, bytes_left = sz\<rparr>\<rparr>"

definition BitReader_ReadBits :: "nat \<Rightarrow> bit_reader \<Rightarrow> 't::len word option \<times> bit_reader" where
  "BitReader_ReadBits num_bits r =
     (let (v, c) = ReadBits BitReader_GetBytes num_bits (bit_reader_core r)
      in (v, r\<lparr>bit_reader_core := c\<rparr>))"

definition BitReader_ReadFlag :: "bit_reader \<Rightarrow> bool option \<times> bit_reader" where
  "BitReader_ReadFlag r =
     (let (v, c) = ReadFlag BitReader_GetBytes (bit_reader_core r)
      in (v, r\<lparr>bit_reader_core := c\<rparr>))"

definition BitReader_SkipBits :: "nat \<Rightarrow> bit_reader \<Rightarrow> bool \<times> bit_reader" where
  "BitReader_SkipBits num_bits r =
     (let (v, c) = SkipBits BitReader_GetBytes num_bits (bit_reader_core r)
      in (v, r\<lparr>bit_reader_core := c\<rparr>))"

definition BitReader_bits_read :: "bit_reader \<Rightarrow> nat" where
  "BitReader_bits_read r = bits_read (bit_reader_core r)"

definition BitReader_bits_available :: "bit_reader \<Rightarrow> int" where
  "BitReader_bits_available r = int (initial_size r * 8) - int (BitReader_bits_read r)"

text \<open>The loop of \<open>ReadString\<close>: \<open>num_bytes\<close> reads of eight bits, the first failure ends it.\<close>

fun read_string_loop :: "nat \<Rightarrow> bit_reader \<Rightarrow> u8 list option \<times> bit_reader" where
  "read_string_loop 0 r = (Some [], r)"
| "read_string_loop (Suc num_bytes) r =
     (let (v, r1) = BitReader_ReadBits 8 r in
      case v of
        None \<Rightarrow> (None, r1)
      | Some c \<Rightarrow> (let (str, r2) = read_string_loop num_bytes r1 in (map_option (Cons c) str, r2)))"

definition BitReader_ReadString :: "nat \<Rightarrow> bit_reader \<Rightarrow> (u8 list option \<times> bit_reader) option" where
  "BitReader_ReadString num_bits r =
     (if num_bits mod 8 \<noteq> 0 then None
      else if \<not> num_bits > 0 then None
      else Some (read_string_loop (num_bits div 8) r))"

section \<open>Registers as bit lists\<close>

text \<open>
  A register holds its unconsumed bits at the most significant end and zeros below, which
  is what lets the refill combine registers with \<open>OR\<close>.
\<close>

definition reg_bits :: "nat \<Rightarrow> u64 \<Rightarrow> bool list" where
  "reg_bits n w = take n (msb_bits w)"

definition reg_ok :: "nat \<Rightarrow> u64 \<Rightarrow> bool" where
  "reg_ok n w \<longleftrightarrow> n \<le> 64 \<and> (\<forall>i < 64 - n. \<not> bit w i)"

definition core_ok :: "'p bit_reader_core \<Rightarrow> bool" where
  "core_ok c \<longleftrightarrow> reg_ok (nbits c) (reg c) \<and> reg_ok (nbits_next c) (reg_next c)"

definition buffered_bits :: "'p bit_reader_core \<Rightarrow> bool list" where
  "buffered_bits c = reg_bits (nbits c) (reg c) @ reg_bits (nbits_next c) (reg_next c)"

lemma length_reg_bits [simp]: "reg_ok n w \<Longrightarrow> length (reg_bits n w) = n"
  by (simp add: reg_bits_def reg_ok_def)

lemma reg_bits_0 [simp]: "reg_bits 0 w = []"
  by (simp add: reg_bits_def)

lemma reg_ok_0 [simp]: "reg_ok 0 0"
  by (simp add: reg_ok_def)

lemma reg_ok_iff: "reg_ok n w \<longleftrightarrow> n \<le> 64 \<and> msb_bits w = reg_bits n w @ replicate (64 - n) False"
proof
  assume ok: "reg_ok n w"
  have "msb_bits w = reg_bits n w @ replicate (64 - n) False"
  proof (rule nth_equalityI)
    fix i assume "i < length (msb_bits w)"
    then show "msb_bits w ! i = (reg_bits n w @ replicate (64 - n) False) ! i"
      using ok by (auto simp: reg_bits_def reg_ok_def nth_append)
  qed (use ok in \<open>simp add: reg_ok_def\<close>)
  then show "n \<le> 64 \<and> msb_bits w = reg_bits n w @ replicate (64 - n) False"
    using ok by (simp add: reg_ok_def)
next
  assume *: "n \<le> 64 \<and> msb_bits w = reg_bits n w @ replicate (64 - n) False"
  have "\<not> bit w i" if "i < 64 - n" for i
  proof -
    have "bit w i = msb_bits w ! (63 - i)" using that by simp
    also have "\<dots> = (reg_bits n w @ replicate (64 - n) False) ! (63 - i)" using * by metis
    also have "\<not> \<dots>"
    proof -
      have "\<not> 63 - i < n" "63 - i - n < 64 - n" using that by linarith+
      with conjunct1 [OF *] show ?thesis by (simp add: nth_append reg_bits_def)
    qed
    finally show ?thesis .
  qed
  then show "reg_ok n w" using * by (simp add: reg_ok_def)
qed

lemma msb_bits_reg: "reg_ok n w \<Longrightarrow> msb_bits w = reg_bits n w @ replicate (64 - n) False"
  by (simp add: reg_ok_iff)

lemma reg_okI: "n \<le> 64 \<Longrightarrow> msb_bits w = bs @ replicate (64 - n) False \<Longrightarrow> length bs = n \<Longrightarrow>
  reg_ok n w \<and> reg_bits n w = bs"
  by (simp add: reg_ok_iff reg_bits_def)

lemma reg_push:
  assumes "reg_ok n w" "k \<le> n"
  shows "reg_ok (n - k) (push_bit k w)" "reg_bits (n - k) (push_bit k w) = drop k (reg_bits n w)"
proof -
  have n: "n \<le> 64" using assms by (simp add: reg_ok_def)
  have "msb_bits (push_bit k w) = drop k (reg_bits n w) @ replicate (64 - n) False @ replicate k False"
    using assms n by (simp add: msb_bits_push_bit msb_bits_reg [OF assms(1)])
  also have "replicate (64 - n) False @ replicate k False = replicate (64 - (n - k)) False"
    using assms n by (simp flip: replicate_add)
  finally have "reg_ok (n - k) (push_bit k w) \<and> reg_bits (n - k) (push_bit k w) = drop k (reg_bits n w)"
    using assms n by (intro reg_okI) auto
  then show "reg_ok (n - k) (push_bit k w)" "reg_bits (n - k) (push_bit k w) = drop k (reg_bits n w)"
    by simp_all
qed

lemma reg_or:
  assumes "reg_ok n v" "reg_ok m w"
  shows "reg_ok (min 64 (n + m)) (v OR drop_bit n w)"
    "reg_bits (min 64 (n + m)) (v OR drop_bit n w) = reg_bits n v @ take (64 - n) (reg_bits m w)"
proof -
  have nm: "n \<le> 64" "m \<le> 64" using assms by (simp_all add: reg_ok_def)
  have "msb_bits (v OR drop_bit n w) = reg_bits n v @ take (64 - n) (msb_bits w)"
  proof (rule nth_equalityI)
    fix i assume "i < length (msb_bits (v OR drop_bit n w))"
    then have i: "i < 64" by simp
    have o: "msb_bits (v OR drop_bit n w) ! i \<longleftrightarrow> bit v (63 - i) \<or> bit w (n + (63 - i))"
      using i by (simp add: bit_or_iff bit_drop_bit_eq)
    show "msb_bits (v OR drop_bit n w) ! i = (reg_bits n v @ take (64 - n) (msb_bits w)) ! i"
    proof (cases "i < n")
      case True
      then have "\<not> bit w (n + (63 - i))" using i by (auto dest: bit_imp_le_length)
      with True i nm show ?thesis unfolding o by (simp add: nth_append reg_bits_def)
    next
      case False
      then have "\<not> bit v (63 - i)" using assms(1) i by (auto simp: reg_ok_def)
      moreover have "n + (63 - i) = 63 - (i - n)" using False i by simp
      ultimately show ?thesis using False i nm assms(1) unfolding o by (simp add: nth_append)
    qed
  qed (use nm assms(1) in simp)
  also have "take (64 - n) (msb_bits w) =
      take (64 - n) (reg_bits m w) @ replicate (64 - min 64 (n + m)) False"
    unfolding msb_bits_reg [OF assms(2)] using assms(2) nm by (auto simp: take_append min_def)
  finally have "reg_ok (min 64 (n + m)) (v OR drop_bit n w) \<and>
      reg_bits (min 64 (n + m)) (v OR drop_bit n w) = reg_bits n v @ take (64 - n) (reg_bits m w)"
    using assms nm by (intro reg_okI) auto
  then show "reg_ok (min 64 (n + m)) (v OR drop_bit n w)"
    "reg_bits (min 64 (n + m)) (v OR drop_bit n w) = reg_bits n v @ take (64 - n) (reg_bits m w)"
    by simp_all
qed

lemma reg_load:
  assumes "length window \<le> 8"
  shows "reg_ok (8 * length window) (load_reg_next window)"
    "reg_bits (8 * length window) (load_reg_next window) = byte_bits window"
proof -
  have z: "byte_bits (replicate n 0) = replicate (8 * n) False" for n
    by (induction n) (auto simp: msb_bits_def replicate_add bot_fun_def map_replicate_const)
  have "msb_bits (load_reg_next window) = byte_bits window @ replicate (64 - 8 * length window) False"
    using assms unfolding load_reg_next_def
    by (subst msb_bits_be_word) (auto simp: z right_diff_distrib')
  then have "reg_ok (8 * length window) (load_reg_next window) \<and>
      reg_bits (8 * length window) (load_reg_next window) = byte_bits window"
    using assms by (intro reg_okI) auto
  then show "reg_ok (8 * length window) (load_reg_next window)"
    "reg_bits (8 * length window) (load_reg_next window) = byte_bits window" by simp_all
qed

section \<open>Refilling\<close>

lemma RefillCurrentRegister_correct:
  assumes "core_ok c" "c' = RefillCurrentRegister c"
  shows "core_ok c'" "buffered_bits c' = buffered_bits c"
    "byte_stream_provider c' = byte_stream_provider c" "bits_read c' = bits_read c"
    "nbits c \<le> nbits c'" "nbits c' = 64 \<or> nbits_next c' = 0"
proof -
  have ok: "reg_ok (nbits c) (reg c)" "reg_ok (nbits_next c) (reg_next c)"
    and le: "nbits c \<le> 64" "nbits_next c \<le> 64"
    using assms by (auto simp: core_ok_def reg_ok_def)
  have m: "min 64 (nbits c + nbits_next c) =
      (if nbits_next c \<le> 64 - nbits c then nbits c + nbits_next c else 64)"
    using le by auto
  note defs = assms(2) RefillCurrentRegister_def kRegWidthInBits_def core_ok_def buffered_bits_def Let_def
  show "byte_stream_provider c' = byte_stream_provider c" "bits_read c' = bits_read c"
    "nbits c \<le> nbits c'" "nbits c' = 64 \<or> nbits_next c' = 0"
    using le by (auto simp: defs)
  show "core_ok c'"
    using ok le reg_or [OF ok] reg_push(1) [OF ok(2), of "64 - nbits c"] unfolding m
    by (auto simp: defs split: if_splits)
  show "buffered_bits c' = buffered_bits c"
    using ok le reg_or [OF ok] reg_push(2) [OF ok(2), of "64 - nbits c"] unfolding m
    by (auto simp: defs split: if_splits)
qed

section \<open>The provider contract and the reader's operations\<close>

text \<open>
  \<open>GetBytes\<close> consumes a prefix of the remaining stream, as long as asked for unless the
  stream ends first.
\<close>

locale byte_stream =
  fixes get :: "'p get_bytes"
    and rest :: "'p \<Rightarrow> u8 list"
  assumes get_length: "length (fst (get n p)) = min n (length (rest p))"
    and get_prefix: "fst (get n p) @ rest (snd (get n p)) = rest p"
begin

definition remaining_bits :: "'p bit_reader_core \<Rightarrow> bool list" where
  "remaining_bits c = buffered_bits c @ byte_bits (rest (byte_stream_provider c))"

lemma get_eq: "get n p = (take n (rest p), snd (get n p))" "rest (snd (get n p)) = drop n (rest p)"
proof -
  have "fst (get n p) = take n (rest p)"
    using get_prefix [of n p] get_length [of n p]
    by (metis append_eq_conv_conj min.commute take_take take_all_iff order_refl length_take)
  then show "get n p = (take n (rest p), snd (get n p))" by (metis prod.collapse)
  then show "rest (snd (get n p)) = drop n (rest p)"
    using get_prefix [of n p] by (metis append_take_drop_id fst_conv same_append_eq)
qed

lemma Refill_correct:
  assumes ok: "core_ok c" and n: "n \<le> 64" and r: "Refill get n c = (b, c')"
  shows "core_ok c'" "remaining_bits c' = remaining_bits c" "bits_read c' = bits_read c"
    "b \<longleftrightarrow> n \<le> length (remaining_bits c)" "b \<longleftrightarrow> n \<le> nbits c'"
    "\<not> b \<Longrightarrow> nbits_next c' = 0 \<and> rest (byte_stream_provider c') = []"
proof -
  define c1 where "c1 = RefillCurrentRegister c"
  note c1 = RefillCurrentRegister_correct [OF ok c1_def]
  define p where "p = byte_stream_provider c1"
  define window where "window = take 8 (rest p)"
  define p' where "p' = snd (get 8 p)"
  have get8: "get 8 p = (window, p')" and p': "rest p' = drop 8 (rest p)"
    using get_eq [of 8 p] by (simp_all add: window_def p'_def)
  define c3 where "c3 = c1\<lparr>byte_stream_provider := p',
    reg_next := load_reg_next window, nbits_next := 8 * length window\<rparr>"
  define c4 where "c4 = RefillCurrentRegister c3"
  have eq: "Refill get n c =
      (if n \<le> nbits c1 then (True, c1)
       else if window = [] then (False, c1\<lparr>byte_stream_provider := p'\<rparr>)
       else (n \<le> nbits c4, c4))"
    unfolding Refill_def Let_def c1_def [symmetric] p_def [symmetric] get8
    by (simp add: c3_def c4_def mult.commute)
  have rem1: "remaining_bits c1 = remaining_bits c"
    using c1 by (simp add: remaining_bits_def)
  have len1: "length (remaining_bits c1) = nbits c1 + nbits_next c1 + 8 * length (rest p)"
    using c1(1) by (simp add: remaining_bits_def buffered_bits_def core_ok_def p_def)
  show "core_ok c'" "remaining_bits c' = remaining_bits c" "bits_read c' = bits_read c"
    "b \<longleftrightarrow> n \<le> length (remaining_bits c)" "b \<longleftrightarrow> n \<le> nbits c'"
    "\<not> b \<Longrightarrow> nbits_next c' = 0 \<and> rest (byte_stream_provider c') = []"
  proof -
    consider (full) "n \<le> nbits c1" | (dry) "\<not> n \<le> nbits c1" "window = []"
      | (load) "\<not> n \<le> nbits c1" "window \<noteq> []" by blast
    then have "core_ok c' \<and> remaining_bits c' = remaining_bits c \<and> bits_read c' = bits_read c \<and>
      (b \<longleftrightarrow> n \<le> length (remaining_bits c)) \<and> (b \<longleftrightarrow> n \<le> nbits c') \<and>
      (\<not> b \<longrightarrow> nbits_next c' = 0 \<and> rest (byte_stream_provider c') = [])"
    proof cases
      case full
      then show ?thesis using r c1 rem1 len1 unfolding eq by auto
    next
      case dry
      then have next0: "nbits_next c1 = 0" using c1(6) n by auto
      have nil: "rest p = []" using dry by (simp add: window_def)
      have c': "b = False" "c' = c1\<lparr>byte_stream_provider := p'\<rparr>"
        using r dry unfolding eq by auto
      have "remaining_bits c' = remaining_bits c1"
        using nil p' by (simp add: c' remaining_bits_def buffered_bits_def p_def)
      then show ?thesis
        using c1 rem1 len1 dry next0 nil p' by (simp add: c' core_ok_def)
    next
      case load
      then have next0: "nbits_next c1 = 0" using c1(6) n by auto
      have wlen: "length window \<le> 8" by (simp add: window_def)
      have ok3: "core_ok c3"
        using c1(1) reg_load(1) [OF wlen] by (simp add: c3_def core_ok_def)
      have "remaining_bits c3 = remaining_bits c1"
        using reg_load(2) [OF wlen] next0 p'
        by (simp add: c3_def remaining_bits_def buffered_bits_def p_def [symmetric] window_def
            flip: byte_bits_simps(3))
      note c4 = RefillCurrentRegister_correct [OF ok3 c4_def]
      have c': "b = (n \<le> nbits c4)" "c' = c4"
        using r load unfolding eq by auto
      have rem4: "remaining_bits c4 = remaining_bits c"
        using c4 rem1 \<open>remaining_bits c3 = remaining_bits c1\<close> by (simp add: remaining_bits_def)
      have p4: "rest (byte_stream_provider c4) = drop 8 (rest p)"
        using c4 p' by (simp add: c3_def)
      have len4: "length (remaining_bits c4) =
          nbits c4 + nbits_next c4 + 8 * length (rest (byte_stream_provider c4))"
        using c4(1) by (simp add: remaining_bits_def buffered_bits_def core_ok_def)
      have fail: "nbits_next c4 = 0 \<and> rest (byte_stream_provider c4) = []" if "\<not> n \<le> nbits c4"
      proof
        show "nbits_next c4 = 0" using c4(6) n that by auto
        show "rest (byte_stream_provider c4) = []"
        proof (rule ccontr)
          assume "rest (byte_stream_provider c4) \<noteq> []"
          then have "8 * length window = 64" using p4 by (simp add: window_def)
          moreover have "length (buffered_bits c4) = length (buffered_bits c3)" using c4(2) by simp
          ultimately have "nbits c4 + nbits_next c4 \<ge> 64"
            using c4(1) ok3 by (simp add: buffered_bits_def core_ok_def c3_def)
          with \<open>nbits_next c4 = 0\<close> that n show False by simp
        qed
      qed
      have "n \<le> nbits c4 \<longleftrightarrow> n \<le> length (remaining_bits c)"
        using fail len4 rem4 by (cases "n \<le> nbits c4") auto
      then show ?thesis using c4 rem4 fail by (simp add: c' c3_def c1)
    qed
    then show "core_ok c'" "remaining_bits c' = remaining_bits c" "bits_read c' = bits_read c"
    "b \<longleftrightarrow> n \<le> length (remaining_bits c)" "b \<longleftrightarrow> n \<le> nbits c'"
    "\<not> b \<Longrightarrow> nbits_next c' = 0 \<and> rest (byte_stream_provider c') = []" by auto
  qed
qed

lemma core_remaining:
  assumes "core_ok c" "n \<le> nbits c"
  shows "take n (remaining_bits c) = take n (msb_bits (reg c))"
  using assms by (simp add: remaining_bits_def buffered_bits_def core_ok_def reg_ok_def reg_bits_def min_def)

lemma length_remaining:
  "core_ok c \<Longrightarrow>
   length (remaining_bits c) = nbits c + nbits_next c + 8 * length (rest (byte_stream_provider c))"
  by (simp add: remaining_bits_def buffered_bits_def core_ok_def)

text \<open>Consuming \<open>n\<close> bits that are in the current register.\<close>

lemma consume_register:
  assumes ok: "core_ok c" and n: "n \<le> nbits c"
    and c': "c' = c\<lparr>reg := w, nbits := nbits c - n, bits_read := k\<rparr>"
    and w: "n < 64 \<Longrightarrow> w = push_bit n (reg c)" "n = 64 \<Longrightarrow> w = 0"
  shows "core_ok c' \<and> remaining_bits c' = drop n (remaining_bits c)"
proof -
  have r: "reg_ok (nbits c) (reg c)" and nb: "nbits c \<le> 64"
    using ok by (auto simp: core_ok_def reg_ok_def)
  have "reg_ok (nbits c - n) w \<and> reg_bits (nbits c - n) w = drop n (reg_bits (nbits c) (reg c))"
  proof (cases "n = 64")
    case True
    then show ?thesis using w n nb r by (simp add: reg_bits_def)
  next
    case False
    then show ?thesis using w n nb reg_push [OF r n] by simp
  qed
  then show ?thesis using ok n r by (simp add: c' core_ok_def remaining_bits_def buffered_bits_def)
qed

lemma ReadBitsInternal_correct:
  assumes ok: "core_ok c" and n: "n \<le> 64" and r: "ReadBitsInternal get n c = (v, c')"
  shows "core_ok c'"
    "n \<le> length (remaining_bits c) \<Longrightarrow>
       (\<exists>w. v = Some w \<and> unat w = bits_nat (take n (remaining_bits c))) \<and>
       remaining_bits c' = drop n (remaining_bits c) \<and> bits_read c' = bits_read c + n"
    "\<not> n \<le> length (remaining_bits c) \<Longrightarrow>
       v = None \<and> remaining_bits c' = [] \<and> bits_read c' = bits_read c"
proof -
  have "core_ok c' \<and>
    (n \<le> length (remaining_bits c) \<longrightarrow>
       (\<exists>w. v = Some w \<and> unat w = bits_nat (take n (remaining_bits c))) \<and>
       remaining_bits c' = drop n (remaining_bits c) \<and> bits_read c' = bits_read c + n) \<and>
    (\<not> n \<le> length (remaining_bits c) \<longrightarrow>
       v = None \<and> remaining_bits c' = [] \<and> bits_read c' = bits_read c)"
  proof (cases "n = 0")
    case True
    then show ?thesis using r ok by (auto simp: ReadBitsInternal_def)
  next
    case False
    obtain b c1 where b: "(if n > nbits c then Refill get n c else (True, c)) = (b, c1)"
      by (cases "if n > nbits c then Refill get n c else (True, c)") auto
    have c1: "core_ok c1" "remaining_bits c1 = remaining_bits c" "bits_read c1 = bits_read c"
      "b \<longleftrightarrow> n \<le> length (remaining_bits c)" "b \<longleftrightarrow> n \<le> nbits c1"
      "\<not> b \<Longrightarrow> nbits_next c1 = 0 \<and> rest (byte_stream_provider c1) = []"
      using Refill_correct [OF ok n, of b c1] b ok length_remaining [OF ok]
      by (auto split: if_splits)
    show ?thesis
    proof (cases b)
      case False
      then have "v = None" "c' = c1\<lparr>nbits := 0, reg := 0\<rparr>"
        using r b \<open>n \<noteq> 0\<close> by (simp_all add: ReadBitsInternal_def)
      then show ?thesis
        using c1 False by (simp add: core_ok_def remaining_bits_def buffered_bits_def)
    next
      case True
      define w where "w = (if n = 64 then reg c1 else drop_bit (64 - n) (reg c1))"
      have v: "v = Some w"
        and c': "c' = c1\<lparr>reg := (if n = 64 then 0 else push_bit n (reg c1)),
                         nbits := nbits c1 - n, bits_read := bits_read c1 + n\<rparr>"
        using r b True \<open>n \<noteq> 0\<close> n c1(1,5)
        by (auto simp: ReadBitsInternal_def w_def Let_def kRegWidthInBits_def core_ok_def reg_ok_def)
      have "msb_bits w = replicate (64 - n) False @ take n (msb_bits (reg c1))"
        using n by (simp add: w_def msb_bits_drop_bit)
      then have "unat w = bits_nat (take n (msb_bits (reg c1)))"
        by (simp add: unat_eq_bits_nat bits_nat_append)
      also have "\<dots> = bits_nat (take n (remaining_bits c))"
        using core_remaining [OF c1(1)] c1 True by simp
      finally have "unat w = bits_nat (take n (remaining_bits c))" .
      moreover have "core_ok c' \<and> remaining_bits c' = drop n (remaining_bits c1)"
        by (rule consume_register [OF c1(1) _ c']) (use c1 True n in auto)
      ultimately show ?thesis using c1 True v c' by simp
    qed
  qed
  then show "core_ok c'"
    "n \<le> length (remaining_bits c) \<Longrightarrow>
       (\<exists>w. v = Some w \<and> unat w = bits_nat (take n (remaining_bits c))) \<and>
       remaining_bits c' = drop n (remaining_bits c) \<and> bits_read c' = bits_read c + n"
    "\<not> n \<le> length (remaining_bits c) \<Longrightarrow>
       v = None \<and> remaining_bits c' = [] \<and> bits_read c' = bits_read c" by auto
qed

text \<open>\<open>ReadFlag\<close> is \<open>ReadBitsInternal\<close> of one bit.\<close>

lemma ReadFlag_eq:
  assumes "core_ok c"
  shows "ReadFlag get c = (let (v, c') = ReadBitsInternal get 1 c in (map_option (\<lambda>w. w = 1) v, c'))"
proof -
  obtain b c1 where b: "(if nbits c = 0 then Refill get 1 c else (True, c)) = (b, c1)"
    by (cases "if nbits c = 0 then Refill get 1 c else (True, c)") auto
  have zero: "c1\<lparr>nbits := 0, reg := 0\<rparr> = c1" if "\<not> b"
  proof -
    have "core_ok c1" "nbits c1 = 0"
      using Refill_correct [OF assms, of 1 b c1] b that by (auto split: if_splits)
    then have "reg_ok 0 (reg c1)" by (simp add: core_ok_def)
    then have "reg c1 = 0" by (intro bit_word_eqI) (auto simp: reg_ok_def)
    with \<open>nbits c1 = 0\<close> show ?thesis by simp
  qed
  have one: "drop_bit 63 w = 1 \<longleftrightarrow> bit w 63" for w :: u64
  proof -
    have "drop_bit 63 w AND 1 = drop_bit 63 w"
      by (rule bit_word_eqI) (auto simp: bit_and_iff bit_drop_bit_eq bit_1_iff dest: bit_imp_le_length)
    then show ?thesis by (simp add: bit_word_iff_drop_bit_and)
  qed
  show ?thesis
    using b zero by (auto simp: ReadFlag_def ReadBitsInternal_def Let_def kRegWidthInBits_def one)
qed

lemma ReadBitsInternal_uniform:
  assumes "core_ok c" "n \<le> 64" "ReadBitsInternal get n c = (v, c')"
  shows "core_ok c'" "v \<noteq> None \<longleftrightarrow> n \<le> length (remaining_bits c)"
    "remaining_bits c' = drop n (remaining_bits c)" "v \<noteq> None \<Longrightarrow> bits_read c' = bits_read c + n"
  using ReadBitsInternal_correct [OF assms] by (cases "n \<le> length (remaining_bits c)"; auto)+

lemma SkipBitsSmall_correct:
  "core_ok c \<Longrightarrow> SkipBitsSmall get n c = (b, c') \<Longrightarrow>
   core_ok c' \<and> (b \<longleftrightarrow> n \<le> length (remaining_bits c)) \<and>
   remaining_bits c' = drop n (remaining_bits c) \<and> (b \<longrightarrow> bits_read c' = bits_read c + n)"
proof (induction n arbitrary: c rule: less_induct)
  case (less n c)
  define k where "k = (if 64 \<le> n then 64 else n)"
  have k: "k \<le> 64" "k \<le> n" by (simp_all add: k_def)
  obtain v c1 where v: "ReadBitsInternal get k c = (v, c1)" by fastforce
  note read = ReadBitsInternal_uniform [OF less.prems(1) k(1) v]
  show ?case
  proof (cases "64 \<le> n \<and> v \<noteq> None")
    case False
    then have "b = (v \<noteq> None)" "c' = c1" "v \<noteq> None \<Longrightarrow> k = n"
      using less.prems(2) v
      by (cases "64 \<le> n"; auto simp: SkipBitsSmall.simps [of get n c] kRegWidthInBits_def k_def)+
    then show ?thesis using read k by (cases "v = None") auto
  next
    case True
    then have "SkipBitsSmall get (n - 64) c1 = (b, c')"
      using less.prems(2) v
      by (auto simp: SkipBitsSmall.simps [of get n c] kRegWidthInBits_def k_def)
    then have "core_ok c' \<and> (b \<longleftrightarrow> n - 64 \<le> length (remaining_bits c1)) \<and>
        remaining_bits c' = drop (n - 64) (remaining_bits c1) \<and>
        (b \<longrightarrow> bits_read c' = bits_read c1 + (n - 64))"
      using less.IH [of "n - 64" c1] True read(1) by simp
    then show ?thesis using read True by (auto simp: k_def)
  qed
qed

lemma SkipBits_correct:
  assumes ok: "core_ok c" and r: "SkipBits get n c = (b, c')"
  shows "core_ok c' \<and> (b \<longleftrightarrow> n \<le> length (remaining_bits c)) \<and>
    remaining_bits c' = drop n (remaining_bits c) \<and> (b \<longrightarrow> bits_read c' = bits_read c + n)"
proof (cases "n \<le> nbits c + nbits_next c")
  case True
  then show ?thesis using r SkipBitsSmall_correct [OF ok] by (simp add: SkipBits_def)
next
  case False
  define m where "m = n - (nbits c + nbits_next c)"
  define c1 where "c1 = c\<lparr>bits_read := bits_read c + (nbits c + nbits_next c),
    nbits := 0, reg := 0, nbits_next := 0, reg_next := 0\<rparr>"
  define p where "p = byte_stream_provider c"
  define p' where "p' = snd (get (m div 8) p)"
  have get: "get (m div 8) p = (take (m div 8) (rest p), p')" and p': "rest p' = drop (m div 8) (rest p)"
    using get_eq [of "m div 8" p] by (simp_all add: p'_def)
  have m: "m > 0" "n = nbits c + nbits_next c + m" using False by (simp_all add: m_def)
  have m8: "8 * (m div 8) + m mod 8 = m" by simp
  have len: "length (remaining_bits c) = nbits c + nbits_next c + 8 * length (rest p)"
    using length_remaining [OF ok] by (simp add: p_def)
  have drop: "drop (nbits c + nbits_next c) (remaining_bits c) = byte_bits (rest p)"
    using ok by (simp add: remaining_bits_def buffered_bits_def core_ok_def p_def)
  have eq: "SkipBits get n c =
      (if m div 8 > 0 then
         if length (take (m div 8) (rest p)) < m div 8
         then (False, c1\<lparr>byte_stream_provider := p',
            bits_read := bits_read c1 + 8 * length (take (m div 8) (rest p))\<rparr>)
         else SkipBitsSmall get (m mod 8)
            (c1\<lparr>byte_stream_provider := p', bits_read := bits_read c1 + 8 * (m div 8)\<rparr>)
       else SkipBitsSmall get m c1)"
    using False get by (simp add: SkipBits_def Let_def m_def c1_def p_def minus_mult_div_eq_mod)
  have rem: "remaining_bits (c1\<lparr>byte_stream_provider := q, bits_read := k\<rparr>) = byte_bits (rest q)"
    "core_ok (c1\<lparr>byte_stream_provider := q, bits_read := k\<rparr>)" for q k
    by (simp_all add: remaining_bits_def buffered_bits_def c1_def core_ok_def)

  show ?thesis
  proof (cases "m div 8 > 0 \<and> length (rest p) < m div 8")
    case True
    then have "b = False" "c' = c1\<lparr>byte_stream_provider := p',
            bits_read := bits_read c1 + 8 * length (take (m div 8) (rest p))\<rparr>"
      using r unfolding eq by auto
    then show ?thesis using True rem m len p' by auto
  next
    case False
    have "SkipBitsSmall get (m mod 8)
        (c1\<lparr>byte_stream_provider := (if m div 8 > 0 then p' else p),
            bits_read := bits_read c1 + 8 * (m div 8)\<rparr>) = (b, c')"
      using r False unfolding eq by (cases c) (auto simp: c1_def p_def div_eq_0_iff)
    note small = SkipBitsSmall_correct [OF rem(2) this, unfolded rem]
    have skipped: "byte_bits (rest (if m div 8 > 0 then p' else p)) =
        drop (nbits c + nbits_next c + 8 * (m div 8)) (remaining_bits c)"
    proof -
      have "drop (nbits c + nbits_next c + 8 * (m div 8)) (remaining_bits c) =
          drop (8 * (m div 8)) (byte_bits (rest p))"
        by (simp only: drop [symmetric] drop_drop add.commute)
      then show ?thesis using p' by (simp add: byte_bits_drop)
    qed
    have n: "m mod 8 + (nbits c + nbits_next c + 8 * (m div 8)) = n" using m m8 by linarith
    have "m mod 8 \<le> length (remaining_bits c) - (nbits c + nbits_next c + 8 * (m div 8)) \<longleftrightarrow>
        n \<le> length (remaining_bits c)"
      using len False m m8 by linarith
    then have "b \<longleftrightarrow> n \<le> length (remaining_bits c)"
      using small unfolding skipped by simp
    moreover have "remaining_bits c' = drop n (remaining_bits c)"
      using small unfolding skipped by (simp only: drop_drop n)
    moreover have "bits_read c' = bits_read c + n" if b
      using small that n by (simp add: c1_def)
    ultimately show ?thesis using small by simp
  qed
qed

end

section \<open>BitReader\<close>

definition source_rest :: "byte_source \<Rightarrow> u8 list" where
  "source_rest p = take (bytes_left p) (source_data p)"

interpretation buffer_source: byte_stream BitReader_GetBytes source_rest
proof
  fix n p
  show "length (fst (BitReader_GetBytes n p)) = min n (length (source_rest p))"
    by (auto simp: BitReader_GetBytes_def source_rest_def Let_def)
  show "fst (BitReader_GetBytes n p) @ source_rest (snd (BitReader_GetBytes n p)) = source_rest p"
    by (auto simp: BitReader_GetBytes_def source_rest_def Let_def not_less simp flip: take_add)
qed

text \<open>The bits a reader has still to deliver, and the invariant of its registers.\<close>

definition BitReader_bits :: "bit_reader \<Rightarrow> bool list" where
  "BitReader_bits r = buffered_bits (bit_reader_core r) @
     byte_bits (source_rest (byte_stream_provider (bit_reader_core r)))"

definition BitReader_ok :: "bit_reader \<Rightarrow> bool" where
  "BitReader_ok r \<longleftrightarrow> core_ok (bit_reader_core r)"

lemma BitReader_bits_alt: "BitReader_bits r = buffer_source.remaining_bits (bit_reader_core r)"
  by (simp add: BitReader_bits_def buffer_source.remaining_bits_def)

lemma BitReader_init_ok:
  "BitReader_ok (BitReader_init data (length data)) \<and>
   BitReader_bits (BitReader_init data (length data)) = byte_bits data"
  by (simp add: BitReader_ok_def BitReader_bits_def BitReader_init_def BitReaderCore_init_def
      core_ok_def buffered_bits_def source_rest_def)

lemma BitReader_ReadBits_correct:
  assumes ok: "BitReader_ok r" and n: "n \<le> 64" and r: "BitReader_ReadBits n r = (v :: 't::len word option, r')"
  shows "BitReader_ok r'" "v \<noteq> None \<longleftrightarrow> n \<le> length (BitReader_bits r)"
    "BitReader_bits r' = drop n (BitReader_bits r)" "initial_size r' = initial_size r"
    "v \<noteq> None \<Longrightarrow> BitReader_bits_read r' = BitReader_bits_read r + n"
    "n \<le> LENGTH('t) \<Longrightarrow> v = Some w \<Longrightarrow> unat w = bits_nat (take n (BitReader_bits r))"
proof -
  obtain u c where u: "ReadBitsInternal BitReader_GetBytes n (bit_reader_core r) = (u, c)" by fastforce
  have v: "v = map_option ucast u" and r': "r' = r\<lparr>bit_reader_core := c\<rparr>"
    using r u by (simp_all add: BitReader_ReadBits_def ReadBits_def)
  have core: "core_ok (bit_reader_core r)" using ok by (simp add: BitReader_ok_def)
  note read = buffer_source.ReadBitsInternal_uniform [OF core n u]
  show "BitReader_ok r'" "v \<noteq> None \<longleftrightarrow> n \<le> length (BitReader_bits r)"
    "BitReader_bits r' = drop n (BitReader_bits r)" "initial_size r' = initial_size r"
    "v \<noteq> None \<Longrightarrow> BitReader_bits_read r' = BitReader_bits_read r + n"
    using read by (auto simp: v r' BitReader_ok_def BitReader_bits_alt BitReader_bits_read_def)
  assume nt: "n \<le> LENGTH('t)" and "v = Some w"
  then obtain x where x: "u = Some x" "w = ucast x" by (auto simp: v)
  then have nb: "n \<le> length (BitReader_bits r)" using read(2) by (simp add: BitReader_bits_alt)
  have ux: "unat x = bits_nat (take n (BitReader_bits r))"
    using buffer_source.ReadBitsInternal_correct(2) [OF core n u] nb x by (auto simp: BitReader_bits_alt)
  also have "\<dots> < 2 ^ n"
    using bits_nat_less [of "take n (BitReader_bits r)"] nb by (simp add: min_absorb2)
  also have "(2::nat) ^ n \<le> 2 ^ LENGTH('t)" using nt by simp
  finally have "unat x < 2 ^ LENGTH('t)" .
  then show "unat w = bits_nat (take n (BitReader_bits r))"
    using ux x by (simp add: unsigned_ucast_eq take_bit_nat_eq_self)
qed

lemma BitReader_ReadFlag_correct:
  assumes ok: "BitReader_ok r" and r: "BitReader_ReadFlag r = (v, r')"
  shows "BitReader_ok r'" "v = (case BitReader_bits r of [] \<Rightarrow> None | b # _ \<Rightarrow> Some b)"
    "BitReader_bits r' = tl (BitReader_bits r)" "initial_size r' = initial_size r"
    "v \<noteq> None \<Longrightarrow> BitReader_bits_read r' = BitReader_bits_read r + 1"
proof -
  obtain u c where u: "ReadBitsInternal BitReader_GetBytes 1 (bit_reader_core r) = (u, c)" by fastforce
  have core: "core_ok (bit_reader_core r)" using ok by (simp add: BitReader_ok_def)
  have v: "v = map_option (\<lambda>w. w = 1) u" and r': "r' = r\<lparr>bit_reader_core := c\<rparr>"
    using r u by (simp_all add: BitReader_ReadFlag_def buffer_source.ReadFlag_eq [OF core])
  have one: "(1::nat) \<le> 64" by simp
  note read = buffer_source.ReadBitsInternal_uniform [OF core one u]
  show "BitReader_ok r'" "BitReader_bits r' = tl (BitReader_bits r)" "initial_size r' = initial_size r"
    "v \<noteq> None \<Longrightarrow> BitReader_bits_read r' = BitReader_bits_read r + 1"
    using read by (auto simp: v r' BitReader_ok_def BitReader_bits_alt BitReader_bits_read_def drop_Suc)
  show "v = (case BitReader_bits r of [] \<Rightarrow> None | b # _ \<Rightarrow> Some b)"
  proof (cases "BitReader_bits r")
    case Nil
    then show ?thesis using read(2) by (simp add: v BitReader_bits_alt)
  next
    case (Cons b bs)
    then obtain w where "u = Some w" "unat w = of_bool b"
      using buffer_source.ReadBitsInternal_correct(2) [OF core one u]
      by (auto simp: BitReader_bits_alt bits_nat_def)
    then have "w = of_bool b" by (auto simp: word_unat_eq_iff)
    then show ?thesis using Cons \<open>u = Some w\<close> by (simp add: v)
  qed
qed

lemma BitReader_SkipBits_correct:
  assumes ok: "BitReader_ok r" and r: "BitReader_SkipBits n r = (b, r')"
  shows "BitReader_ok r'" "b \<longleftrightarrow> n \<le> length (BitReader_bits r)"
    "BitReader_bits r' = drop n (BitReader_bits r)" "initial_size r' = initial_size r"
    "b \<Longrightarrow> BitReader_bits_read r' = BitReader_bits_read r + n"
proof -
  obtain c where c: "SkipBits BitReader_GetBytes n (bit_reader_core r) = (b, c)"
    "r' = r\<lparr>bit_reader_core := c\<rparr>"
    using r by (auto simp: BitReader_SkipBits_def split: prod.splits)
  have core: "core_ok (bit_reader_core r)" using ok by (simp add: BitReader_ok_def)
  show "BitReader_ok r'" "b \<longleftrightarrow> n \<le> length (BitReader_bits r)"
    "BitReader_bits r' = drop n (BitReader_bits r)" "initial_size r' = initial_size r"
    "b \<Longrightarrow> BitReader_bits_read r' = BitReader_bits_read r + n"
    using buffer_source.SkipBits_correct [OF core c(1)]
    by (auto simp: c(2) BitReader_ok_def BitReader_bits_alt BitReader_bits_read_def)
qed

lemma read_string_loop_correct:
  "BitReader_ok r \<Longrightarrow> read_string_loop n r = (v, r') \<Longrightarrow>
   BitReader_ok r' \<and> (v \<noteq> None \<longleftrightarrow> 8 * n \<le> length (BitReader_bits r)) \<and>
   (\<forall>str. v = Some str \<longrightarrow>
      length str = n \<and> byte_bits str = take (8 * n) (BitReader_bits r) \<and>
      BitReader_bits r' = drop (8 * n) (BitReader_bits r))"
proof (induction n arbitrary: r v)
  case (Suc n)
  obtain u :: "u8 option" and r1 where u: "BitReader_ReadBits 8 r = (u, r1)" by fastforce
  have eight: "(8::nat) \<le> 64" by simp
  note read = BitReader_ReadBits_correct [OF Suc.prems(1) eight u]
  show ?case
  proof (cases u)
    case None
    then show ?thesis using Suc.prems u read by auto
  next
    case (Some c)
    obtain v1 where v1: "read_string_loop n r1 = (v1, r')" "v = map_option (Cons c) v1"
      using Suc.prems(2) u Some by (auto split: prod.splits)
    have bits: "take 8 (BitReader_bits r) = msb_bits c"
    proof -
      have "bits_nat (take 8 (BitReader_bits r)) = bits_nat (msb_bits c)"
        using read(6) [of c] Some by (simp add: unat_eq_bits_nat)
      moreover have "length (take 8 (BitReader_bits r)) = length (msb_bits c)"
        using read(2) Some by simp
      ultimately show ?thesis by (simp add: bits_nat_inject)
    qed
    show ?thesis
      using Suc.IH [OF read(1) v1(1)] read(2,3) Some v1(2)
      by (auto simp: bits take_add [of 8]) (simp add: add.commute)
  qed
qed simp

section \<open>A whole parse\<close>

text \<open>
  A client's calls on one reader, as a list of operations; the run stops at the first
  failure, as the parsers do (\<open>RCHECK\<close>).
\<close>

datatype reader_op = OpReadBits nat | OpReadFlag | OpSkipBits nat

fun op_bits :: "reader_op \<Rightarrow> nat" where
  "op_bits (OpReadBits n) = n"
| "op_bits OpReadFlag = 1"
| "op_bits (OpSkipBits n) = n"

fun reader_step :: "reader_op \<Rightarrow> bit_reader \<Rightarrow> bool \<times> bit_reader" where
  "reader_step (OpReadBits n) r =
     (let (v, r') = BitReader_ReadBits n r in ((v :: u64 option) \<noteq> None, r'))"
| "reader_step OpReadFlag r = (let (v, r') = BitReader_ReadFlag r in (v \<noteq> None, r'))"
| "reader_step (OpSkipBits n) r = BitReader_SkipBits n r"

fun reader_run :: "reader_op list \<Rightarrow> bit_reader \<Rightarrow> bool \<times> bit_reader" where
  "reader_run [] r = (True, r)"
| "reader_run (x # xs) r =
     (let (ok, r') = reader_step x r in if ok then reader_run xs r' else (False, r'))"

definition op_width_ok :: "reader_op \<Rightarrow> bool" where
  "op_width_ok x \<longleftrightarrow> (case x of OpReadBits n \<Rightarrow> n \<le> 64 | _ \<Rightarrow> True)"

lemma reader_step_correct:
  assumes "BitReader_ok r" "op_width_ok x" "reader_step x r = (b, r')"
  shows "BitReader_ok r'" "b \<longleftrightarrow> op_bits x \<le> length (BitReader_bits r)"
    "BitReader_bits r' = drop (op_bits x) (BitReader_bits r)" "initial_size r' = initial_size r"
    "b \<Longrightarrow> BitReader_bits_read r' = BitReader_bits_read r + op_bits x"
proof -
  have "BitReader_ok r' \<and> (b \<longleftrightarrow> op_bits x \<le> length (BitReader_bits r)) \<and>
    BitReader_bits r' = drop (op_bits x) (BitReader_bits r) \<and> initial_size r' = initial_size r \<and>
    (b \<longrightarrow> BitReader_bits_read r' = BitReader_bits_read r + op_bits x)"
  proof (cases x)
    case (OpReadBits n)
    obtain v :: "u64 option" and q where v: "BitReader_ReadBits n r = (v, q)" by fastforce
    show ?thesis
      using BitReader_ReadBits_correct [OF assms(1) _ v] assms OpReadBits v
      by (simp add: op_width_ok_def)
  next
    case OpReadFlag
    obtain v q where v: "BitReader_ReadFlag r = (v, q)" by fastforce
    show ?thesis
      using BitReader_ReadFlag_correct [OF assms(1) v] assms OpReadFlag v
      by (cases "BitReader_bits r") auto
  next
    case (OpSkipBits n)
    then show ?thesis
      using BitReader_SkipBits_correct [OF assms(1), of n b r'] assms(3) by simp
  qed
  then show "BitReader_ok r'" "b \<longleftrightarrow> op_bits x \<le> length (BitReader_bits r)"
    "BitReader_bits r' = drop (op_bits x) (BitReader_bits r)" "initial_size r' = initial_size r"
    "b \<Longrightarrow> BitReader_bits_read r' = BitReader_bits_read r + op_bits x" by simp_all
qed

lemma reader_run_correct:
  "BitReader_ok r \<Longrightarrow> \<forall>x \<in> set xs. op_width_ok x \<Longrightarrow> reader_run xs r = (b, r') \<Longrightarrow>
   BitReader_ok r' \<and> initial_size r' = initial_size r \<and>
   (b \<longleftrightarrow> sum_list (map op_bits xs) \<le> length (BitReader_bits r)) \<and>
   (b \<longrightarrow> BitReader_bits r' = drop (sum_list (map op_bits xs)) (BitReader_bits r) \<and>
         BitReader_bits_read r' = BitReader_bits_read r + sum_list (map op_bits xs)) \<and>
   (\<not> b \<longrightarrow> BitReader_bits r' = [])"
proof (induction xs arbitrary: r)
  case (Cons x xs)
  obtain ok q where q: "reader_step x r = (ok, q)" by fastforce
  note step = reader_step_correct [OF Cons.prems(1) _ q]
  show ?case
  proof (cases ok)
    case True
    then show ?thesis
      using Cons.IH [of q] Cons.prems q step by (auto simp: add.commute)
  next
    case False
    then show ?thesis using Cons.prems q step by auto
  qed
qed auto

text \<open>An exhausted reader stays exhausted, whatever is called on it.\<close>

definition reader_after :: "reader_op list \<Rightarrow> bit_reader \<Rightarrow> bit_reader" where
  "reader_after ys r = fold (\<lambda>y r. snd (reader_step y r)) ys r"

lemma reader_exhausted:
  "BitReader_ok r \<Longrightarrow> BitReader_bits r = [] \<Longrightarrow> \<forall>y \<in> set ys. op_width_ok y \<Longrightarrow>
   BitReader_ok (reader_after ys r) \<and> BitReader_bits (reader_after ys r) = []"
proof (induction ys arbitrary: r)
  case (Cons y ys)
  obtain b r' where "reader_step y r = (b, r')" by fastforce
  with reader_step_correct [OF Cons.prems(1) _ this] Cons.prems Cons.IH [of r']
  show ?case by (simp add: reader_after_def)
qed (simp add: reader_after_def)

section \<open>Properties\<close>

text \<open>
  C5: \<open>ReadBits\<close> delivers the next \<open>num_bits\<close> bits of the stream, most significant first,
  as a number, and consumes exactly them, when the stream has that many; otherwise it
  returns false. The two 64-bit registers and the refill are invisible.
\<close>

theorem ReadBits_refines_bit_stream:
  assumes "BitReader_ok r" "n \<le> LENGTH('t)" "n \<le> 64"
    and "BitReader_ReadBits n r = (v :: 't::len word option, r')"
  shows "BitReader_ok r' \<and>
    (if n \<le> length (BitReader_bits r)
     then map_option unat v = Some (bits_nat (take n (BitReader_bits r))) \<and>
          BitReader_bits r' = drop n (BitReader_bits r)
     else v = None \<and> BitReader_bits r' = [])"
  using BitReader_ReadBits_correct [OF assms(1,3,4)] assms(2) by (cases v) auto

theorem ReadBits_refines_bit_stream_witness:
  "\<exists>r'. BitReader_ReadBits 12 (BitReader_init [0xAB, 0xCD, 0xEF] 3) = (Some (0xABC :: u16), r') \<and>
     BitReader_bits r' = drop 12 (byte_bits [0xAB, 0xCD, 0xEF])"
proof -
  let ?r = "BitReader_init [0xAB, 0xCD, 0xEF] 3"
  have init: "BitReader_ok ?r" "BitReader_bits ?r = byte_bits [0xAB, 0xCD, 0xEF]"
    using BitReader_init_ok [of "[0xAB, 0xCD, 0xEF]"] by (simp_all add: numeral_3_eq_3)
  obtain v :: "u16 option" and r' where r: "BitReader_ReadBits 12 ?r = (v, r')" by fastforce
  have "map_option unat v = Some (bits_nat (take 12 (byte_bits [0xAB, 0xCD, 0xEF])))"
    "BitReader_bits r' = drop 12 (byte_bits [0xAB, 0xCD, 0xEF])"
    using ReadBits_refines_bit_stream [OF init(1) _ _ r] init(2) by simp_all
  moreover have "bits_nat (take 12 (byte_bits [0xAB, 0xCD, 0xEF])) = unat (0xABC :: u16)"
    by (simp add: msb_bits_def upt_rec bits_nat_def bit_numeral_rec)
  ultimately show ?thesis using r by (auto simp: word_unat_eq_iff)
qed

text \<open>
  A sequence of reads and skips on a fresh reader succeeds exactly when the bits it
  asks for fit in the buffer; then \<open>bits_read\<close> counts them and \<open>bits_available\<close> is exact.
  After the first failure, whatever else is called, every further non-empty operation
  fails too, as the header promises.
\<close>

theorem reader_run_accounting:
  assumes "\<forall>x \<in> set xs. op_width_ok x"
    and "reader_run xs (BitReader_init data (length data)) = (b, r)"
  shows "(b \<longleftrightarrow> sum_list (map op_bits xs) \<le> 8 * length data) \<and>
    (b \<longrightarrow> BitReader_bits_read r = sum_list (map op_bits xs) \<and>
          BitReader_bits_available r = int (length (BitReader_bits r))) \<and>
    (\<not> b \<longrightarrow> (\<forall>ys x. (\<forall>y \<in> set ys. op_width_ok y) \<and> op_width_ok x \<and> 0 < op_bits x \<longrightarrow>
       \<not> fst (reader_step x (reader_after ys r))))"
proof -
  let ?r0 = "BitReader_init data (length data)"
  have z: "BitReader_bits_read ?r0 = 0" "initial_size ?r0 = length data"
    by (simp_all add: BitReader_bits_read_def BitReader_init_def BitReaderCore_init_def)
  note run = reader_run_correct [OF conjunct1 [OF BitReader_init_ok] assms]
  have "\<not> fst (reader_step x (reader_after ys r))"
    if "\<not> b" "\<forall>y \<in> set ys. op_width_ok y" "op_width_ok x" "0 < op_bits x" for ys x
    using reader_step_correct(2) [OF _ that(3) prod.collapse [symmetric], of "reader_after ys r"]
      reader_exhausted [of r ys] run that by simp
  then show ?thesis
    using run z BitReader_init_ok [of data]
    by (auto simp: BitReader_bits_available_def of_nat_diff)
qed

theorem reader_run_accounting_witness:
  "fst (reader_run [OpReadFlag, OpSkipBits 9, OpReadBits 6] (BitReader_init [1, 2] 2)) \<and>
   \<not> fst (reader_run [OpReadFlag, OpSkipBits 9, OpReadBits 7] (BitReader_init [1, 2] 2))"
  using reader_run_accounting [of "[OpReadFlag, OpSkipBits 9, OpReadBits 6]" "[1, 2]"]
    reader_run_accounting [of "[OpReadFlag, OpSkipBits 9, OpReadBits 7]" "[1, 2]"]
  by (auto simp: op_width_ok_def numeral_2_eq_2 simp del: reader_run.simps) (metis prod.collapse)+

text \<open>
  \<open>SkipBits\<close>, which bypasses the registers for long skips, is equivalent to reading
  the same bits one flag at a time: same verdict and same remaining stream.
\<close>

theorem SkipBits_equiv_flags:
  assumes "BitReader_ok r" "BitReader_SkipBits n r = (b, r')"
    and "reader_run (replicate n OpReadFlag) r = (b', r'')"
  shows "b = b' \<and> BitReader_bits r' = BitReader_bits r''"
  using BitReader_SkipBits_correct [OF assms(1,2)]
    reader_run_correct [OF assms(1) _ assms(3)]
  by (auto simp: op_width_ok_def sum_list_replicate)

theorem SkipBits_equiv_flags_witness:
  "fst (BitReader_SkipBits 13 (BitReader_init [1, 2] 2)) =
   fst (reader_run (replicate 13 OpReadFlag) (BitReader_init [1, 2] 2))"
  using SkipBits_equiv_flags [OF conjunct1 [OF BitReader_init_ok [of "[1, 2]"]], of 13]
  by (metis One_nat_def Suc_1 list.size(3,4) add.commute plus_1_eq_Suc prod.collapse)

text \<open>
  \<open>ReadString\<close> at any bit position, called for a positive number of whole bytes as it
  asserts, returns the next \<open>num_bits / 8\<close> bytes of the bit stream, or fails when fewer are left.
\<close>

theorem ReadString_returns_next_bytes:
  assumes "BitReader_ok r" "0 < num_bits" "num_bits mod 8 = 0"
  shows "\<exists>v r'. BitReader_ReadString num_bits r = Some (v, r') \<and>
    (case v of
      Some str \<Rightarrow> byte_bits str = take num_bits (BitReader_bits r) \<and>
        8 * length str = num_bits \<and> BitReader_bits r' = drop num_bits (BitReader_bits r)
    | None \<Rightarrow> length (BitReader_bits r) < num_bits)"
proof -
  have n: "8 * (num_bits div 8) = num_bits" using assms(3) by auto
  obtain v r' where l: "read_string_loop (num_bits div 8) r = (v, r')" by fastforce
  then have "BitReader_ReadString num_bits r = Some (v, r')" using assms by (simp add: BitReader_ReadString_def)
  then show ?thesis
    using read_string_loop_correct [OF assms(1) l] n by (cases v) auto
qed

theorem ReadString_returns_next_bytes_witness:
  "\<exists>v r'. BitReader_ReadString 16 (BitReader_init [1, 2, 3] 3) = Some (v, r') \<and>
    (case v of
      Some str \<Rightarrow> byte_bits str = take 16 (BitReader_bits (BitReader_init [1, 2, 3] 3)) \<and>
        8 * length str = (16 :: nat) \<and> BitReader_bits r' = drop 16 (BitReader_bits (BitReader_init [1, 2, 3] 3))
    | None \<Rightarrow> length (BitReader_bits (BitReader_init [1, 2, 3] 3)) < 16)"
  using BitReader_init_ok [of "[1, 2, 3]"]
  by (intro ReadString_returns_next_bytes) (simp_all add: numeral_3_eq_3)

end
