(* ===== verification/Byte_Queue.thy ===== *)
theory Byte_Queue
  imports Media_Prelude
begin

text \<open>
  \<open>ByteQueue\<close> (\<open>base/byte_queue.cc\<close>), the growing byte buffer of the stream parsers, and
  \<open>OffsetByteQueue\<close> (\<open>formats/common/offset_byte_queue.cc\<close>), which addresses it by absolute
  stream offsets. The heap block is a list of bytes; the contents of a fresh
  \<open>new uint8_t[n]\<close> are a parameter (\<open>fresh\<close>). \<open>size_t\<close> arithmetic wraps at \<open>2 ^ 64\<close>. A failed
  \<open>CHECK\<close> or \<open>DCHECK\<close> is \<open>None\<close>. The lemmas show that the queue is a FIFO of bytes, that no
  copy leaves the block and no check fails while the byte counts fit an \<open>int\<close>, and that
  the offset queue serves exactly the bytes of the stream at the offset asked for.
\<close>

section \<open>ByteQueue\<close>

record byte_queue =
  buffer :: "u8 list"
  buffer_size :: nat
  offset :: nat
  used :: nat

definition kDefaultQueueSize :: nat where
  "kDefaultQueueSize = 1024"

definition new_block :: "(nat \<Rightarrow> u8) \<Rightarrow> nat \<Rightarrow> u8 list" where
  "new_block fresh n = map fresh [0..<n]"

definition ByteQueue_init :: "(nat \<Rightarrow> u8) \<Rightarrow> byte_queue" where
  "ByteQueue_init fresh =
     \<lparr>buffer = new_block fresh kDefaultQueueSize, buffer_size = kDefaultQueueSize,
      offset = 0, used = 0\<rparr>"

definition ByteQueue_Reset :: "byte_queue \<Rightarrow> byte_queue" where
  "ByteQueue_Reset q = q\<lparr>offset := 0, used := 0\<rparr>"

text \<open>The doubling loop, with the wrap-around of \<open>size_t\<close>.\<close>

partial_function (option) grow :: "nat \<Rightarrow> nat \<Rightarrow> nat \<Rightarrow> nat option" where
  "grow size_needed sz new_size =
     (if size_needed > new_size \<and> new_size > sz
      then grow size_needed sz (2 * new_size mod 2 ^ 64)
      else Some new_size)"

definition ByteQueue_Push :: "(nat \<Rightarrow> u8) \<Rightarrow> u8 list \<Rightarrow> byte_queue \<Rightarrow> byte_queue option" where
  "ByteQueue_Push fresh data q =
     (if length data = 0 then None
      else
        let size_needed = used q + length data;
            room = (if size_needed > buffer_size q then
                case grow size_needed (buffer_size q) (2 * buffer_size q mod 2 ^ 64) of
                  None \<Rightarrow> None
                | Some new_size \<Rightarrow>
                    if \<not> new_size > buffer_size q then None
                    else
                      let new_buffer = new_block fresh new_size;
                          new_buffer1 = (if used q > 0
                            then overwrite 0 (mem_slice (offset q) (used q) (buffer q)) new_buffer
                            else new_buffer)
                      in Some (q\<lparr>buffer := new_buffer1, buffer_size := new_size, offset := 0\<rparr>)
              else if offset q + used q + length data > buffer_size q then
                Some (q\<lparr>buffer := overwrite 0 (mem_slice (offset q) (used q) (buffer q)) (buffer q),
                        offset := 0\<rparr>)
              else Some q)
        in case room of
             None \<Rightarrow> None
           | Some q1 \<Rightarrow>
               Some (q1\<lparr>buffer := overwrite (offset q1 + used q1) data (buffer q1),
                        used := used q1 + length data\<rparr>))"

text \<open>\<open>Peek\<close> hands out the front pointer, here the block from the front on, and the count.\<close>

definition ByteQueue_Peek :: "byte_queue \<Rightarrow> u8 list \<times> nat" where
  "ByteQueue_Peek q = (drop (offset q) (buffer q), used q)"

definition ByteQueue_Pop :: "nat \<Rightarrow> byte_queue \<Rightarrow> byte_queue option" where
  "ByteQueue_Pop count q =
     (if \<not> count \<le> used q then None
      else
        let q1 = q\<lparr>offset := offset q + count, used := used q - count\<rparr>
        in if offset q1 = buffer_size q1
           then (if used q1 = 0 then Some (q1\<lparr>offset := 0\<rparr>) else None)
           else Some q1)"

section \<open>OffsetByteQueue\<close>

record offset_byte_queue =
  queue :: byte_queue
  buf :: "u8 list option"
  oq_size :: nat
  head_pos :: int

definition OffsetByteQueue_init :: "(nat \<Rightarrow> u8) \<Rightarrow> offset_byte_queue" where
  "OffsetByteQueue_init fresh =
     \<lparr>queue = ByteQueue_init fresh, buf = None, oq_size = 0, head_pos = 0\<rparr>"

definition OffsetByteQueue_head :: "offset_byte_queue \<Rightarrow> int" where
  "OffsetByteQueue_head s = head_pos s"

definition OffsetByteQueue_tail :: "offset_byte_queue \<Rightarrow> int" where
  "OffsetByteQueue_tail s = head_pos s + int (oq_size s)"

definition OffsetByteQueue_Sync :: "offset_byte_queue \<Rightarrow> offset_byte_queue" where
  "OffsetByteQueue_Sync s =
     (let (b, n) = ByteQueue_Peek (queue s) in s\<lparr>buf := Some b, oq_size := n\<rparr>)"

definition OffsetByteQueue_Reset :: "offset_byte_queue \<Rightarrow> offset_byte_queue" where
  "OffsetByteQueue_Reset s =
     s\<lparr>queue := ByteQueue_Reset (queue s), buf := None, oq_size := 0, head_pos := 0\<rparr>"

definition OffsetByteQueue_Push ::
  "(nat \<Rightarrow> u8) \<Rightarrow> u8 list \<Rightarrow> offset_byte_queue \<Rightarrow> offset_byte_queue option" where
  "OffsetByteQueue_Push fresh data s =
     map_option (\<lambda>q. OffsetByteQueue_Sync (s\<lparr>queue := q\<rparr>)) (ByteQueue_Push fresh data (queue s))"

definition OffsetByteQueue_Peek :: "offset_byte_queue \<Rightarrow> u8 list option \<times> nat" where
  "OffsetByteQueue_Peek s = (if oq_size s > 0 then buf s else None, oq_size s)"

definition OffsetByteQueue_Pop :: "nat \<Rightarrow> offset_byte_queue \<Rightarrow> offset_byte_queue option" where
  "OffsetByteQueue_Pop count s =
     map_option (\<lambda>q. OffsetByteQueue_Sync (s\<lparr>queue := q, head_pos := head_pos s + int count\<rparr>))
       (ByteQueue_Pop count (queue s))"

text \<open>The outer \<open>None\<close> is the failed \<open>DCHECK\<close>; the pointer is null when nothing is at the offset.\<close>

definition OffsetByteQueue_PeekAt :: "int \<Rightarrow> offset_byte_queue \<Rightarrow> (u8 list option \<times> int) option" where
  "OffsetByteQueue_PeekAt off s =
     (if \<not> off \<ge> OffsetByteQueue_head s then None
      else if off < OffsetByteQueue_head s \<or> off \<ge> OffsetByteQueue_tail s then Some (None, 0)
      else Some (map_option (drop (nat (off - OffsetByteQueue_head s))) (buf s),
                 OffsetByteQueue_tail s - off))"

definition OffsetByteQueue_Trim :: "int \<Rightarrow> offset_byte_queue \<Rightarrow> (bool \<times> offset_byte_queue) option" where
  "OffsetByteQueue_Trim max_offset s =
     (if max_offset < head_pos s then Some (True, s)
      else if max_offset > OffsetByteQueue_tail s
      then map_option (Pair False) (OffsetByteQueue_Pop (oq_size s) s)
      else map_option (Pair True) (OffsetByteQueue_Pop (nat (max_offset - head_pos s)) s))"

section \<open>The queue as a list of bytes\<close>

definition ByteQueue_contents :: "byte_queue \<Rightarrow> u8 list" where
  "ByteQueue_contents q = mem_slice (offset q) (used q) (buffer q)"

text \<open>
  The block has its recorded size, a power-of-two multiple of the default that an \<open>int\<close>
  request can reach, and the live bytes lie inside it.
\<close>

definition ByteQueue_ok :: "byte_queue \<Rightarrow> bool" where
  "ByteQueue_ok q \<longleftrightarrow> length (buffer q) = buffer_size q \<and> offset q + used q \<le> buffer_size q \<and>
     (\<exists>k. buffer_size q = kDefaultQueueSize * 2 ^ k) \<and> buffer_size q < 2 ^ 32"

lemma length_new_block [simp]: "length (new_block fresh n) = n"
  by (simp add: new_block_def)

lemma length_ByteQueue_contents: "ByteQueue_ok q \<Longrightarrow> length (ByteQueue_contents q) = used q"
  by (simp add: ByteQueue_contents_def ByteQueue_ok_def)

lemma ByteQueue_init_ok: "ByteQueue_ok (ByteQueue_init fresh) \<and> ByteQueue_contents (ByteQueue_init fresh) = []"
  by (auto simp: ByteQueue_ok_def ByteQueue_init_def ByteQueue_contents_def kDefaultQueueSize_def mem_slice_def
      intro: exI [of _ 0])

lemma ByteQueue_Reset_ok:
  "ByteQueue_ok q \<Longrightarrow> ByteQueue_ok (ByteQueue_Reset q) \<and> ByteQueue_contents (ByteQueue_Reset q) = []"
  by (auto simp: ByteQueue_ok_def ByteQueue_Reset_def ByteQueue_contents_def mem_slice_def)

text \<open>The loop stops at the first doubling that is enough, before it can wrap.\<close>

lemma grow_enough:
  assumes "size_needed < 2 ^ 31" "sz < new_size" "new_size < 2 * size_needed"
  shows "\<exists>k. grow size_needed sz new_size = Some (new_size * 2 ^ k) \<and>
    size_needed \<le> new_size * 2 ^ k \<and> new_size * 2 ^ k < 2 * size_needed"
  using assms(2,3)
proof (induction "size_needed - new_size" arbitrary: new_size rule: less_induct)
  case less
  show ?case
  proof (cases "size_needed > new_size")
    case False
    then show ?thesis using less.prems by (auto simp: grow.simps intro!: exI [of _ 0])
  next
    case True
    have nowrap: "2 * new_size mod 2 ^ 64 = 2 * new_size" using True assms(1) by simp
    obtain k where "grow size_needed sz (2 * new_size) = Some (2 * new_size * 2 ^ k)"
      "size_needed \<le> 2 * new_size * 2 ^ k" "2 * new_size * 2 ^ k < 2 * size_needed"
      using less.hyps [of "2 * new_size"] less.prems True by fastforce
    then show ?thesis
      using True less.prems nowrap by (subst grow.simps) (auto intro!: exI [of _ "Suc k"])
  qed
qed

lemma ByteQueue_Push_correct:
  assumes ok: "ByteQueue_ok q" and d: "data \<noteq> []" and fits: "used q + length data < 2 ^ 31"
  shows "\<exists>q'. ByteQueue_Push fresh data q = Some q' \<and> ByteQueue_ok q' \<and>
    ByteQueue_contents q' = ByteQueue_contents q @ data \<and>
    (buffer_size q' = buffer_size q \<or> buffer_size q' < 2 * (used q + length data))"
proof -
  note o = ok [unfolded ByteQueue_ok_def]
  have len: "length (mem_slice (offset q) (used q) (buffer q)) = used q" using o by simp
  define finish where "finish = (\<lambda>q1 :: byte_queue. q1\<lparr>buffer := overwrite (offset q1 + used q1) data (buffer q1),
                        used := used q1 + length data\<rparr>)"
  have fin: "ByteQueue_ok (finish q1) \<and> ByteQueue_contents (finish q1) = ByteQueue_contents q @ data \<and>
      buffer_size (finish q1) = buffer_size q1"
    if "ByteQueue_ok q1" "ByteQueue_contents q1 = ByteQueue_contents q"
      "offset q1 + used q1 + length data \<le> buffer_size q1" for q1
    using that mem_slice_overwrite_append [of "offset q1" "used q1" "buffer q1" data]
    by (auto simp: finish_def ByteQueue_ok_def ByteQueue_contents_def)
  show ?thesis
  proof (cases "used q + length data > buffer_size q")
    case True
    have sz: "0 < buffer_size q" using o by (auto simp: kDefaultQueueSize_def)
    have nowrap: "2 * buffer_size q mod 2 ^ 64 = 2 * buffer_size q" using o by simp
    obtain k where k: "grow (used q + length data) (buffer_size q) (2 * buffer_size q) =
          Some (2 * buffer_size q * 2 ^ k)"
        "used q + length data \<le> 2 * buffer_size q * 2 ^ k"
        "2 * buffer_size q * 2 ^ k < 2 * (used q + length data)"
      using grow_enough [of "used q + length data" "buffer_size q" "2 * buffer_size q"] True fits sz
      by auto
    define n where "n = 2 * buffer_size q * 2 ^ k"
    have n: "buffer_size q < n" "used q + length data \<le> n" "n < 2 * (used q + length data)"
      using k True unfolding n_def [symmetric] by linarith+
    define q1 where "q1 = q\<lparr>buffer := (if used q > 0
        then overwrite 0 (mem_slice (offset q) (used q) (buffer q)) (new_block fresh n)
        else new_block fresh n), buffer_size := n, offset := 0\<rparr>"
    have "ByteQueue_Push fresh data q = Some (finish q1)"
      using True d k(1) n nowrap
      by (simp add: ByteQueue_Push_def Let_def finish_def q1_def n_def [symmetric])
    moreover have "ByteQueue_ok q1"
    proof -
      obtain j where "buffer_size q = kDefaultQueueSize * 2 ^ j" using o by auto
      then have "n = kDefaultQueueSize * 2 ^ (j + k + 1)" by (simp add: n_def power_add)
      then have "\<exists>k. n = kDefaultQueueSize * 2 ^ k" by blast
      then show ?thesis using n len fits by (auto simp: ByteQueue_ok_def q1_def)
    qed
    moreover have "ByteQueue_contents q1 = ByteQueue_contents q"
      using len mem_slice_overwrite_same [of 0 "new_block fresh n" "mem_slice (offset q) (used q) (buffer q)"]
      by (auto simp: ByteQueue_contents_def q1_def mem_slice_def)
    moreover have "offset q1 + used q1 + length data \<le> buffer_size q1" using n by (simp add: q1_def)
    ultimately show ?thesis using fin [of q1] n by (auto simp: q1_def)
  next
    case enough: False
    show ?thesis
    proof (cases "offset q + used q + length data > buffer_size q")
      case True
      define q1 where "q1 = q\<lparr>buffer := overwrite 0 (mem_slice (offset q) (used q) (buffer q)) (buffer q), offset := 0\<rparr>"
      have "ByteQueue_Push fresh data q = Some (finish q1)"
        using True enough d by (simp add: ByteQueue_Push_def Let_def finish_def q1_def)
      moreover have "ByteQueue_ok q1"
        using o len by (auto simp: ByteQueue_ok_def q1_def)
      moreover have "ByteQueue_contents q1 = ByteQueue_contents q"
        using len mem_slice_overwrite_same [of 0 "buffer q" "mem_slice (offset q) (used q) (buffer q)"]
        by (auto simp: ByteQueue_contents_def q1_def)
      moreover have "offset q1 + used q1 + length data \<le> buffer_size q1"
        using enough by (simp add: q1_def)
      ultimately show ?thesis using fin [of q1] by (auto simp: q1_def)
    next
      case False
      have "ByteQueue_Push fresh data q = Some (finish q)"
        using False enough d by (simp add: ByteQueue_Push_def Let_def finish_def)
      then show ?thesis using fin [of q] ok False by auto
    qed
  qed
qed

lemma ByteQueue_Pop_correct:
  assumes ok: "ByteQueue_ok q" and n: "count \<le> used q"
  shows "\<exists>q'. ByteQueue_Pop count q = Some q' \<and> ByteQueue_ok q' \<and>
    ByteQueue_contents q' = drop count (ByteQueue_contents q) \<and> used q' = used q - count"
  using assms
  by (auto simp: ByteQueue_Pop_def ByteQueue_ok_def ByteQueue_contents_def Let_def drop_mem_slice)
     (auto simp: mem_slice_def)

section \<open>The FIFO contract\<close>

text \<open>
  What the parsers rely on: pushes append, pops drop, nothing else changes the contents,
  while the held bytes stay countable in an \<open>int\<close>.
\<close>

datatype fifo_op = PushOp "u8 list" | PopOp nat

fun fifo_run ::
  "(u8 list \<Rightarrow> 'q \<Rightarrow> 'q option) \<Rightarrow> (nat \<Rightarrow> 'q \<Rightarrow> 'q option) \<Rightarrow> fifo_op list \<Rightarrow> 'q \<Rightarrow> 'q option" where
  "fifo_run push pop [] q = Some q"
| "fifo_run push pop (PushOp d # xs) q = Option.bind (push d q) (fifo_run push pop xs)"
| "fifo_run push pop (PopOp n # xs) q = Option.bind (pop n q) (fifo_run push pop xs)"

fun pushed :: "fifo_op list \<Rightarrow> u8 list" where
  "pushed [] = []"
| "pushed (PushOp d # xs) = d @ pushed xs"
| "pushed (PopOp n # xs) = pushed xs"

fun popped :: "fifo_op list \<Rightarrow> nat" where
  "popped [] = 0"
| "popped (PushOp d # xs) = popped xs"
| "popped (PopOp n # xs) = n + popped xs"

text \<open>A caller that pushes non-empty data, never pops more than is held, and never overflows.\<close>

fun fifo_legal :: "nat \<Rightarrow> fifo_op list \<Rightarrow> bool" where
  "fifo_legal held [] = True"
| "fifo_legal held (PushOp d # xs) =
     (d \<noteq> [] \<and> held + length d < 2 ^ 31 \<and> fifo_legal (held + length d) xs)"
| "fifo_legal held (PopOp n # xs) = (n \<le> held \<and> fifo_legal (held - n) xs)"

locale byte_fifo =
  fixes push :: "u8 list \<Rightarrow> 'q \<Rightarrow> 'q option"
    and pop :: "nat \<Rightarrow> 'q \<Rightarrow> 'q option"
    and ok :: "'q \<Rightarrow> bool"
    and contents :: "'q \<Rightarrow> u8 list"
  assumes push_law: "ok q \<Longrightarrow> d \<noteq> [] \<Longrightarrow> length (contents q) + length d < 2 ^ 31 \<Longrightarrow>
      \<exists>q'. push d q = Some q' \<and> ok q' \<and> contents q' = contents q @ d"
    and pop_law: "ok q \<Longrightarrow> n \<le> length (contents q) \<Longrightarrow>
      \<exists>q'. pop n q = Some q' \<and> ok q' \<and> contents q' = drop n (contents q)"
begin

lemma fifo_run_law:
  "ok q \<Longrightarrow> fifo_legal (length (contents q)) xs \<Longrightarrow>
   \<exists>q'. fifo_run push pop xs q = Some q' \<and> ok q' \<and>
     contents q' = drop (popped xs) (contents q @ pushed xs) \<and>
     popped xs \<le> length (contents q @ pushed xs)"
proof (induction xs arbitrary: q)
  case (Cons x xs)
  show ?case
  proof (cases x)
    case (PushOp d)
    then obtain q1 where q1: "push d q = Some q1" "ok q1" "contents q1 = contents q @ d"
      using push_law [OF Cons.prems(1)] Cons.prems(2) by auto
    then show ?thesis using Cons.IH [of q1] Cons.prems(2) PushOp by simp
  next
    case (PopOp n)
    then obtain q1 where q1: "pop n q = Some q1" "ok q1" "contents q1 = drop n (contents q)"
      using pop_law [OF Cons.prems(1)] Cons.prems(2) by auto
    then show ?thesis using Cons.IH [of q1] Cons.prems(2) PopOp by (auto simp: add.commute)
  qed
qed simp

end

interpretation byte_queue_fifo: byte_fifo
  "ByteQueue_Push fresh" ByteQueue_Pop ByteQueue_ok ByteQueue_contents for fresh
  by unfold_locales
     (use ByteQueue_Push_correct ByteQueue_Pop_correct length_ByteQueue_contents in fastforce)+

section \<open>The offset queue as a window of the stream\<close>

text \<open>
  \<open>oq_ok\<close>: the cached pointer and size agree with the queue. \<open>oq_window s all\<close>: of the bytes
  \<open>all\<close> received since the last reset, the queue holds those from \<open>head\<close> on.
\<close>

definition oq_ok :: "offset_byte_queue \<Rightarrow> bool" where
  "oq_ok s \<longleftrightarrow> ByteQueue_ok (queue s) \<and> oq_size s = used (queue s) \<and> head_pos s \<ge> 0 \<and>
     (case buf s of None \<Rightarrow> oq_size s = 0 | Some b \<Rightarrow> b = drop (offset (queue s)) (buffer (queue s)))"

definition oq_window :: "offset_byte_queue \<Rightarrow> u8 list \<Rightarrow> bool" where
  "oq_window s all \<longleftrightarrow> oq_ok s \<and> nat (head_pos s) \<le> length all \<and>
     ByteQueue_contents (queue s) = drop (nat (head_pos s)) all"

lemma oq_window_size:
  "oq_window s all \<Longrightarrow> OffsetByteQueue_tail s = int (length all) \<and>
     oq_size s = length all - nat (head_pos s)"
  using length_ByteQueue_contents [of "queue s"]
  by (auto simp: oq_window_def oq_ok_def OffsetByteQueue_tail_def)

lemma OffsetByteQueue_init_window: "oq_window (OffsetByteQueue_init fresh) []"
  using ByteQueue_init_ok [of fresh]
  by (simp add: oq_window_def oq_ok_def OffsetByteQueue_init_def) (simp add: ByteQueue_init_def)

lemma OffsetByteQueue_Reset_window: "oq_ok s \<Longrightarrow> oq_window (OffsetByteQueue_Reset s) []"
  using ByteQueue_Reset_ok [of "queue s"]
  by (simp add: oq_window_def oq_ok_def OffsetByteQueue_Reset_def) (simp add: ByteQueue_Reset_def)

lemma OffsetByteQueue_Push_window:
  assumes "oq_window s all" "data \<noteq> []" "oq_size s + length data < 2 ^ 31"
  shows "\<exists>s'. OffsetByteQueue_Push fresh data s = Some s' \<and> oq_window s' (all @ data) \<and>
    head_pos s' = head_pos s"
proof -
  obtain q where q: "ByteQueue_Push fresh data (queue s) = Some q" "ByteQueue_ok q"
    "ByteQueue_contents q = ByteQueue_contents (queue s) @ data"
    using ByteQueue_Push_correct [of "queue s" data fresh] assms by (auto simp: oq_window_def oq_ok_def)
  then show ?thesis
    using assms by (auto simp: OffsetByteQueue_Push_def OffsetByteQueue_Sync_def ByteQueue_Peek_def
        oq_window_def oq_ok_def)
qed

lemma OffsetByteQueue_Pop_window:
  assumes "oq_window s all" "count \<le> oq_size s"
  shows "\<exists>s'. OffsetByteQueue_Pop count s = Some s' \<and> oq_window s' all \<and>
    head_pos s' = head_pos s + int count"
proof -
  obtain q where q: "ByteQueue_Pop count (queue s) = Some q" "ByteQueue_ok q"
    "ByteQueue_contents q = drop count (ByteQueue_contents (queue s))"
    using ByteQueue_Pop_correct [of "queue s" count] assms by (auto simp: oq_window_def oq_ok_def)
  have "nat (head_pos s + int count) = count + nat (head_pos s)"
    using assms by (auto simp: oq_window_def oq_ok_def)
  then show ?thesis
    using assms q oq_window_size [OF assms(1)]
    by (auto simp: OffsetByteQueue_Pop_def OffsetByteQueue_Sync_def ByteQueue_Peek_def
        oq_window_def oq_ok_def)
qed

lemma OffsetByteQueue_Trim_window:
  assumes w: "oq_window s all"
  shows "\<exists>s'. OffsetByteQueue_Trim max_offset s = Some (max_offset \<le> int (length all), s') \<and>
    oq_window s' all \<and>
    head_pos s' = max (head_pos s) (min max_offset (int (length all)))"
proof -
  note sz = oq_window_size [OF w]
  have h: "0 \<le> head_pos s" "head_pos s \<le> int (length all)"
    using w by (auto simp: oq_window_def oq_ok_def)
  consider "max_offset < head_pos s" | "int (length all) < max_offset" "head_pos s \<le> max_offset"
    | "head_pos s \<le> max_offset" "max_offset \<le> int (length all)" by linarith
  then show ?thesis
  proof cases
    case 1
    then show ?thesis using w h by (auto simp: OffsetByteQueue_Trim_def)
  next
    case 2
    then show ?thesis
      using OffsetByteQueue_Pop_window [OF w, of "oq_size s"] sz h
      by (auto simp: OffsetByteQueue_Trim_def)
  next
    case 3
    then show ?thesis
      using OffsetByteQueue_Pop_window [OF w, of "nat (max_offset - head_pos s)"] sz h
      by (auto simp: OffsetByteQueue_Trim_def)
  qed
qed

text \<open>A parser's use of the queue: appended input, popped or trimmed prefixes.\<close>

datatype oq_op = OqPush "u8 list" | OqPop nat | OqTrim int

fun oq_step :: "(nat \<Rightarrow> u8) \<Rightarrow> oq_op \<Rightarrow> offset_byte_queue \<Rightarrow> offset_byte_queue option" where
  "oq_step fresh (OqPush d) s = OffsetByteQueue_Push fresh d s"
| "oq_step fresh (OqPop n) s = OffsetByteQueue_Pop n s"
| "oq_step fresh (OqTrim off) s = map_option snd (OffsetByteQueue_Trim off s)"

fun oq_received :: "oq_op list \<Rightarrow> u8 list" where
  "oq_received [] = []"
| "oq_received (OqPush d # xs) = d @ oq_received xs"
| "oq_received (x # xs) = oq_received xs"

definition oq_allowed :: "oq_op \<Rightarrow> offset_byte_queue \<Rightarrow> bool" where
  "oq_allowed x s \<longleftrightarrow> (case x of
      OqPush d \<Rightarrow> d \<noteq> [] \<and> oq_size s + length d < 2 ^ 31
    | OqPop n \<Rightarrow> n \<le> oq_size s
    | OqTrim off \<Rightarrow> True)"

text \<open>Runs in which every call is allowed in the state it is made in.\<close>

inductive oq_run :: "(nat \<Rightarrow> u8) \<Rightarrow> offset_byte_queue \<Rightarrow> oq_op list \<Rightarrow> offset_byte_queue \<Rightarrow> bool"
  for fresh where
  oq_done: "oq_run fresh s [] s"
| oq_call: "oq_allowed x s \<Longrightarrow> oq_step fresh x s = Some s1 \<Longrightarrow> oq_run fresh s1 xs s' \<Longrightarrow>
    oq_run fresh s (x # xs) s'"

inductive_cases oq_runE: "oq_run fresh s (x # xs) s'"

lemma oq_step_window:
  assumes "oq_window s all" "oq_allowed x s"
  shows "\<exists>s'. oq_step fresh x s = Some s' \<and> oq_window s' (all @ oq_received [x])"
proof (cases x)
  case (OqPush d)
  then show ?thesis
    using OffsetByteQueue_Push_window [OF assms(1), of d fresh] assms(2) by (auto simp: oq_allowed_def)
next
  case (OqPop n)
  then show ?thesis
    using OffsetByteQueue_Pop_window [OF assms(1), of n] assms(2) by (auto simp: oq_allowed_def)
next
  case (OqTrim off)
  then show ?thesis using OffsetByteQueue_Trim_window [OF assms(1), of off] by auto
qed

lemma oq_received_Cons: "oq_received (x # xs) = oq_received [x] @ oq_received xs"
  by (cases x) auto

lemma oq_run_window: "oq_run fresh s xs s' \<Longrightarrow> oq_window s all \<Longrightarrow> oq_window s' (all @ oq_received xs)"
proof (induction arbitrary: all rule: oq_run.induct)
  case (oq_call x s s1 xs s')
  then have "oq_window s1 (all @ oq_received [x])"
    using oq_step_window [OF oq_call.prems oq_call.hyps(1), of fresh] by auto
  then have "oq_window s' ((all @ oq_received [x]) @ oq_received xs)" by (rule oq_call.IH)
  then show ?case by (simp add: oq_received_Cons [of x xs])
qed simp

section \<open>Properties\<close>

text \<open>
  C14: \<open>ByteQueue\<close> is a FIFO of bytes. Any sequence of calls that never pops more than is
  held and keeps the count within an \<open>int\<close> runs without a failed check, and leaves the
  concatenation of the pushed data less the popped prefix, whatever reallocations and
  moves happened on the way.
\<close>

theorem ByteQueue_is_fifo:
  assumes "fifo_legal 0 xs"
  shows "\<exists>q. fifo_run (ByteQueue_Push fresh) ByteQueue_Pop xs (ByteQueue_init fresh) = Some q \<and>
    ByteQueue_ok q \<and> snd (ByteQueue_Peek q) = length (pushed xs) - popped xs \<and>
    take (snd (ByteQueue_Peek q)) (fst (ByteQueue_Peek q)) = drop (popped xs) (pushed xs)"
proof -
  obtain q where q: "fifo_run (ByteQueue_Push fresh) ByteQueue_Pop xs (ByteQueue_init fresh) = Some q"
    "ByteQueue_ok q" "ByteQueue_contents q = drop (popped xs) (pushed xs)"
    using byte_queue_fifo.fifo_run_law [of "ByteQueue_init fresh" xs fresh] assms ByteQueue_init_ok [of fresh]
    by auto
  then show ?thesis
    using length_ByteQueue_contents [of q]
    by (simp add: ByteQueue_Peek_def ByteQueue_contents_def mem_slice_def)
qed

theorem ByteQueue_is_fifo_witness:
  "\<exists>q. fifo_run (ByteQueue_Push (\<lambda>_. 7)) ByteQueue_Pop
       [PushOp (replicate 1000 1), PopOp 999, PushOp (replicate 900 2), PushOp (replicate 2000 3)]
       (ByteQueue_init (\<lambda>_. 7)) = Some q \<and>
     take (snd (ByteQueue_Peek q)) (fst (ByteQueue_Peek q)) =
     1 # replicate 900 2 @ replicate 2000 3"
proof -
  let ?xs = "[PushOp (replicate 1000 1), PopOp 999, PushOp (replicate 900 2), PushOp (replicate 2000 3)]"
  have legal: "fifo_legal 0 ?xs" by (simp add: replicate_empty)
  have "drop (popped ?xs) (pushed ?xs) = 1 # replicate 900 2 @ replicate 2000 3" by simp
  with ByteQueue_is_fifo [OF legal, of "\<lambda>_. 7"] show ?thesis by metis
qed

text \<open>
  Growth is bounded: whatever the calls, the block stays a power-of-two multiple of the
  default size, and a push that enlarges it leaves it smaller than twice the bytes held.
\<close>

theorem ByteQueue_growth_bounded:
  assumes "ByteQueue_ok q" "data \<noteq> []" "used q + length data < 2 ^ 31"
    and "ByteQueue_Push fresh data q = Some q'"
  shows "(\<exists>k. buffer_size q' = 1024 * 2 ^ k) \<and> length (buffer q') = buffer_size q' \<and>
    (buffer_size q' \<noteq> buffer_size q \<longrightarrow> buffer_size q' < 2 * used q')"
proof -
  have "used q' = used q + length data"
    using ByteQueue_Push_correct [OF assms(1-3), of fresh] assms(1,4)
      length_ByteQueue_contents [of q] length_ByteQueue_contents [of q'] by auto
  then show ?thesis
    using ByteQueue_Push_correct [OF assms(1-3), of fresh] assms(4)
    by (auto simp: ByteQueue_ok_def kDefaultQueueSize_def)
qed

theorem ByteQueue_growth_bounded_witness:
  "\<exists>q'. ByteQueue_Push (\<lambda>_. 0) (replicate 5000 1) (ByteQueue_init (\<lambda>_. 0)) = Some q' \<and>
     buffer_size q' < 2 * used q' \<and> (\<exists>k. buffer_size q' = 1024 * 2 ^ k)"
proof -
  let ?q = "ByteQueue_init (\<lambda>_. 0)" and ?d = "replicate 5000 (1 :: u8)"
  have pre: "ByteQueue_ok ?q" "?d \<noteq> []" "used ?q + length ?d < 2 ^ 31"
    using ByteQueue_init_ok by (auto simp: ByteQueue_init_def replicate_empty)
  obtain q' where q': "ByteQueue_Push (\<lambda>_. 0) ?d ?q = Some q'"
      "ByteQueue_ok q'" "ByteQueue_contents q' = ?d"
    using ByteQueue_Push_correct [OF pre] ByteQueue_init_ok by auto
  then have "used q' = 5000" "5000 \<le> buffer_size q'"
    using length_ByteQueue_contents [of q'] by (auto simp: ByteQueue_ok_def)
  then have "buffer_size q' \<noteq> buffer_size ?q" by (simp add: ByteQueue_init_def kDefaultQueueSize_def)
  with ByteQueue_growth_bounded [OF pre q'(1)] q'(1) show ?thesis by blast
qed

text \<open>
  After any allowed run of pushes, pops and trims on a fresh \<open>OffsetByteQueue\<close>, \<open>tail\<close> is
  the number of bytes received, and \<open>PeekAt\<close> at an offset from \<open>head\<close> on points at exactly
  the bytes of the stream from that offset, or is null with size 0 at or beyond \<open>tail\<close>.
\<close>

theorem OffsetByteQueue_PeekAt_stream:
  assumes "oq_run fresh (OffsetByteQueue_init fresh) xs s" "OffsetByteQueue_head s \<le> off"
  shows "OffsetByteQueue_tail s = int (length (oq_received xs)) \<and>
    (if off < OffsetByteQueue_tail s
     then \<exists>p n. OffsetByteQueue_PeekAt off s = Some (Some p, n) \<and>
            take (nat n) p = drop (nat off) (oq_received xs)
     else OffsetByteQueue_PeekAt off s = Some (None, 0))"
proof -
  have w: "oq_window s (oq_received xs)"
    using oq_run_window [OF assms(1) OffsetByteQueue_init_window] by simp
  note sz = oq_window_size [OF w]
  have "take (nat (OffsetByteQueue_tail s - off)) (drop (nat (off - head_pos s)) (drop (offset (queue s)) (buffer (queue s)))) =
      drop (nat off) (oq_received xs)" if "off < OffsetByteQueue_tail s"
  proof -
    let ?k = "nat (off - head_pos s)"
    have nn: "nat (OffsetByteQueue_tail s - off) = used (queue s) - ?k" "nat off = nat (head_pos s) + ?k"
      using that assms(2) w by (auto simp: OffsetByteQueue_tail_def oq_window_def oq_ok_def OffsetByteQueue_head_def)
    have "drop ?k (ByteQueue_contents (queue s)) = drop (nat off) (oq_received xs)"
      using w nn(2) by (simp add: oq_window_def add.commute)
    then show ?thesis
      using nn(1) by (simp add: ByteQueue_contents_def drop_mem_slice) (simp add: mem_slice_def add.commute)
  qed
  then show ?thesis
    using w sz assms(2)
    by (auto simp: OffsetByteQueue_PeekAt_def OffsetByteQueue_head_def oq_window_def oq_ok_def
        OffsetByteQueue_tail_def split: option.splits)
qed

text \<open>A run with all three operations, for the witness.\<close>

lemma oq_run_example:
  "\<exists>s. oq_run (\<lambda>_. 0) (OffsetByteQueue_init (\<lambda>_. 0)) [OqPush [1, 2, 3, 4], OqPop 1, OqTrim 2, OqPush [5]] s \<and>
     head_pos s = 2"
proof -
  let ?f = "\<lambda>_::nat. 0 :: u8"
  have w0: "oq_window (OffsetByteQueue_init ?f) []" by (rule OffsetByteQueue_init_window)
  obtain s1 where s1: "OffsetByteQueue_Push ?f [1, 2, 3, 4] (OffsetByteQueue_init ?f) = Some s1"
      "oq_window s1 [1, 2, 3, 4]" "head_pos s1 = 0"
    using OffsetByteQueue_Push_window [OF w0, of "[1, 2, 3, 4]" ?f] by (auto simp: OffsetByteQueue_init_def)
  obtain s2 where s2: "OffsetByteQueue_Pop 1 s1 = Some s2" "oq_window s2 [1, 2, 3, 4]" "head_pos s2 = 1"
    using OffsetByteQueue_Pop_window [OF s1(2), of 1] oq_window_size [OF s1(2)] s1(3) by auto
  obtain s3 where s3: "OffsetByteQueue_Trim 2 s2 = Some (True, s3)" "oq_window s3 [1, 2, 3, 4]" "head_pos s3 = 2"
    using OffsetByteQueue_Trim_window [OF s2(2), of 2] s2(3) by auto
  obtain s4 where s4: "OffsetByteQueue_Push ?f [5] s3 = Some s4" "head_pos s4 = 2"
    using OffsetByteQueue_Push_window [OF s3(2), of "[5]" ?f] oq_window_size [OF s3(2)] s3(3) by auto
  have "oq_run ?f (OffsetByteQueue_init ?f) [OqPush [1, 2, 3, 4], OqPop 1, OqTrim 2, OqPush [5]] s4"
    using s1 s2 s3 s4 oq_window_size [OF s1(2)] oq_window_size [OF s3(2)] oq_window_size [OF w0]
    by (auto intro!: oq_run.intros simp: oq_allowed_def)
  then show ?thesis using s4 by auto
qed

theorem OffsetByteQueue_PeekAt_stream_witness:
  "\<exists>s p n. oq_run (\<lambda>_. 0) (OffsetByteQueue_init (\<lambda>_. 0)) [OqPush [1, 2, 3, 4], OqPop 1, OqTrim 2, OqPush [5]] s \<and>
     OffsetByteQueue_PeekAt 3 s = Some (Some p, n) \<and> take (nat n) p = [4, 5]"
proof -
  obtain s where s: "oq_run (\<lambda>_. 0) (OffsetByteQueue_init (\<lambda>_. 0))
      [OqPush [1, 2, 3, 4], OqPop 1, OqTrim 2, OqPush [5]] s" "head_pos s = 2"
    using oq_run_example by blast
  have "OffsetByteQueue_head s \<le> 3" using s(2) by (simp add: OffsetByteQueue_head_def)
  from OffsetByteQueue_PeekAt_stream [OF s(1) this] s(1) show ?thesis by auto
qed

text \<open>
  \<open>Trim\<close> never fails a check, reports whether the whole requested prefix had been
  received, moves \<open>head\<close> to the requested offset clamped to what is held, never backwards,
  and keeps the bytes after it.
\<close>

theorem OffsetByteQueue_Trim_correct:
  assumes "oq_run fresh (OffsetByteQueue_init fresh) xs s"
  shows "\<exists>s'. OffsetByteQueue_Trim max_offset s = Some (max_offset \<le> OffsetByteQueue_tail s, s') \<and>
    OffsetByteQueue_head s' = max (OffsetByteQueue_head s) (min max_offset (OffsetByteQueue_tail s)) \<and>
    OffsetByteQueue_tail s' = OffsetByteQueue_tail s \<and>
    ByteQueue_contents (queue s') = drop (nat (OffsetByteQueue_head s')) (oq_received xs)"
proof -
  have w: "oq_window s (oq_received xs)"
    using oq_run_window [OF assms OffsetByteQueue_init_window] by simp
  obtain s' where s': "OffsetByteQueue_Trim max_offset s = Some (max_offset \<le> int (length (oq_received xs)), s')"
    "oq_window s' (oq_received xs)"
    "head_pos s' = max (head_pos s) (min max_offset (int (length (oq_received xs))))"
    using OffsetByteQueue_Trim_window [OF w] by blast
  then show ?thesis
    using oq_window_size [OF w] oq_window_size [OF s'(2)]
    by (auto simp: OffsetByteQueue_head_def oq_window_def)
qed

theorem OffsetByteQueue_Trim_correct_witness:
  "\<exists>s s'. oq_run (\<lambda>_. 0) (OffsetByteQueue_init (\<lambda>_. 0)) [OqPush [1, 2, 3, 4], OqPop 1, OqTrim 2, OqPush [5]] s \<and>
     OffsetByteQueue_Trim 9 s = Some (9 \<le> OffsetByteQueue_tail s, s')"
  using oq_run_example OffsetByteQueue_Trim_correct by blast

end

