(* ===== verification/Seekable_Buffer.thy ===== *)
theory Seekable_Buffer
  imports Media_Prelude
begin

text \<open>
  \<open>DataBuffer\<close> (\<open>base/data_buffer.cc\<close>) and \<open>SeekableBuffer\<close> (\<open>base/seekable_buffer.cc\<close>): the
  queue of chunks with a read position that moves both ways. \<open>buffers_\<close> is a list,
  the iterator \<open>current_buffer_\<close> an index into it or \<open>None\<close> for \<open>end()\<close>. Times are integers in
  microseconds. \<open>None\<close> as the result of an operation is a failed \<open>CHECK\<close>, an access through
  \<open>end()\<close>, or the division by zero that \<open>UpdateCurrentTime\<close> makes on an empty chunk with a
  timestamp. The lemmas show that the two counters are the lengths of the bytes behind and
  ahead of the position, that reading, peeking and seeking move along one byte sequence,
  that only whole chunks behind the position are evicted, and that no operation fails as
  long as timestamped chunks are non-empty.
\<close>

section \<open>DataBuffer\<close>

record data_buffer =
  db_timestamp :: int
  db_duration :: int
  db_data :: "u8 list option"
  db_buffer_size :: nat
  db_data_size :: nat

text \<open>The constructor over \<open>(data, data_size)\<close>; a null pointer makes the end-of-stream buffer.\<close>

definition DataBuffer_new :: "u8 list option \<Rightarrow> nat \<Rightarrow> data_buffer option" where
  "DataBuffer_new data sz =
     (case data of
        None \<Rightarrow>
          if sz = 0
          then Some \<lparr>db_timestamp = 0, db_duration = 0, db_data = None, db_buffer_size = sz, db_data_size = sz\<rparr>
          else None
      | Some bs \<Rightarrow>
          Some \<lparr>db_timestamp = 0, db_duration = 0, db_data = Some (take sz bs),
                db_buffer_size = sz, db_data_size = sz\<rparr>)"

definition DataBuffer_CopyFrom :: "u8 list option \<Rightarrow> nat \<Rightarrow> data_buffer option" where
  "DataBuffer_CopyFrom data sz = (if data = None then None else DataBuffer_new data sz)"

definition DataBuffer_CreateEOSBuffer :: "data_buffer option" where
  "DataBuffer_CreateEOSBuffer = DataBuffer_new None 0"

definition DataBuffer_end_of_stream :: "data_buffer \<Rightarrow> bool" where
  "DataBuffer_end_of_stream b \<longleftrightarrow> db_data b = None"

definition DataBuffer_set_data_size :: "nat \<Rightarrow> data_buffer \<Rightarrow> data_buffer option" where
  "DataBuffer_set_data_size n b =
     (if DataBuffer_end_of_stream b \<or> \<not> n \<le> db_buffer_size b then None
      else Some (b\<lparr>db_data_size := n\<rparr>))"

text \<open>The memory behind \<open>data()\<close>.\<close>

definition DataBuffer_data :: "data_buffer \<Rightarrow> u8 list" where
  "DataBuffer_data b = (case db_data b of None \<Rightarrow> [] | Some bs \<Rightarrow> bs)"

section \<open>SeekableBuffer\<close>

record seekable_buffer =
  current_buffer :: "nat option"
  buffers :: "data_buffer list"
  current_buffer_offset :: nat
  backward_capacity :: nat
  backward_bytes :: nat
  forward_capacity :: nat
  forward_bytes :: nat
  current_time :: int

definition SeekableBuffer_init :: "nat \<Rightarrow> nat \<Rightarrow> seekable_buffer" where
  "SeekableBuffer_init bc fc =
     \<lparr>current_buffer = None, buffers = [], current_buffer_offset = 0, backward_capacity = bc,
      backward_bytes = 0, forward_capacity = fc, forward_bytes = 0, current_time = kNoTimestamp\<rparr>"

definition SeekableBuffer_Clear :: "seekable_buffer \<Rightarrow> seekable_buffer" where
  "SeekableBuffer_Clear s =
     s\<lparr>buffers := [], current_buffer := None, current_buffer_offset := 0, backward_bytes := 0,
       forward_bytes := 0, current_time := kNoTimestamp\<rparr>"

text \<open>The new \<open>current_time_\<close>; \<open>quot\<close> is the truncating division of C++.\<close>

definition quot :: "int \<Rightarrow> int \<Rightarrow> int" where
  "quot a b = sgn a * sgn b * (\<bar>a\<bar> div \<bar>b\<bar>)"

definition UpdateCurrentTime :: "data_buffer list \<Rightarrow> nat option \<Rightarrow> nat \<Rightarrow> int \<Rightarrow> int option" where
  "UpdateCurrentTime bufs buffer off time =
     (case buffer of
        None \<Rightarrow> Some time
      | Some i \<Rightarrow>
          if db_timestamp (bufs ! i) \<noteq> kNoTimestamp then
            if db_data_size (bufs ! i) = 0 then None
            else
              let time_offset = quot (db_duration (bufs ! i) * int off) (int (db_data_size (bufs ! i)))
              in Some (db_timestamp (bufs ! i) + time_offset)
          else Some time)"

text \<open>
  The loop of \<open>InternalRead\<close>: \<open>out\<close> are the \<open>taken\<close> bytes, which are copied when the caller
  gave a destination.
\<close>

partial_function (option) internal_read_loop ::
  "data_buffer list \<Rightarrow> bool \<Rightarrow> nat \<Rightarrow> nat option \<Rightarrow> nat \<Rightarrow> u8 list \<Rightarrow> nat \<Rightarrow> int \<Rightarrow>
   (nat option \<times> nat \<times> u8 list \<times> int) option" where
  "internal_read_loop bufs advance_position sz cur off out bytes_to_skip time =
     (if length out < sz then
        case cur of
          None \<Rightarrow> Some (cur, off, out, time)
        | Some i \<Rightarrow>
            let b = bufs ! i;
                remaining = db_data_size b - off;
                copied = (if bytes_to_skip = 0 then min (sz - length out) remaining else 0);
                skipped = (if bytes_to_skip = 0 then 0 else min remaining bytes_to_skip);
                out1 = out @ mem_slice off copied (DataBuffer_data b);
                off1 = off + copied + skipped;
                skip1 = bytes_to_skip - skipped
            in if off1 = db_data_size b then
                 case (if advance_position then UpdateCurrentTime bufs cur off1 time else Some time) of
                   None \<Rightarrow> None
                 | Some time1 \<Rightarrow>
                     if i + 1 = length bufs then Some (cur, off1, out1, time1)
                     else internal_read_loop bufs advance_position sz (Some (i + 1)) 0 out1 skip1 time1
               else internal_read_loop bufs advance_position sz cur off1 out1 skip1 time
      else Some (cur, off, out, time))"

text \<open>Erasing the first chunk shifts the index of the current one.\<close>

function EvictBackwardBuffers :: "seekable_buffer \<Rightarrow> seekable_buffer" where
  "EvictBackwardBuffers s =
     (if backward_bytes s > backward_capacity s then
        (case (buffers s, current_buffer s) of
           (b # bs, Some (Suc i)) \<Rightarrow>
             EvictBackwardBuffers
               (s\<lparr>backward_bytes := backward_bytes s - db_data_size b, buffers := bs,
                 current_buffer := Some i\<rparr>)
         | _ \<Rightarrow> s)
      else s)"
  by pat_completeness auto
termination by (relation "measure (\<lambda>s. length (buffers s))") (auto dest: sym)

declare EvictBackwardBuffers.simps [simp del]

definition InternalRead ::
  "nat \<Rightarrow> bool \<Rightarrow> nat \<Rightarrow> seekable_buffer \<Rightarrow> (u8 list \<times> seekable_buffer) option" where
  "InternalRead sz advance_position forward_offset s =
     (case internal_read_loop (buffers s) advance_position sz (current_buffer s)
             (current_buffer_offset s) [] forward_offset (current_time s) of
        None \<Rightarrow> None
      | Some (cur, off, out, time) \<Rightarrow>
          if advance_position then
            (case UpdateCurrentTime (buffers s) cur off time of
               None \<Rightarrow> None
             | Some time1 \<Rightarrow>
                 Some (out, EvictBackwardBuffers
                   (s\<lparr>forward_bytes := forward_bytes s - length out,
                      backward_bytes := backward_bytes s + length out,
                      current_buffer := cur, current_buffer_offset := off,
                      current_time := time1\<rparr>)))
          else Some (out, s))"

definition SeekableBuffer_Read :: "nat \<Rightarrow> seekable_buffer \<Rightarrow> (u8 list \<times> seekable_buffer) option" where
  "SeekableBuffer_Read sz s = InternalRead sz True 0 s"

definition SeekableBuffer_Peek ::
  "nat \<Rightarrow> nat \<Rightarrow> seekable_buffer \<Rightarrow> (u8 list \<times> seekable_buffer) option" where
  "SeekableBuffer_Peek sz forward_offset s = InternalRead sz False forward_offset s"

function current_chunk_loop :: "data_buffer list \<Rightarrow> nat \<Rightarrow> nat \<Rightarrow> nat \<times> nat" where
  "current_chunk_loop bufs i off =
     (if i < length bufs \<and> off \<ge> db_data_size (bufs ! i) then current_chunk_loop bufs (i + 1) 0
      else (i, off))"
  by pat_completeness auto
termination by (relation "measure (\<lambda>(bufs, i, off). length bufs - i)") auto

declare current_chunk_loop.simps [simp del]

text \<open>\<open>Some\<close> of the chunk's unread bytes, or \<open>None\<close> for the return value false.\<close>

definition GetCurrentChunk :: "seekable_buffer \<Rightarrow> u8 list option" where
  "GetCurrentChunk s =
     (case current_buffer s of
        None \<Rightarrow> None
      | Some i0 \<Rightarrow>
          let (i, off) = current_chunk_loop (buffers s) i0 (current_buffer_offset s) in
          if i \<ge> length (buffers s) then None
          else Some (mem_slice off (db_data_size (buffers s ! i) - off) (DataBuffer_data (buffers s ! i))))"

definition SeekableBuffer_Append_buffer :: "data_buffer \<Rightarrow> seekable_buffer \<Rightarrow> bool \<times> seekable_buffer" where
  "SeekableBuffer_Append_buffer buffer_in s =
     (let s1 = (if buffers s = [] \<and> db_timestamp buffer_in \<noteq> kNoTimestamp
                then s\<lparr>current_time := db_timestamp buffer_in\<rparr> else s);
          s2 = s1\<lparr>buffers := buffers s1 @ [buffer_in]\<rparr>;
          s3 = (if current_buffer s2 = None then s2\<lparr>current_buffer := Some 0\<rparr> else s2);
          s4 = s3\<lparr>forward_bytes := forward_bytes s3 + db_data_size buffer_in\<rparr>
      in (\<not> forward_bytes s4 \<ge> forward_capacity s4, s4))"

definition SeekableBuffer_Append :: "u8 list \<Rightarrow> seekable_buffer \<Rightarrow> (bool \<times> seekable_buffer) option" where
  "SeekableBuffer_Append data s =
     (if length data > 0 then
        (case DataBuffer_CopyFrom (Some data) (length data) of
           None \<Rightarrow> None
         | Some data_buffer \<Rightarrow> Some (SeekableBuffer_Append_buffer data_buffer s))
      else Some (forward_bytes s < forward_capacity s, s))"

definition SeekForward :: "nat \<Rightarrow> seekable_buffer \<Rightarrow> (bool \<times> seekable_buffer) option" where
  "SeekForward sz s =
     (if sz > forward_bytes s then Some (False, s)
      else map_option (\<lambda>(taken, s1). (True, s1)) (InternalRead sz True 0 s))"

partial_function (option) seek_backward_loop :: "nat \<Rightarrow> nat \<Rightarrow> seekable_buffer \<Rightarrow> seekable_buffer option" where
  "seek_backward_loop sz taken s =
     (if taken < sz then
        case current_buffer s of
          None \<Rightarrow> None
        | Some i \<Rightarrow>
            let consumed = min (sz - taken) (current_buffer_offset s);
                s1 = s\<lparr>current_buffer_offset := current_buffer_offset s - consumed,
                       forward_bytes := forward_bytes s + consumed,
                       backward_bytes := backward_bytes s - consumed\<rparr>
            in if current_buffer_offset s1 = 0 then
                 if i = 0 then Some s1
                 else seek_backward_loop sz (taken + consumed)
                        (s1\<lparr>current_buffer := Some (i - 1),
                           current_buffer_offset := db_data_size (buffers s1 ! (i - 1))\<rparr>)
               else seek_backward_loop sz (taken + consumed) s1
      else Some s)"

definition SeekBackward :: "nat \<Rightarrow> seekable_buffer \<Rightarrow> (bool \<times> seekable_buffer) option" where
  "SeekBackward sz s =
     (if sz > backward_bytes s then Some (False, s)
      else case seek_backward_loop sz 0 s of
        None \<Rightarrow> None
      | Some s1 \<Rightarrow>
          map_option (\<lambda>time. (True, s1\<lparr>current_time := time\<rparr>))
            (UpdateCurrentTime (buffers s1) (current_buffer s1) (current_buffer_offset s1) (current_time s1)))"

definition SeekableBuffer_Seek :: "int \<Rightarrow> seekable_buffer \<Rightarrow> (bool \<times> seekable_buffer) option" where
  "SeekableBuffer_Seek off s =
     (if off > 0 then SeekForward (nat off) s
      else if off < 0 then SeekBackward (nat (- off)) s
      else Some (True, s))"

definition set_forward_capacity :: "nat \<Rightarrow> seekable_buffer \<Rightarrow> seekable_buffer" where
  "set_forward_capacity n s = s\<lparr>forward_capacity := n\<rparr>"

definition set_backward_capacity :: "nat \<Rightarrow> seekable_buffer \<Rightarrow> seekable_buffer" where
  "set_backward_capacity n s = s\<lparr>backward_capacity := n\<rparr>"

section \<open>Bytes behind and ahead of a position\<close>

definition chunk :: "data_buffer \<Rightarrow> u8 list" where
  "chunk b = take (db_data_size b) (DataBuffer_data b)"

text \<open>A chunk as appended: its size is backed by memory, and it is non-empty if it is timed.\<close>

definition chunk_ok :: "data_buffer \<Rightarrow> bool" where
  "chunk_ok b \<longleftrightarrow> db_data_size b \<le> length (DataBuffer_data b) \<and>
     (db_timestamp b \<noteq> kNoTimestamp \<longrightarrow> 0 < db_data_size b)"

definition chunks :: "data_buffer list \<Rightarrow> u8 list" where
  "chunks bs = concat (map chunk bs)"

definition behind_at :: "data_buffer list \<Rightarrow> nat \<Rightarrow> nat \<Rightarrow> u8 list" where
  "behind_at bufs i off = chunks (take i bufs) @ take off (chunk (bufs ! i))"

definition ahead_at :: "data_buffer list \<Rightarrow> nat \<Rightarrow> nat \<Rightarrow> u8 list" where
  "ahead_at bufs i off = drop off (chunk (bufs ! i)) @ chunks (drop (i + 1) bufs)"

definition pos_ok :: "data_buffer list \<Rightarrow> nat \<Rightarrow> nat \<Rightarrow> bool" where
  "pos_ok bufs i off \<longleftrightarrow> i < length bufs \<and> off \<le> db_data_size (bufs ! i)"

lemma length_chunk [simp]: "chunk_ok b \<Longrightarrow> length (chunk b) = db_data_size b"
  by (simp add: chunk_def chunk_ok_def)

lemma chunks_simps [simp]:
  "chunks [] = []" "chunks (b # bs) = chunk b @ chunks bs" "chunks (as @ bs) = chunks as @ chunks bs"
  by (simp_all add: chunks_def)

lemma behind_ahead: "i < length bufs \<Longrightarrow> behind_at bufs i off @ ahead_at bufs i off = chunks bufs"
  using id_take_nth_drop [of i bufs]
  by (simp add: behind_at_def ahead_at_def) (metis append_assoc append_take_drop_id chunks_simps(2,3))

lemma ahead_next:
  assumes "i + 1 < length bufs" "chunk_ok (bufs ! i)"
  shows "ahead_at bufs i (db_data_size (bufs ! i)) = ahead_at bufs (i + 1) 0"
    "behind_at bufs i (db_data_size (bufs ! i)) = behind_at bufs (i + 1) 0"
proof -
  have "drop (i + 1) bufs = bufs ! (i + 1) # drop (i + 2) bufs"
    using assms by (simp add: Cons_nth_drop_Suc)
  then show "ahead_at bufs i (db_data_size (bufs ! i)) = ahead_at bufs (i + 1) 0"
    using assms by (simp add: ahead_at_def)
  show "behind_at bufs i (db_data_size (bufs ! i)) = behind_at bufs (i + 1) 0"
    using assms by (simp add: behind_at_def take_Suc_conv_app_nth)
qed

lemma ahead_last: "i + 1 = length bufs \<Longrightarrow> chunk_ok (bufs ! i) \<Longrightarrow> ahead_at bufs i (db_data_size (bufs ! i)) = []"
  by (simp add: ahead_at_def)

text \<open>Moving inside one chunk.\<close>

lemma position_advance:
  assumes "pos_ok bufs i off" "chunk_ok (bufs ! i)" "off + n \<le> db_data_size (bufs ! i)"
  shows "ahead_at bufs i (off + n) = drop n (ahead_at bufs i off)"
    "behind_at bufs i (off + n) = behind_at bufs i off @ take n (ahead_at bufs i off)"
    "mem_slice off n (DataBuffer_data (bufs ! i)) = take n (ahead_at bufs i off)"
    "n \<le> length (ahead_at bufs i off)"
proof -
  have "n \<le> length (drop off (chunk (bufs ! i)))" using assms by simp
  then show "ahead_at bufs i (off + n) = drop n (ahead_at bufs i off)"
    and "n \<le> length (ahead_at bufs i off)"
    by (simp_all add: ahead_at_def add.commute)
  show "behind_at bufs i (off + n) = behind_at bufs i off @ take n (ahead_at bufs i off)"
    using \<open>n \<le> length (drop off (chunk (bufs ! i)))\<close>
    by (simp add: ahead_at_def behind_at_def take_add)
  show "mem_slice off n (DataBuffer_data (bufs ! i)) = take n (ahead_at bufs i off)"
  proof -
    have "n \<le> db_data_size (bufs ! i) - off" "n \<le> length (DataBuffer_data (bufs ! i)) - off"
      using assms(2,3) by (auto simp: chunk_ok_def)
    then show ?thesis by (simp add: ahead_at_def mem_slice_def chunk_def drop_take)
  qed
qed

lemma UpdateCurrentTime_Some:
  "chunk_ok (bufs ! i) \<Longrightarrow> \<exists>t. UpdateCurrentTime bufs (Some i) off time = Some t"
  by (auto simp: UpdateCurrentTime_def chunk_ok_def Let_def)

section \<open>Reading\<close>

lemma internal_read_loop_correct:
  assumes ok: "\<forall>b \<in> set bufs. chunk_ok b"
  shows "pos_ok bufs i off \<Longrightarrow> length out \<le> sz \<Longrightarrow>
    \<exists>i' off' time'. internal_read_loop bufs adv sz (Some i) off out skip time =
        Some (Some i', off', out @ take (sz - length out) (drop skip (ahead_at bufs i off)), time') \<and>
      pos_ok bufs i' off' \<and>
      (skip = 0 \<longrightarrow>
         ahead_at bufs i' off' = drop (sz - length out) (ahead_at bufs i off) \<and>
         behind_at bufs i' off' = behind_at bufs i off @ take (sz - length out) (ahead_at bufs i off))"
proof (induction "2 * (length bufs - i) + (if skip = 0 then 0 else 1) + (sz - length out)"
    arbitrary: i off out skip time rule: less_induct)
  case less
  have i: "i < length bufs" and off: "off \<le> db_data_size (bufs ! i)" and ck: "chunk_ok (bufs ! i)"
    using less.prems ok by (auto simp: pos_ok_def)
  show ?case
  proof (cases "length out < sz")
    case False
    then show ?thesis
      using less.prems by (subst internal_read_loop.simps) auto
  next
    case True
    define b where "b = bufs ! i"
    define rem where "rem = db_data_size b - off"
    define copied where "copied = (if skip = 0 then min (sz - length out) rem else 0)"
    define skipped where "skipped = (if skip = 0 then 0 else min rem skip)"
    define out1 where "out1 = out @ mem_slice off copied (DataBuffer_data b)"
    define off1 where "off1 = off + copied + skipped"
    define A where "A = ahead_at bufs i off"
    have le: "off + (copied + skipped) \<le> db_data_size (bufs ! i)"
      using off by (auto simp: copied_def skipped_def rem_def b_def)
    note adv = position_advance [OF less.prems(1) ck le, folded A_def]
    have out1: "out1 = out @ take copied A" "length out1 = length out + copied"
    proof -
      have "off + copied \<le> db_data_size (bufs ! i)" using le by simp
      from position_advance(3,4) [OF less.prems(1) ck this]
      show "out1 = out @ take copied A" "length out1 = length out + copied"
        by (simp_all add: out1_def b_def A_def)
    qed
    have off1: "off1 = off + (copied + skipped)" by (simp add: off1_def)
    have len1: "length out1 \<le> sz" using out1(2) less.prems(2) by (auto simp: copied_def)
    have rest: "take (sz - length out) (drop skip A) =
        take copied A @ take (sz - length out1) (drop (skip - skipped) (drop (copied + skipped) A))"
      "skip = 0 \<Longrightarrow> drop (sz - length out) A = drop (sz - length out1) (drop (copied + skipped) A)"
      "skip = 0 \<Longrightarrow> take (sz - length out) A =
         take (copied + skipped) A @ take (sz - length out1) (drop (copied + skipped) A)"
    proof -
      have c: "copied + (sz - length out1) = sz - length out"
        using out1(2) less.prems(2) by (auto simp: copied_def)
      show "take (sz - length out) (drop skip A) =
        take copied A @ take (sz - length out1) (drop (skip - skipped) (drop (copied + skipped) A))"
      proof (cases "skip = 0")
        case True
        then show ?thesis
          using take_add [of copied "sz - length out1" A] unfolding c by (simp add: skipped_def)
      next
        case False
        then have "copied = 0" "skipped \<le> skip" by (auto simp: copied_def skipped_def)
        then show ?thesis using c by simp
      qed
      show "skip = 0 \<Longrightarrow> drop (sz - length out) A = drop (sz - length out1) (drop (copied + skipped) A)"
        using c by (simp add: skipped_def add.commute)
      show "skip = 0 \<Longrightarrow> take (sz - length out) A =
         take (copied + skipped) A @ take (sz - length out1) (drop (copied + skipped) A)"
        using take_add [of copied "sz - length out1" A] unfolding c by (simp add: skipped_def)
    qed
    have eq: "internal_read_loop bufs adv sz (Some i) off out skip time =
       (if off1 = db_data_size b then
          case (if adv then UpdateCurrentTime bufs (Some i) off1 time else Some time) of
            None \<Rightarrow> None
          | Some time1 \<Rightarrow>
              if i + 1 = length bufs then Some (Some i, off1, out1, time1)
              else internal_read_loop bufs adv sz (Some (i + 1)) 0 out1 (skip - skipped) time1
        else internal_read_loop bufs adv sz (Some i) off1 out1 (skip - skipped) time)"
      unfolding internal_read_loop.simps [of bufs adv sz "Some i" off out skip time]
      by (simp only: True if_True option.case Let_def b_def copied_def skipped_def out1_def off1_def rem_def)
    obtain time1 where time1: "(if adv then UpdateCurrentTime bufs (Some i) off1 time else Some time) = Some time1"
      using UpdateCurrentTime_Some [OF ck] by (cases adv) auto
    consider (last) "off1 = db_data_size b" "i + 1 = length bufs"
      | (next_chunk) "off1 = db_data_size b" "i + 1 < length bufs"
      | (inside) "off1 \<noteq> db_data_size b" using i by linarith
    then show ?thesis
    proof cases
      case last
      have nil: "drop (copied + skipped) A = []"
        using adv(1) ahead_last [OF last(2) ck] last(1) off1 by (simp add: b_def)
      have "take (sz - length out) (drop skip A) = take copied A"
        using rest(1) nil by simp
      then show ?thesis
        using eq time1 last out1 adv off1 le nil rest(2,3) i
        by (auto simp: pos_ok_def A_def [symmetric] b_def)
    next
      case next_chunk
      have pos1: "pos_ok bufs (i + 1) 0" using next_chunk by (simp add: pos_ok_def)
      have A1: "ahead_at bufs (i + 1) 0 = drop (copied + skipped) A"
        "behind_at bufs (i + 1) 0 = behind_at bufs i off @ take (copied + skipped) A"
        using ahead_next [OF next_chunk(2) ck] adv next_chunk(1) off1 by (simp_all add: b_def)
      have "2 * (length bufs - (i + 1)) + (if skip - skipped = 0 then 0 else 1) + (sz - length out1)
          < 2 * (length bufs - i) + (if skip = 0 then 0 else 1) + (sz - length out)"
        using i out1(2) by (auto simp: copied_def)
      from less.hyps [OF this pos1 len1, of time1]
      obtain i' off' time' where r:
        "internal_read_loop bufs adv sz (Some (i + 1)) 0 out1 (skip - skipped) time1 =
          Some (Some i', off', out1 @ take (sz - length out1) (drop (skip - skipped) (drop (copied + skipped) A)), time')"
        "pos_ok bufs i' off'"
        "skip - skipped = 0 \<longrightarrow>
         ahead_at bufs i' off' = drop (sz - length out1) (drop (copied + skipped) A) \<and>
         behind_at bufs i' off' = (behind_at bufs i off @ take (copied + skipped) A) @
           take (sz - length out1) (drop (copied + skipped) A)"
        unfolding A1 by (elim exE conjE) (rule that)
      have "internal_read_loop bufs adv sz (Some i) off out skip time =
          Some (Some i', off', out @ take (sz - length out) (drop skip A), time')"
        unfolding eq using time1 next_chunk r(1) out1(1) rest(1) by simp
      then show ?thesis
        using r(2,3) rest(2,3) unfolding A_def [symmetric] by (metis append_assoc diff_0_eq_0)
    next
      case inside
      have pos1: "pos_ok bufs i off1" using le off1 i by (simp add: pos_ok_def)
      have Ain: "ahead_at bufs i off1 = drop (copied + skipped) A"
        "behind_at bufs i off1 = behind_at bufs i off @ take (copied + skipped) A"
        using adv(1,2) off1 by simp_all
      have strict: "2 * (length bufs - i) + (if skip - skipped = 0 then 0 else 1) + (sz - length out1)
          < 2 * (length bufs - i) + (if skip = 0 then 0 else 1) + (sz - length out)"
      proof (cases "skip = 0")
        case True
        then have "copied = sz - length out"
          using inside off off1 by (auto simp: copied_def skipped_def rem_def b_def min_def split: if_splits)
        then show ?thesis using True \<open>length out < sz\<close> out1(2) by (simp add: skipped_def)
      next
        case False
        then have "skipped = skip" "copied = 0"
          using inside off off1 by (auto simp: copied_def skipped_def rem_def b_def min_def split: if_splits)
        then show ?thesis using False out1(2) by simp
      qed
      from less.hyps [OF strict pos1 len1, of time]
      obtain i' off' time' where r:
        "internal_read_loop bufs adv sz (Some i) off1 out1 (skip - skipped) time =
          Some (Some i', off', out1 @ take (sz - length out1) (drop (skip - skipped) (drop (copied + skipped) A)), time')"
        "pos_ok bufs i' off'"
        "skip - skipped = 0 \<longrightarrow>
         ahead_at bufs i' off' = drop (sz - length out1) (drop (copied + skipped) A) \<and>
         behind_at bufs i' off' = (behind_at bufs i off @ take (copied + skipped) A) @
           take (sz - length out1) (drop (copied + skipped) A)"
        unfolding Ain by (elim exE conjE) (rule that)
      have "internal_read_loop bufs adv sz (Some i) off out skip time =
          Some (Some i', off', out @ take (sz - length out) (drop skip A), time')"
        unfolding eq using inside r(1) out1(1) rest(1) by simp
      then show ?thesis
        using r(2,3) rest(2,3) unfolding A_def [symmetric] by (metis append_assoc diff_0_eq_0)
    qed
  qed
qed

section \<open>The state invariant\<close>

definition behind :: "seekable_buffer \<Rightarrow> u8 list" where
  "behind s = (case current_buffer s of
      None \<Rightarrow> [] | Some i \<Rightarrow> behind_at (buffers s) i (current_buffer_offset s))"

definition ahead :: "seekable_buffer \<Rightarrow> u8 list" where
  "ahead s = (case current_buffer s of
      None \<Rightarrow> [] | Some i \<Rightarrow> ahead_at (buffers s) i (current_buffer_offset s))"

definition sb_ok :: "seekable_buffer \<Rightarrow> bool" where
  "sb_ok s \<longleftrightarrow> (\<forall>b \<in> set (buffers s). chunk_ok b) \<and>
     (case current_buffer s of
        None \<Rightarrow> buffers s = [] \<and> current_buffer_offset s = 0
      | Some i \<Rightarrow> pos_ok (buffers s) i (current_buffer_offset s)) \<and>
     backward_bytes s = length (behind s) \<and> forward_bytes s = length (ahead s)"

lemma SeekableBuffer_init_ok:
  "sb_ok (SeekableBuffer_init bc fc) \<and> behind (SeekableBuffer_init bc fc) = [] \<and>
   ahead (SeekableBuffer_init bc fc) = []"
  by (simp add: sb_ok_def SeekableBuffer_init_def behind_def ahead_def)

lemma SeekableBuffer_Clear_ok:
  "sb_ok (SeekableBuffer_Clear s) \<and> behind (SeekableBuffer_Clear s) = [] \<and> ahead (SeekableBuffer_Clear s) = []"
  by (simp add: sb_ok_def SeekableBuffer_Clear_def behind_def ahead_def)

lemma sb_okE:
  assumes "sb_ok s" "current_buffer s = Some i"
  shows "i < length (buffers s)" "current_buffer_offset s \<le> db_data_size (buffers s ! i)"
    "chunk_ok (buffers s ! i)" "pos_ok (buffers s) i (current_buffer_offset s)"
    "behind s = behind_at (buffers s) i (current_buffer_offset s)"
    "ahead s = ahead_at (buffers s) i (current_buffer_offset s)"
    "backward_bytes s = length (behind s)" "forward_bytes s = length (ahead s)"
    "\<forall>b \<in> set (buffers s). chunk_ok b"
  using assms by (auto simp: sb_ok_def pos_ok_def behind_def ahead_def)

lemma UpdateCurrentTime_ok:
  "sb_ok s \<Longrightarrow> \<exists>t. UpdateCurrentTime (buffers s) (current_buffer s) off time = Some t"
proof (cases "current_buffer s")
  case (Some i)
  then show "sb_ok s \<Longrightarrow> ?thesis" using UpdateCurrentTime_Some sb_okE(3) by metis
qed (simp add: UpdateCurrentTime_def)

lemma sb_ok_current_time [simp]:
  "sb_ok (s\<lparr>current_time := t\<rparr>) \<longleftrightarrow> sb_ok s"
  "behind (s\<lparr>current_time := t\<rparr>) = behind s" "ahead (s\<lparr>current_time := t\<rparr>) = ahead s"
  by (simp_all add: sb_ok_def behind_def ahead_def cong: option.case_cong)

section \<open>Appending\<close>

lemma SeekableBuffer_Append_buffer_correct:
  assumes ok: "sb_ok s" and b: "chunk_ok b" and r: "SeekableBuffer_Append_buffer b s = (room, s')"
  shows "sb_ok s'" "behind s' = behind s" "ahead s' = ahead s @ chunk b"
    "room \<longleftrightarrow> forward_bytes s' < forward_capacity s'"
    "forward_capacity s' = forward_capacity s" "backward_capacity s' = backward_capacity s"
proof -
  have "sb_ok s' \<and> behind s' = behind s \<and> ahead s' = ahead s @ chunk b \<and>
    (room \<longleftrightarrow> forward_bytes s' < forward_capacity s') \<and>
    forward_capacity s' = forward_capacity s \<and> backward_capacity s' = backward_capacity s"
  proof (cases "current_buffer s")
    case None
    then have e: "buffers s = []" "current_buffer_offset s = 0" using ok by (simp_all add: sb_ok_def)
    show ?thesis
      using r ok b None e
      by (auto simp: SeekableBuffer_Append_buffer_def Let_def sb_ok_def behind_def ahead_def
          behind_at_def ahead_at_def pos_ok_def split: if_splits)
  next
    case (Some i)
    note k = sb_okE [OF ok Some]
    have "buffers s \<noteq> []" using k(1) by auto
    then show ?thesis
      using r ok b Some k
      by (auto simp: SeekableBuffer_Append_buffer_def Let_def sb_ok_def behind_def ahead_def
          behind_at_def ahead_at_def pos_ok_def nth_append)
  qed
  then show "sb_ok s'" "behind s' = behind s" "ahead s' = ahead s @ chunk b"
    "room \<longleftrightarrow> forward_bytes s' < forward_capacity s'"
    "forward_capacity s' = forward_capacity s" "backward_capacity s' = backward_capacity s" by simp_all
qed

lemma SeekableBuffer_Append_correct:
  assumes ok: "sb_ok s"
  shows "\<exists>room s'. SeekableBuffer_Append data s = Some (room, s') \<and> sb_ok s' \<and>
    behind s' = behind s \<and> ahead s' = ahead s @ data \<and>
    (room \<longleftrightarrow> forward_bytes s' < forward_capacity s') \<and>
    forward_capacity s' = forward_capacity s \<and> backward_capacity s' = backward_capacity s"
proof (cases "data = []")
  case True
  then show ?thesis using ok by (simp add: SeekableBuffer_Append_def)
next
  case False
  define b where "b = \<lparr>db_timestamp = 0, db_duration = 0, db_data = Some data,
    db_buffer_size = length data, db_data_size = length data\<rparr>"
  have "DataBuffer_CopyFrom (Some data) (length data) = Some b"
    by (simp add: DataBuffer_CopyFrom_def DataBuffer_new_def b_def)
  moreover have "chunk_ok b" "chunk b = data"
    using False by (simp_all add: chunk_ok_def chunk_def DataBuffer_data_def b_def)
  moreover obtain room s' where "SeekableBuffer_Append_buffer b s = (room, s')" by fastforce
  ultimately show ?thesis
    using False SeekableBuffer_Append_buffer_correct [OF ok, of b room s']
    by (simp add: SeekableBuffer_Append_def)
qed

section \<open>Eviction and reading\<close>

lemma EvictBackwardBuffers_correct:
  "sb_ok s \<Longrightarrow> sb_ok (EvictBackwardBuffers s) \<and> ahead (EvictBackwardBuffers s) = ahead s \<and>
   (\<exists>n. behind (EvictBackwardBuffers s) = drop n (behind s)) \<and>
   (backward_bytes (EvictBackwardBuffers s) \<le> backward_capacity s \<or>
    current_buffer (EvictBackwardBuffers s) = Some 0) \<and>
   (backward_bytes s \<le> backward_capacity s \<longrightarrow> EvictBackwardBuffers s = s) \<and>
   backward_capacity (EvictBackwardBuffers s) = backward_capacity s \<and>
   forward_capacity (EvictBackwardBuffers s) = forward_capacity s"
proof (induction "length (buffers s)" arbitrary: s rule: less_induct)
  case less
  show ?case
  proof (cases "backward_bytes s > backward_capacity s")
    case False
    then show ?thesis using less.prems by (subst (1 2 3 4 5 6 7 8) EvictBackwardBuffers.simps) (auto intro: exI [of _ 0])
  next
    case True
    then have "behind s \<noteq> []" using less.prems by (auto simp: sb_ok_def)
    then obtain k where k: "current_buffer s = Some k" by (cases "current_buffer s") (auto simp: behind_def)
    note ok = sb_okE [OF less.prems k]
    obtain b bs where bufs: "buffers s = b # bs" using ok(1) by (cases "buffers s") auto
    show ?thesis
    proof (cases k)
      case 0
      have "EvictBackwardBuffers s = s" using True k bufs 0 by (subst EvictBackwardBuffers.simps) simp
      then show ?thesis using less.prems True k 0 by (auto intro: exI [of _ 0])
    next
      case (Suc i)
      define s1 where "s1 = s\<lparr>backward_bytes := backward_bytes s - db_data_size b, buffers := bs,
                 current_buffer := Some i\<rparr>"
      have eq: "EvictBackwardBuffers s = EvictBackwardBuffers s1"
        using True k bufs Suc by (subst EvictBackwardBuffers.simps) (simp add: s1_def)
      have beh: "behind s = chunk b @ behind s1" "ahead s1 = ahead s"
        using k bufs Suc by (simp_all add: s1_def behind_def ahead_def behind_at_def ahead_at_def)
      have ok1: "sb_ok s1"
        using less.prems k bufs Suc beh
        by (auto simp: sb_ok_def s1_def pos_ok_def)
      have short: "length (buffers s1) < length (buffers s)" using bufs by (simp add: s1_def)
      note ih = less.hyps [OF short ok1]
      obtain m where "behind (EvictBackwardBuffers s1) = drop m (behind s1)" using ih by blast
      then have "behind (EvictBackwardBuffers s1) = drop (length (chunk b) + m) (behind s)"
        unfolding beh(1) by simp
      moreover have "backward_capacity s1 = backward_capacity s" "forward_capacity s1 = forward_capacity s"
        by (simp_all add: s1_def)
      ultimately show ?thesis
        using ih beh(2) True unfolding eq by (intro conjI) auto
    qed
  qed
qed

lemma InternalRead_advance:
  assumes ok: "sb_ok s"
  shows "\<exists>s'. InternalRead sz True 0 s = Some (take sz (ahead s), s') \<and> sb_ok s' \<and>
    ahead s' = drop sz (ahead s) \<and>
    (\<exists>n. behind s' = drop n (behind s @ take sz (ahead s))) \<and>
    (length (behind s) + min sz (length (ahead s)) \<le> backward_capacity s \<longrightarrow>
       behind s' = behind s @ take sz (ahead s)) \<and>
    (backward_bytes s' \<le> backward_capacity s \<or> current_buffer s' \<in> {None, Some 0}) \<and>
    backward_capacity s' = backward_capacity s \<and> forward_capacity s' = forward_capacity s"
proof (cases "current_buffer s")
  case None
  then have e: "buffers s = []" "current_buffer_offset s = 0" "ahead s = []" "behind s = []"
    "forward_bytes s = 0" "backward_bytes s = 0"
    using ok by (simp_all add: sb_ok_def ahead_def behind_def)
  have "internal_read_loop (buffers s) True sz None 0 [] 0 (current_time s) = Some (None, 0, [], current_time s)"
    by (subst internal_read_loop.simps) simp
  then have "InternalRead sz True 0 s = Some ([], EvictBackwardBuffers s)"
    using None e by (cases s) (simp add: InternalRead_def UpdateCurrentTime_def)
  moreover have "EvictBackwardBuffers s = s" using e by (subst EvictBackwardBuffers.simps) simp
  ultimately show ?thesis using ok e None by auto
next
  case (Some i)
  note k = sb_okE [OF ok Some]
  obtain i' off' t where loop:
    "internal_read_loop (buffers s) True sz (Some i) (current_buffer_offset s) [] 0 (current_time s) =
       Some (Some i', off', take sz (ahead s), t)" "pos_ok (buffers s) i' off'"
    "ahead_at (buffers s) i' off' = drop sz (ahead s)"
    "behind_at (buffers s) i' off' = behind s @ take sz (ahead s)"
    using internal_read_loop_correct [OF k(9) k(4), of "[]" sz True 0 "current_time s"] k(5,6) by auto
  obtain t1 where t1: "UpdateCurrentTime (buffers s) (Some i') off' t = Some t1"
  proof -
    have "chunk_ok (buffers s ! i')" using k(9) loop(2) by (simp add: pos_ok_def)
    then show ?thesis using UpdateCurrentTime_Some that by blast
  qed
  define s1 where "s1 = s\<lparr>forward_bytes := forward_bytes s - length (take sz (ahead s)),
      backward_bytes := backward_bytes s + length (take sz (ahead s)),
      current_buffer := Some i', current_buffer_offset := off', current_time := t1\<rparr>"
  have read: "InternalRead sz True 0 s = Some (take sz (ahead s), EvictBackwardBuffers s1)"
    using Some loop(1) t1 by (simp add: InternalRead_def s1_def)
  have s1: "behind s1 = behind s @ take sz (ahead s)" "ahead s1 = drop sz (ahead s)"
    using loop by (simp_all add: s1_def behind_def ahead_def)
  have ok1: "sb_ok s1"
    using k(7-9) loop(2) s1 unfolding sb_ok_def by (simp add: s1_def)
  show ?thesis
    using EvictBackwardBuffers_correct [OF ok1] s1 read ok1
    by (auto simp: sb_ok_def [of s1]) (auto simp: s1_def)
qed

lemma InternalRead_peek:
  assumes ok: "sb_ok s"
  shows "InternalRead sz False k s = Some (take sz (drop k (ahead s)), s)"
proof (cases "current_buffer s")
  case None
  then have "ahead s = []" by (simp add: ahead_def)
  moreover have "internal_read_loop (buffers s) False sz None off [] k time = Some (None, off, [], time)" for off time
    by (subst internal_read_loop.simps) simp
  ultimately show ?thesis using None by (simp add: InternalRead_def)
next
  case (Some i)
  note o = sb_okE [OF ok Some]
  obtain i' off' t where
    "internal_read_loop (buffers s) False sz (Some i) (current_buffer_offset s) [] k (current_time s) =
       Some (Some i', off', take sz (drop k (ahead s)), t)"
    using internal_read_loop_correct [OF o(9) o(4), of "[]" sz False k "current_time s"] o(6) by auto
  then show ?thesis using Some by (simp add: InternalRead_def)
qed

section \<open>Seeking\<close>

lemma position_rewind:
  assumes "pos_ok bufs i off" "chunk_ok (bufs ! i)" "n \<le> off"
  shows "behind_at bufs i (off - n) = take (length (behind_at bufs i off) - n) (behind_at bufs i off)"
    "ahead_at bufs i (off - n) = drop (length (behind_at bufs i off) - n) (behind_at bufs i off) @ ahead_at bufs i off"
    "n \<le> length (behind_at bufs i off)"
proof -
  have p: "pos_ok bufs i (off - n)" "off - n + n \<le> db_data_size (bufs ! i)"
    using assms by (auto simp: pos_ok_def)
  note a = position_advance [OF p(1) assms(2) p(2)]
  have beh: "behind_at bufs i off = behind_at bufs i (off - n) @ take n (ahead_at bufs i (off - n))"
    using a(2) assms(3) by simp
  have len: "length (behind_at bufs i off) - n = length (behind_at bufs i (off - n))"
    unfolding beh using a(4) by simp
  show "behind_at bufs i (off - n) = take (length (behind_at bufs i off) - n) (behind_at bufs i off)"
    unfolding len unfolding beh by simp
  have "ahead_at bufs i off = drop n (ahead_at bufs i (off - n))"
    using a(1) assms(3) by simp
  then show "ahead_at bufs i (off - n) =
      drop (length (behind_at bufs i off) - n) (behind_at bufs i off) @ ahead_at bufs i off"
    unfolding len unfolding beh by simp
  show "n \<le> length (behind_at bufs i off)" unfolding beh using a(4) by simp
qed

lemma seek_backward_loop_correct:
  "sb_ok s \<Longrightarrow> current_buffer s = Some i \<Longrightarrow> taken \<le> sz \<Longrightarrow> sz - taken \<le> length (behind s) \<Longrightarrow>
   \<exists>s'. seek_backward_loop sz taken s = Some s' \<and> sb_ok s' \<and> buffers s' = buffers s \<and>
     current_buffer s' \<noteq> None \<and>
     behind s' = take (length (behind s) - (sz - taken)) (behind s) \<and>
     ahead s' = drop (length (behind s) - (sz - taken)) (behind s) @ ahead s \<and>
     backward_capacity s' = backward_capacity s \<and> forward_capacity s' = forward_capacity s"
proof (induction i arbitrary: s taken rule: less_induct)
  case (less i)
  note k = sb_okE [OF less.prems(1,2)]
  show ?case
  proof (cases "taken < sz")
    case False
    then show ?thesis using less.prems by (subst seek_backward_loop.simps) auto
  next
    case True
    define n where "n = min (sz - taken) (current_buffer_offset s)"
    define s1 where "s1 = s\<lparr>current_buffer_offset := current_buffer_offset s - n,
                       forward_bytes := forward_bytes s + n, backward_bytes := backward_bytes s - n\<rparr>"
    have n: "n \<le> current_buffer_offset s" "n \<le> sz - taken" by (simp_all add: n_def)
    note rw = position_rewind [OF k(4,3) n(1), folded k(5,6)]
    have s1: "behind s1 = take (length (behind s) - n) (behind s)"
      "ahead s1 = drop (length (behind s) - n) (behind s) @ ahead s"
      using position_rewind(1,2) [OF k(4,3) n(1)] less.prems(2)
      by (simp_all add: s1_def behind_def ahead_def)
    have ok1: "sb_ok s1"
      using k s1 rw(3) less.prems(2) unfolding sb_ok_def by (auto simp: s1_def pos_ok_def)
    have eq: "seek_backward_loop sz taken s =
      (if current_buffer_offset s1 = 0 then
         if i = 0 then Some s1
         else seek_backward_loop sz (taken + n)
                (s1\<lparr>current_buffer := Some (i - 1),
                   current_buffer_offset := db_data_size (buffers s1 ! (i - 1))\<rparr>)
       else seek_backward_loop sz (taken + n) s1)"
      unfolding seek_backward_loop.simps [of sz taken s]
      by (simp add: True less.prems(2) Let_def n_def s1_def)
    have split: "take (length (behind s) - n - (sz - (taken + n))) (take (length (behind s) - n) (behind s)) =
        take (length (behind s) - (sz - taken)) (behind s)"
      "drop (length (behind s) - n - (sz - (taken + n))) (take (length (behind s) - n) (behind s)) @
        drop (length (behind s) - n) (behind s) = drop (length (behind s) - (sz - taken)) (behind s)"
    proof -
      have "length (behind s) - n - (sz - (taken + n)) = length (behind s) - (sz - taken)"
        using n(2) True by linarith
      moreover have "length (behind s) - (sz - taken) \<le> length (behind s) - n" using n(2) by linarith
      ultimately show "take (length (behind s) - n - (sz - (taken + n))) (take (length (behind s) - n) (behind s)) =
        take (length (behind s) - (sz - taken)) (behind s)"
        "drop (length (behind s) - n - (sz - (taken + n))) (take (length (behind s) - n) (behind s)) @
        drop (length (behind s) - n) (behind s) = drop (length (behind s) - (sz - taken)) (behind s)"
        by (simp_all only: take_take min_absorb1 drop_take_drop)
    qed
    consider (stop) "current_buffer_offset s1 \<noteq> 0" | (first) "current_buffer_offset s1 = 0" "i = 0"
      | (rewind) "current_buffer_offset s1 = 0" "0 < i" by blast
    then show ?thesis
    proof cases
      case stop
      then have "n = sz - taken" by (auto simp: n_def s1_def min_def split: if_splits)
      moreover from this have "seek_backward_loop sz (taken + n) s1 = Some s1"
        using True by (subst seek_backward_loop.simps) simp
      ultimately show ?thesis
        using eq stop s1 ok1 less.prems(2) by (simp add: s1_def)
    next
      case first
      have "behind s1 = []"
        using first less.prems(2) by (simp add: behind_def s1_def behind_at_def)
      then have "length (behind s) - n = 0" using s1(1) rw(3) by auto
      then have "n = sz - taken" using less.prems(4) n(2) rw(3) by linarith
      then show ?thesis
        using eq first s1 ok1 less.prems(2) by (simp add: s1_def)
    next
      case rewind
      define s2 where "s2 = s1\<lparr>current_buffer := Some (i - 1),
                   current_buffer_offset := db_data_size (buffers s1 ! (i - 1))\<rparr>"
      have b: "buffers s1 = buffers s" "current_buffer s1 = Some i" using less.prems(2) by (simp_all add: s1_def)
      have "chunk_ok (buffers s ! (i - 1))" using k(1,9) rewind(2) by simp
      note step = ahead_next [of "i - 1" "buffers s", OF _ this]
      have s2: "behind s2 = behind s1" "ahead s2 = ahead s1"
        using step k(1) rewind b by (simp_all add: s2_def behind_def ahead_def)
      have ok2: "sb_ok s2"
        using ok1 s2 rewind b k(1) unfolding sb_ok_def by (auto simp: s2_def pos_ok_def)
      have pre: "i - 1 < i" "current_buffer s2 = Some (i - 1)" "taken + n \<le> sz"
          "sz - (taken + n) \<le> length (behind s2)"
        using s2 s1 less.prems(4) rw(3) n(2) True rewind(2) by (simp_all add: s2_def)
      from less.IH [OF pre(1) ok2 pre(2-4)] obtain s' where "seek_backward_loop sz (taken + n) s2 = Some s'" "sb_ok s'" "buffers s' = buffers s2"
        "current_buffer s' \<noteq> None"
        "behind s' = take (length (behind s2) - (sz - (taken + n))) (behind s2)"
        "ahead s' = drop (length (behind s2) - (sz - (taken + n))) (behind s2) @ ahead s2"
        "backward_capacity s' = backward_capacity s2" "forward_capacity s' = forward_capacity s2"
        by (elim exE conjE) (rule that)
      then show ?thesis
        using eq rewind s1 s2 split by (simp add: s2_def [symmetric]) (simp add: s2_def s1_def)
    qed
  qed
qed

lemma SeekForward_correct:
  assumes "sb_ok s"
  shows "if sz \<le> length (ahead s)
    then \<exists>s'. SeekForward sz s = Some (True, s') \<and>
      InternalRead sz True 0 s = Some (take sz (ahead s), s')
    else SeekForward sz s = Some (False, s)"
  using InternalRead_advance [OF assms, of sz] assms
  by (auto simp: SeekForward_def sb_ok_def)

lemma SeekBackward_correct:
  assumes ok: "sb_ok s"
  shows "if sz \<le> length (behind s)
    then \<exists>s'. SeekBackward sz s = Some (True, s') \<and> sb_ok s' \<and>
      behind s' = take (length (behind s) - sz) (behind s) \<and>
      ahead s' = drop (length (behind s) - sz) (behind s) @ ahead s \<and>
      backward_capacity s' = backward_capacity s \<and> forward_capacity s' = forward_capacity s
    else SeekBackward sz s = Some (False, s)"
proof (cases "sz \<le> length (behind s)")
  case False
  then show ?thesis using ok by (simp add: SeekBackward_def sb_ok_def)
next
  case le: True
  have "\<exists>s1. seek_backward_loop sz 0 s = Some s1 \<and> sb_ok s1 \<and>
      behind s1 = take (length (behind s) - sz) (behind s) \<and>
      ahead s1 = drop (length (behind s) - sz) (behind s) @ ahead s \<and>
      backward_capacity s1 = backward_capacity s \<and> forward_capacity s1 = forward_capacity s"
  proof (cases "current_buffer s")
    case None
    then have "behind s = []" by (simp add: behind_def)
    then show ?thesis using le ok by (subst seek_backward_loop.simps) auto
  next
    case (Some i)
    show ?thesis using seek_backward_loop_correct [OF ok Some, of 0 sz] le by auto
  qed
  then obtain s1 where s1: "seek_backward_loop sz 0 s = Some s1" "sb_ok s1"
      "behind s1 = take (length (behind s) - sz) (behind s)"
      "ahead s1 = drop (length (behind s) - sz) (behind s) @ ahead s"
      "backward_capacity s1 = backward_capacity s" "forward_capacity s1 = forward_capacity s" by blast
  obtain t where "UpdateCurrentTime (buffers s1) (current_buffer s1) (current_buffer_offset s1) (current_time s1) = Some t"
    using UpdateCurrentTime_ok [OF s1(2)] by blast
  then show ?thesis
    using le ok s1 by (simp add: SeekBackward_def sb_ok_def [of s])
qed

lemma current_chunk_loop_correct:
  "\<forall>b \<in> set bufs. chunk_ok b \<Longrightarrow> i < length bufs \<Longrightarrow> off \<le> db_data_size (bufs ! i) \<Longrightarrow>
   (case current_chunk_loop bufs i off of (i', off') \<Rightarrow>
      if i' < length bufs
      then off' < db_data_size (bufs ! i') \<and> ahead_at bufs i' off' = ahead_at bufs i off
      else ahead_at bufs i off = [])"
proof (induction bufs i off rule: current_chunk_loop.induct)
  case (1 bufs i off)
  show ?case
  proof (cases "off \<ge> db_data_size (bufs ! i)")
    case False
    then show ?thesis using "1.prems" by (subst current_chunk_loop.simps) auto
  next
    case True
    have ck: "chunk_ok (bufs ! i)" and off: "off = db_data_size (bufs ! i)" using "1.prems" True by auto
    have eq: "current_chunk_loop bufs i off = current_chunk_loop bufs (i + 1) 0"
      using True "1.prems" by (subst current_chunk_loop.simps) simp
    show ?thesis
    proof (cases "i + 1 < length bufs")
      case False
      then have "i + 1 = length bufs" using "1.prems" by simp
      moreover from this have "current_chunk_loop bufs (i + 1) 0 = (i + 1, 0)"
        by (subst current_chunk_loop.simps) simp
      ultimately show ?thesis unfolding eq using ahead_last [OF _ ck] off by simp
    next
      case nxt: True
      have le0: "0 \<le> db_data_size (bufs ! (i + 1))" by simp
      have "i < length bufs \<and> db_data_size (bufs ! i) \<le> off" using True nxt by simp
      from "1.IH" [OF this "1.prems"(1) nxt le0]
      moreover have A: "ahead_at bufs i off = ahead_at bufs (i + 1) 0"
        using off ahead_next(1) [OF nxt ck] by simp
      ultimately show ?thesis unfolding eq A by blast
    qed
  qed
qed

section \<open>The contract of a seekable byte sequence\<close>

text \<open>
  What a client needs of such a buffer: appends extend what is ahead, reads and seeks move
  the position. The sequence itself, behind and ahead together, then only loses bytes at
  its old end.
\<close>

locale seekable_sequence =
  fixes ok :: "'s \<Rightarrow> bool" and before after :: "'s \<Rightarrow> 'a list"
    and append :: "'a list \<Rightarrow> 's \<Rightarrow> 's option"
    and read :: "nat \<Rightarrow> 's \<Rightarrow> ('a list \<times> 's) option"
  assumes append_law: "ok s \<Longrightarrow> \<exists>s'. append d s = Some s' \<and> ok s' \<and>
      before s' = before s \<and> after s' = after s @ d"
    and read_law: "ok s \<Longrightarrow> \<exists>s'. read n s = Some (take n (after s), s') \<and> ok s' \<and>
      after s' = drop n (after s)"
begin

text \<open>Reading in pieces gives the same bytes as reading at once.\<close>

fun read_pieces :: "nat list \<Rightarrow> 's \<Rightarrow> 'a list option" where
  "read_pieces [] s = Some []"
| "read_pieces (n # ns) s =
     (case read n s of None \<Rightarrow> None | Some (d, s') \<Rightarrow> map_option ((@) d) (read_pieces ns s'))"

lemma read_pieces_concat: "ok s \<Longrightarrow> read_pieces ns s = Some (take (sum_list ns) (after s))"
proof (induction ns arbitrary: s)
  case (Cons n ns)
  obtain s' where s': "read n s = Some (take n (after s), s')" "ok s'" "after s' = drop n (after s)"
    using read_law [OF Cons.prems] by blast
  then show ?case using Cons.IH [OF s'(2)] by (simp add: take_add)
qed simp

end

interpretation seekable: seekable_sequence sb_ok behind ahead
  "\<lambda>d s. map_option snd (SeekableBuffer_Append d s)" SeekableBuffer_Read
proof
  show "\<exists>s'. map_option snd (SeekableBuffer_Append d s) = Some s' \<and> sb_ok s' \<and>
      behind s' = behind s \<and> ahead s' = ahead s @ d" if "sb_ok s" for s d
    using SeekableBuffer_Append_correct [OF that, of d] by auto
  show "\<exists>s'. SeekableBuffer_Read n s = Some (take n (ahead s), s') \<and> sb_ok s' \<and>
      ahead s' = drop n (ahead s)" if "sb_ok s" for s n
    using InternalRead_advance [OF that, of n] by (auto simp: SeekableBuffer_Read_def)
qed

text \<open>A short buffer state for the witnesses.\<close>

lemma sb_example:
  "\<exists>s. Option.bind (SeekableBuffer_Append [1, 2, 3] (SeekableBuffer_init 2 8))
         (\<lambda>(_, s). map_option snd (SeekableBuffer_Append [4, 5] s)) = Some s \<and>
       sb_ok s \<and> behind s = [] \<and> ahead s = [1, 2, 3, 4, 5] \<and>
       backward_capacity s = 2 \<and> forward_capacity s = 8"
proof -
  have i: "sb_ok (SeekableBuffer_init 2 8)" "behind (SeekableBuffer_init 2 8) = []"
    "ahead (SeekableBuffer_init 2 8) = []" using SeekableBuffer_init_ok by auto
  obtain b s1 where s1: "SeekableBuffer_Append [1, 2, 3] (SeekableBuffer_init 2 8) = Some (b, s1)"
    "sb_ok s1" "behind s1 = []" "ahead s1 = [1, 2, 3]"
    "forward_capacity s1 = 8" "backward_capacity s1 = 2"
    using SeekableBuffer_Append_correct [OF i(1), of "[1, 2, 3]"] i
    by (auto simp: SeekableBuffer_init_def)
  show ?thesis
    using SeekableBuffer_Append_correct [OF s1(2), of "[4, 5]"] s1 by auto
qed

section \<open>Properties\<close>



text \<open>
  \<open>Seek\<close> moves along the byte sequence: a seek within the buffered bytes succeeds and
  moves exactly that far in either direction, one beyond them returns false and changes
  nothing, and none fails otherwise.
\<close>

theorem SeekableBuffer_Seek_correct:
  assumes "sb_ok s"
  shows "\<exists>b s'. SeekableBuffer_Seek off s = Some (b, s') \<and> sb_ok s' \<and>
    (b \<longleftrightarrow> - int (backward_bytes s) \<le> off \<and> off \<le> int (forward_bytes s)) \<and>
    (\<not> b \<longrightarrow> s' = s) \<and>
    (b \<and> 0 \<le> off \<longrightarrow> ahead s' = drop (nat off) (ahead s)) \<and>
    (b \<and> off < 0 \<longrightarrow> behind s' @ ahead s' = behind s @ ahead s \<and>
       int (length (ahead s')) = int (length (ahead s)) - off)"
proof -
  have c: "forward_bytes s = length (ahead s)" "backward_bytes s = length (behind s)"
    using assms by (simp_all add: sb_ok_def)
  consider (fwd) "off > 0" | (bwd) "off < 0" | (stay) "off = 0" by linarith
  then show ?thesis
  proof cases
    case fwd
    then show ?thesis
      using SeekForward_correct [OF assms, of "nat off"] InternalRead_advance [OF assms, of "nat off"] c assms
      by (cases "nat off \<le> length (ahead s)") (auto simp: SeekableBuffer_Seek_def)
  next
    case bwd
    show ?thesis
    proof (cases "nat (- off) \<le> length (behind s)")
      case True
      obtain s' where s': "SeekBackward (nat (- off)) s = Some (True, s')" "sb_ok s'"
        "behind s' = take (length (behind s) - nat (- off)) (behind s)"
        "ahead s' = drop (length (behind s) - nat (- off)) (behind s) @ ahead s"
        using SeekBackward_correct [OF assms, of "nat (- off)"] True by auto
      have "behind s' @ ahead s' = behind s @ ahead s" using s'(3,4) by simp
      moreover have "int (length (ahead s')) = int (length (ahead s)) - off"
        using s'(4) True bwd by simp
      ultimately show ?thesis using s' bwd True c by (auto simp: SeekableBuffer_Seek_def)
    next
      case False
      then show ?thesis
        using SeekBackward_correct [OF assms, of "nat (- off)"] bwd c assms
        by (auto simp: SeekableBuffer_Seek_def)
    qed
  next
    case stay
    then show ?thesis using assms c by (auto simp: SeekableBuffer_Seek_def)
  qed
qed

theorem SeekableBuffer_Seek_correct_witness:
  "\<exists>s s'. sb_ok s \<and> SeekableBuffer_Seek 2 s = Some (True, s') \<and> ahead s' = [3, 4, 5]"
proof -
  obtain s where s: "sb_ok s" "ahead s = [1, 2, 3, 4, 5]" using sb_example by blast
  then have "forward_bytes s = 5" by (simp add: sb_ok_def)
  with SeekableBuffer_Seek_correct [OF s(1), of 2] s show ?thesis by auto
qed

text \<open>
  Seeking forward and back by the same amount returns to the same position: the bytes
  ahead are the same again, provided the backward capacity allowed the forward seek
  without eviction.
\<close>

theorem Seek_roundtrip:
  assumes "sb_ok s" "n \<le> forward_bytes s" "backward_bytes s + n \<le> backward_capacity s"
  shows "\<exists>s1 s2. SeekableBuffer_Seek (int n) s = Some (True, s1) \<and>
    SeekableBuffer_Seek (- int n) s1 = Some (True, s2) \<and>
    ahead s2 = ahead s \<and> behind s2 = behind s"
proof (cases "n = 0")
  case True
  then show ?thesis by (simp add: SeekableBuffer_Seek_def)
next
  case False
  have c: "forward_bytes s = length (ahead s)" "backward_bytes s = length (behind s)"
    using assms by (simp_all add: sb_ok_def)
  obtain s1 where s1: "SeekForward n s = Some (True, s1)" "sb_ok s1" "ahead s1 = drop n (ahead s)"
      "behind s1 = behind s @ take n (ahead s)"
    using SeekForward_correct [OF assms(1), of n] InternalRead_advance [OF assms(1), of n] assms c by auto
  obtain s2 where "SeekBackward n s1 = Some (True, s2)"
      "behind s2 = take (length (behind s1) - n) (behind s1)"
      "ahead s2 = drop (length (behind s1) - n) (behind s1) @ ahead s1"
    using SeekBackward_correct [OF s1(2), of n] s1(4) assms(2) c by auto
  then show ?thesis
    using s1 False assms(2) c by (auto simp: SeekableBuffer_Seek_def)
qed

theorem Seek_roundtrip_witness:
  "\<exists>s s1 s2. SeekableBuffer_Seek 2 s = Some (True, s1) \<and> SeekableBuffer_Seek (- 2) s1 = Some (True, s2) \<and>
     ahead s2 = [1, 2, 3, 4, 5]"
proof -
  obtain s where s: "sb_ok s" "ahead s = [1, 2, 3, 4, 5]" "behind s = []" "backward_capacity s = 2"
    using sb_example by blast
  then have "2 \<le> forward_bytes s" "backward_bytes s + 2 \<le> backward_capacity s" by (simp_all add: sb_ok_def)
  from Seek_roundtrip [OF s(1) this] s(2) show ?thesis by auto
qed

text \<open>
  C15: \<open>Peek\<close> is \<open>Read\<close> without effect: it returns the bytes a read after skipping
  \<open>forward_offset\<close> bytes would return, and leaves the buffer as it was.
\<close>

theorem SeekableBuffer_Peek_correct:
  assumes "sb_ok s"
  shows "SeekableBuffer_Peek n k s = Some (take n (drop k (ahead s)), s)"
  using InternalRead_peek [OF assms] by (simp add: SeekableBuffer_Peek_def)

theorem SeekableBuffer_Peek_correct_witness:
  "\<exists>s. sb_ok s \<and> SeekableBuffer_Peek 2 2 s = Some ([3, 4], s)"
proof -
  obtain s where s: "sb_ok s" "ahead s = [1, 2, 3, 4, 5]" using sb_example by blast
  from SeekableBuffer_Peek_correct [OF s(1), of 2 2] s show ?thesis by auto
qed

text \<open>
  C16: \<open>GetCurrentChunk\<close> returns false exactly when nothing is ahead, and otherwise a
  non-empty prefix of the bytes ahead.
\<close>

theorem GetCurrentChunk_correct:
  assumes "sb_ok s"
  shows "case GetCurrentChunk s of
      None \<Rightarrow> forward_bytes s = 0
    | Some d \<Rightarrow> d \<noteq> [] \<and> d = take (length d) (ahead s)"
proof (cases "current_buffer s")
  case None
  then show ?thesis using assms by (simp add: GetCurrentChunk_def sb_ok_def ahead_def)
next
  case (Some i)
  note o = sb_okE [OF assms Some]
  obtain j off where l: "current_chunk_loop (buffers s) i (current_buffer_offset s) = (j, off)" by fastforce
  note r = current_chunk_loop_correct [OF o(9,1,2), unfolded l, folded o(6)]
  show ?thesis
  proof (cases "j < length (buffers s)")
    case False
    then show ?thesis using r l Some o(8) by (simp add: GetCurrentChunk_def)
  next
    case True
    define n where "n = db_data_size (buffers s ! j) - off"
    have p: "pos_ok (buffers s) j off" "chunk_ok (buffers s ! j)" "off + n \<le> db_data_size (buffers s ! j)"
      "0 < n" and ah: "ahead s = ahead_at (buffers s) j off"
      using True r o(9) by (auto simp: pos_ok_def n_def)
    have "mem_slice off n (DataBuffer_data (buffers s ! j)) = take n (ahead s)" "n \<le> length (ahead s)"
      using position_advance(3,4) [OF p(1-3)] ah by simp_all
    moreover have "GetCurrentChunk s = Some (mem_slice off n (DataBuffer_data (buffers s ! j)))"
      using Some l True by (simp add: GetCurrentChunk_def n_def)
    ultimately show ?thesis using p(4) by auto
  qed
qed

theorem GetCurrentChunk_correct_witness:
  "\<exists>s d. sb_ok s \<and> GetCurrentChunk s = Some d \<and> d \<noteq> []"
proof -
  obtain s where s: "sb_ok s" "ahead s = [1, 2, 3, 4, 5]" using sb_example by blast
  then have "forward_bytes s \<noteq> 0" by (simp add: sb_ok_def)
  with GetCurrentChunk_correct [OF s(1)] s(1) show ?thesis by (auto split: option.splits)
qed

text \<open>
  An empty chunk that carries a timestamp, which \<open>Append\<close> accepts, makes the next
  read of a fresh buffer divide by zero in \<open>UpdateCurrentTime\<close>.
\<close>

theorem timed_empty_chunk_fails:
  assumes "db_data_size b = 0" "db_timestamp b \<noteq> kNoTimestamp" "0 < n"
  shows "SeekableBuffer_Read n (snd (SeekableBuffer_Append_buffer b (SeekableBuffer_init bc fc))) = None"
proof -
  have "internal_read_loop [b] True n (Some 0) 0 [] 0 (db_timestamp b) = None"
    using assms by (subst internal_read_loop.simps) (simp add: UpdateCurrentTime_def)
  then show ?thesis
    using assms by (simp add: SeekableBuffer_Read_def InternalRead_def SeekableBuffer_Append_buffer_def
        SeekableBuffer_init_def)
qed

theorem timed_empty_chunk_fails_witness:
  "SeekableBuffer_Read 1 (snd (SeekableBuffer_Append_buffer
     \<lparr>db_timestamp = 40, db_duration = 20, db_data = Some [], db_buffer_size = 0, db_data_size = 0\<rparr>
     (SeekableBuffer_init 10 10))) = None"
  by (rule timed_empty_chunk_fails) (simp_all add: kNoTimestamp_def)

end
