(* ===== verification/Webm_Ids.thy ===== *)
theory Webm_Ids
  imports Media_Prelude
begin

text \<open>
  The element IDs of WebM (\<open>formats/webm/webm_constants.h\<close>) and the tables of
  \<open>formats/webm/webm_parser.cc\<close> that say which IDs may occur in which list element, with
  the level of every list. The C++ type \<open>int\<close> of an ID is \<open>int\<close> here: all IDs are
  positive and below \<open>2 ^ 31\<close>.
\<close>

named_theorems webm_ids
named_theorems webm_tables

section \<open>Element IDs\<close>

definition kWebMIdAESSettingsCipherMode :: int where [webm_ids]: "kWebMIdAESSettingsCipherMode = 0x47E8"
definition kWebMIdAlphaMode :: int where [webm_ids]: "kWebMIdAlphaMode = 0x53C0"
definition kWebMIdAspectRatioType :: int where [webm_ids]: "kWebMIdAspectRatioType = 0x54B3"
definition kWebMIdAttachedFile :: int where [webm_ids]: "kWebMIdAttachedFile = 0x61A7"
definition kWebMIdAttachmentLink :: int where [webm_ids]: "kWebMIdAttachmentLink = 0x7446"
definition kWebMIdAttachments :: int where [webm_ids]: "kWebMIdAttachments = 0x1941A469"
definition kWebMIdAudio :: int where [webm_ids]: "kWebMIdAudio = 0xE1"
definition kWebMIdBitDepth :: int where [webm_ids]: "kWebMIdBitDepth = 0x6264"
definition kWebMIdBitsPerChannel :: int where [webm_ids]: "kWebMIdBitsPerChannel = 0x55B2"
definition kWebMIdBlock :: int where [webm_ids]: "kWebMIdBlock = 0xA1"
definition kWebMIdBlockAddID :: int where [webm_ids]: "kWebMIdBlockAddID = 0xEE"
definition kWebMIdBlockAdditions :: int where [webm_ids]: "kWebMIdBlockAdditions = 0x75A1"
definition kWebMIdBlockAdditional :: int where [webm_ids]: "kWebMIdBlockAdditional = 0xA5"
definition kWebMIdBlockDuration :: int where [webm_ids]: "kWebMIdBlockDuration = 0x9B"
definition kWebMIdBlockGroup :: int where [webm_ids]: "kWebMIdBlockGroup = 0xA0"
definition kWebMIdBlockMore :: int where [webm_ids]: "kWebMIdBlockMore = 0xA6"
definition kWebMIdCbSubsamplingHorz :: int where [webm_ids]: "kWebMIdCbSubsamplingHorz = 0x55B5"
definition kWebMIdCbSubsamplingVert :: int where [webm_ids]: "kWebMIdCbSubsamplingVert = 0x55B6"
definition kWebMIdChannels :: int where [webm_ids]: "kWebMIdChannels = 0x9F"
definition kWebMIdChapCountry :: int where [webm_ids]: "kWebMIdChapCountry = 0x437E"
definition kWebMIdChapLanguage :: int where [webm_ids]: "kWebMIdChapLanguage = 0x437C"
definition kWebMIdChapProcess :: int where [webm_ids]: "kWebMIdChapProcess = 0x6944"
definition kWebMIdChapProcessCodecID :: int where [webm_ids]: "kWebMIdChapProcessCodecID = 0x6955"
definition kWebMIdChapProcessCommand :: int where [webm_ids]: "kWebMIdChapProcessCommand = 0x6911"
definition kWebMIdChapProcessData :: int where [webm_ids]: "kWebMIdChapProcessData = 0x6933"
definition kWebMIdChapProcessPrivate :: int where [webm_ids]: "kWebMIdChapProcessPrivate = 0x450D"
definition kWebMIdChapProcessTime :: int where [webm_ids]: "kWebMIdChapProcessTime = 0x6922"
definition kWebMIdChapString :: int where [webm_ids]: "kWebMIdChapString = 0x85"
definition kWebMIdChapterAtom :: int where [webm_ids]: "kWebMIdChapterAtom = 0xB6"
definition kWebMIdChapterDisplay :: int where [webm_ids]: "kWebMIdChapterDisplay = 0x80"
definition kWebMIdChapterFlagEnabled :: int where [webm_ids]: "kWebMIdChapterFlagEnabled = 0x4598"
definition kWebMIdChapterFlagHidden :: int where [webm_ids]: "kWebMIdChapterFlagHidden = 0x98"
definition kWebMIdChapterPhysicalEquiv :: int where [webm_ids]: "kWebMIdChapterPhysicalEquiv = 0x63C3"
definition kWebMIdChapters :: int where [webm_ids]: "kWebMIdChapters = 0x1043A770"
definition kWebMIdChapterSegmentEditionUID :: int where [webm_ids]: "kWebMIdChapterSegmentEditionUID = 0x6EBC"
definition kWebMIdChapterSegmentUID :: int where [webm_ids]: "kWebMIdChapterSegmentUID = 0x6E67"
definition kWebMIdChapterTimeEnd :: int where [webm_ids]: "kWebMIdChapterTimeEnd = 0x92"
definition kWebMIdChapterTimeStart :: int where [webm_ids]: "kWebMIdChapterTimeStart = 0x91"
definition kWebMIdChapterTrack :: int where [webm_ids]: "kWebMIdChapterTrack = 0x8F"
definition kWebMIdChapterTrackNumber :: int where [webm_ids]: "kWebMIdChapterTrackNumber = 0x89"
definition kWebMIdChapterTranslate :: int where [webm_ids]: "kWebMIdChapterTranslate = 0x6924"
definition kWebMIdChapterTranslateCodec :: int where [webm_ids]: "kWebMIdChapterTranslateCodec = 0x69BF"
definition kWebMIdChapterTranslateEditionUID :: int where [webm_ids]: "kWebMIdChapterTranslateEditionUID = 0x69FC"
definition kWebMIdChapterTranslateID :: int where [webm_ids]: "kWebMIdChapterTranslateID = 0x69A5"
definition kWebMIdChapterUID :: int where [webm_ids]: "kWebMIdChapterUID = 0x73C4"
definition kWebMIdChromaSitingHorz :: int where [webm_ids]: "kWebMIdChromaSitingHorz = 0x55B7"
definition kWebMIdChromaSitingVert :: int where [webm_ids]: "kWebMIdChromaSitingVert = 0x55B8"
definition kWebMIdChromaSubsamplingHorz :: int where [webm_ids]: "kWebMIdChromaSubsamplingHorz = 0x55B3"
definition kWebMIdChromaSubsamplingVert :: int where [webm_ids]: "kWebMIdChromaSubsamplingVert = 0x55B4"
definition kWebMIdCluster :: int where [webm_ids]: "kWebMIdCluster = 0x1F43B675"
definition kWebMIdCodecDecodeAll :: int where [webm_ids]: "kWebMIdCodecDecodeAll = 0xAA"
definition kWebMIdCodecDelay :: int where [webm_ids]: "kWebMIdCodecDelay = 0x56AA"
definition kWebMIdCodecID :: int where [webm_ids]: "kWebMIdCodecID = 0x86"
definition kWebMIdCodecName :: int where [webm_ids]: "kWebMIdCodecName = 0x258688"
definition kWebMIdCodecPrivate :: int where [webm_ids]: "kWebMIdCodecPrivate = 0x63A2"
definition kWebMIdCodecState :: int where [webm_ids]: "kWebMIdCodecState = 0xA4"
definition kWebMIdColorSpace :: int where [webm_ids]: "kWebMIdColorSpace = 0x2EB524"
definition kWebMIdColour :: int where [webm_ids]: "kWebMIdColour = 0x55B0"
definition kWebMIdContentCompAlgo :: int where [webm_ids]: "kWebMIdContentCompAlgo = 0x4254"
definition kWebMIdContentCompression :: int where [webm_ids]: "kWebMIdContentCompression = 0x5034"
definition kWebMIdContentCompSettings :: int where [webm_ids]: "kWebMIdContentCompSettings = 0x4255"
definition kWebMIdContentEncAESSettings :: int where [webm_ids]: "kWebMIdContentEncAESSettings = 0x47E7"
definition kWebMIdContentEncAlgo :: int where [webm_ids]: "kWebMIdContentEncAlgo = 0x47E1"
definition kWebMIdContentEncKeyID :: int where [webm_ids]: "kWebMIdContentEncKeyID = 0x47E2"
definition kWebMIdContentEncoding :: int where [webm_ids]: "kWebMIdContentEncoding = 0x6240"
definition kWebMIdContentEncodingOrder :: int where [webm_ids]: "kWebMIdContentEncodingOrder = 0x5031"
definition kWebMIdContentEncodings :: int where [webm_ids]: "kWebMIdContentEncodings = 0x6D80"
definition kWebMIdContentEncodingScope :: int where [webm_ids]: "kWebMIdContentEncodingScope = 0x5032"
definition kWebMIdContentEncodingType :: int where [webm_ids]: "kWebMIdContentEncodingType = 0x5033"
definition kWebMIdContentEncryption :: int where [webm_ids]: "kWebMIdContentEncryption = 0x5035"
definition kWebMIdContentSigAlgo :: int where [webm_ids]: "kWebMIdContentSigAlgo = 0x47E5"
definition kWebMIdContentSigHashAlgo :: int where [webm_ids]: "kWebMIdContentSigHashAlgo = 0x47E6"
definition kWebMIdContentSigKeyID :: int where [webm_ids]: "kWebMIdContentSigKeyID = 0x47E4"
definition kWebMIdContentSignature :: int where [webm_ids]: "kWebMIdContentSignature = 0x47E3"
definition kWebMIdCRC32 :: int where [webm_ids]: "kWebMIdCRC32 = 0xBF"
definition kWebMIdCueBlockNumber :: int where [webm_ids]: "kWebMIdCueBlockNumber = 0x5378"
definition kWebMIdCueClusterPosition :: int where [webm_ids]: "kWebMIdCueClusterPosition = 0xF1"
definition kWebMIdCueCodecState :: int where [webm_ids]: "kWebMIdCueCodecState = 0xEA"
definition kWebMIdCuePoint :: int where [webm_ids]: "kWebMIdCuePoint = 0xBB"
definition kWebMIdCueReference :: int where [webm_ids]: "kWebMIdCueReference = 0xDB"
definition kWebMIdCueRefTime :: int where [webm_ids]: "kWebMIdCueRefTime = 0x96"
definition kWebMIdCues :: int where [webm_ids]: "kWebMIdCues = 0x1C53BB6B"
definition kWebMIdCueTime :: int where [webm_ids]: "kWebMIdCueTime = 0xB3"
definition kWebMIdCueTrack :: int where [webm_ids]: "kWebMIdCueTrack = 0xF7"
definition kWebMIdCueTrackPositions :: int where [webm_ids]: "kWebMIdCueTrackPositions = 0xB7"
definition kWebMIdDateUTC :: int where [webm_ids]: "kWebMIdDateUTC = 0x4461"
definition kWebMIdDefaultDuration :: int where [webm_ids]: "kWebMIdDefaultDuration = 0x23E383"
definition kWebMIdDiscardPadding :: int where [webm_ids]: "kWebMIdDiscardPadding = 0x75A2"
definition kWebMIdDisplayHeight :: int where [webm_ids]: "kWebMIdDisplayHeight = 0x54BA"
definition kWebMIdDisplayUnit :: int where [webm_ids]: "kWebMIdDisplayUnit = 0x54B2"
definition kWebMIdDisplayWidth :: int where [webm_ids]: "kWebMIdDisplayWidth = 0x54B0"
definition kWebMIdDocType :: int where [webm_ids]: "kWebMIdDocType = 0x4282"
definition kWebMIdDocTypeReadVersion :: int where [webm_ids]: "kWebMIdDocTypeReadVersion = 0x4285"
definition kWebMIdDocTypeVersion :: int where [webm_ids]: "kWebMIdDocTypeVersion = 0x4287"
definition kWebMIdDuration :: int where [webm_ids]: "kWebMIdDuration = 0x4489"
definition kWebMIdEBMLHeader :: int where [webm_ids]: "kWebMIdEBMLHeader = 0x1A45DFA3"
definition kWebMIdEBMLMaxIDLength :: int where [webm_ids]: "kWebMIdEBMLMaxIDLength = 0x42F2"
definition kWebMIdEBMLMaxSizeLength :: int where [webm_ids]: "kWebMIdEBMLMaxSizeLength = 0x42F3"
definition kWebMIdEBMLReadVersion :: int where [webm_ids]: "kWebMIdEBMLReadVersion = 0x42F7"
definition kWebMIdEBMLVersion :: int where [webm_ids]: "kWebMIdEBMLVersion = 0x4286"
definition kWebMIdEditionEntry :: int where [webm_ids]: "kWebMIdEditionEntry = 0x45B9"
definition kWebMIdEditionFlagDefault :: int where [webm_ids]: "kWebMIdEditionFlagDefault = 0x45DB"
definition kWebMIdEditionFlagHidden :: int where [webm_ids]: "kWebMIdEditionFlagHidden = 0x45BD"
definition kWebMIdEditionFlagOrdered :: int where [webm_ids]: "kWebMIdEditionFlagOrdered = 0x45DD"
definition kWebMIdEditionUID :: int where [webm_ids]: "kWebMIdEditionUID = 0x45BC"
definition kWebMIdFileData :: int where [webm_ids]: "kWebMIdFileData = 0x465C"
definition kWebMIdFileDescription :: int where [webm_ids]: "kWebMIdFileDescription = 0x467E"
definition kWebMIdFileMimeType :: int where [webm_ids]: "kWebMIdFileMimeType = 0x4660"
definition kWebMIdFileName :: int where [webm_ids]: "kWebMIdFileName = 0x466E"
definition kWebMIdFileUID :: int where [webm_ids]: "kWebMIdFileUID = 0x46AE"
definition kWebMIdFlagDefault :: int where [webm_ids]: "kWebMIdFlagDefault = 0x88"
definition kWebMIdFlagEnabled :: int where [webm_ids]: "kWebMIdFlagEnabled = 0xB9"
definition kWebMIdFlagForced :: int where [webm_ids]: "kWebMIdFlagForced = 0x55AA"
definition kWebMIdFlagInterlaced :: int where [webm_ids]: "kWebMIdFlagInterlaced = 0x9A"
definition kWebMIdFlagLacing :: int where [webm_ids]: "kWebMIdFlagLacing = 0x9C"
definition kWebMIdFrameRate :: int where [webm_ids]: "kWebMIdFrameRate = 0x2383E3"
definition kWebMIdInfo :: int where [webm_ids]: "kWebMIdInfo = 0x1549A966"
definition kWebMIdJoinBlocks :: int where [webm_ids]: "kWebMIdJoinBlocks = 0xE9"
definition kWebMIdLaceNumber :: int where [webm_ids]: "kWebMIdLaceNumber = 0xCC"
definition kWebMIdLanguage :: int where [webm_ids]: "kWebMIdLanguage = 0x22B59C"
definition kWebMIdLuminanceMax :: int where [webm_ids]: "kWebMIdLuminanceMax = 0x55D9"
definition kWebMIdLuminanceMin :: int where [webm_ids]: "kWebMIdLuminanceMin = 0x55DA"
definition kWebMIdMasteringMetadata :: int where [webm_ids]: "kWebMIdMasteringMetadata = 0x55D0"
definition kWebMIdMatrixCoefficients :: int where [webm_ids]: "kWebMIdMatrixCoefficients = 0x55B1"
definition kWebMIdMaxBlockAdditionId :: int where [webm_ids]: "kWebMIdMaxBlockAdditionId = 0x55EE"
definition kWebMIdMaxCache :: int where [webm_ids]: "kWebMIdMaxCache = 0x6DF8"
definition kWebMIdMaxCLL :: int where [webm_ids]: "kWebMIdMaxCLL = 0x55BC"
definition kWebMIdMaxFALL :: int where [webm_ids]: "kWebMIdMaxFALL = 0x55BD"
definition kWebMIdMinCache :: int where [webm_ids]: "kWebMIdMinCache = 0x6DE7"
definition kWebMIdMuxingApp :: int where [webm_ids]: "kWebMIdMuxingApp = 0x4D80"
definition kWebMIdName :: int where [webm_ids]: "kWebMIdName = 0x536E"
definition kWebMIdNextFilename :: int where [webm_ids]: "kWebMIdNextFilename = 0x3E83BB"
definition kWebMIdNextUID :: int where [webm_ids]: "kWebMIdNextUID = 0x3EB923"
definition kWebMIdOutputSamplingFrequency :: int where [webm_ids]: "kWebMIdOutputSamplingFrequency = 0x78B5"
definition kWebMIdPixelCropBottom :: int where [webm_ids]: "kWebMIdPixelCropBottom = 0x54AA"
definition kWebMIdPixelCropLeft :: int where [webm_ids]: "kWebMIdPixelCropLeft = 0x54CC"
definition kWebMIdPixelCropRight :: int where [webm_ids]: "kWebMIdPixelCropRight = 0x54DD"
definition kWebMIdPixelCropTop :: int where [webm_ids]: "kWebMIdPixelCropTop = 0x54BB"
definition kWebMIdPixelHeight :: int where [webm_ids]: "kWebMIdPixelHeight = 0xBA"
definition kWebMIdPixelWidth :: int where [webm_ids]: "kWebMIdPixelWidth = 0xB0"
definition kWebMIdPosition :: int where [webm_ids]: "kWebMIdPosition = 0xA7"
definition kWebMIdPrevFilename :: int where [webm_ids]: "kWebMIdPrevFilename = 0x3C83AB"
definition kWebMIdPrevSize :: int where [webm_ids]: "kWebMIdPrevSize = 0xAB"
definition kWebMIdPrevUID :: int where [webm_ids]: "kWebMIdPrevUID = 0x3CB923"
definition kWebMIdPrimaries :: int where [webm_ids]: "kWebMIdPrimaries = 0x55BB"
definition kWebMIdPrimaryBChromaticityX :: int where [webm_ids]: "kWebMIdPrimaryBChromaticityX = 0x55D5"
definition kWebMIdPrimaryBChromaticityY :: int where [webm_ids]: "kWebMIdPrimaryBChromaticityY = 0x55D6"
definition kWebMIdPrimaryGChromaticityX :: int where [webm_ids]: "kWebMIdPrimaryGChromaticityX = 0x55D3"
definition kWebMIdPrimaryGChromaticityY :: int where [webm_ids]: "kWebMIdPrimaryGChromaticityY = 0x55D4"
definition kWebMIdPrimaryRChromaticityX :: int where [webm_ids]: "kWebMIdPrimaryRChromaticityX = 0x55D1"
definition kWebMIdPrimaryRChromaticityY :: int where [webm_ids]: "kWebMIdPrimaryRChromaticityY = 0x55D2"
definition kWebMIdRange :: int where [webm_ids]: "kWebMIdRange = 0x55B9"
definition kWebMIdReferenceBlock :: int where [webm_ids]: "kWebMIdReferenceBlock = 0xFB"
definition kWebMIdReferencePriority :: int where [webm_ids]: "kWebMIdReferencePriority = 0xFA"
definition kWebMIdSamplingFrequency :: int where [webm_ids]: "kWebMIdSamplingFrequency = 0xB5"
definition kWebMIdSeek :: int where [webm_ids]: "kWebMIdSeek = 0x4DBB"
definition kWebMIdSeekHead :: int where [webm_ids]: "kWebMIdSeekHead = 0x114D9B74"
definition kWebMIdSeekID :: int where [webm_ids]: "kWebMIdSeekID = 0x53AB"
definition kWebMIdSeekPosition :: int where [webm_ids]: "kWebMIdSeekPosition = 0x53AC"
definition kWebMIdSeekPreRoll :: int where [webm_ids]: "kWebMIdSeekPreRoll = 0x56BB"
definition kWebMIdSegment :: int where [webm_ids]: "kWebMIdSegment = 0x18538067"
definition kWebMIdSegmentFamily :: int where [webm_ids]: "kWebMIdSegmentFamily = 0x4444"
definition kWebMIdSegmentFilename :: int where [webm_ids]: "kWebMIdSegmentFilename = 0x7384"
definition kWebMIdSegmentUID :: int where [webm_ids]: "kWebMIdSegmentUID = 0x73A4"
definition kWebMIdSilentTrackNumber :: int where [webm_ids]: "kWebMIdSilentTrackNumber = 0x58D7"
definition kWebMIdSilentTracks :: int where [webm_ids]: "kWebMIdSilentTracks = 0x5854"
definition kWebMIdSimpleBlock :: int where [webm_ids]: "kWebMIdSimpleBlock = 0xA3"
definition kWebMIdSimpleTag :: int where [webm_ids]: "kWebMIdSimpleTag = 0x67C8"
definition kWebMIdSlices :: int where [webm_ids]: "kWebMIdSlices = 0x8E"
definition kWebMIdStereoMode :: int where [webm_ids]: "kWebMIdStereoMode = 0x53B8"
definition kWebMIdTag :: int where [webm_ids]: "kWebMIdTag = 0x7373"
definition kWebMIdTagAttachmentUID :: int where [webm_ids]: "kWebMIdTagAttachmentUID = 0x63C6"
definition kWebMIdTagBinary :: int where [webm_ids]: "kWebMIdTagBinary = 0x4485"
definition kWebMIdTagChapterUID :: int where [webm_ids]: "kWebMIdTagChapterUID = 0x63C4"
definition kWebMIdTagDefault :: int where [webm_ids]: "kWebMIdTagDefault = 0x4484"
definition kWebMIdTagEditionUID :: int where [webm_ids]: "kWebMIdTagEditionUID = 0x63C9"
definition kWebMIdTagLanguage :: int where [webm_ids]: "kWebMIdTagLanguage = 0x447A"
definition kWebMIdTagName :: int where [webm_ids]: "kWebMIdTagName = 0x45A3"
definition kWebMIdTags :: int where [webm_ids]: "kWebMIdTags = 0x1254C367"
definition kWebMIdTagString :: int where [webm_ids]: "kWebMIdTagString = 0x4487"
definition kWebMIdTagTrackUID :: int where [webm_ids]: "kWebMIdTagTrackUID = 0x63C5"
definition kWebMIdTargets :: int where [webm_ids]: "kWebMIdTargets = 0x63C0"
definition kWebMIdTargetType :: int where [webm_ids]: "kWebMIdTargetType = 0x63CA"
definition kWebMIdTargetTypeValue :: int where [webm_ids]: "kWebMIdTargetTypeValue = 0x68CA"
definition kWebMIdTimecode :: int where [webm_ids]: "kWebMIdTimecode = 0xE7"
definition kWebMIdTimecodeScale :: int where [webm_ids]: "kWebMIdTimecodeScale = 0x2AD7B1"
definition kWebMIdTimeSlice :: int where [webm_ids]: "kWebMIdTimeSlice = 0xE8"
definition kWebMIdTitle :: int where [webm_ids]: "kWebMIdTitle = 0x7BA9"
definition kWebMIdTrackCombinePlanes :: int where [webm_ids]: "kWebMIdTrackCombinePlanes = 0xE3"
definition kWebMIdTrackEntry :: int where [webm_ids]: "kWebMIdTrackEntry = 0xAE"
definition kWebMIdTrackJoinUID :: int where [webm_ids]: "kWebMIdTrackJoinUID = 0xED"
definition kWebMIdTrackNumber :: int where [webm_ids]: "kWebMIdTrackNumber = 0xD7"
definition kWebMIdTrackOperation :: int where [webm_ids]: "kWebMIdTrackOperation = 0xE2"
definition kWebMIdTrackOverlay :: int where [webm_ids]: "kWebMIdTrackOverlay = 0x6FAB"
definition kWebMIdTrackPlane :: int where [webm_ids]: "kWebMIdTrackPlane = 0xE4"
definition kWebMIdTrackPlaneType :: int where [webm_ids]: "kWebMIdTrackPlaneType = 0xE6"
definition kWebMIdTrackPlaneUID :: int where [webm_ids]: "kWebMIdTrackPlaneUID = 0xE5"
definition kWebMIdTracks :: int where [webm_ids]: "kWebMIdTracks = 0x1654AE6B"
definition kWebMIdTrackTimecodeScale :: int where [webm_ids]: "kWebMIdTrackTimecodeScale = 0x23314F"
definition kWebMIdTrackTranslate :: int where [webm_ids]: "kWebMIdTrackTranslate = 0x6624"
definition kWebMIdTrackTranslateCodec :: int where [webm_ids]: "kWebMIdTrackTranslateCodec = 0x66BF"
definition kWebMIdTrackTranslateEditionUID :: int where [webm_ids]: "kWebMIdTrackTranslateEditionUID = 0x66FC"
definition kWebMIdTrackTranslateTrackID :: int where [webm_ids]: "kWebMIdTrackTranslateTrackID = 0x66A5"
definition kWebMIdTrackType :: int where [webm_ids]: "kWebMIdTrackType = 0x83"
definition kWebMIdTrackUID :: int where [webm_ids]: "kWebMIdTrackUID = 0x73C5"
definition kWebMIdTransferCharacteristics :: int where [webm_ids]: "kWebMIdTransferCharacteristics = 0x55BA"
definition kWebMIdVideo :: int where [webm_ids]: "kWebMIdVideo = 0xE0"
definition kWebMIdVoid :: int where [webm_ids]: "kWebMIdVoid = 0xEC"
definition kWebMIdWhitePointChromaticityX :: int where [webm_ids]: "kWebMIdWhitePointChromaticityX = 0x55D7"
definition kWebMIdWhitePointChromaticityY :: int where [webm_ids]: "kWebMIdWhitePointChromaticityY = 0x55D8"
definition kWebMIdWritingApp :: int where [webm_ids]: "kWebMIdWritingApp = 0x5741"
definition kWebMReservedId :: int where [webm_ids]: "kWebMReservedId = 0x1FFFFFFF"
definition kWebMUnknownSize :: int where [webm_ids]: "kWebMUnknownSize = 0x00FFFFFFFFFFFFFF"

section \<open>Element tables\<close>

datatype element_type = UNKNOWN | LIST | UINT | FLOAT | BINARY | STRING | SKIP

record list_element_info =
  info_id :: int
  info_level :: int
  id_info :: "(element_type \<times> int) list"

definition kEBMLHeaderIds :: "(element_type \<times> int) list" where [webm_tables]:
  "kEBMLHeaderIds =
    [(UINT, kWebMIdEBMLVersion),
     (UINT, kWebMIdEBMLReadVersion),
     (UINT, kWebMIdEBMLMaxIDLength),
     (UINT, kWebMIdEBMLMaxSizeLength),
     (STRING, kWebMIdDocType),
     (UINT, kWebMIdDocTypeVersion),
     (UINT, kWebMIdDocTypeReadVersion)]"

definition kSegmentIds :: "(element_type \<times> int) list" where [webm_tables]:
  "kSegmentIds =
    [(LIST, kWebMIdSeekHead),
     (LIST, kWebMIdInfo),
     (LIST, kWebMIdCluster),
     (LIST, kWebMIdTracks),
     (LIST, kWebMIdCues),
     (LIST, kWebMIdAttachments),
     (LIST, kWebMIdChapters),
     (LIST, kWebMIdTags)]"

definition kSeekHeadIds :: "(element_type \<times> int) list" where [webm_tables]:
  "kSeekHeadIds =
    [(LIST, kWebMIdSeek)]"

definition kSeekIds :: "(element_type \<times> int) list" where [webm_tables]:
  "kSeekIds =
    [(BINARY, kWebMIdSeekID),
     (UINT, kWebMIdSeekPosition)]"

definition kInfoIds :: "(element_type \<times> int) list" where [webm_tables]:
  "kInfoIds =
    [(BINARY, kWebMIdSegmentUID),
     (STRING, kWebMIdSegmentFilename),
     (BINARY, kWebMIdPrevUID),
     (STRING, kWebMIdPrevFilename),
     (BINARY, kWebMIdNextUID),
     (STRING, kWebMIdNextFilename),
     (BINARY, kWebMIdSegmentFamily),
     (LIST, kWebMIdChapterTranslate),
     (UINT, kWebMIdTimecodeScale),
     (FLOAT, kWebMIdDuration),
     (BINARY, kWebMIdDateUTC),
     (STRING, kWebMIdTitle),
     (STRING, kWebMIdMuxingApp),
     (STRING, kWebMIdWritingApp)]"

definition kChapterTranslateIds :: "(element_type \<times> int) list" where [webm_tables]:
  "kChapterTranslateIds =
    [(UINT, kWebMIdChapterTranslateEditionUID),
     (UINT, kWebMIdChapterTranslateCodec),
     (BINARY, kWebMIdChapterTranslateID)]"

definition kClusterIds :: "(element_type \<times> int) list" where [webm_tables]:
  "kClusterIds =
    [(BINARY, kWebMIdSimpleBlock),
     (UINT, kWebMIdTimecode),
     (LIST, kWebMIdSilentTracks),
     (UINT, kWebMIdPosition),
     (UINT, kWebMIdPrevSize),
     (LIST, kWebMIdBlockGroup)]"

definition kSilentTracksIds :: "(element_type \<times> int) list" where [webm_tables]:
  "kSilentTracksIds =
    [(UINT, kWebMIdSilentTrackNumber)]"

definition kBlockGroupIds :: "(element_type \<times> int) list" where [webm_tables]:
  "kBlockGroupIds =
    [(BINARY, kWebMIdBlock),
     (LIST, kWebMIdBlockAdditions),
     (UINT, kWebMIdBlockDuration),
     (UINT, kWebMIdReferencePriority),
     (BINARY, kWebMIdReferenceBlock),
     (BINARY, kWebMIdCodecState),
     (BINARY, kWebMIdDiscardPadding),
     (LIST, kWebMIdSlices)]"

definition kBlockAdditionsIds :: "(element_type \<times> int) list" where [webm_tables]:
  "kBlockAdditionsIds =
    [(LIST, kWebMIdBlockMore)]"

definition kBlockMoreIds :: "(element_type \<times> int) list" where [webm_tables]:
  "kBlockMoreIds =
    [(UINT, kWebMIdBlockAddID),
     (BINARY, kWebMIdBlockAdditional)]"

definition kSlicesIds :: "(element_type \<times> int) list" where [webm_tables]:
  "kSlicesIds =
    [(LIST, kWebMIdTimeSlice)]"

definition kTimeSliceIds :: "(element_type \<times> int) list" where [webm_tables]:
  "kTimeSliceIds =
    [(UINT, kWebMIdLaceNumber)]"

definition kTracksIds :: "(element_type \<times> int) list" where [webm_tables]:
  "kTracksIds =
    [(LIST, kWebMIdTrackEntry)]"

definition kTrackEntryIds :: "(element_type \<times> int) list" where [webm_tables]:
  "kTrackEntryIds =
    [(UINT, kWebMIdTrackNumber),
     (BINARY, kWebMIdTrackUID),
     (UINT, kWebMIdTrackType),
     (UINT, kWebMIdFlagEnabled),
     (UINT, kWebMIdFlagDefault),
     (UINT, kWebMIdFlagForced),
     (UINT, kWebMIdFlagLacing),
     (UINT, kWebMIdMinCache),
     (UINT, kWebMIdMaxCache),
     (UINT, kWebMIdDefaultDuration),
     (FLOAT, kWebMIdTrackTimecodeScale),
     (UINT, kWebMIdMaxBlockAdditionId),
     (STRING, kWebMIdName),
     (STRING, kWebMIdLanguage),
     (STRING, kWebMIdCodecID),
     (BINARY, kWebMIdCodecPrivate),
     (STRING, kWebMIdCodecName),
     (UINT, kWebMIdAttachmentLink),
     (UINT, kWebMIdCodecDecodeAll),
     (UINT, kWebMIdTrackOverlay),
     (UINT, kWebMIdCodecDelay),
     (UINT, kWebMIdSeekPreRoll),
     (LIST, kWebMIdTrackTranslate),
     (LIST, kWebMIdVideo),
     (LIST, kWebMIdAudio),
     (LIST, kWebMIdTrackOperation),
     (LIST, kWebMIdContentEncodings)]"

definition kTrackTranslateIds :: "(element_type \<times> int) list" where [webm_tables]:
  "kTrackTranslateIds =
    [(UINT, kWebMIdTrackTranslateEditionUID),
     (UINT, kWebMIdTrackTranslateCodec),
     (BINARY, kWebMIdTrackTranslateTrackID)]"

definition kVideoIds :: "(element_type \<times> int) list" where [webm_tables]:
  "kVideoIds =
    [(UINT, kWebMIdFlagInterlaced),
     (UINT, kWebMIdStereoMode),
     (UINT, kWebMIdAlphaMode),
     (UINT, kWebMIdPixelWidth),
     (UINT, kWebMIdPixelHeight),
     (UINT, kWebMIdPixelCropBottom),
     (UINT, kWebMIdPixelCropTop),
     (UINT, kWebMIdPixelCropLeft),
     (UINT, kWebMIdPixelCropRight),
     (UINT, kWebMIdDisplayWidth),
     (UINT, kWebMIdDisplayHeight),
     (UINT, kWebMIdDisplayUnit),
     (UINT, kWebMIdAspectRatioType),
     (BINARY, kWebMIdColorSpace),
     (FLOAT, kWebMIdFrameRate),
     (LIST, kWebMIdColour)]"

definition kColourIds :: "(element_type \<times> int) list" where [webm_tables]:
  "kColourIds =
    [(UINT, kWebMIdMatrixCoefficients),
     (UINT, kWebMIdBitsPerChannel),
     (UINT, kWebMIdChromaSubsamplingHorz),
     (UINT, kWebMIdChromaSubsamplingVert),
     (UINT, kWebMIdCbSubsamplingHorz),
     (UINT, kWebMIdCbSubsamplingVert),
     (UINT, kWebMIdChromaSitingHorz),
     (UINT, kWebMIdChromaSitingVert),
     (UINT, kWebMIdRange),
     (UINT, kWebMIdTransferCharacteristics),
     (UINT, kWebMIdPrimaries),
     (UINT, kWebMIdMaxCLL),
     (UINT, kWebMIdMaxFALL),
     (LIST, kWebMIdMasteringMetadata)]"

definition kMasteringMetadataIds :: "(element_type \<times> int) list" where [webm_tables]:
  "kMasteringMetadataIds =
    [(FLOAT, kWebMIdPrimaryRChromaticityX),
     (FLOAT, kWebMIdPrimaryRChromaticityY),
     (FLOAT, kWebMIdPrimaryGChromaticityX),
     (FLOAT, kWebMIdPrimaryGChromaticityY),
     (FLOAT, kWebMIdPrimaryBChromaticityX),
     (FLOAT, kWebMIdPrimaryBChromaticityY),
     (FLOAT, kWebMIdWhitePointChromaticityX),
     (FLOAT, kWebMIdWhitePointChromaticityY),
     (FLOAT, kWebMIdLuminanceMax),
     (FLOAT, kWebMIdLuminanceMin)]"

definition kAudioIds :: "(element_type \<times> int) list" where [webm_tables]:
  "kAudioIds =
    [(FLOAT, kWebMIdSamplingFrequency),
     (FLOAT, kWebMIdOutputSamplingFrequency),
     (UINT, kWebMIdChannels),
     (UINT, kWebMIdBitDepth)]"

definition kTrackOperationIds :: "(element_type \<times> int) list" where [webm_tables]:
  "kTrackOperationIds =
    [(LIST, kWebMIdTrackCombinePlanes),
     (LIST, kWebMIdJoinBlocks)]"

definition kTrackCombinePlanesIds :: "(element_type \<times> int) list" where [webm_tables]:
  "kTrackCombinePlanesIds =
    [(LIST, kWebMIdTrackPlane)]"

definition kTrackPlaneIds :: "(element_type \<times> int) list" where [webm_tables]:
  "kTrackPlaneIds =
    [(UINT, kWebMIdTrackPlaneUID),
     (UINT, kWebMIdTrackPlaneType)]"

definition kJoinBlocksIds :: "(element_type \<times> int) list" where [webm_tables]:
  "kJoinBlocksIds =
    [(UINT, kWebMIdTrackJoinUID)]"

definition kContentEncodingsIds :: "(element_type \<times> int) list" where [webm_tables]:
  "kContentEncodingsIds =
    [(LIST, kWebMIdContentEncoding)]"

definition kContentEncodingIds :: "(element_type \<times> int) list" where [webm_tables]:
  "kContentEncodingIds =
    [(UINT, kWebMIdContentEncodingOrder),
     (UINT, kWebMIdContentEncodingScope),
     (UINT, kWebMIdContentEncodingType),
     (LIST, kWebMIdContentCompression),
     (LIST, kWebMIdContentEncryption)]"

definition kContentCompressionIds :: "(element_type \<times> int) list" where [webm_tables]:
  "kContentCompressionIds =
    [(UINT, kWebMIdContentCompAlgo),
     (BINARY, kWebMIdContentCompSettings)]"

definition kContentEncryptionIds :: "(element_type \<times> int) list" where [webm_tables]:
  "kContentEncryptionIds =
    [(LIST, kWebMIdContentEncAESSettings),
     (UINT, kWebMIdContentEncAlgo),
     (BINARY, kWebMIdContentEncKeyID),
     (BINARY, kWebMIdContentSignature),
     (BINARY, kWebMIdContentSigKeyID),
     (UINT, kWebMIdContentSigAlgo),
     (UINT, kWebMIdContentSigHashAlgo)]"

definition kContentEncAESSettingsIds :: "(element_type \<times> int) list" where [webm_tables]:
  "kContentEncAESSettingsIds =
    [(UINT, kWebMIdAESSettingsCipherMode)]"

definition kCuesIds :: "(element_type \<times> int) list" where [webm_tables]:
  "kCuesIds =
    [(LIST, kWebMIdCuePoint)]"

definition kCuePointIds :: "(element_type \<times> int) list" where [webm_tables]:
  "kCuePointIds =
    [(UINT, kWebMIdCueTime),
     (LIST, kWebMIdCueTrackPositions)]"

definition kCueTrackPositionsIds :: "(element_type \<times> int) list" where [webm_tables]:
  "kCueTrackPositionsIds =
    [(UINT, kWebMIdCueTrack),
     (UINT, kWebMIdCueClusterPosition),
     (UINT, kWebMIdCueBlockNumber),
     (UINT, kWebMIdCueCodecState),
     (LIST, kWebMIdCueReference)]"

definition kCueReferenceIds :: "(element_type \<times> int) list" where [webm_tables]:
  "kCueReferenceIds =
    [(UINT, kWebMIdCueRefTime)]"

definition kAttachmentsIds :: "(element_type \<times> int) list" where [webm_tables]:
  "kAttachmentsIds =
    [(LIST, kWebMIdAttachedFile)]"

definition kAttachedFileIds :: "(element_type \<times> int) list" where [webm_tables]:
  "kAttachedFileIds =
    [(STRING, kWebMIdFileDescription),
     (STRING, kWebMIdFileName),
     (STRING, kWebMIdFileMimeType),
     (BINARY, kWebMIdFileData),
     (UINT, kWebMIdFileUID)]"

definition kChaptersIds :: "(element_type \<times> int) list" where [webm_tables]:
  "kChaptersIds =
    [(LIST, kWebMIdEditionEntry)]"

definition kEditionEntryIds :: "(element_type \<times> int) list" where [webm_tables]:
  "kEditionEntryIds =
    [(UINT, kWebMIdEditionUID),
     (UINT, kWebMIdEditionFlagHidden),
     (UINT, kWebMIdEditionFlagDefault),
     (UINT, kWebMIdEditionFlagOrdered),
     (LIST, kWebMIdChapterAtom)]"

definition kChapterAtomIds :: "(element_type \<times> int) list" where [webm_tables]:
  "kChapterAtomIds =
    [(UINT, kWebMIdChapterUID),
     (UINT, kWebMIdChapterTimeStart),
     (UINT, kWebMIdChapterTimeEnd),
     (UINT, kWebMIdChapterFlagHidden),
     (UINT, kWebMIdChapterFlagEnabled),
     (BINARY, kWebMIdChapterSegmentUID),
     (UINT, kWebMIdChapterSegmentEditionUID),
     (UINT, kWebMIdChapterPhysicalEquiv),
     (LIST, kWebMIdChapterTrack),
     (LIST, kWebMIdChapterDisplay),
     (LIST, kWebMIdChapProcess)]"

definition kChapterTrackIds :: "(element_type \<times> int) list" where [webm_tables]:
  "kChapterTrackIds =
    [(UINT, kWebMIdChapterTrackNumber)]"

definition kChapterDisplayIds :: "(element_type \<times> int) list" where [webm_tables]:
  "kChapterDisplayIds =
    [(STRING, kWebMIdChapString),
     (STRING, kWebMIdChapLanguage),
     (STRING, kWebMIdChapCountry)]"

definition kChapProcessIds :: "(element_type \<times> int) list" where [webm_tables]:
  "kChapProcessIds =
    [(UINT, kWebMIdChapProcessCodecID),
     (BINARY, kWebMIdChapProcessPrivate),
     (LIST, kWebMIdChapProcessCommand)]"

definition kChapProcessCommandIds :: "(element_type \<times> int) list" where [webm_tables]:
  "kChapProcessCommandIds =
    [(UINT, kWebMIdChapProcessTime),
     (BINARY, kWebMIdChapProcessData)]"

definition kTagsIds :: "(element_type \<times> int) list" where [webm_tables]:
  "kTagsIds =
    [(LIST, kWebMIdTag)]"

definition kTagIds :: "(element_type \<times> int) list" where [webm_tables]:
  "kTagIds =
    [(LIST, kWebMIdTargets),
     (LIST, kWebMIdSimpleTag)]"

definition kTargetsIds :: "(element_type \<times> int) list" where [webm_tables]:
  "kTargetsIds =
    [(UINT, kWebMIdTargetTypeValue),
     (STRING, kWebMIdTargetType),
     (UINT, kWebMIdTagTrackUID),
     (UINT, kWebMIdTagEditionUID),
     (UINT, kWebMIdTagChapterUID),
     (UINT, kWebMIdTagAttachmentUID)]"

definition kSimpleTagIds :: "(element_type \<times> int) list" where [webm_tables]:
  "kSimpleTagIds =
    [(STRING, kWebMIdTagName),
     (STRING, kWebMIdTagLanguage),
     (UINT, kWebMIdTagDefault),
     (STRING, kWebMIdTagString),
     (BINARY, kWebMIdTagBinary)]"

text \<open>The row \<open>LIST_ELEMENT_INFO(id, level, ids)\<close>; the count of the C++ row is the length of the list.\<close>

definition list_element_info_row :: "int \<Rightarrow> int \<Rightarrow> (element_type \<times> int) list \<Rightarrow> list_element_info" where [webm_tables]:
  "list_element_info_row i l ids = \<lparr>info_id = i, info_level = l, id_info = ids\<rparr>"

definition kListElementInfo :: "list_element_info list" where [webm_tables]:
  "kListElementInfo =
    [list_element_info_row kWebMIdCluster 1 kClusterIds,
     list_element_info_row kWebMIdEBMLHeader 0 kEBMLHeaderIds,
     list_element_info_row kWebMIdSegment 0 kSegmentIds,
     list_element_info_row kWebMIdSeekHead 1 kSeekHeadIds,
     list_element_info_row kWebMIdSeek 2 kSeekIds,
     list_element_info_row kWebMIdInfo 1 kInfoIds,
     list_element_info_row kWebMIdChapterTranslate 2 kChapterTranslateIds,
     list_element_info_row kWebMIdSilentTracks 2 kSilentTracksIds,
     list_element_info_row kWebMIdBlockGroup 2 kBlockGroupIds,
     list_element_info_row kWebMIdBlockAdditions 3 kBlockAdditionsIds,
     list_element_info_row kWebMIdBlockMore 4 kBlockMoreIds,
     list_element_info_row kWebMIdSlices 3 kSlicesIds,
     list_element_info_row kWebMIdTimeSlice 4 kTimeSliceIds,
     list_element_info_row kWebMIdTracks 1 kTracksIds,
     list_element_info_row kWebMIdTrackEntry 2 kTrackEntryIds,
     list_element_info_row kWebMIdTrackTranslate 3 kTrackTranslateIds,
     list_element_info_row kWebMIdVideo 3 kVideoIds,
     list_element_info_row kWebMIdAudio 3 kAudioIds,
     list_element_info_row kWebMIdTrackOperation 3 kTrackOperationIds,
     list_element_info_row kWebMIdTrackCombinePlanes 4 kTrackCombinePlanesIds,
     list_element_info_row kWebMIdTrackPlane 5 kTrackPlaneIds,
     list_element_info_row kWebMIdJoinBlocks 4 kJoinBlocksIds,
     list_element_info_row kWebMIdContentEncodings 3 kContentEncodingsIds,
     list_element_info_row kWebMIdContentEncoding 4 kContentEncodingIds,
     list_element_info_row kWebMIdContentCompression 5 kContentCompressionIds,
     list_element_info_row kWebMIdContentEncryption 5 kContentEncryptionIds,
     list_element_info_row kWebMIdContentEncAESSettings 6 kContentEncAESSettingsIds,
     list_element_info_row kWebMIdCues 1 kCuesIds,
     list_element_info_row kWebMIdCuePoint 2 kCuePointIds,
     list_element_info_row kWebMIdCueTrackPositions 3 kCueTrackPositionsIds,
     list_element_info_row kWebMIdCueReference 4 kCueReferenceIds,
     list_element_info_row kWebMIdAttachments 1 kAttachmentsIds,
     list_element_info_row kWebMIdAttachedFile 2 kAttachedFileIds,
     list_element_info_row kWebMIdChapters 1 kChaptersIds,
     list_element_info_row kWebMIdEditionEntry 2 kEditionEntryIds,
     list_element_info_row kWebMIdChapterAtom 3 kChapterAtomIds,
     list_element_info_row kWebMIdChapterTrack 4 kChapterTrackIds,
     list_element_info_row kWebMIdChapterDisplay 4 kChapterDisplayIds,
     list_element_info_row kWebMIdChapProcess 4 kChapProcessIds,
     list_element_info_row kWebMIdChapProcessCommand 5 kChapProcessCommandIds,
     list_element_info_row kWebMIdTags 1 kTagsIds,
     list_element_info_row kWebMIdTag 2 kTagIds,
     list_element_info_row kWebMIdTargets 3 kTargetsIds,
     list_element_info_row kWebMIdSimpleTag 3 kSimpleTagIds,
     list_element_info_row kWebMIdColour 4 kColourIds,
     list_element_info_row kWebMIdMasteringMetadata 5 kMasteringMetadataIds]"

definition FindIdType :: "int \<Rightarrow> (element_type \<times> int) list \<Rightarrow> element_type" where
  "FindIdType i ids =
     (if i = kWebMIdVoid \<or> i = kWebMIdCRC32 then SKIP
      else case find (\<lambda>e. i = snd e) ids of Some e \<Rightarrow> fst e | None \<Rightarrow> UNKNOWN)"

definition FindListInfo :: "int \<Rightarrow> list_element_info option" where
  "FindListInfo i = find (\<lambda>e. i = info_id e) kListElementInfo"

definition FindListLevel :: "int \<Rightarrow> int" where
  "FindListLevel i = (case FindListInfo i of Some list_info \<Rightarrow> info_level list_info | None \<Rightarrow> -1)"

end
