(* ===== verification/Webm_Parser.thy ===== *)
theory Webm_Parser
  imports Webm_Ids
begin

text \<open>
  The WebM (EBML) parser of \<open>formats/webm/webm_parser.cc\<close>: element headers, the scalar
  element payloads, and \<open>WebMListParser\<close>, which walks a list element and all its children
  incrementally and hands every element to a client.

  The client is a parameter: a record of its callbacks over an abstract client state \<open>'c\<close>,
  with \<open>'h\<close> the type of the client objects the stack points to. Sizes and counts of type
  \<open>int\<close> and \<open>int64_t\<close> are \<open>int\<close>; the lemmas show that the values stay far below \<open>2 ^ 63\<close>.
  A failed \<open>DCHECK\<close> is \<open>None\<close>.
\<close>

section \<open>Element headers\<close>

text \<open>
  The first loop of \<open>ParseWebMElementHeaderField\<close>: the number of bytes that follow the first
  one, the value bits of the first byte, and whether these are all ones.
\<close>

fun header_mask_loop :: "nat \<Rightarrow> nat \<Rightarrow> int \<Rightarrow> bool \<Rightarrow> int \<Rightarrow> (nat \<times> int \<times> bool) option" where
  "header_mask_loop 0 i msk mask_first_byte ch = None"
| "header_mask_loop (Suc n) i msk mask_first_byte ch =
     (if ch AND msk \<noteq> 0 then
        let mask1 = NOT msk AND 0xff
        in Some (i, if mask_first_byte then ch AND mask1 else ch, ch AND mask1 = mask1)
      else header_mask_loop n (Suc i) (0x80 OR drop_bit 1 msk) mask_first_byte ch)"

text \<open>The second loop, over the \<open>extra_bytes\<close>.\<close>

fun header_value_loop :: "u8 list \<Rightarrow> int \<Rightarrow> bool \<Rightarrow> int \<times> bool" where
  "header_value_loop [] num all_ones = (num, all_ones)"
| "header_value_loop (ch # buf) num all_ones =
     header_value_loop buf (push_bit 8 num OR uint ch) (all_ones \<and> ch = 0xff)"

definition int64_max :: int where
  "int64_max = 2 ^ 63 - 1"

text \<open>
  The return value and \<open>*num\<close>. The guard \<open>size < 0\<close> of the code never holds for the length of
  a list; \<open>*num\<close> is not written in the branches that return 0 before the first loop.
\<close>

definition ParseWebMElementHeaderField :: "u8 list \<Rightarrow> nat \<Rightarrow> bool \<Rightarrow> int \<times> int" where
  "ParseWebMElementHeaderField buf max_bytes mask_first_byte =
     (case buf of
        [] \<Rightarrow> (0, 0)
      | ch # rest \<Rightarrow>
          (case header_mask_loop max_bytes 0 0x80 mask_first_byte (uint ch) of
             None \<Rightarrow> (-1, 0)
           | Some (extra_bytes, num, all_ones) \<Rightarrow>
               if 1 + extra_bytes > length buf then (0, num)
               else
                 let (num, all_ones) = header_value_loop (take extra_bytes rest) num all_ones
                 in (1 + int extra_bytes, if all_ones then int64_max else num)))"

text \<open>The return value, \<open>*id\<close> and \<open>*element_size\<close>.\<close>

definition WebMParseElementHeader :: "u8 list \<Rightarrow> int \<times> int \<times> int" where
  "WebMParseElementHeader buf =
     (if length buf = 0 then (0, 0, 0)
      else
        let (num_id_bytes, tmp) = ParseWebMElementHeaderField buf 4 False in
        if num_id_bytes \<le> 0 then (num_id_bytes, 0, 0)
        else
          let i = (if tmp = int64_max then kWebMReservedId else tmp);
              (num_size_bytes, tmp2) = ParseWebMElementHeaderField (drop (nat num_id_bytes) buf) 8 True
          in if num_size_bytes \<le> 0 then (num_size_bytes, i, 0)
             else (num_id_bytes + num_size_bytes, i, if tmp2 = int64_max then kWebMUnknownSize else tmp2))"

section \<open>The client\<close>

text \<open>The argument of \<open>OnFloat\<close>: the bits of a \<open>float\<close> or of a \<open>double\<close>.\<close>

datatype webm_float = Float_bits u32 | Double_bits u64

record ('h, 'c) webm_client =
  cb_OnListStart :: "'h \<Rightarrow> int \<Rightarrow> 'c \<Rightarrow> 'h option \<times> 'c"
  cb_OnListEnd :: "'h \<Rightarrow> int \<Rightarrow> 'c \<Rightarrow> bool \<times> 'c"
  cb_OnUInt :: "'h \<Rightarrow> int \<Rightarrow> int \<Rightarrow> 'c \<Rightarrow> bool \<times> 'c"
  cb_OnFloat :: "'h \<Rightarrow> int \<Rightarrow> webm_float \<Rightarrow> 'c \<Rightarrow> bool \<times> 'c"
  cb_OnBinary :: "'h \<Rightarrow> int \<Rightarrow> u8 list \<Rightarrow> 'c \<Rightarrow> bool \<times> 'c"
  cb_OnString :: "'h \<Rightarrow> int \<Rightarrow> u8 list \<Rightarrow> 'c \<Rightarrow> bool \<times> 'c"

text \<open>The default methods of \<open>WebMParserClient\<close>, which refuse everything.\<close>

definition WebMParserClient :: "('h, 'c) webm_client" where
  "WebMParserClient =
     \<lparr>cb_OnListStart = \<lambda>h i c. (None, c), cb_OnListEnd = \<lambda>h i c. (False, c),
      cb_OnUInt = \<lambda>h i v c. (False, c), cb_OnFloat = \<lambda>h i v c. (False, c),
      cb_OnBinary = \<lambda>h i v c. (False, c), cb_OnString = \<lambda>h i v c. (False, c)\<rparr>"

section \<open>Scalar elements\<close>

text \<open>Each returns the number of bytes used, or \<open>-1\<close>, with the new client state.\<close>

definition ParseUInt :: "('h, 'c) webm_client \<Rightarrow> u8 list \<Rightarrow> int \<Rightarrow> 'h \<Rightarrow> 'c \<Rightarrow> int \<times> 'c" where
  "ParseUInt cl buf i h c =
     (if length buf = 0 \<or> length buf > 8 then (-1, c)
      else
        let val = (be_word buf :: u64) in
        if \<not> uint val \<le> int64_max then (-1, c)
        else
          let (ok, c1) = cb_OnUInt cl h i (uint val) c
          in if \<not> ok then (-1, c1) else (int (length buf), c1))"

definition ParseFloat :: "('h, 'c) webm_client \<Rightarrow> u8 list \<Rightarrow> int \<Rightarrow> 'h \<Rightarrow> 'c \<Rightarrow> int \<times> 'c" where
  "ParseFloat cl buf i h c =
     (if length buf \<noteq> 4 \<and> length buf \<noteq> 8 then (-1, c)
      else
        let tmp = (be_word buf :: u64);
            val = (if length buf = 4 then Float_bits (ucast tmp) else Double_bits tmp);
            (ok, c1) = cb_OnFloat cl h i val c
        in if \<not> ok then (-1, c1) else (int (length buf), c1))"

definition ParseBinary :: "('h, 'c) webm_client \<Rightarrow> u8 list \<Rightarrow> int \<Rightarrow> 'h \<Rightarrow> 'c \<Rightarrow> int \<times> 'c" where
  "ParseBinary cl buf i h c =
     (let (ok, c1) = cb_OnBinary cl h i buf c in (if ok then int (length buf) else -1, c1))"

definition ParseString :: "('h, 'c) webm_client \<Rightarrow> u8 list \<Rightarrow> int \<Rightarrow> 'h \<Rightarrow> 'c \<Rightarrow> int \<times> 'c" where
  "ParseString cl buf i h c =
     (let str = takeWhile (\<lambda>b. b \<noteq> 0) buf;
          (ok, c1) = cb_OnString cl h i str c
      in (if ok then int (length buf) else -1, c1))"

text \<open>\<open>data\<close> are the bytes available; the element has the first \<open>element_size\<close> of them.\<close>

definition ParseNonListElement ::
  "('h, 'c) webm_client \<Rightarrow> element_type \<Rightarrow> int \<Rightarrow> int \<Rightarrow> u8 list \<Rightarrow> 'h \<Rightarrow> 'c \<Rightarrow> int \<times> 'c" where
  "ParseNonListElement cl ty i element_size data h c =
     (let buf = take (nat element_size) data in
      case ty of
        LIST \<Rightarrow> (-1, c)
      | UINT \<Rightarrow> ParseUInt cl buf i h c
      | FLOAT \<Rightarrow> ParseFloat cl buf i h c
      | BINARY \<Rightarrow> ParseBinary cl buf i h c
      | STRING \<Rightarrow> ParseString cl buf i h c
      | SKIP \<Rightarrow> (element_size, c)
      | UNKNOWN \<Rightarrow> (-1, c))"
section \<open>WebMListParser\<close>

datatype webm_state = NEED_LIST_HEADER | INSIDE_LIST | DONE_PARSING_LIST | PARSE_ERROR

record 'h list_state =
  list_id :: int
  list_size :: int
  list_bytes_parsed :: int
  element_info :: list_element_info
  list_client :: 'h

text \<open>The last element of the C++ vector \<open>list_state_stack_\<close> is the head of the list.\<close>

record 'h webm_list_parser =
  parser_state :: webm_state
  root_id :: int
  root_level :: int
  root_client :: 'h
  list_state_stack :: "'h list_state list"

definition WebMListParser_init :: "int \<Rightarrow> 'h \<Rightarrow> 'h webm_list_parser option" where
  "WebMListParser_init i client =
     (if FindListLevel i \<ge> 0 then
        Some \<lparr>parser_state = NEED_LIST_HEADER, root_id = i, root_level = FindListLevel i,
          root_client = client, list_state_stack = []\<rparr>
      else None)"

definition ChangeState :: "webm_state \<Rightarrow> 'h webm_list_parser \<Rightarrow> 'h webm_list_parser" where
  "ChangeState new_state p = p\<lparr>parser_state := new_state\<rparr>"

definition WebMListParser_Reset :: "'h webm_list_parser \<Rightarrow> 'h webm_list_parser" where
  "WebMListParser_Reset p = (ChangeState NEED_LIST_HEADER p)\<lparr>list_state_stack := []\<rparr>"

definition IsParsingComplete :: "'h webm_list_parser \<Rightarrow> bool" where
  "IsParsingComplete p \<longleftrightarrow> parser_state p = DONE_PARSING_LIST"

definition IsSiblingOrAncestor :: "int \<Rightarrow> int \<Rightarrow> bool" where
  "IsSiblingOrAncestor id_a id_b =
     (if id_a = kWebMIdCluster \<and> (\<exists>e\<in>set kSegmentIds. snd e = id_b) then True
      else if id_a \<noteq> kWebMIdCluster \<and> id_a \<noteq> kWebMIdSegment then False
      else id_b = kWebMIdSegment \<or> id_b = kWebMIdEBMLHeader)"

text \<open>
  The loop of \<open>OnListEnd\<close> over the stack, with the client's answer and the number of lists
  ended; then \<open>OnListEnd\<close> itself.
\<close>

fun list_end_loop ::
  "('h, 'c) webm_client \<Rightarrow> 'h \<Rightarrow> 'h list_state list \<Rightarrow> nat \<Rightarrow> 'c \<Rightarrow> bool \<times> nat \<times> 'h list_state list \<times> 'c" where
  "list_end_loop cl root [] n c = (True, n, [], c)"
| "list_end_loop cl root [l] n c =
     (if list_bytes_parsed l \<noteq> list_size l then (True, n, [l], c)
      else
        let (ok, c1) = cb_OnListEnd cl root (list_id l) c
        in if \<not> ok then (False, n, [], c1) else (True, Suc n, [], c1))"
| "list_end_loop cl root (l # parent # ls) n c =
     (if list_bytes_parsed l \<noteq> list_size l then (True, n, l # parent # ls, c)
      else
        let parent1 = parent\<lparr>list_bytes_parsed := list_bytes_parsed parent + list_bytes_parsed l\<rparr>;
            (ok, c1) = cb_OnListEnd cl (list_client parent) (list_id l) c
        in if \<not> ok then (False, n, parent1 # ls, c1)
           else list_end_loop cl root (parent1 # ls) (Suc n) c1)"

definition OnListEnd ::
  "('h, 'c) webm_client \<Rightarrow> 'h webm_list_parser \<Rightarrow> 'c \<Rightarrow> (bool \<times> 'h webm_list_parser \<times> 'c) option" where
  "OnListEnd cl p c =
     (let (ok, lists_ended, stack, c1) = list_end_loop cl (root_client p) (list_state_stack p) 0 c;
          p1 = p\<lparr>list_state_stack := stack\<rparr>
      in if \<not> ok then Some (False, p1, c1)
         else if \<not> lists_ended \<ge> 1 then None
         else Some (True, if stack = [] then ChangeState DONE_PARSING_LIST p1 else p1, c1))"

definition OnListStart ::
  "('h, 'c) webm_client \<Rightarrow> int \<Rightarrow> int \<Rightarrow> 'h webm_list_parser \<Rightarrow> 'c \<Rightarrow>
   (bool \<times> 'h webm_list_parser \<times> 'c) option" where
  "OnListStart cl i sz p c =
     (case FindListInfo i of
        None \<Rightarrow> Some (False, p, c)
      | Some info \<Rightarrow>
          let current_level = root_level p + int (length (list_state_stack p)) - 1 in
          if current_level + 1 \<noteq> info_level info then Some (False, p, c)
          else if (case list_state_stack p of
                     [] \<Rightarrow> False
                   | l # ls \<Rightarrow> list_size l \<noteq> kWebMUnknownSize \<and> list_size l < list_bytes_parsed l + sz)
          then Some (False, p, c)
          else
            let current_list_client =
                  (case list_state_stack p of [] \<Rightarrow> root_client p | l # ls \<Rightarrow> list_client l)
            in case cb_OnListStart cl current_list_client i c of
                 (None, c1) \<Rightarrow> Some (False, p, c1)
               | (Some new_list_client, c1) \<Rightarrow>
                   let p1 = p\<lparr>list_state_stack :=
                               \<lparr>list_id = i, list_size = sz, list_bytes_parsed = 0,
                                element_info = info, list_client = new_list_client\<rparr> #
                               list_state_stack p\<rparr>
                   in if sz = 0 then OnListEnd cl p1 c1 else Some (True, p1, c1))"

definition set_top :: "'h list_state \<Rightarrow> 'h webm_list_parser \<Rightarrow> 'h webm_list_parser" where
  "set_top l p = p\<lparr>list_state_stack := l # tl (list_state_stack p)\<rparr>"

text \<open>
  The part of \<open>ParseListElement\<close> after the unknown-size case, for the list state
  \<open>list_state\<close>. \<open>aliased\<close> says whether \<open>list_state\<close> still is the top of the stack: after the
  unknown-size case the C++ reference designates the slot that was popped, with the parent's
  state copied into it, so that writes to it are lost.
\<close>

definition parse_list_element_tail ::
  "('h, 'c) webm_client \<Rightarrow> bool \<Rightarrow> 'h list_state \<Rightarrow> element_type \<Rightarrow> int \<Rightarrow> int \<Rightarrow> int \<Rightarrow> u8 list \<Rightarrow>
   'h webm_list_parser \<Rightarrow> 'c \<Rightarrow> (int \<times> 'h webm_list_parser \<times> 'c) option" where
  "parse_list_element_tail cl aliased list_state id_type header_size i element_size data p c =
     (let total_element_size = header_size + element_size in
      if list_size list_state \<noteq> kWebMUnknownSize \<and>
         list_size list_state < list_bytes_parsed list_state + total_element_size then Some (-1, p, c)
      else if id_type = LIST then
        let l1 = list_state\<lparr>list_bytes_parsed := list_bytes_parsed list_state + header_size\<rparr>
        in (case OnListStart cl i element_size (if aliased then set_top l1 p else p) c of
              None \<Rightarrow> None
            | Some (ok, p1, c1) \<Rightarrow> Some (if ok then header_size else -1, p1, c1))
      else if int (length data) < element_size then Some (0, p, c)
      else
        let (bytes_parsed, c1) =
              ParseNonListElement cl id_type i element_size data (list_client list_state) c
        in if bytes_parsed < 0 \<or> bytes_parsed = 0 \<and> element_size \<noteq> 0 then Some (bytes_parsed, p, c1)
           else
             let result = header_size + bytes_parsed;
                 l1 = list_state\<lparr>list_bytes_parsed := list_bytes_parsed list_state + result\<rparr>;
                 p1 = (if aliased then set_top l1 p else p)
             in if list_bytes_parsed l1 = list_size l1 then
                  (case OnListEnd cl p1 c1 of
                     None \<Rightarrow> None
                   | Some (ok, p2, c2) \<Rightarrow> Some (if ok then result else -1, p2, c2))
                else Some (result, p1, c1))"

definition ParseListElement ::
  "('h, 'c) webm_client \<Rightarrow> int \<Rightarrow> int \<Rightarrow> int \<Rightarrow> u8 list \<Rightarrow> 'h webm_list_parser \<Rightarrow> 'c \<Rightarrow>
   (int \<times> 'h webm_list_parser \<times> 'c) option" where
  "ParseListElement cl header_size i element_size data p c =
     (case list_state_stack p of
        [] \<Rightarrow> None
      | l # ls \<Rightarrow>
          let id_type = FindIdType i (id_info (element_info l)) in
          if id_type = UNKNOWN then
            if list_size l \<noteq> kWebMUnknownSize \<or> \<not> IsSiblingOrAncestor (list_id l) i then Some (-1, p, c)
            else
              (case OnListEnd cl (set_top (l\<lparr>list_size := list_bytes_parsed l\<rparr>) p) c of
                 None \<Rightarrow> None
               | Some (ok, p1, c1) \<Rightarrow>
                   if \<not> ok then Some (-1, p1, c1)
                   else (case list_state_stack p1 of
                           [] \<Rightarrow> Some (0, p1, c1)
                         | l1 # ls1 \<Rightarrow>
                             parse_list_element_tail cl False l1 id_type header_size i element_size data p1 c1))
          else parse_list_element_tail cl True l id_type header_size i element_size data p c)"

text \<open>The bytes of the element handed to \<open>ParseListElement\<close>.\<close>

definition element_bytes :: "int \<Rightarrow> int \<Rightarrow> u8 list \<Rightarrow> u8 list" where
  "element_bytes result element_size cur =
     (let data = drop (nat result) cur
      in if element_size < int (length data) then take (nat element_size) data else data)"

text \<open>One pass of the loop of \<open>Parse\<close>: return, or go on after the bytes used.\<close>

datatype parse_outcome = Return int | Advance nat

definition parse_step ::
  "('h, 'c) webm_client \<Rightarrow> u8 list \<Rightarrow> nat \<Rightarrow> 'h webm_list_parser \<Rightarrow> 'c \<Rightarrow>
   (parse_outcome \<times> 'h webm_list_parser \<times> 'c) option" where
  "parse_step cl cur bytes_parsed p c =
     (let (result, element_id, element_size) = WebMParseElementHeader cur in
      if result < 0 then Some (Return result, p, c)
      else if result = 0 then Some (Return (int bytes_parsed), p, c)
      else
        case parser_state p of
          NEED_LIST_HEADER \<Rightarrow>
            if element_id \<noteq> root_id p then Some (Return (-1), ChangeState PARSE_ERROR p, c)
            else if element_size = kWebMUnknownSize \<and> element_id \<noteq> kWebMIdSegment \<and>
                    element_id \<noteq> kWebMIdCluster then Some (Return (-1), ChangeState PARSE_ERROR p, c)
            else
              (case OnListStart cl (root_id p) element_size (ChangeState INSIDE_LIST p) c of
                 None \<Rightarrow> None
               | Some (ok, p1, c1) \<Rightarrow>
                   Some (if ok then Advance (nat result) else Return (-1), p1, c1))
        | INSIDE_LIST \<Rightarrow>
            let element_data = element_bytes result element_size cur
            in (case ParseListElement cl result element_id element_size element_data p c of
                  None \<Rightarrow> None
                | Some (res, p1, c1) \<Rightarrow>
                    if \<not> res \<le> result + int (length element_data) then None
                    else if res < 0 then Some (Return (-1), ChangeState PARSE_ERROR p1, c1)
                    else if res = 0 then Some (Return (int bytes_parsed), p1, c1)
                    else Some (Advance (nat res), p1, c1))
        | _ \<Rightarrow> None)"

lemma parse_step_advance:
  assumes "parse_step cl cur n p c = Some (Advance r, p1, c1)"
  shows "0 < r"
  using assms
  by (auto simp: parse_step_def Let_def split: prod.splits if_splits webm_state.splits option.splits)

function parse_loop ::
  "('h, 'c) webm_client \<Rightarrow> u8 list \<Rightarrow> nat \<Rightarrow> 'h webm_list_parser \<Rightarrow> 'c \<Rightarrow>
   (int \<times> 'h webm_list_parser \<times> 'c) option" where
  "parse_loop cl cur bytes_parsed p c =
     (if cur \<noteq> [] \<and> parser_state p \<noteq> PARSE_ERROR \<and> parser_state p \<noteq> DONE_PARSING_LIST then
        (case parse_step cl cur bytes_parsed p c of
           None \<Rightarrow> None
         | Some (Return r, p1, c1) \<Rightarrow> Some (r, p1, c1)
         | Some (Advance r, p1, c1) \<Rightarrow>
             parse_loop cl (drop r cur) (bytes_parsed + r) p1 c1)
      else Some (if parser_state p = PARSE_ERROR then -1 else int bytes_parsed, p, c))"
  by pat_completeness auto
termination
proof (relation "measure (\<lambda>(cl, cur, n, p, c). length cur)", goal_cases)
  case (2 cl cur n p c y a b r p1 c1)
  then show ?case using parse_step_advance [of cl cur n p c r p1 c1] by (cases cur) auto
qed simp

declare parse_loop.simps [simp del]

definition WebMListParser_Parse ::
  "('h, 'c) webm_client \<Rightarrow> u8 list \<Rightarrow> 'h webm_list_parser \<Rightarrow> 'c \<Rightarrow> (int \<times> 'h webm_list_parser \<times> 'c) option" where
  "WebMListParser_Parse cl buf p c =
     (if parser_state p = PARSE_ERROR \<or> parser_state p = DONE_PARSING_LIST then Some (-1, p, c)
      else if length buf = 0 then Some (0, p, c)
      else parse_loop cl buf 0 p c)"
section \<open>Header fields: the code loops and the numbers they compute\<close>

text \<open>The number of extra bytes the first byte announces.\<close>

definition extra_of :: "int \<Rightarrow> nat" where
  "extra_of ch =
     (if ch \<ge> 128 then 0 else if ch \<ge> 64 then 1 else if ch \<ge> 32 then 2 else if ch \<ge> 16 then 3
      else if ch \<ge> 8 then 4 else if ch \<ge> 4 then 5 else if ch \<ge> 2 then 6 else if ch \<ge> 1 then 7 else 8)"

definition mask_result :: "nat \<Rightarrow> bool \<Rightarrow> int \<Rightarrow> (nat \<times> int \<times> bool) option" where
  "mask_result m b ch =
     (if extra_of ch < m
      then Some (extra_of ch, if b then ch - 2 ^ (7 - extra_of ch) else ch, ch = 2 ^ (8 - extra_of ch) - 1)
      else None)"

lemma header_mask_loop_table:
  "list_all (\<lambda>ch. header_mask_loop 8 0 0x80 True ch = mask_result 8 True ch) [0..255]"
  "list_all (\<lambda>ch. header_mask_loop 4 0 0x80 False ch = mask_result 4 False ch) [0..255]"
  by code_simp+
lemma header_mask_loop_size:
  assumes "0 \<le> ch" "ch < 256"
  shows "header_mask_loop 8 0 0x80 True ch = mask_result 8 True ch"
  using header_mask_loop_table(1) assms by (simp add: list_all_iff)

lemma header_mask_loop_id:
  assumes "0 \<le> ch" "ch < 256"
  shows "header_mask_loop 4 0 0x80 False ch = mask_result 4 False ch"
  using header_mask_loop_table(2) assms by (simp add: list_all_iff)

lemma header_value_loop_eq:
  "header_value_loop bs num ones =
   (num * 256 ^ length bs + be_int bs, ones \<and> (\<forall>b\<in>set bs. b = 0xff))"
proof (induction bs arbitrary: num ones)
  case (Cons b bs)
  then show ?case by (auto simp: push_bit_OR_uint be_int_Cons algebra_simps)
qed simp

lemma all_ones_be_int: "(\<forall>b\<in>set bs. b = 0xff) \<longleftrightarrow> be_int bs = 256 ^ length bs - 1"
proof (induction bs)
  case (Cons b bs)
  have "uint b = 255" if "be_int (b # bs) = 256 ^ length (b # bs) - 1"
  proof (rule ccontr)
    assume "uint b \<noteq> 255"
    then have "uint b * 256 ^ length bs \<le> 254 * 256 ^ length bs" using uint_u8 [of b] by simp
    moreover have "256 ^ length (b # bs) = (254 * 256 ^ length bs + 2 * 256 ^ length bs :: int)" by simp
    ultimately show False
      using that be_int_bounds [of bs] zero_less_power [of "256::int" "length bs"]
      unfolding be_int_Cons by linarith
  qed
  moreover have "b = 0xff \<longleftrightarrow> uint b = 255" by (simp add: word_uint_eq_iff)
  ultimately show ?case using Cons by (auto simp: be_int_Cons)
qed simp

text \<open>A header field in closed form.\<close>

definition field_parses :: "nat \<Rightarrow> bool \<Rightarrow> u8 list \<Rightarrow> int \<times> int" where
  "field_parses m b buf =
     (case buf of
        [] \<Rightarrow> (0, 0)
      | ch # rest \<Rightarrow>
          let e = extra_of (uint ch);
              first = (if b then uint ch - 2 ^ (7 - e) else uint ch);
              tl = take e rest
          in if \<not> e < m then (-1, 0)
             else if 1 + e > length buf then (0, first)
             else (1 + int e,
                   if uint ch = 2 ^ (8 - e) - 1 \<and> be_int tl = 256 ^ length tl - 1 then int64_max
                   else first * 256 ^ length tl + be_int tl))"

lemma field_size_eq: "ParseWebMElementHeaderField buf 8 True = field_parses 8 True buf"
  by (cases buf)
     (auto simp: ParseWebMElementHeaderField_def field_parses_def header_mask_loop_size uint_u8
       mask_result_def Let_def header_value_loop_eq all_ones_be_int)

lemma field_id_eq: "ParseWebMElementHeaderField buf 4 False = field_parses 4 False buf"
  by (cases buf)
     (auto simp: ParseWebMElementHeaderField_def field_parses_def header_mask_loop_id uint_u8
       mask_result_def Let_def header_value_loop_eq all_ones_be_int)

lemma extra_of_unique:
  assumes "e \<le> 7" "2 ^ (7 - e) \<le> ch" "ch < 2 ^ (8 - e)"
  shows "extra_of ch = e"
proof -
  have "e \<in> {0, 1, 2, 3, 4, 5, 6, 7}" using assms(1) by auto
  with assms(2,3) show ?thesis by (auto simp: extra_of_def)
qed

lemma extra_of_bounds:
  assumes "extra_of ch \<le> 7" "ch < 256"
  shows "2 ^ (7 - extra_of ch) \<le> ch" "ch < 2 ^ (8 - extra_of ch)"
  using assms by (auto simp: extra_of_def split: if_splits)

subsection \<open>Encoded fields\<close>

text \<open>The field of \<open>k\<close> bytes with value bits \<open>w\<close>: a marker bit before \<open>7 * k\<close> value bits.\<close>

definition vint_bytes :: "nat \<Rightarrow> int \<Rightarrow> u8 list" where
  "vint_bytes k w = be_bytes k (2 ^ (7 * k) + w)"

lemma length_vint_bytes [simp]: "length (vint_bytes k w) = k"
  by (simp add: vint_bytes_def)

lemma vint_bytes_split:
  assumes "k = Suc e" "e \<le> 7" "0 \<le> w" "w < 2 ^ (7 * k)"
  obtains ch tl where "vint_bytes k w = ch # tl" "length tl = e" "extra_of (uint ch) = e"
    "uint ch * 256 ^ e + be_int tl = 2 ^ (7 * k) + w"
proof -
  define x :: int where "x = 2 ^ (7 * k) + w"
  define ch :: u8 where "ch = word_of_int (x div 256 ^ e)"
  have e: "7 * k = 8 * e + (7 - e)" using assms by simp
  have pow: "(2::int) ^ (7 * k) = 2 ^ (7 - e) * 256 ^ e"
    unfolding e power_add by (simp add: power_mult)
  have x: "2 ^ (7 - e) * 256 ^ e \<le> x" "x < 2 ^ (8 - e) * 256 ^ e"
  proof -
    have "(2::int) ^ (8 - e) = 2 * 2 ^ (7 - e)" using assms(2) by (simp add: Suc_diff_le flip: power_Suc)
    then have "2 ^ (8 - e) * 256 ^ e = 2 * (2 ^ (7 * k) :: int)" by (simp add: pow)
    then show "2 ^ (7 - e) * 256 ^ e \<le> x" "x < 2 ^ (8 - e) * 256 ^ e"
      using assms(3,4) pow by (simp_all add: x_def)
  qed
  have d: "2 ^ (7 - e) \<le> x div 256 ^ e" "x div 256 ^ e < 2 ^ (8 - e)"
  proof -
    have "2 ^ (7 - e) * 256 ^ e div 256 ^ e \<le> x div 256 ^ e" using x(1) by (rule zdiv_mono1) simp
    then show "2 ^ (7 - e) \<le> x div 256 ^ e" by simp
    show "x div 256 ^ e < 2 ^ (8 - e)"
    proof (rule ccontr)
      assume "\<not> ?thesis"
      then have "2 ^ (8 - e) * 256 ^ e \<le> x div 256 ^ e * 256 ^ e" by (intro mult_right_mono) simp_all
      also have "\<dots> \<le> x"
      proof -
        have "0 \<le> x mod 256 ^ e" by simp
        then show ?thesis using div_mult_mod_eq [of x "256 ^ e"] by linarith
      qed
      finally show False using x(2) by simp
    qed
  qed
  have "(2::int) ^ (8 - e) \<le> 256" using power_increasing [of "8 - e" 8 "2::int"] by simp
  moreover have "(0::int) < 2 ^ (7 - e)" by simp
  ultimately have "0 \<le> x div 256 ^ e" "x div 256 ^ e < 256" using d by linarith+
  then have ch: "uint ch = x div 256 ^ e" by (simp add: ch_def uint_word_of_int)
  show ?thesis
  proof (rule that [of ch "be_bytes e x"])
    show "vint_bytes k w = ch # be_bytes e x"
      by (simp add: vint_bytes_def assms(1) be_bytes_Cons x_def ch_def del: be_bytes.simps)
    show "extra_of (uint ch) = e" using extra_of_unique d ch assms(2) by simp
    show "uint ch * 256 ^ e + be_int (be_bytes e x) = 2 ^ (7 * k) + w"
      by (simp add: ch be_int_be_bytes x_def [symmetric] div_mult_mod_eq)
  qed simp
qed
lemma all_ones_field:
  assumes "uint (ch :: u8) * 256 ^ e + be_int ts = 2 ^ (7 * Suc e) + w" "length ts = e" "e \<le> 7"
  shows "uint ch = 2 ^ (8 - e) - 1 \<and> be_int ts = 256 ^ e - 1 \<longleftrightarrow> w = 2 ^ (7 * Suc e) - 1"
proof -
  have "7 * Suc e = 8 * e + (7 - e)" using assms(3) by simp
  then have pow: "(2::int) ^ (7 * Suc e) = 2 ^ (7 - e) * 256 ^ e"
    by (simp only: power_add) (simp add: power_mult)
  have two: "(2::int) ^ (8 - e) = 2 * 2 ^ (7 - e)" using assms(3) by (simp add: Suc_diff_le flip: power_Suc)
  have P: "(0::int) < 256 ^ e" by simp
  have b: "0 \<le> be_int ts" "be_int ts < 256 ^ e" using be_int_bounds [of ts] assms(2) by auto
  show ?thesis
  proof
    assume "uint ch = 2 ^ (8 - e) - 1 \<and> be_int ts = 256 ^ e - 1"
    with assms(1) two pow show "w = 2 ^ (7 * Suc e) - 1" by (simp add: algebra_simps)
  next
    assume w: "w = 2 ^ (7 * Suc e) - 1"
    have eq: "uint ch * 256 ^ e + be_int ts = (2 ^ (8 - e) - 1) * 256 ^ e + (256 ^ e - 1)"
      using assms(1) w two pow by (simp add: algebra_simps)
    have "uint ch = (uint ch * 256 ^ e + be_int ts) div 256 ^ e" using b P by simp
    also have "\<dots> = 2 ^ (8 - e) - 1"
      unfolding eq using P by simp
    finally show "uint ch = 2 ^ (8 - e) - 1 \<and> be_int ts = 256 ^ e - 1" using eq by simp
  qed
qed

lemma field_size_vint:
  assumes "0 < k" "k \<le> 8" "0 \<le> w" "w < 2 ^ (7 * k)"
  shows "ParseWebMElementHeaderField (vint_bytes k w @ rest) 8 True =
    (int k, if w = 2 ^ (7 * k) - 1 then int64_max else w)"
proof -
  obtain e where k: "k = Suc e" "e \<le> 7" using assms(1,2) by (cases k) auto
  obtain ch tl where v: "vint_bytes k w = ch # tl" "length tl = e" "extra_of (uint ch) = e"
    "uint ch * 256 ^ e + be_int tl = 2 ^ (7 * k) + w"
    using vint_bytes_split [OF k assms(3,4)] .
  have "7 * k = 8 * e + (7 - e)" using k by simp
  then have pow: "(2::int) ^ (7 * k) = 2 ^ (7 - e) * 256 ^ e"
    by (simp only: power_add) (simp add: power_mult)
  have "(uint ch - 2 ^ (7 - e)) * 256 ^ e + be_int tl = w" using v(4) pow by (simp add: algebra_simps)
  with v k show ?thesis
    using all_ones_field [of ch e tl w] by (simp add: field_size_eq field_parses_def Let_def)
qed

lemma field_id_vint:
  assumes "0 < k" "k \<le> 4" "0 \<le> w" "w < 2 ^ (7 * k)"
  shows "ParseWebMElementHeaderField (vint_bytes k w @ rest) 4 False =
    (int k, if w = 2 ^ (7 * k) - 1 then int64_max else 2 ^ (7 * k) + w)"
proof -
  obtain e where k: "k = Suc e" "e \<le> 3" using assms(1,2) by (cases k) auto
  obtain ch tl where v: "vint_bytes k w = ch # tl" "length tl = e" "extra_of (uint ch) = e"
    "uint ch * 256 ^ e + be_int tl = 2 ^ (7 * k) + w"
    using vint_bytes_split [of k e w] k assms(3,4) by auto
  with k show ?thesis
    using all_ones_field [of ch e tl w] by (simp add: field_id_eq field_parses_def Let_def)
qed

subsection \<open>Prefixes and bounds\<close>

lemma field_parses_append:
  assumes "fst (field_parses m b xs) \<noteq> 0"
  shows "field_parses m b (xs @ ys) = field_parses m b xs"
  using assms by (cases xs) (auto simp: field_parses_def Let_def split: if_splits)

lemma field_parses_bounds:
  assumes "field_parses m b xs = (r, v)" "0 < r" "m \<le> 8"
  shows "r \<le> int (length xs)" "r \<le> int m" "0 \<le> v" "v = int64_max \<or> v < 2 ^ (7 * nat r + (if b then 0 else 1))"
    "b \<Longrightarrow> v = int64_max \<or> v < 2 ^ (7 * nat r) - 1"
proof -
  obtain ch rest where xs: "xs = ch # rest" using assms(1,2) by (cases xs) (auto simp: field_parses_def)
  define e where "e = extra_of (uint ch)"
  define tl where "tl = take e rest"
  define first where "first = (if b then uint ch - 2 ^ (7 - e) else uint ch)"
  have e: "e < m" "1 + e \<le> length xs" and r: "r = 1 + int e"
    and v: "v = (if uint ch = 2 ^ (8 - e) - 1 \<and> be_int tl = 256 ^ length tl - 1 then int64_max
                 else first * 256 ^ length tl + be_int tl)"
    using assms(1,2) by (auto simp: field_parses_def xs Let_def e_def tl_def first_def split: if_splits)
  then show "r \<le> int (length xs)" "r \<le> int m" by auto
  have lt: "length tl = e" using e xs by (simp add: tl_def)
  have ch: "2 ^ (7 - e) \<le> uint ch" "uint ch < 2 ^ (8 - e)"
    using extra_of_bounds [of "uint ch"] e(1) assms(3) uint_u8 [of ch] by (auto simp: e_def)
  have two: "(2::int) ^ (8 - e) = 2 * 2 ^ (7 - e)" using e assms(3) by (simp add: Suc_diff_le flip: power_Suc)
  have B: "0 \<le> be_int tl" "be_int tl < 256 ^ e" using be_int_bounds [of tl] lt by auto
  have n: "nat r = Suc e" using r by simp
  have "7 * Suc e = 8 * e + (7 - e)" using e(1) assms(3) by simp
  then have pow: "(2::int) ^ (7 * Suc e) = 2 ^ (7 - e) * 256 ^ e"
    by (simp only: power_add) (simp add: power_mult)
  have first: "0 \<le> first" "first \<le> (if b then 2 ^ (7 - e) else 2 ^ (8 - e)) - 1"
    using ch two by (auto simp: first_def)
  then show "0 \<le> v" using v B by (auto simp: int64_max_def)
  have "first * 256 ^ e \<le> ((if b then 2 ^ (7 - e) else 2 ^ (8 - e)) - 1) * 256 ^ e"
    using first by (intro mult_right_mono) simp_all
  then show "v = int64_max \<or> v < 2 ^ (7 * nat r + (if b then 0 else 1))"
  proof -
    have p8: "(2::int) ^ (7 * nat r + 1) = 2 * (2 ^ (7 - e) * 256 ^ e)"
      unfolding n power_add pow by simp
    have "first * 256 ^ e + be_int tl < (if b then 2 ^ (7 - e) else 2 ^ (8 - e)) * 256 ^ e"
      using \<open>first * 256 ^ e \<le> _\<close> B(2) unfolding left_diff_distrib by linarith
    then have "first * 256 ^ e + be_int tl < 2 ^ (7 * nat r + (if b then 0 else 1))"
      using p8 pow two unfolding n by (cases b) (simp_all add: mult.assoc)
    then show ?thesis using v lt by auto
  qed
  show "v = int64_max \<or> v < 2 ^ (7 * nat r) - 1" if b
  proof (cases "v = int64_max")
    case False
    then have nones: "uint ch \<noteq> 2 ^ (8 - e) - 1 \<or> be_int tl \<noteq> 256 ^ e - 1" and
      v': "v = first * 256 ^ e + be_int tl" using v lt by (auto split: if_splits)
    show ?thesis
    proof (cases "uint ch = 2 ^ (8 - e) - 1")
      case True
      then have "be_int tl < 256 ^ e - 1" "first = 2 ^ (7 - e) - 1"
        using nones B two that by (auto simp: first_def)
      then have "first * 256 ^ e = 2 ^ (7 - e) * 256 ^ e - 256 ^ e" by (simp add: left_diff_distrib)
      with \<open>be_int tl < 256 ^ e - 1\<close> show ?thesis unfolding v' n pow by linarith
    next
      case False
      then have "first \<le> 2 ^ (7 - e) - 2" using ch two that by (simp add: first_def)
      then have "first * 256 ^ e \<le> (2 ^ (7 - e) - 2) * 256 ^ e" by (intro mult_right_mono) simp_all
      moreover have "(0::int) < 256 ^ e" by simp
      ultimately show ?thesis unfolding v' n pow left_diff_distrib using B by linarith
    qed
  qed simp
qed

lemma header_append:
  assumes "WebMParseElementHeader xs = (r, i, s)" "r \<noteq> 0"
  shows "WebMParseElementHeader (xs @ ys) = (r, i, s)"
proof -
  obtain n v where f: "field_parses 4 False xs = (n, v)" by force
  have "xs \<noteq> []" using assms by (auto simp: WebMParseElementHeader_def)
  have n0: "n \<noteq> 0" using assms \<open>xs \<noteq> []\<close> f by (auto simp: WebMParseElementHeader_def field_id_eq)
  have f': "field_parses 4 False (xs @ ys) = (n, v)" using field_parses_append [of 4 False xs ys] f n0 by simp
  show ?thesis
  proof (cases "n \<le> 0")
    case True
    then show ?thesis using assms f f' \<open>xs \<noteq> []\<close> by (simp add: WebMParseElementHeader_def field_id_eq)
  next
    case False
    obtain m u where g: "field_parses 8 True (drop (nat n) xs) = (m, u)" by force
    have m0: "m \<noteq> 0" using assms \<open>xs \<noteq> []\<close> f g False
      by (auto simp: WebMParseElementHeader_def field_id_eq field_size_eq Let_def split: if_splits)
    have le: "nat n \<le> length xs" using field_parses_bounds(1) [OF f] False by simp
    have "field_parses 8 True (drop (nat n) xs @ ys) = (m, u)"
      using field_parses_append [of 8 True "drop (nat n) xs" ys] g m0 by simp
    then show ?thesis
      using assms f f' g \<open>xs \<noteq> []\<close> False le
      by (simp add: WebMParseElementHeader_def field_id_eq field_size_eq Let_def)
  qed
qed

lemma header_bounds:
  assumes "WebMParseElementHeader xs = (r, i, s)" "0 < r"
  shows "r \<le> int (length xs)" "2 \<le> r" "r \<le> 12" "0 \<le> i" "i \<le> kWebMReservedId"
    "0 \<le> s" "s \<le> kWebMUnknownSize"
proof -
  obtain n v where f: "field_parses 4 False xs = (n, v)" by force
  have ne: "xs \<noteq> []" using assms by (auto simp: WebMParseElementHeader_def)
  have n0: "0 < n" using assms ne f by (auto simp: WebMParseElementHeader_def field_id_eq split: if_splits)
  obtain m u where g: "field_parses 8 True (drop (nat n) xs) = (m, u)" by force
  have m0: "0 < m" and r: "r = n + m" and i: "i = (if v = int64_max then kWebMReservedId else v)"
    and s: "s = (if u = int64_max then kWebMUnknownSize else u)"
    using assms ne f g n0
    by (auto simp: WebMParseElementHeader_def field_id_eq field_size_eq Let_def split: if_splits)
  note F = field_parses_bounds [OF f n0] and G = field_parses_bounds [OF g m0]
  show "r \<le> int (length xs)" using F(1) G(1) r n0 by (simp add: of_nat_diff)
  show "2 \<le> r" "r \<le> 12" using F(2) G(2) n0 m0 r by simp_all
  show "0 \<le> i" "0 \<le> s" using F(3) G(3) i s by (auto simp: webm_ids)
  have "7 * nat n + 1 \<le> 29" using F(2) by simp
  then have "(2::int) ^ (7 * nat n + 1) \<le> 2 ^ 29" by (rule power_increasing) simp
  then show "i \<le> kWebMReservedId" using F(4) i by (auto simp: webm_ids)
  have "7 * nat m \<le> 56" using G(2) by simp
  then have "(2::int) ^ (7 * nat m) \<le> 2 ^ 56" by (rule power_increasing) simp
  then show "s \<le> kWebMUnknownSize" using G(5) s by (auto simp: webm_ids)
qed
section \<open>The stack of open lists\<close>

definition list_ok :: "'h list_state \<Rightarrow> bool" where
  "list_ok l \<longleftrightarrow> FindListInfo (list_id l) = Some (element_info l) \<and> 0 \<le> list_bytes_parsed l \<and>
     0 \<le> list_size l \<and> (list_size l \<le> kWebMUnknownSize \<or> list_bytes_parsed l = list_size l) \<and>
     (list_size l = kWebMUnknownSize \<or> list_bytes_parsed l \<le> list_size l)"

text \<open>A child is one its parent may contain and fits into what the parent has left; only a parent of unknown size may have a child of unknown size.\<close>

definition nested :: "'h list_state \<Rightarrow> 'h list_state \<Rightarrow> bool" where
  "nested l parent \<longleftrightarrow> FindIdType (list_id l) (id_info (element_info parent)) = LIST \<and>
     (list_size parent = kWebMUnknownSize \<or>
      list_size l \<noteq> kWebMUnknownSize \<and> list_bytes_parsed parent + list_size l \<le> list_size parent)"

fun stack_ok :: "int \<Rightarrow> int \<Rightarrow> 'h list_state list \<Rightarrow> bool" where
  "stack_ok ri rl [] \<longleftrightarrow> True"
| "stack_ok ri rl [l] \<longleftrightarrow> list_ok l \<and> list_id l = ri \<and> info_level (element_info l) = rl"
| "stack_ok ri rl (l # parent # ls) \<longleftrightarrow>
     list_ok l \<and> nested l parent \<and> info_level (element_info l) = rl + 1 + int (length ls) \<and>
     stack_ok ri rl (parent # ls)"

definition top_open :: "'h list_state list \<Rightarrow> bool" where
  "top_open ls \<longleftrightarrow> (case ls of [] \<Rightarrow> False | l # _ \<Rightarrow> list_bytes_parsed l \<noteq> list_size l)"

definition parser_ok :: "'h webm_list_parser \<Rightarrow> bool" where
  "parser_ok p \<longleftrightarrow> 0 \<le> root_level p \<and> FindListLevel (root_id p) = root_level p \<and>
     (case parser_state p of
        INSIDE_LIST \<Rightarrow> stack_ok (root_id p) (root_level p) (list_state_stack p) \<and> top_open (list_state_stack p)
      | PARSE_ERROR \<Rightarrow> True
      | _ \<Rightarrow> list_state_stack p = [])"

text \<open>What \<open>OnListEnd\<close> and \<open>OnListStart\<close> need: the top may be full.\<close>

definition inside_ok :: "'h webm_list_parser \<Rightarrow> bool" where
  "inside_ok p \<longleftrightarrow> 0 \<le> root_level p \<and> FindListLevel (root_id p) = root_level p \<and>
     parser_state p = INSIDE_LIST \<and> stack_ok (root_id p) (root_level p) (list_state_stack p)"

definition same_root :: "'h webm_list_parser \<Rightarrow> 'h webm_list_parser \<Rightarrow> bool" where
  "same_root p q \<longleftrightarrow> root_id p = root_id q \<and> root_level p = root_level q \<and> root_client p = root_client q"

lemma same_root_trans: "same_root p q \<Longrightarrow> same_root q r \<Longrightarrow> same_root p r"
  by (simp add: same_root_def)

lemma stack_ok_Cons:
  "stack_ok ri rl (l # ls) \<longleftrightarrow> list_ok l \<and> info_level (element_info l) = rl + int (length ls) \<and>
     (case ls of [] \<Rightarrow> list_id l = ri | parent # _ \<Rightarrow> nested l parent) \<and> stack_ok ri rl ls"
  by (cases ls) auto

lemma list_end_loop_ok:
  assumes "stack_ok ri rl ls" "list_end_loop cl root ls n c = (True, k, ls', c')"
  shows "stack_ok ri rl ls' \<and> (ls' = [] \<or> top_open ls') \<and> n \<le> k \<and>
    (ls \<noteq> [] \<and> \<not> top_open ls \<longrightarrow> n < k)"
  using assms
proof (induction ls arbitrary: n c rule: length_induct)
  case (1 ls)
  consider "ls = []" | l where "ls = [l]" | l parent rest where "ls = l # parent # rest"
    by (cases ls) (auto, metis list.exhaust)
  then show ?case
  proof cases
    case 1
    then show ?thesis using "1.prems" by simp
  next
    case (2 l)
    then show ?thesis using "1.prems" by (auto simp: top_open_def split: if_splits prod.splits)
  next
    case (3 l parent rest)
    show ?thesis
    proof (cases "list_bytes_parsed l = list_size l")
      case False
      then show ?thesis using "1.prems" 3 by (auto simp: top_open_def)
    next
      case True
      define parent1 where
        "parent1 = parent\<lparr>list_bytes_parsed := list_bytes_parsed parent + list_bytes_parsed l\<rparr>"
      obtain b c1 where cb: "cb_OnListEnd cl (list_client parent) (list_id l) c = (b, c1)" by force
      have l: "list_ok l" "nested l parent" and sp: "stack_ok ri rl (parent # rest)"
        using "1.prems"(1) unfolding 3 by simp_all
      have p1: "list_id parent1 = list_id parent" "element_info parent1 = element_info parent"
        "list_size parent1 = list_size parent"
        "list_bytes_parsed parent1 = list_bytes_parsed parent + list_size l"
        using True by (simp_all add: parent1_def)
      have "list_ok parent1"
        using l sp p1 by (auto simp: list_ok_def nested_def stack_ok_Cons)
      moreover have "nested parent1 q = nested parent q" for q by (simp add: nested_def p1)
      ultimately have ok: "stack_ok ri rl (parent1 # rest)"
        using sp p1 by (cases rest) simp_all
      have rec: "list_end_loop cl root (parent1 # rest) (Suc n) c1 = (True, k, ls', c')"
        using "1.prems"(2) True cb by (auto simp: 3 parent1_def Let_def split: if_splits)
      have "stack_ok ri rl ls' \<and> (ls' = [] \<or> top_open ls') \<and> Suc n \<le> k"
        using "1.IH" [rule_format, of "parent1 # rest" "Suc n" c1] ok rec 3 by simp
      then show ?thesis by simp
    qed
  qed
qed
lemma parser_ok_of_inside:
  assumes "inside_ok p" "list_state_stack p = [] \<or> top_open (list_state_stack p)"
  shows "parser_ok (if list_state_stack p = [] then ChangeState DONE_PARSING_LIST p else p)"
  using assms by (auto simp: inside_ok_def parser_ok_def ChangeState_def)

lemma OnListEnd_ok:
  assumes "inside_ok p" "list_state_stack p \<noteq> []" "\<not> top_open (list_state_stack p)"
  obtains ok p1 c1 where "OnListEnd cl p c = Some (ok, p1, c1)" "same_root p p1" "ok \<Longrightarrow> parser_ok p1"
    "ok \<Longrightarrow> parser_state p1 = INSIDE_LIST \<or> parser_state p1 = DONE_PARSING_LIST"
proof -
  obtain ok k ls c1 where L: "list_end_loop cl (root_client p) (list_state_stack p) 0 c = (ok, k, ls, c1)"
    by (metis prod_cases4)
  define p1 where "p1 = p\<lparr>list_state_stack := ls\<rparr>"
  show ?thesis
  proof (cases ok)
    case True
    then have "stack_ok (root_id p) (root_level p) ls" "ls = [] \<or> top_open ls" "1 \<le> k"
      using list_end_loop_ok [of "root_id p" "root_level p" "list_state_stack p" cl "root_client p" 0 c k ls c1]
        L assms by (auto simp: inside_ok_def)
    then have "inside_ok p1" "list_state_stack p1 = [] \<or> top_open (list_state_stack p1)"
      using assms(1) by (auto simp: inside_ok_def p1_def)
    from parser_ok_of_inside [OF this] show ?thesis
      using L True \<open>1 \<le> k\<close> that [of True "if ls = [] then ChangeState DONE_PARSING_LIST p1 else p1" c1] assms(1)
      by (auto simp: OnListEnd_def p1_def same_root_def ChangeState_def inside_ok_def)
  next
    case False
    then show ?thesis
      using L that [of False p1 c1] by (auto simp: OnListEnd_def p1_def same_root_def)
  qed
qed

lemma OnListStart_ok:
  assumes "inside_ok p" "0 \<le> sz" "sz \<le> kWebMUnknownSize" 
    "case list_state_stack p of [] \<Rightarrow> i = root_id p | l # _ \<Rightarrow> FindIdType i (id_info (element_info l)) = LIST"
  obtains ok p1 c1 where "OnListStart cl i sz p c = Some (ok, p1, c1)" "same_root p p1" "ok \<Longrightarrow> parser_ok p1"
    "ok \<Longrightarrow> parser_state p1 = INSIDE_LIST \<or> parser_state p1 = DONE_PARSING_LIST"
proof (cases "FindListInfo i")
  case None
  then show ?thesis using that [of False p c] by (simp add: OnListStart_def same_root_def)
next
  case (Some info)
  let ?ls = "list_state_stack p"
  define reject where "reject \<longleftrightarrow> (case ?ls of [] \<Rightarrow> False
     | l # ls \<Rightarrow> list_size l \<noteq> kWebMUnknownSize \<and> list_size l < list_bytes_parsed l + sz)"
  define h where "h = (case ?ls of [] \<Rightarrow> root_client p | l # ls \<Rightarrow> list_client l)"
  obtain nc c1 where cb: "cb_OnListStart cl h i c = (nc, c1)" by force
  have start: "OnListStart cl i sz p c =
     (if root_level p + int (length ?ls) \<noteq> info_level info \<or> reject then Some (False, p, c)
      else case nc of None \<Rightarrow> Some (False, p, c1)
        | Some n \<Rightarrow>
            let p1 = p\<lparr>list_state_stack := \<lparr>list_id = i, list_size = sz, list_bytes_parsed = 0,
                   element_info = info, list_client = n\<rparr> # ?ls\<rparr>
            in if sz = 0 then OnListEnd cl p1 c1 else Some (True, p1, c1))"
    using Some cb by (auto simp: OnListStart_def reject_def h_def split: option.splits)
  show ?thesis
  proof (cases "root_level p + int (length ?ls) \<noteq> info_level info \<or> reject \<or> nc = None")
    case True
    then show ?thesis
      using start that [of False p c] that [of False p c1]
      by (auto simp: same_root_def split: if_splits)
  next
    case False
    then obtain n where n: "nc = Some n" by auto
    define l where "l = \<lparr>list_id = i, list_size = sz, list_bytes_parsed = 0, element_info = info,
      list_client = n\<rparr>"
    define p1 where "p1 = p\<lparr>list_state_stack := l # ?ls\<rparr>"
    have "list_ok l" using Some assms(2,3) by (simp add: list_ok_def l_def)
    moreover have "case ?ls of [] \<Rightarrow> list_id l = root_id p | parent # _ \<Rightarrow> nested l parent"
    proof (cases ?ls)
      case Nil
      then show ?thesis using assms(4) by (simp add: l_def)
    next
      case (Cons parent rest)
      then have "list_ok parent" using assms(1) by (simp add: inside_ok_def stack_ok_Cons)
      then show ?thesis
        using False Cons assms(4) by (auto simp: reject_def nested_def l_def list_ok_def webm_ids)
    qed
    moreover have "info_level (element_info l) = root_level p + int (length ?ls)"
      using False by (simp add: l_def)
    ultimately have ok: "inside_ok p1"
      using assms(1) by (simp add: inside_ok_def p1_def stack_ok_Cons)
    have same: "same_root p p1" by (simp add: same_root_def p1_def)
    show ?thesis
    proof (cases "sz = 0")
      case True
      have "list_state_stack p1 \<noteq> []" "\<not> top_open (list_state_stack p1)"
        using True by (simp_all add: p1_def l_def top_open_def)
      from OnListEnd_ok [OF ok this, of cl c1]
      obtain ok p2 c2 where "OnListEnd cl p1 c1 = Some (ok, p2, c2)" "same_root p1 p2" "ok \<Longrightarrow> parser_ok p2"
        "ok \<Longrightarrow> parser_state p2 = INSIDE_LIST \<or> parser_state p2 = DONE_PARSING_LIST"
        by blast
      then show ?thesis
        using that [of ok p2 c2] start False n True same
        by (auto simp: p1_def l_def intro: same_root_trans)
    next
      case sz: False
      have "parser_ok p1" using ok sz by (auto simp: inside_ok_def parser_ok_def p1_def l_def top_open_def)
      moreover have "parser_state p1 = INSIDE_LIST" using ok by (simp add: inside_ok_def)
      ultimately show ?thesis
        using that [of True p1 c1] start False n sz same by (auto simp: p1_def l_def)
    qed
  qed
qed

lemma ParseNonListElement_result:
  assumes "0 \<le> element_size" "element_size \<le> int (length data)"
  shows "fst (ParseNonListElement cl ty i element_size data h c) = -1 \<or>
         fst (ParseNonListElement cl ty i element_size data h c) = element_size"
  using assms
  by (cases ty) (auto simp: ParseNonListElement_def ParseUInt_def ParseFloat_def ParseBinary_def
      ParseString_def Let_def min_def split: prod.splits)
text \<open>What one element does: the outcome of \<open>ParseListElement\<close> in a well-formed parser.\<close>

definition element_outcome ::
  "int \<Rightarrow> 'h webm_list_parser \<Rightarrow> 'c \<Rightarrow> (int \<times> 'h webm_list_parser \<times> 'c) option \<Rightarrow> bool" where
  "element_outcome limit p c out \<longleftrightarrow>
     (case out of
        None \<Rightarrow> False
      | Some (r, p1, c1) \<Rightarrow> -1 \<le> r \<and> r \<le> limit \<and> same_root p p1 \<and>
          (0 \<le> r \<longrightarrow> parser_ok p1 \<and> (parser_state p1 = INSIDE_LIST \<or> parser_state p1 = DONE_PARSING_LIST)))"

lemma set_top_ok:
  assumes "inside_ok p" "list_state_stack p = l # ls" "list_ok l1" "list_size l1 = list_size l"
    "list_id l1 = list_id l" "element_info l1 = element_info l"
  shows "inside_ok (set_top l1 p)"
  using assms by (cases ls) (auto simp: inside_ok_def set_top_def nested_def)

lemma parse_list_element_tail_ok:
  assumes ok: "parser_ok p" "parser_state p = INSIDE_LIST" and stack: "list_state_stack p = l # ls"
    and hs: "0 < hs" "0 \<le> es" "es \<le> kWebMUnknownSize" and al: "aliased \<or> ty = UNKNOWN"
    and ty: "ty = LIST \<Longrightarrow> FindIdType i (id_info (element_info l)) = LIST"
    and data: "int (length data) \<le> es"
  shows "element_outcome (hs + int (length data)) p c
    (parse_list_element_tail cl aliased l ty hs i es data p c)"
proof (cases "list_size l \<noteq> kWebMUnknownSize \<and> list_size l < list_bytes_parsed l + (hs + es)")
  case True
  then show ?thesis using hs by (simp add: parse_list_element_tail_def element_outcome_def same_root_def)
next
  case fit: False
  have inside: "inside_ok p" "list_ok l"
    using ok stack by (auto simp: parser_ok_def inside_ok_def stack_ok_Cons)
  have "list_bytes_parsed l \<noteq> list_size l" using ok stack by (simp add: parser_ok_def top_open_def)
  then have grown: "inside_ok (set_top (l\<lparr>list_bytes_parsed := list_bytes_parsed l + m\<rparr>) p)"
    if "0 \<le> m" "m \<le> hs + es" for m
    using inside fit that by (intro set_top_ok [OF _ stack]) (auto simp: list_ok_def)
  have root: "same_root p (set_top l1 p)" for l1 by (simp add: same_root_def set_top_def)
  show ?thesis
  proof (cases "ty = LIST")
    case True
    let ?p1 = "set_top (l\<lparr>list_bytes_parsed := list_bytes_parsed l + hs\<rparr>) p"
    have in1: "inside_ok ?p1" using grown [of hs] hs by simp
    have "case list_state_stack ?p1 of [] \<Rightarrow> i = root_id ?p1
        | l # _ \<Rightarrow> FindIdType i (id_info (element_info l)) = LIST"
      using ty True by (simp add: set_top_def)
    from OnListStart_ok [OF in1 hs(2,3) this, where cl = cl and c = c]
    obtain b p1 c1 where "OnListStart cl i es ?p1 c = Some (b, p1, c1)" "same_root ?p1 p1"
      "b \<Longrightarrow> parser_ok p1" "b \<Longrightarrow> parser_state p1 = INSIDE_LIST \<or> parser_state p1 = DONE_PARSING_LIST"
      by blast
    then show ?thesis
      using True fit hs al root same_root_trans [of p ?p1 p1]
      by (auto simp: parse_list_element_tail_def element_outcome_def Let_def)
  next
    case nolist: False
    show ?thesis
    proof (cases "int (length data) < es")
      case True
      then show ?thesis
        using nolist fit hs ok
        by (simp add: parse_list_element_tail_def element_outcome_def Let_def same_root_def)
    next
      case False
      then have len: "int (length data) = es" using data by simp
      obtain r c1 where r: "ParseNonListElement cl ty i es data (list_client l) c = (r, c1)" by force
      then have rv: "r = -1 \<or> r = es"
        using ParseNonListElement_result [of es data cl ty i "list_client l" c] hs(2) len by simp
      show ?thesis
      proof (cases "r < 0")
        case True
        then show ?thesis
          using nolist fit r rv hs len
          by (simp add: parse_list_element_tail_def element_outcome_def Let_def same_root_def)
      next
        case rpos: False
        then have res: "r = es" "ty \<noteq> UNKNOWN"
          using rv hs r by (auto simp: ParseNonListElement_def)
        then have al: aliased using al by simp
        let ?l1 = "l\<lparr>list_bytes_parsed := list_bytes_parsed l + (hs + es)\<rparr>"
        let ?p1 = "set_top ?l1 p"
        have in1: "inside_ok ?p1" using grown [of "hs + es"] hs by simp
        show ?thesis
        proof (cases "list_bytes_parsed ?l1 = list_size ?l1")
          case True
          then have "list_state_stack ?p1 \<noteq> []" "\<not> top_open (list_state_stack ?p1)"
            by (simp_all add: set_top_def top_open_def)
          from OnListEnd_ok [OF in1 this, of cl c1]
          obtain b p2 c2 where "OnListEnd cl ?p1 c1 = Some (b, p2, c2)" "same_root ?p1 p2"
            "b \<Longrightarrow> parser_ok p2" "b \<Longrightarrow> parser_state p2 = INSIDE_LIST \<or> parser_state p2 = DONE_PARSING_LIST"
            by blast
          then show ?thesis
            using True nolist fit r res al hs len False root same_root_trans [of p ?p1 p2]
            by (auto simp: parse_list_element_tail_def element_outcome_def Let_def)
        next
          case nfull: False
          then have "parser_ok ?p1" "parser_state ?p1 = INSIDE_LIST"
            using in1 by (auto simp: inside_ok_def parser_ok_def set_top_def top_open_def)
          then show ?thesis
            using nfull nolist fit r res al hs len False root
            by (auto simp: parse_list_element_tail_def element_outcome_def Let_def)
        qed
      qed
    qed
  qed
qed

lemma ParseListElement_ok:
  assumes ok: "parser_ok p" "parser_state p = INSIDE_LIST"
    and hs: "0 < hs" "0 \<le> es" "es \<le> kWebMUnknownSize" and data: "int (length data) \<le> es"
  shows "element_outcome (hs + int (length data)) p c (ParseListElement cl hs i es data p c)"
proof -
  obtain l ls where stack: "list_state_stack p = l # ls"
    using ok by (cases "list_state_stack p") (auto simp: parser_ok_def top_open_def)
  have inside: "inside_ok p" "list_ok l"
    using ok stack by (auto simp: parser_ok_def inside_ok_def stack_ok_Cons)
  define ty where "ty = FindIdType i (id_info (element_info l))"
  show ?thesis
  proof (cases "ty = UNKNOWN")
    case False
    then show ?thesis
      using parse_list_element_tail_ok [OF ok stack hs _ _ data, of True] stack
      by (simp add: ParseListElement_def Let_def ty_def)
  next
    case unknown: True
    show ?thesis
    proof (cases "list_size l \<noteq> kWebMUnknownSize \<or> \<not> IsSiblingOrAncestor (list_id l) i")
      case True
      then show ?thesis
        using stack unknown hs
        by (auto simp: ParseListElement_def ty_def element_outcome_def same_root_def)
    next
      case False
      let ?l1 = "l\<lparr>list_size := list_bytes_parsed l\<rparr>"
      let ?p1 = "set_top ?l1 p"
      have "list_ok ?l1" using inside by (simp add: list_ok_def)
      then have in1: "inside_ok ?p1"
        using inside(1) False stack
        by (cases ls) (auto simp: inside_ok_def set_top_def nested_def)
      then have "list_state_stack ?p1 \<noteq> []" "\<not> top_open (list_state_stack ?p1)"
        by (simp_all add: set_top_def top_open_def)
      from OnListEnd_ok [OF in1 this, of cl c]
      obtain b p2 c2 where e: "OnListEnd cl ?p1 c = Some (b, p2, c2)" "same_root ?p1 p2"
        "b \<Longrightarrow> parser_ok p2" "b \<Longrightarrow> parser_state p2 = INSIDE_LIST \<or> parser_state p2 = DONE_PARSING_LIST"
        by blast
      then have e2: "same_root p p2" by (auto simp: same_root_def set_top_def)
      have call: "ParseListElement cl hs i es data p c =
        (if \<not> b then Some (-1, p2, c2)
         else case list_state_stack p2 of [] \<Rightarrow> Some (0, p2, c2)
           | l2 # ls2 \<Rightarrow> parse_list_element_tail cl False l2 UNKNOWN hs i es data p2 c2)"
        using stack unknown False e(1) by (auto simp: ParseListElement_def Let_def ty_def)
      show ?thesis
      proof (cases "b \<and> list_state_stack p2 \<noteq> []")
        case False
        then show ?thesis using call e e2 hs by (auto simp: element_outcome_def)
      next
        case True
        then obtain l2 ls2 where s2: "list_state_stack p2 = l2 # ls2" by (cases "list_state_stack p2") auto
        moreover have "parser_ok p2" "parser_state p2 = INSIDE_LIST"
          using e(3,4) True by (auto simp: parser_ok_def)
        ultimately have "element_outcome (hs + int (length data)) p2 c2
            (parse_list_element_tail cl False l2 UNKNOWN hs i es data p2 c2)"
          using parse_list_element_tail_ok [OF _ _ _ hs _ _ data, of p2 l2 ls2 False UNKNOWN] by simp
        then show ?thesis
          using call True s2 e2 by (auto simp: element_outcome_def intro: same_root_trans split: option.splits)
      qed
    qed
  qed
qed
section \<open>The parse loop\<close>

definition running :: "'h webm_list_parser \<Rightarrow> bool" where
  "running p \<longleftrightarrow> parser_state p = NEED_LIST_HEADER \<or> parser_state p = INSIDE_LIST"

lemma running_iff: "running p \<longleftrightarrow> parser_state p \<noteq> PARSE_ERROR \<and> parser_state p \<noteq> DONE_PARSING_LIST"
  by (cases "parser_state p") (auto simp: running_def)

lemma OnListStart_root_ok:
  assumes "parser_ok p" "parser_state p = NEED_LIST_HEADER" "0 \<le> sz" "sz \<le> kWebMUnknownSize"
  obtains ok p1 c1 where "OnListStart cl (root_id p) sz (ChangeState INSIDE_LIST p) c = Some (ok, p1, c1)"
    "same_root p p1" "ok \<Longrightarrow> parser_ok p1" "ok \<Longrightarrow> parser_state p1 = INSIDE_LIST \<or> parser_state p1 = DONE_PARSING_LIST"
proof -
  let ?p = "ChangeState INSIDE_LIST p"
  have in1: "inside_ok ?p" and stack: "list_state_stack ?p = []" and root: "root_id p = root_id ?p"
    using assms(1,2) by (auto simp: parser_ok_def inside_ok_def ChangeState_def)
  have "case list_state_stack ?p of [] \<Rightarrow> root_id p = root_id ?p
      | l # _ \<Rightarrow> FindIdType (root_id p) (id_info (element_info l)) = LIST"
    using stack root by simp
  from OnListStart_ok [OF in1 assms(3,4) this, where cl = cl and c = c] obtain b p1 c1 where *: "OnListStart cl (root_id p) sz ?p c = Some (b, p1, c1)" "same_root ?p p1"
    "b \<Longrightarrow> parser_ok p1" "b \<Longrightarrow> parser_state p1 = INSIDE_LIST \<or> parser_state p1 = DONE_PARSING_LIST"
    by blast
  then have "same_root p p1" by (auto simp: same_root_def ChangeState_def)
  with * show ?thesis using that by blast
qed

lemma header_negative: "WebMParseElementHeader xs = (r, i, s) \<Longrightarrow> -1 \<le> r"
  by (auto simp: WebMParseElementHeader_def field_id_eq field_size_eq field_parses_def Let_def
      split: if_splits list.splits prod.splits)

lemma length_element_bytes:
  assumes "0 \<le> element_size"
  shows "int (length (element_bytes result element_size cur)) \<le> element_size"
    "0 \<le> result \<Longrightarrow> result \<le> int (length cur) \<Longrightarrow>
     result + int (length (element_bytes result element_size cur)) \<le> int (length cur)"
  using assms by (auto simp: element_bytes_def Let_def)

lemma length_element_bytes_eq:
  "0 \<le> s \<Longrightarrow> length (element_bytes r s cur) = min (nat s) (length cur - nat r)"
  by (auto simp: element_bytes_def Let_def)

lemma parse_step_inside:
  assumes "WebMParseElementHeader cur = (r, i, s)" "0 < r" "parser_state p = INSIDE_LIST"
  shows "parse_step cl cur n p c =
    (case ParseListElement cl r i s (element_bytes r s cur) p c of
       None \<Rightarrow> None
     | Some (res, p1, c1) \<Rightarrow>
         if \<not> res \<le> r + int (length (element_bytes r s cur)) then None
         else if res < 0 then Some (Return (-1), ChangeState PARSE_ERROR p1, c1)
         else if res = 0 then Some (Return (int n), p1, c1)
         else Some (Advance (nat res), p1, c1))"
  using assms by (simp add: parse_step_def Let_def)

definition step_outcome ::
  "nat \<Rightarrow> nat \<Rightarrow> 'h webm_list_parser \<Rightarrow> (parse_outcome \<times> 'h webm_list_parser \<times> 'c) option \<Rightarrow> bool" where
  "step_outcome len n p out \<longleftrightarrow>
     (case out of
        None \<Rightarrow> False
      | Some (Return r, p1, c1) \<Rightarrow> same_root p p1 \<and>
          (r = -1 \<or> r = int n \<and> parser_ok p1 \<and> parser_state p1 \<noteq> PARSE_ERROR)
      | Some (Advance k, p1, c1) \<Rightarrow> same_root p p1 \<and> 0 < k \<and> k \<le> len \<and> parser_ok p1 \<and>
          parser_state p1 \<noteq> PARSE_ERROR)"

lemma parse_step_ok:
  assumes "parser_ok p" "running p"
  shows "step_outcome (length cur) n p (parse_step cl cur n p c)"
proof -
  obtain r i s where h: "WebMParseElementHeader cur = (r, i, s)" by (metis prod_cases3)
  consider "r < 0" | "r = 0" | "0 < r" by linarith
  then show ?thesis
  proof cases
    case 1
    then show ?thesis using h header_negative [OF h] by (simp add: parse_step_def step_outcome_def same_root_def)
  next
    case 2
    then show ?thesis using h assms by (auto simp: parse_step_def step_outcome_def same_root_def running_def)
  next
    case 3
    note hb = header_bounds [OF h 3]
    show ?thesis
    proof (cases "parser_state p = NEED_LIST_HEADER")
      case True
      obtain b p1 c1 where "OnListStart cl (root_id p) s (ChangeState INSIDE_LIST p) c = Some (b, p1, c1)"
        "same_root p p1" "b \<Longrightarrow> parser_ok p1"
        "b \<Longrightarrow> parser_state p1 = INSIDE_LIST \<or> parser_state p1 = DONE_PARSING_LIST"
        using OnListStart_root_ok [OF assms(1) True hb(6,7), of cl c] by metis
      then show ?thesis
        using h 3 True hb(1)
        by (auto simp: parse_step_def step_outcome_def same_root_def ChangeState_def)
    next
      case False
      then have inside: "parser_state p = INSIDE_LIST" using assms(2) by (simp add: running_def)
      let ?data = "element_bytes r s cur"
      have "element_outcome (r + int (length ?data)) p c (ParseListElement cl r i s ?data p c)"
        using ParseListElement_ok [OF assms(1) inside 3 hb(6,7) length_element_bytes(1) [OF hb(6)]] .
      then obtain res p1 c1 where "ParseListElement cl r i s ?data p c = Some (res, p1, c1)"
        "-1 \<le> res" "res \<le> r + int (length ?data)" "same_root p p1"
        "0 \<le> res \<Longrightarrow> parser_ok p1 \<and> (parser_state p1 = INSIDE_LIST \<or> parser_state p1 = DONE_PARSING_LIST)"
        by (auto simp: element_outcome_def split: option.splits)
      moreover have "r + int (length ?data) \<le> int (length cur)"
        using length_element_bytes(2) [OF hb(6), of r cur] 3 hb(1) by simp
      ultimately show ?thesis
        unfolding parse_step_inside [OF h 3 inside]
        by (auto simp: step_outcome_def same_root_def ChangeState_def)
    qed
  qed
qed

definition loop_outcome ::
  "nat \<Rightarrow> nat \<Rightarrow> 'h webm_list_parser \<Rightarrow> (int \<times> 'h webm_list_parser \<times> 'c) option \<Rightarrow> bool" where
  "loop_outcome len n p out \<longleftrightarrow>
     (case out of
        None \<Rightarrow> False
      | Some (r, p1, c1) \<Rightarrow> same_root p p1 \<and>
          (r = -1 \<or> int n \<le> r \<and> r \<le> int (n + len) \<and> parser_ok p1 \<and> parser_state p1 \<noteq> PARSE_ERROR))"

lemma parse_loop_ok:
  assumes "parser_ok p"
  shows "loop_outcome (length cur) n p (parse_loop cl cur n p c)"
  using assms
proof (induction cl cur n p c rule: parse_loop.induct)
  case (1 cl cur n p c)
  show ?case
  proof (cases "cur \<noteq> [] \<and> running p")
    case False
    then show ?thesis using "1.prems"
      by (subst parse_loop.simps) (auto simp: loop_outcome_def same_root_def running_iff)
  next
    case True
    then have step: "step_outcome (length cur) n p (parse_step cl cur n p c)"
      using parse_step_ok [OF "1.prems"] by simp
    then obtain out p1 c1 where s: "parse_step cl cur n p c = Some (out, p1, c1)"
      by (auto simp: step_outcome_def split: option.splits)
    show ?thesis
    proof (cases out)
      case (Return r)
      then show ?thesis
        using s step Return True
        by (subst parse_loop.simps) (auto simp: loop_outcome_def step_outcome_def running_iff)
    next
      case (Advance k)
      then have k: "0 < k" "k \<le> length cur" "parser_ok p1" "same_root p p1"
        using s step by (auto simp: step_outcome_def)
      have "loop_outcome (length (drop k cur)) (n + k) p1 (parse_loop cl (drop k cur) (n + k) p1 c1)"
        using "1.IH" [OF _ s refl Advance refl k(3)] True by (simp add: running_iff)
      then show ?thesis
        using s Advance True k
        by (subst parse_loop.simps)
           (auto simp: loop_outcome_def running_iff intro: same_root_trans split: option.splits)
    qed
  qed
qed

section \<open>Parsing in pieces\<close>

lemma only_segment_has_clusters:
  "list_all (\<lambda>info. FindIdType kWebMIdCluster (id_info info) = LIST \<longrightarrow> info_id info = kWebMIdSegment)
     kListElementInfo"
  "list_all (\<lambda>info. FindIdType kWebMIdSegment (id_info info) \<noteq> LIST) kListElementInfo"
  by code_simp+

lemma FindListInfo_SomeD: "FindListInfo i = Some info \<Longrightarrow> info \<in> set kListElementInfo \<and> info_id info = i"
  unfolding FindListInfo_def find_Some_iff by (auto simp: in_set_conv_nth)

text \<open>Unless a Segment is parsed, only the root list can be ended by a sibling.\<close>

lemma sibling_only_at_root:
  assumes "parser_ok p" "parser_state p = INSIDE_LIST" "root_id p \<noteq> kWebMIdSegment"
    "list_state_stack p = l # ls" "IsSiblingOrAncestor (list_id l) i"
  shows "ls = []"
proof (cases ls)
  case (Cons parent rest)
  have st: "stack_ok (root_id p) (root_level p) (l # parent # rest)"
    using assms Cons by (auto simp: parser_ok_def)
  then have tyL: "FindIdType (list_id l) (id_info (element_info parent)) = LIST"
    and par: "FindListInfo (list_id parent) = Some (element_info parent)"
    by (auto simp: nested_def stack_ok_Cons list_ok_def)
  note info = FindListInfo_SomeD [OF par]
  have "list_id l = kWebMIdCluster \<or> list_id l = kWebMIdSegment"
    using assms(5) by (auto simp: IsSiblingOrAncestor_def split: if_splits)
  then have "list_id l = kWebMIdCluster"
    using tyL info only_segment_has_clusters(2) by (auto simp: list_all_iff)
  then have seg: "list_id parent = kWebMIdSegment"
    using tyL info only_segment_has_clusters(1) by (auto simp: list_all_iff)
  show ?thesis
  proof (cases rest)
    case Nil
    then show ?thesis using st seg assms(3) by simp
  next
    case (Cons q qs)
    then have "FindIdType (list_id parent) (id_info (element_info q)) = LIST"
      "FindListInfo (list_id q) = Some (element_info q)"
      using st by (auto simp: nested_def stack_ok_Cons list_ok_def)
    then show ?thesis using seg FindListInfo_SomeD only_segment_has_clusters(2) by (fastforce simp: list_all_iff)
  qed
qed simp

lemma ParseNonListElement_data:
  "take (nat s) xs = take (nat s) ys \<Longrightarrow>
   ParseNonListElement cl ty i s xs h c = ParseNonListElement cl ty i s ys h c"
  by (simp add: ParseNonListElement_def)

text \<open>An element either waits for more data and changes nothing, or the data behind it do not matter.\<close>

lemma ParseListElement_append:
  assumes "parser_ok p" "parser_state p = INSIDE_LIST" "root_id p \<noteq> kWebMIdSegment" "0 \<le> s" "0 \<le> r"
  shows "ParseListElement cl r i s (element_bytes r s cur) p c = Some (0, p, c) \<or>
    ParseListElement cl r i s (element_bytes r s (cur @ ys)) p c =
    ParseListElement cl r i s (element_bytes r s cur) p c"
proof -
  obtain l ls where stack: "list_state_stack p = l # ls"
    using assms by (cases "list_state_stack p") (auto simp: parser_ok_def top_open_def)
  let ?ty = "FindIdType i (id_info (element_info l))"
  let ?d = "element_bytes r s cur" and ?e = "element_bytes r s (cur @ ys)"
  show ?thesis
  proof (cases "?ty = UNKNOWN")
    case True
    show ?thesis
    proof (cases "IsSiblingOrAncestor (list_id l) i \<and> list_size l = kWebMUnknownSize")
      case False
      then show ?thesis using True stack by (auto simp: ParseListElement_def)
    next
      case sib: True
      then have "ls = []" using sibling_only_at_root [OF assms(1-3) stack] by blast
      then have "\<exists>x. OnListEnd cl (set_top (l\<lparr>list_size := list_bytes_parsed l\<rparr>) p) c = x \<and>
        (case x of None \<Rightarrow> True | Some (b, p1, c1) \<Rightarrow> list_state_stack p1 = [])"
        using stack by (simp add: OnListEnd_def set_top_def ChangeState_def Let_def split: prod.split)
      then show ?thesis
        using True stack sib by (auto simp: ParseListElement_def split: option.splits list.splits)
    qed
  next
    case False
    then have pl: "ParseListElement cl r i s d p c = parse_list_element_tail cl True l ?ty r i s d p c" for d
      using stack by (simp add: ParseListElement_def Let_def)
    show ?thesis
    proof (cases "?ty = LIST")
      case True
      then show ?thesis unfolding pl by (simp add: parse_list_element_tail_def)
    next
      case nolist: False
      show ?thesis
      proof (cases "int (length ?d) < s")
        case True
        then show ?thesis
          unfolding pl using nolist by (auto simp: parse_list_element_tail_def Let_def)
      next
        case False
        then have "?e = ?d" using assms(4,5) by (auto simp: element_bytes_def Let_def min_def)
        then show ?thesis by simp
      qed
    qed
  qed
qed
lemma ParseListElement_zero:
  assumes "parser_ok p" "parser_state p = INSIDE_LIST" "root_id p \<noteq> kWebMIdSegment" "0 \<le> s" "0 < r"
    "int (length d) \<le> s" and z: "ParseListElement cl r i s d p c = Some (0, p1, c1)"
  shows "p1 = p \<and> c1 = c \<or> parser_state p1 = DONE_PARSING_LIST"
proof -
  obtain l ls where stack: "list_state_stack p = l # ls"
    using assms by (cases "list_state_stack p") (auto simp: parser_ok_def top_open_def)
  let ?ty = "FindIdType i (id_info (element_info l))"
  show ?thesis
  proof (cases "?ty = UNKNOWN")
    case True
    show ?thesis
    proof (cases "IsSiblingOrAncestor (list_id l) i \<and> list_size l = kWebMUnknownSize")
      case False
      then show ?thesis using True stack z by (auto simp: ParseListElement_def)
    next
      case sib: True
      then have "ls = []" using sibling_only_at_root [OF assms(1-3) stack] by blast
      then show ?thesis
        using True stack sib z
        by (auto simp: ParseListElement_def OnListEnd_def set_top_def ChangeState_def Let_def
            split: prod.splits if_splits)
    qed
  next
    case False
    then have pl: "parse_list_element_tail cl True l ?ty r i s d p c = Some (0, p1, c1)"
      using stack z by (simp add: ParseListElement_def Let_def)
    show ?thesis
    proof (cases "int (length d) < s")
      case True
      then show ?thesis
        using pl assms(5) by (auto simp: parse_list_element_tail_def Let_def split: if_splits option.splits)
    next
      case False
      then have "int (length d) = s" using assms(6) by simp
      then show ?thesis
        using pl assms(4,5) ParseNonListElement_result [of s d cl ?ty i "list_client l" c]
        by (auto simp: parse_list_element_tail_def Let_def split: if_splits option.splits prod.splits)
    qed
  qed
qed

lemma parse_step_return:
  assumes "parser_ok p" "running p" "root_id p \<noteq> kWebMIdSegment"
    "parse_step cl cur n p c = Some (Return r, p1, c1)"
  shows "r < 0 \<or> p1 = p \<and> c1 = c \<or> \<not> running p1"
proof -
  obtain h i s where h: "WebMParseElementHeader cur = (h, i, s)" by (metis prod_cases3)
  show ?thesis
  proof (cases "0 < h \<and> parser_state p = INSIDE_LIST")
    case True
    then have pos: "0 < h" and inside: "parser_state p = INSIDE_LIST" by auto
    note hb = header_bounds [OF h pos]
    have "p2 = p \<and> c2 = c \<or> parser_state p2 = DONE_PARSING_LIST"
      if "ParseListElement cl h i s (element_bytes h s cur) p c = Some (0, p2, c2)" for p2 c2
      using ParseListElement_zero [OF assms(1) inside assms(3) hb(6) pos length_element_bytes(1) [OF hb(6)] that] .
    then show ?thesis
      using assms(4) unfolding parse_step_inside [OF h pos inside] running_iff
      by (auto split: option.splits if_splits)
  next
    case False
    then show ?thesis
      using assms(2,4) h by (auto simp: parse_step_def running_def Let_def split: if_splits option.splits)
  qed
qed

lemma parse_step_append:
  assumes "parser_ok p" "running p" "root_id p \<noteq> kWebMIdSegment"
  shows "parse_step cl cur n p c = Some (Return (int n), p, c) \<or>
    parse_step cl (cur @ ys) n p c = parse_step cl cur n p c"
proof -
  obtain r i s where h: "WebMParseElementHeader cur = (r, i, s)" by (metis prod_cases3)
  show ?thesis
  proof (cases "r = 0")
    case True
    then show ?thesis using h by (simp add: parse_step_def)
  next
    case False
    then have h': "WebMParseElementHeader (cur @ ys) = (r, i, s)" using header_append h by blast
    show ?thesis
    proof (cases "0 < r \<and> parser_state p = INSIDE_LIST")
      case True
      then have pos: "0 < r" and inside: "parser_state p = INSIDE_LIST" by auto
      note hb = header_bounds [OF h pos]
      have "r + int (length (element_bytes r s cur)) \<ge> 0" using pos by simp
      moreover have "element_outcome (r + int (length (element_bytes r s cur))) p c
          (ParseListElement cl r i s (element_bytes r s cur) p c)"
        using ParseListElement_ok [OF assms(1) inside pos hb(6,7) length_element_bytes(1) [OF hb(6)]] .
      moreover have "length (element_bytes r s cur) \<le> length (element_bytes r s (cur @ ys))"
        using hb(6) by (simp add: length_element_bytes_eq)
      ultimately show ?thesis
        using ParseListElement_append [OF assms(1) inside assms(3) hb(6) less_imp_le [OF pos], of cl i cur c ys]
        unfolding parse_step_inside [OF h pos inside] parse_step_inside [OF h' pos inside]
        by (auto simp: element_outcome_def split: option.splits)
    next
      case False
      then show ?thesis
        using h h' assms(2) \<open>r \<noteq> 0\<close>
        by (auto simp: parse_step_def running_def Let_def)
    qed
  qed
qed

text \<open>The count of bytes parsed so far only shifts the result.\<close>

definition shift :: "nat \<Rightarrow> (int \<times> 'a \<times> 'b) option \<Rightarrow> (int \<times> 'a \<times> 'b) option" where
  "shift k = map_option (\<lambda>(r, p, c). (if r < 0 then r else int k + r, p, c))"

lemma shift_0: "shift 0 x = x"
  by (cases x) (auto simp: shift_def)

lemma parse_step_shift:
  "parse_step cl cur (k + n) p c =
   map_option (\<lambda>(out, p1, c1). (case out of Return r \<Rightarrow> Return (if r < 0 then r else int k + r) | Advance m \<Rightarrow> Advance m, p1, c1))
     (parse_step cl cur n p c)"
proof -
  obtain r i s where h: "WebMParseElementHeader cur = (r, i, s)" by (metis prod_cases3)
  consider "r \<le> 0" | "0 < r" "parser_state p = INSIDE_LIST" | "0 < r" "parser_state p \<noteq> INSIDE_LIST"
    by linarith
  then show ?thesis
  proof cases
    case 1
    then show ?thesis using h by (simp add: parse_step_def)
  next
    case 2
    then show ?thesis unfolding parse_step_inside [OF h 2] by (simp split: option.split)
  next
    case 3
    then show ?thesis using h by (cases "parser_state p") (simp_all add: parse_step_def split: option.split)
  qed
qed

lemma parse_loop_shift: "parse_loop cl cur (k + n) p c = shift k (parse_loop cl cur n p c)"
proof (induction cl cur n p c rule: parse_loop.induct)
  case (1 cl cur n p c)
  show ?case
  proof (cases "cur \<noteq> [] \<and> parser_state p \<noteq> PARSE_ERROR \<and> parser_state p \<noteq> DONE_PARSING_LIST")
    case False
    then show ?thesis unfolding parse_loop.simps [of cl cur] by (auto simp: shift_def)
  next
    case True
    show ?thesis
    proof (cases "parse_step cl cur n p c")
      case None
      then show ?thesis
        unfolding parse_loop.simps [of cl cur] using parse_step_shift [of cl cur k n p c]
        by (simp add: shift_def)
    next
      case (Some q)
      obtain out p1 c1 where q: "q = (out, p1, c1)" by (cases q)
      show ?thesis
      proof (cases out)
        case (Return r)
        then show ?thesis
          using True Some q
          unfolding parse_loop.simps [of cl cur] parse_step_shift [of cl cur k n p c]
          by (simp add: shift_def)
      next
        case (Advance m)
        have "parse_loop cl (drop m cur) (k + (n + m)) p1 c1 = shift k (parse_loop cl (drop m cur) (n + m) p1 c1)"
          using "1.IH" [OF True Some q [symmetric] Advance refl] .
        then show ?thesis
          using True Some q Advance
          unfolding parse_loop.simps [of cl cur] parse_step_shift [of cl cur k n p c]
          by (simp add: add.assoc)
      qed
    qed
  qed
qed

lemma parse_loop_append:
  assumes "parser_ok p" "root_id p \<noteq> kWebMIdSegment" "parse_loop cl xs n p c = Some (r, p1, c1)"
  shows "parse_loop cl (xs @ ys) n p c =
    (if r < 0 \<or> \<not> running p1 then Some (r, p1, c1)
     else parse_loop cl (drop (nat r - n) xs @ ys) (nat r) p1 c1)"
  using assms
proof (induction cl xs n p c rule: parse_loop.induct)
  case (1 cl xs n p c)
  show ?case
  proof (cases "xs \<noteq> [] \<and> running p")
    case False
    then have "r = (if parser_state p = PARSE_ERROR then -1 else int n)" "p1 = p" "c1 = c"
      using "1.prems"(3) unfolding parse_loop.simps [of cl xs] running_iff by (auto split: if_splits)
    then show ?thesis
      using False by (cases "running p") (auto simp: running_iff parse_loop.simps [of cl "xs @ ys"])
  next
    case True
    have "step_outcome (length xs) n p (parse_step cl xs n p c)"
      using parse_step_ok [OF "1.prems"(1)] True by simp
    then obtain out p2 c2 where s: "parse_step cl xs n p c = Some (out, p2, c2)"
      and so: "step_outcome (length xs) n p (Some (out, p2, c2))"
      by (auto simp: step_outcome_def split: option.splits)
    have loop: "parse_loop cl zs n p c =
      (case parse_step cl zs n p c of None \<Rightarrow> None | Some (Return r, p1, c1) \<Rightarrow> Some (r, p1, c1)
         | Some (Advance r, p1, c1) \<Rightarrow> parse_loop cl (drop r zs) (n + r) p1 c1)" if "zs \<noteq> []" for zs
      using that True by (subst parse_loop.simps) (simp add: running_iff)
    from parse_step_append [OF "1.prems"(1) _ "1.prems"(2), of cl xs n c ys] True
    consider "parse_step cl xs n p c = Some (Return (int n), p, c)"
      | "parse_step cl (xs @ ys) n p c = Some (out, p2, c2)" using s by auto
    then show ?thesis
    proof cases
      case 1
      then have "r = int n" "p1 = p" "c1 = c" using "1.prems"(3) loop [of xs] True by auto
      then show ?thesis using True by simp
    next
      case 2
      show ?thesis
      proof (cases out)
        case (Return r')
        then have e: "r' = r" "p2 = p1" "c2 = c1" using "1.prems"(3) loop [of xs] True s by auto
        then have step': "parse_loop cl (xs @ ys) n p c = Some (r, p1, c1)"
          using 2 Return loop [of "xs @ ys"] True by simp
        have "r < 0 \<or> p1 = p \<and> c1 = c \<or> \<not> running p1"
          using parse_step_return [OF "1.prems"(1) _ "1.prems"(2)] s Return e True by metis
        moreover have "r = -1 \<or> r = int n" using so Return e by (auto simp: step_outcome_def)
        ultimately show ?thesis using step' by auto
      next
        case (Advance k)
        then have k: "0 < k" "k \<le> length xs" "parser_ok p2" "same_root p p2"
          using so by (auto simp: step_outcome_def)
        have tail: "parse_loop cl (drop k xs) (n + k) p2 c2 = Some (r, p1, c1)"
          using "1.prems"(3) loop [of xs] True s Advance by simp
        have "root_id p2 \<noteq> kWebMIdSegment" using k(4) "1.prems"(2) by (simp add: same_root_def)
        moreover have "xs \<noteq> [] \<and> parser_state p \<noteq> PARSE_ERROR \<and> parser_state p \<noteq> DONE_PARSING_LIST"
          using True by (simp add: running_iff)
        ultimately have IH: "parse_loop cl (drop k xs @ ys) (n + k) p2 c2 =
            (if r < 0 \<or> \<not> running p1 then Some (r, p1, c1)
             else parse_loop cl (drop (nat r - (n + k)) (drop k xs) @ ys) (nat r) p1 c1)"
          using "1.IH" [OF _ s refl Advance refl k(3) _ tail] by blast
        have "int (n + k) \<le> r \<or> r = -1"
          using parse_loop_ok [OF k(3), of "drop k xs" "n + k" cl c2] tail by (auto simp: loop_outcome_def)
        then have "nat r - n = nat r - (n + k) + k \<or> r = -1" by auto
        then show ?thesis
          using IH 2 Advance loop [of "xs @ ys"] True k(2) by (auto simp: add.commute)
      qed
    qed
  qed
qed

section \<open>A client for examples\<close>

text \<open>It accepts every element and counts the calls.\<close>

definition counting_client :: "(unit, nat) webm_client" where
  "counting_client =
     \<lparr>cb_OnListStart = \<lambda>h i c. (Some (), c + 1), cb_OnListEnd = \<lambda>h i c. (True, c + 1),
      cb_OnUInt = \<lambda>h i v c. (True, c + 1), cb_OnFloat = \<lambda>h i v c. (True, c + 1),
      cb_OnBinary = \<lambda>h i v c. (True, c + 1), cb_OnString = \<lambda>h i v c. (True, c + 1)\<rparr>"

definition new_parser :: "int \<Rightarrow> unit webm_list_parser" where
  "new_parser i = the (WebMListParser_init i ())"

lemma init_ok:
  assumes "WebMListParser_init i h = Some p"
  shows "parser_ok p" "running p"
  using assms by (auto simp: WebMListParser_init_def parser_ok_def running_def split: if_splits)

lemma new_parser_header:
  "WebMListParser_init kWebMIdEBMLHeader () = Some (new_parser kWebMIdEBMLHeader)"
  "root_id (new_parser kWebMIdEBMLHeader) = kWebMIdEBMLHeader"
  by code_simp+

text \<open>An EBML header with its version and read version.\<close>

definition header_example :: "u8 list" where
  "header_example = [0x1A, 0x45, 0xDF, 0xA3, 0x88, 0x42, 0x86, 0x81, 0x01, 0x42, 0xF7, 0x81, 0x01]"

lemma header_example_parses:
  "WebMListParser_Parse counting_client (take 11 header_example) (new_parser kWebMIdEBMLHeader) 0 =
   Some (9, \<lparr>parser_state = INSIDE_LIST, root_id = kWebMIdEBMLHeader, root_level = 0, root_client = (),
     list_state_stack = [\<lparr>list_id = kWebMIdEBMLHeader, list_size = 8, list_bytes_parsed = 4,
       element_info = list_element_info_row kWebMIdEBMLHeader 0 kEBMLHeaderIds, list_client = ()\<rparr>]\<rparr>, 2)"
  by code_simp

text \<open>A Segment and a Cluster of unknown sizes, and a second Cluster.\<close>

definition sibling_example :: "u8 list" where
  "sibling_example = [0x18, 0x53, 0x80, 0x67, 0xFF, 0x1F, 0x43, 0xB6, 0x75, 0xFF, 0xE7, 0x81, 0x00,
     0x1F, 0x43, 0xB6, 0x75, 0x83, 0xE7, 0x81, 0x05]"

section \<open>Properties\<close>

text \<open>
  C19: a parser in a well-formed state never violates an assertion; \<open>Parse\<close> returns \<open>-1\<close> or a
  number of bytes within the buffer, and in the latter case the parser is well formed again:
  every open list is one its parent may contain, at the level of its table, with what is
  left of it inside what is left of its parent.
\<close>

theorem WebMListParser_Parse_safe:
  assumes "parser_ok p" "running p"
  shows "\<exists>n p1 c1. WebMListParser_Parse cl buf p c = Some (n, p1, c1) \<and> same_root p p1 \<and>
    (n = -1 \<or> 0 \<le> n \<and> n \<le> int (length buf) \<and> parser_ok p1 \<and> parser_state p1 \<noteq> PARSE_ERROR)"
proof (cases "buf = []")
  case True
  then show ?thesis using assms by (simp add: WebMListParser_Parse_def running_iff same_root_def)
next
  case False
  then show ?thesis
    using parse_loop_ok [OF assms(1), of buf 0 cl c] assms(2)
    by (auto simp: WebMListParser_Parse_def running_iff loop_outcome_def split: option.splits)
qed
theorem WebMListParser_Parse_safe_witness:
  "\<exists>n p1 c1. WebMListParser_Parse counting_client header_example (new_parser kWebMIdEBMLHeader) 0 =
     Some (n, p1, c1) \<and> same_root (new_parser kWebMIdEBMLHeader) p1 \<and>
     (n = -1 \<or> 0 \<le> n \<and> n \<le> int (length header_example) \<and> parser_ok p1 \<and> parser_state p1 \<noteq> PARSE_ERROR)"
  by (rule WebMListParser_Parse_safe [OF init_ok [OF new_parser_header(1)]])

text \<open>
  C2: parsing a buffer at once is parsing it in two pieces: when \<open>Parse\<close> of the first piece violates
  no assertion, then, after an error or the end of the list, parsing both pieces together gives the
  same; otherwise the unparsed bytes followed by the second piece continue where it stopped, and
  give the result, the parser and the calls to the client of a single \<open>Parse\<close>. The parser is well
  formed and has neither failed nor finished, and its root is not a Segment: for a Segment, whose
  clusters may have an unknown size, the statement is false (\<open>sibling_after_unknown_size_cluster\<close>).
  The parsers of the program have the roots Info, Tracks and Cluster; the unit test of
  \<open>WebMListParser\<close> also parses a Segment as the root.
\<close>

theorem WebMListParser_Parse_incremental:
  assumes "parser_ok p" "running p" "root_id p \<noteq> kWebMIdSegment"
    and first: "WebMListParser_Parse cl xs p c = Some (n, p1, c1)"
  shows "WebMListParser_Parse cl (xs @ ys) p c =
    (if n < 0 \<or> IsParsingComplete p1 then Some (n, p1, c1)
     else shift (nat n) (WebMListParser_Parse cl (drop (nat n) xs @ ys) p1 c1))"
proof (cases "xs = []")
  case True
  then have "n = 0" "p1 = p" "c1 = c" using first assms(2) by (auto simp: WebMListParser_Parse_def running_iff)
  then show ?thesis
    using True assms(2) by (auto simp: shift_0 IsParsingComplete_def running_iff)
next
  case False
  then have first': "parse_loop cl xs 0 p c = Some (n, p1, c1)"
    using first assms(2) by (simp add: WebMListParser_Parse_def running_iff)
  have whole: "WebMListParser_Parse cl (xs @ ys) p c = parse_loop cl (xs @ ys) 0 p c"
    using False assms(2) by (simp add: WebMListParser_Parse_def running_iff)
  note app = parse_loop_append [OF assms(1,3) first', of ys]
  show ?thesis
  proof (cases "n < 0 \<or> IsParsingComplete p1")
    case True
    then show ?thesis using app whole by (auto simp: IsParsingComplete_def running_iff)
  next
    case nd: False
    have "parser_ok p1 \<and> parser_state p1 \<noteq> PARSE_ERROR"
      using parse_loop_ok [OF assms(1), of xs 0 cl c] first' nd by (simp add: loop_outcome_def)
    then have run: "running p1" using nd by (simp add: IsParsingComplete_def running_iff)
    let ?rest = "drop (nat n) xs @ ys"
    have "WebMListParser_Parse cl ?rest p1 c1 = parse_loop cl ?rest 0 p1 c1"
      using run by (auto simp: WebMListParser_Parse_def running_iff parse_loop.simps [of cl "[]"])
    then show ?thesis
      using app whole nd run parse_loop_shift [of cl ?rest "nat n" 0 p1 c1] by simp
  qed
qed

theorem WebMListParser_Parse_incremental_witness:
  "WebMListParser_Parse counting_client header_example (new_parser kWebMIdEBMLHeader) 0 =
   shift 9 (WebMListParser_Parse counting_client (drop 9 header_example)
     \<lparr>parser_state = INSIDE_LIST, root_id = kWebMIdEBMLHeader, root_level = 0, root_client = (),
     list_state_stack = [\<lparr>list_id = kWebMIdEBMLHeader, list_size = 8, list_bytes_parsed = 4,
       element_info = list_element_info_row kWebMIdEBMLHeader 0 kEBMLHeaderIds, list_client = ()\<rparr>]\<rparr> 2)"
proof -
  have "root_id (new_parser kWebMIdEBMLHeader) \<noteq> kWebMIdSegment"
    unfolding new_parser_header(2) by (simp add: webm_ids)
  from WebMListParser_Parse_incremental [OF init_ok [OF new_parser_header(1)] this header_example_parses,
      of "drop 11 header_example"]
  show ?thesis by (simp add: header_example_def IsParsingComplete_def)
qed

text \<open>
  C32: an element header is read back from its encoding, whatever follows it: an ID of \<open>k\<close> bytes
  keeps its marker bit, a size of \<open>j\<close> bytes does not; value bits that are all ones give the
  reserved ID and the unknown size.
\<close>

theorem WebMParseElementHeader_roundtrip:
  assumes "0 < k" "k \<le> 4" "0 \<le> v" "v < 2 ^ (7 * k)" "0 < j" "j \<le> 8" "0 \<le> w" "w < 2 ^ (7 * j)"
  shows "WebMParseElementHeader (vint_bytes k v @ vint_bytes j w @ rest) =
    (int (k + j), if v = 2 ^ (7 * k) - 1 then kWebMReservedId else 2 ^ (7 * k) + v,
     if w = 2 ^ (7 * j) - 1 then kWebMUnknownSize else w)"
proof -
  have "2 ^ (7 * k) + v < (2::int) ^ 29"
  proof -
    have "(2::int) ^ (7 * k) \<le> 2 ^ 28" using assms(2) by (intro power_increasing) simp_all
    then show ?thesis using assms(4) by simp
  qed
  moreover have "w < (2::int) ^ 56"
  proof -
    have "(2::int) ^ (7 * j) \<le> 2 ^ 56" using assms(6) by (intro power_increasing) simp_all
    then show ?thesis using assms(8) by simp
  qed
  ultimately show ?thesis
    using field_id_vint [OF assms(1-4), of "vint_bytes j w @ rest"] field_size_vint [OF assms(5-8), of rest] assms
    by (simp add: WebMParseElementHeader_def int64_max_def)
qed

theorem WebMParseElementHeader_roundtrip_witness:
  "WebMParseElementHeader (vint_bytes 4 0xA45DFA3 @ vint_bytes 1 9 @ [7]) = (5, kWebMIdEBMLHeader, 9)"
  using WebMParseElementHeader_roundtrip [of 4 "0xA45DFA3" 1 9 "[7]"] by (simp add: webm_ids)

text \<open>
  The result of \<open>WebMParseElementHeader\<close> on a prefix, unless it asks for more data, is the
  result on every longer buffer; a parsed header has 2 to 12 bytes, all of them inside the
  prefix, an ID of at most 29 bits and a size of at most 56 bits.
\<close>

theorem WebMParseElementHeader_prefix:
  assumes "WebMParseElementHeader xs = (r, i, s)" "r \<noteq> 0"
  shows "WebMParseElementHeader (xs @ ys) = (r, i, s) \<and>
    (r = -1 \<or> 2 \<le> r \<and> r \<le> 12 \<and> r \<le> int (length xs) \<and> 0 \<le> i \<and> i < 2 ^ 29 \<and> 0 \<le> s \<and> s < 2 ^ 56)"
proof (cases "0 < r")
  case True
  show ?thesis
    using header_append [OF assms] header_bounds [OF assms(1) True] by (simp add: webm_ids)
next
  case False
  then show ?thesis using header_append [OF assms] header_negative [OF assms(1)] assms(2) by auto
qed

theorem WebMParseElementHeader_prefix_witness:
  "WebMParseElementHeader ([0x42, 0x86, 0x81] @ [1, 2]) = (3, kWebMIdEBMLVersion, 1)"
proof -
  have "WebMParseElementHeader [0x42, 0x86, 0x81] = (3, kWebMIdEBMLVersion, 1)" by code_simp
  from WebMParseElementHeader_prefix [OF this, of "[1, 2]"] show ?thesis by simp
qed

lemma tables_checked:
  "list_all (\<lambda>info. list_all (\<lambda>e. fst e = LIST \<longrightarrow> FindListLevel (snd e) = info_level info + 1) (id_info info))
     kListElementInfo"
  "list_all (\<lambda>info. distinct (map snd (id_info info))) kListElementInfo"
  "list_all (\<lambda>info. list_all (\<lambda>e. list_ex (\<lambda>k. 2 ^ (7 * k) \<le> snd e \<and> snd e < 2 * 2 ^ (7 * k) - 1) [1, 2, 3, 4])
     (id_info info)) kListElementInfo"
  by code_simp+

text \<open>
  The element tables are consistent: a list element that may occur in a list has a table
  of its own, one level deeper, so that \<open>OnListStart\<close> never refuses it for its level; no ID
  occurs twice in a table; and every ID in a table is one the header parser can return.
\<close>

theorem element_tables_consistent:
  assumes "FindListInfo i = Some info" "(ty, child) \<in> set (id_info info)"
  shows "(ty = LIST \<longrightarrow> FindListLevel child = FindListLevel i + 1) \<and> distinct (map snd (id_info info)) \<and>
    (\<exists>k v. WebMParseElementHeader (vint_bytes k v @ [0x80]) = (int k + 1, child, 0))"
proof -
  note info = FindListInfo_SomeD [OF assms(1)]
  have "FindListLevel i = info_level info" using assms(1) by (simp add: FindListLevel_def)
  moreover have "ty = LIST \<longrightarrow> FindListLevel child = info_level info + 1" "distinct (map snd (id_info info))"
    using tables_checked(1,2) info assms(2) by (fastforce simp: list_all_iff)+
  moreover obtain k :: nat where k: "k \<in> {1, 2, 3, 4}" "2 ^ (7 * k) \<le> child" "child < 2 * 2 ^ (7 * k) - 1"
    using tables_checked(3) info assms(2) unfolding list_all_iff list_ex_iff by fastforce
  moreover have "vint_bytes 1 0 = [0x80]" by code_simp
  ultimately show ?thesis
    using WebMParseElementHeader_roundtrip [of k "child - 2 ^ (7 * k)" 1 0 "[]"]
    by (intro conjI exI [of _ k] exI [of _ "child - 2 ^ (7 * k)"]) auto
qed

theorem element_tables_consistent_witness:
  "FindListLevel kWebMIdBlockGroup = FindListLevel kWebMIdCluster + 1"
proof -
  obtain info where "FindListInfo kWebMIdCluster = Some info" "(LIST, kWebMIdBlockGroup) \<in> set (id_info info)"
    by (rule that [of "list_element_info_row kWebMIdCluster 1 kClusterIds"]; code_simp)
  from element_tables_consistent [OF this] show ?thesis by simp
qed

text \<open>
  When the client refuses the root list, \<open>Parse\<close> fails but leaves the parser inside a list
  with an empty stack, so that the next \<open>Parse\<close> of any buffer with a whole element header
  violates the assertion of \<open>ParseListElement\<close> (and reads the back of an empty vector).
\<close>

theorem refused_root_breaks_next_parse:
  assumes "parser_ok p" "parser_state p = NEED_LIST_HEADER"
    "WebMParseElementHeader buf = (r, root_id p, s)" "0 < r" "s \<noteq> kWebMUnknownSize"
    "cb_OnListStart cl (root_client p) (root_id p) c = (None, c1)"
    "fst (WebMParseElementHeader buf2) > 0"
  shows "\<exists>p1. WebMListParser_Parse cl buf p c = Some (-1, p1, c1) \<and> WebMListParser_Parse cl buf2 p1 c1 = None"
proof -
  let ?p1 = "ChangeState INSIDE_LIST p"
  have st: "list_state_stack p = []" "FindListLevel (root_id p) = root_level p" "0 \<le> root_level p"
    using assms(1,2) by (auto simp: parser_ok_def)
  then obtain info where info: "FindListInfo (root_id p) = Some info" "info_level info = root_level p"
    by (auto simp: FindListLevel_def split: option.splits)
  have start: "OnListStart cl (root_id p) s ?p1 c = Some (False, ?p1, c1)"
    using st info assms(6) by (simp add: OnListStart_def ChangeState_def Let_def)
  have ne: "buf \<noteq> []" "buf2 \<noteq> []" using assms(3,4,7) by (auto simp: WebMParseElementHeader_def)
  have "parse_step cl buf 0 p c = Some (Return (-1), ?p1, c1)"
    using assms(2-5) start by (simp add: parse_step_def)
  then have one: "WebMListParser_Parse cl buf p c = Some (-1, ?p1, c1)"
    using ne assms(2) by (simp add: WebMListParser_Parse_def parse_loop.simps [of cl buf])
  obtain r2 i2 s2 where h: "WebMParseElementHeader buf2 = (r2, i2, s2)" "0 < r2"
    using assms(7) by (metis fst_conv prod_cases3)
  have "parse_step cl buf2 0 ?p1 c1 = None"
    using parse_step_inside [OF h, of ?p1 cl 0 c1] st by (simp add: ChangeState_def ParseListElement_def)
  then have "WebMListParser_Parse cl buf2 ?p1 c1 = None"
    using ne by (simp add: WebMListParser_Parse_def parse_loop.simps [of cl buf2] ChangeState_def)
  with one show ?thesis by blast
qed

theorem refused_root_breaks_next_parse_witness:
  "\<exists>p1. WebMListParser_Parse WebMParserClient header_example (new_parser kWebMIdEBMLHeader) (0::nat) = Some (-1, p1, 0) \<and>
    WebMListParser_Parse WebMParserClient header_example p1 (0::nat) = None"
proof (rule refused_root_breaks_next_parse)
  show "parser_ok (new_parser kWebMIdEBMLHeader)" by (rule init_ok [OF new_parser_header(1)])
  show "parser_state (new_parser kWebMIdEBMLHeader) = NEED_LIST_HEADER" by code_simp
  show "WebMParseElementHeader header_example = (5, root_id (new_parser kWebMIdEBMLHeader), 8)" by code_simp
  show "0 < fst (WebMParseElementHeader header_example)" by code_simp
qed (simp_all add: webm_ids WebMParserClient_def)

text \<open>
  A list that follows a Cluster of unknown size inside a Segment of unknown size is
  rejected when the buffer holds all of it, while the same bytes are accepted when the last
  byte arrives with the next call.
\<close>

theorem sibling_after_unknown_size_cluster:
  "map_option fst (WebMListParser_Parse counting_client sibling_example (new_parser kWebMIdSegment) 0) = Some (-1) \<and>
   (case WebMListParser_Parse counting_client (butlast sibling_example) (new_parser kWebMIdSegment) 0 of
      Some (n, p, c) \<Rightarrow> n = 13 \<and>
        map_option fst (WebMListParser_Parse counting_client (drop 13 sibling_example) p c) = Some 8
    | None \<Rightarrow> False)"
  by code_simp

end
