(* ===== verification/Cast_Rtp.thy ===== *)
theory Cast_Rtp
  imports Media_Prelude "HOL-Library.Monad_Syntax"
begin

text \<open>
  Cast streaming, the wire format (\<open>cast/common\<close>, \<open>cast/net/rtp\<close>): values truncated on the
  wire and expanded by the receiver (\<open>ExpandedValueBase\<close>, \<open>FrameId\<close>), the packetizer that
  splits an encoded frame into RTP packets, the store of sent packets, and the parser of
  received packets.

  \<open>base::BigEndianReader\<close> and \<open>base::BigEndianWriter\<close> are not part of this repository: they
  are parameters, records of operations, and \<open>be_reader_ok\<close> and \<open>be_writer_ok\<close> state their
  documented behaviour. Assertions are \<open>None\<close>.
\<close>

section \<open>Expanded values\<close>

text \<open>
  \<open>w\<close> is the width of the truncated type, below the 64 bits of \<open>FullWidthInteger\<close>; the full
  values are \<open>int\<close>, since they stay far from the ends of \<open>int64_t\<close>.
\<close>

definition lower_bits :: "int \<Rightarrow> 'a::len word" where
  "lower_bits v = word_of_int v"

definition ExpandLessThanOrEqual :: "int \<Rightarrow> 'a::len word \<Rightarrow> int" where
  "ExpandLessThanOrEqual v x =
     (let short_max = 2 ^ LENGTH('a) - 1;
          result = (v AND NOT short_max) OR uint x
      in if result > v then result - (short_max + 1) else result)"

definition max_distance_for_expansion :: "nat \<Rightarrow> int" where
  "max_distance_for_expansion w = (2 ^ w - 1) div 2"

definition Expand :: "int \<Rightarrow> 'a::len word \<Rightarrow> int" where
  "Expand v x = ExpandLessThanOrEqual (v + max_distance_for_expansion LENGTH('a)) x"

subsection \<open>Frame IDs\<close>

datatype frame_id = FrameId (fid: int)

definition FrameId_null :: frame_id where
  "FrameId_null = FrameId (- (2 ^ 63))"

definition FrameId_first :: frame_id where
  "FrameId_first = FrameId 0"

definition FrameId_is_null :: "frame_id \<Rightarrow> bool" where
  "FrameId_is_null f \<longleftrightarrow> f = FrameId_null"

definition FrameId_plus :: "frame_id \<Rightarrow> int \<Rightarrow> frame_id" where
  "FrameId_plus f n = FrameId (fid f + n)"

text \<open>
  The distance operator asserts that neither operand is null; its result is a signed 64 bit
  number, which must not overflow.
\<close>

definition FrameId_distance :: "frame_id \<Rightarrow> frame_id \<Rightarrow> int option" where
  "FrameId_distance f g =
     (if FrameId_is_null f \<or> FrameId_is_null g then None
      else if fid f - fid g < - (2 ^ 63) \<or> fid f - fid g \<ge> 2 ^ 63 then None
      else Some (fid f - fid g))"

instantiation frame_id :: linorder
begin

definition less_eq_frame_id :: "frame_id \<Rightarrow> frame_id \<Rightarrow> bool" where
  "less_eq_frame_id f g \<longleftrightarrow> fid f \<le> fid g"

definition less_frame_id :: "frame_id \<Rightarrow> frame_id \<Rightarrow> bool" where
  "less_frame_id f g \<longleftrightarrow> fid f < fid g"

instance
  by standard (auto simp: less_eq_frame_id_def less_frame_id_def frame_id.expand)

end

section \<open>Frames and headers\<close>

datatype dependency = UNKNOWN_DEPENDENCY | DEPENDENT | INDEPENDENT | KEY

text \<open>RTP timestamps (\<open>RtpTimeTicks\<close>) and \<open>reference_time\<close> are \<open>int\<close>.\<close>

record encoded_frame =
  ef_dependency :: dependency
  ef_frame_id :: frame_id
  ef_referenced_frame_id :: frame_id
  ef_rtp_timestamp :: int
  ef_reference_time :: int
  ef_new_playout_delay_ms :: u16
  ef_data :: "u8 list"

record rtp_cast_header =
  h_marker :: bool
  h_payload_type :: u8
  h_sequence_number :: u16
  h_rtp_timestamp :: int
  h_sender_ssrc :: u32
  h_num_csrcs :: u8
  h_is_key_frame :: bool
  h_is_reference :: bool
  h_frame_id :: frame_id
  h_packet_id :: u16
  h_max_packet_id :: u16
  h_reference_frame_id :: frame_id
  h_new_playout_delay_ms :: u16
  h_num_extensions :: u8

definition RtpCastHeader_init :: rtp_cast_header where
  "RtpCastHeader_init =
     \<lparr>h_marker = False, h_payload_type = 0, h_sequence_number = 0, h_rtp_timestamp = 0,
      h_sender_ssrc = 0, h_num_csrcs = 0, h_is_key_frame = False, h_is_reference = False,
      h_frame_id = FrameId_null, h_packet_id = 0, h_max_packet_id = 0,
      h_reference_frame_id = FrameId_null, h_new_playout_delay_ms = 0, h_num_extensions = 0\<rparr>"

definition kRtpHeaderLength :: nat where "kRtpHeaderLength = 12"
definition kCastHeaderLength :: nat where "kCastHeaderLength = 7"
definition kRtpExtensionBitMask :: u8 where "kRtpExtensionBitMask = 0x10"
definition kRtpMarkerBitMask :: u8 where "kRtpMarkerBitMask = 0x80"
definition kRtpNumCsrcsMask :: u8 where "kRtpNumCsrcsMask = 0x0f"
definition kCastKeyFrameBitMask :: u8 where "kCastKeyFrameBitMask = 0x80"
definition kCastReferenceFrameIdBitMask :: u8 where "kCastReferenceFrameIdBitMask = 0x40"
definition kCastExtensionCountmask :: u8 where "kCastExtensionCountmask = 0x3f"
definition kCastRtpExtensionAdaptiveLatency :: u8 where "kCastRtpExtensionAdaptiveLatency = 1"

lemmas rtp_constants = kRtpHeaderLength_def kCastHeaderLength_def kRtpExtensionBitMask_def
  kRtpMarkerBitMask_def kRtpNumCsrcsMask_def kCastKeyFrameBitMask_def
  kCastReferenceFrameIdBitMask_def kCastExtensionCountmask_def kCastRtpExtensionAdaptiveLatency_def

section \<open>Big-endian input and output\<close>

record 'r be_reader =
  rd_new :: "u8 list \<Rightarrow> 'r"
  rd_u8 :: "'r \<Rightarrow> (u8 \<times> 'r) option"
  rd_u16 :: "'r \<Rightarrow> (u16 \<times> 'r) option"
  rd_u32 :: "'r \<Rightarrow> (u32 \<times> 'r) option"
  rd_skip :: "nat \<Rightarrow> 'r \<Rightarrow> 'r option"
  rd_piece :: "nat \<Rightarrow> 'r \<Rightarrow> (u8 list \<times> 'r) option"
  rd_rest :: "'r \<Rightarrow> u8 list"

text \<open>
  A read consumes the bytes it returns from the front, in network order, and fails exactly
  when too few are left.
\<close>

definition be_reader_ok :: "'r be_reader \<Rightarrow> bool" where
  "be_reader_ok R \<longleftrightarrow>
     (\<forall>bs. rd_rest R (rd_new R bs) = bs) \<and>
     (\<forall>r. case rd_u8 R r of None \<Rightarrow> rd_rest R r = [] | Some (b, r') \<Rightarrow> rd_rest R r = b # rd_rest R r') \<and>
     (\<forall>r. case rd_u16 R r of None \<Rightarrow> length (rd_rest R r) < 2
          | Some (x, r') \<Rightarrow> \<exists>bs. length bs = 2 \<and> rd_rest R r = bs @ rd_rest R r' \<and> x = be_word bs) \<and>
     (\<forall>r. case rd_u32 R r of None \<Rightarrow> length (rd_rest R r) < 4
          | Some (x, r') \<Rightarrow> \<exists>bs. length bs = 4 \<and> rd_rest R r = bs @ rd_rest R r' \<and> x = be_word bs) \<and>
     (\<forall>n r. case rd_skip R n r of None \<Rightarrow> length (rd_rest R r) < n
          | Some r' \<Rightarrow> \<exists>bs. length bs = n \<and> rd_rest R r = bs @ rd_rest R r') \<and>
     (\<forall>n r. case rd_piece R n r of None \<Rightarrow> length (rd_rest R r) < n
          | Some (bs, r') \<Rightarrow> length bs = n \<and> rd_rest R r = bs @ rd_rest R r')"

record be_writer =
  wr_u16 :: "u16 \<Rightarrow> u8 list"
  wr_u32 :: "u32 \<Rightarrow> u8 list"

definition be_writer_ok :: "be_writer \<Rightarrow> bool" where
  "be_writer_ok W \<longleftrightarrow> (\<forall>x. length (wr_u16 W x) = 2 \<and> be_word (wr_u16 W x) = x) \<and>
     (\<forall>x. length (wr_u32 W x) = 4 \<and> be_word (wr_u32 W x) = x)"

section \<open>RtpPacketizer\<close>

record packet_key =
  pk_capture_time :: int
  pk_ssrc :: u32
  pk_frame_id :: frame_id
  pk_packet_id :: u16

record rtp_packetizer_config =
  cfg_payload_type :: int
  cfg_max_payload_length :: u16
  cfg_sequence_number :: u16
  cfg_ssrc :: u32

subsection \<open>PacketStorage\<close>

record packet_storage =
  ps_frames :: "(packet_key \<times> u8 list) list list"
  ps_first_frame_id_in_list :: frame_id
  ps_zombie_count :: nat

definition PacketStorage_init :: packet_storage where
  "PacketStorage_init = \<lparr>ps_frames = [], ps_first_frame_id_in_list = FrameId_null, ps_zombie_count = 0\<rparr>"

definition GetNumberOfStoredFrames :: "packet_storage \<Rightarrow> nat" where
  "GetNumberOfStoredFrames s = length (ps_frames s) - ps_zombie_count s"

definition kMaxUnackedFrames :: nat where "kMaxUnackedFrames = 120"

definition StoreFrame :: "frame_id \<Rightarrow> (packet_key \<times> u8 list) list \<Rightarrow> packet_storage \<Rightarrow> packet_storage option" where
  "StoreFrame f packets s =
     (if packets = [] then None
      else if ps_frames s = [] then
        Some (s\<lparr>ps_first_frame_id_in_list := f, ps_frames := [packets]\<rparr>)
      else if FrameId_is_null (ps_first_frame_id_in_list s) then None
      else if FrameId_plus (ps_first_frame_id_in_list s) (int (length (ps_frames s))) \<noteq> f then None
      else if \<not> length (ps_frames s) < kMaxUnackedFrames then None
      else Some (s\<lparr>ps_frames := ps_frames s @ [packets]\<rparr>))"

text \<open>
  The index of the frame in the queue, when its packets are still there (the inner option); the
  outer \<open>None\<close> is the assertion of the distance operator for a null frame ID, or its overflow.
\<close>

definition stored_index :: "frame_id \<Rightarrow> packet_storage \<Rightarrow> nat option option" where
  "stored_index f s =
     (if FrameId_is_null (ps_first_frame_id_in_list s) then Some None
      else do {
        off \<leftarrow> FrameId_distance f (ps_first_frame_id_in_list s);
        Some (if off < 0 \<or> off \<ge> int (length (ps_frames s)) \<or> ps_frames s ! nat off = [] then None
              else Some (nat off))
      })"

definition GetFramePackets ::
  "frame_id \<Rightarrow> packet_storage \<Rightarrow> (packet_key \<times> u8 list) list option option" where
  "GetFramePackets f s = map_option (map_option (\<lambda>i. ps_frames s ! i)) (stored_index f s)"

fun pop_zombies :: "(packet_key \<times> u8 list) list list \<Rightarrow> nat \<Rightarrow> frame_id \<Rightarrow>
    ((packet_key \<times> u8 list) list list \<times> nat \<times> frame_id) option" where
  "pop_zombies ([] # fs) zombies first =
     (if \<not> zombies > 0 then None
      else if FrameId_is_null first then None
      else pop_zombies fs (zombies - 1) (FrameId_plus first 1))"
| "pop_zombies fs zombies first = Some (fs, zombies, first)"

definition PacketStorage_ReleaseFrame :: "frame_id \<Rightarrow> packet_storage \<Rightarrow> packet_storage option" where
  "PacketStorage_ReleaseFrame f s =
     (case stored_index f s of
        None \<Rightarrow> None
      | Some None \<Rightarrow> Some s
      | Some (Some i) \<Rightarrow>
          map_option (\<lambda>(fs, zombies, first). s\<lparr>ps_frames := fs, ps_zombie_count := zombies,
              ps_first_frame_id_in_list := first\<rparr>)
            (pop_zombies ((ps_frames s)[i := []]) (ps_zombie_count s + 1) (ps_first_frame_id_in_list s)))"

subsection \<open>Packets of a frame\<close>

record rtp_packetizer =
  pz_config :: rtp_packetizer_config
  pz_packet_storage :: packet_storage
  pz_sequence_number :: u16
  pz_send_packet_count :: nat
  pz_send_octet_count :: nat

definition RtpPacketizer_init :: "rtp_packetizer_config \<Rightarrow> packet_storage \<Rightarrow> rtp_packetizer" where
  "RtpPacketizer_init cfg storage =
     \<lparr>pz_config = cfg, pz_packet_storage = storage, pz_sequence_number = cfg_sequence_number cfg,
      pz_send_packet_count = 0, pz_send_octet_count = 0\<rparr>"

definition NextSequenceNumber :: "rtp_packetizer \<Rightarrow> u16 \<times> rtp_packetizer" where
  "NextSequenceNumber p = (pz_sequence_number p, p\<lparr>pz_sequence_number := pz_sequence_number p + 1\<rparr>)"

definition BuildCommonRTPheader :: "be_writer \<Rightarrow> bool \<Rightarrow> int \<Rightarrow> rtp_packetizer \<Rightarrow> u8 list \<times> rtp_packetizer" where
  "BuildCommonRTPheader W marker_bit ts p =
     ([0x80, word_of_int (cfg_payload_type (pz_config p)) OR (if marker_bit then kRtpMarkerBitMask else 0)] @
      wr_u16 W (pz_sequence_number p) @ wr_u32 W (lower_bits ts) @ wr_u32 W (cfg_ssrc (pz_config p)),
      p\<lparr>pz_sequence_number := pz_sequence_number p + 1\<rparr>)"

text \<open>The Cast header, the extension and the payload of packet \<open>packet_id\<close>.\<close>

definition cast_part :: "be_writer \<Rightarrow> encoded_frame \<Rightarrow> nat \<Rightarrow> u16 \<Rightarrow> u8 list \<Rightarrow> u8 list" where
  "cast_part W frame num_packets packet_id payload =
     (let num_extensions = (if ef_new_playout_delay_ms frame \<noteq> 0 then 1 else 0);
          byte0 = kCastReferenceFrameIdBitMask OR (if ef_dependency frame = KEY then kCastKeyFrameBitMask else 0)
                  OR (if packet_id = 0 then num_extensions else 0)
      in [byte0, lower_bits (fid (ef_frame_id frame))] @ wr_u16 W packet_id @
         wr_u16 W (word_of_nat (num_packets - 1)) @ [lower_bits (fid (ef_referenced_frame_id frame))] @
         (if packet_id = 0 \<and> ef_new_playout_delay_ms frame \<noteq> 0
          then [push_bit 2 kCastRtpExtensionAdaptiveLatency, 2,
                ucast (drop_bit 8 (ef_new_playout_delay_ms frame)), ucast (ef_new_playout_delay_ms frame)]
          else []) @ payload)"

text \<open>The loop over the remaining data; \<open>packets\<close> are the packets built so far.\<close>

partial_function (option) packetize_loop ::
  "be_writer \<Rightarrow> encoded_frame \<Rightarrow> nat \<Rightarrow> nat \<Rightarrow> u8 list \<Rightarrow> (packet_key \<times> u8 list) list \<Rightarrow> rtp_packetizer \<Rightarrow>
   ((packet_key \<times> u8 list) list \<times> rtp_packetizer) option" where
  "packetize_loop W frame num_packets payload_length data packets p =
     (if data = [] then Some (packets, p)
      else if ef_dependency frame = UNKNOWN_DEPENDENCY then None
      else
        let n = min (length data) payload_length;
            rest = drop n data;
            (header, p1) = BuildCommonRTPheader W (rest = []) (ef_rtp_timestamp frame) p;
            packet_id = word_of_nat (length packets);
            packet = header @ cast_part W frame num_packets packet_id (take n data);
            key = \<lparr>pk_capture_time = ef_reference_time frame, pk_ssrc = cfg_ssrc (pz_config p),
                   pk_frame_id = ef_frame_id frame, pk_packet_id = packet_id\<rparr>
        in packetize_loop W frame num_packets n rest (packets @ [(key, packet)])
             (p1\<lparr>pz_send_packet_count := pz_send_packet_count p1 + 1,
                 pz_send_octet_count := pz_send_octet_count p1 + n\<rparr>))"

text \<open>The packets, which also go to the transport, and the new state; a division by zero is \<open>None\<close>.\<close>

definition SendFrameAsPackets ::
  "be_writer \<Rightarrow> encoded_frame \<Rightarrow> rtp_packetizer \<Rightarrow> ((packet_key \<times> u8 list) list \<times> rtp_packetizer) option" where
  "SendFrameAsPackets W frame p =
     (let rtp_header_length = word_of_nat (kRtpHeaderLength + kCastHeaderLength) :: u16;
          max_length = unat (cfg_max_payload_length (pz_config p) - rtp_header_length - 1)
      in if max_length = 0 then None
         else
           let data_size = length (ef_data frame);
               num_packets = (data_size + max_length) div max_length;
               payload_length = (data_size + num_packets) div num_packets
           in if \<not> payload_length \<le> max_length then None
              else do {
                (packets, p1) \<leftarrow> packetize_loop W frame num_packets payload_length (ef_data frame) [] p;
                if num_packets \<noteq> length packets then None
                else do {
                  storage \<leftarrow> StoreFrame (ef_frame_id frame) packets (pz_packet_storage p1);
                  Some (packets, p1\<lparr>pz_packet_storage := storage\<rparr>)
                }
              })"

section \<open>RtpParser\<close>

record rtp_parser =
  rp_expected_sender_ssrc :: u32
  rp_expected_payload_type :: u8
  rp_last_parsed_rtp_timestamp :: int
  rp_last_parsed_frame_id :: frame_id

definition RtpParser_init :: "u32 \<Rightarrow> u8 \<Rightarrow> rtp_parser" where
  "RtpParser_init ssrc pt =
     \<lparr>rp_expected_sender_ssrc = ssrc, rp_expected_payload_type = pt, rp_last_parsed_rtp_timestamp = 0,
      rp_last_parsed_frame_id = FrameId_plus FrameId_first (- 1)\<rparr>"

definition ParseSsrc :: "'r be_reader \<Rightarrow> u8 list \<Rightarrow> u32 option" where
  "ParseSsrc R packet = do { r \<leftarrow> rd_skip R 8 (rd_new R packet); (ssrc, r1) \<leftarrow> rd_u32 R r; Some ssrc }"

fun parse_extensions :: "'r be_reader \<Rightarrow> nat \<Rightarrow> 'r \<Rightarrow> u16 \<Rightarrow> ('r \<times> u16) option" where
  "parse_extensions R 0 r delay = Some (r, delay)"
| "parse_extensions R (Suc n) r delay = do {
     (type_and_size, r1) \<leftarrow> rd_u16 R r;
     (chunk, r2) \<leftarrow> rd_piece R (unat (type_and_size AND 0x3ff)) r1;
     delay1 \<leftarrow> (if drop_bit 10 type_and_size = ucast kCastRtpExtensionAdaptiveLatency
                then map_option fst (rd_u16 R (rd_new R chunk)) else Some delay);
     parse_extensions R n r2 delay1
   }"

text \<open>
  \<open>header\<close> is what the caller passed in; the result is the filled header, the payload and the
  parser, or \<open>None\<close> for the return value false, which leaves the parser as it was.
\<close>

definition ParsePacket ::
  "'r be_reader \<Rightarrow> u8 list \<Rightarrow> rtp_cast_header \<Rightarrow> rtp_parser \<Rightarrow> (rtp_cast_header \<times> u8 list \<times> rtp_parser) option" where
  "ParsePacket R packet header p =
     (if length packet < kRtpHeaderLength + kCastHeaderLength then None
      else do {
        (bits, r) \<leftarrow> rd_u8 R (rd_new R packet);
        if drop_bit 6 bits \<noteq> 2 then None else do {
        let csrcs = bits AND kRtpNumCsrcsMask;
        if bits AND kRtpExtensionBitMask \<noteq> 0 then None else do {
        (bits, r) \<leftarrow> rd_u8 R r;
        let marker = (bits AND kRtpMarkerBitMask \<noteq> 0);
        let pt = bits AND NOT kRtpMarkerBitMask;
        if pt \<noteq> rp_expected_payload_type p then None else do {
        (seq, r) \<leftarrow> rd_u16 R r;
        (truncated_rtp_timestamp, r) \<leftarrow> rd_u32 R r;
        (ssrc, r) \<leftarrow> rd_u32 R r;
        if ssrc \<noteq> rp_expected_sender_ssrc p then None else do {
        let ts = Expand (rp_last_parsed_rtp_timestamp p) truncated_rtp_timestamp;
        (bits, r) \<leftarrow> rd_u8 R r;
        let is_key = (bits AND kCastKeyFrameBitMask \<noteq> 0);
        let is_ref = (bits AND kCastReferenceFrameIdBitMask \<noteq> 0);
        (truncated_frame_id, r) \<leftarrow> rd_u8 R r;
        (pid, r) \<leftarrow> rd_u16 R r;
        (max_pid, r) \<leftarrow> rd_u16 R r;
        if max_pid < pid then None else do {
        (truncated_reference_frame_id, r) \<leftarrow>
          (if \<not> is_ref then Some (if \<not> is_key then truncated_frame_id - 1 else truncated_frame_id, r)
           else rd_u8 R r);
        let extensions = bits AND kCastExtensionCountmask;
        (r, delay) \<leftarrow> parse_extensions R (unat extensions) r (h_new_playout_delay_ms header);
        let f = Expand (fid (rp_last_parsed_frame_id p)) truncated_frame_id;
        Some (\<lparr>h_marker = marker, h_payload_type = pt, h_sequence_number = seq, h_rtp_timestamp = ts,
               h_sender_ssrc = ssrc, h_num_csrcs = csrcs, h_is_key_frame = is_key, h_is_reference = is_ref,
               h_frame_id = FrameId f, h_packet_id = pid, h_max_packet_id = max_pid,
               h_reference_frame_id = FrameId (Expand f truncated_reference_frame_id),
               h_new_playout_delay_ms = delay, h_num_extensions = extensions\<rparr>,
              rd_rest R r,
              p\<lparr>rp_last_parsed_rtp_timestamp := ts, rp_last_parsed_frame_id := FrameId f\<rparr>)
        }}}}}})"

section \<open>Expansion recovers truncated values\<close>

lemma upper_or_lower:
  fixes x :: "'a::len word"
  shows "((v :: int) AND NOT (2 ^ LENGTH('a) - 1)) OR uint x = v - v mod 2 ^ LENGTH('a) + uint x"
  by (rule splice_low_bits) simp_all

lemma ExpandLessThanOrEqual_recovers:
  fixes v y :: int
  assumes "y \<le> v" "v - 2 ^ LENGTH('a::len) < y"
  shows "ExpandLessThanOrEqual v (lower_bits y :: 'a word) = y"
proof -
  let ?m = "2 ^ LENGTH('a) :: int"
  have m: "0 < ?m" by simp
  have x: "uint (lower_bits y :: 'a word) = y mod ?m" by (simp add: lower_bits_def uint_word_of_int)
  let ?r = "v - v mod ?m + y mod ?m"
  have "?r = y \<or> ?r = y + ?m"
  proof -
    have vq: "v = ?m * (v div ?m) + v mod ?m" and yq: "y = ?m * (y div ?m) + y mod ?m" by simp_all
    have "0 \<le> v mod ?m" "v mod ?m < ?m" "0 \<le> y mod ?m" "y mod ?m < ?m" using m by simp_all
    have "y div ?m \<le> v div ?m" using assms(1) m by (rule zdiv_mono1)
    moreover have "v div ?m \<le> y div ?m + 1"
    proof -
      have "v \<le> y + 1 * ?m" using assms(2) by simp
      then have "v div ?m \<le> (y + 1 * ?m) div ?m" using m by (rule zdiv_mono1)
      moreover have "(y + ?m) div ?m = y div ?m + 1" by (rule div_add_self2) simp
      ultimately show ?thesis by simp
    qed
    ultimately have "v div ?m = y div ?m \<or> v div ?m = y div ?m + 1" by linarith
    then show ?thesis
    proof
      assume "v div ?m = y div ?m"
      then have "?m * (v div ?m) = ?m * (y div ?m)" by simp
      then show ?thesis using vq yq by linarith
    next
      assume "v div ?m = y div ?m + 1"
      then have "?m * (v div ?m) = ?m * (y div ?m) + ?m" by (simp add: distrib_left)
      then show ?thesis using vq yq by linarith
    qed
  qed
  then show ?thesis
    using assms unfolding ExpandLessThanOrEqual_def Let_def upper_or_lower unfolding x by auto
qed

lemma ExpandLessThanOrEqual_range:
  fixes x :: "'a::len word"
  shows "ExpandLessThanOrEqual v x \<le> v" "v - 2 ^ LENGTH('a) < ExpandLessThanOrEqual v x"
    "lower_bits (ExpandLessThanOrEqual v x) = x"
proof -
  let ?m = "2 ^ LENGTH('a) :: int"
  have m: "0 \<le> v mod ?m" "v mod ?m < ?m" "0 \<le> uint x" "uint x < ?m" by simp_all
  let ?r = "v - v mod ?m + uint x"
  have e: "ExpandLessThanOrEqual v x = (if v < ?r then ?r - ?m else ?r)"
    unfolding ExpandLessThanOrEqual_def Let_def upper_or_lower by auto
  show "ExpandLessThanOrEqual v x \<le> v" "v - ?m < ExpandLessThanOrEqual v x"
    using m unfolding e by (simp_all only: split: if_split) linarith+
  have "uint (lower_bits (ExpandLessThanOrEqual v x) :: 'a word) = uint x"
  proof -
    have "?r mod ?m = uint x" using m by (simp add: minus_mod_eq_mult_div mod_mult_self4)
    moreover have "(?r - ?m) mod ?m = ?r mod ?m" by simp
    ultimately show ?thesis unfolding e lower_bits_def by (simp add: uint_word_of_int)
  qed
  then show "lower_bits (ExpandLessThanOrEqual v x) = x" by (simp add: word_uint_eq_iff)
qed

lemma max_distance_eq:
  assumes "0 < w"
  shows "max_distance_for_expansion w = 2 ^ (w - 1) - 1" "2 ^ w = 2 * (2 ^ (w - 1) :: int)"
proof -
  show w: "2 ^ w = 2 * (2 ^ (w - 1) :: int)" using assms by (cases w) simp_all
  show "max_distance_for_expansion w = 2 ^ (w - 1) - 1"
    unfolding max_distance_for_expansion_def w by linarith
qed

lemma Expand_eq:
  assumes "- (2 ^ (LENGTH('a::len) - 1)) \<le> y - v" "y - v \<le> 2 ^ (LENGTH('a) - 1) - 1"
  shows "Expand v (lower_bits y :: 'a word) = y"
  unfolding Expand_def
  by (rule ExpandLessThanOrEqual_recovers)
     (use assms max_distance_eq [of "LENGTH('a)"] in \<open>simp_all add: max_distance_eq\<close>)

section \<open>Reading what was written\<close>

lemma reader_new: "be_reader_ok R \<Longrightarrow> rd_rest R (rd_new R bs) = bs"
  by (simp add: be_reader_ok_def)

lemma reader_laws:
  assumes "be_reader_ok R"
  shows "case rd_u8 R r of None \<Rightarrow> rd_rest R r = [] | Some (b, r') \<Rightarrow> rd_rest R r = b # rd_rest R r'"
    "case rd_u16 R r of None \<Rightarrow> length (rd_rest R r) < 2
       | Some (x, r') \<Rightarrow> \<exists>bs. length bs = 2 \<and> rd_rest R r = bs @ rd_rest R r' \<and> x = be_word bs"
    "case rd_u32 R r of None \<Rightarrow> length (rd_rest R r) < 4
       | Some (x, r') \<Rightarrow> \<exists>bs. length bs = 4 \<and> rd_rest R r = bs @ rd_rest R r' \<and> x = be_word bs"
    "case rd_piece R n r of None \<Rightarrow> length (rd_rest R r) < n
       | Some (bs, r') \<Rightarrow> length bs = n \<and> rd_rest R r = bs @ rd_rest R r'"
  using assms unfolding be_reader_ok_def by blast+

lemma reader_u8:
  assumes "be_reader_ok R" "rd_rest R r = b # bs"
  obtains r' where "rd_u8 R r = Some (b, r')" "rd_rest R r' = bs"
proof (cases "rd_u8 R r")
  case None
  then show ?thesis using reader_laws(1) [OF assms(1), of r] assms(2-) by simp
next
  case (Some q)
  obtain x r' where q: "q = (x, r')" by (cases q)
  have "x = b \<and> rd_rest R r' = bs"
    using reader_laws(1) [OF assms(1), of r] assms(2-) Some q by auto
  then show ?thesis using that Some q by simp
qed

lemma reader_u16:
  assumes "be_reader_ok R" "rd_rest R r = ws @ bs" "length ws = 2"
  obtains r' where "rd_u16 R r = Some (be_word ws, r')" "rd_rest R r' = bs"
proof (cases "rd_u16 R r")
  case None
  then show ?thesis using reader_laws(2) [OF assms(1), of r] assms(2-) by simp
next
  case (Some q)
  obtain x r' where q: "q = (x, r')" by (cases q)
  have "x = be_word ws \<and> rd_rest R r' = bs"
    using reader_laws(2) [OF assms(1), of r] assms(2-) Some q by auto
  then show ?thesis using that Some q by simp
qed

lemma reader_u32:
  assumes "be_reader_ok R" "rd_rest R r = ws @ bs" "length ws = 4"
  obtains r' where "rd_u32 R r = Some (be_word ws, r')" "rd_rest R r' = bs"
proof (cases "rd_u32 R r")
  case None
  then show ?thesis using reader_laws(3) [OF assms(1), of r] assms(2-) by simp
next
  case (Some q)
  obtain x r' where q: "q = (x, r')" by (cases q)
  have "x = be_word ws \<and> rd_rest R r' = bs"
    using reader_laws(3) [OF assms(1), of r] assms(2-) Some q by auto
  then show ?thesis using that Some q by simp
qed

lemma reader_piece:
  assumes "be_reader_ok R" "rd_rest R r = ws @ bs" "length ws = n"
  obtains r' where "rd_piece R n r = Some (ws, r')" "rd_rest R r' = bs"
proof (cases "rd_piece R n r")
  case None
  then show ?thesis using reader_laws(4) [OF assms(1), of r n] assms(2-) by simp
next
  case (Some q)
  obtain x r' where q: "q = (x, r')" by (cases q)
  have "length x = length ws" "x @ rd_rest R r' = ws @ bs"
    using reader_laws(4) [OF assms(1), of r n] Some q by (simp_all add: assms(2,3))
  then have "x = ws \<and> rd_rest R r' = bs" by simp
  then show ?thesis using that Some q by simp
qed

section \<open>A packet and its parse\<close>

text \<open>Packet \<open>pid\<close> of a frame, as the loop builds it.\<close>

definition frame_packet ::
  "be_writer \<Rightarrow> rtp_packetizer_config \<Rightarrow> encoded_frame \<Rightarrow> nat \<Rightarrow> bool \<Rightarrow> u16 \<Rightarrow> u16 \<Rightarrow> u8 list \<Rightarrow> u8 list" where
  "frame_packet W cfg frame num_packets last_one seq pid payload =
     [0x80, word_of_int (cfg_payload_type cfg) OR (if last_one then kRtpMarkerBitMask else 0)] @
     wr_u16 W seq @ wr_u32 W (lower_bits (ef_rtp_timestamp frame)) @ wr_u32 W (cfg_ssrc cfg) @
     cast_part W frame num_packets pid payload"

definition packet_header ::
  "rtp_packetizer_config \<Rightarrow> encoded_frame \<Rightarrow> nat \<Rightarrow> bool \<Rightarrow> u16 \<Rightarrow> u16 \<Rightarrow> rtp_cast_header" where
  "packet_header cfg frame num_packets last_one seq pid =
     (let ext = pid = 0 \<and> ef_new_playout_delay_ms frame \<noteq> 0
      in \<lparr>h_marker = last_one, h_payload_type = word_of_int (cfg_payload_type cfg),
          h_sequence_number = seq, h_rtp_timestamp = ef_rtp_timestamp frame, h_sender_ssrc = cfg_ssrc cfg,
          h_num_csrcs = 0, h_is_key_frame = (ef_dependency frame = KEY), h_is_reference = True,
          h_frame_id = ef_frame_id frame, h_packet_id = pid, h_max_packet_id = word_of_nat (num_packets - 1),
          h_reference_frame_id = ef_referenced_frame_id frame,
          h_new_playout_delay_ms = (if ext then ef_new_playout_delay_ms frame else 0),
          h_num_extensions = (if ext then 1 else 0)\<rparr>)"

text \<open>The receiver's last values are close enough to those of the frame.\<close>

definition in_range :: "rtp_parser \<Rightarrow> encoded_frame \<Rightarrow> bool" where
  "in_range p frame \<longleftrightarrow>
     - (2 ^ 31) \<le> ef_rtp_timestamp frame - rp_last_parsed_rtp_timestamp p \<and>
     ef_rtp_timestamp frame - rp_last_parsed_rtp_timestamp p < 2 ^ 31 \<and>
     - 128 \<le> fid (ef_frame_id frame) - fid (rp_last_parsed_frame_id p) \<and>
     fid (ef_frame_id frame) - fid (rp_last_parsed_frame_id p) < 128 \<and>
     - 128 \<le> fid (ef_referenced_frame_id frame) - fid (ef_frame_id frame) \<and>
     fid (ef_referenced_frame_id frame) - fid (ef_frame_id frame) < 128"

definition parser_for :: "rtp_parser \<Rightarrow> rtp_packetizer_config \<Rightarrow> bool" where
  "parser_for p cfg \<longleftrightarrow> rp_expected_sender_ssrc p = cfg_ssrc cfg \<and>
     rp_expected_payload_type p = word_of_int (cfg_payload_type cfg) \<and>
     0 \<le> cfg_payload_type cfg \<and> cfg_payload_type cfg < 128"

definition parser_after :: "encoded_frame \<Rightarrow> rtp_parser \<Rightarrow> rtp_parser" where
  "parser_after frame p =
     p\<lparr>rp_last_parsed_rtp_timestamp := ef_rtp_timestamp frame, rp_last_parsed_frame_id := ef_frame_id frame\<rparr>"

lemma payload_type_bits:
  assumes "0 \<le> t" "t < 128"
  shows "(word_of_int t OR (0x80 :: u8)) AND 0x80 \<noteq> 0" "(word_of_int t :: u8) AND 0x80 = 0"
    "(word_of_int t OR (0x80 :: u8)) AND NOT 0x80 = word_of_int t"
    "(word_of_int t :: u8) AND NOT 0x80 = word_of_int t"
proof -
  have "list_all (\<lambda>t. (word_of_int t OR (0x80 :: u8)) AND 0x80 \<noteq> 0 \<and> (word_of_int t :: u8) AND 0x80 = 0 \<and>
      (word_of_int t OR (0x80 :: u8)) AND NOT 0x80 = word_of_int t \<and>
      (word_of_int t :: u8) AND NOT 0x80 = word_of_int t) [0..127]"
    by code_simp
  with assms show "(word_of_int t OR (0x80 :: u8)) AND 0x80 \<noteq> 0" "(word_of_int t :: u8) AND 0x80 = 0"
    "(word_of_int t OR (0x80 :: u8)) AND NOT 0x80 = word_of_int t"
    "(word_of_int t :: u8) AND NOT 0x80 = word_of_int t"
    by (auto simp: list_all_iff)
qed

lemma be_word_u16_split: "be_word [ucast (drop_bit 8 x), ucast x] = (x :: u16)"
proof (rule bit_word_eqI)
  fix n assume "n < LENGTH(16)"
  then show "bit (be_word [ucast (drop_bit 8 x), ucast x] :: u16) n = bit x n"
    by (auto simp: be_word_def bit_or_iff bit_push_bit_iff bit_ucast_iff bit_drop_bit_eq)
qed

lemma header_byte_bits:
  fixes k r e :: u8
  assumes "k = 0 \<or> k = 0x80" "e = 0 \<or> e = 1"
  shows "(0x40 OR k OR e) AND 0x80 = k" "(0x40 OR k OR e) AND 0x40 \<noteq> 0" "(0x40 OR k OR e) AND 0x3f = e"
  using assms by auto

lemma ParsePacket_frame_packet:
  assumes R: "be_reader_ok R" and W: "be_writer_ok W" and p: "parser_for p cfg" "in_range p frame"
    and pid: "unat pid < num_packets" "num_packets \<le> 65536"
  shows "ParsePacket R (frame_packet W cfg frame num_packets last_one seq pid payload) RtpCastHeader_init p =
    Some (packet_header cfg frame num_packets last_one seq pid, payload, parser_after frame p)"
proof -
  define ext where "ext \<longleftrightarrow> pid = 0 \<and> ef_new_playout_delay_ms frame \<noteq> 0"
  define k :: u8 where "k = (if ef_dependency frame = KEY then 0x80 else 0)"
  define x :: u8 where "x = (if ext then 1 else 0)"
  define b1 :: u8 where "b1 = word_of_int (cfg_payload_type cfg) OR (if last_one then 0x80 else 0)"
  define e where "e = (if ext then [4, 2, ucast (drop_bit 8 (ef_new_playout_delay_ms frame)),
    ucast (ef_new_playout_delay_ms frame)] else ([] :: u8 list))"
  let ?f = "lower_bits (fid (ef_frame_id frame)) :: u8"
  let ?g = "lower_bits (fid (ef_referenced_frame_id frame)) :: u8"
  let ?n = "word_of_nat (num_packets - 1) :: u16"
  let ?packet = "frame_packet W cfg frame num_packets last_one seq pid payload"
  have w16: "length (wr_u16 W y) = 2" "be_word (wr_u16 W y) = y" for y
    using W by (simp_all add: be_writer_ok_def)
  have w32: "length (wr_u32 W y) = 4" "be_word (wr_u32 W y) = y" for y
    using W by (simp_all add: be_writer_ok_def)
  have packet: "?packet = 0x80 # b1 # wr_u16 W seq @ wr_u32 W (lower_bits (ef_rtp_timestamp frame)) @
    wr_u32 W (cfg_ssrc cfg) @ (0x40 OR k OR x) # ?f # wr_u16 W pid @ wr_u16 W ?n @ ?g # e @ payload"
    by (simp add: frame_packet_def cast_part_def rtp_constants b1_def k_def x_def e_def ext_def Let_def)
  have len: "kRtpHeaderLength + kCastHeaderLength \<le> length ?packet"
    unfolding packet using w16 w32 by (simp add: rtp_constants)
  obtain r1 where r1: "rd_u8 R (rd_new R ?packet) = Some (0x80, r1)" "rd_rest R r1 = b1 # wr_u16 W seq @
      wr_u32 W (lower_bits (ef_rtp_timestamp frame)) @ wr_u32 W (cfg_ssrc cfg) @ (0x40 OR k OR x) # ?f #
      wr_u16 W pid @ wr_u16 W ?n @ ?g # e @ payload"
    using reader_u8 [OF R trans [OF reader_new [OF R] packet]] .
  obtain r2 where r2: "rd_u8 R r1 = Some (b1, r2)" "rd_rest R r2 = wr_u16 W seq @
      wr_u32 W (lower_bits (ef_rtp_timestamp frame)) @ wr_u32 W (cfg_ssrc cfg) @ (0x40 OR k OR x) # ?f #
      wr_u16 W pid @ wr_u16 W ?n @ ?g # e @ payload"
    using reader_u8 [OF R r1(2)] .
  obtain r3 where r3: "rd_u16 R r2 = Some (be_word (wr_u16 W seq), r3)" "rd_rest R r3 =
      wr_u32 W (lower_bits (ef_rtp_timestamp frame)) @ wr_u32 W (cfg_ssrc cfg) @ (0x40 OR k OR x) # ?f #
      wr_u16 W pid @ wr_u16 W ?n @ ?g # e @ payload"
    using reader_u16 [OF R r2(2) w16(1)] .
  obtain r4 where r4: "rd_u32 R r3 = Some (be_word (wr_u32 W (lower_bits (ef_rtp_timestamp frame))), r4)"
      "rd_rest R r4 = wr_u32 W (cfg_ssrc cfg) @ (0x40 OR k OR x) # ?f #
      wr_u16 W pid @ wr_u16 W ?n @ ?g # e @ payload"
    using reader_u32 [OF R r3(2) w32(1)] .
  obtain r5 where r5: "rd_u32 R r4 = Some (be_word (wr_u32 W (cfg_ssrc cfg)), r5)"
      "rd_rest R r5 = (0x40 OR k OR x) # ?f # wr_u16 W pid @ wr_u16 W ?n @ ?g # e @ payload"
    using reader_u32 [OF R r4(2) w32(1)] .
  obtain r6 where r6: "rd_u8 R r5 = Some (0x40 OR k OR x, r6)"
      "rd_rest R r6 = ?f # wr_u16 W pid @ wr_u16 W ?n @ ?g # e @ payload"
    using reader_u8 [OF R r5(2)] .
  obtain r7 where r7: "rd_u8 R r6 = Some (?f, r7)"
      "rd_rest R r7 = wr_u16 W pid @ wr_u16 W ?n @ ?g # e @ payload"
    using reader_u8 [OF R r6(2)] .
  obtain r8 where r8: "rd_u16 R r7 = Some (be_word (wr_u16 W pid), r8)"
      "rd_rest R r8 = wr_u16 W ?n @ ?g # e @ payload"
    using reader_u16 [OF R r7(2) w16(1)] .
  obtain r9 where r9: "rd_u16 R r8 = Some (be_word (wr_u16 W ?n), r9)" "rd_rest R r9 = ?g # e @ payload"
    using reader_u16 [OF R r8(2) w16(1)] .
  obtain ra where ra: "rd_u8 R r9 = Some (?g, ra)" "rd_rest R ra = e @ payload"
    using reader_u8 [OF R r9(2)] .
  have ext: "\<exists>rb. parse_extensions R (unat x) ra 0 =
      Some (rb, if ext then ef_new_playout_delay_ms frame else 0) \<and> rd_rest R rb = payload"
  proof (cases ext)
    case False
    then show ?thesis using ra by (simp add: x_def e_def)
  next
    case True
    let ?d = "ef_new_playout_delay_ms frame"
    let ?c = "[ucast (drop_bit 8 ?d), ucast ?d] :: u8 list"
    have rest: "rd_rest R ra = [4, 2] @ ?c @ payload" using ra True by (simp add: e_def)
    obtain s1 where s1: "rd_u16 R ra = Some (be_word [4, 2], s1)" "rd_rest R s1 = ?c @ payload"
      using reader_u16 [OF R rest] by auto
    have "length ?c = 2" by simp
    then obtain s2 where s2: "rd_piece R 2 s1 = Some (?c, s2)" "rd_rest R s2 = payload"
      using reader_piece [OF R s1(2)] by blast
    obtain s3 where s3: "rd_u16 R (rd_new R ?c) = Some (be_word ?c, s3)"
      using reader_u16 [OF R, of "rd_new R ?c" ?c "[]"] reader_new [OF R] by auto
    have "be_word [4, 2] = (0x402 :: u16)" by (simp add: be_word_def)
    then show ?thesis
      using True s1 s2 s3 be_word_u16_split [of ?d] by (simp add: x_def rtp_constants)
  qed
  then obtain rb where rb: "parse_extensions R (unat x) ra 0 =
      Some (rb, if ext then ef_new_playout_delay_ms frame else 0)" "rd_rest R rb = payload" by blast
  have kx: "k = 0 \<or> k = 0x80" "x = 0 \<or> x = 1" by (simp_all add: k_def x_def)
  note hb = header_byte_bits [OF kx]
  have "unat ?n = num_packets - 1"
    using pid by (simp add: unat_of_nat take_bit_nat_eq_self del: of_nat_diff)
  then have pidle: "\<not> ?n < pid" using pid by (simp add: word_less_nat_alt del: of_nat_diff)
  have ts: "Expand (rp_last_parsed_rtp_timestamp p) (lower_bits (ef_rtp_timestamp frame) :: u32) = ef_rtp_timestamp frame"
    "Expand (fid (rp_last_parsed_frame_id p)) ?f = fid (ef_frame_id frame)"
    "Expand (fid (ef_frame_id frame)) ?g = fid (ef_referenced_frame_id frame)"
    using p(2) by (auto simp: in_range_def intro!: Expand_eq)
  have pt: "b1 AND NOT 0x80 = word_of_int (cfg_payload_type cfg)" "(b1 AND 0x80 \<noteq> 0) = last_one"
    using payload_type_bits [of "cfg_payload_type cfg"] p(1) by (auto simp: b1_def parser_for_def)
  have kk: "(k \<noteq> 0) = (ef_dependency frame = KEY)" "ext \<Longrightarrow> x = 1" "\<not> ext \<Longrightarrow> x = 0"
    by (simp_all add: k_def x_def)
  have ph: "packet_header cfg frame num_packets last_one seq pid =
    \<lparr>h_marker = last_one, h_payload_type = word_of_int (cfg_payload_type cfg),
     h_sequence_number = seq, h_rtp_timestamp = ef_rtp_timestamp frame, h_sender_ssrc = cfg_ssrc cfg,
     h_num_csrcs = 0, h_is_key_frame = (ef_dependency frame = KEY), h_is_reference = True,
     h_frame_id = ef_frame_id frame, h_packet_id = pid, h_max_packet_id = ?n,
     h_reference_frame_id = ef_referenced_frame_id frame,
     h_new_playout_delay_ms = (if ext then ef_new_playout_delay_ms frame else 0),
     h_num_extensions = x\<rparr>"
    by (simp add: packet_header_def x_def Let_def flip: ext_def)
  show ?thesis
    using len p(1) pidle unfolding ph
    by (simp add: kk pt(1) [simplified] ParsePacket_def r1 r2 r3 r4 r5 r6 r7 r8 r9 ra w16 w32 rtp_constants pt hb rb ts
        RtpCastHeader_init_def parser_for_def Let_def parser_after_def del: of_nat_diff)
qed

section \<open>The packets of a frame\<close>

definition packet_count :: "nat \<Rightarrow> nat \<Rightarrow> nat" where
  "packet_count pl len = (len + pl - 1) div pl"

lemma less_packet_count: "0 < pl \<Longrightarrow> i < packet_count pl len \<longleftrightarrow> i * pl < len"
proof -
  assume pl: "0 < pl"
  have "i < packet_count pl len \<longleftrightarrow> Suc i * pl \<le> len + pl - 1"
    using pl by (simp add: packet_count_def less_eq_div_iff_mult_less_eq Suc_le_eq [symmetric] del: mult_Suc)
  then show ?thesis using pl by auto
qed

definition nth_packet ::
  "be_writer \<Rightarrow> rtp_packetizer_config \<Rightarrow> encoded_frame \<Rightarrow> nat \<Rightarrow> nat \<Rightarrow> u16 \<Rightarrow> nat \<Rightarrow> packet_key \<times> u8 list" where
  "nth_packet W cfg frame num_packets pl seq i =
     (\<lparr>pk_capture_time = ef_reference_time frame, pk_ssrc = cfg_ssrc cfg, pk_frame_id = ef_frame_id frame,
       pk_packet_id = word_of_nat i\<rparr>,
      frame_packet W cfg frame num_packets (length (ef_data frame) \<le> Suc i * pl) (seq + word_of_nat i)
        (word_of_nat i) (mem_slice (i * pl) pl (ef_data frame)))"

definition advance :: "nat \<Rightarrow> nat \<Rightarrow> nat \<Rightarrow> rtp_packetizer \<Rightarrow> rtp_packetizer" where
  "advance len pl i p = p\<lparr>pz_sequence_number := pz_sequence_number p + word_of_nat i,
     pz_send_packet_count := pz_send_packet_count p + i,
     pz_send_octet_count := pz_send_octet_count p + min (i * pl) len\<rparr>"

lemma packetize_loop_eq:
  assumes dep: "ef_dependency frame \<noteq> UNKNOWN_DEPENDENCY" and pl: "0 < pl"
    and k: "k = packet_count pl (length (ef_data frame))" and i: "i \<le> k" "i < k \<Longrightarrow> plen = pl"
  shows "packetize_loop W frame N plen (drop (i * pl) (ef_data frame))
      (map (nth_packet W (pz_config p) frame N pl (pz_sequence_number p)) [0..<i])
      (advance (length (ef_data frame)) pl i p) =
    Some (map (nth_packet W (pz_config p) frame N pl (pz_sequence_number p)) [0..<k],
      advance (length (ef_data frame)) pl k p)"
  using i
proof (induction "k - i" arbitrary: i plen)
  case 0
  then have "i = k" by simp
  then have "\<not> i * pl < length (ef_data frame)" using less_packet_count [OF pl, of i "length (ef_data frame)"] k by simp
  then have "drop (i * pl) (ef_data frame) = []" by simp
  then show ?case using \<open>i = k\<close> by (simp add: packetize_loop.simps)
next
  case (Suc d)
  let ?D = "ef_data frame" and ?pk = "nth_packet W (pz_config p) frame N pl (pz_sequence_number p)"
  have lt: "i < k" "d = k - Suc i" using Suc.hyps(2) by auto
  then have ilen: "i * pl < length ?D" and plen: "plen = pl"
    using less_packet_count [OF pl, of i] k Suc.prems by auto
  let ?n = "min (length ?D - i * pl) pl"
  have rest: "drop ?n (drop (i * pl) ?D) = drop (Suc i * pl) ?D"
    by (cases "length ?D - i * pl \<le> pl") (auto simp: min_def add.commute)
  have tk: "take ?n (drop (i * pl) ?D) = mem_slice (i * pl) pl ?D"
    by (simp add: mem_slice_def min_def)
  have emp: "drop (Suc i * pl) ?D = [] \<longleftrightarrow> length ?D \<le> Suc i * pl" by simp
  have mi: "min (i * pl) (length ?D) + ?n = min (Suc i * pl) (length ?D)" using ilen by auto
  have IH: "packetize_loop W frame N ?n (drop (Suc i * pl) ?D) (map ?pk [0..<Suc i])
      (advance (length ?D) pl (Suc i) p) = Some (map ?pk [0..<k], advance (length ?D) pl k p)"
  proof (rule Suc.hyps(1) [OF lt(2)])
    show "Suc i \<le> k" using lt by simp
    show "?n = pl" if "Suc i < k"
      using that less_packet_count [OF pl, of "Suc i"] k by auto
  qed
  have step: "packetize_loop W frame N plen (drop (i * pl) ?D) (map ?pk [0..<i]) (advance (length ?D) pl i p) =
      packetize_loop W frame N ?n (drop (Suc i * pl) ?D) (map ?pk [0..<Suc i]) (advance (length ?D) pl (Suc i) p)"
  proof -
    have "\<not> drop (i * pl) ?D = []" using ilen by simp
    moreover have "drop (pl + i * pl) ?D = [] \<longleftrightarrow> length ?D \<le> pl + i * pl" by simp
    ultimately show ?thesis
      using dep unfolding plen
      by (subst packetize_loop.simps)
        (simp add: Let_def BuildCommonRTPheader_def advance_def nth_packet_def frame_packet_def
          rest [simplified] tk mi [simplified], auto simp: ac_simps)
  qed
  then show ?case using IH by simp
qed

subsection \<open>Even splitting\<close>

definition num_packets_of :: "nat \<Rightarrow> nat \<Rightarrow> nat" where
  "num_packets_of m len = (len + m) div m"

definition payload_length_of :: "nat \<Rightarrow> nat \<Rightarrow> nat" where
  "payload_length_of m len = (len + num_packets_of m len) div num_packets_of m len"

lemma split_eq:
  assumes "0 < m"
  shows "num_packets_of m len = len div m + 1" "payload_length_of m len = len div num_packets_of m len + 1"
proof -
  show n: "num_packets_of m len = len div m + 1" using assms by (simp add: num_packets_of_def div_add_self2)
  then have "0 < num_packets_of m len" by simp
  then show "payload_length_of m len = len div num_packets_of m len + 1" by (simp add: payload_length_of_def div_add_self2)
qed

lemma payload_length_le: "0 < m \<Longrightarrow> payload_length_of m len \<le> m"
proof -
  assume m: "0 < m"
  have "len < num_packets_of m len * m"
    using m by (simp add: split_eq mult.commute dividend_less_times_div)
  then have "len div num_packets_of m len < m" using m by (simp add: less_mult_imp_div_less mult.commute)
  then show ?thesis using m by (simp add: split_eq)
qed

text \<open>Below \<open>m * (m - 1)\<close> bytes the split gives as many packets as announced.\<close>

lemma split_count:
  assumes "0 < len" "len < m * (m - 1)"
  shows "packet_count (payload_length_of m len) len = num_packets_of m len"
proof -
  define N where "N = num_packets_of m len"
  define q where "q = len div N"
  have m: "2 \<le> m" using assms by (cases m; cases "m - 1") auto
  have N: "N = len div m + 1" using m by (simp add: N_def split_eq)
  have pl: "payload_length_of m len = q + 1" using m by (simp add: split_eq q_def N_def)
  have am: "(N - 1) * m \<le> len" using N by simp
  have "len div m < m - 1"
    using assms(2) by (simp add: less_mult_imp_div_less mult.commute)
  then have Nm: "N \<le> m - 1" using N by simp
  have "(N - 1) * (q + 1) < len"
  proof (cases "N = 1")
    case True
    then show ?thesis using assms(1) by simp
  next
    case False
    have "(N - 1) * (N + 1) \<le> (N - 1) * m" using Nm m by (intro mult_le_mono2) simp
    then have sq: "(N - 1) * (N + 1) \<le> len" using am by simp
    have len: "len = q * N + len mod N" by (simp add: q_def)
    have modN: "len mod N < N" using N by simp
    show ?thesis
    proof (cases "N \<le> q")
      case True
      then have "(N - 1) * (q + 1) < q * N"
        using N by (cases N) (auto simp: algebra_simps)
      then show ?thesis using len by simp
    next
      case False
      obtain n where n: "N = Suc n" "0 < n" using \<open>N \<noteq> 1\<close> N by (cases N) auto
      have "n * (n + 2) \<le> q * (n + 1) + len mod N" using sq len n by simp
      moreover have "q \<le> n" using False n by simp
      moreover have "len mod N \<le> n" using modN n by simp
      ultimately have "n * (n + 2) \<le> q * (n + 1) + n" by linarith
      then have "n * (n + 1) \<le> q * (n + 1)" by simp
      then have "n \<le> q" by (simp only: mult_le_cancel2)
      then have "q = n" using \<open>q \<le> n\<close> by simp
      then have "n * (n + 2) \<le> n * (n + 1) + len mod N" using \<open>n * (n + 2) \<le> q * (n + 1) + len mod N\<close> by simp
      then have "n \<le> len mod N" by simp
      then show ?thesis using len n \<open>q = n\<close> by simp
    qed
  qed
  moreover have "len \<le> N * (q + 1)"
  proof -
    have "0 < N" using N by simp
    then have "len < N * (len div N + 1)" using dividend_less_times_div [of N len] by simp
    then show ?thesis by (simp add: q_def)
  qed
  ultimately have "N - 1 < packet_count (q + 1) len" "\<not> N < packet_count (q + 1) len"
    using less_packet_count [of "q + 1"] by simp_all
  then show ?thesis using pl N by (simp add: N_def)
qed

definition max_length_of :: "rtp_packetizer \<Rightarrow> nat" where
  "max_length_of p = unat (cfg_max_payload_length (pz_config p) - 20)"

definition can_store :: "frame_id \<Rightarrow> packet_storage \<Rightarrow> bool" where
  "can_store f s \<longleftrightarrow> ps_frames s = [] \<or>
     \<not> FrameId_is_null (ps_first_frame_id_in_list s) \<and>
     FrameId_plus (ps_first_frame_id_in_list s) (int (length (ps_frames s))) = f \<and>
     length (ps_frames s) < kMaxUnackedFrames"

lemma SendFrameAsPackets_eq:
  assumes "ef_dependency frame \<noteq> UNKNOWN_DEPENDENCY" "0 < max_length_of p"
  shows "SendFrameAsPackets W frame p =
    (let m = max_length_of p; len = length (ef_data frame); N = num_packets_of m len;
         pl = payload_length_of m len; k = packet_count pl len;
         packets = map (nth_packet W (pz_config p) frame N pl (pz_sequence_number p)) [0..<k];
         p1 = advance len pl k p
     in if N \<noteq> k then None
        else map_option (\<lambda>st. (packets, p1\<lparr>pz_packet_storage := st\<rparr>))
               (StoreFrame (ef_frame_id frame) packets (pz_packet_storage p)))"
proof -
  define m where "m = max_length_of p"
  define len where "len = length (ef_data frame)"
  define N where "N = num_packets_of m len"
  define pl where "pl = payload_length_of m len"
  have m: "unat (cfg_max_payload_length (pz_config p) - word_of_nat (kRtpHeaderLength + kCastHeaderLength) - 1) = m"
    by (simp add: m_def max_length_of_def rtp_constants)
  have pl0: "0 < pl" using assms(2) by (simp add: pl_def m_def split_eq)
  have "advance len pl 0 p = p" by (simp add: advance_def)
  then have loop: "packetize_loop W frame N pl (ef_data frame) [] p =
    Some (map (nth_packet W (pz_config p) frame N pl (pz_sequence_number p)) [0..<packet_count pl len],
      advance len pl (packet_count pl len) p)"
    using packetize_loop_eq [OF assms(1) pl0, of "packet_count pl len" 0 pl W N p] by (simp add: len_def)
  have "(len + m) div m = N" "(len + N) div N = pl" "pl \<le> m"
    using payload_length_le [of m len] assms(2) by (simp_all add: N_def pl_def num_packets_of_def payload_length_of_def m_def)
  then show ?thesis
    using assms(2)
    unfolding SendFrameAsPackets_def Let_def m
    by (simp add: loop advance_def map_conv_bind_option comp_def flip: m_def len_def N_def pl_def)
qed

section \<open>PacketStorage as a map\<close>

text \<open>
  Frame IDs count from 0; the bound keeps their distances within 64 bits. The map that a storage
  stands for, and the condition on its state.
\<close>

definition id_ok :: "frame_id \<Rightarrow> bool" where
  "id_ok f \<longleftrightarrow> - (2 ^ 62) < fid f \<and> fid f < 2 ^ 62"

definition index_in :: "frame_id \<Rightarrow> packet_storage \<Rightarrow> nat option" where
  "index_in f s =
     (let off = fid f - fid (ps_first_frame_id_in_list s)
      in if off < 0 \<or> off \<ge> int (length (ps_frames s)) \<or> ps_frames s ! nat off = [] then None
         else Some (nat off))"

definition stored :: "packet_storage \<Rightarrow> frame_id \<rightharpoonup> (packet_key \<times> u8 list) list" where
  "stored s f = map_option (\<lambda>i. ps_frames s ! i) (index_in f s)"

definition storage_ok :: "packet_storage \<Rightarrow> bool" where
  "storage_ok s \<longleftrightarrow> ps_zombie_count s = count_list (ps_frames s) [] \<and>
     (ps_frames s \<noteq> [] \<longrightarrow> hd (ps_frames s) \<noteq> []) \<and>
     (ps_frames s = [] \<and> FrameId_is_null (ps_first_frame_id_in_list s) \<or>
      - (2 ^ 62) < fid (ps_first_frame_id_in_list s) \<and>
      fid (ps_first_frame_id_in_list s) + int (length (ps_frames s)) \<le> 2 ^ 62)"

lemma not_null: "- (2 ^ 62) < fid f \<Longrightarrow> \<not> FrameId_is_null f"
  by (auto simp: FrameId_is_null_def FrameId_null_def)

lemma stored_index_eq:
  assumes "storage_ok s" "id_ok f"
  shows "stored_index f s = Some (index_in f s)"
proof (cases "FrameId_is_null (ps_first_frame_id_in_list s)")
  case True
  then have "ps_frames s = []" using assms(1) not_null by (auto simp: storage_ok_def)
  then show ?thesis using True by (auto simp: stored_index_def index_in_def Let_def)
next
  case False
  then have "FrameId_distance f (ps_first_frame_id_in_list s) = Some (fid f - fid (ps_first_frame_id_in_list s))"
    using assms not_null [of f] by (auto simp: FrameId_distance_def storage_ok_def id_ok_def)
  then show ?thesis using False by (simp add: stored_index_def index_in_def Let_def)
qed

lemma GetFramePackets_eq: "storage_ok s \<Longrightarrow> id_ok f \<Longrightarrow> GetFramePackets f s = Some (stored s f)"
  by (simp add: GetFramePackets_def stored_index_eq stored_def)

lemma pop_zombies_ok:
  assumes "pop_zombies fs z first = r" "z = count_list fs []" "- (2 ^ 62) < fid first"
  shows "\<exists>n. r = Some (drop n fs, count_list (drop n fs) [], FrameId_plus first (int n)) \<and>
    n \<le> length fs \<and> (\<forall>i<n. fs ! i = []) \<and> (drop n fs \<noteq> [] \<longrightarrow> hd (drop n fs) \<noteq> [])"
  using assms
proof (induction fs z first arbitrary: r rule: pop_zombies.induct)
  case (1 fs z first)
  have "- (2 ^ 62) < fid (FrameId_plus first 1)" using "1.prems"(3) by (simp add: FrameId_plus_def)
  then obtain n where n: "pop_zombies fs (z - 1) (FrameId_plus first 1) =
      Some (drop n fs, count_list (drop n fs) [], FrameId_plus (FrameId_plus first 1) (int n))"
    "n \<le> length fs" "\<forall>i<n. fs ! i = []" "drop n fs \<noteq> [] \<longrightarrow> hd (drop n fs) \<noteq> []"
    using 1 not_null [of first] by (auto simp: neq0_conv [symmetric] simp del: neq0_conv)
  then show ?case
    using 1(2-4) not_null [of first] by (intro exI [of _ "Suc n"]) (auto simp: FrameId_plus_def nth_Cons' algebra_simps)
qed (intro exI [of _ 0], simp add: FrameId_plus_def)+

lemma count_list_update_Nil:
  "i < length fs \<Longrightarrow> fs ! i \<noteq> [] \<Longrightarrow> count_list (fs[i := []]) [] = count_list fs [] + 1"
proof (induction fs arbitrary: i)
  case (Cons f fs)
  then show ?case by (cases i) auto
qed simp

lemma index_in_Some:
  "index_in f s = Some i \<longleftrightarrow>
     i < length (ps_frames s) \<and> ps_frames s ! i \<noteq> [] \<and> fid f = fid (ps_first_frame_id_in_list s) + int i"
  by (auto simp: index_in_def Let_def)

lemma stored_Some:
  "stored s f = Some ps \<longleftrightarrow> ps \<noteq> [] \<and>
     (\<exists>i<length (ps_frames s). ps_frames s ! i = ps \<and> fid f = fid (ps_first_frame_id_in_list s) + int i)"
  by (auto simp: stored_def index_in_Some)

lemma map_eqI: "(\<And>g y. m g = Some y \<longleftrightarrow> m' g = Some y) \<Longrightarrow> m = m'"
  by (rule ext) (metis not_Some_eq)

lemma ex_index_snoc:
  "(\<exists>i<length (F @ [p]). (F @ [p]) ! i = y \<and> x = a + int i) \<longleftrightarrow>
   (\<exists>i<length F. F ! i = y \<and> x = a + int i) \<or> p = y \<and> x = a + int (length F)"
proof -
  have "(\<exists>i<length (F @ [p]). (F @ [p]) ! i = y \<and> x = a + int i) \<longleftrightarrow>
    (\<exists>i<length F. (F @ [p]) ! i = y \<and> x = a + int i) \<or> p = y \<and> x = a + int (length F)"
    by (simp add: less_Suc_eq) (metis nth_append_length)
  then show ?thesis by (metis nth_append)
qed

lemma ex_index_drop:
  "(\<exists>j<length F - n. F ! (n + j) = y \<and> x = a + int n + int j) \<longleftrightarrow>
   (\<exists>j. n \<le> j \<and> j < length F \<and> F ! j = y \<and> x = a + int j)"
proof
  assume "\<exists>j<length F - n. F ! (n + j) = y \<and> x = a + int n + int j"
  then obtain j where "j < length F - n" "F ! (n + j) = y" "x = a + int n + int j" by blast
  then show "\<exists>j. n \<le> j \<and> j < length F \<and> F ! j = y \<and> x = a + int j"
    by (intro exI [of _ "n + j"]) simp
next
  assume "\<exists>j. n \<le> j \<and> j < length F \<and> F ! j = y \<and> x = a + int j"
  then obtain j where "n \<le> j" "j < length F" "F ! j = y" "x = a + int j" by blast
  then show "\<exists>j<length F - n. F ! (n + j) = y \<and> x = a + int n + int j"
    by (intro exI [of _ "j - n"]) simp
qed

lemma StoreFrame_map:
  assumes ok: "storage_ok s" and ps: "packets \<noteq> []" "can_store f s" "id_ok f"
  shows "\<exists>s'. StoreFrame f packets s = Some s' \<and> storage_ok s' \<and> stored s' = (stored s)(f \<mapsto> packets) \<and>
    fid f = fid (ps_first_frame_id_in_list s') + int (length (ps_frames s')) - 1"
proof (cases "ps_frames s = []")
  case True
  let ?s = "s\<lparr>ps_first_frame_id_in_list := f, ps_frames := [packets]\<rparr>"
  have "StoreFrame f packets s = Some ?s" using True ps by (simp add: StoreFrame_def)
  moreover have "storage_ok ?s" using ok True ps by (simp add: storage_ok_def id_ok_def)
  moreover have "stored ?s = (stored s)(f \<mapsto> packets)"
    using True ps by (intro map_eqI) (auto simp: stored_Some frame_id.expand)
  ultimately show ?thesis by (intro exI [of _ ?s]) simp
next
  case False
  let ?s = "s\<lparr>ps_frames := ps_frames s @ [packets]\<rparr>"
  have first: "fid f = fid (ps_first_frame_id_in_list s) + int (length (ps_frames s))"
    using False ps(2) by (auto simp: can_store_def FrameId_plus_def)
  have "StoreFrame f packets s = Some ?s"
    using False ps by (auto simp: StoreFrame_def can_store_def)
  moreover have "storage_ok ?s" using ok False ps first by (auto simp: storage_ok_def id_ok_def)
  moreover have "stored ?s = (stored s)(f \<mapsto> packets)"
  proof (rule map_eqI)
    fix g y
    have "stored ?s g = Some y \<longleftrightarrow> y \<noteq> [] \<and>
        ((\<exists>i<length (ps_frames s). ps_frames s ! i = y \<and> fid g = fid (ps_first_frame_id_in_list s) + int i) \<or>
         packets = y \<and> fid g = fid f)"
      using ex_index_snoc [of "ps_frames s" packets y "fid g" "fid (ps_first_frame_id_in_list s)"]
      unfolding stored_Some first by auto
    also have "\<dots> \<longleftrightarrow> (if g = f then y = packets else stored s g = Some y)"
    proof (cases "g = f")
      case True
      then have "\<not> (\<exists>i<length (ps_frames s). ps_frames s ! i = y \<and>
          fid g = fid (ps_first_frame_id_in_list s) + int i)" using first by auto
      then show ?thesis using True ps(1) by auto
    next
      case False
      then have "fid g \<noteq> fid f" using frame_id.expand by blast
      then show ?thesis using False unfolding stored_Some by simp
    qed
    finally show "stored ?s g = Some y \<longleftrightarrow> ((stored s)(f \<mapsto> packets)) g = Some y" by auto
  qed
  ultimately show ?thesis using first by (intro exI [of _ ?s]) simp
qed

lemma ReleaseFrame_map:
  assumes ok: "storage_ok s" and f: "id_ok f"
  shows "\<exists>s'. PacketStorage_ReleaseFrame f s = Some s' \<and> storage_ok s' \<and> stored s' = (stored s)(f := None) \<and>
    fid (ps_first_frame_id_in_list s') + int (length (ps_frames s')) =
      fid (ps_first_frame_id_in_list s) + int (length (ps_frames s))"
proof (cases "index_in f s")
  case None
  then have "stored s = (stored s)(f := None)"
    by (intro map_eqI) (auto simp: stored_def)
  then show ?thesis using None ok by (simp add: PacketStorage_ReleaseFrame_def stored_index_eq [OF ok f])
next
  case (Some i)
  let ?first = "ps_first_frame_id_in_list s"
  let ?fs = "(ps_frames s)[i := []]"
  have i: "i < length (ps_frames s)" "ps_frames s ! i \<noteq> []" "fid f = fid ?first + int i"
    using Some by (simp_all add: index_in_Some)
  have low: "- (2 ^ 62) < fid ?first" "fid ?first + int (length (ps_frames s)) \<le> 2 ^ 62" using ok i by (auto simp: storage_ok_def)
  have z: "ps_zombie_count s + 1 = count_list ?fs []"
    using ok i by (simp add: storage_ok_def count_list_update_Nil)
  obtain n where n: "pop_zombies ?fs (ps_zombie_count s + 1) ?first =
      Some (drop n ?fs, count_list (drop n ?fs) [], FrameId_plus ?first (int n))"
    "n \<le> length ?fs" "\<forall>j<n. ?fs ! j = []" "drop n ?fs \<noteq> [] \<longrightarrow> hd (drop n ?fs) \<noteq> []"
    using pop_zombies_ok [OF refl z low(1)] by blast
  define s' where "s' = s\<lparr>ps_frames := drop n ?fs, ps_zombie_count := count_list (drop n ?fs) [],
    ps_first_frame_id_in_list := FrameId_plus ?first (int n)\<rparr>"
  have "PacketStorage_ReleaseFrame f s = Some s'"
    using Some n(1) by (simp add: PacketStorage_ReleaseFrame_def stored_index_eq [OF ok f] s'_def)
  moreover have "storage_ok s'" using n(2,4) low by (auto simp: storage_ok_def s'_def FrameId_plus_def)
  moreover have "stored s' = (stored s)(f := None)"
  proof (rule map_eqI)
    fix g y
    have frames: "stored s' g = Some y \<longleftrightarrow> y \<noteq> [] \<and>
        (\<exists>j. n \<le> j \<and> j < length ?fs \<and> ?fs ! j = y \<and> fid g = fid ?first + int j)"
      using ex_index_drop [of ?fs n y "fid g" "fid ?first"] n(2)
      by (simp add: nth_drop stored_Some s'_def FrameId_plus_def)
    also have "\<dots> \<longleftrightarrow> y \<noteq> [] \<and> (\<exists>j<length ?fs. ?fs ! j = y \<and> fid g = fid ?first + int j)"
      using n(3) by (metis not_le_imp_less)
    also have "\<dots> \<longleftrightarrow> ((stored s)(f := None)) g = Some y"
    proof (cases "g = f")
      case True
      then have "j = i" if "fid g = fid ?first + int j" for j using that i(3) by simp
      then show ?thesis using True i(1) by auto
    next
      case False
      then have "fid g \<noteq> fid f" using frame_id.expand by blast
      then have "j \<noteq> i" if "fid g = fid ?first + int j" for j using that i(3) by auto
      then have "(\<exists>j<length ?fs. ?fs ! j = y \<and> fid g = fid ?first + int j) \<longleftrightarrow>
          (\<exists>j<length (ps_frames s). ps_frames s ! j = y \<and> fid g = fid ?first + int j)"
        by (metis length_list_update nth_list_update_neq)
      then show ?thesis using False stored_Some [of s g y] by auto
    qed
    finally show "stored s' g = Some y \<longleftrightarrow> ((stored s)(f := None)) g = Some y" .
  qed
  ultimately show ?thesis using n(2) by (intro exI [of _ s']) (simp add: s'_def FrameId_plus_def)
qed

lemma GetNumberOfStoredFrames_eq:
  assumes "storage_ok s"
  shows "GetNumberOfStoredFrames s = length (filter (\<lambda>ps. ps \<noteq> []) (ps_frames s))"
proof -
  have "length fs - count_list fs [] = length (filter (\<lambda>ps. ps \<noteq> []) fs) \<and> count_list fs [] \<le> length fs"
    for fs :: "(packet_key \<times> u8 list) list list"
    by (induction fs) auto
  then show ?thesis using assms by (simp add: GetNumberOfStoredFrames_def storage_ok_def)
qed

lemma card_stored: "card (dom (stored s)) = length (filter (\<lambda>ps. ps \<noteq> []) (ps_frames s))"
proof -
  let ?I = "{i. i < length (ps_frames s) \<and> ps_frames s ! i \<noteq> []}"
  let ?h = "\<lambda>i. FrameId (fid (ps_first_frame_id_in_list s) + int i)"
  have "f \<in> dom (stored s) \<longleftrightarrow> f \<in> ?h ` ?I" for f
    by (cases f) (auto simp: dom_def stored_Some image_iff)
  then have "dom (stored s) = ?h ` ?I" by blast
  moreover have "inj_on ?h ?I" by (rule inj_onI) simp
  ultimately show ?thesis by (simp add: card_image length_filter_conv_card)
qed

text \<open>
  Runs of stores and releases, the map they describe, and the rules that the sender follows:
  \<open>live\<close> are the frames stored and not released, in order, and \<open>newest\<close> the frame stored last.
  A frame has packets; unless no frame is left it follows the newest one, and it is less than
  \<open>kMaxUnackedFrames\<close> after the oldest one.
\<close>

datatype storage_op = Store frame_id "(packet_key \<times> u8 list) list" | Release frame_id

fun storage_run :: "storage_op list \<Rightarrow> packet_storage \<Rightarrow> packet_storage option" where
  "storage_run [] s = Some s"
| "storage_run (Store f ps # ops) s = Option.bind (StoreFrame f ps s) (storage_run ops)"
| "storage_run (Release f # ops) s = Option.bind (PacketStorage_ReleaseFrame f s) (storage_run ops)"

fun storage_map :: "storage_op list \<Rightarrow> (frame_id \<rightharpoonup> (packet_key \<times> u8 list) list) \<Rightarrow>
    (frame_id \<rightharpoonup> (packet_key \<times> u8 list) list)" where
  "storage_map [] m = m"
| "storage_map (Store f ps # ops) m = storage_map ops (m(f \<mapsto> ps))"
| "storage_map (Release f # ops) m = storage_map ops (m(f := None))"

fun storage_legal :: "storage_op list \<Rightarrow> frame_id list \<Rightarrow> frame_id \<Rightarrow> bool" where
  "storage_legal [] live newest \<longleftrightarrow> True"
| "storage_legal (Store f ps # ops) live newest \<longleftrightarrow> ps \<noteq> [] \<and> id_ok f \<and>
     (live = [] \<or> f = FrameId_plus newest 1 \<and> fid f < fid (hd live) + int kMaxUnackedFrames) \<and>
     storage_legal ops (live @ [f]) f"
| "storage_legal (Release f # ops) live newest \<longleftrightarrow> id_ok f \<and> storage_legal ops (filter (\<lambda>g. g \<noteq> f) live) newest"

definition live_frames :: "frame_id list \<Rightarrow> frame_id \<Rightarrow> packet_storage \<Rightarrow> bool" where
  "live_frames live newest s \<longleftrightarrow> sorted live \<and> set live = dom (stored s) \<and>
     (live \<noteq> [] \<longrightarrow> fid newest = fid (ps_first_frame_id_in_list s) + int (length (ps_frames s)) - 1)"

lemma live_first:
  assumes "storage_ok s" "live_frames live newest s"
  shows "live = [] \<longleftrightarrow> ps_frames s = []" "live \<noteq> [] \<Longrightarrow> hd live = ps_first_frame_id_in_list s"
proof -
  let ?first = "ps_first_frame_id_in_list s"
  have mem: "f \<in> set live \<longleftrightarrow> (\<exists>i<length (ps_frames s). ps_frames s ! i \<noteq> [] \<and> fid f = fid ?first + int i)" for f
    using assms(2) by (auto simp: live_frames_def dom_def stored_Some)
  have first: "?first \<in> set live" if "ps_frames s \<noteq> []"
    using that assms(1) by (auto simp: mem storage_ok_def hd_conv_nth intro!: exI [of _ 0])
  then show empty: "live = [] \<longleftrightarrow> ps_frames s = []" using mem by fastforce
  assume l: "live \<noteq> []"
  then have "hd live \<le> ?first" using first empty assms(2) by (cases live) (auto simp: live_frames_def)
  moreover have "?first \<le> hd live" using mem [of "hd live"] l by (auto simp: less_eq_frame_id_def)
  ultimately show "hd live = ?first" by simp
qed

lemma storage_run_map:
  assumes "storage_ok s" "live_frames live newest s" "storage_legal ops live newest"
  shows "\<exists>s'. storage_run ops s = Some s' \<and> storage_ok s' \<and> stored s' = storage_map ops (stored s)"
  using assms
proof (induction ops live newest arbitrary: s rule: storage_legal.induct)
  case (1 live newest)
  then show ?case by simp
next
  case (2 f ps ops live newest)
  note first = live_first [OF "2.prems"(1,2)]
  have f: "ps \<noteq> []" "id_ok f" using "2.prems"(3) by simp_all
  have "can_store f s"
    using "2.prems" first not_null [of "ps_first_frame_id_in_list s"]
    by (auto simp: can_store_def FrameId_plus_def live_frames_def storage_ok_def)
  then obtain s' where s': "StoreFrame f ps s = Some s'" "storage_ok s'" "stored s' = (stored s)(f \<mapsto> ps)"
    "fid f = fid (ps_first_frame_id_in_list s') + int (length (ps_frames s')) - 1"
    using StoreFrame_map [OF "2.prems"(1) f(1) _ f(2)] by blast
  have le: "g \<le> f" if "g \<in> set live" for g
  proof -
    have l: "live \<noteq> []" using that by auto
    then have "fid f = fid newest + 1" using "2.prems"(3) by (auto simp: FrameId_plus_def)
    moreover have "fid newest = fid (ps_first_frame_id_in_list s) + int (length (ps_frames s)) - 1"
      using l "2.prems"(2) by (simp add: live_frames_def)
    moreover have "g \<in> dom (stored s)" using that "2.prems"(2) by (simp add: live_frames_def)
    ultimately show ?thesis by (auto simp: dom_def stored_Some less_eq_frame_id_def)
  qed
  have "live_frames (live @ [f]) f s'"
    using "2.prems"(2) s'(3,4) le by (auto simp: live_frames_def sorted_append)
  then show ?case using "2.IH" [OF s'(2)] "2.prems"(3) unfolding s'(3) by (simp add: s'(1) del: fun_upd_apply)
next
  case (3 f ops live newest)
  have f: "id_ok f" using "3.prems"(3) by simp
  obtain s' where s': "PacketStorage_ReleaseFrame f s = Some s'" "storage_ok s'" "stored s' = (stored s)(f := None)"
    "fid (ps_first_frame_id_in_list s') + int (length (ps_frames s')) =
      fid (ps_first_frame_id_in_list s) + int (length (ps_frames s))"
    using ReleaseFrame_map [OF "3.prems"(1) f] by blast
  have "live_frames (filter (\<lambda>g. g \<noteq> f) live) newest s'"
    using "3.prems"(2) s'(3,4) by (cases "live = []") (auto simp: live_frames_def sorted_wrt_filter)
  then show ?case using "3.IH" [OF s'(2)] "3.prems"(3) unfolding s'(3) by (simp add: s'(1) del: fun_upd_apply)
qed

definition storage_example :: "storage_op list" where
  "storage_example =
     (let k = \<lparr>pk_capture_time = 0, pk_ssrc = 1, pk_frame_id = FrameId 4, pk_packet_id = 0\<rparr>
      in [Store (FrameId 4) [(k, [1])], Store (FrameId 5) [(k, [2])], Release (FrameId 4), Release (FrameId 9)])"

section \<open>Properties\<close>

text \<open>
  \<open>Expand\<close> returns the one value with the given lower bits that is at most \<open>2 ^ (w - 1)\<close>
  below and at most \<open>2 ^ (w - 1) - 1\<close> above the reference value, \<open>w\<close> the truncated width: a
  value truncated by the sender is recovered exactly in this window.
\<close>

theorem Expand_unique:
  fixes x :: "'a::len word"
  shows "Expand v x = y \<longleftrightarrow>
    lower_bits y = x \<and> - (2 ^ (LENGTH('a) - 1)) \<le> y - v \<and> y - v \<le> 2 ^ (LENGTH('a) - 1) - 1"
proof
  assume "lower_bits y = x \<and> - (2 ^ (LENGTH('a) - 1)) \<le> y - v \<and> y - v \<le> 2 ^ (LENGTH('a) - 1) - 1"
  then show "Expand v x = y" using Expand_eq [of y v] by blast
next
  assume y: "Expand v x = y"
  have w: "0 < LENGTH('a)" by simp
  note range = ExpandLessThanOrEqual_range [of "v + max_distance_for_expansion LENGTH('a)" x]
  show "lower_bits y = x \<and> - (2 ^ (LENGTH('a) - 1)) \<le> y - v \<and> y - v \<le> 2 ^ (LENGTH('a) - 1) - 1"
    using range y max_distance_eq [OF w] unfolding Expand_def by auto
qed

text \<open>
  C35: \<open>PacketStorage\<close> is a map from frame IDs to packets. Let a sender store frames that have
  packets, each one with the ID after the frame stored before it (any ID when no frame is left) and
  less than \<open>kMaxUnackedFrames\<close> after the oldest frame left, and release any frames, with IDs that
  are not null and below \<open>2 ^ 62\<close> in size. Then no assertion fails; every lookup of such an ID gives
  what the map of the stores and releases gives; and the number of stored frames is the number of
  frames in that map.
\<close>

theorem PacketStorage_refines_map:
  assumes "storage_legal ops [] FrameId_null"
  shows "\<exists>s. storage_run ops PacketStorage_init = Some s \<and>
    (\<forall>f. id_ok f \<longrightarrow> GetFramePackets f s = Some (storage_map ops Map.empty f)) \<and>
    GetNumberOfStoredFrames s = card (dom (storage_map ops Map.empty))"
proof -
  have "stored PacketStorage_init = Map.empty"
    by (intro map_eqI) (simp add: stored_Some PacketStorage_init_def)
  moreover have "storage_ok PacketStorage_init"
    by (simp add: storage_ok_def PacketStorage_init_def FrameId_is_null_def)
  ultimately obtain s where s: "storage_run ops PacketStorage_init = Some s" "storage_ok s"
    "stored s = storage_map ops Map.empty"
    using storage_run_map [OF _ _ assms, of PacketStorage_init] by (auto simp: live_frames_def)
  show ?thesis
    using s GetFramePackets_eq [OF s(2)] GetNumberOfStoredFrames_eq [OF s(2)] card_stored [of s] by auto
qed

theorem PacketStorage_refines_map_witness:
  "\<exists>s. storage_run storage_example PacketStorage_init = Some s \<and>
     (\<forall>f. id_ok f \<longrightarrow> GetFramePackets f s = Some (storage_map storage_example Map.empty f)) \<and>
     GetNumberOfStoredFrames s = card (dom (storage_map storage_example Map.empty))"
  by (rule PacketStorage_refines_map)
    (simp add: storage_example_def Let_def id_ok_def FrameId_plus_def kMaxUnackedFrames_def)

text \<open>
  The even split of \<open>SendFrameAsPackets\<close> announces more packets than it makes for large
  frames: with room for \<open>m \<ge> 2\<close> payload bytes in a packet, a frame of \<open>m * (m - 1)\<close> bytes is
  announced as \<open>m\<close> packets and cut into \<open>m - 1\<close>, so that the assertion on the count fails (and
  without it the receiver would wait for a packet that is never sent).
\<close>

theorem SendFrameAsPackets_miscounts:
  assumes "ef_dependency frame \<noteq> UNKNOWN_DEPENDENCY" "2 \<le> max_length_of p"
    "length (ef_data frame) = max_length_of p * (max_length_of p - 1)"
  shows "SendFrameAsPackets W frame p = None \<and>
    packet_count (payload_length_of (max_length_of p) (length (ef_data frame))) (length (ef_data frame)) =
    max_length_of p - 1 \<and> num_packets_of (max_length_of p) (length (ef_data frame)) = max_length_of p"
proof -
  define m where "m = max_length_of p"
  have m: "2 \<le> m" "length (ef_data frame) = m * (m - 1)" using assms by (simp_all add: m_def)
  have N: "num_packets_of m (m * (m - 1)) = m" using m(1) by (simp add: split_eq)
  have "m * (m - 1) div m = m - 1" using m(1) by simp
  then have pl: "payload_length_of m (m * (m - 1)) = m" using m(1) N split_eq(2) [of m "m * (m - 1)"] by simp
  have k: "packet_count m (m * (m - 1)) = m - 1"
  proof -
    have "i < packet_count m (m * (m - 1)) \<longleftrightarrow> i < m - 1" for i
      using m(1) less_packet_count [of m i "m * (m - 1)"] by (simp add: mult.commute)
    then show ?thesis by (meson linorder_neqE_nat less_irrefl_nat)
  qed
  have "m \<noteq> m - Suc 0" using m(1) by simp
  then show ?thesis
    using SendFrameAsPackets_eq [OF assms(1), of p W] assms(2) m N pl k
    by (simp add: Let_def flip: m_def)
qed

definition large_frame :: encoded_frame where
  "large_frame = \<lparr>ef_dependency = KEY, ef_frame_id = FrameId 0, ef_referenced_frame_id = FrameId 0,
     ef_rtp_timestamp = 0, ef_reference_time = 0, ef_new_playout_delay_ms = 0, ef_data = [1, 2, 3, 4, 5, 6]\<rparr>"

definition small_packetizer :: rtp_packetizer where
  "small_packetizer = RtpPacketizer_init \<lparr>cfg_payload_type = 96, cfg_max_payload_length = 23,
     cfg_sequence_number = 0, cfg_ssrc = 1\<rparr> PacketStorage_init"

theorem SendFrameAsPackets_miscounts_witness:
  "\<forall>W :: be_writer. SendFrameAsPackets W large_frame small_packetizer = None"
proof
  fix W :: "be_writer"
  have "max_length_of small_packetizer = 3"
    by (simp add: max_length_of_def small_packetizer_def RtpPacketizer_init_def)
  then show "SendFrameAsPackets W large_frame small_packetizer = None"
    using SendFrameAsPackets_miscounts [of large_frame small_packetizer W] by (simp add: large_frame_def)
qed

end
