(* ===== verification/Cast_Framer.thy ===== *)
theory Cast_Framer
  imports Cast_Rtp
begin

text \<open>
  Cast streaming, the receiver (\<open>cast/net/rtp\<close>): \<open>FrameBuffer\<close> collects the packets of a
  frame, \<open>Framer\<close> the frames of a stream in the order of their IDs, and \<open>CastMessageBuilder\<close>
  acknowledges frames and asks for missing packets.

  A \<open>std::map\<close> that is iterated is an association list in ascending order of its keys, one
  that is only looked up is a map. The readings of the clock are arguments, in the order in
  which the code reads it; a null \<open>TimeTicks\<close> is 0. Assertions and undefined behaviour are
  \<open>None\<close>.
\<close>

section \<open>FrameBuffer\<close>

record frame_buffer =
  fb_frame_id :: frame_id
  fb_max_packet_id :: u16
  fb_num_packets_received :: u16
  fb_max_seen_packet_id :: u16
  fb_new_playout_delay_ms :: u16
  fb_is_key_frame :: bool
  fb_total_data_size :: nat
  fb_last_referenced_frame_id :: frame_id
  fb_rtp_timestamp :: int
  fb_packets :: "(u16 \<times> u8 list) list"

definition FrameBuffer_init :: frame_buffer where
  "FrameBuffer_init =
     \<lparr>fb_frame_id = FrameId_null, fb_max_packet_id = 0, fb_num_packets_received = 0,
      fb_max_seen_packet_id = 0, fb_new_playout_delay_ms = 0, fb_is_key_frame = False,
      fb_total_data_size = 0, fb_last_referenced_frame_id = FrameId_null, fb_rtp_timestamp = 0,
      fb_packets = []\<rparr>"

definition FrameBuffer_InsertPacket ::
  "u8 list \<Rightarrow> rtp_cast_header \<Rightarrow> frame_buffer \<Rightarrow> (bool \<times> frame_buffer) option" where
  "FrameBuffer_InsertPacket payload header b =
     (if fb_packets b = [] \<and> h_is_key_frame header \<and> h_frame_id header \<noteq> h_reference_frame_id header
      then None
      else
        let b1 = (if fb_packets b = [] then
                    b\<lparr>fb_frame_id := h_frame_id header, fb_max_packet_id := h_max_packet_id header,
                      fb_is_key_frame := h_is_key_frame header,
                      fb_new_playout_delay_ms := h_new_playout_delay_ms header,
                      fb_last_referenced_frame_id := h_reference_frame_id header,
                      fb_rtp_timestamp := h_rtp_timestamp header\<rparr>
                  else b)
        in if h_frame_id header \<noteq> fb_frame_id b1 then Some (False, b1)
           else if map_of (fb_packets b1) (h_packet_id header) \<noteq> None then Some (False, b1)
           else Some (True,
             b1\<lparr>fb_packets := insort_key fst (h_packet_id header, payload) (fb_packets b1),
                fb_num_packets_received := fb_num_packets_received b1 + 1,
                fb_max_seen_packet_id := max (fb_max_seen_packet_id b1) (h_packet_id header),
                fb_total_data_size := fb_total_data_size b1 + length payload\<rparr>))"

definition FrameBuffer_Complete :: "frame_buffer \<Rightarrow> bool" where
  "FrameBuffer_Complete b \<longleftrightarrow> uint (fb_num_packets_received b) - 1 = uint (fb_max_packet_id b)"

definition AssembleEncodedFrame :: "frame_buffer \<Rightarrow> encoded_frame \<Rightarrow> encoded_frame option" where
  "AssembleEncodedFrame b frame =
     (if \<not> FrameBuffer_Complete b then None
      else Some (frame\<lparr>
        ef_dependency := (if fb_is_key_frame b then KEY
                          else if fb_frame_id b = fb_last_referenced_frame_id b then INDEPENDENT
                          else DEPENDENT),
        ef_frame_id := fb_frame_id b, ef_referenced_frame_id := fb_last_referenced_frame_id b,
        ef_rtp_timestamp := fb_rtp_timestamp b, ef_new_playout_delay_ms := fb_new_playout_delay_ms b,
        ef_data := concat (map snd (fb_packets b))\<rparr>))"

text \<open>The inner loops insert the IDs from \<open>packet\<close> up to \<open>end\<close>, exclusive.\<close>

function insert_range :: "int \<Rightarrow> int \<Rightarrow> u16 set \<Rightarrow> u16 set" where
  "insert_range packet stop S =
     (if packet < stop then insert_range (packet + 1) stop (insert (word_of_int packet) S) else S)"
  by pat_completeness auto
termination by (relation "measure (\<lambda>(packet, stop, S). nat (stop - packet))") auto

declare insert_range.simps [simp del]

fun missing_loop :: "(u16 \<times> u8 list) list \<Rightarrow> int \<Rightarrow> int \<Rightarrow> u16 set \<Rightarrow> int \<times> u16 set" where
  "missing_loop [] maximum packet S = (packet, S)"
| "missing_loop (i # is) maximum packet S =
     (if packet \<le> maximum then
        let stop = min (uint (fst i)) (maximum + 1)
        in missing_loop is maximum (max packet stop + 1) (insert_range packet stop S)
      else (packet, S))"

definition FrameBuffer_GetMissingPackets :: "bool \<Rightarrow> frame_buffer \<Rightarrow> u16 set \<Rightarrow> u16 set" where
  "FrameBuffer_GetMissingPackets newest_frame b missing_packets =
     (let maximum = uint (if newest_frame then fb_max_seen_packet_id b else fb_max_packet_id b);
          (packet, S) = missing_loop (fb_packets b) maximum 0 missing_packets
      in insert_range packet (maximum + 1) S)"

section \<open>CastMessageBuilder\<close>

type_synonym frame_map = "(frame_id \<times> frame_buffer) list"

definition kCastMessageUpdateIntervalUs :: int where "kCastMessageUpdateIntervalUs = 33 * 1000"
definition kNackRepeatIntervalUs :: int where "kNackRepeatIntervalUs = 30 * 1000"
definition kRtcpCastAllPacketsLost :: u16 where "kRtcpCastAllPacketsLost = 0xffff"

text \<open>The queries the builder makes to its framer.\<close>

definition Framer_NumberOfCompleteFrames :: "frame_map \<Rightarrow> int" where
  "Framer_NumberOfCompleteFrames frames = int (length (filter (\<lambda>e. FrameBuffer_Complete (snd e)) frames))"

definition Framer_FrameExists :: "frame_id \<Rightarrow> frame_map \<Rightarrow> bool" where
  "Framer_FrameExists f frames \<longleftrightarrow> map_of frames f \<noteq> None"

definition Framer_GetMissingPackets :: "frame_id \<Rightarrow> bool \<Rightarrow> frame_map \<Rightarrow> u16 set \<Rightarrow> u16 set" where
  "Framer_GetMissingPackets f last_frame frames missing =
     (case map_of frames f of None \<Rightarrow> missing | Some b \<Rightarrow> FrameBuffer_GetMissingPackets last_frame b missing)"

text \<open>The fields of \<open>RtcpCastMessage\<close> that the builder sets; the RTCP layer fills in the others.\<close>

record cast_message =
  msg_remote_ssrc :: u32
  msg_ack_frame_id :: frame_id
  msg_missing :: "frame_id \<rightharpoonup> u16 set"

record cast_message_builder =
  mb_media_ssrc :: u32
  mb_decoder_faster_than_max_frame_rate :: bool
  mb_max_unacked_frames :: int
  mb_cast_msg :: cast_message
  mb_last_update_time :: int
  mb_time_last_nacked_map :: "frame_id \<rightharpoonup> int"
  mb_slowing_down_ack :: bool
  mb_acked_last_frame :: bool
  mb_ack_queue :: "frame_id list"

definition CastMessageBuilder_init :: "u32 \<Rightarrow> bool \<Rightarrow> int \<Rightarrow> cast_message_builder" where
  "CastMessageBuilder_init ssrc faster max_unacked =
     \<lparr>mb_media_ssrc = ssrc, mb_decoder_faster_than_max_frame_rate = faster,
      mb_max_unacked_frames = max_unacked,
      mb_cast_msg = \<lparr>msg_remote_ssrc = ssrc, msg_ack_frame_id = FrameId_plus FrameId_first (- 1),
                     msg_missing = Map.empty\<rparr>,
      mb_last_update_time = 0, mb_time_last_nacked_map = Map.empty, mb_slowing_down_ack = False,
      mb_acked_last_frame = True, mb_ack_queue = []\<rparr>"

definition last_acked_frame_id :: "cast_message_builder \<Rightarrow> frame_id" where
  "last_acked_frame_id m = msg_ack_frame_id (mb_cast_msg m)"

text \<open>The slow-down mode of \<open>UpdateAckMessage\<close>, lines 69 to 82.\<close>

definition update_slowdown :: "frame_map \<Rightarrow> cast_message_builder \<Rightarrow> cast_message_builder" where
  "update_slowdown frames m =
     (if \<not> mb_decoder_faster_than_max_frame_rate m then
        let complete_frame_count = Framer_NumberOfCompleteFrames frames in
        if complete_frame_count > mb_max_unacked_frames m then
          (if \<not> mb_slowing_down_ack m
           then m\<lparr>mb_slowing_down_ack := True, mb_ack_queue := mb_ack_queue m @ [last_acked_frame_id m]\<rparr>
           else m)
        else if complete_frame_count \<le> 1 then m\<lparr>mb_slowing_down_ack := False, mb_ack_queue := []\<rparr>
        else m
      else m)"

text \<open>The last part of \<open>UpdateAckMessage\<close>, for the frame to acknowledge.\<close>

definition acknowledge :: "int \<Rightarrow> frame_id \<Rightarrow> cast_message_builder \<Rightarrow> bool \<times> cast_message_builder" where
  "acknowledge now f m =
     (if last_acked_frame_id m = f then (False, m\<lparr>mb_acked_last_frame := False\<rparr>)
      else (True, m\<lparr>mb_acked_last_frame := True,
                    mb_cast_msg := (mb_cast_msg m)\<lparr>msg_ack_frame_id := f, msg_missing := Map.empty\<rparr>,
                    mb_last_update_time := now,
                    mb_time_last_nacked_map := (\<lambda>g. if g \<le> f then None else mb_time_last_nacked_map m g)\<rparr>))"

definition UpdateAckMessage ::
  "int \<Rightarrow> frame_map \<Rightarrow> frame_id \<Rightarrow> cast_message_builder \<Rightarrow> bool \<times> cast_message_builder" where
  "UpdateAckMessage now frames f m =
     (let m1 = update_slowdown frames m in
      if mb_slowing_down_ack m1 then
        if mb_ack_queue m1 \<noteq> [] \<and> last (mb_ack_queue m1) = f then (False, m1)
        else
          let q = mb_ack_queue m1 @ [f];
              q1 = (if \<not> mb_acked_last_frame m1 then tl q else q);
              m2 = m1\<lparr>mb_ack_queue := q1\<rparr>
          in acknowledge now (hd q1) m2
      else acknowledge now f m1)"

text \<open>The loop of \<open>BuildPacketList\<close> from frame \<open>f\<close> up to the newest frame.\<close>

function build_packet_loop ::
  "int \<Rightarrow> frame_map \<Rightarrow> frame_id \<Rightarrow> frame_id \<Rightarrow> cast_message_builder \<Rightarrow> cast_message_builder" where
  "build_packet_loop now frames newest f m =
     (if f \<le> newest then
        build_packet_loop now frames newest (FrameId_plus f 1)
          (if (case mb_time_last_nacked_map m f of None \<Rightarrow> False | Some t \<Rightarrow> now - t < kNackRepeatIntervalUs)
           then m
           else if Framer_FrameExists f frames then
             (let missing = Framer_GetMissingPackets f (newest = f) frames {} in
              if missing \<noteq> {} then
                m\<lparr>mb_time_last_nacked_map := (mb_time_last_nacked_map m)(f \<mapsto> now),
                  mb_cast_msg := (mb_cast_msg m)\<lparr>msg_missing := (msg_missing (mb_cast_msg m))(f \<mapsto> missing)\<rparr>\<rparr>
              else m)
           else m\<lparr>mb_time_last_nacked_map := (mb_time_last_nacked_map m)(f \<mapsto> now),
                  mb_cast_msg := (mb_cast_msg m)
                    \<lparr>msg_missing := (msg_missing (mb_cast_msg m))(f \<mapsto> {kRtcpCastAllPacketsLost})\<rparr>\<rparr>)
      else m)"
  by pat_completeness auto
termination
  by (relation "measure (\<lambda>(now, frames, newest, f, m). nat (fid newest + 1 - fid f))")
     (auto simp: less_eq_frame_id_def FrameId_plus_def)

declare build_packet_loop.simps [simp del]

definition BuildPacketList :: "int \<Rightarrow> frame_map \<Rightarrow> frame_id \<Rightarrow> cast_message_builder \<Rightarrow> cast_message_builder" where
  "BuildPacketList now frames newest m =
     (let m1 = m\<lparr>mb_cast_msg := (mb_cast_msg m)\<lparr>msg_missing := Map.empty\<rparr>\<rparr> in
      if frames = [] then m1
      else build_packet_loop now frames newest (FrameId_plus (last_acked_frame_id m1) 1) m1)"

text \<open>The message sent to the feedback interface, if any; \<open>t0\<close>, \<open>t1\<close>, \<open>t2\<close> are the clock readings.\<close>

definition CompleteFrameReceived ::
  "int \<Rightarrow> int \<Rightarrow> int \<Rightarrow> frame_map \<Rightarrow> frame_id \<Rightarrow> frame_id \<Rightarrow> cast_message_builder \<Rightarrow>
   (cast_message option \<times> cast_message_builder) option" where
  "CompleteFrameReceived t0 t1 t2 frames newest f m =
     (if \<not> f \<ge> last_acked_frame_id m then None
      else
        let m1 = (if mb_last_update_time m = 0 then m\<lparr>mb_last_update_time := t0\<rparr> else m);
            (new_ack, m2) = UpdateAckMessage t1 frames f m1
        in if \<not> new_ack then Some (None, m2)
           else let m3 = BuildPacketList t2 frames newest m2 in Some (Some (mb_cast_msg m3), m3))"

definition TimeToSendNextCastMessage :: "frame_map \<Rightarrow> cast_message_builder \<Rightarrow> int option" where
  "TimeToSendNextCastMessage frames m =
     (if mb_last_update_time m = 0 \<and> frames = [] then None
      else Some (mb_last_update_time m + kCastMessageUpdateIntervalUs))"

definition UpdateCastMessage ::
  "int \<Rightarrow> int \<Rightarrow> int \<Rightarrow> frame_map \<Rightarrow> frame_id \<Rightarrow> cast_message_builder \<Rightarrow> cast_message option \<times> cast_message_builder" where
  "UpdateCastMessage t0 t1 t2 frames newest m =
     (if mb_last_update_time m = 0 then
        (None, if frames \<noteq> [] then m\<lparr>mb_last_update_time := t0\<rparr> else m)
      else if t0 - mb_last_update_time m < kCastMessageUpdateIntervalUs then (None, m)
      else
        let m1 = m\<lparr>mb_last_update_time := t0\<rparr>;
            (_, m2) = UpdateAckMessage t1 frames (last_acked_frame_id m1) m1;
            m3 = BuildPacketList t2 frames newest m2
        in (Some (mb_cast_msg m3), m3))"

section \<open>Framer\<close>

record framer =
  fr_decoder_faster_than_max_frame_rate :: bool
  fr_frames :: frame_map
  fr_cast_msg_builder :: cast_message_builder
  fr_waiting_for_key :: bool
  fr_last_released_frame :: frame_id
  fr_newest_frame_id :: frame_id

definition Framer_init :: "u32 \<Rightarrow> bool \<Rightarrow> int \<Rightarrow> framer" where
  "Framer_init ssrc faster max_unacked =
     \<lparr>fr_decoder_faster_than_max_frame_rate = faster, fr_frames = [],
      fr_cast_msg_builder = CastMessageBuilder_init ssrc faster max_unacked, fr_waiting_for_key = True,
      fr_last_released_frame = FrameId_plus FrameId_first (- 1),
      fr_newest_frame_id = FrameId_plus FrameId_first (- 1)\<rparr>"

text \<open>The return value, \<open>*duplicate\<close> and the new state.\<close>

definition Framer_InsertPacket ::
  "u8 list \<Rightarrow> rtp_cast_header \<Rightarrow> framer \<Rightarrow> (bool \<times> bool \<times> framer) option" where
  "Framer_InsertPacket payload header s =
     (let f = h_frame_id header;
          s1 = (if h_is_key_frame header \<and> fr_waiting_for_key s
                then s\<lparr>fr_last_released_frame := FrameId_plus f (- 1), fr_waiting_for_key := False\<rparr> else s)
      in if f \<le> fr_last_released_frame s1 \<and> \<not> fr_waiting_for_key s1 then Some (False, False, s1)
         else
           let s2 = (if f > fr_newest_frame_id s1 then s1\<lparr>fr_newest_frame_id := f\<rparr> else s1);
               s3 = (if map_of (fr_frames s2) f = None
                     then s2\<lparr>fr_frames := insort_key fst (f, FrameBuffer_init) (fr_frames s2)\<rparr> else s2)
           in case FrameBuffer_InsertPacket payload header (the (map_of (fr_frames s3) f)) of
                None \<Rightarrow> None
              | Some (inserted, b) \<Rightarrow>
                  let s4 = s3\<lparr>fr_frames := map (\<lambda>e. if fst e = f then (f, b) else e) (fr_frames s3)\<rparr>
                  in Some (if \<not> inserted then (False, True, s4) else (FrameBuffer_Complete b, False, s4)))"

definition IsNextFrameForRelease :: "framer \<Rightarrow> frame_buffer \<Rightarrow> bool" where
  "IsNextFrameForRelease s b \<longleftrightarrow>
     (if fr_waiting_for_key s \<and> \<not> fb_is_key_frame b then False
      else FrameId_plus (fr_last_released_frame s) 1 = fb_frame_id b)"

definition IsDecodableFrame :: "framer \<Rightarrow> frame_buffer \<Rightarrow> bool" where
  "IsDecodableFrame s b \<longleftrightarrow>
     (if fb_is_key_frame b then True
      else if fr_waiting_for_key s then False
      else if fb_last_referenced_frame_id b = fb_frame_id b then True
      else fb_last_referenced_frame_id b \<le> fr_last_released_frame s)"

definition FindNextFrameForRelease :: "framer \<Rightarrow> frame_buffer option" where
  "FindNextFrameForRelease s =
     find (\<lambda>b. FrameBuffer_Complete b \<and> IsNextFrameForRelease s b) (map snd (fr_frames s))"

definition FindOldestDecodableFrame :: "framer \<Rightarrow> frame_buffer option" where
  "FindOldestDecodableFrame s =
     find (\<lambda>b. FrameBuffer_Complete b \<and> IsDecodableFrame s b) (map snd (fr_frames s))"

fun have_multiple_loop :: "framer \<Rightarrow> frame_buffer list \<Rightarrow> bool \<Rightarrow> bool" where
  "have_multiple_loop s [] found_one = False"
| "have_multiple_loop s (b # bs) found_one =
     (if FrameBuffer_Complete b \<and> IsDecodableFrame s b
      then (if found_one then True else have_multiple_loop s bs True)
      else have_multiple_loop s bs found_one)"

definition HaveMultipleDecodableFrames :: "framer \<Rightarrow> bool" where
  "HaveMultipleDecodableFrames s = have_multiple_loop s (map snd (fr_frames s)) False"

text \<open>The frame with \<open>*next_frame\<close> when true is returned, and \<open>*have_multiple_decodable_frames\<close>.\<close>

definition GetEncodedFrame :: "encoded_frame \<Rightarrow> framer \<Rightarrow> (encoded_frame \<times> bool) option \<times> bool" where
  "GetEncodedFrame frame s =
     ((case FindNextFrameForRelease s of
         Some b \<Rightarrow> map_option (\<lambda>f. (f, True)) (AssembleEncodedFrame b frame)
       | None \<Rightarrow>
           if \<not> fr_decoder_faster_than_max_frame_rate s then None
           else (case FindOldestDecodableFrame s of
                   None \<Rightarrow> None
                 | Some b \<Rightarrow> map_option (\<lambda>f. (f, False)) (AssembleEncodedFrame b frame))),
      HaveMultipleDecodableFrames s)"

definition Framer_AckFrame ::
  "int \<Rightarrow> int \<Rightarrow> int \<Rightarrow> frame_id \<Rightarrow> framer \<Rightarrow> (cast_message option \<times> framer) option" where
  "Framer_AckFrame t0 t1 t2 f s =
     map_option (\<lambda>(msg, m). (msg, s\<lparr>fr_cast_msg_builder := m\<rparr>))
       (CompleteFrameReceived t0 t1 t2 (fr_frames s) (fr_newest_frame_id s) f (fr_cast_msg_builder s))"

definition Framer_SendCastMessage :: "int \<Rightarrow> int \<Rightarrow> int \<Rightarrow> framer \<Rightarrow> cast_message option \<times> framer" where
  "Framer_SendCastMessage t0 t1 t2 s =
     (let (msg, m) = UpdateCastMessage t0 t1 t2 (fr_frames s) (fr_newest_frame_id s) (fr_cast_msg_builder s)
      in (msg, s\<lparr>fr_cast_msg_builder := m\<rparr>))"

text \<open>Releasing reads the first entry, which must exist.\<close>

definition Framer_ReleaseFrame ::
  "int \<Rightarrow> int \<Rightarrow> int \<Rightarrow> frame_id \<Rightarrow> framer \<Rightarrow> (cast_message option \<times> framer) option" where
  "Framer_ReleaseFrame t0 t1 t2 f s =
     (case fr_frames s of
        [] \<Rightarrow> None
      | first # _ \<Rightarrow>
          let skipped_old_frame = fst first < f;
              s1 = s\<lparr>fr_frames := filter (\<lambda>e. \<not> fst e \<le> f) (fr_frames s), fr_last_released_frame := f\<rparr>
          in Some (if skipped_old_frame then Framer_SendCastMessage t0 t1 t2 s1 else (None, s1)))"

section \<open>Missing packets\<close>

lemma insert_range_eq: "insert_range p q S = S \<union> word_of_int ` {p..<q}"
proof (induction p q S rule: insert_range.induct)
  case (1 p q S)
  show ?case
  proof (cases "p < q")
    case True
    then have "{p..<q} = insert p {p + 1..<q}" by auto
    then show ?thesis using 1 [OF True] True by (subst insert_range.simps) auto
  next
    case False
    then show ?thesis by (subst insert_range.simps) simp
  qed
qed

lemma missing_loop_done: "maximum < p \<Longrightarrow> missing_loop is maximum p S = (p, S)"
  by (cases "is") auto

lemma missing_loop_eq:
  assumes "sorted_wrt (<) (map (uint \<circ> fst) is)" "\<forall>i\<in>set is. p \<le> uint (fst i)"
    "missing_loop is maximum p S = (p', S')"
  shows "insert_range p' (maximum + 1) S' =
    S \<union> word_of_int ` {k. p \<le> k \<and> k \<le> maximum \<and> k \<notin> (uint \<circ> fst) ` set is}"
  using assms
proof (induction "is" arbitrary: p S)
  case Nil
  then show ?case by (auto simp: insert_range_eq)
next
  case (Cons i "is")
  have above: "\<forall>j\<in>set is. uint (fst i) < uint (fst j)" using Cons.prems(1) by auto
  consider "maximum < p" | "p \<le> maximum" "uint (fst i) \<le> maximum" | "p \<le> maximum" "maximum < uint (fst i)"
    by linarith
  then show ?case
  proof cases
    case 1
    then have "p' = p" "S' = S" using Cons.prems(3) by simp_all
    then show ?thesis using 1 by (auto simp: insert_range_eq)
  next
    case 2
    let ?u = "uint (fst i)"
    have "p \<le> ?u" using Cons.prems(2) by simp
    then have "missing_loop is maximum (?u + 1) (insert_range p ?u S) = (p', S')"
      using 2 Cons.prems(3) by (simp add: Let_def min_def max_def split: if_splits)
    moreover have "\<forall>j\<in>set is. ?u + 1 \<le> uint (fst j)" using above by auto
    ultimately have "insert_range p' (maximum + 1) S' = insert_range p ?u S \<union>
        word_of_int ` {k. ?u + 1 \<le> k \<and> k \<le> maximum \<and> k \<notin> (uint \<circ> fst) ` set is}"
      using Cons.IH Cons.prems(1) by simp
    moreover have "{k. p \<le> k \<and> k \<le> maximum \<and> k \<notin> (uint \<circ> fst) ` set (i # is)} =
        {p..<?u} \<union> {k. ?u + 1 \<le> k \<and> k \<le> maximum \<and> k \<notin> (uint \<circ> fst) ` set is}"
      using above 2 \<open>p \<le> ?u\<close> by (auto; fastforce)
    ultimately show ?thesis by (simp add: insert_range_eq image_Un Un_assoc)
  next
    case 3
    then have "min (uint (fst i)) (maximum + 1) = maximum + 1" "max p (maximum + 1) = maximum + 1" by simp_all
    then have "p' = maximum + 1 + 1" "S' = insert_range p (maximum + 1) S"
      using Cons.prems(3) 3 missing_loop_done [of maximum "maximum + 1 + 1"] by (simp_all add: Let_def)
    moreover have "{k. p \<le> k \<and> k \<le> maximum \<and> k \<notin> (uint \<circ> fst) ` set (i # is)} = {p..<maximum + 1}"
      using above 3 by force
    ultimately show ?thesis by (simp add: insert_range_eq)
  qed
qed

text \<open>The packets are in ascending order of their IDs.\<close>

definition fb_sorted :: "frame_buffer \<Rightarrow> bool" where
  "fb_sorted b \<longleftrightarrow> sorted_wrt (<) (map fst (fb_packets b))"

lemma distinct_map_insort_key:
  "distinct (map fst (insort_key fst (k, v) xs)) \<longleftrightarrow> k \<notin> fst ` set xs \<and> distinct (map fst xs)"
  by (induction xs) (auto simp: set_insort_key)

lemma sorted_wrt_insort_key:
  assumes "sorted_wrt (<) (map fst xs)" "map_of xs (k :: 'a :: linorder) = None"
  shows "sorted_wrt (<) (map fst (insort_key fst (k, v) xs))"
proof -
  have "sorted (map fst xs)" "distinct (map fst xs)" using assms(1) by (simp_all add: strict_sorted_iff)
  then have "sorted (map fst (insort_key fst (k, v) xs))" by (simp add: sorted_insort_key)
  moreover have "distinct (map fst (insort_key fst (k, v) xs))"
    using distinct_map_insort_key [of k v xs] assms(2) \<open>distinct (map fst xs)\<close>
    by (auto simp: map_of_eq_None_iff)
  ultimately show ?thesis by (simp add: strict_sorted_iff)
qed

lemma FrameBuffer_InsertPacket_sorted:
  assumes "fb_sorted b" "FrameBuffer_InsertPacket payload h b = Some (r, b')"
  shows "fb_sorted b'"
  using assms sorted_wrt_insort_key
  by (auto simp: FrameBuffer_InsertPacket_def fb_sorted_def Let_def split: if_splits)

section \<open>From the packetizer to the frame\<close>

text \<open>The packets that arrive are parsed and inserted, those that do not parse are dropped.\<close>

fun receive :: "'r be_reader \<Rightarrow> u8 list list \<Rightarrow> rtp_parser \<Rightarrow> frame_buffer \<Rightarrow> (rtp_parser \<times> frame_buffer) option" where
  "receive R [] rp b = Some (rp, b)"
| "receive R (packet # packets) rp b =
     (case ParsePacket R packet RtpCastHeader_init rp of
        None \<Rightarrow> receive R packets rp b
      | Some (header, payload, rp1) \<Rightarrow>
          (case FrameBuffer_InsertPacket payload header b of
             None \<Rightarrow> None
           | Some (_, b1) \<Rightarrow> receive R packets rp1 b1))"

text \<open>A dependency as the receiver can tell it.\<close>

definition dependency_ok :: "encoded_frame \<Rightarrow> bool" where
  "dependency_ok frame \<longleftrightarrow>
     (case ef_dependency frame of
        KEY \<Rightarrow> ef_referenced_frame_id frame = ef_frame_id frame
      | INDEPENDENT \<Rightarrow> ef_referenced_frame_id frame = ef_frame_id frame
      | DEPENDENT \<Rightarrow> ef_referenced_frame_id frame \<noteq> ef_frame_id frame
      | UNKNOWN_DEPENDENCY \<Rightarrow> False)"

text \<open>The buffer after the packets with the numbers \<open>is\<close> of a frame of \<open>n\<close> packets.\<close>

definition frame_chunk :: "nat \<Rightarrow> encoded_frame \<Rightarrow> nat \<Rightarrow> u8 list" where
  "frame_chunk pl frame i = mem_slice (i * pl) pl (ef_data frame)"

definition buffer_after :: "nat \<Rightarrow> nat \<Rightarrow> encoded_frame \<Rightarrow> nat list \<Rightarrow> frame_buffer" where
  "buffer_after pl n frame is =
     (if is = [] then FrameBuffer_init
      else
        \<lparr>fb_frame_id = ef_frame_id frame, fb_max_packet_id = word_of_nat (n - 1),
         fb_num_packets_received = word_of_nat (card (set is)),
         fb_max_seen_packet_id = word_of_nat (Max (set is)),
         fb_new_playout_delay_ms = (if hd is = 0 then ef_new_playout_delay_ms frame else 0),
         fb_is_key_frame = (ef_dependency frame = KEY),
         fb_total_data_size = (\<Sum>i\<in>set is. length (frame_chunk pl frame i)),
         fb_last_referenced_frame_id = ef_referenced_frame_id frame,
         fb_rtp_timestamp = ef_rtp_timestamp frame,
         fb_packets = map (\<lambda>i. (word_of_nat i, frame_chunk pl frame i)) (sorted_list_of_set (set is))\<rparr>)"

lemma unat_small: "i < 65536 \<Longrightarrow> unat (word_of_nat i :: u16) = i"
  by (simp add: unat_of_nat take_bit_nat_eq_self)

lemma word_small_inject: "i < 65536 \<Longrightarrow> j < 65536 \<Longrightarrow> (word_of_nat i :: u16) = word_of_nat j \<longleftrightarrow> i = j"
  using unat_small by metis

lemma max_word_small:
  "i < 65536 \<Longrightarrow> j < 65536 \<Longrightarrow> max (word_of_nat i :: u16) (word_of_nat j) = word_of_nat (max i j)"
  by (simp add: max_def word_le_nat_alt unat_small)

lemma insort_key_map_small:
  assumes "\<forall>j\<in>set (i # xs). j < 65536"
  shows "insort_key fst (word_of_nat i :: u16, f i) (map (\<lambda>i. (word_of_nat i, f i)) xs) =
    map (\<lambda>i. (word_of_nat i, f i)) (insort i xs)"
  using assms
proof (induction xs)
  case (Cons x xs)
  have "(word_of_nat i :: u16) \<le> word_of_nat x \<longleftrightarrow> i \<le> x"
    using Cons.prems by (simp add: word_le_nat_alt unat_small)
  then show ?case using Cons by simp
qed simp

lemma InsertPacket_after:
  assumes ix: "\<forall>j\<in>set (is @ [i]). j < n" "n \<le> 65536" and dep: "dependency_ok frame"
  shows "\<exists>r. FrameBuffer_InsertPacket (frame_chunk pl frame i)
      (packet_header cfg frame n last_one seq (word_of_nat i)) (buffer_after pl n frame is) =
    Some (r, buffer_after pl n frame (is @ [i]))"
proof -
  have i: "i < n" "i < 65536" using ix by auto
  have i0: "(word_of_nat i :: u16) = 0 \<longleftrightarrow> i = 0" using word_small_inject [of i 0] i by simp
  have key: "ef_dependency frame = KEY \<Longrightarrow> ef_referenced_frame_id frame = ef_frame_id frame"
    using dep by (simp add: dependency_ok_def)
  show ?thesis
  proof (cases "is = []")
    case True
    then show ?thesis
      using i0 key
      by (auto simp: buffer_after_def FrameBuffer_InsertPacket_def FrameBuffer_init_def packet_header_def Let_def
          max_def)
  next
    case False
    let ?pk = "map (\<lambda>i. (word_of_nat i :: u16, frame_chunk pl frame i)) (sorted_list_of_set (set is))"
    have small: "\<forall>j\<in>set is. j < 65536" using ix by auto
    have mo: "map_of ?pk (word_of_nat i) = None \<longleftrightarrow> i \<notin> set is"
      using word_small_inject small i(2) by (auto simp: map_of_eq_None_iff image_image)
    show ?thesis
    proof (cases "i \<in> set is")
      case True
      then have "set (is @ [i]) = set is" by auto
      then show ?thesis
        using True False mo
        by (intro exI [of _ False]) (simp add: buffer_after_def FrameBuffer_InsertPacket_def packet_header_def Let_def
            del: set_append)
    next
      case new: False
      have "insort_key fst (word_of_nat i, frame_chunk pl frame i) ?pk =
          map (\<lambda>i. (word_of_nat i, frame_chunk pl frame i)) (insort i (sorted_list_of_set (set is)))"
        using insort_key_map_small [of i "sorted_list_of_set (set is)" "frame_chunk pl frame"] small i(2) by simp
      also have "insort i (sorted_list_of_set (set is)) = sorted_list_of_set (set (is @ [i]))"
        using new by simp
      finally have pk: "insort_key fst (word_of_nat i, frame_chunk pl frame i) ?pk =
          map (\<lambda>i. (word_of_nat i, frame_chunk pl frame i)) (sorted_list_of_set (set (is @ [i])))" .
      have "Max (set is) < 65536" using False small by simp
      then have mx: "max (word_of_nat (Max (set is)) :: u16) (word_of_nat i) = word_of_nat (Max (set (is @ [i])))"
        using False i(2) by (simp add: max_word_small max.commute)
      have card: "(word_of_nat (card (set is)) :: u16) + 1 = word_of_nat (card (set (is @ [i])))"
        using new by simp
      show ?thesis
        using False new mo pk mx card
        by (intro exI [of _ True]) (simp add: buffer_after_def FrameBuffer_InsertPacket_def packet_header_def Let_def add.commute)
    qed
  qed
qed

lemma receive_eq:
  assumes R: "be_reader_ok R" and W: "be_writer_ok W" and rp: "parser_for rp cfg" "in_range rp frame"
    and ix: "\<forall>j\<in>set (is0 @ is). j < n" "n \<le> 65536" and dep: "dependency_ok frame"
    and pk: "\<forall>i<n. pkt i = frame_packet W cfg frame n (lst i) (sq i) (word_of_nat i) (frame_chunk pl frame i)"
  shows "\<exists>rp'. receive R (map pkt is) rp (buffer_after pl n frame is0) = Some (rp', buffer_after pl n frame (is0 @ is))"
  using rp ix(1)
proof (induction "is" arbitrary: is0 rp)
  case (Cons i "is")
  then have i: "i < n" by simp
  then have "unat (word_of_nat i :: u16) < n" using ix(2) by (simp add: unat_small)
  then have parse: "ParsePacket R (pkt i) RtpCastHeader_init rp =
      Some (packet_header cfg frame n (lst i) (sq i) (word_of_nat i), frame_chunk pl frame i, parser_after frame rp)"
    using ParsePacket_frame_packet [OF R W Cons.prems(1,2)] ix(2) pk i by simp
  obtain r where ins: "FrameBuffer_InsertPacket (frame_chunk pl frame i)
      (packet_header cfg frame n (lst i) (sq i) (word_of_nat i)) (buffer_after pl n frame is0) =
      Some (r, buffer_after pl n frame (is0 @ [i]))"
    using InsertPacket_after [OF _ ix(2) dep] Cons.prems(3) by fastforce
  have "parser_for (parser_after frame rp) cfg" "in_range (parser_after frame rp) frame"
    using Cons.prems(1,2) by (auto simp: parser_for_def in_range_def parser_after_def)
  from Cons.IH [OF this, of "is0 @ [i]"] show ?case using Cons.prems(3) parse ins by simp
qed simp

lemma concat_chunks: "concat (map (\<lambda>i. mem_slice (i * pl) pl D) [0..<k]) = take (k * pl) D"
proof (induction k)
  case (Suc k)
  have "Suc k * pl = k * pl + pl" by simp
  then have "take (Suc k * pl) D = take (k * pl) D @ take pl (drop (k * pl) D)" by (simp only: take_add)
  then show ?case using Suc by (simp add: mem_slice_def)
qed simp

lemma Assemble_complete:
  assumes "set is = {..<n}" "0 < n" "n \<le> 65535" "length (ef_data frame) \<le> n * pl" "dependency_ok frame"
  shows "AssembleEncodedFrame (buffer_after pl n frame is) frame0 =
    Some (frame\<lparr>ef_reference_time := ef_reference_time frame0,
      ef_new_playout_delay_ms := (if hd is = 0 then ef_new_playout_delay_ms frame else 0)\<rparr>)"
proof -
  have "0 \<in> set is" unfolding assms(1) using assms(2) by simp
  then have ne: "is \<noteq> []" by (metis list.set_cases list.discI)
  have small: "uint (word_of_nat k :: u16) = int k" if "k < 65536" for k
    using unat_small [OF that] by (simp only: uint_nat)
  have "uint (word_of_nat n :: u16) = int n" "uint (word_of_nat (n - 1) :: u16) = int n - 1"
  proof -
    show "uint (word_of_nat n :: u16) = int n" by (rule small) (use assms(3) in simp)
    have "uint (word_of_nat (n - 1) :: u16) = int (n - 1)" by (rule small) (use assms(3) in simp)
    also have "\<dots> = int n - 1" using assms(2) by simp
    finally show "uint (word_of_nat (n - 1) :: u16) = int n - 1" .
  qed
  moreover have "fb_num_packets_received (buffer_after pl n frame is) = word_of_nat n"
    "fb_max_packet_id (buffer_after pl n frame is) = word_of_nat (n - 1)"
    using ne assms(1) by (simp_all add: buffer_after_def del: of_nat_diff)
  ultimately have complete: "FrameBuffer_Complete (buffer_after pl n frame is)"
    by (simp only: FrameBuffer_Complete_def)
  have "sorted_list_of_set {..<n} = [0..<n]" using sorted_list_of_set_range [of 0 n] by (simp add: lessThan_atLeast0)
  then have "concat (map snd (fb_packets (buffer_after pl n frame is))) = ef_data frame"
    using ne assms(1,4) concat_chunks [of pl "ef_data frame" n]
    by (simp add: buffer_after_def comp_def frame_chunk_def)
  moreover have "ef_dependency frame = (if ef_dependency frame = KEY then KEY
      else if ef_frame_id frame = ef_referenced_frame_id frame then INDEPENDENT else DEPENDENT)"
    using assms(5) by (auto simp: dependency_ok_def split: dependency.splits)
  ultimately show ?thesis
    using complete ne
    by (cases frame; cases frame0) (auto simp: AssembleEncodedFrame_def buffer_after_def)
qed

section \<open>Negative acknowledgements\<close>

text \<open>What a message asks for: the packets of frame \<open>f\<close>, if a request is due at all.\<close>

definition nack_due :: "int \<Rightarrow> cast_message_builder \<Rightarrow> frame_id \<Rightarrow> bool" where
  "nack_due now m f \<longleftrightarrow>
     (case mb_time_last_nacked_map m f of None \<Rightarrow> True | Some t \<Rightarrow> kNackRepeatIntervalUs \<le> now - t)"

definition missing_of :: "frame_map \<Rightarrow> frame_id \<Rightarrow> frame_id \<Rightarrow> u16 set" where
  "missing_of frames newest f =
     (case map_of frames f of None \<Rightarrow> {kRtcpCastAllPacketsLost}
      | Some b \<Rightarrow> {k. k \<le> (if f = newest then fb_max_seen_packet_id b else fb_max_packet_id b) \<and>
                     k \<notin> fst ` set (fb_packets b)})"

definition nacked_frames :: "int \<Rightarrow> frame_map \<Rightarrow> frame_id \<Rightarrow> cast_message_builder \<Rightarrow> frame_id set" where
  "nacked_frames now frames newest m = {f. nack_due now m f \<and> missing_of frames newest f \<noteq> {}}"

definition add_nacks :: "int \<Rightarrow> frame_map \<Rightarrow> frame_id \<Rightarrow> frame_id set \<Rightarrow> cast_message_builder \<Rightarrow> cast_message_builder" where
  "add_nacks now frames newest F m =
     m\<lparr>mb_time_last_nacked_map := (\<lambda>g. if g \<in> F then Some now else mb_time_last_nacked_map m g),
       mb_cast_msg := (mb_cast_msg m)\<lparr>msg_missing :=
         (\<lambda>g. if g \<in> F then Some (missing_of frames newest g) else msg_missing (mb_cast_msg m) g)\<rparr>\<rparr>"

lemma GetMissingPackets_sorted:
  assumes "fb_sorted b"
  shows "FrameBuffer_GetMissingPackets newest b S =
    S \<union> {k. k \<le> (if newest then fb_max_seen_packet_id b else fb_max_packet_id b) \<and> k \<notin> fst ` set (fb_packets b)}"
proof -
  let ?mx = "if newest then fb_max_seen_packet_id b else fb_max_packet_id b"
  obtain p' S' where l: "missing_loop (fb_packets b) (uint ?mx) 0 S = (p', S')" by force
  have "sorted_wrt (<) (map (uint \<circ> fst) (fb_packets b))"
    using assms by (simp add: fb_sorted_def sorted_wrt_map word_less_def)
  from missing_loop_eq [OF this _ l]
  have "insert_range p' (uint ?mx + 1) S' =
    S \<union> word_of_int ` {k. 0 \<le> k \<and> k \<le> uint ?mx \<and> k \<notin> (uint \<circ> fst) ` set (fb_packets b)}" by simp
  moreover have "word_of_int ` {k. 0 \<le> k \<and> k \<le> uint ?mx \<and> k \<notin> (uint \<circ> fst) ` set (fb_packets b)} =
    {k. k \<le> ?mx \<and> k \<notin> fst ` set (fb_packets b)}" (is "?A = ?B")
  proof
    show "?A \<subseteq> ?B"
    proof
      fix x assume "x \<in> ?A"
      then obtain k where k: "x = word_of_int k" "0 \<le> k" "k \<le> uint ?mx" "k \<notin> (uint \<circ> fst) ` set (fb_packets b)"
        by blast
      have "k < 2 ^ 16" using k(3) uint_lt2p [of ?mx] by simp
      then have "uint x = k" using k(1,2) by (simp add: uint_word_of_int)
      then show "x \<in> ?B" using k(3,4) by (auto simp: word_le_def)
    qed
    show "?B \<subseteq> ?A"
    proof
      fix x assume "x \<in> ?B"
      then have "x = word_of_int (uint x)" "0 \<le> uint x" "uint x \<le> uint ?mx"
        by (auto simp: word_le_def)
      moreover have "uint x \<notin> (uint \<circ> fst) ` set (fb_packets b)"
        using \<open>x \<in> ?B\<close> by (force simp flip: word_uint_eq_iff)
      ultimately show "x \<in> ?A" by blast
    qed
  qed
  ultimately show ?thesis using l by (simp add: FrameBuffer_GetMissingPackets_def Let_def)
qed

definition frames_sorted :: "frame_map \<Rightarrow> bool" where
  "frames_sorted frames \<longleftrightarrow> (\<forall>b\<in>set (map snd frames). fb_sorted b)"

lemma missing_of_eq:
  assumes "frames_sorted frames"
  shows "missing_of frames newest f =
    (if Framer_FrameExists f frames then Framer_GetMissingPackets f (newest = f) frames {} else {kRtcpCastAllPacketsLost})"
proof (cases "map_of frames f")
  case (Some b)
  then have "fb_sorted b" using assms map_of_SomeD [OF Some] by (force simp: frames_sorted_def)
  then show ?thesis using Some
    by (auto simp: missing_of_def Framer_FrameExists_def Framer_GetMissingPackets_def GetMissingPackets_sorted)
qed (simp add: missing_of_def Framer_FrameExists_def)

lemma add_nacks_empty [simp]: "add_nacks now frames newest {} m = m"
  by (simp add: add_nacks_def)

lemma add_nacks_add_nacks:
  "add_nacks now frames newest F (add_nacks now frames newest G m) = add_nacks now frames newest (F \<union> G) m"
  by (simp add: add_nacks_def fun_eq_iff)

lemma build_packet_step:
  assumes "frames_sorted frames" "f \<le> newest"
  shows "build_packet_loop now frames newest f m =
    build_packet_loop now frames newest (FrameId_plus f 1)
      (add_nacks now frames newest (nacked_frames now frames newest m \<inter> {f}) m)"
proof -
  have due: "(case mb_time_last_nacked_map m f of None \<Rightarrow> False | Some t \<Rightarrow> now - t < kNackRepeatIntervalUs) =
      (\<not> nack_due now m f)"
    by (simp add: nack_due_def not_le split: option.split)
  have F: "nacked_frames now frames newest m \<inter> {f} =
      (if nack_due now m f \<and> missing_of frames newest f \<noteq> {} then {f} else {})"
    by (auto simp: nacked_frames_def)
  have one: "add_nacks now frames newest {f} m =
      m\<lparr>mb_time_last_nacked_map := (mb_time_last_nacked_map m)(f \<mapsto> now),
        mb_cast_msg := (mb_cast_msg m)\<lparr>msg_missing :=
          (msg_missing (mb_cast_msg m))(f \<mapsto> missing_of frames newest f)\<rparr>\<rparr>"
    by (simp add: add_nacks_def fun_upd_def cong: if_cong)
  have eq: "(newest = f) = (f = newest)" by auto
  show ?thesis
    using missing_of_eq [OF assms(1), of newest f] unfolding F
    by (subst build_packet_loop.simps) (cases "Framer_FrameExists f frames"; simp add: assms(2) due one Let_def)
qed

lemma build_packet_loop_eq:
  assumes "frames_sorted frames"
  shows "build_packet_loop now frames newest f m =
    add_nacks now frames newest (nacked_frames now frames newest m \<inter> {f..newest}) m"
proof (induction "nat (fid newest + 1 - fid f)" arbitrary: f m)
  case 0
  then have "\<not> f \<le> newest" by (simp add: less_eq_frame_id_def)
  then show ?case by (subst build_packet_loop.simps) simp
next
  case (Suc k)
  then have le: "f \<le> newest" by (simp add: less_eq_frame_id_def)
  let ?F = "nacked_frames now frames newest m" and ?f = "FrameId_plus f 1"
  let ?m = "add_nacks now frames newest (?F \<inter> {f}) m"
  have "k = nat (fid newest + 1 - fid ?f)" using Suc.hyps(2) by (simp add: FrameId_plus_def)
  from Suc.hyps(1) [OF this, of ?m]
  have "build_packet_loop now frames newest f m =
      add_nacks now frames newest (nacked_frames now frames newest ?m \<inter> {?f..newest} \<union> ?F \<inter> {f}) m"
    using build_packet_step [OF assms le] by (simp add: add_nacks_add_nacks)
  moreover have "nacked_frames now frames newest ?m \<inter> {?f..newest} \<union> ?F \<inter> {f} = ?F \<inter> {f..newest}"
  proof -
    have "f \<notin> {?f..newest}" by (simp add: less_eq_frame_id_def FrameId_plus_def)
    then have "nacked_frames now frames newest ?m \<inter> {?f..newest} = ?F \<inter> {?f..newest}"
      by (auto simp: nacked_frames_def nack_due_def add_nacks_def)
    moreover have "{f..newest} = insert f {?f..newest}"
      using le by (auto simp: less_eq_frame_id_def FrameId_plus_def intro: frame_id.expand)
    ultimately show ?thesis by auto
  qed
  ultimately show ?case by simp
qed

section \<open>The framer's invariant\<close>

text \<open>The buffer of frame \<open>f\<close>: its packets are sorted and counted, and it has at least one.\<close>

definition buffer_ok :: "frame_id \<Rightarrow> frame_buffer \<Rightarrow> bool" where
  "buffer_ok f b \<longleftrightarrow> fb_frame_id b = f \<and> fb_packets b \<noteq> [] \<and> fb_sorted b \<and>
     fb_num_packets_received b = word_of_nat (length (fb_packets b)) \<and>
     fb_total_data_size b = sum_list (map (length \<circ> snd) (fb_packets b)) \<and>
     fb_max_seen_packet_id b = Max (fst ` set (fb_packets b))"

lemma sum_list_insort: "sum_list (map g (insort_key k x xs)) = g x + sum_list (map g xs)" for g :: "_ \<Rightarrow> nat"
  by (induction xs) auto

lemma insort_key_not_Nil [simp]: "insort_key k x xs \<noteq> []"
  by (cases xs) auto

lemma InsertPacket_buffer_ok:
  assumes "FrameBuffer_InsertPacket payload h b = Some (r, b')" "h_frame_id h = f"
    "b = FrameBuffer_init \<or> buffer_ok f b"
  shows "buffer_ok f b'"
proof -
  have "fb_sorted b" using assms(3) by (auto simp: buffer_ok_def FrameBuffer_init_def fb_sorted_def)
  then have sorted: "fb_sorted b'" using FrameBuffer_InsertPacket_sorted assms(1) by blast
  show ?thesis
  proof (cases "b = FrameBuffer_init")
    case True
    then show ?thesis
      using assms(1,2) sorted
      by (auto simp: FrameBuffer_InsertPacket_def FrameBuffer_init_def buffer_ok_def Let_def max_def split: if_splits)
  next
    case False
    then have b: "buffer_ok f b" using assms(3) by blast
    then have ne: "fst ` set (fb_packets b) \<noteq> {}" by (simp add: buffer_ok_def)
    show ?thesis
    proof (cases "map_of (fb_packets b) (h_packet_id h)")
      case None
      have "fb_max_seen_packet_id b' = Max (insert (h_packet_id h) (fst ` set (fb_packets b)))"
        using assms(1,2) b None ne
        by (auto simp: FrameBuffer_InsertPacket_def buffer_ok_def Let_def max.commute split: if_splits)
      then show ?thesis
        using assms(1,2) b None sorted
        by (auto simp: FrameBuffer_InsertPacket_def buffer_ok_def Let_def set_insort_key sum_list_insort add.commute
            split: if_splits)
    next
      case (Some x)
      then show ?thesis
        using assms(1,2) b
        by (auto simp: FrameBuffer_InsertPacket_def buffer_ok_def Let_def split: if_splits)
    qed
  qed
qed

definition framer_ok :: "framer \<Rightarrow> bool" where
  "framer_ok s \<longleftrightarrow> sorted_wrt (<) (map fst (fr_frames s)) \<and>
     (\<forall>(f, b)\<in>set (fr_frames s). buffer_ok f b \<and> f \<le> fr_newest_frame_id s) \<and>
     (mb_slowing_down_ack (fr_cast_msg_builder s) \<longrightarrow> mb_ack_queue (fr_cast_msg_builder s) \<noteq> [])"

text \<open>The calls a receiver makes.\<close>

datatype framer_op =
    Insert_Op "u8 list" rtp_cast_header
  | Ack_Op int int int frame_id
  | Release_Op int int int frame_id
  | Send_Op int int int

fun framer_step :: "framer_op \<Rightarrow> framer \<Rightarrow> framer option" where
  "framer_step (Insert_Op payload h) s = map_option (snd \<circ> snd) (Framer_InsertPacket payload h s)"
| "framer_step (Ack_Op t0 t1 t2 f) s = map_option snd (Framer_AckFrame t0 t1 t2 f s)"
| "framer_step (Release_Op t0 t1 t2 f) s = map_option snd (Framer_ReleaseFrame t0 t1 t2 f s)"
| "framer_step (Send_Op t0 t1 t2) s = Some (snd (Framer_SendCastMessage t0 t1 t2 s))"

fun framer_run :: "framer_op list \<Rightarrow> framer \<Rightarrow> framer option" where
  "framer_run [] s = Some s"
| "framer_run (op # ops) s = (case framer_step op s of None \<Rightarrow> None | Some s' \<Rightarrow> framer_run ops s')"

definition queue_ok :: "cast_message_builder \<Rightarrow> bool" where
  "queue_ok m \<longleftrightarrow> (mb_slowing_down_ack m \<longrightarrow> mb_ack_queue m \<noteq> [])"

lemma build_packet_loop_keeps:
  "mb_slowing_down_ack (build_packet_loop now frames newest f m) = mb_slowing_down_ack m \<and>
   mb_ack_queue (build_packet_loop now frames newest f m) = mb_ack_queue m"
proof (induction "nat (fid newest + 1 - fid f)" arbitrary: f m)
  case 0
  then have "\<not> f \<le> newest" by (simp add: less_eq_frame_id_def)
  then show ?case by (subst (1 2) build_packet_loop.simps) simp
next
  case (Suc k)
  have "k = nat (fid newest + 1 - fid (FrameId_plus f 1))" using Suc.hyps(2) by (simp add: FrameId_plus_def)
  from Suc.hyps(1) [OF this] show ?case
    by (subst (1 2) build_packet_loop.simps) (simp add: Let_def)
qed

lemma BuildPacketList_queue_ok: "queue_ok m \<Longrightarrow> queue_ok (BuildPacketList now frames newest m)"
  by (simp add: BuildPacketList_def queue_ok_def build_packet_loop_keeps Let_def)

lemma update_slowdown_queue_ok: "queue_ok m \<Longrightarrow> queue_ok (update_slowdown frames m)"
  by (simp add: update_slowdown_def queue_ok_def Let_def)

lemma acknowledge_keeps:
  "mb_slowing_down_ack (snd (acknowledge now f m)) = mb_slowing_down_ack m"
  "mb_ack_queue (snd (acknowledge now f m)) = mb_ack_queue m"
  by (simp_all add: acknowledge_def)

lemma UpdateAckMessage_queue_ok:
  assumes "queue_ok m" shows "queue_ok (snd (UpdateAckMessage now frames f m))"
proof -
  have "queue_ok (update_slowdown frames m)" using assms by (rule update_slowdown_queue_ok)
  then show ?thesis
    by (cases "mb_ack_queue (update_slowdown frames m)")
      (auto simp: UpdateAckMessage_def queue_ok_def acknowledge_keeps Let_def)
qed

lemma CompleteFrameReceived_queue_ok:
  assumes "queue_ok m" "CompleteFrameReceived t0 t1 t2 frames newest f m = Some (msg, m')"
  shows "queue_ok m'"
proof -
  let ?m = "if mb_last_update_time m = 0 then m\<lparr>mb_last_update_time := t0\<rparr> else m"
  have "queue_ok ?m" using assms(1) by (simp add: queue_ok_def)
  from UpdateAckMessage_queue_ok [OF this, of t1 frames f] show ?thesis
    using assms(2) BuildPacketList_queue_ok
    by (auto simp: CompleteFrameReceived_def Let_def split: if_splits prod.splits)
qed

lemma UpdateCastMessage_queue_ok:
  assumes "queue_ok m" shows "queue_ok (snd (UpdateCastMessage t0 t1 t2 frames newest m))"
proof -
  let ?m = "m\<lparr>mb_last_update_time := t0\<rparr>"
  have m: "queue_ok ?m" using assms by (simp add: queue_ok_def)
  from UpdateAckMessage_queue_ok [OF m, of t1 frames "last_acked_frame_id ?m"] show ?thesis
    using assms m BuildPacketList_queue_ok
    by (auto simp: UpdateCastMessage_def Let_def split: prod.splits)
qed

text \<open>Inserting a packet, with the two guards resolved and the updates of the frame map named.\<close>

definition insert_buffer :: "frame_id \<Rightarrow> frame_map \<Rightarrow> frame_map" where
  "insert_buffer f frames =
     (if map_of frames f = None then insort_key fst (f, FrameBuffer_init) frames else frames)"

definition set_buffer :: "frame_id \<Rightarrow> frame_buffer \<Rightarrow> frame_map \<Rightarrow> frame_map" where
  "set_buffer f b frames = map (\<lambda>e. if fst e = f then (f, b) else e) frames"

lemma keys_set_buffer [simp]: "map fst (set_buffer f b frames) = map fst frames"
  by (simp add: set_buffer_def)

lemma Framer_InsertPacket_cases:
  assumes "Framer_InsertPacket payload h s = Some (ret, dup, s')"
  shows "fr_cast_msg_builder s' = fr_cast_msg_builder s \<and> fr_newest_frame_id s \<le> fr_newest_frame_id s' \<and>
    (fr_frames s' = fr_frames s \<or>
     (\<exists>r b. FrameBuffer_InsertPacket payload h (the (map_of (insert_buffer (h_frame_id h) (fr_frames s)) (h_frame_id h))) =
         Some (r, b) \<and> h_frame_id h \<le> fr_newest_frame_id s' \<and>
       fr_frames s' = set_buffer (h_frame_id h) b (insert_buffer (h_frame_id h) (fr_frames s))))"
  using assms
  by (auto simp: Framer_InsertPacket_def Let_def insert_buffer_def set_buffer_def split: if_splits option.splits)

lemma Insert_ok:
  assumes "framer_ok s" "Framer_InsertPacket payload h s = Some (ret, dup, s')"
  shows "framer_ok s'"
proof -
  let ?f = "h_frame_id h" let ?fr = "insert_buffer ?f (fr_frames s)"
  have s: "sorted_wrt (<) (map fst (fr_frames s))"
    "\<And>g b. (g, b) \<in> set (fr_frames s) \<Longrightarrow> buffer_ok g b \<and> g \<le> fr_newest_frame_id s"
    using assms(1) by (auto simp: framer_ok_def)
  have sorted: "sorted_wrt (<) (map fst ?fr)"
    using s(1) sorted_wrt_insort_key [of "fr_frames s" ?f FrameBuffer_init] by (simp add: insert_buffer_def)
  have entries: "(g, b) \<in> set ?fr \<Longrightarrow> g \<noteq> ?f \<Longrightarrow> (g, b) \<in> set (fr_frames s)" for g b
    by (auto simp: insert_buffer_def set_insort_key split: if_splits)
  have mine: "\<exists>b. map_of ?fr ?f = Some b \<and> (b = FrameBuffer_init \<or> buffer_ok ?f b)"
  proof (cases "map_of (fr_frames s) ?f")
    case None
    have "distinct (map fst ?fr)" using sorted by (simp add: strict_sorted_iff)
    moreover have "(?f, FrameBuffer_init) \<in> set ?fr" using None by (simp add: insert_buffer_def set_insort_key)
    ultimately show ?thesis by (metis map_of_eq_Some_iff)
  next
    case (Some b)
    then show ?thesis using s(2) [OF map_of_SomeD [OF Some]] by (simp add: insert_buffer_def)
  qed
  from Framer_InsertPacket_cases [OF assms(2)] consider
      (same) "fr_frames s' = fr_frames s"
    | (new) r b where "FrameBuffer_InsertPacket payload h (the (map_of ?fr ?f)) = Some (r, b)"
        "?f \<le> fr_newest_frame_id s'" "fr_frames s' = set_buffer ?f b ?fr"
    by blast
  then show ?thesis
  proof cases
    case same
    then show ?thesis
      using assms(1) Framer_InsertPacket_cases [OF assms(2)] by (fastforce simp: framer_ok_def)
  next
    case new
    have b: "buffer_ok ?f b" using InsertPacket_buffer_ok [OF new(1) refl] mine by auto
    have "buffer_ok g c \<and> g \<le> fr_newest_frame_id s'" if "(g, c) \<in> set (fr_frames s')" for g c
    proof (cases "g = ?f")
      case True
      then have "c = b" using that new(3) by (auto simp: set_buffer_def split: if_splits)
      then show ?thesis using b True new(2) by simp
    next
      case False
      then have "(g, c) \<in> set ?fr" using that new(3) by (auto simp: set_buffer_def split: if_splits)
      then show ?thesis
        using s(2) [OF entries] False Framer_InsertPacket_cases [OF assms(2)] by (meson order_trans)
    qed
    then show ?thesis
      using assms(1) sorted Framer_InsertPacket_cases [OF assms(2)] new(3) by (auto simp: framer_ok_def)
  qed
qed

lemma SendCastMessage_ok:
  assumes "framer_ok s" shows "framer_ok (snd (Framer_SendCastMessage t0 t1 t2 s))"
proof -
  have q: "queue_ok (fr_cast_msg_builder s)" using assms(1) by (simp add: framer_ok_def queue_ok_def)
  from UpdateCastMessage_queue_ok [OF q, of t0 t1 t2 "fr_frames s" "fr_newest_frame_id s"] show ?thesis
    using assms(1) by (simp add: Framer_SendCastMessage_def framer_ok_def queue_ok_def split_def Let_def)
qed

lemma framer_step_ok:
  assumes "framer_ok s" "framer_step op s = Some s'"
  shows "framer_ok s'"
proof (cases op)
  case (Insert_Op payload h)
  then show ?thesis using assms Insert_ok by fastforce
next
  case (Ack_Op t0 t1 t2 f)
  obtain msg m where m: "CompleteFrameReceived t0 t1 t2 (fr_frames s) (fr_newest_frame_id s) f
      (fr_cast_msg_builder s) = Some (msg, m)" "s' = s\<lparr>fr_cast_msg_builder := m\<rparr>"
    using assms(2) Ack_Op by (auto simp: Framer_AckFrame_def)
  have "queue_ok m"
    using CompleteFrameReceived_queue_ok [OF _ m(1)] assms(1) by (simp add: framer_ok_def queue_ok_def)
  then show ?thesis using assms(1) m(2) by (simp add: framer_ok_def queue_ok_def)
next
  case (Release_Op t0 t1 t2 f)
  let ?s = "s\<lparr>fr_frames := filter (\<lambda>e. \<not> fst e \<le> f) (fr_frames s), fr_last_released_frame := f\<rparr>"
  have "sorted_wrt (<) (map fst (filter (\<lambda>e. \<not> fst e \<le> f) (fr_frames s)))"
    using assms(1) unfolding framer_ok_def sorted_wrt_map by (blast intro: sorted_wrt_filter)
  then have ok: "framer_ok ?s" using assms(1) by (auto simp: framer_ok_def)
  have "s' = ?s \<or> s' = snd (Framer_SendCastMessage t0 t1 t2 ?s)"
    using assms(2) Release_Op by (auto simp: Framer_ReleaseFrame_def Let_def split: list.splits if_splits)
  then show ?thesis using ok SendCastMessage_ok [OF ok] by auto
next
  case (Send_Op t0 t1 t2)
  then show ?thesis using assms SendCastMessage_ok by auto
qed

lemma framer_run_ok: "framer_ok s \<Longrightarrow> framer_run ops s = Some s' \<Longrightarrow> framer_ok s'"
  by (induction ops s rule: framer_run.induct) (auto intro: framer_step_ok split: option.splits)

lemma framer_ok_init: "framer_ok (Framer_init ssrc faster max_unacked)"
  by (simp add: framer_ok_def Framer_init_def CastMessageBuilder_init_def)

lemma framer_frames_sorted: "framer_ok s \<Longrightarrow> frames_sorted (fr_frames s)"
  by (auto simp: framer_ok_def frames_sorted_def buffer_ok_def)

text \<open>A buffer is complete when it has every packet up to the maximum.\<close>

lemma Complete_iff:
  assumes ok: "buffer_ok f b" and ids: "\<forall>k\<in>fst ` set (fb_packets b). k \<le> fb_max_packet_id b"
    and mx: "fb_max_packet_id b < - 1"
  shows "FrameBuffer_Complete b \<longleftrightarrow> fst ` set (fb_packets b) = {..fb_max_packet_id b}"
proof -
  let ?I = "fst ` set (fb_packets b)" and ?mx = "fb_max_packet_id b"
  have sub: "?I \<subseteq> {..?mx}" using ids by auto
  have fin: "finite {..?mx}" by (rule finite_subset [OF subset_UNIV]) simp
  have "distinct (map fst (fb_packets b))" using ok by (simp add: buffer_ok_def fb_sorted_def strict_sorted_iff)
  then have len: "length (fb_packets b) = card ?I" by (metis distinct_card length_map set_map)
  have "inj_on unat {..?mx}" by (rule inj_onI) (simp add: word_unat_eq_iff)
  moreover have "unat ` {..?mx} = {..unat ?mx}"
  proof
    show "{..unat ?mx} \<subseteq> unat ` {..?mx}"
    proof
      fix k assume "k \<in> {..unat ?mx}"
      then have k: "k \<le> unat ?mx" by simp
      moreover have "unat ?mx < 65535" using mx by (simp add: word_less_nat_alt unsigned_minus_1_eq_mask mask_eq_exp_minus_1)
      ultimately have "k < 65536" by simp
      then have "unat (word_of_nat k :: u16) = k" by (rule unat_small)
      then show "k \<in> unat ` {..?mx}" using k by (intro image_eqI [of _ _ "word_of_nat k"]) (auto simp: word_le_nat_alt)
    qed
  qed (auto simp: word_le_nat_alt)
  ultimately have card: "card {..?mx} = Suc (unat ?mx)" by (metis card_atMost card_image)
  have "unat ?mx < 65535" using mx by (simp add: word_less_nat_alt unsigned_minus_1_eq_mask mask_eq_exp_minus_1)
  then have small: "card ?I < 65536" using card_mono [OF fin sub] card by simp
  have "FrameBuffer_Complete b \<longleftrightarrow> card ?I = Suc (unat ?mx)"
  proof -
    have "uint (word_of_nat (card ?I) :: u16) = int (card ?I)" using unat_small [OF small] by (simp only: uint_nat)
    then have "uint (fb_num_packets_received b) = int (card ?I)" using ok by (simp only: buffer_ok_def len)
    then have "FrameBuffer_Complete b \<longleftrightarrow> int (card ?I) - 1 = int (unat ?mx)"
      by (simp only: FrameBuffer_Complete_def uint_nat [of ?mx])
    then show ?thesis by linarith
  qed
  then show ?thesis using card card_subset_eq [OF fin sub] by metis
qed

section \<open>Concrete readers, writers and frames\<close>

definition list_reader :: "u8 list be_reader" where
  "list_reader =
     \<lparr>rd_new = (\<lambda>bs. bs),
      rd_u8 = (\<lambda>r. case r of [] \<Rightarrow> None | b # r \<Rightarrow> Some (b, r)),
      rd_u16 = (\<lambda>r. if length r < 2 then None else Some (be_word (take 2 r), drop 2 r)),
      rd_u32 = (\<lambda>r. if length r < 4 then None else Some (be_word (take 4 r), drop 4 r)),
      rd_skip = (\<lambda>n r. if length r < n then None else Some (drop n r)),
      rd_piece = (\<lambda>n r. if length r < n then None else Some (take n r, drop n r)),
      rd_rest = (\<lambda>r. r)\<rparr>"

definition list_writer :: be_writer where
  "list_writer =
     \<lparr>wr_u16 = (\<lambda>x. [ucast (drop_bit 8 x), ucast x]),
      wr_u32 = (\<lambda>x. [ucast (drop_bit 24 x), ucast (drop_bit 16 x), ucast (drop_bit 8 x), ucast x])\<rparr>"

lemma list_reader_ok: "be_reader_ok list_reader"
proof -
  have ex: "n \<le> length r \<Longrightarrow> \<exists>bs. length bs = n \<and> r = bs @ drop n r" for n and r :: "u8 list"
    by (intro exI [of _ "take n r"]) simp
  have ex': "n \<le> length r \<Longrightarrow> \<exists>bs. length bs = n \<and> r = bs @ drop n r \<and> f (take n r) = f bs"
    for n and r :: "u8 list" and f :: "u8 list \<Rightarrow> 'b"
    by (intro exI [of _ "take n r"]) simp
  show ?thesis
    by (auto simp: be_reader_ok_def list_reader_def not_less ex ex' split: list.splits)
qed

lemma be_word_u32_split:
  "be_word [ucast (drop_bit 24 x), ucast (drop_bit 16 x), ucast (drop_bit 8 x), ucast x] = (x :: u32)"
proof (rule bit_word_eqI)
  fix n assume "n < LENGTH(32)"
  then have "n < 8 \<or> (\<exists>k<8. n = 8 + k) \<or> (\<exists>k<8. n = 16 + k) \<or> (\<exists>k<8. n = 24 + k)" by simp presburger
  then show "bit (be_word [ucast (drop_bit 24 x), ucast (drop_bit 16 x), ucast (drop_bit 8 x), ucast x] :: u32) n =
      bit x n"
    by (elim disjE exE conjE)
      (simp_all add: be_word_def bit_or_iff bit_push_bit_iff bit_ucast_iff bit_drop_bit_eq ac_simps)
qed

lemma list_writer_ok: "be_writer_ok list_writer"
  using be_word_u16_split be_word_u32_split by (simp add: be_writer_ok_def list_writer_def)

text \<open>A key frame of five bytes, cut into two packets.\<close>

definition short_frame :: encoded_frame where
  "short_frame = large_frame\<lparr>ef_data := [10, 20, 30, 40, 50], ef_new_playout_delay_ms := 7\<rparr>"

definition short_parser :: rtp_parser where
  "short_parser = RtpParser_init 1 96"

definition header_of :: "int \<Rightarrow> bool \<Rightarrow> int \<Rightarrow> u16 \<Rightarrow> u16 \<Rightarrow> rtp_cast_header" where
  "header_of f key ref packet mx = RtpCastHeader_init\<lparr>h_is_key_frame := key, h_frame_id := FrameId f,
     h_reference_frame_id := FrameId ref, h_packet_id := packet, h_max_packet_id := mx\<rparr>"

text \<open>Frame 0 is complete, frame 1 never arrives, and frame 2 misses its first packet of three.\<close>

definition sample_ops :: "framer_op list" where
  "sample_ops = [Insert_Op [1] (header_of 0 True 0 0 1), Insert_Op [2] (header_of 0 True 0 1 1),
     Insert_Op [3] (header_of 2 False 1 1 2)]"

definition sample_framer :: framer where
  "sample_framer = the (framer_run sample_ops (Framer_init 1 True 3))"

lemma sample_run: "framer_run sample_ops (Framer_init 1 True 3) = Some sample_framer"
proof -
  have "framer_run sample_ops (Framer_init 1 True 3) \<noteq> None" by code_simp
  then show ?thesis by (auto simp: sample_framer_def)
qed

section \<open>Properties\<close>

text \<open>
  C3: a frame reaches the receiver, except for its playout delay: the packets the packetizer makes
  of a frame, received in any order, each at least once and any number of times, are all parsed and
  fill a frame buffer that assembles to the data, ID, timestamp, dependency and referenced frame of
  the frame. The playout delay arrives only when packet 0 is the first to arrive, and is 0
  otherwise; the reference time is not sent. Conditions: the reader and the writer of big-endian
  numbers do what they promise; the parser expects the SSRC and the payload type (below 128) of the
  packetizer; the IDs and the timestamp are within half the range of their truncated form from
  those the parser has seen last; the referenced frame is the frame itself exactly for key and
  independent frames, and the dependency is known; the storage takes the frame, because it is
  empty or the frame follows its newest one and it is not full; and, with \<open>m\<close> the room for payload
  in a packet, the frame is not empty and has fewer than \<open>m * (m - 1)\<close> bytes. From there on
  \<open>SendFrameAsPackets\<close> may announce more packets than it makes (\<open>SendFrameAsPackets_miscounts\<close>).
\<close>

theorem cast_frame_delivery:
  assumes R: "be_reader_ok R" and W: "be_writer_ok W"
    and rp: "parser_for rp (pz_config p)" "in_range rp frame" and dep: "dependency_ok frame"
    and len: "0 < length (ef_data frame)" "length (ef_data frame) < max_length_of p * (max_length_of p - 1)"
    and st: "can_store (ef_frame_id frame) (pz_packet_storage p)"
  shows "\<exists>packets p'. SendFrameAsPackets W frame p = Some (packets, p') \<and>
    (\<forall>is. set is = {..<length packets} \<longrightarrow>
      (\<exists>rp' b. receive R (map (\<lambda>i. snd (packets ! i)) is) rp FrameBuffer_init = Some (rp', b) \<and>
        AssembleEncodedFrame b frame0 =
          Some (frame\<lparr>ef_reference_time := ef_reference_time frame0,
            ef_new_playout_delay_ms := (if hd is = 0 then ef_new_playout_delay_ms frame else 0)\<rparr>)))"
proof -
  define m where "m = max_length_of p"
  define n where "n = num_packets_of m (length (ef_data frame))"
  define pl where "pl = payload_length_of m (length (ef_data frame))"
  define pks where "pks = map (nth_packet W (pz_config p) frame n pl (pz_sequence_number p)) [0..<n]"
  have m: "0 < m" using len(2) by (cases m) (auto simp: m_def)
  have count: "packet_count pl (length (ef_data frame)) = n"
    using split_count [OF len] by (simp add: m_def n_def pl_def)
  have pl: "0 < pl" using m by (simp add: pl_def split_eq)
  have n0: "0 < n" using m by (simp add: n_def split_eq)
  have enough: "length (ef_data frame) \<le> n * pl"
    using less_packet_count [OF pl, of n "length (ef_data frame)"] count by simp
  have "length (ef_data frame) div m < m - 1"
    using len(2) by (simp add: m_def less_mult_imp_div_less mult.commute)
  moreover have "m < 65536" using unsigned_less [of "cfg_max_payload_length (pz_config p) - 20"]
    by (simp add: m_def max_length_of_def)
  ultimately have n: "n \<le> 65535" using m by (simp add: n_def split_eq)
  have ud: "ef_dependency frame \<noteq> UNKNOWN_DEPENDENCY" using dep by (auto simp: dependency_ok_def)
  have "\<exists>p'. SendFrameAsPackets W frame p = Some (pks, p')"
    using SendFrameAsPackets_eq [OF ud, of p W] m count st n0
    by (auto simp: Let_def pks_def StoreFrame_def can_store_def simp flip: m_def n_def pl_def)
  then obtain p' where send: "SendFrameAsPackets W frame p = Some (pks, p')" by blast
  have pk: "snd (pks ! i) = frame_packet W (pz_config p) frame n (length (ef_data frame) \<le> Suc i * pl)
      (pz_sequence_number p + word_of_nat i) (word_of_nat i) (frame_chunk pl frame i)" if "i < n" for i
    using that by (simp add: pks_def nth_packet_def frame_chunk_def)
  have "\<exists>rp' b. receive R (map (\<lambda>i. snd (pks ! i)) is) rp FrameBuffer_init = Some (rp', b) \<and>
        AssembleEncodedFrame b frame0 = Some (frame\<lparr>ef_reference_time := ef_reference_time frame0,
            ef_new_playout_delay_ms := (if hd is = 0 then ef_new_playout_delay_ms frame else 0)\<rparr>)"
    if ix: "set is = {..<length pks}" for "is"
  proof -
    have ixn: "set is = {..<n}" using ix by (simp add: pks_def)
    then have "\<forall>j\<in>set ([] @ is). j < n" by simp
    from receive_eq [OF R W rp this _ dep, of "\<lambda>i. snd (pks ! i)"] pk n
    obtain rp' where "receive R (map (\<lambda>i. snd (pks ! i)) is) rp (buffer_after pl n frame []) =
        Some (rp', buffer_after pl n frame is)" by fastforce
    then show ?thesis
      using Assemble_complete [OF ixn n0 n enough dep] by (auto simp: buffer_after_def)
  qed
  with send show ?thesis by blast
qed

theorem cast_frame_delivery_witness:
  "\<exists>packets p'. SendFrameAsPackets list_writer short_frame small_packetizer = Some (packets, p') \<and>
    (\<forall>is. set is = {..<length packets} \<longrightarrow>
      (\<exists>rp' b. receive list_reader (map (\<lambda>i. snd (packets ! i)) is) short_parser FrameBuffer_init = Some (rp', b) \<and>
        AssembleEncodedFrame b large_frame =
          Some (short_frame\<lparr>ef_reference_time := ef_reference_time large_frame,
            ef_new_playout_delay_ms := (if hd is = 0 then ef_new_playout_delay_ms short_frame else 0)\<rparr>)))"
proof (rule cast_frame_delivery [OF list_reader_ok list_writer_ok])
  have m: "max_length_of small_packetizer = 3"
    by (simp add: max_length_of_def small_packetizer_def RtpPacketizer_init_def)
  show "parser_for short_parser (pz_config small_packetizer)"
    by (simp add: parser_for_def short_parser_def RtpParser_init_def small_packetizer_def RtpPacketizer_init_def)
  show "in_range short_parser short_frame" "dependency_ok short_frame"
    by (simp_all add: in_range_def short_parser_def RtpParser_init_def FrameId_plus_def FrameId_first_def
        short_frame_def large_frame_def dependency_ok_def)
  show "0 < length (ef_data short_frame)"
    "length (ef_data short_frame) < max_length_of small_packetizer * (max_length_of small_packetizer - 1)"
    by (simp_all add: m short_frame_def)
  show "can_store (ef_frame_id short_frame) (pz_packet_storage small_packetizer)"
    by (simp add: can_store_def small_packetizer_def RtpPacketizer_init_def PacketStorage_init_def)
qed

text \<open>
  C33: whatever packets arrive and whatever frames are acknowledged and released, as long as no
  assertion fails the framer's invariant holds: the frames are in ascending order with one entry
  each, an entry holds the packets of its own frame, at least one, sorted, counted and with
  their total size and largest ID, no frame is newer than the newest frame ID, and the queue of
  delayed acknowledgements is never empty while acknowledgements are slowed down.
\<close>

theorem framer_invariant:
  assumes "framer_run ops (Framer_init ssrc faster max_unacked) = Some s"
  shows "sorted_wrt (<) (map fst (fr_frames s)) \<and>
    (\<forall>(f, b)\<in>set (fr_frames s). buffer_ok f b \<and> f \<le> fr_newest_frame_id s) \<and>
    (mb_slowing_down_ack (fr_cast_msg_builder s) \<longrightarrow> mb_ack_queue (fr_cast_msg_builder s) \<noteq> [])"
  using framer_run_ok [OF framer_ok_init assms] by (simp add: framer_ok_def)

theorem framer_invariant_witness:
  "sorted_wrt (<) (map fst (fr_frames sample_framer)) \<and>
    buffer_ok (fst (hd (fr_frames sample_framer))) (snd (hd (fr_frames sample_framer)))"
proof -
  have "fr_frames sample_framer \<noteq> []" by code_simp
  then have "hd (fr_frames sample_framer) \<in> set (fr_frames sample_framer)" by (rule hd_in_set)
  then show ?thesis using framer_invariant [OF sample_run] by (simp add: case_prod_beta)
qed

text \<open>
  C26: in every reachable state a message asks for a frame exactly when the frame comes after the
  last acknowledged one, is not newer than the newest one, was not asked for in the last 30 ms and
  has packets missing; it then asks for all of them: the packets not received up to the last one,
  in the newest frame up to the largest one seen, or the whole frame when none has arrived.
\<close>

theorem BuildPacketList_exact:
  assumes "framer_run ops (Framer_init ssrc faster max_unacked) = Some s"
  shows "msg_missing (mb_cast_msg (BuildPacketList now (fr_frames s) (fr_newest_frame_id s) (fr_cast_msg_builder s))) f =
    (if fr_frames s \<noteq> [] \<and> last_acked_frame_id (fr_cast_msg_builder s) < f \<and> f \<le> fr_newest_frame_id s \<and>
        nack_due now (fr_cast_msg_builder s) f \<and> missing_of (fr_frames s) (fr_newest_frame_id s) f \<noteq> {}
     then Some (missing_of (fr_frames s) (fr_newest_frame_id s) f) else None)"
proof -
  have "frames_sorted (fr_frames s)" by (rule framer_frames_sorted [OF framer_run_ok [OF framer_ok_init assms]])
  moreover have "FrameId_plus g 1 \<le> f \<longleftrightarrow> g < f" for g
    by (simp add: less_eq_frame_id_def less_frame_id_def FrameId_plus_def) linarith
  ultimately show ?thesis
    by (simp add: BuildPacketList_def build_packet_loop_eq add_nacks_def nacked_frames_def nack_due_def Let_def
        last_acked_frame_id_def)
qed

theorem BuildPacketList_exact_witness:
  "msg_missing (mb_cast_msg (BuildPacketList 40000 (fr_frames sample_framer) (fr_newest_frame_id sample_framer)
      (fr_cast_msg_builder sample_framer))) (FrameId 1) = Some {kRtcpCastAllPacketsLost}"
proof -
  have "fr_frames sample_framer \<noteq> []" by code_simp
  moreover have "last_acked_frame_id (fr_cast_msg_builder sample_framer) < FrameId 1" by code_simp
  moreover have "FrameId 1 \<le> fr_newest_frame_id sample_framer" by code_simp
  moreover have "nack_due 40000 (fr_cast_msg_builder sample_framer) (FrameId 1)" by code_simp
  moreover have "map_of (fr_frames sample_framer) (FrameId 1) = None" by code_simp
  then have "missing_of (fr_frames sample_framer) (fr_newest_frame_id sample_framer) (FrameId 1) =
      {kRtcpCastAllPacketsLost}" by (simp add: missing_of_def)
  ultimately show ?thesis
    using BuildPacketList_exact [OF sample_run, of 40000 "FrameId 1"] by simp
qed

text \<open>
  C34: the stream goes on: in any state that a run of the framer reaches, once all packets of the
  frame after the last released one are there, the framer hands that frame out as the next one.
  The frame must be a key frame while the framer waits for one, which it does until the first
  packet of a key frame has arrived; and the highest packet number of the frame must be below
  \<open>0xffff\<close>, since the packets are counted in 16 bits.
\<close>

theorem GetEncodedFrame_next:
  assumes "framer_run ops (Framer_init ssrc faster max_unacked) = Some s"
    and b: "(FrameId_plus (fr_last_released_frame s) 1, b) \<in> set (fr_frames s)"
    and key: "fr_waiting_for_key s \<Longrightarrow> fb_is_key_frame b"
    and all: "fst ` set (fb_packets b) = {..fb_max_packet_id b}" "fb_max_packet_id b < - 1"
  shows "fst (GetEncodedFrame frame s) = map_option (\<lambda>f. (f, True)) (AssembleEncodedFrame b frame) \<and>
    AssembleEncodedFrame b frame \<noteq> None"
proof -
  let ?f = "FrameId_plus (fr_last_released_frame s) 1"
  have ok: "framer_ok s" by (rule framer_run_ok [OF framer_ok_init assms(1)])
  have bok: "buffer_ok ?f b" using ok b by (auto simp: framer_ok_def)
  then have complete: "FrameBuffer_Complete b" using Complete_iff [OF bok _ all(2)] all(1) by blast
  have next1: "IsNextFrameForRelease s b" using bok key by (auto simp: IsNextFrameForRelease_def buffer_ok_def)
  have unique: "c = b" if "c \<in> set (map snd (fr_frames s))" "IsNextFrameForRelease s c" for c
  proof -
    from that(1) obtain g where g: "(g, c) \<in> set (fr_frames s)" by auto
    then have "buffer_ok g c" using ok by (auto simp: framer_ok_def)
    then have "g = ?f" using that(2) by (auto simp: IsNextFrameForRelease_def buffer_ok_def split: if_splits)
    moreover have "distinct (map fst (fr_frames s))" using ok by (simp add: framer_ok_def strict_sorted_iff)
    ultimately show ?thesis using g b by (metis map_of_eq_Some_iff option.inject)
  qed
  have "b \<in> set (map snd (fr_frames s))" using b by force
  have "FindNextFrameForRelease s = Some b"
  proof (cases "FindNextFrameForRelease s")
    case None
    then show ?thesis using \<open>b \<in> _\<close> complete next1 by (auto simp: FindNextFrameForRelease_def find_None_iff)
  next
    case (Some c)
    then have "c \<in> set (map snd (fr_frames s))" "IsNextFrameForRelease s c"
      by (auto simp: FindNextFrameForRelease_def find_Some_iff)
    then show ?thesis using unique Some by blast
  qed
  then show ?thesis using complete by (simp add: GetEncodedFrame_def AssembleEncodedFrame_def)
qed

theorem GetEncodedFrame_next_witness:
  "fst (GetEncodedFrame short_frame sample_framer) =
    map_option (\<lambda>f. (f, True)) (AssembleEncodedFrame (snd (hd (fr_frames sample_framer))) short_frame)"
proof -
  let ?b = "snd (hd (fr_frames sample_framer))"
  have ne: "fr_frames sample_framer \<noteq> []" by code_simp
  have "fst (hd (fr_frames sample_framer)) = FrameId_plus (fr_last_released_frame sample_framer) 1" by code_simp
  then have "(FrameId_plus (fr_last_released_frame sample_framer) 1, ?b) \<in> set (fr_frames sample_framer)"
    using hd_in_set [OF ne] by (metis prod.collapse)
  moreover have "fb_is_key_frame ?b" by code_simp
  moreover have "fb_max_packet_id ?b = 1" by code_simp
  moreover have "map fst (fb_packets ?b) = [0, 1]" by code_simp
  then have "fst ` set (fb_packets ?b) = {0, 1}" by (metis image_set list.set(1) list.set(2))
  moreover have "x = 0 \<or> x = 1" if "x \<le> 1" for x :: u16
    using that by (simp add: word_le_nat_alt word_unat_eq_iff) arith
  then have "{0, 1} = {..1 :: u16}" by auto
  moreover have "(1 :: u16) < - 1" by code_simp
  ultimately show ?thesis using GetEncodedFrame_next [OF sample_run, of ?b short_frame] by simp
qed

text \<open>
  A key frame 10 of two packets is under way, and before it a complete frame 3 that depends on frame 2
  has arrived.
\<close>

definition early_ops :: "framer_op list" where
  "early_ops = [Insert_Op [3] (header_of 3 False 2 0 0), Insert_Op [1] (header_of 10 True 10 0 1)]"

text \<open>
  A receiver whose decoder may skip frames can hand out a dependent frame although no key frame
  has been decoded: packets kept while waiting for the first key frame count as decodable as soon as
  the first packet of a key frame has arrived, because their reference is older than the frame
  before that key frame, and releasing the frame moves the last released frame back from 9 to 3.
\<close>

theorem dependent_frame_before_key:
  "\<exists>s. framer_run early_ops (Framer_init 1 True 3) = Some s \<and>
     fr_last_released_frame s = FrameId 9 \<and>
     (\<exists>frame. fst (GetEncodedFrame large_frame s) = Some (frame, False) \<and>
        ef_dependency frame = DEPENDENT \<and> ef_frame_id frame = FrameId 3 \<and>
        ef_referenced_frame_id frame = FrameId 2) \<and>
     (\<exists>msg s'. Framer_ReleaseFrame t0 t1 t2 (FrameId 3) s = Some (msg, s') \<and>
        fr_last_released_frame s' = FrameId 3)"
proof -
  define s where "s = the (framer_run early_ops (Framer_init 1 True 3))"
  have "framer_run early_ops (Framer_init 1 True 3) \<noteq> None" by code_simp
  then have run: "framer_run early_ops (Framer_init 1 True 3) = Some s" by (auto simp: s_def)
  define frame where "frame = fst (the (fst (GetEncodedFrame large_frame s)))"
  have "fst (GetEncodedFrame large_frame s) \<noteq> None" "\<not> snd (the (fst (GetEncodedFrame large_frame s)))"
    unfolding s_def by code_simp+
  then have "fst (GetEncodedFrame large_frame s) = Some (frame, False)"
    by (cases "fst (GetEncodedFrame large_frame s)") (auto simp: frame_def)
  moreover have "ef_dependency frame = DEPENDENT" "ef_frame_id frame = FrameId 3"
    "ef_referenced_frame_id frame = FrameId 2"
    unfolding frame_def s_def by code_simp+
  moreover have "fr_last_released_frame s = FrameId 9" unfolding s_def by code_simp
  moreover have "map fst (fr_frames s) = [FrameId 3, FrameId 10]" unfolding s_def by code_simp
  then have "\<exists>msg s'. Framer_ReleaseFrame t0 t1 t2 (FrameId 3) s = Some (msg, s') \<and>
      fr_last_released_frame s' = FrameId 3"
    by (auto simp: Framer_ReleaseFrame_def Let_def less_frame_id_def split: list.splits)
  ultimately show ?thesis using run by blast
qed

end
