(* ===== verification/Interval_Map.thy ===== *)
theory Interval_Map
  imports Media_Prelude
begin

text \<open>
  \<open>IntervalMap\<close> of \<open>blink/interval_map.h\<close>: a function of all keys stored as a \<open>std::map\<close>
  from the first key of each interval to its value. The \<open>std::map\<close> is an association list in
  ascending order of its keys; an iterator is the key it points to, or \<open>None\<close> for the end.
  \<open>NumericLimits::min()\<close> is the least element \<open>bot\<close> of the key type, and
  \<open>NumericLimits::max()\<close> the argument \<open>key_max\<close>. A failing assertion is \<open>None\<close>.
\<close>

section \<open>Interval\<close>

record 'k interval =
  iv_begin :: 'k
  iv_end :: 'k

definition Interval_Intersect :: "'k::linorder interval \<Rightarrow> 'k interval \<Rightarrow> 'k interval" where
  "Interval_Intersect a b =
     \<lparr>iv_begin = max (iv_begin a) (iv_begin b), iv_end = min (iv_end a) (iv_end b)\<rparr>"

definition Interval_Empty :: "'k::linorder interval \<Rightarrow> bool" where
  "Interval_Empty a \<longleftrightarrow> iv_begin a \<ge> iv_end a"

section \<open>The map\<close>

type_synonym ('k, 'v) interval_map = "('k \<times> 'v) list"

definition IntervalMap_init :: "('k::{linorder,order_bot}, 'v::zero) interval_map" where
  "IntervalMap_init = [(bot, 0)]"

definition IntervalMap_clear :: "('k::{linorder,order_bot}, 'v::zero) interval_map \<Rightarrow> ('k, 'v) interval_map" where
  "IntervalMap_clear m = [(bot, 0)]"

definition IntervalMap_empty :: "('k, 'v) interval_map \<Rightarrow> bool" where
  "IntervalMap_empty m \<longleftrightarrow> length m = 1"

text \<open>The entry before \<open>upper_bound(k)\<close>.\<close>

definition IntervalMap_find :: "'k::linorder \<Rightarrow> ('k, 'v) interval_map \<Rightarrow> ('k \<times> 'v) option" where
  "IntervalMap_find k m = (case takeWhile (\<lambda>e. fst e \<le> k) m of [] \<Rightarrow> None | es \<Rightarrow> Some (last es))"

definition IntervalMap_at :: "('k::linorder, 'v) interval_map \<Rightarrow> 'k \<Rightarrow> 'v option" where
  "IntervalMap_at m k = map_option snd (IntervalMap_find k m)"

fun insert_entry :: "'k::linorder \<Rightarrow> 'v \<Rightarrow> ('k, 'v) interval_map \<Rightarrow> ('k, 'v) interval_map" where
  "insert_entry k v [] = [(k, v)]"
| "insert_entry k v (e # es) =
     (if k < fst e then (k, v) # e # es else if k = fst e then e # es else e # insert_entry k v es)"

definition MakeEntry :: "'k::linorder \<Rightarrow> ('k, 'v::zero) interval_map \<Rightarrow> ('k, 'v) interval_map" where
  "MakeEntry k m =
     (if k \<in> fst ` set m then m
      else insert_entry k (case takeWhile (\<lambda>e. fst e < k) m of [] \<Rightarrow> 0 | es \<Rightarrow> snd (last es)) m)"

definition RemoveDuplicates :: "'k::linorder option \<Rightarrow> ('k, 'v) interval_map \<Rightarrow> ('k, 'v) interval_map" where
  "RemoveDuplicates i m =
     (case i of None \<Rightarrow> m
      | Some k \<Rightarrow>
          let pre = takeWhile (\<lambda>e. fst e < k) m; rest = dropWhile (\<lambda>e. fst e < k) m;
              (before, first, after) =
                (if pre \<noteq> [] \<and> snd (last pre) = snd (hd rest) then (butlast pre, last pre, tl rest)
                 else (pre, hd rest, tl rest))
          in if after \<noteq> [] \<and> snd first = snd (hd after) then before @ first # tl after
             else before @ first # after)"

definition lower_bound :: "'k::linorder \<Rightarrow> ('k, 'v) interval_map \<Rightarrow> 'k option" where
  "lower_bound k m = (case dropWhile (\<lambda>e. fst e < k) m of [] \<Rightarrow> None | e # _ \<Rightarrow> Some (fst e))"

text \<open>The loops from the iterator \<open>a\<close> to the iterator \<open>b\<close>.\<close>

fun increment_until :: "'k \<Rightarrow> 'v::plus \<Rightarrow> ('k, 'v) interval_map \<Rightarrow> ('k, 'v) interval_map" where
  "increment_until b how_much [] = []"
| "increment_until b how_much (e # es) =
     (if fst e = b then e # es else (fst e, snd e + how_much) # increment_until b how_much es)"

fun erase_until :: "'k \<Rightarrow> ('k, 'v) interval_map \<Rightarrow> ('k, 'v) interval_map" where
  "erase_until b [] = []"
| "erase_until b (e # es) = (if fst e = b then e # es else erase_until b es)"

definition IncrementInterval ::
  "'k::linorder \<Rightarrow> 'k \<Rightarrow> 'v::monoid_add \<Rightarrow> ('k, 'v) interval_map \<Rightarrow> ('k, 'v) interval_map" where
  "IncrementInterval from to how_much m =
     (if to \<le> from \<or> how_much = 0 then m
      else
        let m1 = MakeEntry to (MakeEntry from m);
            m2 = takeWhile (\<lambda>e. fst e \<noteq> from) m1 @ increment_until to how_much (dropWhile (\<lambda>e. fst e \<noteq> from) m1);
            m3 = RemoveDuplicates (Some from) m2
        in RemoveDuplicates (lower_bound to m3) m3)"

definition SetInterval ::
  "'k::linorder \<Rightarrow> 'k \<Rightarrow> 'v::zero \<Rightarrow> ('k, 'v) interval_map \<Rightarrow> ('k, 'v) interval_map" where
  "SetInterval from to how_much m =
     (if to \<le> from then m
      else
        let m1 = MakeEntry to (MakeEntry from m);
            m2 = takeWhile (\<lambda>e. fst e \<noteq> from) m1 @
                   (from, how_much) # erase_until to (tl (dropWhile (\<lambda>e. fst e \<noteq> from) m1));
            m3 = RemoveDuplicates (Some from) m2
        in RemoveDuplicates (lower_bound to m3) m3)"

text \<open>The intervals an iterator visits from \<open>begin()\<close> to \<open>end()\<close>, with their values.\<close>

fun iterate_intervals :: "'k \<Rightarrow> ('k, 'v) interval_map \<Rightarrow> ('k interval \<times> 'v) list" where
  "iterate_intervals key_max [] = []"
| "iterate_intervals key_max (e # es) =
     (\<lparr>iv_begin = fst e, iv_end = (case es of [] \<Rightarrow> key_max | f # _ \<Rightarrow> fst f)\<rparr>, snd e) #
     iterate_intervals key_max es"

section \<open>Lookup by splitting\<close>

definition keys_sorted :: "('k::linorder, 'v) interval_map \<Rightarrow> bool" where
  "keys_sorted m \<longleftrightarrow> sorted_wrt (<) (map fst m)"

fun look :: "'k::linorder \<Rightarrow> 'v \<Rightarrow> ('k, 'v) interval_map \<Rightarrow> 'v" where
  "look k d [] = d"
| "look k d (e # es) = (if fst e \<le> k then look k (snd e) es else d)"

lemma keys_sorted_Cons [simp]: "keys_sorted (e # es) \<longleftrightarrow> (\<forall>f\<in>set es. fst e < fst f) \<and> keys_sorted es"
  by (auto simp: keys_sorted_def)

lemma keys_sorted_Nil [simp]: "keys_sorted []"
  by (simp add: keys_sorted_def)

lemma keys_sorted_append [simp]:
  "keys_sorted (xs @ ys) \<longleftrightarrow> keys_sorted xs \<and> keys_sorted ys \<and> (\<forall>e\<in>set xs. \<forall>f\<in>set ys. fst e < fst f)"
  by (induction xs) auto

text \<open>The map is never empty and starts with the least key.\<close>

definition total_map :: "('k::{linorder,order_bot}, 'v) interval_map \<Rightarrow> bool" where
  "total_map m \<longleftrightarrow> m \<noteq> [] \<and> fst (hd m) = bot \<and> keys_sorted m"

lemma total_map_keys:
  "total_map m \<longleftrightarrow> map fst m \<noteq> [] \<and> hd (map fst m) = bot \<and> sorted_wrt (<) (map fst m)"
  by (cases m) (auto simp: total_map_def keys_sorted_def)

lemma look_last: "look k d es = (case takeWhile (\<lambda>e. fst e \<le> k) es of [] \<Rightarrow> d | xs \<Rightarrow> snd (last xs))"
  by (induction es arbitrary: d) (auto split: list.splits)

lemma at_look: "total_map m \<Longrightarrow> IntervalMap_at m k = Some (look k d m)"
  by (cases m) (auto simp: IntervalMap_at_def IntervalMap_find_def total_map_def look_last split: list.splits)

lemma look_append: "\<forall>e\<in>set xs. fst e \<le> k \<Longrightarrow> look k d (xs @ ys) = look k (look k d xs) ys"
  by (induction xs arbitrary: d) auto

lemma look_before: "\<forall>e\<in>set ys. k < fst e \<Longrightarrow> look k d (xs @ ys) = look k d xs"
  by (induction xs arbitrary: d; cases ys) (auto simp: not_le)

lemma look_none: "\<forall>e\<in>set ys. k < fst e \<Longrightarrow> look k d ys = d"
  using look_before [of ys k d "[]"] by simp

text \<open>The keys of entries with the value of their predecessor.\<close>

fun dups :: "('k, 'v) interval_map \<Rightarrow> 'k set" where
  "dups (e # f # es) = (if snd e = snd f then {fst f} else {}) \<union> dups (f # es)"
| "dups es = {}"

lemma dups_Cons: "dups (e # es) = (if es \<noteq> [] \<and> snd e = snd (hd es) then {fst (hd es)} else {}) \<union> dups es"
  by (cases es) auto

lemma dups_append: "dups (xs @ ys) = dups xs \<union> dups ys \<union>
    (if xs \<noteq> [] \<and> ys \<noteq> [] \<and> snd (last xs) = snd (hd ys) then {fst (hd ys)} else {})"
  by (induction xs) (auto simp: dups_Cons)

lemma dups_keys: "dups es \<subseteq> fst ` set es"
  by (induction es rule: dups.induct) auto

definition interval_map_ok :: "('k::{linorder,order_bot}, 'v) interval_map \<Rightarrow> bool" where
  "interval_map_ok m \<longleftrightarrow> total_map m \<and> dups m = {}"

section \<open>Entries\<close>

lemma split_at_key:
  assumes "keys_sorted m" "k \<in> fst ` set m"
  obtains xs v ys where "m = xs @ (k, v) # ys" "\<forall>e\<in>set xs. fst e < k" "\<forall>e\<in>set ys. k < fst e"
    "takeWhile (\<lambda>e. fst e < k) m = xs" "dropWhile (\<lambda>e. fst e < k) m = (k, v) # ys"
    "takeWhile (\<lambda>e. fst e \<noteq> k) m = xs" "dropWhile (\<lambda>e. fst e \<noteq> k) m = (k, v) # ys"
proof -
  from assms(2) obtain v where "(k, v) \<in> set m" by auto
  then obtain xs ys where m: "m = xs @ (k, v) # ys" by (meson split_list)
  then have lt: "\<forall>e\<in>set xs. fst e < k" "\<forall>e\<in>set ys. k < fst e" using assms(1) by auto
  then have "takeWhile (\<lambda>e. fst e < k) m = xs" "dropWhile (\<lambda>e. fst e < k) m = (k, v) # ys"
    "takeWhile (\<lambda>e. fst e \<noteq> k) m = xs" "dropWhile (\<lambda>e. fst e \<noteq> k) m = (k, v) # ys"
    unfolding m by (simp_all add: takeWhile_append2 dropWhile_append2 less_imp_neq)
  with m lt show ?thesis by (rule that)
qed

lemma split_before:
  assumes "keys_sorted m" "k \<notin> fst ` set m"
  obtains xs ys where "m = xs @ ys" "\<forall>e\<in>set xs. fst e < k" "\<forall>e\<in>set ys. k < fst e"
    "takeWhile (\<lambda>e. fst e < k) m = xs" "dropWhile (\<lambda>e. fst e < k) m = ys"
proof -
  let ?xs = "takeWhile (\<lambda>e. fst e < k) m" and ?ys = "dropWhile (\<lambda>e. fst e < k) m"
  have "k < fst e" if "e \<in> set ?ys" for e
  proof -
    from that obtain f fs where ys: "?ys = f # fs" by (cases ?ys) auto
    then have "\<not> fst f < k" by (metis dropWhile_eq_Cons_conv)
    moreover have "keys_sorted ?ys" using assms(1) takeWhile_dropWhile_id [of _ m] keys_sorted_append by metis
    moreover have "fst f \<noteq> k" using assms(2) ys by (metis image_eqI list.set_intros(1) set_dropWhileD)
    ultimately show ?thesis using that ys by auto
  qed
  then show ?thesis using that [of ?xs ?ys] by (auto dest: set_takeWhileD)
qed

lemma insert_entry_split:
  "\<forall>e\<in>set xs. fst e < k \<Longrightarrow> \<forall>e\<in>set ys. k < fst e \<Longrightarrow> insert_entry k v (xs @ ys) = xs @ (k, v) # ys"
  by (induction xs) (cases ys; auto)+

lemma look_snd_last: "xs \<noteq> [] \<Longrightarrow> \<forall>e\<in>set xs. fst e \<le> k \<Longrightarrow> look k d xs = snd (last xs)"
  by (induction xs arbitrary: d) auto

lemma MakeEntry_correct:
  assumes "total_map m"
  shows "total_map (MakeEntry k m)" "look x d (MakeEntry k m) = look x d m"
    "fst ` set (MakeEntry k m) = insert k (fst ` set m)" "dups (MakeEntry k m) \<subseteq> insert k (dups m)"
proof -
  have sorted: "keys_sorted m" using assms by (simp add: total_map_def)
  have "total_map (MakeEntry k m) \<and> look x d (MakeEntry k m) = look x d m \<and>
      fst ` set (MakeEntry k m) = insert k (fst ` set m) \<and> dups (MakeEntry k m) \<subseteq> insert k (dups m)"
  proof (cases "k \<in> fst ` set m")
    case True
    then show ?thesis using assms by (auto simp: MakeEntry_def)
  next
    case False
    from split_before [OF sorted False] obtain xs ys where m: "m = xs @ ys"
      and lt: "\<forall>e\<in>set xs. fst e < k" "\<forall>e\<in>set ys. k < fst e" and tw: "takeWhile (\<lambda>e. fst e < k) m = xs"
      by blast
    have hd: "m \<noteq> []" "fst (hd m) = bot" using assms by (simp_all add: total_map_def)
    have "xs \<noteq> []"
    proof
      assume "xs = []"
      then have "k < bot" using lt(2) hd m by (cases ys) auto
      then show False by simp
    qed
    then have "MakeEntry k m = insert_entry k (snd (last xs)) m"
      unfolding MakeEntry_def tw using False by (simp split: list.split)
    then have mk: "MakeEntry k (xs @ ys) = xs @ (k, snd (last xs)) # ys"
      using insert_entry_split [OF lt] unfolding m by simp
    have "look x d (MakeEntry k m) = look x d m"
    proof (cases "x < k")
      case True
      then have "\<forall>e\<in>set ((k, snd (last xs)) # ys). x < fst e" "\<forall>e\<in>set ys. x < fst e"
        using lt(2) by auto
      then have "look x d (xs @ (k, snd (last xs)) # ys) = look x d xs" "look x d (xs @ ys) = look x d xs"
        by (simp_all only: look_before)
      then show ?thesis by (simp add: mk m)
    next
      case False
      then have le: "\<forall>e\<in>set xs. fst e \<le> x" using lt(1) by auto
      then have "look x d (xs @ (k, snd (last xs)) # ys) = look x d (xs @ ys)"
        using False \<open>xs \<noteq> []\<close> by (simp add: look_append look_snd_last not_less)
      then show ?thesis by (simp add: mk m)
    qed
    moreover have "dups (MakeEntry k m) \<subseteq> insert k (dups m)"
      using \<open>xs \<noteq> []\<close> by (auto simp: mk m dups_append dups_Cons)
    moreover have "total_map (MakeEntry k m)"
      using hd lt sorted \<open>xs \<noteq> []\<close> by (auto simp: mk m total_map_def)
    ultimately show ?thesis by (auto simp: mk m)
  qed
  then show "total_map (MakeEntry k m)" "look x d (MakeEntry k m) = look x d m"
    "fst ` set (MakeEntry k m) = insert k (fst ` set m)" "dups (MakeEntry k m) \<subseteq> insert k (dups m)"
    by blast+
qed

lemma remove_next:
  assumes "total_map (before @ first # after)"
  defines "r \<equiv> (if after \<noteq> [] \<and> snd first = snd (hd after) then before @ first # tl after else before @ first # after)"
  shows "total_map r" "look x d r = look x d (before @ first # after)"
    "dups r \<subseteq> dups (before @ first # after)" "after \<noteq> [] \<Longrightarrow> fst (hd after) \<notin> dups r"
    "fst ` set r \<subseteq> fst ` set (before @ first # after)"
proof -
  have sorted: "keys_sorted (before @ first # after)" using assms(1) by (simp add: total_map_def)
  show "total_map r" using assms(1) unfolding r_def
    by (cases after; cases before) (auto simp: total_map_def)
  show "look x d r = look x d (before @ first # after)"
  proof (cases "fst first \<le> x")
    case True
    then have "\<forall>e\<in>set before. fst e \<le> x" using sorted by auto
    moreover have "look x (snd first) (tl after) = look x (snd first) after" if "after \<noteq> []" "snd first = snd (hd after)"
    proof (cases "fst (hd after) \<le> x")
      case False
      then have "\<forall>e\<in>set (tl after). x < fst e" using that(1) sorted by (cases after) force+
      then show ?thesis using False that(1) by (cases after) (simp_all add: look_none)
    qed (use that in \<open>cases after; simp\<close>)
    ultimately show ?thesis using True by (auto simp: r_def look_append)
  next
    case False
    then have "\<forall>e\<in>set after. x < fst e" using sorted by (force simp: not_le)
    then have "\<forall>e\<in>set (first # after). x < fst e" "\<forall>e\<in>set (first # tl after). x < fst e"
      using False by (cases after; auto)+
    then have "look x d (before @ first # after) = look x d before" "look x d (before @ first # tl after) = look x d before"
      by (simp_all only: look_before)
    then show ?thesis by (simp add: r_def)
  qed
  show "dups r \<subseteq> dups (before @ first # after)"
    by (cases after) (auto simp: r_def dups_append dups_Cons)
  show "fst (hd after) \<notin> dups r" if ne: "after \<noteq> []"
  proof -
    obtain a as where after: "after = a # as" using ne by (cases after) auto
    have "fst a \<notin> dups before" "fst a \<notin> dups as" "fst a \<noteq> fst first"
      using dups_keys [of before] dups_keys [of as] sorted after by force+
    moreover have "as \<noteq> [] \<Longrightarrow> fst (hd as) \<noteq> fst a" using sorted after by (cases as) auto
    ultimately show ?thesis by (auto simp: r_def after dups_append dups_Cons)
  qed
  show "fst ` set r \<subseteq> fst ` set (before @ first # after)"
    by (cases after) (auto simp: r_def)
qed

lemma RemoveDuplicates_correct:
  assumes "total_map m" "k \<in> fst ` set m"
  shows "total_map (RemoveDuplicates (Some k) m)" "look x d (RemoveDuplicates (Some k) m) = look x d m"
    "dups (RemoveDuplicates (Some k) m) \<subseteq> dups m - {k}"
    "fst ` set (RemoveDuplicates (Some k) m) \<subseteq> fst ` set m"
proof -
  have sorted: "keys_sorted m" using assms(1) by (simp add: total_map_def)
  then obtain xs v ys where m: "m = xs @ (k, v) # ys"
    and tw: "takeWhile (\<lambda>e. fst e < k) m = xs" "dropWhile (\<lambda>e. fst e < k) m = (k, v) # ys"
    using split_at_key [OF _ assms(2)] by metis
  let ?r = "RemoveDuplicates (Some k) m"
  have "total_map ?r \<and> look x d ?r = look x d m \<and> dups ?r \<subseteq> dups m - {k} \<and> fst ` set ?r \<subseteq> fst ` set m"
  proof (cases "xs \<noteq> [] \<and> snd (last xs) = v")
    case True
    let ?b = "butlast xs" and ?f = "last xs"
    have xs: "xs = ?b @ [?f]" using True by simp
    then have m': "m = ?b @ ?f # (k, v) # ys" using m by simp
    have tm: "total_map (?b @ ?f # (k, v) # ys)" using assms(1) m' by simp
    note a = remove_next [OF tm, unfolded list.sel snd_conv fst_conv, simplified (no_asm)]
    have r1: "(if snd ?f = v then ?b @ ?f # ys else ?b @ ?f # (k, v) # ys) = ?b @ ?f # ys" using True by simp
    note a = a [unfolded r1]
    note b = remove_next [OF a(1)]
    have "?r = (if ys \<noteq> [] \<and> snd ?f = snd (hd ys) then ?b @ ?f # tl ys else ?b @ ?f # ys)"
      using True by (simp add: RemoveDuplicates_def tw)
    moreover have "set (tl ys) \<subseteq> set ys" by (cases ys) auto
    ultimately show ?thesis using a b m' by auto
  next
    case False
    have tm: "total_map (xs @ (k, v) # ys)" using assms(1) m by simp
    note b = remove_next [OF tm]
    have "?r = (if ys \<noteq> [] \<and> snd (k, v) = snd (hd ys) then xs @ (k, v) # tl ys else xs @ (k, v) # ys)"
      using False by (auto simp: RemoveDuplicates_def tw)
    moreover have "k \<notin> fst ` set xs" "k \<notin> fst ` set ys" using sorted unfolding m by auto
    then have "k \<notin> dups xs" "k \<notin> dups ys" "ys \<noteq> [] \<Longrightarrow> k \<noteq> fst (hd ys)"
      using dups_keys [of xs] dups_keys [of ys] hd_in_set [of ys] by (auto simp del: hd_in_set)
    then have "k \<notin> dups m" using False by (auto simp: m dups_append dups_Cons)
    moreover have "set (tl ys) \<subseteq> set ys" by (cases ys) auto
    ultimately show ?thesis using b m by auto
  qed
  then show "total_map ?r" "look x d ?r = look x d m" "dups ?r \<subseteq> dups m - {k}" "fst ` set ?r \<subseteq> fst ` set m"
    by blast+
qed

text \<open>The calls of \<open>RemoveDuplicates\<close> at the end of both operations.\<close>

lemma lower_bound_cases:
  assumes "keys_sorted m"
  shows "lower_bound k m = None \<and> k \<notin> fst ` set m \<or>
    (\<exists>j\<in>fst ` set m. lower_bound k m = Some j \<and> (k \<in> fst ` set m \<longrightarrow> j = k))"
proof (cases "k \<in> fst ` set m")
  case True
  from split_at_key [OF assms True] obtain v ys where "dropWhile (\<lambda>e. fst e < k) m = (k, v) # ys" by metis
  then show ?thesis using True by (auto simp: lower_bound_def)
next
  case False
  have "set (dropWhile (\<lambda>e. fst e < k) m) \<subseteq> set m" by (auto dest: set_dropWhileD)
  then show ?thesis using False
    by (cases "dropWhile (\<lambda>e. fst e < k) m") (auto simp: lower_bound_def simp del: dropWhile_eq_Nil_conv)
qed

lemma clean_up:
  assumes "total_map m" "from \<in> fst ` set m" "dups m \<subseteq> {from, to}"
  defines "r \<equiv> (let m3 = RemoveDuplicates (Some from) m in RemoveDuplicates (lower_bound to m3) m3)"
  shows "interval_map_ok r" "look x d r = look x d m"
proof -
  let ?m3 = "RemoveDuplicates (Some from) m"
  note a = RemoveDuplicates_correct [OF assms(1,2)]
  have sorted: "keys_sorted ?m3" using a(1) by (simp add: total_map_def)
  have d: "dups ?m3 \<subseteq> {to}" using a(3) assms(3) by auto
  from lower_bound_cases [OF sorted, of to] have "interval_map_ok r \<and> look x d r = look x d m"
  proof (elim disjE conjE bexE)
    assume "lower_bound to ?m3 = None" "to \<notin> fst ` set ?m3"
    then show ?thesis using a(1,2) d dups_keys [of ?m3]
      by (auto simp: r_def RemoveDuplicates_def [of None] interval_map_ok_def)
  next
    fix j assume j: "j \<in> fst ` set ?m3" "lower_bound to ?m3 = Some j" "to \<in> fst ` set ?m3 \<longrightarrow> j = to"
    note b = RemoveDuplicates_correct [OF a(1) j(1)]
    have "dups (RemoveDuplicates (Some j) ?m3) = {}"
      using b(3) d j(3) dups_keys [of ?m3] by auto
    then show ?thesis using b(1,2) a(2) j(2) by (simp add: r_def interval_map_ok_def)
  qed
  then show "interval_map_ok r" "look x d r = look x d m" by blast+
qed

lemma increment_until_split:
  "\<forall>e\<in>set mid. fst e \<noteq> b \<Longrightarrow>
   increment_until b h (mid @ (b, w) # ys) = map (\<lambda>e. (fst e, snd e + h)) mid @ (b, w) # ys"
  by (induction mid) auto

lemma erase_until_split: "\<forall>e\<in>set mid. fst e \<noteq> b \<Longrightarrow> erase_until b (mid @ (b, w) # ys) = (b, w) # ys"
  by (induction mid) auto

lemma look_map_add:
  "mid \<noteq> [] \<Longrightarrow> fst (hd mid) \<le> x \<Longrightarrow> look x d (map (\<lambda>e. (fst e, snd e + h)) mid) = look x d' mid + h"
  by (induction mid arbitrary: d d') (auto, metis (no_types, lifting) look.simps list.exhaust_sel list.map_disc_iff list.sel(1) list.simps(9) prod.sel(1))

lemma dups_map_add: "dups (map (\<lambda>e. (fst e, snd e + h :: 'v::cancel_comm_monoid_add)) es) = dups es"
  by (induction es rule: dups.induct) auto

text \<open>The map after both entries are made, split at \<open>from\<close> and \<open>to\<close>.\<close>

lemma make_both:
  assumes "interval_map_ok m" "from < to"
  obtains xs mid w ys where
    "MakeEntry to (MakeEntry from m) = xs @ mid @ (to, w) # ys" "total_map (xs @ mid @ (to, w) # ys)"
    "mid \<noteq> []" "fst (hd mid) = from" "\<forall>e\<in>set mid. fst e \<noteq> to"
    "takeWhile (\<lambda>e. fst e \<noteq> from) (xs @ mid @ (to, w) # ys) = xs"
    "dropWhile (\<lambda>e. fst e \<noteq> from) (xs @ mid @ (to, w) # ys) = mid @ (to, w) # ys"
    "dups xs \<union> dups mid \<union> dups ((to, w) # ys) \<subseteq> {from, to}"
    "\<And>x d. look x d (xs @ mid @ (to, w) # ys) = look x d m"
proof -
  let ?a = "MakeEntry from m" let ?m = "MakeEntry to ?a"
  have m: "total_map m" "dups m = {}" using assms(1) by (simp_all add: interval_map_ok_def)
  note a = MakeEntry_correct [OF m(1), where k = "from"]
  note b = MakeEntry_correct [OF a(1), where k = to]
  have sorted: "keys_sorted ?m" using b(1) by (simp add: total_map_def)
  have keys: "from \<in> fst ` set ?m" "to \<in> fst ` set ?m" using a(3) b(3) by auto
  obtain xs u zs where s1: "?m = xs @ (from, u) # zs" "takeWhile (\<lambda>e. fst e \<noteq> from) ?m = xs"
    "dropWhile (\<lambda>e. fst e \<noteq> from) ?m = (from, u) # zs" "\<forall>e\<in>set xs. fst e < from"
    using split_at_key [OF sorted keys(1)] by metis
  then have "to \<in> fst ` set zs" "keys_sorted zs" using keys(2) assms(2) sorted by auto
  then obtain ms w ys where s2: "zs = ms @ (to, w) # ys" "\<forall>e\<in>set ms. fst e < to"
    using split_at_key [of zs to] by metis
  have eq: "?m = xs @ ((from, u) # ms) @ (to, w) # ys" using s1(1) s2(1) by simp
  have "dups ?m \<subseteq> {from, to}" using a(4) b(4) m(2) by auto
  then have d: "dups xs \<union> dups ((from, u) # ms) \<union> dups ((to, w) # ys) \<subseteq> {from, to}"
    unfolding eq dups_append by auto
  have e: "\<forall>e\<in>set ((from, u) # ms). fst e \<noteq> to" using s2(2) assms(2) by auto
  show ?thesis
    by (rule that [OF eq _ _ _ e _ _ d]) (use b(1,2) a(2) s1 s2 eq in \<open>simp_all flip: eq\<close>)
qed

lemma look_three:
  assumes "keys_sorted (xs @ mid @ (to, w) # ys)" "mid \<noteq> []" "fst (hd mid) = from"
  shows "look x d (xs @ mid @ (to, w) # ys) =
    (if x < from then look x d xs else if x < to then look x (look x d xs) mid else look x w ys)"
proof -
  have hd: "hd mid \<in> set mid" using assms(2) by simp
  have xs: "\<forall>e\<in>set xs. fst e < from" "\<forall>e\<in>set mid. fst e < to" "\<forall>e\<in>set ys. to < fst e"
    using assms(1,3) hd by auto
  have mid: "\<forall>e\<in>set mid. from \<le> fst e"
    using assms by (cases mid) (auto intro: less_imp_le)
  consider "x < from" | "from \<le> x" "x < to" | "to \<le> x" "from \<le> x" by force
  then show ?thesis
  proof cases
    case 1
    then have "\<forall>e\<in>set (mid @ (to, w) # ys). x < fst e" using xs mid assms(3) hd by force
    then show ?thesis using 1 by (simp add: look_before)
  next
    case 2
    then have "\<forall>e\<in>set xs. fst e \<le> x" "\<forall>e\<in>set ((to, w) # ys). x < fst e" using xs by force+
    then show ?thesis using 2 by (simp only: look_append look_before) auto
  next
    case 3
    then have "\<forall>e\<in>set xs. fst e \<le> x" "\<forall>e\<in>set mid. fst e \<le> x" using xs by force+
    then show ?thesis using 3 by (auto simp: look_append)
  qed
qed

lemma dups_three:
  "mid \<noteq> [] \<Longrightarrow> dups (xs @ mid @ (b, w) # ys) \<subseteq> dups xs \<union> dups mid \<union> dups ((b, w) # ys) \<union> {fst (hd mid), b}"
  unfolding dups_append by auto

lemma IncrementInterval_ok:
  fixes h :: "'v::cancel_comm_monoid_add"
  assumes "interval_map_ok m"
  shows "interval_map_ok (IncrementInterval from to h m)"
    "look x 0 (IncrementInterval from to h m) = (if from \<le> x \<and> x < to then look x 0 m + h else look x 0 m)"
proof -
  have "interval_map_ok (IncrementInterval from to h m) \<and>
    look x 0 (IncrementInterval from to h m) = (if from \<le> x \<and> x < to then look x 0 m + h else look x 0 m)"
  proof (cases "to \<le> from \<or> h = 0")
    case True
    then show ?thesis using assms by (auto simp: IncrementInterval_def)
  next
    case False
    then have lt: "from < to" by (simp add: not_le)
    obtain xs mid w ys where m1: "MakeEntry to (MakeEntry from m) = xs @ mid @ (to, w) # ys"
      and t: "total_map (xs @ mid @ (to, w) # ys)" and mid: "mid \<noteq> []" "fst (hd mid) = from" "\<forall>e\<in>set mid. fst e \<noteq> to"
      and tw: "takeWhile (\<lambda>e. fst e \<noteq> from) (xs @ mid @ (to, w) # ys) = xs"
        "dropWhile (\<lambda>e. fst e \<noteq> from) (xs @ mid @ (to, w) # ys) = mid @ (to, w) # ys"
      and d: "dups xs \<union> dups mid \<union> dups ((to, w) # ys) \<subseteq> {from, to}"
      and look: "\<And>x d. look x d (xs @ mid @ (to, w) # ys) = look x d m"
      by (rule make_both [OF assms lt]) (rule that)
    let ?mid = "map (\<lambda>e. (fst e, snd e + h)) mid"
    let ?m2 = "xs @ ?mid @ (to, w) # ys"
    have hd: "hd ?mid = (from, snd (hd mid) + h)" using mid by (simp add: hd_map)
    have "total_map ?m2"
      using t by (simp add: total_map_keys comp_def)
    moreover from this have "keys_sorted ?m2" by (simp add: total_map_def)
    have "fst (hd ?mid) = from" using hd by simp
    have "hd ?mid \<in> set ?mid" using mid(1) by (intro hd_in_set) simp
    then have "from \<in> fst ` set ?m2" unfolding hd by force
    moreover have "dups ?m2 \<subseteq> {from, to}"
      using dups_three [of ?mid xs to w ys] mid(1) d unfolding hd dups_map_add by auto
    ultimately have r: "interval_map_ok (IncrementInterval from to h m)"
      "look x 0 (IncrementInterval from to h m) = look x 0 ?m2"
      using clean_up [of ?m2 "from" to] False
      by (simp_all add: IncrementInterval_def m1 tw increment_until_split [OF mid(3)] Let_def)
    have sorted: "keys_sorted (xs @ mid @ (to, w) # ys)" using t by (simp add: total_map_def)
    have "look x 0 ?m2 = (if from \<le> x \<and> x < to then look x 0 (xs @ mid @ (to, w) # ys) + h
        else look x 0 (xs @ mid @ (to, w) # ys))"
      using look_three [OF sorted mid(1,2), of x 0] look_three [OF \<open>keys_sorted ?m2\<close> _ \<open>fst (hd ?mid) = from\<close>, of x 0]
        look_map_add [OF mid(1), of x _ h] mid by auto
    then show ?thesis using r look by simp
  qed
  then show "interval_map_ok (IncrementInterval from to h m)"
    "look x 0 (IncrementInterval from to h m) = (if from \<le> x \<and> x < to then look x 0 m + h else look x 0 m)"
    by blast+
qed

lemma SetInterval_ok:
  assumes "interval_map_ok m"
  shows "interval_map_ok (SetInterval from to v m)"
    "look x 0 (SetInterval from to v m) = (if from \<le> x \<and> x < to then v else look x 0 m)"
proof -
  have "interval_map_ok (SetInterval from to v m) \<and>
    look x 0 (SetInterval from to v m) = (if from \<le> x \<and> x < to then v else look x 0 m)"
  proof (cases "to \<le> from")
    case True
    then show ?thesis using assms by (auto simp: SetInterval_def)
  next
    case False
    then have lt: "from < to" by (simp add: not_le)
    obtain xs mid w ys where m1: "MakeEntry to (MakeEntry from m) = xs @ mid @ (to, w) # ys"
      and t: "total_map (xs @ mid @ (to, w) # ys)" and mid: "mid \<noteq> []" "fst (hd mid) = from" "\<forall>e\<in>set mid. fst e \<noteq> to"
      and tw: "takeWhile (\<lambda>e. fst e \<noteq> from) (xs @ mid @ (to, w) # ys) = xs"
        "dropWhile (\<lambda>e. fst e \<noteq> from) (xs @ mid @ (to, w) # ys) = mid @ (to, w) # ys"
      and d: "dups xs \<union> dups mid \<union> dups ((to, w) # ys) \<subseteq> {from, to}"
      and look: "\<And>x d. look x d (xs @ mid @ (to, w) # ys) = look x d m"
      by (rule make_both [OF assms lt]) (rule that)
    obtain u ms where ms: "mid = (from, u) # ms" using mid(1,2) by (cases mid) auto
    have erase: "erase_until to (tl (mid @ (to, w) # ys)) = (to, w) # ys"
      using mid(3) by (simp add: ms erase_until_split)
    let ?m2 = "xs @ [(from, v)] @ (to, w) # ys"
    have "total_map ?m2" using t by (cases xs) (auto simp: total_map_def ms ball_Un)
    moreover have "dups ?m2 \<subseteq> {from, to}"
      using dups_three [of "[(from, v)]" xs to w ys] d by auto
    ultimately have r: "interval_map_ok (SetInterval from to v m)"
      "look x 0 (SetInterval from to v m) = look x 0 ?m2"
      using clean_up [of ?m2 "from" to] False erase
      by (simp_all add: SetInterval_def m1 tw Let_def)
    have sorted: "keys_sorted (xs @ mid @ (to, w) # ys)" "keys_sorted ?m2"
      using t \<open>total_map ?m2\<close> by (simp_all add: total_map_def)
    have "look x 0 ?m2 = (if from \<le> x \<and> x < to then v else look x 0 (xs @ mid @ (to, w) # ys))"
      using look_three [OF sorted(1) mid(1,2), of x 0] look_three [OF sorted(2), of "from" x 0] by auto
    then show ?thesis using r look by simp
  qed
  then show "interval_map_ok (SetInterval from to v m)"
    "look x 0 (SetInterval from to v m) = (if from \<le> x \<and> x < to then v else look x 0 m)"
    by blast+
qed

section \<open>Canonical form\<close>

lemma look_ne_dups:
  assumes "keys_sorted ((k, v) # es)" "dups ((k, v) # es) = {}" "es \<noteq> []"
  shows "look (fst (hd es)) v es \<noteq> v"
proof -
  obtain j w fs where es: "es = (j, w) # fs" using assms(3) by (metis list.exhaust prod.collapse)
  have "look j w fs = w" using assms(1) by (auto simp: es intro!: look_none)
  then show ?thesis using assms(2) by (auto simp: es split: if_splits)
qed

lemma canonical_Cons:
  assumes "keys_sorted ((k, v) # es)" "dups ((k, v) # es) = {}"
    "keys_sorted ((k, v) # fs)" "dups ((k, v) # fs) = {}"
    "\<And>x. k \<le> x \<Longrightarrow> look x v es = look x v fs"
  shows "es = fs"
  using assms
proof (induction es arbitrary: k v fs)
  case Nil
  show ?case
  proof (rule ccontr)
    assume "[] \<noteq> fs"
    then have "fs \<noteq> []" "k \<le> fst (hd fs)" using Nil.prems(3) by (auto intro: less_imp_le)
    then show False using look_ne_dups [OF Nil.prems(3,4)] Nil.prems(5) by simp
  qed
next
  case (Cons e es)
  obtain j w where e: "e = (j, w)" by force
  have kj: "k < j" using Cons.prems(1) by (simp add: e)
  have lj: "look j v (e # es) = w" using Cons.prems(1) by (auto simp: e intro!: look_none)
  have wv: "w \<noteq> v" using Cons.prems(2) by (auto simp: e split: if_splits)
  have "fs \<noteq> []"
  proof
    assume "fs = []"
    then show False using Cons.prems(5) [of j] kj lj wv by simp
  qed
  then obtain i u gs where fs: "fs = (i, u) # gs" by (metis list.exhaust prod.collapse)
  have ki: "k < i" using Cons.prems(3) by (simp add: fs)
  have li: "look i v fs = u" using Cons.prems(3) by (auto simp: fs intro!: look_none)
  have uv: "u \<noteq> v" using Cons.prems(4) by (auto simp: fs split: if_splits)
  have ij: "i = j"
  proof (rule ccontr)
    assume "i \<noteq> j"
    then consider "i < j" | "j < i" by fastforce
    then show False
    proof cases
      case 1
      then show False using Cons.prems(5) [of i] less_imp_le [OF ki] li uv 1 by (auto simp: e split: if_splits)
    next
      case 2
      then show False using Cons.prems(5) [of j] less_imp_le [OF kj] lj wv 2 by (auto simp: fs split: if_splits)
    qed
  qed
  have uw: "u = w" using Cons.prems(5) [of j] kj lj li ij by simp
  have "es = gs"
  proof (rule Cons.IH [of j w])
    show "look x w es = look x w gs" if "j \<le> x" for x
      using Cons.prems(5) [of x] that kj by (simp add: e fs ij uw)
  qed (use Cons.prems(1-4) in \<open>auto simp: e fs ij uw split: if_splits\<close>)
  then show ?case by (simp add: e fs ij uw)
qed

lemma canonical:
  assumes "interval_map_ok m" "interval_map_ok n" "\<And>x. look x 0 m = look x 0 n"
  shows "m = n"
proof -
  obtain v es where m: "m = (bot, v) # es"
    using assms(1) by (cases m) (auto simp: interval_map_ok_def total_map_def)
  obtain w fs where n: "n = (bot, w) # fs"
    using assms(2) by (cases n) (auto simp: interval_map_ok_def total_map_def)
  have ok: "keys_sorted m" "dups m = {}" "keys_sorted n" "dups n = {}"
    using assms(1,2) by (simp_all add: interval_map_ok_def total_map_def)
  have "look bot v es = v" "look bot w fs = w" using ok(1,3) by (auto simp: m n intro!: look_none)
  then have vw: "v = w" using assms(3) [of bot] by (simp add: m n)
  show ?thesis
    using canonical_Cons [of bot v es fs] ok assms(3) by (simp add: m n vw)
qed

section \<open>Runs\<close>

datatype ('k, 'v) interval_op = Increment_Op 'k 'k 'v | Set_Op 'k 'k 'v | Clear_Op

fun interval_step ::
  "('k, 'v) interval_op \<Rightarrow> ('k::{linorder,order_bot}, 'v::cancel_comm_monoid_add) interval_map \<Rightarrow> ('k, 'v) interval_map" where
  "interval_step (Increment_Op from to v) m = IncrementInterval from to v m"
| "interval_step (Set_Op from to v) m = SetInterval from to v m"
| "interval_step Clear_Op m = IntervalMap_clear m"

definition interval_run ::
  "('k, 'v) interval_op list \<Rightarrow> ('k::{linorder,order_bot}, 'v::cancel_comm_monoid_add) interval_map" where
  "interval_run ops = fold interval_step ops IntervalMap_init"

text \<open>The function of the keys the operations describe.\<close>

fun function_step :: "('k::linorder, 'v::monoid_add) interval_op \<Rightarrow> ('k \<Rightarrow> 'v) \<Rightarrow> 'k \<Rightarrow> 'v" where
  "function_step (Increment_Op from to v) g x = (if from \<le> x \<and> x < to then g x + v else g x)"
| "function_step (Set_Op from to v) g x = (if from \<le> x \<and> x < to then v else g x)"
| "function_step Clear_Op g x = 0"

definition function_run :: "('k::linorder, 'v::monoid_add) interval_op list \<Rightarrow> 'k \<Rightarrow> 'v" where
  "function_run ops = fold function_step ops (\<lambda>_. 0)"

lemma interval_map_ok_init: "interval_map_ok IntervalMap_init"
  by (simp add: IntervalMap_init_def interval_map_ok_def total_map_def)

lemma look_init [simp]: "look x 0 IntervalMap_init = 0"
  by (simp add: IntervalMap_init_def)

lemma interval_step_ok:
  assumes "interval_map_ok m"
  shows "interval_map_ok (interval_step op m)" "look x 0 (interval_step op m) = function_step op (\<lambda>x. look x 0 m) x"
  using assms interval_map_ok_init look_init [of x]
  by (cases op; simp add: IncrementInterval_ok SetInterval_ok IntervalMap_clear_def flip: IntervalMap_init_def)+

lemma interval_run_ok:
  "interval_map_ok m \<Longrightarrow> interval_map_ok (fold interval_step ops m) \<and>
     (\<lambda>x. look x 0 (fold interval_step ops m)) = fold function_step ops (\<lambda>x. look x 0 m)"
  by (induction ops arbitrary: m) (simp_all add: interval_step_ok)

section \<open>Properties\<close>

text \<open>
  C7: whatever operations are applied, the map returns at each key the value the operations
  describe, with the last of a set, the sum of the increments, or zero, and its entries are in
  canonical form: sorted, starting at the least key, no two neighbours with the same value.
\<close>

theorem IntervalMap_refines_function:
  "IntervalMap_at (interval_run ops) x = Some (function_run ops x) \<and>
   interval_run ops \<noteq> [] \<and> fst (hd (interval_run ops)) = bot \<and>
   sorted_wrt (<) (map fst (interval_run ops)) \<and> dups (interval_run ops) = {}"
proof -
  have "interval_map_ok (interval_run ops)" "look x 0 (interval_run ops) = function_run ops x"
    using interval_run_ok [OF interval_map_ok_init, of ops] by (auto simp: interval_run_def function_run_def fun_eq_iff)
  then show ?thesis using at_look [of "interval_run ops" x 0]
    by (simp add: interval_map_ok_def total_map_def keys_sorted_def)
qed

text \<open>
  Two runs that describe the same function of the keys end with the same entries, hence the
  same intervals for the iterators, whatever the order and overlap of their operations.
\<close>

theorem IntervalMap_canonical:
  assumes "\<And>x. function_run ops x = function_run ops' x"
  shows "interval_run ops = interval_run ops' \<and>
    iterate_intervals key_max (interval_run ops) = iterate_intervals key_max (interval_run ops')"
proof -
  have "interval_run ops = interval_run ops'"
    using interval_run_ok [OF interval_map_ok_init, of ops] interval_run_ok [OF interval_map_ok_init, of ops'] assms
    by (intro canonical) (auto simp: interval_run_def function_run_def fun_eq_iff)
  then show ?thesis by simp
qed

theorem IntervalMap_canonical_witness:
  "interval_run [Increment_Op 2 5 (2 :: nat), Increment_Op 4 6 1] =
    interval_run [Increment_Op 4 6 1, Set_Op (2 :: nat) 4 2, Set_Op 4 5 3]"
proof -
  have "function_run [Increment_Op 2 5 (2 :: nat), Increment_Op 4 6 1] x =
      function_run [Increment_Op 4 6 1, Set_Op (2 :: nat) 4 2, Set_Op 4 5 3] x" for x
    by (simp add: function_run_def)
  then show ?thesis using IntervalMap_canonical by blast
qed

end
