(* ===== verification/Mp2t_Packet.thy ===== *)
theory Mp2t_Packet
  imports Bit_Reader "HOL-Library.Monad_Syntax"
begin

unbundle bit_operations_syntax

text \<open>
  The MPEG-2 transport stream layer (\<open>formats/mp2t\<close>): the packets of 188 bytes
  (\<open>ts_packet.cc\<close>), read with the bit reader of \<open>base/bit_reader.cc\<close>, and the unrolling of their
  33-bit timestamps (\<open>timestamp_unroller.cc\<close>). A failing \<open>RCHECK\<close> is \<open>None\<close>; where an
  assertion can fail as well, that is the outer \<open>None\<close>. The values read into an \<open>int\<close> are the
  numbers themselves.
\<close>

section \<open>Checked reads\<close>

text \<open>\<open>RCHECK(reader.ReadBits(n, &x))\<close> and \<open>RCHECK(reader.SkipBits(n))\<close>.\<close>

definition read_bits :: "nat \<Rightarrow> bit_reader \<Rightarrow> (int \<times> bit_reader) option" where
  "read_bits n r =
     (case BitReader_ReadBits n r of
        (None, _) \<Rightarrow> None
      | (Some v, r') \<Rightarrow> Some (uint (v :: u64), r'))"

definition skip_bits :: "nat \<Rightarrow> bit_reader \<Rightarrow> bit_reader option" where
  "skip_bits n r = (case BitReader_SkipBits n r of (False, _) \<Rightarrow> None | (True, r') \<Rightarrow> Some r')"

definition rcheck :: "bool \<Rightarrow> unit option" where
  "rcheck b = (if b then Some () else None)"

text \<open>The reader stands at bit \<open>p\<close> of the buffer \<open>D\<close>; a field is a number of \<open>n\<close> bits there.\<close>

definition reader_at :: "u8 list \<Rightarrow> nat \<Rightarrow> bit_reader \<Rightarrow> bool" where
  "reader_at D p r \<longleftrightarrow> BitReader_ok r \<and> BitReader_bits r = drop p (byte_bits D) \<and>
     initial_size r = length D \<and> BitReader_bits_read r = p \<and> p \<le> 8 * length D"

definition field :: "u8 list \<Rightarrow> nat \<Rightarrow> nat \<Rightarrow> int" where
  "field D p n = int (bits_nat (take n (drop p (byte_bits D))))"

lemma reader_at_init: "reader_at D 0 (BitReader_init D (length D))"
  using BitReader_init_ok [of D]
  by (simp add: reader_at_def BitReader_init_def BitReader_bits_read_def BitReaderCore_init_def)

lemma read_bits_None:
  assumes "reader_at D p r" "n \<le> 64" "8 * length D < p + n"
  shows "read_bits n r = None"
proof -
  obtain v :: "u64 option" and r' where v: "BitReader_ReadBits n r = (v, r')" by fastforce
  have "v = None"
    using BitReader_ReadBits_correct(2) [OF _ assms(2) v] assms(1,3) by (auto simp: reader_at_def)
  then show ?thesis using v by (simp add: read_bits_def)
qed

lemma read_bits_Some:
  assumes "reader_at D p r" "n \<le> 64" "p + n \<le> 8 * length D"
  shows "\<exists>r'. read_bits n r = Some (field D p n, r') \<and> reader_at D (p + n) r'"
proof -
  obtain v :: "u64 option" and r' where v: "BitReader_ReadBits n r = (v, r')" by fastforce
  have ok: "BitReader_ok r" using assms(1) by (simp add: reader_at_def)
  note c = BitReader_ReadBits_correct [OF ok assms(2) v]
  obtain w where w: "v = Some w" using c(2) assms(1,3) by (auto simp: reader_at_def)
  have "int (unat w) = field D p n"
    using c(6) [OF _ w] assms(1,2) by (simp add: reader_at_def field_def)
  then have "uint w = field D p n" by (simp only: uint_nat)
  then show ?thesis
    using v w c assms(1,3) by (auto simp: read_bits_def reader_at_def add.commute)
qed

lemma read_bits_at:
  assumes "reader_at D p r" "n \<le> 64" "read_bits n r = Some (x, r')"
  shows "x = field D p n" "reader_at D (p + n) r'" "p + n \<le> 8 * length D"
  using read_bits_None [OF assms(1,2)] read_bits_Some [OF assms(1,2)] assms(3) by fastforce+

lemma skip_bits_at:
  assumes "reader_at D p r" "skip_bits n r = Some r'"
  shows "reader_at D (p + n) r'" "p + n \<le> 8 * length D"
proof -
  have s: "BitReader_SkipBits n r = (True, r')"
    using assms(2) by (auto simp: skip_bits_def split: prod.splits bool.splits)
  have ok: "BitReader_ok r" using assms(1) by (simp add: reader_at_def)
  from BitReader_SkipBits_correct [OF ok s] show "reader_at D (p + n) r'" "p + n \<le> 8 * length D"
    using assms(1) by (auto simp: reader_at_def add.commute)
qed

lemma skip_bits_Some:
  assumes "reader_at D p r" "p + n \<le> 8 * length D"
  shows "\<exists>r'. skip_bits n r = Some r' \<and> reader_at D (p + n) r'"
proof -
  obtain b r' where s: "BitReader_SkipBits n r = (b, r')" by fastforce
  have ok: "BitReader_ok r" using assms(1) by (simp add: reader_at_def)
  have b using BitReader_SkipBits_correct(2) [OF ok s] assms by (auto simp: reader_at_def)
  then have "skip_bits n r = Some r'" using s by (simp add: skip_bits_def)
  then show ?thesis using skip_bits_at(1) [OF assms(1)] by blast
qed

lemma bits_available_at:
  "reader_at D p r \<Longrightarrow> BitReader_bits_available r = 8 * int (length D) - int p"
  by (simp add: reader_at_def BitReader_bits_available_def)

lemma bits_nat_middle:
  assumes "p + n \<le> length bs"
  shows "bits_nat (take n (drop p bs)) = bits_nat bs div 2 ^ (length bs - p - n) mod 2 ^ n"
proof -
  let ?b = "take n (drop p bs)" and ?c = "drop (p + n) bs"
  have "bs = take p bs @ ?b @ ?c" by (metis append_take_drop_id drop_drop add.commute)
  then have "bits_nat bs = bits_nat (take p bs) * 2 ^ length (?b @ ?c) + bits_nat (?b @ ?c)"
    by (metis bits_nat_append)
  also have "\<dots> = (bits_nat (take p bs) * 2 ^ n + bits_nat ?b) * 2 ^ (length bs - p - n) + bits_nat ?c"
  proof -
    have "length bs - p = n + (length bs - p - n)" using assms by simp
    then have "(2::nat) ^ (length bs - p) = 2 ^ n * 2 ^ (length bs - p - n)" by (metis power_add)
    then show ?thesis using assms by (simp add: bits_nat_append min_absorb2 algebra_simps)
  qed
  finally have eq: "bits_nat bs = \<dots>" .
  have "bits_nat ?c < 2 ^ (length bs - p - n)" using bits_nat_less [of ?c] by simp
  then have "bits_nat bs div 2 ^ (length bs - p - n) = bits_nat (take p bs) * 2 ^ n + bits_nat ?b"
    unfolding eq by simp
  moreover have "bits_nat ?b < 2 ^ n" using bits_nat_less [of ?b] assms by (simp add: min_absorb2)
  ultimately show ?thesis by simp
qed

lemma bits_nat_byte_bits: "int (bits_nat (byte_bits bs)) = be_int bs"
proof (induction bs rule: rev_induct)
  case (snoc b bs)
  have "byte_bits (bs @ [b]) = byte_bits bs @ msb_bits b" by (simp add: byte_bits_def)
  then have "bits_nat (byte_bits (bs @ [b])) = bits_nat (byte_bits bs) * 256 + unat b"
    by (simp add: bits_nat_append unat_eq_bits_nat)
  moreover have "int (unat b) = uint b" by (simp only: uint_nat)
  ultimately show ?case using snoc by simp
qed simp

lemma field_be_int:
  assumes "p + n \<le> 8 * length D"
  shows "field D p n = be_int D div 2 ^ (8 * length D - p - n) mod 2 ^ n"
  using bits_nat_middle [of p n "byte_bits D"] assms bits_nat_byte_bits [of D]
  by (simp add: field_def zdiv_int zmod_int)

lemma field_append: "p + n \<le> 8 * length D \<Longrightarrow> field (D @ E) p n = field D p n"
  by (simp add: field_def)

lemma field_bounds: "0 \<le> field D p n" "field D p n < 2 ^ n"
proof -
  show "0 \<le> field D p n" by (simp add: field_def)
  have "bits_nat (take n (drop p (byte_bits D))) < 2 ^ length (take n (drop p (byte_bits D)))" by (rule bits_nat_less)
  also have "\<dots> \<le> 2 ^ n" by (rule power_increasing) simp_all
  finally show "field D p n < 2 ^ n" by (simp add: field_def)
qed

section \<open>TsPacket\<close>

text \<open>The payload is the part of the buffer from \<open>ts_payload\<close> on, of \<open>ts_payload_size\<close> bytes.\<close>

record ts_packet =
  ts_payload :: int
  ts_payload_size :: int
  ts_payload_unit_start_indicator :: bool
  ts_pid :: int
  ts_continuity_counter :: int
  ts_discontinuity_indicator :: bool
  ts_random_access_indicator :: bool

definition kPacketSize :: nat where "kPacketSize = 188"
definition kTsHeaderSyncword :: u8 where "kTsHeaderSyncword = 0x47"

fun is_header_loop :: "u8 list \<Rightarrow> nat \<Rightarrow> nat list \<Rightarrow> bool" where
  "is_header_loop buf k [] = True"
| "is_header_loop buf k (i # is) =
     (let idx = k + i * kPacketSize in
      if idx \<ge> length buf then True
      else if buf ! idx \<noteq> kTsHeaderSyncword then False
      else is_header_loop buf k is)"

function sync_loop :: "u8 list \<Rightarrow> nat \<Rightarrow> nat" where
  "sync_loop buf k =
     (if k < length buf then
        if is_header_loop buf k [0, 1, 2, 3] then k else sync_loop buf (k + 1)
      else k)"
  by pat_completeness auto
termination by (relation "measure (\<lambda>(buf, k). length buf - k)") auto

declare sync_loop.simps [simp del]

definition TsPacket_Sync :: "u8 list \<Rightarrow> nat" where
  "TsPacket_Sync buf = sync_loop buf 0"

fun read_stuffing :: "nat \<Rightarrow> bit_reader \<Rightarrow> bit_reader option" where
  "read_stuffing 0 r = Some r"
| "read_stuffing (Suc k) r = do { (stuffing_byte, r) \<leftarrow> read_bits 8 r; read_stuffing k r }"

text \<open>A program clock reference, read and discarded.\<close>

definition read_clock_reference :: "bool \<Rightarrow> bit_reader \<Rightarrow> bit_reader option" where
  "read_clock_reference flag r =
     (if flag then do {
        (base, r) \<leftarrow> read_bits 33 r;
        (reserved, r) \<leftarrow> read_bits 6 r;
        (extension, r) \<leftarrow> read_bits 9 r;
        Some r }
      else Some r)"

text \<open>A field with its length in the first byte, skipped.\<close>

definition skip_sized_field :: "bool \<Rightarrow> bit_reader \<Rightarrow> bit_reader option" where
  "skip_sized_field flag r =
     (if flag then do {
        (len, r) \<leftarrow> read_bits 8 r;
        skip_bits (8 * nat len) r }
      else Some r)"

text \<open>The two indicators of the adaptation field.\<close>

definition ParseAdaptationField :: "int \<Rightarrow> bit_reader \<Rightarrow> (bool \<times> bool) option" where
  "ParseAdaptationField adaptation_field_length r = do {
     let start_marker = BitReader_bits_available r div 8;
     (discontinuity_indicator, r) \<leftarrow> read_bits 1 r;
     (random_access_indicator, r) \<leftarrow> read_bits 1 r;
     (elementary_stream_priority_indicator, r) \<leftarrow> read_bits 1 r;
     (pcr_flag, r) \<leftarrow> read_bits 1 r;
     (opcr_flag, r) \<leftarrow> read_bits 1 r;
     (splicing_point_flag, r) \<leftarrow> read_bits 1 r;
     (transport_private_data_flag, r) \<leftarrow> read_bits 1 r;
     (adaptation_field_extension_flag, r) \<leftarrow> read_bits 1 r;
     r \<leftarrow> read_clock_reference (pcr_flag \<noteq> 0) r;
     r \<leftarrow> read_clock_reference (opcr_flag \<noteq> 0) r;
     r \<leftarrow> (if splicing_point_flag \<noteq> 0 then map_option snd (read_bits 8 r) else Some r);
     r \<leftarrow> skip_sized_field (transport_private_data_flag \<noteq> 0) r;
     r \<leftarrow> skip_sized_field (adaptation_field_extension_flag \<noteq> 0) r;
     let remaining = adaptation_field_length - (start_marker - BitReader_bits_available r div 8);
     rcheck (remaining \<ge> 0);
     r \<leftarrow> read_stuffing (nat remaining) r;
     Some (discontinuity_indicator \<noteq> 0, random_access_indicator \<noteq> 0) }"

definition ParseHeader :: "u8 list \<Rightarrow> ts_packet option" where
  "ParseHeader buf = do {
     let r = BitReader_init (take kPacketSize buf) kPacketSize;
     (syncword, r) \<leftarrow> read_bits 8 r;
     (transport_error_indicator, r) \<leftarrow> read_bits 1 r;
     (payload_unit_start_indicator, r) \<leftarrow> read_bits 1 r;
     (transport_priority, r) \<leftarrow> read_bits 1 r;
     (pid, r) \<leftarrow> read_bits 13 r;
     (transport_scrambling_control, r) \<leftarrow> read_bits 2 r;
     (adaptation_field_control, r) \<leftarrow> read_bits 2 r;
     (continuity_counter, r) \<leftarrow> read_bits 4 r;
     let packet = \<lparr>ts_payload = 4, ts_payload_size = int kPacketSize - 4,
       ts_payload_unit_start_indicator = (payload_unit_start_indicator \<noteq> 0),
       ts_pid = pid, ts_continuity_counter = continuity_counter,
       ts_discontinuity_indicator = False, ts_random_access_indicator = False\<rparr>;
     if adaptation_field_control AND 0x2 = 0 then Some packet
     else do {
       (adaptation_field_length, r) \<leftarrow> read_bits 8 r;
       let packet = packet\<lparr>ts_payload := ts_payload packet + 1, ts_payload_size := ts_payload_size packet - 1\<rparr>;
       rcheck (\<not> (adaptation_field_control AND 0x1 = 0 \<and> adaptation_field_length \<noteq> 183));
       rcheck (\<not> (adaptation_field_control AND 0x1 = 1 \<and> adaptation_field_length > 182));
       if adaptation_field_length = 0 then Some packet
       else do {
         (discontinuity, random_access) \<leftarrow> ParseAdaptationField adaptation_field_length r;
         Some (packet\<lparr>ts_discontinuity_indicator := discontinuity,
           ts_random_access_indicator := random_access,
           ts_payload := ts_payload packet + adaptation_field_length,
           ts_payload_size := ts_payload_size packet - adaptation_field_length\<rparr>) } } }"

text \<open>The outer \<open>None\<close> is the assertion that the buffer starts with the syncword.\<close>

definition TsPacket_Parse :: "u8 list \<Rightarrow> ts_packet option option" where
  "TsPacket_Parse buf =
     (if length buf < kPacketSize then Some None
      else if buf ! 0 \<noteq> kTsHeaderSyncword then None
      else Some (ParseHeader buf))"

section \<open>TimestampUnroller\<close>

record timestamp_unroller =
  is_previous_timestamp_valid :: bool
  previous_unrolled_timestamp :: int

definition TimestampUnroller_init :: timestamp_unroller where
  "TimestampUnroller_init = \<lparr>is_previous_timestamp_valid = False, previous_unrolled_timestamp = 0\<rparr>"

definition TimestampUnroller_Reset :: "timestamp_unroller \<Rightarrow> timestamp_unroller" where
  "TimestampUnroller_Reset u = u\<lparr>is_previous_timestamp_valid := False, previous_unrolled_timestamp := 0\<rparr>"

text \<open>The mask of the high 31 bits is the number \<open>- 2 ^ 33\<close>.\<close>

definition GetUnrolledTimestamp :: "int \<Rightarrow> timestamp_unroller \<Rightarrow> (int \<times> timestamp_unroller) option" where
  "GetUnrolledTimestamp timestamp u =
     (if drop_bit 33 timestamp \<noteq> 0 then None
      else if \<not> is_previous_timestamp_valid u then
        Some (timestamp, u\<lparr>previous_unrolled_timestamp := timestamp, is_previous_timestamp_valid := True\<rparr>)
      else
        let previous = previous_unrolled_timestamp u;
            unrolled_time_high_mask = - (2 ^ 33);
            time1 = (previous AND unrolled_time_high_mask) OR timestamp;
            time0 = time1 - 2 ^ 33;
            time2 = time1 + 2 ^ 33;
            diff0 = \<bar>time0 - previous\<bar>;
            diff1 = \<bar>time1 - previous\<bar>;
            diff2 = \<bar>time2 - previous\<bar>;
            (unrolled_time, min_diff) = (if diff1 < diff0 then (time1, diff1) else (time0, diff0));
            unrolled_time = (if diff2 < min_diff then time2 else unrolled_time)
        in Some (unrolled_time, u\<lparr>previous_unrolled_timestamp := unrolled_time\<rparr>))"

section \<open>Fields as parts of bytes\<close>

lemma field_drop: "i \<le> length D \<Longrightarrow> field D (8 * i + j) n = field (drop i D) j n"
  by (simp add: field_def byte_bits_drop [symmetric] add.commute)

lemma field_byte:
  assumes "i < length D" "j + n \<le> 8"
  shows "field D (8 * i + j) n = uint (D ! i) div 2 ^ (8 - j - n) mod 2 ^ n"
proof -
  have "drop i D = [D ! i] @ drop (Suc i) D" using assms(1) by (simp add: Cons_nth_drop_Suc)
  then have "field D (8 * i + j) n = field [D ! i] j n"
    using assms field_drop [of i D j n] field_append [of j n "[D ! i]"] by simp
  then show ?thesis using field_be_int [of j n "[D ! i]"] assms(2) by (simp add: be_int_Cons)
qed

lemma field_two_bytes:
  assumes "Suc i < length D" "j + n \<le> 16"
  shows "field D (8 * i + j) n = (uint (D ! i) * 256 + uint (D ! Suc i)) div 2 ^ (16 - j - n) mod 2 ^ n"
proof -
  have "drop i D = [D ! i, D ! Suc i] @ drop (Suc (Suc i)) D" using assms(1) by (simp add: Cons_nth_drop_Suc)
  then have "field D (8 * i + j) n = field [D ! i, D ! Suc i] j n"
    using assms field_drop [of i D j n] field_append [of j n "[D ! i, D ! Suc i]"] by simp
  then show ?thesis using field_be_int [of j n "[D ! i, D ! Suc i]"] assms(2) by (simp add: be_int_Cons)
qed

lemma bit_div: "uint (b :: u8) div 2 ^ k mod 2 \<noteq> 0 \<longleftrightarrow> bit b k"
proof -
  have "bit (uint b) k = bit b k" by (auto simp: bit_uint_iff dest: bit_imp_le_length)
  then show ?thesis unfolding bit_iff_odd [of "uint b" k] by presburger
qed

lemma field_flag: "i < length D \<Longrightarrow> j < 8 \<Longrightarrow> field D (8 * i + j) 1 \<noteq> 0 \<longleftrightarrow> bit (D ! i) (7 - j)"
  using field_byte [of i D j 1] bit_div [of "D ! i" "7 - j"] by simp

section \<open>The header of a packet\<close>

definition packet_fields :: "u8 list \<Rightarrow> ts_packet" where
  "packet_fields D = \<lparr>ts_payload = 4, ts_payload_size = 184, ts_payload_unit_start_indicator = (field D 9 1 \<noteq> 0),
     ts_pid = field D 11 13, ts_continuity_counter = field D 28 4,
     ts_discontinuity_indicator = False, ts_random_access_indicator = False\<rparr>"

lemma bind_pair: "Option.bind x (\<lambda>(d, a). Some (f d a)) = map_option (\<lambda>(d, a). f d a) x"
  by (cases x) auto

lemma ParseHeader_eq:
  assumes "188 \<le> length buf"
  defines "D \<equiv> take 188 buf"
  shows "\<exists>r. reader_at D 40 r \<and> ParseHeader buf =
    (if field D 26 2 AND 0x2 = 0 then Some (packet_fields D)
     else if (field D 26 2 AND 0x1 = 0 \<and> field D 32 8 \<noteq> 183) \<or> (field D 26 2 AND 0x1 = 1 \<and> field D 32 8 > 182)
     then None
     else if field D 32 8 = 0 then Some ((packet_fields D)\<lparr>ts_payload := 5, ts_payload_size := 183\<rparr>)
     else map_option (\<lambda>(d, a). (packet_fields D)\<lparr>ts_discontinuity_indicator := d, ts_random_access_indicator := a,
            ts_payload := 5 + field D 32 8, ts_payload_size := 183 - field D 32 8\<rparr>)
       (ParseAdaptationField (field D 32 8) r))"
proof -
  have len: "length D = 188" using assms by simp
  have r0: "reader_at D 0 (BitReader_init D 188)" using reader_at_init [of D] len by simp
  obtain r1 where r1: "read_bits 8 (BitReader_init D 188) = Some (field D 0 8, r1)" "reader_at D 8 r1"
    using read_bits_Some [OF r0, of 8] len by auto
  obtain r2 where r2: "read_bits 1 r1 = Some (field D 8 1, r2)" "reader_at D 9 r2"
    using read_bits_Some [OF r1(2), of 1] len by auto
  obtain r3 where r3: "read_bits 1 r2 = Some (field D 9 1, r3)" "reader_at D 10 r3"
    using read_bits_Some [OF r2(2), of 1] len by auto
  obtain r4 where r4: "read_bits 1 r3 = Some (field D 10 1, r4)" "reader_at D 11 r4"
    using read_bits_Some [OF r3(2), of 1] len by auto
  obtain r5 where r5: "read_bits 13 r4 = Some (field D 11 13, r5)" "reader_at D 24 r5"
    using read_bits_Some [OF r4(2), of 13] len by auto
  obtain r6 where r6: "read_bits 2 r5 = Some (field D 24 2, r6)" "reader_at D 26 r6"
    using read_bits_Some [OF r5(2), of 2] len by auto
  obtain r7 where r7: "read_bits 2 r6 = Some (field D 26 2, r7)" "reader_at D 28 r7"
    using read_bits_Some [OF r6(2), of 2] len by auto
  obtain r8 where r8: "read_bits 4 r7 = Some (field D 28 4, r8)" "reader_at D 32 r8"
    using read_bits_Some [OF r7(2), of 4] len by auto
  obtain r9 where r9: "read_bits 8 r8 = Some (field D 32 8, r9)" "reader_at D 40 r9"
    using read_bits_Some [OF r8(2), of 8] len by auto
  have "ParseHeader buf =
    (if field D 26 2 AND 0x2 = 0 then Some (packet_fields D)
     else if (field D 26 2 AND 0x1 = 0 \<and> field D 32 8 \<noteq> 183) \<or> (field D 26 2 AND 0x1 = 1 \<and> field D 32 8 > 182)
     then None
     else if field D 32 8 = 0 then Some ((packet_fields D)\<lparr>ts_payload := 5, ts_payload_size := 183\<rparr>)
     else map_option (\<lambda>(d, a). (packet_fields D)\<lparr>ts_discontinuity_indicator := d, ts_random_access_indicator := a,
            ts_payload := 5 + field D 32 8, ts_payload_size := 183 - field D 32 8\<rparr>)
       (ParseAdaptationField (field D 32 8) r9))"
    unfolding ParseHeader_def kPacketSize_def D_def [symmetric]
    by (simp add: r1 r2 r3 r4 r5 r6 r7 r8 r9 packet_fields_def rcheck_def Let_def bind_pair del: One_nat_def)
  then show ?thesis using r9(2) by blast
qed

lemma ParseAdaptationField_flags:
  assumes "reader_at D p r" "ParseAdaptationField len r = Some (d, a)"
  shows "d = (field D p 1 \<noteq> 0)" "a = (field D (p + 1) 1 \<noteq> 0)"
proof -
  obtain x y r1 r2 where x: "read_bits 1 r = Some (x, r1)" "read_bits 1 r1 = Some (y, r2)"
    "d = (x \<noteq> 0)" "a = (y \<noteq> 0)"
    using assms(2) by (auto simp: ParseAdaptationField_def Let_def split: bind_splits)
  note f = read_bits_at [OF assms(1) _ x(1)]
  note g = read_bits_at [OF f(2) _ x(2)]
  show "d = (field D p 1 \<noteq> 0)" "a = (field D (p + 1) 1 \<noteq> 0)" using f(1) g(1) x(3,4) by simp_all
qed

lemma control_bits:
  assumes "0 \<le> f" "f < (4 :: int)"
  shows "f AND 0x2 = 0 \<longleftrightarrow> f div 2 mod 2 = 0" "f AND 0x1 = f mod 2"
proof -
  have "f = 0 \<or> f = 1 \<or> f = 2 \<or> f = 3" using assms by linarith
  then show "f AND 0x2 = 0 \<longleftrightarrow> f div 2 mod 2 = 0" "f AND 0x1 = f mod 2" by auto
qed

section \<open>Synchronisation\<close>

definition synced :: "u8 list \<Rightarrow> nat \<Rightarrow> bool" where
  "synced buf k \<longleftrightarrow> (\<forall>i<4. k + 188 * i < length buf \<longrightarrow> buf ! (k + 188 * i) = 0x47)"

lemma is_header_iff: "is_header_loop buf k [0, 1, 2, 3] \<longleftrightarrow> synced buf k"
proof -
  have four: "(\<forall>i<4. P i) \<longleftrightarrow> P 0 \<and> P 1 \<and> P 2 \<and> P (3::nat)" for P
    by (auto simp: numeral_eq_Suc less_Suc_eq)
  show ?thesis unfolding synced_def four
    by (auto simp: Let_def kPacketSize_def kTsHeaderSyncword_def)
qed

lemma sync_loop_correct:
  "k \<le> length buf \<Longrightarrow> k \<le> sync_loop buf k \<and> sync_loop buf k \<le> length buf \<and>
     (sync_loop buf k < length buf \<longrightarrow> synced buf (sync_loop buf k)) \<and>
     (\<forall>j. k \<le> j \<and> j < sync_loop buf k \<longrightarrow> \<not> synced buf j)"
proof (induction buf k rule: sync_loop.induct)
  case (1 buf k)
  show ?case
  proof (cases "k < length buf \<and> \<not> is_header_loop buf k [0, 1, 2, 3]")
    case True
    then have eq: "sync_loop buf k = sync_loop buf (k + 1)"
      by (subst sync_loop.simps) (simp del: is_header_loop.simps)
    have ih: "k + 1 \<le> sync_loop buf (k + 1) \<and> sync_loop buf (k + 1) \<le> length buf \<and>
        (sync_loop buf (k + 1) < length buf \<longrightarrow> synced buf (sync_loop buf (k + 1))) \<and>
        (\<forall>j. k + 1 \<le> j \<and> j < sync_loop buf (k + 1) \<longrightarrow> \<not> synced buf j)"
      using "1.IH" True by (simp del: is_header_loop.simps)
    have "\<not> synced buf k" using True is_header_iff [of buf k] by blast
    then have "\<not> synced buf j" if "k \<le> j" "j < sync_loop buf k" for j
      using ih that eq by (cases "j = k") auto
    then show ?thesis using ih eq by auto
  next
    case False
    then have "sync_loop buf k = k" by (subst sync_loop.simps) (auto simp del: is_header_loop.simps)
    moreover have "k < length buf \<Longrightarrow> synced buf k" using False is_header_iff [of buf k] by blast
    ultimately show ?thesis using 1(2) by auto
  qed
qed

section \<open>Unrolling\<close>

lemma unrolled_time1:
  assumes "0 \<le> t" "t < 2 ^ 33"
  shows "((v :: int) AND - (2 ^ 33)) OR t = v - v mod 2 ^ 33 + t"
proof -
  have "(- (2 ^ 33) :: int) = NOT (2 ^ 33 - 1)" by (simp add: not_int_def)
  then show ?thesis using splice_low_bits [OF assms, of v] by simp
qed

lemma closest_candidate:
  fixes v t x m :: int
  assumes m: "0 < m" and t: "0 \<le> t" "t < m" and x: "x mod m = t"
  defines "a \<equiv> v - v mod m + t"
  shows "\<bar>a - m - v\<bar> \<le> \<bar>x - v\<bar> \<or> \<bar>a - v\<bar> \<le> \<bar>x - v\<bar> \<or> \<bar>a + m - v\<bar> \<le> \<bar>x - v\<bar>"
proof -
  have "a mod m = t" using t by (simp add: a_def minus_mod_eq_mult_div)
  then have "x mod m = a mod m" using x by simp
  then have "m dvd x - a" by (rule mod_eq_dvd_iff [THEN iffD1])
  then obtain k where "x - a = m * k" by (rule dvdE)
  then have k: "x = a + k * m" by (simp add: algebra_simps)
  have v: "0 \<le> v mod m" "v mod m < m" using m by simp_all
  have av: "- m < a - v" "a - v < m" using v t unfolding a_def by linarith+
  consider "k \<le> - 1" | "k = 0" | "1 \<le> k" by linarith
  then show ?thesis
  proof cases
    case 1
    then have "k * m \<le> - 1 * m" using m by (intro mult_right_mono) auto
    then have "x - v \<le> a - m - v" "a - m - v < 0" using k av by simp_all
    then show ?thesis by linarith
  next
    case 3
    then have "1 * m \<le> k * m" using m by (intro mult_right_mono) auto
    then have "a + m - v \<le> x - v" "0 < a + m - v" using k av by simp_all
    then show ?thesis by linarith
  qed (use k in simp)
qed

lemma pick_closest:
  fixes a b c v :: int
  defines "r \<equiv> (let (w, d) = (if \<bar>b - v\<bar> < \<bar>a - v\<bar> then (b, \<bar>b - v\<bar>) else (a, \<bar>a - v\<bar>))
    in if \<bar>c - v\<bar> < d then c else w)"
  shows "(r = b \<or> r = a \<or> r = c) \<and> \<bar>r - v\<bar> \<le> \<bar>b - v\<bar> \<and> \<bar>r - v\<bar> \<le> \<bar>a - v\<bar> \<and> \<bar>r - v\<bar> \<le> \<bar>c - v\<bar>"
  by (simp add: r_def)

lemma GetUnrolledTimestamp_closest:
  assumes t: "0 \<le> t" "t < 2 ^ 33" and valid: "is_previous_timestamp_valid u"
  shows "\<exists>r. GetUnrolledTimestamp t u = Some (r, u\<lparr>previous_unrolled_timestamp := r\<rparr>) \<and>
    r mod 2 ^ 33 = t \<and> \<bar>r - previous_unrolled_timestamp u\<bar> \<le> 2 ^ 32 \<and>
    (\<forall>x. x mod 2 ^ 33 = t \<longrightarrow> \<bar>r - previous_unrolled_timestamp u\<bar> \<le> \<bar>x - previous_unrolled_timestamp u\<bar>)"
proof -
  let ?v = "previous_unrolled_timestamp u" and ?m = "2 ^ 33 :: int"
  let ?a = "?v - ?v mod ?m + t"
  define r where "r = (let (w, d) = (if \<bar>?a - ?v\<bar> < \<bar>?a - ?m - ?v\<bar> then (?a, \<bar>?a - ?v\<bar>)
      else (?a - ?m, \<bar>?a - ?m - ?v\<bar>)) in if \<bar>?a + ?m - ?v\<bar> < d then ?a + ?m else w)"
  have d0: "drop_bit 33 t = 0" using t by (simp add: drop_bit_eq_div)
  have get: "GetUnrolledTimestamp t u = Some (r, u\<lparr>previous_unrolled_timestamp := r\<rparr>)"
    unfolding GetUnrolledTimestamp_def r_def Let_def unrolled_time1 [OF t] d0
    using valid by (auto simp only: split: if_split)
  have cases: "(r = ?a \<or> r = ?a - ?m \<or> r = ?a + ?m) \<and> \<bar>r - ?v\<bar> \<le> \<bar>?a - ?v\<bar> \<and>
      \<bar>r - ?v\<bar> \<le> \<bar>?a - ?m - ?v\<bar> \<and> \<bar>r - ?v\<bar> \<le> \<bar>?a + ?m - ?v\<bar>"
    unfolding r_def by (rule pick_closest)
  have "?a mod ?m = t" using t by (simp add: minus_mod_eq_mult_div)
  then have "r mod ?m = t" using cases by auto
  moreover have "\<bar>r - ?v\<bar> \<le> \<bar>x - ?v\<bar>" if "x mod ?m = t" for x
  proof -
    have "\<bar>?a - ?m - ?v\<bar> \<le> \<bar>x - ?v\<bar> \<or> \<bar>?a - ?v\<bar> \<le> \<bar>x - ?v\<bar> \<or> \<bar>?a + ?m - ?v\<bar> \<le> \<bar>x - ?v\<bar>"
      by (rule closest_candidate [OF _ t that]) simp
    then show ?thesis using cases by (meson order_trans)
  qed
  moreover have "\<bar>r - ?v\<bar> \<le> 2 ^ 32"
  proof -
    have "0 \<le> ?v mod ?m" "?v mod ?m < ?m" by simp_all
    then have "\<bar>?a - ?v\<bar> \<le> 2 ^ 32 \<or> \<bar>?a - ?m - ?v\<bar> \<le> 2 ^ 32 \<or> \<bar>?a + ?m - ?v\<bar> \<le> 2 ^ 32"
      using t by simp linarith
    then show ?thesis using cases by linarith
  qed
  ultimately show ?thesis using get by blast
qed

fun unroll_run :: "int list \<Rightarrow> timestamp_unroller \<Rightarrow> (int list \<times> timestamp_unroller) option" where
  "unroll_run [] u = Some ([], u)"
| "unroll_run (t # ts) u =
     (case GetUnrolledTimestamp t u of
        None \<Rightarrow> None
      | Some (r, u1) \<Rightarrow> map_option (\<lambda>(rs, u2). (r # rs, u2)) (unroll_run ts u1))"

text \<open>Successive timestamps less than half the range apart.\<close>

fun close_steps :: "int \<Rightarrow> int list \<Rightarrow> bool" where
  "close_steps t [] = True"
| "close_steps t (t' # ts) = (\<bar>t' - t\<bar> < 2 ^ 32 \<and> close_steps t' ts)"

lemma unroll_run_from:
  assumes "is_previous_timestamp_valid u" "previous_unrolled_timestamp u = t - k * 2 ^ 33" "close_steps t ts"
  shows "\<exists>u'. unroll_run (map (\<lambda>t. t mod 2 ^ 33) ts) u = Some (map (\<lambda>t. t - k * 2 ^ 33) ts, u')"
  using assms
proof (induction ts arbitrary: t u)
  case (Cons t' ts)
  let ?v = "previous_unrolled_timestamp u" and ?m = "2 ^ 33 :: int"
  obtain r where r: "GetUnrolledTimestamp (t' mod ?m) u = Some (r, u\<lparr>previous_unrolled_timestamp := r\<rparr>)"
    "r mod ?m = t' mod ?m" "\<forall>x. x mod ?m = t' mod ?m \<longrightarrow> \<bar>r - ?v\<bar> \<le> \<bar>x - ?v\<bar>"
    using GetUnrolledTimestamp_closest [OF _ _ Cons.prems(1), of "t' mod ?m"] by auto
  let ?x = "t' - k * ?m"
  have x: "?x mod ?m = t' mod ?m" using mod_mult_self1 [of t' "- k" ?m] by simp
  have x2: "\<bar>?x - ?v\<bar> < 2 ^ 32" using Cons.prems(2,3) by simp
  have near: "\<bar>r - ?v\<bar> < 2 ^ 32" by (rule order_le_less_trans [OF r(3) [rule_format, OF x] x2])
  have "r mod ?m = ?x mod ?m" using r(2) x by simp
  then have "?m dvd r - ?x" by (rule mod_eq_dvd_iff [THEN iffD1])
  moreover have "\<bar>r - ?x\<bar> < ?m" using near x2 by simp
  ultimately have "r = ?x" using dvd_imp_le_int [of "r - ?x" ?m] by fastforce
  then show ?case
    using r(1) Cons.IH [of "u\<lparr>previous_unrolled_timestamp := r\<rparr>" t'] Cons.prems by auto
qed simp

section \<open>Properties\<close>

lemma packet_control:
  assumes "length D = 188"
  shows "field D 26 2 AND 0x2 = 0 \<longleftrightarrow> \<not> bit (D ! 3) 5"
    "field D 26 2 AND 0x1 = 0 \<longleftrightarrow> \<not> bit (D ! 3) 4" "field D 26 2 AND 0x1 = 1 \<longleftrightarrow> bit (D ! 3) 4"
proof -
  have f: "field D 26 2 = uint (D ! 3) div 16 mod 4" using field_byte [of 3 D 2 2] assms by simp
  have "0 \<le> field D 26 2" "field D 26 2 < 4" using field_bounds [of D 26 2] by simp_all
  note c = control_bits [OF this, unfolded f]
  have "x mod 4 div 2 mod 2 = x div 2 mod 2" "x mod 4 mod 2 = x mod 2" for x :: int
  proof -
    have "x mod 4 = 2 * (x div 2 mod 2) + x mod 2" using zmod_zmult2_eq [of 2 x 2] by simp
    then show "x mod 4 div 2 mod 2 = x div 2 mod 2" "x mod 4 mod 2 = x mod 2" by simp_all
  qed
  moreover have "uint (D ! 3) div 16 div 2 = uint (D ! 3) div 32"
    using zdiv_zmult2_eq [of 2 "uint (D ! 3)" 16] by simp
  ultimately have e: "uint (D ! 3) div 16 mod 4 div 2 mod 2 = uint (D ! 3) div 32 mod 2"
    "uint (D ! 3) div 16 mod 4 mod 2 = uint (D ! 3) div 16 mod 2" by simp_all
  have five: "uint (D ! 3) div 32 mod 2 \<noteq> 0 \<longleftrightarrow> bit (D ! 3) 5" using bit_div [of "D ! 3" 5] by simp
  have four: "uint (D ! 3) div 16 mod 2 \<noteq> 0 \<longleftrightarrow> bit (D ! 3) 4" using bit_div [of "D ! 3" 4] by simp
  show "field D 26 2 AND 0x2 = 0 \<longleftrightarrow> \<not> bit (D ! 3) 5" unfolding f c e using five by auto
  show "field D 26 2 AND 0x1 = 0 \<longleftrightarrow> \<not> bit (D ! 3) 4" unfolding f c e using four by auto
  show "field D 26 2 AND 0x1 = 1 \<longleftrightarrow> bit (D ! 3) 4"
    unfolding f c e using four by (metis not_mod_2_eq_0_eq_1)
qed

lemma packet_base:
  assumes "length D = 188"
  shows "ts_pid (packet_fields D) = uint (D ! 1) mod 32 * 256 + uint (D ! 2)"
    "ts_continuity_counter (packet_fields D) = uint (D ! 3) mod 16"
    "ts_payload_unit_start_indicator (packet_fields D) = bit (D ! 1) 6"
proof -
  have "uint (D ! 2) < 256" "0 \<le> uint (D ! 2)" by (rule uint_u8)+
  then have "(uint (D ! 1) * 256 + uint (D ! 2)) mod (256 * 32) = uint (D ! 1) mod 32 * 256 + uint (D ! 2)"
    by (subst zmod_zmult2_eq) simp_all
  then have "(uint (D ! 1) * 256 + uint (D ! 2)) mod 8192 = uint (D ! 1) mod 32 * 256 + uint (D ! 2)"
    by simp
  then show "ts_pid (packet_fields D) = uint (D ! 1) mod 32 * 256 + uint (D ! 2)"
    using field_two_bytes [of 1 D 3 13] assms by (simp add: packet_fields_def numeral_2_eq_2)
  show "ts_continuity_counter (packet_fields D) = uint (D ! 3) mod 16"
    using field_byte [of 3 D 4 4] assms by (simp add: packet_fields_def)
  show "ts_payload_unit_start_indicator (packet_fields D) = bit (D ! 1) 6"
    using field_flag [of 1 D 1] assms by (simp add: packet_fields_def)
qed

text \<open>The result of \<open>ParseHeader\<close>, with the adaptation field or without.\<close>

definition adaptation_result :: "u8 list \<Rightarrow> ts_packet \<Rightarrow> bool" where
  "adaptation_result D p \<longleftrightarrow>
     (if bit (D ! 3) 5
      then (if bit (D ! 3) 4 then uint (D ! 4) \<le> 182 else uint (D ! 4) = 183) \<and>
        (\<exists>d a. p = (packet_fields D)\<lparr>ts_discontinuity_indicator := d, ts_random_access_indicator := a,
           ts_payload := 5 + uint (D ! 4), ts_payload_size := 183 - uint (D ! 4)\<rparr> \<and>
           d = (D ! 4 \<noteq> 0 \<and> bit (D ! 5) 7) \<and> a = (D ! 4 \<noteq> 0 \<and> bit (D ! 5) 6))
      else p = packet_fields D)"

lemma ParseHeader_result:
  assumes buf: "188 \<le> length buf" and D: "D = take 188 buf"
  shows "case ParseHeader buf of None \<Rightarrow> bit (D ! 3) 5 | Some p \<Rightarrow> adaptation_result D p"
proof -
  have len: "length D = 188" using buf D by simp
  note control = packet_control [OF len]
  have n: "field D 32 8 = uint (D ! 4)" using field_byte [of 4 D 0 8] len uint_u8 [of "D ! 4"] by simp
  have zero: "D ! 4 = 0 \<longleftrightarrow> uint (D ! 4) = 0" by (simp add: word_uint_eq_iff)
  obtain r where r: "reader_at D 40 r" "ParseHeader buf =
    (if field D 26 2 AND 0x2 = 0 then Some (packet_fields D)
     else if (field D 26 2 AND 0x1 = 0 \<and> field D 32 8 \<noteq> 183) \<or> (field D 26 2 AND 0x1 = 1 \<and> field D 32 8 > 182)
     then None
     else if field D 32 8 = 0 then Some ((packet_fields D)\<lparr>ts_payload := 5, ts_payload_size := 183\<rparr>)
     else map_option (\<lambda>(d, a). (packet_fields D)\<lparr>ts_discontinuity_indicator := d, ts_random_access_indicator := a,
            ts_payload := 5 + field D 32 8, ts_payload_size := 183 - field D 32 8\<rparr>)
       (ParseAdaptationField (field D 32 8) r))"
    using ParseHeader_eq [OF buf] unfolding D by blast
  have flags: "d = bit (D ! 5) 7" "a = bit (D ! 5) 6" if "ParseAdaptationField k r = Some (d, a)" for k d a
    using ParseAdaptationField_flags [OF r(1) that] field_flag [of 5 D 0] field_flag [of 5 D 1] len by simp_all
  show ?thesis
  proof (cases "bit (D ! 3) 5 \<and> uint (D ! 4) \<noteq> 0")
    case False
    then show ?thesis
      unfolding r(2) using control zero by (auto simp: n adaptation_result_def packet_fields_def split: if_splits)
  next
    case True
    then show ?thesis
      unfolding r(2) using control zero
      by (auto simp: n adaptation_result_def split: if_splits option.splits dest: flags)
  qed
qed

text \<open>
  Parsing a buffer of at least one packet that starts with the syncword violates no
  assertion. It fails only for an adaptation field; otherwise the PID, continuity counter and
  start indicator are the bits of the header the standard names, and the payload starts after
  the header, or after the adaptation field, and ends with the packet's 188 bytes.
\<close>

theorem TsPacket_Parse_fields:
  assumes "188 \<le> length buf" "buf ! 0 = 0x47"
  shows "\<exists>r. TsPacket_Parse buf = Some r \<and>
    (case r of
       None \<Rightarrow> bit (buf ! 3) 5
     | Some p \<Rightarrow>
         ts_pid p = uint (buf ! 1) mod 32 * 256 + uint (buf ! 2) \<and>
         ts_continuity_counter p = uint (buf ! 3) mod 16 \<and>
         ts_payload_unit_start_indicator p = bit (buf ! 1) 6 \<and>
         ts_payload p + ts_payload_size p = 188 \<and>
         (if bit (buf ! 3) 5
          then ts_payload p = 5 + uint (buf ! 4) \<and>
            (if bit (buf ! 3) 4 then uint (buf ! 4) \<le> 182 else uint (buf ! 4) = 183) \<and>
            ts_discontinuity_indicator p = (buf ! 4 \<noteq> 0 \<and> bit (buf ! 5) 7) \<and>
            ts_random_access_indicator p = (buf ! 4 \<noteq> 0 \<and> bit (buf ! 5) 6)
          else ts_payload p = 4 \<and> \<not> ts_discontinuity_indicator p \<and> \<not> ts_random_access_indicator p))"
proof -
  define D where "D = take 188 buf"
  have D: "length D = 188" "\<And>i. i < 188 \<Longrightarrow> D ! i = buf ! i" using assms(1) by (simp_all add: D_def)
  have "TsPacket_Parse buf = Some (ParseHeader buf)"
    using assms by (simp add: TsPacket_Parse_def kPacketSize_def kTsHeaderSyncword_def)
  then show ?thesis
    using ParseHeader_result [OF assms(1) D_def] packet_base [OF D(1)] D(2)
    by (auto simp: adaptation_result_def packet_fields_def split: option.splits if_splits)
qed

definition sample_packet :: "u8 list" where
  "sample_packet = [0x47, 0x41, 0x02, 0x35, 1, 0x40] @ replicate 182 9"

theorem TsPacket_Parse_fields_witness:
  "\<exists>r. TsPacket_Parse sample_packet = Some r \<and> (\<forall>p. r = Some p \<longrightarrow> ts_pid p = 258 \<and> ts_payload p = 6)"
proof -
  have l: "188 \<le> length sample_packet" "sample_packet ! 0 = 0x47" by (simp_all add: sample_packet_def)
  have v: "bit (sample_packet ! 3) 5" "uint (sample_packet ! 1) = 0x41" "uint (sample_packet ! 2) = 2"
    "uint (sample_packet ! 4) = 1"
    by (simp_all add: sample_packet_def bit_numeral_rec)
  from TsPacket_Parse_fields [OF l] show ?thesis
  proof (elim exE conjE, intro exI conjI)
    fix r assume "TsPacket_Parse sample_packet = Some r"
    then show "TsPacket_Parse sample_packet = Some r" .
  qed (use v in \<open>auto split: option.splits\<close>)
qed

text \<open>
  C27: timestamps that are known modulo \<open>2 ^ 33\<close> only are recovered: when successive timestamps
  of a stream lie less than \<open>2 ^ 32\<close> apart, forwards or backwards, the unroller returns all of
  them, shifted by one multiple of \<open>2 ^ 33\<close>, which the first timestamp fixes.
\<close>

theorem unroll_recovers:
  assumes "close_steps t ts"
  shows "\<exists>u. unroll_run (map (\<lambda>t. t mod 2 ^ 33) (t # ts)) TimestampUnroller_init =
    Some (map (\<lambda>s. s - t div 2 ^ 33 * 2 ^ 33) (t # ts), u)"
proof -
  let ?m = "2 ^ 33 :: int"
  let ?u = "\<lparr>is_previous_timestamp_valid = True, previous_unrolled_timestamp = t mod ?m\<rparr>"
  have m: "t mod ?m = t - t div ?m * ?m" by (rule minus_div_mult_eq_mod [symmetric])
  have "drop_bit 33 (t mod ?m) = 0" by (simp add: drop_bit_eq_div)
  then have g: "GetUnrolledTimestamp (t mod ?m) TimestampUnroller_init = Some (t mod ?m, ?u)"
    by (simp add: GetUnrolledTimestamp_def TimestampUnroller_init_def)
  obtain u where u: "unroll_run (map (\<lambda>t. t mod ?m) ts) ?u = Some (map (\<lambda>s. s - t div ?m * ?m) ts, u)"
  proof -
    have "is_previous_timestamp_valid ?u" "previous_unrolled_timestamp ?u = t - t div ?m * ?m"
      by (simp_all only: timestamp_unroller.simps m)
    from unroll_run_from [OF this assms] show ?thesis using that by blast
  qed
  have "unroll_run (map (\<lambda>t. t mod ?m) (t # ts)) TimestampUnroller_init =
      Some (t mod ?m # map (\<lambda>s. s - t div ?m * ?m) ts, u)"
    unfolding list.map unroll_run.simps g option.case prod.case u by (simp only: option.map prod.case)
  then show ?thesis unfolding m by (intro exI [of _ u]) (simp only: list.map)
qed

theorem unroll_recovers_witness:
  "\<exists>u. unroll_run [2 ^ 33 - 5, 7, 2 ^ 33 - 1] TimestampUnroller_init = Some ([2 ^ 33 - 5, 2 ^ 33 + 7, 2 ^ 33 - 1], u)"
  using unroll_recovers [of "2 ^ 33 - 5" "[2 ^ 33 + 7, 2 ^ 33 - 1]"] by simp

end
