(* ===== verification/Mp2t_Sections.thy ===== *)
theory Mp2t_Sections
  imports Mp2t_Packet Byte_Queue "HOL-Library.Signed_Division"
begin

text \<open>
  The sections of an MPEG-2 transport stream (\<open>formats/mp2t\<close>): \<open>TsSectionPsi\<close>, which collects the
  bytes of a table and checks their CRC, the tables PAT and PMT with their descriptors, and
  \<open>TsSectionPes\<close>, which collects the bytes of a PES packet and hands its payload and
  timestamps to the parser of the elementary stream.

  The virtual functions of \<open>TsSectionPsi\<close> and of \<open>EsParser\<close> are records of functions over a state
  of their own. The callbacks a section runs are returned as a list of events, in order. A
  failing assertion is the outer \<open>None\<close>; the \<open>bool\<close> is the return value.
\<close>

section \<open>TsSectionPsi\<close>

fun crc_bits :: "nat \<Rightarrow> u32 \<Rightarrow> u32 \<Rightarrow> u32" where
  "crc_bits 0 data_msb_aligned crc = crc"
| "crc_bits (Suc n) data_msb_aligned crc =
     crc_bits n (push_bit 1 data_msb_aligned)
       (if (data_msb_aligned XOR crc) AND 0x80000000 \<noteq> 0 then push_bit 1 crc XOR 0x4c11db7 else push_bit 1 crc)"

definition crc_byte :: "u8 \<Rightarrow> u32 \<Rightarrow> u32" where
  "crc_byte b crc = crc_bits 8 (push_bit (32 - 8) (ucast b)) crc"

definition IsCrcValid :: "u8 list \<Rightarrow> bool" where
  "IsCrcValid dat \<longleftrightarrow> fold crc_byte dat 0xffffffff = 0"

record ('s, 'ev) psi_section =
  ParsePsiSection :: "bit_reader \<Rightarrow> 's \<Rightarrow> (bool \<times> 'ev list \<times> 's) option"
  ResetPsiSection :: "'s \<Rightarrow> 's"

record 's ts_section_psi =
  psi_byte_queue :: byte_queue
  psi_wait_for_pusi :: bool
  psi_leading_bytes_to_discard :: nat
  psi_state :: 's

definition TsSectionPsi_init :: "(nat \<Rightarrow> u8) \<Rightarrow> 's \<Rightarrow> 's ts_section_psi" where
  "TsSectionPsi_init fresh st =
     \<lparr>psi_byte_queue = ByteQueue_init fresh, psi_wait_for_pusi = True,
      psi_leading_bytes_to_discard = 0, psi_state = st\<rparr>"

definition ResetPsiState :: "'s ts_section_psi \<Rightarrow> 's ts_section_psi" where
  "ResetPsiState s = s\<lparr>psi_wait_for_pusi := True, psi_byte_queue := ByteQueue_Reset (psi_byte_queue s),
     psi_leading_bytes_to_discard := 0\<rparr>"

definition TsSectionPsi_Reset :: "('s, 'ev) psi_section \<Rightarrow> 's ts_section_psi \<Rightarrow> 's ts_section_psi" where
  "TsSectionPsi_Reset C s = ResetPsiState (s\<lparr>psi_state := ResetPsiSection C (psi_state s)\<rparr>)"

text \<open>From adding the data to the end of \<open>Parse\<close>.\<close>

definition psi_add_data ::
  "(nat \<Rightarrow> u8) \<Rightarrow> ('s, 'ev) psi_section \<Rightarrow> u8 list \<Rightarrow> 's ts_section_psi \<Rightarrow>
   (bool \<times> 'ev list \<times> 's ts_section_psi) option" where
  "psi_add_data fresh C dat s =
     (case ByteQueue_Push fresh dat (psi_byte_queue s) of
        None \<Rightarrow> None
      | Some q \<Rightarrow>
          let s = s\<lparr>psi_byte_queue := q\<rparr>;
              (raw_psi, raw_psi_size) = ByteQueue_Peek q
          in if raw_psi_size < 3 then Some (True, [], s)
             else
               let section_length = ((push_bit 8 (uint (raw_psi ! 1))) OR uint (raw_psi ! 2)) AND 0xfff in
               if section_length \<ge> 1021 then Some (False, [], s)
               else
                 let psi_length = nat section_length + 3 in
                 if raw_psi_size < psi_length then Some (True, [], s)
                 else if \<not> IsCrcValid (take psi_length raw_psi) then Some (False, [], s)
                 else
                   (case ParsePsiSection C (BitReader_init (take raw_psi_size raw_psi) raw_psi_size) (psi_state s) of
                      None \<Rightarrow> None
                    | Some (status, events, st) \<Rightarrow>
                        let s = s\<lparr>psi_state := st\<rparr>
                        in Some (status, events, if status then ResetPsiState s else s)))"

definition TsSectionPsi_Parse ::
  "(nat \<Rightarrow> u8) \<Rightarrow> ('s, 'ev) psi_section \<Rightarrow> bool \<Rightarrow> u8 list \<Rightarrow> 's ts_section_psi \<Rightarrow>
   (bool \<times> 'ev list \<times> 's ts_section_psi) option" where
  "TsSectionPsi_Parse fresh C payload_unit_start_indicator dat s =
     (if psi_wait_for_pusi s \<and> \<not> payload_unit_start_indicator then Some (True, [], s)
      else
        let s = (if payload_unit_start_indicator then (ResetPsiState s)\<lparr>psi_wait_for_pusi := False\<rparr> else s) in
        if payload_unit_start_indicator \<and> \<not> length dat > 0 then Some (False, [], s)
        else
          let (dat, s) = (if payload_unit_start_indicator
                then (tl dat, s\<lparr>psi_leading_bytes_to_discard := unat (hd dat)\<rparr>) else (dat, s));
              n = min (psi_leading_bytes_to_discard s) (length dat);
              (dat, s) = (if psi_leading_bytes_to_discard s > 0
                then (drop n dat, s\<lparr>psi_leading_bytes_to_discard := psi_leading_bytes_to_discard s - n\<rparr>)
                else (dat, s))
          in if length dat = 0 then Some (True, [], s)
             else psi_add_data fresh C dat s)"

section \<open>The program association table\<close>

text \<open>
  The fixed part up to the size check: the remaining section length, the version number and
  \<open>current_next_indicator\<close>.
\<close>

definition read_pat_header :: "bit_reader \<Rightarrow> (int \<times> int \<times> int \<times> bit_reader) option" where
  "read_pat_header r = do {
     (table_id, r) \<leftarrow> read_bits 8 r;
     (section_syntax_indicator, r) \<leftarrow> read_bits 1 r;
     (dummy_zero, r) \<leftarrow> read_bits 1 r;
     (reserved, r) \<leftarrow> read_bits 2 r;
     (section_length, r) \<leftarrow> read_bits 12 r;
     rcheck (section_length \<ge> 5);
     rcheck (section_length \<le> 1021);
     (transport_stream_id, r) \<leftarrow> read_bits 16 r;
     (reserved, r) \<leftarrow> read_bits 2 r;
     (version_number, r) \<leftarrow> read_bits 5 r;
     (current_next_indicator, r) \<leftarrow> read_bits 1 r;
     (section_number, r) \<leftarrow> read_bits 8 r;
     (last_section_number, r) \<leftarrow> read_bits 8 r;
     let section_length = section_length - 5;
     rcheck (table_id = 0x0);
     rcheck (section_syntax_indicator \<noteq> 0);
     rcheck (\<not> dummy_zero \<noteq> 0);
     rcheck (section_length mod 4 = 0);
     Some (section_length, version_number, current_next_indicator, r) }"

fun read_programs :: "nat \<Rightarrow> bit_reader \<Rightarrow> ((int \<times> int) list \<times> bit_reader) option" where
  "read_programs 0 r = Some ([], r)"
| "read_programs (Suc k) r = do {
     (program_number, r) \<leftarrow> read_bits 16 r;
     (reserved, r) \<leftarrow> read_bits 3 r;
     (pmt_pid, r) \<leftarrow> read_bits 13 r;
     (programs, r) \<leftarrow> read_programs k r;
     Some ((program_number, pmt_pid) # programs, r) }"

definition read_program_table :: "nat \<Rightarrow> bit_reader \<Rightarrow> (int \<times> int) list option" where
  "read_program_table pmt_pid_count r = do {
     (programs, r) \<leftarrow> read_programs pmt_pid_count r;
     (crc32, r) \<leftarrow> read_bits 32 r;
     Some programs }"

text \<open>
  The state is \<open>version_number_\<close>, an event a call of the callback. The vectors cannot have a
  negative size.
\<close>

definition TsSectionPat_ParsePsiSection :: "bit_reader \<Rightarrow> int \<Rightarrow> (bool \<times> (int \<times> int) list \<times> int) option" where
  "TsSectionPat_ParsePsiSection r version =
     (case read_pat_header r of
        None \<Rightarrow> Some (False, [], version)
      | Some (section_length, version_number, current_next_indicator, r) \<Rightarrow>
          let pmt_pid_count = (section_length - 4) sdiv 4 in
          if pmt_pid_count < 0 then None
          else
            (case read_program_table (nat pmt_pid_count) r of
               None \<Rightarrow> Some (False, [], version)
             | Some programs \<Rightarrow>
                 if current_next_indicator = 0 then Some (True, [], version)
                 else if version_number = version then Some (True, [], version)
                 else if pmt_pid_count > 1 then Some (False, [], version)
                 else Some (True, take 1 (filter (\<lambda>e. fst e \<noteq> 0) programs), version_number)))"

definition TsSectionPat :: "(int, int \<times> int) psi_section" where
  "TsSectionPat = \<lparr>ParsePsiSection = TsSectionPat_ParsePsiSection, ResetPsiSection = (\<lambda>_. - 1)\<rparr>"

section \<open>Descriptors\<close>

text \<open>A \<open>std::map\<close> that is iterated; \<open>insert\<close> keeps an entry that exists.\<close>

type_synonym descriptors = "(int \<times> u8 list) list"

fun read_bytes :: "nat \<Rightarrow> bit_reader \<Rightarrow> (u8 list \<times> bit_reader) option" where
  "read_bytes 0 r = Some ([], r)"
| "read_bytes (Suc n) r = do {
     (c, r) \<leftarrow> read_bits 8 r;
     (cs, r) \<leftarrow> read_bytes n r;
     Some (word_of_int c # cs, r) }"

text \<open>The loop; every round reads at least two bytes, so that the size in bits is fuel enough.\<close>

fun descriptors_loop ::
  "nat \<Rightarrow> int \<Rightarrow> int \<Rightarrow> descriptors \<Rightarrow> bit_reader \<Rightarrow> (descriptors \<times> bit_reader) option" where
  "descriptors_loop 0 initial_bits_read bits_available ds r = None"
| "descriptors_loop (Suc fuel) initial_bits_read bits_available ds r = do {
     (tag, r) \<leftarrow> read_bits 8 r;
     (len, r) \<leftarrow> read_bits 8 r;
     (data, r) \<leftarrow> read_bytes (nat len) r;
     let ds = map_insert tag data ds;
     let bits_read = int (BitReader_bits_read r) - initial_bits_read;
     if bits_read < bits_available then descriptors_loop fuel initial_bits_read bits_available ds r
     else do { rcheck (bits_read = bits_available); Some (ds, r) } }"

definition Descriptors_Read :: "bit_reader \<Rightarrow> int \<Rightarrow> (descriptors \<times> bit_reader) option" where
  "Descriptors_Read r sz =
     (if sz = 0 then Some ([], r)
      else
        let initial_bits_read = int (BitReader_bits_read r);
            size_in_bits = 8 * sz
        in if size_in_bits > BitReader_bits_available r then None
           else descriptors_loop (nat size_in_bits) initial_bits_read size_in_bits [] r)"

text \<open>
  \<open>RCHECK(reader.ReadString(n, &str))\<close>; the outer \<open>None\<close> is a failed assertion of \<open>ReadString\<close>, the
  inner one the return value false, as in the functions that follow.
\<close>

definition read_string :: "nat \<Rightarrow> bit_reader \<Rightarrow> (u8 list \<times> bit_reader) option option" where
  "read_string n r = map_option (\<lambda>(v, r'). map_option (\<lambda>str. (str, r')) v) (BitReader_ReadString n r)"

definition HasRegistrationDescriptor :: "descriptors \<Rightarrow> (int \<times> u8 list) option option" where
  "HasRegistrationDescriptor ds =
     (case (do {
        data \<leftarrow> map_of ds 5;
        (format_identifier, r) \<leftarrow> read_bits 32 (BitReader_init data (length data));
        let extra_bits = BitReader_bits_available r;
        rcheck (extra_bits mod 8 = 0);
        rcheck (extra_bits > 0);
        Some (format_identifier, extra_bits, r) }) of
        None \<Rightarrow> Some None
      | Some (format_identifier, extra_bits, r) \<Rightarrow>
          map_option (map_option (\<lambda>(additional_info, r). (format_identifier, additional_info)))
            (read_string (nat extra_bits) r))"

definition HasCADescriptor :: "descriptors \<Rightarrow> (int \<times> int \<times> u8 list) option option" where
  "HasCADescriptor ds =
     (case (do {
        data \<leftarrow> map_of ds 9;
        (system_id, r) \<leftarrow> read_bits 16 (BitReader_init data (length data));
        r \<leftarrow> skip_bits 3 r;
        (pid, r) \<leftarrow> read_bits 13 r;
        let extra_bits = BitReader_bits_available r;
        rcheck (extra_bits mod 8 = 0);
        Some (system_id, pid, extra_bits, r) }) of
        None \<Rightarrow> Some None
      | Some (system_id, pid, extra_bits, r) \<Rightarrow>
          map_option (map_option (\<lambda>(private_data, r). (system_id, pid, private_data)))
            (read_string (nat extra_bits) r))"

text \<open>The scheme it sets is always AES-CBC without a pattern; the result is the two PIDs.\<close>

definition HasCADescriptorCenc :: "descriptors \<Rightarrow> (int \<times> int) option option" where
  "HasCADescriptorCenc ds =
     (case HasCADescriptor ds of
        None \<Rightarrow> None
      | Some None \<Rightarrow> Some None
      | Some (Some (system_id, ca_pid, private_data)) \<Rightarrow> Some (do {
          rcheck (system_id = 0x6365);
          (scheme_type, r) \<leftarrow> read_bits 32 (BitReader_init private_data (length private_data));
          rcheck (scheme_type = 0x63626373);
          (scheme_version, r) \<leftarrow> read_bits 32 r;
          (num_systems, r) \<leftarrow> read_bits 8 r;
          rcheck (num_systems = 1);
          (encryption_algorithm, r) \<leftarrow> read_bits 24 r;
          (pssh_system_id, r) \<leftarrow> read_bytes 16 r;
          (pssh_pid, r) \<leftarrow> read_bits 13 r;
          Some (ca_pid, pssh_pid) }))"

text \<open>A conditional access descriptor without private data reads a string of no bits.\<close>

lemma HasCADescriptor_without_private_data: "HasCADescriptor [(9, [0x63, 0x65, 0xe0, 0x10])] = None"
  by code_simp

definition HasPrivateDataIndicator :: "int \<Rightarrow> descriptors \<Rightarrow> bool" where
  "HasPrivateDataIndicator value ds =
     (case (do {
        data \<leftarrow> map_of ds 15;
        (private_data_indicator, r) \<leftarrow> read_bits 32 (BitReader_init data (length data));
        rcheck (BitReader_bits_available r = 0);
        Some private_data_indicator }) of
        None \<Rightarrow> False
      | Some private_data_indicator \<Rightarrow> private_data_indicator = value)"

section \<open>The program map table\<close>

text \<open>An event: the PID, the stream type and the descriptors of an elementary stream.\<close>

type_synonym pid_map = "(int \<times> int \<times> descriptors) list"

text \<open>The loop over the streams; every round reads at least five bytes.\<close>

fun pid_map_loop :: "nat \<Rightarrow> int \<Rightarrow> pid_map \<Rightarrow> bit_reader \<Rightarrow> (pid_map \<times> bit_reader) option" where
  "pid_map_loop 0 pid_map_end_marker m r = None"
| "pid_map_loop (Suc fuel) pid_map_end_marker m r =
     (if BitReader_bits_available r > 8 * pid_map_end_marker then do {
        (stream_type, r) \<leftarrow> read_bits 8 r;
        (reserved, r) \<leftarrow> read_bits 3 r;
        (pid_es, r) \<leftarrow> read_bits 13 r;
        (reserved, r) \<leftarrow> read_bits 4 r;
        (es_info_length, r) \<leftarrow> read_bits 12 r;
        (descriptors, r) \<leftarrow> Descriptors_Read r es_info_length;
        pid_map_loop fuel pid_map_end_marker (map_insert pid_es (stream_type, descriptors) m) r }
      else Some (m, r))"

definition read_pmt :: "bit_reader \<Rightarrow> pid_map option" where
  "read_pmt r = do {
     (table_id, r) \<leftarrow> read_bits 8 r;
     (section_syntax_indicator, r) \<leftarrow> read_bits 1 r;
     (dummy_zero, r) \<leftarrow> read_bits 1 r;
     (reserved, r) \<leftarrow> read_bits 2 r;
     (section_length, r) \<leftarrow> read_bits 12 r;
     let section_start_marker = BitReader_bits_available r div 8;
     (program_number, r) \<leftarrow> read_bits 16 r;
     (reserved, r) \<leftarrow> read_bits 2 r;
     (version_number, r) \<leftarrow> read_bits 5 r;
     (current_next_indicator, r) \<leftarrow> read_bits 1 r;
     (section_number, r) \<leftarrow> read_bits 8 r;
     (last_section_number, r) \<leftarrow> read_bits 8 r;
     rcheck (table_id = 0x2);
     rcheck (section_syntax_indicator \<noteq> 0);
     rcheck (\<not> dummy_zero \<noteq> 0);
     rcheck (section_length \<le> 1021);
     rcheck (section_number = 0);
     rcheck (last_section_number = 0);
     (reserved, r) \<leftarrow> read_bits 3 r;
     (pcr_pid, r) \<leftarrow> read_bits 13 r;
     (reserved, r) \<leftarrow> read_bits 4 r;
     (program_info_length, r) \<leftarrow> read_bits 12 r;
     rcheck (program_info_length < 1024);
     r \<leftarrow> skip_bits (8 * nat program_info_length) r;
     let pid_map_end_marker = section_start_marker - section_length + 4;
     (m, r) \<leftarrow> pid_map_loop (Suc (nat (BitReader_bits_available r))) pid_map_end_marker [] r;
     (crc32, r) \<leftarrow> read_bits 32 r;
     Some m }"

definition TsSectionPmt_ParsePsiSection :: "bit_reader \<Rightarrow> unit \<Rightarrow> (bool \<times> pid_map \<times> unit) option" where
  "TsSectionPmt_ParsePsiSection r st =
     Some (case read_pmt r of None \<Rightarrow> (False, [], ()) | Some m \<Rightarrow> (True, m, ()))"

definition TsSectionPmt :: "(unit, int \<times> int \<times> descriptors) psi_section" where
  "TsSectionPmt = \<lparr>ParsePsiSection = TsSectionPmt_ParsePsiSection, ResetPsiSection = (\<lambda>_. ())\<rparr>"

section \<open>TsSectionPes\<close>

definition kPesStartCode :: int where "kPesStartCode = 0x000001"

definition IsTimestampSectionValid :: "int \<Rightarrow> bool" where
  "IsTimestampSectionValid timestamp_section \<longleftrightarrow>
     timestamp_section AND 0x1 \<noteq> 0 \<and> timestamp_section AND 0x10000 \<noteq> 0 \<and> timestamp_section AND 0x100000000 \<noteq> 0"

definition ConvertTimestampSectionToTimestamp :: "int \<Rightarrow> int" where
  "ConvertTimestampSectionToTimestamp timestamp_section =
     push_bit 30 (drop_bit 33 timestamp_section AND 0x7) OR
     push_bit 15 (drop_bit 17 timestamp_section AND 0x7fff) OR
     push_bit 0 (drop_bit 1 timestamp_section AND 0x7fff)"

text \<open>The parser of the elementary stream: payload, presentation and decode timestamp.\<close>

record ('e, 'ev) es_parser =
  es_Parse :: "u8 list \<Rightarrow> int \<Rightarrow> int \<Rightarrow> 'e \<Rightarrow> bool \<times> 'ev list \<times> 'e"
  es_Flush :: "'e \<Rightarrow> 'ev list \<times> 'e"
  es_Reset :: "'e \<Rightarrow> 'e"

record 'e ts_section_pes =
  pes_byte_queue :: byte_queue
  pes_wait_for_pusi :: bool
  pes_es_parser :: 'e

definition TsSectionPes_init :: "(nat \<Rightarrow> u8) \<Rightarrow> 'e \<Rightarrow> 'e ts_section_pes" where
  "TsSectionPes_init fresh e =
     \<lparr>pes_byte_queue = ByteQueue_init fresh, pes_wait_for_pusi = True, pes_es_parser = e\<rparr>"

definition ResetPesState :: "'e ts_section_pes \<Rightarrow> 'e ts_section_pes" where
  "ResetPesState s = s\<lparr>pes_byte_queue := ByteQueue_Reset (pes_byte_queue s), pes_wait_for_pusi := True\<rparr>"

text \<open>The timestamps of the header, if any; both sections hold 40 bits.\<close>

definition read_timestamps :: "int \<Rightarrow> bit_reader \<Rightarrow> (int option \<times> int option \<times> bit_reader) option" where
  "read_timestamps pts_dts_flags r =
     (if pts_dts_flags = 0x2 then do {
        (pts_section, r) \<leftarrow> read_bits 40 r;
        rcheck ((drop_bit 36 pts_section AND 0xf) = 0x2 \<and> IsTimestampSectionValid pts_section);
        Some (Some pts_section, None, r) }
      else if pts_dts_flags = 0x3 then do {
        (pts_section, r) \<leftarrow> read_bits 40 r;
        (dts_section, r) \<leftarrow> read_bits 40 r;
        rcheck ((drop_bit 36 pts_section AND 0xf) = 0x3 \<and> IsTimestampSectionValid pts_section);
        rcheck ((drop_bit 36 dts_section AND 0xf) = 0x1 \<and> IsTimestampSectionValid dts_section);
        Some (Some pts_section, Some dts_section, r) }
      else Some (None, None, r))"

text \<open>A timestamp in microseconds; \<open>None\<close> is a failing assertion of the unroller.\<close>

definition unroll_section :: "int option \<Rightarrow> timestamp_unroller \<Rightarrow> (int \<times> timestamp_unroller) option" where
  "unroll_section sec u =
     (case sec of
        None \<Rightarrow> Some (kNoTimestamp, u)
      | Some x \<Rightarrow> map_option (\<lambda>(t, u). ((1000 * t) sdiv 90, u))
          (GetUnrolledTimestamp (ConvertTimestampSectionToTimestamp x) u))"

text \<open>
  Up to the stream ID: the packet length and the ID, if the packet is not dropped; then up to
  the timestamps: the size and the offset of the payload, the header's remaining size and the
  sections.
\<close>

definition read_pes_start :: "u8 list \<Rightarrow> (int \<times> int \<times> bit_reader) option" where
  "read_pes_start raw_pes = do {
     let r = BitReader_init raw_pes (length raw_pes);
     (packet_start_code_prefix, r) \<leftarrow> read_bits 24 r;
     (stream_id, r) \<leftarrow> read_bits 8 r;
     (pes_packet_length, r) \<leftarrow> read_bits 16 r;
     rcheck (packet_start_code_prefix = kPesStartCode);
     let pes_packet_length = (if pes_packet_length = 0 then BitReader_bits_available r div 8 else pes_packet_length);
     Some (stream_id, pes_packet_length, r) }"

definition is_known_stream_id :: "int \<Rightarrow> bool" where
  "is_known_stream_id stream_id \<longleftrightarrow>
     stream_id AND 0xe0 = 0xc0 \<or> stream_id AND 0xf0 = 0xe0 \<or> stream_id = 0xbd"

definition read_pes_header ::
  "int \<Rightarrow> int \<Rightarrow> bit_reader \<Rightarrow> (int \<times> int \<times> int \<times> int \<times> int option \<times> int option \<times> bit_reader) option" where
  "read_pes_header raw_pes_size pes_packet_length r = do {
     (dummy_2, r) \<leftarrow> read_bits 2 r;
     rcheck (dummy_2 = 0x2);
     (PES_scrambling_control, r) \<leftarrow> read_bits 2 r;
     (PES_priority, r) \<leftarrow> read_bits 1 r;
     (data_alignment_indicator, r) \<leftarrow> read_bits 1 r;
     (copyright, r) \<leftarrow> read_bits 1 r;
     (original_or_copy, r) \<leftarrow> read_bits 1 r;
     (pts_dts_flags, r) \<leftarrow> read_bits 2 r;
     (escr_flag, r) \<leftarrow> read_bits 1 r;
     (es_rate_flag, r) \<leftarrow> read_bits 1 r;
     (dsm_trick_mode_flag, r) \<leftarrow> read_bits 1 r;
     (additional_copy_info_flag, r) \<leftarrow> read_bits 1 r;
     (pes_crc_flag, r) \<leftarrow> read_bits 1 r;
     (pes_extension_flag, r) \<leftarrow> read_bits 1 r;
     (pes_header_data_length, r) \<leftarrow> read_bits 8 r;
     let pes_header_start_size = BitReader_bits_available r div 8;
     let es_size = pes_packet_length - 3 - pes_header_data_length;
     let es_offset = 6 + 3 + pes_header_data_length;
     rcheck (es_size \<ge> 0);
     rcheck (es_offset + es_size \<le> raw_pes_size);
     (pts_section, dts_section, r) \<leftarrow> read_timestamps pts_dts_flags r;
     Some (es_size, es_offset, pes_header_data_length, pes_header_start_size, pts_section, dts_section, r) }"

definition ParseInternal ::
  "('e, 'ev) es_parser \<Rightarrow> u8 list \<Rightarrow> timestamp_unroller \<Rightarrow> 'e \<Rightarrow>
   (bool \<times> 'ev list \<times> timestamp_unroller \<times> 'e) option" where
  "ParseInternal P raw_pes u e =
     (case read_pes_start raw_pes of
        None \<Rightarrow> Some (False, [], u, e)
      | Some (stream_id, pes_packet_length, r) \<Rightarrow>
          if \<not> is_known_stream_id stream_id then Some (True, [], u, e)
          else
            (case read_pes_header (int (length raw_pes)) pes_packet_length r of
               None \<Rightarrow> Some (False, [], u, e)
             | Some (es_size, es_offset, pes_header_data_length, pes_header_start_size, pts, dts, r) \<Rightarrow>
                 (case unroll_section pts u of
                    None \<Rightarrow> None
                  | Some (media_pts, u) \<Rightarrow>
                      (case unroll_section dts u of
                         None \<Rightarrow> None
                       | Some (media_dts, u) \<Rightarrow>
                           if BitReader_bits_available r mod 8 \<noteq> 0 then None
                           else
                             let remaining = pes_header_data_length -
                               (pes_header_start_size - BitReader_bits_available r div 8)
                             in if \<not> remaining \<ge> 0 then Some (False, [], u, e)
                                else
                                  let (ok, events, e) = es_Parse P
                                        (mem_slice (nat es_offset) (nat es_size) raw_pes) media_pts media_dts e
                                  in Some (ok, events, u, e)))))"

definition TsSectionPes_Emit ::
  "('e, 'ev) es_parser \<Rightarrow> bool \<Rightarrow> timestamp_unroller \<Rightarrow> 'e ts_section_pes \<Rightarrow>
   (bool \<times> 'ev list \<times> timestamp_unroller \<times> 'e ts_section_pes) option" where
  "TsSectionPes_Emit P emit_for_unknown_size u s =
     (let (raw_pes, raw_pes_size) = ByteQueue_Peek (pes_byte_queue s) in
      if raw_pes_size < 6 then Some (True, [], u, s)
      else
        let pes_packet_length = push_bit 8 (uint (raw_pes ! 4)) OR uint (raw_pes ! 5) in
        if (pes_packet_length = 0 \<and> \<not> emit_for_unknown_size) \<or>
           (pes_packet_length \<noteq> 0 \<and> int raw_pes_size < pes_packet_length + 6)
        then Some (True, [], u, s)
        else
          (case ParseInternal P (take raw_pes_size raw_pes) u (pes_es_parser s) of
             None \<Rightarrow> None
           | Some (parse_result, events, u, e) \<Rightarrow>
               Some (parse_result, events, u, ResetPesState (s\<lparr>pes_es_parser := e\<rparr>))))"

text \<open>The part of \<open>Parse\<close> for the start of a payload unit.\<close>

definition pes_unit_start ::
  "('e, 'ev) es_parser \<Rightarrow> timestamp_unroller \<Rightarrow> 'e ts_section_pes \<Rightarrow>
   (bool \<times> 'ev list \<times> timestamp_unroller \<times> 'e ts_section_pes) option" where
  "pes_unit_start P u s =
     map_option (\<lambda>(parse_result, events, u, s).
         (parse_result, events, u, (ResetPesState s)\<lparr>pes_wait_for_pusi := False\<rparr>))
       (if snd (ByteQueue_Peek (pes_byte_queue s)) > 0 then TsSectionPes_Emit P True u s
        else Some (True, [], u, s))"

definition TsSectionPes_Parse ::
  "(nat \<Rightarrow> u8) \<Rightarrow> ('e, 'ev) es_parser \<Rightarrow> bool \<Rightarrow> u8 list \<Rightarrow> timestamp_unroller \<Rightarrow> 'e ts_section_pes \<Rightarrow>
   (bool \<times> 'ev list \<times> timestamp_unroller \<times> 'e ts_section_pes) option" where
  "TsSectionPes_Parse fresh P payload_unit_start_indicator dat u s =
     (if pes_wait_for_pusi s \<and> \<not> payload_unit_start_indicator then Some (True, [], u, s)
      else do {
        (parse_result, events, u, s) \<leftarrow>
          (if payload_unit_start_indicator then pes_unit_start P u s else Some (True, [], u, s));
        s \<leftarrow> (if length dat > 0
              then map_option (\<lambda>q. s\<lparr>pes_byte_queue := q\<rparr>) (ByteQueue_Push fresh dat (pes_byte_queue s))
              else Some s);
        if parse_result then
          map_option (\<lambda>(ok, events', u, s). (ok, events @ events', u, s)) (TsSectionPes_Emit P False u s)
        else Some (False, events, u, s) })"

definition TsSectionPes_Flush ::
  "('e, 'ev) es_parser \<Rightarrow> timestamp_unroller \<Rightarrow> 'e ts_section_pes \<Rightarrow>
   ('ev list \<times> timestamp_unroller \<times> 'e ts_section_pes) option" where
  "TsSectionPes_Flush P u s = do {
     (ok, events, u, s) \<leftarrow> TsSectionPes_Emit P True u s;
     let (events', e) = es_Flush P (pes_es_parser s);
     Some (events @ events', u, s\<lparr>pes_es_parser := e\<rparr>) }"

definition TsSectionPes_Reset :: "('e, 'ev) es_parser \<Rightarrow> 'e ts_section_pes \<Rightarrow> 'e ts_section_pes" where
  "TsSectionPes_Reset P s = (ResetPesState s)\<lparr>pes_es_parser := es_Reset P (pes_es_parser s)\<rparr>"

section \<open>The CRC\<close>

lemma msb_test: "(w :: u32) AND 0x80000000 \<noteq> 0 \<longleftrightarrow> bit w 31"
  using and_exp_eq_0_iff_not_bit [of w 31] by simp

lemma crc_bits_match:
  "n \<le> 32 \<Longrightarrow> \<forall>i<n. bit d (31 - i) = bit c (31 - i) \<Longrightarrow> crc_bits n d c = push_bit n c"
proof (induction n arbitrary: d c)
  case (Suc n)
  have "bit d 31 = bit c 31" using Suc.prems(2) by (metis diff_zero zero_less_Suc)
  then have step: "crc_bits (Suc n) d c = crc_bits n (push_bit 1 d) (push_bit 1 c)"
    by (simp add: msb_test bit_xor_iff)
  have "bit (push_bit 1 d) (31 - i) = bit (push_bit 1 c) (31 - i)" if "i < n" for i
  proof -
    have "bit d (31 - Suc i) = bit c (31 - Suc i)" using Suc.prems(2) that by blast
    moreover have "1 \<le> 31 - i" "31 - i - 1 = 31 - Suc i" using that Suc.prems(1) by arith+
    ultimately show ?thesis unfolding bit_push_bit_iff by simp
  qed
  then have "crc_bits n (push_bit 1 d) (push_bit 1 c) = push_bit n (push_bit 1 c)"
    using Suc.IH [of "push_bit 1 d" "push_bit 1 c"] Suc.prems(1) by simp
  then show ?case using step by simp
qed simp

definition crc_bytes :: "u32 \<Rightarrow> u8 list" where
  "crc_bytes c = [ucast (drop_bit 24 c), ucast (drop_bit 16 c), ucast (drop_bit 8 c), ucast c]"

lemma crc_byte_match:
  assumes "\<forall>i<8. bit b (7 - i) = bit c (31 - i)"
  shows "crc_byte b c = push_bit 8 c"
proof -
  have "bit (push_bit 24 (ucast b) :: u32) (31 - i) = bit c (31 - i)" if "i < 8" for i
  proof -
    have "31 - i - 24 = 7 - i" "24 \<le> 31 - i" "31 - i < 32" "7 - i < 32" using that by arith+
    then show ?thesis using assms that by (simp add: bit_push_bit_iff bit_ucast_iff)
  qed
  then show ?thesis by (simp add: crc_byte_def crc_bits_match)
qed

lemma fold_crc_bytes: "fold crc_byte (crc_bytes c) c = 0"
proof -
  have "crc_byte (ucast (drop_bit (24 - 8 * k) c)) (push_bit (8 * k) c) = push_bit (8 * Suc k) c" if "k < 4" for k
  proof -
    have "crc_byte (ucast (drop_bit (24 - 8 * k) c)) (push_bit (8 * k) c) = push_bit 8 (push_bit (8 * k) c)"
    proof (rule crc_byte_match, intro allI impI)
      fix i :: nat assume "i < 8"
      moreover have "24 - 8 * k + (7 - i) = 31 - i - 8 * k" "8 * k \<le> 31 - i" "7 - i < 8" "31 - i < 32"
        using that \<open>i < 8\<close> by arith+
      ultimately show "bit (ucast (drop_bit (24 - 8 * k) c) :: u8) (7 - i) = bit (push_bit (8 * k) c) (31 - i)"
        by (simp add: bit_push_bit_iff bit_ucast_iff bit_drop_bit_eq)
    qed
    then show ?thesis by (simp add: add.commute)
  qed
  from this [of 0] this [of 1] this [of 2] this [of 3] have
    "crc_byte (ucast (drop_bit 24 c)) c = push_bit 8 c"
    "crc_byte (ucast (drop_bit 16 c)) (push_bit 8 c) = push_bit 16 c"
    "crc_byte (ucast (drop_bit 8 c)) (push_bit 16 c) = push_bit 24 c"
    "crc_byte (ucast c) (push_bit 24 c) = push_bit 32 c" by simp_all
  moreover have "push_bit 32 c = 0" by (rule bit_word_eqI) (simp add: bit_push_bit_iff)
  ultimately show ?thesis by (simp add: crc_bytes_def)
qed

section \<open>The bytes of a section\<close>

lemma peek_contents:
  assumes "ByteQueue_ok q" "ByteQueue_Peek q = (raw, n)"
  shows "n = used q" "take n raw = ByteQueue_contents q" "n = length (ByteQueue_contents q)"
    "i < n \<Longrightarrow> raw ! i = ByteQueue_contents q ! i"
proof -
  show n: "n = used q" and t: "take n raw = ByteQueue_contents q"
    using assms(2) by (auto simp: ByteQueue_Peek_def ByteQueue_contents_def mem_slice_def)
  show "n = length (ByteQueue_contents q)" using length_ByteQueue_contents [OF assms(1)] n by simp
  show "i < n \<Longrightarrow> raw ! i = ByteQueue_contents q ! i" using t by (metis nth_take)
qed

lemma two_bytes: "push_bit 8 (uint (a :: u8)) OR uint (b :: u8) = uint a * 256 + uint b"
  by (rule push_bit_OR_uint)

section \<open>Reassembling a PES packet\<close>

text \<open>The continuation packets of a PES packet, passed to \<open>Parse\<close> one by one.\<close>

fun pes_continue ::
  "(nat \<Rightarrow> u8) \<Rightarrow> ('e, 'ev) es_parser \<Rightarrow> u8 list list \<Rightarrow> timestamp_unroller \<Rightarrow> 'e ts_section_pes \<Rightarrow>
   (bool \<times> 'ev list \<times> timestamp_unroller \<times> 'e ts_section_pes) option" where
  "pes_continue fresh P [] u s = Some (True, [], u, s)"
| "pes_continue fresh P (c # cs) u s = do {
     (ok, events, u, s) \<leftarrow> TsSectionPes_Parse fresh P False c u s;
     (ok', events', u, s) \<leftarrow> pes_continue fresh P cs u s;
     Some (ok \<and> ok', events @ events', u, s) }"

text \<open>A PES packet with its length in the header.\<close>

definition sized_pes :: "u8 list \<Rightarrow> bool" where
  "sized_pes raw \<longleftrightarrow> 6 < length raw \<and> uint (raw ! 4) * 256 + uint (raw ! 5) = int (length raw) - 6"

lemma sized_pes_short: "sized_pes raw \<Longrightarrow> length raw < 2 ^ 17"
  using uint_u8 [of "raw ! 4"] uint_u8 [of "raw ! 5"] by (simp add: sized_pes_def)

lemma Emit_incomplete:
  assumes "ByteQueue_ok (pes_byte_queue s)" "ByteQueue_contents (pes_byte_queue s) @ rest = raw" "rest \<noteq> []"
    "sized_pes raw"
  shows "TsSectionPes_Emit P False u s = Some (True, [], u, s)"
proof -
  obtain r n where p: "ByteQueue_Peek (pes_byte_queue s) = (r, n)" by force
  note pc = peek_contents [OF assms(1) p]
  have n: "n < length raw" using assms(2,3) pc(3) by (metis length_append less_add_same_cancel1 length_greater_0_conv)
  show ?thesis
  proof (cases "n < 6")
    case False
    have r: "r ! i = raw ! i" if "i < n" for i using pc(3,4) that assms(2) by (metis nth_append)
    have "uint (r ! 4) * 256 + uint (r ! 5) = int (length raw) - 6"
      using r [of 4] r [of 5] False assms(4) by (simp add: sized_pes_def)
    then show ?thesis using p n False by (simp add: TsSectionPes_Emit_def two_bytes)
  qed (simp add: TsSectionPes_Emit_def p)
qed

lemma Emit_complete:
  assumes "ByteQueue_ok (pes_byte_queue s)" "ByteQueue_contents (pes_byte_queue s) = raw" "sized_pes raw"
  shows "TsSectionPes_Emit P False u s =
    map_option (\<lambda>(ok, events, u, e). (ok, events, u, ResetPesState (s\<lparr>pes_es_parser := e\<rparr>)))
      (ParseInternal P raw u (pes_es_parser s))"
proof -
  obtain r n where p: "ByteQueue_Peek (pes_byte_queue s) = (r, n)" by force
  note pc = peek_contents [OF assms(1) p]
  have n: "n = length raw" "6 < n" "take n r = raw" using pc(2,3) assms(2,3) by (simp_all add: sized_pes_def)
  have "uint (r ! 4) * 256 + uint (r ! 5) = int n - 6"
    using pc(4) [of 4] pc(4) [of 5] n assms(2,3) by (simp add: sized_pes_def)
  then show ?thesis using p n by (simp add: TsSectionPes_Emit_def two_bytes split: option.split)
qed

text \<open>A packet that does not give its length.\<close>

definition unsized_pes :: "u8 list \<Rightarrow> bool" where
  "unsized_pes raw \<longleftrightarrow> 6 < length raw \<and> raw ! 4 = 0 \<and> raw ! 5 = 0 \<and> length raw < 2 ^ 31"

lemma Emit_unsized:
  assumes "ByteQueue_ok (pes_byte_queue s)" "ByteQueue_contents (pes_byte_queue s) @ rest = raw" "unsized_pes raw"
  shows "TsSectionPes_Emit P False u s = Some (True, [], u, s)"
proof -
  obtain r n where p: "ByteQueue_Peek (pes_byte_queue s) = (r, n)" by force
  note pc = peek_contents [OF assms(1) p]
  show ?thesis
  proof (cases "n < 6")
    case False
    have r: "r ! i = raw ! i" if "i < n" for i using pc(3,4) that assms(2) by (metis nth_append)
    have "r ! 4 = 0" "r ! 5 = 0" using r [of 4] r [of 5] False assms(3) by (simp_all add: unsized_pes_def)
    then show ?thesis using p False by (simp add: TsSectionPes_Emit_def)
  qed (simp add: TsSectionPes_Emit_def p)
qed

lemma Emit_unsized_end:
  assumes "ByteQueue_ok (pes_byte_queue s)" "ByteQueue_contents (pes_byte_queue s) = raw" "unsized_pes raw"
  shows "TsSectionPes_Emit P True u s =
    map_option (\<lambda>(ok, events, u, e). (ok, events, u, ResetPesState (s\<lparr>pes_es_parser := e\<rparr>)))
      (ParseInternal P raw u (pes_es_parser s))"
proof -
  obtain r n where p: "ByteQueue_Peek (pes_byte_queue s) = (r, n)" by force
  note pc = peek_contents [OF assms(1) p]
  have n: "n = length raw" "6 < n" "take n r = raw" using pc(2,3) assms(2,3) by (simp_all add: unsized_pes_def)
  have "r ! 4 = 0" "r ! 5 = 0" using pc(4) [of 4] pc(4) [of 5] n assms(2,3) by (simp_all add: unsized_pes_def)
  then show ?thesis using p n by (simp add: TsSectionPes_Emit_def split: option.split)
qed

lemma Push_chunk:
  assumes "ByteQueue_ok q" "c \<noteq> []" "ByteQueue_contents q @ c @ rest = raw" "sized_pes raw \<or> unsized_pes raw"
  shows "\<exists>q'. ByteQueue_Push fresh c q = Some q' \<and> ByteQueue_ok q' \<and> ByteQueue_contents q' = ByteQueue_contents q @ c"
proof -
  have "used q + length c \<le> length raw"
    using length_ByteQueue_contents [OF assms(1)] assms(3) by (metis add_le_mono1 append.assoc le_add1 length_append)
  moreover have "length raw < 2 ^ 31" using assms(4) sized_pes_short [of raw] by (auto simp: unsized_pes_def)
  ultimately have "used q + length c < 2 ^ 31" by simp
  from ByteQueue_Push_correct [OF assms(1,2) this] show ?thesis by blast
qed

lemma pes_continue_unsized:
  assumes "ByteQueue_ok (pes_byte_queue s)" "\<not> pes_wait_for_pusi s" "\<forall>c\<in>set cs. c \<noteq> []"
    "ByteQueue_contents (pes_byte_queue s) @ concat cs = raw" "unsized_pes raw"
  shows "\<exists>q. pes_continue fresh P cs u s = Some (True, [], u, s\<lparr>pes_byte_queue := q\<rparr>) \<and> ByteQueue_ok q \<and> ByteQueue_contents q = raw"
  using assms
proof (induction cs arbitrary: s)
  case Nil
  then show ?case by (intro exI [of _ "pes_byte_queue s"]) simp
next
  case (Cons c cs)
  obtain q where q: "ByteQueue_Push fresh c (pes_byte_queue s) = Some q" "ByteQueue_ok q"
    "ByteQueue_contents q = ByteQueue_contents (pes_byte_queue s) @ c"
    using Push_chunk [of "pes_byte_queue s" c "concat cs" raw fresh] Cons.prems by auto
  let ?s = "s\<lparr>pes_byte_queue := q\<rparr>"
  have "TsSectionPes_Emit P False u ?s = Some (True, [], u, ?s)"
    by (intro Emit_unsized [where rest = "concat cs" and raw = raw]) (use q Cons.prems in simp_all)
  then have "TsSectionPes_Parse fresh P False c u s = Some (True, [], u, ?s)"
    using Cons.prems(2,3) q(1) by (simp add: TsSectionPes_Parse_def)
  moreover obtain q' where "pes_continue fresh P cs u ?s = Some (True, [], u, ?s\<lparr>pes_byte_queue := q'\<rparr>)"
    "ByteQueue_ok q'" "ByteQueue_contents q' = raw"
    using Cons.IH [of ?s] Cons.prems q by auto
  ultimately show ?case by auto
qed

lemma pes_continue_collects:
  assumes "ByteQueue_ok (pes_byte_queue s)" "\<not> pes_wait_for_pusi s" "\<forall>c\<in>set cs. c \<noteq> []" "cs \<noteq> []"
    "ByteQueue_contents (pes_byte_queue s) @ concat cs = raw" "sized_pes raw"
  shows "\<exists>q. pes_continue fresh P cs u s =
    map_option (\<lambda>(ok, events, u, e). (ok, events, u, ResetPesState (s\<lparr>pes_byte_queue := q, pes_es_parser := e\<rparr>)))
      (ParseInternal P raw u (pes_es_parser s)) \<and> ByteQueue_ok q"
  using assms
proof (induction cs arbitrary: s)
  case (Cons c cs)
  obtain q where q: "ByteQueue_Push fresh c (pes_byte_queue s) = Some q" "ByteQueue_ok q"
    "ByteQueue_contents q = ByteQueue_contents (pes_byte_queue s) @ c"
    using Push_chunk [of "pes_byte_queue s" c "concat cs" raw fresh] Cons.prems by auto
  let ?s = "s\<lparr>pes_byte_queue := q\<rparr>"
  have parse: "TsSectionPes_Parse fresh P False c u s =
      map_option (\<lambda>(ok, events', u, s). (ok, [] @ events', u, s)) (TsSectionPes_Emit P False u ?s)"
    using Cons.prems(2,3) q(1) by (simp add: TsSectionPes_Parse_def)
  show ?case
  proof (cases "cs = []")
    case True
    have "ByteQueue_contents q = raw" using Cons.prems(5) q(3) True by simp
    then have "TsSectionPes_Emit P False u ?s =
        map_option (\<lambda>(ok, events, u, e). (ok, events, u, ResetPesState (?s\<lparr>pes_es_parser := e\<rparr>)))
          (ParseInternal P raw u (pes_es_parser ?s))"
      by (intro Emit_complete) (use q Cons.prems(6) in simp_all)
    then show ?thesis using parse True q(2)
      by (intro exI [of _ q]) (cases "ParseInternal P raw u (pes_es_parser s)"; auto)
  next
    case False
    have "concat cs \<noteq> []" using False Cons.prems(3) by (cases cs) auto
    then have "TsSectionPes_Emit P False u ?s = Some (True, [], u, ?s)"
      by (intro Emit_incomplete [where rest = "concat cs" and raw = raw])
         (use q Cons.prems in simp_all)
    moreover obtain q' where "pes_continue fresh P cs u ?s =
        map_option (\<lambda>(ok, events, u, e). (ok, events, u, ResetPesState (?s\<lparr>pes_byte_queue := q', pes_es_parser := e\<rparr>)))
          (ParseInternal P raw u (pes_es_parser ?s))" "ByteQueue_ok q'"
      using Cons.IH [of ?s] Cons.prems q False by auto
    ultimately show ?thesis using parse
      by (intro exI [of _ q']) (cases "ParseInternal P raw u (pes_es_parser s)"; auto)
  qed
qed simp

text \<open>A whole PES packet, its first part with the start indicator, arriving at an idle section.\<close>

definition pes_feed ::
  "(nat \<Rightarrow> u8) \<Rightarrow> ('e, 'ev) es_parser \<Rightarrow> u8 list list \<Rightarrow> timestamp_unroller \<Rightarrow> 'e ts_section_pes \<Rightarrow>
   (bool \<times> 'ev list \<times> timestamp_unroller \<times> 'e ts_section_pes) option" where
  "pes_feed fresh P cs u s = do {
     (ok, events, u, s) \<leftarrow> TsSectionPes_Parse fresh P True (hd cs) u s;
     (ok', events', u, s) \<leftarrow> pes_continue fresh P (tl cs) u s;
     Some (ok \<and> ok', events @ events', u, s) }"

definition pes_idle :: "'e ts_section_pes \<Rightarrow> bool" where
  "pes_idle s \<longleftrightarrow> ByteQueue_ok (pes_byte_queue s) \<and> ByteQueue_contents (pes_byte_queue s) = [] \<and> pes_wait_for_pusi s"

lemma ResetPesState_idle: "ByteQueue_ok (pes_byte_queue s) \<Longrightarrow> pes_idle (ResetPesState s)"
  by (simp add: pes_idle_def ResetPesState_def ByteQueue_Reset_ok)

lemma pes_feed_unsized:
  assumes "pes_idle s" "cs \<noteq> []" "\<forall>c\<in>set cs. c \<noteq> []" "concat cs = raw" "unsized_pes raw"
  shows "\<exists>q. pes_feed fresh P cs u s = Some (True, [], u, s\<lparr>pes_wait_for_pusi := False, pes_byte_queue := q\<rparr>) \<and>
    ByteQueue_ok q \<and> ByteQueue_contents q = raw"
proof -
  obtain c ds where cs: "cs = c # ds" using assms(2) by (cases cs) auto
  have ok: "ByteQueue_ok (pes_byte_queue s)" "ByteQueue_contents (pes_byte_queue s) = []"
    using assms(1) by (simp_all add: pes_idle_def)
  have "snd (ByteQueue_Peek (pes_byte_queue s)) = 0"
    using peek_contents(3) [OF ok(1)] ok(2) by (metis list.size(3) prod.collapse)
  then have start: "pes_unit_start P u s = Some (True, [], u, (ResetPesState s)\<lparr>pes_wait_for_pusi := False\<rparr>)"
    by (simp add: pes_unit_start_def)
  let ?q0 = "ByteQueue_Reset (pes_byte_queue s)"
  have q0: "ByteQueue_ok ?q0" "ByteQueue_contents ?q0 = []" using ByteQueue_Reset_ok [OF ok(1)] by simp_all
  obtain q where q: "ByteQueue_Push fresh c ?q0 = Some q" "ByteQueue_ok q" "ByteQueue_contents q = c"
    using Push_chunk [OF q0(1), of c "concat ds" raw fresh] assms(3-5) q0(2) by (auto simp: cs)
  let ?s = "s\<lparr>pes_wait_for_pusi := False, pes_byte_queue := q\<rparr>"
  have "TsSectionPes_Emit P False u ?s = Some (True, [], u, ?s)"
    by (intro Emit_unsized [where rest = "concat ds" and raw = raw]) (use q assms(4,5) in \<open>simp_all add: cs\<close>)
  then have parse: "TsSectionPes_Parse fresh P True c u s = Some (True, [], u, ?s)"
    using assms(3) q(1) start by (simp add: TsSectionPes_Parse_def cs ResetPesState_def)
  obtain q' where "pes_continue fresh P ds u ?s = Some (True, [], u, ?s\<lparr>pes_byte_queue := q'\<rparr>)" "ByteQueue_ok q'" "ByteQueue_contents q' = raw"
    using pes_continue_unsized [of ?s ds raw fresh P u] q assms(3-5) by (auto simp: cs)
  then show ?thesis using parse by (auto simp: pes_feed_def cs)
qed

lemma pes_feed_collects:
  assumes "pes_idle s" "cs \<noteq> []" "\<forall>c\<in>set cs. c \<noteq> []" "concat cs = raw" "sized_pes raw"
  shows "\<exists>q. pes_feed fresh P cs u s =
    map_option (\<lambda>(ok, events, u, e). (ok, events, u, ResetPesState (s\<lparr>pes_byte_queue := q, pes_es_parser := e\<rparr>)))
      (ParseInternal P raw u (pes_es_parser s)) \<and> ByteQueue_ok q"
proof -
  obtain c ds where cs: "cs = c # ds" using assms(2) by (cases cs) auto
  have ok: "ByteQueue_ok (pes_byte_queue s)" "ByteQueue_contents (pes_byte_queue s) = []"
    using assms(1) by (simp_all add: pes_idle_def)
  have "snd (ByteQueue_Peek (pes_byte_queue s)) = 0"
    using peek_contents(3) [OF ok(1)] ok(2) by (metis list.size(3) prod.collapse)
  then have start: "pes_unit_start P u s = Some (True, [], u, (ResetPesState s)\<lparr>pes_wait_for_pusi := False\<rparr>)"
    by (simp add: pes_unit_start_def)
  let ?q0 = "ByteQueue_Reset (pes_byte_queue s)"
  have q0: "ByteQueue_ok ?q0" "ByteQueue_contents ?q0 = []" using ByteQueue_Reset_ok [OF ok(1)] by simp_all
  obtain q where q: "ByteQueue_Push fresh c ?q0 = Some q" "ByteQueue_ok q" "ByteQueue_contents q = c"
    using Push_chunk [OF q0(1), of c "concat ds" raw fresh] assms(3-5) q0(2) by (auto simp: cs)
  let ?s = "s\<lparr>pes_wait_for_pusi := False, pes_byte_queue := q\<rparr>"
  have parse: "TsSectionPes_Parse fresh P True c u s =
      map_option (\<lambda>(ok, events', u, s). (ok, [] @ events', u, s)) (TsSectionPes_Emit P False u ?s)"
    using assms(3) q(1) start by (simp add: TsSectionPes_Parse_def cs ResetPesState_def)
  have wait: "ResetPesState (s\<lparr>pes_wait_for_pusi := b, pes_byte_queue := q, pes_es_parser := e\<rparr>) =
      ResetPesState (s\<lparr>pes_byte_queue := q, pes_es_parser := e\<rparr>)" for q b e
    by (cases s) (simp add: ResetPesState_def)
  show ?thesis
  proof (cases "ds = []")
    case True
    have "TsSectionPes_Emit P False u ?s =
        map_option (\<lambda>(ok, events, u, e). (ok, events, u, ResetPesState (?s\<lparr>pes_es_parser := e\<rparr>)))
          (ParseInternal P raw u (pes_es_parser ?s))"
      by (intro Emit_complete) (use q assms(4,5) True in \<open>simp_all add: cs\<close>)
    then show ?thesis using parse True q(2) wait
      by (intro exI [of _ q]) (cases "ParseInternal P raw u (pes_es_parser s)"; auto simp: pes_feed_def cs)
  next
    case False
    have "concat ds \<noteq> []" using False assms(3) by (cases ds) (auto simp: cs)
    then have emit: "TsSectionPes_Emit P False u ?s = Some (True, [], u, ?s)"
      by (intro Emit_incomplete [where rest = "concat ds" and raw = raw])
         (use q assms(4,5) in \<open>simp_all add: cs\<close>)
    have ds: "\<forall>d\<in>set ds. d \<noteq> []" "ByteQueue_contents (pes_byte_queue ?s) @ concat ds = raw"
      using assms(3,4) q(3) by (simp_all add: cs)
    obtain q' where "pes_continue fresh P ds u ?s =
        map_option (\<lambda>(ok, events, u, e). (ok, events, u, ResetPesState (?s\<lparr>pes_byte_queue := q', pes_es_parser := e\<rparr>)))
          (ParseInternal P raw u (pes_es_parser ?s))" "ByteQueue_ok q'"
      using pes_continue_collects [of ?s ds raw fresh P u, OF _ _ ds(1) False ds(2) assms(5)] q(2) by auto
    then show ?thesis using parse emit wait
      by (intro exI [of _ q']) (cases "ParseInternal P raw u (pes_es_parser s)"; auto simp: pes_feed_def cs)
  qed
qed

section \<open>A PES packet and its timestamp\<close>

text \<open>The 40 bits of a timestamp: a prefix and three groups of bits, each closed by a marker bit.\<close>

definition timestamp_section :: "int \<Rightarrow> int \<Rightarrow> int" where
  "timestamp_section prefix t =
     prefix * 2 ^ 36 + (t div 2 ^ 30) * 2 ^ 33 + 2 ^ 32 +
     (t div 2 ^ 15 mod 2 ^ 15) * 2 ^ 17 + 2 ^ 16 + (t mod 2 ^ 15) * 2 + 1"

text \<open>
  A PES packet: the presentation and decode timestamps, none, one or both; the low six bits of the
  two bytes of flags, which the parser does not interpret; the bytes of the header after the
  timestamps; and whether the packet gives its length.
\<close>

datatype pes_times = No_Times | Pts int | Pts_Dts int int

record pes_form =
  pf_stream_id :: u8
  pf_control :: int
  pf_flags :: int
  pf_times :: pes_times
  pf_extra :: "u8 list"
  pf_payload :: "u8 list"
  pf_sized :: bool

fun times_code :: "pes_times \<Rightarrow> int" where
  "times_code No_Times = 0" | "times_code (Pts t) = 2" | "times_code (Pts_Dts t d) = 3"

fun times_bytes :: "pes_times \<Rightarrow> u8 list" where
  "times_bytes No_Times = []"
| "times_bytes (Pts t) = be_bytes 5 (timestamp_section 2 t)"
| "times_bytes (Pts_Dts t d) = be_bytes 5 (timestamp_section 3 t) @ be_bytes 5 (timestamp_section 1 d)"

definition in_33_bits :: "int \<Rightarrow> bool" where
  "in_33_bits t \<longleftrightarrow> 0 \<le> t \<and> t < 2 ^ 33"

fun times_ok :: "pes_times \<Rightarrow> bool" where
  "times_ok No_Times = True" | "times_ok (Pts t) = in_33_bits t" | "times_ok (Pts_Dts t d) = (in_33_bits t \<and> in_33_bits d)"

definition pes_header_length :: "pes_form \<Rightarrow> nat" where
  "pes_header_length f = length (times_bytes (pf_times f)) + length (pf_extra f)"

definition pes_packet :: "pes_form \<Rightarrow> u8 list" where
  "pes_packet f =
     [0, 0, 1, pf_stream_id f] @
     be_bytes 2 (if pf_sized f then 3 + int (pes_header_length f) + int (length (pf_payload f)) else 0) @
     [word_of_int (0x80 + pf_control f), word_of_int (times_code (pf_times f) * 64 + pf_flags f),
      word_of_int (int (pes_header_length f))] @
     times_bytes (pf_times f) @ pf_extra f @ pf_payload f"

definition pes_form_ok :: "pes_form \<Rightarrow> bool" where
  "pes_form_ok f \<longleftrightarrow> is_known_stream_id (uint (pf_stream_id f)) \<and> 0 \<le> pf_control f \<and> pf_control f < 64 \<and>
     0 \<le> pf_flags f \<and> pf_flags f < 64 \<and> times_ok (pf_times f) \<and> pes_header_length f < 256 \<and>
     (if pf_sized f then 3 + pes_header_length f + length (pf_payload f) < 65536
      else length (pf_payload f) < 2 ^ 30)"

text \<open>What the parser of the elementary stream gets of the timestamps, in microseconds.\<close>

fun unroll_times :: "pes_times \<Rightarrow> timestamp_unroller \<Rightarrow> (int \<times> int \<times> timestamp_unroller) option" where
  "unroll_times No_Times u = Some (kNoTimestamp, kNoTimestamp, u)"
| "unroll_times (Pts t) u = map_option (\<lambda>(a, u). ((1000 * a) sdiv 90, kNoTimestamp, u)) (GetUnrolledTimestamp t u)"
| "unroll_times (Pts_Dts t d) u = do {
     (a, u) \<leftarrow> GetUnrolledTimestamp t u;
     (b, u) \<leftarrow> GetUnrolledTimestamp d u;
     Some ((1000 * a) sdiv 90, (1000 * b) sdiv 90, u) }"

lemma section_parts:
  assumes p: "0 \<le> p" "p < 16" and t: "0 \<le> t" "t < 2 ^ 33"
  shows "timestamp_section p t div 2 ^ 36 = p" "timestamp_section p t div 2 ^ 33 mod 8 = t div 2 ^ 30"
    "timestamp_section p t div 2 ^ 17 mod 2 ^ 15 = t div 2 ^ 15 mod 2 ^ 15"
    "timestamp_section p t div 2 mod 2 ^ 15 = t mod 2 ^ 15"
    "odd (timestamp_section p t)" "odd (timestamp_section p t div 2 ^ 16)" "odd (timestamp_section p t div 2 ^ 32)"
    "0 \<le> timestamp_section p t" "timestamp_section p t < 2 ^ 40"
proof -
  define a b c where "a = t div 2 ^ 30" and "b = t div 2 ^ 15 mod 2 ^ 15" and "c = t mod 2 ^ 15"
  define S where "S = timestamp_section p t"
  have S: "S = p * 68719476736 + a * 8589934592 + 4294967296 + b * 131072 + 65536 + c * 2 + 1"
    by (simp add: S_def timestamp_section_def a_def b_def c_def)
  have "t div 2 ^ 30 < 8" using t by (simp add: div_less_iff_less_mult)
  then have r: "0 \<le> a" "a < 8" "0 \<le> b" "b < 32768" "0 \<le> c" "c < 32768"
    using t by (simp_all add: a_def b_def c_def)
  have quot: "S div m = q" if "S = q * m + r" "0 \<le> r" "r < m" for q r m :: int
    using that int_div_pos_eq [of S m q r] by (simp add: mult.commute)
  have "S div 68719476736 = p"
    by (rule quot [where r = "a * 8589934592 + 4294967296 + b * 131072 + 65536 + c * 2 + 1"])
       (use r in \<open>simp_all add: S algebra_simps\<close>)
  then show "timestamp_section p t div 2 ^ 36 = p" by (simp add: S_def)
  have "S div 8589934592 = p * 8 + a"
    by (rule quot [where r = "4294967296 + b * 131072 + 65536 + c * 2 + 1"])
       (use r in \<open>simp_all add: S algebra_simps\<close>)
  then show "timestamp_section p t div 2 ^ 33 mod 8 = t div 2 ^ 30" using r by (simp add: S_def a_def)
  have "S div 131072 = (p * 16 + a * 2 + 1) * 32768 + b"
    by (rule quot [where r = "65536 + c * 2 + 1"]) (use r in \<open>simp_all add: S algebra_simps\<close>)
  then have "S div 131072 mod 32768 = b mod 32768" by (simp only: mod_mult_self3)
  then have "S div 131072 mod 32768 = b" using r by simp
  then show "timestamp_section p t div 2 ^ 17 mod 2 ^ 15 = t div 2 ^ 15 mod 2 ^ 15"
    by (simp add: S_def b_def)
  have "S div 2 = (p * 1048576 + a * 131072 + 65536 + b * 2 + 1) * 32768 + c"
    by (rule quot [where r = 1]) (use r in \<open>simp_all add: S algebra_simps\<close>)
  then have "S div 2 mod 32768 = c mod 32768" by (simp only: mod_mult_self3)
  then have "S div 2 mod 32768 = c" using r by simp
  then show "timestamp_section p t div 2 mod 2 ^ 15 = t mod 2 ^ 15" by (simp add: S_def c_def)
  have "odd S" unfolding S by simp
  then show "odd (timestamp_section p t)" by (simp add: S_def)
  have "S div 65536 = (p * 524288 + a * 65536 + 32768 + b) * 2 + 1"
    by (rule quot [where r = "c * 2 + 1"]) (use r in \<open>simp_all add: S algebra_simps\<close>)
  then show "odd (timestamp_section p t div 2 ^ 16)" by (simp add: S_def)
  have "S div 4294967296 = (p * 8 + a) * 2 + 1"
    by (rule quot [where r = "b * 131072 + 65536 + c * 2 + 1"]) (use r in \<open>simp_all add: S algebra_simps\<close>)
  then show "odd (timestamp_section p t div 2 ^ 32)" by (simp add: S_def)
  have "0 \<le> S" "S < 1099511627776" using S p r by linarith+
  then show "0 \<le> timestamp_section p t" "timestamp_section p t < 2 ^ 40" by (simp_all add: S_def)
qed

lemma section_valid:
  assumes "0 \<le> p" "p < 16" "0 \<le> t" "t < 2 ^ 33"
  shows "IsTimestampSectionValid (timestamp_section p t)"
    "drop_bit 36 (timestamp_section p t) AND 0xf = p"
    "ConvertTimestampSectionToTimestamp (timestamp_section p t) = t"
proof -
  note parts = section_parts [OF assms]
  let ?S = "timestamp_section p t"
  have "?S AND 2 ^ n \<noteq> 0 \<longleftrightarrow> odd (?S div 2 ^ n)" for n
    using and_exp_eq_0_iff_not_bit [of ?S n] by (simp add: bit_iff_odd)
  from this [of 0] this [of 16] this [of 32] show "IsTimestampSectionValid ?S"
    using parts(5-7) by (simp add: IsTimestampSectionValid_def)
  have mask: "x AND 0x7 = x mod 8" "x AND 0xf = x mod 16" "x AND 0x7fff = x mod 2 ^ 15" for x :: int
  proof -
    have "x AND mask n = x mod 2 ^ n" for n by (simp flip: take_bit_eq_mask take_bit_eq_mod)
    from this [of 3] this [of 4] this [of 15] show "x AND 0x7 = x mod 8" "x AND 0xf = x mod 16" "x AND 0x7fff = x mod 2 ^ 15"
      by (simp_all add: mask_eq_exp_minus_1)
  qed
  show "drop_bit 36 ?S AND 0xf = p"
    using parts(1) assms(1,2) by (simp add: mask drop_bit_eq_div)
  let ?a = "t div 2 ^ 30" and ?b = "t div 2 ^ 15 mod 2 ^ 15" and ?c = "t mod 2 ^ 15"
  have conv: "ConvertTimestampSectionToTimestamp ?S = push_bit 30 ?a OR push_bit 15 ?b OR ?c"
    by (simp only: ConvertTimestampSectionToTimestamp_def drop_bit_eq_div mask parts(2-4) power_one_right
        push_bit_0_id id_apply)
  have bc: "push_bit 15 ?b OR ?c = ?b * 2 ^ 15 + ?c" by (rule push_bit_OR) simp_all
  have r: "0 \<le> ?b * 2 ^ 15 + ?c" "?b * 2 ^ 15 + ?c < 2 ^ 30"
  proof -
    have "0 \<le> ?b" "?b < 2 ^ 15" "0 \<le> ?c" "?c < 2 ^ 15" by simp_all
    then show "0 \<le> ?b * 2 ^ 15 + ?c" "?b * 2 ^ 15 + ?c < 2 ^ 30" by simp_all
  qed
  have "push_bit 30 ?a OR push_bit 15 ?b OR ?c = ?a * 2 ^ 30 + (?b * 2 ^ 15 + ?c)"
    using push_bit_OR [OF r, of ?a] by (simp only: bc or.assoc)
  also have "?b * 2 ^ 15 + ?c = t mod 2 ^ 30"
    using zmod_zmult2_eq [of "2 ^ 15" t "2 ^ 15"] by (simp add: mult.commute)
  also have "?a * 2 ^ 30 + t mod 2 ^ 30 = t" by (rule div_mult_mod_eq)
  finally show "ConvertTimestampSectionToTimestamp ?S = t" using conv by simp
qed

lemma field_bytes:
  assumes "i + k \<le> length D"
  shows "field D (8 * i) (8 * k) = be_int (mem_slice i k D)"
proof -
  let ?x = "mem_slice i k D"
  have len: "length ?x = k" using assms by simp
  have "drop i D = ?x @ drop k (drop i D)" by (simp add: mem_slice_def del: drop_drop)
  then have "field D (8 * i) (8 * k) = field ?x 0 (8 * k)"
    using field_drop [of i D 0 "8 * k"] field_append [of 0 "8 * k" ?x] assms len by simp
  also have "\<dots> = be_int ?x mod 2 ^ (8 * k)" using field_be_int [of 0 "8 * k" ?x] len by simp
  also have "(2::int) ^ (8 * k) = 256 ^ k" by (simp add: power_mult)
  also have "be_int ?x mod 256 ^ k = be_int ?x" using be_int_bounds [of ?x] len by simp
  finally show ?thesis .
qed

lemma length_pes_packet: "length (pes_packet f) = 9 + pes_header_length f + length (pf_payload f)"
  by (simp add: pes_packet_def pes_header_length_def)

lemma length_times_bytes: "length (times_bytes ts) \<in> {0, 5, 10}"
  by (cases ts) simp_all

lemma pes_packet_fields:
  assumes "pes_form_ok f"
  defines "D \<equiv> pes_packet f" and "h \<equiv> pes_header_length f"
  shows "field D 0 24 = 1" "field D 24 8 = uint (pf_stream_id f)"
    "field D 32 16 = (if pf_sized f then 3 + int h + int (length (pf_payload f)) else 0)"
    "field D 48 2 = 2" "field D 56 2 = times_code (pf_times f)" "field D 64 8 = int h"
    "mem_slice 9 (length (times_bytes (pf_times f))) D = times_bytes (pf_times f)"
    "mem_slice (9 + h) (length (pf_payload f)) D = pf_payload f"
proof -
  have len: "length D = 9 + h + length (pf_payload f)" by (simp add: D_def h_def length_pes_packet)
  have ok: "0 \<le> pf_control f" "pf_control f < 64" "0 \<le> pf_flags f" "pf_flags f < 64" "h < 256"
    using assms(1) by (simp_all add: pes_form_ok_def h_def)
  define n where "n = (if pf_sized f then 3 + int h + int (length (pf_payload f)) else 0)"
  have n: "0 \<le> n" "n < 65536" using assms(1) by (auto simp: n_def pes_form_ok_def h_def split: if_splits)
  obtain x y where xy: "be_bytes 2 n = [x, y]"
    using length_be_bytes [of 2 n] by (auto simp: numeral_2_eq_2 length_Suc_conv)
  have D: "D = [0, 0, 1, pf_stream_id f, x, y, word_of_int (0x80 + pf_control f), word_of_int (times_code (pf_times f) * 64 + pf_flags f),
      word_of_int (int h)] @ times_bytes (pf_times f) @ pf_extra f @ pf_payload f"
    unfolding D_def pes_packet_def n_def [unfolded h_def, symmetric] xy by (simp add: h_def)
  have "be_int [x, y] = n mod 256 ^ 2" unfolding xy [symmetric] by (rule be_int_be_bytes)
  then have be: "be_int [x, y] = n" using n by simp
  have c: "0 \<le> times_code (pf_times f)" "times_code (pf_times f) < 4" by (cases "pf_times f"; simp)+
  show "field D 0 24 = 1" using field_bytes [of 0 3 D] len by (simp add: D mem_slice_def numeral_3_eq_3 be_int_Cons)
  show "field D 24 8 = uint (pf_stream_id f)" using field_bytes [of 3 1 D] len by (simp add: D mem_slice_def be_int_Cons)
  show "field D 32 16 = n" using field_bytes [of 4 2 D] len be by (simp add: D mem_slice_def numeral_2_eq_2)
  show "field D 64 8 = int h"
    using field_bytes [of 8 1 D] len ok(5) by (simp add: D mem_slice_def be_int_Cons unsigned_of_nat take_bit_nat_eq_self)
  have u: "uint (word_of_int v :: u8) = v" if "0 \<le> v" "v < 256" for v using that by (simp add: uint_word_of_int)
  have D6: "D ! 6 = word_of_int (0x80 + pf_control f)" and D7: "D ! 7 = word_of_int (times_code (pf_times f) * 64 + pf_flags f)"
    by (simp_all add: D)
  have "uint (D ! 6) = 0x80 + pf_control f" unfolding D6 by (rule u) (use ok in simp_all)
  then show "field D 48 2 = 2"
    using field_byte [of 6 D 0 2] len ok(1,2) by simp
  have "uint (D ! 7) = times_code (pf_times f) * 64 + pf_flags f" unfolding D7 by (rule u) (use ok c in simp_all)
  moreover have "(times_code (pf_times f) * 64 + pf_flags f) div 64 = times_code (pf_times f)" using ok(3,4) by simp
  ultimately show "field D 56 2 = times_code (pf_times f)"
    using field_byte [of 7 D 0 2] len c by simp
  show "mem_slice 9 (length (times_bytes (pf_times f))) D = times_bytes (pf_times f)"
    by (simp add: D mem_slice_def)
  show "mem_slice (9 + h) (length (pf_payload f)) D = pf_payload f"
  proof -
    have "drop 9 D = (times_bytes (pf_times f) @ pf_extra f) @ pf_payload f" by (simp add: D)
    then have "drop h (drop 9 D) = pf_payload f" by (simp add: h_def pes_header_length_def)
    then show ?thesis by (simp add: mem_slice_def add.commute)
  qed
qed

text \<open>The timestamps, read where they stand.\<close>

lemma read_timestamps_packet:
  assumes ok: "pes_form_ok f" and r: "reader_at (pes_packet f) 72 r"
  shows "\<exists>pts dts r'. read_timestamps (times_code (pf_times f)) r = Some (pts, dts, r') \<and>
    reader_at (pes_packet f) (72 + 8 * length (times_bytes (pf_times f))) r' \<and>
    (do { (a, u) \<leftarrow> unroll_section pts u; (b, u) \<leftarrow> unroll_section dts u; Some (a, b, u) }) = unroll_times (pf_times f) u"
proof -
  let ?D = "pes_packet f"
  note slc = pes_packet_fields(7) [OF ok]
  have len: "9 + length (times_bytes (pf_times f)) \<le> length ?D" by (simp add: length_pes_packet pes_header_length_def)
  have tsec: "be_int (be_bytes 5 (timestamp_section p t)) = timestamp_section p t" if "0 \<le> p" "p < 16" "in_33_bits t" for p t
    using section_parts(8,9) [OF that(1,2), of t] that(3) be_int_be_bytes [of 5 "timestamp_section p t"] by (simp add: in_33_bits_def)
  have valid: "IsTimestampSectionValid (timestamp_section p t)" "drop_bit 36 (timestamp_section p t) AND 0xf = p"
    "ConvertTimestampSectionToTimestamp (timestamp_section p t) = t" if "0 \<le> p" "p < 16" "in_33_bits t" for p t
    using section_valid [OF that(1,2), of t] that(3) by (simp_all add: in_33_bits_def)
  show ?thesis
  proof (cases "pf_times f")
    case No_Times
    then show ?thesis using r by (simp add: read_timestamps_def unroll_section_def)
  next
    case (Pts t)
    have t: "in_33_bits t" using ok Pts by (simp add: pes_form_ok_def)
    have "field ?D 72 40 = timestamp_section 2 t"
      using field_bytes [of 9 5 ?D] slc len tsec [of 2 t] t Pts by simp
    moreover obtain r1 where "read_bits 40 r = Some (field ?D 72 40, r1)" "reader_at ?D 112 r1"
      using read_bits_Some [OF r, of 40] len Pts by auto
    ultimately show ?thesis
      using Pts valid [of 2 t] t by (auto simp: read_timestamps_def rcheck_def unroll_section_def option.map_comp comp_def
          map_conv_bind_option split: prod.split intro!: arg_cong2 [where f = Option.bind])
  next
    case (Pts_Dts t d)
    have t: "in_33_bits t" "in_33_bits d" using ok Pts_Dts by (simp_all add: pes_form_ok_def)
    have b: "times_bytes (pf_times f) = be_bytes 5 (timestamp_section 3 t) @ be_bytes 5 (timestamp_section 1 d)" using Pts_Dts by simp
    have len2: "19 \<le> length ?D" using len b by simp
    have "mem_slice 9 5 ?D = take 5 (mem_slice 9 10 ?D)" "mem_slice 14 5 ?D = drop 5 (mem_slice 9 10 ?D)"
      by (simp_all add: mem_slice_def min_def drop_take)
    then have "mem_slice 9 5 ?D = be_bytes 5 (timestamp_section 3 t)" "mem_slice 14 5 ?D = be_bytes 5 (timestamp_section 1 d)"
      using slc unfolding b by simp_all
    then have "field ?D 72 40 = timestamp_section 3 t" "field ?D 112 40 = timestamp_section 1 d"
      using field_bytes [of 9 5 ?D] field_bytes [of 14 5 ?D] len2 tsec [of 3 t] tsec [of 1 d] t by simp_all
    moreover obtain r1 where r1: "read_bits 40 r = Some (field ?D 72 40, r1)" "reader_at ?D 112 r1"
      using read_bits_Some [OF r, of 40] len2 by auto
    moreover obtain r2 where "read_bits 40 r1 = Some (field ?D 112 40, r2)" "reader_at ?D 152 r2"
      using read_bits_Some [OF r1(2), of 40] len2 by auto
    ultimately show ?thesis
      using Pts_Dts valid [of 3 t] valid [of 1 d] t
      by (auto simp: read_timestamps_def rcheck_def unroll_section_def map_conv_bind_option bind_assoc split: prod.split
          intro!: arg_cong2 [where f = Option.bind])
  qed
qed

lemma ParseInternal_packet:
  assumes ok: "pes_form_ok f" and u: "unroll_times (pf_times f) u = Some (pts, dts, u')"
  shows "ParseInternal P (pes_packet f) u e =
    (let (ok, events, e') = es_Parse P (pf_payload f) pts dts e in Some (ok, events, u', e'))"
proof -
  define D h where "D = pes_packet f" and "h = pes_header_length f"
  have len: "length D = 9 + h + length (pf_payload f)" by (simp add: D_def h_def length_pes_packet)
  note f = pes_packet_fields [OF ok, folded D_def h_def]
  have r0: "reader_at D 0 (BitReader_init D (length D))" by (rule reader_at_init)
  obtain r1 where r1: "read_bits 24 (BitReader_init D (length D)) = Some (field D 0 24, r1)" "reader_at D 24 r1"
    using read_bits_Some [OF r0, of 24] len by auto
  obtain r2 where r2: "read_bits 8 r1 = Some (field D 24 8, r2)" "reader_at D 32 r2"
    using read_bits_Some [OF r1(2), of 8] len by auto
  obtain r3 where r3: "read_bits 16 r2 = Some (field D 32 16, r3)" "reader_at D 48 r3"
    using read_bits_Some [OF r2(2), of 16] len by auto
  have avail3: "BitReader_bits_available r3 div 8 = int (length D) - 6"
    using bits_available_at [OF r3(2)] len by simp
  have start: "read_pes_start D = Some (uint (pf_stream_id f), 3 + int h + int (length (pf_payload f)), r3)"
    using r1(1) r2(1) r3(1) f avail3 len by (simp add: read_pes_start_def kPesStartCode_def rcheck_def Let_def)
  obtain r4 where r4: "read_bits 2 r3 = Some (field D 48 2, r4)" "reader_at D 50 r4"
    using read_bits_Some [OF r3(2), of 2] len by auto
  obtain r5 where r5: "read_bits 2 r4 = Some (field D 50 2, r5)" "reader_at D 52 r5"
    using read_bits_Some [OF r4(2), of 2] len by auto
  obtain r6 where r6: "read_bits 1 r5 = Some (field D 52 1, r6)" "reader_at D 53 r6"
    using read_bits_Some [OF r5(2), of 1] len by auto
  obtain r7 where r7: "read_bits 1 r6 = Some (field D 53 1, r7)" "reader_at D 54 r7"
    using read_bits_Some [OF r6(2), of 1] len by auto
  obtain r8 where r8: "read_bits 1 r7 = Some (field D 54 1, r8)" "reader_at D 55 r8"
    using read_bits_Some [OF r7(2), of 1] len by auto
  obtain r9 where r9: "read_bits 1 r8 = Some (field D 55 1, r9)" "reader_at D 56 r9"
    using read_bits_Some [OF r8(2), of 1] len by auto
  obtain r10 where r10: "read_bits 2 r9 = Some (field D 56 2, r10)" "reader_at D 58 r10"
    using read_bits_Some [OF r9(2), of 2] len by auto
  obtain r11 where r11: "read_bits 1 r10 = Some (field D 58 1, r11)" "reader_at D 59 r11"
    using read_bits_Some [OF r10(2), of 1] len by auto
  obtain r12 where r12: "read_bits 1 r11 = Some (field D 59 1, r12)" "reader_at D 60 r12"
    using read_bits_Some [OF r11(2), of 1] len by auto
  obtain r13 where r13: "read_bits 1 r12 = Some (field D 60 1, r13)" "reader_at D 61 r13"
    using read_bits_Some [OF r12(2), of 1] len by auto
  obtain r14 where r14: "read_bits 1 r13 = Some (field D 61 1, r14)" "reader_at D 62 r14"
    using read_bits_Some [OF r13(2), of 1] len by auto
  obtain r15 where r15: "read_bits 1 r14 = Some (field D 62 1, r15)" "reader_at D 63 r15"
    using read_bits_Some [OF r14(2), of 1] len by auto
  obtain r16 where r16: "read_bits 1 r15 = Some (field D 63 1, r16)" "reader_at D 64 r16"
    using read_bits_Some [OF r15(2), of 1] len by auto
  obtain r17 where r17: "read_bits 8 r16 = Some (field D 64 8, r17)" "reader_at D 72 r17"
    using read_bits_Some [OF r16(2), of 8] len by auto
  obtain ps ds r18 where ts: "read_timestamps (times_code (pf_times f)) r17 = Some (ps, ds, r18)"
    "reader_at D (72 + 8 * length (times_bytes (pf_times f))) r18"
    "(do { (a, u) \<leftarrow> unroll_section ps u; (b, u) \<leftarrow> unroll_section ds u; Some (a, b, u) }) = unroll_times (pf_times f) u"
    using read_timestamps_packet [OF ok r17(2) [unfolded D_def], of u] unfolding D_def by blast
  have avail: "BitReader_bits_available r17 = 8 * (int h + int (length (pf_payload f)))"
    "BitReader_bits_available r18 = 8 * (int (length (pf_extra f)) + int (length (pf_payload f)))"
    using bits_available_at [OF r17(2)] bits_available_at [OF ts(2)] len by (simp_all add: h_def pes_header_length_def)
  have header: "read_pes_header (int (length D)) (3 + int h + int (length (pf_payload f))) r3 =
      Some (int (length (pf_payload f)), 9 + int h, int h, int h + int (length (pf_payload f)), ps, ds, r18)"
    unfolding read_pes_header_def
    by (simp add: r4 r5 r6 r7 r8 r9 r10 r11 r12 r13 r14 r15 r16 r17 f ts(1) avail rcheck_def Let_def len
        del: One_nat_def)
  obtain u1 where unroll: "unroll_section ps u = Some (pts, u1)" "unroll_section ds u1 = Some (dts, u')"
    using ts(3) u by (auto simp: bind_eq_Some_conv)
  have known: "is_known_stream_id (uint (pf_stream_id f))" using ok by (simp add: pes_form_ok_def)
  have mod: "BitReader_bits_available r18 mod 8 = 0" using avail(2) by simp
  have remaining: "int h - (int h + int (length (pf_payload f)) - BitReader_bits_available r18 div 8) \<ge> 0"
    unfolding avail(2) by (simp add: h_def pes_header_length_def)
  have "nat (9 + int h) = 9 + h" by simp
  then have slc: "mem_slice (nat (9 + int h)) (nat (int (length (pf_payload f)))) D = pf_payload f" using f(8) by simp
  show ?thesis
    unfolding D_def [symmetric] ParseInternal_def start option.case prod.case header unroll Let_def slc
    using known mod remaining by simp
qed

lemma pes_packet_size:
  assumes ok: "pes_form_ok f"
  shows "pf_sized f \<Longrightarrow> sized_pes (pes_packet f)" "\<not> pf_sized f \<Longrightarrow> unsized_pes (pes_packet f)"
proof -
  let ?D = "pes_packet f"
  have len: "length ?D = 9 + pes_header_length f + length (pf_payload f)" by (rule length_pes_packet)
  have "field ?D 32 16 = (uint (?D ! 4) * 256 + uint (?D ! 5)) mod 65536"
    using field_two_bytes [of 4 ?D 0 16] len by simp
  moreover have "(uint (?D ! 4) * 256 + uint (?D ! 5)) mod 65536 = uint (?D ! 4) * 256 + uint (?D ! 5)"
    using uint_u8 [of "?D ! 4"] uint_u8 [of "?D ! 5"] by (intro mod_pos_pos_trivial) simp_all
  ultimately have eq: "uint (?D ! 4) * 256 + uint (?D ! 5) =
      (if pf_sized f then 3 + int (pes_header_length f) + int (length (pf_payload f)) else 0)"
    using pes_packet_fields(3) [OF ok] by simp
  show "pf_sized f \<Longrightarrow> sized_pes ?D" using eq by (simp add: sized_pes_def len)
  show "unsized_pes ?D" if "\<not> pf_sized f"
  proof -
    have "uint (?D ! 4) * 256 + uint (?D ! 5) = 0" using eq that by simp
    then have "uint (?D ! 4) = 0" "uint (?D ! 5) = 0" using uint_u8 [of "?D ! 4"] uint_u8 [of "?D ! 5"] by linarith+
    then show ?thesis using ok that len by (simp add: unsized_pes_def pes_form_ok_def uint_0_iff)
  qed
qed

section \<open>Properties\<close>

text \<open>
  C25: a PES packet of a known stream ID gets through: with a presentation timestamp, both
  timestamps or none, any values of the other flags, any bytes in the rest of its header, and any
  payload, cut in any way into payloads of transport packets that are not empty, the first with
  the start indicator, it is reassembled at an idle section, parsed and handed to the parser of the
  elementary stream once, with its whole payload and its timestamps unrolled and converted to
  microseconds. A packet that gives its length is handed over with its last byte, and the section
  is idle again; one that does not (a payload below \<open>2 ^ 30\<close> bytes) is kept until \<open>Flush\<close>, or until
  the start of the next packet, hands it over. The timestamps are such that the unroller fails no
  assertion. Not covered are the flag values 1, which the standard forbids, packets cut short by
  the start of the next one, and stream IDs that the parser drops.
\<close>

theorem pes_packet_delivered:
  assumes s: "pes_idle s" and cs: "cs \<noteq> []" "\<forall>c\<in>set cs. c \<noteq> []" "concat cs = pes_packet f"
    and f: "pes_form_ok f" and u: "unroll_times (pf_times f) u = Some (pts, dts, u')"
    and es: "es_Parse P (pf_payload f) pts dts (pes_es_parser s) = (ok, events, e)"
  shows "if pf_sized f
    then \<exists>s'. pes_feed fresh P cs u s = Some (ok, events, u', s') \<and> pes_idle s' \<and> pes_es_parser s' = e
    else \<exists>s1 s'. pes_feed fresh P cs u s = Some (True, [], u, s1) \<and> pes_idle s' \<and> pes_es_parser s' = e \<and>
      pes_unit_start P u s1 = Some (ok, events, u', s'\<lparr>pes_wait_for_pusi := False\<rparr>) \<and>
      TsSectionPes_Flush P u s1 =
        (let (events', e') = es_Flush P e in Some (events @ events', u', s'\<lparr>pes_es_parser := e'\<rparr>))"
proof (cases "pf_sized f")
  case True
  obtain q where q: "pes_feed fresh P cs u s =
      map_option (\<lambda>(ok, events, u, e). (ok, events, u, ResetPesState (s\<lparr>pes_byte_queue := q, pes_es_parser := e\<rparr>)))
        (ParseInternal P (pes_packet f) u (pes_es_parser s))" "ByteQueue_ok q"
    using pes_feed_collects [OF s cs pes_packet_size(1) [OF f True]] by blast
  have "pes_idle (ResetPesState (s\<lparr>pes_byte_queue := q, pes_es_parser := e\<rparr>))"
    using q(2) by (intro ResetPesState_idle) simp
  then show ?thesis
    using True q(1) ParseInternal_packet [OF f u, of P "pes_es_parser s"] es by (simp add: ResetPesState_def)
next
  case False
  obtain q where q: "pes_feed fresh P cs u s = Some (True, [], u, s\<lparr>pes_wait_for_pusi := False, pes_byte_queue := q\<rparr>)"
    "ByteQueue_ok q" "ByteQueue_contents q = pes_packet f"
    using pes_feed_unsized [OF s cs pes_packet_size(2) [OF f False]] by blast
  let ?s1 = "s\<lparr>pes_wait_for_pusi := False, pes_byte_queue := q\<rparr>"
  let ?s' = "ResetPesState (?s1\<lparr>pes_es_parser := e\<rparr>)"
  have emit: "TsSectionPes_Emit P True u ?s1 = Some (ok, events, u', ?s')"
    using Emit_unsized_end [of ?s1 "pes_packet f" P u] q(2,3) pes_packet_size(2) [OF f False]
      ParseInternal_packet [OF f u, of P "pes_es_parser s"] es by simp
  have idle: "pes_idle ?s'" using q(2) by (intro ResetPesState_idle) simp
  have "snd (ByteQueue_Peek q) > 0"
    using peek_contents(3) [OF q(2)] q(3) length_pes_packet [of f] by (cases "ByteQueue_Peek q") simp
  then have start: "pes_unit_start P u ?s1 = Some (ok, events, u', (ResetPesState ?s')\<lparr>pes_wait_for_pusi := False\<rparr>)"
    using emit by (simp add: pes_unit_start_def)
  have twice: "ResetPesState ?s' = ?s'" by (simp add: ResetPesState_def ByteQueue_Reset_def)
  have e: "pes_es_parser ?s' = e" by (simp add: ResetPesState_def)
  have "\<exists>s1 s'. pes_feed fresh P cs u s = Some (True, [], u, s1) \<and> pes_idle s' \<and> pes_es_parser s' = e \<and>
      pes_unit_start P u s1 = Some (ok, events, u', s'\<lparr>pes_wait_for_pusi := False\<rparr>) \<and>
      TsSectionPes_Flush P u s1 =
        (let (events', e') = es_Flush P e in Some (events @ events', u', s'\<lparr>pes_es_parser := e'\<rparr>))"
    using q(1) start [unfolded twice] idle e emit
    by (intro exI [of _ ?s1] exI [of _ ?s'] conjI) (simp_all add: TsSectionPes_Flush_def)
  then show ?thesis using False by simp
qed

text \<open>An elementary stream parser that records what it is given.\<close>

definition recording_parser :: "((u8 list \<times> int) list, u8 list \<times> int) es_parser" where
  "recording_parser = \<lparr>es_Parse = (\<lambda>data pts dts e. (True, [(data, pts)], (data, pts) # e)),
     es_Flush = (\<lambda>e. ([], e)), es_Reset = (\<lambda>e. [])\<rparr>"

definition audio_form :: pes_form where
  "audio_form = \<lparr>pf_stream_id = 0xC0, pf_control = 0, pf_flags = 0, pf_times = Pts 90000, pf_extra = [0xFF, 0xFF],
     pf_payload = [1, 2, 3], pf_sized = True\<rparr>"

theorem pes_packet_delivered_witness:
  "\<exists>s'. pes_feed (\<lambda>_. 0) recording_parser [take 7 (pes_packet audio_form), drop 7 (pes_packet audio_form)]
      TimestampUnroller_init (TsSectionPes_init (\<lambda>_. 0) []) =
    Some (True, [([1, 2, 3], 1000000)],
      \<lparr>is_previous_timestamp_valid = True, previous_unrolled_timestamp = 90000\<rparr>, s') \<and> pes_idle s'"
proof -
  let ?D = "pes_packet audio_form"
  let ?u = "\<lparr>is_previous_timestamp_valid = True, previous_unrolled_timestamp = 90000\<rparr>"
  have idle: "pes_idle (TsSectionPes_init (\<lambda>_. 0) [] :: (u8 list \<times> int) list ts_section_pes)"
    by (simp add: pes_idle_def TsSectionPes_init_def ByteQueue_init_ok)
  have len: "length ?D = 19" by (simp add: length_pes_packet audio_form_def pes_header_length_def)
  have cs: "[take 7 ?D, drop 7 ?D] \<noteq> []" "\<forall>c\<in>set [take 7 ?D, drop 7 ?D]. c \<noteq> []" "concat [take 7 ?D, drop 7 ?D] = ?D"
    using len by auto
  have f: "pes_form_ok audio_form"
    by (simp add: pes_form_ok_def audio_form_def pes_header_length_def is_known_stream_id_def in_33_bits_def)
  have "(1000 * 90000 :: int) sdiv 90 = 1000000" by code_simp
  then have u: "unroll_times (pf_times audio_form) TimestampUnroller_init = Some (1000000, kNoTimestamp, ?u)"
    by (simp add: audio_form_def GetUnrolledTimestamp_def TimestampUnroller_init_def drop_bit_eq_div)
  have es: "es_Parse recording_parser (pf_payload audio_form) 1000000 kNoTimestamp
      (pes_es_parser (TsSectionPes_init (\<lambda>_. 0) [])) = (True, [([1, 2, 3], 1000000)], [([1, 2, 3], 1000000)])"
    by (simp add: recording_parser_def TsSectionPes_init_def audio_form_def)
  have "pf_sized audio_form" by (simp add: audio_form_def)
  then show ?thesis using pes_packet_delivered [OF idle cs f u es] by auto
qed

text \<open>
  A section that ends with the CRC of the bytes before it passes the check, whatever the bytes.
\<close>

theorem IsCrcValid_appended: "IsCrcValid (bs @ crc_bytes (fold crc_byte bs 0xffffffff))"
  using fold_crc_bytes [of "fold crc_byte bs 0xffffffff"] by (simp add: IsCrcValid_def)

text \<open>
  A program association table with a section length of 5, which leaves no room for the CRC
  but whose bytes pass the CRC check, makes the parser create arrays of a negative size.
\<close>

theorem short_pat_fails:
  "TsSectionPsi_Parse fresh TsSectionPat True [0, 0, 0x80, 5, 0, 0xbc, 0x6f, 0x7e, 0x8e]
     (TsSectionPsi_init fresh (- 1)) = None"
proof -
  let ?D = "[0, 0x80, 5, 0, 0xbc, 0x6f, 0x7e, 0x8e] :: u8 list"
  let ?q = "ByteQueue_Reset (ByteQueue_init fresh)"
  have q: "ByteQueue_ok ?q" "ByteQueue_contents ?q = []" using ByteQueue_Reset_ok ByteQueue_init_ok by auto
  have "used ?q = 0" by (simp add: ByteQueue_Reset_def)
  then obtain q' where q': "ByteQueue_Push fresh ?D ?q = Some q'" "ByteQueue_ok q'" "ByteQueue_contents q' = ?D"
    using ByteQueue_Push_correct [OF q(1), of ?D fresh] q(2) by auto
  obtain r n where p: "ByteQueue_Peek q' = (r, n)" by force
  note pc = peek_contents [OF q'(2) p, unfolded q'(3)]
  have n: "n = 8" using pc(3) by simp
  have r: "take 8 r = ?D" "r ! 1 = 0x80" "r ! 2 = 5" using pc(2) pc(4) [of 1] pc(4) [of 2] n by simp_all
  have crc: "IsCrcValid ?D" by code_simp
  have pat: "TsSectionPat_ParsePsiSection (BitReader_init ?D 8) (- 1) = None" by code_simp
  have "psi_add_data fresh TsSectionPat ?D s = None"
    if "psi_byte_queue s = ?q" "psi_state s = - 1" for s
    using that q'(1) p n r crc pat by (simp add: psi_add_data_def two_bytes TsSectionPat_def)
  then show ?thesis
    by (simp add: TsSectionPsi_Parse_def TsSectionPsi_init_def ResetPsiState_def)
qed

section \<open>Fuel\<close>

text \<open>More fuel than the loops are given changes nothing: their \<open>None\<close> is a failed read.\<close>

lemma read_bytes_at:
  "reader_at D p r \<Longrightarrow> read_bytes n r = Some (bs, r') \<Longrightarrow> reader_at D (p + 8 * n) r'"
proof (induction n arbitrary: p r bs)
  case (Suc n)
  then obtain c r1 cs where c: "read_bits 8 r = Some (c, r1)" "read_bytes n r1 = Some (cs, r')"
    by (auto split: Option.bind_splits)
  have "reader_at D (p + 8) r1" using read_bits_at(2) [OF Suc.prems(1) _ c(1)] by simp
  from Suc.IH [OF this c(2)] show ?case by (simp add: add.assoc)
qed simp

lemma descriptor_read:
  assumes "reader_at D p r" "read_bits 8 r = Some (tag, r1)" "read_bits 8 r1 = Some (len, r2)"
    "read_bytes (nat len) r2 = Some (dat, r3)"
  shows "reader_at D (p + 16 + 8 * nat len) r3" "int (BitReader_bits_read r3) = int p + 16 + 8 * int (nat len)"
proof -
  have at1: "reader_at D (p + 8) r1" using read_bits_at(2) [OF assms(1) _ assms(2)] by simp
  have "reader_at D (p + 8 + 8) r2" using read_bits_at(2) [OF at1 _ assms(3)] by simp
  from read_bytes_at [OF this assms(4)] show "reader_at D (p + 16 + 8 * nat len) r3" by (simp add: add.commute)
  then show "int (BitReader_bits_read r3) = int p + 16 + 8 * int (nat len)" by (simp add: reader_at_def)
qed

lemma descriptors_loop_fuel:
  assumes "reader_at D p r" "0 < fuel" "n - (int p - i) \<le> int fuel"
  shows "descriptors_loop (fuel + k) i n ds r = descriptors_loop fuel i n ds r"
  using assms
proof (induction fuel arbitrary: p r ds)
  case (Suc f)
  have "descriptors_loop (f + k) i n ds' r3 = descriptors_loop f i n ds' r3"
    if reads: "read_bits 8 r = Some (tag, r1)" "read_bits 8 r1 = Some (len, r2)" "read_bytes (nat len) r2 = Some (dat, r3)"
      and loop: "int (BitReader_bits_read r3) - i < n" for tag r1 len r2 dat r3 ds'
    using Suc.IH [OF descriptor_read(1) [OF Suc.prems(1) reads]] descriptor_read(2) [OF Suc.prems(1) reads] loop
      Suc.prems(3) by simp
  then show ?case by (auto simp: Let_def intro!: bind_option_cong)
qed simp

lemma descriptors_loop_at:
  "descriptors_loop fuel i n ds r = Some (ds', r') \<Longrightarrow> reader_at D p r \<Longrightarrow> \<exists>p'. p \<le> p' \<and> reader_at D p' r'"
proof (induction fuel arbitrary: p r ds)
  case (Suc f)
  then obtain tag r1 len r2 dat r3 where
    reads: "read_bits 8 r = Some (tag, r1)" "read_bits 8 r1 = Some (len, r2)" "read_bytes (nat len) r2 = Some (dat, r3)"
    and rest: "r' = r3 \<or> descriptors_loop f i n (map_insert tag dat ds) r3 = Some (ds', r')"
    by (auto simp: Let_def split: Option.bind_splits if_splits)
  note at3 = descriptor_read(1) [OF Suc.prems(2) reads]
  from rest show ?case
  proof
    assume "r' = r3" then show ?thesis using at3 by (intro exI [of _ "p + 16 + 8 * nat len"]) simp
  next
    assume "descriptors_loop f i n (map_insert tag dat ds) r3 = Some (ds', r')"
    from Suc.IH [OF this at3] show ?thesis by (meson le_add1 le_trans)
  qed
qed simp

lemma Descriptors_Read_at:
  "Descriptors_Read r n = Some (ds, r') \<Longrightarrow> reader_at D p r \<Longrightarrow> \<exists>p'. p \<le> p' \<and> reader_at D p' r'"
  by (auto simp: Descriptors_Read_def Let_def split: if_splits dest: descriptors_loop_at)

lemma Descriptors_Read_fuel:
  assumes "reader_at D p r" "0 < n"
  shows "descriptors_loop (nat (8 * n) + k) (int (BitReader_bits_read r)) (8 * n) [] r =
    descriptors_loop (nat (8 * n)) (int (BitReader_bits_read r)) (8 * n) [] r"
  using assms by (intro descriptors_loop_fuel [OF assms(1)]) (auto simp: reader_at_def)

lemma pid_map_loop_fuel:
  assumes "reader_at D p r" "8 * length D - p < fuel"
  shows "pid_map_loop (fuel + k) e m r = pid_map_loop fuel e m r"
  using assms
proof (induction fuel arbitrary: p r m)
  case (Suc f)
  have "pid_map_loop (f + k) e m' r6 = pid_map_loop f e m' r6"
    if reads: "read_bits 8 r = Some (a, r1)" "read_bits 3 r1 = Some (b, r2)" "read_bits 13 r2 = Some (c, r3)"
      "read_bits 4 r3 = Some (d, r4)" "read_bits 12 r4 = Some (l, r5)" "Descriptors_Read r5 l = Some (ds, r6)"
    for a r1 b r2 c r3 d r4 l r5 ds r6 m'
  proof -
    note at1 = read_bits_at [OF Suc.prems(1) _ reads(1), simplified]
    note at2 = read_bits_at [OF at1(2) _ reads(2), simplified]
    note at3 = read_bits_at [OF at2(2) _ reads(3), simplified]
    note at4 = read_bits_at [OF at3(2) _ reads(4), simplified]
    note at5 = read_bits_at [OF at4(2) _ reads(5), simplified]
    obtain p' where p': "40 + p \<le> p'" "reader_at D p' r6"
      using Descriptors_Read_at [OF reads(6) at5(2)] that by (metis add.commute)
    then have "8 * length D - p' < f" using Suc.prems(2) at5(3) by linarith
    then show ?thesis by (rule Suc.IH [OF p'(2)])
  qed
  then show ?case by (auto simp: Let_def intro!: bind_option_cong)
qed simp

end
