(* ===== verification/Mp2t_Stream.thy ===== *)
theory Mp2t_Stream
  imports Mp2t_Sections
begin

text \<open>
  \<open>Mp2tStreamParser\<close> (\<open>formats/mp2t/mp2t_stream_parser.cc\<close>), as built without
  \<open>ENABLE_HLS_SAMPLE_AES\<close>: it cuts the received bytes into transport packets, keeps a
  \<open>PidState\<close> with its section parser for each PID, registers the PIDs that the PAT and the PMT
  announce, enables one audio and one video stream, and queues their buffers by configuration.

  The elementary stream parsers, the decoder configurations and the callbacks of the client
  are parameters, the record \<open>mp2t_client\<close>, over an abstract client state. The callbacks a
  section runs are handled after it, in order; they concern other parts of the state. A failing
  assertion is \<open>None\<close>.
\<close>

section \<open>PidState\<close>

datatype pid_type = kPidPat | kPidPmt | kPidAudioPes | kPidVideoPes

datatype 'e section_parser =
    Pat_Section "int ts_section_psi"
  | Pmt_Section "unit ts_section_psi"
  | Pes_Section "'e ts_section_pes"

text \<open>What the callbacks bound to an elementary stream parser report.\<close>

datatype ('a, 'v, 'b) es_event =
    Audio_Config_Event 'a
  | Video_Config_Event 'v
  | Audio_Buffer_Event 'b
  | Video_Buffer_Event 'b

datatype ('a, 'v, 'b) section_event =
    Register_Pmt_Event int int
  | Register_Pes_Event int int descriptors
  | Es_Event "('a, 'v, 'b) es_event"

record 'e pid_state =
  pd_pid :: int
  pd_pid_type :: pid_type
  pd_section_parser :: "'e section_parser"
  pd_enable :: bool
  pd_continuity_counter :: int

definition PidState_init :: "int \<Rightarrow> pid_type \<Rightarrow> 'e section_parser \<Rightarrow> 'e pid_state" where
  "PidState_init pid type section_parser =
     \<lparr>pd_pid = pid, pd_pid_type = type, pd_section_parser = section_parser, pd_enable = False,
      pd_continuity_counter = - 1\<rparr>"

type_synonym ('e, 'a, 'v, 'b) es = "('e, ('a, 'v, 'b) es_event) es_parser"

definition section_Reset :: "('e, 'a, 'v, 'b) es \<Rightarrow> 'e section_parser \<Rightarrow> 'e section_parser" where
  "section_Reset P p =
     (case p of
        Pat_Section s \<Rightarrow> Pat_Section (TsSectionPsi_Reset TsSectionPat s)
      | Pmt_Section s \<Rightarrow> Pmt_Section (TsSectionPsi_Reset TsSectionPmt s)
      | Pes_Section s \<Rightarrow> Pes_Section (TsSectionPes_Reset P s))"

text \<open>Only a PES section emits anything when it is flushed.\<close>

definition section_Flush ::
  "('e, 'a, 'v, 'b) es \<Rightarrow> timestamp_unroller \<Rightarrow> 'e section_parser \<Rightarrow>
   (('a, 'v, 'b) section_event list \<times> timestamp_unroller \<times> 'e section_parser) option" where
  "section_Flush P u p =
     (case p of
        Pes_Section s \<Rightarrow> map_option (\<lambda>(events, u, s). (map Es_Event events, u, Pes_Section s)) (TsSectionPes_Flush P u s)
      | _ \<Rightarrow> Some ([], u, p))"

definition section_Parse ::
  "(nat \<Rightarrow> u8) \<Rightarrow> ('e, 'a, 'v, 'b) es \<Rightarrow> bool \<Rightarrow> u8 list \<Rightarrow> timestamp_unroller \<Rightarrow> 'e section_parser \<Rightarrow>
   (bool \<times> ('a, 'v, 'b) section_event list \<times> timestamp_unroller \<times> 'e section_parser) option" where
  "section_Parse fresh P pusi payload u p =
     (case p of
        Pat_Section s \<Rightarrow>
          map_option (\<lambda>(ok, events, s). (ok, map (\<lambda>(n, pid). Register_Pmt_Event n pid) events, u, Pat_Section s))
            (TsSectionPsi_Parse fresh TsSectionPat pusi payload s)
      | Pmt_Section s \<Rightarrow>
          map_option (\<lambda>(ok, events, s). (ok, map (\<lambda>(pid, type, ds). Register_Pes_Event pid type ds) events, u, Pmt_Section s))
            (TsSectionPsi_Parse fresh TsSectionPmt pusi payload s)
      | Pes_Section s \<Rightarrow>
          map_option (\<lambda>(ok, events, u, s). (ok, map Es_Event events, u, Pes_Section s))
            (TsSectionPes_Parse fresh P pusi payload u s))"

definition PidState_ResetState :: "('e, 'a, 'v, 'b) es \<Rightarrow> 'e pid_state \<Rightarrow> 'e pid_state" where
  "PidState_ResetState P d =
     d\<lparr>pd_section_parser := section_Reset P (pd_section_parser d), pd_continuity_counter := - 1\<rparr>"

definition PidState_Enable :: "'e pid_state \<Rightarrow> 'e pid_state" where
  "PidState_Enable d = d\<lparr>pd_enable := True\<rparr>"

definition PidState_Disable :: "('e, 'a, 'v, 'b) es \<Rightarrow> 'e pid_state \<Rightarrow> 'e pid_state" where
  "PidState_Disable P d = (if \<not> pd_enable d then d else (PidState_ResetState P d)\<lparr>pd_enable := False\<rparr>)"

definition PidState_Flush ::
  "('e, 'a, 'v, 'b) es \<Rightarrow> timestamp_unroller \<Rightarrow> 'e pid_state \<Rightarrow>
   (('a, 'v, 'b) section_event list \<times> timestamp_unroller \<times> 'e pid_state) option" where
  "PidState_Flush P u d =
     map_option (\<lambda>(events, u, p). (events, u, PidState_ResetState P (d\<lparr>pd_section_parser := p\<rparr>)))
       (section_Flush P u (pd_section_parser d))"

definition PushTsPacket ::
  "(nat \<Rightarrow> u8) \<Rightarrow> ('e, 'a, 'v, 'b) es \<Rightarrow> ts_packet \<Rightarrow> u8 list \<Rightarrow> timestamp_unroller \<Rightarrow> 'e pid_state \<Rightarrow>
   (bool \<times> ('a, 'v, 'b) section_event list \<times> timestamp_unroller \<times> 'e pid_state) option" where
  "PushTsPacket fresh P ts_packet ts_buffer u d =
     (if ts_pid ts_packet \<noteq> pd_pid d then None
      else if \<not> pd_enable d then Some (True, [], u, d)
      else
        let expected_continuity_counter = (pd_continuity_counter d + 1) mod 16 in
        if pd_continuity_counter d \<ge> 0 \<and> ts_continuity_counter ts_packet \<noteq> expected_continuity_counter
        then Some (False, [], u, d)
        else
          map_option (\<lambda>(status, events, u, p).
              let d = d\<lparr>pd_section_parser := p\<rparr>
              in (status, events, u, if \<not> status then PidState_ResetState P d else d))
            (section_Parse fresh P (ts_payload_unit_start_indicator ts_packet)
               (mem_slice (nat (ts_payload ts_packet)) (nat (ts_payload_size ts_packet)) ts_buffer)
               u (pd_section_parser d)))"

section \<open>The stream parser\<close>

datatype es_kind = H264_Es | Adts_Es bool | Mpeg1Audio_Es

record ('a, 'v, 'b) buffer_queue_with_config =
  bq_is_config_sent :: bool
  bq_audio_config :: 'a
  bq_audio_queue :: "'b list"
  bq_video_config :: 'v
  bq_video_queue :: "'b list"

record ('e, 'a, 'v, 'b, 'w) mp2t_client =
  cl_es :: "('e, 'a, 'v, 'b) es"
  cl_new_es :: "es_kind \<Rightarrow> 'e"
  cl_audio_none :: 'a
  cl_audio_valid :: "'a \<Rightarrow> bool"
  cl_video_none :: 'v
  cl_video_valid :: "'v \<Rightarrow> bool"
  cl_init_cb :: "nat \<Rightarrow> nat \<Rightarrow> 'w \<Rightarrow> 'w"
  cl_config_cb :: "'a option \<Rightarrow> 'v option \<Rightarrow> 'w \<Rightarrow> bool \<times> 'w"
  cl_new_buffers_cb :: "'b list \<Rightarrow> 'b list \<Rightarrow> 'w \<Rightarrow> bool \<times> 'w"
  cl_new_segment_cb :: "'w \<Rightarrow> 'w"

record ('e, 'a, 'v, 'b, 'w) mp2t_parser =
  mp_sbr_in_mimetype :: bool
  mp_ts_byte_queue :: byte_queue
  mp_pids :: "(int \<times> 'e pid_state) list"
  mp_selected_audio_pid :: int
  mp_selected_video_pid :: int
  mp_buffer_queue_chain :: "('a, 'v, 'b) buffer_queue_with_config list"
  mp_is_initialized :: bool
  mp_segment_started :: bool
  mp_timestamp_unroller :: timestamp_unroller
  mp_client :: 'w

definition Mp2tStreamParser_init :: "(nat \<Rightarrow> u8) \<Rightarrow> bool \<Rightarrow> 'w \<Rightarrow> ('e, 'a, 'v, 'b, 'w) mp2t_parser" where
  "Mp2tStreamParser_init fresh sbr w =
     \<lparr>mp_sbr_in_mimetype = sbr, mp_ts_byte_queue = ByteQueue_init fresh, mp_pids = [],
      mp_selected_audio_pid = - 1, mp_selected_video_pid = - 1, mp_buffer_queue_chain = [],
      mp_is_initialized = False, mp_segment_started = False,
      mp_timestamp_unroller = TimestampUnroller_init, mp_client = w\<rparr>"

subsection \<open>Registration\<close>

definition map_entry :: "int \<Rightarrow> ('d \<Rightarrow> 'd) \<Rightarrow> (int \<times> 'd) list \<Rightarrow> (int \<times> 'd) list" where
  "map_entry k f m = map (\<lambda>e. if fst e = k then (k, f (snd e)) else e) m"

text \<open>The loop over the PIDs, in ascending order; an iterator at the end is \<open>None\<close>.\<close>

fun lowest_pid :: "pid_type \<Rightarrow> (int \<times> 'e pid_state) list \<Rightarrow> int option \<Rightarrow> int option" where
  "lowest_pid type [] lowest = lowest"
| "lowest_pid type (e # es) lowest =
     lowest_pid type es
       (if pd_pid_type (snd e) = type \<and> (lowest = None \<or> fst e < the lowest) then Some (fst e) else lowest)"

definition UpdatePidFilter ::
  "('e, 'a, 'v, 'b) es \<Rightarrow> ('e, 'a, 'v, 'b, 'w) mp2t_parser \<Rightarrow> ('e, 'a, 'v, 'b, 'w) mp2t_parser" where
  "UpdatePidFilter P s =
     (let lowest_audio_pid = lowest_pid kPidAudioPes (mp_pids s) None;
          lowest_video_pid = lowest_pid kPidVideoPes (mp_pids s) None;
          s = (case lowest_audio_pid of
                 None \<Rightarrow> s
               | Some pid \<Rightarrow> s\<lparr>mp_pids := map_entry pid PidState_Enable (mp_pids s), mp_selected_audio_pid := pid\<rparr>);
          s = (case lowest_video_pid of
                 None \<Rightarrow> s
               | Some pid \<Rightarrow> s\<lparr>mp_pids := map_entry pid PidState_Enable (mp_pids s), mp_selected_video_pid := pid\<rparr>)
      in s\<lparr>mp_pids := map (\<lambda>(pid, d).
             if Some pid \<noteq> lowest_audio_pid \<and> Some pid \<noteq> lowest_video_pid \<and>
                (pd_pid_type d = kPidAudioPes \<or> pd_pid_type d = kPidVideoPes)
             then (pid, PidState_Disable P d) else (pid, d)) (mp_pids s)\<rparr>)"

definition RegisterPmt ::
  "(nat \<Rightarrow> u8) \<Rightarrow> int \<Rightarrow> int \<Rightarrow> ('e, 'a, 'v, 'b, 'w) mp2t_parser \<Rightarrow> ('e, 'a, 'v, 'b, 'w) mp2t_parser" where
  "RegisterPmt fresh program_number pmt_pid s =
     (if \<exists>e\<in>set (mp_pids s). pd_pid_type (snd e) = kPidPmt then s
      else s\<lparr>mp_pids := map_insert pmt_pid
             (PidState_Enable (PidState_init pmt_pid kPidPmt (Pmt_Section (TsSectionPsi_init fresh ())))) (mp_pids s)\<rparr>)"

definition kStreamTypeMpeg1Audio :: int where "kStreamTypeMpeg1Audio = 0x3"
definition kStreamTypeMpeg2Audio :: int where "kStreamTypeMpeg2Audio = 0x4"
definition kStreamTypeAAC :: int where "kStreamTypeAAC = 0xf"
definition kStreamTypeAVC :: int where "kStreamTypeAVC = 0x1b"

definition es_kind_of :: "bool \<Rightarrow> int \<Rightarrow> (es_kind \<times> bool) option" where
  "es_kind_of sbr stream_type =
     (if stream_type = kStreamTypeAVC then Some (H264_Es, False)
      else if stream_type = kStreamTypeAAC then Some (Adts_Es sbr, True)
      else if stream_type = kStreamTypeMpeg1Audio \<or> stream_type = kStreamTypeMpeg2Audio then Some (Mpeg1Audio_Es, True)
      else None)"

definition RegisterPes ::
  "(nat \<Rightarrow> u8) \<Rightarrow> ('e, 'a, 'v, 'b, 'w) mp2t_client \<Rightarrow> int \<Rightarrow> int \<Rightarrow> ('e, 'a, 'v, 'b, 'w) mp2t_parser \<Rightarrow>
   ('e, 'a, 'v, 'b, 'w) mp2t_parser" where
  "RegisterPes fresh C pes_pid stream_type s =
     (if map_of (mp_pids s) pes_pid \<noteq> None then s
      else
        (case es_kind_of (mp_sbr_in_mimetype s) stream_type of
           None \<Rightarrow> s
         | Some (kind, is_audio) \<Rightarrow>
             let pid_type = (if is_audio then kPidAudioPes else kPidVideoPes);
                 d = PidState_init pes_pid pid_type (Pes_Section (TsSectionPes_init fresh (cl_new_es C kind)))
             in UpdatePidFilter (cl_es C) (s\<lparr>mp_pids := map_insert pes_pid d (mp_pids s)\<rparr>)))"

subsection \<open>Configurations and buffers\<close>

text \<open>The loop that replaces the configurations before the first valid one.\<close>

fun replace_invalid_video ::
  "('v \<Rightarrow> bool) \<Rightarrow> 'v \<Rightarrow> ('a, 'v, 'b) buffer_queue_with_config list \<Rightarrow> ('a, 'v, 'b) buffer_queue_with_config list" where
  "replace_invalid_video valid c [] = []"
| "replace_invalid_video valid c (q # qs) =
     (if valid (bq_video_config q) then q # qs else q\<lparr>bq_video_config := c\<rparr> # replace_invalid_video valid c qs)"

fun replace_invalid_audio ::
  "('a \<Rightarrow> bool) \<Rightarrow> 'a \<Rightarrow> ('a, 'v, 'b) buffer_queue_with_config list \<Rightarrow> ('a, 'v, 'b) buffer_queue_with_config list" where
  "replace_invalid_audio valid c [] = []"
| "replace_invalid_audio valid c (q # qs) =
     (if valid (bq_audio_config q) then q # qs else q\<lparr>bq_audio_config := c\<rparr> # replace_invalid_audio valid c qs)"

definition OnVideoConfigChanged ::
  "('e, 'a, 'v, 'b, 'w) mp2t_client \<Rightarrow> int \<Rightarrow> 'v \<Rightarrow> ('e, 'a, 'v, 'b, 'w) mp2t_parser \<Rightarrow> ('e, 'a, 'v, 'b, 'w) mp2t_parser option" where
  "OnVideoConfigChanged C pes_pid config s =
     (if pes_pid \<noteq> mp_selected_video_pid s \<or> \<not> cl_video_valid C config then None
      else
        let chain = mp_buffer_queue_chain s;
            chain = (if chain \<noteq> [] \<and> \<not> cl_video_valid C (bq_video_config (last chain)) then
                if bq_video_queue (last chain) \<noteq> [] then None
                else Some (butlast chain @ [(last chain)\<lparr>bq_video_config := config\<rparr>])
              else Some (chain @ [\<lparr>bq_is_config_sent = False,
                bq_audio_config = (if chain = [] then cl_audio_none C else bq_audio_config (last chain)),
                bq_audio_queue = [], bq_video_config = config, bq_video_queue = []\<rparr>]))
        in map_option (\<lambda>chain. s\<lparr>mp_buffer_queue_chain := replace_invalid_video (cl_video_valid C) config chain\<rparr>) chain)"

definition OnAudioConfigChanged ::
  "('e, 'a, 'v, 'b, 'w) mp2t_client \<Rightarrow> int \<Rightarrow> 'a \<Rightarrow> ('e, 'a, 'v, 'b, 'w) mp2t_parser \<Rightarrow> ('e, 'a, 'v, 'b, 'w) mp2t_parser option" where
  "OnAudioConfigChanged C pes_pid config s =
     (if pes_pid \<noteq> mp_selected_audio_pid s \<or> \<not> cl_audio_valid C config then None
      else
        let chain = mp_buffer_queue_chain s;
            chain = (if chain \<noteq> [] \<and> \<not> cl_audio_valid C (bq_audio_config (last chain)) then
                if bq_audio_queue (last chain) \<noteq> [] then None
                else Some (butlast chain @ [(last chain)\<lparr>bq_audio_config := config\<rparr>])
              else Some (chain @ [\<lparr>bq_is_config_sent = False, bq_audio_config = config, bq_audio_queue = [],
                bq_video_config = (if chain = [] then cl_video_none C else bq_video_config (last chain)),
                bq_video_queue = []\<rparr>]))
        in map_option (\<lambda>chain. s\<lparr>mp_buffer_queue_chain := replace_invalid_audio (cl_audio_valid C) config chain\<rparr>) chain)"

definition OnEmitAudioBuffer ::
  "int \<Rightarrow> 'b \<Rightarrow> ('e, 'a, 'v, 'b, 'w) mp2t_parser \<Rightarrow> ('e, 'a, 'v, 'b, 'w) mp2t_parser option" where
  "OnEmitAudioBuffer pes_pid b s =
     (if pes_pid \<noteq> mp_selected_audio_pid s then None
      else let chain = mp_buffer_queue_chain s in
        if chain = [] then Some s
        else Some (s\<lparr>mp_buffer_queue_chain :=
          butlast chain @ [(last chain)\<lparr>bq_audio_queue := bq_audio_queue (last chain) @ [b]\<rparr>]\<rparr>))"

text \<open>Without any configuration this is \<open>NOTREACHED\<close>.\<close>

definition OnEmitVideoBuffer ::
  "int \<Rightarrow> 'b \<Rightarrow> ('e, 'a, 'v, 'b, 'w) mp2t_parser \<Rightarrow> ('e, 'a, 'v, 'b, 'w) mp2t_parser option" where
  "OnEmitVideoBuffer pes_pid b s =
     (if pes_pid \<noteq> mp_selected_video_pid s then None
      else let chain = mp_buffer_queue_chain s in
        if chain = [] then None
        else Some (s\<lparr>mp_buffer_queue_chain :=
          butlast chain @ [(last chain)\<lparr>bq_video_queue := bq_video_queue (last chain) @ [b]\<rparr>]\<rparr>))"

text \<open>The configurations that \<open>GenerateMediaTrackInfo\<close> puts into the tracks.\<close>

definition run_config_cb ::
  "('e, 'a, 'v, 'b, 'w) mp2t_client \<Rightarrow> ('a, 'v, 'b) buffer_queue_with_config \<Rightarrow> 'w \<Rightarrow> bool \<times> 'w" where
  "run_config_cb C q w =
     cl_config_cb C (if cl_audio_valid C (bq_audio_config q) then Some (bq_audio_config q) else None)
       (if cl_video_valid C (bq_video_config q) then Some (bq_video_config q) else None) w"

definition FinishInitializationIfNeeded ::
  "('e, 'a, 'v, 'b, 'w) mp2t_client \<Rightarrow> ('e, 'a, 'v, 'b, 'w) mp2t_parser \<Rightarrow> bool \<times> ('e, 'a, 'v, 'b, 'w) mp2t_parser" where
  "FinishInitializationIfNeeded C s =
     (if mp_is_initialized s then (True, s)
      else case mp_buffer_queue_chain s of
        [] \<Rightarrow> (True, s)
      | q # qs \<Rightarrow>
          if mp_selected_audio_pid s > 0 \<and> \<not> cl_audio_valid C (bq_audio_config q) then (True, s)
          else if mp_selected_video_pid s > 0 \<and> \<not> cl_video_valid C (bq_video_config q) then (True, s)
          else
            let (ok, w) = run_config_cb C q (mp_client s); s = s\<lparr>mp_client := w\<rparr> in
            if \<not> ok then (False, s)
            else
              let w = cl_init_cb C (if cl_audio_valid C (bq_audio_config q) then 1 else 0)
                        (if cl_video_valid C (bq_video_config q) then 1 else 0) (mp_client s)
              in (True, s\<lparr>mp_client := w, mp_is_initialized := True,
                         mp_buffer_queue_chain := q\<lparr>bq_is_config_sent := True\<rparr> # qs\<rparr>))"

text \<open>The loop of \<open>EmitRemainingBuffers\<close>: the remaining chain is returned, empty if all went well.\<close>

fun emit_loop ::
  "('e, 'a, 'v, 'b, 'w) mp2t_client \<Rightarrow> ('a, 'v, 'b) buffer_queue_with_config list \<Rightarrow> bool \<Rightarrow> 'w \<Rightarrow>
   bool \<times> ('a, 'v, 'b) buffer_queue_with_config list \<times> bool \<times> 'w" where
  "emit_loop C [] segment_started w = (True, [], segment_started, w)"
| "emit_loop C (q # qs) segment_started w =
     (let w = (if \<not> segment_started then cl_new_segment_cb C w else w);
          (ok, q, w) = (if \<not> bq_is_config_sent q then
              let (ok, w) = run_config_cb C q w in (ok, if ok then q\<lparr>bq_is_config_sent := True\<rparr> else q, w)
            else (True, q, w))
      in if \<not> ok then (False, q # qs, True, w)
         else
           let (ok, w) = (if bq_audio_queue q \<noteq> [] \<or> bq_video_queue q \<noteq> []
                 then cl_new_buffers_cb C (bq_audio_queue q) (bq_video_queue q) w else (True, w))
           in if \<not> ok then (False, q # qs, True, w)
              else emit_loop C qs True w)"

definition EmitRemainingBuffers ::
  "('e, 'a, 'v, 'b, 'w) mp2t_client \<Rightarrow> ('e, 'a, 'v, 'b, 'w) mp2t_parser \<Rightarrow> bool \<times> ('e, 'a, 'v, 'b, 'w) mp2t_parser" where
  "EmitRemainingBuffers C s =
     (let chain = mp_buffer_queue_chain s in
      if \<not> mp_is_initialized s then (True, s)
      else if chain = [] then (True, s)
      else
        let last_audio_config = bq_audio_config (last chain); last_video_config = bq_video_config (last chain) in
        if mp_selected_audio_pid s \<ge> 0 \<and> \<not> cl_audio_valid C last_audio_config then (True, s)
        else if mp_selected_video_pid s \<ge> 0 \<and> \<not> cl_video_valid C last_video_config then (True, s)
        else
          let (ok, rest, started, w) = emit_loop C chain (mp_segment_started s) (mp_client s);
              s = s\<lparr>mp_buffer_queue_chain := rest, mp_segment_started := started, mp_client := w\<rparr>
          in if \<not> ok then (False, s)
             else (True, s\<lparr>mp_buffer_queue_chain := rest @
               [\<lparr>bq_is_config_sent = True, bq_audio_config = last_audio_config, bq_audio_queue = [],
                 bq_video_config = last_video_config, bq_video_queue = []\<rparr>]\<rparr>))"

subsection \<open>Parsing\<close>

text \<open>The callbacks of the section parser of \<open>pid\<close>.\<close>

definition handle_event ::
  "(nat \<Rightarrow> u8) \<Rightarrow> ('e, 'a, 'v, 'b, 'w) mp2t_client \<Rightarrow> int \<Rightarrow> ('a, 'v, 'b) section_event \<Rightarrow>
   ('e, 'a, 'v, 'b, 'w) mp2t_parser \<Rightarrow> ('e, 'a, 'v, 'b, 'w) mp2t_parser option" where
  "handle_event fresh C pid event s =
     (case event of
        Register_Pmt_Event program_number pmt_pid \<Rightarrow> Some (RegisterPmt fresh program_number pmt_pid s)
      | Register_Pes_Event pes_pid stream_type _ \<Rightarrow> Some (RegisterPes fresh C pes_pid stream_type s)
      | Es_Event (Audio_Config_Event c) \<Rightarrow> OnAudioConfigChanged C pid c s
      | Es_Event (Video_Config_Event c) \<Rightarrow> OnVideoConfigChanged C pid c s
      | Es_Event (Audio_Buffer_Event b) \<Rightarrow> OnEmitAudioBuffer pid b s
      | Es_Event (Video_Buffer_Event b) \<Rightarrow> OnEmitVideoBuffer pid b s)"

fun handle_events ::
  "(nat \<Rightarrow> u8) \<Rightarrow> ('e, 'a, 'v, 'b, 'w) mp2t_client \<Rightarrow> int \<Rightarrow> ('a, 'v, 'b) section_event list \<Rightarrow>
   ('e, 'a, 'v, 'b, 'w) mp2t_parser \<Rightarrow> ('e, 'a, 'v, 'b, 'w) mp2t_parser option" where
  "handle_events fresh C pid [] s = Some s"
| "handle_events fresh C pid (event # events) s =
     Option.bind (handle_event fresh C pid event s) (handle_events fresh C pid events)"

text \<open>The part of the loop that passes a packet to its PID; the PAT state is created if needed.\<close>

definition push_packet ::
  "(nat \<Rightarrow> u8) \<Rightarrow> ('e, 'a, 'v, 'b, 'w) mp2t_client \<Rightarrow> ts_packet \<Rightarrow> u8 list \<Rightarrow>
   ('e, 'a, 'v, 'b, 'w) mp2t_parser \<Rightarrow> (bool \<times> ('e, 'a, 'v, 'b, 'w) mp2t_parser) option" where
  "push_packet fresh C ts_packet ts_buffer s =
     (let pid = ts_pid ts_packet;
          s = (if map_of (mp_pids s) pid = None \<and> pid = 0 then
                 s\<lparr>mp_pids := map_insert pid
                   (PidState_Enable (PidState_init pid kPidPat (Pat_Section (TsSectionPsi_init fresh (- 1))))) (mp_pids s)\<rparr>
               else s)
      in case map_of (mp_pids s) pid of
           None \<Rightarrow> Some (True, s)
         | Some d \<Rightarrow>
             (case PushTsPacket fresh (cl_es C) ts_packet ts_buffer (mp_timestamp_unroller s) d of
                None \<Rightarrow> None
              | Some (ok, events, u, d) \<Rightarrow>
                  map_option (\<lambda>s. (ok, s))
                    (handle_events fresh C pid events
                       (s\<lparr>mp_timestamp_unroller := u, mp_pids := map_entry pid (\<lambda>_. d) (mp_pids s)\<rparr>))))"

text \<open>One round of the loop.\<close>

datatype 's round = Break 's | Fail 's | Next 's

definition pop_bytes ::
  "nat \<Rightarrow> ('e, 'a, 'v, 'b, 'w) mp2t_parser \<Rightarrow> ('e, 'a, 'v, 'b, 'w) mp2t_parser round option" where
  "pop_bytes n s = map_option (\<lambda>q. Next (s\<lparr>mp_ts_byte_queue := q\<rparr>)) (ByteQueue_Pop n (mp_ts_byte_queue s))"

definition parse_round ::
  "(nat \<Rightarrow> u8) \<Rightarrow> ('e, 'a, 'v, 'b, 'w) mp2t_client \<Rightarrow>
   ('e, 'a, 'v, 'b, 'w) mp2t_parser \<Rightarrow> ('e, 'a, 'v, 'b, 'w) mp2t_parser round option" where
  "parse_round fresh C s =
     (let (block, ts_buffer_size) = ByteQueue_Peek (mp_ts_byte_queue s); ts_buffer = take ts_buffer_size block in
      if ts_buffer_size < kPacketSize then Some (Break s)
      else
        let skipped_bytes = TsPacket_Sync ts_buffer in
        if skipped_bytes > 0 then pop_bytes skipped_bytes s
        else
          (case TsPacket_Parse ts_buffer of
             None \<Rightarrow> None
           | Some None \<Rightarrow> pop_bytes 1 s
           | Some (Some ts_packet) \<Rightarrow>
               (case push_packet fresh C ts_packet ts_buffer s of
                  None \<Rightarrow> None
                | Some (ok, s) \<Rightarrow> if \<not> ok then Some (Fail s) else pop_bytes kPacketSize s)))"

text \<open>The callbacks touch the registrations and the buffer queues, not the received bytes.\<close>

lemma UpdatePidFilter_queue [simp]: "mp_ts_byte_queue (UpdatePidFilter P s) = mp_ts_byte_queue s"
  by (simp add: UpdatePidFilter_def Let_def split: option.split)

lemma handle_event_queue:
  "handle_event fresh C pid event s = Some s' \<Longrightarrow> mp_ts_byte_queue s' = mp_ts_byte_queue s"
  by (auto simp: handle_event_def RegisterPmt_def RegisterPes_def OnAudioConfigChanged_def OnVideoConfigChanged_def
      OnEmitAudioBuffer_def OnEmitVideoBuffer_def Let_def
      split: section_event.splits es_event.splits if_splits option.splits prod.splits)

lemma handle_events_queue:
  "handle_events fresh C pid events s = Some s' \<Longrightarrow> mp_ts_byte_queue s' = mp_ts_byte_queue s"
  by (induction events arbitrary: s)
     (auto split: Option.bind_splits dest!: handle_event_queue)

lemma push_packet_queue:
  "push_packet fresh C ts_packet ts_buffer s = Some (ok, s') \<Longrightarrow> mp_ts_byte_queue s' = mp_ts_byte_queue s"
  by (auto simp: push_packet_def Let_def split: option.splits if_splits prod.splits dest!: handle_events_queue)

text \<open>Every round that continues has popped at least a byte.\<close>

lemma parse_round_pops:
  assumes "parse_round fresh C s = Some (Next s')"
  obtains n where "0 < n" "n \<le> used (mp_ts_byte_queue s)" "ByteQueue_Pop n (mp_ts_byte_queue s) = Some (mp_ts_byte_queue s')"
proof -
  note result = that
  have popped: thesis
    if pop: "pop_bytes n t = Some (Next s')" and n: "0 < n" and t: "mp_ts_byte_queue t = mp_ts_byte_queue s" for n t
  proof -
    obtain q where q: "ByteQueue_Pop n (mp_ts_byte_queue s) = Some q" "s' = t\<lparr>mp_ts_byte_queue := q\<rparr>"
      using pop t by (auto simp: pop_bytes_def)
    then have "n \<le> used (mp_ts_byte_queue s)" by (simp add: ByteQueue_Pop_def split: if_splits)
    then show thesis using n q result [of n] by simp
  qed
  show thesis
    using assms
    by (auto simp: parse_round_def Let_def ByteQueue_Peek_def kPacketSize_def
        split: if_splits option.splits prod.splits dest: push_packet_queue intro: popped)
qed

function ts_parse_loop ::
  "(nat \<Rightarrow> u8) \<Rightarrow> ('e, 'a, 'v, 'b, 'w) mp2t_client \<Rightarrow>
   ('e, 'a, 'v, 'b, 'w) mp2t_parser \<Rightarrow> (bool \<times> ('e, 'a, 'v, 'b, 'w) mp2t_parser) option" where
  "ts_parse_loop fresh C s =
     (case parse_round fresh C s of
        None \<Rightarrow> None
      | Some (Break s) \<Rightarrow> Some (True, s)
      | Some (Fail s) \<Rightarrow> Some (False, s)
      | Some (Next s) \<Rightarrow> ts_parse_loop fresh C s)"
  by pat_completeness auto

lemma ByteQueue_Pop_used: "ByteQueue_Pop n q = Some q' \<Longrightarrow> n \<le> used q \<and> used q' = used q - n"
  by (auto simp: ByteQueue_Pop_def Let_def split: if_splits)

lemma parse_round_used:
  "parse_round fresh C s = Some (Next s') \<Longrightarrow> used (mp_ts_byte_queue s') < used (mp_ts_byte_queue s)"
  by (erule parse_round_pops) (auto dest: ByteQueue_Pop_used)

termination ts_parse_loop
  by (relation "measure (\<lambda>(fresh, C, s). used (mp_ts_byte_queue s))") (auto dest: parse_round_used)

declare ts_parse_loop.simps [simp del]

definition Mp2tStreamParser_Parse ::
  "(nat \<Rightarrow> u8) \<Rightarrow> ('e, 'a, 'v, 'b, 'w) mp2t_client \<Rightarrow> u8 list \<Rightarrow>
   ('e, 'a, 'v, 'b, 'w) mp2t_parser \<Rightarrow> (bool \<times> ('e, 'a, 'v, 'b, 'w) mp2t_parser) option" where
  "Mp2tStreamParser_Parse fresh C data s =
     (case ByteQueue_Push fresh data (mp_ts_byte_queue s) of
        None \<Rightarrow> None
      | Some q \<Rightarrow>
          map_option (\<lambda>(ok, s).
              if \<not> ok then (False, s)
              else
                let (ok, s) = FinishInitializationIfNeeded C s
                in if \<not> ok then (False, s) else EmitRemainingBuffers C s)
            (ts_parse_loop fresh C (s\<lparr>mp_ts_byte_queue := q\<rparr>)))"

subsection \<open>Flushing\<close>

fun flush_pids ::
  "(nat \<Rightarrow> u8) \<Rightarrow> ('e, 'a, 'v, 'b, 'w) mp2t_client \<Rightarrow> (int \<times> 'e pid_state) list \<Rightarrow>
   ('e, 'a, 'v, 'b, 'w) mp2t_parser \<Rightarrow> ('e, 'a, 'v, 'b, 'w) mp2t_parser option" where
  "flush_pids fresh C [] s = Some s"
| "flush_pids fresh C ((pid, d) # ps) s =
     (case PidState_Flush (cl_es C) (mp_timestamp_unroller s) d of
        None \<Rightarrow> None
      | Some (events, u, d) \<Rightarrow>
          Option.bind
            (handle_events fresh C pid events
               (s\<lparr>mp_timestamp_unroller := u, mp_pids := map_entry pid (\<lambda>_. d) (mp_pids s)\<rparr>))
            (flush_pids fresh C ps))"

text \<open>Buffers whose configuration was not sent are dropped; the result of emitting the others is ignored.\<close>

definition Mp2tStreamParser_Flush ::
  "(nat \<Rightarrow> u8) \<Rightarrow> ('e, 'a, 'v, 'b, 'w) mp2t_client \<Rightarrow>
   ('e, 'a, 'v, 'b, 'w) mp2t_parser \<Rightarrow> ('e, 'a, 'v, 'b, 'w) mp2t_parser option" where
  "Mp2tStreamParser_Flush fresh C s =
     map_option (\<lambda>s.
         let s = s\<lparr>mp_pids := []\<rparr>;
             s = s\<lparr>mp_buffer_queue_chain := takeWhile bq_is_config_sent (mp_buffer_queue_chain s)\<rparr>;
             (_, s) = EmitRemainingBuffers C s
         in s\<lparr>mp_buffer_queue_chain := [], mp_segment_started := False,
              mp_ts_byte_queue := ByteQueue_Reset (mp_ts_byte_queue s),
              mp_selected_audio_pid := - 1, mp_selected_video_pid := - 1,
              mp_timestamp_unroller := TimestampUnroller_Reset (mp_timestamp_unroller s)\<rparr>)
       (flush_pids fresh C (mp_pids s) s)"

section \<open>The loop\<close>

text \<open>The rounds that continue the loop.\<close>

inductive rounds ::
  "(nat \<Rightarrow> u8) \<Rightarrow> ('e, 'a, 'v, 'b, 'w) mp2t_client \<Rightarrow> ('e, 'a, 'v, 'b, 'w) mp2t_parser \<Rightarrow> nat \<Rightarrow>
   ('e, 'a, 'v, 'b, 'w) mp2t_parser \<Rightarrow> bool" for fresh C where
  rounds_0: "rounds fresh C s 0 s"
| rounds_Suc: "parse_round fresh C s = Some (Next s') \<Longrightarrow> rounds fresh C s' n t \<Longrightarrow> rounds fresh C s (Suc n) t"

lemma rounds_contents:
  assumes "rounds fresh C s n t" "ByteQueue_ok (mp_ts_byte_queue s)"
  shows "ByteQueue_ok (mp_ts_byte_queue t) \<and>
    n + used (mp_ts_byte_queue t) \<le> used (mp_ts_byte_queue s) \<and>
    (\<exists>k. ByteQueue_contents (mp_ts_byte_queue t) = drop k (ByteQueue_contents (mp_ts_byte_queue s)))"
  using assms
proof (induction rule: rounds.induct)
  case (rounds_0 s)
  then show ?case by (auto intro: exI [of _ 0])
next
  case (rounds_Suc s s' n t)
  obtain k where k: "0 < k" "k \<le> used (mp_ts_byte_queue s)" "ByteQueue_Pop k (mp_ts_byte_queue s) = Some (mp_ts_byte_queue s')"
    using parse_round_pops [OF rounds_Suc.hyps(1)] by blast
  then have s': "ByteQueue_ok (mp_ts_byte_queue s')"
    "ByteQueue_contents (mp_ts_byte_queue s') = drop k (ByteQueue_contents (mp_ts_byte_queue s))"
    "used (mp_ts_byte_queue s') = used (mp_ts_byte_queue s) - k"
    using ByteQueue_Pop_correct [OF rounds_Suc.prems k(2)] by auto
  obtain j where "ByteQueue_contents (mp_ts_byte_queue t) = drop j (ByteQueue_contents (mp_ts_byte_queue s'))"
    using rounds_Suc.IH s'(1) by blast
  then have "ByteQueue_contents (mp_ts_byte_queue t) = drop (j + k) (ByteQueue_contents (mp_ts_byte_queue s))"
    using s'(2) by simp
  then show ?case using rounds_Suc.IH s' k by fastforce
qed

text \<open>The loop ends with a last round, which does not continue.\<close>

lemma ts_parse_loop_rounds:
  "\<exists>n t. rounds fresh C s n t \<and> ts_parse_loop fresh C s =
     (case parse_round fresh C t of
        None \<Rightarrow> None | Some (Break u) \<Rightarrow> Some (True, u) | Some (Fail u) \<Rightarrow> Some (False, u) | Some (Next u) \<Rightarrow> None) \<and>
     (\<forall>u. parse_round fresh C t \<noteq> Some (Next u))"
proof (induction fresh C s rule: ts_parse_loop.induct)
  case (1 fresh C s)
  show ?case
  proof (cases "\<exists>u. parse_round fresh C s = Some (Next u)")
    case True
    then obtain u where u: "parse_round fresh C s = Some (Next u)" by blast
    obtain n t where "rounds fresh C u n t" "ts_parse_loop fresh C u =
     (case parse_round fresh C t of
        None \<Rightarrow> None | Some (Break u) \<Rightarrow> Some (True, u) | Some (Fail u) \<Rightarrow> Some (False, u) | Some (Next u) \<Rightarrow> None)"
      "\<forall>v. parse_round fresh C t \<noteq> Some (Next v)"
      using "1.IH" [OF u refl] by blast
    moreover have "ts_parse_loop fresh C s = ts_parse_loop fresh C u" using u by (subst ts_parse_loop.simps) simp
    ultimately show ?thesis using rounds_Suc [OF u] by (intro exI [of _ "Suc n"] exI [of _ t]) simp
  next
    case False
    have "ts_parse_loop fresh C s =
     (case parse_round fresh C s of
        None \<Rightarrow> None | Some (Break u) \<Rightarrow> Some (True, u) | Some (Fail u) \<Rightarrow> Some (False, u) | Some (Next u) \<Rightarrow> None)"
      using False by (subst ts_parse_loop.simps) (auto split: option.split round.split)
    then show ?thesis using False rounds_0 [of fresh C s] by blast
  qed
qed

lemma parse_round_Break: "parse_round fresh C s = Some (Break t) \<Longrightarrow> t = s \<and> used (mp_ts_byte_queue s) < kPacketSize"
  by (auto simp: parse_round_def Let_def ByteQueue_Peek_def pop_bytes_def split: if_splits option.splits prod.splits)

lemma parse_round_Fail: "parse_round fresh C s = Some (Fail t) \<Longrightarrow> mp_ts_byte_queue t = mp_ts_byte_queue s"
  by (auto simp: parse_round_def Let_def pop_bytes_def split: if_splits option.splits prod.splits dest: push_packet_queue)

lemma emit_queue [simp]:
  "mp_ts_byte_queue (snd (FinishInitializationIfNeeded C s)) = mp_ts_byte_queue s"
  "mp_ts_byte_queue (snd (EmitRemainingBuffers C s)) = mp_ts_byte_queue s"
  by (auto simp: FinishInitializationIfNeeded_def EmitRemainingBuffers_def Let_def
      split: list.split prod.split)

definition received :: "u8 list \<Rightarrow> ('e, 'a, 'v, 'b, 'w) mp2t_parser \<Rightarrow> u8 list" where
  "received data s = ByteQueue_contents (mp_ts_byte_queue s) @ data"

lemma Parse_after_loop:
  assumes q: "ByteQueue_Push fresh data (mp_ts_byte_queue s) = Some q"
    and l: "ts_parse_loop fresh C (s\<lparr>mp_ts_byte_queue := q\<rparr>) = Some (b, u)"
  shows "\<exists>ok s'. Mp2tStreamParser_Parse fresh C data s = Some (ok, s') \<and> (ok \<longrightarrow> b) \<and>
    mp_ts_byte_queue s' = mp_ts_byte_queue u"
proof (cases "FinishInitializationIfNeeded C u")
  case (Pair ok v)
  then have "mp_ts_byte_queue v = mp_ts_byte_queue u" using emit_queue(1) [of C u] by simp
  then show ?thesis
    using assms Pair emit_queue(2) [of C v]
    by (cases "EmitRemainingBuffers C v") (auto simp: Mp2tStreamParser_Parse_def Let_def)
qed

lemma rounds_loop: "rounds fresh C s n t \<Longrightarrow> ts_parse_loop fresh C s = ts_parse_loop fresh C t"
proof (induction rule: rounds.induct)
  case (rounds_Suc s s' n t)
  then show ?case by (subst ts_parse_loop.simps) simp
qed simp

lemma Parse_None_iff:
  assumes q: "ByteQueue_Push fresh data (mp_ts_byte_queue s) = Some q"
  shows "Mp2tStreamParser_Parse fresh C data s = None \<longleftrightarrow>
    (\<exists>n t. rounds fresh C (s\<lparr>mp_ts_byte_queue := q\<rparr>) n t \<and> parse_round fresh C t = None)"
proof -
  let ?s = "s\<lparr>mp_ts_byte_queue := q\<rparr>"
  have "Mp2tStreamParser_Parse fresh C data s = None \<longleftrightarrow> ts_parse_loop fresh C ?s = None"
    using q by (simp add: Mp2tStreamParser_Parse_def)
  also have "\<dots> \<longleftrightarrow> (\<exists>n t. rounds fresh C ?s n t \<and> parse_round fresh C t = None)"
  proof
    assume "ts_parse_loop fresh C ?s = None"
    then show "\<exists>n t. rounds fresh C ?s n t \<and> parse_round fresh C t = None"
      using ts_parse_loop_rounds [of fresh C ?s] by (fastforce split: option.splits round.splits)
  next
    assume "\<exists>n t. rounds fresh C ?s n t \<and> parse_round fresh C t = None"
    then obtain n t where t: "rounds fresh C ?s n t" "parse_round fresh C t = None" by blast
    have "ts_parse_loop fresh C t = None" using t(2) by (subst ts_parse_loop.simps) simp
    then show "ts_parse_loop fresh C ?s = None" using rounds_loop [OF t(1)] by simp
  qed
  finally show ?thesis .
qed

lemma Parse_rest:
  assumes ok: "ByteQueue_ok (mp_ts_byte_queue s)" and d: "data \<noteq> []"
    and fits: "length (received data s) < 2 ^ 31"
    and p: "Mp2tStreamParser_Parse fresh C data s = Some (b, s')"
  shows "ByteQueue_ok (mp_ts_byte_queue s') \<and>
    (\<exists>k. ByteQueue_contents (mp_ts_byte_queue s') = drop k (received data s)) \<and>
    (b \<longrightarrow> used (mp_ts_byte_queue s') < kPacketSize)"
proof -
  obtain q where q: "ByteQueue_Push fresh data (mp_ts_byte_queue s) = Some q" "ByteQueue_ok q"
      "ByteQueue_contents q = received data s"
    using ByteQueue_Push_correct [OF ok d] fits length_ByteQueue_contents [OF ok]
    by (fastforce simp: received_def)
  let ?s = "s\<lparr>mp_ts_byte_queue := q\<rparr>"
  obtain c u where l: "ts_parse_loop fresh C ?s = Some (c, u)" "b \<longrightarrow> c" "mp_ts_byte_queue s' = mp_ts_byte_queue u"
  proof (cases "ts_parse_loop fresh C ?s")
    case None
    then show thesis using p q(1) by (simp add: Mp2tStreamParser_Parse_def)
  next
    case (Some cu)
    then show thesis using Parse_after_loop [OF q(1)] p that by (cases cu) fastforce
  qed
  obtain n t where t: "rounds fresh C ?s n t" "ts_parse_loop fresh C ?s =
     (case parse_round fresh C t of
        None \<Rightarrow> None | Some (Break u) \<Rightarrow> Some (True, u) | Some (Fail u) \<Rightarrow> Some (False, u) | Some (Next u) \<Rightarrow> None)"
    using ts_parse_loop_rounds by blast
  then have "mp_ts_byte_queue u = mp_ts_byte_queue t \<and> (c \<longrightarrow> used (mp_ts_byte_queue u) < kPacketSize)"
    using l(1) by (auto split: option.splits round.splits dest: parse_round_Break parse_round_Fail)
  then show ?thesis using rounds_contents [OF t(1)] q(2,3) l(2,3) by auto
qed

text \<open>
  C31: \<open>Mp2tStreamParser::Parse\<close> ends: its loop runs at most once more than the bytes that it
  holds after the new data came in, so that it fails to return only where a round fails an
  assertion. What it leaves in its queue is the end of the received bytes, and less than one
  transport packet when it reports success.
\<close>

theorem Parse_terminates:
  assumes "ByteQueue_ok (mp_ts_byte_queue s)" "data \<noteq> []" "length (received data s) < 2 ^ 31"
  shows "\<exists>q. ByteQueue_Push fresh data (mp_ts_byte_queue s) = Some q \<and>
    (\<forall>n t. rounds fresh C (s\<lparr>mp_ts_byte_queue := q\<rparr>) n t \<longrightarrow> n \<le> length (received data s)) \<and>
    (if \<exists>n t. rounds fresh C (s\<lparr>mp_ts_byte_queue := q\<rparr>) n t \<and> parse_round fresh C t = None
     then Mp2tStreamParser_Parse fresh C data s = None
     else \<exists>ok s' k. Mp2tStreamParser_Parse fresh C data s = Some (ok, s') \<and>
       ByteQueue_ok (mp_ts_byte_queue s') \<and>
       ByteQueue_contents (mp_ts_byte_queue s') = drop k (received data s) \<and>
       (ok \<longrightarrow> used (mp_ts_byte_queue s') < kPacketSize))"
proof -
  obtain q where q: "ByteQueue_Push fresh data (mp_ts_byte_queue s) = Some q" "ByteQueue_ok q"
      "ByteQueue_contents q = received data s"
    using ByteQueue_Push_correct [OF assms(1,2)] assms(3) length_ByteQueue_contents [OF assms(1)]
    by (fastforce simp: received_def)
  have "n \<le> length (received data s)" if "rounds fresh C (s\<lparr>mp_ts_byte_queue := q\<rparr>) n t" for n t
    using rounds_contents [OF that] q length_ByteQueue_contents [OF q(2)] by simp
  moreover have "\<exists>ok s' k. Mp2tStreamParser_Parse fresh C data s = Some (ok, s') \<and>
       ByteQueue_ok (mp_ts_byte_queue s') \<and>
       ByteQueue_contents (mp_ts_byte_queue s') = drop k (received data s) \<and>
       (ok \<longrightarrow> used (mp_ts_byte_queue s') < kPacketSize)"
    if "Mp2tStreamParser_Parse fresh C data s \<noteq> None"
    using Parse_rest [OF assms] that by (fastforce simp: not_None_eq)
  ultimately show ?thesis using q(1) Parse_None_iff [OF q(1), of C] by auto
qed

section \<open>The PID filter\<close>

definition pids_of :: "pid_type \<Rightarrow> (int \<times> 'e pid_state) list \<Rightarrow> int list" where
  "pids_of type pids = map fst (filter (\<lambda>e. pd_pid_type (snd e) = type) pids)"

definition first_pid :: "int list \<Rightarrow> int" where
  "first_pid pids = (case pids of [] \<Rightarrow> - 1 | pid # _ \<Rightarrow> pid)"

fun section_type :: "pid_type \<Rightarrow> 'e section_parser \<Rightarrow> bool" where
  "section_type kPidPat (Pat_Section _) = True"
| "section_type kPidPmt (Pmt_Section _) = True"
| "section_type kPidAudioPes (Pes_Section _) = True"
| "section_type kPidVideoPes (Pes_Section _) = True"
| "section_type _ _ = False"

text \<open>An entry of the map: typed, under its own PID, and with an unused continuity counter.\<close>

definition pid_typed :: "int \<Rightarrow> 'e pid_state \<Rightarrow> bool" where
  "pid_typed pid d \<longleftrightarrow> pd_pid d = pid \<and> section_type (pd_pid_type d) (pd_section_parser d) \<and>
     pd_continuity_counter d = - 1"

definition pids_ok :: "(int \<times> 'e pid_state) list \<Rightarrow> bool" where
  "pids_ok pids \<longleftrightarrow> sorted (map fst pids) \<and> distinct (map fst pids) \<and>
     (\<forall>e\<in>set pids. pid_typed (fst e) (snd e)) \<and> length (pids_of kPidPmt pids) \<le> 1"

text \<open>The enabled PIDs: the tables, and the lowest audio and video PIDs.\<close>

definition pids_filtered :: "(int \<times> 'e pid_state) list \<Rightarrow> bool" where
  "pids_filtered pids \<longleftrightarrow> (\<forall>e\<in>set pids. pd_enable (snd e) \<longleftrightarrow>
     (case pd_pid_type (snd e) of
        kPidPat \<Rightarrow> True | kPidPmt \<Rightarrow> True
      | type \<Rightarrow> fst e = first_pid (pids_of type pids)))"

definition pid_filter_ok :: "('e, 'a, 'v, 'b, 'w) mp2t_parser \<Rightarrow> bool" where
  "pid_filter_ok s \<longleftrightarrow> pids_ok (mp_pids s) \<and> pids_filtered (mp_pids s) \<and>
     mp_selected_audio_pid s = first_pid (pids_of kPidAudioPes (mp_pids s)) \<and>
     mp_selected_video_pid s = first_pid (pids_of kPidVideoPes (mp_pids s))"

lemma map_fst_insort: "map fst (insort_key fst x xs) = insort (fst x) (map fst xs)"
  by (induction xs) auto

lemma pids_of_insert_other: "pd_pid_type d \<noteq> type \<Longrightarrow> pids_of type (map_insert k d m) = pids_of type m"
  by (simp add: pids_of_def map_insert_def filter_insort_triv)

lemma length_filter_insort: "length (filter P (insort_key f x xs)) = length (filter P (x # xs))"
  by (induction xs) auto

lemma set_map_insert: "set (map_insert k d m) = (if map_of m k = None then insert (k, d) (set m) else set m)"
  by (simp add: map_insert_def set_insort_key)

lemma keys_map_insert:
  "sorted (map fst m) \<Longrightarrow> distinct (map fst m) \<Longrightarrow>
     sorted (map fst (map_insert k d m)) \<and> distinct (map fst (map_insert k d m))"
  by (auto simp: map_insert_def map_fst_insort sorted_insort distinct_insort map_of_eq_None_iff)

lemma map_entry_keys [simp]: "map fst (map_entry k f m) = map fst m"
  by (simp add: map_entry_def)

lemma pids_of_map_entry:
  "(\<And>d. (k, d) \<in> set m \<Longrightarrow> pd_pid_type (f d) = pd_pid_type d) \<Longrightarrow> pids_of type (map_entry k f m) = pids_of type m"
  by (induction m) (auto simp: pids_of_def map_entry_def)

text \<open>On an ascending map the loop finds the first PID of the type.\<close>

lemma lowest_pid_later:
  "sorted (map fst m) \<Longrightarrow> \<forall>e\<in>set m. x \<le> fst e \<Longrightarrow> lowest_pid type m (Some x) = Some x"
  by (induction m) auto

lemma lowest_pid_first:
  "sorted (map fst m) \<Longrightarrow> lowest_pid type m None = (case pids_of type m of [] \<Rightarrow> None | k # _ \<Rightarrow> Some k)"
  by (induction m) (auto simp: pids_of_def lowest_pid_later)

lemma first_pid_entry:
  assumes "pids_of type m \<noteq> []"
  shows "\<exists>d. (first_pid (pids_of type m), d) \<in> set m \<and> pd_pid_type d = type"
proof -
  have "first_pid (pids_of type m) \<in> set (pids_of type m)"
    using assms by (cases "pids_of type m") (auto simp: first_pid_def)
  then show ?thesis by (auto simp: pids_of_def)
qed

lemma entry_unique: "distinct (map fst m) \<Longrightarrow> (k, d) \<in> set m \<Longrightarrow> (k, d') \<in> set m \<Longrightarrow> d = d'"
  by (metis map_of_is_SomeI option.inject)

text \<open>An update of one entry that keeps what the filter looks at.\<close>

definition same_pid_state :: "'e pid_state \<Rightarrow> 'e pid_state \<Rightarrow> bool" where
  "same_pid_state d d' \<longleftrightarrow> pd_pid d' = pd_pid d \<and> pd_pid_type d' = pd_pid_type d \<and>
     pd_enable d' = pd_enable d \<and> pd_continuity_counter d' = - 1 \<and>
     section_type (pd_pid_type d) (pd_section_parser d')"

lemma section_type_Reset: "section_type type p \<Longrightarrow> section_type type (section_Reset P p)"
  by (cases "(type, p)" rule: section_type.cases) (simp_all add: section_Reset_def)

lemma section_type_Parse:
  "section_type type p \<Longrightarrow> section_Parse fresh P pusi payload u p = Some (ok, events, u', p') \<Longrightarrow> section_type type p'"
  by (cases "(type, p)" rule: section_type.cases) (auto simp: section_Parse_def)

lemma section_type_Flush:
  "section_type type p \<Longrightarrow> section_Flush P u p = Some (events, u', p') \<Longrightarrow> section_type type p'"
  by (cases "(type, p)" rule: section_type.cases) (auto simp: section_Flush_def)

lemma PushTsPacket_same:
  assumes "PushTsPacket fresh P ts_packet ts_buffer u d = Some (ok, events, u', d')" "pid_typed pid d"
  shows "same_pid_state d d'"
  using assms
  by (auto simp: PushTsPacket_def Let_def pid_typed_def same_pid_state_def PidState_ResetState_def
      section_type_Parse section_type_Reset split: if_splits)

lemma PidState_Flush_same:
  assumes "PidState_Flush P u d = Some (events, u', d')" "pid_typed pid d"
  shows "same_pid_state d d'"
  using assms
  by (auto simp: PidState_Flush_def pid_typed_def same_pid_state_def PidState_ResetState_def
      section_type_Flush section_type_Reset)

lemma replace_entry:
  assumes ok: "pids_ok m" and e: "(pid, d) \<in> set m" and same: "same_pid_state d d'"
  shows "pids_ok (map_entry pid (\<lambda>_. d') m)"
    "pids_of type (map_entry pid (\<lambda>_. d') m) = pids_of type m"
    "pids_filtered m \<Longrightarrow> pids_filtered (map_entry pid (\<lambda>_. d') m)"
proof -
  have only: "x = d" if "(pid, x) \<in> set m" for x
    using entry_unique [OF _ that e] ok by (simp add: pids_ok_def)
  have pids: "pids_of type (map_entry pid (\<lambda>_. d') m) = pids_of type m" for type
    using only same by (intro pids_of_map_entry) (auto simp: same_pid_state_def)
  show "pids_of type (map_entry pid (\<lambda>_. d') m) = pids_of type m" by (rule pids)
  have typed: "pid_typed pid d'"
    using ok e same by (auto simp: pids_ok_def pid_typed_def same_pid_state_def)
  have entries: "e \<in> set (map_entry pid (\<lambda>_. d') m) \<Longrightarrow> e = (pid, d') \<or> e \<in> set m" for e
    by (auto simp: map_entry_def)
  show "pids_ok (map_entry pid (\<lambda>_. d') m)"
    using ok typed entries by (fastforce simp: pids_ok_def pids)
  show "pids_filtered (map_entry pid (\<lambda>_. d') m)" if "pids_filtered m"
    unfolding pids_filtered_def
  proof
    fix x assume "x \<in> set (map_entry pid (\<lambda>_. d') m)"
    then consider "x = (pid, d')" | "x \<in> set m" using entries by blast
    then show "pd_enable (snd x) = (case pd_pid_type (snd x) of kPidPat \<Rightarrow> True | kPidPmt \<Rightarrow> True
        | type \<Rightarrow> fst x = first_pid (pids_of type (map_entry pid (\<lambda>_. d') m)))"
    proof cases
      case 1
      then show ?thesis
        using that [unfolded pids_filtered_def, rule_format, OF e] same
        by (simp add: same_pid_state_def pids cong: pid_type.case_cong)
    next
      case 2
      then show ?thesis using that by (simp add: pids_filtered_def pids cong: pid_type.case_cong)
    qed
  qed
qed

lemma insert_table:
  assumes ok: "pids_ok m" "pids_filtered m" and d: "pd_pid_type d = kPidPat \<or> pd_pid_type d = kPidPmt \<and> pids_of kPidPmt m = []"
    and e: "pd_enable d" "pid_typed k d"
  shows "pids_ok (map_insert k d m)" "pids_filtered (map_insert k d m)"
    "pids_of kPidAudioPes (map_insert k d m) = pids_of kPidAudioPes m"
    "pids_of kPidVideoPes (map_insert k d m) = pids_of kPidVideoPes m"
proof -
  show pids: "pids_of kPidAudioPes (map_insert k d m) = pids_of kPidAudioPes m"
    "pids_of kPidVideoPes (map_insert k d m) = pids_of kPidVideoPes m"
    using d by (auto intro: pids_of_insert_other)
  have "length (pids_of kPidPmt (map_insert k d m)) \<le> 1"
  proof (cases "pd_pid_type d = kPidPmt")
    case True
    then have "pids_of kPidPmt m = []" using d by simp
    then show ?thesis using ok by (auto simp: map_insert_def pids_of_def length_filter_insort pids_ok_def)
  next
    case False
    then show ?thesis using ok pids_of_insert_other [of d kPidPmt k m] by (simp add: pids_ok_def)
  qed
  then show "pids_ok (map_insert k d m)"
    using ok e keys_map_insert [of m k d] by (auto simp: pids_ok_def set_map_insert)
  show "pids_filtered (map_insert k d m)"
    using ok d e by (auto simp: pids_filtered_def set_map_insert pids split: pid_type.split)
qed

text \<open>\<open>UpdatePidFilter\<close> works on each entry by itself.\<close>

definition filter_entry ::
  "('e, 'a, 'v, 'b) es \<Rightarrow> int option \<Rightarrow> int option \<Rightarrow> int \<Rightarrow> 'e pid_state \<Rightarrow> 'e pid_state" where
  "filter_entry P la lv k d =
     (if Some k = la \<or> Some k = lv then PidState_Enable d
      else if pd_pid_type d = kPidAudioPes \<or> pd_pid_type d = kPidVideoPes then PidState_Disable P d
      else d)"

lemma map_entry_map: "map_entry pid f m = map (\<lambda>(k, d). (k, if k = pid then f d else d)) m"
  by (auto simp: map_entry_def)

lemma UpdatePidFilter_pids:
  "mp_pids (UpdatePidFilter P s) =
     map (\<lambda>(k, d). (k, filter_entry P (lowest_pid kPidAudioPes (mp_pids s) None) (lowest_pid kPidVideoPes (mp_pids s) None) k d))
       (mp_pids s)"
  by (auto simp: UpdatePidFilter_def Let_def map_entry_map filter_entry_def PidState_Enable_def split: option.split)

lemma UpdatePidFilter_selected:
  "mp_selected_audio_pid (UpdatePidFilter P s) =
     (case lowest_pid kPidAudioPes (mp_pids s) None of None \<Rightarrow> mp_selected_audio_pid s | Some k \<Rightarrow> k)"
  "mp_selected_video_pid (UpdatePidFilter P s) =
     (case lowest_pid kPidVideoPes (mp_pids s) None of None \<Rightarrow> mp_selected_video_pid s | Some k \<Rightarrow> k)"
  by (simp_all add: UpdatePidFilter_def Let_def split: option.split)

lemma filter_entry_type [simp]: "pd_pid_type (filter_entry P la lv k d) = pd_pid_type d"
  by (simp add: filter_entry_def PidState_Enable_def PidState_Disable_def PidState_ResetState_def)

lemma filter_entry_typed: "pid_typed k d \<Longrightarrow> pid_typed k (filter_entry P la lv k d)"
  by (auto simp: pid_typed_def filter_entry_def PidState_Enable_def PidState_Disable_def PidState_ResetState_def
      section_type_Reset)

lemma filter_entry_enable:
  "pd_enable (filter_entry P la lv k d) \<longleftrightarrow>
     Some k = la \<or> Some k = lv \<or> pd_enable d \<and> pd_pid_type d \<noteq> kPidAudioPes \<and> pd_pid_type d \<noteq> kPidVideoPes"
  by (auto simp: filter_entry_def PidState_Enable_def PidState_Disable_def)

lemma pids_of_map:
  "(\<And>k d. pd_pid_type (f k d) = pd_pid_type d) \<Longrightarrow> pids_of type (map (\<lambda>(k, d). (k, f k d)) m) = pids_of type m"
  by (induction m) (auto simp: pids_of_def)

lemma lowest_pid_type:
  assumes "sorted (map fst m)" "distinct (map fst m)" "(k, d) \<in> set m"
  shows "Some k = lowest_pid type m None \<longleftrightarrow> pd_pid_type d = type \<and> k = first_pid (pids_of type m)"
proof (cases "pids_of type m")
  case Nil
  then show ?thesis
    using assms lowest_pid_first [OF assms(1), of type] by (auto simp: pids_of_def filter_empty_conv)
next
  case (Cons x xs)
  obtain d' where d': "(first_pid (pids_of type m), d') \<in> set m" "pd_pid_type d' = type"
    using first_pid_entry [of type m] Cons by auto
  have "k = first_pid (pids_of type m) \<Longrightarrow> pd_pid_type d = type"
    using entry_unique [OF assms(2,3)] d' by blast
  then show ?thesis
    using lowest_pid_first [OF assms(1), of type] Cons by (auto simp: first_pid_def)
qed

lemma UpdatePidFilter_ok:
  assumes ok: "pids_ok (mp_pids s)"
    and tables: "\<And>k d. (k, d) \<in> set (mp_pids s) \<Longrightarrow> pd_pid_type d = kPidPat \<or> pd_pid_type d = kPidPmt \<Longrightarrow> pd_enable d"
    and none: "pids_of kPidAudioPes (mp_pids s) = [] \<Longrightarrow> mp_selected_audio_pid s = - 1"
      "pids_of kPidVideoPes (mp_pids s) = [] \<Longrightarrow> mp_selected_video_pid s = - 1"
  shows "pid_filter_ok (UpdatePidFilter P s)"
proof -
  let ?m = "mp_pids s" and ?t = "UpdatePidFilter P s"
  let ?f = "filter_entry P (lowest_pid kPidAudioPes ?m None) (lowest_pid kPidVideoPes ?m None)"
  have keys: "sorted (map fst ?m)" "distinct (map fst ?m)" using ok by (simp_all add: pids_ok_def)
  have m: "mp_pids ?t = map (\<lambda>(k, d). (k, ?f k d)) ?m" by (rule UpdatePidFilter_pids)
  then have pids: "pids_of type (mp_pids ?t) = pids_of type ?m" for type
    by (simp add: pids_of_map)
  have "map fst (mp_pids ?t) = map fst ?m" by (simp add: m comp_def case_prod_beta)
  moreover have "pid_typed (fst e) (snd e)" if "e \<in> set (mp_pids ?t)" for e
    using that ok filter_entry_typed by (fastforce simp: m pids_ok_def)
  ultimately have "pids_ok (mp_pids ?t)" using ok by (simp add: pids_ok_def pids)
  moreover have "pids_filtered (mp_pids ?t)"
    unfolding pids_filtered_def
  proof
    fix e assume "e \<in> set (mp_pids ?t)"
    then obtain k d where e: "(k, d) \<in> set ?m" "e = (k, ?f k d)" by (auto simp: m)
    show "pd_enable (snd e) = (case pd_pid_type (snd e) of kPidPat \<Rightarrow> True | kPidPmt \<Rightarrow> True
        | type \<Rightarrow> fst e = first_pid (pids_of type (mp_pids ?t)))"
      using lowest_pid_type [OF keys e(1)] tables [OF e(1)]
      by (auto simp: e(2) pids filter_entry_enable split: pid_type.split)
  qed
  moreover have "mp_selected_audio_pid ?t = first_pid (pids_of kPidAudioPes (mp_pids ?t))"
    "mp_selected_video_pid ?t = first_pid (pids_of kPidVideoPes (mp_pids ?t))"
    using none by (auto simp: UpdatePidFilter_selected pids lowest_pid_first [OF keys(1)] first_pid_def split: list.split)
  ultimately show ?thesis by (simp add: pid_filter_ok_def)
qed

lemma pids_of_empty_insert: "pids_of type (map_insert k d m) = [] \<Longrightarrow> pids_of type m = []"
  by (auto simp: pids_of_def map_insert_def filter_empty_conv set_insort_key split: if_splits)

lemma RegisterPmt_ok: "pid_filter_ok s \<Longrightarrow> pid_filter_ok (RegisterPmt fresh n pid s)"
proof -
  assume ok: "pid_filter_ok s"
  show ?thesis
  proof (cases "\<exists>e\<in>set (mp_pids s). pd_pid_type (snd e) = kPidPmt")
    case False
    define d :: "'a pid_state" where "d = PidState_Enable (PidState_init pid kPidPmt (Pmt_Section (TsSectionPsi_init fresh ())))"
    have d: "pd_pid_type d = kPidPmt" "pd_enable d" "pid_typed pid d"
      by (simp_all add: d_def PidState_Enable_def PidState_init_def pid_typed_def)
    have "pids_of kPidPmt (mp_pids s) = []" using False by (auto simp: pids_of_def filter_empty_conv)
    then have "pids_ok (map_insert pid d (mp_pids s)) \<and> pids_filtered (map_insert pid d (mp_pids s)) \<and>
        pids_of kPidAudioPes (map_insert pid d (mp_pids s)) = pids_of kPidAudioPes (mp_pids s) \<and>
        pids_of kPidVideoPes (map_insert pid d (mp_pids s)) = pids_of kPidVideoPes (mp_pids s)"
      using insert_table [of "mp_pids s" d pid] ok d by (simp add: pid_filter_ok_def)
    then show ?thesis using False ok by (simp add: RegisterPmt_def d_def [symmetric] pid_filter_ok_def)
  qed (use ok in \<open>simp add: RegisterPmt_def\<close>)
qed

lemma RegisterPes_ok:
  assumes ok: "pid_filter_ok s"
  shows "pid_filter_ok (RegisterPes fresh C pid stream_type s)"
proof (cases "map_of (mp_pids s) pid = None \<and> es_kind_of (mp_sbr_in_mimetype s) stream_type \<noteq> None")
  case True
  then obtain kind is_audio where k: "es_kind_of (mp_sbr_in_mimetype s) stream_type = Some (kind, is_audio)"
    by auto
  define d where "d = PidState_init pid (if is_audio then kPidAudioPes else kPidVideoPes)
      (Pes_Section (TsSectionPes_init fresh (cl_new_es C kind)))"
  let ?m = "map_insert pid d (mp_pids s)"
  have d: "pd_pid_type d = kPidAudioPes \<or> pd_pid_type d = kPidVideoPes" "pid_typed pid d"
    by (simp_all add: d_def PidState_init_def pid_typed_def)
  have s: "pids_ok (mp_pids s)" "pids_filtered (mp_pids s)" using ok by (simp_all add: pid_filter_ok_def)
  have "pids_of kPidPmt ?m = pids_of kPidPmt (mp_pids s)" using d(1) by (auto intro: pids_of_insert_other)
  then have "pids_ok ?m"
    using s(1) d(2) keys_map_insert [of "mp_pids s" pid d] by (auto simp: pids_ok_def set_map_insert)
  moreover have "pd_enable e" if e: "(k, e) \<in> set ?m" "pd_pid_type e = kPidPat \<or> pd_pid_type e = kPidPmt" for k e
  proof -
    have "(k, e) \<in> set (mp_pids s)" using e d(1) by (auto simp: set_map_insert split: if_splits)
    then show ?thesis using s(2) e(2) by (fastforce simp: pids_filtered_def)
  qed
  ultimately have "pid_filter_ok (UpdatePidFilter (cl_es C) (s\<lparr>mp_pids := ?m\<rparr>))"
    using ok by (intro UpdatePidFilter_ok) (auto simp: pid_filter_ok_def first_pid_def dest: pids_of_empty_insert)
  then show ?thesis using True k by (simp add: RegisterPes_def d_def Let_def)
next
  case False
  then show ?thesis using ok by (auto simp: RegisterPes_def split: option.split)
qed

text \<open>Everything else that a callback does leaves the registrations alone.\<close>

lemma pid_filter_ok_cong:
  "mp_pids t = mp_pids s \<Longrightarrow> mp_selected_audio_pid t = mp_selected_audio_pid s \<Longrightarrow>
     mp_selected_video_pid t = mp_selected_video_pid s \<Longrightarrow> pid_filter_ok t = pid_filter_ok s"
  by (simp add: pid_filter_ok_def)

lemma es_event_pids:
  "OnAudioConfigChanged C pid a s = Some t \<or> OnVideoConfigChanged C pid v s = Some t \<or>
     OnEmitAudioBuffer pid b s = Some t \<or> OnEmitVideoBuffer pid b s = Some t \<Longrightarrow>
     pid_filter_ok t = pid_filter_ok s"
  by (rule pid_filter_ok_cong)
    (auto simp: OnAudioConfigChanged_def OnVideoConfigChanged_def OnEmitAudioBuffer_def OnEmitVideoBuffer_def Let_def
      split: if_splits)

lemma handle_event_ok:
  "handle_event fresh C pid event s = Some t \<Longrightarrow> pid_filter_ok s \<Longrightarrow> pid_filter_ok t"
  using es_event_pids [of C pid _ s t]
  by (auto simp: handle_event_def RegisterPmt_ok RegisterPes_ok split: section_event.splits es_event.splits)

lemma handle_events_ok:
  "handle_events fresh C pid events s = Some t \<Longrightarrow> pid_filter_ok s \<Longrightarrow> pid_filter_ok t"
  by (induction events arbitrary: s) (auto split: Option.bind_splits intro: handle_event_ok)

lemma replace_entry_ok:
  assumes "pid_filter_ok s" "(pid, d) \<in> set (mp_pids s)" "same_pid_state d d'"
  shows "pid_filter_ok (s\<lparr>mp_timestamp_unroller := u, mp_pids := map_entry pid (\<lambda>_. d') (mp_pids s)\<rparr>)"
  using replace_entry [of "mp_pids s" pid d d'] assms by (simp add: pid_filter_ok_def)

text \<open>The state in which a packet meets its PID.\<close>

definition with_pat :: "(nat \<Rightarrow> u8) \<Rightarrow> int \<Rightarrow> ('e, 'a, 'v, 'b, 'w) mp2t_parser \<Rightarrow> ('e, 'a, 'v, 'b, 'w) mp2t_parser" where
  "with_pat fresh pid s =
     (if map_of (mp_pids s) pid = None \<and> pid = 0 then
        s\<lparr>mp_pids := map_insert pid
          (PidState_Enable (PidState_init pid kPidPat (Pat_Section (TsSectionPsi_init fresh (- 1))))) (mp_pids s)\<rparr>
      else s)"

lemma with_pat_ok: "pid_filter_ok s \<Longrightarrow> pid_filter_ok (with_pat fresh pid s)"
proof -
  assume ok: "pid_filter_ok s"
  define d :: "'a pid_state" where "d = PidState_Enable (PidState_init pid kPidPat (Pat_Section (TsSectionPsi_init fresh (- 1))))"
  have "pd_pid_type d = kPidPat" "pd_enable d" "pid_typed pid d"
    by (simp_all add: d_def PidState_Enable_def PidState_init_def pid_typed_def)
  then have "pid_filter_ok (s\<lparr>mp_pids := map_insert pid d (mp_pids s)\<rparr>)"
    using insert_table [of "mp_pids s" d pid] ok by (simp add: pid_filter_ok_def)
  then show ?thesis using ok unfolding with_pat_def d_def by presburger
qed

lemma push_packet_cases:
  assumes "push_packet fresh C ts_packet ts_buffer s = Some (ok, t)"
  shows "t = with_pat fresh (ts_pid ts_packet) s \<or>
    (\<exists>d events u d'. map_of (mp_pids (with_pat fresh (ts_pid ts_packet) s)) (ts_pid ts_packet) = Some d \<and>
      PushTsPacket fresh (cl_es C) ts_packet ts_buffer (mp_timestamp_unroller (with_pat fresh (ts_pid ts_packet) s)) d =
        Some (ok, events, u, d') \<and>
      handle_events fresh C (ts_pid ts_packet) events
        (with_pat fresh (ts_pid ts_packet) s\<lparr>mp_timestamp_unroller := u, mp_pids :=
          map_entry (ts_pid ts_packet) (\<lambda>_. d') (mp_pids (with_pat fresh (ts_pid ts_packet) s))\<rparr>) = Some t)"
  using assms
  by (simp add: push_packet_def Let_def with_pat_def [symmetric] split: option.splits prod.splits)

lemma push_packet_ok:
  assumes p: "push_packet fresh C ts_packet ts_buffer s = Some (ok, t)" and s: "pid_filter_ok s"
  shows "pid_filter_ok t"
proof -
  let ?s = "with_pat fresh (ts_pid ts_packet) s"
  have s1: "pid_filter_ok ?s" by (rule with_pat_ok [OF s])
  from push_packet_cases [OF p] show ?thesis
  proof (elim disjE exE conjE)
    assume "t = ?s"
    then show ?thesis using s1 by simp
  next
    fix d events u d'
    assume "map_of (mp_pids ?s) (ts_pid ts_packet) = Some d"
      and r: "PushTsPacket fresh (cl_es C) ts_packet ts_buffer (mp_timestamp_unroller ?s) d = Some (ok, events, u, d')"
      and h: "handle_events fresh C (ts_pid ts_packet) events
        (?s\<lparr>mp_timestamp_unroller := u, mp_pids := map_entry (ts_pid ts_packet) (\<lambda>_. d') (mp_pids ?s)\<rparr>) = Some t"
    then have d: "(ts_pid ts_packet, d) \<in> set (mp_pids ?s)" by (auto dest: map_of_SomeD)
    then have "pid_typed (ts_pid ts_packet) d" using s1 by (auto simp: pid_filter_ok_def pids_ok_def)
    then show ?thesis
      using handle_events_ok [OF h] replace_entry_ok [OF s1 d] PushTsPacket_same [OF r] by blast
  qed
qed

lemma parse_round_ok:
  assumes "parse_round fresh C s = Some r" "pid_filter_ok s"
  shows "case r of Break t \<Rightarrow> pid_filter_ok t | Fail t \<Rightarrow> pid_filter_ok t | Next t \<Rightarrow> pid_filter_ok t"
proof -
  have pop: "pop_bytes n t = Some r' \<Longrightarrow> pid_filter_ok t \<Longrightarrow> \<exists>u. r' = Next u \<and> pid_filter_ok u"
    for n r' and t :: "('a, 'b, 'c, 'd, 'e) mp2t_parser"
    by (auto simp: pop_bytes_def pid_filter_ok_def)
  show ?thesis
    using assms
    by (auto simp: parse_round_def Let_def split: if_splits option.splits prod.splits dest!: pop push_packet_ok)
qed

lemma ts_parse_loop_ok: "ts_parse_loop fresh C s = Some (ok, t) \<Longrightarrow> pid_filter_ok s \<Longrightarrow> pid_filter_ok t"
proof (induction fresh C s rule: ts_parse_loop.induct)
  case (1 fresh C s)
  then show ?case
    using parse_round_ok [of fresh C s]
    by (subst (asm) (2) ts_parse_loop.simps) (auto split: option.splits round.splits)
qed

lemma emit_ok:
  "pid_filter_ok (snd (FinishInitializationIfNeeded C s)) = pid_filter_ok s"
  "pid_filter_ok (snd (EmitRemainingBuffers C s)) = pid_filter_ok s"
  by (auto simp: FinishInitializationIfNeeded_def EmitRemainingBuffers_def Let_def pid_filter_ok_def
      split: list.split prod.split)

lemma Parse_ok:
  assumes "Mp2tStreamParser_Parse fresh C data s = Some (ok, t)" "pid_filter_ok s"
  shows "pid_filter_ok t"
proof -
  obtain q b u where u: "ts_parse_loop fresh C (s\<lparr>mp_ts_byte_queue := q\<rparr>) = Some (b, u)"
      "ok = (b \<and> fst (FinishInitializationIfNeeded C u) \<and> fst (EmitRemainingBuffers C (snd (FinishInitializationIfNeeded C u))))"
      "t = (if \<not> b then u else if \<not> fst (FinishInitializationIfNeeded C u) then snd (FinishInitializationIfNeeded C u)
        else snd (EmitRemainingBuffers C (snd (FinishInitializationIfNeeded C u))))"
    using assms(1)
    by (auto simp: Mp2tStreamParser_Parse_def Let_def case_prod_beta split: option.splits if_splits)
  have "pid_filter_ok (s\<lparr>mp_ts_byte_queue := q\<rparr>)" using assms(2) by (simp add: pid_filter_ok_def)
  then show ?thesis using ts_parse_loop_ok [OF u(1)] u(3) emit_ok by auto
qed

section \<open>Runs of the parser\<close>

inductive mp2t_reachable ::
  "(nat \<Rightarrow> u8) \<Rightarrow> ('e, 'a, 'v, 'b, 'w) mp2t_client \<Rightarrow> ('e, 'a, 'v, 'b, 'w) mp2t_parser \<Rightarrow> bool" for fresh C where
  created: "mp2t_reachable fresh C (Mp2tStreamParser_init fresh sbr w)"
| parsed: "mp2t_reachable fresh C s \<Longrightarrow> Mp2tStreamParser_Parse fresh C data s = Some (ok, t) \<Longrightarrow> mp2t_reachable fresh C t"
| flushed: "mp2t_reachable fresh C s \<Longrightarrow> Mp2tStreamParser_Flush fresh C s = Some t \<Longrightarrow> mp2t_reachable fresh C t"

lemma reachable_ok: "mp2t_reachable fresh C s \<Longrightarrow> pid_filter_ok s"
proof (induction rule: mp2t_reachable.induct)
  case (created sbr w)
  show ?case by (simp add: Mp2tStreamParser_init_def pid_filter_ok_def pids_ok_def pids_filtered_def pids_of_def first_pid_def)
next
  case (parsed s data ok t)
  then show ?case by (blast intro: Parse_ok)
next
  case (flushed s t)
  then have "mp_pids t = [] \<and> mp_selected_audio_pid t = - 1 \<and> mp_selected_video_pid t = - 1"
    by (auto simp: Mp2tStreamParser_Flush_def EmitRemainingBuffers_def Let_def split: prod.splits if_splits)
  then show ?case by (simp add: pid_filter_ok_def pids_ok_def pids_filtered_def pids_of_def first_pid_def)
qed

text \<open>A concrete run: a packet of the PAT's PID.\<close>

definition sample_client :: "(unit, nat, nat, nat, unit) mp2t_client" where
  "sample_client =
     \<lparr>cl_es = \<lparr>es_Parse = (\<lambda>_ _ _ e. (True, [], e)), es_Flush = (\<lambda>e. ([], e)), es_Reset = (\<lambda>e. e)\<rparr>,
      cl_new_es = (\<lambda>_. ()), cl_audio_none = 0, cl_audio_valid = (\<lambda>c. c > 0), cl_video_none = 0,
      cl_video_valid = (\<lambda>c. c > 0), cl_init_cb = (\<lambda>_ _ w. w), cl_config_cb = (\<lambda>_ _ w. (True, w)),
      cl_new_buffers_cb = (\<lambda>_ _ w. (True, w)), cl_new_segment_cb = (\<lambda>w. w)\<rparr>"

definition sample_data :: "u8 list" where
  "sample_data = [0x47, 0, 0, 0x10] @ replicate 184 0xff"

definition sample_start :: "(unit, nat, nat, nat, unit) mp2t_parser" where
  "sample_start = Mp2tStreamParser_init (\<lambda>_. 0) False ()"

definition sample_pat :: "unit pid_state" where
  "sample_pat = PidState_Enable (PidState_init 0 kPidPat (Pat_Section (TsSectionPsi_init (\<lambda>_. 0) (- 1))))"

lemma sample_header:
  "TsPacket_Sync sample_data = 0" "length sample_data = 188"
  "TsPacket_Parse sample_data = Some (Some \<lparr>ts_payload = 4, ts_payload_size = 184, ts_payload_unit_start_indicator = False,
     ts_pid = 0, ts_continuity_counter = 0, ts_discontinuity_indicator = False, ts_random_access_indicator = False\<rparr>)"
  by code_simp+

lemma sample_push:
  "ts_pid p = 0 \<Longrightarrow> \<not> ts_payload_unit_start_indicator p \<Longrightarrow>
   PushTsPacket (\<lambda>_. 0) P p dat u sample_pat = Some (True, [], u, sample_pat)"
  by (simp add: PushTsPacket_def sample_pat_def PidState_Enable_def PidState_init_def section_Parse_def
      TsSectionPsi_Parse_def TsSectionPsi_init_def)

lemma sample_ts_run:
  "\<exists>q. Mp2tStreamParser_Parse (\<lambda>_. 0) sample_client sample_data sample_start =
    Some (True, sample_start\<lparr>mp_ts_byte_queue := q, mp_pids := [(0, sample_pat)]\<rparr>)"
proof -
  have init: "ByteQueue_ok (mp_ts_byte_queue sample_start)" "ByteQueue_contents (mp_ts_byte_queue sample_start) = []"
    "used (mp_ts_byte_queue sample_start) = 0"
    using ByteQueue_init_ok by (auto simp: sample_start_def Mp2tStreamParser_init_def ByteQueue_init_def)
  obtain q where q: "ByteQueue_Push (\<lambda>_. 0) sample_data (mp_ts_byte_queue sample_start) = Some q"
      "ByteQueue_ok q" "ByteQueue_contents q = sample_data"
    using ByteQueue_Push_correct [OF init(1), of sample_data "\<lambda>_. 0"] init(2,3) sample_header(2) by fastforce
  have uq: "used q = 188" using length_ByteQueue_contents [OF q(2)] q(3) sample_header(2) by simp
  obtain q' where q': "ByteQueue_Pop 188 q = Some q'" "used q' = 0"
    using ByteQueue_Pop_correct [OF q(2), of 188] uq by auto
  obtain block where p: "ByteQueue_Peek q = (block, 188)" by (simp add: ByteQueue_Peek_def uq)
  have b: "take 188 block = sample_data" using peek_contents [OF q(2) p] q(3) by simp
  let ?s = "sample_start\<lparr>mp_ts_byte_queue := q\<rparr>"
  let ?t = "sample_start\<lparr>mp_ts_byte_queue := q, mp_pids := [(0, sample_pat)]\<rparr>"
  have "mp_pids ?s = []" by (simp add: sample_start_def Mp2tStreamParser_init_def)
  then have "push_packet (\<lambda>_. 0) sample_client \<lparr>ts_payload = 4, ts_payload_size = 184, ts_payload_unit_start_indicator = False,
     ts_pid = 0, ts_continuity_counter = 0, ts_discontinuity_indicator = False, ts_random_access_indicator = False\<rparr> sample_data ?s =
     Some (True, ?t)"
    by (simp add: push_packet_def Let_def map_insert_def sample_push sample_pat_def [symmetric] map_entry_def)
  then have "parse_round (\<lambda>_. 0) sample_client ?s = Some (Next (?t\<lparr>mp_ts_byte_queue := q'\<rparr>))"
    using q' by (simp add: parse_round_def p b sample_header pop_bytes_def kPacketSize_def)
  moreover have "parse_round (\<lambda>_. 0) sample_client (?t\<lparr>mp_ts_byte_queue := q'\<rparr>) = Some (Break (?t\<lparr>mp_ts_byte_queue := q'\<rparr>))"
    by (simp add: parse_round_def ByteQueue_Peek_def q' kPacketSize_def)
  ultimately have "ts_parse_loop (\<lambda>_. 0) sample_client ?s = Some (True, ?t\<lparr>mp_ts_byte_queue := q'\<rparr>)"
    by (simp add: ts_parse_loop.simps)
  moreover have "mp_buffer_queue_chain sample_start = []" "\<not> mp_is_initialized sample_start"
    by (simp_all add: sample_start_def Mp2tStreamParser_init_def)
  ultimately have "Mp2tStreamParser_Parse (\<lambda>_. 0) sample_client sample_data sample_start =
      Some (True, ?t\<lparr>mp_ts_byte_queue := q'\<rparr>)"
    by (simp add: Mp2tStreamParser_Parse_def q(1) FinishInitializationIfNeeded_def EmitRemainingBuffers_def)
  then show ?thesis by (intro exI [of _ q']) simp
qed

lemma sample_reachable:
  obtains q where "mp2t_reachable (\<lambda>_. 0) sample_client
    (sample_start\<lparr>mp_ts_byte_queue := q, mp_pids := [(0, sample_pat)]\<rparr>)"
proof -
  have "mp2t_reachable (\<lambda>_. 0) sample_client sample_start" unfolding sample_start_def by (rule created)
  then show thesis using sample_ts_run that by (blast intro: parsed)
qed

text \<open>The events that a PID of the type can report.\<close>

fun event_type :: "pid_type \<Rightarrow> ('a, 'v, 'b) section_event \<Rightarrow> bool" where
  "event_type kPidPat (Register_Pmt_Event _ _) = True"
| "event_type kPidPmt (Register_Pes_Event _ _ _) = True"
| "event_type kPidAudioPes (Es_Event _) = True"
| "event_type kPidVideoPes (Es_Event _) = True"
| "event_type _ _ = False"

lemma section_events:
  "section_type type p \<Longrightarrow> section_Parse fresh P pusi payload u p = Some (ok, events, u', p') \<Longrightarrow>
     e \<in> set events \<Longrightarrow> event_type type e"
  by (cases "(type, p)" rule: section_type.cases) (auto simp: section_Parse_def)

text \<open>
  C37: in every reachable state of the parser each entry of the PID map has the section parser
  that its type calls for and is stored under its own PID, so that a packet of this PID never
  fails the PID assertion, and the callbacks it causes are those of its type: a PAT registers
  PMTs only, a PMT elementary streams only, and only elementary streams report configurations and buffers.
\<close>

theorem pid_states_typed:
  assumes "mp2t_reachable fresh C s" "(pid, d) \<in> set (mp_pids s)"
  shows "pd_pid d = pid \<and> section_type (pd_pid_type d) (pd_section_parser d) \<and>
    (\<forall>p dat u ok events u' d' e. PushTsPacket fresh (cl_es C) p dat u d = Some (ok, events, u', d') \<longrightarrow>
       e \<in> set events \<longrightarrow> event_type (pd_pid_type d) e)"
proof -
  have d: "pid_typed pid d" using reachable_ok [OF assms(1)] assms(2) by (auto simp: pid_filter_ok_def pids_ok_def)
  then have "event_type (pd_pid_type d) e"
    if "PushTsPacket fresh (cl_es C) p dat u d = Some (ok, events, u', d')" "e \<in> set events" for p dat u ok events u' d' e
    using that by (auto simp: PushTsPacket_def Let_def pid_typed_def split: if_splits dest: section_events)
  then show ?thesis using d by (auto simp: pid_typed_def)
qed

theorem pid_states_typed_witness:
  "pd_pid sample_pat = 0 \<and> section_type kPidPat (pd_section_parser sample_pat)"
proof -
  obtain q where "mp2t_reachable (\<lambda>_. 0) sample_client
      (sample_start\<lparr>mp_ts_byte_queue := q, mp_pids := [(0, sample_pat)]\<rparr>)" by (rule sample_reachable)
  from pid_states_typed [OF this, of 0 sample_pat] show ?thesis
    by (simp add: sample_pat_def PidState_Enable_def PidState_init_def)
qed

text \<open>The PID that the filter selects: the lowest of the type.\<close>

definition lowest_of :: "pid_type \<Rightarrow> ('e, 'a, 'v, 'b, 'w) mp2t_parser \<Rightarrow> int" where
  "lowest_of type s =
     (let pids = fst ` {e \<in> set (mp_pids s). pd_pid_type (snd e) = type} in if pids = {} then - 1 else Min pids)"

lemma lowest_of_first:
  assumes "sorted (map fst (mp_pids s))"
  shows "first_pid (pids_of type (mp_pids s)) = lowest_of type s"
proof -
  have s: "sorted (pids_of type (mp_pids s))" using assms by (simp add: pids_of_def sorted_filter)
  have set: "fst ` {e \<in> set (mp_pids s). pd_pid_type (snd e) = type} = set (pids_of type (mp_pids s))"
    by (simp add: pids_of_def)
  have "first_pid xs = (if set xs = {} then - 1 else Min (set xs))" if "sorted xs" for xs
    using that by (cases xs) (auto simp: first_pid_def intro!: Min_eqI [symmetric])
  then show ?thesis using s by (simp add: lowest_of_def Let_def set)
qed

text \<open>
  C8: the PID filter. In every reachable state the PIDs are distinct and at most one of them is a
  PMT; the selected audio and video PIDs are the lowest of their type, and exactly the tables and
  these two are enabled, whatever the order in which the streams were announced.
\<close>

theorem pid_filter_invariant:
  assumes "mp2t_reachable fresh C s"
  shows "distinct (map fst (mp_pids s)) \<and> length (filter (\<lambda>e. pd_pid_type (snd e) = kPidPmt) (mp_pids s)) \<le> 1 \<and>
    mp_selected_audio_pid s = lowest_of kPidAudioPes s \<and> mp_selected_video_pid s = lowest_of kPidVideoPes s \<and>
    (\<forall>(pid, d)\<in>set (mp_pids s). pd_enable d \<longleftrightarrow>
       pd_pid_type d = kPidPat \<or> pd_pid_type d = kPidPmt \<or>
       pd_pid_type d = kPidAudioPes \<and> pid = mp_selected_audio_pid s \<or>
       pd_pid_type d = kPidVideoPes \<and> pid = mp_selected_video_pid s)"
proof -
  have ok: "pids_ok (mp_pids s)" "pids_filtered (mp_pids s)"
    "mp_selected_audio_pid s = first_pid (pids_of kPidAudioPes (mp_pids s))"
    "mp_selected_video_pid s = first_pid (pids_of kPidVideoPes (mp_pids s))"
    using reachable_ok [OF assms] by (auto simp: pid_filter_ok_def)
  have enabled: "pd_enable d \<longleftrightarrow>
       pd_pid_type d = kPidPat \<or> pd_pid_type d = kPidPmt \<or>
       pd_pid_type d = kPidAudioPes \<and> pid = mp_selected_audio_pid s \<or>
       pd_pid_type d = kPidVideoPes \<and> pid = mp_selected_video_pid s" if "(pid, d) \<in> set (mp_pids s)" for pid d
    using ok(2) [unfolded pids_filtered_def, rule_format, OF that] ok(3,4)
    by (auto split: pid_type.splits)
  have "sorted (map fst (mp_pids s))" using ok(1) by (simp add: pids_ok_def)
  from ok enabled lowest_of_first [OF this, of kPidAudioPes] lowest_of_first [OF this, of kPidVideoPes]
  show ?thesis by (auto simp: pids_ok_def pids_of_def)
qed

theorem pid_filter_invariant_witness: "pd_enable sample_pat"
proof -
  obtain q where "mp2t_reachable (\<lambda>_. 0) sample_client
      (sample_start\<lparr>mp_ts_byte_queue := q, mp_pids := [(0, sample_pat)]\<rparr>)" by (rule sample_reachable)
  from pid_filter_invariant [OF this] show ?thesis
    by (simp add: sample_pat_def PidState_Enable_def PidState_init_def)
qed

text \<open>
  C38: the continuity counter of the packets is never checked: in every reachable state a PID treats
  all packets alike that differ in the counter only. \<open>PushTsPacket\<close> compares the counter with the
  one stored for the PID, but nothing ever stores it.
\<close>

theorem continuity_never_checked:
  assumes "mp2t_reachable fresh C s" "(pid, d) \<in> set (mp_pids s)"
  shows "PushTsPacket fresh (cl_es C) (p\<lparr>ts_continuity_counter := c\<rparr>) dat u d = PushTsPacket fresh (cl_es C) p dat u d"
proof -
  have "pd_continuity_counter d = - 1"
    using reachable_ok [OF assms(1)] assms(2) by (auto simp: pid_filter_ok_def pids_ok_def pid_typed_def)
  then show ?thesis by (simp add: PushTsPacket_def)
qed

definition sample_ts :: ts_packet where
  "sample_ts = \<lparr>ts_payload = 4, ts_payload_size = 184, ts_payload_unit_start_indicator = False,
     ts_pid = 0, ts_continuity_counter = 0, ts_discontinuity_indicator = False, ts_random_access_indicator = False\<rparr>"

theorem continuity_never_checked_witness:
  "PushTsPacket (\<lambda>_. 0) (cl_es sample_client) (sample_ts\<lparr>ts_continuity_counter := 9\<rparr>) sample_data TimestampUnroller_init sample_pat =
   Some (True, [], TimestampUnroller_init, sample_pat)"
proof -
  obtain q where "mp2t_reachable (\<lambda>_. 0) sample_client
      (sample_start\<lparr>mp_ts_byte_queue := q, mp_pids := [(0, sample_pat)]\<rparr>)" by (rule sample_reachable)
  from continuity_never_checked [OF this, of 0 sample_pat] show ?thesis
    by (simp add: sample_push sample_ts_def)
qed

theorem Parse_terminates_witness:
  "\<exists>s'. Mp2tStreamParser_Parse (\<lambda>_. 0) sample_client sample_data sample_start = Some (True, s') \<and>
     used (mp_ts_byte_queue s') < kPacketSize"
proof -
  have "mp_ts_byte_queue sample_start = ByteQueue_init (\<lambda>_. 0)"
    by (simp add: sample_start_def Mp2tStreamParser_init_def)
  then have s: "ByteQueue_ok (mp_ts_byte_queue sample_start)" "length (received sample_data sample_start) < 2 ^ 31"
    using ByteQueue_init_ok [of "\<lambda>_. 0"] sample_header(2) by (simp_all add: received_def)
  have "sample_data \<noteq> []" by (simp add: sample_data_def)
  obtain q where run: "Mp2tStreamParser_Parse (\<lambda>_. 0) sample_client sample_data sample_start =
      Some (True, sample_start\<lparr>mp_ts_byte_queue := q, mp_pids := [(0, sample_pat)]\<rparr>)"
    using sample_ts_run by blast
  have otherwise: "(if P then Q else R) \<Longrightarrow> \<not> Q \<Longrightarrow> R" for P Q R by (simp split: if_splits)
  from Parse_terminates [OF s(1) \<open>sample_data \<noteq> []\<close> s(2), of "\<lambda>_. 0" sample_client] show ?thesis
    using run by (elim exE conjE) (drule otherwise, simp, auto)
qed

end
