(* ===== verification/Source_Buffer_Range.thy ===== *)
theory Source_Buffer_Range
  imports Media_Prelude "HOL-Library.Monad_Syntax"
begin

text \<open>
  \<open>SourceBufferRange\<close> and \<open>SourceBufferRangeByPts\<close> (\<open>filters/source_buffer_range.cc\<close>,
  \<open>filters/source_buffer_range_by_pts.cc\<close>): one contiguous piece of the buffered media of a Media
  Source stream, a queue of coded frames in decode order with an index of its keyframes by
  presentation time and the position of the reader.

  Times are microseconds. Buffers are shared objects: a buffer carries its address, and a change
  of the last buffer's duration is also seen through the pointer \<open>highest_frame_\<close>. The result of
  the callback \<open>interbuffer_distance_cb_\<close> is the argument \<open>D\<close>. A failing check or an access out
  of bounds is \<open>None\<close>.
\<close>

section \<open>Buffers\<close>

datatype stream_type = UNKNOWN | AUDIO | VIDEO | TEXT

record sp_buffer =
  b_address :: nat
  b_type :: stream_type
  b_timestamp :: int
  b_decode_timestamp :: int
  b_duration :: int
  b_is_duration_estimated :: bool
  b_is_key_frame :: bool
  b_config_id :: int
  b_data_size :: nat

definition GetDecodeTimestamp :: "sp_buffer \<Rightarrow> int" where
  "GetDecodeTimestamp b =
     (if b_decode_timestamp b = kNoTimestamp then b_timestamp b else b_decode_timestamp b)"

definition dcheck :: "bool \<Rightarrow> unit option" where
  "dcheck b = (if b then Some () else None)"

text \<open>\<open>set_duration\<close> on the object at an address, seen in a list of pointers.\<close>

definition set_duration_at :: "nat \<Rightarrow> int \<Rightarrow> sp_buffer \<Rightarrow> sp_buffer" where
  "set_duration_at a d b = (if b_address b = a then b\<lparr>b_duration := d\<rparr> else b)"

section \<open>The base class\<close>

datatype gap_policy = NO_GAPS_ALLOWED | ALLOW_GAPS

text \<open>The keyframe map is ascending; its positions are offset by the index base.\<close>

record range =
  r_gap_policy :: gap_policy
  r_buffers :: "sp_buffer list"
  r_next_buffer_index :: int
  r_highest_frame :: "sp_buffer option"
  r_size_in_bytes :: nat
  r_range_start_pts :: int
  r_keyframe_map_index_base :: int
  r_keyframe_map :: "(int \<times> int) list"

definition IsUncommonSameTimestampSequence :: "bool \<Rightarrow> bool \<Rightarrow> bool" where
  "IsUncommonSameTimestampSequence prev_is_keyframe current_is_keyframe \<longleftrightarrow>
     current_is_keyframe \<and> \<not> prev_is_keyframe"

definition Range_SeekToStart :: "range \<Rightarrow> range option" where
  "Range_SeekToStart r = do { dcheck (r_buffers r \<noteq> []); Some (r\<lparr>r_next_buffer_index := 0\<rparr>) }"

definition Range_HasNextBuffer :: "range \<Rightarrow> bool" where
  "Range_HasNextBuffer r \<longleftrightarrow> r_next_buffer_index r \<ge> 0 \<and> r_next_buffer_index r < int (length (r_buffers r))"

definition Range_GetNextBuffer :: "range \<Rightarrow> sp_buffer option \<times> range" where
  "Range_GetNextBuffer r =
     (if \<not> Range_HasNextBuffer r then (None, r)
      else (Some (r_buffers r ! nat (r_next_buffer_index r)),
            r\<lparr>r_next_buffer_index := r_next_buffer_index r + 1\<rparr>))"

definition Range_GetNextConfigId :: "range \<Rightarrow> int option" where
  "Range_GetNextConfigId r = do {
     dcheck (Range_HasNextBuffer r);
     Some (b_config_id (r_buffers r ! nat (r_next_buffer_index r))) }"

definition Range_HasNextBufferPosition :: "range \<Rightarrow> bool" where
  "Range_HasNextBufferPosition r \<longleftrightarrow> r_next_buffer_index r \<ge> 0"

definition Range_ResetNextBufferPosition :: "range \<Rightarrow> range" where
  "Range_ResetNextBufferPosition r = r\<lparr>r_next_buffer_index := - 1\<rparr>"

definition GetRangeEndTimesForTesting :: "range \<Rightarrow> (int \<times> int) option" where
  "GetRangeEndTimesForTesting r =
     (case r_highest_frame r of
        Some b \<Rightarrow> do {
          let highest_pts = b_timestamp b;
          let end_time = highest_pts + b_duration b;
          dcheck (highest_pts \<noteq> kNoTimestamp);
          dcheck (end_time \<noteq> kNoTimestamp);
          Some (highest_pts, end_time) }
      | None \<Rightarrow> Some (kNoTimestamp, kNoTimestamp))"

definition AdjustEstimatedDurationForNewAppend :: "sp_buffer list \<Rightarrow> range \<Rightarrow> range option" where
  "AdjustEstimatedDurationForNewAppend new_buffers r =
     (if r_buffers r = [] \<or> new_buffers = [] then Some r
      else if b_type (hd (r_buffers r)) = AUDIO then Some r
      else
        let last_appended_buffer = last (r_buffers r) in
        if b_is_duration_estimated last_appended_buffer then do {
          let timestamp_delta = b_timestamp (hd new_buffers) - b_timestamp last_appended_buffer;
          dcheck (timestamp_delta \<ge> 0);
          Some (if b_duration last_appended_buffer \<noteq> timestamp_delta then
              let set = set_duration_at (b_address last_appended_buffer) timestamp_delta
              in r\<lparr>r_buffers := map set (r_buffers r), r_highest_frame := map_option set (r_highest_frame r)\<rparr>
            else r) }
        else Some r)"

text \<open>\<open>FreeBufferRange\<close> from \<open>i\<close> to the end of the queue, as it is called.\<close>

fun free_sizes :: "sp_buffer list \<Rightarrow> nat \<Rightarrow> nat option" where
  "free_sizes [] n = Some n"
| "free_sizes (b # bs) n = do { dcheck (n \<ge> b_data_size b); free_sizes bs (n - b_data_size b) }"

definition FreeBufferRange :: "nat \<Rightarrow> range \<Rightarrow> range option" where
  "FreeBufferRange i r = do {
     n \<leftarrow> free_sizes (drop i (r_buffers r)) (r_size_in_bytes r);
     Some (r\<lparr>r_buffers := take i (r_buffers r), r_size_in_bytes := n\<rparr>) }"

definition GetApproximateDuration :: "int \<Rightarrow> int option" where
  "GetApproximateDuration D = do { dcheck (D \<noteq> kNoTimestamp); Some D }"

definition GetFudgeRoom :: "int \<Rightarrow> int option" where
  "GetFudgeRoom D = map_option (\<lambda>d. 2 * d) (GetApproximateDuration D)"

definition UpdateEndTime :: "sp_buffer \<Rightarrow> range \<Rightarrow> range option" where
  "UpdateEndTime b r = do {
     dcheck (b_timestamp b \<noteq> kNoTimestamp);
     dcheck (b_timestamp b \<ge> 0);
     dcheck (b_duration b \<ge> 0);
     Some (case r_highest_frame r of
         None \<Rightarrow> r\<lparr>r_highest_frame := Some b\<rparr>
       | Some h \<Rightarrow>
           if b_timestamp h < b_timestamp b \<or> b_timestamp h = b_timestamp b \<and> b_duration h \<le> b_duration b
           then r\<lparr>r_highest_frame := Some b\<rparr> else r) }"

text \<open>The comparison shared by both sequence tests, the fudge room being read only if needed.\<close>

definition is_next_after :: "int \<Rightarrow> int \<Rightarrow> int \<Rightarrow> range \<Rightarrow> bool option" where
  "is_next_after D highest timestamp r =
     (if highest = timestamp then Some True
      else if \<not> highest < timestamp then Some False
      else if r_gap_policy r = ALLOW_GAPS then Some True
      else map_option (\<lambda>fudge. timestamp \<le> highest + fudge) (GetFudgeRoom D))"

definition IsNextInPresentationSequence :: "int \<Rightarrow> int \<Rightarrow> range \<Rightarrow> bool option" where
  "IsNextInPresentationSequence D timestamp r = do {
     dcheck (timestamp \<noteq> kNoTimestamp);
     dcheck (r_buffers r \<noteq> []);
     h \<leftarrow> r_highest_frame r;
     dcheck (b_timestamp h \<noteq> kNoTimestamp);
     is_next_after D (b_timestamp h) timestamp r }"

definition IsNextInDecodeSequence :: "int \<Rightarrow> int \<Rightarrow> range \<Rightarrow> bool option" where
  "IsNextInDecodeSequence D decode_timestamp r = do {
     dcheck (r_buffers r \<noteq> []);
     is_next_after D (GetDecodeTimestamp (last (r_buffers r))) decode_timestamp r }"

section \<open>The range by presentation time\<close>

subsection \<open>Times\<close>

definition Range_GetStartTimestamp :: "range \<Rightarrow> int option" where
  "Range_GetStartTimestamp r = do {
     dcheck (r_buffers r \<noteq> []);
     Some (if r_range_start_pts r = kNoTimestamp then b_timestamp (hd (r_buffers r)) else r_range_start_pts r) }"

definition Range_GetEndTimestamp :: "range \<Rightarrow> int option" where
  "Range_GetEndTimestamp r = do {
     dcheck (r_buffers r \<noteq> []);
     h \<leftarrow> r_highest_frame r;
     Some (b_timestamp h) }"

definition Range_GetBufferedEndTimestamp :: "range \<Rightarrow> int option" where
  "Range_GetBufferedEndTimestamp r = do {
     dcheck (r_buffers r \<noteq> []);
     h \<leftarrow> r_highest_frame r;
     dcheck (b_duration h \<noteq> kNoTimestamp);
     let duration = (if b_duration h = 0 then 1 else b_duration h);
     end \<leftarrow> Range_GetEndTimestamp r;
     Some (end + duration) }"

definition Range_BelongsToRange :: "int \<Rightarrow> int \<Rightarrow> range \<Rightarrow> bool option" where
  "Range_BelongsToRange D timestamp r = do {
     dcheck (r_buffers r \<noteq> []);
     next \<leftarrow> IsNextInPresentationSequence D timestamp r;
     if next then Some True
     else do {
       start \<leftarrow> Range_GetStartTimestamp r;
       end \<leftarrow> Range_GetEndTimestamp r;
       Some (start \<le> timestamp \<and> timestamp \<le> end) } }"

subsection \<open>The keyframe map\<close>

text \<open>An iterator is a position in the map; the length of the map is its end.\<close>

definition GetFirstKeyframeAt :: "int \<Rightarrow> bool \<Rightarrow> range \<Rightarrow> nat" where
  "GetFirstKeyframeAt timestamp skip_given_timestamp r =
     (if skip_given_timestamp then length (takeWhile (\<lambda>e. fst e \<le> timestamp) (r_keyframe_map r))
      else length (takeWhile (\<lambda>e. fst e < timestamp) (r_keyframe_map r)))"

definition GetFirstKeyframeAtOrBefore :: "int \<Rightarrow> range \<Rightarrow> nat" where
  "GetFirstKeyframeAtOrBefore timestamp r =
     (let result = length (takeWhile (\<lambda>e. fst e < timestamp) (r_keyframe_map r)) in
      if result \<noteq> 0 \<and> (result = length (r_keyframe_map r) \<or> fst (r_keyframe_map r ! result) \<noteq> timestamp)
      then result - 1 else result)"

text \<open>The index in the queue of the keyframe an iterator points to; the end has none.\<close>

definition keyframe_index :: "nat \<Rightarrow> range \<Rightarrow> int option" where
  "keyframe_index i r = do {
     dcheck (i < length (r_keyframe_map r));
     Some (snd (r_keyframe_map r ! i) - r_keyframe_map_index_base r) }"

text \<open>The same, with the end of the queue for the end of the map.\<close>

definition gop_start :: "nat \<Rightarrow> range \<Rightarrow> int" where
  "gop_start i r =
     (if i < length (r_keyframe_map r) then snd (r_keyframe_map r ! i) - r_keyframe_map_index_base r
      else int (length (r_buffers r)))"

text \<open>An iterator into the queue must stay inside it.\<close>

definition buffer_at :: "int \<Rightarrow> range \<Rightarrow> nat option" where
  "buffer_at i r = do { dcheck (0 \<le> i \<and> i \<le> int (length (r_buffers r))); Some (nat i) }"

subsection \<open>Appending\<close>

definition AllowableAppendAfterEstimatedDuration :: "sp_buffer list \<Rightarrow> int \<Rightarrow> range \<Rightarrow> bool option" where
  "AllowableAppendAfterEstimatedDuration new_buffers group_start r =
     (if r_buffers r = [] \<or> \<not> b_is_duration_estimated (last (r_buffers r)) \<or> new_buffers = [] \<or>
         \<not> b_is_key_frame (hd new_buffers) then Some False
      else map_option (\<lambda>end. end = (if group_start = kNoTimestamp then b_timestamp (hd new_buffers) else group_start))
        (Range_GetBufferedEndTimestamp r))"

definition CanAppendBuffersToEnd :: "int \<Rightarrow> sp_buffer list \<Rightarrow> int \<Rightarrow> range \<Rightarrow> bool option" where
  "CanAppendBuffersToEnd D new_buffers group_start r = do {
     dcheck (r_buffers r \<noteq> []);
     dcheck (new_buffers \<noteq> []);
     if group_start = kNoTimestamp then
       if b_is_key_frame (hd new_buffers) then do {
         next \<leftarrow> IsNextInPresentationSequence D (b_timestamp (hd new_buffers)) r;
         if next then Some True else AllowableAppendAfterEstimatedDuration new_buffers group_start r }
       else IsNextInDecodeSequence D (GetDecodeTimestamp (hd new_buffers)) r
     else do {
       dcheck (b_is_key_frame (hd new_buffers));
       end \<leftarrow> Range_GetEndTimestamp r;
       dcheck (group_start \<ge> end);
       dcheck (b_timestamp (hd new_buffers) \<ge> group_start);
       next \<leftarrow> IsNextInPresentationSequence D group_start r;
       if next then Some True else AllowableAppendAfterEstimatedDuration new_buffers group_start r } }"

fun append_loop :: "sp_buffer list \<Rightarrow> range \<Rightarrow> range option" where
  "append_loop [] r = Some r"
| "append_loop (b # bs) r = do {
     dcheck (b_timestamp b \<noteq> kNoTimestamp);
     dcheck (GetDecodeTimestamp b \<noteq> kNoTimestamp);
     let r = r\<lparr>r_buffers := r_buffers r @ [b]\<rparr>;
     r \<leftarrow> UpdateEndTime b r;
     let r = r\<lparr>r_size_in_bytes := r_size_in_bytes r + b_data_size b\<rparr>;
     append_loop bs
       (if b_is_key_frame b
        then r\<lparr>r_keyframe_map := map_insert (b_timestamp b)
               (int (length (r_buffers r)) - 1 + r_keyframe_map_index_base r) (r_keyframe_map r)\<rparr>
        else r) }"

definition AppendBuffersToEnd :: "int \<Rightarrow> sp_buffer list \<Rightarrow> int \<Rightarrow> range \<Rightarrow> range option" where
  "AppendBuffersToEnd D new_buffers group_start r = do {
     can \<leftarrow> (if r_buffers r = [] then Some True else CanAppendBuffersToEnd D new_buffers group_start r);
     dcheck can;
     key \<leftarrow> (if group_start = kNoTimestamp then Some True
            else do { dcheck (new_buffers \<noteq> []); Some (b_is_key_frame (hd new_buffers)) });
     dcheck key;
     r \<leftarrow> AdjustEstimatedDurationForNewAppend new_buffers r;
     append_loop new_buffers r }"

definition Range_new :: "int \<Rightarrow> gap_policy \<Rightarrow> sp_buffer list \<Rightarrow> int \<Rightarrow> range option" where
  "Range_new D gap_policy new_buffers range_start_pts = do {
     dcheck (new_buffers \<noteq> []);
     dcheck (b_is_key_frame (hd new_buffers));
     AppendBuffersToEnd D new_buffers range_start_pts
       \<lparr>r_gap_policy = gap_policy, r_buffers = [], r_next_buffer_index = - 1, r_highest_frame = None,
        r_size_in_bytes = 0, r_range_start_pts = range_start_pts, r_keyframe_map_index_base = 0,
        r_keyframe_map = []\<rparr> }"

definition NextRangeStartTimeForAppendRangeToEnd :: "range \<Rightarrow> range \<Rightarrow> int option" where
  "NextRangeStartTimeForAppendRangeToEnd other r = do {
     dcheck (r_buffers r \<noteq> []);
     dcheck (r_buffers other \<noteq> []);
     let next_range_first_buffer_time = b_timestamp (hd (r_buffers other));
     this_range_end_time \<leftarrow> Range_GetEndTimestamp r;
     if next_range_first_buffer_time < this_range_end_time then Some kNoTimestamp
     else do {
       next_range_start_time \<leftarrow> Range_GetStartTimestamp other;
       dcheck (next_range_start_time \<le> next_range_first_buffer_time);
       Some (if next_range_start_time \<ge> this_range_end_time then next_range_start_time
             else this_range_end_time) } }"

definition CanAppendRangeToEnd :: "int \<Rightarrow> range \<Rightarrow> range \<Rightarrow> bool option" where
  "CanAppendRangeToEnd D other r = do {
     start \<leftarrow> NextRangeStartTimeForAppendRangeToEnd other r;
     CanAppendBuffersToEnd D (r_buffers other) start r }"

definition AppendRangeToEnd :: "int \<Rightarrow> range \<Rightarrow> bool \<Rightarrow> range \<Rightarrow> range option" where
  "AppendRangeToEnd D other transfer_current_position r = do {
     can \<leftarrow> CanAppendRangeToEnd D other r;
     dcheck can;
     dcheck (r_buffers r \<noteq> []);
     let r = (if transfer_current_position \<and> r_next_buffer_index other \<ge> 0
              then r\<lparr>r_next_buffer_index := r_next_buffer_index other + int (length (r_buffers r))\<rparr> else r);
     start \<leftarrow> NextRangeStartTimeForAppendRangeToEnd other r;
     AppendBuffersToEnd D (r_buffers other) start r }"

subsection \<open>Seeking\<close>

definition Range_CanSeekTo :: "int \<Rightarrow> int \<Rightarrow> range \<Rightarrow> bool option" where
  "Range_CanSeekTo D timestamp r = do {
     start \<leftarrow> Range_GetStartTimestamp r;
     fudge \<leftarrow> GetFudgeRoom D;
     if r_keyframe_map r \<noteq> [] \<and> max 0 (start - fudge) \<le> timestamp
     then map_option (\<lambda>end. timestamp < end) (Range_GetBufferedEndTimestamp r)
     else Some False }"

definition Range_Seek :: "int \<Rightarrow> int \<Rightarrow> range \<Rightarrow> range option" where
  "Range_Seek D timestamp r = do {
     can \<leftarrow> Range_CanSeekTo D timestamp r;
     dcheck can;
     dcheck (r_keyframe_map r \<noteq> []);
     i \<leftarrow> keyframe_index (GetFirstKeyframeAtOrBefore timestamp r) r;
     dcheck (i < int (length (r_buffers r)));
     Some (r\<lparr>r_next_buffer_index := i\<rparr>) }"

definition Range_GetConfigIdAtTime :: "int \<Rightarrow> int \<Rightarrow> range \<Rightarrow> int option" where
  "Range_GetConfigIdAtTime D timestamp r = do {
     can \<leftarrow> Range_CanSeekTo D timestamp r;
     dcheck can;
     dcheck (r_keyframe_map r \<noteq> []);
     i \<leftarrow> keyframe_index (GetFirstKeyframeAtOrBefore timestamp r) r;
     dcheck (0 \<le> i \<and> i < int (length (r_buffers r)));
     Some (b_config_id (r_buffers r ! nat i)) }"

fun same_config_loop :: "int \<Rightarrow> int \<Rightarrow> sp_buffer list \<Rightarrow> bool" where
  "same_config_loop config end [] = True"
| "same_config_loop config end (b # bs) =
     (if \<not> b_timestamp b \<le> end then True
      else if b_config_id b \<noteq> config then False
      else same_config_loop config end bs)"

definition Range_SameConfigThruRange :: "int \<Rightarrow> int \<Rightarrow> int \<Rightarrow> range \<Rightarrow> bool option" where
  "Range_SameConfigThruRange D start end r = do {
     can \<leftarrow> Range_CanSeekTo D start r;
     dcheck can;
     can \<leftarrow> Range_CanSeekTo D end r;
     dcheck can;
     dcheck (start \<le> end);
     dcheck (r_keyframe_map r \<noteq> []);
     if start = end then Some True
     else do {
       i \<leftarrow> keyframe_index (GetFirstKeyframeAtOrBefore start r) r;
       dcheck (0 \<le> i \<and> i < int (length (r_buffers r)));
       Some (same_config_loop (b_config_id (r_buffers r ! nat i)) end (drop (nat i + 1) (r_buffers r))) } }"

definition Range_GetNextTimestamp :: "range \<Rightarrow> int option" where
  "Range_GetNextTimestamp r = do {
     dcheck (r_buffers r \<noteq> []);
     dcheck (Range_HasNextBufferPosition r);
     Some (if r_next_buffer_index r \<ge> int (length (r_buffers r)) then kNoTimestamp
           else b_timestamp (r_buffers r ! nat (r_next_buffer_index r))) }"

subsection \<open>Removal\<close>

fun update_end_loop :: "sp_buffer list \<Rightarrow> range \<Rightarrow> range option" where
  "update_end_loop [] r = Some r"
| "update_end_loop (b # bs) r = do { r \<leftarrow> UpdateEndTime b r; update_end_loop bs r }"

definition UpdateEndTimeUsingLastGOP :: "range \<Rightarrow> range option" where
  "UpdateEndTimeUsingLastGOP r =
     (if r_buffers r = [] then Some (r\<lparr>r_highest_frame := None\<rparr>)
      else do {
        let r = r\<lparr>r_highest_frame := None\<rparr>;
        dcheck (r_keyframe_map r \<noteq> []);
        i \<leftarrow> buffer_at (gop_start (length (r_keyframe_map r) - 1) r) r;
        r \<leftarrow> update_end_loop (drop i (r_buffers r)) r;
        dcheck (r_highest_frame r \<noteq> None);
        Some r })"

text \<open>A null \<open>deleted_buffers\<close> is \<open>None\<close>.\<close>

definition Range_TruncateAt_index ::
  "nat \<Rightarrow> sp_buffer list option \<Rightarrow> range \<Rightarrow> (bool \<times> sp_buffer list option \<times> range) option" where
  "Range_TruncateAt_index starting_point deleted_buffers r = do {
     dcheck (starting_point \<le> length (r_buffers r));
     dcheck (deleted_buffers = None \<or> deleted_buffers = Some []);
     if starting_point = length (r_buffers r) then Some (r_buffers r = [], deleted_buffers, r)
     else do {
       let (deleted_buffers, r) =
         (if Range_HasNextBufferPosition r \<and> nat (r_next_buffer_index r) \<ge> starting_point then
            (if Range_HasNextBuffer r \<and> deleted_buffers \<noteq> None
             then Some (drop (nat (r_next_buffer_index r)) (r_buffers r)) else deleted_buffers,
             Range_ResetNextBufferPosition r)
          else (deleted_buffers, r));
       let t = b_timestamp (r_buffers r ! starting_point);
       let r = r\<lparr>r_keyframe_map := takeWhile (\<lambda>e. fst e < t) (r_keyframe_map r)\<rparr>;
       r \<leftarrow> FreeBufferRange starting_point r;
       r \<leftarrow> UpdateEndTimeUsingLastGOP r;
       Some (r_buffers r = [], deleted_buffers, r) } }"

definition Range_DeleteAll :: "sp_buffer list option \<Rightarrow> range \<Rightarrow> (sp_buffer list option \<times> range) option" where
  "Range_DeleteAll deleted_buffers r = map_option snd (Range_TruncateAt_index 0 deleted_buffers r)"

text \<open>The scan of a group of pictures for the first frame at or after the time.\<close>

fun buffer_index_loop :: "int \<Rightarrow> bool \<Rightarrow> nat \<Rightarrow> sp_buffer list \<Rightarrow> nat" where
  "buffer_index_loop timestamp skip i [] = i"
| "buffer_index_loop timestamp skip i (b # bs) =
     (if b_timestamp b > timestamp \<or> \<not> skip \<and> b_timestamp b = timestamp then i
      else buffer_index_loop timestamp skip (i + 1) bs)"

definition GetBufferIndexAt :: "int \<Rightarrow> bool \<Rightarrow> range \<Rightarrow> nat option" where
  "GetBufferIndexAt timestamp skip_given_timestamp r =
     (let g = GetFirstKeyframeAtOrBefore timestamp r in
      if g = length (r_keyframe_map r) then Some (length (r_buffers r))
      else do {
        dcheck (r_buffers r \<noteq> []);
        i \<leftarrow> buffer_at (gop_start g r) r;
        j \<leftarrow> buffer_at (gop_start (g + 1) r) r;
        dcheck (i \<le> j);
        Some (buffer_index_loop timestamp skip_given_timestamp i (drop i (take j (r_buffers r)))) })"

definition Range_TruncateAt ::
  "int \<Rightarrow> sp_buffer list option \<Rightarrow> bool \<Rightarrow> range \<Rightarrow> (bool \<times> sp_buffer list option \<times> range) option" where
  "Range_TruncateAt timestamp deleted_buffers is_exclusive r = do {
     i \<leftarrow> GetBufferIndexAt timestamp is_exclusive r;
     Range_TruncateAt_index i deleted_buffers r }"

definition Range_SplitRange :: "int \<Rightarrow> int \<Rightarrow> range \<Rightarrow> (range option \<times> range) option" where
  "Range_SplitRange D timestamp r = do {
     dcheck (r_buffers r \<noteq> []);
     let k = GetFirstKeyframeAt timestamp False r;
     if k = length (r_keyframe_map r) then Some (None, r)
     else do {
       i \<leftarrow> keyframe_index k r;
       dcheck (0 \<le> i \<and> i < int (length (r_buffers r)));
       let removed_buffers = drop (nat i) (r_buffers r);
       start \<leftarrow> Range_GetStartTimestamp r;
       let new_range_start_pts = max timestamp start;
       dcheck (new_range_start_pts \<le> b_timestamp (hd removed_buffers));
       let r = r\<lparr>r_keyframe_map := take k (r_keyframe_map r)\<rparr>;
       r \<leftarrow> FreeBufferRange (nat i) r;
       r \<leftarrow> UpdateEndTimeUsingLastGOP r;
       split_range \<leftarrow> Range_new D (r_gap_policy r) removed_buffers new_range_start_pts;
       if r_next_buffer_index r \<ge> int (length (r_buffers r)) then do {
         let split_range = split_range\<lparr>r_next_buffer_index := r_next_buffer_index r - i\<rparr>;
         dcheck (r_next_buffer_index split_range \<ge> 0);
         dcheck (r_next_buffer_index split_range \<le> int (length (r_buffers split_range)));
         Some (Some split_range, Range_ResetNextBufferPosition r) }
       else Some (Some split_range, r) } }"

subsection \<open>Groups of pictures\<close>

definition FirstGOPContainsNextBufferPosition :: "range \<Rightarrow> bool option" where
  "FirstGOPContainsNextBufferPosition r =
     (if \<not> Range_HasNextBufferPosition r then Some False
      else if length (r_keyframe_map r) = 1 then Some True
      else map_option (\<lambda>i. r_next_buffer_index r < i) (keyframe_index 1 r))"

definition LastGOPContainsNextBufferPosition :: "range \<Rightarrow> bool option" where
  "LastGOPContainsNextBufferPosition r =
     (if \<not> Range_HasNextBufferPosition r then Some False
      else if length (r_keyframe_map r) = 1 then Some True
      else map_option (\<lambda>i. i \<le> r_next_buffer_index r) (keyframe_index (length (r_keyframe_map r) - 1) r))"

definition FirstGOPEarlierThanMediaTime :: "int \<Rightarrow> range \<Rightarrow> bool option" where
  "FirstGOPEarlierThanMediaTime media_time r =
     (if length (r_keyframe_map r) = 1
      then map_option (\<lambda>end. end \<le> media_time) (Range_GetBufferedEndTimestamp r)
      else do {
        dcheck (1 < length (r_keyframe_map r));
        Some (fst (r_keyframe_map r ! 1) \<le> media_time) })"

text \<open>The loops move a buffer at a time; they return the bytes and the buffers deleted.\<close>

fun delete_front_loop ::
  "nat \<Rightarrow> nat \<Rightarrow> sp_buffer list \<Rightarrow> range \<Rightarrow> (nat \<times> sp_buffer list \<times> range) option" where
  "delete_front_loop 0 total_bytes deleted r = Some (total_bytes, deleted, r)"
| "delete_front_loop (Suc n) total_bytes deleted r =
     (case r_buffers r of
        [] \<Rightarrow> None
      | b # bs \<Rightarrow> do {
          dcheck (r_size_in_bytes r \<ge> b_data_size b);
          delete_front_loop n (total_bytes + b_data_size b) (deleted @ [b])
            (r\<lparr>r_size_in_bytes := r_size_in_bytes r - b_data_size b, r_buffers := bs\<rparr>) })"

definition Range_DeleteGOPFromFront :: "sp_buffer list \<Rightarrow> range \<Rightarrow> (nat \<times> sp_buffer list \<times> range) option" where
  "Range_DeleteGOPFromFront deleted_buffers r = do {
     dcheck (r_buffers r \<noteq> []);
     contains \<leftarrow> FirstGOPContainsNextBufferPosition r;
     dcheck (\<not> contains);
     dcheck (r_keyframe_map r \<noteq> []);
     let r = r\<lparr>r_keyframe_map := tl (r_keyframe_map r)\<rparr>;
     let buffers_deleted = nat (gop_start 0 r);
     (total_bytes_deleted, deleted_buffers, r) \<leftarrow> delete_front_loop buffers_deleted 0 deleted_buffers r;
     let r = r\<lparr>r_keyframe_map_index_base := r_keyframe_map_index_base r + int buffers_deleted\<rparr>;
     r \<leftarrow> (if r_next_buffer_index r > - 1 then do {
           let r = r\<lparr>r_next_buffer_index := r_next_buffer_index r - int buffers_deleted\<rparr>;
           dcheck (r_next_buffer_index r \<ge> 0);
           Some r } else Some r);
     let r = (if buffers_deleted > 0 then
         let r = r\<lparr>r_range_start_pts := kNoTimestamp\<rparr>
         in if r_buffers r = [] then r\<lparr>r_highest_frame := None\<rparr> else r
       else r);
     Some (total_bytes_deleted, deleted_buffers, r) }"

function delete_back_loop ::
  "int \<Rightarrow> nat \<Rightarrow> sp_buffer list \<Rightarrow> range \<Rightarrow> (nat \<times> sp_buffer list \<times> range) option" where
  "delete_back_loop goal total_bytes deleted r =
     (if int (length (r_buffers r)) = goal then Some (total_bytes, deleted, r)
      else if r_buffers r = [] then None
      else
        let b = last (r_buffers r) in
        if \<not> r_size_in_bytes r \<ge> b_data_size b then None
        else delete_back_loop goal (total_bytes + b_data_size b) (b # deleted)
            (r\<lparr>r_size_in_bytes := r_size_in_bytes r - b_data_size b, r_buffers := butlast (r_buffers r)\<rparr>))"
  by pat_completeness auto
termination by (relation "measure (\<lambda>(goal, total_bytes, deleted, r). length (r_buffers r))") auto

declare delete_back_loop.simps [simp del]

definition Range_DeleteGOPFromBack :: "sp_buffer list \<Rightarrow> range \<Rightarrow> (nat \<times> sp_buffer list \<times> range) option" where
  "Range_DeleteGOPFromBack deleted_buffers r = do {
     dcheck (r_buffers r \<noteq> []);
     contains \<leftarrow> LastGOPContainsNextBufferPosition r;
     dcheck (\<not> contains);
     dcheck (r_keyframe_map r \<noteq> []);
     goal_size \<leftarrow> keyframe_index (length (r_keyframe_map r) - 1) r;
     let r = r\<lparr>r_keyframe_map := butlast (r_keyframe_map r)\<rparr>;
     (total_bytes_deleted, deleted_buffers, r) \<leftarrow> delete_back_loop goal_size 0 deleted_buffers r;
     r \<leftarrow> UpdateEndTimeUsingLastGOP r;
     Some (total_bytes_deleted, deleted_buffers, r) }"

text \<open>One group after the other is counted until enough bytes are found.\<close>

function removal_loop :: "nat \<Rightarrow> nat \<Rightarrow> nat \<Rightarrow> nat \<Rightarrow> nat \<Rightarrow> range \<Rightarrow> (nat \<times> nat) option" where
  "removal_loop gop_itr gop_end cur bytes_removed bytes_to_free r =
     (if gop_itr \<noteq> gop_end \<and> bytes_removed < bytes_to_free then
        if \<not> gop_itr < length (r_keyframe_map r) then None
        else do {
          next \<leftarrow> buffer_at (gop_start (gop_itr + 1) r) r;
          dcheck (cur \<le> next);
          removal_loop (gop_itr + 1) gop_end next
            (bytes_removed + sum_list (map b_data_size (drop cur (take next (r_buffers r))))) bytes_to_free r }
      else Some (gop_itr, bytes_removed))"
  by pat_completeness auto
termination by (relation "measure (\<lambda>(gop_itr, gop_end, cur, bytes_removed, bytes_to_free, r). length (r_keyframe_map r) - gop_itr)") auto

declare removal_loop.simps [simp del]

text \<open>The bytes, and the end of the removal if there are any.\<close>

definition Range_GetRemovalGOP :: "int \<Rightarrow> int \<Rightarrow> nat \<Rightarrow> range \<Rightarrow> (nat \<times> int option) option" where
  "Range_GetRemovalGOP start_timestamp end_timestamp bytes_to_free r =
     (let gop_itr = GetFirstKeyframeAt start_timestamp False r in
      if gop_itr = length (r_keyframe_map r) then Some (0, None)
      else do {
        keyframe \<leftarrow> buffer_at (gop_start gop_itr r) r;
        end \<leftarrow> Range_GetBufferedEndTimestamp r;
        let gop_end = (if end_timestamp < end then GetFirstKeyframeAtOrBefore end_timestamp r
                       else length (r_keyframe_map r));
        let gop_end = (if gop_itr \<noteq> 0 \<and> gop_itr - 1 = gop_end then gop_itr else gop_end);
        (gop_itr, bytes_removed) \<leftarrow> removal_loop gop_itr gop_end keyframe 0 bytes_to_free r;
        Some (bytes_removed,
              if bytes_removed > 0
              then Some (if gop_itr = length (r_keyframe_map r) then end else fst (r_keyframe_map r ! gop_itr))
              else None) })"

subsection \<open>Lookups by time\<close>

fun highest_before_loop :: "int \<Rightarrow> int \<Rightarrow> sp_buffer list \<Rightarrow> int" where
  "highest_before_loop timestamp result [] = result"
| "highest_before_loop timestamp result (b # bs) =
     (if b_timestamp b > timestamp then result
      else highest_before_loop timestamp (max result (b_timestamp b)) bs)"

definition FindHighestBufferedTimestampAtOrBefore :: "int \<Rightarrow> int \<Rightarrow> range \<Rightarrow> int option" where
  "FindHighestBufferedTimestampAtOrBefore D timestamp r = do {
     dcheck (r_buffers r \<noteq> []);
     belongs \<leftarrow> Range_BelongsToRange D timestamp r;
     dcheck belongs;
     dcheck (r_keyframe_map r \<noteq> []);
     if fst (hd (r_keyframe_map r)) > timestamp then do {
       range_start \<leftarrow> Range_GetStartTimestamp r;
       dcheck (timestamp \<ge> range_start);
       Some range_start }
     else if fst (hd (r_keyframe_map r)) = timestamp then Some timestamp
     else do {
       let k = GetFirstKeyframeAtOrBefore timestamp r;
       key_index \<leftarrow> keyframe_index k r;
       dcheck (fst (r_keyframe_map r ! k) \<le> timestamp);
       dcheck (0 \<le> key_index \<and> key_index < int (length (r_buffers r)));
       Some (highest_before_loop timestamp (b_timestamp (r_buffers r ! nat key_index))
               (drop (nat key_index + 1) (r_buffers r))) } }"

definition Range_NextKeyframeTimestamp :: "int \<Rightarrow> range \<Rightarrow> int option" where
  "Range_NextKeyframeTimestamp timestamp r = do {
     dcheck (r_keyframe_map r \<noteq> []);
     start \<leftarrow> Range_GetStartTimestamp r;
     end \<leftarrow> Range_GetBufferedEndTimestamp r;
     if timestamp < start \<or> timestamp \<ge> end then Some kNoTimestamp
     else
       let itr = GetFirstKeyframeAt timestamp False r in
       if itr = length (r_keyframe_map r) then Some kNoTimestamp
       else if itr = 0 \<and> timestamp > r_range_start_pts r \<and> timestamp < fst (r_keyframe_map r ! itr)
       then Some timestamp
       else Some (fst (r_keyframe_map r ! itr)) }"

definition Range_KeyframeBeforeTimestamp :: "int \<Rightarrow> range \<Rightarrow> int option" where
  "Range_KeyframeBeforeTimestamp timestamp r = do {
     dcheck (r_keyframe_map r \<noteq> []);
     start \<leftarrow> Range_GetStartTimestamp r;
     end \<leftarrow> Range_GetBufferedEndTimestamp r;
     if timestamp < start \<or> timestamp \<ge> end then Some kNoTimestamp
     else do {
       let i = GetFirstKeyframeAtOrBefore timestamp r;
       dcheck (i < length (r_keyframe_map r));
       Some (fst (r_keyframe_map r ! i)) } }"

fun in_range_loop :: "int \<Rightarrow> int \<Rightarrow> sp_buffer list \<Rightarrow> sp_buffer list \<Rightarrow> (bool \<times> sp_buffer list) option" where
  "in_range_loop start end [] found = Some (True, found)"
| "in_range_loop start end (b # bs) found =
     (if b_duration b = kNoTimestamp \<or> b_duration b \<le> 0 then Some (False, found)
      else if b_timestamp b \<ge> end then Some (True, found)
      else if b_timestamp b + b_duration b \<le> start then in_range_loop start end bs found
      else do { dcheck (b_is_key_frame b); in_range_loop start end bs (found @ [b]) })"

definition GetBuffersInRange :: "int \<Rightarrow> int \<Rightarrow> sp_buffer list \<Rightarrow> range \<Rightarrow> (bool \<times> sp_buffer list) option" where
  "GetBuffersInRange start end found r = do {
     first_timestamp \<leftarrow> Range_KeyframeBeforeTimestamp start r;
     if first_timestamp = kNoTimestamp then Some (False, found)
     else do {
       i \<leftarrow> GetBufferIndexAt first_timestamp False r;
       (ended, found') \<leftarrow> in_range_loop start end (drop i (r_buffers r)) found;
       Some (ended \<and> length found < length found', found') } }"

section \<open>The invariant\<close>

text \<open>
  In decode order a keyframe comes after all frames before it in presentation time, and nothing
  after it precedes it.
\<close>

definition gop_order :: "sp_buffer \<Rightarrow> sp_buffer \<Rightarrow> bool" where
  "gop_order b c \<longleftrightarrow> (b_is_key_frame c \<longrightarrow> b_timestamp b < b_timestamp c) \<and>
     (b_is_key_frame b \<longrightarrow> b_timestamp b \<le> b_timestamp c)"

definition frame_ok :: "sp_buffer \<Rightarrow> bool" where
  "frame_ok b \<longleftrightarrow> 0 \<le> b_timestamp b \<and> 0 \<le> b_duration b"

text \<open>The keyframes of a queue with their positions.\<close>

fun key_entries :: "int \<Rightarrow> sp_buffer list \<Rightarrow> (int \<times> int) list" where
  "key_entries i [] = []"
| "key_entries i (b # bs) =
     (if b_is_key_frame b then (b_timestamp b, i) # key_entries (i + 1) bs else key_entries (i + 1) bs)"

definition is_highest :: "sp_buffer option \<Rightarrow> sp_buffer list \<Rightarrow> bool" where
  "is_highest h bs \<longleftrightarrow>
     (case h of None \<Rightarrow> bs = [] | Some c \<Rightarrow> c \<in> set bs \<and> (\<forall>b\<in>set bs. b_timestamp b \<le> b_timestamp c))"

definition bytes_of :: "sp_buffer list \<Rightarrow> nat" where
  "bytes_of bs = sum_list (map b_data_size bs)"

definition range_core :: "range \<Rightarrow> bool" where
  "range_core r \<longleftrightarrow>
     r_keyframe_map r = key_entries (r_keyframe_map_index_base r) (r_buffers r) \<and>
     sorted_wrt gop_order (r_buffers r) \<and> (\<forall>b\<in>set (r_buffers r). frame_ok b) \<and>
     r_size_in_bytes r = bytes_of (r_buffers r) \<and> is_highest (r_highest_frame r) (r_buffers r)"

definition range_ok :: "range \<Rightarrow> bool" where
  "range_ok r \<longleftrightarrow> range_core r \<and>
     (r_buffers r \<noteq> [] \<longrightarrow> b_is_key_frame (hd (r_buffers r)) \<and>
        (r_range_start_pts r = kNoTimestamp \<or> r_range_start_pts r \<le> b_timestamp (hd (r_buffers r)))) \<and>
     - 1 \<le> r_next_buffer_index r \<and> r_next_buffer_index r \<le> int (length (r_buffers r))"

lemma dcheck_simps [simp]: "dcheck True = Some ()" "dcheck False = None"
  by (simp_all add: dcheck_def)

lemma dcheck_bind [simp]: "dcheck b \<bind> f = (if b then f () else None)"
  by (simp add: dcheck_def)

lemma frame_ok_times [simp]:
  "frame_ok b \<Longrightarrow> b_timestamp b \<noteq> kNoTimestamp" "frame_ok b \<Longrightarrow> b_duration b \<noteq> kNoTimestamp"
  "frame_ok b \<Longrightarrow> GetDecodeTimestamp b \<noteq> kNoTimestamp"
  by (auto simp: frame_ok_def kNoTimestamp_def GetDecodeTimestamp_def)

lemma key_entries_append: "key_entries i (xs @ ys) = key_entries i xs @ key_entries (i + int (length xs)) ys"
  by (induction xs arbitrary: i) (auto simp: algebra_simps)

lemma key_entries_fst: "map fst (key_entries i bs) = map b_timestamp (filter b_is_key_frame bs)"
  by (induction bs arbitrary: i) auto

lemma key_entries_shift: "key_entries (i + j) bs = map (\<lambda>(t, k). (t, k + j)) (key_entries i bs)"
proof (induction bs arbitrary: i)
  case (Cons b bs)
  show ?case using Cons.IH [of "i + 1"] by (simp add: algebra_simps)
qed simp

lemma length_key_entries: "length (key_entries i bs) = length (filter b_is_key_frame bs)"
  by (induction bs arbitrary: i) auto

text \<open>A position in the map splits the queue at its keyframe.\<close>

lemma key_split:
  assumes "k < length (key_entries i bs)"
  obtains pre b post where "bs = pre @ b # post" "b_is_key_frame b" "length (filter b_is_key_frame pre) = k"
    "key_entries i bs ! k = (b_timestamp b, i + int (length pre))"
proof -
  have "\<exists>pre b post. bs = pre @ b # post \<and> b_is_key_frame b \<and> length (filter b_is_key_frame pre) = k \<and>
      key_entries i bs ! k = (b_timestamp b, i + int (length pre))"
    using assms
  proof (induction bs arbitrary: i k)
    case (Cons c bs)
    show ?case
    proof (cases "b_is_key_frame c \<and> k = 0")
      case True
      then show ?thesis by (intro exI [of _ "[]"]) auto
    next
      case False
      let ?k = "if b_is_key_frame c then k - 1 else k"
      have "?k < length (key_entries (i + 1) bs)" using Cons.prems False by auto
      from Cons.IH [OF this] obtain pre b post where
        "bs = pre @ b # post" "b_is_key_frame b" "length (filter b_is_key_frame pre) = ?k"
        "key_entries (i + 1) bs ! ?k = (b_timestamp b, i + 1 + int (length pre))" by blast
      then show ?thesis using False by (intro exI [of _ "c # pre"] exI [of _ b] exI [of _ post]) auto
    qed
  qed simp
  then show thesis using that by blast
qed

lemma key_entries_sorted: "sorted_wrt gop_order bs \<Longrightarrow> sorted_wrt (<) (map fst (key_entries i bs))"
  unfolding key_entries_fst
  by (induction bs) (auto simp: gop_order_def)

lemma bytes_of_simps [simp]: "bytes_of [] = 0" "bytes_of (b # bs) = b_data_size b + bytes_of bs"
  "bytes_of (xs @ ys) = bytes_of xs + bytes_of ys"
  by (simp_all add: bytes_of_def)

lemma bytes_of_take_drop: "bytes_of bs = bytes_of (take i bs) + bytes_of (drop i bs)"
  by (metis append_take_drop_id bytes_of_simps(3))

subsection \<open>Appending\<close>

lemma is_highest_snoc:
  assumes "is_highest h bs"
  shows "is_highest (case h of None \<Rightarrow> Some b
      | Some c \<Rightarrow> if b_timestamp c < b_timestamp b \<or> b_timestamp c = b_timestamp b \<and> b_duration c \<le> b_duration b
          then Some b else Some c) (bs @ [b])"
  using assms by (auto simp: is_highest_def split: option.splits)

lemma UpdateEndTime_eq:
  assumes "frame_ok b"
  shows "UpdateEndTime b r = Some (r\<lparr>r_highest_frame := (case r_highest_frame r of None \<Rightarrow> Some b
      | Some c \<Rightarrow> if b_timestamp c < b_timestamp b \<or> b_timestamp c = b_timestamp b \<and> b_duration c \<le> b_duration b
          then Some b else Some c)\<rparr>)"
  using assms by (cases "r_highest_frame r") (auto simp: UpdateEndTime_def frame_ok_def kNoTimestamp_def)

lemma insort_key_last:
  "\<forall>x\<in>set m. f x < f e \<Longrightarrow> insort_key f e m = m @ [e]" for f :: "'a \<Rightarrow> int"
  by (induction m) auto

lemma map_insert_last:
  "\<forall>e\<in>set m. fst e < k \<Longrightarrow> map_insert k v m = m @ [(k, v)]"
  by (auto simp: map_insert_def map_of_eq_None_iff insort_key_last)

lemma key_entries_before:
  assumes "sorted_wrt gop_order (bs @ [b])" "b_is_key_frame b"
  shows "\<forall>e\<in>set (key_entries i bs). fst e < b_timestamp b"
proof
  fix e assume "e \<in> set (key_entries i bs)"
  then have "fst e \<in> set (map b_timestamp (filter b_is_key_frame bs))"
    unfolding key_entries_fst [of i, symmetric] by simp
  then show "fst e < b_timestamp b" using assms by (auto simp: sorted_wrt_append gop_order_def)
qed

lemma append_loop_ok:
  assumes "range_core r" "\<forall>b\<in>set new. frame_ok b" "sorted_wrt gop_order (r_buffers r @ new)"
  shows "\<exists>h. append_loop new r = Some (r\<lparr>r_buffers := r_buffers r @ new, r_highest_frame := h,
      r_size_in_bytes := bytes_of (r_buffers r @ new),
      r_keyframe_map := key_entries (r_keyframe_map_index_base r) (r_buffers r @ new)\<rparr>) \<and>
    is_highest h (r_buffers r @ new)"
  using assms
proof (induction new arbitrary: r)
  case Nil
  then show ?case by (intro exI [of _ "r_highest_frame r"]) (auto simp: range_core_def)
next
  case (Cons b new)
  define h1 where "h1 = (case r_highest_frame r of None \<Rightarrow> Some b
      | Some c \<Rightarrow> if b_timestamp c < b_timestamp b \<or> b_timestamp c = b_timestamp b \<and> b_duration c \<le> b_duration b
          then Some b else Some c)"
  define r1 where "r1 = r\<lparr>r_buffers := r_buffers r @ [b], r_highest_frame := h1,
      r_size_in_bytes := r_size_in_bytes r + b_data_size b,
      r_keyframe_map := key_entries (r_keyframe_map_index_base r) (r_buffers r @ [b])\<rparr>"
  have b: "frame_ok b" using Cons.prems by simp
  have core: "r_keyframe_map r = key_entries (r_keyframe_map_index_base r) (r_buffers r)"
    using Cons.prems by (simp add: range_core_def)
  have sorted: "sorted_wrt gop_order (r_buffers r @ [b])"
    using Cons.prems(3) by (auto simp: sorted_wrt_append)
  have "map_insert (b_timestamp b) (int (length (r_buffers r)) + r_keyframe_map_index_base r) (r_keyframe_map r) =
      key_entries (r_keyframe_map_index_base r) (r_buffers r @ [b])" if "b_is_key_frame b"
    using that map_insert_last [OF key_entries_before [OF sorted that]] by (simp add: core key_entries_append add.commute)
  moreover have "key_entries (r_keyframe_map_index_base r) (r_buffers r @ [b]) = r_keyframe_map r" if "\<not> b_is_key_frame b"
    using that by (simp add: core key_entries_append)
  ultimately have step: "append_loop (b # new) r = append_loop new r1"
    using b UpdateEndTime_eq [OF b, of "r\<lparr>r_buffers := r_buffers r @ [b]\<rparr>"]
    by (cases "b_is_key_frame b") (simp_all add: r1_def h1_def Let_def)
  have "range_core r1"
    using Cons.prems sorted is_highest_snoc [of "r_highest_frame r" "r_buffers r" b]
    by (simp add: range_core_def r1_def h1_def)
  moreover have "sorted_wrt gop_order (r_buffers r1 @ new)" using Cons.prems(3) by (simp add: r1_def)
  ultimately obtain h where "append_loop new r1 = Some (r1\<lparr>r_buffers := r_buffers r1 @ new, r_highest_frame := h,
      r_size_in_bytes := bytes_of (r_buffers r1 @ new),
      r_keyframe_map := key_entries (r_keyframe_map_index_base r1) (r_buffers r1 @ new)\<rparr>)"
    "is_highest h (r_buffers r1 @ new)"
    using Cons.IH [of r1] Cons.prems(2) by auto
  then show ?case using step by (intro exI [of _ h]) (simp add: r1_def)
qed

subsection \<open>Lookups in the keyframe map\<close>

lemma sorted_before:
  "sorted_wrt (<) (map fst m) \<Longrightarrow> i < j \<Longrightarrow> j < length m \<Longrightarrow> fst (m ! i) < fst (m ! j)" for m :: "(int \<times> int) list"
  by (simp add: sorted_wrt_iff_nth_less)

lemma GetFirstKeyframeAt_bound:
  assumes "sorted_wrt (<) (map fst (r_keyframe_map r))"
  shows "GetFirstKeyframeAt t False r \<le> length (r_keyframe_map r)"
    "i < GetFirstKeyframeAt t False r \<Longrightarrow> fst (r_keyframe_map r ! i) < t"
    "GetFirstKeyframeAt t False r \<le> i \<Longrightarrow> i < length (r_keyframe_map r) \<Longrightarrow> t \<le> fst (r_keyframe_map r ! i)"
proof -
  let ?m = "r_keyframe_map r" and ?L = "length (takeWhile (\<lambda>e. fst e < t) (r_keyframe_map r))"
  have L: "GetFirstKeyframeAt t False r = ?L" by (simp add: GetFirstKeyframeAt_def)
  show "GetFirstKeyframeAt t False r \<le> length ?m" by (simp add: L length_takeWhile_le)
  show "fst (?m ! i) < t" if "i < GetFirstKeyframeAt t False r"
    using that nth_mem [of i "takeWhile (\<lambda>e. fst e < t) ?m"] by (auto simp: L takeWhile_nth dest: set_takeWhileD)
  show "t \<le> fst (?m ! i)" if i: "GetFirstKeyframeAt t False r \<le> i" "i < length ?m"
  proof -
    have "\<not> fst (?m ! ?L) < t" using i by (intro nth_length_takeWhile) (simp add: L)
    moreover have "fst (?m ! ?L) \<le> fst (?m ! i)"
      using sorted_before [OF assms, of ?L i] i by (cases "?L = i") (auto simp: L)
    ultimately show ?thesis by simp
  qed
qed

lemma GetFirstKeyframeAtOrBefore_bound:
  fixes r :: range and t :: int
  assumes s: "sorted_wrt (<) (map fst (r_keyframe_map r))" and ne: "r_keyframe_map r \<noteq> []"
  defines "g \<equiv> GetFirstKeyframeAtOrBefore t r"
  shows "g < length (r_keyframe_map r)" "g \<noteq> 0 \<Longrightarrow> fst (r_keyframe_map r ! g) \<le> t"
    "g < i \<Longrightarrow> i < length (r_keyframe_map r) \<Longrightarrow> t < fst (r_keyframe_map r ! i)"
proof -
  let ?m = "r_keyframe_map r" and ?L = "GetFirstKeyframeAt t False r"
  have g: "g = (if ?L \<noteq> 0 \<and> (?L = length ?m \<or> fst (?m ! ?L) \<noteq> t) then ?L - 1 else ?L)"
    by (simp add: g_def GetFirstKeyframeAtOrBefore_def GetFirstKeyframeAt_def)
  note b = GetFirstKeyframeAt_bound [OF s, where t = t]
  show "g < length ?m" using b(1) ne by (auto simp: g)
  show "fst (?m ! g) \<le> t" if "g \<noteq> 0"
    using that b(2) [of "?L - 1"] by (auto simp: g split: if_splits)
  show "t < fst (?m ! i)" if i: "g < i" "i < length ?m"
  proof (cases "?L \<noteq> 0 \<and> (?L = length ?m \<or> fst (?m ! ?L) \<noteq> t)")
    case True
    then have L: "?L \<le> i" "?L < length ?m" using i g by auto
    then have "t < fst (?m ! ?L)" using True b(3) [of ?L] by force
    then show ?thesis using sorted_before [OF s, of ?L i] L i by (cases "?L = i") auto
  next
    case False
    then have "g = ?L" unfolding g by (rule if_not_P)
    then show ?thesis using b(3) [of ?L] sorted_before [OF s, of ?L i] i by force
  qed
qed

lemma buffer_index_loop_eq:
  "buffer_index_loop t skip i bs = i + length (takeWhile (\<lambda>b. b_timestamp b < t \<or> skip \<and> b_timestamp b = t) bs)"
  by (induction bs arbitrary: i) auto

lemma takeWhile_stop: "rest = [] \<or> \<not> Q (hd rest) \<Longrightarrow> takeWhile Q (xs @ rest) = takeWhile Q xs"
  by (induction xs) (cases rest, auto)

text \<open>The queue at an entry of the map: before the group, the group, and the groups after it.\<close>

lemma range_split:
  assumes m: "r_keyframe_map r = key_entries (r_keyframe_map_index_base r) (r_buffers r)"
    and g: "g < length (r_keyframe_map r)"
  obtains pre b mid rest where "r_buffers r = pre @ b # mid @ rest" "b_is_key_frame b"
    "\<forall>c\<in>set mid. \<not> b_is_key_frame c" "rest = [] \<or> b_is_key_frame (hd rest)"
    "length (filter b_is_key_frame pre) = g"
    "gop_start g r = int (length pre)" "gop_start (g + 1) r = int (length pre) + 1 + int (length mid)"
    "fst (r_keyframe_map r ! g) = b_timestamp b"
    "rest \<noteq> [] \<Longrightarrow> g + 1 < length (r_keyframe_map r) \<and> fst (r_keyframe_map r ! (g + 1)) = b_timestamp (hd rest)"
proof -
  from g obtain pre b post where s: "r_buffers r = pre @ b # post" "b_is_key_frame b"
      "length (filter b_is_key_frame pre) = g"
      "key_entries (r_keyframe_map_index_base r) (r_buffers r) ! g = (b_timestamp b, r_keyframe_map_index_base r + int (length pre))"
    unfolding m by (rule key_split)
  define mid where "mid = takeWhile (Not \<circ> b_is_key_frame) post"
  define rest where "rest = dropWhile (Not \<circ> b_is_key_frame) post"
  have post: "post = mid @ rest" by (simp add: mid_def rest_def)
  have mid: "\<forall>c\<in>set mid. \<not> b_is_key_frame c" by (auto simp: mid_def dest: set_takeWhileD)
  have rest: "rest = [] \<or> b_is_key_frame (hd rest)"
    using hd_dropWhile [of "Not \<circ> b_is_key_frame" post] by (auto simp: rest_def)
  have none: "key_entries i mid = []" for i using mid by (induction mid arbitrary: i) auto
  have len: "length (key_entries i pre) = g" for i using s(3) by (simp add: length_key_entries)
  have keys: "r_keyframe_map r = key_entries (r_keyframe_map_index_base r) pre @
      (b_timestamp b, r_keyframe_map_index_base r + int (length pre)) #
      key_entries (r_keyframe_map_index_base r + int (length pre) + 1 + int (length mid)) rest"
    using s(2) by (simp add: m s(1) post key_entries_append none add.assoc)
  have next_start: "gop_start (g + 1) r = int (length pre) + 1 + int (length mid)"
  proof (cases rest)
    case Nil
    then show ?thesis using keys s(1) by (simp add: gop_start_def len post)
  next
    case (Cons c cs)
    then show ?thesis using keys rest by (simp add: gop_start_def len nth_append)
  qed
  show thesis
  proof (rule that [of pre b mid rest])
    show "r_buffers r = pre @ b # mid @ rest" by (simp add: s post)
    show "gop_start g r = int (length pre)" using g s(4) by (simp add: gop_start_def m)
    show "fst (r_keyframe_map r ! g) = b_timestamp b" using s(4) by (simp add: m)
    show "rest \<noteq> [] \<Longrightarrow> g + 1 < length (r_keyframe_map r) \<and> fst (r_keyframe_map r ! (g + 1)) = b_timestamp (hd rest)"
      using keys rest by (cases rest) (auto simp: len nth_append)
  qed (use s mid rest next_start in auto)
qed

lemma range_core_sorted: "range_core r \<Longrightarrow> sorted_wrt (<) (map fst (r_keyframe_map r))"
  by (auto simp: range_core_def intro: key_entries_sorted)

lemma range_ok_map_empty: "range_ok r \<Longrightarrow> r_keyframe_map r = [] \<longleftrightarrow> r_buffers r = []"
  by (cases "r_buffers r") (auto simp: range_ok_def range_core_def)

lemma filter_key_Nil: "length (filter b_is_key_frame pre) = 0 \<Longrightarrow> pre @ b # post = bs \<Longrightarrow> b_is_key_frame (hd bs) \<Longrightarrow> pre = []"
  by (cases pre) auto

lemma GetBufferIndexAt_eq:
  assumes ok: "range_ok r"
  shows "GetBufferIndexAt t skip r =
    Some (length (takeWhile (\<lambda>b. b_timestamp b < t \<or> skip \<and> b_timestamp b = t) (r_buffers r)))"
proof (cases "r_buffers r = []")
  case True
  then show ?thesis using range_ok_map_empty [OF ok] by (simp add: GetBufferIndexAt_def GetFirstKeyframeAtOrBefore_def)
next
  case False
  have core: "range_core r" and hd: "b_is_key_frame (hd (r_buffers r))" using ok False by (auto simp: range_ok_def)
  have ne: "r_keyframe_map r \<noteq> []" using False range_ok_map_empty [OF ok] by simp
  define g where "g = GetFirstKeyframeAtOrBefore t r"
  note bound = GetFirstKeyframeAtOrBefore_bound [OF range_core_sorted [OF core] ne, where t = t, folded g_def]
  obtain pre b mid rest where s: "r_buffers r = pre @ b # mid @ rest" "b_is_key_frame b"
    "\<forall>c\<in>set mid. \<not> b_is_key_frame c" "rest = [] \<or> b_is_key_frame (hd rest)"
    "length (filter b_is_key_frame pre) = g"
    "gop_start g r = int (length pre)" "gop_start (g + 1) r = int (length pre) + 1 + int (length mid)"
    "fst (r_keyframe_map r ! g) = b_timestamp b"
    "rest \<noteq> [] \<Longrightarrow> g + 1 < length (r_keyframe_map r) \<and> fst (r_keyframe_map r ! (g + 1)) = b_timestamp (hd rest)"
    using range_split [OF _ bound(1)] core unfolding range_core_def by blast
  let ?Q = "\<lambda>b. b_timestamp b < t \<or> skip \<and> b_timestamp b = t"
  have at: "buffer_at (gop_start g r) r = Some (length pre)" "buffer_at (gop_start (g + 1) r) r = Some (length pre + 1 + length mid)"
    unfolding s(6,7) buffer_at_def by (simp_all add: s(1))
  have slice: "drop (length pre) (take (length pre + 1 + length mid) (r_buffers r)) = b # mid" by (simp add: s(1))
  have "GetBufferIndexAt t skip r = Some (length pre + length (takeWhile ?Q (b # mid)))"
    using False bound(1) at slice
    by (simp add: GetBufferIndexAt_def g_def [symmetric] buffer_index_loop_eq del: takeWhile.simps)
  moreover have "rest = [] \<or> \<not> ?Q (hd rest)" using s(9) bound(3) [of "g + 1"] by fastforce
  then have "takeWhile ?Q ((b # mid) @ rest) = takeWhile ?Q (b # mid)"
    by (rule takeWhile_stop)
  moreover have "pre = [] \<or> (\<forall>c\<in>set pre. ?Q c)"
  proof (cases "g = 0")
    case True
    then show ?thesis using filter_key_Nil [of pre b "mid @ rest" "r_buffers r"] s(1,5) hd by simp
  next
    case False
    then have "b_timestamp b \<le> t" using bound(2) s(8) by simp
    moreover have "\<forall>c\<in>set pre. b_timestamp c < b_timestamp b"
      using core s(1,2) by (auto simp: range_core_def sorted_wrt_append gop_order_def)
    ultimately show ?thesis by fastforce
  qed
  then have "takeWhile ?Q (r_buffers r) = pre @ takeWhile ?Q ((b # mid) @ rest)"
    unfolding s(1) by (auto simp: takeWhile_append2 simp del: takeWhile.simps)
  ultimately show ?thesis by (simp del: takeWhile.simps)
qed

subsection \<open>Cutting the queue\<close>

lemma update_end_loop_ok:
  assumes "is_highest (r_highest_frame r) pre" "\<forall>b\<in>set bs. frame_ok b"
  shows "\<exists>h. update_end_loop bs r = Some (r\<lparr>r_highest_frame := h\<rparr>) \<and> is_highest h (pre @ bs)"
  using assms
proof (induction bs arbitrary: pre r)
  case Nil
  then show ?case by (intro exI [of _ "r_highest_frame r"]) simp
next
  case (Cons b bs)
  define h1 where "h1 = (case r_highest_frame r of None \<Rightarrow> Some b
      | Some c \<Rightarrow> if b_timestamp c < b_timestamp b \<or> b_timestamp c = b_timestamp b \<and> b_duration c \<le> b_duration b
          then Some b else Some c)"
  have "is_highest (r_highest_frame (r\<lparr>r_highest_frame := h1\<rparr>)) (pre @ [b])"
    using is_highest_snoc [OF Cons.prems(1)] by (simp add: h1_def)
  from Cons.IH [OF this] Cons.prems(2) obtain h where
    "update_end_loop bs (r\<lparr>r_highest_frame := h1\<rparr>) = Some (r\<lparr>r_highest_frame := h\<rparr>)" "is_highest h ((pre @ [b]) @ bs)" by auto
  then show ?case using Cons.prems(2) UpdateEndTime_eq [of b r] by (auto simp: h1_def [symmetric])
qed

lemma UpdateEndTimeUsingLastGOP_ok:
  assumes m: "r_keyframe_map r = key_entries (r_keyframe_map_index_base r) (r_buffers r)"
    and sorted: "sorted_wrt gop_order (r_buffers r)" and frames: "\<forall>b\<in>set (r_buffers r). frame_ok b"
    and hd: "r_buffers r \<noteq> [] \<Longrightarrow> b_is_key_frame (hd (r_buffers r))"
  shows "\<exists>h. UpdateEndTimeUsingLastGOP r = Some (r\<lparr>r_highest_frame := h\<rparr>) \<and> is_highest h (r_buffers r)"
proof (cases "r_buffers r = []")
  case True
  then show ?thesis by (intro exI [of _ None]) (simp add: UpdateEndTimeUsingLastGOP_def is_highest_def)
next
  case False
  have ne: "r_keyframe_map r \<noteq> []" using hd False by (cases "r_buffers r") (auto simp: m)
  then have "length (r_keyframe_map r) - 1 < length (r_keyframe_map r)" by simp
  from range_split [OF m this] obtain pre b post where s: "r_buffers r = pre @ b # post" "b_is_key_frame b"
    "gop_start (length (r_keyframe_map r) - 1) r = int (length pre)" by metis
  let ?r = "r\<lparr>r_highest_frame := None\<rparr>"
  have start: "gop_start i ?r = gop_start i r" for i by (simp add: gop_start_def)
  have at: "buffer_at (gop_start (length (r_keyframe_map r) - 1) r) ?r = Some (length pre)"
    unfolding s(3) by (simp add: buffer_at_def s(1))
  have "is_highest (r_highest_frame ?r) []" by (simp add: is_highest_def)
  from update_end_loop_ok [OF this, of "b # post"] frames s(1) obtain h where
    h: "update_end_loop (b # post) ?r = Some (r\<lparr>r_highest_frame := h\<rparr>)" "is_highest h (b # post)" by auto
  then obtain c where c: "h = Some c" by (cases h) (auto simp: is_highest_def)
  have "\<forall>a\<in>set pre. b_timestamp a < b_timestamp b"
    using sorted s(1,2) by (auto simp: sorted_wrt_append gop_order_def)
  then have "is_highest h (r_buffers r)" using h(2) c s(1) by (fastforce simp: is_highest_def)
  then show ?thesis
    using False ne at h(1) c s(1) by (intro exI [of _ h]) (simp add: UpdateEndTimeUsingLastGOP_def Let_def start)
qed

lemma free_sizes_eq: "free_sizes bs (n + bytes_of bs) = Some n"
  by (induction bs) (auto simp: add.assoc add.left_commute)

lemma FreeBufferRange_eq:
  "r_size_in_bytes r = bytes_of (r_buffers r) \<Longrightarrow>
   FreeBufferRange i r = Some (r\<lparr>r_buffers := take i (r_buffers r), r_size_in_bytes := bytes_of (take i (r_buffers r))\<rparr>)"
  using free_sizes_eq [of "drop i (r_buffers r)" "bytes_of (take i (r_buffers r))"] bytes_of_take_drop [of "r_buffers r" i]
  by (simp add: FreeBufferRange_def)

lemma key_entries_mem: "e \<in> set (key_entries i bs) \<Longrightarrow> \<exists>b\<in>set bs. b_is_key_frame b \<and> b_timestamp b = fst e"
proof -
  assume "e \<in> set (key_entries i bs)"
  then have "fst e \<in> set (map fst (key_entries i bs))" by simp
  then show ?thesis unfolding key_entries_fst by auto
qed

lemma keys_taken:
  assumes sorted: "sorted_wrt gop_order bs" and i: "i < length bs"
    and before: "\<forall>b\<in>set (take i bs). b_is_key_frame b \<longrightarrow> b_timestamp b < b_timestamp (bs ! i)"
  shows "takeWhile (\<lambda>e. fst e < b_timestamp (bs ! i)) (key_entries base bs) = key_entries base (take i bs)"
proof -
  let ?t = "b_timestamp (bs ! i)"
  have s: "bs = take i bs @ bs ! i # drop (Suc i) bs" using i by (rule id_take_nth_drop)
  have split: "key_entries base bs = key_entries base (take i bs) @ key_entries (base + int i) (bs ! i # drop (Suc i) bs)"
    using i by (subst s) (simp add: key_entries_append)
  have "\<forall>e\<in>set (key_entries base (take i bs)). fst e < ?t" using before key_entries_mem by fastforce
  moreover have "sorted_wrt gop_order (bs ! i # drop (Suc i) bs)" using sorted by (subst (asm) s) (auto simp: sorted_wrt_append)
  then have "\<forall>e\<in>set (key_entries (base + int i) (bs ! i # drop (Suc i) bs)). \<not> fst e < ?t"
    by (fastforce simp: gop_order_def dest!: key_entries_mem)
  then have "takeWhile (\<lambda>e. fst e < ?t) (key_entries (base + int i) (bs ! i # drop (Suc i) bs)) = []"
    by (cases "key_entries (base + int i) (bs ! i # drop (Suc i) bs)") auto
  ultimately show ?thesis unfolding split by (simp add: takeWhile_append2)
qed

text \<open>The range that keeps the first \<open>i\<close> buffers.\<close>

definition cut_range :: "nat \<Rightarrow> sp_buffer option \<Rightarrow> int \<Rightarrow> range \<Rightarrow> range" where
  "cut_range i h next r = r\<lparr>r_buffers := take i (r_buffers r), r_next_buffer_index := next,
     r_size_in_bytes := bytes_of (take i (r_buffers r)),
     r_keyframe_map := key_entries (r_keyframe_map_index_base r) (take i (r_buffers r)), r_highest_frame := h\<rparr>"

lemma hd_take_key: "take i bs \<noteq> [] \<Longrightarrow> hd (take i bs) = hd bs"
  by (cases i; cases bs) auto

lemma cut_range_ok:
  assumes "range_ok r" "is_highest h (take i (r_buffers r))" "- 1 \<le> next" "next \<le> int (min i (length (r_buffers r)))"
  shows "range_ok (cut_range i h next r)"
proof -
  have "sorted_wrt gop_order (take i (r_buffers r) @ drop i (r_buffers r))"
    using assms(1) by (simp add: range_ok_def range_core_def)
  then have "sorted_wrt gop_order (take i (r_buffers r))" by (simp add: sorted_wrt_append)
  moreover have "\<forall>b\<in>set (take i (r_buffers r)). frame_ok b"
    using assms(1) by (auto simp: range_ok_def range_core_def dest: in_set_takeD)
  ultimately show ?thesis
    using assms by (auto simp: range_ok_def range_core_def cut_range_def hd_take_key)
qed

lemma cut_end_time:
  assumes "range_ok r"
  shows "\<exists>h. UpdateEndTimeUsingLastGOP (cut_range i h0 n r) = Some (cut_range i h n r) \<and>
    is_highest h (take i (r_buffers r))"
proof -
  have "sorted_wrt gop_order (take i (r_buffers r) @ drop i (r_buffers r))"
    using assms by (simp add: range_ok_def range_core_def)
  then have s: "sorted_wrt gop_order (take i (r_buffers r))" by (simp add: sorted_wrt_append)
  have f: "\<forall>b\<in>set (take i (r_buffers r)). frame_ok b"
    using assms by (auto simp: range_ok_def range_core_def dest: in_set_takeD)
  have k: "take i (r_buffers r) \<noteq> [] \<Longrightarrow> b_is_key_frame (hd (take i (r_buffers r)))"
    using assms by (auto simp: range_ok_def hd_take_key)
  show ?thesis using UpdateEndTimeUsingLastGOP_ok [of "cut_range i h0 n r"] s f k by (simp add: cut_range_def)
qed

text \<open>Truncation keeps a prefix; the buffers the reader had not got yet are handed back.\<close>

definition truncated_position :: "nat \<Rightarrow> range \<Rightarrow> int" where
  "truncated_position i r =
     (if i < length (r_buffers r) \<and> r_next_buffer_index r \<ge> int i then - 1 else r_next_buffer_index r)"

definition unread_buffers :: "nat \<Rightarrow> sp_buffer list option \<Rightarrow> range \<Rightarrow> sp_buffer list option" where
  "unread_buffers i deleted r =
     (if deleted \<noteq> None \<and> Range_HasNextBuffer r \<and> r_next_buffer_index r \<ge> int i
      then Some (drop (nat (r_next_buffer_index r)) (r_buffers r)) else deleted)"

lemma unread_buffers_eq:
  assumes "range_ok r"
  shows "unread_buffers i (Some []) r = Some (if i < length (r_buffers r) \<and> r_next_buffer_index r \<ge> int i
    then drop (nat (r_next_buffer_index r)) (r_buffers r) else [])"
  using assms by (auto simp: range_ok_def unread_buffers_def Range_HasNextBuffer_def)

lemma TruncateAt_index_ok:
  assumes ok: "range_ok r" and i: "i \<le> length (r_buffers r)" and del: "deleted = None \<or> deleted = Some []"
    and before: "i < length (r_buffers r) \<Longrightarrow>
      \<forall>b\<in>set (take i (r_buffers r)). b_is_key_frame b \<longrightarrow> b_timestamp b < b_timestamp (r_buffers r ! i)"
  shows "\<exists>r'. Range_TruncateAt_index i deleted r = Some (take i (r_buffers r) = [], unread_buffers i deleted r, r') \<and>
    range_ok r' \<and> r_buffers r' = take i (r_buffers r) \<and> r_next_buffer_index r' = truncated_position i r \<and>
    r_range_start_pts r' = r_range_start_pts r"
proof (cases "i = length (r_buffers r)")
  case True
  then show ?thesis
    using ok del by (auto simp: Range_TruncateAt_index_def unread_buffers_def truncated_position_def Range_HasNextBuffer_def)
next
  case False
  then have lt: "i < length (r_buffers r)" using i by simp
  let ?n = "truncated_position i r"
  have core: "r_keyframe_map r = key_entries (r_keyframe_map_index_base r) (r_buffers r)"
    "r_size_in_bytes r = bytes_of (r_buffers r)" "sorted_wrt gop_order (r_buffers r)"
    using ok by (auto simp: range_ok_def range_core_def)
  have pos: "- 1 \<le> r_next_buffer_index r" "r_next_buffer_index r \<le> int (length (r_buffers r))"
    using ok by (auto simp: range_ok_def)
  obtain h where h: "UpdateEndTimeUsingLastGOP (cut_range i (r_highest_frame r) ?n r) = Some (cut_range i h ?n r)"
    "is_highest h (take i (r_buffers r))"
    using cut_end_time [OF ok] by blast
  have deleted: "(if Range_HasNextBufferPosition r \<and> nat (r_next_buffer_index r) \<ge> i then
       (if Range_HasNextBuffer r \<and> deleted \<noteq> None then Some (drop (nat (r_next_buffer_index r)) (r_buffers r)) else deleted,
        Range_ResetNextBufferPosition r) else (deleted, r)) = (unread_buffers i deleted r, r\<lparr>r_next_buffer_index := ?n\<rparr>)"
    using pos lt
    by (auto simp: unread_buffers_def truncated_position_def Range_HasNextBufferPosition_def Range_HasNextBuffer_def
        Range_ResetNextBufferPosition_def nat_le_iff le_nat_iff)
  let ?t = "b_timestamp (r_buffers r ! i)"
  let ?r = "r\<lparr>r_next_buffer_index := ?n, r_keyframe_map := takeWhile (\<lambda>e. fst e < ?t) (r_keyframe_map r)\<rparr>"
  have "FreeBufferRange i ?r = Some (cut_range i (r_highest_frame r) ?n r)"
    using FreeBufferRange_eq [of ?r i] keys_taken [OF core(3) lt before [OF lt]] core(1,2)
    by (simp add: cut_range_def)
  then have "Range_TruncateAt_index i deleted r = Some (take i (r_buffers r) = [], unread_buffers i deleted r, cut_range i h ?n r)"
    using lt del h(1) unfolding Range_TruncateAt_index_def deleted
    by (simp add: Let_def) (simp add: cut_range_def)
  moreover have "range_ok (cut_range i h ?n r)"
    using pos lt by (intro cut_range_ok [OF ok h(2)]) (auto simp: truncated_position_def)
  ultimately show ?thesis by (auto simp: cut_range_def)
qed

lemma Range_TruncateAt_ok:
  fixes r :: range and t :: int and is_exclusive :: bool
  assumes ok: "range_ok r" and del: "deleted = None \<or> deleted = Some []"
  defines "keep \<equiv> takeWhile (\<lambda>b. b_timestamp b < t \<or> is_exclusive \<and> b_timestamp b = t) (r_buffers r)"
  shows "\<exists>r'. Range_TruncateAt t deleted is_exclusive r =
      Some (keep = [], unread_buffers (length keep) deleted r, r') \<and> range_ok r' \<and> r_buffers r' = keep \<and>
      r_next_buffer_index r' = truncated_position (length keep) r \<and> r_range_start_pts r' = r_range_start_pts r"
proof -
  let ?Q = "\<lambda>b. b_timestamp b < t \<or> is_exclusive \<and> b_timestamp b = t"
  let ?i = "length keep"
  have take: "take ?i (r_buffers r) = keep" unfolding keep_def by (metis takeWhile_eq_take)
  have i: "?i \<le> length (r_buffers r)" unfolding keep_def by (rule length_takeWhile_le)
  have before: "\<forall>b\<in>set (take ?i (r_buffers r)). b_is_key_frame b \<longrightarrow> b_timestamp b < b_timestamp (r_buffers r ! ?i)"
    if "?i < length (r_buffers r)"
  proof -
    have "\<not> ?Q (r_buffers r ! ?i)" using that unfolding keep_def by (rule nth_length_takeWhile)
    moreover have "?Q b" if "b \<in> set keep" for b using that unfolding keep_def by (blast dest: set_takeWhileD)
    ultimately show ?thesis unfolding take by force
  qed
  show ?thesis
    using TruncateAt_index_ok [OF ok i del before] GetBufferIndexAt_eq [OF ok, of t is_exclusive]
    unfolding take by (simp add: Range_TruncateAt_def keep_def [symmetric])
qed

subsection \<open>Appending buffers\<close>

text \<open>What the caller of \<open>AppendBuffersToEnd\<close> provides.\<close>

definition append_legal :: "int \<Rightarrow> sp_buffer list \<Rightarrow> int \<Rightarrow> range \<Rightarrow> bool" where
  "append_legal D new group_start r \<longleftrightarrow>
     CanAppendBuffersToEnd D new group_start r = Some True \<and>
     (group_start \<noteq> kNoTimestamp \<longrightarrow> b_is_key_frame (hd new)) \<and> (\<forall>b\<in>set new. frame_ok b) \<and>
     sorted_wrt gop_order (r_buffers r @ new) \<and>
     (b_is_duration_estimated (last (r_buffers r)) \<longrightarrow>
       b_type (hd (r_buffers r)) = AUDIO \<or> b_timestamp (last (r_buffers r)) \<le> b_timestamp (hd new))"

lemma set_duration_at_simps [simp]:
  "b_timestamp (set_duration_at a d b) = b_timestamp b" "b_is_key_frame (set_duration_at a d b) = b_is_key_frame b"
  "b_data_size (set_duration_at a d b) = b_data_size b" "b_address (set_duration_at a d b) = b_address b"
  "b_type (set_duration_at a d b) = b_type b"
  by (simp_all add: set_duration_at_def)

lemma key_entries_map:
  assumes "\<And>b. b_timestamp (f b) = b_timestamp b" "\<And>b. b_is_key_frame (f b) = b_is_key_frame b"
  shows "key_entries i (map f bs) = key_entries i bs"
  using assms by (induction bs arbitrary: i) auto

lemma bytes_of_map: "(\<And>b. b_data_size (f b) = b_data_size b) \<Longrightarrow> bytes_of (map f bs) = bytes_of bs"
  by (simp add: bytes_of_def comp_def)

lemma set_duration_core:
  assumes core: "range_core r" and d: "0 \<le> d"
  shows "range_core (r\<lparr>r_buffers := map (set_duration_at a d) (r_buffers r),
    r_highest_frame := map_option (set_duration_at a d) (r_highest_frame r)\<rparr>)"
proof -
  have "(\<lambda>b c. gop_order (set_duration_at a d b) (set_duration_at a d c)) = gop_order"
    by (simp add: gop_order_def fun_eq_iff)
  then have "sorted_wrt gop_order (map (set_duration_at a d) (r_buffers r))"
    using core by (simp add: range_core_def sorted_wrt_map)
  moreover have "frame_ok (set_duration_at a d b)" if "frame_ok b" for b
    using that d by (simp add: frame_ok_def set_duration_at_def)
  moreover have "is_highest (map_option (set_duration_at a d) (r_highest_frame r)) (map (set_duration_at a d) (r_buffers r))"
    using core by (auto simp: range_core_def is_highest_def split: option.splits)
  ultimately show ?thesis using core by (simp add: range_core_def key_entries_map bytes_of_map)
qed

lemma Adjust_ok:
  assumes core: "range_core r"
    and est: "r_buffers r \<noteq> [] \<Longrightarrow> new \<noteq> [] \<Longrightarrow> b_is_duration_estimated (last (r_buffers r)) \<Longrightarrow>
      b_type (hd (r_buffers r)) = AUDIO \<or> b_timestamp (last (r_buffers r)) \<le> b_timestamp (hd new)"
  shows "\<exists>f h. AdjustEstimatedDurationForNewAppend new r = Some (r\<lparr>r_buffers := map f (r_buffers r), r_highest_frame := h\<rparr>) \<and>
    range_core (r\<lparr>r_buffers := map f (r_buffers r), r_highest_frame := h\<rparr>) \<and>
    (\<forall>b. b_timestamp (f b) = b_timestamp b \<and> b_is_key_frame (f b) = b_is_key_frame b)"
proof (cases "r_buffers r = [] \<or> new = [] \<or> b_type (hd (r_buffers r)) = AUDIO \<or>
    \<not> b_is_duration_estimated (last (r_buffers r)) \<or>
    b_duration (last (r_buffers r)) = b_timestamp (hd new) - b_timestamp (last (r_buffers r))")
  case True
  then have "AdjustEstimatedDurationForNewAppend new r = Some r"
    using est by (auto simp: AdjustEstimatedDurationForNewAppend_def Let_def)
  then show ?thesis using core by (intro exI [of _ id] exI [of _ "r_highest_frame r"]) simp
next
  case False
  let ?d = "b_timestamp (hd new) - b_timestamp (last (r_buffers r))"
  let ?f = "set_duration_at (b_address (last (r_buffers r))) ?d"
  have d: "0 \<le> ?d" using False est by auto
  then have "AdjustEstimatedDurationForNewAppend new r =
      Some (r\<lparr>r_buffers := map ?f (r_buffers r), r_highest_frame := map_option ?f (r_highest_frame r)\<rparr>)"
    using False by (auto simp: AdjustEstimatedDurationForNewAppend_def Let_def)
  then show ?thesis using set_duration_core [OF core d] by (intro exI [of _ ?f]) auto
qed

text \<open>An append keeps the buffers, up to the duration of the last one, and adds the new ones.\<close>

lemma AppendBuffersToEnd_ok:
  assumes ok: "range_ok (r\<lparr>r_next_buffer_index := - 1\<rparr>)" and ne: "r_buffers r \<noteq> []" and legal: "append_legal D new group_start r"
  shows "\<exists>f r'. AppendBuffersToEnd D new group_start r = Some r' \<and>
    (\<forall>n. - 1 \<le> n \<and> n \<le> int (length (r_buffers r')) \<longrightarrow> range_ok (r'\<lparr>r_next_buffer_index := n\<rparr>)) \<and>
    r_buffers r' = map f (r_buffers r) @ new \<and> (\<forall>b. b_timestamp (f b) = b_timestamp b \<and> b_is_key_frame (f b) = b_is_key_frame b) \<and>
    r_next_buffer_index r' = r_next_buffer_index r \<and> r_range_start_pts r' = r_range_start_pts r"
proof -
  have core: "range_core r" using ok by (simp add: range_ok_def range_core_def)
  have can: "CanAppendBuffersToEnd D new group_start r = Some True" and frames: "\<forall>b\<in>set new. frame_ok b"
    and sorted: "sorted_wrt gop_order (r_buffers r @ new)"
    and key: "group_start \<noteq> kNoTimestamp \<longrightarrow> b_is_key_frame (hd new)"
    using legal by (auto simp: append_legal_def)
  then have new: "new \<noteq> []" by (auto simp: CanAppendBuffersToEnd_def split: if_splits)
  obtain f h where adj: "AdjustEstimatedDurationForNewAppend new r = Some (r\<lparr>r_buffers := map f (r_buffers r), r_highest_frame := h\<rparr>)"
    and core': "range_core (r\<lparr>r_buffers := map f (r_buffers r), r_highest_frame := h\<rparr>)"
    and f: "\<forall>b. b_timestamp (f b) = b_timestamp b \<and> b_is_key_frame (f b) = b_is_key_frame b"
    using Adjust_ok [OF core, of new] legal unfolding append_legal_def by blast
  let ?r = "r\<lparr>r_buffers := map f (r_buffers r), r_highest_frame := h\<rparr>"
  have "(\<lambda>b c. gop_order (f b) (f c)) = gop_order" using f by (simp add: gop_order_def fun_eq_iff)
  then have sorted': "sorted_wrt gop_order (r_buffers ?r @ new)"
    using sorted f by (simp add: sorted_wrt_append sorted_wrt_map gop_order_def)
  obtain h' where loop: "append_loop new ?r = Some (?r\<lparr>r_buffers := r_buffers ?r @ new, r_highest_frame := h',
      r_size_in_bytes := bytes_of (r_buffers ?r @ new),
      r_keyframe_map := key_entries (r_keyframe_map_index_base ?r) (r_buffers ?r @ new)\<rparr>)"
    "is_highest h' (r_buffers ?r @ new)"
    using append_loop_ok [OF core' frames sorted'] by blast
  let ?s = "?r\<lparr>r_buffers := r_buffers ?r @ new, r_highest_frame := h',
      r_size_in_bytes := bytes_of (r_buffers ?r @ new),
      r_keyframe_map := key_entries (r_keyframe_map_index_base ?r) (r_buffers ?r @ new)\<rparr>"
  have "AppendBuffersToEnd D new group_start r = Some ?s"
    using can key new ne adj loop(1) by (simp add: AppendBuffersToEnd_def)
  moreover have "hd (map f (r_buffers r) @ new) = f (hd (r_buffers r))" using ne by (simp add: hd_map hd_append)
  then have "range_ok (?s\<lparr>r_next_buffer_index := n\<rparr>)" if "- 1 \<le> n" "n \<le> int (length (r_buffers ?s))" for n
    using that ok ne core' sorted' frames loop(2) f by (auto simp: range_ok_def range_core_def)
  ultimately show ?thesis using f by (intro exI [of _ f] exI [of _ ?s]) simp
qed

lemma Range_new_ok:
  assumes "new \<noteq> []" "b_is_key_frame (hd new)" "\<forall>b\<in>set new. frame_ok b" "sorted_wrt gop_order new"
    "start = kNoTimestamp \<or> start \<le> b_timestamp (hd new)"
  shows "\<exists>r. Range_new D policy new start = Some r \<and> range_ok r \<and> r_buffers r = new \<and>
    r_next_buffer_index r = - 1 \<and> r_range_start_pts r = start \<and> r_gap_policy r = policy"
proof -
  let ?r = "\<lparr>r_gap_policy = policy, r_buffers = [], r_next_buffer_index = - 1, r_highest_frame = None,
    r_size_in_bytes = 0, r_range_start_pts = start, r_keyframe_map_index_base = 0, r_keyframe_map = []\<rparr>"
  have core: "range_core ?r" by (simp add: range_core_def is_highest_def)
  obtain h where loop: "append_loop new ?r = Some (?r\<lparr>r_buffers := new, r_highest_frame := h,
      r_size_in_bytes := bytes_of new, r_keyframe_map := key_entries 0 new\<rparr>)" "is_highest h new"
    using append_loop_ok [OF core assms(3)] assms(4) by auto
  then show ?thesis
    using assms by (auto simp: Range_new_def AppendBuffersToEnd_def AdjustEstimatedDurationForNewAppend_def
        range_ok_def range_core_def)
qed

subsection \<open>Splitting\<close>

lemma range_ok_parts:
  assumes "range_ok r"
  shows "r_keyframe_map r = key_entries (r_keyframe_map_index_base r) (r_buffers r)" "sorted_wrt gop_order (r_buffers r)"
    "\<forall>b\<in>set (r_buffers r). frame_ok b" "r_size_in_bytes r = bytes_of (r_buffers r)"
    "is_highest (r_highest_frame r) (r_buffers r)" "sorted_wrt (<) (map fst (r_keyframe_map r))"
    "- 1 \<le> r_next_buffer_index r" "r_next_buffer_index r \<le> int (length (r_buffers r))"
  using assms range_core_sorted [of r] by (auto simp: range_ok_def range_core_def)

definition at_key :: "int \<Rightarrow> sp_buffer \<Rightarrow> bool" where
  "at_key t b \<longleftrightarrow> b_is_key_frame b \<and> t \<le> b_timestamp b"

lemma key_entries_filter_len:
  "length (filter b_is_key_frame pre) = k \<Longrightarrow> take k (key_entries i (pre @ post)) = key_entries i pre"
  by (simp add: key_entries_append length_key_entries [of i pre, symmetric])

text \<open>The first keyframe at or after a time.\<close>

lemma GetFirstKeyframeAt_split:
  fixes r :: range and t :: int
  assumes ok: "range_ok r"
  defines "k \<equiv> GetFirstKeyframeAt t False r"
  shows "k = length (r_keyframe_map r) \<Longrightarrow> \<forall>b\<in>set (r_buffers r). \<not> at_key t b"
    "k < length (r_keyframe_map r) \<Longrightarrow> \<exists>b post. r_buffers r = takeWhile (Not \<circ> at_key t) (r_buffers r) @ b # post \<and>
       at_key t b \<and> keyframe_index k r = Some (int (length (takeWhile (Not \<circ> at_key t) (r_buffers r)))) \<and>
       take k (r_keyframe_map r) = key_entries (r_keyframe_map_index_base r) (takeWhile (Not \<circ> at_key t) (r_buffers r))"
proof -
  note parts = range_ok_parts [OF ok]
  note bound = GetFirstKeyframeAt_bound [OF parts(6), where t = t, folded k_def]
  show "\<forall>b\<in>set (r_buffers r). \<not> at_key t b" if k: "k = length (r_keyframe_map r)"
  proof
    fix b assume b: "b \<in> set (r_buffers r)"
    show "\<not> at_key t b"
    proof
      assume "at_key t b"
      then have "b_timestamp b \<in> set (map fst (r_keyframe_map r))" "t \<le> b_timestamp b"
        using b by (auto simp: parts(1) key_entries_fst at_key_def)
      then obtain i where "i < length (r_keyframe_map r)" "t \<le> fst (r_keyframe_map r ! i)"
        by (auto simp: in_set_conv_nth)
      then show False using bound(2) [of i] k by simp
    qed
  qed
  show "\<exists>b post. r_buffers r = takeWhile (Not \<circ> at_key t) (r_buffers r) @ b # post \<and>
       at_key t b \<and> keyframe_index k r = Some (int (length (takeWhile (Not \<circ> at_key t) (r_buffers r)))) \<and>
       take k (r_keyframe_map r) = key_entries (r_keyframe_map_index_base r) (takeWhile (Not \<circ> at_key t) (r_buffers r))"
    if k: "k < length (r_keyframe_map r)"
  proof -
    obtain pre b post where s: "r_buffers r = pre @ b # post" "b_is_key_frame b" "length (filter b_is_key_frame pre) = k"
      "r_keyframe_map r ! k = (b_timestamp b, r_keyframe_map_index_base r + int (length pre))"
      using key_split [of k "r_keyframe_map_index_base r" "r_buffers r"] k parts(1) by metis
    have b: "at_key t b" using bound(3) [of k] k s(2,4) by (simp add: at_key_def)
    have "\<not> at_key t c" if c: "c \<in> set pre" for c
    proof
      assume "at_key t c"
      then have "b_timestamp c \<in> set (map fst (key_entries (r_keyframe_map_index_base r) pre))" "t \<le> b_timestamp c"
        using c by (auto simp: key_entries_fst at_key_def)
      then have "b_timestamp c \<in> set (map fst (take k (r_keyframe_map r)))"
        using key_entries_filter_len [OF s(3)] by (simp add: parts(1) s(1))
      then obtain i where "i < k" "fst (r_keyframe_map r ! i) = b_timestamp c"
        by (auto simp: in_set_conv_nth)
      then show False using bound(2) [of i] \<open>t \<le> b_timestamp c\<close> by simp
    qed
    then have "takeWhile (Not \<circ> at_key t) (pre @ b # post) = pre"
      using b by (simp add: takeWhile_append2)
    then show ?thesis
      using s b k key_entries_filter_len [OF s(3)] parts(1) by (auto simp: keyframe_index_def)
  qed
qed

text \<open>The queue is split at the first keyframe at or after the time, the reader going with its buffer.\<close>

lemma Range_SplitRange_ok:
  fixes r :: range and t :: int
  assumes ok: "range_ok r" and ne: "r_buffers r \<noteq> []"
  defines "kept \<equiv> takeWhile (Not \<circ> at_key t) (r_buffers r)"
    and "moved \<equiv> dropWhile (Not \<circ> at_key t) (r_buffers r)"
  shows "if moved = [] then Range_SplitRange D t r = Some (None, r)
    else \<exists>new r'. Range_SplitRange D t r = Some (Some new, r') \<and> range_ok new \<and> range_ok r' \<and>
      r_buffers r' = kept \<and> r_buffers new = moved \<and>
      (if r_next_buffer_index r \<ge> int (length kept)
       then r_next_buffer_index r' = - 1 \<and> r_next_buffer_index new = r_next_buffer_index r - int (length kept)
       else r_next_buffer_index r' = r_next_buffer_index r \<and> r_next_buffer_index new = - 1)"
proof -
  note parts = range_ok_parts [OF ok]
  define k where "k = GetFirstKeyframeAt t False r"
  have k_le: "k \<le> length (r_keyframe_map r)" unfolding k_def by (rule GetFirstKeyframeAt_bound(1) [OF parts(6)])
  note split = GetFirstKeyframeAt_split [OF ok, where t = t, folded k_def kept_def]
  have queue: "r_buffers r = kept @ moved" by (simp add: kept_def moved_def)
  show ?thesis
  proof (cases "k = length (r_keyframe_map r)")
    case True
    then have "moved = []" using split(1) by (simp add: moved_def dropWhile_eq_Nil_conv)
    then show ?thesis using True ne by (simp add: Range_SplitRange_def k_def [symmetric])
  next
    case False
    then obtain b post where s: "r_buffers r = kept @ b # post" "at_key t b" "keyframe_index k r = Some (int (length kept))"
      "take k (r_keyframe_map r) = key_entries (r_keyframe_map_index_base r) kept" using split(2) k_le by auto
    have moved: "moved = b # post" using queue s(1) by simp
    let ?n = "r_next_buffer_index r"
    obtain h where h: "UpdateEndTimeUsingLastGOP (cut_range (length kept) (r_highest_frame r) ?n r) = Some (cut_range (length kept) h ?n r)"
      "is_highest h kept" using cut_end_time [OF ok, of "length kept"] s(1) by auto
    obtain st where st: "Range_GetStartTimestamp r = Some st" "st \<le> b_timestamp (hd (r_buffers r))"
      "st = r_range_start_pts r \<or> st = b_timestamp (hd (r_buffers r))"
      using ok ne by (auto simp: Range_GetStartTimestamp_def range_ok_def)
    have "b_timestamp (hd (r_buffers r)) \<le> b_timestamp b"
      using parts(2) s(1,2) by (cases kept) (auto simp: gop_order_def at_key_def)
    then have start: "max t st \<le> b_timestamp b" using s(2) st(2) by (simp add: at_key_def)
    have tail: "sorted_wrt gop_order moved" "\<forall>c\<in>set moved. frame_ok c"
      using parts(2,3) unfolding queue by (auto simp: sorted_wrt_append)
    obtain new where new: "Range_new D (r_gap_policy r) moved (max t st) = Some new" "range_ok new" "r_buffers new = moved"
      "r_next_buffer_index new = - 1" "r_range_start_pts new = max t st"
      using Range_new_ok [OF _ _ tail(2,1), of "max t st" D "r_gap_policy r"] start s(2) by (auto simp: moved at_key_def)
    have free: "FreeBufferRange (length kept) (r\<lparr>r_keyframe_map := take k (r_keyframe_map r)\<rparr>) =
        Some (cut_range (length kept) (r_highest_frame r) ?n r)"
      using FreeBufferRange_eq [of "r\<lparr>r_keyframe_map := take k (r_keyframe_map r)\<rparr>" "length kept"] s(1,4) parts(4)
      by (simp add: cut_range_def)
    have bound: "length kept < length (r_buffers r)" using s(1) by simp
    have cut: "r_next_buffer_index (cut_range (length kept) h ?n r) = ?n"
      "r_gap_policy (cut_range (length kept) h ?n r) = r_gap_policy r"
      "r_buffers (cut_range (length kept) h ?n r) = kept" using s(1) by (simp_all add: cut_range_def)
    have reset: "Range_ResetNextBufferPosition (cut_range (length kept) h ?n r) = cut_range (length kept) h (- 1) r"
      by (simp add: Range_ResetNextBufferPosition_def cut_range_def)
    have "Range_SplitRange D t r = (if ?n \<ge> int (length kept)
        then Some (Some (new\<lparr>r_next_buffer_index := ?n - int (length kept)\<rparr>), cut_range (length kept) h (- 1) r)
        else Some (Some new, cut_range (length kept) h ?n r))"
      using ne False bound s(3) st(1) start free h(1) new cut reset parts(8)
      by (simp add: Range_SplitRange_def k_def [symmetric] moved Let_def s(1))
    moreover have "range_ok (cut_range (length kept) h n r)" if "- 1 \<le> n" "n \<le> int (length kept)" for n
      using cut_range_ok [OF ok, of h "length kept" n] h(2) that s(1) by simp
    moreover have "range_ok (new\<lparr>r_next_buffer_index := ?n - int (length kept)\<rparr>)" if "?n \<ge> int (length kept)"
      using new(2,3) that parts(8) s(1) by (simp add: range_ok_def range_core_def moved)
    moreover have "r_next_buffer_index (cut_range (length kept) h (- 1) r) = - 1"
      "r_buffers (cut_range (length kept) h (- 1) r) = kept" using s(1) by (simp_all add: cut_range_def)
    ultimately show ?thesis using new(2,3,4) cut(1,3) parts(7) by (simp add: moved)
  qed
qed

subsection \<open>Deleting groups of pictures\<close>

text \<open>The first group of a queue, and the rest.\<close>

definition first_gop :: "sp_buffer list \<Rightarrow> sp_buffer list" where
  "first_gop bs = take 1 bs @ takeWhile (Not \<circ> b_is_key_frame) (drop 1 bs)"

definition after_first_gop :: "sp_buffer list \<Rightarrow> sp_buffer list" where
  "after_first_gop bs = dropWhile (Not \<circ> b_is_key_frame) (drop 1 bs)"

lemma first_gop_append: "first_gop bs @ after_first_gop bs = bs"
  by (cases bs) (simp_all add: first_gop_def after_first_gop_def)

lemma delete_front_loop_ok:
  assumes "r_buffers r = xs @ ys" "r_size_in_bytes r = bytes_of (xs @ ys)"
  shows "delete_front_loop (length xs) n deleted r =
    Some (n + bytes_of xs, deleted @ xs, r\<lparr>r_size_in_bytes := bytes_of ys, r_buffers := ys\<rparr>)"
  using assms
proof (induction xs arbitrary: n deleted r)
  case Nil
  then show ?case by (cases r) simp
next
  case (Cons b xs)
  let ?r = "r\<lparr>r_size_in_bytes := bytes_of (xs @ ys), r_buffers := xs @ ys\<rparr>"
  have "r_size_in_bytes r - b_data_size b = bytes_of (xs @ ys)" using Cons.prems by simp
  then have "delete_front_loop (length (b # xs)) n deleted r = delete_front_loop (length xs) (n + b_data_size b) (deleted @ [b]) ?r"
    using Cons.prems by simp
  also have "\<dots> = Some (n + b_data_size b + bytes_of xs, (deleted @ [b]) @ xs, ?r\<lparr>r_size_in_bytes := bytes_of ys, r_buffers := ys\<rparr>)"
    by (rule Cons.IH) simp_all
  finally show ?case by simp
qed

lemma key_entries_non_key: "\<forall>b\<in>set bs. \<not> b_is_key_frame b \<Longrightarrow> key_entries i bs = []"
  by (induction bs arbitrary: i) auto

lemma first_gop_keys:
  assumes "bs \<noteq> []" "b_is_key_frame (hd bs)"
  shows "key_entries i bs = (b_timestamp (hd bs), i) # key_entries (i + int (length (first_gop bs))) (after_first_gop bs)"
    "after_first_gop bs \<noteq> [] \<Longrightarrow> b_is_key_frame (hd (after_first_gop bs))" "length (first_gop bs) > 0"
proof -
  obtain b cs where bs: "bs = b # cs" using assms(1) by (cases bs) auto
  have "key_entries (i + 1) (takeWhile (Not \<circ> b_is_key_frame) cs) = []"
    by (rule key_entries_non_key) (auto dest: set_takeWhileD)
  then have "key_entries (i + 1) cs = key_entries (i + 1 + int (length (takeWhile (Not \<circ> b_is_key_frame) cs))) (dropWhile (Not \<circ> b_is_key_frame) cs)"
    by (subst takeWhile_dropWhile_id [of "Not \<circ> b_is_key_frame" cs, symmetric]) (simp only: key_entries_append append_Nil)
  then show "key_entries i bs = (b_timestamp (hd bs), i) # key_entries (i + int (length (first_gop bs))) (after_first_gop bs)"
    using assms(2) by (simp add: bs first_gop_def after_first_gop_def add.assoc)
  show "after_first_gop bs \<noteq> [] \<Longrightarrow> b_is_key_frame (hd (after_first_gop bs))"
    using hd_dropWhile [of "Not \<circ> b_is_key_frame" "drop 1 bs"] by (simp add: after_first_gop_def)
  show "length (first_gop bs) > 0" by (simp add: bs first_gop_def)
qed

lemma gop_start_second:
  assumes "r_keyframe_map r = key_entries (r_keyframe_map_index_base r + int n) ys" "r_buffers r = xs @ ys" "length xs = n"
    "ys \<noteq> [] \<Longrightarrow> b_is_key_frame (hd ys)"
  shows "gop_start 0 r = int n"
  using assms by (cases ys) (auto simp: gop_start_def)

lemma is_highest_suffix:
  assumes "is_highest h (xs @ ys)" "sorted_wrt gop_order (xs @ ys)" "ys \<noteq> []" "b_is_key_frame (hd ys)"
  shows "is_highest h ys"
proof -
  obtain c cs where ys: "ys = c # cs" using assms(3) by (cases ys) auto
  obtain k where h: "h = Some k" "k \<in> set (xs @ ys)" "\<forall>b\<in>set (xs @ ys). b_timestamp b \<le> b_timestamp k"
    using assms(1) ys by (auto simp: is_highest_def split: option.splits)
  have "\<forall>b\<in>set xs. b_timestamp b < b_timestamp c" using assms(2,4) by (auto simp: ys sorted_wrt_append gop_order_def)
  then have "k \<notin> set xs" using h(3) by (auto simp: ys)
  then show ?thesis using h by (simp add: is_highest_def)
qed

text \<open>The first group is handed back, the reader keeping its buffer.\<close>

lemma Range_DeleteGOPFromFront_ok:
  fixes r :: range
  assumes ok: "range_ok r" and ne: "r_buffers r \<noteq> []" and contains: "FirstGOPContainsNextBufferPosition r = Some False"
  defines "gop \<equiv> first_gop (r_buffers r)"
  shows "\<exists>r'. Range_DeleteGOPFromFront deleted r = Some (bytes_of gop, deleted @ gop, r') \<and> range_ok r' \<and>
    r_buffers r' = after_first_gop (r_buffers r) \<and>
    r_next_buffer_index r' = (if r_next_buffer_index r = - 1 then - 1 else r_next_buffer_index r - int (length gop))"
proof -
  note parts = range_ok_parts [OF ok]
  let ?rest = "after_first_gop (r_buffers r)" and ?base = "r_keyframe_map_index_base r"
  have hd: "b_is_key_frame (hd (r_buffers r))" using ok ne by (simp add: range_ok_def)
  note keys = first_gop_keys [OF ne hd, folded gop_def]
  have queue: "r_buffers r = gop @ ?rest" by (simp add: gop_def first_gop_append)
  have map: "r_keyframe_map r = (b_timestamp (hd (r_buffers r)), ?base) # key_entries (?base + int (length gop)) ?rest"
    using parts(1) keys(1) by simp
  let ?r1 = "r\<lparr>r_keyframe_map := key_entries (?base + int (length gop)) ?rest\<rparr>"
  have start: "gop_start 0 ?r1 = int (length gop)"
    by (rule gop_start_second [of _ _ ?rest gop]) (use queue keys(2) in simp_all)
  have pos: "r_next_buffer_index r = - 1 \<or> int (length gop) \<le> r_next_buffer_index r"
  proof (cases ?rest)
    case Nil
    then show ?thesis using contains map parts(7) by (auto simp: FirstGOPContainsNextBufferPosition_def Range_HasNextBufferPosition_def split: if_splits)
  next
    case (Cons c cs)
    then show ?thesis using contains map keys(2) parts(7)
      by (auto simp: FirstGOPContainsNextBufferPosition_def Range_HasNextBufferPosition_def keyframe_index_def split: if_splits)
  qed
  have loop: "delete_front_loop (length gop) 0 deleted ?r1 =
      Some (bytes_of gop, deleted @ gop, ?r1\<lparr>r_size_in_bytes := bytes_of ?rest, r_buffers := ?rest\<rparr>)"
    using delete_front_loop_ok [of ?r1 gop ?rest 0 deleted] parts(4) queue by simp
  let ?n = "if r_next_buffer_index r = - 1 then - 1 else r_next_buffer_index r - int (length gop)"
  let ?h = "if ?rest = [] then None else r_highest_frame r"
  let ?r' = "r\<lparr>r_keyframe_map := key_entries (?base + int (length gop)) ?rest, r_size_in_bytes := bytes_of ?rest, r_buffers := ?rest,
     r_keyframe_map_index_base := ?base + int (length gop), r_next_buffer_index := ?n, r_range_start_pts := kNoTimestamp,
     r_highest_frame := ?h\<rparr>"
  have del: "Range_DeleteGOPFromFront deleted r = Some (bytes_of gop, deleted @ gop, ?r')"
    using ne contains map start loop pos keys(3) parts(7) by (auto simp: Range_DeleteGOPFromFront_def Let_def)
  have "is_highest ?h ?rest"
    using is_highest_suffix [of "r_highest_frame r" gop ?rest] parts(2,5) keys(2) queue by (simp add: is_highest_def)
  moreover have "sorted_wrt gop_order (gop @ ?rest)" "\<forall>b\<in>set (gop @ ?rest). frame_ok b"
    using parts(2,3) queue by simp_all
  then have "sorted_wrt gop_order ?rest" "\<forall>b\<in>set ?rest. frame_ok b" by (simp_all add: sorted_wrt_append)
  moreover have "int (length (r_buffers r)) = int (length gop) + int (length ?rest)" by (subst queue) simp
  ultimately have "range_ok ?r'" using keys(2) pos parts(7,8)
    by (auto simp: range_ok_def range_core_def)
  then show ?thesis using del by (intro exI [of _ ?r']) simp
qed

lemma delete_back_loop_ok:
  assumes "r_buffers r = xs @ ys" "r_size_in_bytes r = bytes_of (xs @ ys)"
  shows "delete_back_loop (int (length xs)) n deleted r =
    Some (n + bytes_of ys, ys @ deleted, r\<lparr>r_size_in_bytes := bytes_of xs, r_buffers := xs\<rparr>)"
  using assms
proof (induction ys arbitrary: n deleted r rule: rev_induct)
  case Nil
  then show ?case by (subst delete_back_loop.simps) (cases r, simp)
next
  case (snoc b ys)
  let ?r = "r\<lparr>r_size_in_bytes := bytes_of (xs @ ys), r_buffers := xs @ ys\<rparr>"
  have "delete_back_loop (int (length xs)) n deleted r = delete_back_loop (int (length xs)) (n + b_data_size b) (b # deleted) ?r"
    using snoc.prems by (subst delete_back_loop.simps) (simp add: Let_def butlast_append)
  also have "\<dots> = Some (n + b_data_size b + bytes_of ys, ys @ b # deleted, ?r\<lparr>r_size_in_bytes := bytes_of xs, r_buffers := xs\<rparr>)"
    by (rule snoc.IH) simp_all
  finally show ?case by simp
qed

text \<open>The last group is handed back, the reader not being in it.\<close>

lemma Range_DeleteGOPFromBack_ok:
  fixes r :: range
  assumes ok: "range_ok r" and ne: "r_buffers r \<noteq> []" and contains: "LastGOPContainsNextBufferPosition r = Some False"
  shows "\<exists>gop r'. Range_DeleteGOPFromBack deleted r = Some (bytes_of gop, gop @ deleted, r') \<and> range_ok r' \<and>
    r_buffers r = r_buffers r' @ gop \<and> gop \<noteq> [] \<and> b_is_key_frame (hd gop) \<and> (\<forall>b\<in>set (tl gop). \<not> b_is_key_frame b) \<and>
    r_next_buffer_index r' = r_next_buffer_index r"
proof -
  note parts = range_ok_parts [OF ok]
  let ?k = "length (r_keyframe_map r) - 1" and ?base = "r_keyframe_map_index_base r" and ?n = "r_next_buffer_index r"
  have map_ne: "r_keyframe_map r \<noteq> []" using range_ok_map_empty [OF ok] ne by simp
  then have k: "?k < length (r_keyframe_map r)" by simp
  obtain pre b mid rest where s: "r_buffers r = pre @ b # mid @ rest" "b_is_key_frame b"
    "\<forall>c\<in>set mid. \<not> b_is_key_frame c" "length (filter b_is_key_frame pre) = ?k"
    "gop_start ?k r = int (length pre)" "rest \<noteq> [] \<Longrightarrow> ?k + 1 < length (r_keyframe_map r)"
    using range_split [OF parts(1) k] by metis
  then have rest: "rest = []" using map_ne by (cases rest) auto
  have goal: "keyframe_index ?k r = Some (int (length pre))" using s(5) k by (simp add: keyframe_index_def gop_start_def)
  have map: "butlast (r_keyframe_map r) = key_entries ?base pre"
    using key_entries_filter_len [OF s(4), of ?base "b # mid"] by (simp add: butlast_conv_take parts(1) s(1) rest)
  have loop: "delete_back_loop (int (length pre)) 0 deleted (r\<lparr>r_keyframe_map := key_entries ?base pre\<rparr>) =
      Some (bytes_of (b # mid), (b # mid) @ deleted,
        r\<lparr>r_keyframe_map := key_entries ?base pre, r_size_in_bytes := bytes_of pre, r_buffers := pre\<rparr>)"
    using delete_back_loop_ok [of "r\<lparr>r_keyframe_map := key_entries ?base pre\<rparr>" pre "b # mid" 0 deleted] s(1) rest parts(4) by simp
  obtain h where h: "UpdateEndTimeUsingLastGOP (cut_range (length pre) (r_highest_frame r) ?n r) = Some (cut_range (length pre) h ?n r)"
    "is_highest h pre" using cut_end_time [OF ok, of "length pre"] s(1) by auto
  have pos: "?n = - 1 \<or> ?n < int (length pre)"
    using contains goal parts(7)
    by (auto simp: LastGOPContainsNextBufferPosition_def Range_HasNextBufferPosition_def split: if_splits)
  have "take (length pre) (r_buffers r) = pre" by (simp add: s(1))
  then have "cut_range (length pre) (r_highest_frame r) ?n r =
      r\<lparr>r_keyframe_map := key_entries ?base pre, r_size_in_bytes := bytes_of pre, r_buffers := pre\<rparr>"
    by (cases r) (simp add: cut_range_def)
  then have "Range_DeleteGOPFromBack deleted r = Some (bytes_of (b # mid), (b # mid) @ deleted, cut_range (length pre) h ?n r)"
    using ne contains map_ne goal map loop h(1) by (simp add: Range_DeleteGOPFromBack_def Let_def del: bytes_of_simps)
  moreover have "range_ok (cut_range (length pre) h ?n r)"
    using cut_range_ok [OF ok, of h "length pre" ?n] h(2) pos parts(7) s(1) by auto
  ultimately show ?thesis using s rest
    by (intro exI [of _ "b # mid"] exI [of _ "cut_range (length pre) h ?n r"]) (simp add: cut_range_def)
qed

subsection \<open>Seeking and reading\<close>

text \<open>The reader goes to the last keyframe at or before the time, or to the first.\<close>

definition is_seek_position :: "int \<Rightarrow> sp_buffer list \<Rightarrow> nat \<Rightarrow> bool" where
  "is_seek_position t bs i \<longleftrightarrow> i < length bs \<and> b_is_key_frame (bs ! i) \<and> (i \<noteq> 0 \<longrightarrow> b_timestamp (bs ! i) \<le> t) \<and>
     (\<forall>j. i < j \<and> j < length bs \<and> b_is_key_frame (bs ! j) \<longrightarrow> t < b_timestamp (bs ! j))"

lemma sorted_key_before:
  "sorted_wrt gop_order (c # bs) \<Longrightarrow> b_is_key_frame c \<Longrightarrow> b \<in> set bs \<Longrightarrow> b_timestamp c \<le> b_timestamp b"
  by (auto simp: gop_order_def)

lemma Seek_index:
  fixes r :: range and t :: int
  assumes ok: "range_ok r" and ne: "r_buffers r \<noteq> []"
  shows "\<exists>i. keyframe_index (GetFirstKeyframeAtOrBefore t r) r = Some (int i) \<and> is_seek_position t (r_buffers r) i"
proof -
  note parts = range_ok_parts [OF ok]
  let ?g = "GetFirstKeyframeAtOrBefore t r"
  have hd: "b_is_key_frame (hd (r_buffers r))" using ok ne by (simp add: range_ok_def)
  have map_ne: "r_keyframe_map r \<noteq> []" using range_ok_map_empty [OF ok] ne by simp
  note bound = GetFirstKeyframeAtOrBefore_bound [OF parts(6) map_ne, where t = t]
  obtain pre b mid rest where s: "r_buffers r = pre @ b # mid @ rest" "b_is_key_frame b"
    "\<forall>c\<in>set mid. \<not> b_is_key_frame c" "rest = [] \<or> b_is_key_frame (hd rest)"
    "length (filter b_is_key_frame pre) = ?g" "gop_start ?g r = int (length pre)"
    "fst (r_keyframe_map r ! ?g) = b_timestamp b"
    "rest \<noteq> [] \<Longrightarrow> ?g + 1 < length (r_keyframe_map r) \<and> fst (r_keyframe_map r ! (?g + 1)) = b_timestamp (hd rest)"
    using range_split [OF parts(1) bound(1)] by metis
  have late: "t < b_timestamp c" if "c \<in> set (mid @ rest)" "b_is_key_frame c" for c
  proof -
    have c: "c \<in> set rest" using that s(3) by auto
    then obtain d ds where rest: "rest = d # ds" by (cases rest) auto
    have "t < b_timestamp d" using bound(3) [of "?g + 1"] s(8) rest by simp
    moreover have "sorted_wrt gop_order (d # ds)" using parts(2) unfolding s(1) rest by (auto simp: sorted_wrt_append)
    then have "b_timestamp d \<le> b_timestamp c" using sorted_key_before [of d ds c] s(4) c rest by auto
    ultimately show ?thesis by simp
  qed
  have "is_seek_position t (r_buffers r) (length pre)"
    unfolding is_seek_position_def
  proof (intro conjI allI impI)
    show "length pre < length (r_buffers r)" "b_is_key_frame (r_buffers r ! length pre)" using s(1,2) by simp_all
    show "b_timestamp (r_buffers r ! length pre) \<le> t" if "length pre \<noteq> 0"
    proof -
      have "?g \<noteq> 0" using filter_key_Nil [of pre b "mid @ rest" "r_buffers r"] s(1,5) hd that by auto
      then show ?thesis using bound(2) s(1,7) by simp
    qed
    fix j assume j: "length pre < j \<and> j < length (r_buffers r) \<and> b_is_key_frame (r_buffers r ! j)"
    then have "r_buffers r ! j = (mid @ rest) ! (j - length pre - 1)" by (simp add: s(1) nth_append)
    moreover have "(mid @ rest) ! (j - length pre - 1) \<in> set (mid @ rest)"
      using s(1) conjunct1 [OF j] conjunct1 [OF conjunct2 [OF j]] by (intro nth_mem) simp
    ultimately show "t < b_timestamp (r_buffers r ! j)" using late j by simp
  qed
  moreover have "keyframe_index ?g r = Some (int (length pre))" using s(6) bound(1) by (simp add: keyframe_index_def gop_start_def)
  ultimately show ?thesis by blast
qed

lemma Range_Seek_ok:
  assumes ok: "range_ok r" and can: "Range_CanSeekTo D t r = Some True"
  shows "\<exists>i. Range_Seek D t r = Some (r\<lparr>r_next_buffer_index := int i\<rparr>) \<and> is_seek_position t (r_buffers r) i"
proof -
  have ne: "r_buffers r \<noteq> []" using can by (auto simp: Range_CanSeekTo_def Range_GetStartTimestamp_def split: if_splits)
  then have map_ne: "r_keyframe_map r \<noteq> []" using range_ok_map_empty [OF ok] by simp
  obtain i where "keyframe_index (GetFirstKeyframeAtOrBefore t r) r = Some (int i)" "is_seek_position t (r_buffers r) i"
    using Seek_index [OF ok ne] by blast
  then show ?thesis using can map_ne by (auto simp: Range_Seek_def is_seek_position_def)
qed

lemma range_ok_position: "range_ok r \<Longrightarrow> - 1 \<le> n \<Longrightarrow> n \<le> int (length (r_buffers r)) \<Longrightarrow> range_ok (r\<lparr>r_next_buffer_index := n\<rparr>)"
  by (simp add: range_ok_def range_core_def)

lemma Range_GetNextBuffer_ok:
  "range_ok r \<Longrightarrow> range_ok (snd (Range_GetNextBuffer r))"
  by (auto simp: Range_GetNextBuffer_def Range_HasNextBuffer_def intro!: range_ok_position dest: range_ok_parts)



subsection \<open>Operations in any order\<close>

text \<open>
  The calls of a stream on one of its ranges. What the stream guarantees before a call: the new
  buffers continue the decode order and may be appended, a seek is possible, and a deleted group
  is not the one being read.
\<close>

datatype range_op =
    R_Append int "sp_buffer list" int
  | R_Append_Range int range bool
  | R_Seek int int
  | R_Seek_To_Start
  | R_Get_Next
  | R_Reset_Position
  | R_Truncate int bool
  | R_Delete_All
  | R_Split int int
  | R_Delete_Front
  | R_Delete_Back

definition range_step :: "range_op \<Rightarrow> range \<Rightarrow> range option" where
  "range_step p r = (case p of
       R_Append D new start \<Rightarrow> AppendBuffersToEnd D new start r
     | R_Append_Range D other transfer \<Rightarrow> AppendRangeToEnd D other transfer r
     | R_Seek D t \<Rightarrow> Range_Seek D t r
     | R_Seek_To_Start \<Rightarrow> Range_SeekToStart r
     | R_Get_Next \<Rightarrow> Some (snd (Range_GetNextBuffer r))
     | R_Reset_Position \<Rightarrow> Some (Range_ResetNextBufferPosition r)
     | R_Truncate t exclusive \<Rightarrow> map_option (snd \<circ> snd) (Range_TruncateAt t (Some []) exclusive r)
     | R_Delete_All \<Rightarrow> map_option snd (Range_DeleteAll None r)
     | R_Split D t \<Rightarrow> map_option snd (Range_SplitRange D t r)
     | R_Delete_Front \<Rightarrow> map_option (snd \<circ> snd) (Range_DeleteGOPFromFront [] r)
     | R_Delete_Back \<Rightarrow> map_option (snd \<circ> snd) (Range_DeleteGOPFromBack [] r))"

definition range_legal :: "range_op \<Rightarrow> range \<Rightarrow> bool" where
  "range_legal p r = (case p of
       R_Append D new start \<Rightarrow> r_buffers r \<noteq> [] \<and> append_legal D new start r
     | R_Append_Range D other transfer \<Rightarrow> r_buffers r \<noteq> [] \<and> range_ok other \<and>
         (case NextRangeStartTimeForAppendRangeToEnd other r of None \<Rightarrow> False
          | Some start \<Rightarrow> append_legal D (r_buffers other) start r)
     | R_Seek D t \<Rightarrow> Range_CanSeekTo D t r = Some True
     | R_Seek_To_Start \<Rightarrow> r_buffers r \<noteq> []
     | R_Split D t \<Rightarrow> r_buffers r \<noteq> []
     | R_Delete_Front \<Rightarrow> r_buffers r \<noteq> [] \<and> FirstGOPContainsNextBufferPosition r = Some False
     | R_Delete_Back \<Rightarrow> r_buffers r \<noteq> [] \<and> LastGOPContainsNextBufferPosition r = Some False
     | _ \<Rightarrow> True)"

fun range_run :: "range_op list \<Rightarrow> range \<Rightarrow> range option" where
  "range_run [] r = Some r"
| "range_run (p # ps) r = range_step p r \<bind> range_run ps"

fun range_run_legal :: "range_op list \<Rightarrow> range \<Rightarrow> bool" where
  "range_run_legal [] r = True"
| "range_run_legal (p # ps) r = (range_legal p r \<and> (case range_step p r of None \<Rightarrow> True | Some r \<Rightarrow> range_run_legal ps r))"

lemma position_fields:
  "r_gap_policy (r\<lparr>r_next_buffer_index := n\<rparr>) = r_gap_policy r"
  "r_buffers (r\<lparr>r_next_buffer_index := n\<rparr>) = r_buffers r"
  "r_highest_frame (r\<lparr>r_next_buffer_index := n\<rparr>) = r_highest_frame r"
  by simp_all

lemma is_next_after_position:
  "is_next_after D highest t (r\<lparr>r_next_buffer_index := n\<rparr>) = is_next_after D highest t r"
  unfolding is_next_after_def position_fields by (rule refl)

lemma NextRangeStart_position:
  "NextRangeStartTimeForAppendRangeToEnd other (r\<lparr>r_next_buffer_index := n\<rparr>) = NextRangeStartTimeForAppendRangeToEnd other r"
  unfolding NextRangeStartTimeForAppendRangeToEnd_def Range_GetEndTimestamp_def position_fields by (rule refl)

lemma CanAppendBuffers_position:
  "CanAppendBuffersToEnd D new start (r\<lparr>r_next_buffer_index := n\<rparr>) = CanAppendBuffersToEnd D new start r"
  unfolding CanAppendBuffersToEnd_def IsNextInPresentationSequence_def IsNextInDecodeSequence_def
    AllowableAppendAfterEstimatedDuration_def Range_GetEndTimestamp_def Range_GetBufferedEndTimestamp_def
    is_next_after_position position_fields by (rule refl)

lemma range_ok_reset: "range_ok r \<Longrightarrow> range_ok (r\<lparr>r_next_buffer_index := - 1\<rparr>)"
  by (simp add: range_ok_position)

lemma AppendRangeToEnd_ok:
  assumes ok: "range_ok r" and ne: "r_buffers r \<noteq> []" and other: "range_ok other"
    and start: "NextRangeStartTimeForAppendRangeToEnd other r = Some start" and legal: "append_legal D (r_buffers other) start r"
  shows "\<exists>f r'. AppendRangeToEnd D other transfer r = Some r' \<and> range_ok r' \<and>
    r_buffers r' = map f (r_buffers r) @ r_buffers other \<and>
    (\<forall>b. b_timestamp (f b) = b_timestamp b \<and> b_is_key_frame (f b) = b_is_key_frame b)"
proof -
  define n where "n = (if transfer \<and> r_next_buffer_index other \<ge> 0
    then r_next_buffer_index other + int (length (r_buffers r)) else r_next_buffer_index r)"
  let ?r = "r\<lparr>r_next_buffer_index := n\<rparr>"
  have can: "CanAppendBuffersToEnd D (r_buffers other) start r = Some True" using legal by (simp add: append_legal_def)
  have ok': "range_ok (?r\<lparr>r_next_buffer_index := - 1\<rparr>)" using range_ok_reset [OF ok] by simp
  have legal': "append_legal D (r_buffers other) start ?r"
    using legal by (simp add: append_legal_def CanAppendBuffers_position)
  have ne': "r_buffers ?r \<noteq> []" using ne by simp
  obtain f r' where app: "AppendBuffersToEnd D (r_buffers other) start ?r = Some r'"
    "\<forall>n. - 1 \<le> n \<and> n \<le> int (length (r_buffers r')) \<longrightarrow> range_ok (r'\<lparr>r_next_buffer_index := n\<rparr>)"
    "r_buffers r' = map f (r_buffers ?r) @ r_buffers other" "r_next_buffer_index r' = r_next_buffer_index ?r"
    "\<forall>b. b_timestamp (f b) = b_timestamp b \<and> b_is_key_frame (f b) = b_is_key_frame b"
    using AppendBuffersToEnd_ok [OF ok' ne' legal'] by blast
  have "AppendRangeToEnd D other transfer r = AppendBuffersToEnd D (r_buffers other) start ?r"
  proof (cases "transfer \<and> r_next_buffer_index other \<ge> 0")
    case True
    then show ?thesis using start can ne
      by (simp add: AppendRangeToEnd_def CanAppendRangeToEnd_def NextRangeStart_position n_def)
  next
    case False
    then have "?r = r" by (auto simp: n_def)
    then show ?thesis using start can ne False
      by (auto simp: AppendRangeToEnd_def CanAppendRangeToEnd_def NextRangeStart_position n_def)
  qed
  moreover have "- 1 \<le> n" "n \<le> int (length (r_buffers r'))"
    using range_ok_parts(7,8) [OF ok] range_ok_parts(8) [OF other] app(3) by (auto simp: n_def)
  then have "range_ok (r'\<lparr>r_next_buffer_index := r_next_buffer_index r'\<rparr>)" using app(2,4) by auto
  then have "range_ok r'" by simp
  ultimately show ?thesis using app by (intro exI [of _ f] exI [of _ r']) simp
qed

lemma range_step_ok:
  assumes ok: "range_ok r" and legal: "range_legal p r"
  shows "\<exists>r'. range_step p r = Some r' \<and> range_ok r'"
proof (cases p)
  case (R_Append D new start)
  then obtain f r' where app: "AppendBuffersToEnd D new start r = Some r'" "r_next_buffer_index r' = r_next_buffer_index r"
    "\<forall>n. - 1 \<le> n \<and> n \<le> int (length (r_buffers r')) \<longrightarrow> range_ok (r'\<lparr>r_next_buffer_index := n\<rparr>)"
    "r_buffers r' = map f (r_buffers r) @ new"
    using AppendBuffersToEnd_ok [OF range_ok_reset [OF ok], of D new start] legal unfolding R_Append range_legal_def by auto blast
  then have "range_ok (r'\<lparr>r_next_buffer_index := r_next_buffer_index r'\<rparr>)" using range_ok_parts(7,8) [OF ok] by auto
  then show ?thesis using R_Append app(1) by (simp add: range_step_def)
next
  case (R_Append_Range D other transfer)
  then show ?thesis using AppendRangeToEnd_ok [OF ok, of other _ D transfer] legal
    by (auto simp: range_legal_def range_step_def split: option.splits)
next
  case (R_Seek D t)
  then show ?thesis using Range_Seek_ok [OF ok, of D t] legal ok
    by (auto simp: range_legal_def range_step_def is_seek_position_def intro!: range_ok_position)
next
  case (R_Truncate t ex)
  then show ?thesis using Range_TruncateAt_ok [OF ok, of "Some []" t ex] by (auto simp: range_step_def)
next
  case R_Delete_All
  then show ?thesis using TruncateAt_index_ok [OF ok, of 0 None] by (auto simp: range_step_def Range_DeleteAll_def)
next
  case (R_Split D t)
  then show ?thesis using Range_SplitRange_ok [OF ok, of t D] legal ok
    by (auto simp: range_legal_def range_step_def split: if_splits)
next
  case R_Delete_Front
  then show ?thesis using Range_DeleteGOPFromFront_ok [OF ok] legal by (fastforce simp: range_legal_def range_step_def)
next
  case R_Delete_Back
  then show ?thesis using Range_DeleteGOPFromBack_ok [OF ok, of "[]"] legal by (auto simp: range_legal_def range_step_def)
qed (use ok legal Range_GetNextBuffer_ok in \<open>auto simp: range_legal_def range_step_def Range_SeekToStart_def
      Range_ResetNextBufferPosition_def intro!: range_ok_position\<close>)

lemma range_run_ok:
  "range_ok r \<Longrightarrow> range_run_legal ps r \<Longrightarrow> \<exists>r'. range_run ps r = Some r' \<and> range_ok r'"
proof (induction ps arbitrary: r)
  case (Cons p ps)
  then obtain r' where "range_step p r = Some r'" "range_ok r'" using range_step_ok [of r p] by auto
  then show ?case using Cons by simp
qed simp

section \<open>Properties\<close>

definition sample_frame :: "nat \<Rightarrow> bool \<Rightarrow> int \<Rightarrow> sp_buffer" where
  "sample_frame a key t = \<lparr>b_address = a, b_type = VIDEO, b_timestamp = t, b_decode_timestamp = int a,
     b_duration = 10, b_is_duration_estimated = False, b_is_key_frame = key, b_config_id = 0, b_data_size = 100\<rparr>"

definition sample_queue :: "sp_buffer list" where
  "sample_queue = [sample_frame 0 True 0, sample_frame 1 False 20, sample_frame 2 False 10, sample_frame 3 True 30,
     sample_frame 4 False 40]"

definition sample_range :: range where
  "sample_range = \<lparr>r_gap_policy = NO_GAPS_ALLOWED, r_buffers = sample_queue, r_next_buffer_index = 4,
     r_highest_frame = Some (sample_frame 4 False 40), r_size_in_bytes = 500, r_range_start_pts = 0,
     r_keyframe_map_index_base = 0, r_keyframe_map = [(0, 0), (30, 3)]\<rparr>"

definition sample_ops :: "range_op list" where
  "sample_ops = [R_Seek 10 15, R_Get_Next, R_Append 10 [sample_frame 5 True 50, sample_frame 6 False 60] kNoTimestamp,
     R_Seek 10 35, R_Delete_Front, R_Get_Next, R_Split 10 50, R_Truncate 40 False, R_Seek_To_Start,
     R_Append 10 [sample_frame 7 True 50] 50, R_Delete_Back, R_Delete_All]"

text \<open>
  C10: The state of a range stays consistent over streams in decode order. Let the frames that a
  \<open>SourceBufferRangeByPts\<close> is constructed on, and every queue appended to it after those it holds,
  satisfy \<open>gop_order\<close>: each keyframe comes later in presentation time than all frames before it
  and not after any frame behind it. Real streams may violate this, with a keyframe that is shown
  before or together with a frame of the group before it; the invariant fails for some of them
  (\<open>Range_TruncateAt_dangling_keyframe\<close>). Let the operations be called as their own checks and their
  callers demand: the range is constructed on a keyframe, with no start time or one not after it;
  buffers pass \<open>CanAppendBuffersToEnd\<close>, start with a keyframe when they start a coded frame group,
  have times and durations that are not negative, and do not go back before a last frame whose
  duration is estimated; an appended range is consistent itself; seeks pass \<open>CanSeekTo\<close>; splits and
  deletions are called on a range that is not empty, deletions where the group does not hold the
  read position. Then any sequence of appends, range appends, seeks, reads, truncations, splits and
  deletions passes every check and every access in bounds; afterwards the keyframe map lists
  exactly the keyframes of the queue with their positions, the byte count is the sum of the sizes,
  \<open>highest_frame_\<close> is a buffer of the queue with the highest presentation time, the queue starts
  with a keyframe, and the read position is inside the queue.
\<close>

theorem Range_operations_keep_invariant:
  assumes "new \<noteq> []" "b_is_key_frame (hd new)" "list_all frame_ok new" "sorted_wrt gop_order new"
    "start = kNoTimestamp \<or> start \<le> b_timestamp (hd new)"
    and "range_run_legal ops (the (Range_new D policy new start))"
  shows "\<exists>r. Range_new D policy new start \<bind> range_run ops = Some r \<and>
    r_keyframe_map r = key_entries (r_keyframe_map_index_base r) (r_buffers r) \<and>
    r_size_in_bytes r = bytes_of (r_buffers r) \<and> is_highest (r_highest_frame r) (r_buffers r) \<and>
    sorted_wrt gop_order (r_buffers r) \<and> (r_buffers r = [] \<or> b_is_key_frame (hd (r_buffers r))) \<and>
    - 1 \<le> r_next_buffer_index r \<and> r_next_buffer_index r \<le> int (length (r_buffers r))"
proof -
  obtain r where r: "Range_new D policy new start = Some r" "range_ok r"
    using Range_new_ok [OF assms(1,2) _ assms(4,5)] assms(3) by (metis list_all_iff)
  then obtain r' where r': "range_run ops r = Some r'" "range_ok r'"
    using range_run_ok [OF r(2)] assms(6) by auto
  then have "r_buffers r' = [] \<or> b_is_key_frame (hd (r_buffers r'))" by (auto simp: range_ok_def)
  then show ?thesis using r(1) r'(1) range_ok_parts [OF r'(2)] by (intro exI [of _ r'] conjI) simp_all
qed

theorem Range_operations_keep_invariant_witness:
  "map_option (\<lambda>r. (map b_address (r_buffers r), r_keyframe_map r)) (Range_new 10 NO_GAPS_ALLOWED sample_queue 0 \<bind> range_run (butlast sample_ops)) =
     Some ([3], [(30, 3)]) \<and>
   (\<exists>r. Range_new 10 NO_GAPS_ALLOWED sample_queue 0 \<bind> range_run sample_ops = Some r \<and>
    r_keyframe_map r = key_entries (r_keyframe_map_index_base r) (r_buffers r) \<and>
    r_size_in_bytes r = bytes_of (r_buffers r) \<and> is_highest (r_highest_frame r) (r_buffers r) \<and>
    sorted_wrt gop_order (r_buffers r) \<and> (r_buffers r = [] \<or> b_is_key_frame (hd (r_buffers r))) \<and>
    - 1 \<le> r_next_buffer_index r \<and> r_next_buffer_index r \<le> int (length (r_buffers r)))"
  by (rule conjI, code_simp, rule Range_operations_keep_invariant; code_simp)

text \<open>
  C15: Truncation by time. \<open>TruncateAt\<close> of a consistent range finds the first frame in decode order
  at or after the time (after it, when exclusive) through the keyframe map and one scan of a group,
  and keeps exactly the frames before it; it reports whether the range became empty, hands back the
  frames from the read position on exactly when the next frame to read was among those removed, and
  in that case forgets the read position.
\<close>

theorem Range_TruncateAt_keeps_prefix:
  assumes "range_ok r"
  shows "\<exists>r'. let keep = takeWhile (\<lambda>b. b_timestamp b < t \<or> is_exclusive \<and> b_timestamp b = t) (r_buffers r);
      next = r_next_buffer_index r;
      lost = length keep < length (r_buffers r) \<and> next \<ge> int (length keep) in
    Range_TruncateAt t (Some []) is_exclusive r =
      Some (keep = [], Some (if lost then drop (nat next) (r_buffers r) else []), r') \<and>
    range_ok r' \<and> r_buffers r' = keep \<and> r_next_buffer_index r' = (if lost then - 1 else next)"
proof -
  let ?keep = "takeWhile (\<lambda>b. b_timestamp b < t \<or> is_exclusive \<and> b_timestamp b = t) (r_buffers r)"
  obtain r' where "Range_TruncateAt t (Some []) is_exclusive r = Some (?keep = [], unread_buffers (length ?keep) (Some []) r, r')"
    "range_ok r'" "r_buffers r' = ?keep" "r_next_buffer_index r' = truncated_position (length ?keep) r"
    using Range_TruncateAt_ok [OF assms, of "Some []" t is_exclusive] by blast
  then show ?thesis
    by (intro exI [of _ r']) (simp only: Let_def unread_buffers_eq [OF assms] truncated_position_def if_cancel simp_thms)
qed

theorem Range_TruncateAt_keeps_prefix_witness:
  "\<exists>r'. let keep = takeWhile (\<lambda>b. b_timestamp b < 15 \<or> False \<and> b_timestamp b = 15) (r_buffers sample_range);
      next = r_next_buffer_index sample_range;
      lost = length keep < length (r_buffers sample_range) \<and> next \<ge> int (length keep) in
    Range_TruncateAt 15 (Some []) False sample_range =
      Some (keep = [], Some (if lost then drop (nat next) (r_buffers sample_range) else []), r') \<and>
    range_ok r' \<and> r_buffers r' = keep \<and> r_next_buffer_index r' = (if lost then - 1 else next)"
  by (rule Range_TruncateAt_keeps_prefix) code_simp

text \<open>
  C28: Splitting loses nothing. \<open>SplitRange\<close> cuts a consistent range at its first keyframe at or
  after the time: the frames before it stay, the new range gets all the others in order, both are
  consistent again, and the read position moves to the range that holds its frame; without such a
  keyframe nothing changes and no range is returned.
\<close>

theorem Range_SplitRange_partitions:
  assumes "range_ok r" "r_buffers r \<noteq> []"
  shows "if \<forall>b\<in>set (r_buffers r). \<not> at_key t b then Range_SplitRange D t r = Some (None, r)
    else \<exists>new r'. Range_SplitRange D t r = Some (Some new, r') \<and> range_ok new \<and> range_ok r' \<and>
      r_buffers r' @ r_buffers new = r_buffers r \<and> at_key t (hd (r_buffers new)) \<and>
      (\<forall>b\<in>set (r_buffers r'). \<not> at_key t b) \<and>
      (if r_next_buffer_index r \<ge> int (length (r_buffers r'))
       then r_next_buffer_index r' = - 1 \<and> int (length (r_buffers r')) + r_next_buffer_index new = r_next_buffer_index r
       else r_next_buffer_index r' = r_next_buffer_index r \<and> r_next_buffer_index new = - 1)"
proof -
  let ?kept = "takeWhile (Not \<circ> at_key t) (r_buffers r)" and ?moved = "dropWhile (Not \<circ> at_key t) (r_buffers r)"
  have none: "?moved = [] \<longleftrightarrow> (\<forall>b\<in>set (r_buffers r). \<not> at_key t b)" by (simp add: dropWhile_eq_Nil_conv)
  have hd: "?moved \<noteq> [] \<Longrightarrow> at_key t (hd ?moved)" using hd_dropWhile [of "Not \<circ> at_key t" "r_buffers r"] by simp
  have kept: "\<forall>b\<in>set ?kept. \<not> at_key t b" by (auto dest: set_takeWhileD)
  show ?thesis
  proof (cases "?moved = []")
    case True
    then show ?thesis using Range_SplitRange_ok [OF assms, of t D] none by simp
  next
    case False
    then have some: "\<not> (\<forall>b\<in>set (r_buffers r). \<not> at_key t b)" using none by simp
    obtain new r' where "Range_SplitRange D t r = Some (Some new, r')" "range_ok new" "range_ok r'"
      "r_buffers r' = ?kept" "r_buffers new = ?moved"
      "if r_next_buffer_index r \<ge> int (length ?kept)
       then r_next_buffer_index r' = - 1 \<and> r_next_buffer_index new = r_next_buffer_index r - int (length ?kept)
       else r_next_buffer_index r' = r_next_buffer_index r \<and> r_next_buffer_index new = - 1"
      using Range_SplitRange_ok [OF assms, of t D] unfolding if_not_P [OF False] by blast
    then show ?thesis unfolding if_not_P [OF some]
      using hd [OF False] kept by (intro exI [of _ new] exI [of _ r']) (auto split: if_splits)
  qed
qed

theorem Range_SplitRange_partitions_witness:
  "if \<forall>b\<in>set (r_buffers sample_range). \<not> at_key 25 b then Range_SplitRange 10 25 sample_range = Some (None, sample_range)
    else \<exists>new r'. Range_SplitRange 10 25 sample_range = Some (Some new, r') \<and> range_ok new \<and> range_ok r' \<and>
      r_buffers r' @ r_buffers new = r_buffers sample_range \<and> at_key 25 (hd (r_buffers new)) \<and>
      (\<forall>b\<in>set (r_buffers r'). \<not> at_key 25 b) \<and>
      (if r_next_buffer_index sample_range \<ge> int (length (r_buffers r'))
       then r_next_buffer_index r' = - 1 \<and> int (length (r_buffers r')) + r_next_buffer_index new = r_next_buffer_index sample_range
       else r_next_buffer_index r' = r_next_buffer_index sample_range \<and> r_next_buffer_index new = - 1)"
  by (rule Range_SplitRange_partitions; code_simp)



text \<open>
  Truncation can leave the keyframe map pointing past the queue. When a frame is shown after the
  keyframe that follows it in decode order, \<open>TruncateAt\<close> erases the map from that frame's
  presentation time on, which keeps the later keyframe in the map although its buffer is removed:
  truncating the queue of a keyframe at 0, a frame at 30 and a keyframe at 20 to the times before 10
  then looks for the last group of pictures outside the queue.
\<close>

theorem Range_TruncateAt_dangling_keyframe:
  "map_option (Range_TruncateAt 10 (Some []) False)
     (Range_new 10 NO_GAPS_ALLOWED [sample_frame 0 True 0, sample_frame 1 False 30, sample_frame 2 True 20] kNoTimestamp) =
   Some None"
  by code_simp

end
