(* ===== verification/H264_Bits.thy ===== *)
theory H264_Bits
  imports Media_Prelude
begin

text \<open>
  Bits of H.264 streams: \<open>H264BitReader\<close> (\<open>video/h264_bit_reader.cc\<close>), which skips emulation
  prevention bytes, the Exp-Golomb codes of \<open>H264Parser\<close> (\<open>ReadUE\<close>, \<open>ReadSE\<close>), and
  \<open>H264BitstreamBuffer\<close> (\<open>filters/h264_bitstream_buffer.cc\<close>), which writes them.

  The reader holds the \<open>bytes_left_\<close> unread bytes at \<open>data_\<close> as a list. The bits collected by
  \<open>ReadBits\<close> are masked to at most 31 in the end, so that they are an unbounded integer here.
\<close>

section \<open>H264BitReader\<close>

record h264_reader =
  hr_data :: "u8 list"
  hr_curr_byte :: u8
  hr_remaining :: nat
  hr_prev_two_bytes :: u16
  hr_epb :: nat

definition H264BitReader_init :: h264_reader where
  "H264BitReader_init = \<lparr>hr_data = [], hr_curr_byte = 0, hr_remaining = 0, hr_prev_two_bytes = 0, hr_epb = 0\<rparr>"

definition H264BitReader_Initialize :: "u8 list \<Rightarrow> h264_reader \<Rightarrow> bool \<times> h264_reader" where
  "H264BitReader_Initialize bytes r =
     (if length bytes < 1 then (False, r)
      else (True, r\<lparr>hr_data := bytes, hr_remaining := 0, hr_prev_two_bytes := 0xffff, hr_epb := 0\<rparr>))"

definition load_byte :: "h264_reader \<Rightarrow> bool \<times> h264_reader" where
  "load_byte r =
     (case hr_data r of
        [] \<Rightarrow> (False, r)
      | b # bytes \<Rightarrow> (True, r\<lparr>hr_data := bytes, hr_curr_byte := b, hr_remaining := 8,
          hr_prev_two_bytes := push_bit 8 (hr_prev_two_bytes r AND 0xff) OR ucast b\<rparr>))"

definition UpdateCurrByte :: "h264_reader \<Rightarrow> bool \<times> h264_reader" where
  "UpdateCurrByte r =
     (case hr_data r of
        [] \<Rightarrow> (False, r)
      | b # bytes \<Rightarrow>
          if b = 3 \<and> hr_prev_two_bytes r AND 0xffff = 0
          then load_byte (r\<lparr>hr_data := bytes, hr_epb := hr_epb r + 1, hr_prev_two_bytes := 0xffff\<rparr>)
          else load_byte r)"

lemma UpdateCurrByte_decreases: "UpdateCurrByte r = (True, r') \<Longrightarrow> length (hr_data r') < length (hr_data r)"
  by (auto simp: UpdateCurrByte_def load_byte_def split: list.splits if_splits)

function read_bits_loop :: "nat \<Rightarrow> int \<Rightarrow> h264_reader \<Rightarrow> (int \<times> nat) option \<times> h264_reader" where
  "read_bits_loop bits_left out r =
     (if hr_remaining r < bits_left then
        let out = out OR push_bit (bits_left - hr_remaining r) (uint (hr_curr_byte r));
            bits_left = bits_left - hr_remaining r
        in case UpdateCurrByte r of
             (False, r) \<Rightarrow> (None, r)
           | (True, r) \<Rightarrow> read_bits_loop bits_left out r
      else (Some (out, bits_left), r))"
  by pat_completeness auto
termination by (relation "measure (\<lambda>(bits_left, out, r). length (hr_data r))") (auto dest: UpdateCurrByte_decreases [OF sym])

declare read_bits_loop.simps [simp del]

text \<open>
  \<open>ReadBits\<close> asserts that it is called for at most 31 bits; its result is \<open>None\<close> when the assertion
  fails. Callers that cannot pass more, such as \<open>ReadUE\<close>, are written with what follows the assertion.
  \<open>*out\<close> is a signed integer of 32 bits into which the old bits of \<open>curr_byte_\<close> are shifted too; here it
  has no width, since the mask at the end removes what leaves the register (\<open>ReadBits_register_width\<close>).
\<close>

definition ReadBits_body :: "nat \<Rightarrow> h264_reader \<Rightarrow> int option \<times> h264_reader" where
  "ReadBits_body num_bits r =
     (case read_bits_loop num_bits 0 r of
        (None, r) \<Rightarrow> (None, r)
      | (Some (out, bits_left), r) \<Rightarrow>
          (Some ((out OR drop_bit (hr_remaining r - bits_left) (uint (hr_curr_byte r))) AND (push_bit num_bits 1 - 1)),
           r\<lparr>hr_remaining := hr_remaining r - bits_left\<rparr>))"

definition H264_ReadBits :: "nat \<Rightarrow> h264_reader \<Rightarrow> (int option \<times> h264_reader) option" where
  "H264_ReadBits num_bits r = (if \<not> num_bits \<le> 31 then None else Some (ReadBits_body num_bits r))"

lemma ReadBits_register_width:
  "n \<le> 31 \<Longrightarrow> signed_take_bit 31 out AND (push_bit n 1 - 1) = out AND (push_bit n 1 - 1)" for out :: int
proof -
  assume n: "n \<le> 31"
  have "push_bit n 1 - 1 = (mask n :: int)" by (simp add: mask_eq_exp_minus_1 push_bit_eq_mult)
  then show ?thesis using n by (simp add: take_bit_signed_take_bit flip: take_bit_eq_mask)
qed

definition NumBitsLeft :: "h264_reader \<Rightarrow> nat" where
  "NumBitsLeft r = hr_remaining r + length (hr_data r) * 8"

definition NumEmulationPreventionBytesRead :: "h264_reader \<Rightarrow> nat" where
  "NumEmulationPreventionBytesRead r = hr_epb r"

definition HasMoreRBSPData :: "h264_reader \<Rightarrow> bool \<times> h264_reader" where
  "HasMoreRBSPData r =
     (let (loaded, r) = (if hr_remaining r = 0 then UpdateCurrByte r else (True, r)) in
      if \<not> loaded then (False, r)
      else if uint (hr_curr_byte r) AND (push_bit (hr_remaining r - 1) 1 - 1) \<noteq> 0 then (True, r)
      else if list_ex (\<lambda>b. b \<noteq> 0) (hr_data r) then (True, r)
      else (False, r\<lparr>hr_data := []\<rparr>))"

section \<open>Exp-Golomb codes\<close>

lemma UpdateCurrByte_remaining: "UpdateCurrByte r = (True, r') \<Longrightarrow> hr_remaining r' = 8"
  by (auto simp: UpdateCurrByte_def load_byte_def split: list.splits if_splits)

lemma read_bits_loop_decreases:
  "read_bits_loop n out r = (Some (out', m), r') \<Longrightarrow> m \<le> hr_remaining r' \<and> NumBitsLeft r' + n \<le> NumBitsLeft r + m"
proof (induction n out r rule: read_bits_loop.induct)
  case (1 n out r)
  show ?case
  proof (cases "hr_remaining r < n")
    case True
    obtain ok r1 where u: "UpdateCurrByte r = (ok, r1)" by (cases "UpdateCurrByte r")
    let ?out = "out OR push_bit (n - hr_remaining r) (uint (hr_curr_byte r))" and ?n = "n - hr_remaining r"
    have ok: "ok = True" using "1.prems" True u by (subst (asm) read_bits_loop.simps) (cases ok, simp_all add: Let_def)
    have rec: "read_bits_loop ?n ?out r1 = (Some (out', m), r')"
      using "1.prems" True u ok by (subst (asm) read_bits_loop.simps) (simp add: Let_def)
    have "m \<le> hr_remaining r' \<and> NumBitsLeft r' + ?n \<le> NumBitsLeft r1 + m"
      by (rule "1.IH" [OF True refl refl u [symmetric] _ rec]) (simp add: ok)
    then show ?thesis
      using True UpdateCurrByte_remaining [OF u [unfolded ok]] UpdateCurrByte_decreases [OF u [unfolded ok]]
      unfolding NumBitsLeft_def by (elim conjE; intro conjI; linarith)
  next
    case False
    then show ?thesis using "1.prems" by (subst (asm) read_bits_loop.simps) auto
  qed
qed

lemma ReadBits_decreases:
  assumes "ReadBits_body n r = (Some v, r')" "0 < n"
  shows "NumBitsLeft r' < NumBitsLeft r"
proof -
  obtain out m r1 where l: "read_bits_loop n 0 r = (Some (out, m), r1)" "r' = r1\<lparr>hr_remaining := hr_remaining r1 - m\<rparr>"
    using assms(1) by (auto simp: ReadBits_body_def split: option.splits prod.splits)
  have "hr_remaining r' = hr_remaining r1 - m" "length (hr_data r') = length (hr_data r1)" using l(2) by simp_all
  then show ?thesis
    using conjunct1 [OF read_bits_loop_decreases [OF l(1)]] conjunct2 [OF read_bits_loop_decreases [OF l(1)]] assms(2)
    unfolding NumBitsLeft_def by linarith
qed

text \<open>The result of a read in a parser: \<open>None\<close> is \<open>kInvalidStream\<close>.\<close>

function read_zeros :: "int \<Rightarrow> h264_reader \<Rightarrow> int option \<times> h264_reader" where
  "read_zeros num_bits r =
     (case ReadBits_body 1 r of
        (None, r') \<Rightarrow> (None, r')
      | (Some b, r') \<Rightarrow> if b = 0 then read_zeros (num_bits + 1) r' else (Some (num_bits + 1), r'))"
  by pat_completeness auto
termination by (relation "measure (\<lambda>(num_bits, r). NumBitsLeft r)") (auto dest!: ReadBits_decreases [OF sym])

declare read_zeros.simps [simp del]

definition ReadUE :: "h264_reader \<Rightarrow> int option \<times> h264_reader" where
  "ReadUE r =
     (case read_zeros (- 1) r of
        (None, r) \<Rightarrow> (None, r)
      | (Some num_bits, r) \<Rightarrow>
          if num_bits > 31 then (None, r)
          else
            let val = push_bit (nat num_bits) 1 - 1 in
            if num_bits = 31 then
              (case ReadBits_body (nat num_bits) r of
                 (None, r) \<Rightarrow> (None, r)
               | (Some rest, r) \<Rightarrow> (if rest = 0 then Some val else None, r))
            else if num_bits > 0 then
              (case ReadBits_body (nat num_bits) r of
                 (None, r) \<Rightarrow> (None, r)
               | (Some rest, r) \<Rightarrow> (Some (val + rest), r))
            else (Some val, r))"

definition ReadSE :: "h264_reader \<Rightarrow> int option \<times> h264_reader" where
  "ReadSE r =
     (case ReadUE r of
        (None, r) \<Rightarrow> (None, r)
      | (Some ue, r) \<Rightarrow> (Some (if ue mod 2 = 0 then - (ue div 2) else ue div 2 + 1), r))"

section \<open>H264BitstreamBuffer\<close>

definition kRegBitSize :: nat where
  "kRegBitSize = 64"

definition kGrowBytes :: nat where
  "kGrowBytes = 4096"

text \<open>\<open>hb_data\<close> holds the \<open>pos_\<close> bytes written.\<close>

record h264_buffer =
  hb_bits_left_in_reg :: nat
  hb_reg :: u64
  hb_capacity :: nat
  hb_data :: "u8 list"

definition H264BitstreamBuffer_Grow :: "h264_buffer \<Rightarrow> h264_buffer" where
  "H264BitstreamBuffer_Grow w = w\<lparr>hb_capacity := hb_capacity w + kGrowBytes\<rparr>"

definition H264BitstreamBuffer_Reset :: h264_buffer where
  "H264BitstreamBuffer_Reset =
     (H264BitstreamBuffer_Grow \<lparr>hb_bits_left_in_reg = 0, hb_reg = 0, hb_capacity = 0, hb_data = []\<rparr>)
       \<lparr>hb_bits_left_in_reg := kRegBitSize\<rparr>"

text \<open>A write beyond the capacity and a shift of the register by its width are \<open>None\<close>.\<close>

definition FlushReg :: "h264_buffer \<Rightarrow> h264_buffer option" where
  "FlushReg w =
     (let bits_in_reg = kRegBitSize - hb_bits_left_in_reg w in
      if bits_in_reg = 0 then Some w
      else
        let bytes_in_reg = (bits_in_reg + 7) div 8;
            reg = push_bit (kRegBitSize - bits_in_reg) (hb_reg w);
            w = (if length (hb_data w) + bytes_in_reg < hb_capacity w then H264BitstreamBuffer_Grow w else w)
        in if length (hb_data w) + bytes_in_reg > hb_capacity w then None
           else Some (w\<lparr>hb_data := hb_data w @ take bytes_in_reg (be_bytes 8 (uint reg)), hb_reg := 0,
             hb_bits_left_in_reg := kRegBitSize\<rparr>))"

function AppendU64 :: "nat \<Rightarrow> u64 \<Rightarrow> h264_buffer \<Rightarrow> h264_buffer option" where
  "AppendU64 num_bits val w =
     (if num_bits > kRegBitSize then None
      else if num_bits > 0 then
        (case (if hb_bits_left_in_reg w = 0 then FlushReg w else Some w) of
           None \<Rightarrow> None
         | Some w \<Rightarrow>
             let bits_to_write = (if num_bits > hb_bits_left_in_reg w then hb_bits_left_in_reg w else num_bits);
                 val_to_write = drop_bit (num_bits - bits_to_write) val;
                 val_to_write = (if bits_to_write < 64 then val_to_write AND (push_bit bits_to_write 1 - 1) else val_to_write)
             in if bits_to_write = 64 \<or> bits_to_write = 0 then None
                else AppendU64 (num_bits - bits_to_write) val
                  (w\<lparr>hb_reg := push_bit bits_to_write (hb_reg w) OR val_to_write,
                     hb_bits_left_in_reg := hb_bits_left_in_reg w - bits_to_write\<rparr>))
      else Some w)"
  by pat_completeness auto
termination by (relation "measure (\<lambda>(num_bits, val, w). num_bits)") (auto split: if_splits)

declare AppendU64.simps [simp del]

definition AppendBool :: "bool \<Rightarrow> h264_buffer \<Rightarrow> h264_buffer option" where
  "AppendBool val w =
     map_option (\<lambda>w. w\<lparr>hb_reg := push_bit 1 (hb_reg w) OR (of_bool val AND 1),
        hb_bits_left_in_reg := hb_bits_left_in_reg w - 1\<rparr>)
      (if hb_bits_left_in_reg w = 0 then FlushReg w else Some w)"

text \<open>The number of zeros is the exponent of the highest power of two in \<open>v\<close>.\<close>

function count_zeros :: "u32 \<Rightarrow> nat \<Rightarrow> nat" where
  "count_zeros v num_zeros = (if v > 1 then count_zeros (drop_bit 1 v) (num_zeros + 1) else num_zeros)"
  by pat_completeness auto
termination
  by (relation "measure (\<lambda>(v, n). unat v)")
    (auto simp: unat_div word_less_nat_alt drop_bit_Suc)

declare count_zeros.simps [simp del]

definition AppendUE :: "u32 \<Rightarrow> h264_buffer \<Rightarrow> h264_buffer option" where
  "AppendUE val w =
     (let num_zeros = count_zeros (val + 1) 0 in
      case AppendU64 num_zeros 0 w of None \<Rightarrow> None
      | Some w \<Rightarrow> AppendU64 (num_zeros + 1) (ucast (val + 1)) w)"

text \<open>Signed arithmetic that overflows is \<open>None\<close>.\<close>

definition AppendSE :: "int \<Rightarrow> h264_buffer \<Rightarrow> h264_buffer option" where
  "AppendSE val w =
     (if val > 0 then if val * 2 < 2 ^ 31 then AppendUE (word_of_int (val * 2 - 1)) w else None
      else if - val * 2 < 2 ^ 31 then AppendUE (word_of_int (- val * 2)) w else None)"

definition BeginNALU :: "nat \<Rightarrow> int \<Rightarrow> h264_buffer \<Rightarrow> h264_buffer option" where
  "BeginNALU nalu_type nal_ref_idc w =
     (if hb_bits_left_in_reg w \<noteq> kRegBitSize \<or> \<not> nalu_type \<le> 11 \<or> \<not> (0 \<le> nal_ref_idc \<and> nal_ref_idc \<le> 3) then None
      else case AppendU64 32 1 w of None \<Rightarrow> None
      | Some w \<Rightarrow> (case AppendU64 1 0 w of None \<Rightarrow> None
        | Some w \<Rightarrow> (case AppendU64 2 (word_of_int nal_ref_idc) w of None \<Rightarrow> None
          | Some w \<Rightarrow> AppendU64 5 (of_nat nalu_type) w)))"

definition FinishNALU :: "h264_buffer \<Rightarrow> h264_buffer option" where
  "FinishNALU w =
     (case AppendU64 1 1 w of None \<Rightarrow> None
      | Some w \<Rightarrow> (case AppendU64 (hb_bits_left_in_reg w mod 8) 0 w of None \<Rightarrow> None
        | Some w \<Rightarrow> if hb_bits_left_in_reg w \<noteq> kRegBitSize then FlushReg w else Some w))"

definition BytesInBuffer :: "h264_buffer \<Rightarrow> nat option" where
  "BytesInBuffer w = (if hb_bits_left_in_reg w = kRegBitSize then Some (length (hb_data w)) else None)"

definition H264BitstreamBuffer_data :: "h264_buffer \<Rightarrow> u8 list option" where
  "H264BitstreamBuffer_data w = (if hb_bits_left_in_reg w = kRegBitSize then Some (hb_data w) else None)"

section \<open>The reader over the raw byte sequence\<close>

text \<open>The raw bytes of a NAL unit, after \<open>z\<close> zero bytes: every \<open>03\<close> after two zeros is dropped.\<close>

fun rbsp_of :: "nat \<Rightarrow> u8 list \<Rightarrow> u8 list" where
  "rbsp_of z [] = []"
| "rbsp_of z (b # bs) =
     (if b = 3 \<and> 2 \<le> z then rbsp_of 0 bs else b # rbsp_of (if b = 0 then z + 1 else 0) bs)"

definition zeros_seen :: "u16 \<Rightarrow> nat" where
  "zeros_seen p = (if p = 0 then 2 else if p AND 0xff = 0 then 1 else 0)"

definition reader_rbsp :: "h264_reader \<Rightarrow> u8 list" where
  "reader_rbsp r = rbsp_of (zeros_seen (hr_prev_two_bytes r)) (hr_data r)"

definition reader_bits :: "h264_reader \<Rightarrow> bool list" where
  "reader_bits r = drop (8 - hr_remaining r) (msb_bits (hr_curr_byte r)) @ byte_bits (reader_rbsp r)"

lemma rbsp_of_two: "2 \<le> z \<Longrightarrow> rbsp_of z bs = rbsp_of 2 bs"
proof (induction bs arbitrary: z)
  case (Cons b bs)
  show ?case using Cons.prems Cons.IH [of "z + 1"] Cons.IH [of 3] by simp
qed simp

lemma ucast_u8_0: "(ucast (b :: u8) :: u16) = 0 \<longleftrightarrow> b = 0"
  by transfer simp

lemma two_bytes_low: "(push_bit 8 (p AND 0xff) OR ucast (b :: u8) :: u16) AND 0xff = 0 \<longleftrightarrow> b = 0"
proof -
  have "(push_bit 8 (p AND 0xff) OR ucast b :: u16) AND mask 8 = ucast b"
    by (rule bit_word_eqI) (auto simp: bit_simps dest: bit_imp_le_length)
  then show ?thesis by (simp add: mask_eq_exp_minus_1 ucast_u8_0)
qed

lemma two_bytes_zero: "(push_bit 8 (p AND 0xff) OR ucast (b :: u8) :: u16) = 0 \<longleftrightarrow> p AND 0xff = 0 \<and> b = 0"
proof -
  have "drop_bit 8 (push_bit 8 (p AND mask 8)) = p AND mask 8" for p :: u16
    by (rule bit_word_eqI) (auto simp: bit_simps)
  then have "push_bit 8 (p AND mask 8) = 0 \<longleftrightarrow> p AND mask 8 = 0" for p :: u16
    by (metis drop_bit_of_0 push_bit_of_0)
  then show ?thesis by (simp add: or_eq_0_iff ucast_u8_0 mask_eq_exp_minus_1)
qed

lemma zeros_seen_next: "zeros_seen (push_bit 8 (p AND 0xff) OR ucast (b :: u8)) =
    (if b = 0 then if zeros_seen p = 0 then 1 else 2 else 0)"
  using two_bytes_low [of p b] two_bytes_zero [of p b] by (auto simp: zeros_seen_def)

lemma rbsp_of_next:
  "rbsp_of (zeros_seen (push_bit 8 (p AND 0xff) OR ucast (b :: u8))) bs =
   rbsp_of (if b = 0 then zeros_seen p + 1 else 0) bs"
proof -
  have "zeros_seen p = 0 \<or> zeros_seen p = 1 \<or> zeros_seen p = 2" by (simp add: zeros_seen_def)
  then show ?thesis using rbsp_of_two [of 3 bs] unfolding zeros_seen_next by (auto simp: numeral_eq_Suc)
qed

text \<open>Loading a byte takes the next raw byte; the emulation prevention bytes are counted.\<close>

lemma load_byte_spec:
  assumes "hr_data r = b # bytes"
  shows "\<exists>r'. load_byte r = (True, r') \<and> hr_curr_byte r' = b \<and> hr_remaining r' = 8 \<and> hr_data r' = bytes \<and>
    hr_epb r' = hr_epb r \<and> reader_rbsp r' = rbsp_of (if b = 0 then zeros_seen (hr_prev_two_bytes r) + 1 else 0) bytes"
  using assms rbsp_of_next by (simp add: load_byte_def reader_rbsp_def)

lemma UpdateCurrByte_spec:
  "case reader_rbsp r of
     [] \<Rightarrow> \<exists>r'. UpdateCurrByte r = (False, r') \<and> hr_remaining r' = hr_remaining r \<and> hr_curr_byte r' = hr_curr_byte r \<and>
       reader_rbsp r' = []
   | b # bs \<Rightarrow> \<exists>r'. UpdateCurrByte r = (True, r') \<and> hr_curr_byte r' = b \<and> hr_remaining r' = 8 \<and> reader_rbsp r' = bs \<and>
       length (hr_data r') + 1 + hr_epb r' = length (hr_data r) + hr_epb r"
proof (cases "hr_data r")
  case Nil
  then show ?thesis by (simp add: reader_rbsp_def UpdateCurrByte_def)
next
  case (Cons b bytes)
  have "(0xffff :: u16) = - 1" by simp
  then have top: "hr_prev_two_bytes r AND 0xffff = hr_prev_two_bytes r" by (simp only: and.right_neutral)
  show ?thesis
  proof (cases "b = 3 \<and> hr_prev_two_bytes r = 0")
    case False
    then have "UpdateCurrByte r = load_byte r" using Cons top by (auto simp: UpdateCurrByte_def)
    moreover have "reader_rbsp r = b # rbsp_of (if b = 0 then zeros_seen (hr_prev_two_bytes r) + 1 else 0) bytes"
      using False Cons by (auto simp: reader_rbsp_def zeros_seen_def)
    ultimately show ?thesis using load_byte_spec [OF Cons] Cons by auto
  next
    case True
    let ?r = "r\<lparr>hr_data := bytes, hr_epb := hr_epb r + 1, hr_prev_two_bytes := 0xffff\<rparr>"
    have upd: "UpdateCurrByte r = load_byte ?r" using True Cons top by (simp add: UpdateCurrByte_def)
    have rbsp: "reader_rbsp r = rbsp_of 0 bytes" using True Cons by (simp add: reader_rbsp_def zeros_seen_def)
    have z: "zeros_seen 0xffff = 0" by (simp add: zeros_seen_def)
    show ?thesis
    proof (cases bytes)
      case Nil
      then show ?thesis unfolding rbsp upd by (simp add: load_byte_def reader_rbsp_def)
    next
      case (Cons c cs)
      then have "hr_data ?r = c # cs" by simp
      from load_byte_spec [OF this] show ?thesis
        unfolding upd using rbsp Cons \<open>hr_data r = b # bytes\<close> z by auto
    qed
  qed
qed

lemma bits_nat_div: "bits_nat bs div 2 ^ k = bits_nat (take (length bs - k) bs)"
proof (cases "k \<le> length bs")
  case True
  have "bits_nat bs = bits_nat (take (length bs - k) bs) * 2 ^ k + bits_nat (drop (length bs - k) bs)"
    using bits_nat_append [of "take (length bs - k) bs" "drop (length bs - k) bs"] True by simp
  moreover have "bits_nat (drop (length bs - k) bs) < 2 ^ k"
    using bits_nat_less [of "drop (length bs - k) bs"] True by simp
  ultimately show ?thesis by simp
next
  case False
  then have "bits_nat bs < 2 ^ k"
    using bits_nat_less [of bs] by (meson less_le_trans linear power_increasing one_le_numeral)
  then show ?thesis using False by simp
qed

lemma bits_nat_mod: "length bs = k \<Longrightarrow> bits_nat (as @ bs) mod 2 ^ k = bits_nat bs"
  using bits_nat_less [of bs] by (simp add: bits_nat_append)

lemma uint_byte: "uint (b :: u8) = int (bits_nat (msb_bits b))"
  by (simp add: uint_nat unat_eq_bits_nat)

lemma drop_bit_byte:
  assumes "k \<le> 8"
  shows "drop_bit k (uint (b :: u8)) = int (bits_nat (take (8 - k) (msb_bits b)))"
proof -
  have "drop_bit k (uint b) = int (bits_nat (msb_bits b) div 2 ^ k)"
    by (simp add: uint_byte drop_bit_eq_div zdiv_int)
  then show ?thesis by (simp add: bits_nat_div)
qed

lemma append_bits:
  assumes "length bs = n"
  shows "push_bit n (int (bits_nat as)) OR int (bits_nat bs) = int (bits_nat (as @ bs))"
  using bits_nat_less [of bs] assms push_bit_OR [of "int (bits_nat bs)" n "int (bits_nat as)"]
  by (simp add: bits_nat_append flip: of_nat_power)

text \<open>
  With a whole byte loaded, the loop appends the next \<open>n\<close> bits to the bits \<open>B\<close> collected before,
  up to the last byte, which the caller adds.
\<close>

definition whole_byte_bits :: "h264_reader \<Rightarrow> bool list" where
  "whole_byte_bits r = msb_bits (hr_curr_byte r) @ byte_bits (reader_rbsp r)"

definition stream_size :: "h264_reader \<Rightarrow> nat" where
  "stream_size r = length (hr_data r) + hr_epb r"

lemma read_bits_loop_whole:
  assumes "hr_remaining r = 8"
  shows "if n \<le> length (whole_byte_bits r)
    then \<exists>out m r'. read_bits_loop n (push_bit n (int (bits_nat B))) r = (Some (out, m), r') \<and> m \<le> 8 \<and> hr_remaining r' = 8 \<and>
      out OR drop_bit (8 - m) (uint (hr_curr_byte r')) = int (bits_nat (B @ take n (whole_byte_bits r))) \<and>
      drop m (whole_byte_bits r') = drop n (whole_byte_bits r) \<and>
      8 * stream_size r' + n = 8 * stream_size r + m
    else \<exists>r'. read_bits_loop n (push_bit n (int (bits_nat B))) r = (None, r') \<and> hr_remaining r' = 8 \<and> reader_rbsp r' = []"
  using assms
proof (induction "length (hr_data r)" arbitrary: r n B rule: less_induct)
  case less
  let ?c = "msb_bits (hr_curr_byte r)"
  show ?case
  proof (cases "n \<le> 8")
    case True
    then have "read_bits_loop n (push_bit n (int (bits_nat B))) r = (Some (push_bit n (int (bits_nat B)), n), r)"
      using less.prems by (simp add: read_bits_loop.simps [of n])
    then show ?thesis using True less.prems append_bits [of "take n ?c" n B] by (simp add: drop_bit_byte whole_byte_bits_def)
  next
    case False
    let ?out = "push_bit (n - 8) (int (bits_nat (B @ ?c)))"
    have "push_bit n (int (bits_nat B)) OR push_bit (n - 8) (uint (hr_curr_byte r)) =
        push_bit (n - 8) (push_bit 8 (int (bits_nat B)) OR int (bits_nat ?c))"
      using False by (simp add: push_bit_or uint_byte)
    also have "\<dots> = ?out" using append_bits [of ?c 8 B] by simp
    finally have loop: "read_bits_loop n (push_bit n (int (bits_nat B))) r =
        (case UpdateCurrByte r of (False, r) \<Rightarrow> (None, r) | (True, r) \<Rightarrow> read_bits_loop (n - 8) ?out r)"
      using False less.prems by (simp add: read_bits_loop.simps [of n])
    show ?thesis
    proof (cases "reader_rbsp r")
      case Nil
      then obtain r1 where "UpdateCurrByte r = (False, r1)" "hr_remaining r1 = 8" "reader_rbsp r1 = []"
        using UpdateCurrByte_spec [of r] less.prems by auto
      then show ?thesis using loop Nil False by (simp add: whole_byte_bits_def)
    next
      case (Cons b bs)
      then obtain r1 where r1: "UpdateCurrByte r = (True, r1)" "hr_curr_byte r1 = b" "hr_remaining r1 = 8" "reader_rbsp r1 = bs"
        "length (hr_data r1) + 1 + hr_epb r1 = length (hr_data r) + hr_epb r"
        using UpdateCurrByte_spec [of r] by auto
      have whole: "whole_byte_bits r1 = drop 8 (whole_byte_bits r)" "take n (whole_byte_bits r) = ?c @ take (n - 8) (whole_byte_bits r1)"
        using r1 Cons False by (simp_all add: whole_byte_bits_def)
      have len: "n \<le> length (whole_byte_bits r) \<longleftrightarrow> n - 8 \<le> length (whole_byte_bits r1)" using whole(1) False by auto
      have size: "stream_size r = stream_size r1 + 1" using r1(5) by (simp add: stream_size_def)
      have drop: "drop (n - 8) (whole_byte_bits r1) = drop n (whole_byte_bits r)" using whole(1) False by simp
      note IH = less.hyps [OF UpdateCurrByte_decreases [OF r1(1)] r1(3), of "n - 8" "B @ ?c"]
      show ?thesis
      proof (cases "n \<le> length (whole_byte_bits r)")
        case True
        with IH len obtain out m r' where ih: "read_bits_loop (n - 8) ?out r1 = (Some (out, m), r')" "m \<le> 8" "hr_remaining r' = 8"
          "out OR drop_bit (8 - m) (uint (hr_curr_byte r')) = int (bits_nat ((B @ ?c) @ take (n - 8) (whole_byte_bits r1)))"
          "drop m (whole_byte_bits r') = drop (n - 8) (whole_byte_bits r1)"
          "8 * stream_size r' + (n - 8) = 8 * stream_size r1 + m" by auto
        show ?thesis unfolding if_P [OF True]
          by (intro exI [of _ out] exI [of _ m] exI [of _ r'])
            (use ih loop r1(1) whole(2) drop size False in \<open>simp\<close>)
      next
        case F: False
        with IH len obtain r' where "read_bits_loop (n - 8) ?out r1 = (None, r')" "hr_remaining r' = 8" "reader_rbsp r' = []" by auto
        then show ?thesis unfolding if_not_P [OF F] using loop r1(1) by simp
      qed
    qed
  qed
qed

text \<open>The consumed bits of the current byte are masked out.\<close>

lemma mask_bits:
  assumes "length bs = n"
  shows "int (bits_nat (as @ bs)) AND (push_bit n 1 - 1) = int (bits_nat bs)"
  using bits_nat_mod [OF assms, of as]
  by (simp add: push_bit_eq_mult take_bit_of_nat flip: take_bit_eq_mask mask_eq_exp_minus_1 take_bit_eq_mod)

lemma whole_reader_bits:
  "m \<le> 8 \<Longrightarrow> hr_remaining r = 8 \<Longrightarrow> reader_bits (r\<lparr>hr_remaining := 8 - m\<rparr>) = drop m (whole_byte_bits r)"
  by (simp add: reader_bits_def whole_byte_bits_def reader_rbsp_def)

lemma ReadBits_in_byte:
  assumes rem: "hr_remaining r \<le> 8" and n: "n \<le> hr_remaining r"
  shows "ReadBits_body n r = (Some (int (bits_nat (take n (reader_bits r)))), r\<lparr>hr_remaining := hr_remaining r - n\<rparr>)"
    "reader_bits (r\<lparr>hr_remaining := hr_remaining r - n\<rparr>) = drop n (reader_bits r)"
proof -
  let ?c = "msb_bits (hr_curr_byte r)" and ?k = "8 - hr_remaining r"
  have "read_bits_loop n 0 r = (Some (0, n), r)" using n by (simp add: read_bits_loop.simps [of n])
  moreover have "take (8 - (hr_remaining r - n)) ?c = take ?k ?c @ take n (drop ?k ?c)"
    using rem n by (simp flip: take_add)
  then have "drop_bit (hr_remaining r - n) (uint (hr_curr_byte r)) = int (bits_nat (take ?k ?c @ take n (reader_bits r)))"
    using rem n by (simp add: drop_bit_byte reader_bits_def)
  moreover have "length (take n (reader_bits r)) = n" using rem n by (simp add: reader_bits_def)
  ultimately show "ReadBits_body n r = (Some (int (bits_nat (take n (reader_bits r)))), r\<lparr>hr_remaining := hr_remaining r - n\<rparr>)"
    using mask_bits [of "take n (reader_bits r)" n "take ?k ?c"] by (simp add: ReadBits_body_def)
  show "reader_bits (r\<lparr>hr_remaining := hr_remaining r - n\<rparr>) = drop n (reader_bits r)"
    using rem n by (simp add: reader_bits_def reader_rbsp_def add.commute)
qed

lemma ReadBits_spec:
  assumes rem: "hr_remaining r \<le> 8"
  shows "if n \<le> length (reader_bits r)
    then \<exists>r'. ReadBits_body n r = (Some (int (bits_nat (take n (reader_bits r)))), r') \<and> hr_remaining r' \<le> 8 \<and>
      reader_bits r' = drop n (reader_bits r) \<and> NumBitsLeft r' + 8 * hr_epb r' + n = NumBitsLeft r + 8 * hr_epb r
    else \<exists>r'. ReadBits_body n r = (None, r') \<and> hr_remaining r' \<le> 8"
proof (cases "n \<le> hr_remaining r")
  case True
  moreover have "n \<le> length (reader_bits r)" using True rem by (simp add: reader_bits_def)
  ultimately show ?thesis using rem ReadBits_in_byte [OF rem True] by (simp add: NumBitsLeft_def)
next
  case False
  let ?c = "msb_bits (hr_curr_byte r)" and ?k = "8 - hr_remaining r" and ?n = "n - hr_remaining r"
  have loop: "read_bits_loop n 0 r = (case UpdateCurrByte r of (False, r) \<Rightarrow> (None, r)
      | (True, r) \<Rightarrow> read_bits_loop ?n (push_bit ?n (int (bits_nat ?c))) r)"
    using False by (simp add: read_bits_loop.simps [of n] uint_byte)
  have len: "length (reader_bits r) = hr_remaining r + 8 * length (reader_rbsp r)" using rem by (simp add: reader_bits_def)
  show ?thesis
  proof (cases "reader_rbsp r")
    case Nil
    then obtain r1 where "UpdateCurrByte r = (False, r1)" "hr_remaining r1 = hr_remaining r"
      using UpdateCurrByte_spec [of r] by auto
    then show ?thesis using loop len Nil False rem by (simp add: ReadBits_body_def)
  next
    case (Cons b bs)
    then obtain r1 where r1: "UpdateCurrByte r = (True, r1)" "hr_curr_byte r1 = b" "hr_remaining r1 = 8" "reader_rbsp r1 = bs"
      "length (hr_data r1) + 1 + hr_epb r1 = length (hr_data r) + hr_epb r"
      using UpdateCurrByte_spec [of r] by auto
    have whole: "whole_byte_bits r1 = byte_bits (reader_rbsp r)" using r1 Cons by (simp add: whole_byte_bits_def)
    have enough: "n \<le> length (reader_bits r) \<longleftrightarrow> ?n \<le> length (whole_byte_bits r1)" using len whole False by auto
    note L = read_bits_loop_whole [OF r1(3), of ?n ?c]
    show ?thesis
    proof (cases "n \<le> length (reader_bits r)")
      case True
      with L enough obtain out m r' where ih: "read_bits_loop ?n (push_bit ?n (int (bits_nat ?c))) r1 = (Some (out, m), r')" "m \<le> 8"
        "hr_remaining r' = 8" "out OR drop_bit (8 - m) (uint (hr_curr_byte r')) = int (bits_nat (?c @ take ?n (whole_byte_bits r1)))"
        "drop m (whole_byte_bits r') = drop ?n (whole_byte_bits r1)" "8 * stream_size r' + ?n = 8 * stream_size r1 + m" by auto
      have bits: "?c @ take ?n (whole_byte_bits r1) = take ?k ?c @ take n (reader_bits r)"
        using False rem by (simp add: reader_bits_def whole)
      have val: "int (bits_nat (?c @ take ?n (whole_byte_bits r1))) AND (push_bit n 1 - 1) = int (bits_nat (take n (reader_bits r)))"
        unfolding bits by (rule mask_bits) (use True in simp)
      have "ReadBits_body n r = (Some (int (bits_nat (take n (reader_bits r)))), r'\<lparr>hr_remaining := 8 - m\<rparr>)"
        using loop r1(1) ih(1,3,4) val by (simp add: ReadBits_body_def)
      moreover have "reader_bits (r'\<lparr>hr_remaining := 8 - m\<rparr>) = drop n (reader_bits r)"
        unfolding whole_reader_bits [OF ih(2,3)] ih(5) whole using False rem by (simp add: reader_bits_def)
      moreover have "NumBitsLeft (r'\<lparr>hr_remaining := 8 - m\<rparr>) + 8 * hr_epb r' + n = NumBitsLeft r + 8 * hr_epb r"
        using ih(2,6) r1(5) False by (simp add: NumBitsLeft_def stream_size_def)
      ultimately show ?thesis using True by auto
    next
      case F: False
      with L enough obtain r' where "read_bits_loop ?n (push_bit ?n (int (bits_nat ?c))) r1 = (None, r')" "hr_remaining r' = 8" by auto
      then show ?thesis unfolding if_not_P [OF F] using loop r1(1) by (simp add: ReadBits_body_def)
    qed
  qed
qed

subsection \<open>Exp-Golomb codes\<close>

fun ue_zeros :: "nat \<Rightarrow> nat" where
  "ue_zeros n = (if n \<le> 1 then 0 else ue_zeros (n div 2) + 1)"

declare ue_zeros.simps [simp del]

text \<open>The lowest \<open>k\<close> bits of a number, and the code of a number: as many zeros as the bits of
  \<open>n + 1\<close> after its first, then these bits.\<close>

definition nat_bits :: "nat \<Rightarrow> nat \<Rightarrow> bool list" where
  "nat_bits k n = map (bit n) (rev [0..<k])"

definition ue_bits :: "nat \<Rightarrow> bool list" where
  "ue_bits n = replicate (ue_zeros (n + 1)) False @ nat_bits (ue_zeros (n + 1) + 1) (n + 1)"

lemma ue_zeros_bounds: "1 \<le> n \<Longrightarrow> 2 ^ ue_zeros n \<le> n \<and> n < 2 ^ (ue_zeros n + 1)"
proof (induction n rule: less_induct)
  case (less n)
  show ?case
  proof (cases "n = 1")
    case True
    then show ?thesis by (simp add: ue_zeros.simps [of "Suc 0"])
  next
    case False
    then have "2 ^ ue_zeros (n div 2) \<le> n div 2 \<and> n div 2 < 2 ^ (ue_zeros (n div 2) + 1)"
      using less.IH [of "n div 2"] less.prems by simp
    then show ?thesis using False less.prems by (auto simp: ue_zeros.simps [of n])
  qed
qed

lemma ue_zeros_unique: "2 ^ k \<le> n \<Longrightarrow> n < 2 ^ (k + 1) \<Longrightarrow> ue_zeros n = k"
proof -
  assume a: "2 ^ k \<le> n" "n < 2 ^ (k + 1)"
  then have "1 \<le> n" using one_le_power [of "2 :: nat" k] by linarith
  note b = ue_zeros_bounds [OF this]
  have "ue_zeros n < k + 1" "k < ue_zeros n + 1"
    using a b by (metis le_less_trans nat_power_less_imp_less zero_less_numeral)+
  then show ?thesis by simp
qed

lemma length_nat_bits [simp]: "length (nat_bits k n) = k"
  by (simp add: nat_bits_def)

lemma nat_bits_Suc: "nat_bits (Suc k) n = nat_bits k (n div 2) @ [odd n]"
proof -
  have "[0..<Suc k] = 0 # map Suc [0..<k]" by (simp add: map_Suc_upt upt_conv_Cons del: upt_Suc)
  then have "rev [0..<Suc k] = map Suc (rev [0..<k]) @ [0]" by (simp add: rev_map del: upt_Suc)
  then show ?thesis by (simp add: nat_bits_def bit_Suc comp_def bit_0 del: upt_Suc)
qed

lemma bits_nat_nat_bits: "bits_nat (nat_bits k n) = n mod 2 ^ k"
proof (induction k arbitrary: n)
  case 0
  then show ?case by (simp add: nat_bits_def)
next
  case (Suc k)
  have "n mod (2 * 2 ^ k) = 2 * (n div 2 mod 2 ^ k) + n mod 2" by (rule mod_mult2_eq)
  then show ?case using Suc by (simp add: nat_bits_Suc mod2_eq_if)
qed

lemma nat_bits_bits_nat [simp]: "nat_bits (length bs) (bits_nat bs) = bs"
  using bits_nat_less [of bs] by (subst bits_nat_inject [symmetric]) (simp_all add: bits_nat_nat_bits)

lemma nat_bits_head: "2 ^ k \<le> n \<Longrightarrow> n < 2 ^ (k + 1) \<Longrightarrow> nat_bits (k + 1) n = True # nat_bits k n"
proof -
  assume n: "2 ^ k \<le> n" "n < 2 ^ (k + 1)"
  have "n mod 2 ^ k = n - 2 ^ k" using n by (simp add: mod_if [of n])
  then have "bits_nat (True # nat_bits k n) = n" using n by (simp add: bits_nat_Cons bits_nat_nat_bits)
  moreover have "bits_nat (nat_bits (k + 1) n) = n" using n by (simp add: bits_nat_nat_bits)
  ultimately show ?thesis by (subst bits_nat_inject [symmetric]) simp_all
qed

lemma ue_bits_eq: "ue_bits n = replicate (ue_zeros (n + 1)) False @ True # nat_bits (ue_zeros (n + 1)) (n + 1)"
  using nat_bits_head [of "ue_zeros (n + 1)" "n + 1"] ue_zeros_bounds [of "n + 1"] by (simp add: ue_bits_def)

lemma ReadBits_some:
  assumes "hr_remaining r \<le> 8" "reader_bits r = bs @ rest" "length bs = n"
  shows "\<exists>r'. ReadBits_body n r = (Some (int (bits_nat bs)), r') \<and> hr_remaining r' \<le> 8 \<and> reader_bits r' = rest \<and>
    NumBitsLeft r' + 8 * hr_epb r' + n = NumBitsLeft r + 8 * hr_epb r"
  using ReadBits_spec [OF assms(1), of n] assms(2,3) by simp

lemma read_zeros_some:
  assumes "hr_remaining r \<le> 8" "reader_bits r = replicate k False @ True # rest"
  shows "\<exists>r'. read_zeros n r = (Some (n + 1 + int k), r') \<and> hr_remaining r' \<le> 8 \<and> reader_bits r' = rest \<and>
    NumBitsLeft r' + 8 * hr_epb r' + (k + 1) = NumBitsLeft r + 8 * hr_epb r"
  using assms
proof (induction k arbitrary: n r)
  case 0
  then show ?case
    using ReadBits_some [of r "[True]" rest 1] by (auto simp: read_zeros.simps [of n] bits_nat_def simp del: One_nat_def)
next
  case (Suc k)
  then obtain r1 where r1: "ReadBits_body 1 r = (Some 0, r1)" "hr_remaining r1 \<le> 8" "reader_bits r1 = replicate k False @ True # rest"
    "NumBitsLeft r1 + 8 * hr_epb r1 + 1 = NumBitsLeft r + 8 * hr_epb r"
    using ReadBits_some [of r "[False]" "replicate k False @ True # rest" 1] by (auto simp: bits_nat_def simp del: One_nat_def)
  then show ?case using Suc.IH [OF r1(2,3), of "n + 1"]
    by (auto simp: read_zeros.simps [of n r] simp del: One_nat_def)
qed

text \<open>A code is read back, for every value an \<open>int\<close> can hold.\<close>

lemma ReadUE_some:
  assumes rem: "hr_remaining r \<le> 8" and bits: "reader_bits r = ue_bits v @ rest" and v: "v < 2 ^ 31"
  shows "\<exists>r'. ReadUE r = (Some (int v), r') \<and> hr_remaining r' \<le> 8 \<and> reader_bits r' = rest \<and>
    NumBitsLeft r' + 8 * hr_epb r' + length (ue_bits v) = NumBitsLeft r + 8 * hr_epb r"
proof -
  define k where "k = ue_zeros (v + 1)"
  have k: "2 ^ k \<le> v + 1" "v + 1 < 2 ^ (k + 1)" using ue_zeros_bounds [of "v + 1"] by (auto simp: k_def)
  have "k < 32" by (rule power_less_imp_less_exp [of "2 :: nat"]) (use k(1) v in simp_all)
  then have k31: "k \<le> 31" by simp
  have val: "int (bits_nat (nat_bits k (v + 1))) = int v + 1 - 2 ^ k"
  proof -
    have "(v + 1) mod 2 ^ k = v + 1 - 2 ^ k" using k by (simp add: le_mod_geq)
    then show ?thesis using k(1) by (simp add: bits_nat_nat_bits of_nat_diff)
  qed
  have len: "length (ue_bits v) = 2 * k + 1" by (simp add: ue_bits_def k_def)
  obtain r1 where r1: "read_zeros (- 1) r = (Some (int k), r1)" "hr_remaining r1 \<le> 8"
    "reader_bits r1 = nat_bits k (v + 1) @ rest" "NumBitsLeft r1 + 8 * hr_epb r1 + (k + 1) = NumBitsLeft r + 8 * hr_epb r"
    using read_zeros_some [OF rem, of k "nat_bits k (v + 1) @ rest" "- 1"] bits by (auto simp: ue_bits_eq k_def)
  obtain r2 where r2: "ReadBits_body k r1 = (Some (int v + 1 - 2 ^ k), r2)" "hr_remaining r2 \<le> 8" "reader_bits r2 = rest"
    "NumBitsLeft r2 + 8 * hr_epb r2 + k = NumBitsLeft r1 + 8 * hr_epb r1"
    using ReadBits_some [OF r1(2,3)] val by auto
  show ?thesis
  proof (cases "k = 0")
    case True
    then have "v = 0" using k by simp
    then show ?thesis using r1 True len by (auto simp: ReadUE_def Let_def nat_bits_def)
  next
    case False
    have "k = 31 \<Longrightarrow> int v + 1 - 2 ^ k = 0" using v k(1) by simp
    then show ?thesis using r1 r2 False k31 len by (auto simp: ReadUE_def Let_def push_bit_eq_mult)
  qed
qed

text \<open>Conversely, what is read is the code of the value.\<close>

lemma ReadBits_inv:
  assumes "ReadBits_body n r = (res, r')" "hr_remaining r \<le> 8"
  shows "hr_remaining r' \<le> 8"
    "res = Some v \<Longrightarrow> \<exists>bs. length bs = n \<and> reader_bits r = bs @ reader_bits r' \<and> v = int (bits_nat bs) \<and>
       NumBitsLeft r' + 8 * hr_epb r' + n = NumBitsLeft r + 8 * hr_epb r"
proof -
  note s = ReadBits_spec [OF assms(2), of n]
  show "hr_remaining r' \<le> 8" using s assms(1) by (auto split: if_splits)
  assume "res = Some v"
  then show "\<exists>bs. length bs = n \<and> reader_bits r = bs @ reader_bits r' \<and> v = int (bits_nat bs) \<and>
       NumBitsLeft r' + 8 * hr_epb r' + n = NumBitsLeft r + 8 * hr_epb r"
    using s assms(1) by (intro exI [of _ "take n (reader_bits r)"]) (auto split: if_splits)
qed

lemma ReadBits_bounds:
  assumes "ReadBits_body n r = (Some v, r')" "hr_remaining r \<le> 8"
  shows "0 \<le> v" "v < 2 ^ n"
proof -
  obtain bs where "length bs = n" "v = int (bits_nat bs)" using ReadBits_inv(2) [OF assms] by blast
  then show "0 \<le> v" "v < 2 ^ n" using bits_nat_less [of bs] by (simp_all flip: of_nat_power)
qed

lemma read_zeros_inv:
  assumes "read_zeros n r = (res, r')" "hr_remaining r \<le> 8"
  shows "hr_remaining r' \<le> 8 \<and> (\<forall>m. res = Some m \<longrightarrow> (\<exists>k. m = n + 1 + int k \<and> reader_bits r = replicate k False @ True # reader_bits r' \<and>
    NumBitsLeft r' + 8 * hr_epb r' + (k + 1) = NumBitsLeft r + 8 * hr_epb r))"
  using assms
proof (induction n r rule: read_zeros.induct)
  case (1 n r)
  obtain b r1 where b: "ReadBits_body 1 r = (b, r1)" by (cases "ReadBits_body 1 r")
  note inv = ReadBits_inv [OF b \<open>hr_remaining r \<le> 8\<close>]
  show ?case
  proof (cases b)
    case None
    then show ?thesis using 1(2) b inv(1) by (subst (asm) read_zeros.simps) (simp del: One_nat_def)
  next
    case (Some x)
    then obtain c where c: "reader_bits r = [c] @ reader_bits r1" "x = of_bool c"
      "NumBitsLeft r1 + 8 * hr_epb r1 + 1 = NumBitsLeft r + 8 * hr_epb r"
      using inv(2) [OF Some] by (auto simp: length_Suc_conv bits_nat_def)
    show ?thesis
    proof (cases c)
      case True
      then have "res = Some (n + 1)" "r' = r1" using 1(2) b c(2) Some
        by (subst (asm) read_zeros.simps; simp del: One_nat_def)+
      then show ?thesis using c True inv(1) by (auto intro!: exI [of _ 0])
    next
      case False
      then have rec: "read_zeros (n + 1) r1 = (res, r')" and x: "x = 0" using 1(2) b c(2) Some
        by (subst (asm) read_zeros.simps; simp del: One_nat_def)+
      have IH: "hr_remaining r' \<le> 8 \<and> (\<forall>m. res = Some m \<longrightarrow> (\<exists>k. m = n + 1 + 1 + int k \<and>
          reader_bits r1 = replicate k False @ True # reader_bits r' \<and>
          NumBitsLeft r' + 8 * hr_epb r' + (k + 1) = NumBitsLeft r1 + 8 * hr_epb r1))"
        by (rule 1(1) [OF b [symmetric] Some x rec inv(1)])
      show ?thesis
      proof (intro conjI allI impI)
        show "hr_remaining r' \<le> 8" using IH by simp
        fix m assume "res = Some m"
        then obtain k where "m = n + 1 + 1 + int k" "reader_bits r1 = replicate k False @ True # reader_bits r'"
          "NumBitsLeft r' + 8 * hr_epb r' + (k + 1) = NumBitsLeft r1 + 8 * hr_epb r1" using IH by blast
        then show "\<exists>k. m = n + 1 + int k \<and> reader_bits r = replicate k False @ True # reader_bits r' \<and>
            NumBitsLeft r' + 8 * hr_epb r' + (k + 1) = NumBitsLeft r + 8 * hr_epb r"
          using c False by (intro exI [of _ "Suc k"]) simp
      qed
    qed
  qed
qed

lemma ReadUE_inv:
  assumes "ReadUE r = (res, r')" "hr_remaining r \<le> 8"
  shows "hr_remaining r' \<le> 8"
    "res = Some v \<Longrightarrow> 0 \<le> v \<and> v < 2 ^ 31 \<and> reader_bits r = ue_bits (nat v) @ reader_bits r' \<and>
       NumBitsLeft r' + 8 * hr_epb r' + length (ue_bits (nat v)) = NumBitsLeft r + 8 * hr_epb r"
proof -
  obtain z r1 where z: "read_zeros (- 1) r = (z, r1)" by (cases "read_zeros (- 1) r")
  note zi = read_zeros_inv [OF z assms(2)]
  obtain b r2 where b: "ReadBits_body (nat (the z)) r1 = (b, r2)" by (cases "ReadBits_body (nat (the z)) r1")
  have "r' = r1 \<or> r' = r2" using assms(1) z b by (auto simp: ReadUE_def Let_def split: option.splits if_splits)
  then show "hr_remaining r' \<le> 8" using zi ReadBits_inv(1) [OF b] by auto
  assume res: "res = Some v"
  then obtain k where k: "z = Some (int k)" "reader_bits r = replicate k False @ True # reader_bits r1"
    "NumBitsLeft r1 + 8 * hr_epb r1 + (k + 1) = NumBitsLeft r + 8 * hr_epb r" "k \<le> 31"
    using assms(1) z zi by (cases z) (auto simp: ReadUE_def Let_def split: if_splits)
  obtain bs where bs: "length bs = k" "reader_bits r1 = bs @ reader_bits r'" "v + 1 = int (2 ^ k + bits_nat bs)"
    "NumBitsLeft r' + 8 * hr_epb r' + k = NumBitsLeft r1 + 8 * hr_epb r1" "k = 31 \<Longrightarrow> bits_nat bs = 0"
  proof (cases "k = 0")
    case True
    then show thesis using that [of "[]"] assms(1) z k(1) res by (simp add: ReadUE_def Let_def)
  next
    case False
    have "b \<noteq> None" using assms(1) z k res False b by (auto simp: ReadUE_def Let_def split: if_splits option.splits)
    then obtain x where x: "b = Some x" by blast
    have "r' = r2 \<and> v = 2 ^ k - 1 + x \<and> (k = 31 \<longrightarrow> x = 0)"
      using assms(1) z k res False b x by (auto simp: ReadUE_def Let_def push_bit_eq_mult split: if_splits)
    moreover obtain bs where "length bs = k" "reader_bits r1 = bs @ reader_bits r2" "x = int (bits_nat bs)"
      "NumBitsLeft r2 + 8 * hr_epb r2 + k = NumBitsLeft r1 + 8 * hr_epb r1"
      using ReadBits_inv(2) [OF b _ x] zi k(1) by auto
    ultimately show thesis using that [of bs] by simp
  qed
  have less: "bits_nat bs < 2 ^ k" using bits_nat_less [of bs] bs(1) by simp
  have pos: "1 \<le> 2 ^ k + bits_nat bs" by (simp add: Suc_le_eq)
  then have "0 \<le> v" using bs(3) by linarith
  then have v: "nat v + 1 = 2 ^ k + bits_nat bs" using bs(3) by linarith
  have z: "ue_zeros (nat v + 1) = k" using less unfolding v by (intro ue_zeros_unique) auto
  have "nat_bits k (nat v + 1) = bs"
  proof -
    have "bits_nat (nat_bits k (nat v + 1)) = bits_nat bs" using less unfolding v by (simp add: bits_nat_nat_bits)
    then show ?thesis using bs(1) by (simp add: bits_nat_inject)
  qed
  then have "ue_bits (nat v) = replicate k False @ True # bs" unfolding ue_bits_eq z by simp
  moreover have "v < 2 ^ 31"
  proof -
    have "2 ^ k + bits_nat bs \<le> (2 :: nat) ^ 31"
    proof (cases "k = 31")
      case True
      then show ?thesis using bs(5) by simp
    next
      case False
      then have "(2 :: nat) ^ (k + 1) \<le> 2 ^ 31" using k(4) by (intro power_increasing) auto
      then show ?thesis using less by simp
    qed
    then have "int (2 ^ k + bits_nat bs) \<le> 2 ^ 31" by (simp flip: of_nat_power)
    then show ?thesis using bs(3) by simp
  qed
  ultimately show "0 \<le> v \<and> v < 2 ^ 31 \<and> reader_bits r = ue_bits (nat v) @ reader_bits r' \<and>
       NumBitsLeft r' + 8 * hr_epb r' + length (ue_bits (nat v)) = NumBitsLeft r + 8 * hr_epb r"
    using bs k \<open>0 \<le> v\<close> by simp
qed

text \<open>The signed codes number 0, 1, -1, 2, -2 and so on.\<close>

definition se_code :: "int \<Rightarrow> nat" where
  "se_code v = nat (if v > 0 then 2 * v - 1 else - 2 * v)"

lemma se_code_decode: "(if int (se_code v) mod 2 = 0 then - (int (se_code v) div 2) else int (se_code v) div 2 + 1) = v"
proof (cases "v > 0")
  case True
  obtain j where "v = j + 1" using that [of "v - 1"] by simp
  with True have "int (se_code v) = 2 * j + 1" by (simp add: se_code_def)
  then show ?thesis using \<open>v = j + 1\<close> by simp
next
  case False
  then have "int (se_code v) = 2 * (- v)" by (simp add: se_code_def)
  then show ?thesis by simp
qed

lemma ReadSE_some:
  assumes "hr_remaining r \<le> 8" "reader_bits r = ue_bits (se_code v) @ rest" "se_code v < 2 ^ 31"
  shows "\<exists>r'. ReadSE r = (Some v, r') \<and> hr_remaining r' \<le> 8 \<and> reader_bits r' = rest"
  using ReadUE_some [OF assms] se_code_decode [of v] by (auto simp: ReadSE_def)

lemma ReadSE_inv:
  assumes "ReadSE r = (res, r')" "hr_remaining r \<le> 8"
  shows "hr_remaining r' \<le> 8"
    "res = Some v \<Longrightarrow> - (2 ^ 30) < v \<and> v \<le> 2 ^ 30 \<and> reader_bits r = ue_bits (se_code v) @ reader_bits r' \<and>
       NumBitsLeft r' + 8 * hr_epb r' + length (ue_bits (se_code v)) = NumBitsLeft r + 8 * hr_epb r"
proof -
  obtain u r1 where u: "ReadUE r = (u, r1)" by (cases "ReadUE r")
  note ui = ReadUE_inv [OF u assms(2)]
  have r': "r' = r1" using assms(1) u by (cases u) (auto simp: ReadSE_def)
  then show "hr_remaining r' \<le> 8" using ui(1) by simp
  assume "res = Some v"
  then obtain ue where ue: "u = Some ue" "v = (if ue mod 2 = 0 then - (ue div 2) else ue div 2 + 1)"
    using assms(1) u by (cases u) (auto simp: ReadSE_def)
  note ui2 = ui(2) [OF ue(1)]
  have "se_code v = nat ue"
  proof (cases "even ue")
    case True
    then obtain k where "ue = 2 * k" by (rule evenE)
    then show ?thesis using ui2 ue(2) by (simp add: se_code_def)
  next
    case False
    then obtain k where "ue = 2 * k + 1" by (rule oddE)
    then show ?thesis using ui2 ue(2) by (simp add: se_code_def)
  qed
  moreover have "- (2 ^ 30) < v \<and> v \<le> 2 ^ 30" using ui2 ue(2) by auto
  ultimately show "- (2 ^ 30) < v \<and> v \<le> 2 ^ 30 \<and> reader_bits r = ue_bits (se_code v) @ reader_bits r' \<and>
       NumBitsLeft r' + 8 * hr_epb r' + length (ue_bits (se_code v)) = NumBitsLeft r + 8 * hr_epb r"
    using ui2 r' by simp
qed

section \<open>The writer\<close>

text \<open>The bits written and still in the register; each flush finds room.\<close>

definition buffer_bits :: "h264_buffer \<Rightarrow> bool list" where
  "buffer_bits w = byte_bits (hb_data w) @ drop (hb_bits_left_in_reg w) (msb_bits (hb_reg w))"

definition buffer_ok :: "h264_buffer \<Rightarrow> bool" where
  "buffer_ok w \<longleftrightarrow> hb_bits_left_in_reg w \<le> kRegBitSize \<and> length (hb_data w) + kGrowBytes \<le> hb_capacity w"

definition word_bits :: "nat \<Rightarrow> u64 \<Rightarrow> bool list" where
  "word_bits n v = map (bit v) (rev [0..<n])"

lemma length_word_bits [simp]: "length (word_bits n v) = n"
  by (simp add: word_bits_def)

lemma nth_word_bits [simp]: "i < n \<Longrightarrow> word_bits n v ! i = bit v (n - Suc i)"
  by (simp add: word_bits_def rev_nth)

lemma word_bits_split:
  assumes "k \<le> n"
  shows "word_bits n v = word_bits k (drop_bit (n - k) v) @ word_bits (n - k) v"
  using assms by (intro nth_equalityI) (auto simp: nth_append bit_drop_bit_eq)

lemma byte_bits_be_bytes: "byte_bits (be_bytes 8 (uint (v :: u64))) = msb_bits v"
proof -
  have "be_int bs = int (bits_nat (byte_bits bs))" for bs
    by (induction bs rule: rev_induct) (simp_all add: bits_nat_append uint_byte)
  then have "int (bits_nat (byte_bits (be_bytes 8 (uint v)))) = uint v"
    using uint_lt2p [of v] by (simp add: be_int_be_bytes flip: \<open>\<And>bs. be_int bs = int (bits_nat (byte_bits bs))\<close>)
  also have "\<dots> = int (bits_nat (msb_bits v))" by (simp add: uint_nat unat_eq_bits_nat)
  finally show ?thesis by (simp add: bits_nat_inject)
qed

lemma msb_bits_push_or:
  assumes that: "n + k \<le> 64"
  shows "drop (64 - n - k) (msb_bits (push_bit k (v :: u64) OR take_bit k x)) = drop (64 - n) (msb_bits v) @ word_bits k x"
proof (rule nth_equalityI)
  show "length (drop (64 - n - k) (msb_bits (push_bit k v OR take_bit k x))) = length (drop (64 - n) (msb_bits v) @ word_bits k x)"
    using that by simp
  fix i assume "i < length (drop (64 - n - k) (msb_bits (push_bit k v OR take_bit k x)))"
  then have i: "i < n + k" using that by simp
  show "drop (64 - n - k) (msb_bits (push_bit k v OR take_bit k x)) ! i = (drop (64 - n) (msb_bits v) @ word_bits k x) ! i"
  proof (cases "i < n")
    case True
    then obtain j where "n = Suc i + j" using less_iff_Suc_add [of i n] by auto
    then show ?thesis using that by (auto simp: nth_append bit_simps)
  next
    case False
    then obtain j where "i = n + j" using le_Suc_ex [of n i] by auto
    then show ?thesis using that i by (auto simp: nth_append bit_simps)
  qed
qed

lemma FlushReg_full:
  assumes ok: "buffer_ok w" and left: "hb_bits_left_in_reg w mod 8 = 0"
  shows "\<exists>w'. FlushReg w = Some w' \<and> buffer_ok w' \<and> buffer_bits w' = buffer_bits w \<and> hb_bits_left_in_reg w' = kRegBitSize \<and>
    hb_data w' = hb_data w @ take ((64 - hb_bits_left_in_reg w) div 8) (be_bytes 8 (uint (push_bit (hb_bits_left_in_reg w) (hb_reg w))))"
proof (cases "hb_bits_left_in_reg w = 64")
  case True
  then show ?thesis using ok by (simp add: FlushReg_def kRegBitSize_def)
next
  case False
  let ?l = "hb_bits_left_in_reg w"
  obtain q where q: "?l = 8 * q" using left by (auto simp: mod_eq_0_iff_dvd)
  have q8: "q < 8" using ok False q by (simp add: buffer_ok_def kRegBitSize_def)
  then have "64 - 8 * q = (8 - q) * 8" by simp
  then have n: "(64 - 8 * q + 7) div 8 = 8 - q" "(64 - 8 * q) div 8 = 8 - q" by simp_all
  have room: "length (hb_data w) + (8 - q) < hb_capacity w" using ok unfolding buffer_ok_def kGrowBytes_def by linarith
  have shift: "64 - (64 - 8 * q) = 8 * q" using q8 by simp
  let ?w' = "w\<lparr>hb_capacity := hb_capacity w + kGrowBytes, hb_data := hb_data w @ take (8 - q) (be_bytes 8 (uint (push_bit ?l (hb_reg w)))),
     hb_reg := 0, hb_bits_left_in_reg := 64\<rparr>"
  have flush: "FlushReg w = Some ?w'"
    using q q8 n room shift by (simp add: FlushReg_def Let_def kRegBitSize_def H264BitstreamBuffer_Grow_def)
  have "byte_bits (take (8 - q) (be_bytes 8 (uint (push_bit ?l (hb_reg w))))) = drop ?l (msb_bits (hb_reg w))"
    unfolding byte_bits_take [symmetric] byte_bits_be_bytes using q q8 by (simp add: msb_bits_push_bit)
  then have "buffer_bits ?w' = buffer_bits w" by (simp add: buffer_bits_def)
  moreover have "buffer_ok ?w'" using ok by (auto simp: buffer_ok_def kRegBitSize_def kGrowBytes_def)
  ultimately show ?thesis using flush n(2) q by (intro exI [of _ ?w']) (simp add: kRegBitSize_def)
qed

text \<open>Every append adds the bits of its value.\<close>

lemma AppendU64_bits:
  assumes "buffer_ok w" "n \<le> 63"
  shows "\<exists>w'. AppendU64 n v w = Some w' \<and> buffer_ok w' \<and> buffer_bits w' = buffer_bits w @ word_bits n v"
  using assms
proof (induction n arbitrary: w rule: less_induct)
  case (less n)
  show ?case
  proof (cases "n = 0")
    case True
    then show ?thesis using less.prems by (simp add: AppendU64.simps [of 0] word_bits_def)
  next
    case False
    have "\<exists>w1. (if hb_bits_left_in_reg w = 0 then FlushReg w else Some w) = Some w1 \<and> buffer_ok w1 \<and>
        buffer_bits w1 = buffer_bits w \<and> 0 < hb_bits_left_in_reg w1"
      using FlushReg_full [OF less.prems(1)] less.prems(1) by (auto simp: kRegBitSize_def)
    then obtain w1 where w1: "(if hb_bits_left_in_reg w = 0 then FlushReg w else Some w) = Some w1" "buffer_ok w1"
      "buffer_bits w1 = buffer_bits w" "0 < hb_bits_left_in_reg w1" by blast
    define k where "k = (if n > hb_bits_left_in_reg w1 then hb_bits_left_in_reg w1 else n)"
    have k: "0 < k" "k \<le> n" "k < 64" "k \<le> hb_bits_left_in_reg w1" using w1(4) False less.prems(2) by (auto simp: k_def)
    let ?v = "take_bit k (drop_bit (n - k) v)"
    let ?w2 = "w1\<lparr>hb_reg := push_bit k (hb_reg w1) OR ?v, hb_bits_left_in_reg := hb_bits_left_in_reg w1 - k\<rparr>"
    have left: "hb_bits_left_in_reg w1 \<le> 64" using w1(2) by (simp add: buffer_ok_def kRegBitSize_def)
    have bits2: "buffer_bits ?w2 = buffer_bits w1 @ word_bits k (drop_bit (n - k) v)"
      using msb_bits_push_or [of "64 - hb_bits_left_in_reg w1" k "hb_reg w1" "drop_bit (n - k) v"] k left
      by (simp add: buffer_bits_def)
    have ok2: "buffer_ok ?w2" using w1(2) by (auto simp: buffer_ok_def)
    have step: "AppendU64 n v w = AppendU64 (n - k) v ?w2"
      using False less.prems(2) w1(1) k
      by (subst AppendU64.simps) (simp add: kRegBitSize_def Let_def k_def [symmetric] push_bit_eq_mult flip: take_bit_eq_mask mask_eq_exp_minus_1)
    have n: "n - k < n" "n - k \<le> 63" using k(1,2) less.prems(2) by simp_all
    obtain w' where "AppendU64 (n - k) v ?w2 = Some w'" "buffer_ok w'" "buffer_bits w' = buffer_bits ?w2 @ word_bits (n - k) v"
      using less.IH [OF n(1) ok2 n(2)] by blast
    then show ?thesis using step bits2 w1(3) word_bits_split [OF k(2), of v] by simp
  qed
qed

lemma count_zeros_eq: "count_zeros v n = ue_zeros (unat v) + n"
proof (induction v n rule: count_zeros.induct)
  case (1 v n)
  show ?case
  proof (cases "v > 1")
    case True
    then have "unat (drop_bit 1 v) = unat v div 2" "\<not> unat v \<le> 1"
      by (simp_all add: unat_div drop_bit_Suc word_less_nat_alt)
    then show ?thesis using 1 True by (simp add: count_zeros.simps [of v] ue_zeros.simps [of "unat v"])
  next
    case False
    then have "unat v \<le> 1" by (simp add: word_less_nat_alt)
    then show ?thesis using False by (simp add: count_zeros.simps [of v] ue_zeros.simps [of "unat v"])
  qed
qed

lemma word_bits_nat_bits: "k \<le> 64 \<Longrightarrow> word_bits k v = nat_bits k (unat v)"
  by (auto simp: word_bits_def nat_bits_def bit_unsigned_iff)

lemma AppendUE_bits:
  assumes ok: "buffer_ok w" and v: "uint v < 2 ^ 32 - 1"
  shows "\<exists>w'. AppendUE v w = Some w' \<and> buffer_ok w' \<and> buffer_bits w' = buffer_bits w @ ue_bits (unat v)"
proof -
  have u: "unat v < 2 ^ 32 - 1" by (rule unat_lessI) (use v in simp)
  then have next_val: "unat (v + 1) = unat v + 1" by (simp add: unat_word_ariths(1))
  define z where "z = ue_zeros (unat v + 1)"
  have z: "count_zeros (v + 1) 0 = z" by (simp add: count_zeros_eq next_val z_def)
  have "2 ^ z \<le> unat v + 1" using ue_zeros_bounds [of "unat v + 1"] by (simp add: z_def)
  then have "z < 32" using u by (intro power_less_imp_less_exp [of "2 :: nat" z]) simp_all
  then obtain w1 where w1: "AppendU64 z 0 w = Some w1" "buffer_ok w1" "buffer_bits w1 = buffer_bits w @ word_bits z 0"
    using AppendU64_bits [OF ok, of z 0] by auto
  obtain w2 where w2: "AppendU64 (z + 1) (ucast (v + 1)) w1 = Some w2" "buffer_ok w2"
    "buffer_bits w2 = buffer_bits w1 @ word_bits (z + 1) (ucast (v + 1))"
    using AppendU64_bits [OF w1(2), of "z + 1" "ucast (v + 1)"] \<open>z < 32\<close> by auto
  have "word_bits z 0 = replicate z False" by (rule nth_equalityI) auto
  moreover have "unat (ucast (v + 1) :: u64) = unat v + 1" using u by (simp add: unsigned_ucast_eq take_bit_nat_eq_self next_val)
  then have "word_bits (z + 1) (ucast (v + 1)) = nat_bits (z + 1) (unat v + 1)"
    using \<open>z < 32\<close> by (simp add: word_bits_nat_bits)
  ultimately show ?thesis using w1 w2 z by (simp add: AppendUE_def Let_def ue_bits_def z_def)
qed

text \<open>Syntax elements as the encoders write and the parser reads them.\<close>

datatype syntax_element =
    E_Bits nat u64
  | E_UE u32
  | E_SE int

fun element_ok :: "syntax_element \<Rightarrow> bool" where
  "element_ok (E_Bits n v) \<longleftrightarrow> 1 \<le> n \<and> n \<le> 31"
| "element_ok (E_UE v) \<longleftrightarrow> uint v < 2 ^ 31"
| "element_ok (E_SE v) \<longleftrightarrow> - (2 ^ 30) < v \<and> v < 2 ^ 30"

fun element_bits :: "syntax_element \<Rightarrow> bool list" where
  "element_bits (E_Bits n v) = word_bits n v"
| "element_bits (E_UE v) = ue_bits (unat v)"
| "element_bits (E_SE v) = ue_bits (se_code v)"

fun element_value :: "syntax_element \<Rightarrow> int" where
  "element_value (E_Bits n v) = uint v mod 2 ^ n"
| "element_value (E_UE v) = uint v"
| "element_value (E_SE v) = v"

fun write_element :: "syntax_element \<Rightarrow> h264_buffer \<Rightarrow> h264_buffer option" where
  "write_element (E_Bits n v) w = AppendU64 n v w"
| "write_element (E_UE v) w = AppendUE v w"
| "write_element (E_SE v) w = AppendSE v w"

fun read_element :: "syntax_element \<Rightarrow> h264_reader \<Rightarrow> int option \<times> h264_reader" where
  "read_element (E_Bits n v) r = (case H264_ReadBits n r of None \<Rightarrow> (None, r) | Some res \<Rightarrow> res)"
| "read_element (E_UE v) r = ReadUE r"
| "read_element (E_SE v) r = ReadSE r"

fun write_elements :: "syntax_element list \<Rightarrow> h264_buffer \<Rightarrow> h264_buffer option" where
  "write_elements [] w = Some w"
| "write_elements (e # es) w = (case write_element e w of None \<Rightarrow> None | Some w \<Rightarrow> write_elements es w)"

fun read_elements :: "syntax_element list \<Rightarrow> h264_reader \<Rightarrow> int option list \<times> h264_reader" where
  "read_elements [] r = ([], r)"
| "read_elements (e # es) r =
     (let (v, r) = read_element e r; (vs, r) = read_elements es r in (v # vs, r))"

lemma write_element_bits:
  assumes ok: "buffer_ok w" and e: "element_ok e"
  shows "\<exists>w'. write_element e w = Some w' \<and> buffer_ok w' \<and> buffer_bits w' = buffer_bits w @ element_bits e"
proof (cases e)
  case (E_Bits n v)
  then show ?thesis using AppendU64_bits [OF ok, of n v] e by simp
next
  case (E_UE v)
  then show ?thesis using AppendUE_bits [OF ok, of v] e by simp
next
  case (E_SE v)
  define c where "c = (if v > 0 then v * 2 - 1 else - v * 2)"
  have c: "0 \<le> c" "c < 2 ^ 31" "nat c = se_code v" using e E_SE by (auto simp: c_def se_code_def)
  have u: "uint (word_of_int c :: u32) = c" using c(1,2) by (simp add: uint_word_of_int)
  then have "unat (word_of_int c :: u32) = se_code v" using c(3) by (simp flip: nat_uint_eq)
  moreover have "AppendSE v w = AppendUE (word_of_int c) w" using e E_SE by (auto simp: AppendSE_def c_def)
  ultimately show ?thesis using AppendUE_bits [OF ok, of "word_of_int c"] u c(2) E_SE by simp
qed

lemma write_elements_bits:
  "buffer_ok w \<Longrightarrow> list_all element_ok es \<Longrightarrow>
   \<exists>w'. write_elements es w = Some w' \<and> buffer_ok w' \<and> buffer_bits w' = buffer_bits w @ concat (map element_bits es)"
proof (induction es arbitrary: w)
  case (Cons e es)
  then obtain w1 where "write_element e w = Some w1" "buffer_ok w1" "buffer_bits w1 = buffer_bits w @ element_bits e"
    using write_element_bits [of w e] by auto
  then show ?case using Cons.IH [of w1] Cons.prems by auto
qed simp

lemma read_element_value:
  assumes "hr_remaining r \<le> 8" "element_ok e" "reader_bits r = element_bits e @ rest"
  shows "\<exists>r'. read_element e r = (Some (element_value e), r') \<and> hr_remaining r' \<le> 8 \<and> reader_bits r' = rest"
proof (cases e)
  case (E_Bits n v)
  have "int (bits_nat (word_bits n v)) = uint v mod 2 ^ n"
    using assms(2) E_Bits by (simp add: word_bits_nat_bits bits_nat_nat_bits of_nat_mod)
  then show ?thesis using ReadBits_some [of r "word_bits n v" rest n] assms E_Bits by (auto simp: H264_ReadBits_def)
next
  case (E_UE v)
  then have "unat v < 2 ^ 31" using assms(2) by (intro unat_lessI) simp
  then show ?thesis using ReadUE_some [of r "unat v" rest] assms E_UE by auto
next
  case (E_SE v)
  then have "se_code v < 2 ^ 31" using assms(2) by (auto simp: se_code_def)
  then show ?thesis using ReadSE_some [of r v rest] assms E_SE by auto
qed

lemma read_elements_values:
  "hr_remaining r \<le> 8 \<Longrightarrow> list_all element_ok es \<Longrightarrow> reader_bits r = concat (map element_bits es) @ rest \<Longrightarrow>
   \<exists>r'. read_elements es r = (map (Some \<circ> element_value) es, r') \<and> hr_remaining r' \<le> 8 \<and> reader_bits r' = rest"
proof (induction es arbitrary: r)
  case (Cons e es)
  then obtain r1 where r1: "read_element e r = (Some (element_value e), r1)" "hr_remaining r1 \<le> 8"
    "reader_bits r1 = concat (map element_bits es) @ rest"
    using read_element_value [of r e "concat (map element_bits es) @ rest"] by auto
  then show ?case using Cons.IH [of r1] Cons.prems(2) by (auto simp: Let_def)
qed simp

text \<open>A finished NAL unit: the stop bit and zeros up to the next byte.\<close>

lemma FinishNALU_bits:
  assumes ok: "buffer_ok w"
  shows "\<exists>w' n. FinishNALU w = Some w' \<and> n < 8 \<and> hb_bits_left_in_reg w' = kRegBitSize \<and>
    byte_bits (hb_data w') = buffer_bits w @ True # replicate n False"
proof -
  obtain w1 where w1: "AppendU64 1 1 w = Some w1" "buffer_ok w1" "buffer_bits w1 = buffer_bits w @ word_bits 1 1"
    using AppendU64_bits [OF ok, of 1 1] by auto
  let ?n = "hb_bits_left_in_reg w1 mod 8"
  have n63: "?n \<le> 63" by (rule order.trans [of _ 7]) simp_all
  obtain w2 where w2: "AppendU64 ?n 0 w1 = Some w2" "buffer_ok w2" "buffer_bits w2 = buffer_bits w1 @ word_bits ?n 0"
    using AppendU64_bits [OF w1(2) n63, of 0] by blast
  have left: "hb_bits_left_in_reg w1 \<le> 64" "hb_bits_left_in_reg w2 \<le> 64"
    using w1(2) w2(2) by (simp_all add: buffer_ok_def kRegBitSize_def)
  have len: "length (buffer_bits w) + hb_bits_left_in_reg w = 64 + 8 * length (hb_data w)" if "hb_bits_left_in_reg w \<le> 64" for w
    using that by (simp add: buffer_bits_def)
  have "length (buffer_bits w2) = length (buffer_bits w1) + ?n" using w2(3) by simp
  then have "64 + 8 * length (hb_data w2) + hb_bits_left_in_reg w1 = 64 + 8 * length (hb_data w1) + ?n + hb_bits_left_in_reg w2"
    using len [OF left(1)] len [OF left(2)] by linarith
  then have aligned: "hb_bits_left_in_reg w2 mod 8 = 0" by presburger
  obtain w3 where w3: "FlushReg w2 = Some w3" "buffer_bits w3 = buffer_bits w2" "hb_bits_left_in_reg w3 = kRegBitSize"
    using FlushReg_full [OF w2(2) aligned] by blast
  have fin: "FinishNALU w = Some (if hb_bits_left_in_reg w2 \<noteq> kRegBitSize then w3 else w2)"
    using w1(1) w2(1) w3(1) by (simp add: FinishNALU_def del: One_nat_def)
  have bits: "buffer_bits w2 = buffer_bits w @ True # replicate ?n False"
  proof -
    have "word_bits ?n 0 = replicate ?n False" by (rule nth_equalityI) auto
    moreover have "word_bits 1 1 = [True]" by (simp add: word_bits_def)
    ultimately show ?thesis using w1(3) w2(3) by simp
  qed
  have "byte_bits (hb_data v) = buffer_bits v" if "hb_bits_left_in_reg v = kRegBitSize" for v
    using that by (simp add: buffer_bits_def kRegBitSize_def)
  then show ?thesis using fin bits w3(2,3)
    by (intro exI [of _ "if hb_bits_left_in_reg w2 \<noteq> kRegBitSize then w3 else w2"] exI [of _ ?n]) (auto split: if_splits)
qed

definition nalu_header :: "nat \<Rightarrow> int \<Rightarrow> syntax_element list" where
  "nalu_header nalu_type nal_ref_idc = [E_Bits 1 0, E_Bits 2 (word_of_int nal_ref_idc), E_Bits 5 (of_nat nalu_type)]"

lemma BeginNALU_elements:
  assumes "hb_bits_left_in_reg w = kRegBitSize" "nalu_type \<le> 11" "0 \<le> nal_ref_idc" "nal_ref_idc \<le> 3"
  shows "BeginNALU nalu_type nal_ref_idc w =
    (case AppendU64 32 1 w of None \<Rightarrow> None | Some w \<Rightarrow> write_elements (nalu_header nalu_type nal_ref_idc) w)"
  using assms by (simp add: BeginNALU_def nalu_header_def split: option.splits del: One_nat_def)

lemma Reset_ok: "buffer_ok H264BitstreamBuffer_Reset" "buffer_bits H264BitstreamBuffer_Reset = []"
  "hb_bits_left_in_reg H264BitstreamBuffer_Reset = kRegBitSize"
  by (simp_all add: H264BitstreamBuffer_Reset_def H264BitstreamBuffer_Grow_def buffer_ok_def buffer_bits_def kRegBitSize_def
      kGrowBytes_def)

lemma Initialize_bits:
  assumes "bytes \<noteq> []"
  shows "\<exists>r'. H264BitReader_Initialize bytes r = (True, r') \<and> hr_remaining r' \<le> 8 \<and> reader_bits r' = byte_bits (rbsp_of 0 bytes) \<and>
    NumBitsLeft r' = 8 * length bytes \<and> hr_epb r' = 0"
  using assms by (cases bytes) (simp_all add: H264BitReader_Initialize_def reader_bits_def reader_rbsp_def zeros_seen_def NumBitsLeft_def)

definition write_nalu :: "nat \<Rightarrow> int \<Rightarrow> syntax_element list \<Rightarrow> h264_buffer option" where
  "write_nalu nalu_type nal_ref_idc es =
     (case BeginNALU nalu_type nal_ref_idc H264BitstreamBuffer_Reset of None \<Rightarrow> None
      | Some w \<Rightarrow> (case write_elements es w of None \<Rightarrow> None | Some w \<Rightarrow> FinishNALU w))"

definition read_nalu :: "syntax_element list \<Rightarrow> u8 list \<Rightarrow> int option list" where
  "read_nalu es bytes = fst (read_elements es (snd (H264BitReader_Initialize bytes H264BitReader_init)))"

section \<open>Properties\<close>

text \<open>
  C18: What an encoder writes with \<open>H264BitstreamBuffer\<close> the parser's bit reader reads back. A NAL
  unit of any type, reference level and sequence of fixed-width fields of 1 to 31 bits, unsigned
  Exp-Golomb values below 2^31 and signed ones between -2^30 and 2^30 is written without a failed
  check; the buffer then holds the start code and the NAL unit; and from any raw bytes that carry
  this NAL unit with emulation prevention bytes the reader gets the header fields and the values of
  all elements in order.
\<close>

theorem H264_written_elements_read_back:
  assumes "nalu_type \<le> 11" "0 \<le> nal_ref_idc" "nal_ref_idc \<le> 3" "list_all element_ok es"
    and "H264BitstreamBuffer_data (the (write_nalu nalu_type nal_ref_idc es)) = Some bytes"
    and "rbsp_of 0 raw = drop 4 bytes"
  shows "write_nalu nalu_type nal_ref_idc es \<noteq> None \<and> take 4 bytes = [0, 0, 0, 1] \<and>
    read_nalu (nalu_header nalu_type nal_ref_idc @ es) raw =
      [Some 0, Some nal_ref_idc, Some (int nalu_type)] @ map (Some \<circ> element_value) es"
proof -
  have hdr: "list_all element_ok (nalu_header nalu_type nal_ref_idc)" by (simp add: nalu_header_def)
  obtain w1 where w1: "AppendU64 32 1 H264BitstreamBuffer_Reset = Some w1" "buffer_ok w1" "buffer_bits w1 = word_bits 32 1"
    using AppendU64_bits [OF Reset_ok(1), of 32 1] Reset_ok(2) by auto
  let ?all = "nalu_header nalu_type nal_ref_idc @ es"
  obtain w2 where w2: "write_elements (nalu_header nalu_type nal_ref_idc) w1 = Some w2" "buffer_ok w2"
    "buffer_bits w2 = word_bits 32 1 @ concat (map element_bits (nalu_header nalu_type nal_ref_idc))"
    using write_elements_bits [OF w1(2) hdr] w1(3) by auto
  obtain w3 where w3: "write_elements es w2 = Some w3" "buffer_ok w3"
    "buffer_bits w3 = word_bits 32 1 @ concat (map element_bits ?all)"
    using write_elements_bits [OF w2(2) assms(4)] w2(3) by auto
  obtain w n where w: "FinishNALU w3 = Some w" "hb_bits_left_in_reg w = kRegBitSize"
    "byte_bits (hb_data w) = word_bits 32 1 @ concat (map element_bits ?all) @ True # replicate n False"
    using FinishNALU_bits [OF w3(2)] w3(3) by auto
  have wr: "write_nalu nalu_type nal_ref_idc es = Some w"
    using BeginNALU_elements [OF Reset_ok(3) assms(1-3)] w1(1) w2(1) w3(1) w(1) by (simp add: write_nalu_def)
  then have bytes: "bytes = hb_data w" using assms(5) w(2) by (simp add: H264BitstreamBuffer_data_def)
  have code: "word_bits 32 1 = byte_bits [0, 0, 0, 1]" by (simp add: word_bits_def msb_bits_def upt_rec)
  have "byte_bits (take 4 bytes) = byte_bits [0, 0, 0, 1]"
    unfolding byte_bits_take [symmetric] bytes w(3) code by simp
  then have start: "take 4 bytes = [0, 0, 0, 1]" by (rule byte_bits_inject)
  have rest: "byte_bits (drop 4 bytes) = concat (map element_bits ?all) @ True # replicate n False"
    unfolding byte_bits_drop [symmetric] bytes w(3) code by simp
  have "raw \<noteq> []" using assms(6) rest by (cases raw) auto
  then obtain r where r: "H264BitReader_Initialize raw H264BitReader_init = (True, r)" "hr_remaining r \<le> 8"
    "reader_bits r = concat (map element_bits ?all) @ True # replicate n False"
    using Initialize_bits [of raw H264BitReader_init] assms(6) rest by auto
  have "list_all element_ok ?all" using hdr assms(4) by simp
  then have "fst (read_elements ?all r) = map (Some \<circ> element_value) ?all"
    using read_elements_values [OF r(2) _ r(3)] by auto
  moreover have "map (Some \<circ> element_value) (nalu_header nalu_type nal_ref_idc) = [Some 0, Some nal_ref_idc, Some (int nalu_type)]"
    using assms(1-3) by (simp add: nalu_header_def uint_word_of_int unsigned_of_nat take_bit_nat_eq_self)
  ultimately show ?thesis using wr start r(1) by (simp add: read_nalu_def)
qed

theorem H264_written_elements_read_back_witness:
  "write_nalu 7 3 [E_Bits 16 0, E_Bits 7 0] \<noteq> None \<and>
   take 4 [0, 0, 0, 1, 103, 0, 0, 1 :: u8] = [0, 0, 0, 1] \<and>
   read_nalu (nalu_header 7 3 @ [E_Bits 16 0, E_Bits 7 0]) [103, 0, 0, 3, 1] =
     [Some 0, Some 3, Some (int 7)] @ map (Some \<circ> element_value) [E_Bits 16 0, E_Bits 7 0]"
  by (rule H264_written_elements_read_back; code_simp)

text \<open>
  C23: Reading is reading the raw byte sequence. In any state of the reader in which at most eight
  bits of the current byte are left, \<open>ReadBits\<close> of at most 31 bits, which it asserts, fails exactly
  when fewer bits are left once the emulation prevention bytes are removed; otherwise it returns the
  next bits as a number, which is below \<open>2 ^ 31\<close>, and advances by them, however they lie over the
  bytes and the removed bytes, and \<open>NumBitsLeft\<close> together with eight bits for each emulation
  prevention byte read decreases by exactly the number of bits.
\<close>

theorem H264_ReadBits_refines_rbsp:
  assumes "hr_remaining r \<le> 8" "n \<le> 31"
  shows "\<exists>v r'. H264_ReadBits n r = Some (v, r') \<and> hr_remaining r' \<le> 8 \<and>
    (if n \<le> length (reader_bits r)
     then v = Some (int (bits_nat (take n (reader_bits r)))) \<and> bits_nat (take n (reader_bits r)) < 2 ^ 31 \<and>
       reader_bits r' = drop n (reader_bits r) \<and>
       NumBitsLeft r' + 8 * NumEmulationPreventionBytesRead r' + n = NumBitsLeft r + 8 * NumEmulationPreventionBytesRead r
     else v = None)"
proof -
  have "bits_nat (take n (reader_bits r)) < 2 ^ length (take n (reader_bits r))" by (rule bits_nat_less)
  also have "\<dots> \<le> 2 ^ 31" using assms(2) by (intro power_increasing) auto
  finally have "bits_nat (take n (reader_bits r)) < 2 ^ 31" .
  then show ?thesis
    using ReadBits_spec [OF assms(1), of n] assms(2)
    by (cases "ReadBits_body n r") (auto simp: H264_ReadBits_def NumEmulationPreventionBytesRead_def split: if_splits)
qed

theorem H264_ReadBits_refines_rbsp_witness:
  "let r = snd (H264BitReader_Initialize [1, 0, 0, 3, 1, 255] H264BitReader_init) in
   \<exists>v r'. H264_ReadBits 31 r = Some (v, r') \<and> hr_remaining r' \<le> 8 \<and>
    (if 31 \<le> length (reader_bits r)
     then v = Some (int (bits_nat (take 31 (reader_bits r)))) \<and> bits_nat (take 31 (reader_bits r)) < 2 ^ 31 \<and>
       reader_bits r' = drop 31 (reader_bits r) \<and>
       NumBitsLeft r' + 8 * NumEmulationPreventionBytesRead r' + 31 = NumBitsLeft r + 8 * NumEmulationPreventionBytesRead r
     else v = None)"
  unfolding Let_def [of "snd (H264BitReader_Initialize [1, 0, 0, 3, 1, 255] H264BitReader_init)"]
  by (rule H264_ReadBits_refines_rbsp) code_simp+

text \<open>
  C40: Exp-Golomb decoding is exact. \<open>ReadUE\<close> returns a value if and only if the bits left start
  with the code of a number below 2^31: the value is this number, what is left is what follows the
  code, and longer codes, larger values and truncated codes are all rejected.
\<close>

theorem ReadUE_decodes:
  assumes "hr_remaining r \<le> 8"
  shows "let (v, r') = ReadUE r in
    if \<exists>n rest. n < 2 ^ 31 \<and> reader_bits r = ue_bits n @ rest
    then \<exists>n. v = Some (int n) \<and> n < 2 ^ 31 \<and> reader_bits r = ue_bits n @ reader_bits r'
    else v = None"
proof -
  obtain v r' where u: "ReadUE r = (v, r')" by (cases "ReadUE r")
  show ?thesis
  proof (cases "\<exists>n rest. n < 2 ^ 31 \<and> reader_bits r = ue_bits n @ rest")
    case True
    then show ?thesis using ReadUE_some [OF assms] u by auto
  next
    case False
    have "v = None"
    proof (rule ccontr)
      assume "v \<noteq> None"
      then obtain x where "v = Some x" by blast
      from ReadUE_inv(2) [OF u assms this] False show False
        by (metis int_nat_eq of_nat_less_iff of_nat_numeral of_nat_power)
    qed
    then show ?thesis using False u by auto
  qed
qed

theorem ReadUE_decodes_witness:
  "let r = snd (H264BitReader_Initialize [0x24, 0x80] H264BitReader_init) in
   let (v, r') = ReadUE r in
    if \<exists>n rest. n < 2 ^ 31 \<and> reader_bits r = ue_bits n @ rest
    then \<exists>n. v = Some (int n) \<and> n < 2 ^ 31 \<and> reader_bits r = ue_bits n @ reader_bits r'
    else v = None"
  unfolding Let_def [of "snd (H264BitReader_Initialize [0x24, 0x80] H264BitReader_init)"]
  by (rule ReadUE_decodes) code_simp

text \<open>
  The writer grows when it need not. \<open>FlushReg\<close> tests whether the register fits into the
  capacity and grows if it does; a write that would not fit is not prevented, and is only avoided
  because every flush adds 4096 bytes.
\<close>

theorem FlushReg_grows_needlessly:
  assumes "buffer_ok w" "hb_bits_left_in_reg w = 0"
  shows "\<exists>w'. FlushReg w = Some w' \<and> length (hb_data w') = length (hb_data w) + 8 \<and>
    hb_capacity w' = hb_capacity w + kGrowBytes"
proof -
  have "length (hb_data w) + 8 < hb_capacity w" using assms(1) unfolding buffer_ok_def kGrowBytes_def by linarith
  then show ?thesis using assms(2)
    by (simp add: FlushReg_def Let_def kRegBitSize_def kGrowBytes_def H264BitstreamBuffer_Grow_def)
qed

text \<open>
  An append of 64 bits to an empty register shifts the register by its width, which C++ leaves
  undefined, and the signed code of 2^30 overflows although the bit stream could carry it.
\<close>

theorem AppendBits_undefined:
  "AppendU64 64 v H264BitstreamBuffer_Reset = None" "AppendSE (2 ^ 30) w = None"
  by (simp_all add: AppendU64.simps [of 64] H264BitstreamBuffer_Reset_def H264BitstreamBuffer_Grow_def kRegBitSize_def Let_def
      AppendSE_def)

end
