(* ===== verification/H264_Nalu.thy ===== *)
theory H264_Nalu
  imports H264_Bits Time_Ranges
begin

text \<open>
  The data of \<open>H264Parser\<close> and its search for NAL units (\<open>video/h264_parser.cc\<close>): start codes in an
  Annex B byte stream, outside encrypted ranges, the division of a stream into NAL units, and the
  values computed from a sequence parameter set.

  Pointers into the stream are positions from its start, and a failed check is \<open>None\<close>.
\<close>

section \<open>Data\<close>

datatype video_codec_profile =
    VIDEO_CODEC_PROFILE_UNKNOWN
  | H264PROFILE_BASELINE | H264PROFILE_MAIN | H264PROFILE_EXTENDED | H264PROFILE_HIGH | H264PROFILE_HIGH10PROFILE
  | H264PROFILE_HIGH422PROFILE | H264PROFILE_HIGH444PREDICTIVEPROFILE | H264PROFILE_SCALABLEBASELINE
  | H264PROFILE_SCALABLEHIGH | H264PROFILE_STEREOHIGH | H264PROFILE_MULTIVIEWHIGH
  | VP8PROFILE_ANY | VP9PROFILE_PROFILE0 | VP9PROFILE_PROFILE1 | VP9PROFILE_PROFILE2 | VP9PROFILE_PROFILE3
  | HEVCPROFILE_MAIN | HEVCPROFILE_MAIN10 | HEVCPROFILE_MAIN_STILL_PICTURE
  | DOLBYVISION_PROFILE0 | DOLBYVISION_PROFILE4 | DOLBYVISION_PROFILE5 | DOLBYVISION_PROFILE7
  | THEORAPROFILE_ANY | AV1PROFILE_PROFILE_MAIN | AV1PROFILE_PROFILE_HIGH | AV1PROFILE_PROFILE_PRO

text \<open>The values of \<open>int\<close>.\<close>

definition int_max :: int where
  "int_max = 2 ^ 31 - 1"

definition int_range :: "int \<Rightarrow> bool" where
  "int_range v \<longleftrightarrow> - (2 ^ 31) \<le> v \<and> v \<le> int_max"

definition kNonIDRSlice :: int where
  "kNonIDRSlice = 1"

definition kIDRSlice :: int where
  "kIDRSlice = 5"

definition kSEIMessage :: int where
  "kSEIMessage = 6"

definition kSPS :: int where
  "kSPS = 7"

definition kPPS :: int where
  "kPPS = 8"

definition kAUD :: int where
  "kAUD = 9"

definition kEOSeq :: int where
  "kEOSeq = 10"

definition kEOStreamNalu :: int where
  "kEOStreamNalu = 11"

definition kCodedSliceExtension :: int where
  "kCodedSliceExtension = 20"

definition kExtendedSar :: int where
  "kExtendedSar = 255"

definition kLevelIDC1p0 :: int where
  "kLevelIDC1p0 = 10"

definition kLevelIDC1B :: int where
  "kLevelIDC1B = 9"

definition kSEIRecoveryPoint :: int where
  "kSEIRecoveryPoint = 6"

text \<open>A NAL unit: the position of its data, the data, and the fields of its header.\<close>

record h264_nalu =
  na_data :: nat
  na_bytes :: "u8 list"
  na_nal_ref_idc :: int
  na_nal_unit_type :: int

record h264_sps =
  sps_profile_idc :: int
  sps_constraint_set0_flag :: bool
  sps_constraint_set1_flag :: bool
  sps_constraint_set2_flag :: bool
  sps_constraint_set3_flag :: bool
  sps_constraint_set4_flag :: bool
  sps_constraint_set5_flag :: bool
  sps_level_idc :: int
  sps_seq_parameter_set_id :: int
  sps_chroma_format_idc :: int
  sps_separate_colour_plane_flag :: bool
  sps_bit_depth_luma_minus8 :: int
  sps_bit_depth_chroma_minus8 :: int
  sps_qpprime_y_zero_transform_bypass_flag :: bool
  sps_seq_scaling_matrix_present_flag :: bool
  sps_scaling_list4x4 :: "int list list"
  sps_scaling_list8x8 :: "int list list"
  sps_log2_max_frame_num_minus4 :: int
  sps_pic_order_cnt_type :: int
  sps_log2_max_pic_order_cnt_lsb_minus4 :: int
  sps_delta_pic_order_always_zero_flag :: bool
  sps_offset_for_non_ref_pic :: int
  sps_offset_for_top_to_bottom_field :: int
  sps_num_ref_frames_in_pic_order_cnt_cycle :: int
  sps_expected_delta_per_pic_order_cnt_cycle :: int
  sps_offset_for_ref_frame :: "int list"
  sps_max_num_ref_frames :: int
  sps_gaps_in_frame_num_value_allowed_flag :: bool
  sps_pic_width_in_mbs_minus1 :: int
  sps_pic_height_in_map_units_minus1 :: int
  sps_frame_mbs_only_flag :: bool
  sps_mb_adaptive_frame_field_flag :: bool
  sps_direct_8x8_inference_flag :: bool
  sps_frame_cropping_flag :: bool
  sps_frame_crop_left_offset :: int
  sps_frame_crop_right_offset :: int
  sps_frame_crop_top_offset :: int
  sps_frame_crop_bottom_offset :: int
  sps_vui_parameters_present_flag :: bool
  sps_sar_width :: int
  sps_sar_height :: int
  sps_bitstream_restriction_flag :: bool
  sps_max_num_reorder_frames :: int
  sps_max_dec_frame_buffering :: int
  sps_video_signal_type_present_flag :: bool
  sps_video_format :: int
  sps_video_full_range_flag :: bool
  sps_colour_description_present_flag :: bool
  sps_colour_primaries :: int
  sps_transfer_characteristics :: int
  sps_matrix_coefficients :: int
  sps_chroma_array_type :: int

record h264_pps =
  pps_pic_parameter_set_id :: int
  pps_seq_parameter_set_id :: int
  pps_entropy_coding_mode_flag :: bool
  pps_bottom_field_pic_order_in_frame_present_flag :: bool
  pps_num_slice_groups_minus1 :: int
  pps_num_ref_idx_l0_default_active_minus1 :: int
  pps_num_ref_idx_l1_default_active_minus1 :: int
  pps_weighted_pred_flag :: bool
  pps_weighted_bipred_idc :: int
  pps_pic_init_qp_minus26 :: int
  pps_pic_init_qs_minus26 :: int
  pps_chroma_qp_index_offset :: int
  pps_deblocking_filter_control_present_flag :: bool
  pps_constrained_intra_pred_flag :: bool
  pps_redundant_pic_cnt_present_flag :: bool
  pps_transform_8x8_mode_flag :: bool
  pps_pic_scaling_matrix_present_flag :: bool
  pps_scaling_list4x4 :: "int list list"
  pps_scaling_list8x8 :: "int list list"
  pps_second_chroma_qp_index_offset :: int

text \<open>The two numbers of a modification share their memory.\<close>

record h264_modification =
  mod_modification_of_pic_nums_idc :: int
  mod_value :: int

record h264_weighting_factors =
  wf_luma_weight_flag :: bool
  wf_chroma_weight_flag :: bool
  wf_luma_weight :: "int list"
  wf_luma_offset :: "int list"
  wf_chroma_weight :: "int list list"
  wf_chroma_offset :: "int list list"

record h264_ref_pic_marking =
  rpm_memory_mgmnt_control_operation :: int
  rpm_difference_of_pic_nums_minus1 :: int
  rpm_long_term_pic_num :: int
  rpm_long_term_frame_idx :: int
  rpm_max_long_term_frame_idx_plus1 :: int

record h264_slice_header =
  sh_idr_pic_flag :: bool
  sh_nal_ref_idc :: int
  sh_nalu_data :: nat
  sh_nalu_size :: int
  sh_header_bit_size :: int
  sh_first_mb_in_slice :: int
  sh_slice_type :: int
  sh_pic_parameter_set_id :: int
  sh_colour_plane_id :: int
  sh_frame_num :: int
  sh_field_pic_flag :: bool
  sh_bottom_field_flag :: bool
  sh_idr_pic_id :: int
  sh_pic_order_cnt_lsb :: int
  sh_delta_pic_order_cnt_bottom :: int
  sh_delta_pic_order_cnt0 :: int
  sh_delta_pic_order_cnt1 :: int
  sh_redundant_pic_cnt :: int
  sh_direct_spatial_mv_pred_flag :: bool
  sh_num_ref_idx_active_override_flag :: bool
  sh_num_ref_idx_l0_active_minus1 :: int
  sh_num_ref_idx_l1_active_minus1 :: int
  sh_ref_pic_list_modification_flag_l0 :: bool
  sh_ref_pic_list_modification_flag_l1 :: bool
  sh_ref_list_l0_modifications :: "h264_modification list"
  sh_ref_list_l1_modifications :: "h264_modification list"
  sh_luma_log2_weight_denom :: int
  sh_chroma_log2_weight_denom :: int
  sh_pred_weight_table_l0 :: h264_weighting_factors
  sh_pred_weight_table_l1 :: h264_weighting_factors
  sh_no_output_of_prior_pics_flag :: bool
  sh_long_term_reference_flag :: bool
  sh_adaptive_ref_pic_marking_mode_flag :: bool
  sh_ref_pic_marking :: "h264_ref_pic_marking list"
  sh_cabac_init_idc :: int
  sh_slice_qp_delta :: int
  sh_sp_for_switch_flag :: bool
  sh_slice_qs_delta :: int
  sh_disable_deblocking_filter_idc :: int
  sh_slice_alpha_c0_offset_div2 :: int
  sh_slice_beta_offset_div2 :: int
  sh_dec_ref_pic_marking_bit_size :: int
  sh_pic_order_cnt_bit_size :: int

record h264_recovery_point =
  rp_recovery_frame_cnt :: int
  rp_exact_match_flag :: bool
  rp_broken_link_flag :: bool
  rp_changing_slice_group_idc :: int

record h264_sei_message =
  sei_type :: int
  sei_payload_size :: int
  sei_recovery_point :: "h264_recovery_point option"

text \<open>The constructors clear the memory.\<close>

definition H264SPS_zero :: h264_sps where
  "H264SPS_zero = \<lparr>sps_profile_idc = 0, sps_constraint_set0_flag = False, sps_constraint_set1_flag = False,
     sps_constraint_set2_flag = False, sps_constraint_set3_flag = False, sps_constraint_set4_flag = False,
     sps_constraint_set5_flag = False, sps_level_idc = 0, sps_seq_parameter_set_id = 0, sps_chroma_format_idc = 0,
     sps_separate_colour_plane_flag = False, sps_bit_depth_luma_minus8 = 0, sps_bit_depth_chroma_minus8 = 0,
     sps_qpprime_y_zero_transform_bypass_flag = False, sps_seq_scaling_matrix_present_flag = False,
     sps_scaling_list4x4 = replicate 6 (replicate 16 0), sps_scaling_list8x8 = replicate 6 (replicate 64 0),
     sps_log2_max_frame_num_minus4 = 0, sps_pic_order_cnt_type = 0, sps_log2_max_pic_order_cnt_lsb_minus4 = 0,
     sps_delta_pic_order_always_zero_flag = False, sps_offset_for_non_ref_pic = 0,
     sps_offset_for_top_to_bottom_field = 0, sps_num_ref_frames_in_pic_order_cnt_cycle = 0,
     sps_expected_delta_per_pic_order_cnt_cycle = 0, sps_offset_for_ref_frame = replicate 255 0,
     sps_max_num_ref_frames = 0, sps_gaps_in_frame_num_value_allowed_flag = False, sps_pic_width_in_mbs_minus1 = 0,
     sps_pic_height_in_map_units_minus1 = 0, sps_frame_mbs_only_flag = False, sps_mb_adaptive_frame_field_flag =
     False, sps_direct_8x8_inference_flag = False, sps_frame_cropping_flag = False, sps_frame_crop_left_offset = 0,
     sps_frame_crop_right_offset = 0, sps_frame_crop_top_offset = 0, sps_frame_crop_bottom_offset = 0,
     sps_vui_parameters_present_flag = False, sps_sar_width = 0, sps_sar_height = 0, sps_bitstream_restriction_flag
     = False, sps_max_num_reorder_frames = 0, sps_max_dec_frame_buffering = 0, sps_video_signal_type_present_flag =
     False, sps_video_format = 0, sps_video_full_range_flag = False, sps_colour_description_present_flag = False,
     sps_colour_primaries = 0, sps_transfer_characteristics = 0, sps_matrix_coefficients = 0, sps_chroma_array_type
     = 0\<rparr>"

definition H264PPS_zero :: h264_pps where
  "H264PPS_zero = \<lparr>pps_pic_parameter_set_id = 0, pps_seq_parameter_set_id = 0, pps_entropy_coding_mode_flag = False,
     pps_bottom_field_pic_order_in_frame_present_flag = False, pps_num_slice_groups_minus1 = 0,
     pps_num_ref_idx_l0_default_active_minus1 = 0, pps_num_ref_idx_l1_default_active_minus1 = 0,
     pps_weighted_pred_flag = False, pps_weighted_bipred_idc = 0, pps_pic_init_qp_minus26 = 0,
     pps_pic_init_qs_minus26 = 0, pps_chroma_qp_index_offset = 0, pps_deblocking_filter_control_present_flag =
     False, pps_constrained_intra_pred_flag = False, pps_redundant_pic_cnt_present_flag = False,
     pps_transform_8x8_mode_flag = False, pps_pic_scaling_matrix_present_flag = False, pps_scaling_list4x4 =
     replicate 6 (replicate 16 0), pps_scaling_list8x8 = replicate 6 (replicate 64 0),
     pps_second_chroma_qp_index_offset = 0\<rparr>"

definition weighting_factors_zero :: h264_weighting_factors where
  "weighting_factors_zero = \<lparr>wf_luma_weight_flag = False, wf_chroma_weight_flag = False, wf_luma_weight = replicate 32 0,
     wf_luma_offset = replicate 32 0, wf_chroma_weight = replicate 32 [0, 0], wf_chroma_offset = replicate 32 [0, 0]\<rparr>"

definition ref_pic_marking_zero :: h264_ref_pic_marking where
  "ref_pic_marking_zero = \<lparr>rpm_memory_mgmnt_control_operation = 0, rpm_difference_of_pic_nums_minus1 = 0,
     rpm_long_term_pic_num = 0, rpm_long_term_frame_idx = 0, rpm_max_long_term_frame_idx_plus1 = 0\<rparr>"

definition H264SliceHeader_zero :: h264_slice_header where
  "H264SliceHeader_zero = \<lparr>sh_idr_pic_flag = False, sh_nal_ref_idc = 0, sh_nalu_data = 0, sh_nalu_size = 0, sh_header_bit_size = 0,
     sh_first_mb_in_slice = 0, sh_slice_type = 0, sh_pic_parameter_set_id = 0, sh_colour_plane_id = 0, sh_frame_num
     = 0, sh_field_pic_flag = False, sh_bottom_field_flag = False, sh_idr_pic_id = 0, sh_pic_order_cnt_lsb = 0,
     sh_delta_pic_order_cnt_bottom = 0, sh_delta_pic_order_cnt0 = 0, sh_delta_pic_order_cnt1 = 0,
     sh_redundant_pic_cnt = 0, sh_direct_spatial_mv_pred_flag = False, sh_num_ref_idx_active_override_flag = False,
     sh_num_ref_idx_l0_active_minus1 = 0, sh_num_ref_idx_l1_active_minus1 = 0, sh_ref_pic_list_modification_flag_l0
     = False, sh_ref_pic_list_modification_flag_l1 = False, sh_ref_list_l0_modifications = replicate 32
     \<lparr>mod_modification_of_pic_nums_idc = 0, mod_value = 0\<rparr>, sh_ref_list_l1_modifications = replicate
     32 \<lparr>mod_modification_of_pic_nums_idc = 0, mod_value = 0\<rparr>, sh_luma_log2_weight_denom = 0,
     sh_chroma_log2_weight_denom = 0, sh_pred_weight_table_l0 = weighting_factors_zero, sh_pred_weight_table_l1 =
     weighting_factors_zero, sh_no_output_of_prior_pics_flag = False, sh_long_term_reference_flag = False,
     sh_adaptive_ref_pic_marking_mode_flag = False, sh_ref_pic_marking = replicate 32 ref_pic_marking_zero,
     sh_cabac_init_idc = 0, sh_slice_qp_delta = 0, sh_sp_for_switch_flag = False, sh_slice_qs_delta = 0,
     sh_disable_deblocking_filter_idc = 0, sh_slice_alpha_c0_offset_div2 = 0, sh_slice_beta_offset_div2 = 0,
     sh_dec_ref_pic_marking_bit_size = 0, sh_pic_order_cnt_bit_size = 0\<rparr>"

definition IsPSlice :: "h264_slice_header \<Rightarrow> bool" where
  "IsPSlice sh \<longleftrightarrow> sh_slice_type sh mod 5 = 0"

definition IsBSlice :: "h264_slice_header \<Rightarrow> bool" where
  "IsBSlice sh \<longleftrightarrow> sh_slice_type sh mod 5 = 1"

definition IsISlice :: "h264_slice_header \<Rightarrow> bool" where
  "IsISlice sh \<longleftrightarrow> sh_slice_type sh mod 5 = 2"

definition IsSPSlice :: "h264_slice_header \<Rightarrow> bool" where
  "IsSPSlice sh \<longleftrightarrow> sh_slice_type sh mod 5 = 3"

definition IsSISlice :: "h264_slice_header \<Rightarrow> bool" where
  "IsSISlice sh \<longleftrightarrow> sh_slice_type sh mod 5 = 4"

subsection \<open>Values computed from a parameter set\<close>

definition GetLevelConfigFromProfileLevel :: "video_codec_profile \<Rightarrow> int \<Rightarrow> bool \<Rightarrow> int \<times> bool" where
  "GetLevelConfigFromProfileLevel profile level constraint_set3_flag =
     (if (profile = H264PROFILE_BASELINE \<or> profile = H264PROFILE_MAIN) \<and> level = kLevelIDC1B then (11, True)
      else (level, constraint_set3_flag))"

definition GetCodedSize :: "h264_sps \<Rightarrow> (int \<times> int) option" where
  "GetCodedSize sps =
     (let mb_unit = 16;
          map_unit = (if sps_frame_mbs_only_flag sps then 16 else 32);
          max_mb_minus1 = int_max div mb_unit - 1;
          max_map_units_minus1 = int_max div map_unit - 1
      in if sps_pic_width_in_mbs_minus1 sps > max_mb_minus1 \<or>
            sps_pic_height_in_map_units_minus1 sps > max_map_units_minus1 then None
         else Some (mb_unit * (sps_pic_width_in_mbs_minus1 sps + 1),
                map_unit * (sps_pic_height_in_map_units_minus1 sps + 1)))"

text \<open>A rectangle is its position and its size.\<close>

definition GetVisibleRect :: "h264_sps \<Rightarrow> ((int \<times> int) \<times> (int \<times> int)) option" where
  "GetVisibleRect sps =
     (case GetCodedSize sps of
        None \<Rightarrow> None
      | Some (width, height) \<Rightarrow>
          if \<not> sps_frame_cropping_flag sps then Some ((0, 0), (width, height))
          else
            let field_factor = (if sps_frame_mbs_only_flag sps then 1 else 2);
                (crop_unit_x, crop_unit_y) =
                  (if sps_chroma_array_type sps = 0 then (1, field_factor)
                   else (if sps_chroma_format_idc sps > 2 then 1 else 2,
                         (if sps_chroma_format_idc sps > 1 then 1 else 2) * field_factor))
            in if width div crop_unit_x < sps_frame_crop_left_offset sps \<or>
                  width div crop_unit_x < sps_frame_crop_right_offset sps \<or>
                  height div crop_unit_y < sps_frame_crop_top_offset sps \<or>
                  height div crop_unit_y < sps_frame_crop_bottom_offset sps then None
               else
                 let crop_left = crop_unit_x * sps_frame_crop_left_offset sps;
                     crop_right = crop_unit_x * sps_frame_crop_right_offset sps;
                     crop_top = crop_unit_y * sps_frame_crop_top_offset sps;
                     crop_bottom = crop_unit_y * sps_frame_crop_bottom_offset sps
                 in if width - crop_left \<le> crop_right \<or> height - crop_top \<le> crop_bottom then None
                    else Some ((crop_left, crop_top), (width - crop_left - crop_right, height - crop_top - crop_bottom)))"

text \<open>The colour space as its primaries, transfer, matrix and full range; \<open>None\<close> is unspecified.\<close>

definition GetColorSpace :: "h264_sps \<Rightarrow> (int \<times> int \<times> int \<times> bool) option" where
  "GetColorSpace sps =
     (if sps_colour_description_present_flag sps
      then Some (sps_colour_primaries sps, sps_transfer_characteristics sps, sps_matrix_coefficients sps,
        sps_video_full_range_flag sps)
      else None)"

definition GetIndicatedLevel :: "h264_sps \<Rightarrow> int option" where
  "GetIndicatedLevel sps =
     (if (sps_profile_idc sps = 66 \<or> sps_profile_idc sps = 77) \<and> sps_level_idc sps = 11 \<and> sps_constraint_set3_flag sps
      then Some kLevelIDC1B
      else if 0 \<le> sps_level_idc sps \<and> sps_level_idc sps \<le> 255 then Some (sps_level_idc sps) else None)"

definition CheckIndicatedLevelWithinTarget :: "int \<Rightarrow> h264_sps \<Rightarrow> bool option" where
  "CheckIndicatedLevelWithinTarget target_level sps =
     map_option (\<lambda>level.
       if target_level = kLevelIDC1p0 then level = kLevelIDC1p0
       else if target_level = kLevelIDC1B then level = kLevelIDC1p0 \<or> level = kLevelIDC1B
       else level \<le> target_level) (GetIndicatedLevel sps)"

definition ProfileIDCToVideoCodecProfile :: "int \<Rightarrow> video_codec_profile" where
  "ProfileIDCToVideoCodecProfile profile_idc =
     (if profile_idc = 66 then H264PROFILE_BASELINE
      else if profile_idc = 77 then H264PROFILE_MAIN
      else if profile_idc = 100 then H264PROFILE_HIGH
      else if profile_idc = 110 then H264PROFILE_HIGH10PROFILE
      else if profile_idc = 122 then H264PROFILE_HIGH422PROFILE
      else if profile_idc = 244 then H264PROFILE_HIGH444PREDICTIVEPROFILE
      else if profile_idc = 83 then H264PROFILE_SCALABLEBASELINE
      else if profile_idc = 86 then H264PROFILE_SCALABLEHIGH
      else if profile_idc = 128 then H264PROFILE_STEREOHIGH
      else if profile_idc = 118 then H264PROFILE_MULTIVIEWHIGH
      else VIDEO_CODEC_PROFILE_UNKNOWN)"

section \<open>Finding NAL units\<close>

definition IsStartCode :: "u8 list \<Rightarrow> bool" where
  "IsStartCode bytes \<longleftrightarrow> take 3 bytes = [0, 0, 1]"

text \<open>The search from a position, \<open>memchr\<close> being the length of the bytes before the next 1.\<close>

function find_start_code_from :: "u8 list \<Rightarrow> nat \<Rightarrow> bool \<times> nat \<times> nat" where
  "find_start_code_from bytes p =
     (if length bytes - p \<ge> 3 then
        let k = length (takeWhile (\<lambda>b. b \<noteq> 1) (drop (p + 2) bytes)) in
        if p + 2 + k = length bytes then (False, length bytes - 2, 0)
        else
          let p = p + k in
          if IsStartCode (drop p bytes) then
            (if p > 0 \<and> bytes ! (p - 1) = 0 then (True, p - 1, 4) else (True, p, 3))
          else find_start_code_from bytes (p + 1)
      else (False, p, 0))"
  by pat_completeness auto
termination by (relation "measure (\<lambda>(bytes, p). length bytes - p)") auto

declare find_start_code_from.simps [simp del]

text \<open>Whether a start code was found, its offset, and its size.\<close>

definition FindStartCode :: "u8 list \<Rightarrow> bool \<times> nat \<times> nat" where
  "FindStartCode bytes = find_start_code_from bytes 0"

lemma find_start_code_from_found: "find_start_code_from bytes p = (True, q, n) \<Longrightarrow> 3 \<le> length bytes - p"
  by (subst (asm) find_start_code_from.simps) (simp split: if_splits)

lemma find_start_code_from_bounds:
  "find_start_code_from bytes p = (True, q, n) \<Longrightarrow> q + n \<le> length bytes \<and> 3 \<le> n"
proof (induction bytes p rule: find_start_code_from.induct)
  case (1 bytes p)
  define k where "k = length (takeWhile (\<lambda>b. b \<noteq> 1) (drop (p + 2) bytes))"
  note step = find_start_code_from.simps [of bytes p, folded k_def]
  have long: "3 \<le> length bytes - p" by (rule find_start_code_from_found [OF "1.prems"])
  have k: "p + 2 + k \<le> length bytes" unfolding k_def using length_takeWhile_le [of "\<lambda>b. b \<noteq> 1" "drop (p + 2) bytes"] long by simp
  have later: "p + 2 + k \<noteq> length bytes" using "1.prems" unfolding step by (auto simp: Let_def split: if_splits)
  show ?case
  proof (cases "IsStartCode (drop (p + k) bytes)")
    case True
    then have "3 \<le> length (drop (p + k) bytes)"
      using length_take [of 3 "drop (p + k) bytes"] unfolding IsStartCode_def by simp
    then have "p + k + 3 \<le> length bytes" using k long by simp
    then show ?thesis using "1.prems" True long later k unfolding step
      by (auto simp: Let_def split: if_splits)
  next
    case False
    then have "find_start_code_from bytes (p + k + 1) = (True, q, n)"
      using "1.prems" long later unfolding step by (simp add: Let_def)
    then show ?thesis by (intro "1.IH" [OF long k_def later refl False])
  qed
qed

lemma FindStartCode_bounds: "FindStartCode bytes = (True, q, n) \<Longrightarrow> q + n \<le> length bytes \<and> 3 \<le> n"
  unfolding FindStartCode_def by (rule find_start_code_from_bounds)

text \<open>The search from the data at a position, skipping what touches an encrypted range.\<close>

function find_in_clear :: "nat \<Rightarrow> u8 list \<Rightarrow> int ranges \<Rightarrow> nat \<Rightarrow> bool \<times> nat \<times> nat" where
  "find_in_clear position bytes encrypted_ranges start =
     (let bytes_left = length bytes - start in
      case FindStartCode (drop start bytes) of
        (False, offset, code_size) \<Rightarrow> (False, offset, code_size)
      | (True, offset, code_size) \<Rightarrow>
          let start_code = int position + int start + int offset;
              start_code_range = fst (Ranges_Add start_code (start_code + int code_size + 1) [])
          in if Ranges_size (Ranges_IntersectionWith encrypted_ranges start_code_range) > 0
             then find_in_clear position bytes encrypted_ranges (start + min (offset + 1) bytes_left)
             else (True, start + offset, code_size))"
  by pat_completeness auto
termination
  by (relation "measure (\<lambda>(position, bytes, ranges, start). length bytes - start)")
    (auto simp: FindStartCode_def dest!: find_start_code_from_found [OF sym])

declare find_in_clear.simps [simp del]

definition FindStartCodeInClearRanges :: "nat \<Rightarrow> u8 list \<Rightarrow> int ranges \<Rightarrow> bool \<times> nat \<times> nat" where
  "FindStartCodeInClearRanges position bytes encrypted_ranges =
     (if Ranges_size encrypted_ranges = 0 then FindStartCode bytes
      else find_in_clear position bytes encrypted_ranges 0)"

datatype h264_result = kOk | kInvalidStream | kUnsupportedStream | kEOStream

record subsample_entry =
  ss_clear_bytes :: nat
  ss_cypher_bytes :: nat

record h264_parser =
  hp_buffer :: "u8 list"
  hp_stream :: nat
  hp_bytes_left :: nat
  hp_br :: h264_reader
  hp_active_SPSes :: "int \<Rightarrow> h264_sps option"
  hp_active_PPSes :: "int \<Rightarrow> h264_pps option"
  hp_encrypted_ranges :: "int ranges"
  hp_previous_nalu_range :: "int ranges"

definition H264Parser_Reset :: "h264_parser \<Rightarrow> h264_parser" where
  "H264Parser_Reset p = p\<lparr>hp_stream := 0, hp_bytes_left := 0, hp_encrypted_ranges := [], hp_previous_nalu_range := []\<rparr>"

definition H264Parser_init :: h264_parser where
  "H264Parser_init = H264Parser_Reset
     \<lparr>hp_buffer = [], hp_stream = 0, hp_bytes_left = 0, hp_br = H264BitReader_init, hp_active_SPSes = \<lambda>_. None,
      hp_active_PPSes = \<lambda>_. None, hp_encrypted_ranges = [], hp_previous_nalu_range = []\<rparr>"

text \<open>\<open>Add\<close> checks that the range is not reversed.\<close>

fun add_encrypted :: "subsample_entry list \<Rightarrow> nat \<Rightarrow> nat \<Rightarrow> int ranges \<Rightarrow> int ranges option" where
  "add_encrypted [] start stream_end rs = Some rs"
| "add_encrypted (s # ss) start stream_end rs =
     (if start < stream_end then
        let start = start + ss_clear_bytes s;
            fin = min (start + ss_cypher_bytes s) stream_end
        in if start > fin then None
           else add_encrypted ss fin stream_end (fst (Ranges_Add (int start) (int fin) rs))
      else Some rs)"

definition SetEncryptedStream :: "u8 list \<Rightarrow> subsample_entry list \<Rightarrow> h264_parser \<Rightarrow> h264_parser option" where
  "SetEncryptedStream stream subsamples p =
     (if \<not> length stream > 0 then None
      else map_option (\<lambda>rs. p\<lparr>hp_buffer := stream, hp_stream := 0, hp_bytes_left := length stream,
             hp_previous_nalu_range := [], hp_encrypted_ranges := rs\<rparr>)
        (add_encrypted subsamples 0 (length stream) []))"

definition SetStream :: "u8 list \<Rightarrow> h264_parser \<Rightarrow> h264_parser option" where
  "SetStream stream p = SetEncryptedStream stream [] p"

definition GetPPS :: "int \<Rightarrow> h264_parser \<Rightarrow> h264_pps option" where
  "GetPPS pps_id p = hp_active_PPSes p pps_id"

definition GetSPS :: "int \<Rightarrow> h264_parser \<Rightarrow> h264_sps option" where
  "GetSPS sps_id p = hp_active_SPSes p sps_id"

text \<open>The unread bytes of the stream.\<close>

definition stream_bytes :: "h264_parser \<Rightarrow> u8 list" where
  "stream_bytes p = take (hp_bytes_left p) (drop (hp_stream p) (hp_buffer p))"

text \<open>The sizes of the NAL unit and of its start code, if there is one.\<close>

definition LocateNALU :: "h264_parser \<Rightarrow> (nat \<times> nat) option \<times> h264_parser" where
  "LocateNALU p =
     (case FindStartCodeInClearRanges (hp_stream p) (stream_bytes p) (hp_encrypted_ranges p) of
        (False, _) \<Rightarrow> (None, p)
      | (True, nalu_start_off, annexb_start_code_size) \<Rightarrow>
          let p = p\<lparr>hp_stream := hp_stream p + nalu_start_off, hp_bytes_left := hp_bytes_left p - nalu_start_off\<rparr>;
              nalu_data = drop annexb_start_code_size (stream_bytes p)
          in if nalu_data = [] then (None, p)
             else
               let nalu_size_without_start_code =
                 (case FindStartCodeInClearRanges (hp_stream p + annexb_start_code_size) nalu_data (hp_encrypted_ranges p) of
                    (True, n, _) \<Rightarrow> n
                  | (False, _) \<Rightarrow> length nalu_data)
               in (Some (nalu_size_without_start_code + annexb_start_code_size, annexb_start_code_size), p))"

definition nalu_zero :: h264_nalu where
  "nalu_zero = \<lparr>na_data = 0, na_bytes = [], na_nal_ref_idc = 0, na_nal_unit_type = 0\<rparr>"

definition end_of_stream :: "h264_parser \<Rightarrow> h264_parser" where
  "end_of_stream p = p\<lparr>hp_stream := 0, hp_bytes_left := 0\<rparr>"

definition AdvanceToNextNALU :: "h264_parser \<Rightarrow> h264_result \<times> h264_nalu \<times> h264_parser" where
  "AdvanceToNextNALU p =
     (case LocateNALU p of
        (None, p) \<Rightarrow> (kEOStream, nalu_zero, end_of_stream p)
      | (Some (nalu_size_with_start_code, start_code_size), p) \<Rightarrow>
          let nalu = nalu_zero\<lparr>na_data := hp_stream p + start_code_size,
                na_bytes := take (nalu_size_with_start_code - start_code_size) (drop start_code_size (stream_bytes p))\<rparr>;
              (ok, br) = H264BitReader_Initialize (na_bytes nalu) (hp_br p)
          in if \<not> ok then (kEOStream, nalu, end_of_stream (p\<lparr>hp_br := br\<rparr>))
             else
               let p = p\<lparr>hp_stream := hp_stream p + nalu_size_with_start_code,
                     hp_bytes_left := hp_bytes_left p - nalu_size_with_start_code\<rparr>;
                   (zero_bit, br) = ReadBits_body 1 br
               in if zero_bit \<noteq> Some 0 then (kInvalidStream, nalu, p\<lparr>hp_br := br\<rparr>)
                  else case ReadBits_body 2 br of
                    (None, br) \<Rightarrow> (kInvalidStream, nalu, p\<lparr>hp_br := br\<rparr>)
                  | (Some ref_idc, br) \<Rightarrow>
                      let nalu = nalu\<lparr>na_nal_ref_idc := ref_idc\<rparr> in
                      (case ReadBits_body 5 br of
                         (None, br) \<Rightarrow> (kInvalidStream, nalu, p\<lparr>hp_br := br\<rparr>)
                       | (Some unit_type, br) \<Rightarrow>
                           (kOk, nalu\<lparr>na_nal_unit_type := unit_type\<rparr>,
                            p\<lparr>hp_br := br, hp_previous_nalu_range :=
                              fst (Ranges_Add (int (na_data nalu)) (int (na_data nalu) + int (length (na_bytes nalu))) [])\<rparr>)))"

lemma find_in_clear_bounds:
  "find_in_clear position bytes rs start = (True, q, n) \<Longrightarrow> start \<le> length bytes \<Longrightarrow> q + n \<le> length bytes \<and> 3 \<le> n"
proof (induction position bytes rs start rule: find_in_clear.induct)
  case (1 position bytes rs start)
  obtain found k c where f: "FindStartCode (drop start bytes) = (found, k, c)" by (cases "FindStartCode (drop start bytes)") auto
  have found: "found = True" using "1.prems"(1) f by (subst (asm) find_in_clear.simps) (cases found, simp_all add: Let_def)
  have b: "k + c \<le> length bytes - start" "3 \<le> c" using FindStartCode_bounds [of "drop start bytes" k c] f found by auto
  let ?range = "fst (Ranges_Add (int position + int start + int k) (int position + int start + int k + int c + 1) [])"
  show ?case
  proof (cases "Ranges_size (Ranges_IntersectionWith rs ?range) > 0")
    case True
    have rec: "find_in_clear position bytes rs (start + min (k + 1) (length bytes - start)) = (True, q, n)"
      using "1.prems"(1) f found True by (subst (asm) find_in_clear.simps) (simp add: Let_def)
    show ?thesis
      by (rule "1.IH" [OF refl f [symmetric] found refl refl refl True rec]) (use "1.prems"(2) in simp)
  next
    case False
    then have "q = start + k \<and> n = c" using "1.prems"(1) f found by (subst (asm) find_in_clear.simps) (simp add: Let_def)
    then show ?thesis using b "1.prems"(2) by simp
  qed
qed

lemma FindInClear_bounds:
  "FindStartCodeInClearRanges position bytes rs = (True, q, n) \<Longrightarrow> q + n \<le> length bytes \<and> 3 \<le> n"
  using FindStartCode_bounds find_in_clear_bounds [of position bytes rs 0 q n]
  by (auto simp: FindStartCodeInClearRanges_def split: if_splits)

lemma LocateNALU_advances:
  assumes "LocateNALU p = (Some (n, k), p')"
  shows "hp_bytes_left p' \<le> hp_bytes_left p" "0 < hp_bytes_left p'" "0 < n"
proof -
  obtain q c where f: "FindStartCodeInClearRanges (hp_stream p) (stream_bytes p) (hp_encrypted_ranges p) = (True, q, c)"
    using assms by (auto simp: LocateNALU_def split: prod.splits bool.splits)
  then have p': "p' = p\<lparr>hp_stream := hp_stream p + q, hp_bytes_left := hp_bytes_left p - q\<rparr>" "n \<ge> c" "stream_bytes p' \<noteq> []"
    using assms by (auto simp: LocateNALU_def Let_def split: prod.splits bool.splits if_splits)
  then show "hp_bytes_left p' \<le> hp_bytes_left p" "0 < hp_bytes_left p'" by (auto simp: stream_bytes_def)
  show "0 < n" using FindInClear_bounds [OF f] p'(2) by simp
qed

lemma Advance_decreases: "AdvanceToNextNALU p = (kOk, nalu, p') \<Longrightarrow> hp_bytes_left p' < hp_bytes_left p"
  using LocateNALU_advances [of p]
  by (fastforce simp: AdvanceToNextNALU_def Let_def split: prod.splits option.splits if_splits)

function parse_nalus_loop :: "h264_parser \<Rightarrow> h264_nalu list \<Rightarrow> bool \<times> h264_nalu list" where
  "parse_nalus_loop p nalus =
     (case AdvanceToNextNALU p of
        (kOk, nalu, p') \<Rightarrow> parse_nalus_loop p' (nalus @ [nalu])
      | (kEOStream, nalu, p') \<Rightarrow> (True, nalus)
      | (_, nalu, p') \<Rightarrow> (False, nalus))"
  by pat_completeness auto
termination by (relation "measure (\<lambda>(p, nalus). hp_bytes_left p)") (auto dest: Advance_decreases [OF sym])

declare parse_nalus_loop.simps [simp del]

definition ParseNALUs :: "u8 list \<Rightarrow> (bool \<times> h264_nalu list) option" where
  "ParseNALUs stream = map_option (\<lambda>p. parse_nalus_loop p []) (SetStream stream H264Parser_init)"

fun subsamples_of :: "int \<Rightarrow> int \<Rightarrow> int ranges \<Rightarrow> subsample_entry list option" where
  "subsamples_of cur fin [] =
     Some (if cur < fin then [\<lparr>ss_clear_bytes = nat ((fin - cur) mod 2 ^ 32), ss_cypher_bytes = 0\<rparr>] else [])"
| "subsamples_of cur fin ((s, e) # rs) =
     (if \<not> s \<ge> cur \<or> \<not> e \<le> fin then None
      else map_option (\<lambda>ss. \<lparr>ss_clear_bytes = nat ((s - cur) mod 2 ^ 32), ss_cypher_bytes = nat ((e - s) mod 2 ^ 32)\<rparr> # ss)
        (subsamples_of e fin rs))"

definition EncryptedRangesToSubsampleEntry :: "int \<Rightarrow> int \<Rightarrow> int ranges \<Rightarrow> subsample_entry list option" where
  "EncryptedRangesToSubsampleEntry start fin encrypted_ranges = subsamples_of start fin encrypted_ranges"

definition GetCurrentSubsamples :: "h264_parser \<Rightarrow> subsample_entry list option" where
  "GetCurrentSubsamples p =
     (if Ranges_size (hp_previous_nalu_range p) \<noteq> 1 then None
      else case (Ranges_start (hp_previous_nalu_range p) 0, Ranges_end (hp_previous_nalu_range p) 0) of
        (Some s, Some e) \<Rightarrow> EncryptedRangesToSubsampleEntry s e
          (Ranges_IntersectionWith (hp_encrypted_ranges p) (hp_previous_nalu_range p))
      | _ \<Rightarrow> None)"

section \<open>The first start code\<close>

lemma find_skip: "\<forall>j. p \<le> j \<and> j < q \<longrightarrow> \<not> P j \<Longrightarrow> p \<le> q \<Longrightarrow> q \<le> n \<Longrightarrow> find P [p..<n] = find P [q..<n]"
proof (induction "q - p" arbitrary: p)
  case (Suc d)
  have "[p..<n] = p # [Suc p..<n]" using Suc.hyps(2) Suc.prems(3) by (simp add: upt_conv_Cons)
  then show ?case using Suc.hyps(1) [of "Suc p"] Suc.hyps(2) Suc.prems by simp
qed simp

lemma IsStartCode_iff: "IsStartCode (drop i bytes) \<longleftrightarrow> i + 3 \<le> length bytes \<and> bytes ! i = 0 \<and> bytes ! (i + 1) = 0 \<and> bytes ! (i + 2) = 1"
proof (cases "i + 3 \<le> length bytes")
  case True
  then have "drop i bytes = bytes ! i # bytes ! (i + 1) # bytes ! (i + 2) # drop (i + 3) bytes"
    by (simp add: Cons_nth_drop_Suc [symmetric] numeral_3_eq_3)
  then show ?thesis using True by (simp add: IsStartCode_def)
next
  case False
  then have "length (take 3 (drop i bytes)) \<noteq> 3" by simp
  then show ?thesis using False by (auto simp: IsStartCode_def dest: arg_cong [of _ _ length])
qed

lemma find_none: "\<forall>j. p \<le> j \<and> j < n \<longrightarrow> \<not> P j \<Longrightarrow> find P [p..<n] = None"
  by (auto simp: find_None_iff)

lemma find_start_code_from_first:
  assumes "p + 2 \<le> length bytes"
  shows "find_start_code_from bytes p =
    (case find (\<lambda>i. IsStartCode (drop i bytes)) [p..<length bytes] of
       None \<Rightarrow> (False, length bytes - 2, 0)
     | Some i \<Rightarrow> if 0 < i \<and> bytes ! (i - 1) = 0 then (True, i - 1, 4) else (True, i, 3))"
  using assms
proof (induction bytes p rule: find_start_code_from.induct)
  case (1 bytes p)
  let ?P = "\<lambda>i. IsStartCode (drop i bytes)"
  define k where "k = length (takeWhile (\<lambda>b. b \<noteq> 1) (drop (p + 2) bytes))"
  note step = find_start_code_from.simps [of bytes p, folded k_def]
  have le: "p + 2 + k \<le> length bytes"
    using length_takeWhile_le [of "\<lambda>b. b \<noteq> 1" "drop (p + 2) bytes"] "1.prems" by (simp add: k_def)
  have no_one: "bytes ! (p + 2 + j) \<noteq> 1" if "j < k" for j
    using nth_mem [of j "takeWhile (\<lambda>b. b \<noteq> 1) (drop (p + 2) bytes)"] that le set_takeWhileD
    unfolding k_def by (fastforce simp: takeWhile_nth)
  have before: "\<not> ?P j" if "p \<le> j" "j < p + k" for j
    using no_one [of "j - p"] that by (auto simp: IsStartCode_iff)
  show ?case
  proof (cases "length bytes - p \<ge> 3")
    case False
    then have "find ?P [p..<length bytes] = None" by (intro find_none) (auto simp: IsStartCode_iff)
    then show ?thesis using False "1.prems" unfolding step by simp
  next
    case long: True
    show ?thesis
    proof (cases "p + 2 + k = length bytes")
      case True
      then have "find ?P [p..<length bytes] = None" by (intro find_none) (use before True in \<open>auto simp: IsStartCode_iff\<close>)
      then show ?thesis using long True unfolding step by simp
    next
      case later: False
      have skip: "find ?P [p..<length bytes] = find ?P [p + k..<length bytes]"
        using le before by (intro find_skip) auto
      have cons: "[p + k..<length bytes] = (p + k) # [p + k + 1..<length bytes]" using le later by (simp add: upt_conv_Cons)
      show ?thesis
      proof (cases "?P (p + k)")
        case True
        then show ?thesis using long later skip cons unfolding step by (simp add: Let_def)
      next
        case False
        have "p + k + 1 + 2 \<le> length bytes" using le later by simp
        then show ?thesis
          using "1.IH" [OF long k_def later refl False] long later skip cons False unfolding step by (simp add: Let_def)
      qed
    qed
  qed
qed

lemma FindStartCode_first:
  "FindStartCode bytes =
    (case find (\<lambda>i. IsStartCode (drop i bytes)) [0..<length bytes] of
       None \<Rightarrow> (False, length bytes - 2, 0)
     | Some i \<Rightarrow> if 0 < i \<and> bytes ! (i - 1) = 0 then (True, i - 1, 4) else (True, i, 3))"
proof (cases "0 + 2 \<le> length bytes")
  case True
  then show ?thesis unfolding FindStartCode_def by (rule find_start_code_from_first)
next
  case False
  then have "find (\<lambda>i. IsStartCode (drop i bytes)) [0..<length bytes] = None"
    by (intro find_none) (auto simp: IsStartCode_iff)
  then show ?thesis using False unfolding FindStartCode_def by (subst find_start_code_from.simps) simp
qed

section \<open>The NAL units of a stream\<close>

text \<open>A NAL unit that can be told from what follows: a zero at its end would belong to the next start code.\<close>

definition nalu_ok :: "u8 list \<Rightarrow> bool" where
  "nalu_ok bytes \<longleftrightarrow> bytes \<noteq> [] \<and> hd bytes < 128 \<and> last bytes \<noteq> 0 \<and> \<not> fst (FindStartCode bytes)"

definition annexb :: "u8 list list \<Rightarrow> u8 list" where
  "annexb nalus = concat (map (\<lambda>n. [0, 0, 1] @ n) nalus)"

text \<open>The NAL units of that stream, from a position on.\<close>

fun nalus_at :: "nat \<Rightarrow> u8 list list \<Rightarrow> h264_nalu list" where
  "nalus_at start [] = []"
| "nalus_at start (n # ns) =
     \<lparr>na_data = start + 3, na_bytes = n, na_nal_ref_idc = uint (hd n) div 32, na_nal_unit_type = uint (hd n) mod 32\<rparr> #
     nalus_at (start + 3 + length n) ns"

lemma FindStartCode_at:
  assumes "\<forall>j < i. \<not> IsStartCode (drop j bytes)" "IsStartCode (drop i bytes)"
  shows "FindStartCode bytes = (if 0 < i \<and> bytes ! (i - 1) = 0 then (True, i - 1, 4) else (True, i, 3))"
proof -
  have i: "i < length bytes" using assms(2) by (simp add: IsStartCode_iff)
  have "find (\<lambda>i. IsStartCode (drop i bytes)) [0..<length bytes] = find (\<lambda>i. IsStartCode (drop i bytes)) [i..<length bytes]"
    using assms(1) i by (intro find_skip) auto
  also have "\<dots> = Some i" using assms(2) i by (simp add: upt_conv_Cons)
  finally show ?thesis by (simp add: FindStartCode_first)
qed

lemma FindStartCode_annexb: "ns \<noteq> [] \<Longrightarrow> FindStartCode (annexb ns) = (True, 0, 3)"
  by (cases ns) (auto simp: FindStartCode_at [of 0] annexb_def IsStartCode_def)

lemma FindStartCode_nalu:
  assumes "nalu_ok n"
  shows "FindStartCode (n @ annexb ns) = (if ns = [] then (False, length n - 2, 0) else (True, length n, 3))"
proof -
  have none: "find (\<lambda>i. IsStartCode (drop i n)) [0..<length n] = None"
    using assms by (auto simp: nalu_ok_def FindStartCode_first split: option.splits if_splits)
  then have inside: "\<not> IsStartCode (drop j n)" if "j < length n" for j using that by (auto simp: find_None_iff)
  show ?thesis
  proof (cases "ns = []")
    case True
    then show ?thesis using none by (simp add: annexb_def FindStartCode_first)
  next
    case False
    then obtain tail where tail: "annexb ns = [0, 0, 1] @ tail" by (cases ns) (auto simp: annexb_def)
    have "\<not> IsStartCode (drop j (n @ annexb ns))" if j: "j < length n" for j
    proof (cases "j + 3 \<le> length n")
      case True
      then show ?thesis using inside [OF j] unfolding IsStartCode_iff by (auto simp: nth_append)
    next
      case False
      then have "j + 2 - length n = 0 \<or> j + 2 - length n = 1" "\<not> j + 2 < length n" using j by auto
      then show ?thesis unfolding IsStartCode_iff by (auto simp: nth_append tail)
    qed
    moreover have "IsStartCode (drop (length n) (n @ annexb ns))" by (simp add: tail IsStartCode_def)
    moreover have "(n @ annexb ns) ! (length n - 1) \<noteq> 0"
      using assms by (auto simp: nalu_ok_def nth_append last_conv_nth)
    ultimately show ?thesis using False assms by (subst FindStartCode_at [of "length n"]) (auto simp: nalu_ok_def)
  qed
qed

lemma nalu_header_bits:
  assumes "hd n < 128" "n \<noteq> []" "hr_remaining r \<le> 8" "reader_bits r = byte_bits (rbsp_of 0 n)"
  shows "\<exists>r1 r2 r3. ReadBits_body 1 r = (Some 0, r1) \<and> ReadBits_body 2 r1 = (Some (uint (hd n) div 32), r2) \<and>
    ReadBits_body 5 r2 = (Some (uint (hd n) mod 32), r3)"
proof -
  obtain b bs where n: "n = b # bs" using assms(2) by (cases n) auto
  let ?m = "msb_bits b"
  define rest where "rest = byte_bits (rbsp_of (if b = 0 then 0 + 1 else 0) bs)"
  have "drop 1 ?m = take 2 (drop 1 ?m) @ drop 3 ?m" by (subst append_take_drop_id [of 2 "drop 1 ?m", symmetric]) simp
  then have "?m = take 1 ?m @ take 2 (drop 1 ?m) @ drop 3 ?m" using append_take_drop_id [of 1 ?m] by simp
  moreover have "reader_bits r = ?m @ rest" using assms(4) n by (simp add: rest_def)
  ultimately have bits: "reader_bits r = take 1 ?m @ take 2 (drop 1 ?m) @ drop 3 ?m @ rest" by (metis append.assoc)
  have val: "uint b = int (bits_nat ?m)" by (rule uint_byte)
  have b: "bits_nat ?m < 128" using assms(1) n val by (simp add: word_less_def)
  have "bits_nat (take 1 ?m) = 0" using bits_nat_div [of ?m 7] b by simp
  moreover have "take 3 ?m = take 1 ?m @ take 2 (drop 1 ?m)" using take_add [of 1 2 ?m] by (simp add: numeral_3_eq_3)
  moreover have "bits_nat (drop 3 ?m) = bits_nat ?m mod 32"
    using bits_nat_mod [of "drop 3 ?m" 5 "take 3 ?m"] by (simp only: append_take_drop_id) simp
  ultimately have parts: "bits_nat (take 1 ?m) = 0" "bits_nat (take 2 (drop 1 ?m)) = bits_nat ?m div 32"
    "bits_nat (drop 3 ?m) = bits_nat ?m mod 32"
    using bits_nat_div [of ?m 5] bits_nat_append [of "take 1 ?m" "take 2 (drop 1 ?m)"] by simp_all
  obtain r1 where r1: "ReadBits_body 1 r = (Some 0, r1)" "hr_remaining r1 \<le> 8" "reader_bits r1 = take 2 (drop 1 ?m) @ drop 3 ?m @ rest"
    using ReadBits_some [OF assms(3) bits, of 1] parts(1) by auto
  obtain r2 where r2: "ReadBits_body 2 r1 = (Some (uint b div 32), r2)" "hr_remaining r2 \<le> 8" "reader_bits r2 = drop 3 ?m @ rest"
    using ReadBits_some [OF r1(2,3), of 2] parts(2) val by (auto simp: zdiv_int)
  obtain r3 where "ReadBits_body 5 r2 = (Some (uint b mod 32), r3)"
    using ReadBits_some [OF r2(2,3), of 5] parts(3) val by (auto simp: zmod_int)
  then show ?thesis using r1(1) r2(1) n by auto
qed

lemma Advance_annexb:
  assumes "stream_bytes p = annexb (n # ns)" "hp_encrypted_ranges p = []" "nalu_ok n"
  shows "\<exists>p'. AdvanceToNextNALU p = (kOk, hd (nalus_at (hp_stream p) [n]), p') \<and> stream_bytes p' = annexb ns \<and>
    hp_encrypted_ranges p' = [] \<and> hp_stream p' = hp_stream p + 3 + length n"
proof -
  have bytes: "stream_bytes p = [0, 0, 1] @ n @ annexb ns" using assms(1) by (simp add: annexb_def)
  have clear: "FindStartCodeInClearRanges position data (hp_encrypted_ranges p) = FindStartCode data" for position data
    using assms(2) by (simp add: FindStartCodeInClearRanges_def Ranges_size_def)
  have n: "n \<noteq> []" "hd n < 128" using assms(3) by (simp_all add: nalu_ok_def)
  have loc: "LocateNALU p = (Some (length n + 3, 3), p)"
    using FindStartCode_annexb [of "n # ns"] FindStartCode_nalu [OF assms(3), of ns] n
    unfolding LocateNALU_def clear by (simp add: assms(1) [symmetric]) (simp add: bytes clear annexb_def)
  obtain r0 where r0: "H264BitReader_Initialize n (hp_br p) = (True, r0)" "hr_remaining r0 \<le> 8" "reader_bits r0 = byte_bits (rbsp_of 0 n)"
    using Initialize_bits [OF n(1)] by blast
  obtain r1 r2 r3 where rs: "ReadBits_body 1 r0 = (Some 0, r1)" "ReadBits_body 2 r1 = (Some (uint (hd n) div 32), r2)"
    "ReadBits_body 5 r2 = (Some (uint (hd n) mod 32), r3)"
    using nalu_header_bits [OF n(2,1) r0(2,3)] by blast
  let ?p = "p\<lparr>hp_stream := hp_stream p + (length n + 3), hp_bytes_left := hp_bytes_left p - (length n + 3)\<rparr>"
  let ?p' = "?p\<lparr>hp_br := r3, hp_previous_nalu_range :=
    fst (Ranges_Add (int (hp_stream p + 3)) (int (hp_stream p + 3) + int (length n)) [])\<rparr>"
  have data: "take (length n + 3 - 3) (drop 3 (stream_bytes p)) = n" by (simp add: bytes)
  have "AdvanceToNextNALU p = (kOk, hd (nalus_at (hp_stream p) [n]), ?p')"
    unfolding AdvanceToNextNALU_def loc option.case prod.case Let_def data
    by (simp add: r0(1) rs nalu_zero_def del: One_nat_def)
  moreover have "stream_bytes ?p' = drop (length n + 3) (stream_bytes p)" by (simp add: stream_bytes_def drop_take add.commute)
  moreover have "drop (length n + 3) (stream_bytes p) = annexb ns" unfolding bytes by (simp add: numeral_3_eq_3)
  ultimately show ?thesis using assms(2) by simp
qed

lemma parse_nalus_annexb:
  assumes "\<forall>n\<in>set ns. nalu_ok n" "stream_bytes p = annexb ns" "hp_encrypted_ranges p = []"
  shows "parse_nalus_loop p nalus = (True, nalus @ nalus_at (hp_stream p) ns)"
  using assms
proof (induction ns arbitrary: p nalus)
  case Nil
  have "LocateNALU p = (None, p)"
    using Nil.prems by (simp add: LocateNALU_def FindStartCodeInClearRanges_def Ranges_size_def annexb_def FindStartCode_first)
  then show ?case by (subst parse_nalus_loop.simps) (simp add: AdvanceToNextNALU_def)
next
  case (Cons n ns)
  obtain p' where p': "AdvanceToNextNALU p = (kOk, hd (nalus_at (hp_stream p) [n]), p')" "stream_bytes p' = annexb ns"
    "hp_encrypted_ranges p' = []" "hp_stream p' = hp_stream p + 3 + length n"
    using Advance_annexb [OF Cons.prems(2,3)] Cons.prems(1) by auto
  have "parse_nalus_loop p nalus = parse_nalus_loop p' (nalus @ nalus_at (hp_stream p) [n])"
    using p'(1) by (subst parse_nalus_loop.simps) simp
  also have "\<dots> = (True, (nalus @ nalus_at (hp_stream p) [n]) @ nalus_at (hp_stream p') ns)"
    using Cons.prems(1) p'(2,3) by (intro Cons.IH) simp_all
  finally show ?case using p'(4) by simp
qed

section \<open>Properties\<close>

text \<open>
  C24: \<open>FindStartCode\<close>, which looks for the bytes \<open>1\<close> first, finds the first start code of the data: its
  result is the one of a search of every position in order, the four-byte form of the start code recognised,
  or else the position of the last two bytes.
\<close>

theorem FindStartCode_finds_the_first:
  "FindStartCode bytes =
    (case find (\<lambda>i. IsStartCode (drop i bytes)) [0..<length bytes] of
       None \<Rightarrow> (False, length bytes - 2, 0)
     | Some i \<Rightarrow> if 0 < i \<and> bytes ! (i - 1) = 0 then (True, i - 1, 4) else (True, i, 3))"
  by (rule FindStartCode_first)

text \<open>
  C12: Splitting a stream is the inverse of joining NAL units with start codes: \<open>ParseNALUs\<close> gives back the
  units, in order, each at its position, with its data and the fields of its first byte, if the units are not
  empty, hold no start code, and have neither a zero as last byte nor the forbidden bit.
\<close>

theorem ParseNALUs_inverts_annexb:
  assumes "\<forall>n\<in>set ns. nalu_ok n" "ns \<noteq> []"
  shows "ParseNALUs (annexb ns) = Some (True, nalus_at 0 ns)"
proof -
  have len: "0 < length (annexb ns)" using assms(2) by (cases ns) (auto simp: annexb_def)
  then have "ParseNALUs (annexb ns) = Some (parse_nalus_loop (H264Parser_init\<lparr>hp_buffer := annexb ns, hp_stream := 0,
      hp_bytes_left := length (annexb ns), hp_previous_nalu_range := [], hp_encrypted_ranges := []\<rparr>) [])"
    by (simp add: ParseNALUs_def SetStream_def SetEncryptedStream_def)
  also have "\<dots> = Some (True, [] @ nalus_at 0 ns)"
    by (subst parse_nalus_annexb [OF assms(1)]) (simp_all add: stream_bytes_def)
  finally show ?thesis by simp
qed

theorem ParseNALUs_inverts_annexb_witness:
  "ParseNALUs (annexb [[101, 0, 0, 3, 1, 128], [9, 240]]) = Some (True, nalus_at 0 [[101, 0, 0, 3, 1, 128], [9, 240]])"
  by (rule ParseNALUs_inverts_annexb) (simp_all add: nalu_ok_def, code_simp+)

text \<open>A subsample whose clear bytes reach past the stream makes a reversed range, which \<open>Add\<close> does not accept.\<close>

lemma SetEncryptedStream_clear_past_end:
  "SetEncryptedStream [0, 0, 1] [\<lparr>ss_clear_bytes = 4, ss_cypher_bytes = 0\<rparr>] H264Parser_init = None"
  by code_simp

end
