(* ===== verification/H264_Parser.thy ===== *)
theory H264_Parser
  imports H264_Nalu
begin

text \<open>
  The parse functions of \<open>H264Parser\<close> (\<open>video/h264_parser.cc\<close>) for parameter sets, slice headers and SEI
  messages.

  The macros that read or return are functions that take the rest of the code; what a parse function
  leaves through them is a \<open>Return\<close>, and a failed check or an access out of bounds is \<open>Fault\<close>. What a
  failed parse has written to its output is not modelled: no caller reads it.
\<close>

section \<open>Parsing\<close>

datatype 'a h264_outcome = Fault | Return h264_result h264_reader | Done 'a h264_reader

definition READ_BITS_OR_RETURN :: "nat \<Rightarrow> h264_reader \<Rightarrow> (int \<Rightarrow> h264_reader \<Rightarrow> 'a h264_outcome) \<Rightarrow> 'a h264_outcome" where
  "READ_BITS_OR_RETURN num_bits r k =
     (case H264_ReadBits num_bits r of
        None \<Rightarrow> Fault
      | Some (None, r) \<Rightarrow> Return kInvalidStream r
      | Some (Some v, r) \<Rightarrow> k v r)"

definition READ_BOOL_OR_RETURN :: "h264_reader \<Rightarrow> (bool \<Rightarrow> h264_reader \<Rightarrow> 'a h264_outcome) \<Rightarrow> 'a h264_outcome" where
  "READ_BOOL_OR_RETURN r k =
     (case ReadBits_body 1 r of (None, r) \<Rightarrow> Return kInvalidStream r | (Some v, r) \<Rightarrow> k (v \<noteq> 0) r)"

definition READ_UE_OR_RETURN :: "h264_reader \<Rightarrow> (int \<Rightarrow> h264_reader \<Rightarrow> 'a h264_outcome) \<Rightarrow> 'a h264_outcome" where
  "READ_UE_OR_RETURN r k =
     (case ReadUE r of (None, r) \<Rightarrow> Return kInvalidStream r | (Some v, r) \<Rightarrow> k v r)"

definition READ_SE_OR_RETURN :: "h264_reader \<Rightarrow> (int \<Rightarrow> h264_reader \<Rightarrow> 'a h264_outcome) \<Rightarrow> 'a h264_outcome" where
  "READ_SE_OR_RETURN r k =
     (case ReadSE r of (None, r) \<Rightarrow> Return kInvalidStream r | (Some v, r) \<Rightarrow> k v r)"

definition TRUE_OR_RETURN :: "bool \<Rightarrow> h264_reader \<Rightarrow> 'a h264_outcome \<Rightarrow> 'a h264_outcome" where
  "TRUE_OR_RETURN b r k = (if \<not> b then Return kInvalidStream r else k)"

definition IN_RANGE_OR_RETURN :: "int \<Rightarrow> int \<Rightarrow> int \<Rightarrow> h264_reader \<Rightarrow> 'a h264_outcome \<Rightarrow> 'a h264_outcome" where
  "IN_RANGE_OR_RETURN val lo hi r k = (if val < lo \<or> val > hi then Return kInvalidStream r else k)"

text \<open>The call of another parse function whose failure is returned.\<close>

definition res_or_return :: "'a h264_outcome \<Rightarrow> ('a \<Rightarrow> h264_reader \<Rightarrow> 'b h264_outcome) \<Rightarrow> 'b h264_outcome" where
  "res_or_return res k =
     (case res of Fault \<Rightarrow> Fault | Return e r \<Rightarrow> Return e r | Done v r \<Rightarrow> k v r)"

definition kTableSarWidth :: "int list" where
  "kTableSarWidth = [0, 1, 12, 10, 16, 40, 24, 20, 32, 80, 18, 15, 64, 160, 4, 3, 2]"

definition kTableSarHeight :: "int list" where
  "kTableSarHeight = [0, 1, 11, 11, 11, 33, 11, 11, 11, 33, 11, 11, 33, 99, 3, 2, 1]"

definition set2 :: "nat \<Rightarrow> nat \<Rightarrow> 'a \<Rightarrow> 'a list list \<Rightarrow> 'a list list" where
  "set2 i j v xss = xss[i := (xss ! i)[j := v]]"

subsection \<open>Scaling lists\<close>

definition kDefault4x4Intra :: "int list" where
  "kDefault4x4Intra = [6, 13, 13, 20, 20, 20, 28, 28, 28, 28, 32, 32, 32, 37, 37, 42]"

definition kDefault4x4Inter :: "int list" where
  "kDefault4x4Inter = [10, 14, 14, 20, 20, 20, 24, 24, 24, 24, 27, 27, 27, 30, 30, 34]"

definition kDefault8x8Intra :: "int list" where
  "kDefault8x8Intra = [
    6,  10, 10, 13, 11, 13, 16, 16, 16, 16, 18, 18, 18, 18, 18, 23,
    23, 23, 23, 23, 23, 25, 25, 25, 25, 25, 25, 25, 27, 27, 27, 27,
    27, 27, 27, 27, 29, 29, 29, 29, 29, 29, 29, 31, 31, 31, 31, 31,
    31, 33, 33, 33, 33, 33, 36, 36, 36, 36, 38, 38, 38, 40, 40, 42]"

definition kDefault8x8Inter :: "int list" where
  "kDefault8x8Inter = [
    9,  13, 13, 15, 13, 15, 17, 17, 17, 17, 19, 19, 19, 19, 19, 21,
    21, 21, 21, 21, 21, 22, 22, 22, 22, 22, 22, 22, 24, 24, 24, 24,
    24, 24, 24, 24, 25, 25, 25, 25, 25, 25, 25, 27, 27, 27, 27, 27,
    27, 28, 28, 28, 28, 28, 30, 30, 30, 30, 32, 32, 32, 33, 33, 35]"

definition DefaultScalingList4x4 :: "nat \<Rightarrow> int list list \<Rightarrow> int list list" where
  "DefaultScalingList4x4 i scaling_list4x4 =
     (if i < 3 then scaling_list4x4[i := kDefault4x4Intra]
      else if i < 6 then scaling_list4x4[i := kDefault4x4Inter] else scaling_list4x4)"

definition DefaultScalingList8x8 :: "nat \<Rightarrow> int list list \<Rightarrow> int list list" where
  "DefaultScalingList8x8 i scaling_list8x8 =
     (if i mod 2 = 0 then scaling_list8x8[i := kDefault8x8Intra] else scaling_list8x8[i := kDefault8x8Inter])"

definition FallbackScalingList4x4 :: "nat \<Rightarrow> int list \<Rightarrow> int list \<Rightarrow> int list list \<Rightarrow> int list list" where
  "FallbackScalingList4x4 i default_intra default_inter ls =
     (if i = 0 then ls[0 := default_intra]
      else if i = 1 then ls[1 := ls ! 0]
      else if i = 2 then ls[2 := ls ! 1]
      else if i = 3 then ls[3 := default_inter]
      else if i = 4 then ls[4 := ls ! 3]
      else if i = 5 then ls[5 := ls ! 4]
      else ls)"

definition FallbackScalingList8x8 :: "nat \<Rightarrow> int list \<Rightarrow> int list \<Rightarrow> int list list \<Rightarrow> int list list" where
  "FallbackScalingList8x8 i default_intra default_inter ls =
     (if i = 0 then ls[0 := default_intra]
      else if i = 1 then ls[1 := default_inter]
      else if i = 2 then ls[2 := ls ! 0]
      else if i = 3 then ls[3 := ls ! 1]
      else if i = 4 then ls[4 := ls ! 2]
      else if i = 5 then ls[5 := ls ! 3]
      else ls)"

text \<open>The loop over the entries, with the number of those to come; the flag is \<open>use_default\<close>.\<close>

fun scaling_list_loop ::
  "nat \<Rightarrow> nat \<Rightarrow> int \<Rightarrow> int \<Rightarrow> int list \<Rightarrow> h264_reader \<Rightarrow> (bool \<times> int list) h264_outcome" where
  "scaling_list_loop j 0 last_scale next_scale scaling_list r = Done (False, scaling_list) r"
| "scaling_list_loop j (Suc n) last_scale next_scale scaling_list r =
     res_or_return
       (if next_scale \<noteq> 0 then
          READ_SE_OR_RETURN r (\<lambda>delta_scale r.
          IN_RANGE_OR_RETURN delta_scale (- 128) 127 r (
          Done ((last_scale + delta_scale + 256) AND 0xff) r))
        else Done next_scale r) (\<lambda>new_scale r.
     if next_scale \<noteq> 0 \<and> j = 0 \<and> new_scale = 0 then Done (True, scaling_list) r
     else if \<not> j < length scaling_list then Fault
     else
       let scale = (if new_scale = 0 then last_scale else new_scale) in
       scaling_list_loop (j + 1) n scale new_scale (scaling_list[j := scale]) r)"

definition ParseScalingList :: "nat \<Rightarrow> int list \<Rightarrow> h264_reader \<Rightarrow> (bool \<times> int list) h264_outcome" where
  "ParseScalingList size_of_list scaling_list r = scaling_list_loop 0 size_of_list 8 8 scaling_list r"

text \<open>The lists from \<open>i\<close> on, \<open>n\<close> of them, of \<open>len\<close> entries, with the fallbacks of an SPS or a PPS.\<close>

fun scaling_lists_loop ::
  "nat \<Rightarrow> (nat \<Rightarrow> int list list \<Rightarrow> int list list) \<Rightarrow> (nat \<Rightarrow> int list list \<Rightarrow> int list list) \<Rightarrow>
   nat \<Rightarrow> nat \<Rightarrow> int list list \<Rightarrow> h264_reader \<Rightarrow> int list list h264_outcome" where
  "scaling_lists_loop len use_default_list fallback i 0 ls r = Done ls r"
| "scaling_lists_loop len use_default_list fallback i (Suc n) ls r =
     READ_BOOL_OR_RETURN r (\<lambda>scaling_list_present_flag r.
     if \<not> i < length ls then Fault
     else
       res_or_return
         (if scaling_list_present_flag then
            res_or_return (ParseScalingList len (ls ! i) r) (\<lambda>(use_default, scaling_list) r.
            let ls = ls[i := scaling_list] in
            Done (if use_default then use_default_list i ls else ls) r)
          else Done (fallback i ls) r) (\<lambda>ls r.
       scaling_lists_loop len use_default_list fallback (i + 1) n ls r))"

definition ParseSPSScalingLists :: "h264_sps \<Rightarrow> h264_reader \<Rightarrow> h264_sps h264_outcome" where
  "ParseSPSScalingLists sps r =
     res_or_return (scaling_lists_loop 16 DefaultScalingList4x4 (\<lambda>i. FallbackScalingList4x4 i kDefault4x4Intra kDefault4x4Inter)
       0 6 (sps_scaling_list4x4 sps) r) (\<lambda>ls r.
     let sps = sps\<lparr>sps_scaling_list4x4 := ls\<rparr> in
     res_or_return (scaling_lists_loop 64 DefaultScalingList8x8 (\<lambda>i. FallbackScalingList8x8 i kDefault8x8Intra kDefault8x8Inter)
       0 (if sps_chroma_format_idc sps \<noteq> 3 then 2 else 6) (sps_scaling_list8x8 sps) r) (\<lambda>ls r.
     Done (sps\<lparr>sps_scaling_list8x8 := ls\<rparr>) r))"

definition ParsePPSScalingLists :: "h264_sps \<Rightarrow> h264_pps \<Rightarrow> h264_reader \<Rightarrow> h264_pps h264_outcome" where
  "ParsePPSScalingLists sps pps r =
     (let fallback4x4 = (\<lambda>i. if \<not> sps_seq_scaling_matrix_present_flag sps
            then FallbackScalingList4x4 i kDefault4x4Intra kDefault4x4Inter
            else FallbackScalingList4x4 i (sps_scaling_list4x4 sps ! 0) (sps_scaling_list4x4 sps ! 3));
          fallback8x8 = (\<lambda>i. if \<not> sps_seq_scaling_matrix_present_flag sps
            then FallbackScalingList8x8 i kDefault8x8Intra kDefault8x8Inter
            else FallbackScalingList8x8 i (sps_scaling_list8x8 sps ! 0) (sps_scaling_list8x8 sps ! 1)) in
      res_or_return (scaling_lists_loop 16 DefaultScalingList4x4 fallback4x4 0 6 (pps_scaling_list4x4 pps) r) (\<lambda>ls r.
      let pps = pps\<lparr>pps_scaling_list4x4 := ls\<rparr> in
      if \<not> pps_transform_8x8_mode_flag pps then Done pps r
      else
        res_or_return (scaling_lists_loop 64 DefaultScalingList8x8 fallback8x8
          0 (if sps_chroma_format_idc sps \<noteq> 3 then 2 else 6) (pps_scaling_list8x8 pps) r) (\<lambda>ls r.
        Done (pps\<lparr>pps_scaling_list8x8 := ls\<rparr>) r)))"

definition FillDefaultSeqScalingLists :: "h264_sps \<Rightarrow> h264_sps" where
  "FillDefaultSeqScalingLists sps =
     sps\<lparr>sps_scaling_list4x4 := replicate 6 (replicate 16 16), sps_scaling_list8x8 := replicate 6 (replicate 64 16)\<rparr>"

subsection \<open>Parameter sets, slice headers and SEI messages\<close>

fun hrd_loop :: "nat \<Rightarrow> h264_reader \<Rightarrow> unit h264_outcome" where
  "hrd_loop 0 r = Done () r"
| "hrd_loop (Suc n) r =
     READ_UE_OR_RETURN r (\<lambda>data r.
     READ_UE_OR_RETURN r (\<lambda>data r.
     READ_BOOL_OR_RETURN r (\<lambda>data r.
     hrd_loop n r)))"

definition ParseAndIgnoreHRDParameters :: "bool \<Rightarrow> h264_reader \<Rightarrow> bool h264_outcome" where
  "ParseAndIgnoreHRDParameters hrd_parameters_present r =
     READ_BOOL_OR_RETURN r (\<lambda>data r.
     if \<not> data then Done hrd_parameters_present r else
     let hrd_parameters_present = True in
     READ_UE_OR_RETURN r (\<lambda>cpb_cnt_minus1 r.
     IN_RANGE_OR_RETURN (cpb_cnt_minus1) (0) (31) r (
     READ_BITS_OR_RETURN 8 r (\<lambda>data r.
     res_or_return (hrd_loop (nat cpb_cnt_minus1 + 1) r) (\<lambda>u r.
     READ_BITS_OR_RETURN 20 r (\<lambda>data r.
     Done hrd_parameters_present r))))))"

definition ParseVUI_aspect_ratio :: "h264_sps \<Rightarrow> h264_reader \<Rightarrow> h264_sps h264_outcome" where
  "ParseVUI_aspect_ratio sps r =
     READ_BOOL_OR_RETURN r (\<lambda>aspect_ratio_info_present_flag r.
     if \<not> aspect_ratio_info_present_flag then Done sps r else
     READ_BITS_OR_RETURN 8 r (\<lambda>aspect_ratio_idc r.
     if aspect_ratio_idc = kExtendedSar then
       READ_BITS_OR_RETURN 16 r (\<lambda>v r. let sps = sps\<lparr>sps_sar_width := v\<rparr> in
       READ_BITS_OR_RETURN 16 r (\<lambda>v r. let sps = sps\<lparr>sps_sar_height := v\<rparr> in
       Done sps r))
     else
       let max_aspect_ratio_idc = int (length kTableSarWidth) - 1 in
       IN_RANGE_OR_RETURN (aspect_ratio_idc) (0) (max_aspect_ratio_idc) r (
       Done (sps\<lparr>sps_sar_width := kTableSarWidth ! nat aspect_ratio_idc, sps_sar_height := kTableSarHeight ! nat aspect_ratio_idc\<rparr>) r)))"

definition ParseVUI_video_signal :: "h264_sps \<Rightarrow> h264_reader \<Rightarrow> h264_sps h264_outcome" where
  "ParseVUI_video_signal sps r =
     READ_BOOL_OR_RETURN r (\<lambda>data r.
     res_or_return (if data then READ_BOOL_OR_RETURN r (\<lambda>data r. Done data r) else Done data r) (\<lambda>data r.
     READ_BOOL_OR_RETURN r (\<lambda>v r. let sps = sps\<lparr>sps_video_signal_type_present_flag := v\<rparr> in
     res_or_return (if sps_video_signal_type_present_flag sps then
     READ_BITS_OR_RETURN 3 r (\<lambda>v r. let sps = sps\<lparr>sps_video_format := v\<rparr> in
     READ_BOOL_OR_RETURN r (\<lambda>v r. let sps = sps\<lparr>sps_video_full_range_flag := v\<rparr> in
     READ_BOOL_OR_RETURN r (\<lambda>v r. let sps = sps\<lparr>sps_colour_description_present_flag := v\<rparr> in
     res_or_return (if sps_colour_description_present_flag sps then
     READ_BITS_OR_RETURN 8 r (\<lambda>v r. let sps = sps\<lparr>sps_colour_primaries := v\<rparr> in
     READ_BITS_OR_RETURN 8 r (\<lambda>v r. let sps = sps\<lparr>sps_transfer_characteristics := v\<rparr> in
     READ_BITS_OR_RETURN 8 r (\<lambda>v r. let sps = sps\<lparr>sps_matrix_coefficients := v\<rparr> in
     Done sps r)))
   else Done sps r) (\<lambda>sps r.
     Done sps r))))
   else Done sps r) (\<lambda>sps r.
     READ_BOOL_OR_RETURN r (\<lambda>data r.
     res_or_return (if data then READ_UE_OR_RETURN r (\<lambda>data r. READ_UE_OR_RETURN r (\<lambda>data r. Done () r)) else Done () r) (\<lambda>u r.
     Done sps r))))))"

definition ParseVUI_timing :: "h264_reader \<Rightarrow> unit h264_outcome" where
  "ParseVUI_timing r =
     READ_BOOL_OR_RETURN r (\<lambda>data r.
     res_or_return (if data then
       READ_BITS_OR_RETURN 16 r (\<lambda>data r.
       READ_BITS_OR_RETURN 16 r (\<lambda>data r.
       READ_BITS_OR_RETURN 16 r (\<lambda>data r.
       READ_BITS_OR_RETURN 16 r (\<lambda>data r.
       READ_BOOL_OR_RETURN r (\<lambda>data r.
       Done () r)))))
     else Done () r) (\<lambda>u r.
     Done () r))"

definition ParseVUI_restriction :: "h264_sps \<Rightarrow> h264_reader \<Rightarrow> h264_sps h264_outcome" where
  "ParseVUI_restriction sps r =
     READ_BOOL_OR_RETURN r (\<lambda>data r.
     READ_BOOL_OR_RETURN r (\<lambda>v r. let sps = sps\<lparr>sps_bitstream_restriction_flag := v\<rparr> in
     if \<not> sps_bitstream_restriction_flag sps then Done sps r else
     READ_BOOL_OR_RETURN r (\<lambda>data r.
     READ_UE_OR_RETURN r (\<lambda>data r.
     READ_UE_OR_RETURN r (\<lambda>data r.
     READ_UE_OR_RETURN r (\<lambda>data r.
     READ_UE_OR_RETURN r (\<lambda>data r.
     READ_UE_OR_RETURN r (\<lambda>v r. let sps = sps\<lparr>sps_max_num_reorder_frames := v\<rparr> in
     READ_UE_OR_RETURN r (\<lambda>v r. let sps = sps\<lparr>sps_max_dec_frame_buffering := v\<rparr> in
     TRUE_OR_RETURN (sps_max_dec_frame_buffering sps \<ge> sps_max_num_ref_frames sps) r (
     IN_RANGE_OR_RETURN (sps_max_num_reorder_frames sps) (0) (sps_max_dec_frame_buffering sps) r (
     Done sps r)))))))))))"

definition ParseVUIParameters :: "h264_sps \<Rightarrow> h264_reader \<Rightarrow> h264_sps h264_outcome" where
  "ParseVUIParameters sps r =
     res_or_return (ParseVUI_aspect_ratio sps r) (\<lambda>sps r.
     res_or_return (ParseVUI_video_signal sps r) (\<lambda>sps r.
     res_or_return (ParseVUI_timing r) (\<lambda>u r.
     res_or_return (ParseAndIgnoreHRDParameters False r) (\<lambda>hrd_parameters_present r.
     res_or_return (ParseAndIgnoreHRDParameters hrd_parameters_present r) (\<lambda>hrd_parameters_present r.
     res_or_return (if hrd_parameters_present then READ_BOOL_OR_RETURN r (\<lambda>data r. Done () r) else Done () r) (\<lambda>u r.
     ParseVUI_restriction sps r))))))"

definition ParseSPS_profile :: "h264_reader \<Rightarrow> h264_sps h264_outcome" where
  "ParseSPS_profile r =
     (let sps = H264SPS_zero in
     READ_BITS_OR_RETURN 8 r (\<lambda>v r. let sps = sps\<lparr>sps_profile_idc := v\<rparr> in
     READ_BOOL_OR_RETURN r (\<lambda>v r. let sps = sps\<lparr>sps_constraint_set0_flag := v\<rparr> in
     READ_BOOL_OR_RETURN r (\<lambda>v r. let sps = sps\<lparr>sps_constraint_set1_flag := v\<rparr> in
     READ_BOOL_OR_RETURN r (\<lambda>v r. let sps = sps\<lparr>sps_constraint_set2_flag := v\<rparr> in
     READ_BOOL_OR_RETURN r (\<lambda>v r. let sps = sps\<lparr>sps_constraint_set3_flag := v\<rparr> in
     READ_BOOL_OR_RETURN r (\<lambda>v r. let sps = sps\<lparr>sps_constraint_set4_flag := v\<rparr> in
     READ_BOOL_OR_RETURN r (\<lambda>v r. let sps = sps\<lparr>sps_constraint_set5_flag := v\<rparr> in
     READ_BITS_OR_RETURN 2 r (\<lambda>data r.
     READ_BITS_OR_RETURN 8 r (\<lambda>v r. let sps = sps\<lparr>sps_level_idc := v\<rparr> in
     READ_UE_OR_RETURN r (\<lambda>v r. let sps = sps\<lparr>sps_seq_parameter_set_id := v\<rparr> in
     TRUE_OR_RETURN (sps_seq_parameter_set_id sps < 32) r (
     Done sps r))))))))))))"

definition has_chroma_info :: "int \<Rightarrow> bool" where
  "has_chroma_info profile_idc =
     (profile_idc \<in> {100, 110, 122, 244, 44, 83, 86, 118, 128})"

definition ParseSPS_chroma :: "h264_sps \<Rightarrow> h264_reader \<Rightarrow> h264_sps h264_outcome" where
  "ParseSPS_chroma sps r =
     res_or_return (if has_chroma_info (sps_profile_idc sps) then
       READ_UE_OR_RETURN r (\<lambda>v r. let sps = sps\<lparr>sps_chroma_format_idc := v\<rparr> in
       TRUE_OR_RETURN (sps_chroma_format_idc sps < 4) r (
       res_or_return (if sps_chroma_format_idc sps = 3 then
     READ_BOOL_OR_RETURN r (\<lambda>v r. let sps = sps\<lparr>sps_separate_colour_plane_flag := v\<rparr> in
     Done sps r)
   else Done sps r) (\<lambda>sps r.
       READ_UE_OR_RETURN r (\<lambda>v r. let sps = sps\<lparr>sps_bit_depth_luma_minus8 := v\<rparr> in
       TRUE_OR_RETURN (sps_bit_depth_luma_minus8 sps < 7) r (
       READ_UE_OR_RETURN r (\<lambda>v r. let sps = sps\<lparr>sps_bit_depth_chroma_minus8 := v\<rparr> in
       TRUE_OR_RETURN (sps_bit_depth_chroma_minus8 sps < 7) r (
       READ_BOOL_OR_RETURN r (\<lambda>v r. let sps = sps\<lparr>sps_qpprime_y_zero_transform_bypass_flag := v\<rparr> in
       READ_BOOL_OR_RETURN r (\<lambda>v r. let sps = sps\<lparr>sps_seq_scaling_matrix_present_flag := v\<rparr> in
       if sps_seq_scaling_matrix_present_flag sps then ParseSPSScalingLists sps r else Done (FillDefaultSeqScalingLists sps) r)))))))))
     else Done (FillDefaultSeqScalingLists (sps\<lparr>sps_chroma_format_idc := 1\<rparr>)) r) (\<lambda>sps r.
     Done (sps\<lparr>sps_chroma_array_type := (if sps_separate_colour_plane_flag sps then 0 else sps_chroma_format_idc sps)\<rparr>) r)"

text \<open>The offsets are summed up as a checked number, which stays invalid after an overflow.\<close>

definition checked_add :: "int option \<Rightarrow> int \<Rightarrow> int option" where
  "checked_add acc v = (case acc of None \<Rightarrow> None | Some a \<Rightarrow> if int_range (a + v) then Some (a + v) else None)"

fun ref_frame_offsets :: "nat \<Rightarrow> nat \<Rightarrow> int option \<Rightarrow> h264_sps \<Rightarrow> h264_reader \<Rightarrow> (int option \<times> h264_sps) h264_outcome" where
  "ref_frame_offsets i 0 offset_acc sps r = Done (offset_acc, sps) r"
| "ref_frame_offsets i (Suc n) offset_acc sps r =
     READ_SE_OR_RETURN r (\<lambda>v r.
     if \<not> i < length (sps_offset_for_ref_frame sps) then Fault
     else ref_frame_offsets (i + 1) n (checked_add offset_acc v)
       (sps\<lparr>sps_offset_for_ref_frame := (sps_offset_for_ref_frame sps)[i := v]\<rparr>) r)"

definition ParseSPS_order_count :: "h264_sps \<Rightarrow> h264_reader \<Rightarrow> h264_sps h264_outcome" where
  "ParseSPS_order_count sps r =
     READ_UE_OR_RETURN r (\<lambda>v r. let sps = sps\<lparr>sps_log2_max_frame_num_minus4 := v\<rparr> in
     TRUE_OR_RETURN (sps_log2_max_frame_num_minus4 sps < 13) r (
     READ_UE_OR_RETURN r (\<lambda>v r. let sps = sps\<lparr>sps_pic_order_cnt_type := v\<rparr> in
     TRUE_OR_RETURN (sps_pic_order_cnt_type sps < 3) r (
     if sps_pic_order_cnt_type sps = 0 then
       READ_UE_OR_RETURN r (\<lambda>v r. let sps = sps\<lparr>sps_log2_max_pic_order_cnt_lsb_minus4 := v\<rparr> in
       TRUE_OR_RETURN (sps_log2_max_pic_order_cnt_lsb_minus4 sps < 13) r (
       Done (sps\<lparr>sps_expected_delta_per_pic_order_cnt_cycle := 0\<rparr>) r))
     else if sps_pic_order_cnt_type sps = 1 then
       READ_BOOL_OR_RETURN r (\<lambda>v r. let sps = sps\<lparr>sps_delta_pic_order_always_zero_flag := v\<rparr> in
       READ_SE_OR_RETURN r (\<lambda>v r. let sps = sps\<lparr>sps_offset_for_non_ref_pic := v\<rparr> in
       READ_SE_OR_RETURN r (\<lambda>v r. let sps = sps\<lparr>sps_offset_for_top_to_bottom_field := v\<rparr> in
       READ_UE_OR_RETURN r (\<lambda>v r. let sps = sps\<lparr>sps_num_ref_frames_in_pic_order_cnt_cycle := v\<rparr> in
       TRUE_OR_RETURN (sps_num_ref_frames_in_pic_order_cnt_cycle sps < 255) r (
       res_or_return (ref_frame_offsets 0 (nat (sps_num_ref_frames_in_pic_order_cnt_cycle sps)) (Some 0) sps r) (\<lambda>(offset_acc, sps) r.
       case offset_acc of None \<Rightarrow> Return kInvalidStream r
       | Some acc \<Rightarrow> Done (sps\<lparr>sps_expected_delta_per_pic_order_cnt_cycle := acc\<rparr>) r))))))
     else Done sps r))))"

definition ParseSPS_size :: "h264_sps \<Rightarrow> h264_reader \<Rightarrow> h264_sps h264_outcome" where
  "ParseSPS_size sps r =
     READ_UE_OR_RETURN r (\<lambda>v r. let sps = sps\<lparr>sps_max_num_ref_frames := v\<rparr> in
     READ_BOOL_OR_RETURN r (\<lambda>v r. let sps = sps\<lparr>sps_gaps_in_frame_num_value_allowed_flag := v\<rparr> in
     READ_UE_OR_RETURN r (\<lambda>v r. let sps = sps\<lparr>sps_pic_width_in_mbs_minus1 := v\<rparr> in
     READ_UE_OR_RETURN r (\<lambda>v r. let sps = sps\<lparr>sps_pic_height_in_map_units_minus1 := v\<rparr> in
     READ_BOOL_OR_RETURN r (\<lambda>v r. let sps = sps\<lparr>sps_frame_mbs_only_flag := v\<rparr> in
     res_or_return (if \<not> sps_frame_mbs_only_flag sps then
     READ_BOOL_OR_RETURN r (\<lambda>v r. let sps = sps\<lparr>sps_mb_adaptive_frame_field_flag := v\<rparr> in
     Done sps r)
   else Done sps r) (\<lambda>sps r.
     READ_BOOL_OR_RETURN r (\<lambda>v r. let sps = sps\<lparr>sps_direct_8x8_inference_flag := v\<rparr> in
     READ_BOOL_OR_RETURN r (\<lambda>v r. let sps = sps\<lparr>sps_frame_cropping_flag := v\<rparr> in
     res_or_return (if sps_frame_cropping_flag sps then
     READ_UE_OR_RETURN r (\<lambda>v r. let sps = sps\<lparr>sps_frame_crop_left_offset := v\<rparr> in
     READ_UE_OR_RETURN r (\<lambda>v r. let sps = sps\<lparr>sps_frame_crop_right_offset := v\<rparr> in
     READ_UE_OR_RETURN r (\<lambda>v r. let sps = sps\<lparr>sps_frame_crop_top_offset := v\<rparr> in
     READ_UE_OR_RETURN r (\<lambda>v r. let sps = sps\<lparr>sps_frame_crop_bottom_offset := v\<rparr> in
     Done sps r))))
   else Done sps r) (\<lambda>sps r.
     READ_BOOL_OR_RETURN r (\<lambda>v r. let sps = sps\<lparr>sps_vui_parameters_present_flag := v\<rparr> in
     if sps_vui_parameters_present_flag sps then ParseVUIParameters sps r else Done sps r))))))))))"

definition ParseSPS_body :: "h264_reader \<Rightarrow> h264_sps h264_outcome" where
  "ParseSPS_body r =
     res_or_return (ParseSPS_profile r) (\<lambda>sps r.
     res_or_return (ParseSPS_chroma sps r) (\<lambda>sps r.
     res_or_return (ParseSPS_order_count sps r) (\<lambda>sps r.
     ParseSPS_size sps r)))"

definition ParsePPS_body :: "(int \<Rightarrow> h264_sps option) \<Rightarrow> h264_reader \<Rightarrow> h264_pps h264_outcome" where
  "ParsePPS_body active_SPSes r =
     (let pps = H264PPS_zero in
     READ_UE_OR_RETURN r (\<lambda>v r. let pps = pps\<lparr>pps_pic_parameter_set_id := v\<rparr> in
     READ_UE_OR_RETURN r (\<lambda>v r. let pps = pps\<lparr>pps_seq_parameter_set_id := v\<rparr> in
     TRUE_OR_RETURN (pps_seq_parameter_set_id pps < 32) r (
     if active_SPSes (pps_seq_parameter_set_id pps) = None then Return kInvalidStream r else
     let sps = the (active_SPSes (pps_seq_parameter_set_id pps)) in
     READ_BOOL_OR_RETURN r (\<lambda>v r. let pps = pps\<lparr>pps_entropy_coding_mode_flag := v\<rparr> in
     READ_BOOL_OR_RETURN r (\<lambda>v r. let pps = pps\<lparr>pps_bottom_field_pic_order_in_frame_present_flag := v\<rparr> in
     READ_UE_OR_RETURN r (\<lambda>v r. let pps = pps\<lparr>pps_num_slice_groups_minus1 := v\<rparr> in
     if pps_num_slice_groups_minus1 pps > 1 then Return kUnsupportedStream r else
     READ_UE_OR_RETURN r (\<lambda>v r. let pps = pps\<lparr>pps_num_ref_idx_l0_default_active_minus1 := v\<rparr> in
     TRUE_OR_RETURN (pps_num_ref_idx_l0_default_active_minus1 pps < 32) r (
     READ_UE_OR_RETURN r (\<lambda>v r. let pps = pps\<lparr>pps_num_ref_idx_l1_default_active_minus1 := v\<rparr> in
     TRUE_OR_RETURN (pps_num_ref_idx_l1_default_active_minus1 pps < 32) r (
     READ_BOOL_OR_RETURN r (\<lambda>v r. let pps = pps\<lparr>pps_weighted_pred_flag := v\<rparr> in
     READ_BITS_OR_RETURN 2 r (\<lambda>v r. let pps = pps\<lparr>pps_weighted_bipred_idc := v\<rparr> in
     TRUE_OR_RETURN (pps_weighted_bipred_idc pps < 3) r (
     READ_SE_OR_RETURN r (\<lambda>v r. let pps = pps\<lparr>pps_pic_init_qp_minus26 := v\<rparr> in
     IN_RANGE_OR_RETURN (pps_pic_init_qp_minus26 pps) (- 26) (25) r (
     READ_SE_OR_RETURN r (\<lambda>v r. let pps = pps\<lparr>pps_pic_init_qs_minus26 := v\<rparr> in
     IN_RANGE_OR_RETURN (pps_pic_init_qs_minus26 pps) (- 26) (25) r (
     READ_SE_OR_RETURN r (\<lambda>v r. let pps = pps\<lparr>pps_chroma_qp_index_offset := v\<rparr> in
     IN_RANGE_OR_RETURN (pps_chroma_qp_index_offset pps) (- 12) (12) r (
     let pps = pps\<lparr>pps_second_chroma_qp_index_offset := pps_chroma_qp_index_offset pps\<rparr> in
     READ_BOOL_OR_RETURN r (\<lambda>v r. let pps = pps\<lparr>pps_deblocking_filter_control_present_flag := v\<rparr> in
     READ_BOOL_OR_RETURN r (\<lambda>v r. let pps = pps\<lparr>pps_constrained_intra_pred_flag := v\<rparr> in
     READ_BOOL_OR_RETURN r (\<lambda>v r. let pps = pps\<lparr>pps_redundant_pic_cnt_present_flag := v\<rparr> in
     let (has_more, r) = HasMoreRBSPData r in
     if has_more then
       READ_BOOL_OR_RETURN r (\<lambda>v r. let pps = pps\<lparr>pps_transform_8x8_mode_flag := v\<rparr> in
       READ_BOOL_OR_RETURN r (\<lambda>v r. let pps = pps\<lparr>pps_pic_scaling_matrix_present_flag := v\<rparr> in
       res_or_return (if pps_pic_scaling_matrix_present_flag pps then ParsePPSScalingLists sps pps r else Done pps r) (\<lambda>pps r.
       READ_SE_OR_RETURN r (\<lambda>v r. let pps = pps\<lparr>pps_second_chroma_qp_index_offset := v\<rparr> in
       Done pps r))))
     else Done pps r)))))))))))))))))))))))"

fun modification_loop ::
  "nat \<Rightarrow> nat \<Rightarrow> h264_modification list \<Rightarrow> h264_reader \<Rightarrow> (bool \<times> h264_modification list) h264_outcome" where
  "modification_loop i 0 mods r = Done (False, mods) r"
| "modification_loop i (Suc n) mods r =
     READ_UE_OR_RETURN r (\<lambda>idc r.
     if \<not> i < length mods then Fault
     else
       let mods = mods[i := (mods ! i)\<lparr>mod_modification_of_pic_nums_idc := idc\<rparr>] in
       TRUE_OR_RETURN (idc < 4) r (
       if idc = 0 \<or> idc = 1 \<or> idc = 2 then
         READ_UE_OR_RETURN r (\<lambda>v r. modification_loop (i + 1) n (mods[i := (mods ! i)\<lparr>mod_value := v\<rparr>]) r)
       else if i = 0 then Return kInvalidStream r
       else Done (True, mods) r))"

definition ParseRefPicListModification :: "int \<Rightarrow> h264_modification list \<Rightarrow> h264_reader \<Rightarrow> h264_modification list h264_outcome" where
  "ParseRefPicListModification num_ref_idx_active_minus1 ref_list_mods r =
     (if num_ref_idx_active_minus1 \<ge> 32 then Return kInvalidStream r else
     res_or_return (modification_loop 0 32 ref_list_mods r) (\<lambda>(ended, ref_list_mods) r.
     if ended then Done ref_list_mods r else
     READ_UE_OR_RETURN r (\<lambda>modification_of_pic_nums_idc r.
     TRUE_OR_RETURN (modification_of_pic_nums_idc = 3) r (
     Done ref_list_mods r))))"

definition ParseRefPicListModifications :: "h264_slice_header \<Rightarrow> h264_reader \<Rightarrow> h264_slice_header h264_outcome" where
  "ParseRefPicListModifications sh r =
     res_or_return (if \<not> IsISlice sh \<and> \<not> IsSISlice sh then
     READ_BOOL_OR_RETURN r (\<lambda>v r. let sh = sh\<lparr>sh_ref_pic_list_modification_flag_l0 := v\<rparr> in
     res_or_return (if sh_ref_pic_list_modification_flag_l0 sh
       then ParseRefPicListModification (sh_num_ref_idx_l0_active_minus1 sh) (sh_ref_list_l0_modifications sh) r
       else Done (sh_ref_list_l0_modifications sh) r) (\<lambda>mods r.
     let sh = sh\<lparr>sh_ref_list_l0_modifications := mods\<rparr> in
     Done sh r))
   else Done sh r) (\<lambda>sh r.
     res_or_return (if IsBSlice sh then
     READ_BOOL_OR_RETURN r (\<lambda>v r. let sh = sh\<lparr>sh_ref_pic_list_modification_flag_l1 := v\<rparr> in
     res_or_return (if sh_ref_pic_list_modification_flag_l1 sh
       then ParseRefPicListModification (sh_num_ref_idx_l1_active_minus1 sh) (sh_ref_list_l1_modifications sh) r
       else Done (sh_ref_list_l1_modifications sh) r) (\<lambda>mods r.
     let sh = sh\<lparr>sh_ref_list_l1_modifications := mods\<rparr> in
     Done sh r))
   else Done sh r) (\<lambda>sh r.
     Done sh r))"

fun chroma_factors :: "nat \<Rightarrow> nat \<Rightarrow> nat \<Rightarrow> h264_weighting_factors \<Rightarrow> h264_reader \<Rightarrow> h264_weighting_factors h264_outcome" where
  "chroma_factors i j 0 w r = Done w r"
| "chroma_factors i j (Suc n) w r =
     READ_SE_OR_RETURN r (\<lambda>weight r.
     IN_RANGE_OR_RETURN weight (- 128) 127 r (
     READ_SE_OR_RETURN r (\<lambda>offset r.
     IN_RANGE_OR_RETURN offset (- 128) 127 r (
     chroma_factors i (j + 1) n
       (w\<lparr>wf_chroma_weight := set2 i j weight (wf_chroma_weight w), wf_chroma_offset := set2 i j offset (wf_chroma_offset w)\<rparr>) r))))"

fun weighting_loop ::
  "nat \<Rightarrow> nat \<Rightarrow> int \<Rightarrow> int \<Rightarrow> int \<Rightarrow> h264_weighting_factors \<Rightarrow> h264_reader \<Rightarrow> h264_weighting_factors h264_outcome" where
  "weighting_loop i 0 chroma_array_type def_luma_weight def_chroma_weight w r = Done w r"
| "weighting_loop i (Suc n) chroma_array_type def_luma_weight def_chroma_weight w r =
     (if \<not> i < 32 then Fault else
     READ_BOOL_OR_RETURN r (\<lambda>v r. let w = w\<lparr>wf_luma_weight_flag := v\<rparr> in
     res_or_return
       (if wf_luma_weight_flag w then
          READ_SE_OR_RETURN r (\<lambda>weight r.
          IN_RANGE_OR_RETURN weight (- 128) 127 r (
          READ_SE_OR_RETURN r (\<lambda>offset r.
          IN_RANGE_OR_RETURN offset (- 128) 127 r (
          Done (w\<lparr>wf_luma_weight := (wf_luma_weight w)[i := weight], wf_luma_offset := (wf_luma_offset w)[i := offset]\<rparr>) r))))
        else Done (w\<lparr>wf_luma_weight := (wf_luma_weight w)[i := def_luma_weight],
                 wf_luma_offset := (wf_luma_offset w)[i := 0]\<rparr>) r) (\<lambda>w r.
     res_or_return
       (if chroma_array_type \<noteq> 0 then
          READ_BOOL_OR_RETURN r (\<lambda>v r. let w = w\<lparr>wf_chroma_weight_flag := v\<rparr> in
          if wf_chroma_weight_flag w then chroma_factors i 0 2 w r
          else Done (w\<lparr>wf_chroma_weight := set2 i 1 def_chroma_weight (set2 i 0 def_chroma_weight (wf_chroma_weight w)),
                 wf_chroma_offset := set2 i 1 0 (set2 i 0 0 (wf_chroma_offset w))\<rparr>) r)
        else Done w r) (\<lambda>w r.
     weighting_loop (i + 1) n chroma_array_type def_luma_weight def_chroma_weight w r))))"

definition ParseWeightingFactors :: "int \<Rightarrow> int \<Rightarrow> int \<Rightarrow> int \<Rightarrow> h264_weighting_factors \<Rightarrow> h264_reader \<Rightarrow>
   h264_weighting_factors h264_outcome" where
  "ParseWeightingFactors num_ref_idx_active_minus1 chroma_array_type luma_log2_weight_denom chroma_log2_weight_denom w r =
     weighting_loop 0 (nat (num_ref_idx_active_minus1 + 1)) chroma_array_type
       (push_bit (nat luma_log2_weight_denom) 1) (push_bit (nat chroma_log2_weight_denom) 1) w r"

definition ParsePredWeightTable :: "h264_sps \<Rightarrow> h264_slice_header \<Rightarrow> h264_reader \<Rightarrow> h264_slice_header h264_outcome" where
  "ParsePredWeightTable sps sh r =
     READ_UE_OR_RETURN r (\<lambda>v r. let sh = sh\<lparr>sh_luma_log2_weight_denom := v\<rparr> in
     TRUE_OR_RETURN (sh_luma_log2_weight_denom sh < 8) r (
     res_or_return (if sps_chroma_array_type sps \<noteq> 0 then
     READ_UE_OR_RETURN r (\<lambda>v r. let sh = sh\<lparr>sh_chroma_log2_weight_denom := v\<rparr> in
     Done sh r)
   else Done sh r) (\<lambda>sh r.
     TRUE_OR_RETURN (sh_chroma_log2_weight_denom sh < 8) r (
     res_or_return (ParseWeightingFactors (sh_num_ref_idx_l0_active_minus1 sh) (sps_chroma_array_type sps)
       (sh_luma_log2_weight_denom sh) (sh_chroma_log2_weight_denom sh) (sh_pred_weight_table_l0 sh) r) (\<lambda>w r.
     let sh = sh\<lparr>sh_pred_weight_table_l0 := w\<rparr> in
     if \<not> IsBSlice sh then Done sh r else
     res_or_return (ParseWeightingFactors (sh_num_ref_idx_l1_active_minus1 sh) (sps_chroma_array_type sps)
       (sh_luma_log2_weight_denom sh) (sh_chroma_log2_weight_denom sh) (sh_pred_weight_table_l1 sh) r) (\<lambda>w r.
     Done (sh\<lparr>sh_pred_weight_table_l1 := w\<rparr>) r))))))"

text \<open>The loop over the marking operations; the flag tells whether the end of the list was read.\<close>

fun marking_loop ::
  "nat \<Rightarrow> nat \<Rightarrow> h264_ref_pic_marking list \<Rightarrow> h264_reader \<Rightarrow> (bool \<times> h264_ref_pic_marking list) h264_outcome" where
  "marking_loop i 0 markings r = Done (False, markings) r"
| "marking_loop i (Suc n) markings r =
     (if \<not> i < length markings then Fault else
     let m = markings ! i in
     READ_UE_OR_RETURN r (\<lambda>v r. let m = m\<lparr>rpm_memory_mgmnt_control_operation := v\<rparr> in
     if rpm_memory_mgmnt_control_operation m = 0 then Done (True, markings[i := m]) r else
     res_or_return (if rpm_memory_mgmnt_control_operation m = 1 \<or> rpm_memory_mgmnt_control_operation m = 3
       then READ_UE_OR_RETURN r (\<lambda>v r. Done (m\<lparr>rpm_difference_of_pic_nums_minus1 := v\<rparr>) r) else Done m r) (\<lambda>m r.
     res_or_return (if rpm_memory_mgmnt_control_operation m = 2
       then READ_UE_OR_RETURN r (\<lambda>v r. Done (m\<lparr>rpm_long_term_pic_num := v\<rparr>) r) else Done m r) (\<lambda>m r.
     res_or_return (if rpm_memory_mgmnt_control_operation m = 3 \<or> rpm_memory_mgmnt_control_operation m = 6
       then READ_UE_OR_RETURN r (\<lambda>v r. Done (m\<lparr>rpm_long_term_frame_idx := v\<rparr>) r) else Done m r) (\<lambda>m r.
     res_or_return (if rpm_memory_mgmnt_control_operation m = 4
       then READ_UE_OR_RETURN r (\<lambda>v r. Done (m\<lparr>rpm_max_long_term_frame_idx_plus1 := v\<rparr>) r) else Done m r) (\<lambda>m r.
     if rpm_memory_mgmnt_control_operation m > 6 then Return kInvalidStream r else
     marking_loop (i + 1) n (markings[i := m]) r))))))"

definition ParseDecRefPicMarking :: "h264_slice_header \<Rightarrow> h264_reader \<Rightarrow> h264_slice_header h264_outcome" where
  "ParseDecRefPicMarking sh r =
     (let bits_left_at_start = NumBitsLeft r in
     res_or_return (if sh_idr_pic_flag sh then
       READ_BOOL_OR_RETURN r (\<lambda>v r. let sh = sh\<lparr>sh_no_output_of_prior_pics_flag := v\<rparr> in
       READ_BOOL_OR_RETURN r (\<lambda>v r. let sh = sh\<lparr>sh_long_term_reference_flag := v\<rparr> in
       Done sh r))
     else
       READ_BOOL_OR_RETURN r (\<lambda>v r. let sh = sh\<lparr>sh_adaptive_ref_pic_marking_mode_flag := v\<rparr> in
       if \<not> sh_adaptive_ref_pic_marking_mode_flag sh then Done sh r else
       res_or_return (marking_loop 0 32 (sh_ref_pic_marking sh) r) (\<lambda>(ended, markings) r.
       if \<not> ended then Return kUnsupportedStream r else
       Done (sh\<lparr>sh_ref_pic_marking := markings\<rparr>) r))) (\<lambda>sh r.
     Done (sh\<lparr>sh_dec_ref_pic_marking_bit_size := int bits_left_at_start - int (NumBitsLeft r)\<rparr>) r))"

definition ParseSlice_order_count :: "h264_sps \<Rightarrow> h264_pps \<Rightarrow> h264_slice_header \<Rightarrow> h264_reader \<Rightarrow> h264_slice_header h264_outcome" where
  "ParseSlice_order_count sps pps sh r =
     (let bits_left_at_pic_order_cnt_start = NumBitsLeft r in
     res_or_return (if sps_pic_order_cnt_type sps = 0 then
     READ_BITS_OR_RETURN (nat (sps_log2_max_pic_order_cnt_lsb_minus4 sps + 4)) r (\<lambda>v r. let sh = sh\<lparr>sh_pic_order_cnt_lsb := v\<rparr> in
     res_or_return (if pps_bottom_field_pic_order_in_frame_present_flag pps \<and> \<not> sh_field_pic_flag sh then
     READ_SE_OR_RETURN r (\<lambda>v r. let sh = sh\<lparr>sh_delta_pic_order_cnt_bottom := v\<rparr> in
     Done sh r)
   else Done sh r) (\<lambda>sh r.
     Done sh r))
   else Done sh r) (\<lambda>sh r.
     res_or_return (if sps_pic_order_cnt_type sps = 1 \<and> \<not> sps_delta_pic_order_always_zero_flag sps then
     READ_SE_OR_RETURN r (\<lambda>v r. let sh = sh\<lparr>sh_delta_pic_order_cnt0 := v\<rparr> in
     res_or_return (if pps_bottom_field_pic_order_in_frame_present_flag pps \<and> \<not> sh_field_pic_flag sh then
     READ_SE_OR_RETURN r (\<lambda>v r. let sh = sh\<lparr>sh_delta_pic_order_cnt1 := v\<rparr> in
     Done sh r)
   else Done sh r) (\<lambda>sh r.
     Done sh r))
   else Done sh r) (\<lambda>sh r.
     Done (sh\<lparr>sh_pic_order_cnt_bit_size := int bits_left_at_pic_order_cnt_start - int (NumBitsLeft r)\<rparr>) r)))"

definition ParseSlice_ref_idx :: "h264_pps \<Rightarrow> h264_slice_header \<Rightarrow> h264_reader \<Rightarrow> h264_slice_header h264_outcome" where
  "ParseSlice_ref_idx pps sh r =
     res_or_return (if IsPSlice sh \<or> IsSPSlice sh \<or> IsBSlice sh then
     READ_BOOL_OR_RETURN r (\<lambda>v r. let sh = sh\<lparr>sh_num_ref_idx_active_override_flag := v\<rparr> in
     res_or_return (if sh_num_ref_idx_active_override_flag sh then
       READ_UE_OR_RETURN r (\<lambda>v r. let sh = sh\<lparr>sh_num_ref_idx_l0_active_minus1 := v\<rparr> in
       res_or_return (if IsBSlice sh then
     READ_UE_OR_RETURN r (\<lambda>v r. let sh = sh\<lparr>sh_num_ref_idx_l1_active_minus1 := v\<rparr> in
     Done sh r)
   else Done sh r) (\<lambda>sh r.
       Done sh r))
     else
       (let sh = sh\<lparr>sh_num_ref_idx_l0_active_minus1 := pps_num_ref_idx_l0_default_active_minus1 pps\<rparr>;
            sh = (if IsBSlice sh then sh\<lparr>sh_num_ref_idx_l1_active_minus1 := pps_num_ref_idx_l1_default_active_minus1 pps\<rparr> else sh)
        in Done sh r)) (\<lambda>sh r.
     Done sh r))
   else Done sh r) (\<lambda>sh r.
     let limit = (if sh_field_pic_flag sh then 32 else 16) in
     TRUE_OR_RETURN (sh_num_ref_idx_l0_active_minus1 sh < limit) r (
     TRUE_OR_RETURN (sh_num_ref_idx_l1_active_minus1 sh < limit) r (
     Done sh r)))"

definition ParseSlice_start :: "(int \<Rightarrow> h264_sps option) \<Rightarrow> (int \<Rightarrow> h264_pps option) \<Rightarrow> h264_nalu \<Rightarrow> h264_reader \<Rightarrow>
   (h264_sps \<times> h264_pps \<times> h264_slice_header) h264_outcome" where
  "ParseSlice_start active_SPSes active_PPSes nalu r =
     (let sh = H264SliceHeader_zero\<lparr>sh_idr_pic_flag := na_nal_unit_type nalu = 5, sh_nal_ref_idc := na_nal_ref_idc nalu,
       sh_nalu_data := na_data nalu, sh_nalu_size := int (length (na_bytes nalu))\<rparr> in
     READ_UE_OR_RETURN r (\<lambda>v r. let sh = sh\<lparr>sh_first_mb_in_slice := v\<rparr> in
     READ_UE_OR_RETURN r (\<lambda>v r. let sh = sh\<lparr>sh_slice_type := v\<rparr> in
     TRUE_OR_RETURN (sh_slice_type sh < 10) r (
     READ_UE_OR_RETURN r (\<lambda>v r. let sh = sh\<lparr>sh_pic_parameter_set_id := v\<rparr> in
     if active_PPSes (sh_pic_parameter_set_id sh) = None then Return kInvalidStream r else
     let pps = the (active_PPSes (sh_pic_parameter_set_id sh)) in
     if active_SPSes (pps_seq_parameter_set_id pps) = None then Return kInvalidStream r else
     let sps = the (active_SPSes (pps_seq_parameter_set_id pps)) in
     if sps_separate_colour_plane_flag sps then Return kUnsupportedStream r else
     READ_BITS_OR_RETURN (nat (sps_log2_max_frame_num_minus4 sps + 4)) r (\<lambda>v r. let sh = sh\<lparr>sh_frame_num := v\<rparr> in
     res_or_return (if \<not> sps_frame_mbs_only_flag sps then
     READ_BOOL_OR_RETURN r (\<lambda>v r. let sh = sh\<lparr>sh_field_pic_flag := v\<rparr> in
     if sh_field_pic_flag sh then Return kUnsupportedStream r else
     Done sh r)
   else Done sh r) (\<lambda>sh r.
     res_or_return (if sh_idr_pic_flag sh then
     READ_UE_OR_RETURN r (\<lambda>v r. let sh = sh\<lparr>sh_idr_pic_id := v\<rparr> in
     Done sh r)
   else Done sh r) (\<lambda>sh r.
     Done (sps, pps, sh) r))))))))"

definition ParseSlice_quantizer :: "h264_pps \<Rightarrow> h264_slice_header \<Rightarrow> h264_reader \<Rightarrow> h264_slice_header h264_outcome" where
  "ParseSlice_quantizer pps sh r =
     res_or_return (if pps_entropy_coding_mode_flag pps \<and> \<not> IsISlice sh \<and> \<not> IsSISlice sh then
     READ_UE_OR_RETURN r (\<lambda>v r. let sh = sh\<lparr>sh_cabac_init_idc := v\<rparr> in
     TRUE_OR_RETURN (sh_cabac_init_idc sh < 3) r (
     Done sh r))
   else Done sh r) (\<lambda>sh r.
     READ_SE_OR_RETURN r (\<lambda>v r. let sh = sh\<lparr>sh_slice_qp_delta := v\<rparr> in
     res_or_return (if IsSPSlice sh \<or> IsSISlice sh then
     res_or_return (if IsSPSlice sh then
     READ_BOOL_OR_RETURN r (\<lambda>v r. let sh = sh\<lparr>sh_sp_for_switch_flag := v\<rparr> in
     Done sh r)
   else Done sh r) (\<lambda>sh r.
     READ_SE_OR_RETURN r (\<lambda>v r. let sh = sh\<lparr>sh_slice_qs_delta := v\<rparr> in
     Done sh r))
   else Done sh r) (\<lambda>sh r.
     res_or_return (if pps_deblocking_filter_control_present_flag pps then
     READ_UE_OR_RETURN r (\<lambda>v r. let sh = sh\<lparr>sh_disable_deblocking_filter_idc := v\<rparr> in
     TRUE_OR_RETURN (sh_disable_deblocking_filter_idc sh < 3) r (
     res_or_return (if sh_disable_deblocking_filter_idc sh \<noteq> 1 then
     READ_SE_OR_RETURN r (\<lambda>v r. let sh = sh\<lparr>sh_slice_alpha_c0_offset_div2 := v\<rparr> in
     IN_RANGE_OR_RETURN (sh_slice_alpha_c0_offset_div2 sh) (- 6) (6) r (
     READ_SE_OR_RETURN r (\<lambda>v r. let sh = sh\<lparr>sh_slice_beta_offset_div2 := v\<rparr> in
     IN_RANGE_OR_RETURN (sh_slice_beta_offset_div2 sh) (- 6) (6) r (
     Done sh r))))
   else Done sh r) (\<lambda>sh r.
     Done sh r)))
   else Done sh r) (\<lambda>sh r.
     Done sh r))))"

definition ParseSliceHeader_body :: "(int \<Rightarrow> h264_sps option) \<Rightarrow> (int \<Rightarrow> h264_pps option) \<Rightarrow> h264_nalu \<Rightarrow> h264_reader \<Rightarrow>
   h264_slice_header h264_outcome" where
  "ParseSliceHeader_body active_SPSes active_PPSes nalu r =
     res_or_return (ParseSlice_start active_SPSes active_PPSes nalu r) (\<lambda>(sps, pps, sh) r.
     res_or_return (ParseSlice_order_count sps pps sh r) (\<lambda>sh r.
     res_or_return (if pps_redundant_pic_cnt_present_flag pps then
     READ_UE_OR_RETURN r (\<lambda>v r. let sh = sh\<lparr>sh_redundant_pic_cnt := v\<rparr> in
     TRUE_OR_RETURN (sh_redundant_pic_cnt sh < 128) r (
     Done sh r))
   else Done sh r) (\<lambda>sh r.
     res_or_return (if IsBSlice sh then
     READ_BOOL_OR_RETURN r (\<lambda>v r. let sh = sh\<lparr>sh_direct_spatial_mv_pred_flag := v\<rparr> in
     Done sh r)
   else Done sh r) (\<lambda>sh r.
     res_or_return (ParseSlice_ref_idx pps sh r) (\<lambda>sh r.
     if na_nal_unit_type nalu = kCodedSliceExtension then Return kUnsupportedStream r else
     res_or_return (ParseRefPicListModifications sh r) (\<lambda>sh r.
     res_or_return (if pps_weighted_pred_flag pps \<and> (IsPSlice sh \<or> IsSPSlice sh) \<or> pps_weighted_bipred_idc pps = 1 \<and> IsBSlice sh
       then ParsePredWeightTable sps sh r else Done sh r) (\<lambda>sh r.
     res_or_return (if na_nal_ref_idc nalu \<noteq> 0 then ParseDecRefPicMarking sh r else Done sh r) (\<lambda>sh r.
     res_or_return (ParseSlice_quantizer pps sh r) (\<lambda>sh r.
     if pps_num_slice_groups_minus1 pps > 0 then Return kUnsupportedStream r else
     let epb = NumEmulationPreventionBytesRead r in
     Done (sh\<lparr>sh_header_bit_size := (sh_nalu_size sh - int epb) * 8 - int (NumBitsLeft r)\<rparr>) r)))))))))"

text \<open>
  \<open>type\<close> and \<open>payload_size\<close> are of type \<open>int\<close>: a sum that leaves its range is a \<open>Fault\<close>.
\<close>

function sei_loop :: "int \<Rightarrow> h264_reader \<Rightarrow> int h264_outcome" where
  "sei_loop acc r =
     (case ReadBits_body 8 r of
        (None, r') \<Rightarrow> Return kInvalidStream r'
      | (Some byte, r') \<Rightarrow>
          if byte = 0xff then (if acc + 255 > int_max then Fault else sei_loop (acc + 255) r')
          else if acc + byte > int_max then Fault
          else Done (acc + byte) r')"
  by pat_completeness auto
termination by (relation "measure (\<lambda>(acc, r). NumBitsLeft r)") (auto dest!: ReadBits_decreases [OF sym])

declare sei_loop.simps [simp del]

definition ParseSEI_body :: "h264_reader \<Rightarrow> h264_sei_message h264_outcome" where
  "ParseSEI_body r =
     res_or_return (sei_loop 0 r) (\<lambda>type r.
     res_or_return (sei_loop 0 r) (\<lambda>payload_size r.
     let sei = \<lparr>sei_type = type, sei_payload_size = payload_size, sei_recovery_point = None\<rparr> in
     if type \<noteq> kSEIRecoveryPoint then Done sei r else
     READ_UE_OR_RETURN r (\<lambda>recovery_frame_cnt r.
     READ_BOOL_OR_RETURN r (\<lambda>exact_match_flag r.
     READ_BOOL_OR_RETURN r (\<lambda>broken_link_flag r.
     READ_BITS_OR_RETURN 2 r (\<lambda>changing_slice_group_idc r.
     Done (sei\<lparr>sei_recovery_point := Some \<lparr>rp_recovery_frame_cnt = recovery_frame_cnt, rp_exact_match_flag = exact_match_flag,
       rp_broken_link_flag = broken_link_flag, rp_changing_slice_group_idc = changing_slice_group_idc\<rparr>\<rparr>) r))))))"

text \<open>The public functions read from the bit reader of the parser and store parameter sets.\<close>

definition with_reader :: "h264_parser \<Rightarrow> 'a h264_outcome \<Rightarrow> ('a \<Rightarrow> h264_parser \<Rightarrow> 'b \<times> h264_parser) \<Rightarrow>
  (h264_result \<times> 'b option \<times> h264_parser) option" where
  "with_reader p res store =
     (case res of
        Fault \<Rightarrow> None
      | Return e r \<Rightarrow> Some (e, None, p\<lparr>hp_br := r\<rparr>)
      | Done v r \<Rightarrow> (let (x, p) = store v (p\<lparr>hp_br := r\<rparr>) in Some (kOk, Some x, p)))"

definition ParseSPS :: "h264_parser \<Rightarrow> (h264_result \<times> int option \<times> h264_parser) option" where
  "ParseSPS p = with_reader p (ParseSPS_body (hp_br p)) (\<lambda>sps p.
     (sps_seq_parameter_set_id sps,
      p\<lparr>hp_active_SPSes := (hp_active_SPSes p)(sps_seq_parameter_set_id sps \<mapsto> sps)\<rparr>))"

definition ParsePPS :: "h264_parser \<Rightarrow> (h264_result \<times> int option \<times> h264_parser) option" where
  "ParsePPS p = with_reader p (ParsePPS_body (hp_active_SPSes p) (hp_br p)) (\<lambda>pps p.
     (pps_pic_parameter_set_id pps,
      p\<lparr>hp_active_PPSes := (hp_active_PPSes p)(pps_pic_parameter_set_id pps \<mapsto> pps)\<rparr>))"

definition ParseSliceHeader ::
  "h264_nalu \<Rightarrow> h264_parser \<Rightarrow> (h264_result \<times> h264_slice_header option \<times> h264_parser) option" where
  "ParseSliceHeader nalu p =
     with_reader p (ParseSliceHeader_body (hp_active_SPSes p) (hp_active_PPSes p) nalu (hp_br p)) Pair"

definition ParseSEI :: "h264_parser \<Rightarrow> (h264_result \<times> h264_sei_message option \<times> h264_parser) option" where
  "ParseSEI p = with_reader p (ParseSEI_body (hp_br p)) Pair"

section \<open>The parse functions do not fault\<close>

text \<open>
  What holds of the result of a parse function: it is no fault, a failure is an invalid or an
  unsupported stream, and a result and the reader after it satisfy \<open>Q\<close>. The reader is followed by a
  predicate \<open>I\<close> that holds as bits are read.
\<close>

definition outcome_ok :: "(h264_reader \<Rightarrow> bool) \<Rightarrow> ('a \<Rightarrow> h264_reader \<Rightarrow> bool) \<Rightarrow> 'a h264_outcome \<Rightarrow> bool" where
  "outcome_ok I Q res =
     (case res of
        Fault \<Rightarrow> False
      | Return e r \<Rightarrow> (e = kInvalidStream \<or> e = kUnsupportedStream) \<and> hr_remaining r \<le> 8
      | Done v r \<Rightarrow> I r \<and> Q v r)"

named_theorems reads_ok

lemma outcome_ok_if [reads_ok]:
  "(c \<Longrightarrow> outcome_ok I Q m) \<Longrightarrow> (\<not> c \<Longrightarrow> outcome_ok I Q n) \<Longrightarrow> outcome_ok I Q (if c then m else n)"
  by simp

lemma outcome_ok_let [reads_ok]: "outcome_ok I Q (f e) \<Longrightarrow> outcome_ok I Q (Let e f)"
  by simp

lemma outcome_ok_pair [reads_ok]: "outcome_ok I Q (f a b r) \<Longrightarrow> outcome_ok I Q ((case (a, b) of (x, y) \<Rightarrow> f x y) r)"
  by simp

lemma outcome_ok_done [reads_ok]: "I r \<Longrightarrow> Q v r \<Longrightarrow> outcome_ok I Q (Done v r)"
  by (simp add: outcome_ok_def)

lemma outcome_ok_fault [reads_ok]: "False \<Longrightarrow> outcome_ok I Q Fault"
  by simp

lemma outcome_ok_bind [reads_ok]:
  "outcome_ok I (\<lambda>v r. outcome_ok I Q (k v r)) m \<Longrightarrow> outcome_ok I Q (res_or_return m k)"
  by (auto simp: outcome_ok_def res_or_return_def split: h264_outcome.splits)

lemma outcome_ok_mono:
  "outcome_ok I P m \<Longrightarrow> (\<And>v r. I r \<Longrightarrow> P v r \<Longrightarrow> Q v r) \<Longrightarrow> outcome_ok I Q m"
  by (auto simp: outcome_ok_def split: h264_outcome.splits)

locale h264_reads =
  fixes I :: "h264_reader \<Rightarrow> bool"
  assumes remaining: "I r \<Longrightarrow> hr_remaining r \<le> 8"
    and advance: "I r \<Longrightarrow> hr_remaining r' \<le> 8 \<Longrightarrow> reader_bits r = bs @ reader_bits r' \<Longrightarrow>
      NumBitsLeft r' + 8 * hr_epb r' + length bs = NumBitsLeft r + 8 * hr_epb r \<Longrightarrow> I r'"
begin

lemma ok_return [reads_ok]:
  "I r \<Longrightarrow> e = kInvalidStream \<or> e = kUnsupportedStream \<Longrightarrow> outcome_ok I Q (Return e r)"
  by (simp add: outcome_ok_def remaining)

lemma ReadBits_ok:
  assumes "I r" "ReadBits_body n r = (res, r')"
  shows "hr_remaining r' \<le> 8" "res = Some v \<Longrightarrow> I r' \<and> 0 \<le> v \<and> v < 2 ^ n"
proof -
  note inv = ReadBits_inv [OF assms(2) remaining [OF assms(1)]]
  show "hr_remaining r' \<le> 8" by (rule inv(1))
  assume res: "res = Some v"
  then obtain bs where "length bs = n" "reader_bits r = bs @ reader_bits r'" "NumBitsLeft r' + 8 * hr_epb r' + n = NumBitsLeft r + 8 * hr_epb r"
    using inv(2) by blast
  then show "I r' \<and> 0 \<le> v \<and> v < 2 ^ n"
    using advance [OF assms(1) inv(1)] ReadBits_bounds [OF assms(2) [unfolded res] remaining [OF assms(1)]] by simp
qed

lemma read_bits_ok [reads_ok]:
  assumes "I r" "n \<le> 31" "\<And>v r. I r \<Longrightarrow> 0 \<le> v \<Longrightarrow> v < 2 ^ n \<Longrightarrow> outcome_ok I Q (k v r)"
  shows "outcome_ok I Q (READ_BITS_OR_RETURN n r k)"
proof -
  obtain res r' where "ReadBits_body n r = (res, r')" by (cases "ReadBits_body n r")
  then show ?thesis
    using ReadBits_ok [OF assms(1)] assms(2,3) by (auto simp: READ_BITS_OR_RETURN_def H264_ReadBits_def outcome_ok_def [of _ _ "Return _ _"] split: option.split)
qed

lemma read_bool_ok [reads_ok]:
  assumes "I r" "\<And>v r. I r \<Longrightarrow> outcome_ok I Q (k v r)"
  shows "outcome_ok I Q (READ_BOOL_OR_RETURN r k)"
proof -
  obtain res r' where "ReadBits_body 1 r = (res, r')" by (cases "ReadBits_body 1 r")
  then show ?thesis
    using ReadBits_ok [OF assms(1), of 1] assms(2)
    by (auto simp del: One_nat_def simp: READ_BOOL_OR_RETURN_def outcome_ok_def [of _ _ "Return _ _"] split: option.split)
qed

lemma read_ue_ok [reads_ok]:
  assumes "I r" "\<And>v r. I r \<Longrightarrow> 0 \<le> v \<Longrightarrow> v < 2 ^ 31 \<Longrightarrow> outcome_ok I Q (k v r)"
  shows "outcome_ok I Q (READ_UE_OR_RETURN r k)"
proof -
  obtain res r' where u: "ReadUE r = (res, r')" by (cases "ReadUE r")
  note inv = ReadUE_inv [OF u remaining [OF assms(1)]]
  have "I r' \<and> 0 \<le> v \<and> v < 2 ^ 31" if "res = Some v" for v
    using inv(2) [OF that] advance [OF assms(1) inv(1)] by simp
  then show ?thesis using u inv(1) assms(2)
    by (auto simp: READ_UE_OR_RETURN_def outcome_ok_def [of _ _ "Return _ _"] split: option.split)
qed

lemma read_se_ok [reads_ok]:
  assumes "I r" "\<And>v r. I r \<Longrightarrow> - (2 ^ 30) < v \<Longrightarrow> v \<le> 2 ^ 30 \<Longrightarrow> outcome_ok I Q (k v r)"
  shows "outcome_ok I Q (READ_SE_OR_RETURN r k)"
proof -
  obtain res r' where u: "ReadSE r = (res, r')" by (cases "ReadSE r")
  note inv = ReadSE_inv [OF u remaining [OF assms(1)]]
  have "I r' \<and> - (2 ^ 30) < v \<and> v \<le> 2 ^ 30" if "res = Some v" for v
    using inv(2) [OF that] advance [OF assms(1) inv(1)] by simp
  then show ?thesis using u inv(1) assms(2)
    by (auto simp: READ_SE_OR_RETURN_def outcome_ok_def [of _ _ "Return _ _"] split: option.split)
qed

lemma true_ok [reads_ok]: "I r \<Longrightarrow> (b \<Longrightarrow> outcome_ok I Q k) \<Longrightarrow> outcome_ok I Q (TRUE_OR_RETURN b r k)"
  by (simp add: TRUE_OR_RETURN_def ok_return)

lemma in_range_ok [reads_ok]:
  "I r \<Longrightarrow> (lo \<le> v \<Longrightarrow> v \<le> hi \<Longrightarrow> outcome_ok I Q k) \<Longrightarrow> outcome_ok I Q (IN_RANGE_OR_RETURN v lo hi r k)"
  by (simp add: IN_RANGE_OR_RETURN_def ok_return)

end

text \<open>The bounds a parameter set keeps, those of its tables included.\<close>

definition scaling_lists_ok :: "nat \<Rightarrow> int list list \<Rightarrow> bool" where
  "scaling_lists_ok len ls \<longleftrightarrow> length ls = 6 \<and> (\<forall>l\<in>set ls. length l = len \<and> (\<forall>x\<in>set l. 0 \<le> x \<and> x \<le> 255))"

definition order_counts_ok :: "int \<Rightarrow> int \<Rightarrow> int list \<Rightarrow> int \<Rightarrow> bool" where
  "order_counts_ok order_type num_ref_frames offsets expected_delta \<longleftrightarrow>
     int_range expected_delta \<and>
     expected_delta = (if order_type = 1 then sum_list (take (nat num_ref_frames) offsets) else 0)"

definition restrictions_ok :: "bool \<Rightarrow> int \<Rightarrow> int \<Rightarrow> int \<Rightarrow> bool" where
  "restrictions_ok restricted max_ref_frames max_reorder_frames max_buffering \<longleftrightarrow>
     (if restricted then max_ref_frames \<le> max_buffering \<and> 0 \<le> max_reorder_frames \<and> max_reorder_frames \<le> max_buffering
      else max_reorder_frames = 0 \<and> max_buffering = 0)"

definition sps_bounds :: "h264_sps \<Rightarrow> bool" where
  "sps_bounds sps \<longleftrightarrow>
     sps_seq_parameter_set_id sps \<in> {0..<32} \<and> sps_level_idc sps \<in> {0..255} \<and>
     sps_chroma_format_idc sps \<in> {0..3} \<and>
     sps_bit_depth_luma_minus8 sps \<in> {0..6} \<and> sps_bit_depth_chroma_minus8 sps \<in> {0..6} \<and>
     scaling_lists_ok 16 (sps_scaling_list4x4 sps) \<and> scaling_lists_ok 64 (sps_scaling_list8x8 sps) \<and>
     sps_log2_max_frame_num_minus4 sps \<in> {0..12} \<and> sps_pic_order_cnt_type sps \<in> {0..2} \<and>
     sps_log2_max_pic_order_cnt_lsb_minus4 sps \<in> {0..12} \<and>
     sps_num_ref_frames_in_pic_order_cnt_cycle sps \<in> {0..254} \<and> length (sps_offset_for_ref_frame sps) = 255 \<and>
     sps_max_num_ref_frames sps \<in> {0..int_max} \<and>
     sps_pic_width_in_mbs_minus1 sps \<in> {0..int_max} \<and> sps_pic_height_in_map_units_minus1 sps \<in> {0..int_max} \<and>
     sps_frame_crop_left_offset sps \<in> {0..int_max} \<and> sps_frame_crop_right_offset sps \<in> {0..int_max} \<and>
     sps_frame_crop_top_offset sps \<in> {0..int_max} \<and> sps_frame_crop_bottom_offset sps \<in> {0..int_max} \<and>
     sps_sar_width sps \<in> {0..<2 ^ 16} \<and> sps_sar_height sps \<in> {0..<2 ^ 16}"

definition order_counts :: "h264_sps \<Rightarrow> bool" where
  "order_counts sps \<longleftrightarrow> order_counts_ok (sps_pic_order_cnt_type sps) (sps_num_ref_frames_in_pic_order_cnt_cycle sps)
     (sps_offset_for_ref_frame sps) (sps_expected_delta_per_pic_order_cnt_cycle sps)"

definition sps_ok :: "h264_sps \<Rightarrow> bool" where
  "sps_ok sps \<longleftrightarrow> sps_bounds sps \<and> sps_chroma_array_type sps \<in> {0, sps_chroma_format_idc sps} \<and> order_counts sps \<and>
     restrictions_ok (sps_bitstream_restriction_flag sps) (sps_max_num_ref_frames sps)
       (sps_max_num_reorder_frames sps) (sps_max_dec_frame_buffering sps)"

text \<open>A parameter set of which the chroma format, the order counts and the restrictions are to be parsed.\<close>

definition unrestricted :: "h264_sps \<Rightarrow> bool" where
  "unrestricted sps \<longleftrightarrow> \<not> sps_bitstream_restriction_flag sps \<and> sps_max_num_reorder_frames sps = 0 \<and> sps_max_dec_frame_buffering sps = 0"

definition sps_fresh :: "h264_sps \<Rightarrow> bool" where
  "sps_fresh sps \<longleftrightarrow> sps_bounds sps \<and> unrestricted sps \<and> sps_expected_delta_per_pic_order_cnt_cycle sps = 0"

definition sps_part :: "h264_sps \<Rightarrow> bool" where
  "sps_part sps \<longleftrightarrow> sps_bounds sps \<and> unrestricted sps \<and> order_counts sps \<and> sps_chroma_array_type sps \<in> {0, sps_chroma_format_idc sps}"

lemma sps_part_ok: "sps_part sps \<Longrightarrow> sps_ok sps"
  by (simp add: sps_part_def sps_ok_def unrestricted_def restrictions_ok_def)

lemma scaling_lists_ok_zero: "scaling_lists_ok n (replicate 6 (replicate n 0))"
  by (auto simp: scaling_lists_ok_def)

lemma sps_fresh_zero: "sps_fresh H264SPS_zero" "sps_chroma_array_type H264SPS_zero = 0"
  by (simp_all add: sps_fresh_def unrestricted_def sps_bounds_def H264SPS_zero_def scaling_lists_ok_zero int_max_def)

lemma sps_bounds_update [simp]:
  "sps_bounds (sps\<lparr>sps_qpprime_y_zero_transform_bypass_flag := b\<rparr>) \<longleftrightarrow> sps_bounds sps"
  "sps_bounds (sps\<lparr>sps_seq_scaling_matrix_present_flag := b\<rparr>) \<longleftrightarrow> sps_bounds sps"
  "sps_bounds (sps\<lparr>sps_separate_colour_plane_flag := b\<rparr>) \<longleftrightarrow> sps_bounds sps"
  "sps_bounds (sps\<lparr>sps_delta_pic_order_always_zero_flag := b\<rparr>) \<longleftrightarrow> sps_bounds sps"
  "sps_bounds (sps\<lparr>sps_gaps_in_frame_num_value_allowed_flag := b\<rparr>) \<longleftrightarrow> sps_bounds sps"
  "sps_bounds (sps\<lparr>sps_frame_mbs_only_flag := b\<rparr>) \<longleftrightarrow> sps_bounds sps"
  "sps_bounds (sps\<lparr>sps_mb_adaptive_frame_field_flag := b\<rparr>) \<longleftrightarrow> sps_bounds sps"
  "sps_bounds (sps\<lparr>sps_direct_8x8_inference_flag := b\<rparr>) \<longleftrightarrow> sps_bounds sps"
  "sps_bounds (sps\<lparr>sps_frame_cropping_flag := b\<rparr>) \<longleftrightarrow> sps_bounds sps"
  "sps_bounds (sps\<lparr>sps_vui_parameters_present_flag := b\<rparr>) \<longleftrightarrow> sps_bounds sps"
  "sps_bounds (sps\<lparr>sps_bitstream_restriction_flag := b\<rparr>) \<longleftrightarrow> sps_bounds sps"
  "sps_bounds (sps\<lparr>sps_video_signal_type_present_flag := b\<rparr>) \<longleftrightarrow> sps_bounds sps"
  "sps_bounds (sps\<lparr>sps_video_full_range_flag := b\<rparr>) \<longleftrightarrow> sps_bounds sps"
  "sps_bounds (sps\<lparr>sps_colour_description_present_flag := b\<rparr>) \<longleftrightarrow> sps_bounds sps"
  "sps_bounds (sps\<lparr>sps_constraint_set0_flag := b\<rparr>) \<longleftrightarrow> sps_bounds sps"
  "sps_bounds (sps\<lparr>sps_constraint_set1_flag := b\<rparr>) \<longleftrightarrow> sps_bounds sps"
  "sps_bounds (sps\<lparr>sps_constraint_set2_flag := b\<rparr>) \<longleftrightarrow> sps_bounds sps"
  "sps_bounds (sps\<lparr>sps_constraint_set3_flag := b\<rparr>) \<longleftrightarrow> sps_bounds sps"
  "sps_bounds (sps\<lparr>sps_constraint_set4_flag := b\<rparr>) \<longleftrightarrow> sps_bounds sps"
  "sps_bounds (sps\<lparr>sps_constraint_set5_flag := b\<rparr>) \<longleftrightarrow> sps_bounds sps"
  "sps_bounds (sps\<lparr>sps_profile_idc := v\<rparr>) \<longleftrightarrow> sps_bounds sps"
  "sps_bounds (sps\<lparr>sps_offset_for_non_ref_pic := v\<rparr>) \<longleftrightarrow> sps_bounds sps"
  "sps_bounds (sps\<lparr>sps_offset_for_top_to_bottom_field := v\<rparr>) \<longleftrightarrow> sps_bounds sps"
  "sps_bounds (sps\<lparr>sps_max_num_reorder_frames := v\<rparr>) \<longleftrightarrow> sps_bounds sps"
  "sps_bounds (sps\<lparr>sps_max_dec_frame_buffering := v\<rparr>) \<longleftrightarrow> sps_bounds sps"
  "sps_bounds (sps\<lparr>sps_video_format := v\<rparr>) \<longleftrightarrow> sps_bounds sps"
  "sps_bounds (sps\<lparr>sps_colour_primaries := v\<rparr>) \<longleftrightarrow> sps_bounds sps"
  "sps_bounds (sps\<lparr>sps_transfer_characteristics := v\<rparr>) \<longleftrightarrow> sps_bounds sps"
  "sps_bounds (sps\<lparr>sps_matrix_coefficients := v\<rparr>) \<longleftrightarrow> sps_bounds sps"
  "sps_bounds (sps\<lparr>sps_chroma_array_type := v\<rparr>) \<longleftrightarrow> sps_bounds sps"
  "sps_bounds (sps\<lparr>sps_expected_delta_per_pic_order_cnt_cycle := v\<rparr>) \<longleftrightarrow> sps_bounds sps"
  by (simp_all add: sps_bounds_def)

lemma sps_bounds_set [simp]:
  "sps_bounds sps \<Longrightarrow> i \<in> {0..<32} \<Longrightarrow> sps_bounds (sps\<lparr>sps_seq_parameter_set_id := i\<rparr>)"
  "sps_bounds sps \<Longrightarrow> i \<in> {0..255} \<Longrightarrow> sps_bounds (sps\<lparr>sps_level_idc := i\<rparr>)"
  "sps_bounds sps \<Longrightarrow> i \<in> {0..3} \<Longrightarrow> sps_bounds (sps\<lparr>sps_chroma_format_idc := i\<rparr>)"
  "sps_bounds sps \<Longrightarrow> i \<in> {0..6} \<Longrightarrow> sps_bounds (sps\<lparr>sps_bit_depth_luma_minus8 := i\<rparr>)"
  "sps_bounds sps \<Longrightarrow> i \<in> {0..6} \<Longrightarrow> sps_bounds (sps\<lparr>sps_bit_depth_chroma_minus8 := i\<rparr>)"
  "sps_bounds sps \<Longrightarrow> i \<in> {0..12} \<Longrightarrow> sps_bounds (sps\<lparr>sps_log2_max_frame_num_minus4 := i\<rparr>)"
  "sps_bounds sps \<Longrightarrow> i \<in> {0..2} \<Longrightarrow> sps_bounds (sps\<lparr>sps_pic_order_cnt_type := i\<rparr>)"
  "sps_bounds sps \<Longrightarrow> i \<in> {0..12} \<Longrightarrow> sps_bounds (sps\<lparr>sps_log2_max_pic_order_cnt_lsb_minus4 := i\<rparr>)"
  "sps_bounds sps \<Longrightarrow> i \<in> {0..254} \<Longrightarrow> sps_bounds (sps\<lparr>sps_num_ref_frames_in_pic_order_cnt_cycle := i\<rparr>)"
  "sps_bounds sps \<Longrightarrow> i \<in> {0..int_max} \<Longrightarrow> sps_bounds (sps\<lparr>sps_max_num_ref_frames := i\<rparr>)"
  "sps_bounds sps \<Longrightarrow> i \<in> {0..int_max} \<Longrightarrow> sps_bounds (sps\<lparr>sps_pic_width_in_mbs_minus1 := i\<rparr>)"
  "sps_bounds sps \<Longrightarrow> i \<in> {0..int_max} \<Longrightarrow> sps_bounds (sps\<lparr>sps_pic_height_in_map_units_minus1 := i\<rparr>)"
  "sps_bounds sps \<Longrightarrow> i \<in> {0..int_max} \<Longrightarrow> sps_bounds (sps\<lparr>sps_frame_crop_left_offset := i\<rparr>)"
  "sps_bounds sps \<Longrightarrow> i \<in> {0..int_max} \<Longrightarrow> sps_bounds (sps\<lparr>sps_frame_crop_right_offset := i\<rparr>)"
  "sps_bounds sps \<Longrightarrow> i \<in> {0..int_max} \<Longrightarrow> sps_bounds (sps\<lparr>sps_frame_crop_top_offset := i\<rparr>)"
  "sps_bounds sps \<Longrightarrow> i \<in> {0..int_max} \<Longrightarrow> sps_bounds (sps\<lparr>sps_frame_crop_bottom_offset := i\<rparr>)"
  "sps_bounds sps \<Longrightarrow> i \<in> {0..<2 ^ 16} \<Longrightarrow> sps_bounds (sps\<lparr>sps_sar_width := i\<rparr>)"
  "sps_bounds sps \<Longrightarrow> i \<in> {0..<2 ^ 16} \<Longrightarrow> sps_bounds (sps\<lparr>sps_sar_height := i\<rparr>)"
  "sps_bounds sps \<Longrightarrow> scaling_lists_ok 16 ls \<Longrightarrow> sps_bounds (sps\<lparr>sps_scaling_list4x4 := ls\<rparr>)"
  "sps_bounds sps \<Longrightarrow> scaling_lists_ok 64 ls \<Longrightarrow> sps_bounds (sps\<lparr>sps_scaling_list8x8 := ls\<rparr>)"
  "sps_bounds sps \<Longrightarrow> length l = 255 \<Longrightarrow> sps_bounds (sps\<lparr>sps_offset_for_ref_frame := l\<rparr>)"
  by (simp_all add: sps_bounds_def)

lemma scaling_lists_ok_update:
  "scaling_lists_ok n ls \<Longrightarrow> length l = n \<Longrightarrow> \<forall>x\<in>set l. 0 \<le> x \<and> x \<le> 255 \<Longrightarrow> scaling_lists_ok n (ls[i := l])"
  by (auto simp: scaling_lists_ok_def dest!: set_update_subset_insert [THEN subsetD])

lemma scaling_lists_ok_nth:
  "scaling_lists_ok n ls \<Longrightarrow> i < 6 \<Longrightarrow> length (ls ! i) = n \<and> (\<forall>x\<in>set (ls ! i). 0 \<le> x \<and> x \<le> 255)"
  using nth_mem [of i ls] by (auto simp: scaling_lists_ok_def)

lemma scaling_lists_ok_copy: "scaling_lists_ok n ls \<Longrightarrow> j < 6 \<Longrightarrow> scaling_lists_ok n (ls[i := ls ! j])"
  using scaling_lists_ok_nth [of n ls j] by (simp add: scaling_lists_ok_update)

lemma default_lists_ok:
  "length kDefault4x4Intra = 16" "\<forall>x\<in>set kDefault4x4Intra. 0 \<le> x \<and> x \<le> 255"
  "length kDefault4x4Inter = 16" "\<forall>x\<in>set kDefault4x4Inter. 0 \<le> x \<and> x \<le> 255"
  "length kDefault8x8Intra = 64" "\<forall>x\<in>set kDefault8x8Intra. 0 \<le> x \<and> x \<le> 255"
  "length kDefault8x8Inter = 64" "\<forall>x\<in>set kDefault8x8Inter. 0 \<le> x \<and> x \<le> 255"
  by (simp_all add: kDefault4x4Intra_def kDefault4x4Inter_def kDefault8x8Intra_def kDefault8x8Inter_def)

lemma DefaultScalingLists_ok:
  "scaling_lists_ok 16 ls \<Longrightarrow> scaling_lists_ok 16 (DefaultScalingList4x4 i ls)"
  "scaling_lists_ok 64 ls \<Longrightarrow> scaling_lists_ok 64 (DefaultScalingList8x8 i ls)"
  by (simp_all add: DefaultScalingList4x4_def DefaultScalingList8x8_def scaling_lists_ok_update default_lists_ok)

lemma FallbackScalingLists_ok:
  assumes "scaling_lists_ok n ls" "length a = n" "\<forall>x\<in>set a. 0 \<le> x \<and> x \<le> 255" "length b = n" "\<forall>x\<in>set b. 0 \<le> x \<and> x \<le> 255"
  shows "scaling_lists_ok n (FallbackScalingList4x4 i a b ls)" "scaling_lists_ok n (FallbackScalingList8x8 i a b ls)"
  using assms
  by (simp_all add: FallbackScalingList4x4_def FallbackScalingList8x8_def scaling_lists_ok_update scaling_lists_ok_copy)

lemma scale_bounds: "0 \<le> (v :: int) AND 0xff" "v AND 0xff \<le> 255"
proof -
  have "v AND 0xff = v mod 256" using take_bit_eq_mask [of 8 v] by (simp add: take_bit_eq_mod mask_eq_exp_minus_1 ac_simps)
  then show "0 \<le> v AND 0xff" "v AND 0xff \<le> 255" by simp_all
qed

context h264_reads
begin

lemma scaling_list_loop_ok [reads_ok]:
  assumes "I r" "j + n \<le> length l" "\<forall>x\<in>set l. 0 \<le> x \<and> x \<le> 255" "0 \<le> prev \<and> prev \<le> 255" "0 \<le> nxt \<and> nxt \<le> 255"
    "\<And>b l' r. I r \<Longrightarrow> length l' = length l \<Longrightarrow> \<forall>x\<in>set l'. 0 \<le> x \<and> x \<le> 255 \<Longrightarrow> Q (b, l') r"
  shows "outcome_ok I Q (scaling_list_loop j n prev nxt l r)"
  using assms
proof (induction n arbitrary: j prev nxt l r)
  case 0
  then show ?case by (simp add: reads_ok)
next
  case (Suc n)
  have step: "outcome_ok I Q (scaling_list_loop (j + 1) n v w (l[j := v]) r')"
    if "I r'" "0 \<le> v \<and> v \<le> 255" "0 \<le> w \<and> w \<le> 255" for v w r'
  proof (rule Suc.IH [OF that(1) _ _ that(2,3)])
    show "\<forall>x\<in>set (l[j := v]). 0 \<le> x \<and> x \<le> 255"
      using Suc.prems(3) that(2) by (auto dest!: set_update_subset_insert [THEN subsetD])
  qed (use Suc.prems(2,6) in auto)
  show ?case
    unfolding scaling_list_loop.simps
    by (intro reads_ok) (use Suc.prems step scale_bounds in auto)
qed

end

context h264_reads
begin

lemma scaling_lists_loop_ok:
  assumes "I r" "scaling_lists_ok len ls" "i + n \<le> 6"
    "\<And>j ls. scaling_lists_ok len ls \<Longrightarrow> scaling_lists_ok len (use_default j ls)"
    "\<And>j ls. scaling_lists_ok len ls \<Longrightarrow> scaling_lists_ok len (fallback j ls)"
    "\<And>ls r. I r \<Longrightarrow> scaling_lists_ok len ls \<Longrightarrow> Q ls r"
  shows "outcome_ok I Q (scaling_lists_loop len use_default fallback i n ls r)"
  using assms(1-3)
proof (induction n arbitrary: i ls r)
  case 0
  then show ?case using assms(6) by (simp add: reads_ok)
next
  case (Suc n)
  have step: "outcome_ok I Q (scaling_lists_loop len use_default fallback (i + 1) n ls' r')" if "I r'" "scaling_lists_ok len ls'" for ls' r'
    using Suc.IH [OF that] Suc.prems(3) by simp
  have nth: "length (ls ! i) = len" "\<forall>x\<in>set (ls ! i). 0 \<le> x \<and> x \<le> 255" "i < length ls"
    using scaling_lists_ok_nth [OF Suc.prems(2), of i] Suc.prems(2,3) by (auto simp: scaling_lists_ok_def)
  have default: "scaling_lists_ok len (if b then use_default i ls else ls)" if "scaling_lists_ok len ls" for b ls
    using that assms(4) by simp
  show ?case
    unfolding scaling_lists_loop.simps ParseScalingList_def
    by (intro reads_ok step default scaling_lists_ok_update assms(5)) (use Suc.prems(1,2) nth in simp_all)
qed

lemma SPSScalingLists_ok [reads_ok]:
  assumes "I r" "sps_bounds sps"
    "\<And>l4 l8 r. I r \<Longrightarrow> scaling_lists_ok 16 l4 \<Longrightarrow> scaling_lists_ok 64 l8 \<Longrightarrow>
      Q (sps\<lparr>sps_scaling_list4x4 := l4, sps_scaling_list8x8 := l8\<rparr>) r"
  shows "outcome_ok I Q (ParseSPSScalingLists sps r)"
proof -
  have l: "scaling_lists_ok 16 (sps_scaling_list4x4 sps)" "scaling_lists_ok 64 (sps_scaling_list8x8 sps)"
    using assms(2) by (simp_all add: sps_bounds_def)
  show ?thesis
    unfolding ParseSPSScalingLists_def
    by (intro outcome_ok_bind outcome_ok_let outcome_ok_done scaling_lists_loop_ok)
      (use assms(1) l in \<open>auto intro!: DefaultScalingLists_ok FallbackScalingLists_ok assms(3) simp: default_lists_ok\<close>)
qed

lemma hrd_loop_ok [reads_ok]: "I r \<Longrightarrow> (\<And>r. I r \<Longrightarrow> Q () r) \<Longrightarrow> outcome_ok I Q (hrd_loop n r)"
proof (induction n arbitrary: r)
  case (Suc n)
  show ?case unfolding hrd_loop.simps by (intro reads_ok Suc.IH) (use Suc.prems in auto)
qed (simp add: reads_ok)

lemma HRD_ok [reads_ok]:
  "I r \<Longrightarrow> (\<And>b r. I r \<Longrightarrow> Q b r) \<Longrightarrow> outcome_ok I Q (ParseAndIgnoreHRDParameters present r)"
  unfolding ParseAndIgnoreHRDParameters_def by (intro reads_ok) auto

lemma VUI_aspect_ratio_ok [reads_ok]:
  assumes "I r" "sps_part sps" "\<And>sps r. I r \<Longrightarrow> sps_part sps \<Longrightarrow> Q sps r"
  shows "outcome_ok I Q (ParseVUI_aspect_ratio sps r)"
proof -
  have sar: "sps_part (sps\<lparr>sps_sar_width := w, sps_sar_height := h\<rparr>)" if "w \<in> {0..<2 ^ 16}" "h \<in> {0..<2 ^ 16}" for w h
    using assms(2) that by (simp add: sps_part_def unrestricted_def order_counts_def)
  have sizes: "length kTableSarWidth = 17" "length kTableSarHeight = 17" by (simp_all add: kTableSarWidth_def kTableSarHeight_def)
  have entry: "x \<in> {0..<2 ^ 16}" if "x \<in> set kTableSarWidth \<or> x \<in> set kTableSarHeight" for x
    using that by (auto simp: kTableSarWidth_def kTableSarHeight_def)
  have "kTableSarWidth ! nat k \<in> {0..<2 ^ 16} \<and> kTableSarHeight ! nat k \<in> {0..<2 ^ 16}" if "0 \<le> k" "k \<le> 16" for k
    using that entry nth_mem [of "nat k" kTableSarWidth] nth_mem [of "nat k" kTableSarHeight] by (simp add: sizes)
  then show ?thesis
    unfolding ParseVUI_aspect_ratio_def
    by (intro reads_ok assms(3) sar) (use assms(1,2) in \<open>simp_all add: sizes\<close>)
qed

lemma VUI_video_signal_ok [reads_ok]:
  assumes "I r" "sps_part sps" "\<And>sps r. I r \<Longrightarrow> sps_part sps \<Longrightarrow> Q sps r"
  shows "outcome_ok I Q (ParseVUI_video_signal sps r)"
  unfolding ParseVUI_video_signal_def
  by (intro reads_ok assms(3)) (use assms(1,2) in \<open>simp_all add: sps_part_def unrestricted_def order_counts_def\<close>)

lemma VUI_timing_ok [reads_ok]: "I r \<Longrightarrow> (\<And>r. I r \<Longrightarrow> Q () r) \<Longrightarrow> outcome_ok I Q (ParseVUI_timing r)"
  unfolding ParseVUI_timing_def by (intro reads_ok) auto

lemma VUI_restriction_ok [reads_ok]:
  assumes "I r" "sps_part sps" "\<And>sps r. I r \<Longrightarrow> sps_ok sps \<Longrightarrow> Q sps r"
  shows "outcome_ok I Q (ParseVUI_restriction sps r)"
  unfolding ParseVUI_restriction_def
  by (intro reads_ok assms(3))
    (use assms(1,2) in \<open>simp_all add: sps_part_def unrestricted_def order_counts_def sps_ok_def restrictions_ok_def\<close>)

lemma VUI_ok [reads_ok]:
  assumes "I r" "sps_part sps" "\<And>sps r. I r \<Longrightarrow> sps_ok sps \<Longrightarrow> Q sps r"
  shows "outcome_ok I Q (ParseVUIParameters sps r)"
  unfolding ParseVUIParameters_def by (intro reads_ok assms)

end

lemma sum_list_take_update:
  "i < length xs \<Longrightarrow> sum_list (take (Suc i) (xs[i := v])) = sum_list (take i xs) + (v :: int)"
  by (simp add: take_Suc_conv_app_nth)

lemma FillDefault_bounds: "sps_bounds sps \<Longrightarrow> sps_bounds (FillDefaultSeqScalingLists sps)"
  by (simp add: FillDefaultSeqScalingLists_def scaling_lists_ok_def)

context h264_reads
begin

lemma SPS_profile_ok [reads_ok]:
  assumes "I r" "\<And>sps r. I r \<Longrightarrow> sps_fresh sps \<Longrightarrow> sps_chroma_array_type sps = 0 \<Longrightarrow> Q sps r"
  shows "outcome_ok I Q (ParseSPS_profile r)"
  unfolding ParseSPS_profile_def
  by (intro reads_ok assms(2)) (use assms(1) sps_fresh_zero in \<open>simp_all add: sps_fresh_def unrestricted_def\<close>)

lemma SPS_chroma_ok [reads_ok]:
  assumes "I r" "sps_fresh sps"
    "\<And>sps r. I r \<Longrightarrow> sps_fresh sps \<Longrightarrow> sps_chroma_array_type sps \<in> {0, sps_chroma_format_idc sps} \<Longrightarrow> Q sps r"
  shows "outcome_ok I Q (ParseSPS_chroma sps r)"
  unfolding ParseSPS_chroma_def
  by (intro reads_ok assms(3))
    (use assms(1,2) FillDefault_bounds in \<open>simp_all add: sps_fresh_def unrestricted_def FillDefaultSeqScalingLists_def scaling_lists_ok_def\<close>)

lemma ref_frame_offsets_ok:
  assumes "I r" "i + n \<le> 255" "length (sps_offset_for_ref_frame sps) = 255"
    "\<And>a. acc = Some a \<Longrightarrow> int_range a \<and> a = sum_list (take i (sps_offset_for_ref_frame sps))"
    "\<And>acc l r. I r \<Longrightarrow> length l = 255 \<Longrightarrow> (\<And>a. acc = Some a \<Longrightarrow> int_range a \<and> a = sum_list (take (i + n) l)) \<Longrightarrow>
      Q (acc, sps\<lparr>sps_offset_for_ref_frame := l\<rparr>) r"
  shows "outcome_ok I Q (ref_frame_offsets i n acc sps r)"
  using assms
proof (induction n arbitrary: i acc sps r)
  case 0
  have "Q (acc, sps\<lparr>sps_offset_for_ref_frame := sps_offset_for_ref_frame sps\<rparr>) r" by (rule "0.prems"(5)) (use "0.prems" in auto)
  then show ?case using "0.prems"(1) by (simp add: outcome_ok_done)
next
  case (Suc n)
  have step: "outcome_ok I Q (ref_frame_offsets (i + 1) n (checked_add acc v)
      (sps\<lparr>sps_offset_for_ref_frame := (sps_offset_for_ref_frame sps)[i := v]\<rparr>) r')" if r': "I r'" for v r'
  proof (rule Suc.IH [OF r'])
    show "int_range a \<and> a = sum_list (take (i + 1)
        (sps_offset_for_ref_frame (sps\<lparr>sps_offset_for_ref_frame := (sps_offset_for_ref_frame sps)[i := v]\<rparr>)))"
      if "checked_add acc v = Some a" for a
      using that Suc.prems(2-4) by (auto simp: checked_add_def sum_list_take_update split: option.splits if_splits)
    show "Q (acc, sps\<lparr>sps_offset_for_ref_frame := (sps_offset_for_ref_frame sps)[i := v], sps_offset_for_ref_frame := l\<rparr>) r"
      if "I r" "length l = 255" "\<And>a. acc = Some a \<Longrightarrow> int_range a \<and> a = sum_list (take (i + 1 + n) l)" for acc l r
      using Suc.prems(5) [of r l acc] that by simp
  qed (use Suc.prems(2,3) in auto)
  show ?case unfolding ref_frame_offsets.simps by (intro reads_ok step) (use Suc.prems(1-3) in simp_all)
qed

lemma SPS_order_count_ok [reads_ok]:
  assumes "I r" "sps_fresh sps" "sps_chroma_array_type sps \<in> {0, sps_chroma_format_idc sps}"
    "\<And>sps r. I r \<Longrightarrow> sps_part sps \<Longrightarrow> Q sps r"
  shows "outcome_ok I Q (ParseSPS_order_count sps r)"
proof -
  have none: "outcome_ok I Q (case acc of None \<Rightarrow> Return kInvalidStream r | Some a \<Rightarrow> k a)"
    if "I r" "\<And>a. acc = Some a \<Longrightarrow> outcome_ok I Q (k a)" for acc r and k :: "int \<Rightarrow> 'b h264_outcome" and Q
    using that by (cases acc) (auto intro: reads_ok)
  have "length (sps_offset_for_ref_frame sps) = 255" using assms(2) by (simp add: sps_fresh_def sps_bounds_def)
  then show ?thesis
    unfolding ParseSPS_order_count_def
    by (intro reads_ok assms(4) none ref_frame_offsets_ok)
      (use assms(1-3) in \<open>simp_all add: sps_fresh_def sps_part_def unrestricted_def order_counts_def order_counts_ok_def int_range_def int_max_def\<close>)
qed

lemma SPS_size_ok [reads_ok]:
  assumes "I r" "sps_part sps" "\<And>sps r. I r \<Longrightarrow> sps_ok sps \<Longrightarrow> Q sps r"
  shows "outcome_ok I Q (ParseSPS_size sps r)"
  unfolding ParseSPS_size_def
  by (intro reads_ok assms(3))
    (use assms(1,2) in \<open>simp_all add: sps_part_def sps_ok_def restrictions_ok_def unrestricted_def order_counts_def int_max_def\<close>)

lemma ParseSPS_body_ok:
  assumes "I r"
  shows "outcome_ok I (\<lambda>sps r. sps_ok sps) (ParseSPS_body r)"
  unfolding ParseSPS_body_def by (intro reads_ok assms)

end

definition pps_bounds :: "h264_pps \<Rightarrow> bool" where
  "pps_bounds pps \<longleftrightarrow>
     pps_pic_parameter_set_id pps \<in> {0..int_max} \<and>
     pps_seq_parameter_set_id pps \<in> {0..<32} \<and>
     pps_num_slice_groups_minus1 pps \<in> {0..1} \<and>
     pps_num_ref_idx_l0_default_active_minus1 pps \<in> {0..31} \<and>
     pps_num_ref_idx_l1_default_active_minus1 pps \<in> {0..31} \<and>
     pps_weighted_bipred_idc pps \<in> {0..2} \<and>
     pps_pic_init_qp_minus26 pps \<in> {- 26..25} \<and>
     pps_pic_init_qs_minus26 pps \<in> {- 26..25} \<and>
     pps_chroma_qp_index_offset pps \<in> {- 12..12} \<and>
     scaling_lists_ok 16 (pps_scaling_list4x4 pps) \<and> scaling_lists_ok 64 (pps_scaling_list8x8 pps)"

definition pps_ok :: "(int \<Rightarrow> h264_sps option) \<Rightarrow> h264_pps \<Rightarrow> bool" where
  "pps_ok active_SPSes pps \<longleftrightarrow> pps_bounds pps \<and> active_SPSes (pps_seq_parameter_set_id pps) \<noteq> None"

definition active_ok :: "(int \<Rightarrow> h264_sps option) \<Rightarrow> bool" where
  "active_ok active_SPSes \<longleftrightarrow>
     (\<forall>id. case active_SPSes id of None \<Rightarrow> True | Some sps \<Rightarrow> sps_ok sps \<and> sps_seq_parameter_set_id sps = id)"

lemma pps_bounds_update [simp]:
  "pps_bounds (pps\<lparr>pps_entropy_coding_mode_flag := b\<rparr>) \<longleftrightarrow> pps_bounds pps"
  "pps_bounds (pps\<lparr>pps_bottom_field_pic_order_in_frame_present_flag := b\<rparr>) \<longleftrightarrow> pps_bounds pps"
  "pps_bounds (pps\<lparr>pps_weighted_pred_flag := b\<rparr>) \<longleftrightarrow> pps_bounds pps"
  "pps_bounds (pps\<lparr>pps_deblocking_filter_control_present_flag := b\<rparr>) \<longleftrightarrow> pps_bounds pps"
  "pps_bounds (pps\<lparr>pps_constrained_intra_pred_flag := b\<rparr>) \<longleftrightarrow> pps_bounds pps"
  "pps_bounds (pps\<lparr>pps_redundant_pic_cnt_present_flag := b\<rparr>) \<longleftrightarrow> pps_bounds pps"
  "pps_bounds (pps\<lparr>pps_transform_8x8_mode_flag := b\<rparr>) \<longleftrightarrow> pps_bounds pps"
  "pps_bounds (pps\<lparr>pps_pic_scaling_matrix_present_flag := b\<rparr>) \<longleftrightarrow> pps_bounds pps"
  "pps_bounds (pps\<lparr>pps_second_chroma_qp_index_offset := v\<rparr>) \<longleftrightarrow> pps_bounds pps"
  by (simp_all add: pps_bounds_def)

lemma pps_bounds_set [simp]:
  "pps_bounds pps \<Longrightarrow> v \<in> {0..int_max} \<Longrightarrow> pps_bounds (pps\<lparr>pps_pic_parameter_set_id := v\<rparr>)"
  "pps_bounds pps \<Longrightarrow> v \<in> {0..<32} \<Longrightarrow> pps_bounds (pps\<lparr>pps_seq_parameter_set_id := v\<rparr>)"
  "pps_bounds pps \<Longrightarrow> v \<in> {0..1} \<Longrightarrow> pps_bounds (pps\<lparr>pps_num_slice_groups_minus1 := v\<rparr>)"
  "pps_bounds pps \<Longrightarrow> v \<in> {0..31} \<Longrightarrow> pps_bounds (pps\<lparr>pps_num_ref_idx_l0_default_active_minus1 := v\<rparr>)"
  "pps_bounds pps \<Longrightarrow> v \<in> {0..31} \<Longrightarrow> pps_bounds (pps\<lparr>pps_num_ref_idx_l1_default_active_minus1 := v\<rparr>)"
  "pps_bounds pps \<Longrightarrow> v \<in> {0..2} \<Longrightarrow> pps_bounds (pps\<lparr>pps_weighted_bipred_idc := v\<rparr>)"
  "pps_bounds pps \<Longrightarrow> v \<in> {- 26..25} \<Longrightarrow> pps_bounds (pps\<lparr>pps_pic_init_qp_minus26 := v\<rparr>)"
  "pps_bounds pps \<Longrightarrow> v \<in> {- 26..25} \<Longrightarrow> pps_bounds (pps\<lparr>pps_pic_init_qs_minus26 := v\<rparr>)"
  "pps_bounds pps \<Longrightarrow> v \<in> {- 12..12} \<Longrightarrow> pps_bounds (pps\<lparr>pps_chroma_qp_index_offset := v\<rparr>)"
  "pps_bounds pps \<Longrightarrow> scaling_lists_ok 16 ls \<Longrightarrow> pps_bounds (pps\<lparr>pps_scaling_list4x4 := ls\<rparr>)"
  "pps_bounds pps \<Longrightarrow> scaling_lists_ok 64 ls \<Longrightarrow> pps_bounds (pps\<lparr>pps_scaling_list8x8 := ls\<rparr>)"
  by (simp_all add: pps_bounds_def)

lemma pps_bounds_zero: "pps_bounds H264PPS_zero"
  by (simp add: pps_bounds_def H264PPS_zero_def scaling_lists_ok_zero int_max_def)

lemma active_okD: "active_ok active \<Longrightarrow> active i = Some sps \<Longrightarrow> sps_ok sps \<and> sps_seq_parameter_set_id sps = i"
  unfolding active_ok_def by (elim allE [of _ i]) simp

lemma outcome_ok_case_pair [reads_ok]:
  "(\<And>a b. p = (a, b) \<Longrightarrow> outcome_ok I Q (f a b)) \<Longrightarrow> outcome_ok I Q (case p of (a, b) \<Rightarrow> f a b)"
  by (cases p) simp

locale h264_whole_reads = h264_reads +
  assumes has_more: "I r \<Longrightarrow> HasMoreRBSPData r = (b, r') \<Longrightarrow> I r'"
begin

lemma PPSScalingLists_ok:
  assumes "I r" "sps_ok sps" "pps_bounds pps"
    "\<And>pps' r. I r \<Longrightarrow> pps_bounds pps' \<Longrightarrow> pps_seq_parameter_set_id pps' = pps_seq_parameter_set_id pps \<Longrightarrow> Q pps' r"
  shows "outcome_ok I Q (ParsePPSScalingLists sps pps r)"
proof -
  have l: "scaling_lists_ok 16 (pps_scaling_list4x4 pps)" "scaling_lists_ok 64 (pps_scaling_list8x8 pps)"
    "scaling_lists_ok 16 (sps_scaling_list4x4 sps)" "scaling_lists_ok 64 (sps_scaling_list8x8 sps)"
    using assms(2,3) by (simp_all add: pps_bounds_def sps_ok_def sps_bounds_def)
  have fallback:
    "scaling_lists_ok 16 ((if b then FallbackScalingList4x4 i kDefault4x4Intra kDefault4x4Inter
       else FallbackScalingList4x4 i (sps_scaling_list4x4 sps ! 0) (sps_scaling_list4x4 sps ! 3)) ls)"
    if "scaling_lists_ok 16 ls" for i ls b
    using that scaling_lists_ok_nth [OF l(3), of 0] scaling_lists_ok_nth [OF l(3), of 3]
    by (cases b) (auto intro!: FallbackScalingLists_ok simp: default_lists_ok)
  have fallback8:
    "scaling_lists_ok 64 ((if b then FallbackScalingList8x8 i kDefault8x8Intra kDefault8x8Inter
       else FallbackScalingList8x8 i (sps_scaling_list8x8 sps ! 0) (sps_scaling_list8x8 sps ! 1)) ls)"
    if "scaling_lists_ok 64 ls" for i ls b
    using that scaling_lists_ok_nth [OF l(4), of 0] scaling_lists_ok_nth [OF l(4), of 1]
    by (cases b) (auto intro!: FallbackScalingLists_ok simp: default_lists_ok)
  show ?thesis
    unfolding ParsePPSScalingLists_def
    by (intro outcome_ok_bind outcome_ok_let outcome_ok_done outcome_ok_if scaling_lists_loop_ok assms(4)
        DefaultScalingLists_ok fallback fallback8)
      (use assms(1,3) l in simp_all)
qed

lemma ParsePPS_body_ok:
  assumes "I r" "active_ok active_SPSes"
  shows "outcome_ok I (\<lambda>pps r. pps_ok active_SPSes pps) (ParsePPS_body active_SPSes r)"
  unfolding ParsePPS_body_def
  by (intro reads_ok PPSScalingLists_ok)
    (use assms pps_bounds_zero in \<open>auto simp: pps_ok_def int_max_def dest: active_okD has_more\<close>)

end

text \<open>The bounds a slice header keeps, those of its arrays included.\<close>

definition modifications_ok :: "h264_modification list \<Rightarrow> bool" where
  "modifications_ok ms \<longleftrightarrow> length ms = 32 \<and> (\<forall>m\<in>set ms. mod_modification_of_pic_nums_idc m \<in> {0..3} \<and> 0 \<le> mod_value m)"

definition markings_ok :: "h264_ref_pic_marking list \<Rightarrow> bool" where
  "markings_ok ms \<longleftrightarrow> length ms = 32 \<and> (\<forall>m\<in>set ms. rpm_memory_mgmnt_control_operation m \<in> {0..6})"

definition pairs_ok :: "int list list \<Rightarrow> bool" where
  "pairs_ok xss \<longleftrightarrow> length xss = 32 \<and> (\<forall>xs\<in>set xss. length xs = 2 \<and> (\<forall>x\<in>set xs. - 128 \<le> x \<and> x \<le> 128))"

definition ints_ok :: "int list \<Rightarrow> bool" where
  "ints_ok xs \<longleftrightarrow> length xs = 32 \<and> set xs \<subseteq> {- 128..128}"

definition weights_ok :: "h264_weighting_factors \<Rightarrow> bool" where
  "weights_ok w \<longleftrightarrow>
     ints_ok (wf_luma_weight w) \<and> ints_ok (wf_luma_offset w) \<and> pairs_ok (wf_chroma_weight w) \<and> pairs_ok (wf_chroma_offset w)"

definition slice_ok :: "nat \<Rightarrow> h264_slice_header \<Rightarrow> bool" where
  "slice_ok n sh \<longleftrightarrow>
     sh_nalu_size sh = int n \<and> \<not> sh_field_pic_flag sh \<and>
     sh_slice_type sh \<in> {0..9} \<and>
     sh_frame_num sh \<in> {0..<2 ^ 16} \<and>
     sh_pic_order_cnt_lsb sh \<in> {0..<2 ^ 16} \<and>
     sh_redundant_pic_cnt sh \<in> {0..127} \<and>
     sh_num_ref_idx_l0_active_minus1 sh \<in> {0..15} \<and>
     sh_num_ref_idx_l1_active_minus1 sh \<in> {0..15} \<and>
     sh_luma_log2_weight_denom sh \<in> {0..7} \<and>
     sh_chroma_log2_weight_denom sh \<in> {0..7} \<and>
     sh_cabac_init_idc sh \<in> {0..2} \<and>
     sh_disable_deblocking_filter_idc sh \<in> {0..2} \<and>
     sh_slice_alpha_c0_offset_div2 sh \<in> {- 6..6} \<and>
     sh_slice_beta_offset_div2 sh \<in> {- 6..6} \<and>
     modifications_ok (sh_ref_list_l0_modifications sh) \<and> modifications_ok (sh_ref_list_l1_modifications sh) \<and> weights_ok (sh_pred_weight_table_l0 sh) \<and> weights_ok (sh_pred_weight_table_l1 sh) \<and> markings_ok (sh_ref_pic_marking sh)"

lemma slice_ok_update [simp]:
  "slice_ok n (sh\<lparr>sh_idr_pic_flag := b\<rparr>) \<longleftrightarrow> slice_ok n sh"
  "slice_ok n (sh\<lparr>sh_nal_ref_idc := v\<rparr>) \<longleftrightarrow> slice_ok n sh"
  "slice_ok n (sh\<lparr>sh_nalu_data := p\<rparr>) \<longleftrightarrow> slice_ok n sh"
  "slice_ok n (sh\<lparr>sh_idr_pic_id := v\<rparr>) \<longleftrightarrow> slice_ok n sh"
  "slice_ok n (sh\<lparr>sh_bottom_field_flag := b\<rparr>) \<longleftrightarrow> slice_ok n sh"
  "slice_ok n (sh\<lparr>sh_colour_plane_id := v\<rparr>) \<longleftrightarrow> slice_ok n sh"
  "slice_ok n (sh\<lparr>sh_first_mb_in_slice := v\<rparr>) \<longleftrightarrow> slice_ok n sh"
  "slice_ok n (sh\<lparr>sh_header_bit_size := v\<rparr>) \<longleftrightarrow> slice_ok n sh"
  "slice_ok n (sh\<lparr>sh_dec_ref_pic_marking_bit_size := v\<rparr>) \<longleftrightarrow> slice_ok n sh"
  "slice_ok n (sh\<lparr>sh_pic_order_cnt_bit_size := v\<rparr>) \<longleftrightarrow> slice_ok n sh"
  "slice_ok n (sh\<lparr>sh_delta_pic_order_cnt_bottom := v\<rparr>) \<longleftrightarrow> slice_ok n sh"
  "slice_ok n (sh\<lparr>sh_delta_pic_order_cnt0 := v\<rparr>) \<longleftrightarrow> slice_ok n sh"
  "slice_ok n (sh\<lparr>sh_delta_pic_order_cnt1 := v\<rparr>) \<longleftrightarrow> slice_ok n sh"
  "slice_ok n (sh\<lparr>sh_direct_spatial_mv_pred_flag := b\<rparr>) \<longleftrightarrow> slice_ok n sh"
  "slice_ok n (sh\<lparr>sh_num_ref_idx_active_override_flag := b\<rparr>) \<longleftrightarrow> slice_ok n sh"
  "slice_ok n (sh\<lparr>sh_ref_pic_list_modification_flag_l0 := b\<rparr>) \<longleftrightarrow> slice_ok n sh"
  "slice_ok n (sh\<lparr>sh_ref_pic_list_modification_flag_l1 := b\<rparr>) \<longleftrightarrow> slice_ok n sh"
  "slice_ok n (sh\<lparr>sh_no_output_of_prior_pics_flag := b\<rparr>) \<longleftrightarrow> slice_ok n sh"
  "slice_ok n (sh\<lparr>sh_long_term_reference_flag := b\<rparr>) \<longleftrightarrow> slice_ok n sh"
  "slice_ok n (sh\<lparr>sh_adaptive_ref_pic_marking_mode_flag := b\<rparr>) \<longleftrightarrow> slice_ok n sh"
  "slice_ok n (sh\<lparr>sh_slice_qp_delta := v\<rparr>) \<longleftrightarrow> slice_ok n sh"
  "slice_ok n (sh\<lparr>sh_sp_for_switch_flag := b\<rparr>) \<longleftrightarrow> slice_ok n sh"
  "slice_ok n (sh\<lparr>sh_slice_qs_delta := v\<rparr>) \<longleftrightarrow> slice_ok n sh"
  "slice_ok n (sh\<lparr>sh_pic_parameter_set_id := v\<rparr>) \<longleftrightarrow> slice_ok n sh"
  by (simp_all add: slice_ok_def)

lemma slice_ok_set [simp]:
  "slice_ok n sh \<Longrightarrow> v \<in> {0..9} \<Longrightarrow> slice_ok n (sh\<lparr>sh_slice_type := v\<rparr>)"
  "slice_ok n sh \<Longrightarrow> v \<in> {0..<2 ^ 16} \<Longrightarrow> slice_ok n (sh\<lparr>sh_frame_num := v\<rparr>)"
  "slice_ok n sh \<Longrightarrow> v \<in> {0..<2 ^ 16} \<Longrightarrow> slice_ok n (sh\<lparr>sh_pic_order_cnt_lsb := v\<rparr>)"
  "slice_ok n sh \<Longrightarrow> v \<in> {0..127} \<Longrightarrow> slice_ok n (sh\<lparr>sh_redundant_pic_cnt := v\<rparr>)"
  "slice_ok n sh \<Longrightarrow> v \<in> {0..15} \<Longrightarrow> slice_ok n (sh\<lparr>sh_num_ref_idx_l0_active_minus1 := v\<rparr>)"
  "slice_ok n sh \<Longrightarrow> v \<in> {0..15} \<Longrightarrow> slice_ok n (sh\<lparr>sh_num_ref_idx_l1_active_minus1 := v\<rparr>)"
  "slice_ok n sh \<Longrightarrow> v \<in> {0..7} \<Longrightarrow> slice_ok n (sh\<lparr>sh_luma_log2_weight_denom := v\<rparr>)"
  "slice_ok n sh \<Longrightarrow> v \<in> {0..7} \<Longrightarrow> slice_ok n (sh\<lparr>sh_chroma_log2_weight_denom := v\<rparr>)"
  "slice_ok n sh \<Longrightarrow> v \<in> {0..2} \<Longrightarrow> slice_ok n (sh\<lparr>sh_cabac_init_idc := v\<rparr>)"
  "slice_ok n sh \<Longrightarrow> v \<in> {0..2} \<Longrightarrow> slice_ok n (sh\<lparr>sh_disable_deblocking_filter_idc := v\<rparr>)"
  "slice_ok n sh \<Longrightarrow> v \<in> {- 6..6} \<Longrightarrow> slice_ok n (sh\<lparr>sh_slice_alpha_c0_offset_div2 := v\<rparr>)"
  "slice_ok n sh \<Longrightarrow> v \<in> {- 6..6} \<Longrightarrow> slice_ok n (sh\<lparr>sh_slice_beta_offset_div2 := v\<rparr>)"
  "slice_ok n sh \<Longrightarrow> modifications_ok ms \<Longrightarrow> slice_ok n (sh\<lparr>sh_ref_list_l0_modifications := ms\<rparr>)"
  "slice_ok n sh \<Longrightarrow> modifications_ok ms \<Longrightarrow> slice_ok n (sh\<lparr>sh_ref_list_l1_modifications := ms\<rparr>)"
  "slice_ok n sh \<Longrightarrow> weights_ok w \<Longrightarrow> slice_ok n (sh\<lparr>sh_pred_weight_table_l0 := w\<rparr>)"
  "slice_ok n sh \<Longrightarrow> weights_ok w \<Longrightarrow> slice_ok n (sh\<lparr>sh_pred_weight_table_l1 := w\<rparr>)"
  "slice_ok n sh \<Longrightarrow> markings_ok rs \<Longrightarrow> slice_ok n (sh\<lparr>sh_ref_pic_marking := rs\<rparr>)"
  "slice_ok n sh \<Longrightarrow> slice_ok n (sh\<lparr>sh_field_pic_flag := False\<rparr>)"
  by (simp_all add: slice_ok_def)

lemma slice_ok_zero: "slice_ok n (H264SliceHeader_zero\<lparr>sh_nalu_size := int n\<rparr>)"
  by (simp add: slice_ok_def H264SliceHeader_zero_def modifications_ok_def markings_ok_def weights_ok_def ints_ok_def pairs_ok_def
      weighting_factors_zero_def ref_pic_marking_zero_def)

lemma list_update_all: "\<forall>x\<in>set xs. P x \<Longrightarrow> P v \<Longrightarrow> \<forall>x\<in>set (xs[i := v]). P x"
  by (auto dest!: set_update_subset_insert [THEN subsetD])

lemma pairs_ok_set2:
  assumes "pairs_ok xss" "i < 32" "v \<in> {- 128..128}"
  shows "pairs_ok (set2 i j v xss)"
proof -
  have l: "length xss = 32" and all: "\<forall>xs\<in>set xss. length xs = 2 \<and> (\<forall>x\<in>set xs. - 128 \<le> x \<and> x \<le> 128)"
    using assms(1) by (simp_all add: pairs_ok_def)
  have entry: "length (xss ! i) = 2 \<and> (\<forall>x\<in>set (xss ! i). - 128 \<le> x \<and> x \<le> 128)"
    by (rule bspec [OF all nth_mem]) (simp add: l assms(2))
  have "\<forall>x\<in>set ((xss ! i)[j := v]). - 128 \<le> x \<and> x \<le> 128"
    by (rule list_update_all [OF conjunct2 [OF entry]]) (use assms(3) in simp)
  then have new: "length ((xss ! i)[j := v]) = 2 \<and> (\<forall>x\<in>set ((xss ! i)[j := v]). - 128 \<le> x \<and> x \<le> 128)"
    using entry by simp
  show ?thesis
    unfolding pairs_ok_def set2_def using l by (intro conjI list_update_all [OF all new]) simp
qed

lemma ints_ok_update: "ints_ok xs \<Longrightarrow> v \<in> {- 128..128} \<Longrightarrow> ints_ok (xs[i := v])"
  using set_update_subset_insert [of xs i v] by (auto simp: ints_ok_def)

lemma weights_ok_luma [simp]:
  "weights_ok w \<Longrightarrow> ints_ok xs \<Longrightarrow> ints_ok ys \<Longrightarrow> weights_ok (w\<lparr>wf_luma_weight := xs, wf_luma_offset := ys\<rparr>)"
  by (simp add: weights_ok_def)

lemma weights_ok_chroma [simp]:
  "weights_ok w \<Longrightarrow> pairs_ok xs \<Longrightarrow> pairs_ok ys \<Longrightarrow> weights_ok (w\<lparr>wf_chroma_weight := xs, wf_chroma_offset := ys\<rparr>)"
  by (simp add: weights_ok_def)

lemma weights_okD:
  "weights_ok w \<Longrightarrow> ints_ok (wf_luma_weight w)" "weights_ok w \<Longrightarrow> ints_ok (wf_luma_offset w)"
  "weights_ok w \<Longrightarrow> pairs_ok (wf_chroma_weight w)" "weights_ok w \<Longrightarrow> pairs_ok (wf_chroma_offset w)"
  by (simp_all add: weights_ok_def)

lemma weights_ok_flags [simp]:
  "weights_ok (w\<lparr>wf_luma_weight_flag := b\<rparr>) = weights_ok w" "weights_ok (w\<lparr>wf_chroma_weight_flag := b\<rparr>) = weights_ok w"
  by (simp_all add: weights_ok_def)

context h264_reads
begin

lemma modification_loop_ok:
  assumes "I r" "modifications_ok ms" "i + n \<le> 32" "\<And>b ms r. I r \<Longrightarrow> modifications_ok ms \<Longrightarrow> Q (b, ms) r"
  shows "outcome_ok I Q (modification_loop i n ms r)"
  using assms(1-3)
proof (induction n arbitrary: i ms r)
  case 0
  then show ?case using assms(4) by (simp add: reads_ok)
next
  case (Suc n)
  have i: "i < length ms" "0 \<le> mod_value (ms ! i)"
    using Suc.prems(2,3) nth_mem [of i ms] by (simp_all add: modifications_ok_def)
  have set: "modifications_ok (ms[i := m])" if "mod_modification_of_pic_nums_idc m \<in> {0..3}" "0 \<le> mod_value m" for m
    using Suc.prems(2) that unfolding modifications_ok_def by (intro conjI list_update_all) simp_all
  have step: "outcome_ok I Q (modification_loop (i + 1) n ms' r')" if "I r'" "modifications_ok ms'" for ms' r'
    using Suc.IH [OF that] Suc.prems(3) by simp
  show ?case
    unfolding modification_loop.simps
    by (intro reads_ok step assms(4)) (use Suc.prems i in \<open>auto intro!: set\<close>)
qed

lemma RefPicListModification_ok [reads_ok]:
  assumes "I r" "modifications_ok ms" "\<And>ms r. I r \<Longrightarrow> modifications_ok ms \<Longrightarrow> Q ms r"
  shows "outcome_ok I Q (ParseRefPicListModification k ms r)"
  unfolding ParseRefPicListModification_def by (intro reads_ok modification_loop_ok assms(3)) (use assms(1,2) in auto)

lemma RefPicListModifications_ok [reads_ok]:
  assumes "I r" "slice_ok n sh" "\<And>sh r. I r \<Longrightarrow> slice_ok n sh \<Longrightarrow> Q sh r"
  shows "outcome_ok I Q (ParseRefPicListModifications sh r)"
proof -
  have "modifications_ok (sh_ref_list_l0_modifications sh)" "modifications_ok (sh_ref_list_l1_modifications sh)"
    using assms(2) by (simp_all add: slice_ok_def)
  then show ?thesis
    unfolding ParseRefPicListModifications_def by (intro reads_ok assms(3)) (use assms(1,2) in simp_all)
qed

lemma chroma_factors_ok:
  assumes "I r" "weights_ok w" "i < 32" "\<And>w r. I r \<Longrightarrow> weights_ok w \<Longrightarrow> Q w r"
  shows "outcome_ok I Q (chroma_factors i j n w r)"
  using assms(1-2)
proof (induction n arbitrary: j w r)
  case 0
  then show ?case using assms(4) by (simp add: reads_ok)
next
  case (Suc n)
  show ?case
    unfolding chroma_factors.simps
    by (intro reads_ok Suc.IH) (use Suc.prems assms(3) in \<open>simp_all add: pairs_ok_set2 weights_okD\<close>)
qed

lemma weighting_loop_ok:
  assumes "I r" "weights_ok w" "i + n \<le> 32" "lw \<in> {- 128..128}" "cw \<in> {- 128..128}" "\<And>w r. I r \<Longrightarrow> weights_ok w \<Longrightarrow> Q w r"
  shows "outcome_ok I Q (weighting_loop i n c lw cw w r)"
  using assms(1-3)
proof (induction n arbitrary: i w r)
  case 0
  then show ?case using assms(6) by (simp add: reads_ok)
next
  case (Suc n)
  show ?case
    unfolding weighting_loop.simps
    by (intro reads_ok chroma_factors_ok Suc.IH)
      (use Suc.prems assms(4,5) in \<open>simp_all add: pairs_ok_set2 ints_ok_update weights_okD\<close>)
qed

end

text \<open>The picture parameter sets a parser holds.\<close>

definition active_pps_ok :: "(int \<Rightarrow> h264_sps option) \<Rightarrow> (int \<Rightarrow> h264_pps option) \<Rightarrow> bool" where
  "active_pps_ok active_SPSes active_PPSes \<longleftrightarrow>
     (\<forall>id. case active_PPSes id of None \<Rightarrow> True | Some pps \<Rightarrow> pps_ok active_SPSes pps \<and> pps_pic_parameter_set_id pps = id)"

lemma active_pps_okD:
  "active_pps_ok spses active \<Longrightarrow> active i = Some pps \<Longrightarrow> pps_ok spses pps \<and> pps_pic_parameter_set_id pps = i"
  unfolding active_pps_ok_def by (elim allE [of _ i]) simp

lemma log2_weight:
  assumes "0 \<le> d" "d \<le> 7"
  shows "push_bit (nat d) (1 :: int) \<in> {- 128..128}"
proof -
  have le: "(2 :: int) ^ nat d \<le> 128" using power_increasing [of "nat d" 7 "2 :: int"] assms by simp
  have "- 128 \<le> (2 :: int) ^ nat d" by (rule order_trans [of _ 0]) simp_all
  with le show ?thesis by (simp add: push_bit_eq_mult)
qed

lemma field_width:
  fixes v :: int
  assumes "l \<in> {0..12}"
  shows "nat (l + 4) \<le> 31" "v < 2 ^ nat (l + 4) \<Longrightarrow> v < 2 ^ 16"
proof -
  have "nat (l + 4) \<le> 16" using assms by auto
  then show "nat (l + 4) \<le> 31" "v < 2 ^ nat (l + 4) \<Longrightarrow> v < 2 ^ 16"
    using power_increasing [of "nat (l + 4)" 16 "2 :: int"] by auto
qed

context h264_reads
begin

lemma WeightingFactors_ok [reads_ok]:
  assumes "I r" "weights_ok w" "k \<in> {0..31}" "ld \<in> {0..7}" "cd \<in> {0..7}" "\<And>w r. I r \<Longrightarrow> weights_ok w \<Longrightarrow> Q w r"
  shows "outcome_ok I Q (ParseWeightingFactors k c ld cd w r)"
  unfolding ParseWeightingFactors_def
  by (intro weighting_loop_ok assms(6)) (use assms(1-5) log2_weight [of ld] log2_weight [of cd] in auto)

lemma PredWeightTable_ok [reads_ok]:
  assumes "I r" "slice_ok n sh" "\<And>sh r. I r \<Longrightarrow> slice_ok n sh \<Longrightarrow> Q sh r"
  shows "outcome_ok I Q (ParsePredWeightTable sps sh r)"
proof -
  have "weights_ok (sh_pred_weight_table_l0 sh)" "weights_ok (sh_pred_weight_table_l1 sh)"
    "sh_num_ref_idx_l0_active_minus1 sh \<in> {0..15}" "sh_num_ref_idx_l1_active_minus1 sh \<in> {0..15}"
    "0 \<le> sh_chroma_log2_weight_denom sh" "sh_chroma_log2_weight_denom sh \<le> 7"
    using assms(2) by (simp_all add: slice_ok_def)
  then show ?thesis
    unfolding ParsePredWeightTable_def by (intro reads_ok assms(3)) (use assms(1,2) in simp_all)
qed

lemma marking_loop_ok:
  assumes "I r" "markings_ok ms" "i + n \<le> 32" "\<And>b ms r. I r \<Longrightarrow> markings_ok ms \<Longrightarrow> Q (b, ms) r"
  shows "outcome_ok I Q (marking_loop i n ms r)"
  using assms(1-3)
proof (induction n arbitrary: i ms r)
  case 0
  then show ?case using assms(4) by (simp add: reads_ok)
next
  case (Suc n)
  have i: "i < length ms" using Suc.prems(2,3) by (simp add: markings_ok_def)
  have set: "markings_ok (ms[i := m])" if "rpm_memory_mgmnt_control_operation m \<in> {0..6}" for m
    using Suc.prems(2) that unfolding markings_ok_def by (intro conjI list_update_all) simp_all
  show ?case
    unfolding marking_loop.simps
    by (intro reads_ok Suc.IH assms(4) set) (use Suc.prems i in simp_all)
qed

lemma DecRefPicMarking_ok [reads_ok]:
  assumes "I r" "slice_ok n sh" "\<And>sh r. I r \<Longrightarrow> slice_ok n sh \<Longrightarrow> Q sh r"
  shows "outcome_ok I Q (ParseDecRefPicMarking sh r)"
proof -
  have "markings_ok (sh_ref_pic_marking sh)" using assms(2) by (simp add: slice_ok_def)
  then show ?thesis
    unfolding ParseDecRefPicMarking_def by (intro reads_ok marking_loop_ok assms(3)) (use assms(1,2) in simp_all)
qed

lemma Slice_start_ok [reads_ok]:
  assumes "I r" "active_ok spses" "active_pps_ok spses ppses"
    "\<And>sps pps sh r. I r \<Longrightarrow> sps_ok sps \<Longrightarrow> pps_bounds pps \<Longrightarrow> slice_ok (length (na_bytes nalu)) sh \<Longrightarrow> Q (sps, pps, sh) r"
  shows "outcome_ok I Q (ParseSlice_start spses ppses nalu r)"
proof -
  let ?n = "length (na_bytes nalu)"
  have zero: "slice_ok ?n (H264SliceHeader_zero\<lparr>sh_idr_pic_flag := b, sh_nal_ref_idc := v, sh_nalu_data := p, sh_nalu_size := int ?n\<rparr>)" for b v p
    using slice_ok_zero [of ?n] by (simp add: slice_ok_def)
  have log2: "sps_log2_max_frame_num_minus4 sps \<in> {0..12}" if "sps_ok sps" for sps
    using that by (simp add: sps_ok_def sps_bounds_def)
  have sets: "pps_bounds (the (ppses i))" "sps_ok (the (spses j))" if "ppses i \<noteq> None" "spses j \<noteq> None" for i j
    using that active_pps_okD [OF assms(3)] active_okD [OF assms(2)] by (auto simp: pps_ok_def)
  show ?thesis
    unfolding ParseSlice_start_def
    by (intro reads_ok assms(4))
      (use assms(1) zero field_width(1) [OF log2] sets in simp_all, auto dest!: field_width(2) [rotated] intro!: log2 sets)
qed

lemma Slice_order_count_ok [reads_ok]:
  assumes "I r" "sps_ok sps" "slice_ok n sh" "\<And>sh r. I r \<Longrightarrow> slice_ok n sh \<Longrightarrow> Q sh r"
  shows "outcome_ok I Q (ParseSlice_order_count sps pps sh r)"
proof -
  have lsb: "sps_log2_max_pic_order_cnt_lsb_minus4 sps \<in> {0..12}" using assms(2) by (simp add: sps_ok_def sps_bounds_def)
  show ?thesis
    unfolding ParseSlice_order_count_def by (intro reads_ok assms(4)) (use assms(1,3) field_width [OF lsb] in simp_all)
qed

lemma Slice_ref_idx_ok [reads_ok]:
  assumes "I r" "pps_bounds pps" "slice_ok n sh" "\<And>sh r. I r \<Longrightarrow> slice_ok n sh \<Longrightarrow> Q sh r"
  shows "outcome_ok I Q (ParseSlice_ref_idx pps sh r)"
proof -
  have "\<not> sh_field_pic_flag sh" "0 \<le> sh_num_ref_idx_l1_active_minus1 sh"
    "0 \<le> pps_num_ref_idx_l0_default_active_minus1 pps" "0 \<le> pps_num_ref_idx_l1_default_active_minus1 pps"
    using assms(2,3) by (simp_all add: slice_ok_def pps_bounds_def)
  then show ?thesis
    unfolding ParseSlice_ref_idx_def
    by (intro reads_ok assms(4)) (use assms(1,3) in \<open>auto simp: Let_def split: if_splits\<close>)
qed

lemma Slice_quantizer_ok [reads_ok]:
  assumes "I r" "slice_ok n sh" "\<And>sh r. I r \<Longrightarrow> slice_ok n sh \<Longrightarrow> Q sh r"
  shows "outcome_ok I Q (ParseSlice_quantizer pps sh r)"
  unfolding ParseSlice_quantizer_def by (intro reads_ok assms(3)) (use assms(1,2) in simp_all)

lemma ParseSliceHeader_body_ok:
  assumes "I r" "active_ok spses" "active_pps_ok spses ppses"
  shows "outcome_ok I (\<lambda>sh r. slice_ok (length (na_bytes nalu)) sh \<and>
      sh_header_bit_size sh = 8 * int (length (na_bytes nalu)) - int (NumBitsLeft r + 8 * hr_epb r))
    (ParseSliceHeader_body spses ppses nalu r)"
proof -
  have size: "sh_nalu_size sh = int n" if "slice_ok n sh" for n sh using that by (simp add: slice_ok_def)
  note parts = Slice_order_count_ok [where n = "length (na_bytes nalu)"] Slice_ref_idx_ok [where n = "length (na_bytes nalu)"]
    RefPicListModifications_ok [where n = "length (na_bytes nalu)"] PredWeightTable_ok [where n = "length (na_bytes nalu)"]
    DecRefPicMarking_ok [where n = "length (na_bytes nalu)"] Slice_quantizer_ok [where n = "length (na_bytes nalu)"]
  show ?thesis
    unfolding ParseSliceHeader_body_def
    by (intro outcome_ok_bind outcome_ok_if outcome_ok_let outcome_ok_pair outcome_ok_done ok_return read_ue_ok read_bool_ok true_ok
        Slice_start_ok [OF _ assms(2,3)] parts)
      (use assms(1) size in \<open>simp_all add: NumEmulationPreventionBytesRead_def\<close>)
qed

end

text \<open>
  An SEI message has its type and size coded as a sum of bytes; so few bytes that the sum of as many 0xff
  fits an \<open>int\<close> cannot make it overflow.
\<close>

locale h264_short_reads = h264_reads +
  assumes short: "I r \<Longrightarrow> 255 * int (length (reader_bits r) div 8) \<le> int_max"
begin

lemma sei_loop_ok:
  assumes "I r" "0 \<le> acc" "acc + 255 * int (length (reader_bits r) div 8) \<le> int_max" "\<And>v r. I r \<Longrightarrow> 0 \<le> v \<Longrightarrow> Q v r"
  shows "outcome_ok I Q (sei_loop acc r)"
  using assms(1-3)
proof (induction acc r rule: sei_loop.induct)
  case (1 acc r)
  obtain b r' where b: "ReadBits_body 8 r = (b, r')" by (cases "ReadBits_body 8 r")
  note ok = ReadBits_ok [OF "1.prems"(1) b]
  show ?case
  proof (cases b)
    case None
    then show ?thesis using b ok(1) by (subst sei_loop.simps) (simp add: outcome_ok_def)
  next
    case (Some v)
    obtain bs where bs: "length bs = 8" "reader_bits r = bs @ reader_bits r'"
      using ReadBits_inv(2) [OF b remaining [OF "1.prems"(1)] Some] by blast
    have v: "I r'" "0 \<le> v" "v \<le> 255" using ok(2) [OF Some] by auto
    have acc: "acc + 255 + 255 * int (length (reader_bits r') div 8) \<le> int_max" 
    proof -
      have "length (reader_bits r) div 8 = 1 + length (reader_bits r') div 8" using bs div_add_self1 [of 8 "length (reader_bits r')"] by simp
      then show ?thesis using "1.prems"(3) by simp
    qed
    then have small: "\<not> acc + 255 > int_max" "\<not> acc + v > int_max" using v by linarith+
    show ?thesis
    proof (cases "v = 0xff")
      case True
      have "outcome_ok I Q (sei_loop (acc + 255) r')"
        using "1.IH" [OF b [symmetric] Some True small(1) v(1)] "1.prems"(2) acc by simp
      then show ?thesis using b Some True small by (subst sei_loop.simps) simp
    next
      case False
      then show ?thesis using b Some small "1.prems"(2) assms(4) v by (subst sei_loop.simps) (simp add: outcome_ok_def remaining)
    qed
  qed
qed

lemma sei_sum_ok [reads_ok]:
  "I r \<Longrightarrow> (\<And>v r. I r \<Longrightarrow> 0 \<le> v \<Longrightarrow> Q v r) \<Longrightarrow> outcome_ok I Q (sei_loop 0 r)"
  using short by (intro sei_loop_ok) simp_all

lemma ParseSEI_body_ok:
  assumes "I r"
  shows "outcome_ok I (\<lambda>sei r. 0 \<le> sei_type sei \<and> 0 \<le> sei_payload_size sei \<and>
      (sei_recovery_point sei \<noteq> None \<longleftrightarrow> sei_type sei = kSEIRecoveryPoint)) (ParseSEI_body r)"
  unfolding ParseSEI_body_def by (intro reads_ok) (use assms in simp_all)

end

section \<open>The parser\<close>

interpretation bits_in_byte: h264_whole_reads "\<lambda>r. hr_remaining r \<le> 8"
proof
  show "hr_remaining r' \<le> 8" if "hr_remaining r \<le> 8" "HasMoreRBSPData r = (b, r')" for r b r'
  proof -
    obtain ok r1 where u: "UpdateCurrByte r = (ok, r1)" by (cases "UpdateCurrByte r")
    have "hr_remaining r1 \<le> 8"
      using u that(1) by (auto simp: UpdateCurrByte_def load_byte_def split: list.splits if_splits)
    then show ?thesis using that u by (auto simp: HasMoreRBSPData_def Let_def split: if_splits)
  qed
qed

text \<open>The reader has read a prefix of the bits another one was to read.\<close>

definition read_from :: "h264_reader \<Rightarrow> h264_reader \<Rightarrow> bool" where
  "read_from r0 r \<longleftrightarrow> hr_remaining r \<le> 8 \<and>
     (\<exists>bs. reader_bits r0 = bs @ reader_bits r \<and> NumBitsLeft r + 8 * hr_epb r + length bs = NumBitsLeft r0 + 8 * hr_epb r0)"

interpretation short_reader: h264_short_reads
  "\<lambda>r. hr_remaining r \<le> 8 \<and> 255 * int (length (reader_bits r) div 8) \<le> int_max"
proof
  fix r r' bs
  assume r: "hr_remaining r \<le> 8 \<and> 255 * int (length (reader_bits r) div 8) \<le> int_max" and rem: "hr_remaining r' \<le> 8"
    and bs: "reader_bits r = bs @ reader_bits r'"
  have "length (reader_bits r') div 8 \<le> length (reader_bits r) div 8" using bs by (intro div_le_mono) simp
  then have "255 * int (length (reader_bits r') div 8) \<le> 255 * int (length (reader_bits r) div 8)" by simp
  then show "hr_remaining r' \<le> 8 \<and> 255 * int (length (reader_bits r') div 8) \<le> int_max" using r rem by linarith
qed simp_all

interpretation from_start: h264_reads "read_from r0" for r0
proof
  show "read_from r0 r'"
    if r: "read_from r0 r" and rem: "hr_remaining r' \<le> 8" and bs: "reader_bits r = bs @ reader_bits r'"
      "NumBitsLeft r' + 8 * hr_epb r' + length bs = NumBitsLeft r + 8 * hr_epb r" for r r' bs
  proof -
    obtain as where as: "reader_bits r0 = as @ reader_bits r" "NumBitsLeft r + 8 * hr_epb r + length as = NumBitsLeft r0 + 8 * hr_epb r0"
      using r unfolding read_from_def by blast
    then have "reader_bits r0 = (as @ bs) @ reader_bits r'"
      "NumBitsLeft r' + 8 * hr_epb r' + length (as @ bs) = NumBitsLeft r0 + 8 * hr_epb r0" using bs by simp_all
    then show ?thesis using rem unfolding read_from_def by blast
  qed
qed (simp add: read_from_def)

definition h264_parser_ok :: "h264_parser \<Rightarrow> bool" where
  "h264_parser_ok p \<longleftrightarrow> hr_remaining (hp_br p) \<le> 8 \<and> active_ok (hp_active_SPSes p) \<and>
     active_pps_ok (hp_active_SPSes p) (hp_active_PPSes p)"

lemma h264_parser_ok_init: "h264_parser_ok H264Parser_init"
  by (simp add: h264_parser_ok_def H264Parser_init_def H264Parser_Reset_def H264BitReader_init_def active_ok_def active_pps_ok_def)

lemma SetStream_ok:
  "stream \<noteq> [] \<Longrightarrow> \<exists>p'. SetStream stream p = Some p' \<and> (h264_parser_ok p \<longrightarrow> h264_parser_ok p')"
  by (simp add: SetStream_def SetEncryptedStream_def h264_parser_ok_def)

text \<open>What a step of the parser does to it.\<close>

definition parser_step_ok :: "h264_parser \<Rightarrow> ('a \<Rightarrow> h264_parser \<Rightarrow> bool) \<Rightarrow> (h264_result \<times> 'a option \<times> h264_parser) option \<Rightarrow> bool" where
  "parser_step_ok p Q res =
     (case res of
        None \<Rightarrow> False
      | Some (e, v, p') \<Rightarrow> h264_parser_ok p' \<and> hp_bytes_left p' = hp_bytes_left p \<and>
          (case v of None \<Rightarrow> e = kInvalidStream \<or> e = kUnsupportedStream | Some x \<Rightarrow> e = kOk \<and> Q x p'))"

lemma with_reader_ok:
  assumes "outcome_ok I P res" "\<And>r. I r \<Longrightarrow> hr_remaining r \<le> 8" "h264_parser_ok p"
    "\<And>v r x p'. P v r \<Longrightarrow> hr_remaining r \<le> 8 \<Longrightarrow> store v (p\<lparr>hp_br := r\<rparr>) = (x, p') \<Longrightarrow>
      h264_parser_ok p' \<and> hp_bytes_left p' = hp_bytes_left p \<and> Q x p'"
  shows "parser_step_ok p Q (with_reader p res store)"
  using assms
  by (auto simp: outcome_ok_def with_reader_def parser_step_ok_def h264_parser_ok_def split: h264_outcome.splits prod.split)

lemma active_ok_update: "active_ok m \<Longrightarrow> sps_ok sps \<Longrightarrow> active_ok (m(sps_seq_parameter_set_id sps \<mapsto> sps))"
  by (simp add: active_ok_def)

lemma active_pps_ok_mono:
  "active_pps_ok m ppses \<Longrightarrow> active_pps_ok (m(i \<mapsto> sps)) ppses"
  unfolding active_pps_ok_def by (auto simp: pps_ok_def split: option.splits)

lemma active_pps_ok_update:
  "active_pps_ok m ppses \<Longrightarrow> pps_ok m pps \<Longrightarrow> active_pps_ok m (ppses(pps_pic_parameter_set_id pps \<mapsto> pps))"
  by (simp add: active_pps_ok_def)

lemma ParseSPS_ok:
  assumes "h264_parser_ok p"
  shows "parser_step_ok p (\<lambda>id p'. id \<in> {0..<32} \<and> (\<exists>sps. GetSPS id p' = Some sps \<and> sps_ok sps)) (ParseSPS p)"
  unfolding ParseSPS_def
  by (rule with_reader_ok [OF bits_in_byte.ParseSPS_body_ok])
    (use assms in \<open>auto simp: h264_parser_ok_def active_ok_update active_pps_ok_mono GetSPS_def sps_ok_def [of "_ :: h264_sps"] sps_bounds_def\<close>)

lemma ParsePPS_ok:
  assumes "h264_parser_ok p"
  shows "parser_step_ok p (\<lambda>id p'. \<exists>pps. GetPPS id p' = Some pps \<and> pps_ok (hp_active_SPSes p') pps) (ParsePPS p)"
  unfolding ParsePPS_def
  by (rule with_reader_ok [OF bits_in_byte.ParsePPS_body_ok])
    (use assms in \<open>auto simp: h264_parser_ok_def active_pps_ok_update GetPPS_def\<close>)

lemma ParseSliceHeader_ok:
  assumes "h264_parser_ok p"
  shows "parser_step_ok p (\<lambda>sh p'. slice_ok (length (na_bytes nalu)) sh) (ParseSliceHeader nalu p)"
  unfolding ParseSliceHeader_def
  by (rule with_reader_ok [OF bits_in_byte.ParseSliceHeader_body_ok])
    (use assms in \<open>auto simp: h264_parser_ok_def\<close>)

lemma ParseSEI_ok:
  assumes "h264_parser_ok p" "255 * int (length (reader_bits (hp_br p)) div 8) \<le> int_max"
  shows "parser_step_ok p (\<lambda>sei p'. 0 \<le> sei_payload_size sei) (ParseSEI p)"
  unfolding ParseSEI_def
  by (rule with_reader_ok [OF short_reader.ParseSEI_body_ok])
    (use assms in \<open>auto simp: h264_parser_ok_def\<close>)

text \<open>The client of the parser in its fuzz test; the values it computes from a parameter set have no effect.\<close>

definition fuzz_nalu :: "h264_nalu \<Rightarrow> h264_parser \<Rightarrow> (h264_result \<times> h264_parser) option" where
  "fuzz_nalu nalu p =
     (if na_nal_unit_type nalu = kIDRSlice \<or> na_nal_unit_type nalu = kNonIDRSlice
      then map_option (\<lambda>(res, shdr, p). (res, p)) (ParseSliceHeader nalu p)
      else if na_nal_unit_type nalu = kSPS then map_option (\<lambda>(res, id, p). (res, p)) (ParseSPS p)
      else if na_nal_unit_type nalu = kPPS then map_option (\<lambda>(res, id, p). (res, p)) (ParsePPS p)
      else if na_nal_unit_type nalu = kSEIMessage then map_option (\<lambda>(res, sei_msg, p). (res, p)) (ParseSEI p)
      else Some (kOk, p))"

lemma with_reader_bytes_left:
  assumes "with_reader p res store = Some (e, v, p')" "\<And>v p. hp_bytes_left (snd (store v p)) = hp_bytes_left p"
  shows "hp_bytes_left p' = hp_bytes_left p"
proof (cases res)
  case (Done v r)
  then show ?thesis using assms(1) assms(2) [of v "p\<lparr>hp_br := r\<rparr>"] by (auto simp: with_reader_def split: prod.splits)
qed (use assms(1) in \<open>auto simp: with_reader_def\<close>)

lemma fuzz_nalu_bytes_left: "fuzz_nalu nalu p = Some (res, p') \<Longrightarrow> hp_bytes_left p' = hp_bytes_left p"
  by (auto simp: fuzz_nalu_def ParseSliceHeader_def ParseSPS_def ParsePPS_def ParseSEI_def split: if_splits dest!: with_reader_bytes_left)

function fuzz_loop :: "h264_parser \<Rightarrow> h264_parser option" where
  "fuzz_loop p =
     (case AdvanceToNextNALU p of
        (kOk, nalu, p') \<Rightarrow>
          (case fuzz_nalu nalu p' of
             None \<Rightarrow> None
           | Some (res, p'') \<Rightarrow> if res \<noteq> kOk then Some p'' else fuzz_loop p'')
      | (_, nalu, p') \<Rightarrow> Some p')"
  by pat_completeness auto
termination
  by (relation "measure hp_bytes_left") (auto dest!: Advance_decreases [OF sym] fuzz_nalu_bytes_left)

declare fuzz_loop.simps [simp del]

definition LLVMFuzzerTestOneInput :: "u8 list \<Rightarrow> h264_parser option" where
  "LLVMFuzzerTestOneInput data =
     (if length data = 0 then Some H264Parser_init
      else case SetStream data H264Parser_init of None \<Rightarrow> None | Some p \<Rightarrow> fuzz_loop p)"

lemma LocateNALU_br: "LocateNALU p = (res, p') \<Longrightarrow> hp_br p' = hp_br p \<and> hp_active_SPSes p' = hp_active_SPSes p \<and> hp_active_PPSes p' = hp_active_PPSes p"
  by (auto simp: LocateNALU_def Let_def split: prod.splits bool.splits if_splits)

lemma rbsp_of_length: "length (rbsp_of z bs) \<le> length bs"
proof (induction bs arbitrary: z)
  case (Cons b bs)
  show ?case using Cons [of 0] Cons [of 3] Cons [of "z + 1"] by simp
qed simp

lemma Advance_nalu_bytes:
  assumes "AdvanceToNextNALU p = (kOk, nalu, p')"
  shows "length (na_bytes nalu) \<le> hp_bytes_left p"
proof -
  obtain loc p0 where loc: "LocateNALU p = (loc, p0)" by (cases "LocateNALU p")
  then obtain n k where q: "loc = Some (n, k)"
    using assms by (cases loc) (auto simp: AdvanceToNextNALU_def end_of_stream_def)
  have "na_bytes nalu = take (n - k) (drop k (stream_bytes p0))"
    using assms loc q by (auto simp: AdvanceToNextNALU_def Let_def nalu_zero_def split: prod.splits option.splits if_splits)
  then have "length (na_bytes nalu) \<le> hp_bytes_left p0" by (simp add: stream_bytes_def)
  then show ?thesis using LocateNALU_advances(1) [OF loc [unfolded q]] by linarith
qed

text \<open>The reader of a NAL unit that has been found is past its header.\<close>

lemma Advance_reader:
  assumes "AdvanceToNextNALU p = (res, nalu, p')" "hr_remaining (hp_br p) \<le> 8"
  shows "hr_remaining (hp_br p') \<le> 8" "hp_active_SPSes p' = hp_active_SPSes p" "hp_active_PPSes p' = hp_active_PPSes p"
    "res = kOk \<Longrightarrow> \<exists>r0. read_from r0 (hp_br p') \<and> reader_bits r0 = byte_bits (rbsp_of 0 (na_bytes nalu)) \<and>
       NumBitsLeft r0 + 8 * hr_epb r0 = 8 * length (na_bytes nalu)"
proof -
  obtain loc p0 where loc: "LocateNALU p = (loc, p0)" by (cases "LocateNALU p")
  note keep = LocateNALU_br [OF loc]
  have all: "hr_remaining (hp_br p') \<le> 8 \<and> hp_active_SPSes p' = hp_active_SPSes p \<and> hp_active_PPSes p' = hp_active_PPSes p \<and>
    (res = kOk \<longrightarrow> (\<exists>r0. read_from r0 (hp_br p') \<and> reader_bits r0 = byte_bits (rbsp_of 0 (na_bytes nalu)) \<and>
       NumBitsLeft r0 + 8 * hr_epb r0 = 8 * length (na_bytes nalu)))"
  proof (cases loc)
    case None
    then show ?thesis using assms loc keep by (auto simp: AdvanceToNextNALU_def end_of_stream_def)
  next
    case (Some q)
    then obtain n k where q: "loc = Some (n, k)" by (cases q) auto
    let ?bytes = "take (n - k) (drop k (stream_bytes p0))"
    show ?thesis
    proof (cases "?bytes = []")
      case True
      have "H264BitReader_Initialize ?bytes (hp_br p0) = (False, hp_br p0)"
        unfolding True by (simp add: H264BitReader_Initialize_def)
      then show ?thesis using assms loc keep q by (auto simp: AdvanceToNextNALU_def end_of_stream_def Let_def nalu_zero_def)
    next
      case False
      then obtain r0 where r0: "H264BitReader_Initialize ?bytes (hp_br p0) = (True, r0)" "hr_remaining r0 \<le> 8"
        "reader_bits r0 = byte_bits (rbsp_of 0 ?bytes)" "NumBitsLeft r0 = 8 * length ?bytes" "hr_epb r0 = 0"
        using Initialize_bits [of ?bytes "hp_br p0"] by blast
      obtain z r1 where z: "ReadBits_body 1 r0 = (z, r1)" by (cases "ReadBits_body 1 r0")
      obtain i r2 where i: "ReadBits_body 2 r1 = (i, r2)" by (cases "ReadBits_body 2 r1")
      obtain t r3 where t: "ReadBits_body 5 r2 = (t, r3)" by (cases "ReadBits_body 5 r2")
      have base: "read_from r0 r0" using r0(2) by (simp add: read_from_def)
      have rem: "hr_remaining r1 \<le> 8" "hr_remaining r2 \<le> 8" "hr_remaining r3 \<le> 8"
        using ReadBits_inv(1) [OF z] ReadBits_inv(1) [OF i] ReadBits_inv(1) [OF t] r0(2) by auto
      have past: "z \<noteq> None \<Longrightarrow> i \<noteq> None \<Longrightarrow> t \<noteq> None \<Longrightarrow> read_from r0 r3"
        using from_start.ReadBits_ok(2) [OF base z] from_start.ReadBits_ok(2) [OF _ i] from_start.ReadBits_ok(2) [OF _ t] by auto
      let ?nalu = "nalu_zero\<lparr>na_data := hp_stream p0 + k, na_bytes := ?bytes\<rparr>"
      let ?p = "p0\<lparr>hp_stream := hp_stream p0 + n, hp_bytes_left := hp_bytes_left p0 - n\<rparr>"
      have adv: "AdvanceToNextNALU p =
        (if z \<noteq> Some 0 then (kInvalidStream, ?nalu, ?p\<lparr>hp_br := r1\<rparr>)
         else case i of None \<Rightarrow> (kInvalidStream, ?nalu, ?p\<lparr>hp_br := r2\<rparr>)
         | Some v \<Rightarrow> (case t of None \<Rightarrow> (kInvalidStream, ?nalu\<lparr>na_nal_ref_idc := v\<rparr>, ?p\<lparr>hp_br := r3\<rparr>)
           | Some w \<Rightarrow> (kOk, ?nalu\<lparr>na_nal_ref_idc := v, na_nal_unit_type := w\<rparr>, ?p\<lparr>hp_br := r3, hp_previous_nalu_range :=
               fst (Ranges_Add (int (hp_stream p0 + k)) (int (hp_stream p0 + k) + int (length ?bytes)) [])\<rparr>)))"
        unfolding AdvanceToNextNALU_def loc q Let_def
        by (simp del: One_nat_def length_take add: r0(1) z i t nalu_zero_def split: option.split)
      show ?thesis
      proof (cases "z = Some 0 \<and> i \<noteq> None \<and> t \<noteq> None")
        case True
        then have "read_from r0 r3" by (intro past) auto
        then show ?thesis using True assms(1) keep rem r0(3-5) unfolding adv by (auto intro!: exI [of _ r0])
      next
        case False
        then show ?thesis using assms(1) keep rem unfolding adv by (auto split: option.splits if_splits)
      qed
    qed
  qed
  show "hr_remaining (hp_br p') \<le> 8" "hp_active_SPSes p' = hp_active_SPSes p" "hp_active_PPSes p' = hp_active_PPSes p"
    "res = kOk \<Longrightarrow> \<exists>r0. read_from r0 (hp_br p') \<and> reader_bits r0 = byte_bits (rbsp_of 0 (na_bytes nalu)) \<and>
       NumBitsLeft r0 + 8 * hr_epb r0 = 8 * length (na_bytes nalu)"
    using all by auto
qed

lemma fuzz_nalu_ok:
  assumes "h264_parser_ok p" "255 * int (length (reader_bits (hp_br p)) div 8) \<le> int_max"
  shows "\<exists>res p'. fuzz_nalu nalu p = Some (res, p') \<and> h264_parser_ok p'"
  using ParseSliceHeader_ok [OF assms(1), of nalu] ParseSPS_ok [OF assms(1)] ParsePPS_ok [OF assms(1)] ParseSEI_ok [OF assms] assms(1)
  by (auto simp: fuzz_nalu_def parser_step_ok_def split: option.splits)

lemma Advance_reader_short:
  assumes "AdvanceToNextNALU p = (kOk, nalu, p1)" "hr_remaining (hp_br p) \<le> 8"
  shows "length (reader_bits (hp_br p1)) div 8 \<le> hp_bytes_left p"
proof -
  obtain r0 where r0: "read_from r0 (hp_br p1)" "reader_bits r0 = byte_bits (rbsp_of 0 (na_bytes nalu))"
    using Advance_reader(4) [OF assms] by blast
  have "length (reader_bits (hp_br p1)) \<le> length (reader_bits r0)" using r0(1) by (auto simp: read_from_def)
  also have "\<dots> \<le> 8 * length (na_bytes nalu)" unfolding r0(2) using rbsp_of_length by (simp add: length_byte_bits)
  finally have "length (reader_bits (hp_br p1)) div 8 \<le> length (na_bytes nalu)" by (metis div_le_mono nonzero_mult_div_cancel_left zero_neq_numeral)
  then show ?thesis using Advance_nalu_bytes [OF assms(1)] by linarith
qed

lemma fuzz_loop_ok:
  "h264_parser_ok p \<Longrightarrow> 255 * int (hp_bytes_left p) \<le> int_max \<Longrightarrow> \<exists>p'. fuzz_loop p = Some p' \<and> h264_parser_ok p'"
proof (induction p rule: fuzz_loop.induct)
  case (1 p)
  obtain res nalu p1 where a: "AdvanceToNextNALU p = (res, nalu, p1)" by (cases "AdvanceToNextNALU p") auto
  have rem: "hr_remaining (hp_br p) \<le> 8" using "1.prems"(1) by (simp add: h264_parser_ok_def)
  have ok1: "h264_parser_ok p1" using "1.prems" Advance_reader [OF a] by (simp add: h264_parser_ok_def)
  show ?case
  proof (cases "res = kOk")
    case True
    have "255 * int (length (reader_bits (hp_br p1)) div 8) \<le> 255 * int (hp_bytes_left p)"
      using Advance_reader_short [OF a [unfolded True] rem] by simp
    then obtain res2 p2 where n: "fuzz_nalu nalu p1 = Some (res2, p2)" "h264_parser_ok p2"
      using fuzz_nalu_ok [OF ok1] "1.prems"(2) by (metis order_trans)
    have "hp_bytes_left p2 < hp_bytes_left p" using Advance_decreases [OF a [unfolded True]] fuzz_nalu_bytes_left [OF n(1)] by simp
    then have left: "255 * int (hp_bytes_left p2) \<le> int_max" using "1.prems"(2) by simp
    show ?thesis
    proof (cases "res2 = kOk")
      case ok2: True
      then show ?thesis using "1.IH" [OF a [symmetric] _ refl n(1) refl _ n(2) left] a n(1) True by (subst fuzz_loop.simps) auto
    next
      case False
      then show ?thesis using a n True by (subst fuzz_loop.simps) auto
    qed
  next
    case False
    then show ?thesis using a ok1 by (subst fuzz_loop.simps) (cases res; auto)
  qed
qed

text \<open>
  Longer messages overflow: 8421505 bytes 0xff in a row, where the type of an SEI message is to start, take
  the sum out of the range of \<open>int\<close>.
\<close>

lemma sei_loop_overflows:
  "hr_remaining r \<le> 8 \<Longrightarrow> reader_bits r = replicate (8 * n) True @ rest \<Longrightarrow> int_max < acc + 255 * int n \<Longrightarrow>
   acc \<le> int_max \<Longrightarrow> sei_loop acc r = Fault"
proof (induction n arbitrary: r acc)
  case (Suc n)
  have ones: "reader_bits r = replicate 8 True @ (replicate (8 * n) True @ rest)"
    using Suc.prems(2) by (simp add: replicate_add [symmetric] flip: append_assoc)
  obtain r' where r': "ReadBits_body 8 r = (Some (int (bits_nat (replicate 8 True))), r')" "hr_remaining r' \<le> 8"
    "reader_bits r' = replicate (8 * n) True @ rest"
    using ReadBits_some [OF Suc.prems(1) ones, of 8] by auto
  have "bits_nat (replicate 8 True) = 255" by code_simp
  then have step: "sei_loop acc r = (if acc + 255 > int_max then Fault else sei_loop (acc + 255) r')"
    using r'(1) by (subst sei_loop.simps) simp
  show ?case
  proof (cases "acc + 255 > int_max")
    case False
    then show ?thesis using step Suc.IH [OF r'(2,3), of "acc + 255"] Suc.prems(3) by simp
  qed (simp add: step)
qed simp

lemma ParseSEI_type_overflows:
  assumes "hr_remaining r \<le> 8" "reader_bits r = replicate (8 * 8421505) True @ rest"
  shows "ParseSEI_body r = Fault"
proof -
  have "sei_loop 0 r = Fault" by (rule sei_loop_overflows [OF assms]) (simp_all add: int_max_def)
  then show ?thesis by (simp add: ParseSEI_body_def res_or_return_def)
qed

section \<open>Properties\<close>

text \<open>
  C11: A stream of at most 8421504 bytes is parsed safely, whatever these bytes are and in whatever order NAL
  units of whatever types come: no check of the code fails, no array is accessed out of bounds, none of the
  sums that are checked here for the range of \<open>int\<close> leaves it, the loop comes to an end, and all the
  parameter sets the parser holds then are within the bounds its decoders rely on (\<open>sps_ok\<close>, \<open>pps_ok\<close>).
  The limit keeps an SEI message from overflowing its type, as 8421505 bytes 0xff do (\<open>ParseSEI_type_overflows\<close>).
  The shifts by which \<open>ReadBits\<close> moves bits out of its result, which it masks, are not counted as overflow.
\<close>

theorem H264_any_stream_is_parsed_safely:
  assumes "length data \<le> 8421504"
  shows "case LLVMFuzzerTestOneInput data of
     None \<Rightarrow> False
   | Some p \<Rightarrow> active_ok (hp_active_SPSes p) \<and> active_pps_ok (hp_active_SPSes p) (hp_active_PPSes p)"
proof (cases "data = []")
  case True
  then show ?thesis using h264_parser_ok_init by (simp add: LLVMFuzzerTestOneInput_def h264_parser_ok_def)
next
  case False
  obtain p where p: "SetStream data H264Parser_init = Some p" "h264_parser_ok p" "hp_bytes_left p = length data"
    using SetStream_ok [OF False, of H264Parser_init] h264_parser_ok_init
    by (auto simp: SetStream_def SetEncryptedStream_def split: if_splits)
  then obtain p' where "fuzz_loop p = Some p'" "h264_parser_ok p'" using fuzz_loop_ok [OF p(2)] assms by (auto simp: int_max_def)
  then show ?thesis using p(1) False by (simp add: LLVMFuzzerTestOneInput_def h264_parser_ok_def)
qed

theorem H264_any_stream_is_parsed_safely_witness:
  "case LLVMFuzzerTestOneInput [0, 0, 0, 1, 0x06, 0xff, 0x05, 0x01, 0x80, 0, 0, 1, 0x67, 0x42] of
     None \<Rightarrow> False
   | Some p \<Rightarrow> active_ok (hp_active_SPSes p) \<and> active_pps_ok (hp_active_SPSes p) (hp_active_PPSes p)"
  by (rule H264_any_stream_is_parsed_safely) simp

text \<open>
  C16: \<open>header_bit_size\<close> of a slice header is exact: when the slice header of the NAL unit found last is parsed,
  it is the number of bits of the unit's raw byte sequence, the emulation prevention bytes removed, that come
  before the slice data, the NAL unit header included; all fields of the slice header are within their bounds.
\<close>

theorem H264_header_bit_size_is_exact:
  assumes "h264_parser_ok p" "AdvanceToNextNALU p = (kOk, nalu, p1)" "ParseSliceHeader nalu p1 = Some (kOk, Some sh, p2)"
  shows "slice_ok (length (na_bytes nalu)) sh \<and>
    byte_bits (rbsp_of 0 (na_bytes nalu)) = take (nat (sh_header_bit_size sh)) (byte_bits (rbsp_of 0 (na_bytes nalu))) @ reader_bits (hp_br p2) \<and>
    0 \<le> sh_header_bit_size sh"
proof -
  have ok1: "h264_parser_ok p1" using assms(1) Advance_reader [OF assms(2)] by (simp add: h264_parser_ok_def)
  obtain r0 where r0: "read_from r0 (hp_br p1)" "reader_bits r0 = byte_bits (rbsp_of 0 (na_bytes nalu))"
    "NumBitsLeft r0 + 8 * hr_epb r0 = 8 * length (na_bytes nalu)"
    using Advance_reader(4) [OF assms(2)] assms(1) by (auto simp: h264_parser_ok_def)
  have "outcome_ok (read_from r0) (\<lambda>sh r. slice_ok (length (na_bytes nalu)) sh \<and>
      sh_header_bit_size sh = 8 * int (length (na_bytes nalu)) - int (NumBitsLeft r + 8 * hr_epb r))
    (ParseSliceHeader_body (hp_active_SPSes p1) (hp_active_PPSes p1) nalu (hp_br p1))"
    using ok1 r0(1) by (intro from_start.ParseSliceHeader_body_ok) (simp_all add: h264_parser_ok_def)
  then have sh: "slice_ok (length (na_bytes nalu)) sh" "read_from r0 (hp_br p2)"
    "sh_header_bit_size sh = 8 * int (length (na_bytes nalu)) - int (NumBitsLeft (hp_br p2) + 8 * hr_epb (hp_br p2))"
    using assms(3) by (auto simp: ParseSliceHeader_def with_reader_def outcome_ok_def split: h264_outcome.splits)
  obtain bs where bs: "reader_bits r0 = bs @ reader_bits (hp_br p2)"
    "NumBitsLeft (hp_br p2) + 8 * hr_epb (hp_br p2) + length bs = NumBitsLeft r0 + 8 * hr_epb r0"
    using sh(2) unfolding read_from_def by blast
  have "sh_header_bit_size sh = int (length bs)" using sh(3) bs(2) r0(3) by linarith
  then show ?thesis using sh(1) bs(1) r0(2) by simp
qed

text \<open>
  C39: Cropping is safe: for a parameter set the parser accepts, the visible rectangle, where there is one, is not
  empty and lies within the coded size, whose sides are positive and fit an \<open>int\<close>.
\<close>

theorem GetVisibleRect_within_coded_size:
  assumes "sps_ok sps"
  shows "case GetVisibleRect sps of
      None \<Rightarrow> True
    | Some ((x, y), (w, h)) \<Rightarrow>
        (case GetCodedSize sps of None \<Rightarrow> False
         | Some (width, height) \<Rightarrow> 0 \<le> x \<and> 0 < w \<and> x + w \<le> width \<and> width \<le> int_max \<and>
             0 \<le> y \<and> 0 < h \<and> y + h \<le> height \<and> height \<le> int_max)"
proof (cases "GetCodedSize sps")
  case None
  then show ?thesis by (simp add: GetVisibleRect_def)
next
  case (Some sz)
  obtain width height where wh: "sz = (width, height)" by (cases sz)
  have b: "0 \<le> sps_pic_width_in_mbs_minus1 sps" "0 \<le> sps_pic_height_in_map_units_minus1 sps"
    "0 \<le> sps_frame_crop_left_offset sps" "0 \<le> sps_frame_crop_right_offset sps"
    "0 \<le> sps_frame_crop_top_offset sps" "0 \<le> sps_frame_crop_bottom_offset sps"
    using assms by (simp_all add: sps_ok_def sps_bounds_def)
  have size: "0 < width \<and> width \<le> int_max" "0 < height \<and> height \<le> int_max"
    using Some wh b(1,2) by (auto simp: GetCodedSize_def Let_def int_max_def split: if_splits)
  define fx fy :: int where "fx = (if sps_chroma_array_type sps = 0 then 1 else if sps_chroma_format_idc sps > 2 then 1 else 2)"
    and "fy = (if sps_chroma_array_type sps = 0 then (if sps_frame_mbs_only_flag sps then 1 else 2)
      else (if sps_chroma_format_idc sps > 1 then 1 else 2) * (if sps_frame_mbs_only_flag sps then 1 else 2))"
  have f: "0 < fx" "0 < fy" by (simp_all add: fx_def fy_def)
  have crop: "0 \<le> fx * sps_frame_crop_left_offset sps" "0 \<le> fx * sps_frame_crop_right_offset sps"
    "0 \<le> fy * sps_frame_crop_top_offset sps" "0 \<le> fy * sps_frame_crop_bottom_offset sps"
    using b f by simp_all
  have "GetVisibleRect sps = (if \<not> sps_frame_cropping_flag sps then Some ((0, 0), (width, height))
      else if width div fx < sps_frame_crop_left_offset sps \<or> width div fx < sps_frame_crop_right_offset sps \<or>
        height div fy < sps_frame_crop_top_offset sps \<or> height div fy < sps_frame_crop_bottom_offset sps then None
      else if width - fx * sps_frame_crop_left_offset sps \<le> fx * sps_frame_crop_right_offset sps \<or>
        height - fy * sps_frame_crop_top_offset sps \<le> fy * sps_frame_crop_bottom_offset sps then None
      else Some ((fx * sps_frame_crop_left_offset sps, fy * sps_frame_crop_top_offset sps),
        (width - fx * sps_frame_crop_left_offset sps - fx * sps_frame_crop_right_offset sps,
         height - fy * sps_frame_crop_top_offset sps - fy * sps_frame_crop_bottom_offset sps)))"
    by (simp add: GetVisibleRect_def Some wh Let_def fx_def fy_def)
  then show ?thesis using size crop by (simp add: Some wh)
qed

text \<open>A stream of two parameter sets and a slice, with emulation prevention in the slice header.\<close>

definition h264_sample :: "u8 list" where
  "h264_sample =
     [0, 0, 0, 1, 103, 66, 0, 10, 141, 141, 79, 213, 160, 0, 0, 1, 104, 206, 56, 128, 0, 0, 1] @ [101, 136, 128, 0, 0, 3, 2, 0, 0, 3, 0, 3, 110]"

definition h264_sample_parser :: h264_parser where
  "h264_sample_parser =
     (let p = the (SetStream h264_sample H264Parser_init);
          (res, nalu, p) = AdvanceToNextNALU p;
          (res, id, p) = the (ParseSPS p);
          (res, nalu, p) = AdvanceToNextNALU p;
          (res, id, p) = the (ParsePPS p)
      in p)"

lemma Advance_ok: "h264_parser_ok p \<Longrightarrow> h264_parser_ok (snd (snd (AdvanceToNextNALU p)))"
  using Advance_reader [of p "fst (AdvanceToNextNALU p)" "fst (snd (AdvanceToNextNALU p))" "snd (snd (AdvanceToNextNALU p))"]
  by (simp add: h264_parser_ok_def)

lemma step_parser_ok: "parser_step_ok p Q res \<Longrightarrow> h264_parser_ok (snd (snd (the res)))"
  by (auto simp: parser_step_ok_def split: option.splits)

lemma h264_sample_parser_ok: "h264_parser_ok h264_sample_parser"
proof -
  have "h264_parser_ok (the (SetStream h264_sample H264Parser_init))"
    using SetStream_ok [of h264_sample H264Parser_init] h264_parser_ok_init by (auto simp: h264_sample_def)
  then have "h264_parser_ok (snd (snd (AdvanceToNextNALU (the (SetStream h264_sample H264Parser_init)))))" by (rule Advance_ok)
  from Advance_ok [OF step_parser_ok [OF ParseSPS_ok [OF this]]]
  show ?thesis by (simp add: h264_sample_parser_def Let_def split_beta step_parser_ok [OF ParsePPS_ok])
qed

theorem H264_header_bit_size_is_exact_witness:
  "let nalu = fst (snd (AdvanceToNextNALU h264_sample_parser)); p1 = snd (snd (AdvanceToNextNALU h264_sample_parser));
       sh = the (fst (snd (the (ParseSliceHeader nalu p1)))); p2 = snd (snd (the (ParseSliceHeader nalu p1)))
   in (slice_ok (length (na_bytes nalu)) sh \<and>
       byte_bits (rbsp_of 0 (na_bytes nalu)) = take (nat (sh_header_bit_size sh)) (byte_bits (rbsp_of 0 (na_bytes nalu))) @ reader_bits (hp_br p2) \<and>
       0 \<le> sh_header_bit_size sh) \<and> sh_header_bit_size sh = 79"
proof -
  define nalu where "nalu = fst (snd (AdvanceToNextNALU h264_sample_parser))"
  define p1 where "p1 = snd (snd (AdvanceToNextNALU h264_sample_parser))"
  have a: "fst (AdvanceToNextNALU h264_sample_parser) = kOk" by code_simp
  then have adv: "AdvanceToNextNALU h264_sample_parser = (kOk, nalu, p1)" by (simp add: nalu_def p1_def prod_eq_iff)
  have "case ParseSliceHeader nalu p1 of Some (kOk, Some sh, p2) \<Rightarrow> sh_header_bit_size sh = 79 | _ \<Rightarrow> False"
    unfolding nalu_def p1_def by code_simp
  then obtain sh p2 where p2: "ParseSliceHeader nalu p1 = Some (kOk, Some sh, p2)" "sh_header_bit_size sh = 79"
    by (auto split: option.splits prod.splits h264_result.splits)
  show ?thesis
    using H264_header_bit_size_is_exact [OF h264_sample_parser_ok adv p2(1)] p2
    unfolding nalu_def [symmetric] p1_def [symmetric] Let_def by simp
qed

theorem GetVisibleRect_within_coded_size_witness:
  "let sps = the (GetSPS 0 h264_sample_parser) in
   case GetVisibleRect sps of
      None \<Rightarrow> False
    | Some ((x, y), (w, h)) \<Rightarrow>
        (case GetCodedSize sps of None \<Rightarrow> False
         | Some (width, height) \<Rightarrow> 0 \<le> x \<and> 0 < w \<and> x + w \<le> width \<and> width \<le> int_max \<and>
             0 \<le> y \<and> 0 < h \<and> y + h \<le> height \<and> height \<le> int_max)"
proof -
  have some: "GetSPS 0 h264_sample_parser \<noteq> None" by code_simp
  have "sps_ok (the (GetSPS 0 h264_sample_parser))"
    using h264_sample_parser_ok some active_okD by (auto simp: h264_parser_ok_def GetSPS_def)
  moreover have "GetVisibleRect (the (GetSPS 0 h264_sample_parser)) \<noteq> None" by code_simp
  ultimately show ?thesis
    using GetVisibleRect_within_coded_size [of "the (GetSPS 0 h264_sample_parser)"]
    by (auto simp: Let_def split: option.splits)
qed

text \<open>A picture parameter set of two slice groups is accepted although its slice group map is not parsed.\<close>

lemma ParsePPS_accepts_two_slice_groups:
  "(case ParsePPS (h264_sample_parser\<lparr>hp_br := snd (H264BitReader_Initialize [197, 142, 32] H264BitReader_init)\<rparr>) of
      Some (res, pps_id, p) \<Rightarrow> res = kOk \<and> map_option pps_num_slice_groups_minus1 (GetPPS 0 p) = Some 1
    | None \<Rightarrow> False)"
  by code_simp

end
