(* ===== verification/H264_Poc.thy ===== *)
theory H264_Poc
  imports H264_Parser "HOL-Library.Monad_Syntax"
begin

text \<open>
  Picture order counts (\<open>video/h264_poc.cc\<close>) and the limits of the levels of H.264
  (\<open>video/h264_level_limits.cc\<close>).

  Overflow of \<open>int32_t\<close> is \<open>None\<close>; arithmetic on \<open>uint32_t\<close> is arithmetic on words.
\<close>

section \<open>Picture order counts\<close>

text \<open>A value that an \<open>int32_t\<close> has to hold, and \<open>1 << (x + 4)\<close>.\<close>

definition i32 :: "int \<Rightarrow> int option" where
  "i32 v = (if int_range v then Some v else None)"

definition shl4 :: "int \<Rightarrow> int option" where
  "shl4 x = (if - 4 \<le> x \<and> x + 4 < 31 then Some (2 ^ nat (x + 4)) else None)"

fun ends_in_MMCO5 :: "h264_ref_pic_marking list \<Rightarrow> bool" where
  "ends_in_MMCO5 [] = False"
| "ends_in_MMCO5 (m # ms) =
     (if rpm_memory_mgmnt_control_operation m = 5 then True
      else if rpm_memory_mgmnt_control_operation m = 0 then False
      else ends_in_MMCO5 ms)"

definition HasMMCO5 :: "h264_slice_header \<Rightarrow> bool" where
  "HasMMCO5 sh =
     (if sh_nal_ref_idc sh = 0 \<or> sh_idr_pic_flag sh \<or> \<not> sh_adaptive_ref_pic_marking_mode_flag sh then False
      else ends_in_MMCO5 (sh_ref_pic_marking sh))"

record h264_poc =
  poc_ref_pic_order_cnt_msb :: int
  poc_ref_pic_order_cnt_lsb :: int
  poc_prev_frame_num :: int
  poc_prev_frame_num_offset :: int
  poc_pending_mmco5 :: bool

definition H264POC_Reset :: "h264_poc \<Rightarrow> h264_poc" where
  "H264POC_Reset p = p\<lparr>poc_ref_pic_order_cnt_msb := 0, poc_ref_pic_order_cnt_lsb := 0, poc_prev_frame_num := 0,
     poc_prev_frame_num_offset := 0, poc_pending_mmco5 := False\<rparr>"

definition H264POC_init :: h264_poc where
  "H264POC_init = \<lparr>poc_ref_pic_order_cnt_msb = 0, poc_ref_pic_order_cnt_lsb = 0, poc_prev_frame_num = 0,
     poc_prev_frame_num_offset = 0, poc_pending_mmco5 = False\<rparr>"

definition IsPendingMMCO5 :: "h264_poc \<Rightarrow> bool" where
  "IsPendingMMCO5 p = poc_pending_mmco5 p"

text \<open>Equation 8-3: the most significant part of the order count.\<close>

definition wrapped_msb :: "int \<Rightarrow> int \<Rightarrow> int \<Rightarrow> int \<Rightarrow> int option" where
  "wrapped_msb max_lsb prev_msb prev_lsb lsb =
     do {
       up \<leftarrow> (if lsb < prev_lsb then map_option (\<lambda>d. d \<ge> max_lsb div 2) (i32 (prev_lsb - lsb)) else Some False);
       if up then i32 (prev_msb + max_lsb)
       else do {
         down \<leftarrow> (if lsb > prev_lsb then map_option (\<lambda>d. d > max_lsb div 2) (i32 (lsb - prev_lsb)) else Some False);
         if down then i32 (prev_msb - max_lsb) else Some prev_msb
       }
     }"

definition poc_type0 :: "h264_sps \<Rightarrow> h264_slice_header \<Rightarrow> h264_poc \<Rightarrow> (int \<times> h264_poc) option" where
  "poc_type0 sps sh p =
     do {
       max_pic_order_cnt_lsb \<leftarrow> shl4 (sps_log2_max_pic_order_cnt_lsb_minus4 sps);
       let mmco5 = HasMMCO5 sh;
       let prev_pic_order_cnt_msb = (if sh_idr_pic_flag sh then 0 else poc_ref_pic_order_cnt_msb p);
       let prev_pic_order_cnt_lsb = (if sh_idr_pic_flag sh then 0 else poc_ref_pic_order_cnt_lsb p);
       pic_order_cnt_msb \<leftarrow> wrapped_msb max_pic_order_cnt_lsb prev_pic_order_cnt_msb prev_pic_order_cnt_lsb (sh_pic_order_cnt_lsb sh);
       top_foc \<leftarrow> i32 (pic_order_cnt_msb + sh_pic_order_cnt_lsb sh);
       bottom_foc \<leftarrow> i32 (top_foc + sh_delta_pic_order_cnt_bottom sh);
       let pic_order_cnt = (if mmco5 then 0 else min top_foc bottom_foc);
       let p = p\<lparr>poc_pending_mmco5 := mmco5, poc_prev_frame_num := sh_frame_num sh\<rparr>;
       let p = (if sh_nal_ref_idc sh \<noteq> 0
                then if mmco5 then p\<lparr>poc_ref_pic_order_cnt_msb := 0, poc_ref_pic_order_cnt_lsb := top_foc\<rparr>
                     else p\<lparr>poc_ref_pic_order_cnt_msb := pic_order_cnt_msb, poc_ref_pic_order_cnt_lsb := sh_pic_order_cnt_lsb sh\<rparr>
                else p);
       Some (pic_order_cnt, p)
     }"

text \<open>Equations 8-6 and 8-11.\<close>

definition next_frame_num_offset :: "int \<Rightarrow> h264_slice_header \<Rightarrow> h264_poc \<Rightarrow> int option" where
  "next_frame_num_offset max_frame_num sh p =
     (if sh_idr_pic_flag sh then Some 0
      else if poc_prev_frame_num p > sh_frame_num sh then i32 (poc_prev_frame_num_offset p + max_frame_num)
      else Some (poc_prev_frame_num_offset p))"

fun add_offsets :: "int list \<Rightarrow> int \<Rightarrow> int option" where
  "add_offsets [] v = Some v"
| "add_offsets (d # ds) v = do { v \<leftarrow> i32 (v + d); add_offsets ds v }"

text \<open>Equations 8-7 to 8-9; the inner \<open>None\<close> is the error that the code reports.\<close>

definition expected_poc :: "h264_sps \<Rightarrow> int \<Rightarrow> int \<Rightarrow> int \<Rightarrow> int option option" where
  "expected_poc sps nal_ref_idc frame_num frame_num_offset =
     do {
       abs_frame_num \<leftarrow> (if sps_num_ref_frames_in_pic_order_cnt_cycle sps \<noteq> 0
                          then i32 (frame_num_offset + frame_num) else Some 0);
       let abs_frame_num = (if nal_ref_idc = 0 \<and> abs_frame_num > 0 then abs_frame_num - 1 else abs_frame_num);
       expected \<leftarrow>
         (if abs_frame_num > 0 then
            if sps_num_ref_frames_in_pic_order_cnt_cycle sps = 0 then Some None
            else do {
              let pic_order_cnt_cycle_cnt = (abs_frame_num - 1) div sps_num_ref_frames_in_pic_order_cnt_cycle sps;
              let frame_num_in_pic_order_cnt_cycle = (abs_frame_num - 1) mod sps_num_ref_frames_in_pic_order_cnt_cycle sps;
              e \<leftarrow> i32 (pic_order_cnt_cycle_cnt * sps_expected_delta_per_pic_order_cnt_cycle sps);
              if \<not> nat frame_num_in_pic_order_cnt_cycle < length (sps_offset_for_ref_frame sps) then None
              else map_option Some (add_offsets (take (nat frame_num_in_pic_order_cnt_cycle + 1) (sps_offset_for_ref_frame sps)) e)
            }
          else Some (Some 0));
       (case expected of
          None \<Rightarrow> Some None
        | Some e \<Rightarrow> if nal_ref_idc = 0 then map_option Some (i32 (e + sps_offset_for_non_ref_pic sps)) else Some (Some e))
     }"

definition store_offset :: "bool \<Rightarrow> int \<Rightarrow> h264_slice_header \<Rightarrow> h264_poc \<Rightarrow> h264_poc" where
  "store_offset mmco5 frame_num_offset sh p =
     p\<lparr>poc_pending_mmco5 := mmco5, poc_prev_frame_num := sh_frame_num sh,
       poc_prev_frame_num_offset := (if mmco5 then 0 else frame_num_offset)\<rparr>"

definition poc_type1 :: "h264_sps \<Rightarrow> h264_slice_header \<Rightarrow> h264_poc \<Rightarrow> (int option \<times> h264_poc) option" where
  "poc_type1 sps sh p =
     do {
       max_frame_num \<leftarrow> shl4 (sps_log2_max_frame_num_minus4 sps);
       let mmco5 = HasMMCO5 sh;
       frame_num_offset \<leftarrow> next_frame_num_offset max_frame_num sh p;
       expected \<leftarrow> expected_poc sps (sh_nal_ref_idc sh) (sh_frame_num sh) frame_num_offset;
       (case expected of
          None \<Rightarrow> Some (None, p)
        | Some expected_pic_order_cnt \<Rightarrow> do {
            top_foc \<leftarrow> i32 (expected_pic_order_cnt + sh_delta_pic_order_cnt0 sh);
            b \<leftarrow> i32 (top_foc + sps_offset_for_top_to_bottom_field sps);
            bottom_foc \<leftarrow> i32 (b + sh_delta_pic_order_cnt1 sh);
            let pic_order_cnt = (if mmco5 then 0 else min top_foc bottom_foc);
            Some (Some pic_order_cnt, store_offset mmco5 frame_num_offset sh p)
          })
     }"

text \<open>Equations 8-12 and 8-13.\<close>

definition temp_poc :: "bool \<Rightarrow> int \<Rightarrow> int \<Rightarrow> int \<Rightarrow> int option" where
  "temp_poc idr nal_ref_idc frame_num frame_num_offset =
     (if idr then Some 0
      else do {
        s \<leftarrow> i32 (frame_num_offset + frame_num);
        t \<leftarrow> i32 (2 * s);
        if nal_ref_idc = 0 then i32 (t - 1) else Some t
      })"

definition poc_type2 :: "h264_sps \<Rightarrow> h264_slice_header \<Rightarrow> h264_poc \<Rightarrow> (int \<times> h264_poc) option" where
  "poc_type2 sps sh p =
     do {
       max_frame_num \<leftarrow> shl4 (sps_log2_max_frame_num_minus4 sps);
       let mmco5 = HasMMCO5 sh;
       frame_num_offset \<leftarrow> next_frame_num_offset max_frame_num sh p;
       temp_pic_order_count \<leftarrow> temp_poc (sh_idr_pic_flag sh) (sh_nal_ref_idc sh) (sh_frame_num sh) frame_num_offset;
       let pic_order_cnt = (if mmco5 then 0 else temp_pic_order_count);
       Some (pic_order_cnt, store_offset mmco5 frame_num_offset sh p)
     }"

definition ComputePicOrderCnt :: "h264_sps \<Rightarrow> h264_slice_header \<Rightarrow> h264_poc \<Rightarrow> (int option \<times> h264_poc) option" where
  "ComputePicOrderCnt sps sh p =
     (if sh_field_pic_flag sh then Some (None, p)
      else do {
        max_frame_num \<leftarrow> shl4 (sps_log2_max_frame_num_minus4 sps);
        max_pic_order_cnt_lsb \<leftarrow> shl4 (sps_log2_max_pic_order_cnt_lsb_minus4 sps);
        if sps_pic_order_cnt_type sps = 0 then map_option (apfst Some) (poc_type0 sps sh p)
        else if sps_pic_order_cnt_type sps = 1 then poc_type1 sps sh p
        else if sps_pic_order_cnt_type sps = 2 then map_option (apfst Some) (poc_type2 sps sh p)
        else Some (None, p)
      })"

section \<open>Level limits\<close>

record level_limits =
  ll_max_mbps :: u32
  ll_max_fs :: u32
  ll_max_dpb_mbs :: u32
  ll_max_main_br :: u32

definition limits_of :: "u32 \<Rightarrow> u32 \<Rightarrow> u32 \<Rightarrow> u32 \<Rightarrow> level_limits" where
  "limits_of mbps fs dpb_mbs br = \<lparr>ll_max_mbps = mbps, ll_max_fs = fs, ll_max_dpb_mbs = dpb_mbs, ll_max_main_br = br\<rparr>"

definition level_table :: "(int \<times> level_limits) list" where
  "level_table =
     [(10, limits_of 1485 99 396 64),
      (9, limits_of 1485 99 396 128),
      (11, limits_of 3000 396 900 192),
      (12, limits_of 6000 396 2376 384),
      (13, limits_of 11800 396 2376 768),
      (20, limits_of 11880 396 2376 2000),
      (21, limits_of 19800 792 4752 4000),
      (22, limits_of 20250 1620 8100 4000),
      (30, limits_of 40500 1620 8100 10000),
      (31, limits_of 108000 3600 18000 14000),
      (32, limits_of 216000 5120 20480 20000),
      (40, limits_of 245760 8192 32768 20000),
      (41, limits_of 245760 8192 32768 50000),
      (42, limits_of 522240 8704 34816 50000),
      (50, limits_of 589824 22080 110400 135000),
      (51, limits_of 983040 36864 184320 240000),
      (52, limits_of 2073600 36864 184320 240000),
      (60, limits_of 4177920 139264 696320 240000),
      (61, limits_of 8355840 139264 696320 480000),
      (62, limits_of 16711680 139264 696320 800000)]"

definition LevelToLevelLimits :: "int \<Rightarrow> level_limits" where
  "LevelToLevelLimits level = (case map_of level_table level of Some l \<Rightarrow> l | None \<Rightarrow> limits_of 0 0 0 0)"

definition H264LevelToMaxMBPS :: "int \<Rightarrow> u32" where
  "H264LevelToMaxMBPS level = ll_max_mbps (LevelToLevelLimits level)"

definition H264LevelToMaxFS :: "int \<Rightarrow> u32" where
  "H264LevelToMaxFS level = ll_max_fs (LevelToLevelLimits level)"

definition H264LevelToMaxDpbMbs :: "int \<Rightarrow> u32" where
  "H264LevelToMaxDpbMbs level = ll_max_dpb_mbs (LevelToLevelLimits level)"

definition H264ProfileLevelToMaxBR :: "video_codec_profile \<Rightarrow> int \<Rightarrow> u32" where
  "H264ProfileLevelToMaxBR profile level =
     (let max_main_br = ll_max_main_br (LevelToLevelLimits level) in
      case profile of
        H264PROFILE_BASELINE \<Rightarrow> max_main_br
      | H264PROFILE_MAIN \<Rightarrow> max_main_br
      | H264PROFILE_EXTENDED \<Rightarrow> max_main_br
      | H264PROFILE_HIGH \<Rightarrow> max_main_br * 5 div 4
      | H264PROFILE_HIGH10PROFILE \<Rightarrow> max_main_br * 3
      | H264PROFILE_HIGH422PROFILE \<Rightarrow> max_main_br * 4
      | H264PROFILE_HIGH444PREDICTIVEPROFILE \<Rightarrow> max_main_br * 4
      | _ \<Rightarrow> 0)"

text \<open>The check of \<open>max_bitrate_kbs * 1000\<close> is of a value that is a \<open>uint32_t\<close> already.\<close>

definition CheckH264LevelLimits :: "video_codec_profile \<Rightarrow> int \<Rightarrow> u32 \<Rightarrow> u32 \<Rightarrow> u32 \<Rightarrow> bool" where
  "CheckH264LevelLimits profile level bitrate framerate framesize_in_mbs =
     (let max_bitrate_kbs = H264ProfileLevelToMaxBR profile level;
          max_bitrate = max_bitrate_kbs * 1000
      in if bitrate > max_bitrate then False
         else if framesize_in_mbs > H264LevelToMaxFS level then False
         else
           let mbps = framesize_in_mbs * framerate
           in if mbps > H264LevelToMaxMBPS level then False else True)"

section \<open>What the order counts are\<close>

lemma shl4_simp: "0 \<le> x \<Longrightarrow> x \<le> 12 \<Longrightarrow> shl4 x = Some (16 * 2 ^ nat x)"
  by (simp add: shl4_def nat_add_distrib power_add)

lemma i32_simp: "- 2147483648 \<le> v \<Longrightarrow> v < 2147483648 \<Longrightarrow> i32 v = Some v"
  by (simp add: i32_def int_range_def int_max_def)

lemma i32_SomeD: "i32 v = Some w \<Longrightarrow> w = v \<and> - (2 ^ 31) \<le> v \<and> v < 2 ^ 31"
  by (auto simp: i32_def int_range_def int_max_def split: if_splits)

text \<open>A count that moves by at most half the modulus is recovered from its residue.\<close>

lemma residue_step:
  fixes M r t :: int
  assumes M: "M = 2 * k" "0 < k" and d: "- M < 2 * (t - r)" "2 * (t - r) \<le> M"
  shows "t - t mod M =
    (if t mod M < r mod M \<and> k \<le> r mod M - t mod M then r - r mod M + M
     else if t mod M > r mod M \<and> t mod M - r mod M > k then r - r mod M - M else r - r mod M)"
proof -
  define q where "q = t div M - r div M"
  have t: "t = M * (t div M) + t mod M" and r: "r = M * (r div M) + r mod M" by simp_all
  have b: "0 \<le> t mod M" "t mod M < M" "0 \<le> r mod M" "r mod M < M" using M by simp_all
  have diff: "t - r = M * q + (t mod M - r mod M)" using t r by (simp add: q_def algebra_simps)
  have res: "t - t mod M = M * q + (r - r mod M)" using t r by (simp add: q_def algebra_simps)
  have "0 < M" using M by simp
  have lin: "a < m * 2 \<and> m * (- 2) < a"
    if "d = a + (x - y)" "0 \<le> x" "x < m" "0 \<le> y" "y < m" "- m < 2 * d" "2 * d \<le> m" for a m x y d :: int
    using that by simp
  have "M * q < M * 2" "M * (- 2) < M * q" using lin [OF diff b d] by simp_all
  then have "q < 2" "- 2 < q" using mult_less_cancel_left_pos [OF \<open>0 < M\<close>] by blast+
  then consider "q = 1" | "q = 0" | "q = - 1" by linarith
  then show ?thesis using diff res b d M by cases auto
qed

lemma wrapped_msb_recovers:
  assumes M: "M = 2 * k" "0 < k" "k \<le> 2 ^ 15" and d: "- M < 2 * (t - r)" "2 * (t - r) \<le> M"
    and r: "\<bar>r\<bar> < 2 ^ 30"
  shows "wrapped_msb M (r - r mod M) (r mod M) (t mod M) = Some (t - t mod M)"
proof -
  have b: "0 \<le> t mod M" "t mod M < M" "0 \<le> r mod M" "r mod M < M" using M by simp_all
  have M3: "M \<le> 65536" and r2: "- 1073741824 < r" "r < 1073741824" using M r by simp_all
  have i: "i32 (r mod M - t mod M) = Some (r mod M - t mod M)" by (rule i32_simp) (use b M3 in linarith)+
  have j: "i32 (t mod M - r mod M) = Some (t mod M - r mod M)" by (rule i32_simp) (use b M3 in linarith)+
  have u: "i32 (r - r mod M + M) = Some (r - r mod M + M)" by (rule i32_simp) (use b M3 r2 in linarith)+
  have v: "i32 (r - r mod M - M) = Some (r - r mod M - M)" by (rule i32_simp) (use b M3 r2 in linarith)+
  have k: "M div 2 = k" using M by simp
  show ?thesis unfolding wrapped_msb_def using residue_step [OF M(1,2) d] i j u v k by (auto split: if_splits)
qed

text \<open>
  Pictures with the top order counts that the encoder meant, of which the slice headers carry the
  least significant part, given the count \<open>r\<close> of the reference picture before.
\<close>

fun order_follows :: "int \<Rightarrow> int \<Rightarrow> (int \<times> h264_slice_header) list \<Rightarrow> bool" where
  "order_follows M r [] = True"
| "order_follows M r ((t, sh) # xs) =
     (let r0 = (if sh_idr_pic_flag sh then 0 else r) in
      sh_pic_order_cnt_lsb sh = t mod M \<and> - M < 2 * (t - r0) \<and> 2 * (t - r0) \<le> M \<and> \<bar>t\<bar> < 2 ^ 30 \<and>
      \<bar>sh_delta_pic_order_cnt_bottom sh\<bar> < 2 ^ 30 \<and> \<not> HasMMCO5 sh \<and> \<not> sh_field_pic_flag sh \<and>
      order_follows M (if sh_nal_ref_idc sh \<noteq> 0 then t else r) xs)"

fun poc_run :: "h264_sps \<Rightarrow> h264_slice_header list \<Rightarrow> h264_poc \<Rightarrow> int option list option" where
  "poc_run sps [] p = Some []"
| "poc_run sps (sh # shs) p =
     do { (c, p) \<leftarrow> ComputePicOrderCnt sps sh p; cs \<leftarrow> poc_run sps shs p; Some (c # cs) }"

lemma poc_step_recovers:
  assumes sps: "sps_pic_order_cnt_type sps = 0" "sps_log2_max_pic_order_cnt_lsb_minus4 sps \<in> {0..12}"
    "sps_log2_max_frame_num_minus4 sps \<in> {0..12}"
    and M: "M = 16 * 2 ^ nat (sps_log2_max_pic_order_cnt_lsb_minus4 sps)"
    and p: "poc_ref_pic_order_cnt_msb p = r - r mod M" "poc_ref_pic_order_cnt_lsb p = r mod M" "\<bar>r\<bar> < 2 ^ 30"
    and step: "order_follows M r ((t, sh) # xs)"
  shows "\<exists>p'. ComputePicOrderCnt sps sh p = Some (Some (min t (t + sh_delta_pic_order_cnt_bottom sh)), p') \<and>
    (let r' = (if sh_nal_ref_idc sh \<noteq> 0 then t else r) in
      poc_ref_pic_order_cnt_msb p' = r' - r' mod M \<and> poc_ref_pic_order_cnt_lsb p' = r' mod M)"
proof -
  let ?r0 = "if sh_idr_pic_flag sh then 0 else r"
  have sh: "sh_pic_order_cnt_lsb sh = t mod M" "- M < 2 * (t - ?r0)" "2 * (t - ?r0) \<le> M" "\<bar>t\<bar> < 2 ^ 30"
    "\<bar>sh_delta_pic_order_cnt_bottom sh\<bar> < 2 ^ 30" "\<not> HasMMCO5 sh" "\<not> sh_field_pic_flag sh"
    using step by (simp_all add: Let_def del: mult_le_cancel_left split del: if_split)
  obtain n where n: "sps_log2_max_pic_order_cnt_lsb_minus4 sps = int n" "n \<le> 12"
    using sps(2) by (metis atLeastAtMost_iff nat_0_le nat_le_iff of_nat_numeral)
  have k: "M = 2 * (8 * 2 ^ n)" "0 < (8 * 2 ^ n :: int)" using M n by simp_all
  have "(2::int) ^ n \<le> 2 ^ 12" using n by (intro power_increasing) simp_all
  then have k3: "(8 * 2 ^ n :: int) \<le> 2 ^ 15" by simp
  have w: "wrapped_msb M (?r0 - ?r0 mod M) (?r0 mod M) (t mod M) = Some (t - t mod M)"
    by (rule wrapped_msb_recovers [OF k k3 sh(2,3)]) (use p in simp)
  have w: "wrapped_msb M (if sh_idr_pic_flag sh then 0 else r - r mod M) (if sh_idr_pic_flag sh then 0 else r mod M)
      (t mod M) = Some (t - t mod M)"
    using w by (simp split: if_splits)
  have i: "i32 t = Some t" "i32 (t + sh_delta_pic_order_cnt_bottom sh) = Some (t + sh_delta_pic_order_cnt_bottom sh)"
    using sh(4,5) by (auto intro!: i32_simp)
  show ?thesis
    unfolding ComputePicOrderCnt_def poc_type0_def Let_def
    using sps sh(1,6,7) w i p(1,2) M by (cases "sh_idr_pic_flag sh") (simp_all add: shl4_simp)
qed

text \<open>
  C17: With order counts of type 0, \<open>H264POC\<close> gives every picture of a sequence the order count that
  the encoder meant, which it sends as its least significant part modulo \<open>M\<close>. Conditions, on every
  picture: its count lies within half of \<open>M\<close> from that of the last reference picture (from 0 for an
  IDR picture), it is a frame and not a field, counts and offsets are below \<open>2 ^ 30\<close> in size, and it
  has no memory management operation 5: after such an operation \<open>H264POC\<close> keeps the old most
  significant part and the statement is false (\<open>poc_after_mmco5_keeps_msb\<close>). The fields of the
  parameter set are in the ranges that the parser enforces, and the state before the first picture
  is that of a reference picture with count \<open>r\<close>.
\<close>

theorem poc_type0_recovers_order:
  assumes "sps_pic_order_cnt_type sps = 0" "sps_log2_max_pic_order_cnt_lsb_minus4 sps \<in> {0..12}"
    "sps_log2_max_frame_num_minus4 sps \<in> {0..12}"
    and "M = 16 * 2 ^ nat (sps_log2_max_pic_order_cnt_lsb_minus4 sps)"
    and "poc_ref_pic_order_cnt_msb p = r - r mod M" "poc_ref_pic_order_cnt_lsb p = r mod M" "\<bar>r\<bar> < 2 ^ 30"
    and "order_follows M r xs"
  shows "poc_run sps (map snd xs) p = Some (map (\<lambda>(t, sh). Some (min t (t + sh_delta_pic_order_cnt_bottom sh))) xs)"
  using assms(5-8)
proof (induction xs arbitrary: r p)
  case (Cons x xs)
  obtain t sh where x: "x = (t, sh)" by (cases x)
  obtain p' where p': "ComputePicOrderCnt sps sh p = Some (Some (min t (t + sh_delta_pic_order_cnt_bottom sh)), p')"
    "let r' = (if sh_nal_ref_idc sh \<noteq> 0 then t else r) in
      poc_ref_pic_order_cnt_msb p' = r' - r' mod M \<and> poc_ref_pic_order_cnt_lsb p' = r' mod M"
    using poc_step_recovers [OF assms(1-4) Cons.prems(1-3), of t sh xs] Cons.prems(4) x by auto
  have "poc_run sps (map snd xs) p' = Some (map (\<lambda>(t, sh). Some (min t (t + sh_delta_pic_order_cnt_bottom sh))) xs)"
    by (rule Cons.IH [of _ "if sh_nal_ref_idc sh \<noteq> 0 then t else r"])
      (use p'(2) Cons.prems(3,4) x in \<open>simp_all add: Let_def split: if_splits\<close>)
  then show ?case using p'(1) x by simp
qed simp

text \<open>
  After a picture with memory management operation 5 the standard takes the count of its top field
  less the count of the picture as the least significant part; the code takes the top field itself.
\<close>

definition poc_sps :: h264_sps where
  "poc_sps = H264SPS_zero"

definition poc_slice :: "int \<Rightarrow> int \<Rightarrow> h264_slice_header" where
  "poc_slice frame_num lsb = H264SliceHeader_zero\<lparr>sh_nal_ref_idc := 1, sh_frame_num := frame_num, sh_pic_order_cnt_lsb := lsb\<rparr>"

definition mmco5_slice :: "int \<Rightarrow> int \<Rightarrow> h264_slice_header" where
  "mmco5_slice frame_num lsb = (poc_slice frame_num lsb)\<lparr>sh_adaptive_ref_pic_marking_mode_flag := True,
     sh_ref_pic_marking := ref_pic_marking_zero\<lparr>rpm_memory_mgmnt_control_operation := 5\<rparr> # replicate 31 ref_pic_marking_zero\<rparr>"

lemmas poc_sample = poc_sps_def poc_slice_def mmco5_slice_def H264SPS_zero_def H264SliceHeader_zero_def ref_pic_marking_zero_def

lemma poc_after_mmco5_keeps_msb:
  "poc_run poc_sps [(poc_slice 0 0)\<lparr>sh_idr_pic_flag := True\<rparr>, poc_slice 1 8, poc_slice 2 0, mmco5_slice 3 0, poc_slice 4 8]
     H264POC_init = Some [Some 0, Some 8, Some 16, Some 0, Some 24]"
  by (simp add: poc_sample ComputePicOrderCnt_def poc_type0_def wrapped_msb_def shl4_def i32_def int_range_def int_max_def
      HasMMCO5_def H264POC_init_def Let_def)

lemma poc_type0_recovers_order_witness:
  "let xs = [(0, (poc_slice 0 0)\<lparr>sh_idr_pic_flag := True\<rparr>), (8, poc_slice 1 8), (14, poc_slice 2 14), (18, poc_slice 3 2)] in
   poc_run poc_sps (map snd xs) H264POC_init = Some (map (\<lambda>(t, sh). Some (min t (t + sh_delta_pic_order_cnt_bottom sh))) xs)"
  unfolding Let_def
  by (rule poc_type0_recovers_order [where M = 16 and r = 0])
    (simp_all add: poc_sample H264POC_init_def HasMMCO5_def)

section \<open>What the level check means\<close>

lemma level_table_bounds:
  "unat (ll_max_main_br (LevelToLevelLimits level)) \<le> 800000"
proof -
  have "\<forall>(k, l) \<in> set level_table. unat (ll_max_main_br l) \<le> 800000"
    by (simp add: level_table_def limits_of_def)
  then show ?thesis
    by (auto simp: LevelToLevelLimits_def limits_of_def dest!: map_of_SomeD split: option.split)
qed

text \<open>The factor of a profile, in quarters.\<close>

definition br_quarters :: "video_codec_profile \<Rightarrow> nat" where
  "br_quarters profile =
     (if profile \<in> {H264PROFILE_BASELINE, H264PROFILE_MAIN, H264PROFILE_EXTENDED} then 4
      else if profile = H264PROFILE_HIGH then 5
      else if profile = H264PROFILE_HIGH10PROFILE then 12
      else if profile \<in> {H264PROFILE_HIGH422PROFILE, H264PROFILE_HIGH444PREDICTIVEPROFILE} then 16
      else 0)"

lemma unat_mult_bounded: "unat (a :: u32) * unat b < 2 ^ 32 \<Longrightarrow> unat (a * b) = unat a * unat b"
  by (simp add: unat_word_ariths)

lemma MaxBR_exact:
  "unat (H264ProfileLevelToMaxBR profile level) = unat (ll_max_main_br (LevelToLevelLimits level)) * br_quarters profile div 4"
proof -
  let ?b = "ll_max_main_br (LevelToLevelLimits level)"
  have b: "unat ?b \<le> 800000" by (rule level_table_bounds)
  have "unat (?b * 5) = unat ?b * 5" "unat (?b * 3) = unat ?b * 3" "unat (?b * 4) = unat ?b * 4"
    using unat_mult_bounded [of ?b 5] unat_mult_bounded [of ?b 3] unat_mult_bounded [of ?b 4] b by simp_all
  then show ?thesis
    by (cases profile) (simp_all add: H264ProfileLevelToMaxBR_def br_quarters_def unat_div)
qed

text \<open>
  Unless the product of the frame size and the frame rate overflows, the check holds exactly when
  the bit rate, the frame size and the macroblock rate are within the limits of the level.
\<close>
theorem CheckH264LevelLimits_exact:
  assumes "unat framesize_in_mbs * unat framerate < 2 ^ 32"
  shows "CheckH264LevelLimits profile level bitrate framerate framesize_in_mbs \<longleftrightarrow>
    unat bitrate \<le> 1000 * (unat (ll_max_main_br (LevelToLevelLimits level)) * br_quarters profile div 4) \<and>
    unat framesize_in_mbs \<le> unat (ll_max_fs (LevelToLevelLimits level)) \<and>
    unat framesize_in_mbs * unat framerate \<le> unat (ll_max_mbps (LevelToLevelLimits level))"
proof -
  have "br_quarters profile \<le> 16" by (simp add: br_quarters_def)
  then have "unat (ll_max_main_br (LevelToLevelLimits level)) * br_quarters profile \<le> 800000 * 16"
    using level_table_bounds [of level] by (rule_tac mult_le_mono) simp_all
  then have "unat (H264ProfileLevelToMaxBR profile level) \<le> 3200000" unfolding MaxBR_exact by simp
  then have "unat (H264ProfileLevelToMaxBR profile level * 1000) = unat (H264ProfileLevelToMaxBR profile level) * 1000"
    using unat_mult_bounded [of "H264ProfileLevelToMaxBR profile level" 1000] by simp
  then show ?thesis
    using unat_mult_bounded [OF assms] MaxBR_exact [of profile level]
    by (auto simp: CheckH264LevelLimits_def H264LevelToMaxFS_def H264LevelToMaxMBPS_def Let_def word_less_nat_alt not_less mult.commute)
qed

lemma CheckH264LevelLimits_exact_witness:
  "CheckH264LevelLimits H264PROFILE_HIGH 31 5000000 30 3600 \<longleftrightarrow>
    unat (5000000 :: u32) \<le> 1000 * (unat (ll_max_main_br (LevelToLevelLimits 31)) * br_quarters H264PROFILE_HIGH div 4) \<and>
    unat (3600 :: u32) \<le> unat (ll_max_fs (LevelToLevelLimits 31)) \<and>
    unat (3600 :: u32) * unat (30 :: u32) \<le> unat (ll_max_mbps (LevelToLevelLimits 31))"
  by (rule CheckH264LevelLimits_exact) simp

text \<open>A frame rate far above the limit passes when the product wraps around.\<close>

lemma CheckH264LevelLimits_overflow:
  "CheckH264LevelLimits H264PROFILE_MAIN 51 1000000 116509 36864"
  "\<not> CheckH264LevelLimits H264PROFILE_MAIN 51 1000000 27 36864"
  by (simp_all add: CheckH264LevelLimits_def H264ProfileLevelToMaxBR_def H264LevelToMaxFS_def H264LevelToMaxMBPS_def
      LevelToLevelLimits_def level_table_def limits_of_def)

end
