(* ===== verification/H264_Dpb.thy ===== *)
theory H264_Dpb
  imports H264_Poc "HOL-Library.Multiset"
begin

text \<open>
  The decoded picture buffer of the H.264 decoder (\<open>gpu/h264_dpb.h\<close>, \<open>gpu/h264_dpb.cc\<close>).

  Pictures are shared between the buffer, the reference lists and the decoder, and are changed through
  any of these. So a picture is an address, and a store maps addresses to contents.
\<close>

section \<open>Pictures\<close>

datatype range_id = RANGE_INVALID | RANGE_LIMITED | RANGE_FULL

record video_color_space =
  vcs_primaries :: int
  vcs_transfer :: int
  vcs_matrix :: int
  vcs_range :: range_id

text \<open>The value of \<open>INVALID\<close> is 0, and 255 for a matrix; that of \<open>UNSPECIFIED\<close> is 2.\<close>

definition GetPrimaryID :: "int \<Rightarrow> int" where
  "GetPrimaryID primary =
     (if primary < 1 \<or> primary > 22 \<or> primary = 3 then 0
      else if primary > 12 \<and> primary < 22 then 0
      else primary)"

definition GetTransferID :: "int \<Rightarrow> int" where
  "GetTransferID transfer = (if transfer < 1 \<or> transfer > 18 \<or> transfer = 3 then 0 else transfer)"

definition GetMatrixID :: "int \<Rightarrow> int" where
  "GetMatrixID matrix = (if matrix < 0 \<or> matrix > 11 \<or> matrix = 3 then 255 else matrix)"

definition VideoColorSpace_init :: video_color_space where
  "VideoColorSpace_init = \<lparr>vcs_primaries = 0, vcs_transfer = 0, vcs_matrix = 255, vcs_range = RANGE_INVALID\<rparr>"

definition IsSpecified :: "video_color_space \<Rightarrow> bool" where
  "IsSpecified c =
     (if vcs_primaries c \<noteq> 0 \<and> vcs_primaries c \<noteq> 2 then True
      else if vcs_transfer c \<noteq> 0 \<and> vcs_transfer c \<noteq> 2 then True
      else if vcs_matrix c \<noteq> 255 \<and> vcs_matrix c \<noteq> 2 then True
      else False)"

text \<open>The colour space of a parameter set.\<close>

definition VideoColorSpace :: "h264_sps \<Rightarrow> video_color_space" where
  "VideoColorSpace sps =
     (case GetColorSpace sps of
        None \<Rightarrow> VideoColorSpace_init
      | Some (primaries, transfer, matrix, full) \<Rightarrow>
          \<lparr>vcs_primaries = GetPrimaryID primaries, vcs_transfer = GetTransferID transfer, vcs_matrix = GetMatrixID matrix,
           vcs_range = (if full then RANGE_FULL else RANGE_LIMITED)\<rparr>)"

datatype encryption_mode = kUnencrypted | kCenc | kCbcs

record decrypt_config =
  dc_encryption_mode :: encryption_mode
  dc_key_id :: string
  dc_iv :: string
  dc_subsamples :: "subsample_entry list"
  dc_encryption_pattern :: "(nat \<times> nat) option"

datatype h264_field = FIELD_NONE | FIELD_TOP | FIELD_BOTTOM

type_synonym rect = "(int \<times> int) \<times> (int \<times> int)"

record h264_picture =
  pi_bitstream_id :: int
  pi_visible_rect :: rect
  pi_decrypt_config :: "decrypt_config option"
  pi_colorspace :: video_color_space
  pi_pic_order_cnt_type :: int
  pi_top_field_order_cnt :: int
  pi_bottom_field_order_cnt :: int
  pi_pic_order_cnt :: int
  pi_pic_order_cnt_msb :: int
  pi_pic_order_cnt_lsb :: int
  pi_delta_pic_order_cnt_bottom :: int
  pi_delta_pic_order_cnt0 :: int
  pi_delta_pic_order_cnt1 :: int
  pi_pic_num :: int
  pi_long_term_pic_num :: int
  pi_frame_num :: int
  pi_frame_num_offset :: int
  pi_frame_num_wrap :: int
  pi_long_term_frame_idx :: int
  pi_slice_type :: int
  pi_nal_ref_idc :: int
  pi_idr :: bool
  pi_idr_pic_id :: int
  pi_ref :: bool
  pi_long_term :: bool
  pi_outputted :: bool
  pi_mem_mgmt_5 :: bool
  pi_nonexisting :: bool
  pi_field :: h264_field
  pi_long_term_reference_flag :: bool
  pi_adaptive_ref_pic_marking_mode_flag :: bool
  pi_ref_pic_marking :: "h264_ref_pic_marking list"
  pi_dpb_position :: nat

definition H264Picture_init :: h264_picture where
  "H264Picture_init = \<lparr>pi_bitstream_id = - 1, pi_visible_rect = ((0, 0), (0, 0)), pi_decrypt_config = None,
     pi_colorspace = VideoColorSpace_init, pi_pic_order_cnt_type = 0, pi_top_field_order_cnt = 0,
     pi_bottom_field_order_cnt = 0, pi_pic_order_cnt = 0, pi_pic_order_cnt_msb = 0, pi_pic_order_cnt_lsb = 0,
     pi_delta_pic_order_cnt_bottom = 0, pi_delta_pic_order_cnt0 = 0, pi_delta_pic_order_cnt1 = 0, pi_pic_num = 0,
     pi_long_term_pic_num = 0, pi_frame_num = 0, pi_frame_num_offset = 0, pi_frame_num_wrap = 0,
     pi_long_term_frame_idx = 0, pi_slice_type = 0, pi_nal_ref_idc = 0, pi_idr = False, pi_idr_pic_id = 0,
     pi_ref = False, pi_long_term = False, pi_outputted = False, pi_mem_mgmt_5 = False, pi_nonexisting = False,
     pi_field = FIELD_NONE, pi_long_term_reference_flag = False, pi_adaptive_ref_pic_marking_mode_flag = False,
     pi_ref_pic_marking = replicate 32 ref_pic_marking_zero, pi_dpb_position = 0\<rparr>"

type_synonym pic_store = "nat \<Rightarrow> h264_picture"

section \<open>The buffer\<close>

record h264_dpb =
  dpb_pics :: "nat list"
  dpb_max_num_pics :: nat

definition kDPBMaxSize :: nat where
  "kDPBMaxSize = 16"

definition H264DPB_init :: h264_dpb where
  "H264DPB_init = \<lparr>dpb_pics = [], dpb_max_num_pics = 0\<rparr>"

definition DPB_Clear :: "h264_dpb \<Rightarrow> h264_dpb" where
  "DPB_Clear dpb = dpb\<lparr>dpb_pics := []\<rparr>"

definition set_max_num_pics :: "nat \<Rightarrow> h264_dpb \<Rightarrow> h264_dpb option" where
  "set_max_num_pics n dpb =
     (if \<not> n \<le> kDPBMaxSize then None
      else Some (if length (dpb_pics dpb) > n then dpb\<lparr>dpb_max_num_pics := n, dpb_pics := take n (dpb_pics dpb)\<rparr>
                 else dpb\<lparr>dpb_max_num_pics := n\<rparr>))"

fun set_positions :: "nat \<Rightarrow> nat list \<Rightarrow> pic_store \<Rightarrow> pic_store" where
  "set_positions i [] h = h"
| "set_positions i (a # as) h = set_positions (i + 1) as (h(a := (h a)\<lparr>pi_dpb_position := i\<rparr>))"

definition UpdatePicPositions :: "h264_dpb \<Rightarrow> pic_store \<Rightarrow> pic_store" where
  "UpdatePicPositions dpb h = set_positions 0 (dpb_pics dpb) h"

text \<open>The first picture of a list that satisfies a condition is erased.\<close>

fun erase_first :: "(nat \<Rightarrow> bool) \<Rightarrow> nat list \<Rightarrow> nat list option" where
  "erase_first P [] = None"
| "erase_first P (a # as) = (if P a then Some as else map_option ((#) a) (erase_first P as))"

definition DeleteByPOC :: "int \<Rightarrow> h264_dpb \<Rightarrow> pic_store \<Rightarrow> (h264_dpb \<times> pic_store) option" where
  "DeleteByPOC poc dpb h =
     (case erase_first (\<lambda>a. pi_pic_order_cnt (h a) = poc) (dpb_pics dpb) of
        None \<Rightarrow> None
      | Some pics \<Rightarrow> let dpb = dpb\<lparr>dpb_pics := pics\<rparr> in Some (dpb, UpdatePicPositions dpb h))"

fun erase_unused :: "pic_store \<Rightarrow> nat list \<Rightarrow> nat list" where
  "erase_unused h [] = []"
| "erase_unused h (a # as) = (if pi_outputted (h a) \<and> \<not> pi_ref (h a) then erase_unused h as else a # erase_unused h as)"

definition DeleteUnused :: "h264_dpb \<Rightarrow> pic_store \<Rightarrow> h264_dpb \<times> pic_store" where
  "DeleteUnused dpb h = (let dpb = dpb\<lparr>dpb_pics := erase_unused h (dpb_pics dpb)\<rparr> in (dpb, UpdatePicPositions dpb h))"

definition StorePic :: "nat \<Rightarrow> h264_dpb \<Rightarrow> pic_store \<Rightarrow> (h264_dpb \<times> pic_store) option" where
  "StorePic a dpb h =
     (if \<not> length (dpb_pics dpb) < dpb_max_num_pics dpb then None
      else Some (dpb\<lparr>dpb_pics := dpb_pics dpb @ [a]\<rparr>, h(a := (h a)\<lparr>pi_dpb_position := length (dpb_pics dpb)\<rparr>)))"

fun count_refs :: "pic_store \<Rightarrow> nat list \<Rightarrow> nat" where
  "count_refs h [] = 0"
| "count_refs h (a # as) = (if pi_ref (h a) then 1 else 0) + count_refs h as"

definition CountRefPics :: "h264_dpb \<Rightarrow> pic_store \<Rightarrow> nat" where
  "CountRefPics dpb h = count_refs h (dpb_pics dpb)"

fun unmark_all :: "nat list \<Rightarrow> pic_store \<Rightarrow> pic_store" where
  "unmark_all [] h = h"
| "unmark_all (a # as) h = unmark_all as (h(a := (h a)\<lparr>pi_ref := False\<rparr>))"

definition MarkAllUnusedForRef :: "h264_dpb \<Rightarrow> pic_store \<Rightarrow> pic_store" where
  "MarkAllUnusedForRef dpb h = unmark_all (dpb_pics dpb) h"

fun first_such :: "(nat \<Rightarrow> bool) \<Rightarrow> nat list \<Rightarrow> nat option" where
  "first_such P [] = None"
| "first_such P (a # as) = (if P a then Some a else first_such P as)"

definition GetShortRefPicByPicNum :: "int \<Rightarrow> h264_dpb \<Rightarrow> pic_store \<Rightarrow> nat option" where
  "GetShortRefPicByPicNum pic_num dpb h =
     first_such (\<lambda>a. pi_ref (h a) \<and> \<not> pi_long_term (h a) \<and> pi_pic_num (h a) = pic_num) (dpb_pics dpb)"

definition GetLongRefPicByLongTermPicNum :: "int \<Rightarrow> h264_dpb \<Rightarrow> pic_store \<Rightarrow> nat option" where
  "GetLongRefPicByLongTermPicNum pic_num dpb h =
     first_such (\<lambda>a. pi_ref (h a) \<and> pi_long_term (h a) \<and> pi_long_term_pic_num (h a) = pic_num) (dpb_pics dpb)"

fun lowest_short :: "pic_store \<Rightarrow> nat list \<Rightarrow> nat option \<Rightarrow> nat option" where
  "lowest_short h [] ret = ret"
| "lowest_short h (a # as) ret =
     lowest_short h as
       (if pi_ref (h a) \<and> \<not> pi_long_term (h a) \<and>
           (case ret of None \<Rightarrow> True | Some b \<Rightarrow> pi_frame_num_wrap (h a) < pi_frame_num_wrap (h b))
        then Some a else ret)"

definition GetLowestFrameNumWrapShortRefPic :: "h264_dpb \<Rightarrow> pic_store \<Rightarrow> nat option" where
  "GetLowestFrameNumWrapShortRefPic dpb h = lowest_short h (dpb_pics dpb) None"

text \<open>The pictures of a kind in their order, appended to a list.\<close>

fun append_such :: "(nat \<Rightarrow> bool) \<Rightarrow> nat list \<Rightarrow> nat list \<Rightarrow> nat list" where
  "append_such P [] out = out"
| "append_such P (a # as) out = append_such P as (if P a then out @ [a] else out)"

definition GetNotOutputtedPicsAppending :: "h264_dpb \<Rightarrow> pic_store \<Rightarrow> nat list \<Rightarrow> nat list" where
  "GetNotOutputtedPicsAppending dpb h out = append_such (\<lambda>a. \<not> pi_outputted (h a)) (dpb_pics dpb) out"

definition GetShortTermRefPicsAppending :: "h264_dpb \<Rightarrow> pic_store \<Rightarrow> nat list \<Rightarrow> nat list" where
  "GetShortTermRefPicsAppending dpb h out = append_such (\<lambda>a. pi_ref (h a) \<and> \<not> pi_long_term (h a)) (dpb_pics dpb) out"

definition GetLongTermRefPicsAppending :: "h264_dpb \<Rightarrow> pic_store \<Rightarrow> nat list \<Rightarrow> nat list" where
  "GetLongTermRefPicsAppending dpb h out = append_such (\<lambda>a. pi_ref (h a) \<and> pi_long_term (h a)) (dpb_pics dpb) out"

definition IsFull :: "h264_dpb \<Rightarrow> bool" where
  "IsFull dpb \<longleftrightarrow> length (dpb_pics dpb) = dpb_max_num_pics dpb"

end
