(* ===== verification/H264_Refs.thy ===== *)
theory H264_Refs
  imports H264_Dpb
begin

text \<open>
  The state of the H.264 decoder (\<open>gpu/h264_decoder.h\<close>), its order counts and picture numbers, and
  the construction and modification of reference picture lists (\<open>gpu/h264_decoder.cc\<close>).

  The accelerator is a record of functions on its state. \<open>std::sort\<close> is a parameter \<open>srt\<close>: it takes the
  key by which the comparison of the code orders pictures, and leaves the order of equal keys open.
\<close>

section \<open>The state\<close>

datatype acc_status = kStatusOk | kStatusFail | kStatusTryAgain | kStatusNotSupported

record 'a h264_accelerator =
  acc_CreateH264Picture :: "'a \<Rightarrow> bool \<times> 'a"
  acc_SubmitFrameMetadata :: "h264_sps \<Rightarrow> h264_pps \<Rightarrow> h264_dpb \<Rightarrow> nat list \<Rightarrow> nat list \<Rightarrow> nat list \<Rightarrow> nat \<Rightarrow> pic_store \<Rightarrow>
    'a \<Rightarrow> acc_status \<times> 'a"
  acc_SubmitSlice :: "h264_pps \<Rightarrow> h264_slice_header \<Rightarrow> nat option list \<Rightarrow> nat option list \<Rightarrow> nat \<Rightarrow> nat \<Rightarrow> int \<Rightarrow>
    subsample_entry list \<Rightarrow> pic_store \<Rightarrow> 'a \<Rightarrow> acc_status \<times> 'a"
  acc_SubmitDecode :: "nat \<Rightarrow> pic_store \<Rightarrow> 'a \<Rightarrow> acc_status \<times> 'a"
  acc_OutputPicture :: "nat \<Rightarrow> pic_store \<Rightarrow> 'a \<Rightarrow> 'a"
  acc_Reset :: "'a \<Rightarrow> 'a"
  acc_SetStream :: "u8 list \<Rightarrow> decrypt_config option \<Rightarrow> 'a \<Rightarrow> acc_status \<times> 'a"
  acc_ParseSliceHeader :: "h264_nalu \<Rightarrow> 'a \<Rightarrow> acc_status \<times> h264_slice_header \<times> 'a"

datatype h264_decoder_state =
    kNeedStreamMetadata | kDecoding | kAfterReset | kTryPreprocessCurrentSlice | kEnsurePicture | kTryNewFrame
  | kTryCurrentSlice | kError

text \<open>The pictures are in \<open>hd_store\<close>, those from \<open>hd_next\<close> on not yet made.\<close>

record 'a h264_decoder =
  hd_state :: h264_decoder_state
  hd_container_color_space :: video_color_space
  hd_parser :: h264_parser
  hd_current_stream :: "u8 list"
  hd_current_decrypt_config :: "decrypt_config option"
  hd_current_stream_has_been_changed :: bool
  hd_dpb :: h264_dpb
  hd_stream_id :: int
  hd_curr_pic :: "nat option"
  hd_ref_pic_list_p0 :: "nat list"
  hd_ref_pic_list_b0 :: "nat list"
  hd_ref_pic_list_b1 :: "nat list"
  hd_max_frame_num :: int
  hd_max_pic_num :: int
  hd_max_long_term_frame_idx :: int
  hd_max_num_reorder_frames :: nat
  hd_prev_frame_num :: int
  hd_prev_ref_frame_num :: int
  hd_prev_frame_num_offset :: int
  hd_prev_has_memmgmnt5 :: bool
  hd_prev_ref_has_memmgmnt5 :: bool
  hd_prev_ref_top_field_order_cnt :: int
  hd_prev_ref_pic_order_cnt_msb :: int
  hd_prev_ref_pic_order_cnt_lsb :: int
  hd_prev_ref_field :: h264_field
  hd_curr_sps_id :: int
  hd_curr_pps_id :: int
  hd_curr_nalu :: "h264_nalu option"
  hd_curr_slice_hdr :: "h264_slice_header option"
  hd_pic_size :: "int \<times> int"
  hd_visible_rect :: rect
  hd_last_output_poc :: int
  hd_accelerator :: 'a
  hd_store :: pic_store
  hd_next :: nat

abbreviation pic_of :: "'a h264_decoder \<Rightarrow> nat \<Rightarrow> h264_picture" where
  "pic_of d a \<equiv> hd_store d a"

definition upd_pic :: "nat \<Rightarrow> (h264_picture \<Rightarrow> h264_picture) \<Rightarrow> 'a h264_decoder \<Rightarrow> 'a h264_decoder" where
  "upd_pic a f d = d\<lparr>hd_store := (hd_store d)(a := f (hd_store d a))\<rparr>"

lemma upd_pic_fields [simp]:
  "hd_state (upd_pic a f d) = hd_state d"
  "hd_container_color_space (upd_pic a f d) = hd_container_color_space d"
  "hd_parser (upd_pic a f d) = hd_parser d"
  "hd_current_stream (upd_pic a f d) = hd_current_stream d"
  "hd_current_decrypt_config (upd_pic a f d) = hd_current_decrypt_config d"
  "hd_current_stream_has_been_changed (upd_pic a f d) = hd_current_stream_has_been_changed d"
  "hd_dpb (upd_pic a f d) = hd_dpb d"
  "hd_stream_id (upd_pic a f d) = hd_stream_id d"
  "hd_curr_pic (upd_pic a f d) = hd_curr_pic d"
  "hd_ref_pic_list_p0 (upd_pic a f d) = hd_ref_pic_list_p0 d"
  "hd_ref_pic_list_b0 (upd_pic a f d) = hd_ref_pic_list_b0 d"
  "hd_ref_pic_list_b1 (upd_pic a f d) = hd_ref_pic_list_b1 d"
  "hd_max_frame_num (upd_pic a f d) = hd_max_frame_num d"
  "hd_max_pic_num (upd_pic a f d) = hd_max_pic_num d"
  "hd_max_long_term_frame_idx (upd_pic a f d) = hd_max_long_term_frame_idx d"
  "hd_max_num_reorder_frames (upd_pic a f d) = hd_max_num_reorder_frames d"
  "hd_prev_frame_num (upd_pic a f d) = hd_prev_frame_num d"
  "hd_prev_ref_frame_num (upd_pic a f d) = hd_prev_ref_frame_num d"
  "hd_prev_frame_num_offset (upd_pic a f d) = hd_prev_frame_num_offset d"
  "hd_prev_has_memmgmnt5 (upd_pic a f d) = hd_prev_has_memmgmnt5 d"
  "hd_prev_ref_has_memmgmnt5 (upd_pic a f d) = hd_prev_ref_has_memmgmnt5 d"
  "hd_prev_ref_top_field_order_cnt (upd_pic a f d) = hd_prev_ref_top_field_order_cnt d"
  "hd_prev_ref_pic_order_cnt_msb (upd_pic a f d) = hd_prev_ref_pic_order_cnt_msb d"
  "hd_prev_ref_pic_order_cnt_lsb (upd_pic a f d) = hd_prev_ref_pic_order_cnt_lsb d"
  "hd_prev_ref_field (upd_pic a f d) = hd_prev_ref_field d"
  "hd_curr_sps_id (upd_pic a f d) = hd_curr_sps_id d"
  "hd_curr_pps_id (upd_pic a f d) = hd_curr_pps_id d"
  "hd_curr_nalu (upd_pic a f d) = hd_curr_nalu d"
  "hd_curr_slice_hdr (upd_pic a f d) = hd_curr_slice_hdr d"
  "hd_pic_size (upd_pic a f d) = hd_pic_size d"
  "hd_visible_rect (upd_pic a f d) = hd_visible_rect d"
  "hd_last_output_poc (upd_pic a f d) = hd_last_output_poc d"
  "hd_accelerator (upd_pic a f d) = hd_accelerator d"
  "hd_next (upd_pic a f d) = hd_next d"
  by (simp_all add: upd_pic_def)

lemma upd_pic_store [simp]: "hd_store (upd_pic a f d) = (hd_store d)(a := f (hd_store d a))"
  by (simp add: upd_pic_def)

text \<open>The decoder as its constructor leaves it before the call of \<open>Reset\<close>.\<close>

definition H264Decoder_new :: "video_color_space \<Rightarrow> 'a \<Rightarrow> 'a h264_decoder" where
  "H264Decoder_new container_color_space acc =
     \<lparr>hd_state = kNeedStreamMetadata, hd_container_color_space = container_color_space, hd_parser = H264Parser_init,
      hd_current_stream = [], hd_current_decrypt_config = None, hd_current_stream_has_been_changed = False,
      hd_dpb = H264DPB_init, hd_stream_id = - 1, hd_curr_pic = None, hd_ref_pic_list_p0 = [], hd_ref_pic_list_b0 = [],
      hd_ref_pic_list_b1 = [], hd_max_frame_num = 0, hd_max_pic_num = 0, hd_max_long_term_frame_idx = 0,
      hd_max_num_reorder_frames = 0, hd_prev_frame_num = - 1, hd_prev_ref_frame_num = - 1,
      hd_prev_frame_num_offset = - 1, hd_prev_has_memmgmnt5 = False, hd_prev_ref_has_memmgmnt5 = False,
      hd_prev_ref_top_field_order_cnt = - 1, hd_prev_ref_pic_order_cnt_msb = - 1, hd_prev_ref_pic_order_cnt_lsb = - 1,
      hd_prev_ref_field = FIELD_NONE, hd_curr_sps_id = - 1, hd_curr_pps_id = - 1, hd_curr_nalu = None,
      hd_curr_slice_hdr = None, hd_pic_size = (0, 0), hd_visible_rect = ((0, 0), (0, 0)),
      hd_last_output_poc = - (2 ^ 31), hd_accelerator = acc, hd_store = \<lambda>_. H264Picture_init, hd_next = 0\<rparr>"

text \<open>The result tells whether the picture is a frame and the type of its order count is known.\<close>

definition FillH264PictureFromSliceHeader :: "h264_sps option \<Rightarrow> h264_slice_header \<Rightarrow> h264_picture \<Rightarrow> (bool \<times> h264_picture) option" where
  "FillH264PictureFromSliceHeader sps sh pic =
     (let pic = pic\<lparr>pi_idr := sh_idr_pic_flag sh\<rparr>;
          pic = (if pi_idr pic then pic\<lparr>pi_idr_pic_id := sh_idr_pic_id sh\<rparr> else pic);
          pic = pic\<lparr>pi_field := (if sh_field_pic_flag sh then if sh_bottom_field_flag sh then FIELD_BOTTOM else FIELD_TOP
                               else FIELD_NONE)\<rparr>
      in if pi_field pic \<noteq> FIELD_NONE then Some (False, pic)
         else
           let pic = pic\<lparr>pi_nal_ref_idc := sh_nal_ref_idc sh, pi_ref := sh_nal_ref_idc sh \<noteq> 0,
                         pi_frame_num := sh_frame_num sh, pi_pic_num := sh_frame_num sh\<rparr>
           in case sps of
             None \<Rightarrow> Some (False, pic)
           | Some sps \<Rightarrow>
               let pic = pic\<lparr>pi_pic_order_cnt_type := sps_pic_order_cnt_type sps\<rparr> in
               if pi_pic_order_cnt_type pic = 0 then
                 Some (True, pic\<lparr>pi_pic_order_cnt_lsb := sh_pic_order_cnt_lsb sh,
                                 pi_delta_pic_order_cnt_bottom := sh_delta_pic_order_cnt_bottom sh\<rparr>)
               else if pi_pic_order_cnt_type pic = 1 then
                 Some (True, pic\<lparr>pi_delta_pic_order_cnt0 := sh_delta_pic_order_cnt0 sh,
                                 pi_delta_pic_order_cnt1 := sh_delta_pic_order_cnt1 sh\<rparr>)
               else if pi_pic_order_cnt_type pic = 2 then Some (True, pic)
               else None)"

text \<open>What \<open>FinishPicture\<close> stores of a picture for the next one.\<close>

definition store_previous :: "nat \<Rightarrow> 'a h264_decoder \<Rightarrow> 'a h264_decoder" where
  "store_previous a d =
     (let pic = pic_of d a;
          d = (if pi_ref pic
               then d\<lparr>hd_prev_ref_has_memmgmnt5 := pi_mem_mgmt_5 pic,
                      hd_prev_ref_top_field_order_cnt := pi_top_field_order_cnt pic,
                      hd_prev_ref_pic_order_cnt_msb := pi_pic_order_cnt_msb pic,
                      hd_prev_ref_pic_order_cnt_lsb := pi_pic_order_cnt_lsb pic,
                      hd_prev_ref_field := pi_field pic,
                      hd_prev_ref_frame_num := pi_frame_num pic\<rparr>
               else d)
      in d\<lparr>hd_prev_frame_num := pi_frame_num pic, hd_prev_has_memmgmnt5 := pi_mem_mgmt_5 pic,
           hd_prev_frame_num_offset := pi_frame_num_offset pic\<rparr>)"

section \<open>Order counts\<close>

text \<open>The part of the order count that the field of the picture determines.\<close>

definition set_field_counts :: "int \<Rightarrow> int \<Rightarrow> h264_picture \<Rightarrow> h264_picture" where
  "set_field_counts top_foc bottom_foc pic =
     (case pi_field pic of
        FIELD_NONE \<Rightarrow> pic\<lparr>pi_top_field_order_cnt := top_foc, pi_bottom_field_order_cnt := bottom_foc\<rparr>
      | FIELD_TOP \<Rightarrow> pic\<lparr>pi_top_field_order_cnt := top_foc\<rparr>
      | FIELD_BOTTOM \<Rightarrow> pic\<lparr>pi_bottom_field_order_cnt := bottom_foc\<rparr>)"

definition prev_ref_order_count :: "'a h264_decoder \<Rightarrow> h264_picture \<Rightarrow> int \<times> int" where
  "prev_ref_order_count d pic =
     (if pi_idr pic then (0, 0)
      else if hd_prev_ref_has_memmgmnt5 d then
        if hd_prev_ref_field d \<noteq> FIELD_BOTTOM then (0, hd_prev_ref_top_field_order_cnt d) else (0, 0)
      else (hd_prev_ref_pic_order_cnt_msb d, hd_prev_ref_pic_order_cnt_lsb d))"

definition order_counts_type0 :: "h264_sps \<Rightarrow> 'a h264_decoder \<Rightarrow> h264_picture \<Rightarrow> h264_picture option" where
  "order_counts_type0 sps d pic =
     do {
       let (prev_pic_order_cnt_msb, prev_pic_order_cnt_lsb) = prev_ref_order_count d pic;
       max_pic_order_cnt_lsb \<leftarrow> shl4 (sps_log2_max_pic_order_cnt_lsb_minus4 sps);
       msb \<leftarrow> wrapped_msb max_pic_order_cnt_lsb prev_pic_order_cnt_msb prev_pic_order_cnt_lsb (pi_pic_order_cnt_lsb pic);
       let pic = pic\<lparr>pi_pic_order_cnt_msb := msb\<rparr>;
       top_foc \<leftarrow> i32 (msb + pi_pic_order_cnt_lsb pic);
       bottom_foc \<leftarrow> (if pi_field pic = FIELD_NONE then i32 (top_foc + pi_delta_pic_order_cnt_bottom pic) else Some top_foc);
       Some (set_field_counts top_foc bottom_foc pic)
     }"

text \<open>The offset of the frame numbers, of the types 1 and 2.\<close>

definition frame_num_offset :: "'a h264_decoder \<Rightarrow> h264_picture \<Rightarrow> int option" where
  "frame_num_offset d pic =
     (if pi_idr pic then Some 0
      else if hd_prev_frame_num d > pi_frame_num pic then i32 (hd_prev_frame_num_offset d + hd_max_frame_num d)
      else Some (hd_prev_frame_num_offset d))"

definition order_counts_type1 :: "h264_sps \<Rightarrow> 'a h264_decoder \<Rightarrow> h264_picture \<Rightarrow> (bool \<times> h264_picture) option" where
  "order_counts_type1 sps d pic =
     do {
       off \<leftarrow> frame_num_offset d pic;
       let pic = pic\<lparr>pi_frame_num_offset := off\<rparr>;
       expected \<leftarrow> expected_poc sps (pi_nal_ref_idc pic) (pi_frame_num pic) off;
       (case expected of
          None \<Rightarrow> Some (False, pic)
        | Some expected_pic_order_cnt \<Rightarrow>
            if pi_field pic = FIELD_BOTTOM then do {
              b \<leftarrow> i32 (expected_pic_order_cnt + sps_offset_for_top_to_bottom_field sps);
              bottom_foc \<leftarrow> i32 (b + pi_delta_pic_order_cnt0 pic);
              Some (True, set_field_counts 0 bottom_foc pic)
            } else do {
              top_foc \<leftarrow> i32 (expected_pic_order_cnt + pi_delta_pic_order_cnt0 pic);
              if pi_field pic = FIELD_NONE then do {
                b \<leftarrow> i32 (top_foc + sps_offset_for_top_to_bottom_field sps);
                bottom_foc \<leftarrow> i32 (b + pi_delta_pic_order_cnt1 pic);
                Some (True, set_field_counts top_foc bottom_foc pic)
              } else Some (True, set_field_counts top_foc 0 pic)
            })
     }"

definition order_counts_type2 :: "'a h264_decoder \<Rightarrow> h264_picture \<Rightarrow> h264_picture option" where
  "order_counts_type2 d pic =
     do {
       off \<leftarrow> frame_num_offset d pic;
       let pic = pic\<lparr>pi_frame_num_offset := off\<rparr>;
       temp_pic_order_cnt \<leftarrow> temp_poc (pi_idr pic) (pi_nal_ref_idc pic) (pi_frame_num pic) off;
       Some (set_field_counts temp_pic_order_cnt temp_pic_order_cnt pic)
     }"

definition set_pic_order_cnt :: "h264_picture \<Rightarrow> h264_picture" where
  "set_pic_order_cnt pic = pic\<lparr>pi_pic_order_cnt :=
     (case pi_field pic of
        FIELD_NONE \<Rightarrow> min (pi_top_field_order_cnt pic) (pi_bottom_field_order_cnt pic)
      | FIELD_TOP \<Rightarrow> pi_top_field_order_cnt pic
      | FIELD_BOTTOM \<Rightarrow> pi_bottom_field_order_cnt pic)\<rparr>"

definition clear_offset :: "'a h264_decoder \<Rightarrow> 'a h264_decoder" where
  "clear_offset d = (if hd_prev_has_memmgmnt5 d then d\<lparr>hd_prev_frame_num_offset := 0\<rparr> else d)"

definition CalculatePicOrderCounts :: "nat \<Rightarrow> 'a h264_decoder \<Rightarrow> (bool \<times> 'a h264_decoder) option" where
  "CalculatePicOrderCounts a d =
     (case GetSPS (hd_curr_sps_id d) (hd_parser d) of
        None \<Rightarrow> Some (False, d)
      | Some sps \<Rightarrow>
          let pic = pic_of d a in
          if pi_pic_order_cnt_type pic = 0 then
            map_option (\<lambda>pic. (True, upd_pic a (\<lambda>_. set_pic_order_cnt pic) d)) (order_counts_type0 sps d pic)
          else if pi_pic_order_cnt_type pic = 1 then
            let d = clear_offset d in
            map_option (\<lambda>(ok, pic). (ok, upd_pic a (\<lambda>_. if ok then set_pic_order_cnt pic else pic) d))
              (order_counts_type1 sps d pic)
          else if pi_pic_order_cnt_type pic = 2 then
            let d = clear_offset d in
            map_option (\<lambda>pic. (True, upd_pic a (\<lambda>_. set_pic_order_cnt pic) d)) (order_counts_type2 d pic)
          else Some (False, d))"

text \<open>Numbers of the pictures in the buffer; the check is that reference pictures are frames.\<close>

fun update_pic_nums :: "int \<Rightarrow> int \<Rightarrow> nat list \<Rightarrow> pic_store \<Rightarrow> pic_store option" where
  "update_pic_nums max_frame_num frame_num [] h = Some h"
| "update_pic_nums max_frame_num frame_num (a # as) h =
     (let pic = h a in
      if \<not> pi_ref pic then update_pic_nums max_frame_num frame_num as h
      else if pi_field pic \<noteq> FIELD_NONE then None
      else if pi_long_term pic then
        update_pic_nums max_frame_num frame_num as (h(a := pic\<lparr>pi_long_term_pic_num := pi_long_term_frame_idx pic\<rparr>))
      else
        let frame_num_wrap = (if pi_frame_num pic > frame_num then pi_frame_num pic - max_frame_num else pi_frame_num pic)
        in update_pic_nums max_frame_num frame_num as
             (h(a := pic\<lparr>pi_frame_num_wrap := frame_num_wrap, pi_pic_num := frame_num_wrap\<rparr>)))"

definition UpdatePicNums :: "int \<Rightarrow> 'a h264_decoder \<Rightarrow> 'a h264_decoder option" where
  "UpdatePicNums frame_num d =
     map_option (\<lambda>h. d\<lparr>hd_store := h\<rparr>)
       (update_pic_nums (hd_max_frame_num d) frame_num (dpb_pics (hd_dpb d)) (hd_store d))"

section \<open>Reference picture lists\<close>

type_synonym pic_sort = "(nat \<Rightarrow> int) \<Rightarrow> nat list \<Rightarrow> nat list"

text \<open>The keys of the comparisons \<open>PicNumDescCompare\<close>, \<open>LongTermPicNumAscCompare\<close>, \<open>POCAscCompare\<close> and
  \<open>POCDescCompare\<close>.\<close>

definition PicNumDesc :: "pic_store \<Rightarrow> nat \<Rightarrow> int" where
  "PicNumDesc h a = - pi_pic_num (h a)"

definition LongTermPicNumAsc :: "pic_store \<Rightarrow> nat \<Rightarrow> int" where
  "LongTermPicNumAsc h a = pi_long_term_pic_num (h a)"

definition POCAsc :: "pic_store \<Rightarrow> nat \<Rightarrow> int" where
  "POCAsc h a = pi_pic_order_cnt (h a)"

definition POCDesc :: "pic_store \<Rightarrow> nat \<Rightarrow> int" where
  "POCDesc h a = - pi_pic_order_cnt (h a)"

text \<open>Sorting from, and up to, an index; the first index whose key is greater than one given.\<close>

definition sort_from :: "pic_sort \<Rightarrow> (nat \<Rightarrow> int) \<Rightarrow> nat \<Rightarrow> nat list \<Rightarrow> nat list" where
  "sort_from srt k i as = take i as @ srt k (drop i as)"

definition sort_upto :: "pic_sort \<Rightarrow> (nat \<Rightarrow> int) \<Rightarrow> nat \<Rightarrow> nat list \<Rightarrow> nat list" where
  "sort_upto srt k i as = srt k (take i as) @ drop i as"

definition upper_bound :: "(nat \<Rightarrow> int) \<Rightarrow> nat \<Rightarrow> nat list \<Rightarrow> nat" where
  "upper_bound k v as = length (takeWhile (\<lambda>a. \<not> k v < k a) as)"

definition ConstructReferencePicListsP :: "pic_sort \<Rightarrow> 'a h264_decoder \<Rightarrow> 'a h264_decoder" where
  "ConstructReferencePicListsP srt d =
     (let h = hd_store d;
          p0 = GetShortTermRefPicsAppending (hd_dpb d) h [];
          num_short_refs = length p0;
          p0 = srt (PicNumDesc h) p0;
          p0 = GetLongTermRefPicsAppending (hd_dpb d) h p0
      in d\<lparr>hd_ref_pic_list_p0 := sort_from srt (LongTermPicNumAsc h) num_short_refs p0\<rparr>)"

text \<open>\<open>std::equal\<close> reads as many elements of the second list as the first one has.\<close>

fun std_equal :: "nat list \<Rightarrow> nat list \<Rightarrow> bool option" where
  "std_equal [] bs = Some True"
| "std_equal (a # as) [] = None"
| "std_equal (a # as) (b # bs) = (if a = b then std_equal as bs else Some False)"

definition list_b0 :: "pic_sort \<Rightarrow> nat \<Rightarrow> 'a h264_decoder \<Rightarrow> nat list" where
  "list_b0 srt cur d =
     (let h = hd_store d;
          b0 = GetShortTermRefPicsAppending (hd_dpb d) h [];
          num_short_refs = length b0;
          b0 = srt (POCAsc h) b0;
          b0 = sort_upto srt (POCDesc h) (upper_bound (POCAsc h) cur b0) b0;
          b0 = GetLongTermRefPicsAppending (hd_dpb d) h b0
      in sort_from srt (LongTermPicNumAsc h) num_short_refs b0)"

definition list_b1 :: "pic_sort \<Rightarrow> nat \<Rightarrow> 'a h264_decoder \<Rightarrow> nat list" where
  "list_b1 srt cur d =
     (let h = hd_store d;
          b1 = GetShortTermRefPicsAppending (hd_dpb d) h [];
          num_short_refs = length b1;
          b1 = srt (POCDesc h) b1;
          b1 = sort_upto srt (POCAsc h) (upper_bound (POCDesc h) cur b1) b1;
          b1 = GetShortTermRefPicsAppending (hd_dpb d) h b1
      in sort_from srt (LongTermPicNumAsc h) num_short_refs b1)"

definition ConstructReferencePicListsB :: "pic_sort \<Rightarrow> 'a h264_decoder \<Rightarrow> 'a h264_decoder option" where
  "ConstructReferencePicListsB srt d =
     (case hd_curr_pic d of
        None \<Rightarrow> None
      | Some cur \<Rightarrow>
          let b0 = list_b0 srt cur d;
              b1 = list_b1 srt cur d
          in do {
            identical \<leftarrow> (if length b1 > 1 then std_equal b0 b1 else Some False);
            let b1 = (if identical then b1[0 := b1 ! 1, 1 := b1 ! 0] else b1);
            Some (d\<lparr>hd_ref_pic_list_b0 := b0, hd_ref_pic_list_b1 := b1\<rparr>)
          })"

definition PrepareRefPicLists :: "pic_sort \<Rightarrow> 'a h264_decoder \<Rightarrow> 'a h264_decoder option" where
  "PrepareRefPicLists srt d = ConstructReferencePicListsB srt (ConstructReferencePicListsP srt d)"

subsection \<open>Modification\<close>

definition PicNumF :: "'a h264_decoder \<Rightarrow> nat option \<Rightarrow> int" where
  "PicNumF d p =
     (case p of
        None \<Rightarrow> - 1
      | Some a \<Rightarrow> if \<not> pi_long_term (pic_of d a) then pi_pic_num (pic_of d a) else hd_max_pic_num d)"

definition LongTermPicNumF :: "'a h264_decoder \<Rightarrow> nat option \<Rightarrow> int option" where
  "LongTermPicNumF d p =
     (case p of
        None \<Rightarrow> None
      | Some a \<Rightarrow> if pi_ref (pic_of d a) \<and> pi_long_term (pic_of d a) then Some (pi_long_term_pic_num (pic_of d a))
                 else Some (2 * (hd_max_long_term_frame_idx d + 1)))"

definition resize_refs :: "nat \<Rightarrow> nat option list \<Rightarrow> nat option list" where
  "resize_refs n v = take n v @ replicate (n - length v) None"

text \<open>The move of \<open>n\<close> elements from index \<open>i\<close> on by one position, the last first.\<close>

fun shift_right :: "nat \<Rightarrow> nat \<Rightarrow> nat option list \<Rightarrow> nat option list" where
  "shift_right 0 i v = v"
| "shift_right (Suc n) i v = shift_right n i (v[i + Suc n := v ! (i + n)])"

definition ShiftRightAndInsert :: "nat \<Rightarrow> nat \<Rightarrow> nat \<Rightarrow> nat option list \<Rightarrow> nat option list option" where
  "ShiftRightAndInsert i to pic v =
     (if \<not> i \<le> to then None
      else if \<not> int to \<le> int_max - 2 then None
      else if \<not> (to + 1 = length v \<or> to + 2 = length v) then None
      else
        let v = resize_refs (to + 2) v;
            v = shift_right (to + 1 - i) i v
        in Some (v[i := Some pic]))"

text \<open>The loop that closes the gap; \<open>keep\<close> is the condition of an element to stay, \<open>n\<close> the elements to come.\<close>

fun close_gap :: "(nat option \<Rightarrow> bool option) \<Rightarrow> nat \<Rightarrow> nat \<Rightarrow> nat \<Rightarrow> nat option list \<Rightarrow> nat option list option" where
  "close_gap keep 0 src dst v = Some v"
| "close_gap keep (Suc n) src dst v =
     (if \<not> src < length v then None
      else case keep (v ! src) of
        None \<Rightarrow> None
      | Some True \<Rightarrow> close_gap keep n (src + 1) (dst + 1) (v[dst := v ! src])
      | Some False \<Rightarrow> close_gap keep n (src + 1) dst v)"

text \<open>One command: the picture is put at the index and removed from the rest.\<close>

definition move_to :: "(nat option \<Rightarrow> bool option) \<Rightarrow> nat \<Rightarrow> nat \<Rightarrow> nat \<Rightarrow> nat option list \<Rightarrow> nat option list option" where
  "move_to keep ref_idx num_minus1 pic v =
     do {
       v \<leftarrow> ShiftRightAndInsert ref_idx num_minus1 pic v;
       let ref_idx = ref_idx + 1;
       close_gap keep (num_minus1 + 2 - ref_idx) ref_idx ref_idx v
     }"

definition short_pic_num :: "int \<Rightarrow> 'a h264_decoder \<Rightarrow> int \<Rightarrow> int \<Rightarrow> int option" where
  "short_pic_num idc d abs_diff_pic_num_minus1 pic_num_lx_pred =
     do {
       diff \<leftarrow> i32 (abs_diff_pic_num_minus1 + 1);
       if idc = 0 then do {
         n \<leftarrow> i32 (pic_num_lx_pred - diff);
         if n < 0 then i32 (n + hd_max_pic_num d) else Some n
       } else do {
         n \<leftarrow> i32 (pic_num_lx_pred + diff);
         if n \<ge> hd_max_pic_num d then i32 (n - hd_max_pic_num d) else Some n
       }
     }"

fun modify_loop ::
  "'a h264_decoder \<Rightarrow> int \<Rightarrow> nat \<Rightarrow> h264_modification list \<Rightarrow> int \<Rightarrow> nat \<Rightarrow> nat option list \<Rightarrow> (bool \<times> nat option list) option" where
  "modify_loop d curr_pic_num num_minus1 [] pic_num_lx_pred ref_idx v = Some (True, v)"
| "modify_loop d curr_pic_num num_minus1 (m # ms) pic_num_lx_pred ref_idx v =
     (let idc = mod_modification_of_pic_nums_idc m in
      if idc = 0 \<or> idc = 1 then do {
        pic_num_lx_no_wrap \<leftarrow> short_pic_num idc d (mod_value m) pic_num_lx_pred;
        pic_num_lx \<leftarrow> (if pic_num_lx_no_wrap > curr_pic_num then i32 (pic_num_lx_no_wrap - hd_max_pic_num d)
                       else Some pic_num_lx_no_wrap);
        if \<not> num_minus1 + 1 < 32 then None
        else case GetShortRefPicByPicNum pic_num_lx (hd_dpb d) (hd_store d) of
          None \<Rightarrow> Some (False, v)
        | Some pic \<Rightarrow> do {
            v \<leftarrow> move_to (\<lambda>p. Some (PicNumF d p \<noteq> pic_num_lx)) ref_idx num_minus1 pic v;
            modify_loop d curr_pic_num num_minus1 ms pic_num_lx_no_wrap (ref_idx + 1) v
          }
      }
      else if idc = 2 then
        if \<not> num_minus1 + 1 < 32 then None
        else case GetLongRefPicByLongTermPicNum (mod_value m) (hd_dpb d) (hd_store d) of
          None \<Rightarrow> Some (False, v)
        | Some pic \<Rightarrow> do {
            v \<leftarrow> move_to (\<lambda>p. map_option (\<lambda>n. n \<noteq> mod_value m) (LongTermPicNumF d p)) ref_idx num_minus1 pic v;
            modify_loop d curr_pic_num num_minus1 ms pic_num_lx_pred (ref_idx + 1) v
          }
      else if idc = 3 then Some (True, v)
      else modify_loop d curr_pic_num num_minus1 ms pic_num_lx_pred ref_idx v)"

text \<open>The number of a list is 0 or 1.\<close>

definition modification_flag :: "h264_slice_header \<Rightarrow> nat \<Rightarrow> bool" where
  "modification_flag sh l = (if l = 0 then sh_ref_pic_list_modification_flag_l0 sh else sh_ref_pic_list_modification_flag_l1 sh)"

definition num_ref_idx_minus1 :: "h264_slice_header \<Rightarrow> nat \<Rightarrow> int" where
  "num_ref_idx_minus1 sh l = (if l = 0 then sh_num_ref_idx_l0_active_minus1 sh else sh_num_ref_idx_l1_active_minus1 sh)"

definition modifications :: "h264_slice_header \<Rightarrow> nat \<Rightarrow> h264_modification list" where
  "modifications sh l = (if l = 0 then sh_ref_list_l0_modifications sh else sh_ref_list_l1_modifications sh)"

definition ModifyReferencePicList ::
  "h264_slice_header \<Rightarrow> nat \<Rightarrow> nat option list \<Rightarrow> 'a h264_decoder \<Rightarrow> (bool \<times> nat option list) option" where
  "ModifyReferencePicList sh l v d =
     (if \<not> num_ref_idx_minus1 sh l \<ge> 0 then None
      else
        let n = nat (num_ref_idx_minus1 sh l);
            v = resize_refs (n + 1) v
        in if \<not> modification_flag sh l then Some (True, v)
           else case hd_curr_pic d of
             None \<Rightarrow> None
           | Some cur \<Rightarrow>
               map_option (\<lambda>(ok, v). (ok, if ok then resize_refs (n + 1) v else v))
                 (modify_loop d (pi_pic_num (pic_of d cur)) n (take 32 (modifications sh l)) (pi_pic_num (pic_of d cur)) 0 v))"

definition ModifyReferencePicLists ::
  "h264_slice_header \<Rightarrow> 'a h264_decoder \<Rightarrow> (bool \<times> nat option list \<times> nat option list) option" where
  "ModifyReferencePicLists sh d =
     (if IsPSlice sh \<or> IsSPSlice sh then
        map_option (\<lambda>(ok, v). (ok, v, [])) (ModifyReferencePicList sh 0 (map Some (hd_ref_pic_list_p0 d)) d)
      else if IsBSlice sh then do {
        (ok, v0) \<leftarrow> ModifyReferencePicList sh 0 (map Some (hd_ref_pic_list_b0 d)) d;
        if \<not> ok then Some (False, v0, map Some (hd_ref_pic_list_b1 d))
        else map_option (\<lambda>(ok, v1). (ok, v0, v1)) (ModifyReferencePicList sh 1 (map Some (hd_ref_pic_list_b1 d)) d)
      }
      else Some (True, [], []))"

section \<open>The initial lists\<close>

text \<open>What \<open>std::sort\<close> promises.\<close>

definition sorts :: "pic_sort \<Rightarrow> bool" where
  "sorts srt \<longleftrightarrow> (\<forall>k as. mset (srt k as) = mset as \<and> sorted (map k (srt k as)))"

lemma sorts_sort_key: "sorts sort_key"
  by (simp add: sorts_def)

lemma sorts_mset: "sorts srt \<Longrightarrow> mset (srt k as) = mset as"
  and sorts_sorted: "sorts srt \<Longrightarrow> sorted (map k (srt k as))"
  by (simp_all add: sorts_def)

lemma sorts_set [simp]: "sorts srt \<Longrightarrow> set (srt k as) = set as"
  by (metis sorts_mset set_mset_mset)

lemma sorts_length [simp]: "sorts srt \<Longrightarrow> length (srt k as) = length as"
  by (metis sorts_mset size_mset)

lemma sorts_distinct [simp]: "sorts srt \<Longrightarrow> distinct (srt k as) = distinct as"
  by (metis sorts_mset mset_eq_imp_distinct_iff)

lemma append_such_eq: "append_such P as out = out @ filter P as"
  by (induction as arbitrary: out) simp_all

definition short_refs :: "'a h264_decoder \<Rightarrow> nat list" where
  "short_refs d = filter (\<lambda>a. pi_ref (pic_of d a) \<and> \<not> pi_long_term (pic_of d a)) (dpb_pics (hd_dpb d))"

definition long_refs :: "'a h264_decoder \<Rightarrow> nat list" where
  "long_refs d = filter (\<lambda>a. pi_ref (pic_of d a) \<and> pi_long_term (pic_of d a)) (dpb_pics (hd_dpb d))"

lemma refs_appending [simp]:
  "GetShortTermRefPicsAppending (hd_dpb d) (hd_store d) out = out @ short_refs d"
  "GetLongTermRefPicsAppending (hd_dpb d) (hd_store d) out = out @ long_refs d"
  by (simp_all add: GetShortTermRefPicsAppending_def GetLongTermRefPicsAppending_def append_such_eq short_refs_def long_refs_def)

lemma sort_from_append [simp]: "length as = n \<Longrightarrow> sort_from srt k n (as @ bs) = as @ srt k bs"
  by (simp add: sort_from_def)

text \<open>
  The list of a P slice has the short-term reference pictures by descending picture number, then
  the long-term ones by ascending long-term picture number.
\<close>
theorem reference_list_of_P_slice:
  assumes "sorts srt"
  shows "\<exists>S L. hd_ref_pic_list_p0 (ConstructReferencePicListsP srt d) = S @ L \<and>
    mset S = mset (short_refs d) \<and> sorted_wrt (\<lambda>a b. pi_pic_num (pic_of d a) \<ge> pi_pic_num (pic_of d b)) S \<and>
    mset L = mset (long_refs d) \<and> sorted_wrt (\<lambda>a b. pi_long_term_pic_num (pic_of d a) \<le> pi_long_term_pic_num (pic_of d b)) L"
proof (intro exI conjI)
  show "hd_ref_pic_list_p0 (ConstructReferencePicListsP srt d) =
      srt (PicNumDesc (hd_store d)) (short_refs d) @ srt (LongTermPicNumAsc (hd_store d)) (long_refs d)"
    using assms by (simp add: ConstructReferencePicListsP_def Let_def)
qed (use sorts_mset [OF assms] sorts_sorted [OF assms, of "PicNumDesc (hd_store d)" "short_refs d"]
      sorts_sorted [OF assms, of "LongTermPicNumAsc (hd_store d)" "long_refs d"]
     in \<open>simp_all add: sorted_wrt_map PicNumDesc_def LongTermPicNumAsc_def\<close>)

lemma split_at_upper_bound:
  assumes srt: "sorts srt" and as: "sorted (map k as)" and k': "\<And>a b. k' a \<le> k' b \<longleftrightarrow> k b \<le> k a"
  obtains A B where "sort_upto srt k' (upper_bound k v as) as = A @ B" "mset (A @ B) = mset as"
    "sorted_wrt (\<lambda>a b. k b \<le> k a) A" "\<forall>a\<in>set A. k a \<le> k v" "sorted_wrt (\<lambda>a b. k a \<le> k b) B" "\<forall>b\<in>set B. k v < k b"
proof -
  define A0 where "A0 = takeWhile (\<lambda>a. \<not> k v < k a) as"
  define B where "B = dropWhile (\<lambda>a. \<not> k v < k a) as"
  have as_eq: "as = A0 @ B" by (simp add: A0_def B_def)
  have B: "sorted_wrt (\<lambda>a b. k a \<le> k b) B" using as as_eq by (simp add: sorted_wrt_append sorted_wrt_map)
  have lo: "\<forall>b\<in>set B. k v < k b"
  proof (cases B)
    case (Cons b bs)
    then have "k v < k b" using hd_dropWhile [of "\<lambda>a. \<not> k v < k a" as] by (simp add: B_def)
    then show ?thesis using B Cons by (auto intro: less_le_trans)
  qed simp
  have up: "sort_upto srt k' (upper_bound k v as) as = srt k' A0 @ B"
    unfolding sort_upto_def upper_bound_def A0_def [symmetric] using as_eq by (metis append_eq_conv_conj)
  show ?thesis
  proof (rule that [OF up])
    show "mset (srt k' A0 @ B) = mset as" using srt as_eq by (simp add: sorts_mset)
    show "sorted_wrt (\<lambda>a b. k b \<le> k a) (srt k' A0)"
      using sorts_sorted [OF srt, of k' A0] by (simp add: sorted_wrt_map k')
    show "\<forall>a\<in>set (srt k' A0). k a \<le> k v" using srt by (auto simp: A0_def dest: set_takeWhileD)
  qed (use B lo in auto)
qed

lemma list_b0_parts:
  assumes srt: "sorts srt"
  obtains A B L where "list_b0 srt cur d = A @ B @ L" "mset (A @ B) = mset (short_refs d)" "mset L = mset (long_refs d)"
    "sorted_wrt (\<lambda>a b. pi_pic_order_cnt (pic_of d a) \<ge> pi_pic_order_cnt (pic_of d b)) A"
    "\<forall>a\<in>set A. pi_pic_order_cnt (pic_of d a) \<le> pi_pic_order_cnt (pic_of d cur)"
    "sorted_wrt (\<lambda>a b. pi_pic_order_cnt (pic_of d a) \<le> pi_pic_order_cnt (pic_of d b)) B"
    "\<forall>b\<in>set B. pi_pic_order_cnt (pic_of d cur) < pi_pic_order_cnt (pic_of d b)"
    "sorted_wrt (\<lambda>a b. pi_long_term_pic_num (pic_of d a) \<le> pi_long_term_pic_num (pic_of d b)) L"
proof -
  define h where "h = hd_store d"
  obtain A B where ab: "sort_upto srt (POCDesc h) (upper_bound (POCAsc h) cur (srt (POCAsc h) (short_refs d))) (srt (POCAsc h) (short_refs d)) = A @ B"
    and m: "mset (A @ B) = mset (srt (POCAsc h) (short_refs d))"
    and A: "sorted_wrt (\<lambda>a b. POCAsc h b \<le> POCAsc h a) A" "\<forall>a\<in>set A. POCAsc h a \<le> POCAsc h cur"
    and B: "sorted_wrt (\<lambda>a b. POCAsc h a \<le> POCAsc h b) B" "\<forall>b\<in>set B. POCAsc h cur < POCAsc h b"
    by (rule split_at_upper_bound [OF srt sorts_sorted [OF srt, of "POCAsc h" "short_refs d"], of "POCDesc h" cur])
      (auto simp: POCDesc_def POCAsc_def)
  have m: "mset (A @ B) = mset (short_refs d)" using m srt by (simp add: sorts_mset)
  then have n: "length (A @ B) = length (short_refs d)" by (metis size_mset)
  show ?thesis
  proof (rule that [OF _ m _ A [unfolded POCAsc_def h_def] B [unfolded POCAsc_def h_def]])
    have "list_b0 srt cur d = sort_from srt (LongTermPicNumAsc h) (length (short_refs d)) ((A @ B) @ long_refs d)"
      unfolding list_b0_def Let_def using ab by (simp add: h_def)
    then show "list_b0 srt cur d = A @ B @ srt (LongTermPicNumAsc h) (long_refs d)" using n by (simp del: append_assoc)
    show "mset (srt (LongTermPicNumAsc h) (long_refs d)) = mset (long_refs d)" using srt by (rule sorts_mset)
    show "sorted_wrt (\<lambda>a b. pi_long_term_pic_num (pic_of d a) \<le> pi_long_term_pic_num (pic_of d b)) (srt (LongTermPicNumAsc h) (long_refs d))"
      using sorts_sorted [OF srt, of "LongTermPicNumAsc h" "long_refs d"] by (simp add: sorted_wrt_map LongTermPicNumAsc_def h_def)
  qed
qed

text \<open>The first part of list 1 is as it should be; the last part repeats the short-term pictures.\<close>

lemma list_b1_parts:
  assumes srt: "sorts srt"
  obtains A B Z where "list_b1 srt cur d = A @ B @ Z" "mset (A @ B) = mset (short_refs d)" "mset Z = mset (short_refs d)"
    "sorted_wrt (\<lambda>a b. pi_pic_order_cnt (pic_of d a) \<le> pi_pic_order_cnt (pic_of d b)) A"
    "\<forall>a\<in>set A. pi_pic_order_cnt (pic_of d a) \<ge> pi_pic_order_cnt (pic_of d cur)"
    "sorted_wrt (\<lambda>a b. pi_pic_order_cnt (pic_of d a) \<ge> pi_pic_order_cnt (pic_of d b)) B"
    "\<forall>b\<in>set B. pi_pic_order_cnt (pic_of d cur) > pi_pic_order_cnt (pic_of d b)"
proof -
  define h where "h = hd_store d"
  obtain A B where ab: "sort_upto srt (POCAsc h) (upper_bound (POCDesc h) cur (srt (POCDesc h) (short_refs d))) (srt (POCDesc h) (short_refs d)) = A @ B"
    and m: "mset (A @ B) = mset (srt (POCDesc h) (short_refs d))"
    and A: "sorted_wrt (\<lambda>a b. POCDesc h b \<le> POCDesc h a) A" "\<forall>a\<in>set A. POCDesc h a \<le> POCDesc h cur"
    and B: "sorted_wrt (\<lambda>a b. POCDesc h a \<le> POCDesc h b) B" "\<forall>b\<in>set B. POCDesc h cur < POCDesc h b"
    by (rule split_at_upper_bound [OF srt sorts_sorted [OF srt, of "POCDesc h" "short_refs d"], of "POCAsc h" cur])
      (auto simp: POCDesc_def POCAsc_def)
  have m: "mset (A @ B) = mset (short_refs d)" using m srt by (simp add: sorts_mset)
  then have n: "length (A @ B) = length (short_refs d)" by (metis size_mset)
  show ?thesis
  proof (rule that [OF _ m])
    have "list_b1 srt cur d = sort_from srt (LongTermPicNumAsc h) (length (short_refs d)) ((A @ B) @ short_refs d)"
      unfolding list_b1_def Let_def using ab by (simp add: h_def)
    then show "list_b1 srt cur d = A @ B @ srt (LongTermPicNumAsc h) (short_refs d)" using n by (simp del: append_assoc)
    show "mset (srt (LongTermPicNumAsc h) (short_refs d)) = mset (short_refs d)" using srt by (rule sorts_mset)
  qed (use A B in \<open>simp_all add: POCDesc_def h_def\<close>)
qed

definition swap_first :: "nat list \<Rightarrow> nat list" where
  "swap_first as = as[0 := as ! 1, 1 := as ! 0]"

lemma swap_first_append: "1 < length as \<Longrightarrow> (as @ bs)[0 := (as @ bs) ! 1, 1 := (as @ bs) ! 0] = swap_first as @ bs"
  by (induction as rule: induct_list012) (simp_all add: swap_first_def)

lemma swap_first_singles: "length as = 1 \<Longrightarrow> mset bs = mset as \<Longrightarrow> (as @ bs)[0 := (as @ bs) ! 1, 1 := (as @ bs) ! 0] = as @ bs"
  by (auto simp: length_Suc_conv mset_single_iff)

lemma std_equal_same_length: "length as = length bs \<Longrightarrow> std_equal as (bs @ cs) = Some (as = bs)"
  by (induction as bs rule: list_induct2) simp_all

lemma std_equal_append:
  "length as = length bs \<Longrightarrow> std_equal (as @ ls) (bs @ zs) = (if as = bs then std_equal ls zs else Some False)"
  by (induction as bs rule: list_induct2) auto

text \<open>
  The comparison of list 0 with list 1 does not read past the end of list 1, although that may be
  the shorter one: it stops at a long-term picture.
\<close>

lemma lists_identical:
  assumes "length us = length vs" "length zs = length vs" "vs \<noteq> []" "set ls \<inter> set zs = {}"
  shows "std_equal (us @ ls) (vs @ zs) = Some (us = vs \<and> ls = [])"
proof -
  obtain z zs' where z: "zs = z # zs'" using assms(2,3) by (cases zs) auto
  have "std_equal ls zs = Some (ls = [])" using assms(4) z by (cases ls) auto
  then show ?thesis using assms(1) by (simp add: std_equal_append)
qed

text \<open>
  C22: List 0 of a B slice has the short-term pictures that precede the current one from the nearest
  on, those that follow it from the nearest on, and the long-term ones; list 1 has the following ones
  first and is changed in its first two entries if it would equal list 0. After these, where the
  standard has the long-term pictures, the code puts the short-term pictures once more.
\<close>
theorem reference_lists_of_B_slice:
  assumes srt: "sorts srt" and cur: "hd_curr_pic d = Some cur"
  shows "\<exists>d' A B L X Y Z. ConstructReferencePicListsB srt d = Some d' \<and>
    hd_ref_pic_list_b0 d' = A @ B @ L \<and> mset (A @ B) = mset (short_refs d) \<and> mset L = mset (long_refs d) \<and>
    sorted_wrt (\<lambda>a b. pi_pic_order_cnt (pic_of d a) \<ge> pi_pic_order_cnt (pic_of d b)) A \<and>
    (\<forall>a\<in>set A. pi_pic_order_cnt (pic_of d a) \<le> pi_pic_order_cnt (pic_of d cur)) \<and>
    sorted_wrt (\<lambda>a b. pi_pic_order_cnt (pic_of d a) \<le> pi_pic_order_cnt (pic_of d b)) B \<and>
    (\<forall>b\<in>set B. pi_pic_order_cnt (pic_of d cur) < pi_pic_order_cnt (pic_of d b)) \<and>
    sorted_wrt (\<lambda>a b. pi_long_term_pic_num (pic_of d a) \<le> pi_long_term_pic_num (pic_of d b)) L \<and>
    hd_ref_pic_list_b1 d' =
      (if L = [] \<and> A @ B = X @ Y \<and> 1 < length (X @ Y) then swap_first (X @ Y) else X @ Y) @ Z \<and>
    mset (X @ Y) = mset (short_refs d) \<and> mset Z = mset (short_refs d) \<and>
    sorted_wrt (\<lambda>a b. pi_pic_order_cnt (pic_of d a) \<le> pi_pic_order_cnt (pic_of d b)) X \<and>
    (\<forall>a\<in>set X. pi_pic_order_cnt (pic_of d a) \<ge> pi_pic_order_cnt (pic_of d cur)) \<and>
    sorted_wrt (\<lambda>a b. pi_pic_order_cnt (pic_of d a) \<ge> pi_pic_order_cnt (pic_of d b)) Y \<and>
    (\<forall>b\<in>set Y. pi_pic_order_cnt (pic_of d cur) > pi_pic_order_cnt (pic_of d b))"
proof -
  obtain A B L where b0: "list_b0 srt cur d = A @ B @ L" "mset (A @ B) = mset (short_refs d)" "mset L = mset (long_refs d)"
    and AB: "sorted_wrt (\<lambda>a b. pi_pic_order_cnt (pic_of d a) \<ge> pi_pic_order_cnt (pic_of d b)) A"
    "\<forall>a\<in>set A. pi_pic_order_cnt (pic_of d a) \<le> pi_pic_order_cnt (pic_of d cur)"
    "sorted_wrt (\<lambda>a b. pi_pic_order_cnt (pic_of d a) \<le> pi_pic_order_cnt (pic_of d b)) B"
    "\<forall>b\<in>set B. pi_pic_order_cnt (pic_of d cur) < pi_pic_order_cnt (pic_of d b)"
    "sorted_wrt (\<lambda>a b. pi_long_term_pic_num (pic_of d a) \<le> pi_long_term_pic_num (pic_of d b)) L"
    by (rule list_b0_parts [OF srt])
  obtain X Y Z where b1: "list_b1 srt cur d = X @ Y @ Z" "mset (X @ Y) = mset (short_refs d)" "mset Z = mset (short_refs d)"
    and XY: "sorted_wrt (\<lambda>a b. pi_pic_order_cnt (pic_of d a) \<le> pi_pic_order_cnt (pic_of d b)) X"
    "\<forall>a\<in>set X. pi_pic_order_cnt (pic_of d a) \<ge> pi_pic_order_cnt (pic_of d cur)"
    "sorted_wrt (\<lambda>a b. pi_pic_order_cnt (pic_of d a) \<ge> pi_pic_order_cnt (pic_of d b)) Y"
    "\<forall>b\<in>set Y. pi_pic_order_cnt (pic_of d cur) > pi_pic_order_cnt (pic_of d b)"
    by (rule list_b1_parts [OF srt])
  have len: "length (A @ B) = length (X @ Y)" "length Z = length (X @ Y)" using b0(2) b1(2,3) by (metis size_mset)+
  have disj: "set L \<inter> set Z = {}"
    using b0(3) b1(3) by (metis (no_types, lifting) set_mset_mset short_refs_def long_refs_def disjoint_iff mem_Collect_eq set_filter)
  define d' where "d' = d\<lparr>hd_ref_pic_list_b0 := (A @ B) @ L,
    hd_ref_pic_list_b1 := (if L = [] \<and> A @ B = X @ Y \<and> 1 < length (X @ Y) then swap_first (X @ Y) else X @ Y) @ Z\<rparr>"
  have "ConstructReferencePicListsB srt d = Some d'"
  proof (cases "X @ Y = []")
    case True
    then show ?thesis using len b0(1) b1(1) cur by (simp add: ConstructReferencePicListsB_def d'_def)
  next
    case False
    have eq: "std_equal ((A @ B) @ L) ((X @ Y) @ Z) = Some (A @ B = X @ Y \<and> L = [])"
      by (rule lists_identical [OF len False disj])
    have l: "0 < length (X @ Y)" using False by blast
    have long: "1 < length ((X @ Y) @ Z)" using l len(2) unfolding length_append by linarith
    have sw: "((X @ Y) @ Z)[0 := ((X @ Y) @ Z) ! 1, 1 := ((X @ Y) @ Z) ! 0] =
        (if 1 < length (X @ Y) then swap_first (X @ Y) else X @ Y) @ Z"
    proof (cases "1 < length (X @ Y)")
      case True
      then show ?thesis using swap_first_append [OF True, of Z] by simp
    next
      case False
      then have "length (X @ Y) = 1" using l by linarith
      then show ?thesis using swap_first_singles [of "X @ Y" Z] False b1(2,3) by (simp del: append_assoc)
    qed
    show ?thesis
      unfolding ConstructReferencePicListsB_def Let_def cur option.case b0(1) b1(1)
      using eq long sw by (simp add: d'_def)
  qed
  moreover have "hd_ref_pic_list_b0 d' = A @ B @ L" "hd_ref_pic_list_b1 d' =
      (if L = [] \<and> A @ B = X @ Y \<and> 1 < length (X @ Y) then swap_first (X @ Y) else X @ Y) @ Z"
    unfolding d'_def by simp_all
  ultimately show ?thesis using b0(2,3) b1(2,3) AB XY
    by (intro exI [of _ d'] exI [of _ A] exI [of _ B] exI [of _ L] exI [of _ X] exI [of _ Y] exI [of _ Z] conjI)
qed

section \<open>The modified lists\<close>

lemma resize_refs_take: "n \<le> length v \<Longrightarrow> resize_refs n v = take n v"
  by (simp add: resize_refs_def)

lemma shift_right_insert:
  "i + n < length v \<Longrightarrow> (shift_right n i v)[i := p] = take i v @ [p] @ take n (drop i v) @ drop (i + n + 1) v"
proof (induction n arbitrary: v)
  case 0
  then show ?case by (simp add: upd_conv_take_nth_drop)
next
  case (Suc n)
  let ?v = "v[i + Suc n := v ! (i + n)]"
  have "drop (i + n + 1) ?v = v ! (i + n) # drop (i + Suc n + 1) v"
    using Suc.prems by (simp add: drop_update_swap Cons_nth_drop_Suc [symmetric])
  moreover have "take n (drop i ?v) = take n (drop i v)" "take i ?v = take i v"
    by (simp_all add: take_drop)
  moreover have "take (Suc n) (drop i v) = take n (drop i v) @ [v ! (i + n)]"
    using Suc.prems by (simp add: take_Suc_conv_app_nth)
  ultimately show ?case using Suc.IH [of ?v] Suc.prems by simp
qed

lemma ShiftRightAndInsert_eq:
  assumes "i \<le> n" "n + 1 < 32" "length v = n + 1 \<or> length v = n + 2"
  shows "ShiftRightAndInsert i n pic v = Some (take i v @ [Some pic] @ take (n + 1 - i) (drop i v))"
proof -
  let ?v = "resize_refs (n + 2) v"
  have len: "length ?v = n + 2" using assms(3) by (auto simp: resize_refs_def)
  have t: "take i ?v = take i v" "take (n + 1 - i) (drop i ?v) = take (n + 1 - i) (drop i v)"
    using assms(1,3) by (auto simp: resize_refs_def take_drop)
  have "(shift_right (n + 1 - i) i ?v)[i := Some pic] = take i v @ [Some pic] @ take (n + 1 - i) (drop i v)"
    using shift_right_insert [of i "n + 1 - i" ?v "Some pic"] len assms(1) t by simp
  moreover have "int n \<le> int_max - 2" using assms(2) by (simp add: int_max_def)
  ultimately show ?thesis using assms by (auto simp: ShiftRightAndInsert_def Let_def)
qed

lemma close_gap_filter:
  assumes "dst \<le> src" "src + n \<le> length v" "\<forall>p\<in>set (take n (drop src v)). keep p = Some (K p)"
  shows "\<exists>v'. close_gap keep n src dst v = Some v' \<and> length v' = length v \<and>
    take (dst + length (filter K (take n (drop src v)))) v' = take dst v @ filter K (take n (drop src v))"
  using assms
proof (induction n arbitrary: src dst v)
  case 0
  then show ?case by simp
next
  case (Suc n)
  have d: "take (Suc n) (drop src v) = v ! src # take n (drop (Suc src) v)"
    using Suc.prems(2) by (simp add: Cons_nth_drop_Suc [symmetric])
  have keep: "keep (v ! src) = Some (K (v ! src))" using Suc.prems(3) d by simp
  show ?case
  proof (cases "K (v ! src)")
    case True
    let ?v = "v[dst := v ! src]"
    have r: "drop (Suc src) ?v = drop (Suc src) v" using Suc.prems(1) by simp
    have "take (Suc dst) ?v = take dst v @ [v ! src]" using Suc.prems(1,2) by (simp add: take_Suc_conv_app_nth)
    then show ?thesis
      using Suc.IH [of "Suc dst" "Suc src" ?v] Suc.prems d keep True r by simp
  next
    case False
    then show ?thesis using Suc.IH [of dst "Suc src" v] Suc.prems d keep by simp
  qed
qed

lemma move_to_eq:
  assumes "i \<le> n" "n + 1 < 32" "length v = n + 1 \<or> length v = n + 2"
    and "\<forall>p\<in>set (take (n + 1 - i) (drop i v)). keep p = Some (K p)"
  shows "\<exists>v'. move_to keep i n pic v = Some v' \<and> length v' = n + 2 \<and>
    (let F = filter K (take (n + 1 - i) (drop i v)) in take (i + 1 + length F) v' = take i v @ [Some pic] @ F)"
proof -
  let ?w = "take i v @ [Some pic] @ take (n + 1 - i) (drop i v)"
  have len: "length ?w = n + 2" "length (take i v) = i" using assms(1,3) by auto
  have d: "drop (i + 1) ?w = take (n + 1 - i) (drop i v)" "take (i + 1) ?w = take i v @ [Some pic]" using len(2) by simp_all
  have "\<exists>v'. close_gap keep (n + 2 - (i + 1)) (i + 1) (i + 1) ?w = Some v' \<and> length v' = length ?w \<and>
      take (i + 1 + length (filter K (take (n + 2 - (i + 1)) (drop (i + 1) ?w)))) v' =
      take (i + 1) ?w @ filter K (take (n + 2 - (i + 1)) (drop (i + 1) ?w))"
    by (rule close_gap_filter) (use len assms(1,4) d in \<open>simp_all del: append.simps\<close>)
  then show ?thesis
    unfolding move_to_def ShiftRightAndInsert_eq [OF assms(1-3)] using d len by (simp add: Let_def)
qed

text \<open>One step on lists of pictures: a picture moves behind those that were moved before.\<close>

lemma move_behind:
  fixes p :: 'b and V F :: "'b list"
  assumes "length ps = i" "i \<le> n" "n + 1 - i \<le> length gs" "distinct gs" "p \<notin> set ps"
  defines "V \<equiv> take (n + 1) (ps @ gs)"
  defines "F \<equiv> filter (\<lambda>a. a \<noteq> p) (drop i V)"
  shows "take i V = ps" "n - i \<le> length F" "take (n + 1) (take i V @ [p] @ F @ rest) = take (n + 1) (ps @ [p] @ filter (\<lambda>a. a \<noteq> p) gs)"
proof -
  have V: "take i V = ps" "drop i V = take (n + 1 - i) gs" using assms(1,2) by (simp_all add: V_def)
  show "take i V = ps" by (fact V)
  have one: "length (filter (\<lambda>a. a = p) xs) \<le> 1" if "distinct xs" for xs :: "'b list"
    using that by (induction xs) (auto simp: filter_empty_conv)
  have "length F + length (filter (\<lambda>a. a = p) (take (n + 1 - i) gs)) = n + 1 - i"
    using sum_length_filter_compl [of "\<lambda>a. a \<noteq> p" "take (n + 1 - i) gs"] assms(3) V by (simp add: F_def)
  then show F: "n - i \<le> length F" using one [of "take (n + 1 - i) gs"] assms(4) by simp
  obtain hs where hs: "filter (\<lambda>a. a \<noteq> p) gs = F @ hs"
    unfolding F_def V by (metis append_take_drop_id filter_append)
  have "take (n - i) (F @ rest) = take (n - i) (filter (\<lambda>a. a \<noteq> p) gs)" using F hs by simp
  then show "take (n + 1) (take i V @ [p] @ F @ rest) = take (n + 1) (ps @ [p] @ filter (\<lambda>a. a \<noteq> p) gs)"
    using V(1) assms(1,2) by (simp add: Suc_diff_le)
qed

text \<open>The pictures that the commands name.\<close>

fun named_pics :: "'a h264_decoder \<Rightarrow> int \<Rightarrow> h264_modification list \<Rightarrow> int \<Rightarrow> nat list option" where
  "named_pics d curr_pic_num [] pred = Some []"
| "named_pics d curr_pic_num (m # ms) pred =
     (let idc = mod_modification_of_pic_nums_idc m in
      if idc = 0 \<or> idc = 1 then do {
        n \<leftarrow> short_pic_num idc d (mod_value m) pred;
        num \<leftarrow> (if n > curr_pic_num then i32 (n - hd_max_pic_num d) else Some n);
        p \<leftarrow> GetShortRefPicByPicNum num (hd_dpb d) (hd_store d);
        ps \<leftarrow> named_pics d curr_pic_num ms n;
        Some (p # ps)
      }
      else if idc = 2 then do {
        p \<leftarrow> GetLongRefPicByLongTermPicNum (mod_value m) (hd_dpb d) (hd_store d);
        ps \<leftarrow> named_pics d curr_pic_num ms pred;
        Some (p # ps)
      }
      else if idc = 3 then Some []
      else named_pics d curr_pic_num ms pred)"

text \<open>The numbers identify the reference pictures of the buffer.\<close>

definition pic_nums_ok :: "'a h264_decoder \<Rightarrow> bool" where
  "pic_nums_ok d \<longleftrightarrow>
     inj_on (\<lambda>a. pi_pic_num (pic_of d a)) (set (short_refs d)) \<and>
     inj_on (\<lambda>a. pi_long_term_pic_num (pic_of d a)) (set (long_refs d)) \<and>
     (\<forall>a\<in>set (short_refs d). pi_pic_num (pic_of d a) \<noteq> hd_max_pic_num d) \<and>
     (\<forall>a\<in>set (long_refs d). pi_long_term_pic_num (pic_of d a) \<noteq> 2 * (hd_max_long_term_frame_idx d + 1))"

lemma first_such_Some: "first_such P as = Some a \<Longrightarrow> a \<in> set as \<and> P a"
  by (induction as) (auto split: if_splits)

lemma GetShort_keep:
  assumes ok: "pic_nums_ok d" and p: "GetShortRefPicByPicNum num (hd_dpb d) (hd_store d) = Some p"
  shows "p \<in> set (short_refs d)" "a \<in> set (short_refs d) \<union> set (long_refs d) \<Longrightarrow> PicNumF d (Some a) \<noteq> num \<longleftrightarrow> a \<noteq> p"
proof -
  have p: "p \<in> set (short_refs d)" "pi_pic_num (pic_of d p) = num"
    using first_such_Some [OF p [unfolded GetShortRefPicByPicNum_def]] by (simp_all add: short_refs_def)
  then show "p \<in> set (short_refs d)" by simp
  show "PicNumF d (Some a) \<noteq> num \<longleftrightarrow> a \<noteq> p" if "a \<in> set (short_refs d) \<union> set (long_refs d)"
    using that p ok unfolding pic_nums_ok_def inj_on_def
    by (auto simp: PicNumF_def short_refs_def long_refs_def)
qed

lemma GetLong_keep:
  assumes ok: "pic_nums_ok d" and p: "GetLongRefPicByLongTermPicNum num (hd_dpb d) (hd_store d) = Some p"
  shows "p \<in> set (long_refs d)"
    "a \<in> set (short_refs d) \<union> set (long_refs d) \<Longrightarrow> map_option (\<lambda>n. n \<noteq> num) (LongTermPicNumF d (Some a)) = Some (a \<noteq> p)"
proof -
  have p: "p \<in> set (long_refs d)" "pi_long_term_pic_num (pic_of d p) = num"
    using first_such_Some [OF p [unfolded GetLongRefPicByLongTermPicNum_def]] by (simp_all add: long_refs_def)
  then show "p \<in> set (long_refs d)" by simp
  show "map_option (\<lambda>n. n \<noteq> num) (LongTermPicNumF d (Some a)) = Some (a \<noteq> p)" if "a \<in> set (short_refs d) \<union> set (long_refs d)"
    using that p ok unfolding pic_nums_ok_def inj_on_def
    by (auto simp: LongTermPicNumF_def short_refs_def long_refs_def)
qed

lemma move_to_behind:
  assumes ps: "length ps = i" "i \<le> n" "n + 1 < 32" "length v = n + 1 \<or> length v = n + 2"
    and v: "take (n + 1) v = map Some (take (n + 1) (ps @ gs))" and gs: "n + 1 - i \<le> length gs" "distinct gs" "p \<notin> set ps"
    and keep: "\<And>a. a \<in> set gs \<Longrightarrow> keep (Some a) = Some (a \<noteq> p)"
  shows "\<exists>v'. move_to keep i n p v = Some v' \<and> length v' = n + 2 \<and>
    take (n + 1) v' = map Some (take (n + 1) (ps @ [p] @ filter (\<lambda>a. a \<noteq> p) gs))"
proof -
  define V where "V = take (n + 1) (ps @ gs)"
  define F where "F = filter (\<lambda>a. a \<noteq> p) (drop i V)"
  have iv: "take i v = map Some (take i V)" "take (n + 1 - i) (drop i v) = map Some (drop i V)"
    using v ps(2) by (metis V_def take_map take_take min.absorb1 trans_le_add1, metis V_def drop_map drop_take)
  have sub: "set (drop i V) \<subseteq> set gs" using ps(1,2) by (auto simp: V_def dest: in_set_takeD)
  obtain v' where v': "move_to keep i n p v = Some v'" "length v' = n + 2"
    "take (i + 1 + length (filter (\<lambda>x. x \<noteq> Some p) (map Some (drop i V)))) v' =
      map Some (take i V) @ [Some p] @ filter (\<lambda>x. x \<noteq> Some p) (map Some (drop i V))"
    using move_to_eq [OF ps(2,3,4), of keep "\<lambda>x. x \<noteq> Some p" p] keep sub iv by (auto simp: Let_def)
  have f: "filter (\<lambda>x. x \<noteq> Some p) (map Some (drop i V)) = map Some F"
    by (simp add: F_def filter_map o_def)
  have tk: "take (i + 1 + length F) v' = map Some (take i V @ [p] @ F)" using v'(3) unfolding f by simp
  have n: "n - i \<le> length F"
    and eq: "take (n + 1) (take i V @ [p] @ F @ []) = take (n + 1) (ps @ [p] @ filter (\<lambda>a. a \<noteq> p) gs)"
    using move_behind(2,3) [OF ps(1,2) gs] unfolding F_def V_def by blast+
  have "take (n + 1) v' = take (n + 1) (take (i + 1 + length F) v')" using n ps(2) by (simp add: min_absorb1)
  also have "\<dots> = map Some (take (n + 1) (take i V @ [p] @ F @ []))" unfolding tk by (simp only: take_map append_Nil2)
  finally show ?thesis using v'(1,2) unfolding eq by blast
qed

lemma filter_both: "filter (\<lambda>a. a \<noteq> p) (filter (\<lambda>a. a \<notin> set ps) as) = filter (\<lambda>a. a \<notin> set (ps @ [p])) as"
  by (induction as) auto

lemma modify_loop_moves:
  assumes ok: "pic_nums_ok d" and n: "n + 1 < 32" and as: "distinct as" "length as = n + 1"
    "set as \<subseteq> set (short_refs d) \<union> set (long_refs d)"
  shows "named_pics d num ms pred = Some qs \<Longrightarrow> distinct (ps @ qs) \<Longrightarrow> length ps + length qs \<le> n + 1 \<Longrightarrow>
    length v = n + 1 \<or> length v = n + 2 \<Longrightarrow>
    take (n + 1) v = map Some (take (n + 1) (ps @ filter (\<lambda>a. a \<notin> set ps) as)) \<Longrightarrow>
    \<exists>v'. modify_loop d num n ms pred (length ps) v = Some (True, v') \<and> n + 1 \<le> length v' \<and>
      take (n + 1) v' = map Some (take (n + 1) ((ps @ qs) @ filter (\<lambda>a. a \<notin> set (ps @ qs)) as))"
proof (induction ms arbitrary: pred qs ps v)
  case Nil
  then show ?case by auto
next
  case (Cons m ms)
  let ?gs = "filter (\<lambda>a. a \<notin> set ps) as"
  have gs: "n + 1 - length ps \<le> length ?gs" if "length ps \<le> n"
  proof -
    have "length (filter (\<lambda>a. a \<in> set ps) as) = card (set as \<inter> set ps)"
      using as(1) by (metis distinct_card distinct_filter set_filter Int_def)
    also have "\<dots> \<le> length ps" by (meson card_length card_mono finite_set inf_le2 order_trans)
    finally show ?thesis using sum_length_filter_compl [of "\<lambda>a. a \<in> set ps" as] as(2) by simp
  qed
  have advance: "\<exists>w v'. move_to keep (length ps) n p v = Some w \<and>
      modify_loop d num n ms pred' (length ps + 1) w = Some (True, v') \<and> n + 1 \<le> length v' \<and>
      take (n + 1) v' = map Some (take (n + 1) ((ps @ qs) @ filter (\<lambda>a. a \<notin> set (ps @ qs)) as))"
    if rec: "named_pics d num ms pred' = Some qs'" "qs = p # qs'"
      and keep: "\<And>a. a \<in> set (short_refs d) \<union> set (long_refs d) \<Longrightarrow> keep (Some a) = Some (a \<noteq> p)" for pred' qs' p keep
  proof -
    have lp: "length ps \<le> n" "p \<notin> set ps" using Cons.prems(2,3) rec(2) by auto
    obtain w where w: "move_to keep (length ps) n p v = Some w" "length w = n + 2"
      "take (n + 1) w = map Some (take (n + 1) (ps @ [p] @ filter (\<lambda>a. a \<noteq> p) ?gs))"
      using move_to_behind [OF refl lp(1) n Cons.prems(4,5) gs [OF lp(1)], of p keep] as keep lp(2) by auto
    have "\<exists>v'. modify_loop d num n ms pred' (length (ps @ [p])) w = Some (True, v') \<and> n + 1 \<le> length v' \<and>
        take (n + 1) v' = map Some (take (n + 1) (((ps @ [p]) @ qs') @ filter (\<lambda>a. a \<notin> set ((ps @ [p]) @ qs')) as))"
      by (intro Cons.IH [OF rec(1)]) (use Cons.prems(2,3) rec(2) w in \<open>simp_all add: filter_both del: filter_filter\<close>)
    then show ?thesis using rec(2) w by simp
  qed
  let ?idc = "mod_modification_of_pic_nums_idc m"
  consider (short) "?idc = 0 \<or> ?idc = 1" | (long) "?idc = 2" | (fin) "?idc = 3"
    | (other) "?idc \<noteq> 0" "?idc \<noteq> 1" "?idc \<noteq> 2" "?idc \<noteq> 3" by blast
  then show ?case
  proof cases
    case short
    obtain k j p qs' where q: "short_pic_num ?idc d (mod_value m) pred = Some k"
      "(if k > num then i32 (k - hd_max_pic_num d) else Some k) = Some j"
      "GetShortRefPicByPicNum j (hd_dpb d) (hd_store d) = Some p" "named_pics d num ms k = Some qs'" "qs = p # qs'"
      using Cons.prems(1) short by (auto simp: Let_def bind_eq_Some_conv)
    show ?thesis
      using advance [OF q(4,5), of "\<lambda>x. Some (PicNumF d x \<noteq> j)"] GetShort_keep(2) [OF ok q(3)] short q n
      by (auto simp: Let_def)
  next
    case long
    obtain p qs' where q: "GetLongRefPicByLongTermPicNum (mod_value m) (hd_dpb d) (hd_store d) = Some p"
      "named_pics d num ms pred = Some qs'" "qs = p # qs'"
      using Cons.prems(1) long by (auto simp: Let_def bind_eq_Some_conv)
    show ?thesis
      using advance [OF q(2,3), of "\<lambda>x. map_option (\<lambda>k. k \<noteq> mod_value m) (LongTermPicNumF d x)"] GetLong_keep(2) [OF ok q(1)] long q n
      by (auto simp: Let_def)
  next
    case fin
    then show ?thesis using Cons.prems by auto
  next
    case other
    then show ?thesis using Cons.IH [of pred qs ps v] Cons.prems by (auto simp: Let_def)
  qed
qed

text \<open>
  C9: The commands of a slice header put the pictures that they name at the front of the list, in
  their order, and leave the order of the others, of which the last ones drop out. Conditions: the
  list has no entry twice, only reference pictures, and at least as many as the slice header
  requests, which are fewer than 32; every command names a reference picture of the buffer, no two
  the same one, and there are no more commands than entries; the picture numbers of short-term
  pictures, and those of long-term pictures, identify the picture and differ from the number that
  stands for none. Without the condition on the number of commands a CHECK ends the process
  (\<open>ModifyReferencePicList_too_many_commands\<close>), and with a list shorter than requested a null
  entry is read (\<open>ModifyReferencePicList_missing_entry\<close>).
\<close>

theorem ModifyReferencePicList_moves_to_front:
  assumes "pic_nums_ok d" "distinct as" "set as \<subseteq> set (short_refs d) \<union> set (long_refs d)"
    and "0 \<le> num_ref_idx_minus1 sh l" "num_ref_idx_minus1 sh l < 31" "nat (num_ref_idx_minus1 sh l) < length as"
    and "modification_flag sh l" "hd_curr_pic d = Some cur"
    and "named_pics d (pi_pic_num (pic_of d cur)) (take 32 (modifications sh l)) (pi_pic_num (pic_of d cur)) = Some ps"
    and "distinct ps" "length ps \<le> nat (num_ref_idx_minus1 sh l) + 1"
  shows "ModifyReferencePicList sh l (map Some as) d =
    (let n = nat (num_ref_idx_minus1 sh l) + 1 in
     Some (True, map Some (take n (ps @ filter (\<lambda>a. a \<notin> set ps) (take n as)))))"
proof -
  define n where "n = nat (num_ref_idx_minus1 sh l)"
  have n: "n + 1 < 32" "n < length as" using assms(5,6) by (simp_all add: n_def)
  have t: "distinct (take (n + 1) as)" "length (take (n + 1) as) = n + 1" "set (take (n + 1) as) \<subseteq> set (short_refs d) \<union> set (long_refs d)"
    using assms(2,3) n set_take_subset [of "n + 1" as] by auto
  have ps: "distinct ([] @ ps)" "length ([] :: nat list) + length ps \<le> n + 1" using assms(10,11) by (simp_all add: n_def)
  have "\<exists>v'. modify_loop d (pi_pic_num (pic_of d cur)) n (take 32 (modifications sh l)) (pi_pic_num (pic_of d cur)) (length ([] :: nat list))
      (map Some (take (n + 1) as)) = Some (True, v') \<and> n + 1 \<le> length v' \<and>
    take (n + 1) v' = map Some (take (n + 1) (([] @ ps) @ filter (\<lambda>a. a \<notin> set ([] @ ps)) (take (n + 1) as)))"
  proof (rule modify_loop_moves [OF assms(1) n(1) t assms(9) ps])
    show "length (map Some (take (n + 1) as)) = n + 1 \<or> length (map Some (take (n + 1) as)) = n + 2" unfolding length_map t(2) by simp
    show "take (n + 1) (map Some (take (n + 1) as)) = map Some (take (n + 1) ([] @ filter (\<lambda>a. a \<notin> set []) (take (n + 1) as)))"
      by (simp only: take_map append_Nil list.set empty_iff not_False_eq_True filter_True simp_thms ball_triv)
  qed
  then obtain v' where v': "modify_loop d (pi_pic_num (pic_of d cur)) n (take 32 (modifications sh l)) (pi_pic_num (pic_of d cur)) 0
      (map Some (take (n + 1) as)) = Some (True, v')" "n + 1 \<le> length v'"
    "take (n + 1) v' = map Some (take (n + 1) (ps @ filter (\<lambda>a. a \<notin> set ps) (take (n + 1) as)))"
    unfolding append_Nil list.size by blast
  have r: "resize_refs (n + 1) (map Some as) = map Some (take (n + 1) as)" "resize_refs (n + 1) v' = take (n + 1) v'"
    using n v'(2) by (simp_all only: resize_refs_take take_map length_map Suc_eq_plus1 [symmetric] Suc_le_eq)
  have "ModifyReferencePicList sh l (map Some as) d = Some (True, resize_refs (n + 1) v')"
    unfolding ModifyReferencePicList_def Let_def n_def [symmetric] r(1) assms(8) option.case v'(1) using assms(4,7) by simp
  then show ?thesis unfolding r(2) v'(3) unfolding n_def Let_def .
qed

section \<open>The two computations of order counts\<close>

text \<open>The state of \<open>H264POC\<close> that corresponds to the decoder, for the type of order count of its parameter set.\<close>

definition poc_related :: "h264_sps \<Rightarrow> h264_poc \<Rightarrow> 'a h264_decoder \<Rightarrow> bool" where
  "poc_related sps p d \<longleftrightarrow>
     (if sps_pic_order_cnt_type sps = 0 then
        poc_ref_pic_order_cnt_msb p = (if hd_prev_ref_has_memmgmnt5 d then 0 else hd_prev_ref_pic_order_cnt_msb d) \<and>
        poc_ref_pic_order_cnt_lsb p =
          (if hd_prev_ref_has_memmgmnt5 d then hd_prev_ref_top_field_order_cnt d else hd_prev_ref_pic_order_cnt_lsb d) \<and>
        (if hd_prev_ref_has_memmgmnt5 d then hd_prev_ref_field d \<noteq> FIELD_BOTTOM else True)
      else
        poc_prev_frame_num p = hd_prev_frame_num d \<and>
        poc_prev_frame_num_offset p = (if hd_prev_has_memmgmnt5 d then 0 else hd_prev_frame_num_offset d))"

lemma expected_poc_not_error: "expected_poc sps n f off \<noteq> Some None"
  by (auto simp: expected_poc_def Let_def bind_eq_Some_conv split: if_splits option.splits)

lemmas poc_state = store_previous_def upd_pic_def set_pic_order_cnt_def set_field_counts_def poc_related_def store_offset_def
  clear_offset_def

text \<open>
  The slices and parameter sets considered: frames, IDR pictures that are references, and the ranges
  that the parser enforces.
\<close>

definition poc_slice_ok :: "h264_slice_header \<Rightarrow> bool" where
  "poc_slice_ok sh \<longleftrightarrow> \<not> sh_field_pic_flag sh \<and> (if sh_idr_pic_flag sh then sh_nal_ref_idc sh \<noteq> 0 else True)"

definition poc_ranges_ok :: "h264_sps \<Rightarrow> bool" where
  "poc_ranges_ok sps \<longleftrightarrow> sps_pic_order_cnt_type sps \<in> {0..2} \<and>
     sps_log2_max_frame_num_minus4 sps \<in> {0..12} \<and> sps_log2_max_pic_order_cnt_lsb_minus4 sps \<in> {0..12}"

definition poc_sps_ok :: "h264_sps \<Rightarrow> 'a h264_decoder \<Rightarrow> bool" where
  "poc_sps_ok sps d \<longleftrightarrow> GetSPS (hd_curr_sps_id d) (hd_parser d) = Some sps \<and> poc_ranges_ok sps \<and>
     hd_max_frame_num d = 16 * 2 ^ nat (sps_log2_max_frame_num_minus4 sps)"

lemma poc_nonref: "poc_slice_ok sh \<Longrightarrow> sh_nal_ref_idc sh = 0 \<Longrightarrow> \<not> HasMMCO5 sh \<and> \<not> sh_idr_pic_flag sh"
  by (auto simp: HasMMCO5_def poc_slice_ok_def)

text \<open>A new picture, which may have a decryption configuration, filled from the slice header.\<close>

definition fresh_picture :: "h264_picture \<Rightarrow> bool" where
  "fresh_picture pic \<longleftrightarrow> pic = H264Picture_init\<lparr>pi_decrypt_config := pi_decrypt_config pic\<rparr>"

definition filled :: "h264_slice_header \<Rightarrow> h264_picture \<Rightarrow> h264_picture" where
  "filled sh pic = pic\<lparr>pi_idr := sh_idr_pic_flag sh,
     pi_idr_pic_id := (if sh_idr_pic_flag sh then sh_idr_pic_id sh else 0),
     pi_nal_ref_idc := sh_nal_ref_idc sh, pi_ref := sh_nal_ref_idc sh \<noteq> 0, pi_frame_num := sh_frame_num sh, pi_pic_num := sh_frame_num sh\<rparr>"

lemma fresh_pictureD:
  assumes "fresh_picture pic"
  shows "pi_field pic = FIELD_NONE" "\<not> pi_mem_mgmt_5 pic" "pi_idr_pic_id pic = 0" "\<not> pi_nonexisting pic"
  using assms unfolding fresh_picture_def H264Picture_init_def by (cases pic; simp)+

lemma filled_fields [simp]:
  "pi_idr (filled sh pic) = sh_idr_pic_flag sh" "pi_field (filled sh pic) = pi_field pic" "pi_nal_ref_idc (filled sh pic) = sh_nal_ref_idc sh"
  "pi_ref (filled sh pic) \<longleftrightarrow> sh_nal_ref_idc sh \<noteq> 0" "pi_frame_num (filled sh pic) = sh_frame_num sh"
  "pi_mem_mgmt_5 (filled sh pic) = pi_mem_mgmt_5 pic" "pi_nonexisting (filled sh pic) = pi_nonexisting pic"
  by (simp_all add: filled_def)

definition filled_for :: "h264_sps \<Rightarrow> h264_slice_header \<Rightarrow> h264_picture \<Rightarrow> h264_picture" where
  "filled_for sps sh pic =
     (if sps_pic_order_cnt_type sps = 0 then (filled sh pic)\<lparr>pi_pic_order_cnt_type := 0, pi_pic_order_cnt_lsb := sh_pic_order_cnt_lsb sh,
        pi_delta_pic_order_cnt_bottom := sh_delta_pic_order_cnt_bottom sh\<rparr>
      else if sps_pic_order_cnt_type sps = 1 then (filled sh pic)\<lparr>pi_pic_order_cnt_type := 1,
        pi_delta_pic_order_cnt0 := sh_delta_pic_order_cnt0 sh, pi_delta_pic_order_cnt1 := sh_delta_pic_order_cnt1 sh\<rparr>
      else (filled sh pic)\<lparr>pi_pic_order_cnt_type := 2\<rparr>)"

lemma Fill_eq:
  "\<not> sh_field_pic_flag sh \<Longrightarrow> sps_pic_order_cnt_type sps \<in> {0..2} \<Longrightarrow> fresh_picture pic \<Longrightarrow>
   FillH264PictureFromSliceHeader (Some sps) sh pic = Some (True, filled_for sps sh pic)"
  using fresh_pictureD(1,3) [of pic]
  by (cases pic) (auto simp: FillH264PictureFromSliceHeader_def filled_for_def filled_def Let_def)

text \<open>The result of the count of the decoder that agrees with that of \<open>H264POC\<close>.\<close>

definition counts_agree :: "h264_sps \<Rightarrow> h264_slice_header \<Rightarrow> nat \<Rightarrow> int option \<times> h264_poc \<Rightarrow> bool \<times> 'a h264_decoder \<Rightarrow> bool" where
  "counts_agree sps sh a = (\<lambda>(c, p') (ok, d'). ok \<and>
     c = Some (if HasMMCO5 sh then 0 else pi_pic_order_cnt (pic_of d' a)) \<and> pi_field (pic_of d' a) = FIELD_NONE \<and>
     poc_related sps p' (store_previous a (upd_pic a (\<lambda>pic. pic\<lparr>pi_mem_mgmt_5 := HasMMCO5 sh\<rparr>) d')))"

lemma calculated_type0:
  assumes sps: "poc_sps_ok sps d" "sps_pic_order_cnt_type sps = 0" and sh: "poc_slice_ok sh" and fresh: "fresh_picture pic"
    and rel: "sh_idr_pic_flag sh \<or> poc_related sps p d"
  shows "rel_option (counts_agree sps sh a) (ComputePicOrderCnt sps sh p)
    (CalculatePicOrderCounts a (upd_pic a (\<lambda>_. filled_for sps sh pic) d))"
proof -
  define M where "M = 16 * (2::int) ^ nat (sps_log2_max_pic_order_cnt_lsb_minus4 sps)"
  define msb where "msb = (if sh_idr_pic_flag sh then 0 else poc_ref_pic_order_cnt_msb p)"
  define lsb where "lsb = (if sh_idr_pic_flag sh then 0 else poc_ref_pic_order_cnt_lsb p)"
  have prev: "prev_ref_order_count (upd_pic a f d) pic = (msb, lsb)" if "pi_idr pic = sh_idr_pic_flag sh" for f pic
    using rel sps(2) that by (auto simp: msb_def lsb_def poc_related_def prev_ref_order_count_def)
  have M: "shl4 (sps_log2_max_frame_num_minus4 sps) = Some (16 * 2 ^ nat (sps_log2_max_frame_num_minus4 sps))"
    "shl4 (sps_log2_max_pic_order_cnt_lsb_minus4 sps) = Some M" using sps(1) by (simp_all add: poc_sps_ok_def poc_ranges_ok_def shl4_simp M_def)
  note calc = ComputePicOrderCnt_def poc_type0_def CalculatePicOrderCounts_def counts_agree_def filled_for_def fresh_pictureD [OF fresh] order_counts_type0_def Let_def M
    prev msb_def [symmetric] lsb_def [symmetric] set_field_counts_def set_pic_order_cnt_def
  have ok: "\<not> sh_field_pic_flag sh" "GetSPS (hd_curr_sps_id d) (hd_parser d) = Some sps"
    using sps(1) sh by (simp_all add: poc_sps_ok_def poc_slice_ok_def)
  show ?thesis
  proof (cases "wrapped_msb M msb lsb (sh_pic_order_cnt_lsb sh)")
    case None
    then show ?thesis using ok sps(2) by (simp add: calc)
  next
    case m: (Some m)
    show ?thesis
    proof (cases "i32 (m + sh_pic_order_cnt_lsb sh)")
      case None
      then show ?thesis using m ok sps(2) by (simp add: calc)
    next
      case t: (Some t)
      show ?thesis
      proof (cases "i32 (t + sh_delta_pic_order_cnt_bottom sh)")
        case None
        then show ?thesis using m t ok sps(2) by (simp add: calc)
      next
        case b: (Some b)
        show ?thesis
          using m t b ok sps(2) rel poc_nonref [OF sh] by (auto simp: calc store_previous_def poc_related_def)
      qed
    qed
  qed
qed

lemma clear_offset_fields [simp]:
  "hd_store (clear_offset d) = hd_store d" "hd_parser (clear_offset d) = hd_parser d" "hd_curr_sps_id (clear_offset d) = hd_curr_sps_id d"
  "hd_max_frame_num (clear_offset d) = hd_max_frame_num d"
  by (simp_all add: clear_offset_def)

lemma frame_num_offset_related:
  assumes "sps_pic_order_cnt_type sps \<noteq> 0" "sh_idr_pic_flag sh \<or> poc_related sps p d"
    and "pi_idr pic = sh_idr_pic_flag sh" "pi_frame_num pic = sh_frame_num sh"
  shows "frame_num_offset (clear_offset (upd_pic a f d)) pic = next_frame_num_offset (hd_max_frame_num d) sh p"
  using assms by (auto simp: frame_num_offset_def next_frame_num_offset_def poc_related_def clear_offset_def)

lemma poc_sps_ok_shl4:
  assumes "poc_sps_ok sps d"
  shows "shl4 (sps_log2_max_frame_num_minus4 sps) = Some (hd_max_frame_num d)"
    "shl4 (sps_log2_max_pic_order_cnt_lsb_minus4 sps) = Some (16 * 2 ^ nat (sps_log2_max_pic_order_cnt_lsb_minus4 sps))"
  using assms by (simp_all add: poc_sps_ok_def poc_ranges_ok_def shl4_simp)

lemma calculated_type1:
  assumes sps: "poc_sps_ok sps d" "sps_pic_order_cnt_type sps = 1" and sh: "poc_slice_ok sh" and fresh: "fresh_picture pic"
    and rel: "sh_idr_pic_flag sh \<or> poc_related sps p d"
  shows "rel_option (counts_agree sps sh a) (ComputePicOrderCnt sps sh p)
    (CalculatePicOrderCounts a (upd_pic a (\<lambda>_. filled_for sps sh pic) d))"
proof -
  have ok: "\<not> sh_field_pic_flag sh" "GetSPS (hd_curr_sps_id d) (hd_parser d) = Some sps"
    using sps(1) sh by (simp_all add: poc_sps_ok_def poc_slice_ok_def)
  note calc = ComputePicOrderCnt_def poc_type1_def CalculatePicOrderCounts_def counts_agree_def filled_for_def fresh_pictureD [OF fresh] order_counts_type1_def Let_def
    poc_sps_ok_shl4 [OF sps(1)] frame_num_offset_related [where sps = sps, OF _ rel] set_field_counts_def set_pic_order_cnt_def
  show ?thesis
  proof (cases "next_frame_num_offset (hd_max_frame_num d) sh p")
    case None
    then show ?thesis using ok sps(2) by (simp add: calc)
  next
    case off: (Some off)
    let ?e = "expected_poc sps (sh_nal_ref_idc sh) (sh_frame_num sh) off"
    consider "?e = None" | e where "?e = Some (Some e)"
      using expected_poc_not_error [of sps "sh_nal_ref_idc sh" "sh_frame_num sh" off] by (cases ?e) auto
    then show ?thesis
    proof cases
      case 1
      then show ?thesis using off ok sps(2) by (simp add: calc)
    next
      case e: 2
      show ?thesis
      proof (cases "i32 (e + sh_delta_pic_order_cnt0 sh)")
        case None
        then show ?thesis using off e ok sps(2) by (simp add: calc)
      next
        case t: (Some t)
        show ?thesis
        proof (cases "i32 (t + sps_offset_for_top_to_bottom_field sps)")
          case None
          then show ?thesis using off e t ok sps(2) by (simp add: calc)
        next
          case b: (Some b)
          then show ?thesis using off e t ok sps(2)
            by (cases "i32 (b + sh_delta_pic_order_cnt1 sh)")
              (simp_all add: calc store_previous_def poc_related_def store_offset_def)
        qed
      qed
    qed
  qed
qed

lemma calculated_type2:
  assumes sps: "poc_sps_ok sps d" "sps_pic_order_cnt_type sps = 2" and sh: "poc_slice_ok sh" and fresh: "fresh_picture pic"
    and rel: "sh_idr_pic_flag sh \<or> poc_related sps p d"
  shows "rel_option (counts_agree sps sh a) (ComputePicOrderCnt sps sh p)
    (CalculatePicOrderCounts a (upd_pic a (\<lambda>_. filled_for sps sh pic) d))"
proof -
  have ok: "\<not> sh_field_pic_flag sh" "GetSPS (hd_curr_sps_id d) (hd_parser d) = Some sps"
    using sps(1) sh by (simp_all add: poc_sps_ok_def poc_slice_ok_def)
  note calc = ComputePicOrderCnt_def poc_type2_def CalculatePicOrderCounts_def counts_agree_def filled_for_def fresh_pictureD [OF fresh] order_counts_type2_def Let_def
    poc_sps_ok_shl4 [OF sps(1)] frame_num_offset_related [where sps = sps, OF _ rel] set_field_counts_def set_pic_order_cnt_def
  show ?thesis
  proof (cases "next_frame_num_offset (hd_max_frame_num d) sh p")
    case None
    then show ?thesis using ok sps(2) by (simp add: calc)
  next
    case off: (Some off)
    then show ?thesis using ok sps(2)
      by (cases "temp_poc (sh_idr_pic_flag sh) (sh_nal_ref_idc sh) (sh_frame_num sh) off")
        (simp_all add: calc store_previous_def poc_related_def store_offset_def)
  qed
qed

lemma calculated_counts_agree:
  assumes "poc_sps_ok sps d" "poc_slice_ok sh" "fresh_picture pic" "sh_idr_pic_flag sh \<or> poc_related sps p d"
  shows "rel_option (counts_agree sps sh a) (ComputePicOrderCnt sps sh p)
    (CalculatePicOrderCounts a (upd_pic a (\<lambda>_. filled_for sps sh pic) d))"
proof -
  have "sps_pic_order_cnt_type sps = 0 \<or> sps_pic_order_cnt_type sps = 1 \<or> sps_pic_order_cnt_type sps = 2"
    using assms(1) by (auto simp: poc_sps_ok_def poc_ranges_ok_def)
  then show ?thesis using calculated_type0 calculated_type1 calculated_type2 assms by blast
qed

section \<open>Concrete lists\<close>

definition short_pic :: "int \<Rightarrow> int \<Rightarrow> h264_picture" where
  "short_pic poc num = H264Picture_init\<lparr>pi_ref := True, pi_pic_order_cnt := poc, pi_pic_num := num, pi_frame_num := num\<rparr>"

definition long_pic :: "int \<Rightarrow> int \<Rightarrow> h264_picture" where
  "long_pic poc num = H264Picture_init\<lparr>pi_ref := True, pi_long_term := True, pi_pic_order_cnt := poc, pi_long_term_pic_num := num\<rparr>"

text \<open>A buffer with two short-term pictures and a long-term one, and the current picture.\<close>

definition refs_sample :: "unit h264_decoder" where
  "refs_sample = (H264Decoder_new VideoColorSpace_init ())\<lparr>
     hd_dpb := \<lparr>dpb_pics = [0, 1, 2], dpb_max_num_pics = 4\<rparr>, hd_max_pic_num := 16, hd_max_frame_num := 16,
     hd_curr_pic := Some 3, hd_next := 4, hd_ref_pic_list_p0 := [1, 0, 2],
     hd_store := (\<lambda>_. H264Picture_init)(0 := short_pic 0 1, 1 := short_pic 8 2, 2 := long_pic (- 8) 0, 3 := short_pic 4 3)\<rparr>"

lemmas refs_sample_defs = refs_sample_def short_pic_def long_pic_def H264Decoder_new_def H264Picture_init_def

lemma refs_sample_pics [simp]:
  "pi_ref (pic_of refs_sample 0) = True" "pi_long_term (pic_of refs_sample 0) = False"
  "pi_pic_num (pic_of refs_sample 0) = 1" "pi_long_term_pic_num (pic_of refs_sample 0) = 0"
  "pi_pic_order_cnt (pic_of refs_sample 0) = 0" "pi_ref (pic_of refs_sample (Suc 0)) = True"
  "pi_long_term (pic_of refs_sample (Suc 0)) = False" "pi_pic_num (pic_of refs_sample (Suc 0)) = 2"
  "pi_long_term_pic_num (pic_of refs_sample (Suc 0)) = 0" "pi_pic_order_cnt (pic_of refs_sample (Suc 0)) = 8"
  "pi_ref (pic_of refs_sample 2) = True" "pi_long_term (pic_of refs_sample 2) = True"
  "pi_pic_num (pic_of refs_sample 2) = 0" "pi_long_term_pic_num (pic_of refs_sample 2) = 0"
  "pi_pic_order_cnt (pic_of refs_sample 2) = (- 8)" "pi_ref (pic_of refs_sample 3) = True"
  "pi_long_term (pic_of refs_sample 3) = False" "pi_pic_num (pic_of refs_sample 3) = 3"
  "pi_long_term_pic_num (pic_of refs_sample 3) = 0" "pi_pic_order_cnt (pic_of refs_sample 3) = 4"
  "hd_dpb refs_sample = \<lparr>dpb_pics = [0, 1, 2], dpb_max_num_pics = 4\<rparr>" "hd_curr_pic refs_sample = Some 3"
  "hd_max_pic_num refs_sample = 16" "hd_max_long_term_frame_idx refs_sample = 0"
  by (simp_all add: refs_sample_defs)

lemma refs_sample_refs: "short_refs refs_sample = [0, 1]" "long_refs refs_sample = [2]"
  by (simp_all add: short_refs_def long_refs_def)

lemma reference_list_of_P_slice_witness:
  "\<exists>S L. hd_ref_pic_list_p0 (ConstructReferencePicListsP sort_key refs_sample) = S @ L \<and>
    mset S = mset (short_refs refs_sample) \<and>
    sorted_wrt (\<lambda>a b. pi_pic_num (pic_of refs_sample a) \<ge> pi_pic_num (pic_of refs_sample b)) S \<and>
    mset L = mset (long_refs refs_sample) \<and>
    sorted_wrt (\<lambda>a b. pi_long_term_pic_num (pic_of refs_sample a) \<le> pi_long_term_pic_num (pic_of refs_sample b)) L"
  by (rule reference_list_of_P_slice [OF sorts_sort_key])

text \<open>In the sample list 0 ends with the long-term picture 2 as it should, list 1 with the short-term ones again.\<close>

lemma list_1_lacks_long_term_pictures:
  "map_option (\<lambda>d. (hd_ref_pic_list_b0 d, hd_ref_pic_list_b1 d)) (ConstructReferencePicListsB sort_key refs_sample) =
     Some ([0, 1, 2], [1, 0, 0, 1])"
proof -
  note keys = POCAsc_def POCDesc_def LongTermPicNumAsc_def sort_upto_def sort_from_def upper_bound_def Let_def
  have b0: "list_b0 sort_key 3 refs_sample = [0, 1, 2]"
    unfolding list_b0_def refs_appending refs_sample_refs Let_def by (simp add: keys)
  have b1: "list_b1 sort_key 3 refs_sample = [1, 0, 0, 1]"
    unfolding list_b1_def refs_appending refs_sample_refs Let_def by (simp add: keys)
  show ?thesis unfolding ConstructReferencePicListsB_def refs_sample_pics option.case b0 b1 Let_def by simp
qed

lemma reference_lists_of_B_slice_witness:
  "\<exists>d' A B L X Y Z. ConstructReferencePicListsB sort_key refs_sample = Some d' \<and>
    hd_ref_pic_list_b0 d' = A @ B @ L \<and> mset (A @ B) = mset (short_refs refs_sample) \<and> mset L = mset (long_refs refs_sample) \<and>
    hd_ref_pic_list_b1 d' =
      (if L = [] \<and> A @ B = X @ Y \<and> 1 < length (X @ Y) then swap_first (X @ Y) else X @ Y) @ Z \<and>
    mset (X @ Y) = mset (short_refs refs_sample) \<and> mset Z = mset (short_refs refs_sample)"
proof -
  have "hd_curr_pic refs_sample = Some 3" by simp
  from reference_lists_of_B_slice [OF sorts_sort_key this] show ?thesis by blast
qed

definition command :: "int \<Rightarrow> int \<Rightarrow> h264_modification" where
  "command idc v = \<lparr>mod_modification_of_pic_nums_idc = idc, mod_value = v\<rparr>"

definition slice_with_commands :: "int \<Rightarrow> h264_modification list \<Rightarrow> h264_slice_header" where
  "slice_with_commands num_minus1 ms = H264SliceHeader_zero\<lparr>sh_num_ref_idx_l0_active_minus1 := num_minus1,
     sh_ref_pic_list_modification_flag_l0 := True, sh_ref_list_l0_modifications := ms @ command 3 0 # replicate (31 - length ms) (command 0 0)\<rparr>"

lemmas modify_sample = slice_with_commands_def command_def H264SliceHeader_zero_def modifications_def modification_flag_def
  num_ref_idx_minus1_def short_pic_num_def i32_def int_range_def int_max_def GetShortRefPicByPicNum_def GetLongRefPicByLongTermPicNum_def

text \<open>The long-term picture and the picture numbered one less than the one before are moved to the front.\<close>

lemma ModifyReferencePicList_moves_to_front_witness:
  "ModifyReferencePicList (slice_with_commands 2 [command 2 0, command 0 1]) 0 (map Some [1, 0, 2]) refs_sample =
    (let n = nat (num_ref_idx_minus1 (slice_with_commands 2 [command 2 0, command 0 1]) 0) + 1 in
     Some (True, map Some (take n ([2, 0] @ filter (\<lambda>a. a \<notin> set [2, 0]) (take n [1, 0, 2])))))"
proof (rule ModifyReferencePicList_moves_to_front [where cur = 3])
  show "pic_nums_ok refs_sample" unfolding pic_nums_ok_def refs_sample_refs by simp
  show "named_pics refs_sample (pi_pic_num (pic_of refs_sample 3)) (take 32 (modifications (slice_with_commands 2 [command 2 0, command 0 1]) 0))
      (pi_pic_num (pic_of refs_sample 3)) = Some [2, 0]"
    by (simp add: modify_sample)
qed (simp_all add: modify_sample refs_sample_refs)

text \<open>
  More commands than entries stop the process by a failed check, where other errors of the stream are
  reported; a command for a long-term picture reads through the null pointer of a missing entry.
\<close>

lemma ModifyReferencePicList_too_many_commands:
  "ModifyReferencePicList (slice_with_commands 0 [command 0 0, command 0 0]) 0 (map Some [1, 0, 2]) refs_sample = None"
  by (simp add: ModifyReferencePicList_def modify_sample move_to_def ShiftRightAndInsert_def Let_def resize_refs_def PicNumF_def)

lemma ModifyReferencePicList_missing_entry:
  "ModifyReferencePicList (slice_with_commands 3 [command 2 0]) 0 (map Some [1, 0, 2]) refs_sample = None"
  by (simp add: ModifyReferencePicList_def modify_sample move_to_def ShiftRightAndInsert_def Let_def resize_refs_def
      LongTermPicNumF_def eval_nat_numeral) (simp add: numeral_2_eq_2 [symmetric])

end
