(* ===== verification/H264_Decoder.thy ===== *)
theory H264_Decoder
  imports H264_Refs
begin

text \<open>
  The H.264 decoder (\<open>gpu/h264_decoder.cc\<close>): marking of reference pictures, output, parameter sets,
  gaps in frame numbers, frames and slices.

  \<open>None\<close> is a failed check or undefined behaviour. A picture is passed to the accelerator as its
  address with the store.
\<close>

section \<open>Reference marking\<close>

fun unmark_such :: "(h264_picture \<Rightarrow> bool) \<Rightarrow> nat list \<Rightarrow> pic_store \<Rightarrow> pic_store" where
  "unmark_such P [] h = h"
| "unmark_such P (a # as) h = unmark_such P as (if P (h a) then h(a := (h a)\<lparr>pi_ref := False\<rparr>) else h)"

text \<open>One memory management control operation; the result tells whether the picture it names was found.\<close>

definition memory_management_op :: "nat \<Rightarrow> h264_ref_pic_marking \<Rightarrow> 'a h264_decoder \<Rightarrow> (bool \<times> 'a h264_decoder) option" where
  "memory_management_op a m d =
     (let op = rpm_memory_mgmnt_control_operation m; dpb = hd_dpb d; h = hd_store d in
      if op = 1 then do {
        k \<leftarrow> i32 (rpm_difference_of_pic_nums_minus1 m + 1);
        pic_num_x \<leftarrow> i32 (pi_pic_num (h a) - k);
        Some (case GetShortRefPicByPicNum pic_num_x dpb h of
                Some to_mark \<Rightarrow> (True, upd_pic to_mark (\<lambda>pic. pic\<lparr>pi_ref := False\<rparr>) d)
              | None \<Rightarrow> (False, d))
      }
      else if op = 2 then
        Some (case GetLongRefPicByLongTermPicNum (rpm_long_term_pic_num m) dpb h of
                Some to_mark \<Rightarrow> (True, upd_pic to_mark (\<lambda>pic. pic\<lparr>pi_ref := False\<rparr>) d)
              | None \<Rightarrow> (False, d))
      else if op = 3 then do {
        k \<leftarrow> i32 (rpm_difference_of_pic_nums_minus1 m + 1);
        pic_num_x \<leftarrow> i32 (pi_pic_num (h a) - k);
        Some (case GetShortRefPicByPicNum pic_num_x dpb h of
                Some to_mark \<Rightarrow>
                  (True, upd_pic to_mark (\<lambda>pic. pic\<lparr>pi_long_term := True, pi_long_term_frame_idx := rpm_long_term_frame_idx m\<rparr>) d)
              | None \<Rightarrow> (False, d))
      }
      else if op = 4 then do {
        idx \<leftarrow> i32 (rpm_max_long_term_frame_idx_plus1 m - 1);
        let d = d\<lparr>hd_max_long_term_frame_idx := idx\<rparr>;
        Some (True, d\<lparr>hd_store := unmark_such (\<lambda>pic. pi_long_term_frame_idx pic > idx) (GetLongTermRefPicsAppending dpb h []) h\<rparr>)
      }
      else if op = 5 then
        Some (True, upd_pic a (\<lambda>pic. pic\<lparr>pi_mem_mgmt_5 := True\<rparr>)
                (d\<lparr>hd_store := MarkAllUnusedForRef dpb h, hd_max_long_term_frame_idx := - 1\<rparr>))
      else if op = 6 then
        Some (True, upd_pic a (\<lambda>pic. pic\<lparr>pi_ref := True, pi_long_term := True, pi_long_term_frame_idx := rpm_long_term_frame_idx m\<rparr>)
                (d\<lparr>hd_store := unmark_such (\<lambda>pic. pi_long_term_frame_idx pic = rpm_long_term_frame_idx m)
                     (GetLongTermRefPicsAppending dpb h []) h\<rparr>))
      else None)"

fun memory_management_loop :: "nat \<Rightarrow> h264_ref_pic_marking list \<Rightarrow> 'a h264_decoder \<Rightarrow> (bool \<times> 'a h264_decoder) option" where
  "memory_management_loop a [] d = Some (True, d)"
| "memory_management_loop a (m # ms) d =
     (if rpm_memory_mgmnt_control_operation m = 0 then Some (True, d)
      else do {
        (ok, d) \<leftarrow> memory_management_op a m d;
        if ok then memory_management_loop a ms d else Some (False, d)
      })"

definition HandleMemoryManagementOps :: "nat \<Rightarrow> 'a h264_decoder \<Rightarrow> (bool \<times> 'a h264_decoder) option" where
  "HandleMemoryManagementOps a d = memory_management_loop a (pi_ref_pic_marking (pic_of d a)) d"

definition SlidingWindowPictureMarking :: "'a h264_decoder \<Rightarrow> (bool \<times> 'a h264_decoder) option" where
  "SlidingWindowPictureMarking d =
     (case GetSPS (hd_curr_sps_id d) (hd_parser d) of
        None \<Rightarrow> Some (False, d)
      | Some sps \<Rightarrow>
          let num_ref_pics = int (CountRefPics (hd_dpb d) (hd_store d)) in
          if \<not> num_ref_pics \<le> max (sps_max_num_ref_frames sps) 1 then None
          else if num_ref_pics = max (sps_max_num_ref_frames sps) 1 then
            case GetLowestFrameNumWrapShortRefPic (hd_dpb d) (hd_store d) of
              None \<Rightarrow> Some (False, d)
            | Some to_unmark \<Rightarrow> Some (True, upd_pic to_unmark (\<lambda>pic. pic\<lparr>pi_ref := False\<rparr>) d)
          else Some (True, d))"

definition ReferencePictureMarking :: "nat \<Rightarrow> 'a h264_decoder \<Rightarrow> (bool \<times> 'a h264_decoder) option" where
  "ReferencePictureMarking a d =
     (if pi_idr (pic_of d a) then
        let d = d\<lparr>hd_store := MarkAllUnusedForRef (hd_dpb d) (hd_store d)\<rparr> in
        if pi_long_term_reference_flag (pic_of d a) then
          Some (True, upd_pic a (\<lambda>pic. pic\<lparr>pi_long_term := True, pi_long_term_frame_idx := 0\<rparr>) (d\<lparr>hd_max_long_term_frame_idx := 0\<rparr>))
        else Some (True, upd_pic a (\<lambda>pic. pic\<lparr>pi_long_term := False\<rparr>) (d\<lparr>hd_max_long_term_frame_idx := - 1\<rparr>))
      else if pi_adaptive_ref_pic_marking_mode_flag (pic_of d a) then
        if pi_nonexisting (pic_of d a) then None else HandleMemoryManagementOps a d
      else SlidingWindowPictureMarking d)"

section \<open>Output\<close>

definition OutputPic :: "'a h264_accelerator \<Rightarrow> nat \<Rightarrow> 'a h264_decoder \<Rightarrow> 'a h264_decoder option" where
  "OutputPic acc a d =
     (if pi_outputted (pic_of d a) then None
      else
        let colorspace_for_frame =
              (case GetSPS (hd_curr_sps_id d) (hd_parser d) of
                 Some sps \<Rightarrow> if IsSpecified (VideoColorSpace sps) then VideoColorSpace sps else hd_container_color_space d
               | None \<Rightarrow> hd_container_color_space d);
            d = upd_pic a (\<lambda>pic. pic\<lparr>pi_outputted := True, pi_colorspace := colorspace_for_frame\<rparr>) d
        in if pi_nonexisting (pic_of d a) then Some d
           else Some (d\<lparr>hd_last_output_poc := pi_pic_order_cnt (pic_of d a),
                        hd_accelerator := acc_OutputPicture acc a (hd_store d) (hd_accelerator d)\<rparr>))"

definition ClearDPB :: "'a h264_decoder \<Rightarrow> 'a h264_decoder" where
  "ClearDPB d = d\<lparr>hd_dpb := DPB_Clear (hd_dpb d), hd_last_output_poc := - (2 ^ 31)\<rparr>"

definition delete_by_poc :: "int \<Rightarrow> 'a h264_decoder \<Rightarrow> 'a h264_decoder option" where
  "delete_by_poc poc d = map_option (\<lambda>(dpb, h). d\<lparr>hd_dpb := dpb, hd_store := h\<rparr>) (DeleteByPOC poc (hd_dpb d) (hd_store d))"

text \<open>The pictures waiting, the next one first; \<open>a\<close> is the picture being finished.\<close>

fun output_loop :: "'a h264_accelerator \<Rightarrow> nat \<Rightarrow> nat list \<Rightarrow> 'a h264_decoder \<Rightarrow> 'a h264_decoder option" where
  "output_loop acc a [] d = Some d"
| "output_loop acc a (c # cs) d =
     (if length (c # cs) > hd_max_num_reorder_frames d \<or>
         (IsFull (hd_dpb d) \<and> (\<not> pi_outputted (pic_of d a) \<or> pi_ref (pic_of d a)))
      then do {
        d \<leftarrow> OutputPic acc c d;
        d \<leftarrow> (if \<not> pi_ref (pic_of d c) \<and> pi_pic_order_cnt (pic_of d c) \<noteq> pi_pic_order_cnt (pic_of d a)
              then delete_by_poc (pi_pic_order_cnt (pic_of d c)) d else Some d);
        output_loop acc a cs d
      }
      else Some d)"

definition delete_unused :: "'a h264_decoder \<Rightarrow> 'a h264_decoder" where
  "delete_unused d = (let (dpb, h) = DeleteUnused (hd_dpb d) (hd_store d) in d\<lparr>hd_dpb := dpb, hd_store := h\<rparr>)"

definition store_pic :: "nat \<Rightarrow> 'a h264_decoder \<Rightarrow> 'a h264_decoder option" where
  "store_pic a d = map_option (\<lambda>(dpb, h). d\<lparr>hd_dpb := dpb, hd_store := h\<rparr>) (StorePic a (hd_dpb d) (hd_store d))"

definition FinishPicture :: "pic_sort \<Rightarrow> 'a h264_accelerator \<Rightarrow> nat \<Rightarrow> 'a h264_decoder \<Rightarrow> (bool \<times> 'a h264_decoder) option" where
  "FinishPicture srt acc a d =
     do {
       (marked, d) \<leftarrow> (if pi_ref (pic_of d a) then ReferencePictureMarking a d else Some (True, d));
       let d = store_previous a d;
       let d = delete_unused d;
       let not_outputted = GetNotOutputtedPicsAppending (hd_dpb d) (hd_store d) [] @ [a];
       let not_outputted = srt (POCAsc (hd_store d)) not_outputted;
       d \<leftarrow> output_loop acc a not_outputted d;
       if \<not> pi_outputted (pic_of d a) \<or> pi_ref (pic_of d a) then
         if IsFull (hd_dpb d) then Some (False, d)
         else map_option (Pair True) (store_pic a d)
       else Some (True, d)
     }"

text \<open>The result of decoding the current picture; the picture is kept unless the accelerator accepts it.\<close>

definition FinishPrevFrameIfPresent :: "pic_sort \<Rightarrow> 'a h264_accelerator \<Rightarrow> 'a h264_decoder \<Rightarrow> (acc_status \<times> 'a h264_decoder) option" where
  "FinishPrevFrameIfPresent srt acc d =
     (case hd_curr_pic d of
        None \<Rightarrow> Some (kStatusOk, d)
      | Some a \<Rightarrow>
          let (result, s) = acc_SubmitDecode acc a (hd_store d) (hd_accelerator d);
              d = d\<lparr>hd_accelerator := s\<rparr>
          in if result \<noteq> kStatusOk then Some (result, d)
             else map_option (\<lambda>(ok, d). (if ok then kStatusOk else kStatusFail, d))
                    (FinishPicture srt acc a (d\<lparr>hd_curr_pic := None\<rparr>)))"

fun output_pics :: "'a h264_accelerator \<Rightarrow> nat list \<Rightarrow> 'a h264_decoder \<Rightarrow> 'a h264_decoder option" where
  "output_pics acc [] d = Some d"
| "output_pics acc (a # as) d = do { d \<leftarrow> OutputPic acc a d; output_pics acc as d }"

definition OutputAllRemainingPics :: "pic_sort \<Rightarrow> 'a h264_accelerator \<Rightarrow> 'a h264_decoder \<Rightarrow> 'a h264_decoder option" where
  "OutputAllRemainingPics srt acc d =
     do {
       (result, d) \<leftarrow> FinishPrevFrameIfPresent srt acc d;
       let to_output = GetNotOutputtedPicsAppending (hd_dpb d) (hd_store d) [];
       output_pics acc (srt (POCAsc (hd_store d)) to_output) d
     }"

definition Flush :: "pic_sort \<Rightarrow> 'a h264_accelerator \<Rightarrow> 'a h264_decoder \<Rightarrow> 'a h264_decoder option" where
  "Flush srt acc d = map_option ClearDPB (OutputAllRemainingPics srt acc d)"

definition H264Decoder_Reset :: "'a h264_accelerator \<Rightarrow> 'a h264_decoder \<Rightarrow> 'a h264_decoder" where
  "H264Decoder_Reset acc d =
     d\<lparr>hd_curr_pic := None, hd_curr_nalu := None, hd_curr_slice_hdr := None, hd_curr_sps_id := - 1, hd_curr_pps_id := - 1,
       hd_prev_frame_num := - 1, hd_prev_ref_frame_num := - 1, hd_prev_frame_num_offset := - 1, hd_prev_has_memmgmnt5 := False,
       hd_prev_ref_has_memmgmnt5 := False, hd_prev_ref_top_field_order_cnt := - 1, hd_prev_ref_pic_order_cnt_msb := - 1,
       hd_prev_ref_pic_order_cnt_lsb := - 1, hd_prev_ref_field := FIELD_NONE,
       hd_ref_pic_list_p0 := [], hd_ref_pic_list_b0 := [], hd_ref_pic_list_b1 := [],
       hd_dpb := DPB_Clear (hd_dpb d), hd_parser := H264Parser_Reset (hd_parser d),
       hd_accelerator := acc_Reset acc (hd_accelerator d), hd_last_output_poc := - (2 ^ 31),
       hd_state := (if hd_state d = kDecoding then kAfterReset else hd_state d)\<rparr>"

definition H264Decoder_init :: "'a h264_accelerator \<Rightarrow> video_color_space \<Rightarrow> 'a \<Rightarrow> 'a h264_decoder" where
  "H264Decoder_init acc container_color_space s = H264Decoder_Reset acc (H264Decoder_new container_color_space s)"

section \<open>Parameter sets\<close>

definition UpdateMaxNumReorderFrames :: "h264_sps \<Rightarrow> 'a h264_decoder \<Rightarrow> (bool \<times> 'a h264_decoder) option" where
  "UpdateMaxNumReorderFrames sps d =
     (if sps_vui_parameters_present_flag sps \<and> sps_bitstream_restriction_flag sps then
        if sps_max_num_reorder_frames sps < 0 then None
        else
          let n = nat (sps_max_num_reorder_frames sps) in
          if n > dpb_max_num_pics (hd_dpb d) then Some (False, d\<lparr>hd_max_num_reorder_frames := 0\<rparr>)
          else Some (True, d\<lparr>hd_max_num_reorder_frames := n\<rparr>)
      else if sps_constraint_set3_flag sps then
        Some (True, d\<lparr>hd_max_num_reorder_frames :=
          (if sps_profile_idc sps \<in> {44, 86, 100, 110, 122, 244} then 0 else dpb_max_num_pics (hd_dpb d))\<rparr>)
      else Some (True, d\<lparr>hd_max_num_reorder_frames := dpb_max_num_pics (hd_dpb d)\<rparr>))"

text \<open>The size of the buffer that the level and the stream require, or an error.\<close>

definition dpb_size_of :: "h264_sps \<Rightarrow> int \<Rightarrow> int \<Rightarrow> int option option" where
  "dpb_size_of sps width_mb height_mb =
     (if \<not> (0 \<le> sps_level_idc sps \<and> sps_level_idc sps \<le> 255) then None
      else
        let level = sps_level_idc sps;
            level = (if (sps_profile_idc sps = 66 \<or> sps_profile_idc sps = 77) \<and> level = 11 \<and> sps_constraint_set3_flag sps
                     then 9 else level);
            max_dpb_mbs = uint (H264LevelToMaxDpbMbs level)
        in if \<not> max_dpb_mbs \<le> int_max then None
           else if max_dpb_mbs = 0 then Some None
           else if width_mb * height_mb = 0 then None
           else
             let max_dpb_frames = min (max_dpb_mbs div (width_mb * height_mb)) (int kDPBMaxSize);
                 max_dpb_size = max max_dpb_frames (max (sps_max_num_ref_frames sps) (sps_max_dec_frame_buffering sps))
             in if max_dpb_size = 0 \<or> max_dpb_size > int kDPBMaxSize then Some None
                else Some (Some max_dpb_size))"

text \<open>A change of the picture size or of the buffer size; the flag tells whether there was one.\<close>

definition set_sizes :: "pic_sort \<Rightarrow> 'a h264_accelerator \<Rightarrow> int \<times> int \<Rightarrow> int \<Rightarrow> 'a h264_decoder \<Rightarrow> (bool \<times> 'a h264_decoder) option" where
  "set_sizes srt acc new_pic_size max_dpb_size d =
     (if hd_pic_size d \<noteq> new_pic_size \<or> int (dpb_max_num_pics (hd_dpb d)) \<noteq> max_dpb_size then do {
        d \<leftarrow> Flush srt acc d;
        dpb \<leftarrow> set_max_num_pics (nat max_dpb_size) (hd_dpb d);
        Some (True, d\<lparr>hd_pic_size := new_pic_size, hd_dpb := dpb\<rparr>)
      }
      else Some (False, d))"

definition ProcessSPS :: "pic_sort \<Rightarrow> 'a h264_accelerator \<Rightarrow> int \<Rightarrow> 'a h264_decoder \<Rightarrow> (bool \<times> bool \<times> 'a h264_decoder) option" where
  "ProcessSPS srt acc sps_id d =
     (case GetSPS sps_id (hd_parser d) of
        None \<Rightarrow> Some (False, False, d)
      | Some sps \<Rightarrow>
          if \<not> sps_frame_mbs_only_flag sps then Some (False, False, d)
          else
            let (width, height) = (case GetCodedSize sps of None \<Rightarrow> (0, 0) | Some sz \<Rightarrow> sz) in
            if width = 0 \<or> height = 0 then Some (False, False, d)
            else
              let width_mb = width div 16; height_mb = height div 16 in
              if width_mb = 0 then None
              else if int_max div width_mb < height_mb then Some (False, False, d)
              else do {
                sz \<leftarrow> dpb_size_of sps width_mb height_mb;
                (case sz of
                   None \<Rightarrow> Some (False, False, d)
                 | Some max_dpb_size \<Rightarrow> do {
                     (need_new_buffers, d) \<leftarrow> set_sizes srt acc (width, height) max_dpb_size d;
                     let new_visible_rect = (case GetVisibleRect sps of None \<Rightarrow> ((0, 0), (0, 0)) | Some r \<Rightarrow> r);
                     let d = d\<lparr>hd_visible_rect := new_visible_rect\<rparr>;
                     (ok, d) \<leftarrow> UpdateMaxNumReorderFrames sps d;
                     Some (ok, need_new_buffers, d)
                   })
              })"

section \<open>Frames and slices\<close>

definition new_picture :: "'a h264_decoder \<Rightarrow> nat \<times> 'a h264_decoder" where
  "new_picture d = (hd_next d, d\<lparr>hd_store := (hd_store d)(hd_next d := H264Picture_init), hd_next := hd_next d + 1\<rparr>)"

definition InitNonexistingPicture :: "nat \<Rightarrow> int \<Rightarrow> 'a h264_decoder \<Rightarrow> (bool \<times> 'a h264_decoder) option" where
  "InitNonexistingPicture a frame_num d =
     CalculatePicOrderCounts a
       (upd_pic a (\<lambda>pic. pic\<lparr>pi_nonexisting := True, pi_nal_ref_idc := 1, pi_frame_num := frame_num, pi_pic_num := frame_num,
          pi_adaptive_ref_pic_marking_mode_flag := False, pi_ref := True, pi_long_term_reference_flag := False,
          pi_field := FIELD_NONE\<rparr>) d)"

text \<open>A picture for a missing frame number, and the loop over them; the first argument bounds their number.\<close>

definition insert_missing_frame :: "pic_sort \<Rightarrow> 'a h264_accelerator \<Rightarrow> int \<Rightarrow> 'a h264_decoder \<Rightarrow> (bool \<times> 'a h264_decoder) option" where
  "insert_missing_frame srt acc unused d =
     do {
       let (a, d) = new_picture d;
       (ok, d) \<leftarrow> InitNonexistingPicture a unused d;
       if \<not> ok then Some (False, d)
       else do {
         d \<leftarrow> UpdatePicNums unused d;
         FinishPicture srt acc a d
       }
     }"

fun frame_num_gap_loop :: "nat \<Rightarrow> pic_sort \<Rightarrow> 'a h264_accelerator \<Rightarrow> int \<Rightarrow> int \<Rightarrow> 'a h264_decoder \<Rightarrow> (bool \<times> 'a h264_decoder) option" where
  "frame_num_gap_loop fuel srt acc frame_num unused d =
     (if unused = frame_num then Some (True, d)
      else case fuel of
        0 \<Rightarrow> None
      | Suc fuel \<Rightarrow> do {
          (ok, d) \<leftarrow> insert_missing_frame srt acc unused d;
          if \<not> ok then Some (False, d)
          else frame_num_gap_loop fuel srt acc frame_num ((unused + 1) mod hd_max_frame_num d) d
        })"

declare frame_num_gap_loop.simps [simp del]

definition HandleFrameNumGap :: "pic_sort \<Rightarrow> 'a h264_accelerator \<Rightarrow> int \<Rightarrow> 'a h264_decoder \<Rightarrow> (bool \<times> 'a h264_decoder) option" where
  "HandleFrameNumGap srt acc frame_num d =
     (case GetSPS (hd_curr_sps_id d) (hd_parser d) of
        None \<Rightarrow> Some (False, d)
      | Some sps \<Rightarrow>
          if \<not> sps_gaps_in_frame_num_value_allowed_flag sps then Some (False, d)
          else frame_num_gap_loop (nat (hd_max_frame_num d)) srt acc frame_num
                 ((hd_prev_ref_frame_num d + 1) mod hd_max_frame_num d) d)"

definition InitCurrPicture :: "h264_slice_header \<Rightarrow> nat \<Rightarrow> 'a h264_decoder \<Rightarrow> (bool \<times> 'a h264_decoder) option" where
  "InitCurrPicture sh a d =
     do {
       (ok, pic) \<leftarrow> FillH264PictureFromSliceHeader (GetSPS (hd_curr_sps_id d) (hd_parser d)) sh (pic_of d a);
       let d = upd_pic a (\<lambda>_. pic) d;
       if \<not> ok then Some (False, d)
       else do {
         (ok, d) \<leftarrow> CalculatePicOrderCounts a d;
         if \<not> ok then Some (False, d)
         else
           Some (True, upd_pic a (\<lambda>pic.
             (if sh_adaptive_ref_pic_marking_mode_flag sh then pic\<lparr>pi_ref_pic_marking := sh_ref_pic_marking sh\<rparr> else pic)
             \<lparr>pi_long_term_reference_flag := sh_long_term_reference_flag sh,
              pi_adaptive_ref_pic_marking_mode_flag := sh_adaptive_ref_pic_marking_mode_flag sh,
              pi_visible_rect := hd_visible_rect d, pi_bitstream_id := hd_stream_id d\<rparr>) d)
       }
     }"

text \<open>The parts of \<open>StartNewFrame\<close>: the check of the frame number, and the rest once it has passed.\<close>

definition check_frame_num :: "pic_sort \<Rightarrow> 'a h264_accelerator \<Rightarrow> int \<Rightarrow> 'a h264_decoder \<Rightarrow> (bool \<times> 'a h264_decoder) option" where
  "check_frame_num srt acc frame_num d =
     (if frame_num \<noteq> hd_prev_ref_frame_num d \<and> frame_num \<noteq> (hd_prev_ref_frame_num d + 1) mod hd_max_frame_num d
      then HandleFrameNumGap srt acc frame_num d else Some (True, d))"

definition submit_frame ::
  "pic_sort \<Rightarrow> 'a h264_accelerator \<Rightarrow> h264_sps \<Rightarrow> h264_pps \<Rightarrow> h264_slice_header \<Rightarrow> nat \<Rightarrow> 'a h264_decoder \<Rightarrow> (acc_status \<times> 'a h264_decoder) option" where
  "submit_frame srt acc sps pps sh a d =
     do {
       (ok, d) \<leftarrow> InitCurrPicture sh a d;
       if \<not> ok then Some (kStatusFail, d)
       else do {
         d \<leftarrow> UpdatePicNums (sh_frame_num sh) d;
         d \<leftarrow> PrepareRefPicLists srt d;
         let (result, s) = acc_SubmitFrameMetadata acc sps pps (hd_dpb d) (hd_ref_pic_list_p0 d)
           (hd_ref_pic_list_b0 d) (hd_ref_pic_list_b1 d) a (hd_store d) (hd_accelerator d);
         Some (result, d\<lparr>hd_accelerator := s\<rparr>)
       }
     }"

definition StartNewFrame :: "pic_sort \<Rightarrow> 'a h264_accelerator \<Rightarrow> h264_slice_header \<Rightarrow> 'a h264_decoder \<Rightarrow> (acc_status \<times> 'a h264_decoder) option" where
  "StartNewFrame srt acc sh d =
     (case hd_curr_pic d of
        None \<Rightarrow> None
      | Some a \<Rightarrow>
          let d = d\<lparr>hd_curr_pps_id := sh_pic_parameter_set_id sh\<rparr> in
          case GetPPS (hd_curr_pps_id d) (hd_parser d) of
            None \<Rightarrow> Some (kStatusFail, d)
          | Some pps \<Rightarrow>
              let d = d\<lparr>hd_curr_sps_id := pps_seq_parameter_set_id pps\<rparr> in
              case GetSPS (hd_curr_sps_id d) (hd_parser d) of
                None \<Rightarrow> Some (kStatusFail, d)
              | Some sps \<Rightarrow> do {
                  m \<leftarrow> shl4 (sps_log2_max_frame_num_minus4 sps);
                  let d = d\<lparr>hd_max_frame_num := m\<rparr>;
                  let d = (if sh_idr_pic_flag sh then d\<lparr>hd_prev_ref_frame_num := 0\<rparr> else d);
                  (ok, d) \<leftarrow> check_frame_num srt acc (sh_frame_num sh) d;
                  if \<not> ok then Some (kStatusFail, d) else submit_frame srt acc sps pps sh a d
                })"

definition IsNewPrimaryCodedPicture :: "h264_picture option \<Rightarrow> int \<Rightarrow> h264_sps option \<Rightarrow> h264_slice_header \<Rightarrow> bool" where
  "IsNewPrimaryCodedPicture curr_pic curr_pps_id sps sh =
     (case curr_pic of
        None \<Rightarrow> True
      | Some pic \<Rightarrow>
          if sh_frame_num sh \<noteq> pi_frame_num pic \<or> sh_pic_parameter_set_id sh \<noteq> curr_pps_id \<or>
             sh_nal_ref_idc sh \<noteq> pi_nal_ref_idc pic \<or> sh_idr_pic_flag sh \<noteq> pi_idr pic \<or>
             (sh_idr_pic_flag sh \<and> (sh_idr_pic_id sh \<noteq> pi_idr_pic_id pic \<or> sh_first_mb_in_slice sh = 0)) then True
          else case sps of
            None \<Rightarrow> False
          | Some sps \<Rightarrow>
              if sps_pic_order_cnt_type sps = pi_pic_order_cnt_type pic then
                if pi_pic_order_cnt_type pic = 0 then
                  sh_pic_order_cnt_lsb sh \<noteq> pi_pic_order_cnt_lsb pic \<or>
                  sh_delta_pic_order_cnt_bottom sh \<noteq> pi_delta_pic_order_cnt_bottom pic
                else if pi_pic_order_cnt_type pic = 1 then
                  sh_delta_pic_order_cnt0 sh \<noteq> pi_delta_pic_order_cnt0 pic \<or>
                  sh_delta_pic_order_cnt1 sh \<noteq> pi_delta_pic_order_cnt1 pic
                else False
              else False)"

definition PreprocessCurrentSlice :: "pic_sort \<Rightarrow> 'a h264_accelerator \<Rightarrow> h264_slice_header \<Rightarrow> 'a h264_decoder \<Rightarrow> (acc_status \<times> 'a h264_decoder) option" where
  "PreprocessCurrentSlice srt acc sh d =
     (if IsNewPrimaryCodedPicture (map_option (pic_of d) (hd_curr_pic d)) (hd_curr_pps_id d)
           (GetSPS (hd_curr_sps_id d) (hd_parser d)) sh
      then do {
        (result, d) \<leftarrow> FinishPrevFrameIfPresent srt acc d;
        if result \<noteq> kStatusOk then Some (result, d)
        else if hd_curr_pic d \<noteq> None then None
        else if sh_first_mb_in_slice sh \<noteq> 0 then Some (kStatusFail, d)
        else if sh_idr_pic_flag sh then do {
          d \<leftarrow> (if \<not> sh_no_output_of_prior_pics_flag sh then Flush srt acc d else Some d);
          Some (kStatusOk, d\<lparr>hd_dpb := DPB_Clear (hd_dpb d), hd_last_output_poc := - (2 ^ 31)\<rparr>)
        }
        else Some (kStatusOk, d)
      }
      else Some (kStatusOk, d))"

definition submit_slice :: "'a h264_accelerator \<Rightarrow> h264_slice_header \<Rightarrow> nat \<Rightarrow> 'a h264_decoder \<Rightarrow> (acc_status \<times> 'a h264_decoder) option" where
  "submit_slice acc sh a d =
     do {
       (ok, ref_pic_list0, ref_pic_list1) \<leftarrow> ModifyReferencePicLists sh d;
       if \<not> ok then Some (kStatusFail, d)
       else case GetPPS (hd_curr_pps_id d) (hd_parser d) of
         None \<Rightarrow> Some (kStatusFail, d)
       | Some pps \<Rightarrow> do {
           subsamples \<leftarrow> GetCurrentSubsamples (hd_parser d);
           let (result, s) = acc_SubmitSlice acc pps sh ref_pic_list0 ref_pic_list1 a (sh_nalu_data sh) (sh_nalu_size sh)
             subsamples (hd_store d) (hd_accelerator d);
           Some (result, d\<lparr>hd_accelerator := s\<rparr>)
         }
     }"

definition ProcessCurrentSlice :: "'a h264_accelerator \<Rightarrow> h264_slice_header \<Rightarrow> 'a h264_decoder \<Rightarrow> (acc_status \<times> 'a h264_decoder) option" where
  "ProcessCurrentSlice acc sh d =
     (case hd_curr_pic d of
        None \<Rightarrow> None
      | Some a \<Rightarrow> submit_slice acc sh a
          (d\<lparr>hd_max_pic_num := (if \<not> sh_field_pic_flag sh then hd_max_frame_num d else 2 * hd_max_frame_num d)\<rparr>))"

section \<open>What the operations on the buffer keep\<close>

lemma set_positions_fields [simp]:
  "pi_pic_order_cnt (set_positions i as h b) = pi_pic_order_cnt (h b)"
  "pi_outputted (set_positions i as h b) = pi_outputted (h b)"
  "pi_ref (set_positions i as h b) = pi_ref (h b)"
  "pi_long_term (set_positions i as h b) = pi_long_term (h b)"
  "pi_nonexisting (set_positions i as h b) = pi_nonexisting (h b)"
  "pi_frame_num (set_positions i as h b) = pi_frame_num (h b)"
  "pi_pic_num (set_positions i as h b) = pi_pic_num (h b)"
  "pi_long_term_pic_num (set_positions i as h b) = pi_long_term_pic_num (h b)"
  "pi_long_term_frame_idx (set_positions i as h b) = pi_long_term_frame_idx (h b)"
  "pi_frame_num_wrap (set_positions i as h b) = pi_frame_num_wrap (h b)"
  "pi_field (set_positions i as h b) = pi_field (h b)"
  "pi_mem_mgmt_5 (set_positions i as h b) = pi_mem_mgmt_5 (h b)"
  by (induction as arbitrary: i h) simp_all

lemma unmark_all_fields [simp]:
  "pi_pic_order_cnt (unmark_all as h b) = pi_pic_order_cnt (h b)"
  "pi_outputted (unmark_all as h b) = pi_outputted (h b)"
  "pi_long_term (unmark_all as h b) = pi_long_term (h b)"
  "pi_nonexisting (unmark_all as h b) = pi_nonexisting (h b)"
  "pi_frame_num (unmark_all as h b) = pi_frame_num (h b)"
  "pi_pic_num (unmark_all as h b) = pi_pic_num (h b)"
  "pi_long_term_pic_num (unmark_all as h b) = pi_long_term_pic_num (h b)"
  "pi_long_term_frame_idx (unmark_all as h b) = pi_long_term_frame_idx (h b)"
  "pi_frame_num_wrap (unmark_all as h b) = pi_frame_num_wrap (h b)"
  "pi_dpb_position (unmark_all as h b) = pi_dpb_position (h b)"
  "pi_field (unmark_all as h b) = pi_field (h b)"
  "pi_mem_mgmt_5 (unmark_all as h b) = pi_mem_mgmt_5 (h b)"
  by (induction as arbitrary: h) simp_all

lemma unmark_such_fields [simp]:
  "pi_pic_order_cnt (unmark_such P as h b) = pi_pic_order_cnt (h b)"
  "pi_outputted (unmark_such P as h b) = pi_outputted (h b)"
  "pi_long_term (unmark_such P as h b) = pi_long_term (h b)"
  "pi_nonexisting (unmark_such P as h b) = pi_nonexisting (h b)"
  "pi_frame_num (unmark_such P as h b) = pi_frame_num (h b)"
  "pi_pic_num (unmark_such P as h b) = pi_pic_num (h b)"
  "pi_long_term_pic_num (unmark_such P as h b) = pi_long_term_pic_num (h b)"
  "pi_long_term_frame_idx (unmark_such P as h b) = pi_long_term_frame_idx (h b)"
  "pi_frame_num_wrap (unmark_such P as h b) = pi_frame_num_wrap (h b)"
  "pi_dpb_position (unmark_such P as h b) = pi_dpb_position (h b)"
  "pi_field (unmark_such P as h b) = pi_field (h b)"
  "pi_mem_mgmt_5 (unmark_such P as h b) = pi_mem_mgmt_5 (h b)"
  by (induction as arbitrary: h) simp_all

lemma set_positions_nth:
  "distinct as \<Longrightarrow> j < length as \<Longrightarrow> pi_dpb_position (set_positions i as h (as ! j)) = i + j"
proof (induction as arbitrary: i j h)
  case (Cons a as)
  have other: "b \<notin> set as \<Longrightarrow> set_positions k as h b = h b" for b k h
    by (induction as arbitrary: k h) simp_all
  show ?case using Cons other by (cases j) auto
qed simp

lemma set_positions_other: "b \<notin> set as \<Longrightarrow> set_positions k as h b = h b"
  by (induction as arbitrary: k h) simp_all

lemma unmark_all_ref: "pi_ref (unmark_all as h b) \<longleftrightarrow> pi_ref (h b) \<and> b \<notin> set as"
  by (induction as arbitrary: h) auto

lemma erase_unused_eq: "erase_unused h as = filter (\<lambda>a. \<not> (pi_outputted (h a) \<and> \<not> pi_ref (h a))) as"
  by (induction as) simp_all

lemma erase_first_eq:
  "distinct as \<Longrightarrow> c \<in> set as \<Longrightarrow> (\<And>a. a \<in> set as \<Longrightarrow> P a \<longleftrightarrow> a = c) \<Longrightarrow> erase_first P as = Some (filter (\<lambda>a. a \<noteq> c) as)"
proof (induction as)
  case (Cons a as)
  show ?case
  proof (cases "a = c")
    case True
    then have "filter (\<lambda>a. a \<noteq> c) as = as" using Cons.prems(1) by (auto intro: filter_True)
    then show ?thesis using True Cons.prems(3) by simp
  qed (use Cons in auto)
qed simp

lemma erase_first_Some:
  "erase_first P as = Some bs \<Longrightarrow> distinct as \<Longrightarrow> distinct bs \<and> set bs \<subseteq> set as \<and> length as = Suc (length bs)"
  by (induction as arbitrary: bs) (auto split: if_splits)

text \<open>The parts of a decoder that finishing a picture does not change.\<close>

definition keeps :: "'a h264_decoder \<Rightarrow> 'a h264_decoder \<Rightarrow> bool" where
  "keeps d d' \<longleftrightarrow> hd_parser d' = hd_parser d \<and> hd_curr_pic d' = hd_curr_pic d \<and> hd_next d' = hd_next d \<and>
     hd_curr_sps_id d' = hd_curr_sps_id d \<and> hd_max_frame_num d' = hd_max_frame_num d \<and>
     hd_max_num_reorder_frames d' = hd_max_num_reorder_frames d \<and> hd_curr_nalu d' = hd_curr_nalu d \<and>
     hd_curr_slice_hdr d' = hd_curr_slice_hdr d \<and>
     dpb_max_num_pics (hd_dpb d') = dpb_max_num_pics (hd_dpb d)"

lemma keeps_refl [simp]: "keeps d d"
  by (simp add: keeps_def)

lemma keeps_trans: "keeps d d' \<Longrightarrow> keeps d' d'' \<Longrightarrow> keeps d d''"
  by (simp add: keeps_def)

text \<open>The marking of references changes no picture in what its output depends on.\<close>

definition marks :: "'a h264_decoder \<Rightarrow> 'a h264_decoder \<Rightarrow> bool" where
  "marks d d' \<longleftrightarrow> keeps d d' \<and> hd_dpb d' = hd_dpb d \<and> hd_accelerator d' = hd_accelerator d \<and>
     (\<forall>b. pi_pic_order_cnt (pic_of d' b) = pi_pic_order_cnt (pic_of d b) \<and>
          pi_outputted (pic_of d' b) = pi_outputted (pic_of d b) \<and>
          pi_nonexisting (pic_of d' b) = pi_nonexisting (pic_of d b) \<and>
          pi_dpb_position (pic_of d' b) = pi_dpb_position (pic_of d b))"

lemma marks_refl [simp]: "marks d d"
  by (simp add: marks_def)

lemma marks_trans: "marks d d' \<Longrightarrow> marks d' d'' \<Longrightarrow> marks d d''"
  by (auto simp: marks_def intro: keeps_trans)

lemma memory_management_op_marks: "memory_management_op a m d = Some (ok, d') \<Longrightarrow> marks d d'"
  by (auto simp: memory_management_op_def Let_def marks_def keeps_def bind_eq_Some_conv MarkAllUnusedForRef_def
      split: if_splits option.splits)

lemma memory_management_loop_marks: "memory_management_loop a ms d = Some (ok, d') \<Longrightarrow> marks d d'"
  by (induction ms arbitrary: d)
    (auto simp: bind_eq_Some_conv split: if_splits dest: memory_management_op_marks intro: marks_trans)

lemma SlidingWindow_marks: "SlidingWindowPictureMarking d = Some (ok, d') \<Longrightarrow> marks d d'"
  by (auto simp: SlidingWindowPictureMarking_def Let_def marks_def keeps_def split: if_splits option.splits)

lemma ReferencePictureMarking_marks: "ReferencePictureMarking a d = Some (ok, d') \<Longrightarrow> marks d d'"
  unfolding ReferencePictureMarking_def Let_def HandleMemoryManagementOps_def
  by (auto simp: marks_def keeps_def MarkAllUnusedForRef_def split: if_splits
      dest!: memory_management_loop_marks SlidingWindow_marks)

lemma store_previous_fields [simp]:
  "hd_store (store_previous a d) = hd_store d" "hd_dpb (store_previous a d) = hd_dpb d"
  "hd_accelerator (store_previous a d) = hd_accelerator d" "keeps d (store_previous a d)"
  by (simp_all add: store_previous_def Let_def keeps_def)

section \<open>Output\<close>

text \<open>An accelerator whose state records the pictures passed to it for output.\<close>

definition logs :: "'a h264_accelerator \<Rightarrow> ('a \<Rightarrow> nat list) \<Rightarrow> bool" where
  "logs acc log \<longleftrightarrow> (\<forall>a h s. log (acc_OutputPicture acc a h s) = log s @ [a])"

text \<open>The pictures of a list have been output, and nothing else has happened to the pictures.\<close>

definition outs :: "('a \<Rightarrow> nat list) \<Rightarrow> nat list \<Rightarrow> 'a h264_decoder \<Rightarrow> 'a h264_decoder \<Rightarrow> bool" where
  "outs log cs d d' \<longleftrightarrow> keeps d d' \<and>
     log (hd_accelerator d') = log (hd_accelerator d) @ filter (\<lambda>c. \<not> pi_nonexisting (pic_of d c)) cs \<and>
     (\<forall>b. pi_pic_order_cnt (pic_of d' b) = pi_pic_order_cnt (pic_of d b) \<and> pi_ref (pic_of d' b) = pi_ref (pic_of d b) \<and>
          pi_nonexisting (pic_of d' b) = pi_nonexisting (pic_of d b) \<and>
          (pi_outputted (pic_of d' b) \<longleftrightarrow> pi_outputted (pic_of d b) \<or> b \<in> set cs))"

lemma outs_Nil [simp]: "outs log [] d d"
  by (simp add: outs_def)

lemma outs_append: "outs log cs d d' \<Longrightarrow> outs log cs' d' d'' \<Longrightarrow> outs log (cs @ cs') d d''"
  by (auto simp: outs_def intro: keeps_trans)

definition positions_ok :: "'a h264_decoder \<Rightarrow> bool" where
  "positions_ok d \<longleftrightarrow> (\<forall>j<length (dpb_pics (hd_dpb d)). pi_dpb_position (pic_of d (dpb_pics (hd_dpb d) ! j)) = j)"

definition waiting :: "'a h264_decoder \<Rightarrow> nat list" where
  "waiting d = filter (\<lambda>b. \<not> pi_outputted (pic_of d b)) (dpb_pics (hd_dpb d))"

lemma not_outputted_waiting [simp]: "GetNotOutputtedPicsAppending (hd_dpb d) (hd_store d) out = out @ waiting d"
  by (simp add: GetNotOutputtedPicsAppending_def append_such_eq waiting_def)

lemma OutputPic_outs:
  assumes "logs acc log" "\<not> pi_outputted (pic_of d c)"
  shows "\<exists>d'. OutputPic acc c d = Some d' \<and> outs log [c] d d' \<and> hd_dpb d' = hd_dpb d \<and> (positions_ok d' \<longleftrightarrow> positions_ok d)"
  using assms
  by (cases "pi_nonexisting (pic_of d c)") (auto simp: OutputPic_def Let_def outs_def logs_def keeps_def positions_ok_def)

lemma delete_by_poc_removes:
  assumes "distinct (dpb_pics (hd_dpb d))" "c \<in> set (dpb_pics (hd_dpb d))"
    and "\<And>p. p \<in> set (dpb_pics (hd_dpb d)) \<Longrightarrow> pi_pic_order_cnt (pic_of d p) = pi_pic_order_cnt (pic_of d c) \<Longrightarrow> p = c"
  obtains d' where "delete_by_poc (pi_pic_order_cnt (pic_of d c)) d = Some d'" "outs log [] d d'"
    "dpb_pics (hd_dpb d') = filter (\<lambda>p. p \<noteq> c) (dpb_pics (hd_dpb d))" "positions_ok d'"
proof -
  have "erase_first (\<lambda>a. pi_pic_order_cnt (pic_of d a) = pi_pic_order_cnt (pic_of d c)) (dpb_pics (hd_dpb d)) =
      Some (filter (\<lambda>p. p \<noteq> c) (dpb_pics (hd_dpb d)))"
    by (rule erase_first_eq) (use assms in auto)
  then show ?thesis
    using assms(1)
    by (auto simp: delete_by_poc_def DeleteByPOC_def Let_def UpdatePicPositions_def outs_def keeps_def positions_ok_def set_positions_nth
        intro!: that)
qed

text \<open>
  The loop outputs the first pictures of its list, removes those of them that are no references from
  the buffer, and stops when few enough are left and there is room for the current picture.
\<close>

lemma output_loop_outputs:
  assumes "logs acc log" "distinct cs" "\<forall>c\<in>set cs. \<not> pi_outputted (pic_of d c)" "set cs \<subseteq> insert a (set (dpb_pics (hd_dpb d)))"
    and "distinct (dpb_pics (hd_dpb d))" "a \<notin> set (dpb_pics (hd_dpb d))" "positions_ok d"
    and "\<forall>c\<in>set cs. \<not> pi_ref (pic_of d c) \<longrightarrow>
      (\<forall>p\<in>insert a (set (dpb_pics (hd_dpb d))). pi_pic_order_cnt (pic_of d p) = pi_pic_order_cnt (pic_of d c) \<longrightarrow> p = c)"
  shows "\<exists>d' k. output_loop acc a cs d = Some d' \<and> k \<le> length cs \<and> outs log (take k cs) d d' \<and> positions_ok d' \<and>
    dpb_pics (hd_dpb d') = filter (\<lambda>p. p \<notin> set (take k cs) \<or> pi_ref (pic_of d p)) (dpb_pics (hd_dpb d)) \<and>
    (k = length cs \<or> length cs - k \<le> hd_max_num_reorder_frames d \<and>
       \<not> (IsFull (hd_dpb d') \<and> (\<not> pi_outputted (pic_of d' a) \<or> pi_ref (pic_of d' a)))) \<and>
    (length (dpb_pics (hd_dpb d)) < dpb_max_num_pics (hd_dpb d) \<longrightarrow> k = length cs - hd_max_num_reorder_frames d)"
  using assms(2-)
proof (induction cs arbitrary: d)
  case Nil
  then show ?case by (intro exI [of _ d] exI [of _ 0]) (auto simp: filter_id_conv)
next
  case (Cons c cs)
  let ?go = "length (c # cs) > hd_max_num_reorder_frames d \<or>
    (IsFull (hd_dpb d) \<and> (\<not> pi_outputted (pic_of d a) \<or> pi_ref (pic_of d a)))"
  show ?case
  proof (cases ?go)
    case False
    then show ?thesis by (intro exI [of _ d] exI [of _ 0]) (auto simp: filter_id_conv Cons.prems(6))
  next
    case True
    obtain d1 where d1: "OutputPic acc c d = Some d1" "outs log [c] d d1" "hd_dpb d1 = hd_dpb d" "positions_ok d1"
      using OutputPic_outs [OF assms(1), of d c] Cons.prems(2,6) by (metis list.set_intros(1))
    have same: "pi_ref (pic_of d1 b) = pi_ref (pic_of d b)" "pi_pic_order_cnt (pic_of d1 b) = pi_pic_order_cnt (pic_of d b)" for b
      using d1(2) by (simp_all add: outs_def)
    obtain d2 where d2: "(if \<not> pi_ref (pic_of d1 c) \<and> pi_pic_order_cnt (pic_of d1 c) \<noteq> pi_pic_order_cnt (pic_of d1 a)
        then delete_by_poc (pi_pic_order_cnt (pic_of d1 c)) d1 else Some d1) = Some d2"
      "outs log [] d1 d2" "positions_ok d2"
      "dpb_pics (hd_dpb d2) = filter (\<lambda>p. p \<noteq> c \<or> pi_ref (pic_of d p)) (dpb_pics (hd_dpb d))"
    proof (cases "\<not> pi_ref (pic_of d1 c) \<and> pi_pic_order_cnt (pic_of d1 c) \<noteq> pi_pic_order_cnt (pic_of d1 a)")
      case del: True
      then have "c \<in> set (dpb_pics (hd_dpb d))" using Cons.prems(3) by auto
      then obtain d2 where "delete_by_poc (pi_pic_order_cnt (pic_of d1 c)) d1 = Some d2" "outs log [] d1 d2"
        "dpb_pics (hd_dpb d2) = filter (\<lambda>p. p \<noteq> c) (dpb_pics (hd_dpb d1))" "positions_ok d2"
        using delete_by_poc_removes [of d1 c log] Cons.prems(4,7) d1(3) del same by auto
      then show ?thesis using that [of d2] del d1(3) same by (auto intro: filter_cong)
    next
      case keep: False
      then have "c = a \<or> pi_ref (pic_of d c)" using Cons.prems(7) same by auto
      then have "filter (\<lambda>p. p \<noteq> c \<or> pi_ref (pic_of d p)) (dpb_pics (hd_dpb d)) = dpb_pics (hd_dpb d)"
        using Cons.prems(5) by (auto simp: filter_id_conv)
      then show ?thesis using that [of d1] keep d1 by simp
    qed
    have o2: "outs log [c] d d2" using outs_append [OF d1(2) d2(2)] by simp
    then have st: "pi_outputted (pic_of d2 b) \<longleftrightarrow> pi_outputted (pic_of d b) \<or> b = c" "pi_ref (pic_of d2 b) = pi_ref (pic_of d b)"
      "pi_pic_order_cnt (pic_of d2 b) = pi_pic_order_cnt (pic_of d b)" "hd_max_num_reorder_frames d2 = hd_max_num_reorder_frames d"
      "dpb_max_num_pics (hd_dpb d2) = dpb_max_num_pics (hd_dpb d)" for b
      by (simp_all add: outs_def keeps_def)
    have sub: "set cs \<subseteq> insert a (set (dpb_pics (hd_dpb d2)))"
      using Cons.prems(1,3) d2(4) by auto
    have dist: "distinct cs" "c \<notin> set cs" using Cons.prems(1) by auto
    have rest: "\<forall>b\<in>set cs. \<not> pi_outputted (pic_of d2 b)" using Cons.prems(2) dist(2) st(1) by auto
    have keep: "distinct (dpb_pics (hd_dpb d2))" "a \<notin> set (dpb_pics (hd_dpb d2))"
      "set (dpb_pics (hd_dpb d2)) \<subseteq> set (dpb_pics (hd_dpb d))" using Cons.prems(4,5) unfolding d2(4) by auto
    have uniq: "\<forall>c\<in>set cs. \<not> pi_ref (pic_of d2 c) \<longrightarrow>
      (\<forall>p\<in>insert a (set (dpb_pics (hd_dpb d2))). pi_pic_order_cnt (pic_of d2 p) = pi_pic_order_cnt (pic_of d2 c) \<longrightarrow> p = c)"
      unfolding st(2,3) using Cons.prems(7) keep(3) by (meson insert_mono list.set_intros(2) subsetD)
    note prems = dist(1) rest sub keep(1,2) d2(3) uniq
    obtain d' k where ih: "output_loop acc a cs d2 = Some d'" "k \<le> length cs" "outs log (take k cs) d2 d'" "positions_ok d'"
      "dpb_pics (hd_dpb d') = filter (\<lambda>p. p \<notin> set (take k cs) \<or> pi_ref (pic_of d2 p)) (dpb_pics (hd_dpb d2))"
      "k = length cs \<or> length cs - k \<le> hd_max_num_reorder_frames d2 \<and>
       \<not> (IsFull (hd_dpb d') \<and> (\<not> pi_outputted (pic_of d' a) \<or> pi_ref (pic_of d' a)))"
      "length (dpb_pics (hd_dpb d2)) < dpb_max_num_pics (hd_dpb d2) \<longrightarrow> k = length cs - hd_max_num_reorder_frames d2"
      using Cons.IH [OF prems] by blast
    have loop: "output_loop acc a (c # cs) d = Some d'" using True d1(1) d2(1) ih(1) by simp
    have pics: "dpb_pics (hd_dpb d') = filter (\<lambda>p. p \<notin> set (take (Suc k) (c # cs)) \<or> pi_ref (pic_of d p)) (dpb_pics (hd_dpb d))"
      unfolding ih(5) d2(4) st(2) filter_filter by (rule filter_cong) auto
    have out: "outs log (take (Suc k) (c # cs)) d d'" using outs_append [OF o2 ih(3)] by simp
    have stop: "Suc k = length (c # cs) \<or> length (c # cs) - Suc k \<le> hd_max_num_reorder_frames d \<and>
       \<not> (IsFull (hd_dpb d') \<and> (\<not> pi_outputted (pic_of d' a) \<or> pi_ref (pic_of d' a)))" using ih(6) st(4) by simp
    have "length (dpb_pics (hd_dpb d2)) \<le> length (dpb_pics (hd_dpb d))" unfolding d2(4) by simp
    moreover have "length (dpb_pics (hd_dpb d)) < dpb_max_num_pics (hd_dpb d) \<Longrightarrow> hd_max_num_reorder_frames d \<le> length cs"
      using True by (auto simp: IsFull_def)
    ultimately have exact: "length (dpb_pics (hd_dpb d)) < dpb_max_num_pics (hd_dpb d) \<longrightarrow>
        Suc k = length (c # cs) - hd_max_num_reorder_frames d"
      using ih(7) st(4,5) by (simp add: Suc_diff_le)
    show ?thesis using ih(2,4) loop pics out stop exact by (intro exI [of _ d'] exI [of _ "Suc k"] conjI) simp_all
  qed
qed

definition dpb_ready :: "nat \<Rightarrow> 'a h264_decoder \<Rightarrow> bool" where
  "dpb_ready a d \<longleftrightarrow> distinct (dpb_pics (hd_dpb d)) \<and> length (dpb_pics (hd_dpb d)) \<le> dpb_max_num_pics (hd_dpb d) \<and>
     a \<notin> set (dpb_pics (hd_dpb d)) \<and> \<not> pi_outputted (pic_of d a)"

text \<open>No other picture has the order count of a picture that waits and is no reference.\<close>

definition order_unique :: "nat \<Rightarrow> 'a h264_decoder \<Rightarrow> bool" where
  "order_unique a d \<longleftrightarrow> (\<forall>c\<in>insert a (set (waiting d)). \<not> pi_ref (pic_of d c) \<longrightarrow>
     (\<forall>p\<in>insert a (set (dpb_pics (hd_dpb d))). pi_pic_order_cnt (pic_of d p) = pi_pic_order_cnt (pic_of d c) \<longrightarrow> p = c))"

lemma delete_unused_eq:
  "dpb_pics (hd_dpb (delete_unused d)) = filter (\<lambda>a. \<not> (pi_outputted (pic_of d a) \<and> \<not> pi_ref (pic_of d a))) (dpb_pics (hd_dpb d))"
  "keeps d (delete_unused d)" "hd_accelerator (delete_unused d) = hd_accelerator d"
  "pi_pic_order_cnt (pic_of (delete_unused d) b) = pi_pic_order_cnt (pic_of d b)"
  "pi_outputted (pic_of (delete_unused d) b) = pi_outputted (pic_of d b)" "pi_ref (pic_of (delete_unused d) b) = pi_ref (pic_of d b)"
  "pi_nonexisting (pic_of (delete_unused d) b) = pi_nonexisting (pic_of d b)"
  by (simp_all add: delete_unused_def DeleteUnused_def Let_def UpdatePicPositions_def keeps_def erase_unused_eq)

lemma delete_unused_positions: "distinct (dpb_pics (hd_dpb d)) \<Longrightarrow> positions_ok (delete_unused d)"
  by (simp add: positions_ok_def delete_unused_def DeleteUnused_def Let_def UpdatePicPositions_def erase_unused_eq set_positions_nth)

lemma store_pic_eq:
  assumes "length (dpb_pics (hd_dpb d)) < dpb_max_num_pics (hd_dpb d)" "a \<notin> set (dpb_pics (hd_dpb d))" "positions_ok d"
  shows "\<exists>d'. store_pic a d = Some d' \<and> dpb_pics (hd_dpb d') = dpb_pics (hd_dpb d) @ [a] \<and> outs log [] d d' \<and> positions_ok d'"
proof -
  have "\<forall>j<length (dpb_pics (hd_dpb d)). dpb_pics (hd_dpb d) ! j \<noteq> a" using assms(2) by (metis nth_mem)
  then show ?thesis
    using assms by (auto simp: store_pic_def StorePic_def outs_def keeps_def positions_ok_def nth_append less_Suc_eq)
qed

text \<open>The decoder when the loop starts.\<close>

lemma ready_for_output:
  assumes "marks d d1" "dpb_ready a d"
  defines "d2 \<equiv> delete_unused (store_previous a d1)"
  shows "distinct (dpb_pics (hd_dpb d2))" "length (dpb_pics (hd_dpb d2)) \<le> dpb_max_num_pics (hd_dpb d)"
    "set (dpb_pics (hd_dpb d2)) \<subseteq> set (dpb_pics (hd_dpb d))" "waiting d2 = waiting d" "positions_ok d2" "keeps d d2"
    "hd_accelerator d2 = hd_accelerator d" "\<And>b. pi_outputted (pic_of d2 b) = pi_outputted (pic_of d b)"
    "\<And>b. pi_pic_order_cnt (pic_of d2 b) = pi_pic_order_cnt (pic_of d b)" "\<And>b. pi_nonexisting (pic_of d2 b) = pi_nonexisting (pic_of d b)"
    "\<And>b. pi_ref (pic_of d2 b) = pi_ref (pic_of d1 b)"
    "\<And>b. b \<in> set (dpb_pics (hd_dpb d2)) \<Longrightarrow> \<not> pi_outputted (pic_of d b) \<or> pi_ref (pic_of d1 b)"
proof -
  have m: "keeps d d1" "hd_dpb d1 = hd_dpb d" "hd_accelerator d1 = hd_accelerator d"
    "\<And>b. pi_pic_order_cnt (pic_of d1 b) = pi_pic_order_cnt (pic_of d b)" "\<And>b. pi_outputted (pic_of d1 b) = pi_outputted (pic_of d b)"
    "\<And>b. pi_nonexisting (pic_of d1 b) = pi_nonexisting (pic_of d b)"
    using assms(1) by (simp_all add: marks_def)
  have pics: "dpb_pics (hd_dpb d2) = filter (\<lambda>b. \<not> (pi_outputted (pic_of d b) \<and> \<not> pi_ref (pic_of d1 b))) (dpb_pics (hd_dpb d))"
    unfolding d2_def delete_unused_eq(1) by (simp add: m)
  show "distinct (dpb_pics (hd_dpb d2))" "set (dpb_pics (hd_dpb d2)) \<subseteq> set (dpb_pics (hd_dpb d))"
    using assms(2) unfolding pics dpb_ready_def by auto
  show "length (dpb_pics (hd_dpb d2)) \<le> dpb_max_num_pics (hd_dpb d)"
    using assms(2) length_filter_le [of _ "dpb_pics (hd_dpb d)"] unfolding pics dpb_ready_def by (meson order_trans)
  show "waiting d2 = waiting d"
    unfolding waiting_def pics filter_filter unfolding d2_def by (rule filter_cong) (auto simp: delete_unused_eq m)
  show "positions_ok d2" unfolding d2_def using assms(2) by (intro delete_unused_positions) (simp add: dpb_ready_def m)
  show "keeps d d2" unfolding d2_def using m(1) delete_unused_eq(2) store_previous_fields(4) by (blast intro: keeps_trans)
  show "b \<in> set (dpb_pics (hd_dpb d2)) \<Longrightarrow> \<not> pi_outputted (pic_of d b) \<or> pi_ref (pic_of d1 b)" for b unfolding pics by auto
qed (simp_all add: d2_def delete_unused_eq assms(1) [unfolded marks_def])

lemma waiting_after_output:
  assumes "outs log (take k cs) d d'" "distinct cs" "set cs = insert a (set (waiting d))"
    and "dpb_pics (hd_dpb d') = filter (\<lambda>p. p \<notin> set (take k cs) \<or> pi_ref (pic_of d p)) (dpb_pics (hd_dpb d))"
    and "a \<notin> set (dpb_pics (hd_dpb d))" "\<not> pi_outputted (pic_of d a)"
  shows "set (waiting d') = set (drop k cs) - {a}" "pi_outputted (pic_of d' a) \<longleftrightarrow> a \<notin> set (drop k cs)"
proof -
  have split: "set (take k cs) \<inter> set (drop k cs) = {}" "set cs = set (take k cs) \<union> set (drop k cs)"
    using assms(2) by (metis append_take_drop_id distinct_append, metis append_take_drop_id set_append)
  have out: "pi_outputted (pic_of d' b) \<longleftrightarrow> pi_outputted (pic_of d b) \<or> b \<in> set (take k cs)" for b
    using assms(1) by (simp add: outs_def)
  have w: "set (waiting d) = {b \<in> set (dpb_pics (hd_dpb d)). \<not> pi_outputted (pic_of d b)}" by (auto simp: waiting_def)
  show "set (waiting d') = set (drop k cs) - {a}"
    using split assms(3-5) w unfolding waiting_def assms(4) out by auto
  show "pi_outputted (pic_of d' a) \<longleftrightarrow> a \<notin> set (drop k cs)"
    using split assms(3,6) out by auto
qed

text \<open>
  What finishing the picture \<open>a\<close> does to the decoder \<open>d\<close>, \<open>d1\<close> after the marking of references:
  \<open>S\<close> are the pictures that waited and \<open>a\<close> in the order of their counts, of which the first \<open>k\<close>
  are output. The buffer then holds, in the old order with \<open>a\<close> at the end, the pictures that still
  wait and the references; without room for \<open>a\<close>, which then is a reference itself, it is full of
  references.
\<close>

definition kept :: "'a h264_decoder \<Rightarrow> nat list \<Rightarrow> nat \<Rightarrow> nat list \<Rightarrow> nat list" where
  "kept d1 S k = filter (\<lambda>p. p \<in> set (drop k S) \<or> pi_ref (pic_of d1 p))"

definition finish_result :: "('a \<Rightarrow> nat list) \<Rightarrow> nat \<Rightarrow> 'a h264_decoder \<Rightarrow> 'a h264_decoder \<Rightarrow> nat list \<Rightarrow> nat \<Rightarrow> bool \<Rightarrow>
    'a h264_decoder \<Rightarrow> bool" where
  "finish_result log a d d1 S k ok d' \<longleftrightarrow>
     mset S = mset (waiting d @ [a]) \<and> sorted (map (\<lambda>b. pi_pic_order_cnt (pic_of d b)) S) \<and> k \<le> length S \<and>
     (length (filter (\<lambda>p. \<not> pi_outputted (pic_of d p) \<or> pi_ref (pic_of d1 p)) (dpb_pics (hd_dpb d))) < dpb_max_num_pics (hd_dpb d) \<longrightarrow>
        k = length S - hd_max_num_reorder_frames d) \<and>
     (\<forall>b. pi_outputted (pic_of d' b) \<longleftrightarrow> pi_outputted (pic_of d b) \<or> b \<in> set (take k S)) \<and>
     (\<forall>b. pi_ref (pic_of d' b) \<longleftrightarrow> pi_ref (pic_of d1 b)) \<and>
     dpb_pics (hd_dpb d') = kept d1 S k (if ok then dpb_pics (hd_dpb d) @ [a] else dpb_pics (hd_dpb d)) \<and>
     (\<not> ok \<longrightarrow> k = length S \<and> pi_ref (pic_of d1 a)) \<and>
     log (hd_accelerator d') = log (hd_accelerator d) @ filter (\<lambda>b. \<not> pi_nonexisting (pic_of d b)) (take k S) \<and>
     distinct (dpb_pics (hd_dpb d')) \<and> length (dpb_pics (hd_dpb d')) \<le> dpb_max_num_pics (hd_dpb d') \<and> positions_ok d' \<and>
     (if ok then mset (waiting d') = mset (drop k S) \<and> length (waiting d') \<le> hd_max_num_reorder_frames d
      else IsFull (hd_dpb d') \<and> (\<forall>p\<in>set (dpb_pics (hd_dpb d')). pi_ref (pic_of d' p)))"

lemma pics_after_output:
  assumes ready: "dpb_ready a d" and d2: "marks d d1" "d2 = delete_unused (store_previous a d1)"
    and cs: "distinct cs" "set cs = insert a (set (waiting d))"
    and out: "outs log (take k cs) d2 d3"
      "dpb_pics (hd_dpb d3) = filter (\<lambda>p. p \<notin> set (take k cs) \<or> pi_ref (pic_of d2 p)) (dpb_pics (hd_dpb d2))"
  shows "dpb_pics (hd_dpb d3) = kept d1 cs k (dpb_pics (hd_dpb d))"
    "dpb_pics (hd_dpb d2) = filter (\<lambda>p. \<not> pi_outputted (pic_of d p) \<or> pi_ref (pic_of d1 p)) (dpb_pics (hd_dpb d))"
    "pi_outputted (pic_of d3 b) \<longleftrightarrow> pi_outputted (pic_of d b) \<or> b \<in> set (take k cs)" "pi_ref (pic_of d3 b) \<longleftrightarrow> pi_ref (pic_of d1 b)"
    "kept d1 cs k [a] = (if \<not> pi_outputted (pic_of d3 a) \<or> pi_ref (pic_of d3 a) then [a] else [])"
proof -
  note r = ready_for_output [OF d2(1) ready, folded d2(2)]
  have pics: "dpb_pics (hd_dpb d2) = filter (\<lambda>p. \<not> pi_outputted (pic_of d p) \<or> pi_ref (pic_of d1 p)) (dpb_pics (hd_dpb d))"
    unfolding d2(2) delete_unused_eq(1) using d2(1) by (simp add: marks_def)
  then show "dpb_pics (hd_dpb d2) = filter (\<lambda>p. \<not> pi_outputted (pic_of d p) \<or> pi_ref (pic_of d1 p)) (dpb_pics (hd_dpb d))" .
  have split: "set (take k cs) \<inter> set (drop k cs) = {}" "set cs = set (take k cs) \<union> set (drop k cs)"
    using cs(1) by (metis append_take_drop_id distinct_append, metis append_take_drop_id set_append)
  have a: "a \<notin> set (dpb_pics (hd_dpb d))" "\<not> pi_outputted (pic_of d a)" using ready by (simp_all add: dpb_ready_def)
  have "p \<in> set (drop k cs) \<longleftrightarrow> \<not> pi_outputted (pic_of d p) \<and> p \<notin> set (take k cs)" if "p \<in> set (dpb_pics (hd_dpb d))" for p
    using that split cs(2) a(1) by (auto simp: waiting_def)
  then show "dpb_pics (hd_dpb d3) = kept d1 cs k (dpb_pics (hd_dpb d))"
    unfolding out(2) pics kept_def filter_filter r(11) by (intro filter_cong refl) auto
  show st: "pi_outputted (pic_of d3 b) \<longleftrightarrow> pi_outputted (pic_of d b) \<or> b \<in> set (take k cs)"
    "pi_ref (pic_of d3 b) \<longleftrightarrow> pi_ref (pic_of d1 b)" for b
    using out(1) r(8,11) by (simp_all add: outs_def)
  show "kept d1 cs k [a] = (if \<not> pi_outputted (pic_of d3 a) \<or> pi_ref (pic_of d3 a) then [a] else [])"
    using split cs(2) a(2) st [of a] by (auto simp: kept_def)
qed

lemma finish_end:
  assumes ready: "dpb_ready a d" and d2: "marks d d1" "d2 = delete_unused (store_previous a d1)" and srt: "sorts srt"
    and cs: "cs = srt (POCAsc (hd_store d2)) (waiting d2 @ [a])"
    and loop: "output_loop acc a cs d2 = Some d3" "k \<le> length cs" "outs log (take k cs) d2 d3" "positions_ok d3"
      "dpb_pics (hd_dpb d3) = filter (\<lambda>p. p \<notin> set (take k cs) \<or> pi_ref (pic_of d2 p)) (dpb_pics (hd_dpb d2))"
      "k = length cs \<or> length cs - k \<le> hd_max_num_reorder_frames d2 \<and>
       \<not> (IsFull (hd_dpb d3) \<and> (\<not> pi_outputted (pic_of d3 a) \<or> pi_ref (pic_of d3 a)))"
      "length (dpb_pics (hd_dpb d2)) < dpb_max_num_pics (hd_dpb d2) \<longrightarrow> k = length cs - hd_max_num_reorder_frames d2"
  shows "\<exists>ok d'. (if \<not> pi_outputted (pic_of d3 a) \<or> pi_ref (pic_of d3 a) then
      if IsFull (hd_dpb d3) then Some (False, d3) else map_option (Pair True) (store_pic a d3)
      else Some (True, d3)) = Some (ok, d') \<and> finish_result log a d d1 cs k ok d'"
proof -
  note r = ready_for_output [OF d2(1) ready, folded d2(2)]
  have dr: "a \<notin> set (dpb_pics (hd_dpb d))" "\<not> pi_outputted (pic_of d a)" "distinct (dpb_pics (hd_dpb d))"
    using ready by (simp_all add: dpb_ready_def)
  have a: "a \<notin> set (dpb_pics (hd_dpb d2))" "\<not> pi_outputted (pic_of d2 a)" using dr r(3,8) by auto
  have ms: "mset cs = mset (waiting d @ [a])" unfolding cs by (simp add: sorts_mset [OF srt] r(4))
  have set_cs: "set cs = insert a (set (waiting d2))" using ms r(4) by (metis set_mset_mset set_append Un_insert_right list.simps(15) list.set(1) sup_bot_right)
  have "distinct (waiting d @ [a])" using dr by (auto simp: waiting_def)
  then have dist: "distinct cs" using ms by (metis mset_eq_imp_distinct_iff)
  have sorted: "sorted (map (\<lambda>b. pi_pic_order_cnt (pic_of d b)) cs)"
  proof -
    have "POCAsc (hd_store d2) = (\<lambda>b. pi_pic_order_cnt (pic_of d b))" by (rule ext) (simp add: POCAsc_def r(9))
    then show ?thesis using sorts_sorted [OF srt, of "POCAsc (hd_store d2)" "waiting d2 @ [a]"] unfolding cs by simp
  qed
  have logd: "log (hd_accelerator d3) = log (hd_accelerator d) @ filter (\<lambda>b. \<not> pi_nonexisting (pic_of d b)) (take k cs)"
    using loop(3) by (simp add: outs_def r(7,10))
  note w = waiting_after_output [OF loop(3) dist set_cs loop(5) a]
  note p3 = pics_after_output [OF ready d2 dist set_cs [unfolded r(4)] loop(3,5)]
  have base: "finish_result log a d d1 cs k ok d'"
    if "\<And>b. pi_outputted (pic_of d' b) = pi_outputted (pic_of d3 b)" "\<And>b. pi_ref (pic_of d' b) = pi_ref (pic_of d3 b)"
      "log (hd_accelerator d') = log (hd_accelerator d3)" "dpb_max_num_pics (hd_dpb d') = dpb_max_num_pics (hd_dpb d3)"
      "positions_ok d'" "dpb_pics (hd_dpb d') = kept d1 cs k (if ok then dpb_pics (hd_dpb d) @ [a] else dpb_pics (hd_dpb d))"
      "distinct (dpb_pics (hd_dpb d'))" "length (dpb_pics (hd_dpb d')) \<le> dpb_max_num_pics (hd_dpb d')"
      "ok \<Longrightarrow> mset (waiting d') = mset (drop k cs)"
      "\<not> ok \<Longrightarrow> k = length cs \<and> pi_ref (pic_of d1 a) \<and> IsFull (hd_dpb d') \<and> (\<forall>p\<in>set (dpb_pics (hd_dpb d')). pi_ref (pic_of d' p))"
    for ok d'
  proof -
    have "length (drop k cs) \<le> hd_max_num_reorder_frames d" using loop(6) r(6) by (auto simp: keeps_def)
    then have few: "ok \<Longrightarrow> length (waiting d') \<le> hd_max_num_reorder_frames d" using that(9) by (metis size_mset)
    have n: "dpb_max_num_pics (hd_dpb d2) = dpb_max_num_pics (hd_dpb d)" "hd_max_num_reorder_frames d2 = hd_max_num_reorder_frames d"
      using r(6) by (simp_all add: keeps_def)
    have exact: "length (filter (\<lambda>p. \<not> pi_outputted (pic_of d p) \<or> pi_ref (pic_of d1 p)) (dpb_pics (hd_dpb d))) < dpb_max_num_pics (hd_dpb d) \<longrightarrow>
        k = length cs - hd_max_num_reorder_frames d" using loop(7) unfolding p3(2) n .
    show ?thesis
      unfolding finish_result_def
      using that ms sorted loop(2) logd few exact p3(3,4) by (intro conjI) (simp_all)
  qed
  have max3: "dpb_max_num_pics (hd_dpb d3) = dpb_max_num_pics (hd_dpb d)"
    using loop(3) r(6) by (simp add: outs_def keeps_def)
  have "length (dpb_pics (hd_dpb d3)) \<le> length (dpb_pics (hd_dpb d2))" unfolding loop(5) by (rule length_filter_le)
  then have "length (dpb_pics (hd_dpb d3)) \<le> dpb_max_num_pics (hd_dpb d3)" using r(2) max3 by linarith
  moreover have "distinct (dpb_pics (hd_dpb d3))" "a \<notin> set (dpb_pics (hd_dpb d3))" using r(1) a(1) by (simp_all add: loop(5))
  ultimately have d3: "distinct (dpb_pics (hd_dpb d3))" "length (dpb_pics (hd_dpb d3)) \<le> dpb_max_num_pics (hd_dpb d3)"
    "a \<notin> set (dpb_pics (hd_dpb d3))" by blast+
  have dw: "distinct (waiting d3)" "distinct (drop k cs)" using d3(1) dist by (simp_all add: waiting_def)
  have few: "length (drop k cs) \<le> hd_max_num_reorder_frames d" using loop(6) r(6) by (auto simp: keeps_def)
  show ?thesis
  proof (cases "\<not> pi_outputted (pic_of d3 a) \<or> pi_ref (pic_of d3 a)")
    case False
    then have "set (waiting d3) = set (drop k cs)" using w by auto
    then have "mset (waiting d3) = mset (drop k cs)" using dw by (simp add: set_eq_iff_mset_eq_distinct)
    then have "finish_result log a d d1 cs k True d3"
      using d3(1,2) loop(4) p3(1,5) False by (intro base) (simp_all add: kept_def)
    then show ?thesis using False by auto
  next
    case need: True
    show ?thesis
    proof (cases "IsFull (hd_dpb d3)")
      case True
      then have k: "k = length cs" using loop(6) need by blast
      have "pi_ref (pic_of d3 p)" if "p \<in> set (dpb_pics (hd_dpb d3))" for p
      proof -
        have p: "p \<in> set (dpb_pics (hd_dpb d2))" "p \<notin> set cs \<or> pi_ref (pic_of d2 p)" using that k unfolding loop(5) by auto
        then have "pi_ref (pic_of d2 p)" using r(8,11,12) set_cs by (auto simp: waiting_def)
        then show ?thesis using loop(3) by (simp add: outs_def)
      qed
      moreover have "pi_ref (pic_of d1 a)"
        using need k set_cs p3(3,4) [of a] by auto
      ultimately have "finish_result log a d d1 cs k False d3"
        using d3(1,2) loop(4) p3(1) True k by (intro base) simp_all
      then show ?thesis using need True by auto
    next
      case False
      then have room: "length (dpb_pics (hd_dpb d3)) < dpb_max_num_pics (hd_dpb d3)" using d3(2) by (simp add: IsFull_def)
      obtain d' where d': "store_pic a d3 = Some d'" "dpb_pics (hd_dpb d') = dpb_pics (hd_dpb d3) @ [a]" "outs log [] d3 d'" "positions_ok d'"
        using store_pic_eq [OF room d3(3) loop(4), of log] by blast
      have w': "waiting d' = waiting d3 @ (if pi_outputted (pic_of d3 a) then [] else [a])"
        using d'(3) by (simp add: waiting_def d'(2) outs_def)
      have "set (waiting d') = set (drop k cs)" unfolding w' using w by auto
      moreover have "distinct (waiting d')" unfolding w' using dw(1) d3(3) by (auto simp: waiting_def)
      ultimately have m: "mset (waiting d') = mset (drop k cs)" using dw(2) by (simp add: set_eq_iff_mset_eq_distinct)
      have o: "log (hd_accelerator d') = log (hd_accelerator d3)" "dpb_max_num_pics (hd_dpb d') = dpb_max_num_pics (hd_dpb d3)"
        "pi_outputted (pic_of d' b) = pi_outputted (pic_of d3 b)" "pi_ref (pic_of d' b) = pi_ref (pic_of d3 b)" for b
        using d'(3) by (simp_all add: outs_def keeps_def)
      have pics: "dpb_pics (hd_dpb d') = kept d1 cs k (dpb_pics (hd_dpb d) @ [a])"
        using p3(1,5) need unfolding d'(2) by (simp add: kept_def)
      have "finish_result log a d d1 cs k True d'"
        by (rule base) (use o m d'(2,4) pics d3(1,3) room in simp_all)
      then show ?thesis using need False d'(1) by auto
    qed
  qed
qed

text \<open>
  C6: When a picture is finished, the decoder outputs, of the pictures that wait and this one, the
  \<open>k\<close> with the lowest order counts in ascending order, leaving out those that do not exist; the
  others, at most \<open>max_num_reorder_frames\<close>, go on waiting, and \<open>k\<close> is just large enough for that
  when the buffer has room once the pictures that are output and no reference are deleted. The
  buffer then holds, in the old order with the finished picture at its end, exactly the pictures
  that still wait and the references, as marked by this picture. Only when all are output, the
  buffer is full of references and the finished picture is a reference too does it fail. Conditions:
  the sort sorts; the accelerator records what it is given to output; the buffer has no picture twice
  and no more than its limit, and not the finished picture, which has not been output; marking
  passes its checks; and no other picture of the buffer has the same order count as a waiting
  picture, or the finished one, that is no reference, since \<open>DeleteByPOC\<close> deletes the first
  picture with that count.
\<close>
theorem FinishPicture_outputs_in_order:
  assumes srt: "sorts srt" and log: "logs acc log" and ready: "dpb_ready a d"
    and marked: "(if pi_ref (pic_of d a) then ReferencePictureMarking a d else Some (True, d)) = Some (m, d1)"
    and unique: "order_unique a d1"
  shows "\<exists>ok d' S k. FinishPicture srt acc a d = Some (ok, d') \<and> finish_result log a d d1 S k ok d'"
proof -
  have marks: "marks d d1" using marked by (auto split: if_splits dest: ReferencePictureMarking_marks)
  define d2 where "d2 = delete_unused (store_previous a d1)"
  define cs where "cs = srt (POCAsc (hd_store d2)) (waiting d2 @ [a])"
  note r = ready_for_output [OF marks ready, folded d2_def]
  have dr: "a \<notin> set (dpb_pics (hd_dpb d))" "\<not> pi_outputted (pic_of d a)" using ready by (simp_all add: dpb_ready_def)
  have set_cs: "set cs = insert a (set (waiting d))" by (simp add: cs_def srt r(4))
  have w: "waiting d = waiting d1" "hd_dpb d1 = hd_dpb d" using marks by (simp_all add: waiting_def marks_def)
  have poc: "pi_pic_order_cnt (pic_of d1 b) = pi_pic_order_cnt (pic_of d b)" for b using marks by (simp add: marks_def)
  have a2: "a \<notin> set (dpb_pics (hd_dpb d2))" using dr(1) r(3) by auto
  have "distinct cs" unfolding cs_def sorts_distinct [OF srt] using r(1) a2 by (auto simp: waiting_def)
  moreover have "\<forall>c\<in>set cs. \<not> pi_outputted (pic_of d2 c)" unfolding set_cs r(8) using dr(2) by (auto simp: waiting_def)
  moreover have "set cs \<subseteq> insert a (set (dpb_pics (hd_dpb d2)))" unfolding set_cs r(4) [symmetric] by (auto simp: waiting_def)
  moreover have "\<forall>c\<in>set cs. \<not> pi_ref (pic_of d2 c) \<longrightarrow>
      (\<forall>p\<in>insert a (set (dpb_pics (hd_dpb d2))). pi_pic_order_cnt (pic_of d2 p) = pi_pic_order_cnt (pic_of d2 c) \<longrightarrow> p = c)"
    using unique r(3) unfolding order_unique_def set_cs r(9,11) w poc by blast
  ultimately obtain d3 k where loop: "output_loop acc a cs d2 = Some d3" "k \<le> length cs" "outs log (take k cs) d2 d3" "positions_ok d3"
      "dpb_pics (hd_dpb d3) = filter (\<lambda>p. p \<notin> set (take k cs) \<or> pi_ref (pic_of d2 p)) (dpb_pics (hd_dpb d2))"
      "k = length cs \<or> length cs - k \<le> hd_max_num_reorder_frames d2 \<and>
       \<not> (IsFull (hd_dpb d3) \<and> (\<not> pi_outputted (pic_of d3 a) \<or> pi_ref (pic_of d3 a)))"
      "length (dpb_pics (hd_dpb d2)) < dpb_max_num_pics (hd_dpb d2) \<longrightarrow> k = length cs - hd_max_num_reorder_frames d2"
    using output_loop_outputs [OF log _ _ _ r(1) a2 r(5)] by blast
  have fin: "FinishPicture srt acc a d = (if \<not> pi_outputted (pic_of d3 a) \<or> pi_ref (pic_of d3 a) then
      if IsFull (hd_dpb d3) then Some (False, d3) else map_option (Pair True) (store_pic a d3)
      else Some (True, d3))"
    unfolding FinishPicture_def marked bind.bind_lunit prod.case Let_def not_outputted_waiting append_Nil
      d2_def [symmetric] cs_def [symmetric] loop(1) ..
  show ?thesis unfolding fin using finish_end [OF ready marks d2_def srt cs_def loop] by blast
qed

section \<open>The invariant of the decoder\<close>

definition dpb_ok :: "'a h264_decoder \<Rightarrow> bool" where
  "dpb_ok d \<longleftrightarrow> distinct (dpb_pics (hd_dpb d)) \<and> length (dpb_pics (hd_dpb d)) \<le> dpb_max_num_pics (hd_dpb d) \<and>
     dpb_max_num_pics (hd_dpb d) \<le> kDPBMaxSize \<and> positions_ok d \<and> (\<forall>p\<in>set (dpb_pics (hd_dpb d)). p < hd_next d)"

text \<open>The current picture is not in the buffer and has not been output.\<close>

definition cur_ok :: "'a h264_decoder \<Rightarrow> bool" where
  "cur_ok d \<longleftrightarrow> (case hd_curr_pic d of
     None \<Rightarrow> True
   | Some c \<Rightarrow> c < hd_next d \<and> c \<notin> set (dpb_pics (hd_dpb d)) \<and> \<not> pi_outputted (pic_of d c))"

definition dec_ok :: "'a h264_decoder \<Rightarrow> bool" where
  "dec_ok d \<longleftrightarrow> dpb_ok d \<and> cur_ok d"

text \<open>Changes that do not touch the buffer, the current picture and the parser.\<close>

definition soft :: "'a h264_decoder \<Rightarrow> 'a h264_decoder \<Rightarrow> bool" where
  "soft d d' \<longleftrightarrow> hd_parser d' = hd_parser d \<and> hd_dpb d' = hd_dpb d \<and> hd_curr_pic d' = hd_curr_pic d \<and> hd_next d' = hd_next d \<and>
     (\<forall>b. pi_outputted (pic_of d' b) = pi_outputted (pic_of d b) \<and> pi_dpb_position (pic_of d' b) = pi_dpb_position (pic_of d b))"

lemma soft_refl [simp]: "soft d d"
  by (simp add: soft_def)

lemma soft_trans: "soft d d' \<Longrightarrow> soft d' d'' \<Longrightarrow> soft d d''"
  by (simp add: soft_def)

lemma soft_ok:
  assumes "soft d d'"
  shows "hd_parser d' = hd_parser d" "hd_curr_pic d' = hd_curr_pic d" "dec_ok d' = dec_ok d"
  using assms by (auto simp: soft_def dec_ok_def dpb_ok_def cur_ok_def positions_ok_def split: option.split)

lemma marks_soft: "marks d d' \<Longrightarrow> soft d d'"
  by (simp add: marks_def soft_def keeps_def)

lemma set_counts_keep [simp]:
  "pi_outputted (set_field_counts t b pic) = pi_outputted pic" "pi_dpb_position (set_field_counts t b pic) = pi_dpb_position pic"
  "pi_outputted (set_pic_order_cnt pic) = pi_outputted pic" "pi_dpb_position (set_pic_order_cnt pic) = pi_dpb_position pic"
  by (simp_all add: set_field_counts_def set_pic_order_cnt_def split: h264_field.split)

lemma order_counts_keep:
  "order_counts_type0 sps d pic = Some pic' \<Longrightarrow> pi_outputted pic' = pi_outputted pic \<and> pi_dpb_position pic' = pi_dpb_position pic"
  "order_counts_type1 sps d pic = Some (ok, pic') \<Longrightarrow> pi_outputted pic' = pi_outputted pic \<and> pi_dpb_position pic' = pi_dpb_position pic"
  "order_counts_type2 d pic = Some pic' \<Longrightarrow> pi_outputted pic' = pi_outputted pic \<and> pi_dpb_position pic' = pi_dpb_position pic"
  by (auto simp: order_counts_type0_def order_counts_type1_def order_counts_type2_def bind_eq_Some_conv Let_def
      split: if_splits option.splits prod.splits)

lemma clear_offset_soft [simp]: "soft d (clear_offset d)"
  by (simp add: soft_def clear_offset_def)

lemma upd_pic_soft:
  "pi_outputted (f (pic_of d a)) = pi_outputted (pic_of d a) \<Longrightarrow> pi_dpb_position (f (pic_of d a)) = pi_dpb_position (pic_of d a) \<Longrightarrow>
   soft d (upd_pic a f d)"
  by (simp add: soft_def)

lemma upd_pic_clear_soft:
  "pi_outputted (f (pic_of d a)) = pi_outputted (pic_of d a) \<Longrightarrow> pi_dpb_position (f (pic_of d a)) = pi_dpb_position (pic_of d a) \<Longrightarrow>
   soft d (upd_pic a f (clear_offset d))"
  using upd_pic_soft [of f "clear_offset d" a] soft_trans [OF clear_offset_soft, of d] by simp

lemma CalculatePicOrderCounts_soft:
  assumes "CalculatePicOrderCounts a d = Some (ok, d')"
  shows "soft d d'"
proof (cases "GetSPS (hd_curr_sps_id d) (hd_parser d)")
  case (Some sps)
  consider "pi_pic_order_cnt_type (pic_of d a) = 0" | "pi_pic_order_cnt_type (pic_of d a) = 1"
    | "pi_pic_order_cnt_type (pic_of d a) = 2" | "pi_pic_order_cnt_type (pic_of d a) \<notin> {0, 1, 2}" by blast
  then show ?thesis
  proof cases
    case 1
    then obtain pic where "order_counts_type0 sps d (pic_of d a) = Some pic" "d' = upd_pic a (\<lambda>_. set_pic_order_cnt pic) d"
      using assms Some by (auto simp: CalculatePicOrderCounts_def Let_def)
    then show ?thesis by (auto dest!: order_counts_keep(1) intro!: upd_pic_soft)
  next
    case 2
    then obtain pic where "order_counts_type1 sps (clear_offset d) (pic_of d a) = Some (ok, pic)"
      "d' = upd_pic a (\<lambda>_. if ok then set_pic_order_cnt pic else pic) (clear_offset d)"
      using assms Some by (auto simp: CalculatePicOrderCounts_def Let_def)
    then show ?thesis by (auto dest!: order_counts_keep(2) intro!: upd_pic_clear_soft)
  next
    case 3
    then obtain pic where "order_counts_type2 (clear_offset d) (pic_of d a) = Some pic"
      "d' = upd_pic a (\<lambda>_. set_pic_order_cnt pic) (clear_offset d)"
      using assms Some by (auto simp: CalculatePicOrderCounts_def Let_def)
    then show ?thesis by (auto dest!: order_counts_keep(3) intro!: upd_pic_clear_soft)
  next
    case 4
    then show ?thesis using assms Some by (simp add: CalculatePicOrderCounts_def Let_def)
  qed
qed (use assms in \<open>simp add: CalculatePicOrderCounts_def\<close>)

lemma update_pic_nums_soft:
  "update_pic_nums m n as h = Some h' \<Longrightarrow> pi_outputted (h' b) = pi_outputted (h b) \<and> pi_dpb_position (h' b) = pi_dpb_position (h b)"
  by (induction as arbitrary: h) (auto simp: Let_def split: if_splits)

lemma UpdatePicNums_soft:
  assumes "UpdatePicNums n d = Some d'"
  shows "soft d d'"
proof -
  obtain h where "update_pic_nums (hd_max_frame_num d) n (dpb_pics (hd_dpb d)) (hd_store d) = Some h" "d' = d\<lparr>hd_store := h\<rparr>"
    using assms by (auto simp: UpdatePicNums_def)
  then show ?thesis using update_pic_nums_soft by (simp add: soft_def)
qed

lemma PrepareRefPicLists_soft: "PrepareRefPicLists srt d = Some d' \<Longrightarrow> soft d d'"
  by (auto simp: PrepareRefPicLists_def ConstructReferencePicListsP_def ConstructReferencePicListsB_def Let_def soft_def bind_eq_Some_conv
      split: option.splits)

lemma Fill_keeps:
  "FillH264PictureFromSliceHeader sps sh pic = Some (ok, pic') \<Longrightarrow> pi_outputted pic' = pi_outputted pic \<and> pi_dpb_position pic' = pi_dpb_position pic"
  by (auto simp: FillH264PictureFromSliceHeader_def Let_def split: if_splits option.splits)

lemma InitCurrPicture_soft:
  assumes "InitCurrPicture sh a d = Some (ok, d')"
  shows "soft d d'"
proof -
  obtain ok1 pic where pic: "FillH264PictureFromSliceHeader (GetSPS (hd_curr_sps_id d) (hd_parser d)) sh (pic_of d a) = Some (ok1, pic)"
    using assms by (auto simp: InitCurrPicture_def bind_eq_Some_conv)
  have s1: "soft d (upd_pic a (\<lambda>_. pic) d)" using Fill_keeps [OF pic] by (intro upd_pic_soft) auto
  show ?thesis
  proof (cases ok1)
    case True
    then obtain ok2 d2 where d2: "CalculatePicOrderCounts a (upd_pic a (\<lambda>_. pic) d) = Some (ok2, d2)"
      using assms pic by (auto simp: InitCurrPicture_def bind_eq_Some_conv)
    note s2 = soft_trans [OF s1 CalculatePicOrderCounts_soft [OF d2]]
    show ?thesis using assms pic True d2 s2
      by (auto simp: InitCurrPicture_def split: if_splits intro!: soft_trans [OF s2] upd_pic_soft)
  qed (use assms pic s1 in \<open>auto simp: InitCurrPicture_def\<close>)
qed

subsection \<open>Output and the buffer\<close>

lemma OutputPic_keeps:
  assumes "OutputPic acc c d = Some d'"
  shows "keeps d d'" "hd_dpb d' = hd_dpb d" "positions_ok d' = positions_ok d" "\<forall>b. b \<noteq> c \<longrightarrow> pi_outputted (pic_of d' b) = pi_outputted (pic_of d b)"
  using assms by (auto simp: OutputPic_def Let_def keeps_def positions_ok_def split: if_splits)

lemma delete_by_poc_keeps:
  assumes "delete_by_poc poc d = Some d'" "distinct (dpb_pics (hd_dpb d))"
  shows "keeps d d'" "distinct (dpb_pics (hd_dpb d'))" "set (dpb_pics (hd_dpb d')) \<subseteq> set (dpb_pics (hd_dpb d))"
    "length (dpb_pics (hd_dpb d')) \<le> length (dpb_pics (hd_dpb d))" "positions_ok d'"
    "pi_outputted (pic_of d' b) = pi_outputted (pic_of d b)"
proof -
  obtain pics where p: "erase_first (\<lambda>a. pi_pic_order_cnt (pic_of d a) = poc) (dpb_pics (hd_dpb d)) = Some pics"
    "d' = d\<lparr>hd_dpb := (hd_dpb d)\<lparr>dpb_pics := pics\<rparr>, hd_store := set_positions 0 pics (hd_store d)\<rparr>"
    using assms(1) by (auto simp: delete_by_poc_def DeleteByPOC_def Let_def UpdatePicPositions_def split: option.splits)
  note e = erase_first_Some [OF p(1) assms(2)]
  show "keeps d d'" "distinct (dpb_pics (hd_dpb d'))" "set (dpb_pics (hd_dpb d')) \<subseteq> set (dpb_pics (hd_dpb d))"
    "length (dpb_pics (hd_dpb d')) \<le> length (dpb_pics (hd_dpb d))" "positions_ok d'"
    "pi_outputted (pic_of d' b) = pi_outputted (pic_of d b)"
    using e by (simp_all add: p(2) keeps_def positions_ok_def set_positions_nth)
qed

text \<open>What the loops of output leave of the buffer, for pictures \<open>cs\<close> to output.\<close>

definition shrinks :: "nat set \<Rightarrow> 'a h264_decoder \<Rightarrow> 'a h264_decoder \<Rightarrow> bool" where
  "shrinks C d d' \<longleftrightarrow> keeps d d' \<and> distinct (dpb_pics (hd_dpb d')) \<and> set (dpb_pics (hd_dpb d')) \<subseteq> set (dpb_pics (hd_dpb d)) \<and>
     length (dpb_pics (hd_dpb d')) \<le> length (dpb_pics (hd_dpb d)) \<and> positions_ok d' \<and>
     (\<forall>b. b \<notin> C \<longrightarrow> pi_outputted (pic_of d' b) = pi_outputted (pic_of d b))"

lemma shrinks_refl: "distinct (dpb_pics (hd_dpb d)) \<Longrightarrow> positions_ok d \<Longrightarrow> shrinks C d d"
  by (simp add: shrinks_def)

lemma shrinks_trans: "shrinks C d d' \<Longrightarrow> shrinks C d' d'' \<Longrightarrow> shrinks C d d''"
  unfolding shrinks_def by (meson keeps_trans order_trans)

lemma output_loop_shrinks:
  "output_loop acc a cs d = Some d' \<Longrightarrow> distinct (dpb_pics (hd_dpb d)) \<Longrightarrow> positions_ok d \<Longrightarrow> set cs \<subseteq> C \<Longrightarrow> shrinks C d d'"
proof (induction cs arbitrary: d)
  case (Cons c cs)
  show ?case
  proof (cases "length (c # cs) > hd_max_num_reorder_frames d \<or>
      (IsFull (hd_dpb d) \<and> (\<not> pi_outputted (pic_of d a) \<or> pi_ref (pic_of d a)))")
    case True
    obtain d1 d2 where d: "OutputPic acc c d = Some d1"
      "(if \<not> pi_ref (pic_of d1 c) \<and> pi_pic_order_cnt (pic_of d1 c) \<noteq> pi_pic_order_cnt (pic_of d1 a)
        then delete_by_poc (pi_pic_order_cnt (pic_of d1 c)) d1 else Some d1) = Some d2" "output_loop acc a cs d2 = Some d'"
      using Cons.prems(1) True by (auto simp: bind_eq_Some_conv)
    have s1: "shrinks C d d1" using OutputPic_keeps [OF d(1)] Cons.prems(2-4) by (auto simp: shrinks_def)
    then have "shrinks C d1 d2"
      using d(2) delete_by_poc_keeps [of _ d1 d2] by (auto simp: shrinks_def split: if_splits)
    then have s2: "shrinks C d d2" using s1 shrinks_trans by blast
    then have "shrinks C d2 d'" using Cons.IH [OF d(3)] Cons.prems(4) by (simp add: shrinks_def)
    then show ?thesis using s2 shrinks_trans by blast
  next
    case False
    then show ?thesis using Cons.prems by (auto intro: shrinks_refl)
  qed
qed (auto intro: shrinks_refl)

lemma output_pics_shrinks:
  "output_pics acc cs d = Some d' \<Longrightarrow> distinct (dpb_pics (hd_dpb d)) \<Longrightarrow> positions_ok d \<Longrightarrow> set cs \<subseteq> C \<Longrightarrow> shrinks C d d'"
proof (induction cs arbitrary: d)
  case (Cons c cs)
  obtain d1 where d: "OutputPic acc c d = Some d1" "output_pics acc cs d1 = Some d'"
    using Cons.prems(1) by (auto simp: bind_eq_Some_conv)
  have s1: "shrinks C d d1" using OutputPic_keeps [OF d(1)] Cons.prems(2-4) by (auto simp: shrinks_def)
  then have "shrinks C d1 d'" using Cons.IH [OF d(2)] Cons.prems(4) by (simp add: shrinks_def)
  then show ?case using s1 shrinks_trans by blast
qed (auto intro: shrinks_refl)

lemma shrinks_dpb_ok: "shrinks C d d' \<Longrightarrow> dpb_ok d \<Longrightarrow> dpb_ok d'"
  unfolding shrinks_def dpb_ok_def keeps_def by auto

lemma FinishPicture_keeps:
  assumes srt: "sorts srt" and fin: "FinishPicture srt acc a d = Some (ok, d')"
    and ok: "dpb_ok d" "a \<notin> set (dpb_pics (hd_dpb d))" "a < hd_next d"
  shows "keeps d d' \<and> dpb_ok d' \<and> set (dpb_pics (hd_dpb d')) \<subseteq> insert a (set (dpb_pics (hd_dpb d))) \<and>
    (\<forall>b. b \<notin> insert a (set (dpb_pics (hd_dpb d))) \<longrightarrow> pi_outputted (pic_of d' b) = pi_outputted (pic_of d b))"
proof -
  obtain m d1 where m: "(if pi_ref (pic_of d a) then ReferencePictureMarking a d else Some (True, d)) = Some (m, d1)"
    using fin by (auto simp: FinishPicture_def bind_eq_Some_conv)
  then have marks: "marks d d1" by (auto split: if_splits dest: ReferencePictureMarking_marks)
  define d2 where "d2 = delete_unused (store_previous a d1)"
  define cs where "cs = srt (POCAsc (hd_store d2)) (waiting d2 @ [a])"
  obtain d3 where loop: "output_loop acc a cs d2 = Some d3" and
    res: "(if \<not> pi_outputted (pic_of d3 a) \<or> pi_ref (pic_of d3 a) then
        if IsFull (hd_dpb d3) then Some (False, d3) else map_option (Pair True) (store_pic a d3)
      else Some (True, d3)) = Some (ok, d')"
    using fin m by (auto simp: FinishPicture_def Let_def d2_def cs_def bind_eq_Some_conv)
  have d1: "hd_dpb d1 = hd_dpb d" "keeps d d1" "\<And>b. pi_outputted (pic_of d1 b) = pi_outputted (pic_of d b)"
    using marks by (simp_all add: marks_def)
  have k2: "keeps d d2" unfolding d2_def using d1(2) delete_unused_eq(2) store_previous_fields(4) by (blast intro: keeps_trans)
  have pics2: "set (dpb_pics (hd_dpb d2)) \<subseteq> set (dpb_pics (hd_dpb d))" "distinct (dpb_pics (hd_dpb d2))"
    "length (dpb_pics (hd_dpb d2)) \<le> length (dpb_pics (hd_dpb d))"
    using ok(1) unfolding d2_def delete_unused_eq(1) by (auto simp: d1(1) dpb_ok_def)
  have pos2: "positions_ok d2" unfolding d2_def by (rule delete_unused_positions) (use ok(1) in \<open>simp add: d1(1) dpb_ok_def\<close>)
  have out2: "pi_outputted (pic_of d2 b) = pi_outputted (pic_of d b)" for b by (simp add: d2_def delete_unused_eq d1(3))
  have "set cs \<subseteq> insert a (set (dpb_pics (hd_dpb d)))" unfolding cs_def sorts_set [OF srt] using pics2(1) by (auto simp: waiting_def)
  then have s3: "shrinks (insert a (set (dpb_pics (hd_dpb d)))) d2 d3" by (rule output_loop_shrinks [OF loop pics2(2) pos2])
  have k3: "keeps d d3" using s3 k2 by (auto simp: shrinks_def intro: keeps_trans)
  have ok2: "dpb_ok d2" using ok(1) pics2 pos2 k2 unfolding dpb_ok_def keeps_def by auto
  have ok3: "dpb_ok d3" "set (dpb_pics (hd_dpb d3)) \<subseteq> set (dpb_pics (hd_dpb d))"
    "\<forall>b. b \<notin> insert a (set (dpb_pics (hd_dpb d))) \<longrightarrow> pi_outputted (pic_of d3 b) = pi_outputted (pic_of d b)"
    using shrinks_dpb_ok [OF s3 ok2] s3 pics2(1) out2 by (auto simp: shrinks_def)
  show ?thesis
  proof (cases "d' = d3")
    case True
    then show ?thesis using k3 ok3 by auto
  next
    case False
    then have st: "store_pic a d3 = Some d'" "\<not> IsFull (hd_dpb d3)" using res by (auto split: if_splits)
    then have room: "length (dpb_pics (hd_dpb d3)) < dpb_max_num_pics (hd_dpb d3)" using ok3(1) by (simp add: IsFull_def dpb_ok_def)
    have a3: "a \<notin> set (dpb_pics (hd_dpb d3))" "positions_ok d3" using ok(2) ok3(1,2) by (auto simp: dpb_ok_def)
    have d': "dpb_pics (hd_dpb d') = dpb_pics (hd_dpb d3) @ [a]" "outs (\<lambda>_. []) [] d3 d'" "positions_ok d'"
      using store_pic_eq [OF room a3, of "\<lambda>_. []"] st(1) by auto
    have k': "keeps d3 d'" "\<And>b. pi_outputted (pic_of d' b) = pi_outputted (pic_of d3 b)" using d'(2) by (simp_all add: outs_def)
    have "dpb_ok d'" using ok3(1) d'(1,3) k'(1) k3 room a3(1) ok(3) by (auto simp: dpb_ok_def keeps_def)
    then show ?thesis using k3 k' ok3(2,3) d'(1) by (auto intro: keeps_trans)
  qed
qed

lemma delete_by_poc_keep: "delete_by_poc poc d = Some d' \<Longrightarrow> keeps d d'"
  by (auto simp: delete_by_poc_def DeleteByPOC_def Let_def keeps_def split: option.splits)

lemma output_loop_keep: "output_loop acc a cs d = Some d' \<Longrightarrow> keeps d d'"
  by (induction cs arbitrary: d)
    (auto simp: bind_eq_Some_conv split: if_splits dest!: OutputPic_keeps(1) delete_by_poc_keep, (blast intro: keeps_trans)+)

lemma store_pic_keep: "store_pic a d = Some d' \<Longrightarrow> keeps d d'"
  by (auto simp: store_pic_def StorePic_def keeps_def split: if_splits)

text \<open>The parts that are never changed, whether the invariant holds or not.\<close>

lemma FinishPicture_keep:
  assumes "FinishPicture srt acc a d = Some (ok, d')"
  shows "keeps d d'"
proof -
  obtain m d1 d3 where d: "(if pi_ref (pic_of d a) then ReferencePictureMarking a d else Some (True, d)) = Some (m, d1)"
    "output_loop acc a (srt (POCAsc (hd_store (delete_unused (store_previous a d1)))) (waiting (delete_unused (store_previous a d1)) @ [a]))
      (delete_unused (store_previous a d1)) = Some d3" "d' = d3 \<or> store_pic a d3 = Some d'"
    using assms by (auto simp: FinishPicture_def Let_def bind_eq_Some_conv split: if_splits)
  have "keeps d d1" using d(1) by (auto simp: marks_def split: if_splits dest!: ReferencePictureMarking_marks)
  then have "keeps d (delete_unused (store_previous a d1))"
    using delete_unused_eq(2) store_previous_fields(4) by (blast intro: keeps_trans)
  then have "keeps d d3" using output_loop_keep [OF d(2)] keeps_trans by blast
  then show ?thesis using d(3) store_pic_keep keeps_trans by blast
qed

section \<open>The order counts of the decoder and of \<open>H264POC\<close>\<close>

text \<open>The state kept from picture to picture, and the parts of a picture that go into it.\<close>

definition prev_same :: "'a h264_decoder \<Rightarrow> 'a h264_decoder \<Rightarrow> bool" where
  "prev_same d d' \<longleftrightarrow> hd_prev_frame_num d' = hd_prev_frame_num d \<and> hd_prev_frame_num_offset d' = hd_prev_frame_num_offset d \<and>
     hd_prev_has_memmgmnt5 d' = hd_prev_has_memmgmnt5 d \<and> hd_prev_ref_has_memmgmnt5 d' = hd_prev_ref_has_memmgmnt5 d \<and>
     hd_prev_ref_top_field_order_cnt d' = hd_prev_ref_top_field_order_cnt d \<and>
     hd_prev_ref_pic_order_cnt_msb d' = hd_prev_ref_pic_order_cnt_msb d \<and>
     hd_prev_ref_pic_order_cnt_lsb d' = hd_prev_ref_pic_order_cnt_lsb d \<and> hd_prev_ref_field d' = hd_prev_ref_field d"

definition count_same :: "h264_picture \<Rightarrow> h264_picture \<Rightarrow> bool" where
  "count_same p p' \<longleftrightarrow> pi_ref p' = pi_ref p \<and> pi_top_field_order_cnt p' = pi_top_field_order_cnt p \<and>
     pi_pic_order_cnt_msb p' = pi_pic_order_cnt_msb p \<and> pi_pic_order_cnt_lsb p' = pi_pic_order_cnt_lsb p \<and>
     pi_field p' = pi_field p \<and> pi_frame_num p' = pi_frame_num p \<and> pi_frame_num_offset p' = pi_frame_num_offset p"

lemma same_refl [simp]: "prev_same d d" "count_same p p"
  by (simp_all add: prev_same_def count_same_def)

lemma prev_same_trans: "prev_same d d' \<Longrightarrow> prev_same d' d'' \<Longrightarrow> prev_same d d''"
  by (simp add: prev_same_def)

lemma count_same_trans: "count_same p p' \<Longrightarrow> count_same p' p'' \<Longrightarrow> count_same p p''"
  by (simp add: count_same_def)

lemma prev_same_update [simp]:
  "prev_same d (upd_pic b f d')  = prev_same d d'" "prev_same d (d'\<lparr>hd_store := h\<rparr>) = prev_same d d'"
  "prev_same d (d'\<lparr>hd_max_long_term_frame_idx := i\<rparr>) = prev_same d d'" "prev_same d (d'\<lparr>hd_dpb := q\<rparr>) = prev_same d d'"
  "prev_same d (d'\<lparr>hd_last_output_poc := i\<rparr>) = prev_same d d'" "prev_same d (d'\<lparr>hd_accelerator := s\<rparr>) = prev_same d d'"
  "prev_same d (d'\<lparr>hd_curr_pic := c\<rparr>) = prev_same d d'"
  by (simp_all add: prev_same_def)

lemma prev_same_related: "prev_same d d' \<Longrightarrow> poc_related sps p d' = poc_related sps p d"
  by (simp add: prev_same_def poc_related_def)

lemma store_previous_related:
  assumes "prev_same d d'" "count_same (pic_of d a) (pic_of d' a)" "pi_mem_mgmt_5 (pic_of d' a) = pi_mem_mgmt_5 (pic_of d a)"
  shows "poc_related sps p (store_previous a d') = poc_related sps p (store_previous a d)"
  using assms by (simp add: store_previous_def poc_related_def prev_same_def count_same_def Let_def)

text \<open>The marking of references keeps these parts of the current picture, and finds operation 5.\<close>

lemma unmark_all_other: "a \<notin> set as \<Longrightarrow> unmark_all as h a = h a"
  by (induction as arbitrary: h) auto

lemma unmark_such_other: "a \<notin> set as \<Longrightarrow> unmark_such P as h a = h a"
  by (induction as arbitrary: h) auto

lemma lowest_short_in: "lowest_short h as r = Some b \<Longrightarrow> b \<in> set as \<or> r = Some b"
  by (induction as arbitrary: r) (auto split: if_splits)

lemma named_in_dpb:
  "GetShortRefPicByPicNum n dpb h = Some b \<Longrightarrow> b \<in> set (dpb_pics dpb)"
  "GetLongRefPicByLongTermPicNum n dpb h = Some b \<Longrightarrow> b \<in> set (dpb_pics dpb)"
  "GetLowestFrameNumWrapShortRefPic dpb h = Some b \<Longrightarrow> b \<in> set (dpb_pics dpb)"
  by (auto simp: GetShortRefPicByPicNum_def GetLongRefPicByLongTermPicNum_def GetLowestFrameNumWrapShortRefPic_def
      dest!: first_such_Some lowest_short_in)

lemma unmark_long_other: "a \<notin> set (dpb_pics (hd_dpb d)) \<Longrightarrow> unmark_such P (long_refs d) h a = h a"
  by (rule unmark_such_other) (simp add: long_refs_def)

definition marks_current :: "nat \<Rightarrow> bool \<Rightarrow> 'a h264_decoder \<Rightarrow> 'a h264_decoder \<Rightarrow> bool" where
  "marks_current a m d d' \<longleftrightarrow> prev_same d d' \<and> hd_dpb d' = hd_dpb d \<and> count_same (pic_of d a) (pic_of d' a) \<and>
     (pi_mem_mgmt_5 (pic_of d' a) \<longleftrightarrow> pi_mem_mgmt_5 (pic_of d a) \<or> m)"

lemma memory_management_op_current:
  assumes "memory_management_op a m d = Some (ok, d')" "a \<notin> set (dpb_pics (hd_dpb d))" "pi_ref (pic_of d a)"
  shows "marks_current a (rpm_memory_mgmnt_control_operation m = 5) d d'"
  using assms named_in_dpb(1,2) [of _ "hd_dpb d" "hd_store d"]
  by (auto simp: unmark_long_other memory_management_op_def Let_def marks_current_def count_same_def bind_eq_Some_conv MarkAllUnusedForRef_def
      unmark_all_other split: if_splits option.splits)

lemma memory_management_loop_current:
  assumes "memory_management_loop a ms d = Some (ok, d')" "a \<notin> set (dpb_pics (hd_dpb d))" "pi_ref (pic_of d a)"
  shows "\<exists>m. marks_current a m d d' \<and> (m \<longrightarrow> ends_in_MMCO5 ms) \<and> (ok \<longrightarrow> m = ends_in_MMCO5 ms)"
  using assms
proof (induction ms arbitrary: d)
  case Nil
  then show ?case by (intro exI [of _ False]) (auto simp: marks_current_def)
next
  case (Cons m ms)
  let ?op = "rpm_memory_mgmnt_control_operation m"
  show ?case
  proof (cases "?op = 0")
    case True
    then show ?thesis using Cons.prems by (intro exI [of _ False]) (auto simp: marks_current_def)
  next
    case False
    then obtain ok1 d1 where d1: "memory_management_op a m d = Some (ok1, d1)"
      "(if ok1 then memory_management_loop a ms d1 else Some (False, d1)) = Some (ok, d')"
      using Cons.prems(1) by (auto simp: bind_eq_Some_conv)
    have m1: "marks_current a (?op = 5) d d1" by (rule memory_management_op_current [OF d1(1) Cons.prems(2,3)])
    show ?thesis
    proof (cases ok1)
      case True
      have "a \<notin> set (dpb_pics (hd_dpb d1))" "pi_ref (pic_of d1 a)"
        using m1 Cons.prems(2,3) by (simp_all add: marks_current_def count_same_def)
      from Cons.IH [OF _ this] d1(2) True obtain k where k: "marks_current a k d1 d'" "k \<longrightarrow> ends_in_MMCO5 ms" "ok \<longrightarrow> k = ends_in_MMCO5 ms"
        by auto
      have "marks_current a (?op = 5 \<or> k) d d'"
        using m1 k(1) by (auto simp: marks_current_def intro: prev_same_trans count_same_trans)
      then show ?thesis using k False by (intro exI [of _ "?op = 5 \<or> k"]) auto
    next
      case no: False
      then have "?op \<noteq> 5" "ok = False" "d' = d1" using d1 by (auto simp: memory_management_op_def Let_def)
      then show ?thesis using m1 by (intro exI [of _ False]) simp
    qed
  qed
qed

lemma ReferencePictureMarking_current:
  assumes "ReferencePictureMarking a d = Some (ok, d')" "a \<notin> set (dpb_pics (hd_dpb d))" "pi_ref (pic_of d a)"
    and m5: "m5 \<longleftrightarrow> \<not> pi_idr (pic_of d a) \<and> pi_adaptive_ref_pic_marking_mode_flag (pic_of d a) \<and> ends_in_MMCO5 (pi_ref_pic_marking (pic_of d a))"
    and "m5 \<longrightarrow> ok"
  shows "marks_current a m5 d d'"
proof (cases "pi_idr (pic_of d a)")
  case True
  then show ?thesis
    using assms by (auto simp: ReferencePictureMarking_def Let_def marks_current_def count_same_def MarkAllUnusedForRef_def unmark_all_other split: if_splits)
next
  case idr: False
  show ?thesis
  proof (cases "pi_adaptive_ref_pic_marking_mode_flag (pic_of d a)")
    case True
    then have "memory_management_loop a (pi_ref_pic_marking (pic_of d a)) d = Some (ok, d')"
      using assms(1) idr by (simp add: ReferencePictureMarking_def HandleMemoryManagementOps_def split: if_splits)
    from memory_management_loop_current [OF this assms(2,3)] show ?thesis using idr True assms(4,5) by auto
  next
    case False
    then have "SlidingWindowPictureMarking d = Some (ok, d')" "\<not> m5"
      using assms(1,4) idr by (simp_all add: ReferencePictureMarking_def)
    then show ?thesis
      using named_in_dpb(3) [of "hd_dpb d" "hd_store d"] assms(2)
      by (auto simp: SlidingWindowPictureMarking_def Let_def marks_current_def count_same_def split: if_splits option.splits)
  qed
qed

text \<open>Finishing a picture changes the kept state only by \<open>store_previous\<close>.\<close>

lemma output_loop_prev: "output_loop acc a cs d = Some d' \<Longrightarrow> prev_same d d'"
proof (induction cs arbitrary: d)
  case (Cons c cs)
  have out: "prev_same d d'" if "OutputPic acc c d = Some d'" for d d' :: "'a h264_decoder"
    using that by (auto simp: OutputPic_def Let_def split: if_splits)
  have del: "prev_same d d'" if "delete_by_poc n d = Some d'" for d d' :: "'a h264_decoder" and n
    using that by (auto simp: delete_by_poc_def)
  show ?case
    using Cons.prems by (auto simp: bind_eq_Some_conv split: if_splits dest!: Cons.IH out del intro: prev_same_trans)
qed simp

lemma FinishPicture_prev:
  assumes "FinishPicture srt acc a d = Some (ok, d')"
  shows "\<exists>m d1. (if pi_ref (pic_of d a) then ReferencePictureMarking a d else Some (True, d)) = Some (m, d1) \<and>
    prev_same (store_previous a d1) d'"
proof -
  obtain m d1 where m: "(if pi_ref (pic_of d a) then ReferencePictureMarking a d else Some (True, d)) = Some (m, d1)"
    using assms by (auto simp: FinishPicture_def bind_eq_Some_conv split: if_splits)
  obtain d3 where d3: "output_loop acc a (srt (POCAsc (hd_store (delete_unused (store_previous a d1)))) (waiting (delete_unused (store_previous a d1)) @ [a]))
      (delete_unused (store_previous a d1)) = Some d3" "d' = d3 \<or> store_pic a d3 = Some d'"
    using assms m by (auto simp: FinishPicture_def Let_def bind_eq_Some_conv split: if_splits)
  have "prev_same (store_previous a d1) (delete_unused (store_previous a d1))"
    by (simp add: delete_unused_def DeleteUnused_def Let_def)
  moreover have "prev_same d3 d'" using d3(2) by (auto simp: store_pic_def StorePic_def split: if_splits)
  ultimately show ?thesis using m output_loop_prev [OF d3(1)] by (blast intro: prev_same_trans)
qed

lemma finished_related:
  assumes fin: "FinishPicture srt acc a d2 = Some (ok, d3)" and a: "a \<notin> set (dpb_pics (hd_dpb d2))"
    and pic: "prev_same d1 d2" "pic_of d2 a = pic_of d1 a" "\<not> pi_mem_mgmt_5 (pic_of d1 a)"
    and m5: "m5 \<longleftrightarrow> pi_ref (pic_of d1 a) \<and> \<not> pi_idr (pic_of d1 a) \<and> pi_adaptive_ref_pic_marking_mode_flag (pic_of d1 a) \<and>
      ends_in_MMCO5 (pi_ref_pic_marking (pic_of d1 a))"
    and succeeds: "m5 \<longrightarrow> (\<exists>d'. ReferencePictureMarking a d2 = Some (True, d'))"
    and rel: "poc_related sps p (store_previous a (upd_pic a (\<lambda>pic. pic\<lparr>pi_mem_mgmt_5 := m5\<rparr>) d1))"
  shows "poc_related sps p d3"
proof -
  obtain m d2' where m: "(if pi_ref (pic_of d2 a) then ReferencePictureMarking a d2 else Some (True, d2)) = Some (m, d2')"
    "prev_same (store_previous a d2') d3"
    using FinishPicture_prev [OF fin] by blast
  have "marks_current a m5 d2 d2'"
  proof (cases "pi_ref (pic_of d2 a)")
    case True
    then have r: "ReferencePictureMarking a d2 = Some (m, d2')" using m(1) by simp
    moreover have "m5 \<longrightarrow> m" using succeeds r by auto
    ultimately show ?thesis
      by (intro ReferencePictureMarking_current [OF r a True]) (use m5 True pic(2) in auto)
  next
    case False
    then show ?thesis using m(1) m5 pic(2) by (auto simp: marks_current_def)
  qed
  then have "prev_same d1 d2'" "count_same (pic_of d1 a) (pic_of d2' a)" "pi_mem_mgmt_5 (pic_of d2' a) = m5"
    using pic by (auto simp: marks_current_def intro: prev_same_trans)
  then have "poc_related sps p (store_previous a d2')"
    using rel store_previous_related [of "upd_pic a (\<lambda>pic. pic\<lparr>pi_mem_mgmt_5 := m5\<rparr>) d1" d2' a sps p]
    by (simp add: count_same_def prev_same_def)
  then show ?thesis using prev_same_related [OF m(2)] by blast
qed

text \<open>Between the start of a picture and its end, slices are decoded and the parser goes on.\<close>

definition slice_step :: "'a h264_accelerator \<Rightarrow> 'a h264_decoder \<Rightarrow> 'a h264_decoder \<Rightarrow> bool" where
  "slice_step acc d d' \<longleftrightarrow> (\<exists>sh res. ProcessCurrentSlice acc sh d = Some (res, d')) \<or>
     (\<exists>p sh n st. d' = d\<lparr>hd_parser := p, hd_curr_slice_hdr := sh, hd_curr_nalu := n, hd_state := st\<rparr>)"

definition same_picture :: "nat \<Rightarrow> 'a h264_decoder \<Rightarrow> 'a h264_decoder \<Rightarrow> bool" where
  "same_picture a d d' \<longleftrightarrow> prev_same d d' \<and> hd_dpb d' = hd_dpb d \<and> hd_curr_pic d' = hd_curr_pic d \<and> pic_of d' a = pic_of d a"

lemma submit_slice_accelerator: "submit_slice acc sh a d = Some (res, d') \<Longrightarrow> \<exists>s. d' = d\<lparr>hd_accelerator := s\<rparr>"
  by (cases "acc_SubmitSlice acc (the (GetPPS (hd_curr_pps_id d) (hd_parser d))) sh (fst (snd (the (ModifyReferencePicLists sh d))))
      (snd (snd (the (ModifyReferencePicLists sh d)))) a (sh_nalu_data sh) (sh_nalu_size sh)
      (the (GetCurrentSubsamples (hd_parser d))) (hd_store d) (hd_accelerator d)")
    (auto simp: submit_slice_def bind_eq_Some_conv Let_def split: if_splits option.splits intro: exI [of _ "hd_accelerator d"])

lemma ProcessCurrentSlice_same: "ProcessCurrentSlice acc sh d = Some (res, d') \<Longrightarrow> same_picture a d d'"
  unfolding ProcessCurrentSlice_def
  by (auto simp: same_picture_def prev_same_def split: option.splits if_splits dest!: submit_slice_accelerator)

lemma slice_step_same:
  assumes "slice_step acc d d'"
  shows "same_picture a d d'"
  using assms unfolding slice_step_def
proof (elim disjE exE)
  show "ProcessCurrentSlice acc sh d = Some (res, d') \<Longrightarrow> ?thesis" for sh res by (rule ProcessCurrentSlice_same)
qed (simp add: same_picture_def prev_same_def)

lemma slice_steps_same: "(slice_step acc)\<^sup>*\<^sup>* d d' \<Longrightarrow> same_picture a d d'"
proof (induction rule: rtranclp_induct)
  case (step y z)
  from step.IH slice_step_same [OF step.hyps(2), of a] show ?case by (auto simp: same_picture_def intro: prev_same_trans)
qed (simp add: same_picture_def)

lemma UpdatePicNums_same:
  assumes "UpdatePicNums n d = Some d'" "a \<notin> set (dpb_pics (hd_dpb d))"
  shows "same_picture a d d'"
proof -
  have "h' a = h a" if "update_pic_nums m n as h = Some h'" "a \<notin> set as" for m as h h'
    using that by (induction as arbitrary: h) (auto simp: Let_def split: if_splits)
  then show ?thesis using assms by (auto simp: UpdatePicNums_def same_picture_def prev_same_def)
qed

lemma PrepareRefPicLists_same: "PrepareRefPicLists srt d = Some d' \<Longrightarrow> same_picture a d d'"
  by (auto simp: PrepareRefPicLists_def ConstructReferencePicListsP_def ConstructReferencePicListsB_def Let_def same_picture_def
      prev_same_def bind_eq_Some_conv split: option.splits)

lemma same_picture_trans: "same_picture a d d' \<Longrightarrow> same_picture a d' d'' \<Longrightarrow> same_picture a d d''"
  by (auto simp: same_picture_def intro: prev_same_trans)

text \<open>The count is fixed when the picture starts.\<close>

lemma InitCurrPicture_eq:
  assumes sps: "poc_sps_ok sps d" and sh: "poc_slice_ok sh" and fresh: "fresh_picture (pic_of d a)"
  shows "InitCurrPicture sh a d =
    map_option (\<lambda>(ok, d). (ok, if ok then upd_pic a (\<lambda>pic.
             (if sh_adaptive_ref_pic_marking_mode_flag sh then pic\<lparr>pi_ref_pic_marking := sh_ref_pic_marking sh\<rparr> else pic)
             \<lparr>pi_long_term_reference_flag := sh_long_term_reference_flag sh,
              pi_adaptive_ref_pic_marking_mode_flag := sh_adaptive_ref_pic_marking_mode_flag sh,
              pi_visible_rect := hd_visible_rect d, pi_bitstream_id := hd_stream_id d\<rparr>) d else d))
      (CalculatePicOrderCounts a (upd_pic a (\<lambda>_. filled_for sps sh (pic_of d a)) d))"
proof -
  have "FillH264PictureFromSliceHeader (GetSPS (hd_curr_sps_id d) (hd_parser d)) sh (pic_of d a) = Some (True, filled_for sps sh (pic_of d a))"
    using sps sh fresh by (simp add: poc_sps_ok_def poc_ranges_ok_def poc_slice_ok_def Fill_eq)
  then show ?thesis
    by (cases "CalculatePicOrderCounts a (upd_pic a (\<lambda>_. filled_for sps sh (pic_of d a)) d)") (auto simp: InitCurrPicture_def)
qed

text \<open>What the calculation of the counts leaves of the picture.\<close>

lemma set_counts_other [simp]:
  "pi_idr (set_field_counts t b pic) = pi_idr pic" "pi_ref (set_field_counts t b pic) = pi_ref pic"
  "pi_mem_mgmt_5 (set_field_counts t b pic) = pi_mem_mgmt_5 pic"
  "pi_idr (set_pic_order_cnt pic) = pi_idr pic" "pi_ref (set_pic_order_cnt pic) = pi_ref pic"
  "pi_mem_mgmt_5 (set_pic_order_cnt pic) = pi_mem_mgmt_5 pic"
  by (simp_all add: set_field_counts_def set_pic_order_cnt_def split: h264_field.split)

lemma order_counts_other:
  "order_counts_type0 sps d pic = Some pic' \<Longrightarrow> pi_idr pic' = pi_idr pic \<and> pi_ref pic' = pi_ref pic \<and> pi_mem_mgmt_5 pic' = pi_mem_mgmt_5 pic"
  "order_counts_type1 sps d pic = Some (ok, pic') \<Longrightarrow> pi_idr pic' = pi_idr pic \<and> pi_ref pic' = pi_ref pic \<and> pi_mem_mgmt_5 pic' = pi_mem_mgmt_5 pic"
  "order_counts_type2 d pic = Some pic' \<Longrightarrow> pi_idr pic' = pi_idr pic \<and> pi_ref pic' = pi_ref pic \<and> pi_mem_mgmt_5 pic' = pi_mem_mgmt_5 pic"
  by (auto simp: order_counts_type0_def order_counts_type1_def order_counts_type2_def Let_def bind_eq_Some_conv
      split: prod.splits option.splits if_splits)

lemma CalculatePicOrderCounts_other:
  assumes "CalculatePicOrderCounts a d = Some (ok, d')"
  shows "pi_idr (pic_of d' a) = pi_idr (pic_of d a) \<and> pi_ref (pic_of d' a) = pi_ref (pic_of d a) \<and>
    pi_mem_mgmt_5 (pic_of d' a) = pi_mem_mgmt_5 (pic_of d a) \<and> hd_dpb d' = hd_dpb d \<and> hd_curr_pic d' = hd_curr_pic d"
proof (cases "GetSPS (hd_curr_sps_id d) (hd_parser d)")
  case (Some sps)
  have c: "hd_dpb (clear_offset d) = hd_dpb d" "hd_curr_pic (clear_offset d) = hd_curr_pic d" by (simp_all add: clear_offset_def)
  consider "pi_pic_order_cnt_type (pic_of d a) = 0" | "pi_pic_order_cnt_type (pic_of d a) = 1"
    | "pi_pic_order_cnt_type (pic_of d a) = 2" | "pi_pic_order_cnt_type (pic_of d a) \<notin> {0, 1, 2}" by blast
  then show ?thesis
  proof cases
    case 1
    then obtain pic where "order_counts_type0 sps d (pic_of d a) = Some pic" "d' = upd_pic a (\<lambda>_. set_pic_order_cnt pic) d"
      using assms Some by (auto simp: CalculatePicOrderCounts_def Let_def)
    then show ?thesis using order_counts_other(1) by simp
  next
    case 2
    then obtain pic where "order_counts_type1 sps (clear_offset d) (pic_of d a) = Some (ok, pic)"
      "d' = upd_pic a (\<lambda>_. if ok then set_pic_order_cnt pic else pic) (clear_offset d)"
      using assms Some by (auto simp: CalculatePicOrderCounts_def Let_def)
    then show ?thesis using order_counts_other(2) c by simp
  next
    case 3
    then obtain pic where "order_counts_type2 (clear_offset d) (pic_of d a) = Some pic"
      "d' = upd_pic a (\<lambda>_. set_pic_order_cnt pic) (clear_offset d)"
      using assms Some by (auto simp: CalculatePicOrderCounts_def Let_def)
    then show ?thesis using order_counts_other(3) c by simp
  next
    case 4
    then show ?thesis using assms Some by (simp add: CalculatePicOrderCounts_def Let_def)
  qed
qed (use assms in \<open>simp add: CalculatePicOrderCounts_def\<close>)

text \<open>The frame number follows that of the last reference picture, so that no picture is missing.\<close>

definition frame_num_follows :: "h264_sps \<Rightarrow> h264_slice_header \<Rightarrow> 'a h264_decoder \<Rightarrow> bool" where
  "frame_num_follows sps sh d \<longleftrightarrow>
     (let prev = (if sh_idr_pic_flag sh then 0 else hd_prev_ref_frame_num d)
      in sh_frame_num sh = prev \<or>
         sh_frame_num sh = (prev + 1) mod (16 * 2 ^ nat (sps_log2_max_frame_num_minus4 sps)))"

text \<open>The decoder when the picture is initialised.\<close>

definition start_state :: "h264_sps \<Rightarrow> h264_pps \<Rightarrow> h264_slice_header \<Rightarrow> 'a h264_decoder \<Rightarrow> 'a h264_decoder" where
  "start_state sps pps sh d =
     (let d = d\<lparr>hd_curr_pps_id := sh_pic_parameter_set_id sh, hd_curr_sps_id := pps_seq_parameter_set_id pps,
                hd_max_frame_num := 16 * 2 ^ nat (sps_log2_max_frame_num_minus4 sps)\<rparr>
      in if sh_idr_pic_flag sh then d\<lparr>hd_prev_ref_frame_num := 0\<rparr> else d)"

lemma start_state_fields:
  "hd_store (start_state sps pps sh d) = hd_store d" "hd_dpb (start_state sps pps sh d) = hd_dpb d"
  "hd_parser (start_state sps pps sh d) = hd_parser d" "hd_curr_pic (start_state sps pps sh d) = hd_curr_pic d"
  "prev_same d (start_state sps pps sh d)" "hd_curr_sps_id (start_state sps pps sh d) = pps_seq_parameter_set_id pps"
  "hd_max_frame_num (start_state sps pps sh d) = 16 * 2 ^ nat (sps_log2_max_frame_num_minus4 sps)"
  by (simp_all add: start_state_def prev_same_def Let_def)

lemma StartNewFrame_eq:
  assumes "hd_curr_pic d = Some a" "GetPPS (sh_pic_parameter_set_id sh) (hd_parser d) = Some pps"
    and "GetSPS (pps_seq_parameter_set_id pps) (hd_parser d) = Some sps" "poc_ranges_ok sps" "frame_num_follows sps sh d"
  shows "StartNewFrame srt acc sh d = submit_frame srt acc sps pps sh a (start_state sps pps sh d)"
proof -
  have m: "shl4 (sps_log2_max_frame_num_minus4 sps) = Some (16 * 2 ^ nat (sps_log2_max_frame_num_minus4 sps))"
    using assms(4) by (simp add: poc_ranges_ok_def shl4_simp)
  have "check_frame_num srt acc (sh_frame_num sh) (start_state sps pps sh d) = Some (True, start_state sps pps sh d)"
    using assms(5) by (auto simp: check_frame_num_def start_state_def frame_num_follows_def Let_def)
  then show ?thesis using assms(1-3) m unfolding StartNewFrame_def by (simp add: start_state_def Let_def)
qed

lemma submit_frame_same:
  assumes "submit_frame srt acc sps pps sh a d = Some (res, d2)" "InitCurrPicture sh a d = Some (True, d1)"
    and "a \<notin> set (dpb_pics (hd_dpb d1))"
  shows "same_picture a d1 d2"
proof -
  obtain x where x: "UpdatePicNums (sh_frame_num sh) d1 = Some x"
    using assms(1,2) by (cases "UpdatePicNums (sh_frame_num sh) d1") (simp_all add: submit_frame_def)
  obtain y where y: "PrepareRefPicLists srt x = Some y"
    using assms(1,2) x by (cases "PrepareRefPicLists srt x") (simp_all add: submit_frame_def)
  have "\<exists>s. d2 = y\<lparr>hd_accelerator := s\<rparr>"
    using assms(1,2) x y by (auto simp: submit_frame_def case_prod_beta Let_def)
  then have "same_picture a y d2" by (auto simp: same_picture_def)
  with UpdatePicNums_same [OF x assms(3)] PrepareRefPicLists_same [OF y, of a] show ?thesis
    by (blast intro: same_picture_trans)
qed

text \<open>The marking does not read the accelerator or the pointer to the current picture.\<close>

abbreviation detached :: "'a \<Rightarrow> nat option \<Rightarrow> 'a h264_decoder \<Rightarrow> 'a h264_decoder" where
  "detached s c d \<equiv> d\<lparr>hd_accelerator := s, hd_curr_pic := c\<rparr>"

lemma upd_pic_detached: "upd_pic b f (detached s c d) = detached s c (upd_pic b f d)"
  by (simp add: upd_pic_def)

lemma memory_management_op_detached:
  "memory_management_op a m (detached s c d) = map_option (apsnd (detached s c)) (memory_management_op a m d)"
proof (cases "i32 (rpm_difference_of_pic_nums_minus1 m + 1)")
  case None
  then show ?thesis
    by (cases "i32 (rpm_max_long_term_frame_idx_plus1 m - 1)")
      (simp_all add: memory_management_op_def Let_def upd_pic_def split: option.split)
next
  case (Some k)
  then show ?thesis
    by (cases "i32 (pi_pic_num (pic_of d a) - k)"; cases "i32 (rpm_max_long_term_frame_idx_plus1 m - 1)")
      (simp_all add: memory_management_op_def Let_def upd_pic_def split: option.split)
qed

lemma memory_management_loop_detached:
  "memory_management_loop a ms (detached s c d) = map_option (apsnd (detached s c)) (memory_management_loop a ms d)"
proof (induction ms arbitrary: d)
  case (Cons m ms)
  then show ?case
    by (cases "memory_management_op a m d") (auto simp: memory_management_op_detached)
qed simp

lemma ReferencePictureMarking_detached:
  "ReferencePictureMarking a (detached s c d) = map_option (apsnd (detached s c)) (ReferencePictureMarking a d)"
  by (auto simp: ReferencePictureMarking_def Let_def HandleMemoryManagementOps_def memory_management_loop_detached
      SlidingWindowPictureMarking_def upd_pic_def split: option.splits)

definition starts_agree :: "h264_sps \<Rightarrow> h264_slice_header \<Rightarrow> nat \<Rightarrow> 'a h264_decoder \<Rightarrow> int option \<times> h264_poc \<Rightarrow> bool \<times> 'a h264_decoder \<Rightarrow> bool" where
  "starts_agree sps sh a d = (\<lambda>(c, p') (ok, d'). ok \<and>
     c = Some (if HasMMCO5 sh then 0 else pi_pic_order_cnt (pic_of d' a)) \<and>
     poc_related sps p' (store_previous a (upd_pic a (\<lambda>pic. pic\<lparr>pi_mem_mgmt_5 := HasMMCO5 sh\<rparr>) d')) \<and>
     hd_dpb d' = hd_dpb d \<and> hd_curr_pic d' = hd_curr_pic d \<and> \<not> pi_mem_mgmt_5 (pic_of d' a) \<and>
     (HasMMCO5 sh \<longleftrightarrow> pi_ref (pic_of d' a) \<and> \<not> pi_idr (pic_of d' a) \<and>
        pi_adaptive_ref_pic_marking_mode_flag (pic_of d' a) \<and> ends_in_MMCO5 (pi_ref_pic_marking (pic_of d' a))))"

lemma InitCurrPicture_starts:
  assumes sps: "poc_sps_ok sps d" and sh: "poc_slice_ok sh" and fresh: "fresh_picture (pic_of d a)"
    and rel: "sh_idr_pic_flag sh \<or> poc_related sps p d"
  shows "rel_option (starts_agree sps sh a d) (ComputePicOrderCnt sps sh p) (InitCurrPicture sh a d)"
proof -
  let ?C = "CalculatePicOrderCounts a (upd_pic a (\<lambda>_. filled_for sps sh (pic_of d a)) d)"
  have agree: "rel_option (counts_agree sps sh a) (ComputePicOrderCnt sps sh p) ?C"
    by (rule calculated_counts_agree [OF sps sh fresh rel])
  show ?thesis
  proof (cases ?C)
    case None
    then show ?thesis using agree by (cases "ComputePicOrderCnt sps sh p") (simp_all add: InitCurrPicture_eq [OF sps sh fresh])
  next
    case (Some r)
    then obtain c p' ok dc where r: "ComputePicOrderCnt sps sh p = Some (c, p')" "?C = Some (ok, dc)" "counts_agree sps sh a (c, p') (ok, dc)"
      using agree by (cases "ComputePicOrderCnt sps sh p"; cases r) auto
    have ok: "ok" using r(3) by (simp add: counts_agree_def)
    have filled: "pi_idr (filled_for sps sh (pic_of d a)) = sh_idr_pic_flag sh" "pi_ref (filled_for sps sh (pic_of d a)) = (sh_nal_ref_idc sh \<noteq> 0)"
      "\<not> pi_mem_mgmt_5 (filled_for sps sh (pic_of d a))"
      using fresh_pictureD(2) [OF fresh] by (simp_all add: filled_for_def)
    have dc: "pi_idr (pic_of dc a) = sh_idr_pic_flag sh" "pi_ref (pic_of dc a) = (sh_nal_ref_idc sh \<noteq> 0)"
      "\<not> pi_mem_mgmt_5 (pic_of dc a)" "hd_dpb dc = hd_dpb d" "hd_curr_pic dc = hd_curr_pic d"
      using CalculatePicOrderCounts_other [OF r(2)] filled by simp_all
    obtain di where di: "InitCurrPicture sh a d = Some (True, di)"
      "di = upd_pic a (\<lambda>pic. (if sh_adaptive_ref_pic_marking_mode_flag sh then pic\<lparr>pi_ref_pic_marking := sh_ref_pic_marking sh\<rparr> else pic)
             \<lparr>pi_long_term_reference_flag := sh_long_term_reference_flag sh,
              pi_adaptive_ref_pic_marking_mode_flag := sh_adaptive_ref_pic_marking_mode_flag sh,
              pi_visible_rect := hd_visible_rect dc, pi_bitstream_id := hd_stream_id dc\<rparr>) dc"
      using r(2) ok by (simp add: InitCurrPicture_eq [OF sps sh fresh])
    have "poc_related sps p' (store_previous a (upd_pic a (\<lambda>pic. pic\<lparr>pi_mem_mgmt_5 := HasMMCO5 sh\<rparr>) di)) \<longleftrightarrow>
        poc_related sps p' (store_previous a (upd_pic a (\<lambda>pic. pic\<lparr>pi_mem_mgmt_5 := HasMMCO5 sh\<rparr>) dc))"
      unfolding di(2) by (intro store_previous_related) (simp_all add: count_same_def prev_same_def)
    moreover have "pi_pic_order_cnt (pic_of di a) = pi_pic_order_cnt (pic_of dc a)" unfolding di(2) by simp
    ultimately have "starts_agree sps sh a d (c, p') (True, di)"
      using r(3) dc unfolding starts_agree_def counts_agree_def by (auto simp: di(2) HasMMCO5_def)
    then show ?thesis using r(1) di(1) by simp
  qed
qed

lemma FinishPrev_related:
  assumes start: "starts_agree sps sh a d (c, p') (True, di)" and same: "same_picture a di d2"
    and a: "a \<notin> set (dpb_pics (hd_dpb d2))" "hd_curr_pic d2 = Some a"
    and fin: "FinishPrevFrameIfPresent srt acc d2 = Some (kStatusOk, d3)"
    and succeeds: "HasMMCO5 sh \<longrightarrow> (\<exists>d'. ReferencePictureMarking a d2 = Some (True, d'))"
  shows "poc_related sps p' d3"
proof -
  obtain s ok where s: "FinishPicture srt acc a (detached s None d2) = Some (ok, d3)"
    using fin a(2) by (cases "acc_SubmitDecode acc a (hd_store d2) (hd_accelerator d2)")
      (auto simp: FinishPrevFrameIfPresent_def Let_def split: if_splits)
  have m: "HasMMCO5 sh \<longrightarrow> (\<exists>d'. ReferencePictureMarking a (detached s None d2) = Some (True, d'))"
    using succeeds by (auto simp: ReferencePictureMarking_detached)
  have p: "prev_same di (detached s None d2)" "pic_of (detached s None d2) a = pic_of di a"
    using same by (simp_all add: same_picture_def prev_same_def)
  show ?thesis
  proof (rule finished_related [OF s _ p _ _ m])
    show "a \<notin> set (dpb_pics (hd_dpb (detached s None d2)))" using a(1) by simp
  qed (use start in \<open>unfold starts_agree_def prod.case, blast+\<close>)
qed

text \<open>
  C13: The decoder and \<open>H264POC\<close>, which compute order counts separately, agree frame by frame. Let the
  state of the decoder and that of \<open>H264POC\<close> be related as after the picture before, or the new
  picture be an IDR picture, and let \<open>StartNewFrame\<close> start a new picture. Where \<open>H264POC\<close> overflows,
  so does the decoder; otherwise both give the picture the same order count, except that \<open>H264POC\<close>
  gives 0 to a picture with memory management operation 5. After any slices of the picture,
  \<open>FinishPrevFrameIfPresent\<close>, when the accelerator accepts the picture, leaves the states related
  again. Conditions: the current picture is new and not in the buffer; its parameter sets are there,
  with values in the ranges that the parser enforces; it is a frame and not a field, and an IDR
  picture is a reference; its frame number follows that of the last reference picture, so that
  the decoder inserts no missing pictures (after which the counts can differ); and, for a picture
  with operation 5, all its marking operations succeed (the decoder drops the rest after one that
  fails, \<open>H264POC\<close> does not look).
\<close>
theorem decoder_agrees_with_H264POC:
  assumes pic: "hd_curr_pic d = Some a" "fresh_picture (pic_of d a)" "a \<notin> set (dpb_pics (hd_dpb d))"
    and pps: "GetPPS (sh_pic_parameter_set_id sh) (hd_parser d) = Some pps"
    and sps: "GetSPS (pps_seq_parameter_set_id pps) (hd_parser d) = Some sps" "poc_ranges_ok sps"
    and sh: "poc_slice_ok sh" "frame_num_follows sps sh d"
    and rel: "sh_idr_pic_flag sh \<or> poc_related sps p d"
  shows "case ComputePicOrderCnt sps sh p of
      None \<Rightarrow> StartNewFrame srt acc sh d = None
    | Some (c, p') \<Rightarrow> \<forall>res d1. StartNewFrame srt acc sh d = Some (res, d1) \<longrightarrow>
        c = Some (if HasMMCO5 sh then 0 else pi_pic_order_cnt (pic_of d1 a)) \<and>
        (\<forall>d2 d3. (slice_step acc)\<^sup>*\<^sup>* d1 d2 \<longrightarrow> FinishPrevFrameIfPresent srt acc d2 = Some (kStatusOk, d3) \<longrightarrow>
           (HasMMCO5 sh \<longrightarrow> (\<exists>d'. ReferencePictureMarking a d2 = Some (True, d'))) \<longrightarrow> poc_related sps p' d3)"
proof -
  let ?d = "start_state sps pps sh d"
  note f = start_state_fields [where sps = sps and pps = pps and sh = sh and d = d]
  have start: "StartNewFrame srt acc sh d = submit_frame srt acc sps pps sh a ?d"
    by (rule StartNewFrame_eq [OF pic(1) pps sps sh(2)])
  have agree: "rel_option (starts_agree sps sh a ?d) (ComputePicOrderCnt sps sh p) (InitCurrPicture sh a ?d)"
    by (rule InitCurrPicture_starts) (use f sps sh pic(2) rel prev_same_related [OF f(5)] in \<open>auto simp: poc_sps_ok_def\<close>)
  show ?thesis
  proof (cases "ComputePicOrderCnt sps sh p")
    case None
    then show ?thesis using agree by (cases "InitCurrPicture sh a ?d") (simp_all add: start submit_frame_def)
  next
    case (Some r)
    then obtain c p' ok di where r: "ComputePicOrderCnt sps sh p = Some (c, p')" "InitCurrPicture sh a ?d = Some (ok, di)"
      "starts_agree sps sh a ?d (c, p') (ok, di)"
      using agree by (cases "InitCurrPicture sh a ?d"; cases r) auto
    have "ok" using r(3) by (simp add: starts_agree_def)
    then have r: "ComputePicOrderCnt sps sh p = Some (c, p')" "InitCurrPicture sh a ?d = Some (True, di)"
      "starts_agree sps sh a ?d (c, p') (True, di)" using r by simp_all
    have a: "a \<notin> set (dpb_pics (hd_dpb di))" using r(3) pic(3) f(2) by (simp add: starts_agree_def)
    have cur: "hd_curr_pic di = Some a" using r(3) pic(1) f(4) by (simp add: starts_agree_def)
    have same: "same_picture a di d1" if "StartNewFrame srt acc sh d = Some (res, d1)" for res d1
      by (rule submit_frame_same [OF that [unfolded start] r(2) a])
    have "c = Some (if HasMMCO5 sh then 0 else pi_pic_order_cnt (pic_of d1 a))" if "same_picture a di d1" for d1
      using r(3) that by (simp add: starts_agree_def same_picture_def)
    moreover have "poc_related sps p' d3"
      if "same_picture a di d1" "(slice_step acc)\<^sup>*\<^sup>* d1 d2" "FinishPrevFrameIfPresent srt acc d2 = Some (kStatusOk, d3)"
        "HasMMCO5 sh \<longrightarrow> (\<exists>d'. ReferencePictureMarking a d2 = Some (True, d'))" for d1 d2 d3
    proof -
      have "same_picture a di d2" by (rule same_picture_trans [OF that(1) slice_steps_same [OF that(2)]])
      then show ?thesis
        using FinishPrev_related [OF r(3) _ _ _ that(3,4)] a cur by (simp add: same_picture_def)
    qed
    ultimately show ?thesis using r(1) same by auto
  qed
qed

section \<open>A concrete decoder\<close>

text \<open>An accelerator that accepts everything and records the pictures it outputs.\<close>

definition recorder :: "nat list h264_accelerator" where
  "recorder = \<lparr>acc_CreateH264Picture = Pair True, acc_SubmitFrameMetadata = (\<lambda>_ _ _ _ _ _ _ _ s. (kStatusOk, s)),
     acc_SubmitSlice = (\<lambda>_ _ _ _ _ _ _ _ _ s. (kStatusOk, s)), acc_SubmitDecode = (\<lambda>_ _ s. (kStatusOk, s)),
     acc_OutputPicture = (\<lambda>a _ s. s @ [a]), acc_Reset = (\<lambda>s. s), acc_SetStream = (\<lambda>_ _ s. (kStatusNotSupported, s)),
     acc_ParseSliceHeader = (\<lambda>_ s. (kStatusNotSupported, H264SliceHeader_zero, s))\<rparr>"

lemma recorder_logs: "logs recorder (\<lambda>s. s)"
  by (simp add: logs_def recorder_def)

text \<open>Two reference pictures wait for output, and the picture to finish lies between them.\<close>

definition finish_sample :: "nat list h264_decoder" where
  "finish_sample = (H264Decoder_new VideoColorSpace_init [])\<lparr>
     hd_dpb := \<lparr>dpb_pics = [0, 1], dpb_max_num_pics = 4\<rparr>, hd_next := 3, hd_max_num_reorder_frames := 1,
     hd_store := (\<lambda>_. H264Picture_init)(0 := short_pic 0 1, 1 := short_pic 8 2, 2 := H264Picture_init\<lparr>pi_pic_order_cnt := 4\<rparr>)\<rparr>"

lemma finish_sample_fields [simp]:
  "hd_dpb finish_sample = \<lparr>dpb_pics = [0, 1], dpb_max_num_pics = 4\<rparr>"
  "\<not> pi_ref (pic_of finish_sample 2)" "\<not> pi_outputted (pic_of finish_sample b)"
  "pi_ref (pic_of finish_sample 0)" "pi_ref (pic_of finish_sample (Suc 0))"
  "pi_pic_order_cnt (pic_of finish_sample 0) = 0" "pi_pic_order_cnt (pic_of finish_sample (Suc 0)) = 8"
  "pi_pic_order_cnt (pic_of finish_sample 2) = 4"
  by (simp_all add: finish_sample_def H264Decoder_new_def short_pic_def H264Picture_init_def)

lemma FinishPicture_outputs_in_order_witness:
  "\<exists>ok d' S k. FinishPicture sort_key recorder 2 finish_sample = Some (ok, d') \<and>
     finish_result (\<lambda>s. s) 2 finish_sample finish_sample S k ok d'"
proof (rule FinishPicture_outputs_in_order [OF sorts_sort_key recorder_logs])
  show "dpb_ready 2 finish_sample" by (simp add: dpb_ready_def)
  show "(if pi_ref (pic_of finish_sample 2) then ReferencePictureMarking 2 finish_sample else Some (True, finish_sample)) =
      Some (True, finish_sample)" by simp
  show "order_unique 2 finish_sample" by (simp add: order_unique_def waiting_def)
qed

text \<open>The IDR picture that starts a stream, as the decoder is about to start it.\<close>

definition poc_decoder :: "nat list h264_decoder" where
  "poc_decoder = (H264Decoder_new VideoColorSpace_init [])\<lparr>
     hd_parser := H264Parser_init\<lparr>hp_active_SPSes := [0 \<mapsto> poc_sps], hp_active_PPSes := [0 \<mapsto> H264PPS_zero]\<rparr>,
     hd_curr_pic := Some 0, hd_next := 1\<rparr>"

definition idr_slice :: h264_slice_header where
  "idr_slice = (poc_slice 0 0)\<lparr>sh_idr_pic_flag := True\<rparr>"

lemma decoder_agrees_with_H264POC_witness:
  "case ComputePicOrderCnt poc_sps idr_slice H264POC_init of
      None \<Rightarrow> StartNewFrame sort_key recorder idr_slice poc_decoder = None
    | Some (c, p') \<Rightarrow> \<forall>res d1. StartNewFrame sort_key recorder idr_slice poc_decoder = Some (res, d1) \<longrightarrow>
        c = Some (if HasMMCO5 idr_slice then 0 else pi_pic_order_cnt (pic_of d1 0)) \<and>
        (\<forall>d2 d3. (slice_step recorder)\<^sup>*\<^sup>* d1 d2 \<longrightarrow> FinishPrevFrameIfPresent sort_key recorder d2 = Some (kStatusOk, d3) \<longrightarrow>
           (HasMMCO5 idr_slice \<longrightarrow> (\<exists>d'. ReferencePictureMarking 0 d2 = Some (True, d'))) \<longrightarrow> poc_related poc_sps p' d3)"
  by (rule decoder_agrees_with_H264POC [where pps = H264PPS_zero])
    (simp_all add: poc_decoder_def H264Decoder_new_def H264DPB_init_def fresh_picture_def H264Picture_init_def GetPPS_def GetSPS_def
      idr_slice_def poc_sample poc_slice_ok_def poc_ranges_ok_def frame_num_follows_def H264PPS_zero_def)

end
