(* ===== verification/H264_Decode.thy ===== *)
theory H264_Decode
  imports H264_Decoder
begin

text \<open>
  The loop of the H.264 decoder over NAL units (\<open>H264Decoder::Decode\<close> of \<open>gpu/h264_decoder.cc\<close>) with the calls
  of the client around it, and the invariant of the decoder that all of them keep.
\<close>

section \<open>The loop over NAL units\<close>

datatype decode_result =
    kDecodeError | kAllocateNewSurfaces | kRanOutOfStreamData | kRanOutOfSurfaces | kNeedContextUpdate | kTryAgain

text \<open>A part of \<open>Decode\<close> ends with a result that \<open>Decode\<close> returns, or goes on.\<close>

type_synonym 'a decode_step = "(decode_result option \<times> 'a h264_decoder) option"

definition SET_ERROR_AND_RETURN :: "'a h264_decoder \<Rightarrow> 'a decode_step" where
  "SET_ERROR_AND_RETURN d = Some (Some kDecodeError, d\<lparr>hd_state := kError\<rparr>)"

definition CHECK_ACCELERATOR_RESULT ::
  "(acc_status \<times> 'a h264_decoder) option \<Rightarrow> ('a h264_decoder \<Rightarrow> 'a decode_step) \<Rightarrow> 'a decode_step" where
  "CHECK_ACCELERATOR_RESULT res k =
     (case res of
        None \<Rightarrow> None
      | Some (kStatusOk, d) \<Rightarrow> k d
      | Some (kStatusTryAgain, d) \<Rightarrow> Some (Some kTryAgain, d)
      | Some (kStatusFail, d) \<Rightarrow> SET_ERROR_AND_RETURN d
      | Some (kStatusNotSupported, d) \<Rightarrow> SET_ERROR_AND_RETURN d)"

definition and_then :: "'a decode_step \<Rightarrow> ('a h264_decoder \<Rightarrow> 'a decode_step) \<Rightarrow> 'a decode_step" where
  "and_then res k = (case res of None \<Rightarrow> None | Some (Some r, d) \<Rightarrow> Some (Some r, d) | Some (None, d) \<Rightarrow> k d)"

definition SetStream_decoder ::
  "int \<Rightarrow> u8 list \<Rightarrow> decrypt_config option \<Rightarrow> 'a h264_decoder \<Rightarrow> 'a h264_decoder option" where
  "SetStream_decoder stream_id stream config d =
     (if stream = [] then None
      else
        let d = d\<lparr>hd_stream_id := stream_id, hd_current_stream := stream, hd_current_stream_has_been_changed := True\<rparr> in
        case config of
          Some c \<Rightarrow> map_option (\<lambda>p. d\<lparr>hd_parser := p, hd_current_decrypt_config := Some c\<rparr>)
                      (SetEncryptedStream stream (dc_subsamples c) (hd_parser d))
        | None \<Rightarrow> map_option (\<lambda>p. d\<lparr>hd_parser := p, hd_current_decrypt_config := None\<rparr>) (SetStream stream (hd_parser d)))"

text \<open>The slice header, by the accelerator or by the parser; of a header that fails to parse nothing is read.\<close>

definition parse_slice_header :: "'a h264_accelerator \<Rightarrow> h264_nalu \<Rightarrow> 'a h264_decoder \<Rightarrow> 'a decode_step" where
  "parse_slice_header acc nalu d =
     (case hd_curr_slice_hdr d of
        Some sh \<Rightarrow> Some (None, d)
      | None \<Rightarrow>
          let (result, sh, s) = acc_ParseSliceHeader acc nalu (hd_accelerator d);
              d = d\<lparr>hd_accelerator := s\<rparr>
          in and_then
               (case result of
                  kStatusOk \<Rightarrow> Some (None, d\<lparr>hd_curr_slice_hdr := Some sh\<rparr>)
                | kStatusTryAgain \<Rightarrow> Some (Some kTryAgain, d)
                | kStatusNotSupported \<Rightarrow>
                    (case ParseSliceHeader nalu (hd_parser d) of
                       None \<Rightarrow> None
                     | Some (par_res, sh, p) \<Rightarrow>
                         let d = d\<lparr>hd_parser := p, hd_curr_slice_hdr := sh\<rparr> in
                         if par_res = kOk then Some (None, d) else SET_ERROR_AND_RETURN d)
                | kStatusFail \<Rightarrow> SET_ERROR_AND_RETURN d)
               (\<lambda>d. Some (None, d\<lparr>hd_state := kTryPreprocessCurrentSlice\<rparr>)))"

definition preprocess_slice :: "pic_sort \<Rightarrow> 'a h264_accelerator \<Rightarrow> h264_slice_header \<Rightarrow> 'a h264_decoder \<Rightarrow> 'a decode_step" where
  "preprocess_slice srt acc sh d =
     (if hd_state d = kTryPreprocessCurrentSlice then
        CHECK_ACCELERATOR_RESULT (PreprocessCurrentSlice srt acc sh d) (\<lambda>d. Some (None, d\<lparr>hd_state := kEnsurePicture\<rparr>))
      else Some (None, d))"

definition ensure_picture :: "'a h264_accelerator \<Rightarrow> 'a h264_decoder \<Rightarrow> 'a decode_step" where
  "ensure_picture acc d =
     (if hd_state d = kEnsurePicture then
        if hd_curr_pic d \<noteq> None then Some (None, d\<lparr>hd_state := kTryCurrentSlice\<rparr>)
        else
          let (made, s) = acc_CreateH264Picture acc (hd_accelerator d);
              d = d\<lparr>hd_accelerator := s\<rparr>
          in if \<not> made then Some (Some kRanOutOfSurfaces, d)
             else
               let (a, d) = new_picture d;
                   d = upd_pic a (\<lambda>pic. case hd_current_decrypt_config d of None \<Rightarrow> pic | Some c \<Rightarrow> pic\<lparr>pi_decrypt_config := Some c\<rparr>) d
               in Some (None, d\<lparr>hd_curr_pic := Some a, hd_state := kTryNewFrame\<rparr>)
      else Some (None, d))"

definition try_new_frame :: "pic_sort \<Rightarrow> 'a h264_accelerator \<Rightarrow> h264_slice_header \<Rightarrow> 'a h264_decoder \<Rightarrow> 'a decode_step" where
  "try_new_frame srt acc sh d =
     (if hd_state d = kTryNewFrame then
        CHECK_ACCELERATOR_RESULT (StartNewFrame srt acc sh d) (\<lambda>d. Some (None, d\<lparr>hd_state := kTryCurrentSlice\<rparr>))
      else Some (None, d))"

definition try_current_slice :: "'a h264_accelerator \<Rightarrow> h264_slice_header \<Rightarrow> 'a h264_decoder \<Rightarrow> 'a decode_step" where
  "try_current_slice acc sh d =
     (if hd_state d \<noteq> kTryCurrentSlice then None
      else CHECK_ACCELERATOR_RESULT (ProcessCurrentSlice acc sh d)
             (\<lambda>d. Some (None, d\<lparr>hd_curr_slice_hdr := None, hd_state := kDecoding\<rparr>)))"

definition decode_slice :: "pic_sort \<Rightarrow> 'a h264_accelerator \<Rightarrow> h264_nalu \<Rightarrow> 'a h264_decoder \<Rightarrow> 'a decode_step" where
  "decode_slice srt acc nalu d =
     (if hd_state d = kNeedStreamMetadata then Some (None, d)
      else
        and_then (parse_slice_header acc nalu d) (\<lambda>d.
        case hd_curr_slice_hdr d of
          None \<Rightarrow> None
        | Some sh \<Rightarrow>
            and_then (preprocess_slice srt acc sh d) (\<lambda>d.
            and_then (ensure_picture acc d) (\<lambda>d.
            and_then (try_new_frame srt acc sh d) (\<lambda>d.
            try_current_slice acc sh d)))))"

definition decode_sps :: "pic_sort \<Rightarrow> 'a h264_accelerator \<Rightarrow> 'a h264_decoder \<Rightarrow> 'a decode_step" where
  "decode_sps srt acc d =
     CHECK_ACCELERATOR_RESULT (FinishPrevFrameIfPresent srt acc d) (\<lambda>d.
     case ParseSPS (hd_parser d) of
       None \<Rightarrow> None
     | Some (par_res, sps_id, p) \<Rightarrow>
         let d = d\<lparr>hd_parser := p\<rparr> in
         case sps_id of
           None \<Rightarrow> SET_ERROR_AND_RETURN d
         | Some sps_id \<Rightarrow>
             if par_res \<noteq> kOk then SET_ERROR_AND_RETURN d
             else case ProcessSPS srt acc sps_id d of
               None \<Rightarrow> None
             | Some (ok, need_new_buffers, d) \<Rightarrow>
                 if \<not> ok then SET_ERROR_AND_RETURN d
                 else
                   let d = (if hd_state d = kNeedStreamMetadata then d\<lparr>hd_state := kAfterReset\<rparr> else d) in
                   if need_new_buffers then
                     Some (Some kAllocateNewSurfaces, d\<lparr>hd_curr_pic := None, hd_curr_nalu := None, hd_ref_pic_list_p0 := [],
                       hd_ref_pic_list_b0 := [], hd_ref_pic_list_b1 := []\<rparr>)
                   else Some (None, d))"

definition decode_pps :: "pic_sort \<Rightarrow> 'a h264_accelerator \<Rightarrow> 'a h264_decoder \<Rightarrow> 'a decode_step" where
  "decode_pps srt acc d =
     CHECK_ACCELERATOR_RESULT (FinishPrevFrameIfPresent srt acc d) (\<lambda>d.
     case ParsePPS (hd_parser d) of
       None \<Rightarrow> None
     | Some (par_res, pps_id, p) \<Rightarrow>
         let d = d\<lparr>hd_parser := p\<rparr> in
         if par_res \<noteq> kOk then SET_ERROR_AND_RETURN d else Some (None, d))"

definition decode_nalu :: "pic_sort \<Rightarrow> 'a h264_accelerator \<Rightarrow> h264_nalu \<Rightarrow> 'a h264_decoder \<Rightarrow> 'a decode_step" where
  "decode_nalu srt acc nalu d =
     (let t = na_nal_unit_type nalu in
      if t = kNonIDRSlice then
        if hd_state d = kError \<or> hd_state d = kAfterReset then Some (None, d) else decode_slice srt acc nalu d
      else if t = kIDRSlice then decode_slice srt acc nalu d
      else if t = kSPS then decode_sps srt acc d
      else if t = kPPS then decode_pps srt acc d
      else if t = kAUD \<or> t = kEOSeq \<or> t = kEOStreamNalu then
        if hd_state d \<noteq> kDecoding then Some (None, d)
        else CHECK_ACCELERATOR_RESULT (FinishPrevFrameIfPresent srt acc d) (\<lambda>d. Some (None, d))
      else Some (None, d))"

text \<open>The NAL unit to process: the one kept by an earlier call, or the next one of the stream.\<close>

definition current_nalu :: "'a h264_decoder \<Rightarrow> (decode_result + h264_nalu) \<times> 'a h264_decoder" where
  "current_nalu d =
     (case hd_curr_nalu d of
        Some nalu \<Rightarrow> (Inr nalu, d)
      | None \<Rightarrow>
          (case AdvanceToNextNALU (hd_parser d) of
             (par_res, nalu, p) \<Rightarrow>
               let d = d\<lparr>hd_curr_nalu := Some nalu, hd_parser := p\<rparr> in
               if par_res = kEOStream then (Inl kRanOutOfStreamData, d)
               else if par_res \<noteq> kOk then (Inl kDecodeError, d\<lparr>hd_state := kError\<rparr>)
               else (Inr nalu, d)))"

definition decode_loop_measure :: "'a h264_decoder \<Rightarrow> nat" where
  "decode_loop_measure d = hp_bytes_left (hd_parser d) + (if hd_curr_nalu d = None then 0 else 1)"

section \<open>Frames, parameter sets and slices\<close>

text \<open>What an operation does to the invariant and to the parser.\<close>

definition steps_ok :: "pic_sort \<Rightarrow> 'a h264_decoder \<Rightarrow> 'a h264_decoder \<Rightarrow> bool" where
  "steps_ok srt d d' \<longleftrightarrow> (sorts srt \<and> dec_ok d \<longrightarrow> dec_ok d') \<and> hd_parser d' = hd_parser d"

lemma steps_refl [simp]: "steps_ok srt d d"
  by (simp add: steps_ok_def)

lemma steps_trans: "steps_ok srt d d' \<Longrightarrow> steps_ok srt d' d'' \<Longrightarrow> steps_ok srt d d''"
  by (simp add: steps_ok_def)

lemma soft_steps: "soft d d' \<Longrightarrow> steps_ok srt d d'"
  by (simp add: steps_ok_def soft_ok)

lemma FinishPrev_steps:
  assumes fin: "FinishPrevFrameIfPresent srt acc d = Some (res, d')"
  shows "steps_ok srt d d'" "res = kStatusOk \<Longrightarrow> hd_curr_pic d' = None"
proof -
  have both: "steps_ok srt d d' \<and> (res = kStatusOk \<longrightarrow> hd_curr_pic d' = None)"
  proof (cases "hd_curr_pic d")
    case (Some a)
    obtain r s where sub: "acc_SubmitDecode acc a (hd_store d) (hd_accelerator d) = (r, s)" by fastforce
    let ?d1 = "d\<lparr>hd_accelerator := s\<rparr>"
    have soft1: "soft d ?d1" by (simp add: soft_def)
    show ?thesis
    proof (cases "r = kStatusOk")
      case True
      let ?d2 = "?d1\<lparr>hd_curr_pic := None\<rparr>"
      obtain ok where f: "FinishPicture srt acc a ?d2 = Some (ok, d')" using fin Some sub True by (auto simp: FinishPrevFrameIfPresent_def)
      have "steps_ok srt d d' \<and> hd_curr_pic d' = None" if "\<not> (sorts srt \<and> dec_ok d)"
      proof -
        have "hd_parser d' = hd_parser ?d2 \<and> hd_curr_pic d' = None"
          using FinishPicture_keep [OF f] by (simp add: keeps_def)
        then show ?thesis using that by (auto simp: steps_ok_def)
      qed
      moreover have "steps_ok srt d d' \<and> hd_curr_pic d' = None" if srt: "sorts srt" and ok: "dec_ok d"
      proof -
        have "dpb_ok ?d2" "a \<notin> set (dpb_pics (hd_dpb ?d2))" "a < hd_next ?d2"
          using ok Some by (auto simp: dec_ok_def dpb_ok_def cur_ok_def positions_ok_def)
        from FinishPicture_keeps [OF srt f this] show ?thesis by (simp add: steps_ok_def dec_ok_def cur_ok_def keeps_def)
      qed
      ultimately show ?thesis by blast
    next
      case False
      then show ?thesis using fin Some sub soft_steps [OF soft1] by (auto simp: FinishPrevFrameIfPresent_def)
    qed
  qed (use fin in \<open>auto simp: FinishPrevFrameIfPresent_def\<close>)
  show "steps_ok srt d d'" "res = kStatusOk \<Longrightarrow> hd_curr_pic d' = None" using both by auto
qed

lemma output_pics_keep: "output_pics acc cs d = Some d' \<Longrightarrow> keeps d d'"
  by (induction cs arbitrary: d) (auto simp: bind_eq_Some_conv dest!: OutputPic_keeps(1), blast intro: keeps_trans)

lemma OutputAllRemainingPics_steps:
  assumes out: "OutputAllRemainingPics srt acc d = Some d'"
  shows "steps_ok srt d d'"
proof -
  obtain res d1 where d: "FinishPrevFrameIfPresent srt acc d = Some (res, d1)"
    "output_pics acc (srt (POCAsc (hd_store d1)) (waiting d1)) d1 = Some d'"
    using out by (auto simp: OutputAllRemainingPics_def bind_eq_Some_conv)
  have "steps_ok srt d1 d'"
  proof (cases "sorts srt \<and> dec_ok d1")
    case True
    then have srt: "sorts srt" and ok: "distinct (dpb_pics (hd_dpb d1))" "positions_ok d1" "dpb_ok d1" by (simp_all add: dec_ok_def dpb_ok_def)
    have s: "shrinks (set (waiting d1)) d1 d'" by (rule output_pics_shrinks [OF d(2) ok(1,2)]) (simp add: srt)
    have "cur_ok d'" using True s by (auto simp: dec_ok_def cur_ok_def shrinks_def keeps_def waiting_def split: option.splits)
    then show ?thesis using shrinks_dpb_ok [OF s ok(3)] s by (simp add: steps_ok_def dec_ok_def shrinks_def keeps_def)
  next
    case False
    then show ?thesis using output_pics_keep [OF d(2)] by (auto simp: steps_ok_def keeps_def)
  qed
  then show ?thesis using FinishPrev_steps(1) [OF d(1)] steps_trans by blast
qed

lemma clear_dpb_steps: "steps_ok srt d (d\<lparr>hd_dpb := DPB_Clear (hd_dpb d), hd_last_output_poc := p\<rparr>)"
  by (auto simp: steps_ok_def dec_ok_def dpb_ok_def cur_ok_def positions_ok_def DPB_Clear_def split: option.splits)

lemma Flush_steps: "Flush srt acc d = Some d' \<Longrightarrow> steps_ok srt d d'"
  unfolding Flush_def ClearDPB_def using OutputAllRemainingPics_steps clear_dpb_steps steps_trans by fast

lemma set_max_steps:
  assumes "set_max_num_pics n (hd_dpb d) = Some dpb"
  shows "steps_ok srt d (d\<lparr>hd_pic_size := z, hd_dpb := dpb\<rparr>)"
proof -
  have n: "n \<le> kDPBMaxSize" "dpb_pics dpb = take n (dpb_pics (hd_dpb d))" "dpb_max_num_pics dpb = n"
    using assms by (auto simp: set_max_num_pics_def split: if_splits)
  then show ?thesis
    by (auto simp: steps_ok_def dec_ok_def dpb_ok_def cur_ok_def positions_ok_def dest: in_set_takeD split: option.splits)
qed

lemma UpdateMax_steps: "UpdateMaxNumReorderFrames sps d = Some (ok, d') \<Longrightarrow> soft d d'"
  by (auto simp: UpdateMaxNumReorderFrames_def soft_def Let_def split: if_splits)

lemma set_sizes_steps: "set_sizes srt acc z n d = Some (c, d') \<Longrightarrow> steps_ok srt d d'"
  by (auto simp: set_sizes_def bind_eq_Some_conv split: if_splits intro: steps_trans [OF Flush_steps set_max_steps])

lemma ProcessSPS_steps:
  assumes p: "ProcessSPS srt acc i d = Some (ok, need, d')"
  shows "steps_ok srt d d'"
proof -
  have "d' = d \<or> (\<exists>c z n r sps d2. set_sizes srt acc z n d = Some (c, d2) \<and>
      UpdateMaxNumReorderFrames sps (d2\<lparr>hd_visible_rect := r\<rparr>) = Some (ok, d'))"
    using p unfolding ProcessSPS_def
    by (auto simp: Let_def bind_eq_Some_conv split: option.splits if_splits prod.splits)
  then show ?thesis
  proof (elim disjE exE conjE)
    fix c z n r sps d2
    assume c: "set_sizes srt acc z n d = Some (c, d2)" and u: "UpdateMaxNumReorderFrames sps (d2\<lparr>hd_visible_rect := r\<rparr>) = Some (ok, d')"
    have "soft d2 (d2\<lparr>hd_visible_rect := r\<rparr>)" by (simp add: soft_def)
    then show ?thesis using set_sizes_steps [OF c] UpdateMax_steps [OF u] soft_steps soft_trans steps_trans by blast
  qed simp
qed

lemma new_picture_ok:
  assumes "new_picture d = (a, d1)"
  shows "a = hd_next d" "hd_parser d1 = hd_parser d" "hd_next d1 = hd_next d + 1" "hd_dpb d1 = hd_dpb d" "hd_curr_pic d1 = hd_curr_pic d"
    "dec_ok d \<Longrightarrow> dec_ok d1 \<and> a \<notin> set (dpb_pics (hd_dpb d)) \<and> (\<forall>c. hd_curr_pic d = Some c \<longrightarrow> c \<noteq> a)"
    "\<not> pi_outputted (pic_of d1 a)"
proof -
  have d1: "a = hd_next d" "d1 = d\<lparr>hd_store := (hd_store d)(hd_next d := H264Picture_init), hd_next := hd_next d + 1\<rparr>"
    using assms by (auto simp: new_picture_def)
  show "a = hd_next d" "hd_parser d1 = hd_parser d" "hd_next d1 = hd_next d + 1" "hd_dpb d1 = hd_dpb d" "hd_curr_pic d1 = hd_curr_pic d"
    "\<not> pi_outputted (pic_of d1 a)"
    by (simp_all add: d1 H264Picture_init_def)
  show "dec_ok d1 \<and> a \<notin> set (dpb_pics (hd_dpb d)) \<and> (\<forall>c. hd_curr_pic d = Some c \<longrightarrow> c \<noteq> a)" if "dec_ok d"
  proof -
    have lt: "\<forall>p\<in>set (dpb_pics (hd_dpb d)). p < hd_next d" "\<forall>c. hd_curr_pic d = Some c \<longrightarrow> c < hd_next d"
      using that by (auto simp: dec_ok_def dpb_ok_def cur_ok_def)
    have "positions_ok d1"
      using that lt(1) nth_mem by (fastforce simp: dec_ok_def dpb_ok_def positions_ok_def d1(2))
    then have "dpb_ok d1" using that lt(1) by (auto simp: dec_ok_def dpb_ok_def d1(2) intro: less_SucI)
    moreover have "cur_ok d1" using that lt(2) by (auto simp: dec_ok_def cur_ok_def d1(2) split: option.splits)
    ultimately show ?thesis using lt by (auto simp: dec_ok_def d1(1))
  qed
qed

text \<open>A picture that is not the current one is finished.\<close>

lemma finish_other_steps:
  assumes f: "FinishPicture srt acc a d = Some (ok, d')"
    and a: "dec_ok d \<Longrightarrow> a \<notin> set (dpb_pics (hd_dpb d)) \<and> a < hd_next d \<and> (\<forall>c. hd_curr_pic d = Some c \<longrightarrow> c \<noteq> a)"
  shows "steps_ok srt d d'"
proof (cases "sorts srt \<and> dec_ok d")
  case True
  then have srt: "sorts srt" by simp
  from True a have "dpb_ok d" "a \<notin> set (dpb_pics (hd_dpb d))" "a < hd_next d" by (auto simp: dec_ok_def)
  note k = FinishPicture_keeps [OF srt f this]
  have "cur_ok d'"
  proof (cases "hd_curr_pic d")
    case (Some c)
    then have "c < hd_next d" "c \<notin> insert a (set (dpb_pics (hd_dpb d)))" "\<not> pi_outputted (pic_of d c)"
      using True a by (auto simp: dec_ok_def cur_ok_def)
    then show ?thesis using k Some by (auto simp: cur_ok_def keeps_def)
  qed (use k in \<open>simp add: cur_ok_def keeps_def\<close>)
  then show ?thesis using k by (simp add: steps_ok_def dec_ok_def keeps_def)
next
  case False
  then show ?thesis using FinishPicture_keep [OF f] by (auto simp: steps_ok_def keeps_def)
qed

lemma InitNonexistingPicture_soft: "InitNonexistingPicture a n d = Some (ok, d') \<Longrightarrow> soft d d'"
  unfolding InitNonexistingPicture_def
  by (drule CalculatePicOrderCounts_soft, erule soft_trans [rotated], rule upd_pic_soft) simp_all

lemma insert_missing_frame_steps:
  assumes f: "insert_missing_frame srt acc u d = Some (ok, d')"
  shows "steps_ok srt d d'"
proof -
  obtain a d1 where new: "new_picture d = (a, d1)" by fastforce
  note n = new_picture_ok [OF new]
  have s1: "steps_ok srt d d1" using n by (simp add: steps_ok_def)
  obtain ok1 d2 where d2: "InitNonexistingPicture a u d1 = Some (ok1, d2)"
    using f new by (auto simp: insert_missing_frame_def bind_eq_Some_conv)
  note soft2 = InitNonexistingPicture_soft [OF d2]
  show ?thesis
  proof (cases ok1)
    case True
    obtain d3 where d3: "UpdatePicNums u d2 = Some d3" "FinishPicture srt acc a d3 = Some (ok, d')"
      using f new d2 True by (auto simp: insert_missing_frame_def bind_eq_Some_conv)
    have soft3: "soft d1 d3" using soft2 UpdatePicNums_soft [OF d3(1)] soft_trans by blast
    show ?thesis
    proof (cases "dec_ok d")
      case True
      have "steps_ok srt d3 d'"
        by (rule finish_other_steps [OF d3(2)]) (use n True soft3 in \<open>auto simp: soft_def\<close>)
      then show ?thesis using s1 soft_steps [OF soft3] steps_trans by blast
    next
      case False
      then show ?thesis using FinishPicture_keep [OF d3(2)] soft3 n(2) by (simp add: steps_ok_def keeps_def soft_def)
    qed
  next
    case False
    then have "d' = d2" using f new d2 by (auto simp: insert_missing_frame_def)
    then show ?thesis using s1 soft_steps [OF soft2] steps_trans by blast
  qed
qed

lemma gap_loop_steps:
  "frame_num_gap_loop fuel srt acc n u d = Some (ok, d') \<Longrightarrow> steps_ok srt d d'"
proof (induction fuel arbitrary: u d)
  case 0
  then show ?case by (subst (asm) frame_num_gap_loop.simps) (simp split: if_splits)
next
  case (Suc fuel)
  show ?case
  proof (cases "u = n")
    case True
    then show ?thesis using Suc.prems by (subst (asm) frame_num_gap_loop.simps) simp
  next
    case False
    obtain ok1 d1 where d1: "insert_missing_frame srt acc u d = Some (ok1, d1)"
      "(if \<not> ok1 then Some (False, d1) else frame_num_gap_loop fuel srt acc n ((u + 1) mod hd_max_frame_num d1) d1) = Some (ok, d')"
      using Suc.prems False by (subst (asm) frame_num_gap_loop.simps) (auto simp: bind_eq_Some_conv)
    then have "steps_ok srt d1 d'" using Suc.IH by (auto split: if_splits)
    then show ?thesis using insert_missing_frame_steps [OF d1(1)] steps_trans by blast
  qed
qed

lemma HandleFrameNumGap_steps:
  "HandleFrameNumGap srt acc n d = Some (ok, d') \<Longrightarrow> steps_ok srt d d'"
  by (auto simp: HandleFrameNumGap_def split: option.splits if_splits dest: gap_loop_steps)

lemma soft_acc [simp]: "soft d (d\<lparr>hd_accelerator := s\<rparr>)"
  by (simp add: soft_def)

lemma check_frame_num_steps: "check_frame_num srt acc n d = Some (ok, d') \<Longrightarrow> steps_ok srt d d'"
  by (auto simp: check_frame_num_def split: if_splits dest: HandleFrameNumGap_steps)

lemma submit_frame_soft:
  assumes "submit_frame srt acc sps pps sh a d = Some (res, d')"
  shows "soft d d'"
proof -
  obtain ok d1 where d1: "InitCurrPicture sh a d = Some (ok, d1)" using assms by (auto simp: submit_frame_def bind_eq_Some_conv)
  show ?thesis
  proof (cases ok)
    case True
    obtain d2 where d2: "UpdatePicNums (sh_frame_num sh) d1 = Some d2"
      using assms d1 True by (cases "UpdatePicNums (sh_frame_num sh) d1") (simp_all add: submit_frame_def)
    obtain d3 where d3: "PrepareRefPicLists srt d2 = Some d3"
      using assms d1 d2 True by (cases "PrepareRefPicLists srt d2") (simp_all add: submit_frame_def)
    have "\<exists>s. d' = d3\<lparr>hd_accelerator := s\<rparr>"
      using assms d1 d2 d3 True by (simp add: submit_frame_def case_prod_beta) blast
    then obtain s where d': "d' = d3\<lparr>hd_accelerator := s\<rparr>" ..
    show ?thesis unfolding d'
      by (rule soft_trans [OF InitCurrPicture_soft [OF d1] soft_trans [OF UpdatePicNums_soft [OF d2]
            soft_trans [OF PrepareRefPicLists_soft [OF d3] soft_acc]]])
  next
    case False
    then show ?thesis using assms d1 InitCurrPicture_soft [OF d1] by (simp add: submit_frame_def)
  qed
qed

lemma StartNewFrame_steps:
  assumes st: "StartNewFrame srt acc sh d = Some (res, d')"
  shows "steps_ok srt d d'"
proof -
  define d0 where "d0 = d\<lparr>hd_curr_pps_id := sh_pic_parameter_set_id sh\<rparr>"
  obtain a where a: "hd_curr_pic d = Some a" using st by (auto simp: StartNewFrame_def split: option.splits)
  have s0: "soft d d0" by (simp add: d0_def soft_def)
  show ?thesis
  proof (cases "GetPPS (hd_curr_pps_id d0) (hd_parser d0)")
    case None
    then have "d' = d0" using st a by (simp add: StartNewFrame_def d0_def Let_def)
    then show ?thesis using soft_steps [OF s0] by simp
  next
    case pps: (Some pps)
    define d1 where "d1 = d0\<lparr>hd_curr_sps_id := pps_seq_parameter_set_id pps\<rparr>"
    have s1: "soft d d1" by (simp add: d1_def d0_def soft_def)
    show ?thesis
    proof (cases "GetSPS (hd_curr_sps_id d1) (hd_parser d1)")
      case None
      then have "d' = d1" using st a pps by (simp add: StartNewFrame_def d0_def d1_def Let_def)
      then show ?thesis using soft_steps [OF s1] by simp
    next
      case sps: (Some sps)
      obtain m where m: "shl4 (sps_log2_max_frame_num_minus4 sps) = Some m"
        using st a pps sps by (auto simp: StartNewFrame_def d0_def d1_def Let_def bind_eq_Some_conv)
      define d2 where "d2 = (let d = d1\<lparr>hd_max_frame_num := m\<rparr> in if sh_idr_pic_flag sh then d\<lparr>hd_prev_ref_frame_num := 0\<rparr> else d)"
      have s2: "soft d d2" by (simp add: d2_def d1_def d0_def soft_def Let_def)
      have eq: "StartNewFrame srt acc sh d = do { (ok, d) \<leftarrow> check_frame_num srt acc (sh_frame_num sh) d2;
          if \<not> ok then Some (kStatusFail, d) else submit_frame srt acc sps pps sh a d }"
        using a pps sps m unfolding StartNewFrame_def Let_def d0_def d1_def d2_def by simp
      obtain ok d3 where d3: "check_frame_num srt acc (sh_frame_num sh) d2 = Some (ok, d3)"
        "d' = d3 \<or> submit_frame srt acc sps pps sh a d3 = Some (res, d')"
        using st unfolding eq by (auto simp: bind_eq_Some_conv split: if_splits)
      show ?thesis
        using soft_steps [OF s2] check_frame_num_steps [OF d3(1)] d3(2) submit_frame_soft soft_steps steps_trans by metis
    qed
  qed
qed

lemma PreprocessCurrentSlice_steps:
  assumes p: "PreprocessCurrentSlice srt acc sh d = Some (res, d')"
  shows "steps_ok srt d d'"
proof (cases "IsNewPrimaryCodedPicture (map_option (pic_of d) (hd_curr_pic d)) (hd_curr_pps_id d) (GetSPS (hd_curr_sps_id d) (hd_parser d)) sh")
  case True
  obtain r d1 where d1: "FinishPrevFrameIfPresent srt acc d = Some (r, d1)"
    using p True by (auto simp: PreprocessCurrentSlice_def bind_eq_Some_conv)
  note s1 = FinishPrev_steps(1) [OF d1]
  have "d' = d1 \<or> (\<exists>d2. (Flush srt acc d1 = Some d2 \<or> d2 = d1) \<and> d' = d2\<lparr>hd_dpb := DPB_Clear (hd_dpb d2), hd_last_output_poc := - (2 ^ 31)\<rparr>)"
    using p True d1 by (auto simp: PreprocessCurrentSlice_def bind_eq_Some_conv split: if_splits)
  then show ?thesis
  proof (elim disjE exE conjE)
    fix d2
    assume d': "d' = d2\<lparr>hd_dpb := DPB_Clear (hd_dpb d2), hd_last_output_poc := - (2 ^ 31)\<rparr>"
      and f: "Flush srt acc d1 = Some d2"
    show ?thesis using s1 Flush_steps [OF f] clear_dpb_steps steps_trans unfolding d' by blast
  next
    fix d2
    assume d': "d' = d2\<lparr>hd_dpb := DPB_Clear (hd_dpb d2), hd_last_output_poc := - (2 ^ 31)\<rparr>" and "d2 = d1"
    then show ?thesis using s1 clear_dpb_steps steps_trans by blast
  qed (use s1 in simp)
qed (use p in \<open>simp add: PreprocessCurrentSlice_def\<close>)

lemma submit_slice_soft:
  assumes "submit_slice acc sh a d = Some (res, d')"
  shows "soft d d'"
proof -
  obtain ok l0 l1 where m: "ModifyReferencePicLists sh d = Some (ok, l0, l1)"
    using assms by (cases "ModifyReferencePicLists sh d") (auto simp: submit_slice_def)
  show ?thesis
  proof (cases ok)
    case True
    then show ?thesis using assms m unfolding submit_slice_def
      by (clarsimp simp: case_prod_beta bind_eq_Some_conv Let_def split: option.splits)
  qed (use assms m in \<open>simp add: submit_slice_def\<close>)
qed

lemma ProcessCurrentSlice_soft:
  assumes "ProcessCurrentSlice acc sh d = Some (res, d')"
  shows "soft d d'"
proof -
  obtain a where a: "hd_curr_pic d = Some a" using assms by (auto simp: ProcessCurrentSlice_def split: option.splits)
  have m: "soft d (d\<lparr>hd_max_pic_num := n\<rparr>)" for n by (simp add: soft_def)
  show ?thesis using assms a by (simp add: ProcessCurrentSlice_def) (drule submit_slice_soft, rule soft_trans [OF m])
qed

text \<open>What a part of \<open>Decode\<close> keeps: the invariant, and the number of bytes left in the stream.\<close>

definition stays :: "pic_sort \<Rightarrow> 'a h264_decoder \<Rightarrow> 'a h264_decoder \<Rightarrow> bool" where
  "stays srt d d' \<longleftrightarrow> (sorts srt \<and> dec_ok d \<longrightarrow> dec_ok d') \<and> hp_bytes_left (hd_parser d') = hp_bytes_left (hd_parser d)"

definition step_stays :: "pic_sort \<Rightarrow> 'a h264_decoder \<Rightarrow> 'a decode_step \<Rightarrow> bool" where
  "step_stays srt d res \<longleftrightarrow> (\<forall>r d'. res = Some (r, d') \<longrightarrow> stays srt d d')"

lemma stays_refl [simp]: "stays srt d d"
  by (simp add: stays_def)

lemma stays_trans: "stays srt d d' \<Longrightarrow> stays srt d' d'' \<Longrightarrow> stays srt d d''"
  by (simp add: stays_def)

lemma steps_stays: "steps_ok srt d d' \<Longrightarrow> stays srt d d'"
  by (simp add: steps_ok_def stays_def)

lemma step_stays_None [simp]: "step_stays srt d None"
  by (simp add: step_stays_def)

lemma step_stays_Some [simp]: "step_stays srt d (Some (r, d')) \<longleftrightarrow> stays srt d d'"
  by (simp add: step_stays_def)

text \<open>The invariant reads neither the state of the decoder nor the slice header.\<close>

lemma stays_update [simp]:
  "stays srt d (d'\<lparr>hd_state := st\<rparr>) \<longleftrightarrow> stays srt d d'"
  "stays srt d (d'\<lparr>hd_curr_slice_hdr := sh\<rparr>) \<longleftrightarrow> stays srt d d'"
  "stays srt d (d'\<lparr>hd_curr_nalu := nalu\<rparr>) \<longleftrightarrow> stays srt d d'"
  "stays srt d (d'\<lparr>hd_accelerator := s\<rparr>) \<longleftrightarrow> stays srt d d'"
  "stays srt d (d'\<lparr>hd_ref_pic_list_p0 := as\<rparr>) \<longleftrightarrow> stays srt d d'"
  "stays srt d (d'\<lparr>hd_ref_pic_list_b0 := as\<rparr>) \<longleftrightarrow> stays srt d d'"
  "stays srt d (d'\<lparr>hd_ref_pic_list_b1 := as\<rparr>) \<longleftrightarrow> stays srt d d'"
  by (auto simp: stays_def dec_ok_def dpb_ok_def cur_ok_def positions_ok_def split: option.splits)

lemma stays_parser:
  "hp_bytes_left p = hp_bytes_left (hd_parser d') \<Longrightarrow> stays srt d (d'\<lparr>hd_parser := p\<rparr>) \<longleftrightarrow> stays srt d d'"
  by (auto simp: stays_def dec_ok_def dpb_ok_def cur_ok_def positions_ok_def split: option.splits)

lemma stays_no_picture: "stays srt d d' \<Longrightarrow> stays srt d (d'\<lparr>hd_curr_pic := None\<rparr>)"
  by (auto simp: stays_def dec_ok_def dpb_ok_def cur_ok_def positions_ok_def)

lemma step_stays_error [simp]: "step_stays srt d (SET_ERROR_AND_RETURN d') \<longleftrightarrow> stays srt d d'"
  by (simp add: SET_ERROR_AND_RETURN_def)

lemma step_stays_check:
  assumes "\<And>r d'. res = Some (r, d') \<Longrightarrow> stays srt d d'" "\<And>d'. stays srt d d' \<Longrightarrow> step_stays srt d (k d')"
  shows "step_stays srt d (CHECK_ACCELERATOR_RESULT res k)"
  using assms by (auto simp: CHECK_ACCELERATOR_RESULT_def split: option.split acc_status.split prod.split)

lemma step_stays_then:
  assumes "step_stays srt d res" "\<And>d'. stays srt d d' \<Longrightarrow> step_stays srt d (k d')"
  shows "step_stays srt d (and_then res k)"
  using assms by (auto simp: and_then_def split: option.split prod.split)

lemma step_stays_if: "(c \<Longrightarrow> step_stays srt d a) \<Longrightarrow> (\<not> c \<Longrightarrow> step_stays srt d b) \<Longrightarrow> step_stays srt d (if c then a else b)"
  by simp

lemma bytes_left_kept:
  "ParseSPS p = Some (res, i, p') \<Longrightarrow> hp_bytes_left p' = hp_bytes_left p"
  "ParsePPS p = Some (res, i, p') \<Longrightarrow> hp_bytes_left p' = hp_bytes_left p"
  "ParseSliceHeader nalu p = Some (res, sh, p') \<Longrightarrow> hp_bytes_left p' = hp_bytes_left p"
  by (auto simp: ParseSliceHeader_def ParseSPS_def ParsePPS_def dest!: with_reader_bytes_left)

lemma finish_stays: "FinishPrevFrameIfPresent srt acc d = Some (res, d') \<Longrightarrow> stays srt d d'"
  by (rule steps_stays [OF FinishPrev_steps(1)])

lemma parse_slice_header_stays: "step_stays srt d (parse_slice_header acc nalu d)"
proof -
  obtain r sh s where acc: "acc_ParseSliceHeader acc nalu (hd_accelerator d) = (r, sh, s)" by (metis prod_cases3)
  show ?thesis
    unfolding parse_slice_header_def acc Let_def prod.case
    by (cases r) (auto split: option.split prod.split intro!: step_stays_then dest: bytes_left_kept(3) simp: stays_parser)
qed

lemma preprocess_slice_stays: "stays srt d0 d \<Longrightarrow> step_stays srt d0 (preprocess_slice srt acc sh d)"
  by (auto simp: preprocess_slice_def intro!: step_stays_check dest!: PreprocessCurrentSlice_steps steps_stays intro: stays_trans)

lemma try_new_frame_stays: "stays srt d0 d \<Longrightarrow> step_stays srt d0 (try_new_frame srt acc sh d)"
  by (auto simp: try_new_frame_def intro!: step_stays_check dest!: StartNewFrame_steps steps_stays intro: stays_trans)

lemma try_current_slice_stays: "stays srt d0 d \<Longrightarrow> step_stays srt d0 (try_current_slice acc sh d)"
  by (auto simp: try_current_slice_def intro!: step_stays_check dest!: ProcessCurrentSlice_soft soft_steps steps_stays intro: stays_trans)

lemma ensure_picture_stays:
  assumes "stays srt d0 d"
  shows "step_stays srt d0 (ensure_picture acc d)"
proof (cases "hd_state d = kEnsurePicture \<and> hd_curr_pic d = None")
  case True
  obtain made s where acc: "acc_CreateH264Picture acc (hd_accelerator d) = (made, s)" by fastforce
  obtain a d1 where new: "new_picture (d\<lparr>hd_accelerator := s\<rparr>) = (a, d1)" by fastforce
  let ?d2 = "upd_pic a (\<lambda>pic. case hd_current_decrypt_config d1 of None \<Rightarrow> pic | Some c \<Rightarrow> pic\<lparr>pi_decrypt_config := Some c\<rparr>) d1"
  note n = new_picture_ok [OF new]
  have soft: "soft d1 ?d2" by (simp add: soft_def split: option.split)
  have "stays srt d (?d2\<lparr>hd_curr_pic := Some a\<rparr>)"
  proof -
    have "dec_ok (?d2\<lparr>hd_curr_pic := Some a\<rparr>)" if "dec_ok d"
    proof -
      have "dec_ok (d\<lparr>hd_accelerator := s\<rparr>)" using that by (simp add: soft_ok(3) [OF soft_acc])
      then have d1: "dec_ok d1" "a \<notin> set (dpb_pics (hd_dpb d1))" using n(4,6) by simp_all
      then have "dec_ok ?d2" using soft_ok(3) [OF soft] by simp
      then have "dpb_ok (?d2\<lparr>hd_curr_pic := Some a\<rparr>)" by (simp add: dec_ok_def dpb_ok_def positions_ok_def)
      then show ?thesis using d1(2) n(1,3,7) by (simp add: dec_ok_def cur_ok_def split: option.split)
    qed
    then show ?thesis using n(2) by (simp add: stays_def)
  qed
  then have "stays srt d0 (?d2\<lparr>hd_curr_pic := Some a\<rparr>)" using assms stays_trans by blast
  then show ?thesis using assms True acc new by (simp add: ensure_picture_def Let_def)
qed (use assms in \<open>auto simp: ensure_picture_def\<close>)

lemma decode_slice_stays: "step_stays srt d (decode_slice srt acc nalu d)"
proof -
  have "step_stays srt d (case hd_curr_slice_hdr d1 of
          None \<Rightarrow> None
        | Some sh \<Rightarrow>
            and_then (preprocess_slice srt acc sh d1) (\<lambda>d.
            and_then (ensure_picture acc d) (\<lambda>d.
            and_then (try_new_frame srt acc sh d) (\<lambda>d.
            try_current_slice acc sh d))))" if "stays srt d d1" for d1
  proof (cases "hd_curr_slice_hdr d1")
    case (Some sh)
    show ?thesis unfolding Some option.case
      by (intro step_stays_then preprocess_slice_stays ensure_picture_stays try_new_frame_stays try_current_slice_stays that)
  qed simp
  then show ?thesis unfolding decode_slice_def
    by (intro step_stays_if step_stays_then parse_slice_header_stays) simp_all
qed

lemma ProcessSPS_stays: "stays srt d0 d \<Longrightarrow> ProcessSPS srt acc i d = Some (ok, need, d') \<Longrightarrow> stays srt d0 d'"
  using ProcessSPS_steps steps_stays stays_trans by blast

lemma decode_sps_stays: "step_stays srt d (decode_sps srt acc d)"
  unfolding decode_sps_def
proof (rule step_stays_check)
  fix d1
  assume d1: "stays srt d d1"
  have parsed: "stays srt d (d1\<lparr>hd_parser := p\<rparr>)" if "ParseSPS (hd_parser d1) = Some (res, i, p)" for res i p
    using d1 bytes_left_kept(1) [OF that] by (simp add: stays_parser)
  show "step_stays srt d (case ParseSPS (hd_parser d1) of
       None \<Rightarrow> None
     | Some (par_res, sps_id, p) \<Rightarrow>
         let d = d1\<lparr>hd_parser := p\<rparr> in
         case sps_id of
           None \<Rightarrow> SET_ERROR_AND_RETURN d
         | Some sps_id \<Rightarrow>
             if par_res \<noteq> kOk then SET_ERROR_AND_RETURN d
             else case ProcessSPS srt acc sps_id d of
               None \<Rightarrow> None
             | Some (ok, need_new_buffers, d) \<Rightarrow>
                 if \<not> ok then SET_ERROR_AND_RETURN d
                 else
                   let d = (if hd_state d = kNeedStreamMetadata then d\<lparr>hd_state := kAfterReset\<rparr> else d) in
                   if need_new_buffers then
                     Some (Some kAllocateNewSurfaces, d\<lparr>hd_curr_pic := None, hd_curr_nalu := None, hd_ref_pic_list_p0 := [],
                       hd_ref_pic_list_b0 := [], hd_ref_pic_list_b1 := []\<rparr>)
                   else Some (None, d))"
    by (auto simp: Let_def split: option.split prod.split dest!: parsed dest: ProcessSPS_stays intro!: stays_no_picture)
qed (rule finish_stays)

lemma decode_pps_stays: "step_stays srt d (decode_pps srt acc d)"
  unfolding decode_pps_def
  by (rule step_stays_check)
    (auto simp: Let_def stays_parser split: option.split prod.split dest: bytes_left_kept(2) intro: finish_stays)

lemma decode_nalu_stays: "step_stays srt d (decode_nalu srt acc nalu d)"
  unfolding decode_nalu_def Let_def
  by (intro step_stays_if decode_slice_stays decode_sps_stays decode_pps_stays step_stays_check) (auto intro: finish_stays)

lemma current_nalu_stays:
  "current_nalu d = (r, d') \<Longrightarrow> (sorts srt \<and> dec_ok d \<longrightarrow> dec_ok d')"
proof -
  assume r: "current_nalu d = (r, d')"
  obtain e nalu p where adv: "AdvanceToNextNALU (hd_parser d) = (e, nalu, p)" by (metis prod_cases3)
  have "dec_ok (d\<lparr>hd_curr_nalu := n, hd_parser := p, hd_state := st\<rparr>) = dec_ok d" 
    "dec_ok (d\<lparr>hd_curr_nalu := n, hd_parser := p\<rparr>) = dec_ok d" for n st
    by (auto simp: dec_ok_def dpb_ok_def cur_ok_def positions_ok_def split: option.splits)
  then show ?thesis using r adv by (auto simp: current_nalu_def Let_def split: option.splits if_splits)
qed

lemma current_nalu_decreases:
  assumes "current_nalu d = (Inr nalu, d1)" "decode_nalu srt acc nalu d1 = Some (None, d2)"
  shows "decode_loop_measure (d2\<lparr>hd_curr_nalu := None\<rparr>) < decode_loop_measure d"
proof -
  have d2: "hp_bytes_left (hd_parser d2) = hp_bytes_left (hd_parser d1)"
    using decode_nalu_stays [of srt d1 acc nalu] assms(2) by (simp add: step_stays_def stays_def)
  obtain e n p where adv: "AdvanceToNextNALU (hd_parser d) = (e, n, p)" by (metis prod_cases3)
  show ?thesis using assms(1) adv d2 Advance_decreases [of "hd_parser d" n p]
    by (auto simp: current_nalu_def decode_loop_measure_def Let_def split: option.splits if_splits)
qed

section \<open>Decode and the calls of the client\<close>

function Decode_loop :: "pic_sort \<Rightarrow> 'a h264_accelerator \<Rightarrow> 'a h264_decoder \<Rightarrow> (decode_result \<times> 'a h264_decoder) option" where
  "Decode_loop srt acc d =
     (case current_nalu d of
        (Inl res, d) \<Rightarrow> Some (res, d)
      | (Inr nalu, d) \<Rightarrow>
          (case decode_nalu srt acc nalu d of
             None \<Rightarrow> None
           | Some (Some res, d) \<Rightarrow> Some (res, d)
           | Some (None, d) \<Rightarrow> Decode_loop srt acc (d\<lparr>hd_curr_nalu := None\<rparr>)))"
  by pat_completeness auto
termination
  by (relation "measure (\<lambda>(srt, acc, d). decode_loop_measure d)") (auto dest: current_nalu_decreases [OF sym])

declare Decode_loop.simps [simp del]

definition Decode :: "pic_sort \<Rightarrow> 'a h264_accelerator \<Rightarrow> 'a h264_decoder \<Rightarrow> (decode_result \<times> 'a h264_decoder) option" where
  "Decode srt acc d =
     (if hd_state d = kError then Some (kDecodeError, d)
      else if hd_current_stream_has_been_changed d then
        let (result, s) = acc_SetStream acc (hd_current_stream d) (hd_current_decrypt_config d) (hd_accelerator d);
            d = d\<lparr>hd_accelerator := s\<rparr>
        in case result of
             kStatusTryAgain \<Rightarrow> Some (kTryAgain, d)
           | kStatusFail \<Rightarrow> Some (kDecodeError, d\<lparr>hd_state := kError\<rparr>)
           | _ \<Rightarrow> Decode_loop srt acc (d\<lparr>hd_current_stream_has_been_changed := False\<rparr>)
      else Decode_loop srt acc d)"

definition GetPicSize :: "'a h264_decoder \<Rightarrow> int \<times> int" where
  "GetPicSize d = hd_pic_size d"

definition kPicsInPipeline :: nat where
  "kPicsInPipeline = 4 + 2"

definition GetRequiredNumOfPictures :: "'a h264_decoder \<Rightarrow> nat" where
  "GetRequiredNumOfPictures d = dpb_max_num_pics (hd_dpb d) + kPicsInPipeline"

lemma Decode_loop_keeps: "Decode_loop srt acc d = Some (res, d') \<Longrightarrow> sorts srt \<Longrightarrow> dec_ok d \<Longrightarrow> dec_ok d'"
proof (induction srt acc d rule: Decode_loop.induct)
  case (1 srt acc d)
  obtain r d1 where r: "current_nalu d = (r, d1)" by fastforce
  have d1: "dec_ok d1" using current_nalu_stays [OF r] 1 by blast
  show ?case
  proof (cases r)
    case (Inl e)
    then show ?thesis using 1(2) r d1 by (subst (asm) Decode_loop.simps) simp
  next
    case (Inr nalu)
    obtain c d2 where c: "decode_nalu srt acc nalu d1 = Some (c, d2)"
      using 1(2) r Inr by (subst (asm) Decode_loop.simps) (auto split: option.splits)
    have "stays srt d1 (d2\<lparr>hd_curr_nalu := None\<rparr>)" "stays srt d1 d2" using decode_nalu_stays [of srt d1 acc nalu] c by simp_all
    then have d2: "dec_ok d2" "dec_ok (d2\<lparr>hd_curr_nalu := None\<rparr>)" using d1 1(3) by (simp_all add: stays_def)
    show ?thesis
    proof (cases c)
      case None
      then have "Decode_loop srt acc (d2\<lparr>hd_curr_nalu := None\<rparr>) = Some (res, d')"
        using 1(2) r Inr c by (subst (asm) Decode_loop.simps) simp
      then show ?thesis using 1(1) r Inr c None d2(2) 1(3) by simp
    next
      case (Some e)
      then show ?thesis using 1(2) r Inr c d2(1) by (subst (asm) Decode_loop.simps) simp
    qed
  qed
qed

text \<open>The calls of a client of the decoder, one after another.\<close>

datatype client_call =
    ClientSetStream int "u8 list" "decrypt_config option"
  | ClientDecode
  | ClientFlush
  | ClientReset

fun do_client_call :: "pic_sort \<Rightarrow> 'a h264_accelerator \<Rightarrow> client_call \<Rightarrow> 'a h264_decoder \<Rightarrow> 'a h264_decoder option" where
  "do_client_call srt acc (ClientSetStream stream_id stream config) d = SetStream_decoder stream_id stream config d"
| "do_client_call srt acc ClientDecode d = map_option snd (Decode srt acc d)"
| "do_client_call srt acc ClientFlush d = Flush srt acc d"
| "do_client_call srt acc ClientReset d = Some (H264Decoder_Reset acc d)"

fun do_client_calls :: "pic_sort \<Rightarrow> 'a h264_accelerator \<Rightarrow> client_call list \<Rightarrow> 'a h264_decoder \<Rightarrow> 'a h264_decoder option" where
  "do_client_calls srt acc [] d = Some d"
| "do_client_calls srt acc (c # cs) d = (case do_client_call srt acc c d of None \<Rightarrow> None | Some d \<Rightarrow> do_client_calls srt acc cs d)"

lemma dec_ok_update [simp]:
  "dec_ok (d\<lparr>hd_state := st\<rparr>) = dec_ok d" "dec_ok (d\<lparr>hd_accelerator := s\<rparr>) = dec_ok d"
  "dec_ok (d\<lparr>hd_current_stream_has_been_changed := c\<rparr>) = dec_ok d" "dec_ok (d\<lparr>hd_parser := p\<rparr>) = dec_ok d"
  "dec_ok (d\<lparr>hd_stream_id := i\<rparr>) = dec_ok d" "dec_ok (d\<lparr>hd_current_stream := bs\<rparr>) = dec_ok d"
  "dec_ok (d\<lparr>hd_current_decrypt_config := config\<rparr>) = dec_ok d"
  by (simp_all add: dec_ok_def dpb_ok_def cur_ok_def positions_ok_def split: option.split)

lemma Decode_keeps: "Decode srt acc d = Some (res, d') \<Longrightarrow> sorts srt \<Longrightarrow> dec_ok d \<Longrightarrow> dec_ok d'"
  by (auto simp: Decode_def Let_def split: if_splits prod.splits acc_status.splits intro: Decode_loop_keeps)

lemma SetStream_decoder_keeps: "SetStream_decoder i bs config d = Some d' \<Longrightarrow> dec_ok d \<Longrightarrow> dec_ok d'"
  by (auto simp: SetStream_decoder_def Let_def split: if_splits option.splits)

lemma Decoder_Reset_ok: "dpb_max_num_pics (hd_dpb d) \<le> kDPBMaxSize \<Longrightarrow> dec_ok (H264Decoder_Reset acc d)"
  by (simp add: H264Decoder_Reset_def dec_ok_def dpb_ok_def cur_ok_def positions_ok_def DPB_Clear_def)

lemma do_client_call_keeps: "do_client_call srt acc c d = Some d' \<Longrightarrow> sorts srt \<Longrightarrow> dec_ok d \<Longrightarrow> dec_ok d'"
proof (cases c)
  case ClientReset
  assume "do_client_call srt acc c d = Some d'" "dec_ok d"
  then show ?thesis using ClientReset Decoder_Reset_ok [of d acc] by (auto simp: dec_ok_def dpb_ok_def)
next
  case ClientFlush
  assume "do_client_call srt acc c d = Some d'" "sorts srt" "dec_ok d"
  then show ?thesis using ClientFlush Flush_steps [of srt acc d d'] by (simp add: steps_ok_def)
qed (auto intro: Decode_keeps SetStream_decoder_keeps)

lemma do_client_calls_keep: "do_client_calls srt acc cs d = Some d' \<Longrightarrow> sorts srt \<Longrightarrow> dec_ok d \<Longrightarrow> dec_ok d'"
  by (induction cs arbitrary: d) (auto split: option.splits dest: do_client_call_keeps)

lemma decoder_init_ok: "dec_ok (H264Decoder_init acc csp s)"
  unfolding H264Decoder_init_def by (rule Decoder_Reset_ok) (simp add: H264Decoder_new_def H264DPB_init_def)

text \<open>
  C4: Whatever the client calls and whatever the stream and the accelerator answer, the pictures in the
  decoder's buffer are distinct, no more than the stream announced and than 16, and each knows its
  position; the current picture is not among them and has not been output.
\<close>
theorem decoder_buffer_invariant:
  assumes "sorts srt" "do_client_calls srt acc calls (H264Decoder_init acc csp s) = Some d"
  shows "distinct (dpb_pics (hd_dpb d)) \<and> length (dpb_pics (hd_dpb d)) \<le> dpb_max_num_pics (hd_dpb d) \<and>
    dpb_max_num_pics (hd_dpb d) \<le> 16 \<and>
    (\<forall>j<length (dpb_pics (hd_dpb d)). pi_dpb_position (pic_of d (dpb_pics (hd_dpb d) ! j)) = j) \<and>
    (\<forall>c. hd_curr_pic d = Some c \<longrightarrow> c \<notin> set (dpb_pics (hd_dpb d)) \<and> \<not> pi_outputted (pic_of d c))"
  using do_client_calls_keep [OF assms(2,1) decoder_init_ok]
  by (auto simp: dec_ok_def dpb_ok_def cur_ok_def positions_ok_def kDPBMaxSize_def)

text \<open>A stream with a sequence parameter set for 16 by 16 samples and a delimiter.\<close>

definition sps_stream :: "u8 list" where
  "sps_stream = [0, 0, 1, 0x67, 0x42, 0, 0x0A, 0xDA, 0x79, 0, 0, 1, 9, 0xF0]"

lemma decoder_sample_run:
  "map_option (\<lambda>d. (dpb_max_num_pics (hd_dpb d), hd_pic_size d, hd_accelerator d))
     (do_client_calls sort_key recorder [ClientSetStream 7 sps_stream None, ClientDecode, ClientDecode, ClientFlush]
        (H264Decoder_init recorder VideoColorSpace_init [])) = Some (16, (16, 16), [])"
  by code_simp

lemma decoder_buffer_invariant_witness:
  "\<exists>d. do_client_calls sort_key recorder [ClientSetStream 7 sps_stream None, ClientDecode, ClientDecode, ClientFlush]
        (H264Decoder_init recorder VideoColorSpace_init []) = Some d \<and>
    distinct (dpb_pics (hd_dpb d)) \<and> length (dpb_pics (hd_dpb d)) \<le> dpb_max_num_pics (hd_dpb d) \<and>
    dpb_max_num_pics (hd_dpb d) = 16"
proof -
  obtain d where d: "do_client_calls sort_key recorder [ClientSetStream 7 sps_stream None, ClientDecode, ClientDecode, ClientFlush]
        (H264Decoder_init recorder VideoColorSpace_init []) = Some d" "dpb_max_num_pics (hd_dpb d) = 16"
    using decoder_sample_run unfolding map_option_eq_Some by blast
  show ?thesis using decoder_buffer_invariant [OF sorts_sort_key d(1)] d by blast
qed

section \<open>Flush\<close>

lemma output_pics_outputs:
  assumes "logs acc log"
  shows "distinct cs \<Longrightarrow> \<forall>c\<in>set cs. \<not> pi_outputted (pic_of d c) \<Longrightarrow>
    \<exists>d'. output_pics acc cs d = Some d' \<and> outs log cs d d'"
proof (induction cs arbitrary: d)
  case (Cons c cs)
  obtain d1 where d1: "OutputPic acc c d = Some d1" "outs log [c] d d1"
    using OutputPic_outs [OF assms, of d c] Cons.prems(2) by auto
  then have "\<forall>c\<in>set cs. \<not> pi_outputted (pic_of d1 c)" using Cons.prems by (auto simp: outs_def)
  then obtain d2 where d2: "output_pics acc cs d1 = Some d2" "outs log cs d1 d2" using Cons.IH Cons.prems(1) by auto
  show ?case using d1(1) d2(1) outs_append [OF d1(2) d2(2)] by simp
qed simp

text \<open>
  C21: \<open>Flush\<close> finishes the current picture, then outputs every picture that still waits, in ascending
  order of the order counts, each once, and leaves the buffer empty.
\<close>
theorem Flush_outputs_all_waiting:
  assumes srt: "sorts srt" and log: "logs acc log"
    and fin: "FinishPrevFrameIfPresent srt acc d = Some (res, d1)" and pics: "distinct (dpb_pics (hd_dpb d1))"
  shows "\<exists>d' S. Flush srt acc d = Some d' \<and> dpb_pics (hd_dpb d') = [] \<and> mset S = mset (waiting d1) \<and>
    sorted (map (\<lambda>b. pi_pic_order_cnt (pic_of d1 b)) S) \<and>
    log (hd_accelerator d') = log (hd_accelerator d1) @ filter (\<lambda>b. \<not> pi_nonexisting (pic_of d1 b)) S"
proof -
  define S where "S = srt (POCAsc (hd_store d1)) (waiting d1)"
  have "distinct S" "\<forall>c\<in>set S. \<not> pi_outputted (pic_of d1 c)" unfolding S_def using srt pics by (simp_all add: waiting_def)
  from output_pics_outputs [OF log this] obtain d2 where d2: "output_pics acc S d1 = Some d2" "outs log S d1 d2" by blast
  have "Flush srt acc d = Some (ClearDPB d2)"
    using fin d2(1) by (simp add: Flush_def OutputAllRemainingPics_def S_def)
  moreover have "sorted (map (\<lambda>b. pi_pic_order_cnt (pic_of d1 b)) S)"
    using sorts_sorted [OF srt, of "POCAsc (hd_store d1)" "waiting d1"] by (simp add: S_def POCAsc_def [abs_def])
  moreover have "mset S = mset (waiting d1)" unfolding S_def by (rule sorts_mset [OF srt])
  ultimately show ?thesis using d2(2) by (intro exI [of _ "ClearDPB d2"] exI [of _ S]) (simp add: ClearDPB_def DPB_Clear_def outs_def)
qed

lemma Flush_outputs_all_waiting_witness:
  "\<exists>d'. Flush sort_key recorder finish_sample = Some d' \<and> dpb_pics (hd_dpb d') = [] \<and> mset (hd_accelerator d') = {#0, 1#}"
proof -
  have cur: "hd_curr_pic finish_sample = None" "hd_accelerator finish_sample = []" "waiting finish_sample = [0, 1]"
    "\<not> pi_nonexisting (pic_of finish_sample b)" for b
    by (simp_all add: finish_sample_def H264Decoder_new_def waiting_def short_pic_def H264Picture_init_def)
  have fin: "FinishPrevFrameIfPresent sort_key recorder finish_sample = Some (kStatusOk, finish_sample)"
    by (simp add: FinishPrevFrameIfPresent_def cur)
  show ?thesis
    using Flush_outputs_all_waiting [OF sorts_sort_key recorder_logs fin] by (fastforce simp: cur)
qed

section \<open>Where the decoder departs from the standard\<close>

text \<open>
  After operation 5 the standard sets the frame number of the picture to 0; here the next picture, with
  frame number 1, is taken for one after a gap.
\<close>

lemma frame_num_after_operation_5:
  assumes "pi_ref (pic_of d a)" "pi_mem_mgmt_5 (pic_of d a)" "1 < pi_frame_num (pic_of d a)" "pi_frame_num (pic_of d a) < hd_max_frame_num d"
  shows "check_frame_num srt acc 1 (store_previous a d) = HandleFrameNumGap srt acc 1 (store_previous a d)"
proof (cases "pi_frame_num (pic_of d a) + 1 = hd_max_frame_num d")
  case True
  then have "(pi_frame_num (pic_of d a) + 1) mod hd_max_frame_num d = 0" by simp
  then show ?thesis using assms(1,3) by (simp add: check_frame_num_def store_previous_def Let_def)
next
  case False
  then have "(pi_frame_num (pic_of d a) + 1) mod hd_max_frame_num d = pi_frame_num (pic_of d a) + 1" using assms(3,4) by simp
  then show ?thesis using assms(1,3) by (simp add: check_frame_num_def store_previous_def Let_def)
qed

text \<open>Operation 3 gives a picture a long-term index that another picture keeps.\<close>

lemma long_term_index_used_twice:
  "\<exists>d'. memory_management_op 3 (ref_pic_marking_zero\<lparr>rpm_memory_mgmnt_control_operation := 3, rpm_difference_of_pic_nums_minus1 := 1\<rparr>)
       refs_sample = Some (True, d') \<and>
     (\<forall>p\<in>{0, 2}. pi_ref (pic_of d' p) \<and> pi_long_term (pic_of d' p) \<and> pi_long_term_frame_idx (pic_of d' p) = 0)"
proof -
  have idx: "pi_long_term_frame_idx (pic_of refs_sample 2) = 0" by (simp add: refs_sample_defs)
  show ?thesis
    by (simp add: memory_management_op_def ref_pic_marking_zero_def Let_def i32_def int_range_def int_max_def GetShortRefPicByPicNum_def idx)
qed

text \<open>A reset while a slice is pending leaves the decoder in a state that accepts a slice of any kind.\<close>

lemma reset_keeps_pending_state:
  "hd_state d \<noteq> kDecoding \<Longrightarrow> hd_state (H264Decoder_Reset acc d) = hd_state d \<and> hd_curr_slice_hdr (H264Decoder_Reset acc d) = None"
  by (simp add: H264Decoder_Reset_def)

section \<open>The loop over missing frame numbers ends\<close>

lemma insert_missing_frame_max:
  assumes "insert_missing_frame srt acc u d = Some (ok, d')"
  shows "hd_max_frame_num d' = hd_max_frame_num d"
proof -
  have counts: "hd_max_frame_num y = hd_max_frame_num x" if "CalculatePicOrderCounts a x = Some (k, y)" for a x y and k
    using that by (auto simp: CalculatePicOrderCounts_def clear_offset_def Let_def split: option.splits if_splits)
  have nums: "hd_max_frame_num y = hd_max_frame_num x" if "UpdatePicNums u x = Some y" for x y :: "'a h264_decoder"
    using that by (auto simp: UpdatePicNums_def)
  obtain a d1 where new: "new_picture d = (a, d1)" by fastforce
  then have d1: "hd_max_frame_num d1 = hd_max_frame_num d" by (auto simp: new_picture_def)
  obtain ok1 d2 where d2: "InitNonexistingPicture a u d1 = Some (ok1, d2)"
    using assms new by (auto simp: insert_missing_frame_def bind_eq_Some_conv)
  then have m2: "hd_max_frame_num d2 = hd_max_frame_num d" using d1 by (auto simp: InitNonexistingPicture_def dest!: counts)
  show ?thesis
  proof (cases ok1)
    case True
    obtain d3 where d3: "UpdatePicNums u d2 = Some d3" "FinishPicture srt acc a d3 = Some (ok, d')"
      using assms new d2 True by (auto simp: insert_missing_frame_def bind_eq_Some_conv)
    show ?thesis using nums [OF d3(1)] FinishPicture_keep [OF d3(2)] m2 by (simp add: keeps_def)
  next
    case False
    then show ?thesis using assms new d2 m2 by (simp add: insert_missing_frame_def)
  qed
qed

text \<open>The rounds of the loop: the frame number and the decoder at the start of each.\<close>

inductive gap_round :: "pic_sort \<Rightarrow> 'a h264_accelerator \<Rightarrow> int \<Rightarrow> int \<times> 'a h264_decoder \<Rightarrow> int \<times> 'a h264_decoder \<Rightarrow> bool"
  for srt acc n where
  gap_start: "gap_round srt acc n x x"
| gap_next: "u \<noteq> n \<Longrightarrow> insert_missing_frame srt acc u d = Some (True, d1) \<Longrightarrow>
    gap_round srt acc n ((u + 1) mod hd_max_frame_num d1, d1) x \<Longrightarrow> gap_round srt acc n (u, d) x"

lemma distance_decreases:
  fixes u n m :: int
  assumes "0 \<le> u" "u < m" "0 \<le> n" "n < m" "u \<noteq> n"
  shows "(n - (u + 1) mod m) mod m = (n - u) mod m - 1" "0 \<le> (u + 1) mod m" "(u + 1) mod m < m"
proof -
  have "(n - (u + 1) mod m) mod m = (n - u - 1) mod m" by (simp add: mod_diff_right_eq algebra_simps)
  moreover have "0 < (n - u) mod m"
  proof (rule ccontr)
    assume "\<not> 0 < (n - u) mod m"
    then have "(n - u) mod m = 0" using assms pos_mod_sign [of m "n - u"] by linarith
    then have "n mod m = u mod m" by (simp add: mod_eq_dvd_iff mod_eq_0_iff_dvd)
    then show False using assms by simp
  qed
  moreover have "(n - u - 1) mod m = ((n - u) mod m - 1) mod m" by (simp add: mod_diff_left_eq)
  moreover have "(n - u) mod m < m" using assms by simp
  ultimately show "(n - (u + 1) mod m) mod m = (n - u) mod m - 1" by simp
  show "0 \<le> (u + 1) mod m" "(u + 1) mod m < m" using assms by simp_all
qed

lemma gap_loop_ends:
  assumes "0 \<le> n" "n < hd_max_frame_num d" "0 \<le> u" "u < hd_max_frame_num d" "(n - u) mod hd_max_frame_num d \<le> int fuel"
    and "frame_num_gap_loop fuel srt acc n u d = None"
  shows "\<exists>u' d'. gap_round srt acc n (u, d) (u', d') \<and> u' \<noteq> n \<and> insert_missing_frame srt acc u' d' = None"
  using assms
proof (induction fuel arbitrary: u d)
  case 0
  then have "(n - u) mod hd_max_frame_num d = 0" using pos_mod_sign [of "hd_max_frame_num d" "n - u"] by linarith
  then have "n mod hd_max_frame_num d = u mod hd_max_frame_num d" by (simp add: mod_eq_dvd_iff mod_eq_0_iff_dvd)
  then have "u = n" using "0.prems" by simp
  then show ?case using "0.prems"(6) by (subst (asm) frame_num_gap_loop.simps) simp
next
  case (Suc fuel)
  have ne: "u \<noteq> n" using Suc.prems(6) by (subst (asm) frame_num_gap_loop.simps) auto
  show ?case
  proof (cases "insert_missing_frame srt acc u d")
    case None
    then show ?thesis using ne gap_start by blast
  next
    case (Some r)
    then obtain d1 where d1: "insert_missing_frame srt acc u d = Some (True, d1)"
      "frame_num_gap_loop fuel srt acc n ((u + 1) mod hd_max_frame_num d1) d1 = None"
      using Suc.prems(6) ne by (subst (asm) frame_num_gap_loop.simps) (cases r; auto split: if_splits)
    note m = insert_missing_frame_max [OF d1(1)]
    note dist = distance_decreases [OF Suc.prems(3,4,1,2) ne]
    have "(n - (u + 1) mod hd_max_frame_num d1) mod hd_max_frame_num d1 \<le> int fuel"
      unfolding m dist(1) using Suc.prems(5) by simp
    then obtain u' d' where "gap_round srt acc n ((u + 1) mod hd_max_frame_num d1, d1) (u', d')" "u' \<noteq> n"
        "insert_missing_frame srt acc u' d' = None"
      using Suc.IH [of d1 "(u + 1) mod hd_max_frame_num d1"] Suc.prems(1,2) dist(2,3) d1(2) unfolding m by blast
    then show ?thesis using gap_next [OF ne d1(1)] by blast
  qed
qed

text \<open>
  C20: The loop that fills a gap in the frame numbers ends for every frame number in range: it has a
  result unless making one of the missing pictures fails a check or overflows.
\<close>
theorem HandleFrameNumGap_ends:
  assumes "0 \<le> frame_num" "frame_num < hd_max_frame_num d"
  shows "(\<exists>r. HandleFrameNumGap srt acc frame_num d = Some r) \<or>
    (\<exists>u d'. gap_round srt acc frame_num ((hd_prev_ref_frame_num d + 1) mod hd_max_frame_num d, d) (u, d') \<and> u \<noteq> frame_num \<and>
       insert_missing_frame srt acc u d' = None)"
proof (cases "HandleFrameNumGap srt acc frame_num d")
  case None
  then have "frame_num_gap_loop (nat (hd_max_frame_num d)) srt acc frame_num ((hd_prev_ref_frame_num d + 1) mod hd_max_frame_num d) d = None"
    by (auto simp: HandleFrameNumGap_def split: option.splits if_splits)
  moreover have "(frame_num - (hd_prev_ref_frame_num d + 1) mod hd_max_frame_num d) mod hd_max_frame_num d \<le> int (nat (hd_max_frame_num d))"
    using assms pos_mod_bound [of "hd_max_frame_num d"] by (simp add: less_imp_le)
  ultimately show ?thesis
    using gap_loop_ends [OF assms, of "(hd_prev_ref_frame_num d + 1) mod hd_max_frame_num d" "nat (hd_max_frame_num d)" srt acc] assms
    by simp
qed simp

lemma HandleFrameNumGap_ends_witness:
  fixes d :: "nat list h264_decoder"
  defines "d \<equiv> finish_sample\<lparr>hd_curr_sps_id := 0, hd_max_frame_num := 16, hd_prev_ref_frame_num := 2,
    hd_parser := H264Parser_init\<lparr>hp_active_SPSes := (\<lambda>_. None)(0 := Some (H264SPS_zero\<lparr>sps_gaps_in_frame_num_value_allowed_flag := True\<rparr>))\<rparr>\<rparr>"
  shows "(\<exists>r. HandleFrameNumGap sort_key recorder 5 d = Some r) \<or>
    (\<exists>u d'. gap_round sort_key recorder 5 (3, d) (u, d') \<and> u \<noteq> 5 \<and> insert_missing_frame sort_key recorder u d' = None)"
  using HandleFrameNumGap_ends [of 5 d sort_key recorder] by (simp add: d_def)

end
