(* ===== verification/Spec2Isabelle.thy ===== *)
theory Spec2Isabelle
  imports Time_Ranges Bit_Reader Byte_Queue Seekable_Buffer Webm_Parser Cast_Framer Interval_Map Mp2t_Stream Source_Buffer_Range H264_Decode
begin

text \<open>
  A verification library for the media component of Chromium (the paths below are under
  \<open>src/\<close>). Modelled is code that carries the component's own logic: containers and byte
  queues, bit readers, the parsers of transport formats and of H.264, the H.264 decoder in front of
  the hardware, the buffered ranges of Media Source, and the Cast RTP path.

  \<^bold>\<open>Parts and how they interact.\<close> The stream parsers receive bytes in chunks of any
  size, hold them in a \<open>ByteQueue\<close> and cut them into elements. \<open>WebMListParser\<close> parses EBML
  elements and calls a client for each; \<open>Mp2tStreamParser\<close> cuts transport packets, passes their
  payloads to one section parser per PID (PAT, PMT, PES), which read their fields with a
  \<open>BitReader\<close>, and queues the buffers that the elementary stream parsers emit. The Cast
  packetizer splits an encoded frame into RTP packets; the receiver parses them, collects them
  in a \<open>FrameBuffer\<close> of its \<open>Framer\<close>, acknowledges frames and asks for missing packets. The
  buffered time of a stream is a \<open>Ranges\<close> container, and a \<open>SourceBufferRange\<close> holds the frames of
  one contiguous part of it. \<open>H264Parser\<close> finds NAL units in a stream, outside the \<open>Ranges\<close> that are
  encrypted, and parses them with an \<open>H264BitReader\<close>; the encoders write such units with an
  \<open>H264BitstreamBuffer\<close>. \<open>H264Decoder\<close> drives the parser over a stream, computes order counts and
  reference lists from its parameter sets and slice headers, keeps the decoded pictures in an
  \<open>H264DPB\<close>, hands the work to an accelerator and outputs the pictures in order. The data source in front of the players is
  a \<open>SeekableBuffer\<close>, and the multi-buffer of the web engine counts its readers in an \<open>IntervalMap\<close>.

  \<^bold>\<open>Theories.\<close>
  \<^item> \<open>Media_Prelude\<close>: machine words, bit and byte lists, \<open>memcpy\<close>, big-endian numbers and the
    lemma collections that the components share.
  \<^item> \<open>Time_Ranges\<close> (\<open>base/ranges.h\<close>, as \<open>Ranges<T>\<close>): the vector of ranges is a list of pairs over
    any linear order. \<open>Add\<close> and \<open>IntersectionWith\<close> keep it sorted, disjoint and coalesced and
    cover exactly the union and the intersection.
  \<^item> \<open>Bit_Reader\<close> (\<open>base/bit_reader_core.cc\<close>, \<open>base/bit_reader.cc\<close>): the two 64-bit registers and
    the byte provider, an interface (locale) that \<open>BitReader\<close> implements. Reads and skips refine
    a list of bits; a reader that failed stays empty.
  \<^item> \<open>Byte_Queue\<close> (\<open>base/byte_queue.cc\<close>, \<open>formats/common/offset_byte_queue.cc\<close>): the block with
    offset and fill is a FIFO of bytes; the offset queue serves the stream at absolute offsets.
  \<^item> \<open>Seekable_Buffer\<close> (\<open>base/seekable_buffer.cc\<close>, \<open>base/data_buffer.cc\<close>): the chunk list with the
    current position as a window on a byte sequence.
  \<^item> \<open>Webm_Ids\<close>, \<open>Webm_Parser\<close> (\<open>formats/webm/webm_parser.cc\<close>, \<open>webm_constants.h\<close>): the tables of
    element IDs, the EBML header and the list parser with its state machine and stack. Parsing in
    pieces equals parsing at once for every root but \<open>Segment\<close>, for which it need not; no assertion
    fails; headers round-trip.
  \<^item> \<open>Cast_Rtp\<close> (\<open>cast/common\<close>, \<open>cast/net/rtp\<close>: frame IDs, packetizer, packet storage, parser) and
    \<open>Cast_Framer\<close> (frame buffer, framer, cast message builder): delivery of a frame over a link
    that reorders and repeats packets, the exact contents of the messages that ask for missing
    packets, the invariant of the framer, and the packet storage of the sender as a map from the
    frames not released, for operations within the limits that its assertions state.
  \<^item> \<open>Interval_Map\<close> (\<open>blink/interval_map.h\<close>): the map of breakpoints is a canonical representation
    of a function on the keys.
  \<^item> \<open>Mp2t_Packet\<close> (\<open>formats/mp2t/ts_packet.cc\<close>, \<open>timestamp_unroller.cc\<close>), \<open>Mp2t_Sections\<close>
    (\<open>ts_section_psi.cc\<close>, \<open>ts_section_pat.cc\<close>, \<open>ts_section_pmt.cc\<close>, \<open>ts_section_pes.cc\<close>,
    \<open>descriptors.cc\<close>) and \<open>Mp2t_Stream\<close> (\<open>mp2t_stream_parser.cc\<close>): the fields of a packet, the
    reassembly of PES packets in all the forms of their header (timestamps, stuffing, length known or
    not), the unrolling of timestamps, the PID filter, the end of the loop.
  \<^item> \<open>Source_Buffer_Range\<close> (\<open>filters/source_buffer_range.cc\<close>, \<open>source_buffer_range_by_pts.cc\<close>): the
    queue of frames in decode order with its keyframe map, read position and byte count. Every
    operation keeps them consistent; truncating, splitting and seeking act on the queue as lists.
  \<^item> \<open>H264_Bits\<close> (\<open>video/h264_bit_reader.cc\<close>, \<open>filters/h264_bitstream_buffer.cc\<close>, \<open>ReadUE\<close> and \<open>ReadSE\<close>
    of the parser): the reader refines the bits of the raw byte sequence that is left when emulation
    prevention is removed; what the writer writes is read back.
  \<^item> \<open>H264_Nalu\<close> (\<open>video/h264_parser.cc\<close>): the data of the parser, the search for start codes, the
    division of a stream into NAL units, encrypted ranges, the sizes computed from a parameter set.
  \<^item> \<open>H264_Parser\<close> (\<open>video/h264_parser.cc\<close>): the parse functions, whose macros are functions that take
    the rest of the code. The locales \<open>h264_reads\<close>, \<open>h264_whole_reads\<close> and \<open>h264_short_reads\<close> prove
    once, for every predicate that reading bits keeps, that no parse function faults and that results
    are within their bounds; they are interpreted for the bits held in a byte, for the bits read so
    far and, for SEI messages, whose type can overflow an \<open>int\<close>, for units of limited length.
  \<^item> \<open>H264_Poc\<close> (\<open>video/h264_poc.cc\<close>, \<open>video/h264_level_limits.cc\<close>): order counts of the three types
    and the limits of the levels. Counts of type 0 recover the order that the encoder meant, as long
    as no memory management operation 5 resets them.
  \<^item> \<open>H264_Dpb\<close> (\<open>gpu/h264_dpb.cc\<close>, with \<open>base/video_color_space.cc\<close> and the fields of
    \<open>base/decrypt_config.h\<close> and \<open>gpu/codec_picture.h\<close>): pictures and their buffer. Pictures are shared
    by reference, so they are addresses into a store (\<open>hd_store\<close>), new ones from \<open>hd_next\<close>.
  \<^item> \<open>H264_Refs\<close>, \<open>H264_Decoder\<close>, \<open>H264_Decode\<close> (\<open>gpu/h264_decoder.cc\<close>): order counts, reference lists and
    their modification; marking, output, parameter sets, gaps in frame numbers, frames and slices;
    the loop of \<open>Decode\<close> over NAL units with its states. Shown are the contents and the order of
    the lists, the agreement of the order counts with \<open>H264POC\<close> for frames without gaps in their
    numbers, what finishing a picture stores, outputs and removes, what \<open>Flush\<close> outputs, the end of both loops, and an invariant of the buffer and the current picture
    that every call of the client keeps, whatever the stream and the accelerator do.

  \<^bold>\<open>Conventions.\<close> A class is a record, a method a function from state to state. A failed
  \<open>DCHECK\<close>, \<open>CHECK\<close> or an access out of bounds is \<open>None\<close>; an error the code reports is part of the
  result. Counts that the code asserts to be non-negative are \<open>nat\<close>, other \<open>int\<close> values are
  \<open>int\<close>; where the code relies on wrap-around or on the bits, values are words, or the modulus is
  written out. Times are integers in microseconds; readings of a clock are arguments. An iterated
  \<open>std::map\<close> is an ascending list of pairs. Callbacks are a record of functions on an abstract
  state of the client, or lists of events that the caller handles; the accelerator of the decoder is
  such a record, and \<open>std::sort\<close>, which is not stable, is a function with the contract \<open>sorts\<close>. The contents of fresh memory
  are a parameter (\<open>fresh\<close>).

  \<^bold>\<open>Bounds and fuel.\<close> Loops are recursions with a termination measure, except these. The
  doubling loop of \<open>ByteQueue::Push\<close> is a \<open>partial_function\<close>, since \<open>size_t\<close> may wrap; lemma
  \<open>grow_enough\<close> shows that it returns for the sizes that an \<open>int\<close> can hold. The loops over
  descriptors and over the streams of a PMT take fuel from the bits left in the section; lemmas
  \<open>descriptors_loop_fuel\<close> and \<open>pid_map_loop_fuel\<close> show that more fuel does not change their result.
  The loop over missing frame numbers of the decoder takes \<open>max_frame_num\<close> as fuel; \<open>HandleFrameNumGap_ends\<close>
  shows that this is enough for every frame number in range. Beyond the range, which only an
  accelerator that parses slice headers itself can deliver, the code would not end and the model gives \<open>None\<close>.
  Hypotheses that bytes held stay below \<open>2 ^ 31\<close> state that the counts fit an \<open>int\<close>.

  \<^bold>\<open>Not modelled.\<close> Logging and histograms; destructors. The parts behind parameters: the
  elementary stream parsers of MPEG-2 TS, the clients of the WebM parser, decoder configurations,
  \<open>base::BigEndianReader\<close> and \<open>base::BigEndianWriter\<close> (not in the repository). Code built only with
  \<open>ENABLE_HLS_SAMPLE_AES\<close>. Outside these components: device drivers, threads and message loops,
  GPU and operating system services, floating-point signal processing, cryptography and glue to
  external libraries. Of the code with logic of its own, the streams and demuxer of Media Source above
  its ranges, the parsers of the other video formats, of MP4 and of the audio formats, the clients of
  the WebM parser and RTCP are outside the scope of this library; each is listed with its reason in
  the manifest.
\<close>

end
